(* ===== verification/Prelude.thy ===== *)
theory Prelude
  imports Complex_Main
begin

text \<open>
  Shared vocabulary of the development. Python values that the modelled modules use
  are given here once: strings with \<^verbatim>\<open>strip\<close>, \<^verbatim>\<open>startswith\<close>, \<^verbatim>\<open>endswith\<close> and the
  \<^verbatim>\<open>or\<close> idiom on optional strings, insertion-ordered dictionaries (association lists whose
  update keeps a key's position, as a Python dict does), stable descending sorting and
  the first-maximum of \<^verbatim>\<open>max(xs, key=...)\<close>, and JSON payloads. A string is a list of
  characters, so the model covers code points below 256; the one module that counts UTF-8
  bytes (theory \<open>Text_Buffer\<close>) uses code points as natural numbers instead. Wall-clock and
  monotonic times are exact reals, passed in as arguments, as are freshly generated
  identifiers.

  The locales are the interfaces the components share: \<open>dict_ops\<close>, what a client may
  rely on of a dictionary; \<open>machine\<close>, an operation that keeps an invariant, with the lemma
  that whole runs keep it; \<open>monotone_machine\<close>, which also relates the states of a run;
  and \<open>fresh_machine\<close>, whose operations bring new names.
\<close>

named_theorems py_simps \<open>unfolding of the small Python helpers\<close>
named_theorems inv_intros \<open>preservation of component invariants\<close>

section \<open>Results\<close>

text \<open>A call either raises (left) or returns (right).\<close>

type_synonym ('e, 'a) result = "'e + 'a"

fun bind_result :: "('e, 'a) result \<Rightarrow> ('a \<Rightarrow> ('e, 'b) result) \<Rightarrow> ('e, 'b) result" where
  "bind_result (Inl e) f = Inl e"
| "bind_result (Inr x) f = f x"

lemma bind_result_Inr_iff [simp]:
  "bind_result r f = Inr y \<longleftrightarrow> (\<exists>x. r = Inr x \<and> f x = Inr y)"
  by (cases r) auto

lemma bind_result_Inl_iff:
  "bind_result r f = Inl e \<longleftrightarrow> r = Inl e \<or> (\<exists>x. r = Inr x \<and> f x = Inl e)"
  by (cases r) auto

section \<open>Strings\<close>

definition is_space :: "char \<Rightarrow> bool" where
  "is_space c = (let n = (of_char c :: nat) in
     (9 \<le> n \<and> n \<le> 13) \<or> (28 \<le> n \<and> n \<le> 32) \<or> n = 133 \<or> n = 160)"

text \<open>For evaluation: the blanks listed, so that no code point is counted out.\<close>

lemma is_space_code [code]:
  "is_space c = (c \<in> set [CHR 0x20, CHR 0x0A, CHR 0x09, CHR 0x0B, CHR 0x0C, CHR 0x0D,
     CHR 0x1C, CHR 0x1D, CHR 0x1E, CHR 0x1F, CHR 0x85, CHR 0xA0])"
proof -
  have eq: "c = d \<longleftrightarrow> (of_char c :: nat) = of_char d" for d by simp
  show ?thesis unfolding is_space_def Let_def list.set insert_iff empty_iff eq by (simp del: of_char_eq_iff) presburger
qed

definition lstrip :: "string \<Rightarrow> string" where
  "lstrip s = dropWhile is_space s"

definition rstrip :: "string \<Rightarrow> string" where
  "rstrip s = rev (dropWhile is_space (rev s))"

definition strip :: "string \<Rightarrow> string" where
  "strip s = rstrip (lstrip s)"

definition rstrip_char :: "char \<Rightarrow> string \<Rightarrow> string" where
  "rstrip_char c s = rev (dropWhile (\<lambda>x. x = c) (rev s))"

definition starts_with :: "string \<Rightarrow> string \<Rightarrow> bool" where
  "starts_with s p = (take (length p) s = p)"

definition ends_with :: "string \<Rightarrow> string \<Rightarrow> bool" where
  "ends_with s p = (length p \<le> length s \<and> drop (length s - length p) s = p)"

text \<open>\<^verbatim>\<open>x or ""\<close> on an optional string, and \<^verbatim>\<open>x or None\<close> on a string.\<close>

definition or_empty :: "string option \<Rightarrow> string" where
  "or_empty x = (case x of None \<Rightarrow> [] | Some s \<Rightarrow> s)"

definition or_none :: "string \<Rightarrow> string option" where
  "or_none s = (if s = [] then None else Some s)"

text \<open>Text in single quotes, as the f-strings of the messages write names.\<close>

definition squote :: "string \<Rightarrow> string" where
  "squote s = CHR 0x27 # s @ [CHR 0x27]"

lemmas [py_simps] = or_empty_def or_none_def

lemma starts_with_append [simp]: "starts_with (p @ s) p"
  by (simp add: starts_with_def)

lemma starts_with_iff: "starts_with s p \<longleftrightarrow> (\<exists>t. s = p @ t)"
  by (metis append_take_drop_id starts_with_append starts_with_def)

lemma ends_with_iff: "ends_with s p \<longleftrightarrow> (\<exists>t. s = t @ p)"
proof
  assume "ends_with s p"
  then show "\<exists>t. s = t @ p"
    by (metis append_take_drop_id ends_with_def)
next
  assume "\<exists>t. s = t @ p"
  then show "ends_with s p" by (auto simp: ends_with_def)
qed

lemma dropWhile_idem_hd: "dropWhile P (dropWhile P xs) = dropWhile P xs"
  by (induction xs) auto

lemma rstrip_prefix: "\<exists>t. s = rstrip s @ t"
proof -
  have "rev s = takeWhile is_space (rev s) @ dropWhile is_space (rev s)" by simp
  then have "s = rev (dropWhile is_space (rev s)) @ rev (takeWhile is_space (rev s))"
    by (metis rev_append rev_rev_ident)
  then show ?thesis unfolding rstrip_def by blast
qed

lemma rstrip_last: "rstrip s \<noteq> [] \<Longrightarrow> \<not> is_space (last (rstrip s))"
  unfolding rstrip_def by (simp add: last_rev hd_dropWhile del: dropWhile_eq_Nil_conv)

lemma rstrip_hd: "rstrip s \<noteq> [] \<Longrightarrow> hd (rstrip s) = hd s"
  by (metis rstrip_prefix hd_append2)

lemma lstrip_hd: "lstrip s \<noteq> [] \<Longrightarrow> \<not> is_space (hd (lstrip s))"
  unfolding lstrip_def by (rule hd_dropWhile)

lemma rstrip_nonspace: "s = [] \<or> \<not> is_space (last s) \<Longrightarrow> rstrip s = s"
  by (cases s rule: rev_cases) (auto simp: rstrip_def)

lemma lstrip_nonspace: "s = [] \<or> \<not> is_space (hd s) \<Longrightarrow> lstrip s = s"
  by (cases s) (auto simp: lstrip_def)

lemma strip_idem [simp]: "strip (strip s) = strip s"
proof (cases "rstrip (lstrip s) = []")
  case True
  then show ?thesis by (simp only: strip_def) (simp add: rstrip_def lstrip_def)
next
  case False
  then have ne: "lstrip s \<noteq> []" by (auto simp: rstrip_def)
  have "\<not> is_space (hd (rstrip (lstrip s)))"
    using False ne lstrip_hd rstrip_hd by metis
  then have "lstrip (rstrip (lstrip s)) = rstrip (lstrip s)"
    by (simp add: lstrip_nonspace)
  moreover have "rstrip (rstrip (lstrip s)) = rstrip (lstrip s)"
    using False rstrip_last rstrip_nonspace by blast
  ultimately show ?thesis by (simp add: strip_def)
qed

lemma length_strip_le: "length (strip s) \<le> length s"
  using length_dropWhile_le [of is_space s]
    length_dropWhile_le [of is_space "rev (dropWhile is_space s)"]
  by (simp add: strip_def rstrip_def lstrip_def)

subsection \<open>Joining and splitting\<close>

fun join :: "'a list \<Rightarrow> 'a list list \<Rightarrow> 'a list" where
  "join sep [] = []"
| "join sep [x] = x"
| "join sep (x # y # ys) = x @ sep @ join sep (y # ys)"

fun split_on :: "char \<Rightarrow> string \<Rightarrow> string list" where
  "split_on c [] = [[]]"
| "split_on c (x # xs) =
     (if x = c then [] # split_on c xs
      else case split_on c xs of [] \<Rightarrow> [[x]] | y # ys \<Rightarrow> (x # y) # ys)"

text \<open>\<^verbatim>\<open>s.partition(c)\<close>: the part before, whether the separator occurs, the part after.\<close>

definition partition_on :: "char \<Rightarrow> string \<Rightarrow> string \<times> bool \<times> string" where
  "partition_on c s =
     (takeWhile (\<lambda>x. x \<noteq> c) s, c \<in> set s, drop 1 (dropWhile (\<lambda>x. x \<noteq> c) s))"

lemma split_on_nonempty [simp]: "split_on c s \<noteq> []"
  by (cases s) (auto split: list.splits)

lemma split_on_no_sep: "c \<notin> set s \<Longrightarrow> split_on c s = [s]"
  by (induction s) auto

lemma split_on_append_sep: "c \<notin> set x \<Longrightarrow> split_on c (x @ c # rest) = x # split_on c rest"
  by (induction x) auto

lemma split_join:
  "xs \<noteq> [] \<Longrightarrow> \<forall>x\<in>set xs. c \<notin> set x \<Longrightarrow> split_on c (join [c] xs) = xs"
  by (induction "[c]" xs rule: join.induct) (auto simp: split_on_no_sep split_on_append_sep)

lemma partition_on_append:
  "c \<notin> set x \<Longrightarrow> partition_on c (x @ c # y) = (x, True, y)"
proof -
  assume a: "c \<notin> set x"
  then have "takeWhile (\<lambda>z. z \<noteq> c) (x @ c # y) = x" by (induction x) auto
  moreover from a have "dropWhile (\<lambda>z. z \<noteq> c) (x @ c # y) = c # y" by (induction x) auto
  ultimately show ?thesis by (simp add: partition_on_def)
qed

section \<open>Sorting and selection\<close>

text \<open>
  \<^verbatim>\<open>sorted(xs, key=f, reverse=True)\<close>: descending by the key, elements with equal keys in
  their original order. \<^term>\<open>sort_key\<close> is stable, so sorting by the negated key is that list.
\<close>

definition sorted_desc :: "('a \<Rightarrow> int) \<Rightarrow> 'a list \<Rightarrow> 'a list" where
  "sorted_desc f xs = sort_key (\<lambda>x. - f x) xs"

lemma set_sorted_desc [simp]: "set (sorted_desc f xs) = set xs"
  by (simp add: sorted_desc_def)

lemma length_sorted_desc [simp]: "length (sorted_desc f xs) = length xs"
  by (simp add: sorted_desc_def)

lemma sorted_desc_stable: "filter (\<lambda>x. f x = k) (sorted_desc f xs) = filter (\<lambda>x. f x = k) xs"
proof -
  have "filter (\<lambda>x. - f x = - k) (sort_key (\<lambda>x. - f x) xs) = filter (\<lambda>x. - f x = - k) xs"
    by (rule sort_key_stable)
  then show ?thesis by (simp add: sorted_desc_def)
qed

lemma sorted_desc_wrt: "sorted_wrt (\<lambda>x y. f y \<le> f x) (sorted_desc f xs)"
proof -
  have "sorted (map (\<lambda>x. - f x) (sort_key (\<lambda>x. - f x) xs))" by (rule sorted_sort_key)
  then show ?thesis by (simp add: sorted_desc_def sorted_wrt_map)
qed

text \<open>The first element of a list that satisfies a predicate (\<^verbatim>\<open>next(gen, None)\<close>).\<close>

lemma find_sorted_desc_max:
  assumes "find P (sorted_desc f xs) = Some x"
  shows "x \<in> set xs \<and> P x \<and> (\<forall>y\<in>set xs. P y \<longrightarrow> f y \<le> f x)"
proof -
  from assms obtain i where i: "i < length (sorted_desc f xs)" "P (sorted_desc f xs ! i)"
      "x = sorted_desc f xs ! i" "\<forall>j<i. \<not> P (sorted_desc f xs ! j)"
    by (auto simp: find_Some_iff)
  have "f y \<le> f x" if y: "y \<in> set xs" and "P y" for y
  proof -
    from y obtain j where j: "j < length (sorted_desc f xs)" "y = sorted_desc f xs ! j"
      by (metis in_set_conv_nth set_sorted_desc)
    with i \<open>P y\<close> have "\<not> j < i" by blast
    then show ?thesis
      using i j sorted_wrt_nth_less [OF sorted_desc_wrt [of f xs], of i j] by fastforce
  qed
  moreover have "x \<in> set xs" using i by (metis nth_mem set_sorted_desc)
  ultimately show ?thesis using i by blast
qed

lemma find_filter: "find P (filter Q xs) = find (\<lambda>x. Q x \<and> P x) xs"
  by (induction xs) auto

lemma find_conj_Some: "find P xs = Some x \<Longrightarrow> Q x \<Longrightarrow> find (\<lambda>y. Q y \<and> P y) xs = Some x"
  by (induction xs) (auto split: if_splits)

lemma find_congI: "(\<And>x. x \<in> set xs \<Longrightarrow> P x = Q x) \<Longrightarrow> find P xs = find Q xs"
  by (induction xs) auto

text \<open>Among equally ranked elements the sort keeps the list's order, so the first match wins.\<close>

lemma find_sorted_desc_first:
  assumes "find P (sorted_desc f xs) = Some x"
  shows "find (\<lambda>y. f y = f x \<and> P y) xs = Some x"
proof -
  have "find (\<lambda>y. f y = f x \<and> P y) (sorted_desc f xs) = Some x"
    using assms by (rule find_conj_Some) simp
  then have "find P (filter (\<lambda>y. f y = f x) (sorted_desc f xs)) = Some x"
    by (simp add: find_filter)
  then show ?thesis by (simp add: sorted_desc_stable find_filter)
qed

lemma find_sorted_desc_None:
  "find P (sorted_desc f xs) = None \<longleftrightarrow> (\<forall>x\<in>set xs. \<not> P x)"
  by (auto simp: find_None_iff)

text \<open>\<^verbatim>\<open>max(x # xs, key=f)\<close>: the first element with the greatest key.\<close>

fun max_first :: "('a \<Rightarrow> int) \<Rightarrow> 'a \<Rightarrow> 'a list \<Rightarrow> 'a" where
  "max_first f x [] = x"
| "max_first f x (y # ys) = (if f x < f y then max_first f y ys else max_first f x ys)"

lemma max_first_in: "max_first f x xs \<in> insert x (set xs)"
  by (induction f x xs rule: max_first.induct) auto

lemma max_first_ge_first: "f x \<le> f (max_first f x xs)"
  by (induction f x xs rule: max_first.induct) auto

lemma max_first_ge_rest: "y \<in> set xs \<Longrightarrow> f y \<le> f (max_first f x xs)"
proof (induction f x xs rule: max_first.induct)
  case (1 f x)
  then show ?case by simp
next
  case (2 f x z zs)
  show ?case
  proof (cases "y = z")
    case True
    then show ?thesis
      using max_first_ge_first [of f z zs] max_first_ge_first [of f x zs] by auto
  next
    case False
    with 2 show ?thesis by auto
  qed
qed

lemmas max_first_ge = max_first_ge_first max_first_ge_rest

section \<open>Insertion-ordered dictionaries\<close>

type_synonym ('k, 'v) dict = "('k \<times> 'v) list"

abbreviation keys :: "('k, 'v) dict \<Rightarrow> 'k list" where
  "keys d \<equiv> map fst d"

definition dict_get :: "('k, 'v) dict \<Rightarrow> 'k \<Rightarrow> 'v option" where
  "dict_get d k = map_of d k"

fun dict_set :: "'k \<Rightarrow> 'v \<Rightarrow> ('k, 'v) dict \<Rightarrow> ('k, 'v) dict" where
  "dict_set k v [] = [(k, v)]"
| "dict_set k v ((k', v') # d) =
     (if k = k' then (k, v) # d else (k', v') # dict_set k v d)"

definition dict_pop :: "'k \<Rightarrow> ('k, 'v) dict \<Rightarrow> ('k, 'v) dict" where
  "dict_pop k d = filter (\<lambda>(k', v). k' \<noteq> k) d"

definition dict_ok :: "('k, 'v) dict \<Rightarrow> bool" where
  "dict_ok d = distinct (keys d)"

lemma dict_get_set: "dict_get (dict_set k v d) k' = (if k' = k then Some v else dict_get d k')"
  by (induction d) (auto simp: dict_get_def)

lemma dict_get_pop: "dict_get (dict_pop k d) k' = (if k' = k then None else dict_get d k')"
  by (induction d) (auto simp: dict_get_def dict_pop_def)

lemma keys_dict_set: "keys (dict_set k v d) = (if k \<in> set (keys d) then keys d else keys d @ [k])"
  by (induction d) (force split: if_splits)+

lemma dict_set_new: "k \<notin> set (keys d) \<Longrightarrow> dict_set k v d = d @ [(k, v)]"
  by (induction d) auto

lemma keys_dict_pop: "keys (dict_pop k d) = filter (\<lambda>x. x \<noteq> k) (keys d)"
  by (induction d) (auto simp: dict_pop_def)

lemma dict_ok_empty: "dict_ok []"
  by (simp add: dict_ok_def)

lemma dict_ok_set: "dict_ok d \<Longrightarrow> dict_ok (dict_set k v d)"
  by (auto simp: dict_ok_def keys_dict_set)

lemma dict_ok_pop: "dict_ok d \<Longrightarrow> dict_ok (dict_pop k d)"
  by (auto simp: dict_ok_def keys_dict_pop)

lemma dict_get_None_iff: "dict_get d k = None \<longleftrightarrow> k \<notin> set (keys d)"
  by (auto simp: dict_get_def map_of_eq_None_iff)

lemma dict_get_SomeD: "dict_get d k = Some v \<Longrightarrow> (k, v) \<in> set d"
  by (simp add: dict_get_def map_of_SomeD)

lemma dict_get_mem: "dict_ok d \<Longrightarrow> (k, v) \<in> set d \<Longrightarrow> dict_get d k = Some v"
  by (simp add: dict_get_def dict_ok_def)

lemma dict_set_mem: "x \<in> set (dict_set k v d) \<Longrightarrow> x = (k, v) \<or> x \<in> set d"
  by (induction d) (auto split: if_splits)

lemma dict_get_filterD:
  "dict_ok d \<Longrightarrow> dict_get (filter P d) k = Some v \<Longrightarrow> dict_get d k = Some v"
  by (meson dict_get_SomeD dict_get_mem filter_is_subset in_mono)

lemma dict_ok_filter: "dict_ok d \<Longrightarrow> dict_ok (filter P d)"
  by (simp add: dict_ok_def distinct_map_filter)

lemma dict_get_map_values:
  "dict_get (map (\<lambda>(k, v). (k, f k v)) d) k = map_option (f k) (dict_get d k)"
  by (induction d) (auto simp: dict_get_def)

text \<open>The dictionary interface: what every client of a Python dict relies on.\<close>

locale dict_ops =
  fixes emp :: "'d"
    and get :: "'d \<Rightarrow> 'k \<Rightarrow> 'v option"
    and upd :: "'k \<Rightarrow> 'v \<Rightarrow> 'd \<Rightarrow> 'd"
    and del :: "'k \<Rightarrow> 'd \<Rightarrow> 'd"
    and ok :: "'d \<Rightarrow> bool"
  assumes get_emp: "get emp k = None"
    and get_upd: "get (upd k v d) k' = (if k' = k then Some v else get d k')"
    and get_del: "get (del k d) k' = (if k' = k then None else get d k')"
    and ok_emp: "ok emp"
    and ok_upd: "ok d \<Longrightarrow> ok (upd k v d)"
    and ok_del: "ok d \<Longrightarrow> ok (del k d)"
begin

lemmas specs = get_emp get_upd get_del

lemma upd_same: "get (upd k v d) k = Some v"
  by (simp add: specs)

lemma upd_other: "k' \<noteq> k \<Longrightarrow> get (upd k v d) k' = get d k'"
  by (simp add: specs)

lemma del_all: "get (fold del ks d) k = (if k \<in> set ks then None else get d k)"
  by (induction ks arbitrary: d) (auto simp: specs)

lemma ok_del_all: "ok d \<Longrightarrow> ok (fold del ks d)"
  by (induction ks arbitrary: d) (auto simp: ok_del)

end

interpretation pydict: dict_ops "[]" dict_get dict_set dict_pop dict_ok
  by unfold_locales
    (simp_all add: dict_get_set dict_get_pop dict_ok_empty dict_ok_set dict_ok_pop
      dict_get_None_iff)

lemmas dict_simps = dict_get_set dict_get_pop

section \<open>Numerals\<close>

text \<open>\<^verbatim>\<open>str(n)\<close> of a natural number.\<close>

fun nat_str :: "nat \<Rightarrow> string" where
  "nat_str n = (if n < 10 then [char_of (48 + n)] else nat_str (n div 10) @ [char_of (48 + n mod 10)])"

declare nat_str.simps [simp del]

lemma digit_char_inj: "char_of (48 + a) = (char_of (48 + b) :: char) \<Longrightarrow> a < 10 \<Longrightarrow> b < 10 \<Longrightarrow> a = (b::nat)"
  using char_of_eq_iff [of "48 + a" "char_of (48 + b)"] by simp

lemma nat_str_nonempty [simp]: "nat_str n \<noteq> []" "[] \<noteq> nat_str n"
  by (subst nat_str.simps, simp)+

lemma nat_str_inj [simp]: "nat_str m = nat_str n \<longleftrightarrow> m = n"
proof
  show "nat_str m = nat_str n \<Longrightarrow> m = n"
  proof (induction m arbitrary: n rule: nat_str.induct)
    case (1 m)
    consider "m < 10" "n < 10" | "m < 10" "10 \<le> n" | "10 \<le> m" "n < 10" | "10 \<le> m" "10 \<le> n" by linarith
    then show ?case
    proof cases
      case 1
      with \<open>nat_str m = nat_str n\<close> show ?thesis by (auto simp: nat_str.simps [of m] nat_str.simps [of n] dest: digit_char_inj)
    next
      case 4
      with 1(2) have "nat_str (m div 10) = nat_str (n div 10)" "m mod 10 = n mod 10"
        by (auto simp: nat_str.simps [of m] nat_str.simps [of n] dest: digit_char_inj)
      with 1(1) 4 have "m div 10 = n div 10" by simp
      with \<open>m mod 10 = n mod 10\<close> show ?thesis by (metis div_mod_decomp)
    qed (use 1(2) in \<open>auto simp: nat_str.simps [of m] nat_str.simps [of n]\<close>)
  qed
qed simp

section \<open>Runs of operations\<close>

text \<open>
  A component's operations as one step function that may raise; an operation that raises
  leaves the state as it was, which is what a Python method that checks before it assigns
  does. \<open>machine\<close> is the contract a component proves of its step, and its runs inherit.
\<close>

fun run_ops :: "('s \<Rightarrow> 'o \<Rightarrow> ('e, 's) result) \<Rightarrow> 's \<Rightarrow> 'o list \<Rightarrow> 's" where
  "run_ops step s [] = s"
| "run_ops step s (x # xs) =
     run_ops step (case step s x of Inl _ \<Rightarrow> s | Inr s' \<Rightarrow> s') xs"

lemma run_ops_append: "run_ops step s (xs @ ys) = run_ops step (run_ops step s xs) ys"
  by (induction xs arbitrary: s) auto

locale machine =
  fixes step :: "'s \<Rightarrow> 'o \<Rightarrow> ('e, 's) result"
    and inv :: "'s \<Rightarrow> bool"
  assumes step_inv: "inv s \<Longrightarrow> step s x = Inr s' \<Longrightarrow> inv s'"
begin

lemma run_inv: "inv s \<Longrightarrow> inv (run_ops step s xs)"
proof (induction xs arbitrary: s)
  case Nil
  then show ?case by simp
next
  case (Cons x xs)
  then show ?case by (cases "step s x") (auto dest: step_inv)
qed

lemma run_prefix_inv: "inv s \<Longrightarrow> inv (run_ops step s (take n xs))"
  by (rule run_inv)

end

text \<open>
  A machine whose step also relates the state before to the state after by a preorder
  (a log that only grows, a counter that never falls): the relation holds over runs.
\<close>

locale monotone_machine = machine step inv
  for step :: "'s \<Rightarrow> 'o \<Rightarrow> ('e, 's) result" and inv :: "'s \<Rightarrow> bool" +
  fixes le :: "'s \<Rightarrow> 's \<Rightarrow> bool"
  assumes le_refl: "le s s"
    and le_trans: "le s t \<Longrightarrow> le t u \<Longrightarrow> le s u"
    and step_le: "inv s \<Longrightarrow> step s x = Inr s' \<Longrightarrow> le s s'"
begin

lemma run_le: "inv s \<Longrightarrow> le s (run_ops step s xs)"
proof (induction xs arbitrary: s)
  case Nil
  then show ?case by (simp add: le_refl)
next
  case (Cons x xs)
  show ?case
  proof (cases "step s x")
    case (Inl e)
    with Cons show ?thesis by simp
  next
    case (Inr s')
    with Cons have "le s s'" "inv s'" by (auto intro: step_le step_inv)
    with Cons Inr show ?thesis by (auto intro: le_trans)
  qed
qed

end

text \<open>
  A machine that consumes names (identifiers, secrets): its invariant is relative to the set
  of names used so far, and an operation may assume that the names it brings are new. Runs
  whose names are all distinct keep the invariant.
\<close>

locale fresh_machine =
  fixes step :: "'s \<Rightarrow> 'o \<Rightarrow> ('e, 's) result"
    and inv :: "'n set \<Rightarrow> 's \<Rightarrow> bool"
    and names :: "'o \<Rightarrow> 'n list"
  assumes fresh_step: "inv used s \<Longrightarrow> set (names x) \<inter> used = {} \<Longrightarrow> step s x = Inr s' \<Longrightarrow>
      inv (used \<union> set (names x)) s'"
    and weaken: "inv used s \<Longrightarrow> used \<subseteq> used' \<Longrightarrow> inv used' s"
begin

lemma fresh_run:
  assumes "inv used s" "distinct (concat (map names xs))" "set (concat (map names xs)) \<inter> used = {}"
  shows "inv (used \<union> set (concat (map names xs))) (run_ops step s xs)"
  using assms
proof (induction xs arbitrary: used s)
  case Nil
  then show ?case by simp
next
  case (Cons x xs)
  let ?s = "case step s x of Inl _ \<Rightarrow> s | Inr s' \<Rightarrow> s'"
  have "inv (used \<union> set (names x)) ?s"
    using Cons.prems by (cases "step s x") (auto intro: weaken fresh_step)
  then have "inv ((used \<union> set (names x)) \<union> set (concat (map names xs))) (run_ops step ?s xs)"
    by (rule Cons.IH) (use Cons.prems in auto)
  then show ?case by (simp add: Un_assoc)
qed

end

section \<open>Exceptions\<close>

text \<open>The exceptions the modelled handlers tell apart: an ordinary \<^verbatim>\<open>Exception\<close> with its text,
  the two interactive interruptions, and any other \<^verbatim>\<open>BaseException\<close>.\<close>

datatype py_exn =
    Py_Exception string
  | Py_KeyboardInterrupt
  | Py_EOFError
  | Py_BaseException string

section \<open>JSON payloads\<close>

datatype json =
    JNull
  | JBool bool
  | JInt int
  | JReal real
  | JStr string
  | JList "json list"
  | JObj "(string \<times> json) list"

fun json_opt_str :: "string option \<Rightarrow> json" where
  "json_opt_str None = JNull"
| "json_opt_str (Some s) = JStr s"

fun json_opt_int :: "int option \<Rightarrow> json" where
  "json_opt_int None = JNull"
| "json_opt_int (Some n) = JInt n"

text \<open>Truth value of a Python object.\<close>

fun truthy :: "json \<Rightarrow> bool" where
  "truthy JNull = False"
| "truthy (JBool b) = b"
| "truthy (JInt n) = (n \<noteq> 0)"
| "truthy (JReal x) = (x \<noteq> 0)"
| "truthy (JStr s) = (s \<noteq> [])"
| "truthy (JList xs) = (xs \<noteq> [])"
| "truthy (JObj fs) = (fs \<noteq> [])"

definition meta_true :: "(string, json) dict \<Rightarrow> string \<Rightarrow> bool" where
  "meta_true d k = (case dict_get d k of None \<Rightarrow> False | Some v \<Rightarrow> truthy v)"

text \<open>\<^verbatim>\<open>d.get(k)\<close> on a JSON object; a missing key reads as \<^const>\<open>JNull\<close> (Python's None).\<close>

fun jget :: "json \<Rightarrow> string \<Rightarrow> json" where
  "jget (JObj fs) k = (case map_of fs k of None \<Rightarrow> JNull | Some v \<Rightarrow> v)"
| "jget _ _ = JNull"

end
