(* ===== verification/Hook_Types.thy ===== *)
theory Hook_Types
  imports Prelude
begin

text \<open>
  The values that travel between the tool pipeline, the hooks and the approval policy:
  \<^verbatim>\<open>domain/llm/models.py\<close> (\<open>ToolCall\<close>) and \<^verbatim>\<open>domain/hooks/types.py\<close> (hook kinds and points,
  \<open>GuardDecision\<close> with its four constructors, and the deferred dispatch callbacks of
  \<open>BeforeLLMRequestContext\<close>).
\<close>

record tool_call =
  tc_id :: string
  tc_name :: string
  tc_arguments :: json

datatype hook_kind = GUARD | TRANSFORM | OBSERVER

datatype hook_point =
    BEFORE_TOOL_EXECUTE
  | AFTER_TOOL_EXECUTE
  | BEFORE_LLM_REQUEST
  | AFTER_LLM_RESPONSE
  | RUNNER_STARTUP
  | RUNNER_SHUTDOWN
  | SESSION_START
  | SESSION_SAVE

fun hook_kind_value :: "hook_kind \<Rightarrow> string" where
  "hook_kind_value GUARD = ''guard''"
| "hook_kind_value TRANSFORM = ''transform''"
| "hook_kind_value OBSERVER = ''observer''"

fun hook_point_value :: "hook_point \<Rightarrow> string" where
  "hook_point_value BEFORE_TOOL_EXECUTE = ''before_tool_execute''"
| "hook_point_value AFTER_TOOL_EXECUTE = ''after_tool_execute''"
| "hook_point_value BEFORE_LLM_REQUEST = ''before_llm_request''"
| "hook_point_value AFTER_LLM_RESPONSE = ''after_llm_response''"
| "hook_point_value RUNNER_STARTUP = ''runner_startup''"
| "hook_point_value RUNNER_SHUTDOWN = ''runner_shutdown''"
| "hook_point_value SESSION_START = ''session_start''"
| "hook_point_value SESSION_SAVE = ''session_save''"

section \<open>Guard decisions\<close>

record guard_decision =
  gd_allowed :: bool
  gd_reason :: "string option"
  gd_warning :: "string option"
  gd_requires_approval :: bool

definition gd_allow :: guard_decision where
  "gd_allow = \<lparr>gd_allowed = True, gd_reason = None, gd_warning = None,
     gd_requires_approval = False\<rparr>"

definition gd_deny :: "string \<Rightarrow> guard_decision" where
  "gd_deny reason = \<lparr>gd_allowed = False, gd_reason = Some reason, gd_warning = None,
     gd_requires_approval = False\<rparr>"

definition gd_warn :: "string \<Rightarrow> guard_decision" where
  "gd_warn warning = \<lparr>gd_allowed = True, gd_reason = None, gd_warning = Some warning,
     gd_requires_approval = False\<rparr>"

definition gd_require_approval :: "string option \<Rightarrow> guard_decision" where
  "gd_require_approval reason = \<lparr>gd_allowed = True, gd_reason = reason, gd_warning = None,
     gd_requires_approval = True\<rparr>"

lemmas gd_defs = gd_allow_def gd_deny_def gd_warn_def gd_require_approval_def

section \<open>Deferred dispatch callbacks\<close>

text \<open>
  \<open>BeforeLLMRequestContext\<close> carries callbacks that run once, at the hand-off to the
  provider. A callback is kept abstract: it maps the context's payload to a new payload and
  says whether it raised.
\<close>

record 'p llm_request_context =
  lr_payload :: 'p
  lr_callbacks :: "('p \<Rightarrow> 'p \<times> bool) list"
  lr_payload_changed :: bool

definition defer_until_dispatch ::
    "('p \<Rightarrow> 'p \<times> bool) \<Rightarrow> 'p llm_request_context \<Rightarrow> 'p llm_request_context" where
  "defer_until_dispatch cb ctx = ctx\<lparr>lr_callbacks := lr_callbacks ctx @ [cb]\<rparr>"

text \<open>The source's \<^verbatim>\<open>target is self\<close> case changes nothing; the two contexts are distinct here.\<close>

definition transfer_dispatch_callbacks_to ::
    "'p llm_request_context \<Rightarrow> 'p llm_request_context
      \<Rightarrow> 'p llm_request_context \<times> 'p llm_request_context" where
  "transfer_dispatch_callbacks_to ctx target =
     (let target1 = target\<lparr>lr_callbacks := lr_callbacks ctx @ lr_callbacks target\<rparr>;
          ctx1 = ctx\<lparr>lr_callbacks := []\<rparr>
      in if lr_payload_changed ctx
         then (ctx1\<lparr>lr_payload_changed := False\<rparr>, target1\<lparr>lr_payload_changed := True\<rparr>)
         else (ctx1, target1))"

fun commit_callbacks :: "('p \<Rightarrow> 'p \<times> bool) list \<Rightarrow> 'p \<Rightarrow> nat \<Rightarrow> 'p \<times> nat" where
  "commit_callbacks [] p failures = (p, failures)"
| "commit_callbacks (cb # cbs) p failures =
     (let (p', raised) = cb p
      in commit_callbacks cbs p' (if raised then Suc failures else failures))"

definition commit_dispatch_callbacks ::
    "'p llm_request_context \<Rightarrow> 'p llm_request_context \<times> nat" where
  "commit_dispatch_callbacks ctx =
     (let (p, failures) = commit_callbacks (lr_callbacks ctx) (lr_payload ctx) 0
      in (ctx\<lparr>lr_callbacks := [], lr_payload := p\<rparr>, failures))"

definition consume_dispatch_payload_changed ::
    "'p llm_request_context \<Rightarrow> 'p llm_request_context \<times> bool" where
  "consume_dispatch_payload_changed ctx =
     (ctx\<lparr>lr_payload_changed := False\<rparr>, lr_payload_changed ctx)"

lemma commit_callbacks_append:
  "commit_callbacks (xs @ ys) p n =
     (case commit_callbacks xs p n of (p', n') \<Rightarrow> commit_callbacks ys p' n')"
  by (induction xs arbitrary: p n) (auto split: prod.splits)

lemma transfer_keeps_order:
  "lr_callbacks (snd (transfer_dispatch_callbacks_to ctx target)) =
     lr_callbacks ctx @ lr_callbacks target"
  "lr_callbacks (fst (transfer_dispatch_callbacks_to ctx target)) = []"
  by (simp_all add: transfer_dispatch_callbacks_to_def Let_def)

lemma commit_twice_runs_once:
  "commit_dispatch_callbacks (fst (commit_dispatch_callbacks ctx)) =
     (fst (commit_dispatch_callbacks ctx), 0)"
  by (simp add: commit_dispatch_callbacks_def split: prod.splits)

end
