(* ===== verification/Approval_Engine.thy ===== *)
theory Approval_Engine
  imports Hook_Types
begin

text \<open>
  The approval policy engine (\<^verbatim>\<open>domain/approval_engine.py\<close>), the rule and config records it
  reads (\<^verbatim>\<open>domain/config/models.py\<close>) and the guard hook that consults it before a tool runs
  (\<^verbatim>\<open>extensions/hooks/builtin/tool_policy.py\<close>). The lemmas show that the engine resolves each
  subject by its most specific matching rule, that a call on several subjects is governed by
  the strictest of them, that a subtree pattern covers exactly the subtree, and that the
  guard lets a call through without asking only when the engine said so.
\<close>

section \<open>Rules and contexts\<close>

datatype approval_action = Allow | Warn | Require_Approval | Deny

record approval_rule_config =
  rule_tool_name :: "string option"
  rule_tool_source :: "string option"
  rule_mcp_server :: "string option"
  rule_effect_class :: "string option"
  rule_profile :: "string option"
  rule_pattern :: "string option"
  rule_scope_key :: "string option"
  rule_action :: approval_action

datatype reviewer = User_Reviewer | Auto_Review

record approval_config =
  default_mode :: approval_action
  config_rules :: "approval_rule_config list"
  config_reviewer :: reviewer
  auto_review_model_profile :: "string option"
  auto_review_policy :: string
  auto_review_timeout_seconds :: int

record tool_approval_context =
  ctx_tool_call :: tool_call
  ctx_tool_name :: string
  ctx_tool_source :: string
  ctx_mcp_server :: "string option"
  ctx_effect_class :: "string option"
  ctx_profile :: "string option"
  ctx_tool_description :: "string option"
  ctx_tool_schema :: "json option"
  ctx_subjects :: "string list"
  ctx_scope_key :: "string option"

record approval_policy_match =
  match_action :: approval_action
  match_rule :: "approval_rule_config option"

text \<open>The dataclass defaults: \<^verbatim>\<open>ApprovalRuleConfig()\<close> and \<^verbatim>\<open>ApprovalConfig()\<close>.\<close>

definition default_rule :: approval_rule_config where
  "default_rule = \<lparr>rule_tool_name = None, rule_tool_source = None, rule_mcp_server = None,
     rule_effect_class = None, rule_profile = None, rule_pattern = None,
     rule_scope_key = None, rule_action = Require_Approval\<rparr>"

definition default_approval_config :: approval_config where
  "default_approval_config = \<lparr>default_mode = Require_Approval, config_rules = [],
     config_reviewer = User_Reviewer, auto_review_model_profile = None,
     auto_review_policy = [], auto_review_timeout_seconds = 15\<rparr>"

section \<open>Policy evaluation\<close>

definition matches_subject :: "string option \<Rightarrow> string \<Rightarrow> bool" where
  "matches_subject pattern subject =
     (case pattern of
        None \<Rightarrow> True
      | Some p \<Rightarrow>
          if p = ''*'' then True
          else if ends_with p ''/**''
          then (let base = rstrip_char (CHR ''/'') (take (length p - 3) p)
                in subject = base \<or> starts_with subject (base @ ''/''))
          else subject = p)"

definition approval_pattern_matches :: "string option \<Rightarrow> string \<Rightarrow> bool" where
  "approval_pattern_matches pattern subject = matches_subject pattern subject"

definition matches_dimensions :: "approval_rule_config \<Rightarrow> tool_approval_context \<Rightarrow> bool" where
  "matches_dimensions rule context =
     (if rule_tool_name rule \<noteq> None \<and> rule_tool_name rule \<noteq> Some (ctx_tool_name context)
      then False
      else if rule_tool_source rule \<noteq> None \<and> rule_tool_source rule \<noteq> Some (ctx_tool_source context)
      then False
      else if rule_mcp_server rule \<noteq> None \<and> rule_mcp_server rule \<noteq> ctx_mcp_server context
      then False
      else if rule_effect_class rule \<noteq> None \<and> rule_effect_class rule \<noteq> ctx_effect_class context
      then False
      else if rule_profile rule \<noteq> None \<and> rule_profile rule \<noteq> ctx_profile context
      then False
      else if rule_scope_key rule \<noteq> None \<and> rule_scope_key rule \<noteq> ctx_scope_key context
      then False
      else True)"

definition specificity :: "approval_rule_config \<Rightarrow> int" where
  "specificity rule =
     (if rule_tool_source rule \<noteq> None then 1 else 0)
     + (if rule_mcp_server rule \<noteq> None then 2 else 0)
     + (if rule_tool_name rule \<noteq> None then 4 else 0)
     + (if rule_effect_class rule \<noteq> None then 1 else 0)
     + (if rule_profile rule \<noteq> None then 1 else 0)
     + (case rule_pattern rule of
          None \<Rightarrow> 0
        | Some p \<Rightarrow> if p = ''*'' then 1 else if ends_with p ''/**'' then 2 else 3)
     + (if rule_scope_key rule \<noteq> None then 2 else 0)"

definition fallback_action :: "approval_config \<Rightarrow> tool_approval_context \<Rightarrow> approval_action" where
  "fallback_action cfg context =
     (if ctx_effect_class context \<in> {Some ''read_only_internal'', Some ''control_plane_internal''}
      then Allow else default_mode cfg)"

fun action_priority :: "approval_action \<Rightarrow> int" where
  "action_priority Allow = 0"
| "action_priority Warn = 1"
| "action_priority Require_Approval = 2"
| "action_priority Deny = 3"

definition rule_match :: "approval_rule_config \<Rightarrow> approval_policy_match" where
  "rule_match rule = \<lparr>match_action = rule_action rule, match_rule = Some rule\<rparr>"

definition fallback_match ::
    "approval_config \<Rightarrow> tool_approval_context \<Rightarrow> approval_policy_match" where
  "fallback_match cfg context = \<lparr>match_action = fallback_action cfg context, match_rule = None\<rparr>"

definition ranked_rules :: "approval_config \<Rightarrow> approval_rule_config list" where
  "ranked_rules cfg = sorted_desc specificity (config_rules cfg)"

text \<open>The generator expression inside the loop over subjects: the first ranked rule that matches.\<close>

definition resolve_subject ::
    "approval_config \<Rightarrow> tool_approval_context \<Rightarrow> string \<Rightarrow> approval_policy_match" where
  "resolve_subject cfg context subject =
     (case find (\<lambda>rule. matches_dimensions rule context \<and> matches_subject (rule_pattern rule) subject)
             (ranked_rules cfg) of
        Some rule \<Rightarrow> rule_match rule
      | None \<Rightarrow> fallback_match cfg context)"

definition evaluate :: "approval_config \<Rightarrow> tool_approval_context \<Rightarrow> approval_policy_match" where
  "evaluate cfg context =
     (case ctx_subjects context of
        [] \<Rightarrow>
          (case find (\<lambda>rule. matches_dimensions rule context \<and> rule_pattern rule = None)
                  (ranked_rules cfg) of
             Some rule \<Rightarrow> rule_match rule
           | None \<Rightarrow> fallback_match cfg context)
      | s # ss \<Rightarrow>
          max_first (\<lambda>m. action_priority (match_action m))
            (resolve_subject cfg context s) (map (resolve_subject cfg context) ss))"

section \<open>The guard hook\<close>

text \<open>
  The metadata entries the hook reads. A missing \<^verbatim>\<open>tool_source\<close> is inferred from the tool's
  name; a missing or empty \<^verbatim>\<open>approval_subjects\<close> is the empty tuple.
\<close>

record tool_metadata =
  md_tool_source :: "string option"
  md_mcp_server :: "string option"
  md_effect_class :: "string option"
  md_profile :: "string option"
  md_tool_description :: "string option"
  md_tool_schema :: "json option"
  md_approval_subjects :: "string list"
  md_approval_scope_key :: "string option"

type_synonym tool_policy = "tool_call \<Rightarrow> guard_decision option"

record tool_policy_guard =
  guard_policies :: "tool_policy list"
  guard_engine :: "approval_config option"

definition builtin_tool_names :: "string list" where
  "builtin_tool_names =
     [''shell'', ''shell_session'', ''read_file'', ''write_file'', ''edit_file'', ''apply_patch'',
      ''context_inspect'', ''read_agent'', ''glob'', ''grep'', ''spawn_agent'', ''send_message'',
      ''list_agents'', ''wait_agent'', ''interrupt_agent'', ''write_note'', ''edit_note'',
      ''delete_note'']"

definition infer_tool_source :: "string \<Rightarrow> string" where
  "infer_tool_source tool_name =
     (if tool_name \<in> set builtin_tool_names then ''builtin'' else ''mcp'')"

definition approval_context_of :: "tool_call \<Rightarrow> tool_metadata \<Rightarrow> tool_approval_context" where
  "approval_context_of tc metadata =
     \<lparr>ctx_tool_call = tc, ctx_tool_name = tc_name tc,
      ctx_tool_source =
        (case md_tool_source metadata of
           Some src \<Rightarrow> src | None \<Rightarrow> infer_tool_source (tc_name tc)),
      ctx_mcp_server = md_mcp_server metadata,
      ctx_effect_class = md_effect_class metadata,
      ctx_profile = md_profile metadata,
      ctx_tool_description = md_tool_description metadata,
      ctx_tool_schema = md_tool_schema metadata,
      ctx_subjects = md_approval_subjects metadata,
      ctx_scope_key = md_approval_scope_key metadata\<rparr>"

text \<open>The loop over the built-in policies: an early decision, or the warnings collected.\<close>

fun run_policies ::
    "tool_policy list \<Rightarrow> tool_call \<Rightarrow> string list \<Rightarrow> guard_decision + string list" where
  "run_policies [] tc warnings = Inr warnings"
| "run_policies (policy # policies) tc warnings =
     (case policy tc of
        None \<Rightarrow> run_policies policies tc warnings
      | Some decision \<Rightarrow>
          if \<not> gd_allowed decision then Inl decision
          else
            let warnings' =
                  (if or_empty (gd_warning decision) \<noteq> []
                   then warnings @ [or_empty (gd_warning decision)] else warnings)
            in if gd_requires_approval decision then Inl decision
               else run_policies policies tc warnings')"

definition finish_guard :: "string list \<Rightarrow> guard_decision" where
  "finish_guard warnings = (if warnings \<noteq> [] then gd_warn (join ''; '' warnings) else gd_allow)"

definition guard_run ::
    "tool_policy_guard \<Rightarrow> tool_call option \<Rightarrow> tool_metadata \<Rightarrow> guard_decision" where
  "guard_run hook call metadata =
     (case call of
        None \<Rightarrow> gd_allow
      | Some tc \<Rightarrow>
          (case run_policies (guard_policies hook) tc [] of
             Inl decision \<Rightarrow> decision
           | Inr warnings \<Rightarrow>
               (case guard_engine hook of
                  None \<Rightarrow> finish_guard warnings
                | Some cfg \<Rightarrow>
                    (case match_action (evaluate cfg (approval_context_of tc metadata)) of
                       Deny \<Rightarrow>
                         gd_deny (''Tool '' @ squote (tc_name tc) @ '' blocked by approval policy engine'')
                     | Warn \<Rightarrow>
                         finish_guard (warnings @
                           [''Tool '' @ squote (tc_name tc) @ '' matched warning approval policy''])
                     | Require_Approval \<Rightarrow>
                         gd_require_approval
                           (Some (''Tool '' @ squote (tc_name tc) @ '' requires approval by policy''))
                     | Allow \<Rightarrow> finish_guard warnings))))"

definition update_approval_config ::
    "approval_config \<Rightarrow> tool_policy_guard \<Rightarrow> tool_policy_guard" where
  "update_approval_config cfg hook = hook\<lparr>guard_engine := Some cfg\<rparr>"

section \<open>Most specific rule, strictest subject\<close>

lemma matches_dimensions_iff:
  "matches_dimensions rule context \<longleftrightarrow>
     (rule_tool_name rule = None \<or> rule_tool_name rule = Some (ctx_tool_name context)) \<and>
     (rule_tool_source rule = None \<or> rule_tool_source rule = Some (ctx_tool_source context)) \<and>
     (rule_mcp_server rule = None \<or> rule_mcp_server rule = ctx_mcp_server context) \<and>
     (rule_effect_class rule = None \<or> rule_effect_class rule = ctx_effect_class context) \<and>
     (rule_profile rule = None \<or> rule_profile rule = ctx_profile context) \<and>
     (rule_scope_key rule = None \<or> rule_scope_key rule = ctx_scope_key context)"
  by (auto simp: matches_dimensions_def)

text \<open>Rules that apply to a subject: the dimensions agree and the pattern covers it.\<close>

definition applies :: "approval_rule_config \<Rightarrow> tool_approval_context \<Rightarrow> string \<Rightarrow> bool" where
  "applies rule context subject \<longleftrightarrow>
     matches_dimensions rule context \<and> matches_subject (rule_pattern rule) subject"

lemma resolve_subject_find:
  "resolve_subject cfg context subject =
     (case find (\<lambda>rule. applies rule context subject) (ranked_rules cfg) of
        Some rule \<Rightarrow> rule_match rule | None \<Rightarrow> fallback_match cfg context)"
  by (simp add: resolve_subject_def applies_def)

lemma resolve_subject_rule:
  assumes "match_rule (resolve_subject cfg context subject) = Some rule"
  shows "rule \<in> set (config_rules cfg)" "applies rule context subject"
    "\<And>other. other \<in> set (config_rules cfg) \<Longrightarrow> applies other context subject
        \<Longrightarrow> specificity other \<le> specificity rule"
    "find (\<lambda>other. specificity other = specificity rule \<and> applies other context subject)
        (config_rules cfg) = Some rule"
    "match_action (resolve_subject cfg context subject) = rule_action rule"
proof -
  have found: "find (\<lambda>r. applies r context subject) (ranked_rules cfg) = Some rule"
    using assms by (auto simp: resolve_subject_find rule_match_def fallback_match_def
        split: option.splits)
  note best = find_sorted_desc_max [OF found [unfolded ranked_rules_def]]
  from best show "rule \<in> set (config_rules cfg)" "applies rule context subject" by blast+
  show "specificity other \<le> specificity rule"
    if "other \<in> set (config_rules cfg)" "applies other context subject" for other
    using best that by blast
  show "find (\<lambda>other. specificity other = specificity rule \<and> applies other context subject)
        (config_rules cfg) = Some rule"
    by (rule find_sorted_desc_first [OF found [unfolded ranked_rules_def]])
  show "match_action (resolve_subject cfg context subject) = rule_action rule"
    using found by (simp add: resolve_subject_find rule_match_def)
qed

lemma resolve_subject_no_rule:
  "match_rule (resolve_subject cfg context subject) = None \<longleftrightarrow>
     (\<forall>rule\<in>set (config_rules cfg). \<not> applies rule context subject)"
  by (auto simp: resolve_subject_find rule_match_def fallback_match_def ranked_rules_def
      find_None_iff split: option.splits)
     (metis find_None_iff option.distinct(1) set_sorted_desc)+

lemma resolve_subject_fallback:
  "match_rule (resolve_subject cfg context subject) = None
    \<Longrightarrow> match_action (resolve_subject cfg context subject) = fallback_action cfg context"
  by (auto simp: resolve_subject_find rule_match_def fallback_match_def split: option.splits)

lemma evaluate_subjects:
  assumes "ctx_subjects context = s # ss"
  shows "\<exists>t\<in>set (s # ss). evaluate cfg context = resolve_subject cfg context t"
    and "t \<in> set (s # ss) \<Longrightarrow> action_priority (match_action (resolve_subject cfg context t))
           \<le> action_priority (match_action (evaluate cfg context))"
proof -
  let ?f = "\<lambda>m. action_priority (match_action m)"
  let ?r = "resolve_subject cfg context"
  have ev: "evaluate cfg context = max_first ?f (?r s) (map ?r ss)"
    using assms by (simp add: evaluate_def)
  show "\<exists>t\<in>set (s # ss). evaluate cfg context = ?r t"
    using max_first_in [of ?f "?r s" "map ?r ss"] ev by auto
  show "?f (?r t) \<le> ?f (evaluate cfg context)" if "t \<in> set (s # ss)"
    using that max_first_ge_first [of ?f "?r s" "map ?r ss"]
      max_first_ge_rest [of "?r t" "map ?r ss" ?f "?r s"] ev by auto
qed

lemma priority_inj: "action_priority a = action_priority b \<Longrightarrow> a = b"
  by (cases a; cases b) auto

lemma priority_0: "action_priority a \<le> 0 \<longleftrightarrow> a = Allow"
  by (cases a) auto

lemma priority_3: "3 \<le> action_priority a \<longleftrightarrow> a = Deny"
  by (cases a) auto

lemma evaluate_allow_iff:
  assumes "ctx_subjects context \<noteq> []"
  shows "match_action (evaluate cfg context) = Allow \<longleftrightarrow>
    (\<forall>s\<in>set (ctx_subjects context). match_action (resolve_subject cfg context s) = Allow)"
proof -
  from assms obtain s ss where c: "ctx_subjects context = s # ss"
    by (cases "ctx_subjects context") auto
  show ?thesis
    unfolding c using evaluate_subjects(1) [OF c, where cfg = cfg]
      evaluate_subjects(2) [OF c, where cfg = cfg]
    by (metis action_priority.simps(1) priority_0)
qed

lemma evaluate_deny_iff:
  assumes "ctx_subjects context \<noteq> []"
  shows "match_action (evaluate cfg context) = Deny \<longleftrightarrow>
    (\<exists>s\<in>set (ctx_subjects context). match_action (resolve_subject cfg context s) = Deny)"
proof -
  from assms obtain s ss where c: "ctx_subjects context = s # ss"
    by (cases "ctx_subjects context") auto
  show ?thesis
    unfolding c using evaluate_subjects(1) [OF c, where cfg = cfg]
      evaluate_subjects(2) [OF c, where cfg = cfg]
    by (metis action_priority.simps(4) priority_3)
qed

section \<open>Subtree patterns\<close>

lemma rstrip_char_last: "s = [] \<or> last s \<noteq> c \<Longrightarrow> rstrip_char c s = s"
  by (cases s rule: rev_cases) (auto simp: rstrip_char_def)

lemma matches_subtree:
  assumes "base = [] \<or> last base \<noteq> CHR ''/''"
  shows "matches_subject (Some (base @ ''/**'')) subject \<longleftrightarrow>
    subject = base \<or> (\<exists>rest. subject = base @ ''/'' @ rest)"
proof -
  have "base @ ''/**'' \<noteq> ''*''" by (cases base) auto
  moreover have "ends_with (base @ ''/**'') ''/**''" by (auto simp: ends_with_iff)
  ultimately show ?thesis
    by (auto simp: matches_subject_def rstrip_char_last [OF assms] starts_with_iff Let_def)
qed

section \<open>The guard\<close>

lemma run_policies_Inl:
  "run_policies policies tc ws = Inl d \<Longrightarrow> \<not> gd_allowed d \<or> gd_requires_approval d"
  by (induction policies tc ws rule: run_policies.induct)
     (auto simp: Let_def split: option.splits if_splits)

lemma run_policies_Inr:
  "run_policies policies tc ws = Inr ws' \<Longrightarrow> policy \<in> set policies \<Longrightarrow> policy tc = Some d
     \<Longrightarrow> gd_allowed d \<and> \<not> gd_requires_approval d"
proof (induction policies arbitrary: ws)
  case Nil
  then show ?case by simp
next
  case (Cons p policies)
  then show ?case
    by (cases "p = policy") (auto simp: Let_def split: option.splits if_splits)
qed

lemma finish_guard_allows [simp]:
  "gd_allowed (finish_guard ws)" "\<not> gd_requires_approval (finish_guard ws)"
  by (simp_all add: finish_guard_def gd_defs)

lemma guard_run_pass:
  assumes "gd_allowed (guard_run hook (Some tc) md)"
    and "\<not> gd_requires_approval (guard_run hook (Some tc) md)"
  shows "\<exists>ws. run_policies (guard_policies hook) tc [] = Inr ws"
    and "guard_engine hook = Some cfg \<Longrightarrow>
      match_action (evaluate cfg (approval_context_of tc md)) \<in> {Allow, Warn}"
  using assms run_policies_Inl [of "guard_policies hook" tc "[]"]
  by (auto simp: guard_run_def gd_deny_def gd_require_approval_def
      split: sum.splits option.splits approval_action.splits)

section \<open>Properties\<close>

definition ex_tool_call :: tool_call where
  "ex_tool_call = \<lparr>tc_id = ''call_1'', tc_name = ''write_file'', tc_arguments = JObj []\<rparr>"

definition ex_metadata :: "string list \<Rightarrow> tool_metadata" where
  "ex_metadata subjects = \<lparr>md_tool_source = Some ''builtin'', md_mcp_server = None,
     md_effect_class = None, md_profile = None, md_tool_description = None,
     md_tool_schema = None, md_approval_subjects = subjects, md_approval_scope_key = None\<rparr>"

definition ex_context :: "string list \<Rightarrow> tool_approval_context" where
  "ex_context subjects = approval_context_of ex_tool_call (ex_metadata subjects)"

definition ex_config :: approval_config where
  "ex_config = default_approval_config\<lparr>config_rules :=
     [default_rule\<lparr>rule_tool_name := Some ''write_file'', rule_pattern := Some ''src/**'',
        rule_action := Allow\<rparr>,
      default_rule\<lparr>rule_tool_name := Some ''write_file'', rule_pattern := Some ''src/key'',
        rule_action := Deny\<rparr>]\<rparr>"

lemmas ex_defs = ex_tool_call_def ex_metadata_def ex_context_def ex_config_def
  default_approval_config_def default_rule_def approval_context_of_def

text \<open>C1: A call that names several resources is governed by the strictest of the actions its
  resources resolve to: the result is one resource's own match, and no resource's action is
  stricter than it.\<close>

theorem evaluate_strictest:
  assumes "ctx_subjects context \<noteq> []"
  shows "(\<exists>s\<in>set (ctx_subjects context). evaluate cfg context = resolve_subject cfg context s) \<and>
    (\<forall>s\<in>set (ctx_subjects context).
       action_priority (match_action (resolve_subject cfg context s))
         \<le> action_priority (match_action (evaluate cfg context)))"
proof -
  from assms obtain s ss where c: "ctx_subjects context = s # ss"
    by (cases "ctx_subjects context") auto
  show ?thesis
    unfolding c using evaluate_subjects [OF c, where cfg = cfg] by blast
qed

theorem evaluate_strictest_witness:
  "(\<exists>s\<in>set [''src/a'', ''src/key''].
      evaluate ex_config (ex_context [''src/a'', ''src/key''])
        = resolve_subject ex_config (ex_context [''src/a'', ''src/key'']) s) \<and>
   match_action (evaluate ex_config (ex_context [''src/a'', ''src/key''])) = Deny"
proof -
  have "ctx_subjects (ex_context [''src/a'', ''src/key'']) = [''src/a'', ''src/key'']"
    by (simp add: ex_defs)
  moreover have "match_action (evaluate ex_config (ex_context [''src/a'', ''src/key''])) = Deny"
    by code_simp
  ultimately show ?thesis
    using evaluate_strictest [of "ex_context [''src/a'', ''src/key'']" ex_config] by simp
qed

text \<open>Each resource is resolved by the most specific configured rule that applies to it, the
  first configured one among equally specific rules; only when no rule applies does the
  fallback (allow for internal effect classes, else the default mode) decide.\<close>

theorem resolve_subject_most_specific:
  "case match_rule (resolve_subject cfg context subject) of
     Some rule \<Rightarrow>
       rule \<in> set (config_rules cfg) \<and> applies rule context subject \<and>
       (\<forall>other\<in>set (config_rules cfg). applies other context subject
          \<longrightarrow> specificity other \<le> specificity rule) \<and>
       find (\<lambda>other. specificity other = specificity rule \<and> applies other context subject)
         (config_rules cfg) = Some rule \<and>
       match_action (resolve_subject cfg context subject) = rule_action rule
   | None \<Rightarrow>
       (\<forall>rule\<in>set (config_rules cfg). \<not> applies rule context subject) \<and>
       match_action (resolve_subject cfg context subject) = fallback_action cfg context"
proof (cases "match_rule (resolve_subject cfg context subject)")
  case None
  from None have "\<forall>rule\<in>set (config_rules cfg). \<not> applies rule context subject"
    by (simp only: resolve_subject_no_rule)
  then show ?thesis unfolding None option.case using resolve_subject_fallback [OF None] by blast
next
  case (Some rule)
  then show ?thesis using resolve_subject_rule [OF Some] by simp
qed

theorem resolve_subject_most_specific_witness:
  "\<exists>rule. match_rule (resolve_subject ex_config (ex_context [''src/key'']) ''src/key'') = Some rule \<and>
     rule_action rule = Deny \<and>
     (\<forall>other\<in>set (config_rules ex_config). applies other (ex_context [''src/key'']) ''src/key''
        \<longrightarrow> specificity other \<le> specificity rule)"
proof -
  let ?m = "resolve_subject ex_config (ex_context [''src/key'']) ''src/key''"
  have "match_action ?m = Deny" "match_rule ?m \<noteq> None" by code_simp+
  then show ?thesis
    using resolve_subject_most_specific [of ex_config "ex_context [''src/key'']" "''src/key''"]
    by (auto split: option.splits)
qed

text \<open>A subtree pattern \<open>base/**\<close> covers exactly the directory itself and the paths below
  it; a sibling whose name merely starts with \<open>base\<close> is not covered.\<close>

theorem subtree_pattern_exact:
  assumes "base \<noteq> []" and "last base \<noteq> CHR ''/''"
  shows "approval_pattern_matches (Some (base @ ''/**'')) subject \<longleftrightarrow>
    subject = base \<or> (\<exists>rest. subject = base @ ''/'' @ rest)"
  unfolding approval_pattern_matches_def using assms by (intro matches_subtree) simp

theorem subtree_pattern_exact_witness:
  "\<not> approval_pattern_matches (Some (''src'' @ ''/**'')) ''src2/x''"
  using subtree_pattern_exact [of "''src''" "''src2/x''"] by simp

text \<open>C2: The guard hook lets a tool call through without asking only when every built-in policy
  that applies let it through and the policy engine's action for the call is allow or warn.\<close>

theorem guard_pass_means_policy_allows:
  assumes "guard_engine hook = Some cfg"
    and "gd_allowed (guard_run hook (Some tc) md)"
    and "\<not> gd_requires_approval (guard_run hook (Some tc) md)"
  shows "match_action (evaluate cfg (approval_context_of tc md)) \<in> {Allow, Warn} \<and>
    (\<forall>policy\<in>set (guard_policies hook). \<forall>d. policy tc = Some d
       \<longrightarrow> gd_allowed d \<and> \<not> gd_requires_approval d)"
  using guard_run_pass [OF assms(2,3)] assms(1) run_policies_Inr by blast

theorem guard_pass_means_policy_allows_witness:
  "match_action (evaluate ex_config (approval_context_of ex_tool_call (ex_metadata [''src/a''])))
     \<in> {Allow, Warn}"
proof -
  let ?hook = "\<lparr>guard_policies = [], guard_engine = Some ex_config\<rparr>"
  have "gd_allowed (guard_run ?hook (Some ex_tool_call) (ex_metadata [''src/a'']))"
    and "\<not> gd_requires_approval (guard_run ?hook (Some ex_tool_call) (ex_metadata [''src/a'']))"
    by code_simp+
  then show ?thesis
    using guard_pass_means_policy_allows [of ?hook ex_config ex_tool_call "ex_metadata [''src/a'']"]
    by simp
qed

end
