(* ===== verification/Approval_Types.thy ===== *)
theory Approval_Types
  imports Approval_Engine
begin

text \<open>
  The data of \<^verbatim>\<open>domain/approval.py\<close>: requests, decisions, grant candidates, the coverage test
  that releases queued requests under a session grant, and \<open>SharedApprovalProvider\<close>, which
  routes a request through its judges to the human coordinator. The lemmas show that coverage
  is the policy engine's own verdict under the grant's rules, and that the provider never
  turns an interruption into an approval.
\<close>

datatype approval_decision_mode = Allow_Once | Allow_Session | Deny_Once

record approval_grant_scope =
  scope_id :: string
  scope_label :: string
  scope_description :: string
  scope_patterns :: "string list"
  scope_broad :: bool

record approval_grant_candidate =
  grant_id :: string
  grant_label :: string
  grant_description :: string
  proposed_rules :: "approval_rule_config list"
  grant_scope_key :: "string option"
  grant_broad :: bool

record approval_queue_status =
  position :: nat
  waiting :: nat

text \<open>The review preview (\<open>ApprovalPreview\<close>) is content for the user interface; nothing modelled
  here reads it, and the record leaves it out.\<close>

record approval_request =
  req_tool_name :: string
  req_tool_args :: json
  req_tool_source :: string
  req_mcp_server :: "string option"
  req_effect_class :: "string option"
  req_reason :: "string option"
  req_profile :: "string option"
  req_subjects :: "string list"
  req_scope_key :: "string option"
  req_grant_candidates :: "approval_grant_candidate list"
  req_queue_status :: approval_queue_status
  req_metadata :: "(string, json) dict"
  req_request_id :: string

record approval_decision =
  dec_mode :: approval_decision_mode
  dec_reason :: "string option"
  dec_reviewed :: bool
  dec_grant :: "approval_grant_candidate option"
  dec_released_request_ids :: "string list"

definition approved :: "approval_decision \<Rightarrow> bool" where
  "approved d = (dec_mode d \<in> {Allow_Once, Allow_Session})"

definition allow_once :: "string option \<Rightarrow> bool \<Rightarrow> approval_decision" where
  "allow_once reason reviewed = \<lparr>dec_mode = Allow_Once, dec_reason = reason,
     dec_reviewed = reviewed, dec_grant = None, dec_released_request_ids = []\<rparr>"

definition deny_once :: "string option \<Rightarrow> bool \<Rightarrow> approval_decision" where
  "deny_once reason reviewed = \<lparr>dec_mode = Deny_Once, dec_reason = reason,
     dec_reviewed = reviewed, dec_grant = None, dec_released_request_ids = []\<rparr>"

definition allow_session ::
    "approval_grant_candidate \<Rightarrow> string option \<Rightarrow> bool \<Rightarrow> approval_decision" where
  "allow_session grant reason reviewed = \<lparr>dec_mode = Allow_Session, dec_reason = reason,
     dec_reviewed = reviewed, dec_grant = Some grant, dec_released_request_ids = []\<rparr>"

abbreviation deny :: "string \<Rightarrow> approval_decision" where
  "deny reason \<equiv> deny_once (Some reason) False"

lemma approved_simps [simp]:
  "approved (allow_once r b)" "\<not> approved (deny_once r b)" "approved (allow_session g r b)"
  by (simp_all add: approved_def allow_once_def deny_once_def allow_session_def)

section \<open>Coverage of a request by a grant\<close>

definition grant_dimensions_match :: "approval_request \<Rightarrow> approval_rule_config \<Rightarrow> bool" where
  "grant_dimensions_match request rule =
     ((rule_tool_name rule = None \<or> rule_tool_name rule = Some (req_tool_name request)) \<and>
      (rule_tool_source rule = None \<or> rule_tool_source rule = Some (req_tool_source request)) \<and>
      (rule_mcp_server rule = None \<or> rule_mcp_server rule = req_mcp_server request) \<and>
      (rule_effect_class rule = None \<or> rule_effect_class rule = req_effect_class request) \<and>
      (rule_profile rule = None \<or> rule_profile rule = req_profile request) \<and>
      (rule_scope_key rule = None \<or> rule_scope_key rule = req_scope_key request))"

definition approval_grant_covers_request ::
    "approval_grant_candidate \<Rightarrow> approval_request \<Rightarrow> bool" where
  "approval_grant_covers_request grant request =
     (if grant_scope_key grant \<noteq> req_scope_key request then False
      else
        let rules = filter (\<lambda>rule. rule_action rule = Allow) (proposed_rules grant)
        in if rules = [] then False
           else
             let matching = filter (grant_dimensions_match request) rules
             in if matching = [] then False
                else if req_subjects request = []
                then list_ex (\<lambda>rule. rule_pattern rule = None) matching
                else list_all (\<lambda>subject.
                       list_ex (\<lambda>rule. approval_pattern_matches (rule_pattern rule) subject) matching)
                       (req_subjects request))"

text \<open>The context under which the session judge evaluates a request
  (\<^verbatim>\<open>_judge_session_approval_rules\<close>): unknown tool sources are normalised.\<close>

definition request_context :: "approval_request \<Rightarrow> tool_approval_context" where
  "request_context request =
     \<lparr>ctx_tool_call = \<lparr>tc_id = req_request_id request, tc_name = req_tool_name request,
                        tc_arguments = req_tool_args request\<rparr>,
      ctx_tool_name = req_tool_name request,
      ctx_tool_source =
        (if req_tool_source request \<in> {''builtin'', ''mcp'', ''unknown''}
         then req_tool_source request else ''unknown''),
      ctx_mcp_server = req_mcp_server request,
      ctx_effect_class = req_effect_class request,
      ctx_profile = req_profile request,
      ctx_tool_description = None,
      ctx_tool_schema = None,
      ctx_subjects = req_subjects request,
      ctx_scope_key = req_scope_key request\<rparr>"

section \<open>The shared provider\<close>

text \<open>
  Judges, the coordinator and the observers are callables handed to the provider. A judge
  or the coordinator returns a decision or raises; an observer returns or raises. The model
  runs them in the source's order and records the observer calls it made.
\<close>

type_synonym approval_judge = "approval_request \<Rightarrow> (py_exn, approval_decision option) result"
type_synonym approval_port = "approval_request \<Rightarrow> (py_exn, approval_decision) result"

record shared_approval_provider =
  prov_judges :: "approval_judge list"
  prov_coordinator :: approval_port
  prov_reviewer :: reviewer
  prov_on_request :: "(approval_request \<Rightarrow> py_exn option) option"
  prov_on_decision :: "(approval_request \<Rightarrow> approval_decision \<Rightarrow> py_exn option) option"

datatype observation =
    Observed_Request approval_request
  | Observed_Decision approval_request approval_decision

fun reviewer_value :: "reviewer \<Rightarrow> string" where
  "reviewer_value User_Reviewer = ''user''"
| "reviewer_value Auto_Review = ''auto_review''"

fun first_judgement ::
    "approval_judge list \<Rightarrow> approval_port \<Rightarrow> approval_port" where
  "first_judgement [] coordinator request = coordinator request"
| "first_judgement (judge # judges) coordinator request =
     (case judge request of
        Inl e \<Rightarrow> Inl e
      | Inr (Some decision) \<Rightarrow> Inr decision
      | Inr None \<Rightarrow> first_judgement judges coordinator request)"

definition notify_decision ::
    "shared_approval_provider \<Rightarrow> approval_request \<Rightarrow> approval_decision
      \<Rightarrow> observation list \<times> py_exn option" where
  "notify_decision prov request decision =
     (case prov_on_decision prov of
        None \<Rightarrow> ([], None)
      | Some cb \<Rightarrow> ([Observed_Decision request decision], cb request decision))"

definition provider_request_approval ::
    "shared_approval_provider \<Rightarrow> approval_request
      \<Rightarrow> observation list \<times> (py_exn, approval_decision) result" where
  "provider_request_approval prov request0 =
     (let force_human_review = meta_true (req_metadata request0) ''force_human_review'';
          request = request0\<lparr>req_metadata :=
            dict_set ''reviewer''
              (JStr (if force_human_review then ''user'' else reviewer_value (prov_reviewer prov)))
              (req_metadata request0)\<rparr>;
          (seen, failed) =
            (case prov_on_request prov of
               None \<Rightarrow> ([], None)
             | Some cb \<Rightarrow> ([Observed_Request request], cb request))
      in case failed of
           Some e \<Rightarrow> (seen, Inl e)
         | None \<Rightarrow>
             (case (if force_human_review then prov_coordinator prov request
                    else first_judgement (prov_judges prov) (prov_coordinator prov) request) of
                Inl e \<Rightarrow>
                  (let (obs, failed') =
                         notify_decision prov request (deny ''approval interrupted'')
                   in (seen @ obs, Inl (case failed' of Some e' \<Rightarrow> e' | None \<Rightarrow> e)))
              | Inr decision \<Rightarrow>
                  (let (obs, failed') = notify_decision prov request decision
                   in (seen @ obs,
                       case failed' of Some e' \<Rightarrow> Inl e' | None \<Rightarrow> Inr decision))))"

section \<open>Coverage is the engine's verdict\<close>

definition internal_effect :: "string option \<Rightarrow> bool" where
  "internal_effect e \<longleftrightarrow> e \<in> {Some ''read_only_internal'', Some ''control_plane_internal''}"

text \<open>The policy a grant stands for: its allow rules over a default that asks.\<close>

definition grant_config :: "approval_grant_candidate \<Rightarrow> approval_config" where
  "grant_config grant = default_approval_config\<lparr>config_rules :=
     filter (\<lambda>rule. rule_action rule = Allow) (proposed_rules grant)\<rparr>"

lemma request_context_dimensions:
  assumes "req_tool_source request \<in> {''builtin'', ''mcp'', ''unknown''}"
  shows "matches_dimensions rule (request_context request) = grant_dimensions_match request rule"
  using assms by (simp add: matches_dimensions_iff grant_dimensions_match_def request_context_def)

lemma all_allow_resolve:
  assumes "\<forall>rule\<in>set (config_rules cfg). rule_action rule = Allow"
    and "fallback_action cfg context \<noteq> Allow"
  shows "match_action (resolve_subject cfg context s) = Allow \<longleftrightarrow>
    (\<exists>rule\<in>set (config_rules cfg). applies rule context s)"
proof (cases "match_rule (resolve_subject cfg context s)")
  case None
  then show ?thesis
    using assms(2) resolve_subject_fallback [OF None] None [unfolded resolve_subject_no_rule] by auto
next
  case (Some rule)
  then show ?thesis using assms(1) resolve_subject_rule [OF Some] by metis
qed

lemma all_allow_evaluate:
  assumes "\<forall>rule\<in>set (config_rules cfg). rule_action rule = Allow"
    and "fallback_action cfg context \<noteq> Allow"
  shows "match_action (evaluate cfg context) = Allow \<longleftrightarrow>
    (if ctx_subjects context = []
     then \<exists>rule\<in>set (config_rules cfg). matches_dimensions rule context \<and> rule_pattern rule = None
     else \<forall>s\<in>set (ctx_subjects context). \<exists>rule\<in>set (config_rules cfg). applies rule context s)"
proof (cases "ctx_subjects context = []")
  case True
  show ?thesis
  proof (cases "find (\<lambda>rule. matches_dimensions rule context \<and> rule_pattern rule = None)
      (ranked_rules cfg)")
    case None
    then have "\<forall>rule\<in>set (config_rules cfg).
        \<not> (matches_dimensions rule context \<and> rule_pattern rule = None)"
      by (simp add: ranked_rules_def find_sorted_desc_None)
    with None True assms(2) show ?thesis by (auto simp: evaluate_def fallback_match_def)
  next
    case (Some rule)
    then have "rule \<in> set (config_rules cfg)" "matches_dimensions rule context"
        "rule_pattern rule = None"
      using find_sorted_desc_max unfolding ranked_rules_def by fast+
    with Some True assms(1) show ?thesis by (auto simp: evaluate_def rule_match_def)
  qed
next
  case False
  then show ?thesis
    using evaluate_allow_iff [OF False, of cfg] all_allow_resolve [OF assms] by simp
qed

lemma grant_covers_unfold:
  "approval_grant_covers_request grant request \<longleftrightarrow>
     grant_scope_key grant = req_scope_key request \<and>
     (let rules = filter (\<lambda>rule. rule_action rule = Allow) (proposed_rules grant)
      in if req_subjects request = []
         then \<exists>rule\<in>set rules. grant_dimensions_match request rule \<and> rule_pattern rule = None
         else \<forall>s\<in>set (req_subjects request). \<exists>rule\<in>set rules.
                grant_dimensions_match request rule \<and> approval_pattern_matches (rule_pattern rule) s)"
  by (auto simp: approval_grant_covers_request_def Let_def list_ex_iff list_all_iff
      filter_empty_conv) (cases "req_subjects request"; fastforce)+

section \<open>Properties\<close>

definition ex_request :: "string list \<Rightarrow> string \<Rightarrow> approval_request" where
  "ex_request subjects rid =
     \<lparr>req_tool_name = ''write_file'', req_tool_args = JObj [], req_tool_source = ''builtin'',
      req_mcp_server = None, req_effect_class = None, req_reason = None, req_profile = None,
      req_subjects = subjects, req_scope_key = Some ''env'', req_grant_candidates = [],
      req_queue_status = \<lparr>position = 1, waiting = 0\<rparr>, req_metadata = [], req_request_id = rid\<rparr>"

definition ex_grant :: approval_grant_candidate where
  "ex_grant =
     \<lparr>grant_id = ''directory'', grant_label = ''This directory'', grant_description = ''src/**'',
      proposed_rules = [default_rule\<lparr>rule_tool_name := Some ''write_file'',
        rule_tool_source := Some ''builtin'', rule_pattern := Some ''src/**'',
        rule_scope_key := Some ''env'', rule_action := Allow\<rparr>],
      grant_scope_key = Some ''env'', grant_broad = True\<rparr>"

text \<open>The coverage test that releases queued requests under a session grant agrees with the
  policy engine: a grant covers a request exactly when their environments agree and the
  engine, given only the grant's allow rules over a default that asks, allows the request.\<close>

theorem grant_covers_iff_policy_allows:
  assumes "req_tool_source request \<in> {''builtin'', ''mcp'', ''unknown''}"
    and "\<not> internal_effect (req_effect_class request)"
  shows "approval_grant_covers_request grant request \<longleftrightarrow>
    grant_scope_key grant = req_scope_key request \<and>
    match_action (evaluate (grant_config grant) (request_context request)) = Allow"
proof -
  let ?cfg = "grant_config grant" and ?ctx = "request_context request"
  have allow: "\<forall>rule\<in>set (config_rules ?cfg). rule_action rule = Allow"
    by (simp add: grant_config_def)
  have fb: "fallback_action ?cfg ?ctx \<noteq> Allow"
    using assms(2) by (simp add: fallback_action_def internal_effect_def request_context_def
        grant_config_def default_approval_config_def)
  have subj: "ctx_subjects ?ctx = req_subjects request" by (simp add: request_context_def)
  show ?thesis
    unfolding all_allow_evaluate [OF allow fb] grant_covers_unfold Let_def
    by (simp add: subj applies_def request_context_dimensions [OF assms(1)] grant_config_def
        approval_pattern_matches_def)
qed

theorem grant_covers_iff_policy_allows_witness:
  "match_action (evaluate (grant_config ex_grant) (request_context (ex_request [''src/a''] ''r1'')))
     = Allow"
proof -
  have "approval_grant_covers_request ex_grant (ex_request [''src/a''] ''r1'')" by code_simp
  then show ?thesis
    using grant_covers_iff_policy_allows [of "ex_request [''src/a''] ''r1''" ex_grant]
    by (simp add: ex_request_def internal_effect_def)
qed

lemma first_judgement_decides:
  assumes "\<forall>judge\<in>set pre. judge request = Inr None" and "judge request = Inr (Some d)"
  shows "first_judgement (pre @ judge # post) coordinator request = Inr d"
  using assms by (induction pre) auto

lemma first_judgement_escalates:
  assumes "\<forall>judge\<in>set judges. judge request = Inr None"
  shows "first_judgement judges coordinator request = coordinator request"
  using assms by (induction judges) auto

definition marked_request :: "shared_approval_provider \<Rightarrow> approval_request \<Rightarrow> approval_request" where
  "marked_request prov request0 =
     request0\<lparr>req_metadata := dict_set ''reviewer''
       (JStr (if meta_true (req_metadata request0) ''force_human_review'' then ''user''
              else reviewer_value (prov_reviewer prov))) (req_metadata request0)\<rparr>"

lemma provider_cases:
  assumes "provider_request_approval prov request = (obs, res)"
  shows "case res of
      Inr d \<Rightarrow>
        (if meta_true (req_metadata request) ''force_human_review''
         then prov_coordinator prov (marked_request prov request)
         else first_judgement (prov_judges prov) (prov_coordinator prov) (marked_request prov request))
          = Inr d \<and>
        (prov_on_decision prov \<noteq> None
          \<longrightarrow> Observed_Decision (marked_request prov request) d \<in> set obs)
    | Inl e \<Rightarrow> True"
  using assms
  by (auto simp: provider_request_approval_def marked_request_def notify_decision_def Let_def
      split: option.splits sum.splits if_splits prod.splits)

text \<open>A request marked for human review is decided by the human coordinator alone: whatever
  the automatic judges would say, an approval can only come from the coordinator, and the
  decision observer has seen the decision that is returned.\<close>

theorem forced_review_bypasses_judges:
  assumes "meta_true (req_metadata request) ''force_human_review''"
    and "snd (provider_request_approval prov request) = Inr d"
  shows "prov_coordinator prov (marked_request prov request) = Inr d \<and>
    (prov_on_decision prov \<noteq> None \<longrightarrow>
       Observed_Decision (marked_request prov request) d
         \<in> set (fst (provider_request_approval prov request)))"
proof -
  have "provider_request_approval prov request =
      (fst (provider_request_approval prov request), Inr d)"
    using assms(2) by (metis prod.collapse)
  from provider_cases [OF this] assms(1) show ?thesis by simp
qed

definition ex_provider :: shared_approval_provider where
  "ex_provider = \<lparr>prov_judges = [\<lambda>_. Inr (Some (allow_once None False))],
     prov_coordinator = (\<lambda>_. Inr (deny ''no'')), prov_reviewer = Auto_Review,
     prov_on_request = None, prov_on_decision = None\<rparr>"

theorem forced_review_bypasses_judges_witness:
  "snd (provider_request_approval ex_provider
     (ex_request [] ''r1''\<lparr>req_metadata := [(''force_human_review'', JBool True)]\<rparr>))
   = Inr (deny ''no'') \<and>
   prov_coordinator ex_provider (marked_request ex_provider
     (ex_request [] ''r1''\<lparr>req_metadata := [(''force_human_review'', JBool True)]\<rparr>)) = Inr (deny ''no'')"
proof -
  let ?r = "ex_request [] ''r1''\<lparr>req_metadata := [(''force_human_review'', JBool True)]\<rparr>"
  have m: "meta_true (req_metadata ?r) ''force_human_review''"
    by (simp add: meta_true_def dict_get_def)
  have "snd (provider_request_approval ex_provider ?r) = Inr (deny ''no'')"
    by (simp add: provider_request_approval_def ex_provider_def notify_decision_def meta_true_def
        dict_get_def Let_def)
  with forced_review_bypasses_judges [OF m this] show ?thesis by simp
qed

end
