(* ===== verification/Approval_Rules.thy ===== *)
theory Approval_Rules
  imports Approval_Types
begin

text \<open>
  Live approval rules (\<^verbatim>\<open>app/runtime/approval.py\<close> and the rule commands of
  \<^verbatim>\<open>extensions/command/builtin/approval.py\<close>): the selector grammar, rule identity, layering
  session rules over the configured ones, the judge that rechecks session rules, and the
  session grant with its persistence and rollback. The lemmas give the merge in closed form,
  the selector round trip, and what a grant changes and for whom.
\<close>

section \<open>Selectors\<close>

fun parse_action :: "string \<Rightarrow> approval_action option" where
  "parse_action a =
     (if a = ''allow'' then Some Allow else if a = ''warn'' then Some Warn
      else if a = ''require_approval'' then Some Require_Approval
      else if a = ''deny'' then Some Deny else None)"

fun action_value :: "approval_action \<Rightarrow> string" where
  "action_value Allow = ''allow''"
| "action_value Warn = ''warn''"
| "action_value Require_Approval = ''require_approval''"
| "action_value Deny = ''deny''"

definition selector_aliases :: "(string, string) dict" where
  "selector_aliases = [(''tool'', ''tool_name''), (''source'', ''tool_source''),
     (''mcp_server'', ''mcp_server''), (''effect'', ''effect_class''), (''profile'', ''profile'')]"

text \<open>The loop over the comma-separated segments; None is the early \<^verbatim>\<open>return None\<close>.\<close>

fun parse_segments :: "string list \<Rightarrow> (string, string) dict \<Rightarrow> (string, string) dict option" where
  "parse_segments [] dimensions = Some dimensions"
| "parse_segments (segment # segments) dimensions =
     (let (key, separator, value) = partition_on (CHR ''='') segment
      in case dict_get selector_aliases key of
           None \<Rightarrow> None
         | Some field_name \<Rightarrow>
             if \<not> separator \<or> value = [] then None
             else if field_name \<in> set (keys dimensions) then None
             else parse_segments segments (dict_set field_name value dimensions))"

definition rule_of_dimensions ::
    "(string, string) dict \<Rightarrow> string option \<Rightarrow> approval_action \<Rightarrow> approval_rule_config option" where
  "rule_of_dimensions dimensions pattern action =
     (let tool_source = dict_get dimensions ''tool_source'';
          mcp_server = dict_get dimensions ''mcp_server''
      in if tool_source \<notin> {None, Some ''builtin'', Some ''mcp'', Some ''unknown''} then None
         else if mcp_server \<noteq> None \<and> tool_source \<notin> {None, Some ''mcp''} then None
         else
           let dims = (if mcp_server \<noteq> None then dict_set ''tool_source'' ''mcp'' dimensions
                       else dimensions)
           in Some (default_rule\<lparr>rule_tool_name := dict_get dims ''tool_name'',
                rule_tool_source := dict_get dims ''tool_source'',
                rule_mcp_server := mcp_server,
                rule_effect_class := dict_get dims ''effect_class'',
                rule_profile := dict_get dims ''profile'',
                rule_pattern := pattern,
                rule_action := action\<rparr>))"

definition parse_approval_target ::
    "string \<Rightarrow> string \<Rightarrow> string option \<Rightarrow> approval_rule_config option" where
  "parse_approval_target target action pattern =
     (case parse_action action of
        None \<Rightarrow> None
      | Some act \<Rightarrow>
          if pattern = Some [] then None
          else if CHR ''='' \<in> set target
          then (case parse_segments (split_on (CHR '','') target) [] of
                  None \<Rightarrow> None
                | Some dimensions \<Rightarrow> rule_of_dimensions dimensions pattern act)
          else if target = ''mcp''
          then Some (default_rule\<lparr>rule_tool_source := Some ''mcp'', rule_pattern := pattern,
                 rule_action := act\<rparr>)
          else if starts_with target ''tool:''
          then (let tool_name = drop 5 target
                in if tool_name = [] then None
                   else Some (default_rule\<lparr>rule_tool_name := Some tool_name,
                          rule_pattern := pattern, rule_action := act\<rparr>))
          else if starts_with target ''effect:''
          then (let effect_class = drop 7 target
                in if effect_class = [] then None
                   else Some (default_rule\<lparr>rule_effect_class := Some effect_class,
                          rule_pattern := pattern, rule_action := act\<rparr>))
          else if starts_with target ''profile:''
          then (let profile = drop 8 target
                in if profile = [] then None
                   else Some (default_rule\<lparr>rule_profile := Some profile,
                          rule_pattern := pattern, rule_action := act\<rparr>))
          else if starts_with target ''mcp:''
          then (let rest = drop 4 target
                in if rest = [] then None
                   else if CHR '':'' \<in> set rest
                   then (let (server, _, tool_name) = partition_on (CHR '':'') rest
                         in if server = [] \<or> tool_name = [] then None
                            else Some (default_rule\<lparr>rule_tool_source := Some ''mcp'',
                                   rule_mcp_server := Some server, rule_tool_name := Some tool_name,
                                   rule_pattern := pattern, rule_action := act\<rparr>))
                   else Some (default_rule\<lparr>rule_tool_source := Some ''mcp'',
                          rule_mcp_server := Some rest, rule_pattern := pattern,
                          rule_action := act\<rparr>))
          else None)"

definition approval_rule_selector :: "approval_rule_config \<Rightarrow> string" where
  "approval_rule_selector rule =
     join '','' (map (\<lambda>(key, value). key @ ''='' @ or_empty value)
       (filter (\<lambda>(key, value). or_empty value \<noteq> [])
         [(''source'', rule_tool_source rule), (''mcp_server'', rule_mcp_server rule),
          (''tool'', rule_tool_name rule), (''effect'', rule_effect_class rule),
          (''profile'', rule_profile rule)]))"

section \<open>Rule identity and layering\<close>

definition same_rule_policy_target :: "approval_rule_config \<Rightarrow> approval_rule_config \<Rightarrow> bool" where
  "same_rule_policy_target left right =
     (rule_tool_name left = rule_tool_name right \<and>
      rule_tool_source left = rule_tool_source right \<and>
      rule_mcp_server left = rule_mcp_server right \<and>
      rule_effect_class left = rule_effect_class right \<and>
      rule_profile left = rule_profile right \<and>
      rule_pattern left = rule_pattern right)"

definition same_rule_target :: "approval_rule_config \<Rightarrow> approval_rule_config \<Rightarrow> bool" where
  "same_rule_target left right =
     (same_rule_policy_target left right \<and> rule_scope_key left = rule_scope_key right)"

definition find_matching_rule ::
    "approval_rule_config list \<Rightarrow> approval_rule_config \<Rightarrow> approval_rule_config option" where
  "find_matching_rule rules target = find (\<lambda>rule. same_rule_target rule target) rules"

definition resolve_mcp_server_action :: "approval_config \<Rightarrow> string \<Rightarrow> approval_action" where
  "resolve_mcp_server_action cfg server_name =
     (case find_matching_rule (config_rules cfg)
             (default_rule\<lparr>rule_tool_source := Some ''mcp'', rule_mcp_server := Some server_name,
                rule_action := default_mode cfg\<rparr>) of
        Some rule \<Rightarrow> rule_action rule
      | None \<Rightarrow>
          (case find_matching_rule (config_rules cfg)
                  (default_rule\<lparr>rule_tool_source := Some ''mcp'', rule_action := default_mode cfg\<rparr>) of
             Some rule \<Rightarrow> rule_action rule
           | None \<Rightarrow> default_mode cfg))"

text \<open>The step both layering loops share: drop the rules with this target, append the rule.\<close>

definition put_rule ::
    "approval_rule_config \<Rightarrow> approval_rule_config list \<Rightarrow> approval_rule_config list" where
  "put_rule rule rules = filter (\<lambda>existing. \<not> same_rule_target existing rule) rules @ [rule]"

fun put_rules ::
    "approval_rule_config list \<Rightarrow> approval_rule_config list \<Rightarrow> approval_rule_config list" where
  "put_rules [] rules = rules"
| "put_rules (rule # rest) rules = put_rules rest (put_rule rule rules)"

definition merge_approval_config ::
    "approval_config \<Rightarrow> approval_rule_config list \<Rightarrow> approval_config" where
  "merge_approval_config baseline session_rules =
     baseline\<lparr>config_rules := put_rules session_rules (config_rules baseline)\<rparr>"

section \<open>The session judge and the session grant\<close>

record approval_agent =
  ag_session_rules :: "approval_rule_config list"
  ag_baseline :: approval_config
  ag_hooks :: "tool_policy_guard list"
  ag_has_lock :: bool

definition judge_session_approval_rules ::
    "approval_agent \<Rightarrow> approval_request \<Rightarrow> approval_decision option" where
  "judge_session_approval_rules agent request =
     (if meta_true (req_metadata request) ''workspace_changed_during_approval'' then None
      else if \<not> ag_has_lock agent then None
      else if ag_session_rules agent = [] then None
      else
        let match = evaluate
              (default_approval_config\<lparr>default_mode := Require_Approval,
                 config_rules := ag_session_rules agent\<rparr>)
              (request_context request)
        in if match_rule match = None then None
           else if match_action match = Allow
           then Some (allow_once (Some ''matched session approval grant'') False)
           else if match_action match = Deny
           then Some (deny_once (Some ''blocked by session approval rule'') False)
           else None)"

definition refresh_approval_runtime :: "approval_agent \<Rightarrow> approval_config \<Rightarrow> approval_agent" where
  "refresh_approval_runtime agent cfg =
     agent\<lparr>ag_hooks := map (update_approval_config cfg) (ag_hooks agent)\<rparr>"

datatype grant_error =
    Grant_Environment_Mismatch
  | Grant_No_Rules
  | Grant_Not_Allow_Only
  | Grant_Rule_Environment_Mismatch
  | Grant_No_Lock
  | Grant_Persist_Failed py_exn

text \<open>
  \<open>persist\<close> stands for the agent's \<^verbatim>\<open>persist_runtime_snapshot\<close>, called on the agent with the
  staged rules. Every failure raises with the agent as it was before.
\<close>

definition apply_session_approval_grant ::
    "(approval_agent \<Rightarrow> py_exn option) \<Rightarrow> approval_agent \<Rightarrow> approval_request
      \<Rightarrow> approval_grant_candidate \<Rightarrow> (grant_error, approval_agent) result" where
  "apply_session_approval_grant persist agent request grant =
     (if grant_scope_key grant \<noteq> req_scope_key request then Inl Grant_Environment_Mismatch
      else if proposed_rules grant = [] then Inl Grant_No_Rules
      else if list_ex (\<lambda>rule. rule_action rule \<noteq> Allow) (proposed_rules grant)
      then Inl Grant_Not_Allow_Only
      else if list_ex (\<lambda>rule. rule_scope_key rule \<noteq> req_scope_key request) (proposed_rules grant)
      then Inl Grant_Rule_Environment_Mismatch
      else if \<not> ag_has_lock agent then Inl Grant_No_Lock
      else
        let rules = put_rules (proposed_rules grant) (ag_session_rules agent);
            approval = merge_approval_config (ag_baseline agent) rules;
            staged = agent\<lparr>ag_session_rules := rules\<rparr>
        in case persist staged of
             Some e \<Rightarrow> Inl (Grant_Persist_Failed e)
           | None \<Rightarrow> Inr (refresh_approval_runtime staged approval))"

section \<open>The rule commands\<close>

definition set_approval_rule ::
    "approval_rule_config \<Rightarrow> approval_rule_config list \<Rightarrow> approval_rule_config list" where
  "set_approval_rule rule rules =
     (let updated = map (\<lambda>existing. if same_rule_policy_target existing rule
                           then existing\<lparr>rule_action := rule_action rule\<rparr> else existing) rules
      in if list_ex (\<lambda>existing. same_rule_policy_target existing rule) rules
         then updated else updated @ [rule])"

text \<open>None: the command reports that no such rule exists and leaves the rules alone.\<close>

definition unset_approval_rule ::
    "approval_rule_config \<Rightarrow> approval_rule_config list \<Rightarrow> approval_rule_config list option" where
  "unset_approval_rule rule rules =
     (let remaining = filter (\<lambda>existing. \<not> same_rule_policy_target existing rule) rules
      in if length remaining = length rules then None else Some remaining)"

section \<open>Layering in closed form\<close>

lemma same_rule_target_equiv [simp]:
  "same_rule_target r r"
  by (simp add: same_rule_target_def same_rule_policy_target_def)

lemma same_rule_target_sym: "same_rule_target a b \<longleftrightarrow> same_rule_target b a"
  by (auto simp: same_rule_target_def same_rule_policy_target_def)

lemma same_rule_target_trans:
  "same_rule_target a b \<Longrightarrow> same_rule_target b c \<Longrightarrow> same_rule_target a c"
  by (simp add: same_rule_target_def same_rule_policy_target_def)

lemma same_target_action: "same_rule_target a b \<Longrightarrow> rule_action a = rule_action b \<Longrightarrow> a = b"
  by (simp add: same_rule_target_def same_rule_policy_target_def)

text \<open>The last rule for each target, in the order of those last occurrences.\<close>

fun last_per_target :: "approval_rule_config list \<Rightarrow> approval_rule_config list" where
  "last_per_target [] = []"
| "last_per_target (r # rs) =
     (if \<exists>later\<in>set rs. same_rule_target r later then last_per_target rs
      else r # last_per_target rs)"

lemma put_rules_closed:
  "put_rules session base =
     filter (\<lambda>b. \<forall>s\<in>set session. \<not> same_rule_target b s) base @ last_per_target session"
proof (induction session arbitrary: base)
  case Nil
  then show ?case by simp
next
  case (Cons r rs)
  have "filter (\<lambda>b. \<forall>s\<in>set rs. \<not> same_rule_target b s) (put_rule r base) =
      filter (\<lambda>b. \<forall>s\<in>set (r # rs). \<not> same_rule_target b s) base @
      (if \<exists>later\<in>set rs. same_rule_target r later then [] else [r])"
    by (auto simp: put_rule_def conj_commute)
  then show ?case by (simp add: Cons.IH)
qed

lemma last_per_target_subset: "set (last_per_target rs) \<subseteq> set rs"
  by (induction rs) auto

lemma last_per_target_complete:
  "r \<in> set rs \<Longrightarrow> \<exists>s\<in>set (last_per_target rs). same_rule_target r s"
proof (induction rs arbitrary: r)
  case Nil
  then show ?case by simp
next
  case (Cons x xs)
  show ?case
  proof (cases "r \<in> set xs")
    case True
    with Cons.IH show ?thesis by auto
  next
    case False
    then have rx: "r = x" using Cons.prems by simp
    show ?thesis
    proof (cases "\<exists>later\<in>set xs. same_rule_target x later")
      case True
      then obtain later where l: "later \<in> set xs" "same_rule_target x later" by blast
      with Cons.IH [OF l(1)] True rx same_rule_target_trans show ?thesis by auto
    next
      case False
      with rx show ?thesis by auto
    qed
  qed
qed

lemma put_rules_subset: "set (put_rules new base) \<subseteq> set new \<union> set base"
  unfolding put_rules_closed using last_per_target_subset by fastforce

lemma put_rules_covers:
  assumes "r \<in> set new"
  shows "\<exists>s\<in>set (put_rules new base). s \<in> set new \<and> same_rule_target r s"
  using last_per_target_complete [OF assms] last_per_target_subset [of new]
  unfolding put_rules_closed by auto

section \<open>Properties\<close>

text \<open>Layering session rules over the configured policy keeps exactly the configured rules
  whose target no session rule names, in their order, followed by the last session rule for
  each target; every other setting of the policy is untouched.\<close>

theorem merge_approval_config_closed:
  "merge_approval_config baseline session_rules =
     baseline\<lparr>config_rules :=
       filter (\<lambda>b. \<not> list_ex (same_rule_target b) session_rules) (config_rules baseline)
         @ last_per_target session_rules\<rparr>"
proof -
  have "(\<lambda>b. \<forall>s\<in>set session_rules. \<not> same_rule_target b s) =
      (\<lambda>b. \<not> list_ex (same_rule_target b) session_rules)"
    by (auto simp: list_ex_iff)
  then show ?thesis by (simp add: merge_approval_config_def put_rules_closed)
qed

subsection \<open>Selector round trip\<close>

lemma parse_segments_step:
  assumes "dict_get selector_aliases key = Some field" and "CHR ''='' \<notin> set key"
    and "value \<noteq> []" and "field \<notin> set (keys dims)"
  shows "parse_segments ((key @ CHR ''='' # value) # segs) dims
      = parse_segments segs (dict_set field value dims)"
  using assms by (simp add: partition_on_append)

lemma selector_alias_values:
  "dict_get selector_aliases ''source'' = Some ''tool_source''"
  "dict_get selector_aliases ''mcp_server'' = Some ''mcp_server''"
  "dict_get selector_aliases ''tool'' = Some ''tool_name''"
  "dict_get selector_aliases ''effect'' = Some ''effect_class''"
  "dict_get selector_aliases ''profile'' = Some ''profile''"
  by (simp_all add: selector_aliases_def dict_get_def)

text \<open>A rule the key/value grammar can carry: some dimension is set, no dimension is the empty
  string or contains a comma, and a server is only named for MCP tools.\<close>

definition selectable :: "approval_rule_config \<Rightarrow> bool" where
  "selectable rule \<longleftrightarrow>
     (\<exists>v\<in>{rule_tool_source rule, rule_mcp_server rule, rule_tool_name rule,
            rule_effect_class rule, rule_profile rule}. v \<noteq> None) \<and>
     (\<forall>v\<in>{rule_tool_source rule, rule_mcp_server rule, rule_tool_name rule,
            rule_effect_class rule, rule_profile rule}.
        v \<noteq> Some [] \<and> CHR '','' \<notin> set (or_empty v)) \<and>
     rule_tool_source rule \<in> {None, Some ''builtin'', Some ''mcp'', Some ''unknown''} \<and>
     (rule_mcp_server rule \<noteq> None \<longrightarrow> rule_tool_source rule = Some ''mcp'') \<and>
     rule_scope_key rule = None \<and> rule_pattern rule \<noteq> Some []"

definition selector_fields :: "approval_rule_config \<Rightarrow> (string \<times> string \<times> string option) list" where
  "selector_fields rule =
     [(''source'', ''tool_source'', rule_tool_source rule),
      (''mcp_server'', ''mcp_server'', rule_mcp_server rule),
      (''tool'', ''tool_name'', rule_tool_name rule),
      (''effect'', ''effect_class'', rule_effect_class rule),
      (''profile'', ''profile'', rule_profile rule)]"

definition field_segments :: "(string \<times> string \<times> string option) list \<Rightarrow> string list" where
  "field_segments fs = map (\<lambda>(key, _, value). key @ ''='' @ or_empty value)
     (filter (\<lambda>(_, _, value). or_empty value \<noteq> []) fs)"

definition field_dict :: "(string \<times> string \<times> string option) list \<Rightarrow> (string, string) dict" where
  "field_dict fs = map (\<lambda>(_, field, value). (field, or_empty value))
     (filter (\<lambda>(_, _, value). or_empty value \<noteq> []) fs)"

lemma selector_is_join:
  "approval_rule_selector rule = join '','' (field_segments (selector_fields rule))"
  by (simp add: approval_rule_selector_def selector_fields_def field_segments_def)

lemma parse_field_segments:
  assumes "\<forall>(key, field, value)\<in>set fs.
      dict_get selector_aliases key = Some field \<and> CHR ''='' \<notin> set key"
    and "distinct (map (fst \<circ> snd) fs)"
    and "set (map (fst \<circ> snd) fs) \<inter> set (keys dims) = {}"
  shows "parse_segments (field_segments fs) dims = Some (dims @ field_dict fs)"
  using assms
proof (induction fs arbitrary: dims)
  case Nil
  then show ?case by (simp add: field_segments_def field_dict_def)
next
  case (Cons f fs)
  obtain key field v where f: "f = (key, field, v)" by (cases f) auto
  show ?case
  proof (cases "or_empty v = []")
    case True
    with Cons f show ?thesis by (auto simp: field_segments_def field_dict_def)
  next
    case False
    have "parse_segments (field_segments (f # fs)) dims
        = parse_segments (field_segments fs) (dict_set field (or_empty v) dims)"
      using False f Cons.prems
      by (simp add: field_segments_def parse_segments_step del: parse_segments.simps(2))
    also have "\<dots> = Some (dict_set field (or_empty v) dims @ field_dict fs)"
      using Cons.prems f by (intro Cons.IH) (auto simp: keys_dict_set)
    finally show ?thesis
      using False f Cons.prems by (simp add: field_dict_def dict_set_new)
  qed
qed

lemma parse_selector:
  "parse_segments (field_segments (selector_fields rule)) [] = Some (field_dict (selector_fields rule))"
  using parse_field_segments [of "selector_fields rule" "[]"]
  by (simp add: selector_fields_def selector_alias_values)

lemma selector_split:
  assumes "selectable rule"
  shows "split_on (CHR '','') (approval_rule_selector rule) = field_segments (selector_fields rule)"
  unfolding selector_is_join using assms
  by (intro split_join)
     (auto simp: selector_fields_def field_segments_def selectable_def or_empty_def
        split: option.splits)

lemma selector_has_eq:
  assumes "selectable rule"
  shows "CHR ''='' \<in> set (approval_rule_selector rule)"
proof -
  have in_join: "x \<in> set xs \<Longrightarrow> c \<in> set x \<Longrightarrow> c \<in> set (join sep xs)" for c :: char and x sep xs
    by (induction sep xs rule: join.induct) auto
  from assms have "field_segments (selector_fields rule) \<noteq> []"
    by (auto simp: field_segments_def selector_fields_def selectable_def or_empty_def
        split: option.splits)
  then obtain seg where "seg \<in> set (field_segments (selector_fields rule))"
    by (meson list.set_sel(1))
  moreover from this have "CHR ''='' \<in> set seg" by (auto simp: field_segments_def)
  ultimately show ?thesis unfolding selector_is_join by (rule in_join)
qed

lemma field_dict_lookup:
  assumes "distinct (map (fst \<circ> snd) fs)" and "(key, field, v) \<in> set fs" and "v \<noteq> Some []"
  shows "dict_get (field_dict fs) field = v"
  using assms
proof (induction fs)
  case (Cons f fs)
  have absent: "dict_get (field_dict fs) field = None" if "field \<notin> set (map (fst \<circ> snd) fs)"
    using that by (induction fs) (auto simp: field_dict_def dict_get_def)
  show ?case
  proof (cases "f = (key, field, v)")
    case True
    with Cons.prems absent show ?thesis
      by (cases v) (auto simp: field_dict_def dict_get_def or_empty_def)
  next
    case False
    with Cons.prems have "(key, field, v) \<in> set fs" by simp
    moreover from imageI [OF this, of "fst \<circ> snd"] Cons.prems(1) have "fst (snd f) \<noteq> field" by auto
    ultimately have "dict_get (field_dict fs) field = v" "fst (snd f) \<noteq> field"
      using Cons.IH Cons.prems by simp_all
    then show ?thesis by (auto simp: field_dict_def dict_get_def split: prod.splits)
  qed
qed simp

lemma field_dict_get:
  assumes "selectable rule"
  shows "dict_get (field_dict (selector_fields rule)) ''tool_source'' = rule_tool_source rule"
    "dict_get (field_dict (selector_fields rule)) ''mcp_server'' = rule_mcp_server rule"
    "dict_get (field_dict (selector_fields rule)) ''tool_name'' = rule_tool_name rule"
    "dict_get (field_dict (selector_fields rule)) ''effect_class'' = rule_effect_class rule"
    "dict_get (field_dict (selector_fields rule)) ''profile'' = rule_profile rule"
  using assms
  by (simp_all add: selector_fields_def selectable_def
      field_dict_lookup [where key = "''source''"] field_dict_lookup [where key = "''mcp_server''"]
      field_dict_lookup [where key = "''tool''"] field_dict_lookup [where key = "''effect''"] field_dict_lookup [where key = "''profile''"])

lemma parse_action_value [simp]: "parse_action (action_value a) = Some a"
  by (cases a) auto

text \<open>The compact selector the approval panel writes for a rule parses back to the rule: its
  dimensions, its pattern and its action survive the round trip through the command line.\<close>

theorem selector_roundtrip:
  assumes "selectable rule"
  shows "parse_approval_target (approval_rule_selector rule) (action_value (rule_action rule))
     (rule_pattern rule) = Some rule"
proof -
  have "parse_approval_target (approval_rule_selector rule) (action_value (rule_action rule))
      (rule_pattern rule)
      = rule_of_dimensions (field_dict (selector_fields rule)) (rule_pattern rule) (rule_action rule)"
    using assms selector_has_eq [OF assms] selector_split [OF assms]
    by (simp add: parse_approval_target_def parse_selector selectable_def del: parse_action.simps)
  also have "\<dots> = Some rule"
    using assms field_dict_get [OF assms]
    by (auto simp: rule_of_dimensions_def Let_def dict_get_set selectable_def default_rule_def)
  finally show ?thesis .
qed

theorem selector_roundtrip_witness:
  "parse_approval_target ''source=mcp,mcp_server=github,tool=search'' ''deny'' None =
     Some (default_rule\<lparr>rule_tool_source := Some ''mcp'', rule_mcp_server := Some ''github'',
       rule_tool_name := Some ''search'', rule_action := Deny\<rparr>)"
proof -
  let ?r = "default_rule\<lparr>rule_tool_source := Some ''mcp'', rule_mcp_server := Some ''github'',
       rule_tool_name := Some ''search'', rule_action := Deny\<rparr>"
  have "selectable ?r" by (simp add: selectable_def default_rule_def or_empty_def)
  moreover have "approval_rule_selector ?r = ''source=mcp,mcp_server=github,tool=search''"
    by (simp add: approval_rule_selector_def default_rule_def or_empty_def)
  moreover have "rule_pattern ?r = None" "rule_action ?r = Deny" by (simp_all add: default_rule_def)
  ultimately show ?thesis using selector_roundtrip [of ?r] by simp
qed

subsection \<open>What a session grant changes\<close>

lemma apply_grant_Inr:
  assumes "apply_session_approval_grant persist agent request grant = Inr agent'"
  shows "\<forall>rule\<in>set (proposed_rules grant).
      rule_action rule = Allow \<and> rule_scope_key rule = req_scope_key request"
    and "grant_scope_key grant = req_scope_key request" and "proposed_rules grant \<noteq> []"
    and "ag_has_lock agent"
    and "agent' = refresh_approval_runtime
      (agent\<lparr>ag_session_rules := put_rules (proposed_rules grant) (ag_session_rules agent)\<rparr>)
      (merge_approval_config (ag_baseline agent)
        (put_rules (proposed_rules grant) (ag_session_rules agent)))"
    and "persist (agent\<lparr>ag_session_rules :=
      put_rules (proposed_rules grant) (ag_session_rules agent)\<rparr>) = None"
  using assms
  by (auto simp: apply_session_approval_grant_def Let_def list_ex_iff
      split: if_splits option.splits)

lemma evaluate_no_rule:
  "match_rule (evaluate cfg context) = None \<Longrightarrow>
     match_action (evaluate cfg context) = fallback_action cfg context"
proof (cases "ctx_subjects context")
  case Nil
  then show "match_rule (evaluate cfg context) = None \<Longrightarrow> ?thesis"
    by (auto simp: evaluate_def rule_match_def fallback_match_def split: option.splits)
next
  case (Cons s ss)
  then show "match_rule (evaluate cfg context) = None \<Longrightarrow> ?thesis"
    using evaluate_subjects(1) [OF Cons, of cfg] resolve_subject_fallback by metis
qed

lemma put_allow_rules_mem:
  assumes "\<forall>rule\<in>set new. rule_action rule = Allow" and "rule \<in> set new"
  shows "rule \<in> set (put_rules new base)"
  using put_rules_covers [OF assms(2), of base] assms same_target_action by metis

lemma covered_by_rules:
  assumes covers: "approval_grant_covers_request grant request"
    and source: "req_tool_source request \<in> {''builtin'', ''mcp'', ''unknown''}"
    and rules: "\<forall>rule\<in>set (config_rules cfg). rule_action rule = Allow"
    and fallback: "fallback_action cfg (request_context request) \<noteq> Allow"
    and subset: "\<forall>rule\<in>set (proposed_rules grant). rule_action rule = Allow
      \<longrightarrow> rule \<in> set (config_rules cfg)"
  shows "match_action (evaluate cfg (request_context request)) = Allow"
proof -
  have "ctx_subjects (request_context request) = req_subjects request"
    by (simp add: request_context_def)
  then show ?thesis
    using covers subset
    unfolding all_allow_evaluate [OF rules fallback] grant_covers_unfold Let_def
    by (auto simp: applies_def request_context_dimensions [OF source] approval_pattern_matches_def
        split: if_splits) (metis)+
qed

text \<open>After a session grant is applied, the session judge approves every request the grant
  covers, provided the session's earlier rules were allow rules too and the reviewed workspace
  did not change: a matching request is not asked about again.\<close>

theorem granted_requests_are_judged_allowed:
  assumes grant: "apply_session_approval_grant persist agent request grant = Inr agent'"
    and earlier: "\<forall>rule\<in>set (ag_session_rules agent). rule_action rule = Allow"
    and covers: "approval_grant_covers_request grant request2"
    and source: "req_tool_source request2 \<in> {''builtin'', ''mcp'', ''unknown''}"
    and effect: "\<not> internal_effect (req_effect_class request2)"
    and same: "\<not> meta_true (req_metadata request2) ''workspace_changed_during_approval''"
  shows "judge_session_approval_rules agent' request2
    = Some (allow_once (Some ''matched session approval grant'') False)"
proof -
  note ok = apply_grant_Inr [OF grant]
  let ?rules = "put_rules (proposed_rules grant) (ag_session_rules agent)"
  let ?cfg = "default_approval_config\<lparr>default_mode := Require_Approval, config_rules := ?rules\<rparr>"
  have agent': "ag_session_rules agent' = ?rules" "ag_has_lock agent'"
    using ok(4,5) by (simp_all add: refresh_approval_runtime_def)
  have rules: "\<forall>rule\<in>set (config_rules ?cfg). rule_action rule = Allow"
    using ok(1) earlier put_rules_subset [of "proposed_rules grant" "ag_session_rules agent"]
    by auto
  have mem: "\<forall>rule\<in>set (proposed_rules grant). rule \<in> set ?rules"
    using ok(1) put_allow_rules_mem by blast
  have fallback: "fallback_action ?cfg (request_context request2) \<noteq> Allow"
    using effect by (simp add: fallback_action_def internal_effect_def request_context_def)
  have act: "match_action (evaluate ?cfg (request_context request2)) = Allow"
    by (rule covered_by_rules [OF covers source rules fallback]) (use mem in simp)
  then have "match_rule (evaluate ?cfg (request_context request2)) \<noteq> None"
    using evaluate_no_rule fallback by metis
  moreover have "?rules \<noteq> []" using mem ok(3) by (metis list.set_intros(1) neq_Nil_conv empty_iff empty_set)
  ultimately show ?thesis
    using act same agent' by (simp add: judge_session_approval_rules_def Let_def)
qed

definition ex_agent :: approval_agent where
  "ex_agent = \<lparr>ag_session_rules = [], ag_baseline = ex_config,
     ag_hooks = [\<lparr>guard_policies = [], guard_engine = Some ex_config\<rparr>], ag_has_lock = True\<rparr>"

definition ex_granted_agent :: approval_agent where
  "ex_granted_agent = (case apply_session_approval_grant (\<lambda>_. None) ex_agent
     (ex_request [''src/a''] ''r1'') ex_grant of Inr a \<Rightarrow> a | Inl _ \<Rightarrow> ex_agent)"

lemma ex_granted_agent:
  "apply_session_approval_grant (\<lambda>_. None) ex_agent (ex_request [''src/a''] ''r1'') ex_grant
     = Inr ex_granted_agent"
proof -
  have "isl (apply_session_approval_grant (\<lambda>_. None) ex_agent
    (ex_request [''src/a''] ''r1'') ex_grant) = False" by code_simp
  then show ?thesis by (auto simp: ex_granted_agent_def split: sum.splits)
qed

theorem granted_requests_are_judged_allowed_witness:
  "judge_session_approval_rules ex_granted_agent (ex_request [''src/b''] ''r2'')
     = Some (allow_once (Some ''matched session approval grant'') False)"
proof (rule granted_requests_are_judged_allowed [OF ex_granted_agent])
  show "approval_grant_covers_request ex_grant (ex_request [''src/b''] ''r2'')" by code_simp
qed (simp_all add: ex_agent_def ex_request_def internal_effect_def meta_true_def dict_get_def)

text \<open>A session grant is all or nothing: it is accepted only when every proposed rule is an
  allow rule bound to the request's environment and the snapshot was persisted; it then
  replaces the same-target session rules, leaves the configured policy as it was, and every
  live guard evaluates that policy layered with the new session rules.\<close>

theorem session_grant_effect:
  assumes "apply_session_approval_grant persist agent request grant = Inr agent'"
  shows "(\<forall>rule\<in>set (proposed_rules grant).
        rule_action rule = Allow \<and> rule_scope_key rule = req_scope_key request) \<and>
    persist (agent\<lparr>ag_session_rules := ag_session_rules agent'\<rparr>) = None \<and>
    ag_session_rules agent' = put_rules (proposed_rules grant) (ag_session_rules agent) \<and>
    ag_baseline agent' = ag_baseline agent \<and>
    length (ag_hooks agent') = length (ag_hooks agent) \<and>
    (\<forall>hook\<in>set (ag_hooks agent'). guard_engine hook =
       Some (merge_approval_config (ag_baseline agent) (ag_session_rules agent')))"
  using apply_grant_Inr [OF assms]
  by (simp add: refresh_approval_runtime_def update_approval_config_def)

theorem session_grant_effect_witness:
  "ag_session_rules ex_granted_agent = proposed_rules ex_grant \<and>
   ag_baseline ex_granted_agent = ex_config"
  using session_grant_effect [OF ex_granted_agent]
  by (simp add: ex_agent_def ex_grant_def put_rule_def)

text \<open>A directory grant outranks an exact deny rule of the configured policy: the grant's
  binding to the session environment adds to its specificity, so after the user grants
  \<open>src/**\<close> the guard allows the file \<open>src/key\<close> that the configuration denies by name.\<close>

theorem directory_grant_overrides_exact_deny:
  "match_action (evaluate (ag_baseline ex_agent) (request_context (ex_request [''src/key''] ''r2'')))
     = Deny \<and>
   match_action (evaluate (merge_approval_config (ag_baseline ex_agent)
       (ag_session_rules ex_granted_agent)) (request_context (ex_request [''src/key''] ''r2'')))
     = Allow"
  by code_simp

end
