(* ===== verification/Approval_Coordinator.thy ===== *)
theory Approval_Coordinator
  imports Approval_Types
begin

text \<open>
  The FIFO human-review coordinator of \<^verbatim>\<open>domain/approval.py\<close> (\<open>PendingApproval\<close>,
  \<open>ApprovalCoordinator\<close>) and the review handler of \<^verbatim>\<open>app/runtime/approval_interaction.py\<close>.
  Every call of \<open>request_approval\<close> is a thread; the condition lock makes its blocks atomic, so
  the coordinator is a step relation whose labels are the atomic blocks of the calls, the
  handler's resolutions, time-outs and cancellations. The invariants show one unresolved
  focus, first-come first-served presentation, exact queue positions, where an approval
  can come from, and that no wake-up is lost: a call asleep in the condition can only go on after
  a \<^verbatim>\<open>notify_all\<close>, and while it sleeps it still has to wait.
\<close>

section \<open>State\<close>

record pending_approval =
  pd_request :: approval_request
  pd_event :: bool
  pd_decision :: "approval_decision option"

text \<open>The program point of the thread that runs \<open>request_approval\<close>: inside the wait loop,
  inside the handler, inside \<open>pending.wait()\<close>, inside \<open>_apply_session_grant\<close> before its locked
  block, at the \<open>finally\<close> clause, and returned (or raised).\<close>

datatype call_point =
    In_Queue
  | In_Handler
  | In_Wait
  | In_Grant approval_decision
  | In_Finally "(py_exn, approval_decision) result"
  | Finished "(py_exn, approval_decision) result"

record approval_call = pending_approval +
  call_at :: call_point

text \<open>Calls are numbered in the order they registered, and the number stands for the identity
  of the \<open>PendingApproval\<close> object. \<open>co_presented\<close> logs the handler invocations in order;
  \<open>co_timeout\<close> is the printed time-out and \<open>co_grants\<close> whether a grant handler is set.
  \<open>co_asleep\<close> holds the calls that are inside \<^verbatim>\<open>self._condition.wait()\<close> and were not notified since.\<close>

record coordinator =
  co_calls :: "approval_call list"
  co_queue :: "nat list"
  co_presented :: "nat list"
  co_asleep :: "nat list"
  co_timeout :: string
  co_grants :: bool

section \<open>Operations\<close>

abbreviation call_of :: "coordinator \<Rightarrow> nat \<Rightarrow> approval_call" where
  "call_of c p \<equiv> co_calls c ! p"

definition update_call :: "nat \<Rightarrow> (approval_call \<Rightarrow> approval_call) \<Rightarrow> coordinator \<Rightarrow> coordinator" where
  "update_call p f c = c\<lparr>co_calls := (co_calls c)[p := f (co_calls c ! p)]\<rparr>"

definition resolve :: "approval_decision \<Rightarrow> approval_call \<Rightarrow> approval_call" where
  "resolve d call = call\<lparr>pd_decision := Some d, pd_event := True\<rparr>"

definition pending_count :: "coordinator \<Rightarrow> nat" where
  "pending_count c = length (co_queue c)"

definition set_status :: "nat \<Rightarrow> nat \<Rightarrow> approval_call \<Rightarrow> approval_call" where
  "set_status i n call = call\<lparr>pd_request := (pd_request call)
     \<lparr>req_queue_status := \<lparr>position = i + 1, waiting = n - i - 1\<rparr>\<rparr>\<rparr>"

definition refresh_queue_status :: "coordinator \<Rightarrow> coordinator" where
  "refresh_queue_status c =
     (let n = length (co_queue c)
      in foldl (\<lambda>s (i, p). update_call p (set_status i n) s) c (enumerate 0 (co_queue c)))"

text \<open>\<^verbatim>\<open>self._condition.notify_all()\<close>: every call asleep may run its loop's test again.\<close>

definition notify_all :: "coordinator \<Rightarrow> coordinator" where
  "notify_all c = c\<lparr>co_asleep := []\<rparr>"

text \<open>The wait loop's condition and what follows it under the lock: go to sleep in the queue, return a
  decision somebody else set, or leave the lock for the handler.\<close>

definition leave_queue :: "nat \<Rightarrow> coordinator \<Rightarrow> coordinator" where
  "leave_queue p c =
     (if co_queue c \<noteq> [] \<and> hd (co_queue c) \<noteq> p \<and> \<not> pd_event (call_of c p)
      then c\<lparr>co_asleep := co_asleep c @ [p]\<rparr>
      else if pd_event (call_of c p)
      then update_call p (\<lambda>call. call\<lparr>call_at := Finished (Inr
             (case pd_decision call of Some d \<Rightarrow> d | None \<Rightarrow> deny ''approval cancelled''))\<rparr>) c
      else (update_call p (\<lambda>call. call\<lparr>call_at := In_Handler\<rparr>) c)
             \<lparr>co_presented := co_presented c @ [p]\<rparr>)"

definition register :: "approval_request \<Rightarrow> coordinator \<Rightarrow> coordinator" where
  "register request c =
     (let p = length (co_calls c)
      in leave_queue p (notify_all (refresh_queue_status
           (c\<lparr>co_calls := co_calls c @ [\<lparr>pd_request = request, pd_event = False,
                 pd_decision = None, call_at = In_Queue\<rparr>],
               co_queue := co_queue c @ [p]\<rparr>))))"

text \<open>The handler's exceptions: the interactive interruptions and other base exceptions
  propagate, an ordinary exception denies.\<close>

fun handler_failure :: "py_exn \<Rightarrow> (py_exn, approval_decision) result" where
  "handler_failure (Py_Exception e) = Inr (deny (''approval interaction failed closed: '' @ e))"
| "handler_failure Py_KeyboardInterrupt = Inl Py_KeyboardInterrupt"
| "handler_failure Py_EOFError = Inl Py_EOFError"
| "handler_failure (Py_BaseException e) = Inl (Py_BaseException e)"

text \<open>After \<open>pending.wait()\<close>: the flag says whether the event was set or the wait timed out.\<close>

definition wait_decision :: "coordinator \<Rightarrow> nat \<Rightarrow> approval_decision" where
  "wait_decision c p =
     (if pd_event (call_of c p)
      then (case pd_decision (call_of c p) of Some d \<Rightarrow> d | None \<Rightarrow> deny ''no decision'')
      else deny (''approval timed out after '' @ co_timeout c @ ''s''))"

definition after_wait :: "nat \<Rightarrow> coordinator \<Rightarrow> coordinator" where
  "after_wait p c =
     (let d = wait_decision c p
      in update_call p (\<lambda>call. call\<lparr>call_at :=
           (if dec_mode d = Allow_Session then In_Grant d else In_Finally (Inr d))\<rparr>) c)"

definition release_reason :: "approval_request \<Rightarrow> string" where
  "release_reason request =
     ''approved by a matching session grant from request '' @ req_request_id request"

definition released ::
    "approval_request \<Rightarrow> approval_grant_candidate \<Rightarrow> coordinator \<Rightarrow> nat \<Rightarrow> bool" where
  "released request grant c p \<longleftrightarrow>
     req_request_id (pd_request (call_of c p)) \<noteq> req_request_id request \<and>
     \<not> pd_event (call_of c p) \<and>
     approval_grant_covers_request grant (pd_request (call_of c p))"

fun release_covered ::
    "approval_request \<Rightarrow> approval_grant_candidate \<Rightarrow> nat list \<Rightarrow> coordinator
      \<Rightarrow> coordinator \<times> string list" where
  "release_covered request grant [] c = (c, [])"
| "release_covered request grant (p # ps) c =
     (if released request grant c p
      then let (c', ids) = release_covered request grant ps
             (update_call p (resolve (allow_session grant (Some (release_reason request)) False))
               (c\<lparr>co_queue := remove1 p (co_queue c)\<rparr>))
           in (c', req_request_id (pd_request (call_of c p)) # ids)
      else release_covered request grant ps c)"

text \<open>\<open>_apply_session_grant\<close>: \<open>outcome\<close> is what the injected grant handler did, returned or
  raised; an exception outside \<open>Exception\<close> propagates to the \<open>finally\<close> clause.\<close>

definition apply_session_grant ::
    "nat \<Rightarrow> approval_decision \<Rightarrow> py_exn option \<Rightarrow> coordinator \<Rightarrow> coordinator" where
  "apply_session_grant p decision outcome c =
     (let continue_with = (\<lambda>res c. update_call p (\<lambda>call. call\<lparr>call_at := In_Finally res\<rparr>) c)
      in case dec_grant decision of
           None \<Rightarrow> continue_with
             (Inr (deny ''session approval did not include a validated grant'')) c
         | Some grant \<Rightarrow>
             if \<not> co_grants c
             then continue_with (Inr (deny ''session approval is unavailable in this runtime'')) c
             else (case outcome of
                 Some (Py_Exception e) \<Rightarrow>
                   continue_with (Inr (deny (''session approval failed closed: '' @ e))) c
               | Some e \<Rightarrow> continue_with (Inl e) c
               | None \<Rightarrow>
                   (let (c', covered_ids) =
                          release_covered (pd_request (call_of c p)) grant (co_queue c) c;
                        c'' = (if covered_ids = [] then c' else notify_all (refresh_queue_status c'))
                    in continue_with
                         (Inr (decision\<lparr>dec_released_request_ids := covered_ids\<rparr>)) c'')))"

definition finish :: "nat \<Rightarrow> (py_exn, approval_decision) result \<Rightarrow> coordinator \<Rightarrow> coordinator" where
  "finish p res c =
     (let c' = (if co_queue c \<noteq> [] \<and> hd (co_queue c) = p
                then c\<lparr>co_queue := tl (co_queue c)\<rparr>
                else c\<lparr>co_queue := remove1 p (co_queue c)\<rparr>)
      in update_call p (\<lambda>call. call\<lparr>call_at := Finished res\<rparr>) (notify_all (refresh_queue_status c')))"

fun cancel_each :: "string \<Rightarrow> nat list \<Rightarrow> coordinator \<Rightarrow> coordinator" where
  "cancel_each reason [] c = c"
| "cancel_each reason (p # ps) c =
     cancel_each reason ps
       (update_call p (resolve (deny reason)) (c\<lparr>co_queue := remove1 p (co_queue c)\<rparr>))"

definition cancel_matching ::
    "(approval_request \<Rightarrow> bool) \<Rightarrow> string \<Rightarrow> coordinator \<Rightarrow> coordinator \<times> string list" where
  "cancel_matching predicate reason c =
     (let matches = filter (\<lambda>p. predicate (pd_request (call_of c p))) (co_queue c);
          c' = cancel_each reason matches c
      in (if matches = [] then c' else notify_all (refresh_queue_status c'),
          map (\<lambda>p. req_request_id (pd_request (call_of c p))) matches))"

section \<open>The step relation\<close>

datatype coord_label =
    Register approval_request
  | Wake nat
  | Resolve nat approval_decision
  | Handler_Return nat
  | Handler_Raise nat py_exn
  | Wait_Done nat
  | Grant_Outcome nat approval_decision "py_exn option"
  | Finally nat
  | Cancel "approval_request \<Rightarrow> bool" string

inductive coord_step :: "coordinator \<Rightarrow> coord_label \<Rightarrow> coordinator \<Rightarrow> bool" where
  step_register: "coord_step c (Register request) (register request c)"
| step_wake: "p < length (co_calls c) \<Longrightarrow> call_at (call_of c p) = In_Queue \<Longrightarrow> p \<notin> set (co_asleep c) \<Longrightarrow>
    coord_step c (Wake p) (leave_queue p c)"
| step_resolve: "p \<in> set (co_presented c) \<Longrightarrow>
    coord_step c (Resolve p d) (update_call p (resolve d) c)"
| step_handler_return: "p < length (co_calls c) \<Longrightarrow> call_at (call_of c p) = In_Handler \<Longrightarrow>
    coord_step c (Handler_Return p) (update_call p (\<lambda>call. call\<lparr>call_at := In_Wait\<rparr>) c)"
| step_handler_raise: "p < length (co_calls c) \<Longrightarrow> call_at (call_of c p) = In_Handler \<Longrightarrow>
    coord_step c (Handler_Raise p e)
      (update_call p (\<lambda>call. call\<lparr>call_at := In_Finally (handler_failure e)\<rparr>) c)"
| step_wait_done: "p < length (co_calls c) \<Longrightarrow> call_at (call_of c p) = In_Wait \<Longrightarrow>
    coord_step c (Wait_Done p) (after_wait p c)"
| step_grant: "p < length (co_calls c) \<Longrightarrow> call_at (call_of c p) = In_Grant d \<Longrightarrow>
    coord_step c (Grant_Outcome p d outcome) (apply_session_grant p d outcome c)"
| step_finally: "p < length (co_calls c) \<Longrightarrow> call_at (call_of c p) = In_Finally res \<Longrightarrow>
    coord_step c (Finally p) (finish p res c)"
| step_cancel: "coord_step c (Cancel predicate reason) (fst (cancel_matching predicate reason c))"

definition new_coordinator :: "string \<Rightarrow> bool \<Rightarrow> coordinator" where
  "new_coordinator timeout grants = \<lparr>co_calls = [], co_queue = [], co_presented = [], co_asleep = [],
     co_timeout = timeout, co_grants = grants\<rparr>"

inductive coord_run :: "coord_label list \<Rightarrow> coordinator \<Rightarrow> bool" where
  run_start: "coord_run [] (new_coordinator timeout grants)"
| run_step: "coord_run ls c \<Longrightarrow> coord_step c l c' \<Longrightarrow> coord_run (ls @ [l]) c'"


section \<open>Frame lemmas\<close>

lemma update_call_frame [simp]:
  "co_queue (update_call p f c) = co_queue c"
  "co_presented (update_call p f c) = co_presented c"
  "length (co_calls (update_call p f c)) = length (co_calls c)"
  "co_grants (update_call p f c) = co_grants c"
  "co_asleep (update_call p f c) = co_asleep c"
  by (simp_all add: update_call_def)

lemma notify_frame [simp]:
  "co_queue (notify_all c) = co_queue c" "co_presented (notify_all c) = co_presented c"
  "co_calls (notify_all c) = co_calls c" "co_grants (notify_all c) = co_grants c"
  "co_asleep (notify_all c) = []"
  by (simp_all add: notify_all_def)

lemma call_of_update_call:
  "p < length (co_calls c) \<Longrightarrow>
    call_of (update_call q f c) p = (if p = q then f (call_of c p) else call_of c p)"
  by (auto simp: update_call_def)

lemma resolve_simps [simp]:
  "pd_event (resolve d call)" "pd_decision (resolve d call) = Some d"
  "call_at (resolve d call) = call_at call" "pd_request (resolve d call) = pd_request call"
  by (simp_all add: resolve_def)

lemma set_status_simps [simp]:
  "pd_event (set_status i n call) = pd_event call"
  "pd_decision (set_status i n call) = pd_decision call"
  "call_at (set_status i n call) = call_at call"
  "approval_grant_covers_request g (pd_request (set_status i n call))
     = approval_grant_covers_request g (pd_request call)"
  "req_queue_status (pd_request (set_status i n call)) = \<lparr>position = i + 1, waiting = n - i - 1\<rparr>"
  by (simp_all add: set_status_def grant_covers_unfold grant_dimensions_match_def)

lemma set_status_twice [simp]: "set_status i n (set_status j m call) = set_status i n call"
  by (simp add: set_status_def)

lemma fold_status_frame [simp]:
  "co_queue (foldl (\<lambda>s (i, p). update_call p (set_status i n) s) c ips) = co_queue c"
  "co_presented (foldl (\<lambda>s (i, p). update_call p (set_status i n) s) c ips) = co_presented c"
  "length (co_calls (foldl (\<lambda>s (i, p). update_call p (set_status i n) s) c ips)) = length (co_calls c)"
  "co_grants (foldl (\<lambda>s (i, p). update_call p (set_status i n) s) c ips) = co_grants c"
  "co_asleep (foldl (\<lambda>s (i, p). update_call p (set_status i n) s) c ips) = co_asleep c"
  by (induction ips arbitrary: c) auto

lemma fold_status_call:
  assumes "p < length (co_calls c)"
  shows "call_of (foldl (\<lambda>s (i, p). update_call p (set_status i n) s) c ips) p
      \<in> insert (call_of c p) ((\<lambda>i. set_status i n (call_of c p)) ` {i. (i, p) \<in> set ips})"
  using assms
proof (induction ips rule: rev_induct)
  case Nil
  then show ?case by simp
next
  case (snoc ip ips)
  then show ?case by (cases ip) (auto simp: call_of_update_call)
qed

lemma fold_status_hit:
  assumes "p < length (co_calls c)" and "(i, p) \<in> set ips" and "distinct (map snd ips)"
  shows "call_of (foldl (\<lambda>s (i, p). update_call p (set_status i n) s) c ips) p
      = set_status i n (call_of c p)"
  using assms
proof (induction ips rule: rev_induct)
  case Nil
  then show ?case by simp
next
  case (snoc ip ips)
  show ?case
  proof (cases "ip = (i, p)")
    case True
    then have "{j. (j, p) \<in> set ips} = {}" using snoc.prems by (auto simp: image_iff)
    with True show ?thesis
      using fold_status_call [OF snoc.prems(1), of n ips] snoc.prems(1)
      by (simp add: call_of_update_call)
  next
    case False
    then have "snd ip \<noteq> p" "(i, p) \<in> set ips" using snoc.prems by (auto simp: image_iff)
    then show ?thesis using snoc
      by (cases ip) (simp add: call_of_update_call)
  qed
qed

lemma refresh_frame [simp]:
  "co_queue (refresh_queue_status c) = co_queue c"
  "co_presented (refresh_queue_status c) = co_presented c"
  "length (co_calls (refresh_queue_status c)) = length (co_calls c)"
  "co_grants (refresh_queue_status c) = co_grants c"
  "co_asleep (refresh_queue_status c) = co_asleep c"
  by (simp_all add: refresh_queue_status_def Let_def)

lemma refresh_call:
  assumes "p < length (co_calls c)"
  obtains "call_of (refresh_queue_status c) p = call_of c p"
  | i n where "call_of (refresh_queue_status c) p = set_status i n (call_of c p)"
  using fold_status_call [OF assms, of "length (co_queue c)" "enumerate 0 (co_queue c)"]
  by (auto simp: refresh_queue_status_def Let_def)

lemma refresh_call_simps [simp]:
  assumes "p < length (co_calls c)"
  shows "pd_event (call_of (refresh_queue_status c) p) = pd_event (call_of c p)"
    and "pd_decision (call_of (refresh_queue_status c) p) = pd_decision (call_of c p)"
    and "call_at (call_of (refresh_queue_status c) p) = call_at (call_of c p)"
    and "approval_grant_covers_request g (pd_request (call_of (refresh_queue_status c) p))
      = approval_grant_covers_request g (pd_request (call_of c p))"
  using assms by (cases rule: refresh_call; simp)+

lemma refresh_position:
  assumes "distinct (co_queue c)" and "set (co_queue c) \<subseteq> {..<length (co_calls c)}"
    and "i < length (co_queue c)"
  shows "req_queue_status (pd_request (call_of (refresh_queue_status c) (co_queue c ! i)))
    = \<lparr>position = i + 1, waiting = length (co_queue c) - i - 1\<rparr>"
proof -
  let ?p = "co_queue c ! i"
  have p: "?p < length (co_calls c)" using assms(2) nth_mem [OF assms(3)] by auto
  have mem: "(i, ?p) \<in> set (enumerate 0 (co_queue c))"
    using assms(3) by (auto simp: in_set_enumerate_eq)
  show ?thesis
    using fold_status_hit [OF p mem] assms(1)
    by (simp add: refresh_queue_status_def Let_def)
qed

section \<open>The queue invariant\<close>

fun is_finished :: "call_point \<Rightarrow> bool" where
  "is_finished (Finished _) = True"
| "is_finished _ = False"

definition queue_inv :: "coordinator \<Rightarrow> bool" where
  "queue_inv c \<longleftrightarrow>
     sorted_wrt (<) (co_queue c) \<and> set (co_queue c) \<subseteq> {..<length (co_calls c)} \<and>
     (\<forall>p<length (co_calls c). \<not> pd_event (call_of c p) \<longrightarrow> \<not> is_finished (call_at (call_of c p))
        \<longrightarrow> p \<in> set (co_queue c)) \<and>
     (\<forall>p\<in>set (co_queue c). \<not> is_finished (call_at (call_of c p))) \<and>
     (\<forall>p\<in>set (co_queue c). call_at (call_of c p) \<noteq> In_Queue \<longrightarrow> p = hd (co_queue c)) \<and>
     (\<forall>p\<in>set (co_queue c). call_at (call_of c p) = In_Queue \<longrightarrow> \<not> pd_event (call_of c p)) \<and>
     sorted_wrt (<) (co_presented c) \<and> set (co_presented c) \<subseteq> {..<length (co_calls c)} \<and>
     (\<forall>p<length (co_calls c). call_at (call_of c p) = In_Queue \<longrightarrow> p \<notin> set (co_presented c)) \<and>
     (\<forall>x\<in>set (co_presented c). \<forall>q\<in>set (co_queue c). x \<le> q)"

definition status_inv :: "coordinator \<Rightarrow> bool" where
  "status_inv c \<longleftrightarrow> (\<forall>i<length (co_queue c).
     req_queue_status (pd_request (call_of c (co_queue c ! i)))
       = \<lparr>position = i + 1, waiting = length (co_queue c) - i - 1\<rparr>)"

lemma queue_invD:
  assumes "queue_inv c"
  shows "sorted_wrt (<) (co_queue c)" "sorted_wrt (<) (co_presented c)"
    "\<And>p. p \<in> set (co_queue c) \<Longrightarrow> p < length (co_calls c)"
    "\<And>p. p \<in> set (co_presented c) \<Longrightarrow> p < length (co_calls c)"
    "\<And>p. p < length (co_calls c) \<Longrightarrow> \<not> pd_event (call_of c p) \<Longrightarrow>
       \<not> is_finished (call_at (call_of c p)) \<Longrightarrow> p \<in> set (co_queue c)"
    "\<And>p. p \<in> set (co_queue c) \<Longrightarrow> \<not> is_finished (call_at (call_of c p))"
    "\<And>p. p \<in> set (co_queue c) \<Longrightarrow> call_at (call_of c p) \<noteq> In_Queue \<Longrightarrow> p = hd (co_queue c)"
    "\<And>p. p \<in> set (co_queue c) \<Longrightarrow> call_at (call_of c p) = In_Queue \<Longrightarrow> \<not> pd_event (call_of c p)"
    "\<And>p. p < length (co_calls c) \<Longrightarrow> call_at (call_of c p) = In_Queue \<Longrightarrow> p \<notin> set (co_presented c)"
    "\<And>x q. x \<in> set (co_presented c) \<Longrightarrow> q \<in> set (co_queue c) \<Longrightarrow> x \<le> q"
  using assms by (auto simp: queue_inv_def)

lemma queue_invI:
  assumes "sorted_wrt (<) (co_queue c)" "sorted_wrt (<) (co_presented c)"
    "\<And>p. p \<in> set (co_queue c) \<Longrightarrow> p < length (co_calls c)"
    "\<And>p. p \<in> set (co_presented c) \<Longrightarrow> p < length (co_calls c)"
    "\<And>p. p < length (co_calls c) \<Longrightarrow> \<not> pd_event (call_of c p) \<Longrightarrow>
       \<not> is_finished (call_at (call_of c p)) \<Longrightarrow> p \<in> set (co_queue c)"
    "\<And>p. p \<in> set (co_queue c) \<Longrightarrow> \<not> is_finished (call_at (call_of c p))"
    "\<And>p. p \<in> set (co_queue c) \<Longrightarrow> call_at (call_of c p) \<noteq> In_Queue \<Longrightarrow> p = hd (co_queue c)"
    "\<And>p. p \<in> set (co_queue c) \<Longrightarrow> call_at (call_of c p) = In_Queue \<Longrightarrow> \<not> pd_event (call_of c p)"
    "\<And>p. p < length (co_calls c) \<Longrightarrow> call_at (call_of c p) = In_Queue \<Longrightarrow> p \<notin> set (co_presented c)"
    "\<And>x q. x \<in> set (co_presented c) \<Longrightarrow> q \<in> set (co_queue c) \<Longrightarrow> x \<le> q"
  shows "queue_inv c"
  using assms unfolding queue_inv_def by blast

lemma queue_inv_distinct: "queue_inv c \<Longrightarrow> distinct (co_queue c)"
  by (simp add: queue_inv_def strict_sorted_iff)

text \<open>Leaving the queue: the calls that leave have their event set or are finished.\<close>

lemma hd_filter_keep: "xs \<noteq> [] \<Longrightarrow> P (hd xs) \<Longrightarrow> hd (filter P xs) = hd xs"
  by (cases xs) auto

lemma queue_inv_drop:
  assumes inv: "queue_inv c"
    and frame: "co_queue c' = filter (\<lambda>p. p \<notin> S) (co_queue c)" "co_presented c' = co_presented c"
      "length (co_calls c') = length (co_calls c)"
    and calls: "\<And>p. p < length (co_calls c) \<Longrightarrow> pd_event (call_of c p) \<Longrightarrow> pd_event (call_of c' p)"
      "\<And>p. p < length (co_calls c) \<Longrightarrow> p \<notin> S \<Longrightarrow> call_at (call_of c' p) = call_at (call_of c p)"
      "\<And>p. p < length (co_calls c) \<Longrightarrow> call_at (call_of c' p) = call_at (call_of c p) \<or>
         is_finished (call_at (call_of c' p))"
      "\<And>p. p < length (co_calls c) \<Longrightarrow> p \<in> S \<Longrightarrow> pd_event (call_of c' p) \<or>
         is_finished (call_at (call_of c' p))"
      "\<And>p. p < length (co_calls c) \<Longrightarrow> p \<notin> S \<Longrightarrow> call_at (call_of c p) = In_Queue \<Longrightarrow>
         pd_event (call_of c' p) = pd_event (call_of c p)"
  shows "queue_inv c'"
proof (rule queue_invI)
  note D = queue_invD [OF inv]
  have q: "p \<in> set (co_queue c') \<longleftrightarrow> p \<in> set (co_queue c) \<and> p \<notin> S" for p by (auto simp: frame)
  have at: "call_at (call_of c' p) = call_at (call_of c p)" if "p \<in> set (co_queue c')" for p
    using that calls(2) D(3) by (simp add: q)
  show "sorted_wrt (<) (co_queue c')"
    using D(1) by (simp add: frame sorted_wrt_filter)
  show "sorted_wrt (<) (co_presented c')" using D(2) by (simp add: frame)
  fix p
  show "p < length (co_calls c')" if "p \<in> set (co_queue c')"
    using that D(3) by (simp add: q frame)
  show "p < length (co_calls c')" if "p \<in> set (co_presented c')"
    using that D(4) by (simp add: frame)
  show "p \<in> set (co_queue c')"
    if "p < length (co_calls c')" "\<not> pd_event (call_of c' p)"
      "\<not> is_finished (call_at (call_of c' p))"
    unfolding q using D(5) [of p] that calls [of p] unfolding frame by metis
  show "\<not> is_finished (call_at (call_of c' p))" if "p \<in> set (co_queue c')"
    using D(6) [of p] that at by (simp add: q)
  show "p = hd (co_queue c')" if "p \<in> set (co_queue c')" "call_at (call_of c' p) \<noteq> In_Queue"
  proof -
    have "p = hd (co_queue c)" "p \<notin> S" "co_queue c \<noteq> []"
      using D(7) [of p] that at by (auto simp: q)
    then show ?thesis by (simp add: frame hd_filter_keep)
  qed
  show "\<not> pd_event (call_of c' p)"
    if "p \<in> set (co_queue c')" "call_at (call_of c' p) = In_Queue"
    using D(3,8) [of p] that at calls(5) [of p] by (simp add: q)
  show "p \<notin> set (co_presented c')"
    if "p < length (co_calls c')" "call_at (call_of c' p) = In_Queue"
    using D(9) [of p] that calls(3) [of p] by (auto simp: frame)
  show "x \<le> p" if "x \<in> set (co_presented c')" "p \<in> set (co_queue c')" for x
    using D(10) that by (simp add: q frame)
qed

lemma queue_inv_cong:
  assumes "co_queue c' = co_queue c" "co_presented c' = co_presented c"
    "length (co_calls c') = length (co_calls c)"
    "\<And>p. p < length (co_calls c) \<Longrightarrow> pd_event (call_of c' p) = pd_event (call_of c p) \<and>
       call_at (call_of c' p) = call_at (call_of c p)"
  shows "queue_inv c' = queue_inv c"
proof
  show "queue_inv c'" if "queue_inv c"
    by (rule queue_inv_drop [OF that, where S = "{}"]) (simp_all add: assms)
  show "queue_inv c" if "queue_inv c'"
    by (rule queue_inv_drop [OF that, where S = "{}"]) (simp_all add: assms)
qed

lemma queue_inv_refresh [simp]: "queue_inv (refresh_queue_status c) = queue_inv c"
  by (rule queue_inv_cong) simp_all

lemma queue_inv_asleep [simp]:
  "queue_inv (c\<lparr>co_asleep := ps\<rparr>) = queue_inv c" "queue_inv (notify_all c) = queue_inv c"
  "status_inv (c\<lparr>co_asleep := ps\<rparr>) = status_inv c" "status_inv (notify_all c) = status_inv c"
  by (simp_all add: queue_inv_def status_inv_def notify_all_def)

lemma status_inv_refresh: "queue_inv c \<Longrightarrow> status_inv (refresh_queue_status c)"
  using refresh_position [of c] queue_inv_distinct [of c]
  by (simp add: status_inv_def queue_inv_def)

lemma status_inv_cong:
  assumes "co_queue c' = co_queue c" "set (co_queue c) \<subseteq> {..<length (co_calls c)}"
    "\<And>p. p < length (co_calls c) \<Longrightarrow> pd_request (call_of c' p) = pd_request (call_of c p)"
  shows "status_inv c' = status_inv c"
  using assms unfolding status_inv_def by (metis lessThan_iff nth_mem subset_eq)


text \<open>A call past the wait loop moves on without leaving the queue.\<close>

lemma queue_inv_move:
  assumes inv: "queue_inv c" and p: "p < length (co_calls c)"
    and prev: "call_at (call_of c p) \<noteq> In_Queue" "\<not> is_finished (call_at (call_of c p))"
    and f: "pd_event (f (call_of c p)) = pd_event (call_of c p)"
      "call_at (f (call_of c p)) \<noteq> In_Queue" "\<not> is_finished (call_at (f (call_of c p)))"
  shows "queue_inv (update_call p f c)"
proof -
  let ?c = "update_call p f c"
  have at: "call_at (call_of ?c q) = In_Queue \<longleftrightarrow> call_at (call_of c q) = In_Queue"
    "is_finished (call_at (call_of ?c q)) \<longleftrightarrow> is_finished (call_at (call_of c q))"
    "pd_event (call_of ?c q) \<longleftrightarrow> pd_event (call_of c q)"
    if "q < length (co_calls c)" for q
    using that prev f by (simp_all add: call_of_update_call)
  note D = queue_invD [OF inv]
  show ?thesis
  proof (rule queue_invI, unfold update_call_frame)
    show "sorted_wrt (<) (co_queue c)" "sorted_wrt (<) (co_presented c)" by (rule D)+
    fix q
    show "q \<in> set (co_queue c)"
      if "q < length (co_calls c)" "\<not> pd_event (call_of ?c q)"
        "\<not> is_finished (call_at (call_of ?c q))"
      using D(5) [of q] at(2,3) [of q] that by blast
    show "\<not> is_finished (call_at (call_of ?c q))" if "q \<in> set (co_queue c)"
      using D(3,6) [OF that] at(2) [of q] by blast
    show "q = hd (co_queue c)" if "q \<in> set (co_queue c)" "call_at (call_of ?c q) \<noteq> In_Queue"
      using D(3,7) [of q] at(1) [of q] that by blast
    show "\<not> pd_event (call_of ?c q)" if "q \<in> set (co_queue c)" "call_at (call_of ?c q) = In_Queue"
      using D(3,8) [of q] at(1,3) [of q] that by blast
    show "q \<notin> set (co_presented c)"
      if "q < length (co_calls c)" "call_at (call_of ?c q) = In_Queue"
      using D(9) [of q] at(1) [of q] that by blast
  qed (rule D; assumption)+
qed

lemma queue_inv_resolve:
  assumes inv: "queue_inv c" and "p \<in> set (co_presented c)"
  shows "queue_inv (update_call p (resolve d) c)"
proof -
  have "call_at (call_of c p) \<noteq> In_Queue" "p < length (co_calls c)"
    using assms by (auto simp: queue_inv_def)
  then show ?thesis
    by (intro queue_inv_drop [OF inv, where S = "{}"]) (auto simp: call_of_update_call)
qed

lemma queue_inv_leave:
  assumes inv: "queue_inv c" and p: "p < length (co_calls c)"
    and at: "call_at (call_of c p) = In_Queue"
  shows "queue_inv (leave_queue p c)"
proof (cases "pd_event (call_of c p)")
  case True
  then have "p \<notin> set (co_queue c)" using inv at by (auto simp: queue_inv_def)
  then have "filter (\<lambda>q. q \<notin> {p}) (co_queue c) = co_queue c" by (auto simp: filter_id_conv)
  with True show ?thesis
    by (intro queue_inv_drop [OF inv, where S = "{p}"])
      (auto simp: leave_queue_def call_of_update_call)
next
  case False
  then have mem: "p \<in> set (co_queue c)" using inv p at by (auto simp: queue_inv_def)
  then have ne: "co_queue c \<noteq> []" by auto
  show ?thesis
  proof (cases "hd (co_queue c) = p")
    case head: True
    let ?c = "leave_queue p c"
    have c: "?c = (update_call p (\<lambda>call. call\<lparr>call_at := In_Handler\<rparr>) c)
        \<lparr>co_presented := co_presented c @ [p]\<rparr>"
      using False head by (simp add: leave_queue_def)
    note D = queue_invD [OF inv]
    have least: "p \<le> q" if "q \<in> set (co_queue c)" for q
      using D(1) that head ne by (cases "co_queue c") auto
    have call: "call_of ?c q = (if q = p then (call_of c q)\<lparr>call_at := In_Handler\<rparr> else call_of c q)"
      if "q < length (co_calls c)" for q
      using that call_of_update_call [of q c p] by (simp add: c)
    have fresh: "x < p" if "x \<in> set (co_presented c)" for x
      using D(9,10) that at p mem by (metis nat_less_le)
    have frame: "co_queue ?c = co_queue c" "co_presented ?c = co_presented c @ [p]"
      "length (co_calls ?c) = length (co_calls c)"
      by (simp_all add: c)
    show ?thesis
    proof (rule queue_invI, unfold frame)
      show "sorted_wrt (<) (co_queue c)" by (rule D)
      show "sorted_wrt (<) (co_presented c @ [p])" using D(2) fresh by (simp add: sorted_wrt_append)
      fix q
      show "q \<in> set (co_queue c)"
        if "q < length (co_calls c)" "\<not> pd_event (call_of ?c q)"
          "\<not> is_finished (call_at (call_of ?c q))"
        using that D(5) [of q] mem call [of q] by (cases "q = p") simp_all
      show "\<not> is_finished (call_at (call_of ?c q))" if "q \<in> set (co_queue c)"
        using D(3,6) [OF that] call [of q] by simp
      show "q = hd (co_queue c)" if "q \<in> set (co_queue c)" "call_at (call_of ?c q) \<noteq> In_Queue"
        using that D(7) [of q] D(3) [of q] call [of q] head by (cases "q = p") simp_all
      show "\<not> pd_event (call_of ?c q)" if "q \<in> set (co_queue c)" "call_at (call_of ?c q) = In_Queue"
        using that D(8) [of q] D(3) [of q] call [of q] by (cases "q = p") simp_all
      show "q \<notin> set (co_presented c @ [p])"
        if "q < length (co_calls c)" "call_at (call_of ?c q) = In_Queue"
        using that D(9) [of q] call [of q] by (cases "q = p") simp_all
      show "x \<le> q" if "x \<in> set (co_presented c @ [p])" "q \<in> set (co_queue c)" for x
        using that D(10) least by auto
    qed (use D(3,4) p in auto)
  next
    case other: False
    with False ne inv show ?thesis by (simp add: leave_queue_def)
  qed
qed

lemma queue_inv_finish:
  assumes inv: "queue_inv c" and p: "p < length (co_calls c)"
    and at: "call_at (call_of c p) = In_Finally res"
  shows "queue_inv (finish p res c)"
proof -
  have d: "remove1 p (co_queue c) = filter (\<lambda>q. q \<notin> {p}) (co_queue c)"
    using queue_inv_distinct [OF inv] by (simp add: distinct_remove1_removeAll removeAll_filter_not_eq
        eq_commute)
  have "co_queue c \<noteq> [] \<Longrightarrow> hd (co_queue c) = p \<Longrightarrow> tl (co_queue c) = remove1 p (co_queue c)"
    by (cases "co_queue c") auto
  then have "co_queue (finish p res c) = filter (\<lambda>q. q \<notin> {p}) (co_queue c)"
    by (simp add: finish_def Let_def d)
  then show ?thesis
    by (intro queue_inv_drop [OF inv, where S = "{p}"])
      (auto simp: finish_def Let_def call_of_update_call)
qed

section \<open>Resolving a set of queued calls\<close>

text \<open>What both \<open>cancel_matching\<close> and the release loop of a session grant do to the calls they
  select: resolve them all with one decision and take them out of the queue.\<close>

definition drop_resolved :: "approval_decision \<Rightarrow> nat set \<Rightarrow> coordinator \<Rightarrow> coordinator" where
  "drop_resolved d S c = c\<lparr>
     co_calls := map (\<lambda>p. if p \<in> S then resolve d (call_of c p) else call_of c p)
       [0..<length (co_calls c)],
     co_queue := filter (\<lambda>p. p \<notin> S) (co_queue c)\<rparr>"

lemma drop_resolved_frame [simp]:
  "co_queue (drop_resolved d S c) = filter (\<lambda>p. p \<notin> S) (co_queue c)"
  "co_presented (drop_resolved d S c) = co_presented c"
  "length (co_calls (drop_resolved d S c)) = length (co_calls c)"
  "co_grants (drop_resolved d S c) = co_grants c"
  "co_timeout (drop_resolved d S c) = co_timeout c"
  "co_asleep (drop_resolved d S c) = co_asleep c"
  "p < length (co_calls c) \<Longrightarrow>
     call_of (drop_resolved d S c) p = (if p \<in> S then resolve d (call_of c p) else call_of c p)"
  by (simp_all add: drop_resolved_def)

lemma drop_resolved_empty [simp]: "drop_resolved d {} c = c"
  by (simp add: drop_resolved_def map_nth)

lemma drop_resolved_twice:
  "drop_resolved d S (drop_resolved d T c) = drop_resolved d (S \<union> T) c"
proof (rule coordinator.equality)
  show "co_calls (drop_resolved d S (drop_resolved d T c)) = co_calls (drop_resolved d (S \<union> T) c)"
    by (rule nth_equalityI) (auto simp: resolve_def)
  show "co_queue (drop_resolved d S (drop_resolved d T c)) = co_queue (drop_resolved d (S \<union> T) c)"
    by (auto intro: filter_cong)
qed simp_all

lemma drop_one:
  assumes "distinct (co_queue c)" and "p < length (co_calls c)"
  shows "update_call p (resolve d) (c\<lparr>co_queue := remove1 p (co_queue c)\<rparr>) = drop_resolved d {p} c"
proof -
  have "remove1 p (co_queue c) = filter (\<lambda>q. q \<notin> {p}) (co_queue c)"
    using assms(1) by (simp add: distinct_remove1_removeAll removeAll_filter_not_eq eq_commute)
  moreover have "(co_calls c)[p := resolve d (call_of c p)] =
      map (\<lambda>q. if q \<in> {p} then resolve d (call_of c q) else call_of c q) [0..<length (co_calls c)]"
    using assms(2) by (intro nth_equalityI) (auto simp: nth_list_update)
  ultimately show ?thesis by (simp add: update_call_def drop_resolved_def)
qed

lemma cancel_each_eq:
  assumes "distinct (co_queue c)" and "set ps \<subseteq> {..<length (co_calls c)}"
  shows "cancel_each reason ps c = drop_resolved (deny reason) (set ps) c"
  using assms
  by (induction ps arbitrary: c) (simp_all add: drop_one drop_resolved_twice Un_commute)

lemma release_covered_eq:
  assumes "distinct (co_queue c)" and "set ps \<subseteq> {..<length (co_calls c)}" and "distinct ps"
  shows "release_covered request grant ps c =
    (drop_resolved (allow_session grant (Some (release_reason request)) False)
       {p \<in> set ps. released request grant c p} c,
     map (\<lambda>p. req_request_id (pd_request (call_of c p))) (filter (released request grant c) ps))"
  using assms
proof (induction ps arbitrary: c)
  case Nil
  then show ?case by simp
next
  case (Cons p ps)
  let ?d = "allow_session grant (Some (release_reason request)) False"
  let ?c = "drop_resolved ?d {p} c"
  have call: "call_of ?c q = call_of c q" if "q \<in> set ps" for q
    using Cons.prems that by (subst drop_resolved_frame) auto
  have rel: "released request grant ?c q = released request grant c q" if "q \<in> set ps" for q
    using call [OF that] by (simp add: released_def)
  show ?case
  proof (cases "released request grant c p")
    case True
    have "{q \<in> set ps. released request grant ?c q} \<union> {p} =
        {q \<in> set (p # ps). released request grant c q}"
      using rel True by auto
    moreover have "filter (released request grant ?c) ps = filter (released request grant c) ps"
      using rel by (intro filter_cong) auto
    ultimately show ?thesis
      using True Cons.prems Cons.IH [of ?c] call
      by (simp add: drop_one drop_resolved_twice Let_def)
  next
    case False
    then have "{q \<in> set (p # ps). released request grant c q} = {q \<in> set ps. released request grant c q}"
      by auto
    with False Cons show ?thesis by simp
  qed
qed

lemma queue_inv_drop_resolved: "queue_inv c \<Longrightarrow> queue_inv (drop_resolved d S c)"
  by (rule queue_inv_drop [of c _ S]) auto


section \<open>Every step keeps the invariants\<close>

lemma queue_inv_append:
  assumes inv: "queue_inv c" and call: "\<not> pd_event call" "call_at call = In_Queue"
  shows "queue_inv (c\<lparr>co_calls := co_calls c @ [call], co_queue := co_queue c @ [length (co_calls c)]\<rparr>)"
    (is "queue_inv ?c")
proof (rule queue_invI)
  note D = queue_invD [OF inv]
  let ?n = "length (co_calls c)"
  have old: "call_of ?c q = call_of c q" if "q < ?n" for q using that by (simp add: nth_append)
  have new: "call_of ?c ?n = call" by simp
  show "sorted_wrt (<) (co_queue ?c)" using D(1,3) by (simp add: sorted_wrt_append)
  show "sorted_wrt (<) (co_presented ?c)" using D(2) by simp
  fix q
  show "q < length (co_calls ?c)" if "q \<in> set (co_queue ?c)" using that D(3) [of q] by auto
  show "q < length (co_calls ?c)" if "q \<in> set (co_presented ?c)" using that D(4) [of q] by auto
  show "q \<in> set (co_queue ?c)"
    if "q < length (co_calls ?c)" "\<not> pd_event (call_of ?c q)"
      "\<not> is_finished (call_at (call_of ?c q))"
    using that D(5) [of q] old [of q] by (cases "q = ?n") auto
  show "\<not> is_finished (call_at (call_of ?c q))" if "q \<in> set (co_queue ?c)"
    using that D(3,6) [of q] old [of q] new call by (cases "q = ?n") auto
  show "q = hd (co_queue ?c)" if "q \<in> set (co_queue ?c)" "call_at (call_of ?c q) \<noteq> In_Queue"
    using that D(3,7) [of q] old [of q] new call
    by (cases "q = ?n"; cases "co_queue c") auto
  show "\<not> pd_event (call_of ?c q)" if "q \<in> set (co_queue ?c)" "call_at (call_of ?c q) = In_Queue"
    using that D(3,8) [of q] old [of q] new call by (cases "q = ?n") auto
  show "q \<notin> set (co_presented ?c)"
    if "q < length (co_calls ?c)" "call_at (call_of ?c q) = In_Queue"
    using that D(9) [of q] D(4) [of ?n] old [of q] by (cases "q = ?n") auto
  show "x \<le> q" if "x \<in> set (co_presented ?c)" "q \<in> set (co_queue ?c)" for x
    using that D(4,10) [of x] by fastforce
qed

lemma queue_inv_register: "queue_inv c \<Longrightarrow> queue_inv (register request c)"
  unfolding register_def Let_def
  by (rule queue_inv_leave) (simp_all add: queue_inv_append)

lemma queue_inv_apply_grant:
  assumes inv: "queue_inv c" and p: "p < length (co_calls c)"
    and at: "call_at (call_of c p) = In_Grant d"
  shows "queue_inv (apply_session_grant p d outcome c)"
proof -
  have move: "queue_inv (update_call p (\<lambda>call. call\<lparr>call_at := In_Finally res\<rparr>) c')"
    if "queue_inv c'" "length (co_calls c') = length (co_calls c)"
      "call_at (call_of c' p) = In_Grant d" for c' res
    using queue_inv_move [OF that(1), of p] that(2,3) p by simp
  have ps: "set (co_queue c) \<subseteq> {..<length (co_calls c)}" using queue_invD(3) [OF inv] by auto
  note release = release_covered_eq [OF queue_inv_distinct [OF inv] ps queue_inv_distinct [OF inv]]
  show ?thesis
    using at p inv
    by (auto simp: apply_session_grant_def release Let_def
        intro!: move queue_inv_drop_resolved split: option.splits py_exn.splits)
qed

lemma status_inv_update:
  assumes "queue_inv c" and "\<And>call. pd_request (f call) = pd_request call"
  shows "status_inv (update_call p f c) = status_inv c"
  by (rule status_inv_cong) (use assms queue_invD(3) in \<open>auto simp: call_of_update_call\<close>)

lemma status_inv_leave:
  assumes "queue_inv c" and "status_inv c"
  shows "status_inv (leave_queue p c)"
proof -
  have "status_inv (c\<lparr>co_presented := ps\<rparr>) = status_inv c" for c ps
    by (simp add: status_inv_def)
  then show ?thesis
    using assms by (simp add: leave_queue_def status_inv_update)
qed

lemma cancel_matching_eq:
  assumes "queue_inv c"
  shows "cancel_matching predicate reason c =
    (let S = {p \<in> set (co_queue c). predicate (pd_request (call_of c p))}
     in (if S = {} then c else notify_all (refresh_queue_status (drop_resolved (deny reason) S c)),
         map (\<lambda>p. req_request_id (pd_request (call_of c p)))
           (filter (\<lambda>p. predicate (pd_request (call_of c p))) (co_queue c))))"
proof -
  have ps: "set (filter (\<lambda>p. predicate (pd_request (call_of c p))) (co_queue c))
      \<subseteq> {..<length (co_calls c)}"
    using queue_invD(3) [OF assms] by auto
  show ?thesis
    by (auto simp: cancel_matching_def Let_def cancel_each_eq [OF queue_inv_distinct [OF assms] ps]
        filter_empty_conv)
qed

lemma apply_grant_eq:
  assumes inv: "queue_inv c" and "co_grants c" and grant: "dec_grant d = Some g"
  shows "apply_session_grant p d None c =
    (let request = pd_request (call_of c p);
         S = {q \<in> set (co_queue c). released request g c q};
         ids = map (\<lambda>q. req_request_id (pd_request (call_of c q)))
           (filter (released request g c) (co_queue c))
     in update_call p (\<lambda>call. call\<lparr>call_at := In_Finally (Inr (d\<lparr>dec_released_request_ids := ids\<rparr>))\<rparr>)
          (if S = {} then c else notify_all (refresh_queue_status
             (drop_resolved (allow_session g (Some (release_reason request)) False) S c))))"
proof -
  have ps: "set (co_queue c) \<subseteq> {..<length (co_calls c)}" using queue_invD(3) [OF inv] by auto
  note release = release_covered_eq [OF queue_inv_distinct [OF inv] ps queue_inv_distinct [OF inv]]
  have none: "\<forall>q\<in>set (co_queue c). \<not> released r g c q \<Longrightarrow>
      {q \<in> set (co_queue c). released r g c q} = {}" for r
    by auto
  show ?thesis
    using assms by (auto simp: apply_session_grant_def release Let_def filter_empty_conv none)
qed

lemma status_inv_apply_grant:
  assumes inv: "queue_inv c" and "status_inv c"
  shows "status_inv (apply_session_grant p d outcome c)"
proof (cases "outcome = None \<and> co_grants c \<and> dec_grant d \<noteq> None")
  case True
  then show ?thesis
    using assms by (auto simp: apply_grant_eq Let_def status_inv_update status_inv_refresh
        queue_inv_drop_resolved)
next
  case False
  then show ?thesis
    using assms by (auto simp: apply_session_grant_def status_inv_update Let_def
        split: option.splits py_exn.splits)
qed

lemma status_inv_register:
  assumes inv: "queue_inv c"
  shows "status_inv (register request c)"
  unfolding register_def Let_def
  by (rule status_inv_leave)
    (simp_all only: queue_inv_asleep queue_inv_refresh, simp_all add: queue_inv_append inv status_inv_refresh)

lemma status_inv_finish:
  assumes "queue_inv c" "p < length (co_calls c)" "call_at (call_of c p) = In_Finally res"
  shows "status_inv (finish p res c)"
proof -
  let ?c = "if co_queue c \<noteq> [] \<and> hd (co_queue c) = p
    then c\<lparr>co_queue := tl (co_queue c)\<rparr> else c\<lparr>co_queue := remove1 p (co_queue c)\<rparr>"
  have queue: "set (co_queue ?c) \<subseteq> {..<length (co_calls ?c)}" "distinct (co_queue ?c)"
    using queue_invD(3) [OF assms(1)] queue_inv_distinct [OF assms(1)]
    by (auto dest: list.set_sel(2) notin_set_remove1 simp: distinct_tl intro: list.set_sel(2))
  then have "status_inv (refresh_queue_status ?c)"
    using refresh_position [of ?c] by (auto simp: status_inv_def)
  then show ?thesis
    unfolding finish_def Let_def
    by (subst status_inv_cong [where c = "notify_all (refresh_queue_status ?c)"])
      (use queue in \<open>simp_all add: call_of_update_call\<close>)
qed

lemma coord_step_inv:
  assumes "coord_step c l c'" and "queue_inv c" and "status_inv c"
  shows "queue_inv c' \<and> status_inv c'"
  using assms
proof (cases rule: coord_step.cases)
  case (step_wait_done p)
  with assms show ?thesis
    by (auto simp: after_wait_def Let_def status_inv_update intro!: queue_inv_move)
next
  case (step_cancel predicate reason)
  with assms show ?thesis
    by (auto simp: cancel_matching_eq Let_def status_inv_refresh queue_inv_drop_resolved)
qed (auto simp: queue_inv_register status_inv_register queue_inv_leave status_inv_leave
    queue_inv_resolve status_inv_update queue_inv_apply_grant status_inv_apply_grant
    queue_inv_finish status_inv_finish intro!: queue_inv_move)

lemma coord_run_inv: "coord_run ls c \<Longrightarrow> queue_inv c \<and> status_inv c"
proof (induction rule: coord_run.induct)
  case (run_start timeout grants)
  then show ?case by (simp add: queue_inv_def status_inv_def new_coordinator_def)
next
  case (run_step ls c l c')
  then show ?case using coord_step_inv by blast
qed


section \<open>No wake-up is lost\<close>

text \<open>A call asleep in the condition still has to wait: it is queued, not at the head, and nobody has
  decided it. Whatever ends that, a new head or a decision from outside, comes with a
  notification.\<close>

definition sleep_inv :: "coordinator \<Rightarrow> bool" where
  "sleep_inv c \<longleftrightarrow> (\<forall>p\<in>set (co_asleep c). p < length (co_calls c) \<and> call_at (call_of c p) = In_Queue \<and>
     co_queue c \<noteq> [] \<and> hd (co_queue c) \<noteq> p \<and> \<not> pd_event (call_of c p))"

lemma sleep_inv_awake: "co_asleep c = [] \<Longrightarrow> sleep_inv c"
  by (simp add: sleep_inv_def)

lemma sleep_inv_notified [simp]: "sleep_inv (notify_all c)"
  by (simp add: sleep_inv_def)

lemma sleep_inv_update:
  assumes "sleep_inv c" "p \<notin> set (co_asleep c)"
  shows "sleep_inv (update_call p f c)"
  using assms by (auto simp: sleep_inv_def call_of_update_call)

lemma sleep_inv_leave:
  assumes "sleep_inv c" "p < length (co_calls c)" "call_at (call_of c p) = In_Queue" "p \<notin> set (co_asleep c)"
  shows "sleep_inv (leave_queue p c)"
proof -
  have "sleep_inv (c\<lparr>co_presented := ps\<rparr>) = sleep_inv c" for c ps by (simp add: sleep_inv_def)
  moreover have "sleep_inv (update_call p f c)" for f using sleep_inv_update assms(1,4) by blast
  moreover have "sleep_inv (c\<lparr>co_asleep := co_asleep c @ [p]\<rparr>)"
    if "co_queue c \<noteq> []" "hd (co_queue c) \<noteq> p" "\<not> pd_event (call_of c p)"
    using assms that by (auto simp: sleep_inv_def)
  ultimately show ?thesis by (simp add: leave_queue_def)
qed

lemma not_asleep: "sleep_inv c \<Longrightarrow> call_at (call_of c p) \<noteq> In_Queue \<Longrightarrow> p \<notin> set (co_asleep c)"
  by (auto simp: sleep_inv_def)

lemma sleep_inv_grant:
  assumes inv: "queue_inv c" and s: "sleep_inv c" and at: "call_at (call_of c p) = In_Grant d"
  shows "sleep_inv (apply_session_grant p d outcome c)"
proof -
  have p: "p \<notin> set (co_asleep c)" using not_asleep [OF s] at by simp
  show ?thesis
  proof (cases "outcome = None \<and> co_grants c \<and> dec_grant d \<noteq> None")
    case True
    with inv s p show ?thesis
      by (auto simp: apply_grant_eq Let_def intro!: sleep_inv_update intro: sleep_inv_awake)
  next
    case False
    with s p show ?thesis
      by (auto simp: apply_session_grant_def Let_def intro!: sleep_inv_update
          split: option.splits py_exn.splits)
  qed
qed

lemma coord_step_sleep:
  assumes "coord_step c l c'" and "queue_inv c" and "sleep_inv c"
  shows "sleep_inv c'"
  using assms
proof (cases rule: coord_step.cases)
  case (step_register request)
  then show ?thesis
    unfolding step_register register_def Let_def
    by (intro sleep_inv_leave sleep_inv_awake) simp_all
next
  case (step_resolve p d)
  then have "p \<notin> set (co_asleep c)"
    using queue_invD(9) [OF assms(2)] assms(3) by (auto simp: sleep_inv_def)
  with step_resolve assms(3) show ?thesis by (simp add: sleep_inv_update)
next
  case (step_finally p res)
  then show ?thesis by (intro sleep_inv_awake) (simp add: finish_def Let_def)
next
  case (step_cancel predicate reason)
  with assms show ?thesis by (auto simp: cancel_matching_eq Let_def intro: sleep_inv_awake)
next
  case (step_wait_done p)
  with assms not_asleep [of c p] show ?thesis by (simp add: after_wait_def Let_def sleep_inv_update)
qed (use assms not_asleep [OF assms(3)] in \<open>auto simp: sleep_inv_leave sleep_inv_grant intro!: sleep_inv_update\<close>)

lemma coord_run_sleep: "coord_run ls c \<Longrightarrow> sleep_inv c"
proof (induction rule: coord_run.induct)
  case (run_start timeout grants)
  then show ?case by (simp add: sleep_inv_def new_coordinator_def)
next
  case (run_step ls c l c')
  then show ?case using coord_step_sleep coord_run_inv by blast
qed

section \<open>Where an approval comes from\<close>

definition human_verdict :: "coord_label list \<Rightarrow> nat \<Rightarrow> approval_decision \<Rightarrow> bool" where
  "human_verdict ls p d \<longleftrightarrow>
     (\<exists>d0. Resolve p d0 \<in> set ls \<and> 
        d\<lparr>dec_released_request_ids := []\<rparr> = d0\<lparr>dec_released_request_ids := []\<rparr>)"

definition grant_release :: "coord_label list \<Rightarrow> approval_request \<Rightarrow> approval_decision \<Rightarrow> bool" where
  "grant_release ls request d \<longleftrightarrow>
     (\<exists>q dq g. Grant_Outcome q dq None \<in> set ls \<and> dec_grant dq = Some g \<and> dec_grant d = Some g \<and>
        dec_mode d = Allow_Session \<and> approval_grant_covers_request g request)"

definition final_source :: "coord_label list \<Rightarrow> nat \<Rightarrow> approval_request \<Rightarrow> approval_decision \<Rightarrow> bool" where
  "final_source ls p request d \<longleftrightarrow> approved d \<longrightarrow>
     human_verdict ls p d \<and>
       (dec_mode d = Allow_Session \<longrightarrow>
         (\<exists>dq. Grant_Outcome p dq None \<in> set ls \<and> dec_grant dq = dec_grant d)) \<or>
     grant_release ls request d"

fun point_ok :: "coord_label list \<Rightarrow> nat \<Rightarrow> approval_call \<Rightarrow> call_point \<Rightarrow> bool" where
  "point_ok ls p call In_Queue =
     (\<forall>d. pd_decision call = Some d \<longrightarrow> approved d \<longrightarrow> grant_release ls (pd_request call) d)"
| "point_ok ls p call (In_Grant d) =
     (dec_mode d = Allow_Session \<and> (human_verdict ls p d \<or> grant_release ls (pd_request call) d))"
| "point_ok ls p call (In_Finally (Inr d)) = final_source ls p (pd_request call) d"
| "point_ok ls p call (Finished (Inr d)) = final_source ls p (pd_request call) d"
| "point_ok ls p call _ = True"

definition call_ok :: "coord_label list \<Rightarrow> nat \<Rightarrow> approval_call \<Rightarrow> bool" where
  "call_ok ls p call \<longleftrightarrow> point_ok ls p call (call_at call) \<and>
     (\<forall>d. pd_decision call = Some d \<longrightarrow> approved d \<longrightarrow>
        human_verdict ls p d \<or> grant_release ls (pd_request call) d)"

definition provenance :: "coord_label list \<Rightarrow> coordinator \<Rightarrow> bool" where
  "provenance ls c \<longleftrightarrow> (\<forall>p<length (co_calls c). call_ok ls p (call_of c p))"

lemma sources_mono:
  assumes "set ls \<subseteq> set ls'"
  shows "human_verdict ls p d \<Longrightarrow> human_verdict ls' p d"
    and "grant_release ls r d \<Longrightarrow> grant_release ls' r d"
    and "final_source ls p r d \<Longrightarrow> final_source ls' p r d"
  using assms by (auto simp: human_verdict_def grant_release_def final_source_def)

lemma call_ok_mono: "call_ok ls p call \<Longrightarrow> set ls \<subseteq> set ls' \<Longrightarrow> call_ok ls' p call"
  by (cases "(ls, p, call, call_at call)" rule: point_ok.cases)
    (auto simp: call_ok_def intro: sources_mono)

lemma grant_release_status [simp]:
  "grant_release ls (pd_request (set_status i n call)) d = grant_release ls (pd_request call) d"
  by (simp add: grant_release_def)

lemma call_ok_status [simp]: "call_ok ls p (set_status i n call) = call_ok ls p call"
  by (cases "(ls, p, call, call_at call)" rule: point_ok.cases)
    (auto simp: call_ok_def final_source_def)

lemma provenance_refresh [simp]: "provenance ls (refresh_queue_status c) = provenance ls c"
proof -
  have "call_ok ls p (call_of (refresh_queue_status c) p) = call_ok ls p (call_of c p)"
    if "p < length (co_calls c)" for p
    using that by (cases rule: refresh_call) simp_all
  then show ?thesis by (simp add: provenance_def)
qed

lemma provenance_update:
  assumes "provenance ls c" and "p < length (co_calls c) \<Longrightarrow> call_ok ls p (f (call_of c p))"
  shows "provenance ls (update_call p f c)"
  using assms by (auto simp: provenance_def call_of_update_call)

lemma provenance_presented [simp]: "provenance ls (c\<lparr>co_presented := ps\<rparr>) = provenance ls c"
  by (simp add: provenance_def)

lemma provenance_asleep [simp]:
  "provenance ls (c\<lparr>co_asleep := ps\<rparr>) = provenance ls c" "provenance ls (notify_all c) = provenance ls c"
  by (simp_all add: provenance_def)

lemma provenance_queue [simp]: "provenance ls (c\<lparr>co_queue := q\<rparr>) = provenance ls c"
  by (simp add: provenance_def)

lemma grant_release_allow [simp]:
  "grant_release ls r (allow_session g reason b) \<longleftrightarrow>
     (\<exists>q dq. Grant_Outcome q dq None \<in> set ls \<and> dec_grant dq = Some g) \<and>
     approval_grant_covers_request g r"
  by (auto simp: grant_release_def allow_session_def)

lemma call_ok_resolve:
  assumes "call_ok ls p call"
    and "approved d \<Longrightarrow> human_verdict ls p d \<and> call_at call \<noteq> In_Queue \<or>
      grant_release ls (pd_request call) d"
  shows "call_ok ls p (resolve d call)"
  using assms
  by (cases "(ls, p, call, call_at call)" rule: point_ok.cases)
    (auto simp: call_ok_def final_source_def)

lemma provenance_drop:
  assumes "provenance ls c" and "\<And>p. p \<in> S \<Longrightarrow> p < length (co_calls c) \<Longrightarrow> approved d \<Longrightarrow>
      grant_release ls (pd_request (call_of c p)) d"
  shows "provenance ls (drop_resolved d S c)"
  using assms by (auto simp: provenance_def intro!: call_ok_resolve)

lemma final_source_deny [simp]: "final_source ls p r (deny_once reason b)"
  by (simp add: final_source_def)

lemma grant_release_final: "grant_release ls r d \<Longrightarrow> final_source ls p r d"
  by (simp add: final_source_def)

lemma human_verdict_ids [simp]:
  "human_verdict ls p (d\<lparr>dec_released_request_ids := ids\<rparr>) = human_verdict ls p d"
  "grant_release ls r (d\<lparr>dec_released_request_ids := ids\<rparr>) = grant_release ls r d"
  by (simp_all add: human_verdict_def grant_release_def)

lemma call_ok_cases:
  assumes "provenance ls c" and "p < length (co_calls c)"
  shows "point_ok ls p (call_of c p) (call_at (call_of c p))"
    and "pd_decision (call_of c p) = Some d \<Longrightarrow> approved d \<Longrightarrow>
      human_verdict ls p d \<or> grant_release ls (pd_request (call_of c p)) d"
  using assms by (auto simp: provenance_def call_ok_def)

lemma call_ok_at:
  assumes "provenance ls c" and "p < length (co_calls c)"
    and "point_ok ls p ((call_of c p)\<lparr>call_at := at'\<rparr>) at'"
  shows "call_ok ls p ((call_of c p)\<lparr>call_at := at'\<rparr>)"
  using assms call_ok_cases(2) [OF assms(1,2)] by (auto simp: call_ok_def)

lemma provenance_mono: "provenance ls c \<Longrightarrow> provenance (ls @ ls') c"
  by (auto simp: provenance_def intro: call_ok_mono [where ls = ls])

lemma provenance_leave:
  assumes "provenance ls c" and "p < length (co_calls c)"
    and "call_at (call_of c p) = In_Queue"
  shows "provenance ls (leave_queue p c)"
proof -
  have "final_source ls p (pd_request (call_of c p)) d" if "pd_decision (call_of c p) = Some d" for d
    using call_ok_cases(1) [OF assms(1,2)] that assms(3)
    by (auto simp: final_source_def)
  then show ?thesis
    using assms
    by (auto simp: leave_queue_def intro!: provenance_update call_ok_at split: option.splits)
qed

lemma provenance_register:
  assumes "provenance ls c"
  shows "provenance ls (register request c)"
proof -
  have "provenance ls (c\<lparr>co_calls := co_calls c @ [\<lparr>pd_request = request, pd_event = False,
      pd_decision = None, call_at = In_Queue\<rparr>], co_queue := q\<rparr>)" for q
    using assms by (auto simp: provenance_def nth_append call_ok_def less_Suc_eq)
  then show ?thesis
    unfolding register_def Let_def by (intro provenance_leave) simp_all
qed

lemma provenance_wait:
  assumes "provenance ls c" and "p < length (co_calls c)"
  shows "provenance ls (after_wait p c)"
proof -
  let ?d = "wait_decision c p"
  have "human_verdict ls p ?d \<or> grant_release ls (pd_request (call_of c p)) ?d" if "approved ?d"
    using that call_ok_cases(2) [OF assms]
    by (auto simp: wait_decision_def split: if_splits option.splits)
  then show ?thesis
    using assms
    by (auto simp: after_wait_def Let_def approved_def final_source_def
        intro!: provenance_update call_ok_at)
qed

lemma provenance_finally:
  assumes "provenance ls c" and "final_source ls p (pd_request (call_of c p)) d"
  shows "provenance ls (update_call p (\<lambda>call. call\<lparr>call_at := In_Finally (Inr d)\<rparr>) c)"
  using assms by (intro provenance_update call_ok_at) simp_all

lemma provenance_grant:
  assumes inv: "queue_inv c" and prov: "provenance ls c" and p: "p < length (co_calls c)"
    and at: "call_at (call_of c p) = In_Grant d"
  shows "provenance (ls @ [Grant_Outcome p d outcome]) (apply_session_grant p d outcome c)"
proof -
  let ?ls = "ls @ [Grant_Outcome p d outcome]"
  have prov': "provenance ?ls c"
    by (rule provenance_mono [OF prov])
  have d: "human_verdict ?ls p d \<or> grant_release ?ls (pd_request (call_of c p)) d"
    "dec_mode d = Allow_Session"
    using call_ok_cases(1) [OF prov' p] at by simp_all
  show ?thesis
  proof (cases "outcome = None \<and> co_grants c \<and> dec_grant d \<noteq> None")
    case True
    then obtain g where g: "outcome = None" "co_grants c" "dec_grant d = Some g" by auto
    let ?r = "pd_request (call_of c p)"
    let ?S = "{q \<in> set (co_queue c). released ?r g c q}"
    let ?c = "if ?S = {} then c else notify_all (refresh_queue_status
       (drop_resolved (allow_session g (Some (release_reason ?r)) False) ?S c))"
    have src: "\<exists>q dq. Grant_Outcome q dq None \<in> set ?ls \<and> dec_grant dq = Some g" using g by auto
    have drop: "provenance ?ls (drop_resolved (allow_session g (Some (release_reason ?r)) False) ?S c)"
      by (rule provenance_drop [OF prov']) (simp only: grant_release_allow src released_def mem_Collect_eq)
    have rel: "provenance ?ls ?c"
      using prov' drop by simp
    have same: "grant_release ?ls (pd_request (call_of ?c p)) e = grant_release ?ls ?r e" for e
      using p by (auto simp: grant_release_def)
    have "final_source ?ls p (pd_request (call_of ?c p)) (d\<lparr>dec_released_request_ids := ids\<rparr>)" for ids
      unfolding final_source_def human_verdict_ids same using d g by auto
    from provenance_finally [OF rel this] show ?thesis
      unfolding g(1) apply_grant_eq [OF inv g(2,3)] Let_def using p by (simp add: g(1))
  next
    case False
    then show ?thesis
      using prov' p by (auto simp: apply_session_grant_def Let_def intro!: provenance_update call_ok_at
          split: option.splits py_exn.splits)
  qed
qed

lemma coord_step_provenance:
  assumes "coord_step c l c'" and "queue_inv c" and "provenance ls c"
  shows "provenance (ls @ [l]) c'"
proof -
  have prov: "provenance (ls @ [l]) c"
    by (rule provenance_mono [OF assms(3)])
  note ok = call_ok_cases [OF prov]
  from assms(1) show ?thesis
  proof (cases rule: coord_step.cases)
    case (step_resolve p d)
    have "call_at (call_of c p) \<noteq> In_Queue" if "p < length (co_calls c)"
      using queue_invD(9) [OF assms(2) that] step_resolve by blast
    moreover have "human_verdict (ls @ [l]) p d" using step_resolve by (auto simp: human_verdict_def)
    ultimately show ?thesis
      unfolding step_resolve(2) using prov
      by (intro provenance_update call_ok_resolve) (auto simp: provenance_def)
  next
    case (step_handler_raise p e)
    then show ?thesis
      using prov by (cases e) (auto intro!: provenance_update call_ok_at)
  next
    case (step_grant p d outcome)
    then show ?thesis using provenance_grant [OF assms(2,3)] by simp
  next
    case (step_finally p res)
    have "call_ok (ls @ [l]) p (call_of (refresh_queue_status (c\<lparr>co_queue := q\<rparr>)) p\<lparr>call_at := Finished res\<rparr>)"
      for q
    proof -
      have "provenance (ls @ [l]) (refresh_queue_status (c\<lparr>co_queue := q\<rparr>))"
        using prov by simp
      from call_ok_at [OF this, of p] call_ok_cases(1) [OF this, of p] step_finally
      show ?thesis by (cases res) auto
    qed
    then show ?thesis
      unfolding step_finally finish_def Let_def
      using prov by (intro provenance_update) (auto simp: step_finally)
  next
    case (step_cancel predicate reason)
    then show ?thesis
      using prov assms(2) by (auto simp: cancel_matching_eq Let_def intro!: provenance_drop)
  qed (use prov in \<open>auto simp: provenance_register provenance_leave provenance_wait
      intro!: provenance_update call_ok_at\<close>)
qed

lemma coord_run_provenance: "coord_run ls c \<Longrightarrow> provenance ls c"
proof (induction rule: coord_run.induct)
  case (run_start timeout grants)
  then show ?case by (simp add: provenance_def new_coordinator_def)
next
  case (run_step ls c l c')
  then show ?case using coord_step_provenance coord_run_inv by blast
qed

section \<open>Executable steps\<close>

text \<open>The step relation is deterministic in its label, so a schedule can be executed.\<close>

fun coord_exec :: "coordinator \<Rightarrow> coord_label \<Rightarrow> (unit, coordinator) result" where
  "coord_exec c (Register request) = Inr (register request c)"
| "coord_exec c (Wake p) =
     (if p < length (co_calls c) \<and> call_at (call_of c p) = In_Queue \<and> p \<notin> set (co_asleep c) then Inr (leave_queue p c)
      else Inl ())"
| "coord_exec c (Resolve p d) =
     (if p \<in> set (co_presented c) then Inr (update_call p (resolve d) c) else Inl ())"
| "coord_exec c (Handler_Return p) =
     (if p < length (co_calls c) \<and> call_at (call_of c p) = In_Handler
      then Inr (update_call p (\<lambda>call. call\<lparr>call_at := In_Wait\<rparr>) c) else Inl ())"
| "coord_exec c (Handler_Raise p e) =
     (if p < length (co_calls c) \<and> call_at (call_of c p) = In_Handler
      then Inr (update_call p (\<lambda>call. call\<lparr>call_at := In_Finally (handler_failure e)\<rparr>) c)
      else Inl ())"
| "coord_exec c (Wait_Done p) =
     (if p < length (co_calls c) \<and> call_at (call_of c p) = In_Wait then Inr (after_wait p c)
      else Inl ())"
| "coord_exec c (Grant_Outcome p d outcome) =
     (if p < length (co_calls c) \<and> call_at (call_of c p) = In_Grant d
      then Inr (apply_session_grant p d outcome c) else Inl ())"
| "coord_exec c (Finally p) =
     (if p < length (co_calls c)
      then (case call_at (call_of c p) of In_Finally res \<Rightarrow> Inr (finish p res c) | _ \<Rightarrow> Inl ())
      else Inl ())"
| "coord_exec c (Cancel predicate reason) = Inr (fst (cancel_matching predicate reason c))"

lemma coord_exec_iff: "coord_exec c l = Inr c' \<longleftrightarrow> coord_step c l c'"
  by (cases l) (auto simp: coord_step.simps split: call_point.splits)

interpretation coord: machine coord_exec "\<lambda>c. queue_inv c \<and> status_inv c"
  by unfold_locales (auto simp: coord_exec_iff dest: coord_step_inv)

fun coord_schedule :: "coordinator \<Rightarrow> coord_label list \<Rightarrow> (unit, coordinator) result" where
  "coord_schedule c [] = Inr c"
| "coord_schedule c (l # ls) = bind_result (coord_exec c l) (\<lambda>c'. coord_schedule c' ls)"

lemma coord_schedule_run:
  "coord_run ls0 c \<Longrightarrow> coord_schedule c ls = Inr c' \<Longrightarrow> coord_run (ls0 @ ls) c'"
proof (induction ls arbitrary: ls0 c)
  case Nil
  then show ?case by simp
next
  case (Cons l ls)
  then obtain c1 where "coord_step c l c1" "coord_schedule c1 ls = Inr c'"
    by (auto simp: coord_exec_iff)
  then show ?case using Cons.IH [of "ls0 @ [l]" c1] Cons.prems(1) by (auto intro: run_step)
qed

definition after_schedule :: "coord_label list \<Rightarrow> coordinator" where
  "after_schedule ls = (case coord_schedule (new_coordinator ''60.0'' True) ls of
     Inr c \<Rightarrow> c | Inl _ \<Rightarrow> new_coordinator ''60.0'' True)"

lemma after_schedule_run:
  assumes "isl (coord_schedule (new_coordinator ''60.0'' True) ls) = False"
  shows "coord_run ls (after_schedule ls)"
  using assms coord_schedule_run [OF run_start, of "''60.0''" True ls]
  by (auto simp: after_schedule_def split: sum.splits)

section \<open>The review handler\<close>

datatype review_action = Review_Allow_Once | Review_Allow_Session | Review_Deny

record review_response =
  rsp_action :: review_action
  rsp_selected_id :: "string option"
  rsp_reason :: "string option"
  rsp_cancelled :: bool

text \<open>The decision the handler resolves the pending request with once the interface's review
  has returned (\<open>make_approval_handler\<close>, after the interaction).\<close>

definition reason_or :: "string option \<Rightarrow> string \<Rightarrow> string option" where
  "reason_or r fallback = (if or_empty r = [] then Some fallback else r)"

definition review_decision :: "approval_request \<Rightarrow> review_response \<Rightarrow> approval_decision" where
  "review_decision request response =
     (case rsp_action response of
        Review_Allow_Session \<Rightarrow>
          (case find (\<lambda>candidate. Some (grant_id candidate) = rsp_selected_id response)
                  (req_grant_candidates request) of
             None \<Rightarrow> deny ''invalid session approval scope returned by interaction''
           | Some selected \<Rightarrow> allow_session selected
               (reason_or (rsp_reason response) (''approved for session: '' @ grant_label selected)) True)
      | Review_Allow_Once \<Rightarrow>
          allow_once (reason_or (rsp_reason response) ''approved via interaction'') True
      | Review_Deny \<Rightarrow>
          deny_once (reason_or (rsp_reason response) ''denied via interaction'')
            (\<not> rsp_cancelled response))"

lemma review_decision_grant:
  "dec_mode (review_decision request response) = Allow_Session \<Longrightarrow>
    \<exists>g\<in>set (req_grant_candidates request). dec_grant (review_decision request response) = Some g \<and>
      rsp_selected_id response = Some (grant_id g)"
  by (auto simp: review_decision_def allow_session_def allow_once_def deny_once_def find_Some_iff
      split: review_action.splits option.splits)

section \<open>Properties\<close>

definition unresolved_focus :: "coordinator \<Rightarrow> nat \<Rightarrow> bool" where
  "unresolved_focus c p \<longleftrightarrow> p < length (co_calls c) \<and> \<not> pd_event (call_of c p) \<and>
     call_at (call_of c p) \<noteq> In_Queue \<and> \<not> is_finished (call_at (call_of c p))"

text \<open>C4: Whatever the interleaving of concurrent requests, handler answers, time-outs, grants and
  cancellations, at most one unresolved request is in front of the user at any time, and it
  is the head of the queue.\<close>

theorem single_unresolved_focus:
  assumes "coord_run ls c" and "unresolved_focus c p"
  shows "co_queue c \<noteq> [] \<and> p = hd (co_queue c) \<and> (\<forall>q. unresolved_focus c q \<longrightarrow> q = p)"
proof -
  have inv: "queue_inv c" using coord_run_inv [OF assms(1)] by simp
  have "q \<in> set (co_queue c) \<and> q = hd (co_queue c)" if "unresolved_focus c q" for q
    using that queue_invD(5,7) [OF inv, of q] by (auto simp: unresolved_focus_def)
  with assms(2) show ?thesis by (metis empty_iff empty_set)
qed

definition ex_schedule :: "coord_label list" where
  "ex_schedule = [Register (ex_request [''src/a''] ''r1''), Register (ex_request [''src/b''] ''r2'')]"

lemma ex_schedule_run: "coord_run ex_schedule (after_schedule ex_schedule)"
  by (rule after_schedule_run) code_simp

theorem single_unresolved_focus_witness:
  "co_queue (after_schedule ex_schedule) \<noteq> [] \<and> 0 = hd (co_queue (after_schedule ex_schedule)) \<and>
   {q. unresolved_focus (after_schedule ex_schedule) q} = {0}"
proof -
  have u: "unresolved_focus (after_schedule ex_schedule) 0" by code_simp
  from single_unresolved_focus [OF ex_schedule_run u] u show ?thesis by blast
qed

text \<open>Requests are presented to the user in the order they registered, none twice; the queue
  holds the waiting requests in that order, and every queued request carries its exact
  position and the number of requests behind it.\<close>

theorem reviews_in_registration_order:
  assumes "coord_run ls c"
  shows "sorted_wrt (<) (co_presented c) \<and> sorted_wrt (<) (co_queue c) \<and>
    (\<forall>i<length (co_queue c). req_queue_status (pd_request (call_of c (co_queue c ! i)))
       = \<lparr>position = i + 1, waiting = length (co_queue c) - i - 1\<rparr>)"
  using coord_run_inv [OF assms] by (simp add: queue_inv_def status_inv_def)

theorem reviews_in_registration_order_witness:
  "co_queue (after_schedule ex_schedule) = [0, 1] \<and>
   req_queue_status (pd_request (call_of (after_schedule ex_schedule) 1)) = \<lparr>position = 2, waiting = 0\<rparr>"
proof -
  have q: "co_queue (after_schedule ex_schedule) = [0, 1]" by code_simp
  with reviews_in_registration_order [OF ex_schedule_run] show ?thesis by fastforce
qed

text \<open>C3: An approval never comes out of nothing: if a request's call returns an approval, then
  either the handler resolved that very request with this decision (and, for a session
  approval, the grant handler accepted the grant), or another request's session grant was
  accepted and covers it. Time-outs, handler failures and refused grants deny.\<close>

theorem approval_has_a_source:
  assumes "coord_run ls c" and "p < length (co_calls c)"
    and "call_at (call_of c p) = Finished (Inr d)" and "approved d"
  shows "(\<exists>d0. Resolve p d0 \<in> set ls \<and> dec_mode d0 = dec_mode d \<and> dec_grant d0 = dec_grant d \<and>
        (dec_mode d = Allow_Session \<longrightarrow>
          (\<exists>dq. Grant_Outcome p dq None \<in> set ls \<and> dec_grant dq = dec_grant d))) \<or>
    (\<exists>q dq g. Grant_Outcome q dq None \<in> set ls \<and> dec_grant dq = Some g \<and> dec_grant d = Some g \<and>
       approval_grant_covers_request g (pd_request (call_of c p)))"
proof -
  have same: "dec_mode d0 = dec_mode d \<and> dec_grant d0 = dec_grant d"
    if "d\<lparr>dec_released_request_ids := []\<rparr> = d0\<lparr>dec_released_request_ids := []\<rparr>"
    for d0 :: approval_decision
    using that by (metis approval_decision.select_convs(1,4) approval_decision.surjective
        approval_decision.update_convs(5))
  have "final_source ls p (pd_request (call_of c p)) d"
    using call_ok_cases(1) [OF coord_run_provenance [OF assms(1)] assms(2)] assms(3) by simp
  then show ?thesis
    using assms(4) same unfolding final_source_def human_verdict_def grant_release_def by blast
qed

definition ex_grant_schedule :: "coord_label list" where
  "ex_grant_schedule = ex_schedule @ [Resolve 0 (allow_session ex_grant None True), Handler_Return 0,
     Wait_Done 0, Grant_Outcome 0 (allow_session ex_grant None True) None, Wake 1]"

lemma ex_grant_schedule_run: "coord_run ex_grant_schedule (after_schedule ex_grant_schedule)"
  by (rule after_schedule_run) code_simp

theorem approval_has_a_source_witness:
  "\<exists>d. call_at (call_of (after_schedule ex_grant_schedule) 1) = Finished (Inr d) \<and> approved d \<and>
    ((\<exists>d0. Resolve 1 d0 \<in> set ex_grant_schedule) \<or>
     (\<exists>q dq g. Grant_Outcome q dq None \<in> set ex_grant_schedule \<and> dec_grant dq = Some g \<and>
       approval_grant_covers_request g (pd_request (call_of (after_schedule ex_grant_schedule) 1))))"
proof -
  let ?c = "after_schedule ex_grant_schedule"
  let ?d = "allow_session ex_grant (Some (release_reason (ex_request [] ''r1''))) False"
  have 1: "1 < length (co_calls ?c)" and 2: "call_at (call_of ?c 1) = Finished (Inr ?d)"
    by code_simp+
  from approval_has_a_source [OF ex_grant_schedule_run 1 2] 2 show ?thesis by auto
qed

definition ex_cancel_schedule :: "coord_label list" where
  "ex_cancel_schedule = [Register (ex_request [''src/a''] ''r1''),
     Cancel (\<lambda>request. req_request_id request = ''r1'') ''sub-agent cancelled'',
     Resolve 0 (allow_once None True), Handler_Return 0, Wait_Done 0, Finally 0]"

text \<open>Cancelling the focused request does not fail it closed: its handler is still running,
  the later answer replaces the cancellation's denial, and the cancelled call returns the
  approval.\<close>

theorem cancelled_focus_can_return_approval:
  "coord_run ex_cancel_schedule (after_schedule ex_cancel_schedule) \<and>
   call_at (call_of (after_schedule ex_cancel_schedule) 0) = Finished (Inr (allow_once None True))"
  by (intro conjI after_schedule_run) code_simp+

text \<open>Cancelling the focused request lets the next one reach its handler while the first
  handler is still running, so two reviews are on screen at once.\<close>

theorem cancel_stacks_reviews:
  "coord_run (ex_schedule @ [Cancel (\<lambda>request. req_request_id request = ''r1'') ''stop'', Wake 1])
     (after_schedule (ex_schedule @ [Cancel (\<lambda>request. req_request_id request = ''r1'') ''stop'', Wake 1])) \<and>
   map call_at (co_calls (after_schedule
     (ex_schedule @ [Cancel (\<lambda>request. req_request_id request = ''r1'') ''stop'', Wake 1])))
   = [In_Handler, In_Handler]"
  by (intro conjI after_schedule_run) code_simp+

section \<open>Progress\<close>

fun point_rank :: "call_point \<Rightarrow> nat" where
  "point_rank In_Queue = 0"
| "point_rank In_Handler = 1"
| "point_rank In_Wait = 2"
| "point_rank (In_Grant _) = 3"
| "point_rank (In_Finally _) = 4"
| "point_rank (Finished _) = 5"

lemma own_step:
  assumes p: "p < length (co_calls c)" and "call_at (call_of c p) \<noteq> In_Queue"
    and "\<not> is_finished (call_at (call_of c p))" and inv: "queue_inv c"
  shows "\<exists>l c'. coord_step c l c' \<and>
    point_rank (call_at (call_of c p)) < point_rank (call_at (call_of c' p))"
proof (cases "call_at (call_of c p)")
  case In_Handler
  then show ?thesis
    using step_handler_return [OF p] p by (force simp: call_of_update_call)
next
  case In_Wait
  then show ?thesis
    using step_wait_done [OF p] p by (force simp: after_wait_def Let_def call_of_update_call)
next
  case (In_Grant d)
  have "point_rank (call_at (call_of (apply_session_grant p d (Some Py_EOFError) c) p)) = 4"
    using p by (auto simp: apply_session_grant_def Let_def call_of_update_call split: option.splits)
  then show ?thesis using step_grant [OF p In_Grant, of "Some Py_EOFError"] In_Grant by force
next
  case (In_Finally res)
  have "point_rank (call_at (call_of (finish p res c) p)) = 5"
    using p by (simp add: finish_def Let_def call_of_update_call)
  then show ?thesis using step_finally [OF p In_Finally] In_Finally by force
qed (use assms in auto)

text \<open>C5: No request is stranded, and no wake-up is lost: in every reachable state an unfinished call either
  has an enabled step of its own that moves it towards its return, or it is asleep or about to sleep
  behind an unfinished head of the queue which has such a step. A call asleep in the condition
  has no step until a notification of all; the theorem includes that whenever it may go on it has been
  notified. The review handler and the grant handler are assumed to return or raise, and
  the wait for the user's decision ends by its time-out.\<close>

theorem coordinator_never_stuck:
  assumes "coord_run ls c" and "p < length (co_calls c)"
    and "\<not> is_finished (call_at (call_of c p))"
  shows "(\<exists>q l c'. (q = p \<or> q = hd (co_queue c) \<and> p \<in> set (tl (co_queue c))) \<and>
      \<not> is_finished (call_at (call_of c q)) \<and> coord_step c l c' \<and>
      point_rank (call_at (call_of c q)) < point_rank (call_at (call_of c' q))) \<and>
    (p \<in> set (co_asleep c) \<longrightarrow> p \<in> set (tl (co_queue c)) \<and> \<not> pd_event (call_of c p))"
proof -
  have inv: "queue_inv c" using coord_run_inv [OF assms(1)] by simp
  have s: "sleep_inv c" using coord_run_sleep [OF assms(1)] .
  note D = queue_invD [OF inv]
  have wake: "\<exists>l c'. coord_step c l c' \<and>
      point_rank (call_at (call_of c q)) < point_rank (call_at (call_of c' q))"
    if "q < length (co_calls c)" "call_at (call_of c q) = In_Queue"
      "pd_event (call_of c q) \<or> q = hd (co_queue c)" for q
  proof -
    have "q \<notin> set (co_asleep c)" using s that(3) by (auto simp: sleep_inv_def)
    from step_wake [OF that(1,2) this] that show ?thesis
      by (auto simp: leave_queue_def call_of_update_call intro!: exI [of _ "Wake q"] exI [of _ "leave_queue q c"])
  qed
  have behind: "p \<in> set (tl (co_queue c)) \<and> hd (co_queue c) \<in> set (co_queue c)"
    if "\<not> pd_event (call_of c p)" "p \<noteq> hd (co_queue c)"
  proof -
    have "p \<in> set (co_queue c)" using that D(5) assms by blast
    then show ?thesis using that by (cases "co_queue c") auto
  qed
  have "\<exists>q l c'. (q = p \<or> q = hd (co_queue c) \<and> p \<in> set (tl (co_queue c))) \<and>
      \<not> is_finished (call_at (call_of c q)) \<and> coord_step c l c' \<and>
      point_rank (call_at (call_of c q)) < point_rank (call_at (call_of c' q))"
  proof (cases "call_at (call_of c p) = In_Queue \<and> \<not> pd_event (call_of c p) \<and> p \<noteq> hd (co_queue c)")
    case True
    let ?q = "hd (co_queue c)"
    have q: "?q \<in> set (co_queue c)" "p \<in> set (tl (co_queue c))" using behind True by blast+
    then have "\<exists>l c'. coord_step c l c' \<and>
        point_rank (call_at (call_of c ?q)) < point_rank (call_at (call_of c' ?q))"
      using wake [of ?q] own_step [OF D(3), of ?q] D(3,6) inv by blast
    then show ?thesis using q D(6) by blast
  next
    case False
    then show ?thesis using wake [of p] own_step [OF assms(2) _ assms(3) inv] assms by blast
  qed
  moreover have "p \<in> set (tl (co_queue c)) \<and> \<not> pd_event (call_of c p)" if "p \<in> set (co_asleep c)"
    using s that behind by (auto simp: sleep_inv_def)
  ultimately show ?thesis by blast
qed

theorem coordinator_never_stuck_witness:
  "1 \<in> set (co_asleep (after_schedule ex_schedule)) \<and>
   (\<exists>q l c'. (q = 1 \<or> q = hd (co_queue (after_schedule ex_schedule)) \<and>
      1 \<in> set (tl (co_queue (after_schedule ex_schedule)))) \<and>
    \<not> is_finished (call_at (call_of (after_schedule ex_schedule) q)) \<and>
    coord_step (after_schedule ex_schedule) l c' \<and>
    point_rank (call_at (call_of (after_schedule ex_schedule) q)) < point_rank (call_at (call_of c' q)))"
proof -
  have "1 < length (co_calls (after_schedule ex_schedule))"
    "\<not> is_finished (call_at (call_of (after_schedule ex_schedule) 1))" by code_simp+
  moreover have "1 \<in> set (co_asleep (after_schedule ex_schedule))" by code_simp
  ultimately show ?thesis using coordinator_never_stuck [OF ex_schedule_run, of 1] by blast
qed

end
