(* ===== verification/Messages.thy ===== *)
theory Messages
  imports Prelude "HOL-Library.List_Lexorder" "HOL-Library.Char_ord"
begin

text \<open>
  Conversation messages and their repair before a provider request:
  \<^verbatim>\<open>domain/llm/context_messages.py\<close> (synthetic context messages, role normalisation),
  \<^verbatim>\<open>domain/llm/tool_history.py\<close> (tool call / response adjacency) and
  \<^verbatim>\<open>domain/context/rounds.py\<close> (rounds). A message dictionary is a record of the keys the code
  reads, with every other key in \<open>msg_extra\<close>; identifiers, names and roles are strings or
  absent. The lemmas show that wrapped payloads cannot break out of their wrapper, that
  repaired histories satisfy the provider contract, that repair is idempotent and loses no
  ordinary message, and that rounds partition the history.
\<close>

section \<open>Messages\<close>

record message_tool_call =
  call_id :: "string option"
  call_name :: "string option"
  call_extra :: "(string, json) dict"

record message =
  msg_role :: "string option"
  msg_content :: json
  msg_tool_calls :: "message_tool_call list"
  msg_tool_call_id :: "string option"
  msg_extra :: "(string, json) dict"

definition has_role :: "string \<Rightarrow> message \<Rightarrow> bool" where
  "has_role r m \<longleftrightarrow> msg_role m = Some r"

abbreviation is_tool :: "message \<Rightarrow> bool" where
  "is_tool m \<equiv> has_role ''tool'' m"

abbreviation is_assistant :: "message \<Rightarrow> bool" where
  "is_assistant m \<equiv> has_role ''assistant'' m"

lemma has_role_unique: "has_role r m \<Longrightarrow> r \<noteq> r' \<Longrightarrow> \<not> has_role r' m"
  by (simp add: has_role_def)

section \<open>Synthetic context messages\<close>

definition synthetic_context_metadata_key :: string where
  "synthetic_context_metadata_key = ''_rc_synthetic_context''"

definition reserved_context_tags :: "string list" where
  "reserved_context_tags =
     [''context_summary'', ''delegated_worker_data'', ''execution_state'', ''guidance_resolution'',
      ''inter_agent_message'', ''legacy_runtime_context'', ''project_context'',
      ''request_interrupted'', ''runtime_context_update'', ''runtime_instruction'',
      ''session_diagnostic'', ''subagent_conflict'', ''turn_interrupted'']"

definition tag_letter :: "char \<Rightarrow> bool" where
  "tag_letter c \<longleftrightarrow> CHR ''a'' \<le> c \<and> c \<le> CHR ''z''"

definition tag_char :: "char \<Rightarrow> bool" where
  "tag_char c \<longleftrightarrow> tag_letter c \<or> CHR ''0'' \<le> c \<and> c \<le> CHR ''9'' \<or> c = CHR ''_''"

definition tag_pattern :: "string \<Rightarrow> bool" where
  "tag_pattern s = (case s of [] \<Rightarrow> False | c # cs \<Rightarrow> tag_letter c \<and> list_all tag_char cs)"

definition validate_tag :: "string \<Rightarrow> (string, string) result" where
  "validate_tag tag =
     (if tag \<notin> set reserved_context_tags \<or> \<not> tag_pattern tag
      then Inl (''unsupported synthetic context tag: '' @ tag) else Inr tag)"

text \<open>\<^verbatim>\<open>html.escape\<close>: the ampersand is replaced first, so the sequential replacements act on each
  character alone.\<close>

fun escape_char :: "bool \<Rightarrow> char \<Rightarrow> string" where
  "escape_char quote c =
     (if c = CHR ''&'' then ''&amp;'' else if c = CHR ''<'' then ''&lt;''
      else if c = CHR ''>'' then ''&gt;''
      else if quote \<and> c = CHR 0x22 then ''&quot;''
      else if quote \<and> c = CHR 0x27 then ''&#x27;'' else [c])"

definition html_escape :: "bool \<Rightarrow> string \<Rightarrow> string" where
  "html_escape quote s = concat (map (escape_char quote) s)"

definition escape_context_payload :: "string \<Rightarrow> string" where
  "escape_context_payload value = html_escape False value"

definition escape_context_attribute :: "string \<Rightarrow> string" where
  "escape_context_attribute value = html_escape True value"

definition mark_synthetic_user_message ::
    "string \<Rightarrow> string \<Rightarrow> string \<Rightarrow> (string, message) result" where
  "mark_synthetic_user_message content tag source =
     bind_result (validate_tag tag) (\<lambda>_. Inr
       \<lparr>msg_role = Some ''user'', msg_content = JStr content, msg_tool_calls = [],
        msg_tool_call_id = None,
        msg_extra = [(synthetic_context_metadata_key,
          JObj [(''tag'', JStr tag), (''source'', JStr source)])]\<rparr>)"

definition render_attributes :: "(string \<times> string option) list \<Rightarrow> string" where
  "render_attributes attrs =
     join '' '' (map (\<lambda>(key, value). key @ ''='' @ [CHR 0x22]
         @ escape_context_attribute (or_empty value) @ [CHR 0x22])
       (filter (\<lambda>(key, value). value \<noteq> None) (sort_key fst attrs)))"

definition synthetic_user_message ::
    "string \<Rightarrow> string \<Rightarrow> string \<Rightarrow> (string, string option) dict \<Rightarrow> bool \<Rightarrow> (string, message) result" where
  "synthetic_user_message tag payload source attributes escape_payload =
     bind_result (validate_tag tag) (\<lambda>tag.
       let attrs = foldl (\<lambda>d (k, v). dict_set k v d) [(''source'', Some source)] attributes;
           body = (if escape_payload then escape_context_payload payload else payload);
           content = ''<'' @ tag @ '' '' @ render_attributes attrs @ ''>'' @ [CHR 0x0A] @ body
             @ [CHR 0x0A] @ ''</'' @ tag @ ''>''
       in mark_synthetic_user_message content tag source)"

definition synthetic_marker :: "(string, json) dict \<Rightarrow> bool" where
  "synthetic_marker d =
     (case dict_get d synthetic_context_metadata_key of
        Some (JObj fs) \<Rightarrow>
          (case map_of fs ''tag'' of Some (JStr t) \<Rightarrow> t \<in> set reserved_context_tags | _ \<Rightarrow> False)
      | _ \<Rightarrow> False)"

definition is_synthetic_context_message :: "message \<Rightarrow> bool" where
  "is_synthetic_context_message m = synthetic_marker (msg_extra m)"

text \<open>\<open>py_str\<close> is Python's \<^verbatim>\<open>str()\<close> on content that is not text (a list of content parts).\<close>

definition content_text :: "(json \<Rightarrow> string) \<Rightarrow> json \<Rightarrow> string" where
  "content_text py_str c =
     (if \<not> truthy c then [] else case c of JStr s \<Rightarrow> s | _ \<Rightarrow> py_str c)"

definition is_private_key :: "string \<Rightarrow> bool" where
  "is_private_key key = starts_with key ''_rc_''"

definition strip_private :: "message \<Rightarrow> message" where
  "strip_private m = m\<lparr>msg_extra := filter (\<lambda>(k, v). \<not> is_private_key k) (msg_extra m)\<rparr>"

definition normalize_message :: "(json \<Rightarrow> string) \<Rightarrow> nat \<Rightarrow> message \<Rightarrow> (string, message) result" where
  "normalize_message py_str index m =
     bind_result
       (if has_role ''system'' m \<and> index \<noteq> 0
        then synthetic_user_message ''legacy_runtime_context'' (content_text py_str (msg_content m))
               ''provider_boundary_system_migration'' [] True
        else Inr m)
       (\<lambda>item. Inr (strip_private item))"

fun normalize_from ::
    "(json \<Rightarrow> string) \<Rightarrow> nat \<Rightarrow> message list \<Rightarrow> (string, message list) result" where
  "normalize_from py_str index [] = Inr []"
| "normalize_from py_str index (m # ms) =
     bind_result (normalize_message py_str index m) (\<lambda>item.
       bind_result (normalize_from py_str (Suc index) ms) (\<lambda>rest. Inr (item # rest)))"

definition normalize_provider_message_roles ::
    "(json \<Rightarrow> string) \<Rightarrow> message list \<Rightarrow> (string, message list) result" where
  "normalize_provider_message_roles py_str messages = normalize_from py_str 0 messages"

section \<open>Tool call adjacency\<close>

text \<open>The content test of the repair: absent or blank text. The string form of any other JSON
  value has a visible character.\<close>

definition blank_content :: "json \<Rightarrow> bool" where
  "blank_content c = (case c of JNull \<Rightarrow> True | JStr s \<Rightarrow> strip s = [] | _ \<Rightarrow> False)"

definition clean_id :: "string option \<Rightarrow> string" where
  "clean_id i = strip (or_empty i)"

definition call_tool_name :: "message_tool_call \<Rightarrow> string" where
  "call_tool_name call = (if or_empty (call_name call) = [] then ''unknown_tool''
     else or_empty (call_name call))"

definition default_missing :: "string \<Rightarrow> string \<Rightarrow> string" where
  "default_missing key tool_name = ''Tool '' @ squote tool_name @ '' output missing.''"


record repair_state =
  rs_responses :: "string \<Rightarrow> (nat \<times> message) list"
  rs_repaired :: "message list"
  rs_synthesized :: nat
  rs_consumed :: nat
  rs_reordered :: nat
  rs_filled :: nat

fun collect_responses :: "nat \<Rightarrow> message list \<Rightarrow> string \<Rightarrow> (nat \<times> message) list" where
  "collect_responses i [] = (\<lambda>_. [])"
| "collect_responses i (m # ms) =
     (let rest = collect_responses (Suc i) ms; key = clean_id (msg_tool_call_id m)
      in if is_tool m \<and> key \<noteq> [] then rest(key := (i, m) # rest key) else rest)"

definition fill_content :: "string \<Rightarrow> message \<Rightarrow> message" where
  "fill_content tool_name response =
     (if blank_content (msg_content response)
      then response\<lparr>msg_content := JStr (default_missing [] tool_name)\<rparr> else response)"

definition missing_response :: "(string \<Rightarrow> string \<Rightarrow> string) \<Rightarrow> string \<Rightarrow> string \<Rightarrow> message" where
  "missing_response missing_content key tool_name =
     \<lparr>msg_role = Some ''tool'', msg_content = JStr (missing_content key tool_name),
      msg_tool_calls = [], msg_tool_call_id = Some key, msg_extra = []\<rparr>"

definition answer_call ::
    "(string \<Rightarrow> string \<Rightarrow> string) \<Rightarrow> repair_state \<Rightarrow> message_tool_call \<Rightarrow> repair_state" where
  "answer_call missing_content st call =
     (let key = clean_id (call_id call)
      in if key = [] then st
         else
           let tool_name = call_tool_name call
           in case rs_responses st key of
                (original_index, response) # rest \<Rightarrow>
                  st\<lparr>rs_responses := (rs_responses st)(key := rest),
                     rs_consumed := rs_consumed st + 1,
                     rs_reordered := (if original_index \<noteq> length (rs_repaired st)
                       then rs_reordered st + 1 else rs_reordered st),
                     rs_filled := (if blank_content (msg_content response)
                       then rs_filled st + 1 else rs_filled st),
                     rs_repaired := rs_repaired st @ [fill_content tool_name response]\<rparr>
              | [] \<Rightarrow>
                  st\<lparr>rs_repaired := rs_repaired st @ [missing_response missing_content key tool_name],
                     rs_synthesized := rs_synthesized st + 1\<rparr>)"

definition repair_message ::
    "(string \<Rightarrow> string \<Rightarrow> string) \<Rightarrow> repair_state \<Rightarrow> message \<Rightarrow> repair_state" where
  "repair_message missing_content st m =
     (if is_tool m then st
      else
        let st' = st\<lparr>rs_repaired := rs_repaired st @ [m]\<rparr>
        in if \<not> is_assistant m then st'
           else foldl (answer_call missing_content) st' (msg_tool_calls m))"

definition reconcile_state :: "(string \<Rightarrow> string \<Rightarrow> string) \<Rightarrow> message list \<Rightarrow> repair_state" where
  "reconcile_state missing_content messages =
     foldl (repair_message missing_content)
       \<lparr>rs_responses = collect_responses 0 messages, rs_repaired = [], rs_synthesized = 0,
        rs_consumed = 0, rs_reordered = 0, rs_filled = 0\<rparr> messages"

record mutation_counts =
  mc_synthesized :: nat
  mc_reordered :: nat
  mc_discarded :: nat
  mc_filled :: nat

definition reconcile_tool_call_adjacency ::
    "(string \<Rightarrow> string \<Rightarrow> string) \<Rightarrow> message list \<Rightarrow> message list \<times> nat \<times> mutation_counts" where
  "reconcile_tool_call_adjacency missing_content messages =
     (let st = reconcile_state missing_content messages;
          tool_message_count = length (filter is_tool messages)
      in (rs_repaired st, rs_synthesized st,
          \<lparr>mc_synthesized = rs_synthesized st, mc_reordered = rs_reordered st,
           mc_discarded = tool_message_count - rs_consumed st, mc_filled = rs_filled st\<rparr>))"

definition normalize_history :: "message list \<Rightarrow> string \<Rightarrow> message list" where
  "normalize_history messages reason =
     fst (reconcile_tool_call_adjacency
       (\<lambda>_ tool_name. ''Tool '' @ squote tool_name @ '' did not return output before '' @ reason @ ''.'')
       messages)"

section \<open>Rounds\<close>

fun group_rounds :: "message list \<Rightarrow> bool \<Rightarrow> message list \<Rightarrow> message list list" where
  "group_rounds current has_assistant [] = (if current = [] then [] else [current])"
| "group_rounds current has_assistant (m # ms) =
     (if is_assistant m \<and> current \<noteq> [] \<and> has_assistant
      then current # group_rounds [m] True ms
      else group_rounds (current @ [m]) (has_assistant \<or> is_assistant m) ms)"

definition group_api_rounds :: "message list \<Rightarrow> message list list" where
  "group_api_rounds messages = group_rounds [] False messages"

definition recent_round_start :: "message list \<Rightarrow> int \<Rightarrow> nat" where
  "recent_round_start messages keep =
     (if keep \<le> 0 then length messages
      else
        let rounds = group_api_rounds messages
        in if int (length rounds) \<le> keep then 0
           else sum_list (map length (take (length rounds - nat keep) rounds)))"

section \<open>Escaping\<close>

lemma html_escape_simps [simp]:
  "html_escape q [] = []"
  "html_escape q (c # s) = escape_char q c @ html_escape q s"
  by (simp_all add: html_escape_def)

lemma html_escape_no_angle: "CHR ''<'' \<notin> set (html_escape q s)" "CHR ''>'' \<notin> set (html_escape q s)"
  by (induction s) auto

lemma html_escape_no_quote: "CHR 0x22 \<notin> set (html_escape True s)" "CHR 0x27 \<notin> set (html_escape True s)"
  by (induction s) auto

lemma escape_char_inj:
  "escape_char q c @ s = escape_char q d @ t \<Longrightarrow> c = d \<and> s = t"
  by (auto split: if_splits)

lemma html_escape_inj: "html_escape q s = html_escape q t \<Longrightarrow> s = t"
proof (induction s arbitrary: t)
  case Nil
  then show ?case by (cases t) (auto split: if_splits)
next
  case (Cons c s)
  then obtain d t' where t: "t = d # t'"
    by (cases t) (auto split: if_splits)
  with Cons.prems have "escape_char q c @ html_escape q s = escape_char q d @ html_escape q t'"
    by (simp only: html_escape_simps)
  with escape_char_inj [OF this] Cons.IH t show ?case by simp
qed

lemma reserved_tags_valid [simp]:
  "list_all (\<lambda>tag. validate_tag tag = Inr tag) reserved_context_tags"
  by code_simp

lemma validate_tag_reserved: "tag \<in> set reserved_context_tags \<Longrightarrow> validate_tag tag = Inr tag"
  using reserved_tags_valid by (simp add: list_all_iff del: reserved_tags_valid)

definition wrapped_content :: "string \<Rightarrow> (string, string option) dict \<Rightarrow> string \<Rightarrow> string" where
  "wrapped_content tag attrs body = ''<'' @ tag @ '' '' @ render_attributes attrs @ ''>'' @ [CHR 0x0A]
     @ body @ [CHR 0x0A] @ ''</'' @ tag @ ''>''"

lemma synthetic_user_message_Inr:
  "synthetic_user_message tag payload source attributes escape_payload = Inr m \<longleftrightarrow>
    validate_tag tag = Inr tag \<and>
    m = \<lparr>msg_role = Some ''user'',
      msg_content = JStr (wrapped_content tag
        (foldl (\<lambda>d (k, v). dict_set k v d) [(''source'', Some source)] attributes)
        (if escape_payload then escape_context_payload payload else payload)),
      msg_tool_calls = [], msg_tool_call_id = None,
      msg_extra = [(synthetic_context_metadata_key,
        JObj [(''tag'', JStr tag), (''source'', JStr source)])]\<rparr>"
proof (cases "validate_tag tag")
  case (Inl e)
  then show ?thesis by (simp add: synthetic_user_message_def)
next
  case (Inr t)
  then have "t = tag" by (simp add: validate_tag_def split: if_splits)
  with Inr show ?thesis
    by (simp only: synthetic_user_message_def mark_synthetic_user_message_def Let_def
        bind_result.simps wrapped_content_def sum.inject simp_thms) auto
qed

lemma legacy_tag_ok: "\<exists>m. synthetic_user_message ''legacy_runtime_context'' p s [] True = Inr m"
proof -
  have "validate_tag ''legacy_runtime_context'' = Inr ''legacy_runtime_context''"
    by (rule validate_tag_reserved) (simp add: reserved_context_tags_def)
  then show ?thesis unfolding synthetic_user_message_Inr by blast
qed

lemma strip_private_simps [simp]:
  "msg_role (strip_private m) = msg_role m"
  "(k, v) \<in> set (msg_extra (strip_private m)) \<longleftrightarrow> (k, v) \<in> set (msg_extra m) \<and> \<not> is_private_key k"
  by (auto simp: strip_private_def)

lemma normalize_message_ok:
  "\<exists>item. normalize_message py_str index m = Inr item \<and>
    (index \<noteq> 0 \<longrightarrow> \<not> has_role ''system'' item) \<and>
    (\<not> (has_role ''system'' m \<and> index \<noteq> 0) \<longrightarrow> item = strip_private m) \<and>
    (\<forall>(k, v)\<in>set (msg_extra item). \<not> is_private_key k)"
proof (cases "has_role ''system'' m \<and> index \<noteq> 0")
  case True
  obtain w where w: "synthetic_user_message ''legacy_runtime_context''
      (content_text py_str (msg_content m)) ''provider_boundary_system_migration'' [] True = Inr w"
    using legacy_tag_ok by blast
  then have role: "msg_role w = Some ''user''" unfolding synthetic_user_message_Inr by simp
  have "normalize_message py_str index m = Inr (strip_private w)"
    using True w by (simp only: normalize_message_def if_True bind_result.simps simp_thms)
  moreover have "\<not> has_role ''system'' (strip_private w)" by (simp add: has_role_def role)
  ultimately show ?thesis using True by (intro exI [of _ "strip_private w"]) auto
next
  case False
  then have "normalize_message py_str index m = Inr (strip_private m)"
    by (simp only: normalize_message_def if_False bind_result.simps)
  then show ?thesis using False by (intro exI [of _ "strip_private m"]) (auto simp: has_role_def)
qed

section \<open>The provider contract\<close>

definition response_key :: "message \<Rightarrow> string" where
  "response_key m = clean_id (msg_tool_call_id m)"

definition keys_of_calls :: "message_tool_call list \<Rightarrow> string list" where
  "keys_of_calls calls = filter (\<lambda>k. k \<noteq> []) (map (\<lambda>call. clean_id (call_id call)) calls)"

definition call_keys :: "message \<Rightarrow> string list" where
  "call_keys m = (if is_assistant m then keys_of_calls (msg_tool_calls m) else [])"

text \<open>Every assistant message is followed at once by one response per identified call, in call
  order, and tool messages occur nowhere else.\<close>

fun well_paired :: "message list \<Rightarrow> bool" where
  "well_paired [] = True"
| "well_paired (m # ms) =
     (let n = length (call_keys m)
      in \<not> is_tool m \<and> list_all is_tool (take n ms) \<and> map response_key (take n ms) = call_keys m \<and>
         well_paired (drop n ms))"

lemma well_paired_block:
  assumes "\<not> is_tool m" "list_all is_tool ts" "map response_key ts = call_keys m"
  shows "well_paired (m # ts @ rest) = well_paired rest"
proof -
  have "length ts = length (call_keys m)" using assms(3) by (metis length_map)
  with assms show ?thesis by (simp add: Let_def)
qed

lemma well_paired_append:
  "well_paired xs \<Longrightarrow> well_paired ys \<Longrightarrow> well_paired (xs @ ys)"
proof (induction xs rule: well_paired.induct)
  case 1
  then show ?case by simp
next
  case (2 m ms)
  let ?n = "length (call_keys m)"
  have split: "m # ms @ ys = m # take ?n ms @ (drop ?n ms @ ys)" by simp
  from 2 have block: "\<not> is_tool m" "list_all is_tool (take ?n ms)"
    "map response_key (take ?n ms) = call_keys m"
    and rest: "well_paired (drop ?n ms @ ys)"
    by (simp_all add: Let_def)
  show ?case
    using well_paired_block [OF block, of "drop ?n ms @ ys"] rest by (simp only: append_Cons split)
qed

definition responses_ok :: "(string \<Rightarrow> (nat \<times> message) list) \<Rightarrow> bool" where
  "responses_ok d \<longleftrightarrow> (\<forall>k. \<forall>(i, m)\<in>set (d k). is_tool m \<and> response_key m = k)"

lemma responses_okD: "responses_ok d \<Longrightarrow> (i, m) \<in> set (d k) \<Longrightarrow> is_tool m \<and> response_key m = k"
  by (auto simp: responses_ok_def)

lemma collect_responses_ok: "responses_ok (collect_responses i ms)"
  by (induction ms arbitrary: i) (auto simp: responses_ok_def response_key_def Let_def split: if_splits)

lemma fill_content_simps [simp]:
  "is_tool (fill_content n m) = is_tool m" "response_key (fill_content n m) = response_key m"
  by (simp_all add: fill_content_def has_role_def response_key_def)

lemma missing_response_simps [simp]:
  "is_tool (missing_response f k n)"
  "strip k = k \<Longrightarrow> response_key (missing_response f k n) = k"
  by (simp_all add: missing_response_def has_role_def response_key_def clean_id_def or_empty_def)

definition speaks :: "message \<Rightarrow> bool" where
  "speaks m \<longleftrightarrow> \<not> blank_content (msg_content m)"

lemma strip_nonspace: "c \<in> set s \<Longrightarrow> \<not> is_space c \<Longrightarrow> strip s \<noteq> []"
proof -
  assume "c \<in> set s" "\<not> is_space c"
  then have "\<exists>x\<in>set (dropWhile is_space s). \<not> is_space x" by (induction s) auto
  then show "strip s \<noteq> []" by (simp add: strip_def lstrip_def rstrip_def dropWhile_eq_Nil_conv)
qed

lemma default_missing_speaks [simp]: "strip (default_missing k n) \<noteq> []"
  by (rule strip_nonspace [of "CHR ''T''"]) (simp_all add: default_missing_def is_space_def)

lemma fill_content_speaks [simp]: "speaks (fill_content n m)"
  by (simp add: speaks_def fill_content_def blank_content_def)

definition speaking_default :: "(string \<Rightarrow> string \<Rightarrow> string) \<Rightarrow> bool" where
  "speaking_default f \<longleftrightarrow> (\<forall>k n. strip (f k n) \<noteq> [])"

lemma clean_id_strip [simp]: "strip (clean_id i) = clean_id i"
  by (simp add: clean_id_def)

lemma answer_calls_output:
  assumes "responses_ok (rs_responses st)"
  shows "\<exists>ts. rs_repaired (foldl (answer_call f) st calls) = rs_repaired st @ ts \<and>
    list_all is_tool ts \<and> map response_key ts = keys_of_calls calls \<and>
    (speaking_default f \<longrightarrow> list_all speaks ts) \<and>
    responses_ok (rs_responses (foldl (answer_call f) st calls))"
  using assms
proof (induction calls arbitrary: st)
  case Nil
  then show ?case by (simp add: keys_of_calls_def)
next
  case (Cons call calls)
  let ?k = "clean_id (call_id call)" and ?st = "answer_call f st call"
  show ?case
  proof (cases "?k = []")
    case True
    then have "?st = st" by (simp add: answer_call_def Let_def)
    with Cons True show ?thesis by (simp add: keys_of_calls_def)
  next
    case False
    obtain t where t: "rs_repaired ?st = rs_repaired st @ [t]" "is_tool t" "response_key t = ?k"
      "speaking_default f \<longrightarrow> speaks t" and ok: "responses_ok (rs_responses ?st)"
    proof (cases "rs_responses st ?k")
      case Nil
      with False Cons.prems that [of "missing_response f ?k (call_tool_name call)"] show ?thesis
        by (simp add: answer_call_def Let_def speaking_default_def speaks_def missing_response_def
            blank_content_def has_role_def response_key_def clean_id_def or_empty_def)
    next
      case (Cons r rest)
      obtain i m where r: "r = (i, m)" by (cases r)
      have m: "is_tool m" "response_key m = ?k"
        using responses_okD [OF Cons.prems, of i m ?k] Cons r by auto
      have "responses_ok ((rs_responses st)(?k := rest))"
        using Cons.prems Cons by (auto simp: responses_ok_def split: if_splits)
      with False Cons r m that [of "fill_content (call_tool_name call) m"] show ?thesis
        by (simp add: answer_call_def Let_def)
    qed
    from Cons.IH [OF ok] obtain ts where
      "rs_repaired (foldl (answer_call f) ?st calls) = rs_repaired ?st @ ts"
      "list_all is_tool ts" "map response_key ts = keys_of_calls calls"
      "speaking_default f \<longrightarrow> list_all speaks ts"
      "responses_ok (rs_responses (foldl (answer_call f) ?st calls))"
      by blast
    with t False show ?thesis
      by (intro exI [of _ "t # ts"]) (simp add: keys_of_calls_def)
  qed
qed

lemma repair_message_output:
  assumes "responses_ok (rs_responses st)"
  shows "\<exists>b. rs_repaired (repair_message f st m) = rs_repaired st @ b \<and> well_paired b \<and>
    filter (\<lambda>m. \<not> is_tool m) b = filter (\<lambda>m. \<not> is_tool m) [m] \<and>
    length (filter is_tool b) = length (if is_tool m then [] else call_keys m) \<and>
    (speaking_default f \<longrightarrow> list_all (\<lambda>m. is_tool m \<longrightarrow> speaks m) b) \<and>
    responses_ok (rs_responses (repair_message f st m))"
proof (cases "is_tool m \<or> \<not> is_assistant m")
  case True
  with assms show ?thesis
    by (auto simp: repair_message_def call_keys_def Let_def
        intro!: exI [of _ "if is_tool m then [] else [m]"])
next
  case False
  let ?st = "st\<lparr>rs_repaired := rs_repaired st @ [m]\<rparr>"
  from assms have "responses_ok (rs_responses ?st)" by simp
  from answer_calls_output [OF this, of f "msg_tool_calls m"] obtain ts where ts:
    "rs_repaired (foldl (answer_call f) ?st (msg_tool_calls m)) = rs_repaired ?st @ ts"
    "list_all is_tool ts" "map response_key ts = keys_of_calls (msg_tool_calls m)"
    "speaking_default f \<longrightarrow> list_all speaks ts"
    "responses_ok (rs_responses (foldl (answer_call f) ?st (msg_tool_calls m)))"
    by blast
  have tools: "filter (\<lambda>m. \<not> is_tool m) ts = []" "filter is_tool ts = ts"
    using ts(2) by (auto simp: list_all_iff filter_empty_conv filter_id_conv)
  have len: "length ts = length (keys_of_calls (msg_tool_calls m))" using ts(3) by (metis length_map)
  have "well_paired (m # ts)"
    using well_paired_block [of m ts "[]"] False ts by (simp add: call_keys_def)
  with False ts tools len show ?thesis
    by (intro exI [of _ "m # ts"])
      (simp add: repair_message_def Let_def call_keys_def list_all_iff)
qed

lemma repair_output:
  assumes "responses_ok (rs_responses st)"
  shows "\<exists>out. rs_repaired (foldl (repair_message f) st ms) = rs_repaired st @ out \<and> well_paired out \<and>
    filter (\<lambda>m. \<not> is_tool m) out = filter (\<lambda>m. \<not> is_tool m) ms \<and>
    length (filter is_tool out) = length (concat (map call_keys (filter (\<lambda>m. \<not> is_tool m) ms))) \<and>
    (speaking_default f \<longrightarrow> list_all (\<lambda>m. is_tool m \<longrightarrow> speaks m) out)"
  using assms
proof (induction ms arbitrary: st)
  case Nil
  then show ?case by simp
next
  case (Cons m ms)
  from repair_message_output [OF Cons.prems, of f m] obtain b where b:
    "rs_repaired (repair_message f st m) = rs_repaired st @ b" "well_paired b"
    "filter (\<lambda>m. \<not> is_tool m) b = filter (\<lambda>m. \<not> is_tool m) [m]"
    "length (filter is_tool b) = length (if is_tool m then [] else call_keys m)"
    "speaking_default f \<longrightarrow> list_all (\<lambda>m. is_tool m \<longrightarrow> speaks m) b"
    and ok: "responses_ok (rs_responses (repair_message f st m))"
    by blast
  from Cons.IH [OF ok] obtain out where out:
    "rs_repaired (foldl (repair_message f) (repair_message f st m) ms)
       = rs_repaired (repair_message f st m) @ out" "well_paired out"
    "filter (\<lambda>m. \<not> is_tool m) out = filter (\<lambda>m. \<not> is_tool m) ms"
    "length (filter is_tool out) = length (concat (map call_keys (filter (\<lambda>m. \<not> is_tool m) ms)))"
    "speaking_default f \<longrightarrow> list_all (\<lambda>m. is_tool m \<longrightarrow> speaks m) out"
    by blast
  show ?case
    using b out by (intro exI [of _ "b @ out"]) (simp add: well_paired_append)
qed

lemma reconcile_output:
  "well_paired (fst (reconcile_tool_call_adjacency f ms))"
  "filter (\<lambda>m. \<not> is_tool m) (fst (reconcile_tool_call_adjacency f ms)) = filter (\<lambda>m. \<not> is_tool m) ms"
  "length (filter is_tool (fst (reconcile_tool_call_adjacency f ms)))
     = length (concat (map call_keys (filter (\<lambda>m. \<not> is_tool m) ms)))"
  "speaking_default f \<Longrightarrow>
     list_all (\<lambda>m. is_tool m \<longrightarrow> speaks m) (fst (reconcile_tool_call_adjacency f ms))"
  using repair_output [of "\<lparr>rs_responses = collect_responses 0 ms, rs_repaired = [], rs_synthesized = 0,
      rs_consumed = 0, rs_reordered = 0, rs_filled = 0\<rparr>" f ms]
  by (auto simp: reconcile_tool_call_adjacency_def reconcile_state_def Let_def collect_responses_ok)

section \<open>A paired history is a fixed point\<close>

lemma collect_tool:
  "is_tool t \<Longrightarrow> response_key t \<noteq> [] \<Longrightarrow>
    collect_responses i (t # ms) =
      (collect_responses (Suc i) ms)(response_key t := (i, t) # collect_responses (Suc i) ms (response_key t))"
  by (simp add: response_key_def Let_def)

lemma answer_calls_fixed:
  assumes "list_all is_tool ts" "list_all speaks ts" "map response_key ts = keys_of_calls calls"
    and "rs_responses st = collect_responses (length (rs_repaired st)) (ts @ rest)"
  shows "foldl (answer_call f) st calls = st\<lparr>
    rs_responses := collect_responses (length (rs_repaired st) + length ts) rest,
    rs_repaired := rs_repaired st @ ts, rs_consumed := rs_consumed st + length ts\<rparr>"
  using assms
proof (induction calls arbitrary: st ts)
  case Nil
  then show ?case by (simp add: keys_of_calls_def)
next
  case (Cons call calls)
  let ?k = "clean_id (call_id call)"
  show ?case
  proof (cases "?k = []")
    case True
    then have "answer_call f st call = st" by (simp add: answer_call_def Let_def)
    with Cons True show ?thesis by (simp add: keys_of_calls_def)
  next
    case False
    with Cons.prems(3) obtain t ts' where ts: "ts = t # ts'" "response_key t = ?k"
      "map response_key ts' = keys_of_calls calls"
      by (auto simp: keys_of_calls_def)
    let ?i = "length (rs_repaired st)"
    have resp: "rs_responses st = (collect_responses (Suc ?i) (ts' @ rest))
        (?k := (?i, t) # collect_responses (Suc ?i) (ts' @ rest) ?k)"
      using Cons.prems(4) collect_tool [of t ?i "ts' @ rest"] Cons.prems(1) False
      unfolding ts append_Cons by (simp only: ts list.pred_inject simp_thms)
    have "fill_content n t = t" "\<not> blank_content (msg_content t)" for n
      using Cons.prems(2) ts by (simp_all add: fill_content_def speaks_def)
    then have step: "answer_call f st call = st\<lparr>rs_responses := collect_responses (Suc ?i) (ts' @ rest),
        rs_repaired := rs_repaired st @ [t], rs_consumed := rs_consumed st + 1\<rparr>"
      using False by (simp add: answer_call_def Let_def resp)
    show ?thesis
      using Cons.IH [of ts' "answer_call f st call"] Cons.prems(1,2) ts
      by (simp add: step)
  qed
qed

lemma repair_skip_tools:
  "list_all is_tool ts \<Longrightarrow> foldl (repair_message f) st (ts @ rest) = foldl (repair_message f) st rest"
  by (induction ts) (simp_all add: repair_message_def)

lemma repair_fixed:
  assumes "well_paired ms" "list_all (\<lambda>m. is_tool m \<longrightarrow> speaks m) ms"
    and "rs_responses st = collect_responses (length (rs_repaired st)) ms"
  shows "foldl (repair_message f) st ms = st\<lparr>rs_responses := \<lambda>_. [],
    rs_repaired := rs_repaired st @ ms, rs_consumed := rs_consumed st + length (filter is_tool ms)\<rparr>"
  using assms
proof (induction ms arbitrary: st rule: well_paired.induct)
  case 1
  then show ?case by simp
next
  case (2 m ms)
  let ?n = "length (call_keys m)" and ?i = "length (rs_repaired st)"
  let ?ts = "take ?n ms" and ?rest = "drop ?n ms"
  from 2(2) have block: "\<not> is_tool m" "list_all is_tool ?ts" "map response_key ?ts = call_keys m"
    and wp: "well_paired ?rest" by (simp_all add: Let_def)
  have speak: "list_all speaks ?ts" "list_all (\<lambda>m. is_tool m \<longrightarrow> speaks m) ?rest"
    using 2(3) block(2) by (auto simp: list_all_iff dest: in_set_takeD in_set_dropD)
  let ?st = "st\<lparr>rs_repaired := rs_repaired st @ [m]\<rparr>"
  have resp: "rs_responses ?st = collect_responses (length (rs_repaired ?st)) (?ts @ ?rest)"
    using 2(4) block(1) by (simp add: Let_def)
  have "repair_message f st m = st\<lparr>
      rs_responses := collect_responses (Suc ?i + length ?ts) ?rest,
      rs_repaired := rs_repaired st @ m # ?ts, rs_consumed := rs_consumed st + length ?ts\<rparr>"
  proof (cases "is_assistant m")
    case True
    with answer_calls_fixed [OF block(2) speak(1) _ resp, of "msg_tool_calls m" f] block show ?thesis
      by (simp add: repair_message_def Let_def call_keys_def)
  next
    case False
    with block resp show ?thesis by (simp add: repair_message_def Let_def call_keys_def)
  qed
  then have "foldl (repair_message f) st (m # ms) = foldl (repair_message f) (st\<lparr>
      rs_responses := collect_responses (Suc ?i + length ?ts) ?rest,
      rs_repaired := rs_repaired st @ m # ?ts, rs_consumed := rs_consumed st + length ?ts\<rparr>) ?rest"
    using repair_skip_tools [OF block(2), of f _ ?rest] by simp
  also have "\<dots> = st\<lparr>rs_responses := \<lambda>_. [],
      rs_repaired := (rs_repaired st @ m # ?ts) @ ?rest,
      rs_consumed := rs_consumed st + length ?ts + length (filter is_tool ?rest)\<rparr>"
    using 2(1) [OF refl wp speak(2)] by simp
  finally have run: "foldl (repair_message f) st (m # ms) = \<dots>" .
  have "length ?ts + length (filter is_tool ?rest) = length (filter is_tool (m # ms))"
  proof -
    have "filter is_tool ?ts = ?ts" using block(2) by (simp add: list_all_iff filter_id_conv)
    then have "filter is_tool (?ts @ ?rest) = ?ts @ filter is_tool ?rest" by (simp only: filter_append)
    then have "filter is_tool ms = ?ts @ filter is_tool ?rest" by (simp only: append_take_drop_id)
    then show ?thesis using block(1) by simp
  qed
  then show ?case unfolding run by simp
qed

lemma reconcile_fixed:
  assumes "well_paired ms" "list_all (\<lambda>m. is_tool m \<longrightarrow> speaks m) ms"
  shows "reconcile_tool_call_adjacency f ms =
    (ms, 0, \<lparr>mc_synthesized = 0, mc_reordered = 0, mc_discarded = 0, mc_filled = 0\<rparr>)"
proof -
  let ?st = "\<lparr>rs_responses = collect_responses 0 ms, rs_repaired = [], rs_synthesized = 0,
      rs_consumed = 0, rs_reordered = 0, rs_filled = 0\<rparr>"
  have "rs_responses ?st = collect_responses (length (rs_repaired ?st)) ms" by simp
  from repair_fixed [OF assms this, of f] show ?thesis
    by (simp add: reconcile_tool_call_adjacency_def reconcile_state_def Let_def)
qed

section \<open>Rounds partition the history\<close>

lemma concat_group_rounds: "concat (group_rounds current has ms) = current @ ms"
  by (induction current has ms rule: group_rounds.induct) auto

lemma group_rounds_shape:
  assumes "has \<longleftrightarrow> list_ex is_assistant current" "length (filter is_assistant current) \<le> 1"
    and "r \<in> set (group_rounds current has ms)"
  shows "r \<noteq> [] \<and> length (filter is_assistant r) \<le> 1"
  using assms
proof (induction current has ms rule: group_rounds.induct)
  case (1 current has)
  then show ?case by (auto split: if_splits)
next
  case (2 current has m ms)
  show ?case
  proof (cases "is_assistant m \<and> current \<noteq> [] \<and> has")
    case True
    with 2 show ?thesis by auto
  next
    case False
    have "length (filter is_assistant (current @ [m])) \<le> 1"
      using 2(3,4) False by (auto simp: list_ex_iff filter_empty_conv)
    with 2 False show ?thesis by (auto simp: list_ex_iff)
  qed
qed

lemma group_rounds_tools:
  "list_all is_tool ts \<Longrightarrow>
    group_rounds current has (ts @ rest) = group_rounds (current @ ts) has rest"
proof (induction ts arbitrary: current)
  case Nil
  then show ?case by simp
next
  case (Cons t ts)
  then have "\<not> is_assistant t" by (auto simp: has_role_def)
  with Cons show ?case by simp
qed

lemma group_rounds_paired:
  assumes "well_paired ms" "well_paired current"
  shows "list_all well_paired (group_rounds current has ms)"
  using assms
proof (induction ms arbitrary: current has rule: well_paired.induct)
  case 1
  then show ?case by simp
next
  case (2 m ms)
  let ?n = "length (call_keys m)"
  let ?ts = "take ?n ms" and ?rest = "drop ?n ms"
  from 2(2) have block: "\<not> is_tool m" "list_all is_tool ?ts" "map response_key ?ts = call_keys m"
    and wp: "well_paired ?rest" by (simp_all add: Let_def)
  have ms: "ms = ?ts @ ?rest" by simp
  have m: "well_paired (m # ?ts)" using well_paired_block [OF block, of "[]"] by simp
  note IH = 2(1) [OF refl wp]
  have "list_all well_paired (group_rounds ([m] @ ?ts) True ?rest)"
    using IH [of "[m] @ ?ts"] m by simp
  moreover have "list_all well_paired (group_rounds ((current @ [m]) @ ?ts) h ?rest)" for h
    using IH [of "(current @ [m]) @ ?ts"] well_paired_append [OF 2(3) m] by simp
  moreover have "group_rounds c h ms = group_rounds (c @ ?ts) h ?rest" for c h
    using group_rounds_tools [OF block(2), of c h ?rest] by (simp only: append_take_drop_id)
  ultimately show ?case
    using 2(3) by (simp del: append_assoc)
qed

lemma drop_rounds: "n \<le> length rs \<Longrightarrow>
    drop (sum_list (map length (take n rs))) (concat rs) = concat (drop n rs)"
  by (induction rs arbitrary: n) (auto split: nat.splits simp: take_Cons' drop_Cons')

lemma recent_rounds:
  "drop (recent_round_start ms keep) ms =
    concat (drop (length (group_api_rounds ms) - nat keep) (group_api_rounds ms))"
proof -
  have c: "concat (group_api_rounds ms) = ms" by (simp add: group_api_rounds_def concat_group_rounds)
  have "drop (sum_list (map length (take n (group_api_rounds ms)))) ms = concat (drop n (group_api_rounds ms))"
    if "n \<le> length (group_api_rounds ms)" for n
    using drop_rounds [OF that] by (simp add: c)
  then show ?thesis by (auto simp: recent_round_start_def Let_def c)
qed

lemma well_paired_concat: "list_all well_paired rs \<Longrightarrow> well_paired (concat rs)"
  by (induction rs) (auto intro: well_paired_append)

section \<open>Properties\<close>

definition ex_assistant :: message where
  "ex_assistant = \<lparr>msg_role = Some ''assistant'', msg_content = JNull,
     msg_tool_calls = [\<lparr>call_id = Some ''c1'', call_name = Some ''shell'', call_extra = []\<rparr>,
       \<lparr>call_id = Some ''c2'', call_name = Some ''grep'', call_extra = []\<rparr>],
     msg_tool_call_id = None, msg_extra = []\<rparr>"

definition ex_tool_message :: "string \<Rightarrow> message" where
  "ex_tool_message key = \<lparr>msg_role = Some ''tool'', msg_content = JStr ''ok'', msg_tool_calls = [],
     msg_tool_call_id = Some key, msg_extra = []\<rparr>"

definition ex_user :: message where
  "ex_user = \<lparr>msg_role = Some ''user'', msg_content = JStr ''hi'', msg_tool_calls = [],
     msg_tool_call_id = None, msg_extra = []\<rparr>"

text \<open>C11: The repaired history satisfies the provider contract for every input: each assistant
  message is followed at once by exactly one response per identified tool call, in call
  order, no other tool message survives, and every other message is kept unchanged and in
  order.\<close>

theorem reconcile_meets_contract:
  "well_paired (fst (reconcile_tool_call_adjacency missing ms)) \<and>
   filter (\<lambda>m. \<not> is_tool m) (fst (reconcile_tool_call_adjacency missing ms)) = filter (\<lambda>m. \<not> is_tool m) ms \<and>
   length (filter is_tool (fst (reconcile_tool_call_adjacency missing ms)))
     = length (concat (map call_keys (filter (\<lambda>m. \<not> is_tool m) ms)))"
  using reconcile_output by blast

text \<open>Repair is a projection: a history that already satisfies the contract, with no blank
  tool result, comes back unchanged with every mutation count zero, so repairing a repaired
  history does nothing.\<close>

theorem reconcile_idempotent:
  assumes "\<forall>key name. strip (missing key name) \<noteq> []"
  shows "reconcile_tool_call_adjacency missing' (fst (reconcile_tool_call_adjacency missing ms)) =
    (fst (reconcile_tool_call_adjacency missing ms), 0,
     \<lparr>mc_synthesized = 0, mc_reordered = 0, mc_discarded = 0, mc_filled = 0\<rparr>)"
  using assms reconcile_output(1) [of missing ms] reconcile_output(4) [of missing ms]
  by (intro reconcile_fixed) (simp_all add: speaking_default_def)

theorem reconcile_idempotent_witness:
  "reconcile_tool_call_adjacency default_missing
     (fst (reconcile_tool_call_adjacency default_missing
       [ex_tool_message ''c2'', ex_assistant, ex_user, ex_tool_message ''c9'']))
   = ([ex_assistant, missing_response default_missing ''c1'' ''shell'', ex_tool_message ''c2'', ex_user], 0,
     \<lparr>mc_synthesized = 0, mc_reordered = 0, mc_discarded = 0, mc_filled = 0\<rparr>)"
proof -
  have "fst (reconcile_tool_call_adjacency default_missing
       [ex_tool_message ''c2'', ex_assistant, ex_user, ex_tool_message ''c9''])
    = [ex_assistant, missing_response default_missing ''c1'' ''shell'', ex_tool_message ''c2'', ex_user]"
    by code_simp
  then show ?thesis
    using reconcile_idempotent [of default_missing default_missing
        "[ex_tool_message ''c2'', ex_assistant, ex_user, ex_tool_message ''c9'']"]
    by simp
qed

text \<open>Trimming a history to its newest rounds keeps it valid: the rounds concatenate to the
  history, each is non-empty with at most one assistant message, and the suffix that starts
  at the newest rounds of a history that meets the provider contract meets it too, so no
  tool call loses its responses.\<close>

theorem recent_rounds_keep_contract:
  assumes "well_paired ms"
  shows "concat (group_api_rounds ms) = ms \<and>
    (\<forall>r\<in>set (group_api_rounds ms). r \<noteq> [] \<and> length (filter is_assistant r) \<le> 1) \<and>
    drop (recent_round_start ms keep) ms =
      concat (drop (length (group_api_rounds ms) - nat keep) (group_api_rounds ms)) \<and>
    well_paired (drop (recent_round_start ms keep) ms)"
proof -
  have "list_all well_paired (group_api_rounds ms)"
    using group_rounds_paired [OF assms, of "[]"] by (simp add: group_api_rounds_def)
  then have "list_all well_paired (drop n (group_api_rounds ms))" for n
    by (auto simp: list_all_iff dest: in_set_dropD)
  moreover have "r \<noteq> [] \<and> length (filter is_assistant r) \<le> 1" if "r \<in> set (group_api_rounds ms)" for r
    using group_rounds_shape [of False "[]" r ms] that by (simp add: group_api_rounds_def)
  ultimately show ?thesis
    by (simp add: recent_rounds well_paired_concat) (simp add: group_api_rounds_def concat_group_rounds)
qed

theorem recent_rounds_keep_contract_witness:
  "well_paired (drop (recent_round_start [ex_user, ex_assistant, ex_tool_message ''c1'',
     ex_tool_message ''c2'', ex_assistant, ex_tool_message ''c1'', ex_tool_message ''c2''] 1)
   [ex_user, ex_assistant, ex_tool_message ''c1'', ex_tool_message ''c2'', ex_assistant,
     ex_tool_message ''c1'', ex_tool_message ''c2''])"
proof -
  have "well_paired [ex_user, ex_assistant, ex_tool_message ''c1'', ex_tool_message ''c2'',
      ex_assistant, ex_tool_message ''c1'', ex_tool_message ''c2'']"
    by code_simp
  from recent_rounds_keep_contract [OF this, of 1] show ?thesis by blast
qed

text \<open>The provider boundary always succeeds and lets the system role through in the first
  position only: the result has the same length, no later system message and no private
  key, and every message that was not a late system message keeps its content.\<close>

theorem normalized_roles:
  "\<exists>out. normalize_provider_message_roles py_str ms = Inr out \<and> length out = length ms \<and>
    (\<forall>i<length ms. (i \<noteq> 0 \<longrightarrow> \<not> has_role ''system'' (out ! i)) \<and>
       (\<not> (has_role ''system'' (ms ! i) \<and> i \<noteq> 0) \<longrightarrow> out ! i = strip_private (ms ! i)) \<and>
       (\<forall>(k, v)\<in>set (msg_extra (out ! i)). \<not> is_private_key k))"
proof -
  have "\<exists>out. normalize_from py_str n ms = Inr out \<and> length out = length ms \<and>
    (\<forall>i<length ms. (n + i \<noteq> 0 \<longrightarrow> \<not> has_role ''system'' (out ! i)) \<and>
       (\<not> (has_role ''system'' (ms ! i) \<and> n + i \<noteq> 0) \<longrightarrow> out ! i = strip_private (ms ! i)) \<and>
       (\<forall>(k, v)\<in>set (msg_extra (out ! i)). \<not> is_private_key k))" for n
  proof (induction ms arbitrary: n)
    case Nil
    then show ?case by simp
  next
    case (Cons m ms)
    obtain item where item: "normalize_message py_str n m = Inr item"
      "n \<noteq> 0 \<longrightarrow> \<not> has_role ''system'' item"
      "\<not> (has_role ''system'' m \<and> n \<noteq> 0) \<longrightarrow> item = strip_private m"
      "\<forall>(k, v)\<in>set (msg_extra item). \<not> is_private_key k"
      using normalize_message_ok by blast
    obtain out where out: "normalize_from py_str (Suc n) ms = Inr out" "length out = length ms"
      "\<forall>i<length ms. (Suc n + i \<noteq> 0 \<longrightarrow> \<not> has_role ''system'' (out ! i)) \<and>
       (\<not> (has_role ''system'' (ms ! i) \<and> Suc n + i \<noteq> 0) \<longrightarrow> out ! i = strip_private (ms ! i)) \<and>
       (\<forall>(k, v)\<in>set (msg_extra (out ! i)). \<not> is_private_key k)"
      using Cons.IH by blast
    have "normalize_from py_str n (m # ms) = Inr (item # out)"
      by (simp only: normalize_from.simps item out bind_result.simps)
    moreover have "(n + i \<noteq> 0 \<longrightarrow> \<not> has_role ''system'' ((item # out) ! i)) \<and>
       (\<not> (has_role ''system'' ((m # ms) ! i) \<and> n + i \<noteq> 0)
          \<longrightarrow> (item # out) ! i = strip_private ((m # ms) ! i)) \<and>
       (\<forall>(k, v)\<in>set (msg_extra ((item # out) ! i)). \<not> is_private_key k)"
      if "i < length (m # ms)" for i
    proof (cases i)
      case 0
      with item show ?thesis by simp
    next
      case (Suc j)
      with out that show ?thesis by auto
    qed
    ultimately show ?case using out(2) by (intro exI [of _ "item # out"]) simp
  qed
  from this [of 0] show ?thesis by (simp add: normalize_provider_message_roles_def)
qed

definition ex_witness_normalize :: "message list" where
  "ex_witness_normalize = [ex_user, ex_user\<lparr>msg_role := Some ''system''\<rparr>]"

theorem normalized_roles_witness:
  "\<exists>out. normalize_provider_message_roles (\<lambda>_. []) ex_witness_normalize = Inr out \<and>
     \<not> has_role ''system'' (out ! 1)"
  using normalized_roles [of "\<lambda>_. []" ex_witness_normalize]
  by (auto simp: ex_witness_normalize_def)

text \<open>A wrapped payload cannot break out of its wrapper: a synthetic message carries one of
  the reserved tags, its content is the opening tag, the escaped payload and the closing
  tag, the payload between them contains no angle bracket, and two payloads with the same
  wrapped form are equal.\<close>

theorem synthetic_payload_contained:
  assumes "synthetic_user_message tag payload source attributes True = Inr m"
  shows "tag \<in> set reserved_context_tags \<and> is_synthetic_context_message m \<and>
    (\<exists>attrs. msg_content m = JStr (wrapped_content tag attrs (escape_context_payload payload))) \<and>
    CHR ''<'' \<notin> set (escape_context_payload payload) \<and> CHR ''>'' \<notin> set (escape_context_payload payload) \<and>
    (\<forall>other. escape_context_payload other = escape_context_payload payload \<longrightarrow> other = payload)"
proof -
  from assms have m: "validate_tag tag = Inr tag" and extra: "msg_extra m =
      [(synthetic_context_metadata_key, JObj [(''tag'', JStr tag), (''source'', JStr source)])]"
    and content: "\<exists>attrs. msg_content m = JStr (wrapped_content tag attrs (escape_context_payload payload))"
    unfolding synthetic_user_message_Inr by auto
  have tag: "tag \<in> set reserved_context_tags" using m by (simp add: validate_tag_def split: if_splits)
  have "is_synthetic_context_message m"
    using tag by (simp add: is_synthetic_context_message_def synthetic_marker_def extra dict_get_def)
  with tag content html_escape_no_angle [of False payload] html_escape_inj [of False]
  show ?thesis by (simp add: escape_context_payload_def)
qed

theorem synthetic_payload_contained_witness:
  "\<exists>m. synthetic_user_message ''context_summary'' ''</context_summary>'' ''x'' [] True = Inr m \<and>
    is_synthetic_context_message m \<and>
    CHR ''<'' \<notin> set (escape_context_payload ''</context_summary>'')"
proof -
  have "validate_tag ''context_summary'' = Inr ''context_summary''"
    by (rule validate_tag_reserved) (simp add: reserved_context_tags_def)
  then obtain m where "synthetic_user_message ''context_summary'' ''</context_summary>'' ''x'' [] True = Inr m"
    unfolding synthetic_user_message_Inr by blast
  with synthetic_payload_contained [OF this] show ?thesis by blast
qed

end
