(* ===== verification/History_Ledger.thy ===== *)
theory History_Ledger
  imports Messages
begin

text \<open>
  The append-only session history (\<^verbatim>\<open>domain/history.py\<close>): in-memory events with durable
  sequence numbers, and the JSONL sink with its batches and its backlog. A file is the
  sequence of its complete records; clock readings, event ids and the outcome of a write
  are inputs of the operations. The locale \<open>event_log\<close> is what the goal, plan and output
  controllers rely on; the ledger interprets it. The lemmas show that sequence numbers
  strictly increase, that history only grows, and that the sink holds exactly the history.
\<close>

section \<open>Events and the ledger\<close>

record history_event =
  he_schema_version :: int
  he_seq :: int
  he_event_id :: string
  he_kind :: string
  he_created_at :: real
  he_session_generation :: int
  he_payload :: json
  he_session_id :: "string option"
  he_agent_id :: "string option"
  he_parent_agent_id :: "string option"
  he_job_id :: "string option"
  he_turn_id :: "string option"
  he_api_round_id :: "string option"
  he_role :: "string option"
  he_artifact_refs :: "string list"
  he_supersedes_event_ids :: "string list"

record ledger =
  lg_events :: "history_event list"
  lg_next_seq :: int
  lg_generation :: int
  lg_sink_path :: "string option"
  lg_session_id :: "string option"
  lg_agent_id :: "string option"
  lg_batch_depth :: nat
  lg_pending_sink_events :: "history_event list"
  lg_unbound_events :: "history_event list"
  lg_files :: "string \<Rightarrow> history_event list"

text \<open>The optional keywords of \<open>append\<close>, and the values it reads from the outside: the clock and
  a fresh event id.\<close>

record attribution =
  at_agent_id :: "string option"
  at_parent_agent_id :: "string option"
  at_job_id :: "string option"
  at_turn_id :: "string option"
  at_api_round_id :: "string option"
  at_role :: "string option"
  at_artifact_refs :: "string list"
  at_supersedes_event_ids :: "string list"

record stamp =
  st_time :: real
  st_event_id :: string

definition no_attribution :: attribution where
  "no_attribution = \<lparr>at_agent_id = None, at_parent_agent_id = None, at_job_id = None,
     at_turn_id = None, at_api_round_id = None, at_role = None, at_artifact_refs = [],
     at_supersedes_event_ids = []\<rparr>"

text \<open>\<^verbatim>\<open>max(..., default=0)\<close> over loaded events: an empty history counts as 0, and otherwise the
  greatest sequence number.\<close>

definition greatest_seq :: "history_event list \<Rightarrow> int" where
  "greatest_seq events = (case events of [] \<Rightarrow> 0 | e # es \<Rightarrow> foldl max (he_seq e) (map he_seq es))"

definition new_ledger ::
    "history_event list \<Rightarrow> int \<Rightarrow> int \<Rightarrow> string option \<Rightarrow> string option \<Rightarrow> string option
      \<Rightarrow> (string \<Rightarrow> history_event list) \<Rightarrow> (string, ledger) result" where
  "new_ledger events next_seq_floor generation sink_path session_id agent_id files =
     (if next_seq_floor < 0 then Inl ''next sequence floor must be a non-negative integer''
      else Inr \<lparr>lg_events = sort_key he_seq events,
        lg_next_seq = max (greatest_seq events) next_seq_floor + 1,
        lg_generation = generation, lg_sink_path = sink_path, lg_session_id = session_id,
        lg_agent_id = agent_id, lg_batch_depth = 0, lg_pending_sink_events = [],
        lg_unbound_events = [], lg_files = files\<rparr>)"

definition last_sequence :: "ledger \<Rightarrow> int" where
  "last_sequence l = lg_next_seq l - 1"

definition raise_floor :: "ledger \<Rightarrow> int \<Rightarrow> (string, ledger) result" where
  "raise_floor l floor_seq =
     (if floor_seq < 0 then Inl ''sequence floor must be a non-negative integer''
      else Inr (if floor_seq \<ge> lg_next_seq l then l\<lparr>lg_next_seq := floor_seq + 1\<rparr> else l))"

section \<open>Writing\<close>

text \<open>One write of complete records; \<open>ok\<close> is whether the file system accepted it.\<close>

definition write_sink_events :: "bool \<Rightarrow> ledger \<Rightarrow> history_event list \<Rightarrow> ledger \<times> py_exn option" where
  "write_sink_events ok l events =
     (case lg_sink_path l of
        None \<Rightarrow> (l, None)
      | Some path \<Rightarrow>
          if events = [] then (l, None)
          else if ok then (l\<lparr>lg_files := (lg_files l)(path := lg_files l path @ events)\<rparr>, None)
          else (l, Some (Py_Exception ''write failed'')))"

definition append_to_sink :: "bool \<Rightarrow> ledger \<Rightarrow> history_event \<Rightarrow> ledger \<times> py_exn option" where
  "append_to_sink ok l event =
     (if lg_sink_path l = None then (l\<lparr>lg_unbound_events := lg_unbound_events l @ [event]\<rparr>, None)
      else if lg_batch_depth l \<noteq> 0
      then (l\<lparr>lg_pending_sink_events := lg_pending_sink_events l @ [event]\<rparr>, None)
      else write_sink_events ok l [event])"

definition make_event :: "ledger \<Rightarrow> string \<Rightarrow> json \<Rightarrow> attribution \<Rightarrow> stamp \<Rightarrow> history_event" where
  "make_event l kind payload who st =
     \<lparr>he_schema_version = 2, he_seq = lg_next_seq l, he_event_id = st_event_id st, he_kind = kind,
      he_created_at = st_time st, he_session_generation = lg_generation l, he_payload = payload,
      he_session_id = lg_session_id l,
      he_agent_id = (if or_empty (at_agent_id who) = [] then lg_agent_id l else at_agent_id who),
      he_parent_agent_id = at_parent_agent_id who, he_job_id = at_job_id who,
      he_turn_id = at_turn_id who, he_api_round_id = at_api_round_id who, he_role = at_role who,
      he_artifact_refs = at_artifact_refs who,
      he_supersedes_event_ids = at_supersedes_event_ids who\<rparr>"

definition append_event ::
    "bool \<Rightarrow> ledger \<Rightarrow> string \<Rightarrow> json \<Rightarrow> attribution \<Rightarrow> stamp
      \<Rightarrow> ledger \<times> (py_exn, history_event) result" where
  "append_event ok l kind payload who st =
     (let event = make_event l kind payload who st;
          l' = l\<lparr>lg_next_seq := lg_next_seq l + 1, lg_events := lg_events l @ [event]\<rparr>;
          (l'', failure) = append_to_sink ok l' event
      in (l'', case failure of None \<Rightarrow> Inr event | Some e \<Rightarrow> Inl e))"

text \<open>\<open>_batch_sink_writes\<close> around a body: the depth is restored and the pending events are
  written once at the outermost exit; on a failed write they stay pending, and the write's
  exception replaces the body's outcome.\<close>

definition batch_sink_writes ::
    "bool \<Rightarrow> ledger \<Rightarrow> (ledger \<Rightarrow> ledger \<times> (py_exn, 'a) result) \<Rightarrow> ledger \<times> (py_exn, 'a) result" where
  "batch_sink_writes ok l body =
     (let (l1, res) = body (l\<lparr>lg_batch_depth := lg_batch_depth l + 1\<rparr>);
          l2 = l1\<lparr>lg_batch_depth := lg_batch_depth l1 - 1\<rparr>
      in if lg_batch_depth l2 = 0 \<and> lg_pending_sink_events l2 \<noteq> []
         then (case write_sink_events ok l2 (lg_pending_sink_events l2) of
                 (l3, None) \<Rightarrow> (l3\<lparr>lg_pending_sink_events := []\<rparr>, res)
               | (l3, Some e) \<Rightarrow> (l3, Inl e))
         else (l2, res))"

section \<open>Messages and context views\<close>

definition optional_str :: "json option \<Rightarrow> string option" where
  "optional_str v = (case v of Some (JStr s) \<Rightarrow> Some s | _ \<Rightarrow> None)"

definition field :: "(string, json) dict \<Rightarrow> string \<Rightarrow> json" where
  "field d k = (case dict_get d k of None \<Rightarrow> JNull | Some v \<Rightarrow> v)"

definition message_semantic_kind ::
    "(json \<Rightarrow> string) \<Rightarrow> (string, json) dict \<Rightarrow> string \<Rightarrow> string option" where
  "message_semantic_kind py_str message source =
     (let role = dict_get message ''role''
      in if source \<in> {''subagent_result'', ''subagent_deferred''} then Some ''subagent_result''
         else if source = ''subagent_communication'' then Some ''subagent_communication''
         else if source = ''subagent_conflict'' then Some ''attention_raised''
         else if source \<in> {''session_exit'', ''session_resume''}
           \<or> starts_with (content_text py_str (field message ''content'')) ''[SESSION_''
         then Some ''session_lifecycle''
         else if role = Some (JStr ''user'') \<and> \<not> synthetic_marker message then Some ''user_message''
         else if role = Some (JStr ''assistant'') \<and> truthy (field message ''tool_calls'')
         then Some ''tool_call''
         else if role = Some (JStr ''assistant'') then Some ''assistant_response''
         else if role = Some (JStr ''tool'') then Some ''tool_result''
         else None)"

definition message_tool_call_ids :: "(json \<Rightarrow> string) \<Rightarrow> (string, json) dict \<Rightarrow> string list" where
  "message_tool_call_ids py_str message =
     (case field message ''tool_calls'' of
        JList calls \<Rightarrow> concat (map (\<lambda>call. case call of
            JObj _ \<Rightarrow> (if truthy (jget call ''id'')
              then [case jget call ''id'' of JStr s \<Rightarrow> s | v \<Rightarrow> py_str v] else [])
          | _ \<Rightarrow> []) calls)
      | _ \<Rightarrow> [])"

definition canonical_message :: "(string, json) dict \<Rightarrow> (string, json) dict" where
  "canonical_message message = filter (\<lambda>(key, value). key \<noteq> ''_rc_token_count'') message"

definition append_message ::
    "(json \<Rightarrow> string) \<Rightarrow> bool \<Rightarrow> ledger \<Rightarrow> (string, json) dict \<Rightarrow> string \<Rightarrow> attribution
      \<Rightarrow> (string, json) dict \<Rightarrow> stamp \<Rightarrow> stamp \<Rightarrow> ledger \<times> (py_exn, history_event) result" where
  "append_message py_str ok l message source who metadata st1 st2 =
     (let who' = no_attribution\<lparr>at_agent_id := at_agent_id who, at_turn_id := at_turn_id who,
            at_api_round_id := at_api_round_id who,
            at_role := optional_str (dict_get message ''role'')\<rparr>
      in batch_sink_writes ok l (\<lambda>l.
           let payload = foldl (\<lambda>d (k, v). dict_set k v d)
                 [(''source'', JStr source), (''message'', JObj (canonical_message message))] metadata
           in case append_event ok l ''message_committed'' (JObj payload) who' st1 of
                (l1, Inl e) \<Rightarrow> (l1, Inl e)
              | (l1, Inr committed) \<Rightarrow>
                  (case message_semantic_kind py_str message source of
                     None \<Rightarrow> (l1, Inr committed)
                   | Some semantic_kind \<Rightarrow>
                       (case append_event ok l1 semantic_kind
                               (JObj [(''message_event_id'', JStr (he_event_id committed)),
                                 (''source'', JStr source),
                                 (''tool_call_ids'', JList (map JStr (message_tool_call_ids py_str message))),
                                 (''tool_call_id'', field message ''tool_call_id'')]) who' st2 of
                          (l2, Inl e) \<Rightarrow> (l2, Inl e)
                        | (l2, Inr _) \<Rightarrow> (l2, Inr committed)))))"

definition append_context_view ::
    "bool \<Rightarrow> ledger \<Rightarrow> (string, json) dict list \<Rightarrow> string \<Rightarrow> int \<Rightarrow> string option \<Rightarrow> stamp \<Rightarrow> stamp
      \<Rightarrow> ledger \<times> (py_exn, history_event) result" where
  "append_context_view ok l messages reason history_version checkpoint_id st1 st2 =
     batch_sink_writes ok l (\<lambda>l.
       case append_event ok l ''context_view_committed''
              (JObj [(''reason'', JStr reason), (''history_version'', JInt history_version),
                (''checkpoint_id'', json_opt_str checkpoint_id),
                (''items'', JList (map (\<lambda>item. JObj (canonical_message item)) messages))])
              no_attribution st1 of
         (l1, Inl e) \<Rightarrow> (l1, Inl e)
       | (l1, Inr committed) \<Rightarrow>
           (case checkpoint_id of
              None \<Rightarrow> (l1, Inr committed)
            | Some checkpoint \<Rightarrow>
                (case append_event ok l1 ''context_checkpoint''
                        (JObj [(''checkpoint_id'', JStr checkpoint),
                          (''context_view_event_id'', JStr (he_event_id committed)),
                          (''history_version'', JInt history_version)])
                        (no_attribution\<lparr>at_supersedes_event_ids := [he_event_id committed]\<rparr>) st2 of
                   (l2, Inl e) \<Rightarrow> (l2, Inl e)
                 | (l2, Inr _) \<Rightarrow> (l2, Inr committed))))"

section \<open>Binding the sink\<close>

definition advance_generation :: "ledger \<Rightarrow> int \<Rightarrow> ledger" where
  "advance_generation l generation = l\<lparr>lg_generation := generation\<rparr>"

text \<open>Separating a partial final record with a newline changes no complete record.\<close>

definition bind_jsonl :: "bool \<Rightarrow> ledger \<Rightarrow> string \<Rightarrow> ledger \<times> py_exn option" where
  "bind_jsonl ok l path =
     (let l1 = l\<lparr>lg_sink_path := Some path\<rparr>
      in if lg_unbound_events l1 = [] then (l1, None)
         else (case write_sink_events ok l1 (lg_unbound_events l1) of
                 (l2, None) \<Rightarrow> (l2\<lparr>lg_unbound_events := []\<rparr>, None)
               | (l2, Some e) \<Rightarrow> (l2\<lparr>lg_sink_path := lg_sink_path l\<rparr>, Some e)))"

definition unbind_jsonl :: "ledger \<Rightarrow> ledger" where
  "unbind_jsonl l = l\<lparr>lg_sink_path := None, lg_pending_sink_events := []\<rparr>"

definition bind_context :: "ledger \<Rightarrow> string option \<Rightarrow> string option \<Rightarrow> ledger" where
  "bind_context l session_id agent_id =
     (let l1 = (if session_id \<noteq> None then l\<lparr>lg_session_id := session_id\<rparr> else l)
      in if agent_id \<noteq> None then l1\<lparr>lg_agent_id := agent_id\<rparr> else l1)"


section \<open>What a write changes\<close>

text \<open>Everything but the files, the pending and the unbound events.\<close>

definition same_core :: "ledger \<Rightarrow> ledger \<Rightarrow> bool" where
  "same_core l l' \<longleftrightarrow> lg_events l' = lg_events l \<and> lg_next_seq l' = lg_next_seq l \<and>
     lg_generation l' = lg_generation l \<and> lg_session_id l' = lg_session_id l \<and>
     lg_agent_id l' = lg_agent_id l"

lemma write_sink_frame:
  assumes "write_sink_events ok l es = (l', failure)"
  shows "same_core l l'" "lg_batch_depth l' = lg_batch_depth l" "lg_sink_path l' = lg_sink_path l"
    "lg_pending_sink_events l' = lg_pending_sink_events l" "lg_unbound_events l' = lg_unbound_events l"
    "ok \<Longrightarrow> failure = None \<and> lg_files l' = (case lg_sink_path l of None \<Rightarrow> lg_files l
       | Some path \<Rightarrow> (lg_files l)(path := lg_files l path @ es))"
    "failure \<noteq> None \<Longrightarrow> l' = l"
  using assms by (auto simp: write_sink_events_def same_core_def split: option.splits if_splits)

lemma append_to_sink_frame:
  assumes "append_to_sink ok l e = (l', failure)"
  shows "same_core l l'" "lg_batch_depth l' = lg_batch_depth l" "lg_sink_path l' = lg_sink_path l"
  using assms by (auto simp: append_to_sink_def same_core_def split: if_splits
      dest: write_sink_frame(1,2,3) [unfolded same_core_def])

lemma append_event_frame:
  assumes "append_event ok l kind payload who st = (l', res)"
  shows "lg_events l' = lg_events l @ [make_event l kind payload who st]"
    "lg_next_seq l' = lg_next_seq l + 1" "lg_generation l' = lg_generation l"
    "lg_session_id l' = lg_session_id l" "lg_agent_id l' = lg_agent_id l"
    "lg_batch_depth l' = lg_batch_depth l" "lg_sink_path l' = lg_sink_path l"
    "\<And>e. res = Inr e \<Longrightarrow> e = make_event l kind payload who st"
  using assms
  by (auto simp: append_event_def Let_def same_core_def split: prod.splits option.splits
      dest: append_to_sink_frame [unfolded same_core_def])

lemma append_event_ok:
  assumes "append_event True l kind payload who st = (l', res)"
  shows "res = Inr (make_event l kind payload who st)"
  using assms
  by (auto simp: append_event_def append_to_sink_def write_sink_events_def Let_def
      split: option.splits if_splits)

lemma append_event_in_batch:
  assumes "append_event ok l kind payload who st = (l', res)" and "lg_batch_depth l \<noteq> 0"
  shows "res = Inr (make_event l kind payload who st)" "lg_files l' = lg_files l"
    "lg_sink_path l \<noteq> None \<Longrightarrow>
       lg_pending_sink_events l' = lg_pending_sink_events l @ [make_event l kind payload who st] \<and>
       lg_unbound_events l' = lg_unbound_events l"
    "lg_sink_path l = None \<Longrightarrow>
       lg_unbound_events l' = lg_unbound_events l @ [make_event l kind payload who st] \<and>
       lg_pending_sink_events l' = lg_pending_sink_events l"
  using assms by (auto simp: append_event_def append_to_sink_def Let_def split: if_splits)

section \<open>The log interface\<close>

text \<open>
  What a controller that records its state in the history relies on: recording adds one
  entry at the end. Its lemmas are about the latest entry of a kind, which is how the
  controllers recover their state.
\<close>

locale event_log =
  fixes record_entry :: "'x \<Rightarrow> 's \<Rightarrow> 'k \<Rightarrow> 'p \<Rightarrow> 's"
    and log :: "'s \<Rightarrow> ('k \<times> 'p) list"
  assumes log_record: "log (record_entry x s k p) = log s @ [(k, p)]"
begin

definition latest :: "'k \<Rightarrow> 's \<Rightarrow> 'p option" where
  "latest k s = map_of (rev (log s)) k"

lemma latest_record: "latest k (record_entry x s k' p) = (if k' = k then Some p else latest k s)"
  by (simp add: latest_def log_record)

lemma latest_same [simp]: "latest k (record_entry x s k p) = Some p"
  by (simp add: latest_record)

lemma latest_other: "k' \<noteq> k \<Longrightarrow> latest k (record_entry x s k' p) = latest k s"
  by (simp add: latest_record)

lemma latest_records_other:
  "\<forall>(x, k', p)\<in>set entries. k' \<noteq> k \<Longrightarrow>
    latest k (foldl (\<lambda>s (x, k', p). record_entry x s k' p) s entries) = latest k s"
  by (induction entries arbitrary: s) (auto simp: latest_other)

end

definition ledger_entries :: "ledger \<Rightarrow> (string \<times> json) list" where
  "ledger_entries l = map (\<lambda>e. (he_kind e, he_payload e)) (lg_events l)"

definition ledger_record ::
    "bool \<times> attribution \<times> stamp \<Rightarrow> ledger \<Rightarrow> string \<Rightarrow> json \<Rightarrow> ledger" where
  "ledger_record x l kind payload = (case x of (ok, who, st) \<Rightarrow> fst (append_event ok l kind payload who st))"

lemmas append_event_fst = append_event_frame [OF prod.collapse [symmetric]]

interpretation history: event_log ledger_record ledger_entries
  by unfold_locales
    (simp add: ledger_record_def ledger_entries_def append_event_fst(1) make_event_def split: prod.splits)

section \<open>Invariant\<close>

definition ledger_inv :: "ledger \<Rightarrow> bool" where
  "ledger_inv l \<longleftrightarrow> sorted_wrt (<) (map he_seq (lg_events l)) \<and>
     (\<forall>e\<in>set (lg_events l). he_seq e < lg_next_seq l) \<and> lg_batch_depth l = 0"

definition grows :: "ledger \<Rightarrow> ledger \<Rightarrow> bool" where
  "grows l l' \<longleftrightarrow> (\<exists>es. lg_events l' = lg_events l @ es \<and>
     (\<forall>e\<in>set es. lg_next_seq l \<le> he_seq e)) \<and> lg_next_seq l \<le> lg_next_seq l'"

text \<open>Growth that keeps the sequence discipline; the batch depth is the caller's.\<close>

definition extends :: "ledger \<Rightarrow> ledger \<Rightarrow> bool" where
  "extends l l' \<longleftrightarrow> (\<exists>es. lg_events l' = lg_events l @ es \<and> sorted_wrt (<) (map he_seq es) \<and>
     (\<forall>e\<in>set es. lg_next_seq l \<le> he_seq e \<and> he_seq e < lg_next_seq l')) \<and>
     lg_next_seq l \<le> lg_next_seq l' \<and> lg_batch_depth l' = lg_batch_depth l"

lemma extends_refl [simp]: "extends l l"
  by (simp add: extends_def)

lemma extends_trans: "extends l1 l2 \<Longrightarrow> extends l2 l3 \<Longrightarrow> extends l1 l3"
  by (fastforce simp: extends_def sorted_wrt_append)

lemma extends_core: "same_core l l' \<Longrightarrow> lg_batch_depth l' = lg_batch_depth l \<Longrightarrow> extends l l'"
  by (simp add: same_core_def extends_def)

lemma append_extends:
  assumes "append_event ok l kind payload who st = (l', res)"
  shows "extends l l'"
  using append_event_frame [OF assms] by (simp add: extends_def make_event_def)

lemma batch_extends:
  assumes "batch_sink_writes ok l body = (l', res)"
    and "\<And>l1 l2 r. body l1 = (l2, r) \<Longrightarrow> extends l1 l2"
  shows "extends l l'"
proof -
  obtain l1 r where b: "body (l\<lparr>lg_batch_depth := Suc (lg_batch_depth l)\<rparr>) = (l1, r)" by fastforce
  have e1: "extends l (l1\<lparr>lg_batch_depth := lg_batch_depth l1 - 1\<rparr>)"
    using assms(2) [OF b] by (simp add: extends_def)
  obtain l3 f where w: "write_sink_events ok (l1\<lparr>lg_batch_depth := lg_batch_depth l1 - 1\<rparr>)
      (lg_pending_sink_events l1) = (l3, f)" by fastforce
  have e2: "extends (l1\<lparr>lg_batch_depth := lg_batch_depth l1 - 1\<rparr>) l3"
    using write_sink_frame [OF w] by (simp add: extends_core)
  have e3: "extends l3 (l3\<lparr>lg_pending_sink_events := es\<rparr>)" for es by (simp add: extends_def)
  note e12 = extends_trans [OF e1 e2]
  have "l' = l1\<lparr>lg_batch_depth := lg_batch_depth l1 - 1\<rparr> \<or> l' = l3 \<or>
      l' = l3\<lparr>lg_pending_sink_events := []\<rparr>"
    using assms(1) w by (auto simp: batch_sink_writes_def b Let_def split: if_splits option.splits)
  then show ?thesis using e1 e12 extends_trans [OF e12 e3] by blast
qed

lemma message_extends:
  assumes "append_message py_str ok l message source who metadata st1 st2 = (l', res)"
  shows "extends l l'"
  using assms unfolding append_message_def Let_def
  by (rule batch_extends)
    (auto split: prod.splits sum.splits option.splits dest!: append_extends intro: extends_trans)

lemma view_extends:
  assumes "append_context_view ok l messages reason version checkpoint st1 st2 = (l', res)"
  shows "extends l l'"
  using assms unfolding append_context_view_def
  by (rule batch_extends)
    (auto split: prod.splits sum.splits option.splits dest!: append_extends intro: extends_trans)

lemma extends_inv: "extends l l' \<Longrightarrow> ledger_inv l \<Longrightarrow> ledger_inv l'"
  by (fastforce simp: extends_def ledger_inv_def sorted_wrt_append)

lemma extends_grows: "extends l l' \<Longrightarrow> grows l l'"
  by (auto simp: extends_def grows_def)

section \<open>The ledger as a machine\<close>

datatype ledger_op =
    Append_Event bool string json attribution stamp
  | Append_Message bool "(string, json) dict" string attribution "(string, json) dict" stamp stamp
  | Append_View bool "(string, json) dict list" string int "string option" stamp stamp
  | Raise_Floor int
  | Advance_Generation int
  | Bind_Jsonl bool string
  | Unbind_Jsonl
  | Bind_Context "string option" "string option"

fun ledger_step :: "(json \<Rightarrow> string) \<Rightarrow> ledger \<Rightarrow> ledger_op \<Rightarrow> (string, ledger) result" where
  "ledger_step py_str l (Append_Event ok kind payload who st) =
     Inr (fst (append_event ok l kind payload who st))"
| "ledger_step py_str l (Append_Message ok message source who metadata st1 st2) =
     Inr (fst (append_message py_str ok l message source who metadata st1 st2))"
| "ledger_step py_str l (Append_View ok messages reason version checkpoint st1 st2) =
     Inr (fst (append_context_view ok l messages reason version checkpoint st1 st2))"
| "ledger_step py_str l (Raise_Floor n) = raise_floor l n"
| "ledger_step py_str l (Advance_Generation g) = Inr (advance_generation l g)"
| "ledger_step py_str l (Bind_Jsonl ok path) = Inr (fst (bind_jsonl ok l path))"
| "ledger_step py_str l Unbind_Jsonl = Inr (unbind_jsonl l)"
| "ledger_step py_str l (Bind_Context s a) = Inr (bind_context l s a)"

lemma bind_jsonl_core:
  "same_core l (fst (bind_jsonl ok l path))" "lg_batch_depth (fst (bind_jsonl ok l path)) = lg_batch_depth l"
proof -
  obtain l2 f where w: "write_sink_events ok (l\<lparr>lg_sink_path := Some path\<rparr>) (lg_unbound_events l) = (l2, f)"
    by fastforce
  show "same_core l (fst (bind_jsonl ok l path))"
    "lg_batch_depth (fst (bind_jsonl ok l path)) = lg_batch_depth l"
    using write_sink_frame(1,2) [OF w] w
    by (auto simp: bind_jsonl_def Let_def same_core_def split: option.splits)
qed

lemma ledger_step_extends:
  assumes "ledger_step py_str l x = Inr l'"
  shows "extends l l'"
  using assms
proof (cases x)
  case (Append_Event ok kind payload who st)
  with assms show ?thesis using append_extends by (metis ledger_step.simps(1) prod.collapse sum.inject(2))
next
  case (Append_Message ok message source who metadata st1 st2)
  with assms show ?thesis using message_extends by (metis ledger_step.simps(2) prod.collapse sum.inject(2))
next
  case (Append_View ok messages reason version checkpoint st1 st2)
  with assms show ?thesis using view_extends by (metis ledger_step.simps(3) prod.collapse sum.inject(2))
next
  case (Bind_Jsonl ok path)
  with assms show ?thesis using bind_jsonl_core by (auto intro: extends_core)
qed (auto simp: raise_floor_def advance_generation_def unbind_jsonl_def bind_context_def extends_def
    Let_def split: if_splits)

lemma grows_refl: "grows l l"
  by (simp add: grows_def)

lemma grows_trans: "grows l1 l2 \<Longrightarrow> grows l2 l3 \<Longrightarrow> grows l1 l3"
  by (fastforce simp: grows_def)

interpretation ledger_machine: monotone_machine "ledger_step py_str" ledger_inv grows
  by unfold_locales
    (blast intro: extends_inv extends_grows ledger_step_extends grows_refl grows_trans)+

section \<open>Durability\<close>

definition batched :: "ledger \<Rightarrow> ledger \<Rightarrow> bool" where
  "batched l l' \<longleftrightarrow> lg_batch_depth l' = lg_batch_depth l \<and> lg_files l' = lg_files l \<and>
     lg_sink_path l' = lg_sink_path l \<and>
     (\<exists>es. lg_events l' = lg_events l @ es \<and>
        (if lg_sink_path l = None
         then lg_unbound_events l' = lg_unbound_events l @ es \<and>
           lg_pending_sink_events l' = lg_pending_sink_events l
         else lg_pending_sink_events l' = lg_pending_sink_events l @ es \<and>
           lg_unbound_events l' = lg_unbound_events l))"

lemma batched_trans: "batched l1 l2 \<Longrightarrow> batched l2 l3 \<Longrightarrow> batched l1 l3"
  by (auto simp: batched_def split: if_splits)

lemma append_batched:
  assumes "append_event ok l kind payload who st = (l', res)" and "lg_batch_depth l \<noteq> 0"
  shows "batched l l' \<and> lg_batch_depth l' \<noteq> 0"
  using append_event_frame(1,6,7) [OF assms(1)] append_event_in_batch(2-4) [OF assms] assms(2)
  by (cases "lg_sink_path l") (simp_all add: batched_def)

lemma append_twice_batched:
  assumes "append_event ok l1 kind payload who st = (l2, res)"
    "append_event ok' l2 kind' payload' who' st' = (l3, res')" and "lg_batch_depth l1 \<noteq> 0"
  shows "batched l1 l3"
  using append_batched [OF assms(1,3)] append_batched [OF assms(2)] batched_trans by blast

text \<open>The sink at \<open>path\<close> holds \<open>old\<close> followed by every event after the first \<open>n\<close>; while no sink
  is bound those events wait in the backlog.\<close>

definition durable :: "string \<Rightarrow> history_event list \<Rightarrow> nat \<Rightarrow> ledger \<Rightarrow> bool" where
  "durable path old n l \<longleftrightarrow> lg_batch_depth l = 0 \<and> lg_pending_sink_events l = [] \<and>
     n \<le> length (lg_events l) \<and>
     (case lg_sink_path l of
        None \<Rightarrow> lg_unbound_events l = drop n (lg_events l) \<and> lg_files l path = old
      | Some q \<Rightarrow> q = path \<and> lg_unbound_events l = [] \<and> lg_files l path = old @ drop n (lg_events l))"

lemma append_durable:
  assumes "durable path old n l" and "append_event True l kind payload who st = (l', res)"
  shows "durable path old n l'"
proof -
  let ?e = "make_event l kind payload who st"
  have "append_to_sink True (l\<lparr>lg_next_seq := lg_next_seq l + 1, lg_events := lg_events l @ [?e]\<rparr>) ?e
      = (case lg_sink_path l of
          None \<Rightarrow> (l\<lparr>lg_next_seq := lg_next_seq l + 1, lg_events := lg_events l @ [?e],
            lg_unbound_events := lg_unbound_events l @ [?e]\<rparr>, None)
        | Some q \<Rightarrow> (l\<lparr>lg_next_seq := lg_next_seq l + 1, lg_events := lg_events l @ [?e],
            lg_files := (lg_files l)(q := lg_files l q @ [?e])\<rparr>, None))"
    using assms(1) by (auto simp: append_to_sink_def write_sink_events_def durable_def split: option.splits)
  with assms show ?thesis
    by (auto simp: append_event_def Let_def durable_def split: option.splits)
qed

lemma batch_durable:
  assumes dur: "durable path old n l" and run: "batch_sink_writes True l body = (l', res)"
    and body: "\<And>l1 l2 r. body l1 = (l2, r) \<Longrightarrow> lg_batch_depth l1 \<noteq> 0 \<Longrightarrow> batched l1 l2"
  shows "durable path old n l'"
proof -
  obtain l1 r where b: "body (l\<lparr>lg_batch_depth := Suc (lg_batch_depth l)\<rparr>) = (l1, r)" by fastforce
  have bat: "batched (l\<lparr>lg_batch_depth := Suc (lg_batch_depth l)\<rparr>) l1" using body [OF b] by simp
  then obtain es where es: "lg_events l1 = lg_events l @ es" "lg_batch_depth l1 = 1"
    "lg_files l1 = lg_files l" "lg_sink_path l1 = lg_sink_path l"
    "if lg_sink_path l = None
     then lg_unbound_events l1 = lg_unbound_events l @ es \<and> lg_pending_sink_events l1 = []
     else lg_pending_sink_events l1 = es \<and> lg_unbound_events l1 = lg_unbound_events l"
    using dur by (auto simp: batched_def durable_def split: if_splits)
  have "l' = (if lg_sink_path l = None \<or> es = [] then l1\<lparr>lg_batch_depth := 0\<rparr>
      else l1\<lparr>lg_batch_depth := 0, lg_pending_sink_events := [],
        lg_files := (lg_files l)(the (lg_sink_path l) := lg_files l (the (lg_sink_path l)) @ es)\<rparr>)"
    using run es by (auto simp: batch_sink_writes_def b Let_def write_sink_events_def split: if_splits)
  with dur es show ?thesis
    by (auto simp: durable_def split: option.splits if_splits)
qed

fun healthy_op :: "string \<Rightarrow> ledger_op \<Rightarrow> bool" where
  "healthy_op path (Append_Event ok _ _ _ _) = ok"
| "healthy_op path (Append_Message ok _ _ _ _ _ _) = ok"
| "healthy_op path (Append_View ok _ _ _ _ _ _) = ok"
| "healthy_op path (Bind_Jsonl ok q) = (ok \<and> q = path)"
| "healthy_op path Unbind_Jsonl = False"
| "healthy_op path _ = True"

lemma message_body_batched:
  "append_message py_str ok l message source who metadata st1 st2 = (l', res) \<Longrightarrow> ok \<Longrightarrow>
    durable path old n l \<Longrightarrow> durable path old n l'"
  unfolding append_message_def Let_def
  by (rule batch_durable, assumption)
    (auto split: prod.splits sum.splits option.splits dest: append_batched intro: append_twice_batched)

lemma view_body_batched:
  "append_context_view ok l messages reason version checkpoint st1 st2 = (l', res) \<Longrightarrow> ok \<Longrightarrow>
    durable path old n l \<Longrightarrow> durable path old n l'"
  unfolding append_context_view_def
  by (rule batch_durable, assumption)
    (auto split: prod.splits sum.splits option.splits dest: append_batched intro: append_twice_batched)

lemma bind_durable:
  assumes "durable path old n l"
  shows "durable path old n (fst (bind_jsonl True l path))"
  using assms
  by (auto simp: bind_jsonl_def write_sink_events_def durable_def Let_def split: option.splits)

lemma ledger_step_durable:
  assumes "durable path old n l" and "healthy_op path x" and "ledger_step py_str l x = Inr l'"
  shows "durable path old n l'"
proof (cases x)
  case (Append_Event ok kind payload who st)
  with assms append_durable [OF assms(1) prod.collapse [symmetric]] show ?thesis by auto
next
  case (Append_Message ok message source who metadata st1 st2)
  with assms message_body_batched [OF prod.collapse [symmetric] _ assms(1)] show ?thesis by auto
next
  case (Append_View ok messages reason version checkpoint st1 st2)
  with assms view_body_batched [OF prod.collapse [symmetric] _ assms(1)] show ?thesis by auto
next
  case (Bind_Jsonl ok q)
  with assms bind_durable show ?thesis by auto
qed (use assms in \<open>auto simp: raise_floor_def advance_generation_def bind_context_def durable_def Let_def
    split: if_splits option.splits\<close>)

lemma ledger_run_durable:
  assumes "durable path old n l" and "list_all (healthy_op path) ops"
  shows "durable path old n (run_ops (ledger_step py_str) l ops)"
  using assms
proof (induction ops arbitrary: l)
  case Nil
  then show ?case by simp
next
  case (Cons x ops)
  then show ?case
    by (cases "ledger_step py_str l x") (auto dest: ledger_step_durable)
qed

section \<open>Properties\<close>

lemma foldl_max_ge: "(a::int) \<le> foldl max a xs" "x \<in> set xs \<Longrightarrow> x \<le> foldl max a xs"
proof -
  have ge: "(a::int) \<le> foldl max a xs" for a xs
    by (induction xs arbitrary: a) (auto intro: max.coboundedI1 order_trans [OF max.cobounded1])
  show "a \<le> foldl max a xs" by (rule ge)
  show "x \<le> foldl max a xs" if "x \<in> set xs"
    using that by (induction xs arbitrary: a) (auto intro: order_trans [OF max.cobounded2 ge])
qed

lemma greatest_seq_ge: "e \<in> set events \<Longrightarrow> he_seq e \<le> greatest_seq events"
  by (cases events) (auto simp: greatest_seq_def foldl_max_ge)

lemma new_ledger_inv:
  assumes "new_ledger events floor_seq gen sink sid aid files = Inr l"
    and "distinct (map he_seq events)"
  shows "ledger_inv l"
proof -
  have l: "lg_events l = sort_key he_seq events" "lg_batch_depth l = 0"
    "lg_next_seq l = max (greatest_seq events) floor_seq + 1"
    using assms(1) by (auto simp: new_ledger_def split: if_splits)
  have "distinct (map he_seq (sort_key he_seq events))"
    using assms(2) by (simp add: distinct_map)
  then have "sorted_wrt (<) (map he_seq (sort_key he_seq events))"
    by (simp add: strict_sorted_iff)
  then show ?thesis
    using greatest_seq_ge by (fastforce simp: ledger_inv_def l)
qed

definition ex_stamp :: "string \<Rightarrow> stamp" where
  "ex_stamp i = \<lparr>st_time = 0, st_event_id = i\<rparr>"

definition ex_ledger :: ledger where
  "ex_ledger = \<lparr>lg_events = [], lg_next_seq = 1, lg_generation = 0, lg_sink_path = None,
     lg_session_id = None, lg_agent_id = None, lg_batch_depth = 0, lg_pending_sink_events = [],
     lg_unbound_events = [], lg_files = (\<lambda>_. [])\<rparr>"

definition ex_ops :: "ledger_op list" where
  "ex_ops = [Append_Event True ''note'' JNull no_attribution (ex_stamp ''a''),
     Bind_Jsonl True ''events.jsonl'',
     Append_Message True [(''role'', JStr ''user''), (''content'', JStr ''hi'')] ''user'' no_attribution []
       (ex_stamp ''b'') (ex_stamp ''c'')]"

text \<open>C10: Over any run of ledger operations, failed writes included, history is append-only: the
  earlier events stay a prefix of the later ones, every new event has a sequence number not
  used before, and the sequence numbers of the whole history are strictly increasing and
  below the next one.\<close>

theorem history_append_only:
  assumes "new_ledger events floor_seq gen sink sid aid files = Inr l"
    and "distinct (map he_seq events)"
  shows "\<exists>es. lg_events (run_ops (ledger_step py_str) l ops) = lg_events l @ es \<and>
    (\<forall>e\<in>set es. lg_next_seq l \<le> he_seq e \<and> floor_seq < he_seq e) \<and>
    sorted_wrt (<) (map he_seq (lg_events l @ es)) \<and>
    (\<forall>e\<in>set (lg_events l @ es). he_seq e < lg_next_seq (run_ops (ledger_step py_str) l ops))"
proof -
  let ?l = "run_ops (ledger_step py_str) l ops"
  have inv: "ledger_inv l" by (rule new_ledger_inv [OF assms])
  have floor_le: "floor_seq < lg_next_seq l"
    using assms(1) by (auto simp: new_ledger_def split: if_splits)
  have "grows l ?l" by (rule ledger_machine.run_le [OF inv])
  then obtain es where es: "lg_events ?l = lg_events l @ es" "\<forall>e\<in>set es. lg_next_seq l \<le> he_seq e"
    by (auto simp: grows_def)
  have "ledger_inv ?l" by (rule ledger_machine.run_inv [OF inv])
  then have "sorted_wrt (<) (map he_seq (lg_events l @ es))"
    "\<forall>e\<in>set (lg_events l @ es). he_seq e < lg_next_seq ?l"
    unfolding ledger_inv_def es(1) by blast+
  then show ?thesis
    using floor_le es by (intro exI [of _ es] conjI) auto
qed

theorem history_append_only_witness:
  "\<exists>es. lg_events (run_ops (ledger_step (\<lambda>_. [])) ex_ledger ex_ops) = lg_events ex_ledger @ es \<and>
    sorted_wrt (<) (map he_seq (lg_events ex_ledger @ es))"
proof -
  have "new_ledger [] 0 0 None None None (\<lambda>_. []) = Inr ex_ledger"
    by (simp add: new_ledger_def greatest_seq_def ex_ledger_def)
  from history_append_only [OF this, of "\<lambda>_. []" ex_ops] show ?thesis by auto
qed

text \<open>The JSONL sink is the history: starting from a ledger with no sink and no backlog,
  after any operations whose writes succeed and that bind only this file, either the file
  holds exactly the events appended since the start, in order, or no sink is bound yet and
  all of them wait in the backlog for the first bind.\<close>

theorem sink_holds_history:
  assumes "lg_sink_path l = None" "lg_unbound_events l = []" "lg_pending_sink_events l = []"
    "lg_batch_depth l = 0" and "list_all (healthy_op path) ops"
  shows "let l' = run_ops (ledger_step py_str) l ops;
             new = drop (length (lg_events l)) (lg_events l')
    in (if lg_sink_path l' = Some path then lg_files l' path = lg_files l path @ new
        else lg_sink_path l' = None \<and> lg_unbound_events l' = new \<and> lg_files l' path = lg_files l path)"
proof -
  have "durable path (lg_files l path) (length (lg_events l)) l"
    using assms by (simp add: durable_def)
  from ledger_run_durable [OF this assms(5), of py_str] show ?thesis
    by (simp add: durable_def Let_def split: option.splits)
qed

theorem sink_holds_history_witness:
  "map he_event_id (lg_files (run_ops (ledger_step (\<lambda>_. [])) ex_ledger ex_ops) ''events.jsonl'')
     = [''a'', ''b'', ''c'']"
proof -
  have "map he_event_id (lg_events (run_ops (ledger_step (\<lambda>_. [])) ex_ledger ex_ops)) = [''a'', ''b'', ''c'']"
    "lg_sink_path (run_ops (ledger_step (\<lambda>_. [])) ex_ledger ex_ops) = Some ''events.jsonl''"
    by code_simp+
  then show ?thesis
    using sink_holds_history [of ex_ledger "''events.jsonl''" ex_ops "\<lambda>_. []"]
    by (simp add: ex_ledger_def ex_ops_def Let_def)
qed

text \<open>A failed first write loses nothing: when the backlog cannot be written, \<open>bind_jsonl\<close>
  raises, the previous sink stays bound, the backlog and the files are unchanged, and a later
  bind that succeeds writes the whole backlog once and empties it.\<close>

theorem failed_bind_keeps_backlog:
  assumes "lg_unbound_events l \<noteq> []"
  shows "snd (bind_jsonl False l path) \<noteq> None \<and> fst (bind_jsonl False l path) = l \<and>
    snd (bind_jsonl True (fst (bind_jsonl False l path)) path') = None \<and>
    lg_unbound_events (fst (bind_jsonl True (fst (bind_jsonl False l path)) path')) = [] \<and>
    lg_files (fst (bind_jsonl True (fst (bind_jsonl False l path)) path')) path'
      = lg_files l path' @ lg_unbound_events l"
  using assms by (simp add: bind_jsonl_def write_sink_events_def Let_def)

theorem failed_bind_keeps_backlog_witness:
  "map he_event_id (lg_files (fst (bind_jsonl True (fst (bind_jsonl False
     (fst (append_event True ex_ledger ''note'' JNull no_attribution (ex_stamp ''a''))) ''p'')) ''p'')) ''p'')
   = [''a'']"
proof -
  let ?l = "fst (append_event True ex_ledger ''note'' JNull no_attribution (ex_stamp ''a''))"
  have "lg_unbound_events ?l = [make_event ex_ledger ''note'' JNull no_attribution (ex_stamp ''a'')]"
    "lg_files ?l ''p'' = []"
    by (simp_all add: append_event_def append_to_sink_def ex_ledger_def Let_def)
  moreover from this have ne: "lg_unbound_events ?l \<noteq> []" by simp
  have "lg_files (fst (bind_jsonl True (fst (bind_jsonl False ?l ''p'')) ''p'')) ''p''
      = lg_files ?l ''p'' @ lg_unbound_events ?l"
    using failed_bind_keeps_backlog [OF ne, of "''p''" "''p''"] by blast
  ultimately show ?thesis by (simp add: make_event_def ex_stamp_def)
qed

end
