(* ===== verification/Goal.thy ===== *)
theory Goal
  imports History_Ledger
begin

text \<open>
  The session goal (\<^verbatim>\<open>domain/goal.py\<close>): one goal with a status and an optional token budget,
  committed to the history before the in-memory state changes. Clock readings, fresh ids and
  the outcome of the history write and of the publication are inputs of each operation. The
  lemmas show that an active goal is below its budget in every state the controller's operations reach
  from goals its own history recorded, that a completed goal stays completed, and that the goal is
  recovered from the history. That a restored goal is not checked is a finding.
\<close>

section \<open>Goals\<close>

datatype goal_status =
  Goal_Active | Goal_Paused | Goal_Blocked | Goal_Usage_Limited | Goal_Budget_Limited | Goal_Complete

fun goal_status_value :: "goal_status \<Rightarrow> string" where
  "goal_status_value Goal_Active = ''active''"
| "goal_status_value Goal_Paused = ''paused''"
| "goal_status_value Goal_Blocked = ''blocked''"
| "goal_status_value Goal_Usage_Limited = ''usage_limited''"
| "goal_status_value Goal_Budget_Limited = ''budget_limited''"
| "goal_status_value Goal_Complete = ''complete''"

definition parse_goal_status :: "string \<Rightarrow> goal_status option" where
  "parse_goal_status s = find (\<lambda>st. goal_status_value st = s)
     [Goal_Active, Goal_Paused, Goal_Blocked, Goal_Usage_Limited, Goal_Budget_Limited, Goal_Complete]"

record goal =
  go_id :: string
  go_objective :: string
  go_status :: goal_status
  go_token_budget :: "int option"
  go_tokens_used :: int
  go_estimated_requests :: int
  go_time_used_seconds :: real
  go_created_at :: real
  go_updated_at :: real

definition goal_to_dict :: "goal \<Rightarrow> json" where
  "goal_to_dict g = JObj
     [(''id'', JStr (go_id g)), (''objective'', JStr (go_objective g)),
      (''status'', JStr (goal_status_value (go_status g))),
      (''token_budget'', json_opt_int (go_token_budget g)), (''tokens_used'', JInt (go_tokens_used g)),
      (''estimated_requests'', JInt (go_estimated_requests g)),
      (''time_used_seconds'', JReal (go_time_used_seconds g)),
      (''created_at'', JReal (go_created_at g)), (''updated_at'', JReal (go_updated_at g))]"

text \<open>\<^verbatim>\<open>Goal(**snapshot)\<close> on a recorded goal; None when a field is missing or has another shape.\<close>

fun json_to_opt_int :: "json \<Rightarrow> int option option" where
  "json_to_opt_int JNull = Some None"
| "json_to_opt_int (JInt n) = Some (Some n)"
| "json_to_opt_int _ = None"

definition goal_of_dict :: "json \<Rightarrow> goal option" where
  "goal_of_dict j =
     (case (jget j ''id'', jget j ''objective'', jget j ''status'', json_to_opt_int (jget j ''token_budget''),
            jget j ''tokens_used'', jget j ''estimated_requests'', jget j ''time_used_seconds'',
            jget j ''created_at'', jget j ''updated_at'') of
        (JStr i, JStr ob, JStr st, Some budget, JInt used, JInt est, JReal tm, JReal cr, JReal up) \<Rightarrow>
          (case parse_goal_status st of
             None \<Rightarrow> None
           | Some status \<Rightarrow> Some \<lparr>go_id = i, go_objective = ob, go_status = status,
               go_token_budget = budget, go_tokens_used = used, go_estimated_requests = est,
               go_time_used_seconds = tm, go_created_at = cr, go_updated_at = up\<rparr>)
      | _ \<Rightarrow> None)"

definition validate_budget :: "int option \<Rightarrow> string option" where
  "validate_budget v = (case v of
     Some n \<Rightarrow> if n \<le> 0 then Some ''Token budget must be a positive integer or null (no limit)'' else None
   | None \<Rightarrow> None)"

definition clean_objective :: "string \<Rightarrow> (string, string) result" where
  "clean_objective text0 =
     (let text = strip text0
      in if text = [] \<or> length text > 4000
         then Inl ''Goal objective must contain 1-4000 characters'' else Inr text)"

section \<open>The controller\<close>

record goal_controller =
  gc_goal :: "goal option"
  gc_clock :: real
  gc_ledger :: ledger

text \<open>What an operation reads from outside: monotonic and wall clock, a fresh goal id, the
  stamp and outcome of the history write, and what publishing the snapshot raised.\<close>

record goal_env =
  ge_monotonic :: real
  ge_time :: real
  ge_uuid :: string
  ge_stamp :: stamp
  ge_write_ok :: bool
  ge_publish :: "py_exn option"

definition with_elapsed :: "real \<Rightarrow> goal_controller \<Rightarrow> goal option" where
  "with_elapsed clk gc =
     (case gc_goal gc of
        Some g \<Rightarrow> (if go_status g = Goal_Active
          then Some (g\<lparr>go_time_used_seconds := go_time_used_seconds g + clk - gc_clock gc\<rparr>) else Some g)
      | None \<Rightarrow> None)"

definition goal_payload :: "goal option \<Rightarrow> json" where
  "goal_payload g = JObj [(''goal'', case g of Some g \<Rightarrow> goal_to_dict g | None \<Rightarrow> JNull)]"

text \<open>The history write comes first; when it raises, the goal and its clock stay.\<close>

definition commit_goal ::
    "goal_env \<Rightarrow> goal_controller \<Rightarrow> goal option \<Rightarrow> goal_controller \<times> py_exn option" where
  "commit_goal env gc g =
     (case append_event (ge_write_ok env) (gc_ledger gc) ''goal_changed'' (goal_payload g)
             no_attribution (ge_stamp env) of
        (l, Inl e) \<Rightarrow> (gc\<lparr>gc_ledger := l\<rparr>, Some e)
      | (l, Inr _) \<Rightarrow> (gc\<lparr>gc_ledger := l, gc_goal := g, gc_clock := ge_monotonic env\<rparr>, None))"

datatype goal_error = Goal_Value_Error string | Goal_Raised py_exn

definition commit_and_publish ::
    "goal_env \<Rightarrow> goal_controller \<Rightarrow> goal option \<Rightarrow> 'a
      \<Rightarrow> goal_controller \<times> (goal_error, 'a) result" where
  "commit_and_publish env gc g res =
     (case commit_goal env gc g of
        (gc', Some e) \<Rightarrow> (gc', Inl (Goal_Raised e))
      | (gc', None) \<Rightarrow> (gc', case ge_publish env of Some e \<Rightarrow> Inl (Goal_Raised e) | None \<Rightarrow> Inr res))"

definition create_goal ::
    "goal_env \<Rightarrow> goal_controller \<Rightarrow> string \<Rightarrow> int option
      \<Rightarrow> goal_controller \<times> (goal_error, goal) result" where
  "create_goal env gc objective0 token_budget =
     (case clean_objective objective0 of
        Inl e \<Rightarrow> (gc, Inl (Goal_Value_Error e))
      | Inr objective \<Rightarrow>
          (case validate_budget token_budget of
             Some e \<Rightarrow> (gc, Inl (Goal_Value_Error e))
           | None \<Rightarrow>
               if (case gc_goal gc of Some g \<Rightarrow> go_status g \<noteq> Goal_Complete | None \<Rightarrow> False)
               then (gc, Inl (Goal_Value_Error
                 ''An unfinished goal exists; edit, resume or clear it first''))
               else
                 let g = \<lparr>go_id = ge_uuid env, go_objective = objective, go_status = Goal_Active,
                       go_token_budget = token_budget, go_tokens_used = 0, go_estimated_requests = 0,
                       go_time_used_seconds = 0, go_created_at = ge_time env,
                       go_updated_at = ge_time env\<rparr>
                 in commit_and_publish env gc (Some g) g))"

definition enforce_budget :: "goal \<Rightarrow> goal" where
  "enforce_budget g =
     (if go_status g = Goal_Active \<and>
         (case go_token_budget g of Some b \<Rightarrow> go_tokens_used g \<ge> b | None \<Rightarrow> False)
      then g\<lparr>go_status := Goal_Budget_Limited\<rparr> else g)"

definition update_goal ::
    "goal_env \<Rightarrow> goal_controller \<Rightarrow> string option \<Rightarrow> string option \<Rightarrow> int option \<Rightarrow> bool
      \<Rightarrow> (string \<times> string) option \<Rightarrow> goal_controller \<times> (goal_error, goal) result" where
  "update_goal env gc objective0 status0 token_budget change_budget expected_goal =
     (let fail = (\<lambda>e. (gc, Inl (Goal_Value_Error e)))
      in case (case objective0 of None \<Rightarrow> Inr None
                 | Some t \<Rightarrow> bind_result (clean_objective t) (\<lambda>t. Inr (Some t))) of
           Inl e \<Rightarrow> fail e
         | Inr objective \<Rightarrow>
             (case (case status0 of None \<Rightarrow> Inr None
                      | Some s \<Rightarrow> (case parse_goal_status s of
                          None \<Rightarrow> Inl ''Invalid goal status'' | Some st \<Rightarrow> Inr (Some st))) of
                Inl e \<Rightarrow> fail e
              | Inr status \<Rightarrow>
                  (case (if change_budget then validate_budget token_budget else None) of
                     Some e \<Rightarrow> fail e
                   | None \<Rightarrow>
                       (case with_elapsed (ge_monotonic env) gc of
                          None \<Rightarrow> fail ''No goal is set''
                        | Some g \<Rightarrow>
                            if expected_goal \<noteq> None \<and> expected_goal \<noteq> Some (go_id g, go_objective g)
                            then fail ''The goal changed since the model request; call get_goal and reassess it first''
                            else if go_status g = Goal_Complete \<and>
                              (objective \<noteq> None \<or> status \<notin> {None, Some Goal_Complete})
                            then fail ''Goal is complete; create a new goal''
                            else
                              let g' = enforce_budget (g\<lparr>
                                    go_objective := (case objective of Some t \<Rightarrow> t | None \<Rightarrow> go_objective g),
                                    go_status := (case status of Some st \<Rightarrow> st | None \<Rightarrow> go_status g),
                                    go_token_budget := (if change_budget then token_budget
                                      else go_token_budget g),
                                    go_updated_at := ge_time env\<rparr>)
                              in commit_and_publish env gc (Some g') g'))))"

definition stop_goal ::
    "goal_env \<Rightarrow> goal_controller \<Rightarrow> goal_status \<Rightarrow> goal_controller \<times> (goal_error, unit) result" where
  "stop_goal env gc status =
     (case with_elapsed (ge_monotonic env) gc of
        None \<Rightarrow> (gc, Inr ())
      | Some g \<Rightarrow>
          if go_status g \<noteq> Goal_Active then (gc, Inr ())
          else commit_and_publish env gc
            (Some (g\<lparr>go_status := status, go_updated_at := ge_time env\<rparr>)) ())"

definition clear_goal :: "goal_env \<Rightarrow> goal_controller \<Rightarrow> goal_controller \<times> (goal_error, unit) result" where
  "clear_goal env gc = commit_and_publish env gc None ()"

record goal_usage =
  us_input_tokens :: int
  us_cached_input_tokens :: "int option"
  us_output_tokens :: int
  us_estimated :: bool

definition usage_tokens :: "goal_usage \<Rightarrow> int" where
  "usage_tokens u = max 0 (us_input_tokens u - (case us_cached_input_tokens u of Some n \<Rightarrow> n | None \<Rightarrow> 0))
     + us_output_tokens u"

definition record_usage ::
    "goal_env \<Rightarrow> goal_controller \<Rightarrow> string \<Rightarrow> goal_usage \<Rightarrow> goal_controller \<times> (goal_error, unit) result" where
  "record_usage env gc goal_id usage =
     (case with_elapsed (ge_monotonic env) gc of
        None \<Rightarrow> (gc, Inr ())
      | Some g \<Rightarrow>
          if go_id g \<noteq> goal_id then (gc, Inr ())
          else
            let g' = enforce_budget (g\<lparr>go_tokens_used := go_tokens_used g + usage_tokens usage,
                  go_estimated_requests := go_estimated_requests g + (if us_estimated usage then 1 else 0),
                  go_updated_at := ge_time env\<rparr>)
            in commit_and_publish env gc (Some g') ())"

text \<open>The closure of \<open>turn_usage_recorder\<close>: its \<open>owner\<close> cell, and the goal id the returned
  callback records to.\<close>

definition capture_usage ::
    "real \<Rightarrow> goal_controller \<Rightarrow> string option \<Rightarrow> string option \<times> string option" where
  "capture_usage clk gc owner =
     (case with_elapsed clk gc of
        None \<Rightarrow> (owner, None)
      | Some g \<Rightarrow>
          let owner' = (if go_status g = Goal_Active then Some (go_id g) else owner)
          in (owner', if owner' = Some (go_id g) \<and>
                go_status g \<in> {Goal_Active, Goal_Budget_Limited, Goal_Complete}
              then Some (go_id g) else None))"

text \<open>\<open>restore\<close>: the newest reset or goal event decides; a snapshot of the same commit is kept,
  since it may carry more elapsed time. The outer None is a recorded goal that does not
  rebuild.\<close>

definition same_commit :: "goal \<Rightarrow> json \<Rightarrow> bool" where
  "same_commit g recorded \<longleftrightarrow> truthy recorded \<and> jget recorded ''id'' = JStr (go_id g) \<and>
     jget recorded ''updated_at'' = JReal (go_updated_at g)"

fun restored_goal :: "goal option \<Rightarrow> history_event list \<Rightarrow> goal option option" where
  "restored_goal snapshot [] = Some snapshot"
| "restored_goal snapshot (event # older) =
     (if he_kind event = ''runtime_reset'' then Some None
      else if he_kind event = ''goal_changed''
      then let recorded = jget (he_payload event) ''goal''
           in if (case snapshot of Some g \<Rightarrow> same_commit g recorded | None \<Rightarrow> False) then Some snapshot
              else if \<not> truthy recorded then Some None
              else (case goal_of_dict recorded of Some g \<Rightarrow> Some (Some g) | None \<Rightarrow> None)
      else restored_goal snapshot older)"

definition restore_goal ::
    "real \<Rightarrow> goal_controller \<Rightarrow> goal option \<Rightarrow> history_event list \<Rightarrow> goal_controller option" where
  "restore_goal clk gc snapshot events =
     (case restored_goal snapshot (rev events) of
        None \<Rightarrow> None
      | Some g \<Rightarrow> Some (gc\<lparr>gc_goal := g, gc_clock := clk\<rparr>))"


section \<open>Round trip\<close>

lemma parse_goal_status_value [simp]: "parse_goal_status (goal_status_value st) = Some st"
  by (cases st) (simp_all add: parse_goal_status_def)

lemma json_opt_int_back [simp]: "json_to_opt_int (json_opt_int b) = Some b"
  by (cases b) simp_all

lemma goal_of_to_dict [simp]: "goal_of_dict (goal_to_dict g) = Some g"
  by (simp add: goal_of_dict_def goal_to_dict_def)

lemma truthy_goal [simp]: "truthy (goal_to_dict g)"
  by (simp add: goal_to_dict_def)

section \<open>Invariant\<close>

definition goal_ok :: "goal \<Rightarrow> bool" where
  "goal_ok g \<longleftrightarrow> strip (go_objective g) = go_objective g \<and> go_objective g \<noteq> [] \<and>
     length (go_objective g) \<le> 4000 \<and>
     (case go_token_budget g of None \<Rightarrow> True
      | Some b \<Rightarrow> 0 < b \<and> (go_status g = Goal_Active \<longrightarrow> go_tokens_used g < b))"

definition goal_inv :: "goal_controller \<Rightarrow> bool" where
  "goal_inv gc \<longleftrightarrow> (case gc_goal gc of None \<Rightarrow> True | Some g \<Rightarrow> goal_ok g)"

lemma clean_objective_ok:
  "clean_objective t = Inr ob \<Longrightarrow> strip ob = ob \<and> ob \<noteq> [] \<and> length ob \<le> 4000"
  by (auto simp: clean_objective_def Let_def split: if_splits)

lemma validate_budget_ok: "validate_budget b = None \<longleftrightarrow> (\<forall>n. b = Some n \<longrightarrow> 0 < n)"
  by (auto simp: validate_budget_def split: option.splits)

lemma enforce_budget_ok:
  assumes "strip (go_objective g) = go_objective g" "go_objective g \<noteq> []"
    "length (go_objective g) \<le> 4000" "\<forall>n. go_token_budget g = Some n \<longrightarrow> 0 < n"
  shows "goal_ok (enforce_budget g)"
  using assms by (auto simp: goal_ok_def enforce_budget_def split: option.splits)

lemma enforce_budget_simps [simp]:
  "go_id (enforce_budget g) = go_id g" "go_tokens_used (enforce_budget g) = go_tokens_used g"
  "go_token_budget (enforce_budget g) = go_token_budget g"
  "go_objective (enforce_budget g) = go_objective g"
  "go_status (enforce_budget g) = Goal_Complete \<longleftrightarrow> go_status g = Goal_Complete"
  by (simp_all add: enforce_budget_def)

text \<open>A commit either leaves the goal as it was, or replaces it and is the newest goal event.\<close>

lemma commit_goal_cases:
  assumes "commit_goal env gc g = (gc', failure)"
  shows "failure \<noteq> None \<and> gc_goal gc' = gc_goal gc \<or> failure = None \<and> gc_goal gc' = g"
    and "ge_write_ok env \<Longrightarrow> failure = None"
    and "lg_events (gc_ledger gc') = lg_events (gc_ledger gc) @
      [make_event (gc_ledger gc) ''goal_changed'' (goal_payload g) no_attribution (ge_stamp env)]"
  using assms
  by (auto simp: commit_goal_def split: prod.splits sum.splits
      dest: append_event_ok append_event_frame(1))

lemma commit_and_publish_fst: "fst (commit_and_publish env gc g r) = fst (commit_goal env gc g)"
  by (simp add: commit_and_publish_def split: prod.splits option.splits)

lemma with_elapsed_Some:
  assumes "with_elapsed clk gc = Some g"
  obtains g0 where "gc_goal gc = Some g0" "go_id g = go_id g0" "go_status g = go_status g0"
    "go_objective g = go_objective g0" "go_token_budget g = go_token_budget g0"
    "go_tokens_used g = go_tokens_used g0" "go_updated_at g = go_updated_at g0"
  using assms by (auto simp: with_elapsed_def split: option.splits if_splits)

lemma with_elapsed_exists: "gc_goal gc = Some g \<Longrightarrow> \<exists>g1. with_elapsed clk gc = Some g1"
  by (simp add: with_elapsed_def)

lemma with_elapsed_ok: "goal_inv gc \<Longrightarrow> with_elapsed clk gc = Some g \<Longrightarrow> goal_ok g"
  by (erule with_elapsed_Some) (simp add: goal_inv_def goal_ok_def split: option.splits)

text \<open>Every operation either leaves the controller alone or commits one new goal; \<open>targets\<close> lists
  the commits an operation may make.\<close>

datatype goal_op =
    Create_Goal goal_env string "int option"
  | Update_Goal goal_env "string option" "string option" "int option" bool "(string \<times> string) option"
  | Stop_Goal goal_env goal_status
  | Clear_Goal goal_env
  | Record_Usage goal_env string goal_usage
  | Restore_Goal real "goal option" "history_event list"
  | Foreign_Event "bool \<times> attribution \<times> stamp" string json

fun goal_step :: "goal_controller \<Rightarrow> goal_op \<Rightarrow> (unit, goal_controller) result" where
  "goal_step gc (Create_Goal env ob b) = Inr (fst (create_goal env gc ob b))"
| "goal_step gc (Update_Goal env ob st b cb ex) = Inr (fst (update_goal env gc ob st b cb ex))"
| "goal_step gc (Stop_Goal env st) = Inr (fst (stop_goal env gc st))"
| "goal_step gc (Clear_Goal env) = Inr (fst (clear_goal env gc))"
| "goal_step gc (Record_Usage env i u) = Inr (fst (record_usage env gc i u))"
| "goal_step gc (Restore_Goal clk snapshot events) =
     (case restore_goal clk gc snapshot events of None \<Rightarrow> Inl () | Some gc' \<Rightarrow> Inr gc')"
| "goal_step gc (Foreign_Event x kind payload) =
     Inr (gc\<lparr>gc_ledger := ledger_record x (gc_ledger gc) kind payload\<rparr>)"

fun op_env :: "goal_op \<Rightarrow> goal_env option" where
  "op_env (Create_Goal env _ _) = Some env"
| "op_env (Update_Goal env _ _ _ _ _) = Some env"
| "op_env (Stop_Goal env _) = Some env"
| "op_env (Clear_Goal env) = Some env"
| "op_env (Record_Usage env _ _) = Some env"
| "op_env (Restore_Goal _ _ _) = None"
| "op_env (Foreign_Event _ _ _) = None"

definition is_restore :: "goal_op \<Rightarrow> bool" where
  "is_restore x \<longleftrightarrow> (\<exists>clk snapshot events. x = Restore_Goal clk snapshot events)"

lemma create_goal_shape:
  obtains "fst (create_goal env gc ob b) = gc"
  | g where "fst (create_goal env gc ob b) = fst (commit_goal env gc (Some g))" "goal_ok g"
      "case gc_goal gc of Some old \<Rightarrow> go_status old = Goal_Complete | None \<Rightarrow> True"
proof (cases "fst (create_goal env gc ob b) = gc")
  case False
  then obtain ob' where ob': "clean_objective ob = Inr ob'" and b: "validate_budget b = None"
    and old: "case gc_goal gc of Some old \<Rightarrow> go_status old = Goal_Complete | None \<Rightarrow> True"
    by (auto simp: create_goal_def split: sum.splits option.splits if_splits)
  let ?g = "\<lparr>go_id = ge_uuid env, go_objective = ob', go_status = Goal_Active,
    go_token_budget = b, go_tokens_used = 0, go_estimated_requests = 0,
    go_time_used_seconds = 0, go_created_at = ge_time env, go_updated_at = ge_time env\<rparr>"
  have "fst (create_goal env gc ob b) = fst (commit_goal env gc (Some ?g))"
    using ob' b old by (auto simp: create_goal_def commit_and_publish_fst Let_def split: option.splits)
  moreover have "goal_ok ?g"
    using clean_objective_ok [OF ob'] b by (auto simp: goal_ok_def validate_budget_ok split: option.splits)
  ultimately show ?thesis using that(2) old by blast
qed (use that in blast)

lemma update_goal_shape:
  assumes "goal_inv gc"
  obtains "fst (update_goal env gc ob st b cb ex) = gc"
  | g g' where "fst (update_goal env gc ob st b cb ex) = fst (commit_goal env gc (Some g'))"
      "gc_goal gc = Some g" "goal_ok g'" "go_id g' = go_id g" "go_tokens_used g' = go_tokens_used g"
      "go_status g = Goal_Complete \<Longrightarrow> go_status g' = Goal_Complete \<and> go_objective g' = go_objective g"
proof (cases "fst (update_goal env gc ob st b cb ex) = gc")
  case False
  let ?obj = "case ob of None \<Rightarrow> Inr None | Some t \<Rightarrow> bind_result (clean_objective t) (\<lambda>t. Inr (Some t))"
  let ?st = "case st of None \<Rightarrow> Inr None | Some s \<Rightarrow> (case parse_goal_status s of
      None \<Rightarrow> Inl ''Invalid goal status'' | Some st \<Rightarrow> Inr (Some st))"
  from False obtain obj where obj: "?obj = Inr obj"
    by (cases ?obj) (auto simp: update_goal_def Let_def)
  from False obj obtain status where status: "?st = Inr status"
    by (cases ?st) (auto simp: update_goal_def Let_def)
  from False obj status have bud: "(if cb then validate_budget b else None) = None"
    by (cases "if cb then validate_budget b else None") (auto simp: update_goal_def Let_def)
  from False obj status bud obtain g1 where g1: "with_elapsed (ge_monotonic env) gc = Some g1"
    by (cases "with_elapsed (ge_monotonic env) gc") (auto simp: update_goal_def Let_def)
  have ok1: "goal_ok g1" by (rule with_elapsed_ok [OF assms g1])
  let ?g = "g1\<lparr>go_objective := (case obj of Some t \<Rightarrow> t | None \<Rightarrow> go_objective g1),
     go_status := (case status of Some st \<Rightarrow> st | None \<Rightarrow> go_status g1),
     go_token_budget := (if cb then b else go_token_budget g1), go_updated_at := ge_time env\<rparr>"
  have guard: "go_status g1 = Goal_Complete \<Longrightarrow> obj = None \<and> status \<in> {None, Some Goal_Complete}"
    and run: "fst (update_goal env gc ob st b cb ex) = fst (commit_goal env gc (Some (enforce_budget ?g)))"
    using False obj status bud g1
    by (auto simp: update_goal_def Let_def commit_and_publish_fst split: if_splits)
  have "strip t = t \<and> t \<noteq> [] \<and> length t \<le> 4000" if "obj = Some t" for t
    using obj that clean_objective_ok by (auto split: option.splits)
  then have "goal_ok (enforce_budget ?g)"
    using ok1 bud by (intro enforce_budget_ok) (auto simp: goal_ok_def validate_budget_ok split: option.splits if_splits)
  moreover obtain g0 where "gc_goal gc = Some g0" "go_id g1 = go_id g0" "go_status g1 = go_status g0"
    "go_objective g1 = go_objective g0" "go_tokens_used g1 = go_tokens_used g0"
    using g1 by (rule with_elapsed_Some)
  ultimately show ?thesis
    using that(2) [OF run, of g0] guard by (auto split: option.splits)
qed (use that in blast)

lemma usage_goal_shape:
  assumes "goal_inv gc"
  obtains "fst (record_usage env gc i u) = gc"
  | g g' where "fst (record_usage env gc i u) = fst (commit_goal env gc (Some g'))"
      "gc_goal gc = Some g" "goal_ok g'" "go_id g' = i" "go_id g = i"
      "go_tokens_used g' = go_tokens_used g + usage_tokens u"
      "go_status g = Goal_Complete \<Longrightarrow> go_status g' = Goal_Complete"
proof (cases "fst (record_usage env gc i u) = gc")
  case False
  then obtain g1 where g1: "with_elapsed (ge_monotonic env) gc = Some g1" "go_id g1 = i"
    by (auto simp: record_usage_def split: option.splits if_splits)
  let ?g = "g1\<lparr>go_tokens_used := go_tokens_used g1 + usage_tokens u,
     go_estimated_requests := go_estimated_requests g1 + (if us_estimated u then 1 else 0),
     go_updated_at := ge_time env\<rparr>"
  have run: "fst (record_usage env gc i u) = fst (commit_goal env gc (Some (enforce_budget ?g)))"
    using g1 by (simp add: record_usage_def commit_and_publish_fst Let_def)
  have ok: "goal_ok (enforce_budget ?g)"
    using with_elapsed_ok [OF assms g1(1)] by (intro enforce_budget_ok) (auto simp: goal_ok_def)
  obtain g0 where g0: "gc_goal gc = Some g0" "go_id g1 = go_id g0" "go_status g1 = go_status g0"
    "go_tokens_used g1 = go_tokens_used g0"
    using g1(1) by (rule with_elapsed_Some)
  show ?thesis
    by (rule that(2) [OF run g0(1) ok]) (simp_all add: g0 g1(2) flip: g0(2))
qed (use that in blast)

lemma stop_goal_shape:
  assumes "goal_inv gc"
  obtains "fst (stop_goal env gc st) = gc"
  | g g' where "fst (stop_goal env gc st) = fst (commit_goal env gc (Some g'))"
      "gc_goal gc = Some g" "goal_ok g'" "go_status g = Goal_Active" "go_id g' = go_id g"
      "go_tokens_used g' = go_tokens_used g"
proof (cases "fst (stop_goal env gc st) = gc")
  case False
  then obtain g1 where g1: "with_elapsed (ge_monotonic env) gc = Some g1" "go_status g1 = Goal_Active"
    by (auto simp: stop_goal_def split: option.splits if_splits)
  let ?g = "g1\<lparr>go_status := st, go_updated_at := ge_time env\<rparr>"
  have "fst (stop_goal env gc st) = fst (commit_goal env gc (Some ?g))"
    using g1 by (simp add: stop_goal_def commit_and_publish_fst)
  moreover have "goal_ok ?g"
    using with_elapsed_ok [OF assms g1(1)] g1(2) by (auto simp: goal_ok_def split: option.splits)
  moreover obtain g0 where "gc_goal gc = Some g0" "go_id g1 = go_id g0" "go_status g1 = go_status g0"
    "go_tokens_used g1 = go_tokens_used g0"
    using g1(1) by (rule with_elapsed_Some)
  ultimately show ?thesis using that(2) [of ?g g0] g1(2) by simp
qed (use that in blast)

lemma commit_inv:
  assumes "goal_inv gc" and "\<And>g'. g = Some g' \<Longrightarrow> goal_ok g'"
  shows "goal_inv (fst (commit_goal env gc g))"
  using commit_goal_cases(1) [OF prod.collapse [symmetric], of env gc g] assms
  by (auto simp: goal_inv_def split: option.splits)

text \<open>The effect of any operation in one statement: unchanged goal and events, or one commit of
  a well-formed goal.\<close>

lemma goal_step_shape:
  assumes "goal_inv gc" and "\<not> is_restore x" and "goal_step gc x = Inr gc'"
  obtains "op_env x \<noteq> None" "gc' = gc"
  | env g where "op_env x = Some env" "gc' = fst (commit_goal env gc g)" "\<And>g'. g = Some g' \<Longrightarrow> goal_ok g'"
  | y kind payload where "x = Foreign_Event y kind payload"
      "gc' = gc\<lparr>gc_ledger := ledger_record y (gc_ledger gc) kind payload\<rparr>"
proof (cases x)
  case (Create_Goal env ob b)
  then show ?thesis
    using assms(3) that(1,2) by (cases rule: create_goal_shape [of env gc ob b]) auto
next
  case (Update_Goal env ob st b cb ex)
  then show ?thesis
    using assms(3) that(1,2) by (cases rule: update_goal_shape [OF assms(1), of env ob st b cb ex]) auto
next
  case (Stop_Goal env st)
  then show ?thesis
    using assms(3) that(1,2) by (cases rule: stop_goal_shape [OF assms(1), of env st]) auto
next
  case (Clear_Goal env)
  then show ?thesis using assms(3) that(2) [of env None] by (simp add: clear_goal_def commit_and_publish_fst)
next
  case (Record_Usage env i u)
  then show ?thesis
    using assms(3) that(1,2) by (cases rule: usage_goal_shape [OF assms(1), of env i u]) auto
next
  case (Restore_Goal clk snapshot events)
  with assms(2) show ?thesis by (simp add: is_restore_def)
next
  case (Foreign_Event y kind payload)
  then show ?thesis using assms(3) that(3) by simp
qed

lemma goal_step_inv: "goal_inv gc \<Longrightarrow> \<not> is_restore x \<Longrightarrow> goal_step gc x = Inr gc' \<Longrightarrow> goal_inv gc'"
proof -
  assume inv: "goal_inv gc" and "\<not> is_restore x" "goal_step gc x = Inr gc'"
  then show "goal_inv gc'"
  proof (cases rule: goal_step_shape)
    case (2 env g)
    with commit_inv [OF inv] show ?thesis by blast
  qed (use inv in \<open>simp_all add: goal_inv_def\<close>)
qed

text \<open>
  A restore takes what it is given: \<^verbatim>\<open>Goal(**snapshot)\<close> validates nothing. What a session is restored from was
  written by a controller, though perhaps not the same one, and snapshot and history may be of different
  times. A controller's possible states are closed accordingly: snapshots are states of any possible
  controller, with the time elapsed when they were taken, the events are any of any possible
  controller's history, and a restored session continues the history it was restored from.
  Only the controller writes events of its kind.
\<close>

definition fresh_goal_controller :: "ledger \<Rightarrow> real \<Rightarrow> goal_controller" where
  "fresh_goal_controller l clk = \<lparr>gc_goal = None, gc_clock = clk, gc_ledger = l\<rparr>"

fun own_op :: "goal_op \<Rightarrow> bool" where
  "own_op (Restore_Goal _ _ _) = False"
| "own_op (Foreign_Event _ kind _) = (kind \<noteq> ''goal_changed'')"
| "own_op _ = True"

inductive goal_reachable :: "goal_controller \<Rightarrow> bool" where
  started: "\<forall>e\<in>set (lg_events l). he_kind e \<noteq> ''goal_changed'' \<Longrightarrow> goal_reachable (fresh_goal_controller l clk)"
| stepped: "goal_reachable gc \<Longrightarrow> own_op x \<Longrightarrow> goal_step gc x = Inr gc' \<Longrightarrow> goal_reachable gc'"
| restored: "goal_reachable gc \<Longrightarrow> goal_reachable a \<Longrightarrow> goal_reachable b \<Longrightarrow>
    set events \<subseteq> set (lg_events (gc_ledger b)) \<Longrightarrow>
    goal_step gc (Restore_Goal clk (with_elapsed now a) events) = Inr gc' \<Longrightarrow> goal_reachable gc'"
| continued: "goal_reachable gc \<Longrightarrow> goal_reachable b \<Longrightarrow> goal_reachable (gc\<lparr>gc_ledger := gc_ledger b\<rparr>)"

text \<open>The invariant of these states: the goal and every goal in the history are well-formed.\<close>

definition event_ok :: "history_event \<Rightarrow> bool" where
  "event_ok e \<longleftrightarrow> (he_kind e = ''goal_changed'' \<longrightarrow>
     (let j = jget (he_payload e) ''goal'' in \<not> truthy j \<or> (\<exists>g. goal_of_dict j = Some g \<and> goal_ok g)))"

definition history_ok :: "goal_controller \<Rightarrow> bool" where
  "history_ok gc \<longleftrightarrow> goal_inv gc \<and> (\<forall>e\<in>set (lg_events (gc_ledger gc)). event_ok e)"

lemma goal_payload_ok:
  "(\<And>g'. g = Some g' \<Longrightarrow> goal_ok g') \<Longrightarrow> event_ok (make_event l ''goal_changed'' (goal_payload g) who st)"
  by (cases g) (simp_all add: event_ok_def make_event_def goal_payload_def Let_def)

lemma own_step_ok:
  assumes "history_ok gc" "own_op x" "goal_step gc x = Inr gc'"
  shows "history_ok gc'"
proof -
  have i: "goal_inv gc" and r: "\<not> is_restore x" using assms(1,2) by (auto simp: history_ok_def is_restore_def)
  have "event_ok e" if "e \<in> set (lg_events (gc_ledger gc'))" for e
    using i r assms(3)
  proof (cases rule: goal_step_shape)
    case 1
    with that assms(1) show ?thesis by (simp add: history_ok_def)
  next
    case (2 env g)
    obtain gc1 failure where c: "commit_goal env gc g = (gc1, failure)" by fastforce
    with 2 that assms(1) commit_goal_cases(3) [OF c] goal_payload_ok [OF 2(3)] show ?thesis
      by (auto simp: history_ok_def)
  next
    case (3 y kind payload)
    with that assms(1,2) show ?thesis
      by (cases y) (auto simp: history_ok_def ledger_record_def append_event_fst(1) make_event_def event_ok_def)
  qed
  with goal_step_inv [OF i r assms(3)] show ?thesis by (simp add: history_ok_def)
qed

lemma restored_goal_ok:
  assumes "\<forall>e\<in>set events. event_ok e" "\<And>g. snapshot = Some g \<Longrightarrow> goal_ok g"
    and "restored_goal snapshot events = Some (Some g)"
  shows "goal_ok g"
  using assms
proof (induction snapshot events rule: restored_goal.induct)
  case (2 snapshot event older)
  show ?case
  proof (cases "he_kind event = ''goal_changed''")
    case True
    with 2(2-4) show ?thesis
      by (cases "goal_of_dict (jget (he_payload event) ''goal'')") (auto simp: event_ok_def Let_def split: if_splits)
  next
    case False
    with 2 show ?thesis by (auto split: if_splits)
  qed
qed simp

lemma goal_reachable_ok: "goal_reachable gc \<Longrightarrow> history_ok gc"
proof (induction rule: goal_reachable.induct)
  case (started l clk)
  then show ?case by (simp add: history_ok_def fresh_goal_controller_def goal_inv_def event_ok_def)
next
  case (stepped gc x gc')
  then show ?case using own_step_ok by blast
next
  case (restored gc a b events clk now gc')
  have "goal_inv a" "\<forall>e\<in>set (rev events). event_ok e" using restored by (auto simp: history_ok_def)
  with restored show ?case
    using restored_goal_ok [of "rev events" "with_elapsed now a"] with_elapsed_ok [of a now]
    by (auto simp: history_ok_def restore_goal_def goal_inv_def split: option.splits)
next
  case (continued gc b)
  then show ?case by (simp add: history_ok_def goal_inv_def)
qed

section \<open>Recovery\<close>

definition synced :: "goal_controller \<Rightarrow> bool" where
  "synced gc \<longleftrightarrow> restored_goal None (rev (lg_events (gc_ledger gc))) = Some (gc_goal gc)"

fun quiet_op :: "goal_op \<Rightarrow> bool" where
  "quiet_op (Foreign_Event _ kind _) = (kind \<notin> {''goal_changed'', ''runtime_reset''})"
| "quiet_op (Restore_Goal _ _ _) = False"
| "quiet_op x = (case op_env x of Some env \<Rightarrow> ge_write_ok env | None \<Rightarrow> True)"

lemma quiet_op_env: "quiet_op x \<Longrightarrow> op_env x = Some env \<Longrightarrow> ge_write_ok env"
  by (cases x) auto

lemma quiet_not_restore: "quiet_op x \<Longrightarrow> \<not> is_restore x"
  by (auto simp: is_restore_def)

lemma commit_synced:
  assumes "ge_write_ok env"
  shows "synced (fst (commit_goal env gc g))"
proof -
  obtain gc' failure where c: "commit_goal env gc g = (gc', failure)" by fastforce
  have "gc_goal gc' = g" using commit_goal_cases(1,2) [OF c] assms by blast
  then show ?thesis
    using commit_goal_cases(3) [OF c]
    by (auto simp: synced_def c make_event_def goal_payload_def Let_def split: option.splits)
qed

lemma goal_step_synced:
  assumes "goal_inv gc" "synced gc" "quiet_op x" "goal_step gc x = Inr gc'"
  shows "synced gc'"
  using assms(1) quiet_not_restore [OF assms(3)] assms(4)
proof (cases rule: goal_step_shape)
  case 1
  with assms show ?thesis by simp
next
  case (2 env g)
  with quiet_op_env [OF assms(3)] commit_synced show ?thesis by auto
next
  case (3 y kind payload)
  with assms(2,3) show ?thesis
    by (cases y) (simp add: synced_def ledger_record_def append_event_fst(1) make_event_def)
qed

lemma goal_run_synced:
  assumes "goal_inv gc" "synced gc" "list_all quiet_op ops"
  shows "synced (run_ops goal_step gc ops)"
  using assms
proof (induction ops arbitrary: gc)
  case Nil
  then show ?case by simp
next
  case (Cons x ops)
  then show ?case
    by (cases "goal_step gc x") (auto dest: goal_step_synced goal_step_inv quiet_not_restore)
qed

section \<open>Properties\<close>

definition ex_env :: "string \<Rightarrow> goal_env" where
  "ex_env i = \<lparr>ge_monotonic = 0, ge_time = 0, ge_uuid = i, ge_stamp = ex_stamp i, ge_write_ok = True,
     ge_publish = None\<rparr>"

definition ex_usage :: goal_usage where
  "ex_usage = \<lparr>us_input_tokens = 70, us_cached_input_tokens = Some 20, us_output_tokens = 60,
     us_estimated = False\<rparr>"

definition ex_goal_ops :: "goal_op list" where
  "ex_goal_ops = [Create_Goal (ex_env ''g'') '' port the parser '' (Some 100),
     Foreign_Event (True, no_attribution, ex_stamp ''n'') ''note'' JNull,
     Record_Usage (ex_env ''u'') ''g'' ex_usage]"

text \<open>C9: The budget is enforced at every commit: in every state a controller can reach by its operations,
  failed history writes included, and by restoring snapshots and histories that controllers
  have written, an active goal has used strictly fewer tokens than its budget, the budget is positive,
  and the objective is non-blank stripped text of at most 4000 characters.\<close>

theorem active_goal_below_budget:
  assumes "goal_reachable gc" and "gc_goal gc = Some g"
  shows "go_objective g \<noteq> [] \<and> strip (go_objective g) = go_objective g \<and>
    length (go_objective g) \<le> 4000 \<and>
    (\<forall>b. go_token_budget g = Some b \<longrightarrow> 0 < b \<and> (go_status g = Goal_Active \<longrightarrow> go_tokens_used g < b))"
  using goal_reachable_ok [OF assms(1)] assms(2) by (auto simp: history_ok_def goal_inv_def goal_ok_def)

lemma goal_run_reachable: "goal_reachable gc \<Longrightarrow> list_all own_op ops \<Longrightarrow> goal_reachable (run_ops goal_step gc ops)"
proof (induction ops arbitrary: gc)
  case (Cons x ops)
  then show ?case by (cases "goal_step gc x") (auto intro: goal_reachable.stepped)
qed simp

lemma ex_goal_reachable: "goal_reachable (run_ops goal_step (fresh_goal_controller ex_ledger 0) ex_goal_ops)"
proof (rule goal_run_reachable [OF goal_reachable.started])
  show "\<forall>e\<in>set (lg_events ex_ledger). he_kind e \<noteq> ''goal_changed''" by (simp add: ex_ledger_def)
  show "list_all own_op ex_goal_ops" by (simp add: ex_goal_ops_def)
qed

text \<open>A second controller restores the snapshot and the history of the first.\<close>

definition ex_restored :: "goal_controller option" where
  "ex_restored = (let gc = run_ops goal_step (fresh_goal_controller ex_ledger 0) ex_goal_ops
     in restore_goal 5 (fresh_goal_controller ex_ledger 3) (with_elapsed 4 gc) (lg_events (gc_ledger gc)))"

lemma ex_goal_run:
  "map_option (\<lambda>gc. map_option (\<lambda>g. (go_objective g, go_status g, go_tokens_used g)) (gc_goal gc)) ex_restored
   = Some (Some (''port the parser'', Goal_Budget_Limited, 110))"
  by code_simp

theorem active_goal_below_budget_witness:
  "\<exists>gc g. ex_restored = Some gc \<and> gc_goal gc = Some g \<and>
    strip (go_objective g) = go_objective g \<and> go_status g = Goal_Budget_Limited"
proof -
  from ex_goal_run obtain gc g where g: "ex_restored = Some gc" "gc_goal gc = Some g" "go_status g = Goal_Budget_Limited"
    by (cases ex_restored) (auto simp: map_option_case split: option.splits)
  have "goal_reachable gc"
  proof (rule goal_reachable.restored [OF goal_reachable.started ex_goal_reachable ex_goal_reachable subset_refl])
    show "\<forall>e\<in>set (lg_events ex_ledger). he_kind e \<noteq> ''goal_changed''" by (simp add: ex_ledger_def)
    show "goal_step (fresh_goal_controller ex_ledger 3) (Restore_Goal 5
        (with_elapsed 4 (run_ops goal_step (fresh_goal_controller ex_ledger 0) ex_goal_ops))
        (lg_events (gc_ledger (run_ops goal_step (fresh_goal_controller ex_ledger 0) ex_goal_ops)))) = Inr gc"
      using g(1) by (simp add: ex_restored_def Let_def)
  qed
  from active_goal_below_budget [OF this g(2)] g show ?thesis by blast
qed

text \<open>Nothing else protects a restore: a snapshot that says active with its budget overspent is taken as it is.\<close>

definition overspent_goal :: goal where
  "overspent_goal = \<lparr>go_id = ''g'', go_objective = ''port the parser'', go_status = Goal_Active,
     go_token_budget = Some 100, go_tokens_used = 150, go_estimated_requests = 0,
     go_time_used_seconds = 0, go_created_at = 0, go_updated_at = 0\<rparr>"

theorem restore_takes_overspent_goal:
  "restore_goal clk gc (Some overspent_goal) [] = Some (gc\<lparr>gc_goal := Some overspent_goal, gc_clock := clk\<rparr>)"
  by (simp add: restore_goal_def)

text \<open>The goal survives a restart: after any goal operations whose history writes succeed,
  interleaved with other components' events, replaying the history restores exactly the
  goal the controller held (to the last committed state), whether or not an older snapshot
  is at hand; a snapshot of the same commit is kept, with its longer elapsed time.\<close>

theorem goal_recovered_from_history:
  assumes "list_all quiet_op ops"
    and "gc = run_ops goal_step (fresh_goal_controller l clk) ops"
    and "restored_goal None (rev (lg_events l)) = Some None"
  shows "restored_goal None (rev (lg_events (gc_ledger gc))) = Some (gc_goal gc) \<and>
    (\<forall>s. \<exists>g. restored_goal (Some s) (rev (lg_events (gc_ledger gc))) = Some g \<and>
       (g = gc_goal gc \<or> g = Some s \<and>
         (gc_goal gc = None \<or> (\<exists>c. gc_goal gc = Some c \<and> go_id c = go_id s \<and>
            go_updated_at c = go_updated_at s))))"
proof -
  have "synced (fresh_goal_controller l clk)" "goal_inv (fresh_goal_controller l clk)"
    using assms(3) by (simp_all add: fresh_goal_controller_def synced_def goal_inv_def)
  then have sync: "restored_goal None (rev (lg_events (gc_ledger gc))) = Some (gc_goal gc)"
    using goal_run_synced assms(1,2) by (simp add: synced_def)
  have "\<exists>g. restored_goal (Some s) evs = Some g \<and> (g = cur \<or> g = Some s \<and>
      (cur = None \<or> (\<exists>c. cur = Some c \<and> go_id c = go_id s \<and> go_updated_at c = go_updated_at s)))"
    if "restored_goal None evs = Some cur" for s cur evs
    using that
  proof (induction evs)
    case Nil
    then show ?case by simp
  next
    case (Cons event older)
    show ?case
    proof (cases "he_kind event = ''goal_changed''")
      case True
      have same: "go_id c = go_id s \<and> go_updated_at c = go_updated_at s"
        if "same_commit s j" "goal_of_dict j = Some c" for j c
        using that by (auto simp: same_commit_def goal_of_dict_def split: json.splits option.splits)
      let ?j = "jget (he_payload event) ''goal''"
      have cur: "if truthy ?j then \<exists>c. goal_of_dict ?j = Some c \<and> cur = Some c else cur = None"
        using Cons.prems True
        by (cases "goal_of_dict ?j") (auto simp: Let_def split: if_splits)
      show ?thesis
      proof (cases "same_commit s ?j")
        case hit: True
        with cur same [OF hit] True show ?thesis by (auto simp: same_commit_def Let_def)
      next
        case False
        with cur True show ?thesis by (auto simp: Let_def split: if_splits)
      qed
    next
      case False
      with Cons show ?thesis by (auto split: if_splits)
    qed
  qed
  with sync show ?thesis by blast
qed

theorem goal_recovered_from_history_witness:
  "restored_goal None (rev (lg_events (gc_ledger
     (run_ops goal_step (fresh_goal_controller ex_ledger 0) ex_goal_ops))))
   = Some (gc_goal (run_ops goal_step (fresh_goal_controller ex_ledger 0) ex_goal_ops))"
proof -
  have "list_all quiet_op ex_goal_ops" by code_simp
  from goal_recovered_from_history [OF this refl, of ex_ledger 0] show ?thesis
    by (simp add: ex_ledger_def)
qed

text \<open>Usage is charged once and to the right goal: recording usage for the current goal adds
  exactly the uncached input plus the output tokens and leaves it active only below its
  budget; usage for any other goal id changes nothing. A completed goal stays completed.\<close>

theorem usage_charged_to_goal:
  assumes "gc_goal gc = Some g" and "ge_write_ok env"
  shows "(go_id g \<noteq> i \<longrightarrow> record_usage env gc i u = (gc, Inr ())) \<and>
    (go_id g = i \<longrightarrow> (\<exists>g'. gc_goal (fst (record_usage env gc i u)) = Some g' \<and> go_id g' = i \<and>
       go_tokens_used g' = go_tokens_used g + usage_tokens u \<and>
       (go_status g' = Goal_Active \<longleftrightarrow> go_status g = Goal_Active \<and>
          (\<forall>b. go_token_budget g = Some b \<longrightarrow> go_tokens_used g + usage_tokens u < b)) \<and>
       (go_status g' = Goal_Complete \<longleftrightarrow> go_status g = Goal_Complete)))"
proof -
  obtain g1 where g1: "with_elapsed (ge_monotonic env) gc = Some g1"
    using with_elapsed_exists [OF assms(1)] by blast
  then have g: "go_id g1 = go_id g" "go_status g1 = go_status g" "go_tokens_used g1 = go_tokens_used g"
    "go_token_budget g1 = go_token_budget g"
    using assms(1) by (auto elim: with_elapsed_Some)
  have fin: "gc_goal (fst (commit_goal env gc x)) = x" for x
    using commit_goal_cases(1,2) [OF prod.collapse [symmetric], of env gc x] assms(2) by auto
  show ?thesis
    using g by (auto simp: record_usage_def g1 Let_def commit_and_publish_fst fin enforce_budget_def
        split: option.splits)
qed

theorem usage_charged_to_goal_witness:
  "\<exists>g g'. gc_goal (run_ops goal_step (fresh_goal_controller ex_ledger 0) (take 2 ex_goal_ops)) = Some g \<and>
    gc_goal (fst (record_usage (ex_env ''u'')
      (run_ops goal_step (fresh_goal_controller ex_ledger 0) (take 2 ex_goal_ops)) ''g'' ex_usage)) = Some g' \<and>
    go_tokens_used g' = go_tokens_used g + usage_tokens ex_usage"
proof -
  let ?gc = "run_ops goal_step (fresh_goal_controller ex_ledger 0) (take 2 ex_goal_ops)"
  have "map_option go_id (gc_goal ?gc) = Some ''g''" by code_simp
  then obtain g where g: "gc_goal ?gc = Some g" "go_id g = ''g''" by auto
  from usage_charged_to_goal [OF g(1), of "ex_env ''u''" "''g''" ex_usage] g show ?thesis
    by (auto simp: ex_env_def)
qed

text \<open>Completion is final: no update of a completed goal changes its objective or its status,
  and a request that expects another goal than the current one is refused without any
  change.\<close>

theorem completed_goal_is_final:
  assumes "goal_inv gc" and "gc_goal gc = Some g"
  shows "(go_status g = Goal_Complete \<longrightarrow>
      (\<exists>g'. gc_goal (fst (update_goal env gc ob st b cb ex)) = Some g' \<and>
         go_status g' = Goal_Complete \<and> go_objective g' = go_objective g \<and> go_id g' = go_id g)) \<and>
    (\<forall>expected. expected \<noteq> (go_id g, go_objective g) \<longrightarrow>
       fst (update_goal env gc ob st b cb (Some expected)) = gc \<and>
       (\<exists>e. snd (update_goal env gc ob st b cb (Some expected)) = Inl (Goal_Value_Error e)))"
proof (intro conjI impI allI)
  assume complete: "go_status g = Goal_Complete"
  show "\<exists>g'. gc_goal (fst (update_goal env gc ob st b cb ex)) = Some g' \<and>
      go_status g' = Goal_Complete \<and> go_objective g' = go_objective g \<and> go_id g' = go_id g"
  proof (cases rule: update_goal_shape [OF assms(1), of env ob st b cb ex])
    case 1
    with assms(2) complete show ?thesis by simp
  next
    case (2 h g')
    then have "gc_goal (fst (commit_goal env gc (Some g'))) \<in> {Some g, Some g'}"
      using commit_goal_cases(1) [OF prod.collapse [symmetric], of env gc "Some g'"] assms(2) by auto
    with 2 assms(2) complete show ?thesis by auto
  qed
next
  fix expected :: "string \<times> string"
  assume other: "expected \<noteq> (go_id g, go_objective g)"
  obtain g1 where g1: "with_elapsed (ge_monotonic env) gc = Some g1"
    using with_elapsed_exists [OF assms(2)] by blast
  then have "go_id g1 = go_id g" "go_objective g1 = go_objective g"
    using assms(2) by (auto elim: with_elapsed_Some)
  with other g1 show "fst (update_goal env gc ob st b cb (Some expected)) = gc"
    and "\<exists>e. snd (update_goal env gc ob st b cb (Some expected)) = Inl (Goal_Value_Error e)"
    by (auto simp: update_goal_def Let_def split: sum.splits option.splits)
qed

theorem completed_goal_is_final_witness:
  "\<exists>g. gc_goal (run_ops goal_step (fresh_goal_controller ex_ledger 0) ex_goal_ops) = Some g \<and>
    fst (update_goal (ex_env ''x'') (run_ops goal_step (fresh_goal_controller ex_ledger 0) ex_goal_ops)
      None (Some ''active'') None False (Some (''other'', ''goal'')))
    = run_ops goal_step (fresh_goal_controller ex_ledger 0) ex_goal_ops"
proof -
  let ?gc = "run_ops goal_step (fresh_goal_controller ex_ledger 0) ex_goal_ops"
  have inv: "goal_inv ?gc" using goal_reachable_ok [OF ex_goal_reachable] by (simp add: history_ok_def)
  have "map_option go_id (gc_goal ?gc) = Some ''g''" by code_simp
  then obtain g where g: "gc_goal ?gc = Some g" "go_id g = ''g''" by auto
  from completed_goal_is_final [OF inv g(1), of "ex_env ''x''" None "Some ''active''" None False] g
  show ?thesis by auto
qed

end
