(* ===== verification/Plan.thy ===== *)
theory Plan
  imports History_Ledger
begin

text \<open>
  The execution checklist and progress report of an agent (\<^verbatim>\<open>domain/plan.py\<close>): validated plan
  items, commits that are idempotent per tool call, and recovery of the whole controller
  from the history. Tool-call arguments are JSON; \<open>py_str\<close> is Python's \<^verbatim>\<open>str()\<close> on values that
  are not text. The lemmas show what a validated plan is, that validation is a projection,
  that a repeated tool call is not committed twice, and when recovery rebuilds the same
  controller.
\<close>

section \<open>JSON text of the plan\<close>

definition hex_digit :: "nat \<Rightarrow> char" where
  "hex_digit n = ''0123456789abcdef'' ! (n mod 16)"

definition is_control_char :: "char \<Rightarrow> bool" where
  "is_control_char c \<longleftrightarrow> of_char c < (32::nat)"

lemma is_control_char_code [code]:
  "is_control_char (Char b0 b1 b2 b3 b4 b5 b6 b7) \<longleftrightarrow> \<not> b5 \<and> \<not> b6 \<and> \<not> b7"
  by (cases b5; cases b6; cases b7) (simp_all add: is_control_char_def of_char_def)

fun json_quote_char :: "char \<Rightarrow> string" where
  "json_quote_char c =
     (if c = CHR 0x22 then [CHR 0x5C, CHR 0x22]
      else if c = CHR 0x5C then [CHR 0x5C, CHR 0x5C]
      else if c = CHR 0x0A then [CHR 0x5C, CHR ''n'']
      else if c = CHR 0x0D then [CHR 0x5C, CHR ''r'']
      else if c = CHR 0x09 then [CHR 0x5C, CHR ''t'']
      else if c = CHR 0x0C then [CHR 0x5C, CHR ''f'']
      else if c = CHR 0x08 then [CHR 0x5C, CHR ''b'']
      else if is_control_char c
      then [CHR 0x5C, CHR ''u'', CHR ''0'', CHR ''0'', hex_digit (of_char c div 16), hex_digit (of_char c)]
      else [c])"

definition json_quote :: "string \<Rightarrow> string" where
  "json_quote s = [CHR 0x22] @ concat (map json_quote_char s) @ [CHR 0x22]"

definition json_pair :: "string \<Rightarrow> string \<Rightarrow> string" where
  "json_pair k v = json_quote k @ '':'' @ v"

definition json_quote_opt :: "string option \<Rightarrow> string" where
  "json_quote_opt v = (case v of Some s \<Rightarrow> json_quote s | None \<Rightarrow> ''null'')"

section \<open>Plan items\<close>

datatype plan_status = Plan_Pending | Plan_In_Progress | Plan_Completed

fun plan_status_value :: "plan_status \<Rightarrow> string" where
  "plan_status_value Plan_Pending = ''pending''"
| "plan_status_value Plan_In_Progress = ''in_progress''"
| "plan_status_value Plan_Completed = ''completed''"

definition parse_plan_status :: "string \<Rightarrow> plan_status option" where
  "parse_plan_status s =
     find (\<lambda>st. plan_status_value st = s) [Plan_Pending, Plan_In_Progress, Plan_Completed]"

record plan_item =
  pi_step :: string
  pi_active_form :: string
  pi_status :: plan_status

definition item_dict :: "plan_item \<Rightarrow> json" where
  "item_dict it = JObj [(''step'', JStr (pi_step it)), (''active_form'', JStr (pi_active_form it)),
     (''status'', JStr (plan_status_value (pi_status it)))]"

datatype plan_error =
    Plan_Too_Many_Items
  | Plan_Not_An_Object nat
  | Plan_Bad_Step nat
  | Plan_Bad_Active_Form nat
  | Plan_Bad_Status nat
  | Plan_Many_Active
  | Plan_Too_Long
  | Plan_Different_Data
  | Plan_Generation_Changed
  | Plan_Bad_Phase
  | Plan_Bad_Summary
  | Plan_Bad_Revision
  | Plan_Write_Failed py_exn

definition max_items :: nat where "max_items = 20"
definition max_item_chars :: nat where "max_item_chars = 240"
definition max_serialized_chars :: nat where "max_serialized_chars = 5000"

definition validate_item :: "(json \<Rightarrow> string) \<Rightarrow> nat \<Rightarrow> json \<Rightarrow> (plan_error, plan_item) result" where
  "validate_item py_str index raw =
     (case raw of
        JObj _ \<Rightarrow>
          (let step = strip (content_text py_str (jget raw ''step''));
               form = jget raw ''active_form'';
               active_form = strip (if truthy form then content_text py_str form else step);
               status = content_text py_str (jget raw ''status'')
           in if step = [] \<or> length step > max_item_chars then Inl (Plan_Bad_Step index)
              else if active_form = [] \<or> length active_form > max_item_chars
              then Inl (Plan_Bad_Active_Form index)
              else (case parse_plan_status status of
                  None \<Rightarrow> Inl (Plan_Bad_Status index)
                | Some st \<Rightarrow> Inr \<lparr>pi_step = step, pi_active_form = active_form, pi_status = st\<rparr>))
      | _ \<Rightarrow> Inl (Plan_Not_An_Object index))"

fun validate_from :: "(json \<Rightarrow> string) \<Rightarrow> nat \<Rightarrow> json list \<Rightarrow> (plan_error, plan_item list) result" where
  "validate_from py_str index [] = Inr []"
| "validate_from py_str index (raw # raws) =
     bind_result (validate_item py_str index raw) (\<lambda>it.
       bind_result (validate_from py_str (Suc index) raws) (\<lambda>its. Inr (it # its)))"

text \<open>\<^verbatim>\<open>json.dumps\<close> of the items with compact separators.\<close>

definition dumps_item :: "plan_item \<Rightarrow> string" where
  "dumps_item it = ''{'' @ join '','' [json_pair ''step'' (json_quote (pi_step it)),
     json_pair ''active_form'' (json_quote (pi_active_form it)),
     json_pair ''status'' (json_quote (plan_status_value (pi_status it)))] @ ''}''"

definition dumps_items :: "plan_item list \<Rightarrow> string" where
  "dumps_items items = ''['' @ join '','' (map dumps_item items) @ '']''"

definition validate_items ::
    "(json \<Rightarrow> string) \<Rightarrow> json list \<Rightarrow> (plan_error, plan_item list) result" where
  "validate_items py_str raw_items =
     (if length raw_items > max_items then Inl Plan_Too_Many_Items
      else bind_result (validate_from py_str 0 raw_items) (\<lambda>items.
        if length (filter (\<lambda>it. pi_status it = Plan_In_Progress) items) > 1 then Inl Plan_Many_Active
        else if length (dumps_items items) > max_serialized_chars then Inl Plan_Too_Long
        else Inr items))"

text \<open>\<open>_fingerprint\<close>: the same data with sorted keys.\<close>

definition sorted_item :: "plan_item \<Rightarrow> string" where
  "sorted_item it = ''{'' @ join '','' [json_pair ''active_form'' (json_quote (pi_active_form it)),
     json_pair ''status'' (json_quote (plan_status_value (pi_status it))),
     json_pair ''step'' (json_quote (pi_step it))] @ ''}''"

definition plan_fingerprint :: "plan_item list \<Rightarrow> string option \<Rightarrow> string" where
  "plan_fingerprint items explanation =
     ''{'' @ join '','' [json_pair ''explanation'' (json_quote_opt explanation),
       json_pair ''items'' (''['' @ join '','' (map sorted_item items) @ '']'')] @ ''}''"

definition progress_fingerprint :: "string option \<Rightarrow> string option \<Rightarrow> string option \<Rightarrow> string" where
  "progress_fingerprint phase summary next_step =
     ''['' @ join '','' (map json_quote_opt [phase, summary, next_step]) @ '']''"

section \<open>The controller\<close>

record plan_state =
  ps_owner_agent_id :: string
  ps_session_generation :: int
  ps_revision :: int
  ps_items :: "plan_item list"
  ps_explanation :: "string option"
  ps_event_id :: "string option"

definition ps_completed :: "plan_state \<Rightarrow> nat" where
  "ps_completed s = length (filter (\<lambda>it. pi_status it = Plan_Completed) (ps_items s))"

definition ps_active_index :: "plan_state \<Rightarrow> nat option" where
  "ps_active_index s = map_option fst
     (find (\<lambda>(i, it). pi_status it = Plan_In_Progress) (enumerate 0 (ps_items s)))"

record progress_state =
  pg_phase :: string
  pg_summary :: string
  pg_next :: "string option"
  pg_revision :: int
  pg_event_id :: "string option"

definition initial_plan :: "string \<Rightarrow> int \<Rightarrow> plan_state" where
  "initial_plan agent_id generation = \<lparr>ps_owner_agent_id = agent_id, ps_session_generation = generation,
     ps_revision = 0, ps_items = [], ps_explanation = None, ps_event_id = None\<rparr>"

definition initial_progress :: progress_state where
  "initial_progress = \<lparr>pg_phase = ''investigating'', pg_summary = [], pg_next = None, pg_revision = 0,
     pg_event_id = None\<rparr>"

datatype plan_notification =
    Note_Plan int "plan_item list" "string option" int
  | Note_Progress int string string "string option" int

record plan_controller =
  pc_agent_id :: string
  pc_generation :: int
  pc_ledger :: ledger
  pc_state :: plan_state
  pc_progress :: progress_state
  pc_committed :: "(string, string \<times> int) dict"
  pc_recovery_required :: bool
  pc_emitted :: "plan_notification list"

definition progress_phases :: "string list" where
  "progress_phases = [''investigating'', ''implementing'', ''verifying'', ''ready'', ''blocked'']"

definition trimmed :: "string option \<Rightarrow> string option" where
  "trimmed s = or_none (take 500 (strip (or_empty s)))"

text \<open>What a commit reads from outside: the stamp and outcome of the history write, and whether
  the runtime snapshot could be persisted.\<close>

record plan_env =
  pe_stamp :: stamp
  pe_write_ok :: bool
  pe_persisted :: bool

definition persist_or_require_recovery :: "plan_env \<Rightarrow> plan_controller \<Rightarrow> plan_controller" where
  "persist_or_require_recovery env pc =
     (if pe_persisted env then pc else pc\<lparr>pc_recovery_required := True\<rparr>)"

definition plan_payload :: "plan_controller \<Rightarrow> int \<Rightarrow> int \<Rightarrow> plan_item list \<Rightarrow> string option \<Rightarrow> string \<Rightarrow> json" where
  "plan_payload pc generation revision items explanation tool_call_id =
     JObj [(''owner_agent_id'', JStr (pc_agent_id pc)), (''session_generation'', JInt generation),
       (''revision'', JInt revision), (''items'', JList (map item_dict items)),
       (''explanation'', json_opt_str explanation), (''tool_call_id'', JStr tool_call_id)]"

definition update_plan ::
    "(json \<Rightarrow> string) \<Rightarrow> plan_env \<Rightarrow> plan_controller \<Rightarrow> json list \<Rightarrow> string option \<Rightarrow> string \<Rightarrow> int
      \<Rightarrow> plan_controller \<times> (plan_error, plan_state \<times> bool) result" where
  "update_plan py_str env pc raw_items explanation0 tool_call_id session_generation =
     (case validate_items py_str raw_items of
        Inl e \<Rightarrow> (pc, Inl e)
      | Inr items \<Rightarrow>
          let explanation = trimmed explanation0;
              fingerprint = plan_fingerprint items explanation
          in case dict_get (pc_committed pc) tool_call_id of
               Some (cached, _) \<Rightarrow>
                 if cached \<noteq> fingerprint then (pc, Inl Plan_Different_Data)
                 else (pc, Inr (pc_state pc, False))
             | None \<Rightarrow>
                 if session_generation \<noteq> pc_generation pc then (pc, Inl Plan_Generation_Changed)
                 else
                   let revision = ps_revision (pc_state pc) + 1
                   in case append_event (pe_write_ok env) (pc_ledger pc) ''plan_updated''
                        (plan_payload pc session_generation revision items explanation tool_call_id)
                        no_attribution (pe_stamp env) of
                        (l, Inl e) \<Rightarrow> (pc\<lparr>pc_ledger := l\<rparr>, Inl (Plan_Write_Failed e))
                      | (l, Inr event) \<Rightarrow>
                          let state = \<lparr>ps_owner_agent_id = pc_agent_id pc,
                                ps_session_generation = session_generation, ps_revision = revision,
                                ps_items = items, ps_explanation = explanation,
                                ps_event_id = Some (he_event_id event)\<rparr>;
                              pc1 = pc\<lparr>pc_ledger := l, pc_state := state,
                                pc_committed := dict_set tool_call_id (fingerprint, revision) (pc_committed pc)\<rparr>;
                              pc2 = persist_or_require_recovery env pc1
                          in (pc2\<lparr>pc_emitted := pc_emitted pc2
                                @ [Note_Plan revision items explanation session_generation]\<rparr>,
                              Inr (state, True)))"

definition progress_payload ::
    "plan_controller \<Rightarrow> int \<Rightarrow> int \<Rightarrow> string \<Rightarrow> string \<Rightarrow> string option \<Rightarrow> string \<Rightarrow> json" where
  "progress_payload pc generation revision phase summary next_step tool_call_id =
     JObj [(''owner_agent_id'', JStr (pc_agent_id pc)), (''session_generation'', JInt generation),
       (''revision'', JInt revision), (''phase'', JStr phase), (''summary'', JStr summary),
       (''next'', json_opt_str next_step), (''tool_call_id'', JStr tool_call_id)]"

definition report_progress ::
    "plan_env \<Rightarrow> plan_controller \<Rightarrow> string \<Rightarrow> string \<Rightarrow> string option \<Rightarrow> string \<Rightarrow> int
      \<Rightarrow> plan_controller \<times> (plan_error, progress_state \<times> bool) result" where
  "report_progress env pc phase summary0 next0 tool_call_id session_generation =
     (if phase \<notin> set progress_phases then (pc, Inl Plan_Bad_Phase)
      else
        let summary = strip summary0
        in if summary = [] \<or> length summary > 500 then (pc, Inl Plan_Bad_Summary)
           else
             let next_step = trimmed next0;
                 fingerprint = progress_fingerprint (Some phase) (Some summary) next_step
             in case dict_get (pc_committed pc) tool_call_id of
                  Some (cached, _) \<Rightarrow>
                    if cached \<noteq> fingerprint then (pc, Inl Plan_Different_Data)
                    else (pc, Inr (pc_progress pc, False))
                | None \<Rightarrow>
                    if session_generation \<noteq> pc_generation pc then (pc, Inl Plan_Generation_Changed)
                    else
                      let revision = pg_revision (pc_progress pc) + 1
                      in case append_event (pe_write_ok env) (pc_ledger pc) ''progress_reported''
                           (progress_payload pc session_generation revision phase summary next_step
                             tool_call_id) no_attribution (pe_stamp env) of
                           (l, Inl e) \<Rightarrow> (pc\<lparr>pc_ledger := l\<rparr>, Inl (Plan_Write_Failed e))
                         | (l, Inr event) \<Rightarrow>
                             let progress = \<lparr>pg_phase = phase, pg_summary = summary, pg_next = next_step,
                                   pg_revision = revision, pg_event_id = Some (he_event_id event)\<rparr>;
                                 pc1 = pc\<lparr>pc_ledger := l, pc_progress := progress,
                                   pc_committed := dict_set tool_call_id (fingerprint, revision) (pc_committed pc)\<rparr>;
                                 pc2 = persist_or_require_recovery env pc1
                             in (pc2\<lparr>pc_emitted := pc_emitted pc2
                                   @ [Note_Progress revision phase summary next_step session_generation]\<rparr>,
                                 Inr (progress, True)))"

section \<open>Recovery\<close>

text \<open>A persisted plan or progress, as \<open>restore\<close> reads it. Revisions are integers and text
  fields are text or absent, which is how the controller writes them.\<close>

record saved_plan =
  sp_revision :: json
  sp_items :: json
  sp_explanation :: json
  sp_event_id :: "string option"

record saved_progress =
  sg_revision :: json
  sg_phase :: json
  sg_summary :: json
  sg_next :: json
  sg_event_id :: "string option"

definition as_text :: "json \<Rightarrow> string option" where
  "as_text v = (case v of JStr s \<Rightarrow> Some s | _ \<Rightarrow> None)"

definition as_int :: "json \<Rightarrow> (plan_error, int) result" where
  "as_int v = (case v of JInt n \<Rightarrow> Inr n | JBool b \<Rightarrow> Inr (if b then 1 else 0) | _ \<Rightarrow> Inl Plan_Bad_Revision)"

definition as_list :: "json \<Rightarrow> json list" where
  "as_list v = (case v of JList xs \<Rightarrow> xs | _ \<Rightarrow> [])"

definition restore_plan_state ::
    "(json \<Rightarrow> string) \<Rightarrow> plan_controller \<Rightarrow> saved_plan option \<Rightarrow> (plan_error, plan_state) result" where
  "restore_plan_state py_str pc plan =
     (case plan of
        None \<Rightarrow> Inr (initial_plan (pc_agent_id pc) (pc_generation pc))
      | Some p \<Rightarrow>
          bind_result (validate_items py_str (as_list (sp_items p))) (\<lambda>items.
            bind_result (as_int (sp_revision p)) (\<lambda>revision.
              Inr \<lparr>ps_owner_agent_id = pc_agent_id pc, ps_session_generation = pc_generation pc,
                ps_revision = max 0 revision, ps_items = items,
                ps_explanation = as_text (sp_explanation p), ps_event_id = sp_event_id p\<rparr>)))"

definition restore_progress_state ::
    "(json \<Rightarrow> string) \<Rightarrow> saved_progress option \<Rightarrow> (plan_error, progress_state) result" where
  "restore_progress_state py_str progress =
     (case progress of
        None \<Rightarrow> Inr initial_progress
      | Some p \<Rightarrow>
          bind_result (as_int (sg_revision p)) (\<lambda>revision.
            let phase = (if truthy (sg_phase p) then content_text py_str (sg_phase p) else ''investigating'')
            in Inr \<lparr>pg_phase = (if phase \<in> set progress_phases then phase else ''investigating''),
                 pg_summary = take 500 (content_text py_str (sg_summary p)),
                 pg_next = or_none (take 500 (content_text py_str (sg_next p))),
                 pg_revision = max 0 revision, pg_event_id = sg_event_id p\<rparr>))"

definition restore_controller ::
    "(json \<Rightarrow> string) \<Rightarrow> plan_controller \<Rightarrow> saved_plan option \<Rightarrow> saved_progress option
      \<Rightarrow> (plan_error, plan_controller) result" where
  "restore_controller py_str pc plan progress =
     bind_result (restore_plan_state py_str pc plan) (\<lambda>state.
       bind_result (restore_progress_state py_str progress) (\<lambda>pg.
         Inr (pc\<lparr>pc_state := state, pc_progress := pg, pc_committed := []\<rparr>)))"

definition reset_controller :: "(json \<Rightarrow> string) \<Rightarrow> plan_controller \<Rightarrow> (plan_error, plan_controller) result" where
  "reset_controller py_str pc = restore_controller py_str pc None None"

definition scan_event :: "int \<Rightarrow> saved_plan option \<times> saved_progress option \<Rightarrow> history_event
    \<Rightarrow> saved_plan option \<times> saved_progress option" where
  "scan_event generation acc event =
     (if he_session_generation event \<noteq> generation then acc
      else if he_kind event = ''plan_updated''
      then (let p = he_payload event
            in (Some \<lparr>sp_revision = jget p ''revision'', sp_items = jget p ''items'',
                  sp_explanation = jget p ''explanation'', sp_event_id = Some (he_event_id event)\<rparr>, snd acc))
      else if he_kind event = ''progress_reported''
      then (let p = he_payload event
            in (fst acc, Some \<lparr>sg_revision = jget p ''revision'', sg_phase = jget p ''phase'',
                  sg_summary = jget p ''summary'', sg_next = jget p ''next'',
                  sg_event_id = Some (he_event_id event)\<rparr>))
      else acc)"

definition recommit_event ::
    "(json \<Rightarrow> string) \<Rightarrow> int \<Rightarrow> (plan_error, (string, string \<times> int) dict) result \<Rightarrow> history_event
      \<Rightarrow> (plan_error, (string, string \<times> int) dict) result" where
  "recommit_event py_str generation acc event =
     bind_result acc (\<lambda>committed.
       if he_session_generation event \<noteq> generation then Inr committed
       else
         let payload = he_payload event;
             tool_call_id = content_text py_str (jget payload ''tool_call_id'');
             revision = (if truthy (jget payload ''revision'') then as_int (jget payload ''revision'') else Inr 0)
         in if tool_call_id = [] then Inr committed
            else if he_kind event = ''plan_updated''
            then bind_result (validate_items py_str (as_list (jget payload ''items''))) (\<lambda>items.
                   bind_result revision (\<lambda>r.
                     Inr (dict_set tool_call_id
                       (plan_fingerprint items
                          (or_none (strip (content_text py_str (jget payload ''explanation'')))), r)
                       committed)))
            else if he_kind event = ''progress_reported''
            then bind_result revision (\<lambda>r.
                   Inr (dict_set tool_call_id
                     (progress_fingerprint (as_text (jget payload ''phase''))
                        (as_text (jget payload ''summary'')) (as_text (jget payload ''next'')), r)
                     committed))
            else Inr committed)"

definition recover_from_ledger ::
    "(json \<Rightarrow> string) \<Rightarrow> plan_controller \<Rightarrow> (plan_error, plan_controller \<times> bool) result" where
  "recover_from_ledger py_str pc =
     (let events = lg_events (pc_ledger pc);
          (plan, progress) = foldl (scan_event (pc_generation pc)) (None, None) events
      in bind_result (restore_controller py_str pc plan progress) (\<lambda>pc1.
           bind_result (foldl (recommit_event py_str (pc_generation pc)) (Inr []) events) (\<lambda>committed.
             Inr (pc1\<lparr>pc_committed := committed\<rparr>, plan \<noteq> None \<or> progress \<noteq> None))))"


section \<open>Validated plans\<close>

definition item_ok :: "plan_item \<Rightarrow> bool" where
  "item_ok it \<longleftrightarrow> strip (pi_step it) = pi_step it \<and> pi_step it \<noteq> [] \<and> length (pi_step it) \<le> max_item_chars \<and>
     strip (pi_active_form it) = pi_active_form it \<and> pi_active_form it \<noteq> [] \<and>
     length (pi_active_form it) \<le> max_item_chars"

definition plan_ok :: "plan_item list \<Rightarrow> bool" where
  "plan_ok items \<longleftrightarrow> length items \<le> max_items \<and> list_all item_ok items \<and>
     length (filter (\<lambda>it. pi_status it = Plan_In_Progress) items) \<le> 1 \<and>
     length (dumps_items items) \<le> max_serialized_chars"

lemma parse_plan_status_value [simp]: "parse_plan_status (plan_status_value st) = Some st"
  by (cases st) (simp_all add: parse_plan_status_def)

lemma content_text_str [simp]: "content_text py_str (JStr s) = s"
  by (simp add: content_text_def)

lemma validate_item_ok: "validate_item py_str i raw = Inr it \<Longrightarrow> item_ok it"
  by (auto simp: validate_item_def item_ok_def Let_def split: json.splits if_splits option.splits)

lemma validate_item_dict: "item_ok it \<Longrightarrow> validate_item py_str i (item_dict it) = Inr it"
  by (simp add: validate_item_def item_dict_def item_ok_def Let_def)

lemma validate_from_ok:
  "validate_from py_str i raws = Inr its \<Longrightarrow> list_all item_ok its \<and> length its = length raws"
  by (induction raws arbitrary: i its) (auto dest: validate_item_ok)

lemma validate_from_dict:
  "list_all item_ok its \<Longrightarrow> validate_from py_str i (map item_dict its) = Inr its"
  by (induction its arbitrary: i) (simp_all add: validate_item_dict)

lemma validate_items_ok: "validate_items py_str raws = Inr its \<Longrightarrow> plan_ok its"
  by (auto simp: validate_items_def plan_ok_def split: if_splits dest: validate_from_ok)

lemma validate_items_dict: "plan_ok its \<Longrightarrow> validate_items py_str (map item_dict its) = Inr its"
  by (simp add: validate_items_def plan_ok_def validate_from_dict)

section \<open>The controller mirrors its history\<close>

definition mirrors :: "(json \<Rightarrow> string) \<Rightarrow> plan_controller \<Rightarrow> bool" where
  "mirrors py_str pc \<longleftrightarrow>
     (let saved = foldl (scan_event (pc_generation pc)) (None, None) (lg_events (pc_ledger pc))
      in restore_plan_state py_str pc (fst saved) = Inr (pc_state pc) \<and>
         restore_progress_state py_str (snd saved) = Inr (pc_progress pc) \<and>
         foldl (recommit_event py_str (pc_generation pc)) (Inr []) (lg_events (pc_ledger pc))
           = Inr (pc_committed pc) \<and>
         lg_generation (pc_ledger pc) = pc_generation pc \<and>
         0 \<le> ps_revision (pc_state pc) \<and> 0 \<le> pg_revision (pc_progress pc))"

lemma mirrors_recover:
  assumes "mirrors py_str pc"
  shows "\<exists>found. recover_from_ledger py_str pc = Inr (pc, found)"
proof -
  obtain plan progress where
    "foldl (scan_event (pc_generation pc)) (None, None) (lg_events (pc_ledger pc)) = (plan, progress)"
    by fastforce
  with assms show ?thesis
    by (auto simp: mirrors_def recover_from_ledger_def restore_controller_def Let_def)
qed

lemma restore_plan_state_cong:
  "pc_agent_id pc' = pc_agent_id pc \<Longrightarrow> pc_generation pc' = pc_generation pc \<Longrightarrow>
    restore_plan_state py_str pc' plan = restore_plan_state py_str pc plan"
  by (simp add: restore_plan_state_def split: option.splits)

lemma content_text_opt [simp]: "content_text py_str (json_opt_str t) = or_empty t"
  by (cases t) (simp_all add: content_text_def or_empty_def)

lemma as_text_str [simp]: "as_text (JStr t) = Some t"
  by (simp add: as_text_def)

lemma as_text_opt [simp]: "as_text (json_opt_str t) = t"
  by (cases t) (simp_all add: as_text_def)

lemma trimmed_shape:
  "length (or_empty (trimmed t)) \<le> 500" "or_none (or_empty (trimmed t)) = trimmed t"
  by (simp_all add: trimmed_def or_none_def or_empty_def)

definition stable_text :: "string option \<Rightarrow> bool" where
  "stable_text t \<longleftrightarrow> strip (or_empty (trimmed t)) = or_empty (trimmed t)"

lemma mirrors_plan_commit:
  assumes m: "mirrors py_str pc" and ok: "plan_ok items" and key: "tool_call_id \<noteq> []"
    and stable: "strip (or_empty ex) = or_empty ex" "or_none (or_empty ex) = ex"
    and frame: "pc_agent_id pc' = pc_agent_id pc" "pc_generation pc' = pc_generation pc"
      "pc_progress pc' = pc_progress pc" "lg_generation (pc_ledger pc') = lg_generation (pc_ledger pc)"
    and events: "lg_events (pc_ledger pc') = lg_events (pc_ledger pc) @ [make_event (pc_ledger pc) ''plan_updated''
       (plan_payload pc (pc_generation pc) (ps_revision (pc_state pc) + 1) items ex tool_call_id)
       no_attribution st]"
    and state: "pc_state pc' = \<lparr>ps_owner_agent_id = pc_agent_id pc,
       ps_session_generation = pc_generation pc, ps_revision = ps_revision (pc_state pc) + 1,
       ps_items = items, ps_explanation = ex, ps_event_id = Some (st_event_id st)\<rparr>"
    and committed: "pc_committed pc' = dict_set tool_call_id
       (plan_fingerprint items ex, ps_revision (pc_state pc) + 1) (pc_committed pc)"
  shows "mirrors py_str pc'"
proof -
  let ?rev = "ps_revision (pc_state pc) + 1"
  let ?e = "make_event (pc_ledger pc) ''plan_updated''
       (plan_payload pc (pc_generation pc) ?rev items ex tool_call_id) no_attribution st"
  let ?saved = "foldl (scan_event (pc_generation pc)) (None, None) (lg_events (pc_ledger pc))"
  note M = m [unfolded mirrors_def Let_def]
  have gen: "he_session_generation ?e = pc_generation pc" using M by (simp add: make_event_def)
  have scan: "scan_event (pc_generation pc) ?saved ?e =
      (Some \<lparr>sp_revision = JInt ?rev, sp_items = JList (map item_dict items),
         sp_explanation = json_opt_str ex, sp_event_id = Some (st_event_id st)\<rparr>, snd ?saved)"
    using gen by (simp add: scan_event_def make_event_def plan_payload_def Let_def)
  have restore: "restore_plan_state py_str pc' (Some \<lparr>sp_revision = JInt ?rev,
      sp_items = JList (map item_dict items), sp_explanation = json_opt_str ex,
      sp_event_id = Some (st_event_id st)\<rparr>) = Inr (pc_state pc')"
    using M validate_items_dict [OF ok, of py_str] frame
    by (simp add: restore_plan_state_def as_list_def as_int_def state)
  have "recommit_event py_str (pc_generation pc) (Inr (pc_committed pc)) ?e = Inr (pc_committed pc')"
    using gen key validate_items_dict [OF ok, of py_str] stable M
    by (simp add: recommit_event_def make_event_def plan_payload_def as_list_def as_int_def
        committed Let_def)
  with scan restore M frame state show ?thesis
    by (simp add: mirrors_def events Let_def)
qed

lemma mirrors_progress_commit:
  assumes m: "mirrors py_str pc" and key: "tool_call_id \<noteq> []" and phase: "phase \<in> set progress_phases"
    and summary: "summary \<noteq> []" "length summary \<le> 500"
    and nxt: "length (or_empty nx) \<le> 500" "or_none (or_empty nx) = nx"
    and frame: "pc_agent_id pc' = pc_agent_id pc" "pc_generation pc' = pc_generation pc"
      "pc_state pc' = pc_state pc" "lg_generation (pc_ledger pc') = lg_generation (pc_ledger pc)"
    and events: "lg_events (pc_ledger pc') = lg_events (pc_ledger pc) @ [make_event (pc_ledger pc) ''progress_reported''
       (progress_payload pc (pc_generation pc) (pg_revision (pc_progress pc) + 1) phase summary nx tool_call_id)
       no_attribution st]"
    and state: "pc_progress pc' = \<lparr>pg_phase = phase, pg_summary = summary, pg_next = nx,
       pg_revision = pg_revision (pc_progress pc) + 1, pg_event_id = Some (st_event_id st)\<rparr>"
    and committed: "pc_committed pc' = dict_set tool_call_id
       (progress_fingerprint (Some phase) (Some summary) nx, pg_revision (pc_progress pc) + 1) (pc_committed pc)"
  shows "mirrors py_str pc'"
proof -
  let ?rev = "pg_revision (pc_progress pc) + 1"
  let ?e = "make_event (pc_ledger pc) ''progress_reported''
       (progress_payload pc (pc_generation pc) ?rev phase summary nx tool_call_id) no_attribution st"
  let ?saved = "foldl (scan_event (pc_generation pc)) (None, None) (lg_events (pc_ledger pc))"
  note M = m [unfolded mirrors_def Let_def]
  have gen: "he_session_generation ?e = pc_generation pc" using M by (simp add: make_event_def)
  have scan: "scan_event (pc_generation pc) ?saved ?e =
      (fst ?saved, Some \<lparr>sg_revision = JInt ?rev, sg_phase = JStr phase, sg_summary = JStr summary,
         sg_next = json_opt_str nx, sg_event_id = Some (st_event_id st)\<rparr>)"
    using gen by (simp add: scan_event_def make_event_def progress_payload_def Let_def)
  have ph: "phase \<noteq> []" using phase by (auto simp: progress_phases_def)
  have restore: "restore_progress_state py_str (Some \<lparr>sg_revision = JInt ?rev, sg_phase = JStr phase,
      sg_summary = JStr summary, sg_next = json_opt_str nx, sg_event_id = Some (st_event_id st)\<rparr>)
      = Inr (pc_progress pc')"
    using M ph phase summary nxt by (simp add: restore_progress_state_def as_int_def state Let_def)
  have "recommit_event py_str (pc_generation pc) (Inr (pc_committed pc)) ?e = Inr (pc_committed pc')"
    using gen key M
    by (simp add: recommit_event_def make_event_def progress_payload_def as_int_def
        committed Let_def)
  with scan restore M frame state restore_plan_state_cong [OF frame(1,2)] show ?thesis
    by (simp add: mirrors_def events Let_def)
qed

lemma mirrors_foreign:
  assumes "mirrors py_str pc" and "kind \<notin> {''plan_updated'', ''progress_reported''}"
    and "lg_events l = lg_events (pc_ledger pc) @ [e]" "he_kind e = kind"
    and "lg_generation l = lg_generation (pc_ledger pc)"
  shows "mirrors py_str (pc\<lparr>pc_ledger := l\<rparr>)"
  using assms restore_plan_state_cong [of "pc\<lparr>pc_ledger := l\<rparr>" pc py_str]
  by (simp add: mirrors_def scan_event_def recommit_event_def Let_def)

lemma mirrors_cong:
  assumes "pc_agent_id pc' = pc_agent_id pc" "pc_generation pc' = pc_generation pc"
    "pc_ledger pc' = pc_ledger pc" "pc_state pc' = pc_state pc" "pc_progress pc' = pc_progress pc"
    "pc_committed pc' = pc_committed pc"
  shows "mirrors py_str pc' = mirrors py_str pc"
  using restore_plan_state_cong [OF assms(1,2)] by (simp add: mirrors_def assms)

section \<open>Runs\<close>

datatype plan_op =
    Plan_Update plan_env "json list" "string option" string int
  | Plan_Report plan_env string string "string option" string int
  | Plan_Foreign "bool \<times> attribution \<times> stamp" string json

fun plan_step :: "(json \<Rightarrow> string) \<Rightarrow> plan_controller \<Rightarrow> plan_op \<Rightarrow> (unit, plan_controller) result" where
  "plan_step py_str pc (Plan_Update env raws ex i g) = Inr (fst (update_plan py_str env pc raws ex i g))"
| "plan_step py_str pc (Plan_Report env ph su nx i g) = Inr (fst (report_progress env pc ph su nx i g))"
| "plan_step py_str pc (Plan_Foreign x kind payload) =
     Inr (pc\<lparr>pc_ledger := ledger_record x (pc_ledger pc) kind payload\<rparr>)"

fun plan_quiet :: "plan_op \<Rightarrow> bool" where
  "plan_quiet (Plan_Update env raws ex i g) = (pe_write_ok env \<and> i \<noteq> [] \<and> stable_text ex)"
| "plan_quiet (Plan_Report env ph su nx i g) = (pe_write_ok env \<and> i \<noteq> [])"
| "plan_quiet (Plan_Foreign x kind payload) = (kind \<notin> {''plan_updated'', ''progress_reported''})"

text \<open>A plan update that changes the controller: a new tool call with valid data in the current
  generation.\<close>

lemma update_plan_commit:
  assumes "validate_items py_str raws = Inr items" and "dict_get (pc_committed pc) i = None"
    and "g = pc_generation pc" and "pe_write_ok env"
  shows "\<exists>l. append_event True (pc_ledger pc) ''plan_updated''
      (plan_payload pc g (ps_revision (pc_state pc) + 1) items (trimmed ex) i) no_attribution (pe_stamp env)
      = (l, Inr (make_event (pc_ledger pc) ''plan_updated''
          (plan_payload pc g (ps_revision (pc_state pc) + 1) items (trimmed ex) i) no_attribution (pe_stamp env))) \<and>
    fst (update_plan py_str env pc raws ex i g) = (persist_or_require_recovery env (pc\<lparr>pc_ledger := l,
      pc_state := \<lparr>ps_owner_agent_id = pc_agent_id pc, ps_session_generation = g,
        ps_revision = ps_revision (pc_state pc) + 1, ps_items = items, ps_explanation = trimmed ex,
        ps_event_id = Some (st_event_id (pe_stamp env))\<rparr>,
      pc_committed := dict_set i (plan_fingerprint items (trimmed ex), ps_revision (pc_state pc) + 1)
        (pc_committed pc)\<rparr>))\<lparr>pc_emitted := pc_emitted pc
        @ [Note_Plan (ps_revision (pc_state pc) + 1) items (trimmed ex) g]\<rparr>"
proof -
  let ?p = "plan_payload pc g (ps_revision (pc_state pc) + 1) items (trimmed ex) i"
  obtain l res where a: "append_event True (pc_ledger pc) ''plan_updated'' ?p no_attribution (pe_stamp env) = (l, res)"
    by fastforce
  have "he_event_id (make_event (pc_ledger pc) ''plan_updated'' ?p no_attribution (pe_stamp env))
      = st_event_id (pe_stamp env)" by (simp add: make_event_def)
  with assms a append_event_ok [OF a] show ?thesis
    by (simp add: update_plan_def Let_def persist_or_require_recovery_def)
qed

lemma update_plan_mirrors:
  assumes m: "mirrors py_str pc" and quiet: "pe_write_ok env" "i \<noteq> []" "stable_text ex"
  shows "mirrors py_str (fst (update_plan py_str env pc raws ex i g))"
proof (cases "\<exists>items. validate_items py_str raws = Inr items \<and> dict_get (pc_committed pc) i = None \<and>
    g = pc_generation pc")
  case False
  then have "fst (update_plan py_str env pc raws ex i g) = pc"
    by (auto simp: update_plan_def Let_def split: sum.splits option.splits if_splits)
  with m show ?thesis by simp
next
  case True
  then obtain items where v: "validate_items py_str raws = Inr items"
    "dict_get (pc_committed pc) i = None" "g = pc_generation pc" by blast
  from update_plan_commit [OF v quiet(1), of ex] obtain l where
    a: "append_event True (pc_ledger pc) ''plan_updated''
      (plan_payload pc g (ps_revision (pc_state pc) + 1) items (trimmed ex) i) no_attribution (pe_stamp env)
      = (l, Inr (make_event (pc_ledger pc) ''plan_updated''
          (plan_payload pc g (ps_revision (pc_state pc) + 1) items (trimmed ex) i) no_attribution (pe_stamp env)))"
    and u: "fst (update_plan py_str env pc raws ex i g) = (persist_or_require_recovery env (pc\<lparr>pc_ledger := l,
      pc_state := \<lparr>ps_owner_agent_id = pc_agent_id pc, ps_session_generation = g,
        ps_revision = ps_revision (pc_state pc) + 1, ps_items = items, ps_explanation = trimmed ex,
        ps_event_id = Some (st_event_id (pe_stamp env))\<rparr>,
      pc_committed := dict_set i (plan_fingerprint items (trimmed ex), ps_revision (pc_state pc) + 1)
        (pc_committed pc)\<rparr>))\<lparr>pc_emitted := pc_emitted pc
        @ [Note_Plan (ps_revision (pc_state pc) + 1) items (trimmed ex) g]\<rparr>"
    by blast
  show ?thesis
    unfolding u
    by (rule mirrors_plan_commit [OF m validate_items_ok [OF v(1)] quiet(2), of "trimmed ex"])
      (use quiet(3) v(3) append_event_frame [OF a] trimmed_shape in
        \<open>simp_all add: stable_text_def persist_or_require_recovery_def\<close>)
qed

lemma report_progress_mirrors:
  assumes m: "mirrors py_str pc" and quiet: "pe_write_ok env" "i \<noteq> []"
  shows "mirrors py_str (fst (report_progress env pc ph su nx i g))"
proof (cases "ph \<in> set progress_phases \<and> strip su \<noteq> [] \<and> length (strip su) \<le> 500 \<and>
    dict_get (pc_committed pc) i = None \<and> g = pc_generation pc")
  case False
  then have "fst (report_progress env pc ph su nx i g) = pc"
    by (auto simp: report_progress_def Let_def split: option.splits if_splits)
  with m show ?thesis by simp
next
  case True
  let ?p = "progress_payload pc g (pg_revision (pc_progress pc) + 1) ph (strip su) (trimmed nx) i"
  obtain l res where a: "append_event True (pc_ledger pc) ''progress_reported'' ?p no_attribution (pe_stamp env)
      = (l, res)"
    by fastforce
  have id: "he_event_id (make_event (pc_ledger pc) ''progress_reported'' ?p no_attribution (pe_stamp env))
      = st_event_id (pe_stamp env)" by (simp add: make_event_def)
  have u: "fst (report_progress env pc ph su nx i g) = (persist_or_require_recovery env (pc\<lparr>pc_ledger := l,
      pc_progress := \<lparr>pg_phase = ph, pg_summary = strip su, pg_next = trimmed nx,
        pg_revision = pg_revision (pc_progress pc) + 1, pg_event_id = Some (st_event_id (pe_stamp env))\<rparr>,
      pc_committed := dict_set i (progress_fingerprint (Some ph) (Some (strip su)) (trimmed nx),
        pg_revision (pc_progress pc) + 1) (pc_committed pc)\<rparr>))\<lparr>pc_emitted := pc_emitted pc
        @ [Note_Progress (pg_revision (pc_progress pc) + 1) ph (strip su) (trimmed nx) g]\<rparr>"
    using True quiet(1) a append_event_ok [OF a] id
    by (simp add: report_progress_def Let_def persist_or_require_recovery_def)
  show ?thesis
    unfolding u
    by (rule mirrors_progress_commit [OF m quiet(2), of ph "strip su" "trimmed nx"])
      (use True append_event_frame [OF a] trimmed_shape in
        \<open>simp_all add: persist_or_require_recovery_def\<close>)
qed

lemma plan_step_mirrors:
  assumes "mirrors py_str pc" "plan_quiet x" "plan_step py_str pc x = Inr pc'"
  shows "mirrors py_str pc'"
proof (cases x)
  case (Plan_Foreign y kind payload)
  obtain ok who st where y: "y = (ok, who, st)" by (cases y)
  show ?thesis
    using assms Plan_Foreign y
    by (auto simp: ledger_record_def append_event_fst(1,3) make_event_def intro!: mirrors_foreign)
qed (use assms update_plan_mirrors report_progress_mirrors in auto)

lemma plan_run_mirrors:
  assumes "mirrors py_str pc" "list_all plan_quiet ops"
  shows "mirrors py_str (run_ops (plan_step py_str) pc ops)"
  using assms
proof (induction ops arbitrary: pc)
  case Nil
  then show ?case by simp
next
  case (Cons x ops)
  then show ?case by (cases "plan_step py_str pc x") (auto dest: plan_step_mirrors)
qed

section \<open>Properties\<close>

definition fresh_plan_controller :: "string \<Rightarrow> int \<Rightarrow> ledger \<Rightarrow> plan_controller" where
  "fresh_plan_controller agent_id generation l =
     \<lparr>pc_agent_id = agent_id, pc_generation = generation, pc_ledger = l,
      pc_state = initial_plan agent_id generation, pc_progress = initial_progress, pc_committed = [],
      pc_recovery_required = False, pc_emitted = []\<rparr>"

definition ex_plan_env :: "string \<Rightarrow> plan_env" where
  "ex_plan_env i = \<lparr>pe_stamp = ex_stamp i, pe_write_ok = True, pe_persisted = True\<rparr>"

definition ex_item :: json where
  "ex_item = JObj [(''step'', JStr '' read the code ''), (''status'', JStr ''in_progress'')]"

definition ex_plan_ops :: "plan_op list" where
  "ex_plan_ops = [Plan_Update (ex_plan_env ''p1'') [ex_item] (Some ''start'') ''call1'' 0,
     Plan_Report (ex_plan_env ''p2'') ''implementing'' ''half done'' None ''call2'' 0]"

text \<open>C35: Whatever a tool call sends, an accepted plan is well formed: at most 20 items, each with
  stripped non-empty texts of at most 240 characters, at most one item in progress, and at
  most 5000 characters when serialised; and validating an accepted plan again returns the
  same plan.\<close>

theorem accepted_plan_well_formed:
  assumes "validate_items py_str raws = Inr items"
  shows "length items = length raws \<and> length items \<le> 20 \<and>
    (\<forall>it\<in>set items. pi_step it \<noteq> [] \<and> strip (pi_step it) = pi_step it \<and> length (pi_step it) \<le> 240 \<and>
       pi_active_form it \<noteq> [] \<and> length (pi_active_form it) \<le> 240) \<and>
    length (filter (\<lambda>it. pi_status it = Plan_In_Progress) items) \<le> 1 \<and>
    length (dumps_items items) \<le> 5000 \<and>
    validate_items py_str (map item_dict items) = Inr items"
proof -
  have "plan_ok items" by (rule validate_items_ok [OF assms])
  moreover have "length items = length raws"
    using assms by (auto simp: validate_items_def split: if_splits dest: validate_from_ok)
  ultimately show ?thesis
    using validate_items_dict [of items py_str]
    by (auto simp: plan_ok_def item_ok_def list_all_iff max_items_def max_item_chars_def
        max_serialized_chars_def)
qed

theorem accepted_plan_well_formed_witness:
  "\<exists>items. validate_items (\<lambda>_. []) [ex_item] = Inr items \<and> length items = 1 \<and>
    validate_items (\<lambda>_. []) (map item_dict items) = Inr items"
proof -
  have "isl (validate_items (\<lambda>_. []) [ex_item]) = False" by code_simp
  then obtain items where "validate_items (\<lambda>_. []) [ex_item] = Inr items"
    by (cases "validate_items (\<lambda>_. []) [ex_item]") auto
  with accepted_plan_well_formed [OF this] show ?thesis by auto
qed

text \<open>Commits are idempotent per tool call: repeating a committed plan update with the same
  data, in whatever generation, answers with the current plan and changes nothing (no
  revision, no history event, no notification), and repeating its id with other data is
  refused and changes nothing.\<close>

theorem plan_update_idempotent:
  assumes "validate_items py_str raws = Inr items" and "dict_get (pc_committed pc) i = None"
    and "g = pc_generation pc" and "pe_write_ok env"
    and "pc' = fst (update_plan py_str env pc raws ex i g)"
  shows "update_plan py_str env' pc' raws ex i g' = (pc', Inr (pc_state pc', False)) \<and>
    ps_revision (pc_state pc') = ps_revision (pc_state pc) + 1 \<and> ps_items (pc_state pc') = items \<and>
    (\<forall>raws' items' ex'. validate_items py_str raws' = Inr items' \<longrightarrow>
       plan_fingerprint items' (trimmed ex') \<noteq> plan_fingerprint items (trimmed ex) \<longrightarrow>
       update_plan py_str env' pc' raws' ex' i g' = (pc', Inl Plan_Different_Data))"
proof -
  have "dict_get (pc_committed pc') i =
      Some (plan_fingerprint items (trimmed ex), ps_revision (pc_state pc) + 1)"
    "ps_revision (pc_state pc') = ps_revision (pc_state pc) + 1" "ps_items (pc_state pc') = items"
    using update_plan_commit [OF assms(1-4), of ex] assms(5)
    by (auto simp: persist_or_require_recovery_def dict_get_set)
  then show ?thesis using assms(1) by (simp add: update_plan_def Let_def)
qed

definition ex_plan_controller :: plan_controller where
  "ex_plan_controller = fresh_plan_controller ''main'' 0 ex_ledger"

theorem plan_update_idempotent_witness:
  "ps_revision (pc_state (fst (update_plan (\<lambda>_. []) (ex_plan_env ''p1'') ex_plan_controller [ex_item]
     None ''call1'' 0))) = 1"
proof -
  have "isl (validate_items (\<lambda>_. []) [ex_item]) = False" by code_simp
  then obtain items where v: "validate_items (\<lambda>_. []) [ex_item] = Inr items"
    by (cases "validate_items (\<lambda>_. []) [ex_item]") auto
  from plan_update_idempotent [OF v, of ex_plan_controller "''call1''" 0 "ex_plan_env ''p1''" _ None]
  show ?thesis
    by (simp add: ex_plan_controller_def fresh_plan_controller_def initial_plan_def ex_plan_env_def
        dict_get_def)
qed

text \<open>The history is enough to rebuild the controller: after any plan updates and progress
  reports in one generation whose writes succeed, interleaved with other events, recovery
  from the ledger returns the very same plan, progress and idempotency table, provided every
  call id is non-empty and no accepted explanation ends in a space after truncation.\<close>

theorem plan_recovered_from_history:
  assumes "list_all plan_quiet ops" and "lg_events l = []" "lg_generation l = generation"
    and "pc = run_ops (plan_step py_str) (fresh_plan_controller agent_id generation l) ops"
  shows "\<exists>found. recover_from_ledger py_str pc = Inr (pc, found)"
proof -
  have "mirrors py_str (fresh_plan_controller agent_id generation l)"
    using assms(2,3)
    by (simp add: mirrors_def fresh_plan_controller_def restore_plan_state_def restore_progress_state_def
        initial_plan_def initial_progress_def)
  from mirrors_recover [OF plan_run_mirrors [OF this assms(1)]] assms(4) show ?thesis by simp
qed

theorem plan_recovered_from_history_witness:
  "\<exists>found. recover_from_ledger (\<lambda>_. []) (run_ops (plan_step (\<lambda>_. [])) ex_plan_controller ex_plan_ops)
     = Inr (run_ops (plan_step (\<lambda>_. [])) ex_plan_controller ex_plan_ops, found)"
proof (rule plan_recovered_from_history)
  show "list_all plan_quiet ex_plan_ops" by code_simp
  show "lg_events ex_ledger = []" "lg_generation ex_ledger = 0" by (simp_all add: ex_ledger_def)
qed (simp add: ex_plan_controller_def)

definition ex_long_explanation :: string where
  "ex_long_explanation = replicate 499 (CHR ''x'') @ '' y''"

definition ex_long_controller :: plan_controller where
  "ex_long_controller = fst (update_plan (\<lambda>_. []) (ex_plan_env ''p1'') ex_plan_controller [ex_item]
     (Some ex_long_explanation) ''call1'' 0)"

text \<open>Without that proviso a retry fails after recovery: an explanation that is cut at 500
  characters just after a space is committed with the space and accepted when the same call
  is repeated, but the recovered table is computed from the stripped text, so repeating the
  same call after recovery is refused as different data.\<close>

theorem retry_refused_after_recovery:
  "snd (update_plan (\<lambda>_. []) (ex_plan_env ''p2'') ex_long_controller [ex_item]
     (Some ex_long_explanation) ''call1'' 0) = Inr (pc_state ex_long_controller, False) \<and>
   (case recover_from_ledger (\<lambda>_. []) ex_long_controller of
      Inr (pc, _) \<Rightarrow> snd (update_plan (\<lambda>_. []) (ex_plan_env ''p2'') pc [ex_item]
        (Some ex_long_explanation) ''call1'' 0) = Inl Plan_Different_Data
    | Inl _ \<Rightarrow> False)"
  by code_simp

end
