(* ===== verification/Output_Journal.thy ===== *)
theory Output_Journal
  imports History_Ledger
begin

text \<open>
  The journal of unfinished output (\<^verbatim>\<open>domain/output_journal.py\<close>): streamed text is buffered per
  stream, checkpointed to the history, acknowledged by the committed message, and projected
  back after an interruption. Fresh stream ids, stamps and write outcomes are inputs. The
  abstraction maps the journal to the full text of every live stream; the lemmas show that
  each operation implements its effect on those texts, that buffering is bounded, and that
  the projection of the history recovers every unacknowledged text.
\<close>

section \<open>Streams and the journal\<close>

record output_stream =
  os_id :: string
  os_kind :: string
  os_turn_id :: "string option"
  os_tool_call_id :: "string option"
  os_tool_name :: "string option"
  os_parts :: "string list"
  os_replace :: bool

type_synonym stream_key = "string \<times> string option"

datatype agent_event_type =
    Stream_Token
  | Stream_Reasoning
  | Tool_Output_Delta
  | Tool_Call_End
  | Chat_Start
  | Chat_End
  | Assistant_Stream_Interrupted
  | Other_Event

text \<open>\<open>ae_text\<close> is the text the journal reads: the tool result of a finished call, or the token or
  text of a delta, the empty string when absent.\<close>

record agent_event =
  ae_type :: agent_event_type
  ae_agent_id :: string
  ae_turn_id :: "string option"
  ae_correlation_id :: "string option"
  ae_tool_name :: "string option"
  ae_text :: string

record output_journal =
  oj_ledger :: ledger
  oj_agent_id :: string
  oj_streams :: "(stream_key, output_stream) dict"
  oj_timer :: bool
  oj_pending_chars :: int

text \<open>The outside of an operation: the stamp and the write outcome of the event that gets a
  given sequence number.\<close>

record journal_env =
  je_stamp :: "int \<Rightarrow> stamp"
  je_ok :: "int \<Rightarrow> bool"

fun stream_kind :: "agent_event_type \<Rightarrow> string option" where
  "stream_kind Stream_Token = Some ''response''"
| "stream_kind Stream_Reasoning = Some ''reasoning''"
| "stream_kind Tool_Output_Delta = Some ''tool''"
| "stream_kind Tool_Call_End = Some ''tool''"
| "stream_kind _ = None"

definition checkpoint_payload :: "output_stream \<Rightarrow> json" where
  "checkpoint_payload s = JObj
     [(''stream_id'', JStr (os_id s)), (''kind'', JStr (os_kind s)), (''text'', JStr (concat (os_parts s))),
      (''tool_call_id'', json_opt_str (os_tool_call_id s)), (''tool_name'', json_opt_str (os_tool_name s)),
      (''replace'', JBool (os_replace s))]"

definition cleared :: "output_stream \<Rightarrow> output_stream" where
  "cleared s = s\<lparr>os_parts := [], os_replace := False\<rparr>"

text \<open>The loop of \<open>_flush_locked\<close> over the streams in order; a failed write raises with the
  earlier streams flushed and this one and the later ones untouched.\<close>

fun flush_streams ::
    "journal_env \<Rightarrow> string \<Rightarrow> ledger \<Rightarrow> int \<Rightarrow> (stream_key, output_stream) dict
      \<Rightarrow> ledger \<times> int \<times> (stream_key, output_stream) dict \<times> py_exn option" where
  "flush_streams env agent l pending [] = (l, pending, [], None)"
| "flush_streams env agent l pending ((k, s) # rest) =
     (if os_parts s = []
      then let (l', pending', rest', e) = flush_streams env agent l pending rest
           in (l', pending', (k, s) # rest', e)
      else
        case append_event (je_ok env (lg_next_seq l)) l ''output_checkpoint'' (checkpoint_payload s)
               (no_attribution\<lparr>at_agent_id := Some agent, at_turn_id := os_turn_id s\<rparr>)
               (je_stamp env (lg_next_seq l)) of
          (l1, Inl e) \<Rightarrow> (l1, pending, (k, s) # rest, Some e)
        | (l1, Inr _) \<Rightarrow>
            let (l', pending', rest', e) =
                  flush_streams env agent l1 (pending - int (length (concat (os_parts s)))) rest
            in (l', pending', (k, cleared s) # rest', e))"

definition flush_locked :: "journal_env \<Rightarrow> output_journal \<Rightarrow> output_journal \<times> py_exn option" where
  "flush_locked env j =
     (let (l, pending, streams, e) =
            flush_streams env (oj_agent_id j) (oj_ledger j) (oj_pending_chars j) (oj_streams j)
      in (j\<lparr>oj_ledger := l, oj_pending_chars := pending, oj_streams := streams, oj_timer := False\<rparr>, e))"

definition flush_limit :: int where "flush_limit = 65536"

definition new_stream :: "string \<Rightarrow> string \<Rightarrow> agent_event \<Rightarrow> output_stream" where
  "new_stream sid kind ev = \<lparr>os_id = sid, os_kind = kind, os_turn_id = ae_turn_id ev,
     os_tool_call_id = ae_correlation_id ev, os_tool_name = ae_tool_name ev, os_parts = [],
     os_replace = False\<rparr>"

text \<open>The part of \<open>record\<close> that adds text to a stream; \<open>sid\<close> is the id a new stream gets.\<close>

definition add_text ::
    "journal_env \<Rightarrow> string \<Rightarrow> string \<Rightarrow> bool \<Rightarrow> agent_event \<Rightarrow> output_journal
      \<Rightarrow> output_journal \<times> py_exn option" where
  "add_text env sid kind final ev j =
     (let key = (kind, ae_correlation_id ev);
          s0 = (case dict_get (oj_streams j) key of Some s \<Rightarrow> s | None \<Rightarrow> new_stream sid kind ev);
          pending0 = (if final then oj_pending_chars j - int (length (concat (os_parts s0)))
                      else oj_pending_chars j);
          s1 = (if final then s0\<lparr>os_parts := [], os_replace := True\<rparr> else s0);
          s2 = s1\<lparr>os_parts := os_parts s1 @ [ae_text ev]\<rparr>;
          pending = pending0 + int (length (ae_text ev));
          j' = j\<lparr>oj_streams := dict_set key s2 (oj_streams j), oj_pending_chars := pending\<rparr>
      in if final \<or> pending \<ge> flush_limit then flush_locked env j'
         else (j'\<lparr>oj_timer := True\<rparr>, None))"

definition record_output ::
    "journal_env \<Rightarrow> string \<Rightarrow> output_journal \<Rightarrow> agent_event \<Rightarrow> output_journal \<times> py_exn option" where
  "record_output env sid j ev =
     (if ae_agent_id ev \<noteq> oj_agent_id j then (j, None)
      else
        let (j1, e) =
              (if ae_type ev = Chat_Start \<or> ae_type ev = Chat_End
               then (case flush_locked env j of
                       (j', None) \<Rightarrow> (j'\<lparr>oj_streams := []\<rparr>, None) | (j', Some e) \<Rightarrow> (j', Some e))
               else if ae_type ev = Assistant_Stream_Interrupted
               then (case flush_locked env j of
                       (j', None) \<Rightarrow>
                         (j'\<lparr>oj_streams := filter (\<lambda>(k, s). os_kind s = ''tool'') (oj_streams j')\<rparr>, None)
                     | (j', Some e) \<Rightarrow> (j', Some e))
               else (j, None))
        in case e of
             Some e \<Rightarrow> (j1, Some e)
           | None \<Rightarrow>
               (case stream_kind (ae_type ev) of
                  None \<Rightarrow> (j1, None)
                | Some kind \<Rightarrow>
                    let final = (ae_type ev = Tool_Call_End)
                    in if ae_text ev = [] \<and> \<not> final then (j1, None)
                       else add_text env sid kind final ev j1))"

definition flush_scheduled :: "journal_env \<Rightarrow> output_journal \<Rightarrow> output_journal \<times> py_exn option" where
  "flush_scheduled env j = (if oj_timer j then flush_locked env j else (j, None))"

text \<open>\<open>commit\<close> around the append of a message: the matching streams, a flush, the metadata that
  names their ids, the caller's append, and the removal of the streams once it returned.\<close>

definition commits_stream :: "(string, json) dict \<Rightarrow> output_stream \<Rightarrow> bool" where
  "commits_stream message s \<longleftrightarrow>
     field message ''role'' = JStr ''assistant'' \<and> os_kind s \<noteq> ''tool'' \<or>
     field message ''role'' = JStr ''tool'' \<and> os_kind s = ''tool'' \<and>
       json_opt_str (os_tool_call_id s) = field message ''tool_call_id''"

definition commit_metadata :: "string list \<Rightarrow> (string, json) dict" where
  "commit_metadata ids = (if ids = [] then [] else [(''output_stream_ids'', JList (map JStr ids))])"

definition commit_message ::
    "journal_env \<Rightarrow> output_journal \<Rightarrow> (string, json) dict
      \<Rightarrow> (ledger \<Rightarrow> (string, json) dict \<Rightarrow> ledger \<times> py_exn option) \<Rightarrow> output_journal \<times> py_exn option" where
  "commit_message env j message body =
     (let selected = map fst (filter (\<lambda>(k, s). commits_stream message s) (oj_streams j))
      in case flush_locked env j of
           (j1, Some e) \<Rightarrow> (j1, Some e)
         | (j1, None) \<Rightarrow>
             let ids = concat (map (\<lambda>k. case dict_get (oj_streams j1) k of Some s \<Rightarrow> [os_id s] | None \<Rightarrow> []) selected);
                 (l, e) = body (oj_ledger j1) (commit_metadata ids);
                 j2 = j1\<lparr>oj_ledger := l\<rparr>
             in case e of
                  Some e \<Rightarrow> (j2, Some e)
                | None \<Rightarrow> (j2\<lparr>oj_streams := fold dict_pop selected (oj_streams j2)\<rparr>, None))"

definition close_journal :: "journal_env \<Rightarrow> output_journal \<Rightarrow> output_journal \<times> py_exn option" where
  "close_journal env j =
     (case flush_locked env j of
        (j', None) \<Rightarrow> (j'\<lparr>oj_streams := []\<rparr>, None) | (j', Some e) \<Rightarrow> (j', Some e))"

section \<open>Projection after an interruption\<close>

definition str_items :: "json \<Rightarrow> string list" where
  "str_items v = (case v of JList xs \<Rightarrow>
     concat (map (\<lambda>x. case x of JStr s \<Rightarrow> [s] | _ \<Rightarrow> []) xs) | _ \<Rightarrow> [])"

definition completed_ids :: "history_event list \<Rightarrow> string list" where
  "completed_ids events = concat (map (\<lambda>e. str_items (jget (he_payload e) ''output_stream_ids''))
     (filter (\<lambda>e. he_kind e = ''message_committed'') events))"

definition as_str :: "json \<Rightarrow> string" where
  "as_str v = (case v of JStr s \<Rightarrow> s | _ \<Rightarrow> [])"

definition stream_label :: "json \<Rightarrow> string" where
  "stream_label data = as_str (jget data ''kind'') @
     (if truthy (jget data ''tool_name'') then '' / '' @ as_str (jget data ''tool_name'') else [])"

definition project_event ::
    "string list \<Rightarrow> (string, int \<times> string \<times> string list) dict \<Rightarrow> history_event
      \<Rightarrow> (string, int \<times> string \<times> string list) dict" where
  "project_event completed streams event =
     (if he_kind event \<noteq> ''output_checkpoint'' then streams
      else
        let data = he_payload event;
            stream_id = as_str (jget data ''stream_id'')
        in if stream_id \<in> set completed then streams
           else
             let (seq, label, parts) =
                   (case dict_get streams stream_id of
                      Some entry \<Rightarrow> entry | None \<Rightarrow> (he_seq event, stream_label data, []));
                 kept = (if truthy (jget data ''replace'') then [] else parts)
             in dict_set stream_id (seq, label, kept @ [as_str (jget data ''text'')]) streams)"

definition interrupted_output :: "history_event list \<Rightarrow> (int \<times> string) list" where
  "interrupted_output events =
     map (\<lambda>(stream_id, seq, label, parts).
        (seq, ''[Recovered '' @ label @ '' - session interrupted]'' @ [CHR 0x0A] @ concat parts))
       (foldl (project_event (completed_ids events)) [] events)"


section \<open>The text a history holds for a stream\<close>

definition checkpoint_step :: "string \<Rightarrow> string option \<Rightarrow> history_event \<Rightarrow> string option" where
  "checkpoint_step sid acc e =
     (if he_kind e = ''output_checkpoint'' \<and> as_str (jget (he_payload e) ''stream_id'') = sid
      then Some ((if truthy (jget (he_payload e) ''replace'') then [] else or_empty acc)
        @ as_str (jget (he_payload e) ''text''))
      else acc)"

definition checkpointed :: "string \<Rightarrow> history_event list \<Rightarrow> string option" where
  "checkpointed sid events = foldl (checkpoint_step sid) None events"

lemma checkpointed_snoc: "checkpointed sid (events @ [e]) = checkpoint_step sid (checkpointed sid events) e"
  by (simp add: checkpointed_def)

definition entry_text :: "int \<times> string \<times> string list \<Rightarrow> string" where
  "entry_text entry = concat (snd (snd entry))"

lemma project_event_text:
  assumes "sid \<notin> set completed"
  shows "map_option entry_text (dict_get (project_event completed d e) sid)
    = checkpoint_step sid (map_option entry_text (dict_get d sid)) e"
proof (cases "he_kind e = ''output_checkpoint'' \<and> as_str (jget (he_payload e) ''stream_id'') = sid")
  case True
  then show ?thesis
    using assms
    by (cases "dict_get d sid")
      (auto simp: checkpoint_step_def project_event_def Let_def dict_get_set or_empty_def entry_text_def
        split: prod.splits)
next
  case False
  then show ?thesis
    by (auto simp: checkpoint_step_def project_event_def Let_def dict_get_set split: prod.splits)
qed

lemma projection_text:
  assumes "sid \<notin> set completed"
  shows "map_option entry_text (dict_get (foldl (project_event completed) [] events) sid)
    = checkpointed sid events"
  by (induction events rule: rev_induct)
    (simp_all add: checkpointed_def pydict.get_emp project_event_text [OF assms])

lemma projection_completed:
  assumes "sid \<in> set completed"
  shows "dict_get (foldl (project_event completed) [] events) sid = None"
  using assms
  by (induction events rule: rev_induct)
    (auto simp: project_event_def Let_def dict_get_set pydict.get_emp split: prod.splits)

definition live_text :: "history_event list \<Rightarrow> output_stream \<Rightarrow> string" where
  "live_text events s =
     (if os_replace s then [] else or_empty (checkpointed (os_id s) events)) @ concat (os_parts s)"

definition abs_journal :: "output_journal \<Rightarrow> stream_key \<Rightarrow> string option" where
  "abs_journal j k = map_option (live_text (lg_events (oj_ledger j))) (dict_get (oj_streams j) k)"

definition buffered :: "(stream_key, output_stream) dict \<Rightarrow> int" where
  "buffered streams = sum_list (map (\<lambda>(k, s). int (length (concat (os_parts s)))) streams)"

definition stream_inv :: "history_event list \<Rightarrow> stream_key \<Rightarrow> output_stream \<Rightarrow> bool" where
  "stream_inv events k s \<longleftrightarrow> fst k = os_kind s \<and> (os_replace s \<longrightarrow> os_parts s \<noteq> []) \<and>
     (os_parts s \<noteq> [] \<or> checkpointed (os_id s) events \<noteq> None) \<and> os_id s \<notin> set (completed_ids events)"

definition journal_inv :: "output_journal \<Rightarrow> bool" where
  "journal_inv j \<longleftrightarrow> dict_ok (oj_streams j) \<and> distinct (map (\<lambda>(k, s). os_id s) (oj_streams j)) \<and>
     (\<forall>(k, s)\<in>set (oj_streams j). stream_inv (lg_events (oj_ledger j)) k s) \<and>
     oj_pending_chars j = buffered (oj_streams j) \<and> oj_pending_chars j < flush_limit"

section \<open>Flushing\<close>

definition checkpoint_event ::
    "journal_env \<Rightarrow> string \<Rightarrow> ledger \<Rightarrow> output_stream \<Rightarrow> history_event" where
  "checkpoint_event env agent l s = make_event l ''output_checkpoint'' (checkpoint_payload s)
     (no_attribution\<lparr>at_agent_id := Some agent, at_turn_id := os_turn_id s\<rparr>) (je_stamp env (lg_next_seq l))"

lemma checkpoint_event_step:
  "checkpoint_step sid acc (checkpoint_event env agent l s) =
    (if os_id s = sid then Some ((if os_replace s then [] else or_empty acc) @ concat (os_parts s)) else acc)"
  by (simp add: checkpoint_step_def checkpoint_event_def make_event_def checkpoint_payload_def as_str_def)

lemma completed_checkpoint: "completed_ids (events @ [checkpoint_event env agent l s]) = completed_ids events"
  by (simp add: completed_ids_def checkpoint_event_def make_event_def)

definition flushed :: "output_stream \<Rightarrow> output_stream" where
  "flushed s = (if os_parts s = [] then s else cleared s)"

lemma flushed_simps [simp]:
  "os_id (flushed s) = os_id s" "os_kind (flushed s) = os_kind s" "os_parts (flushed s) = []"
  "os_tool_call_id (flushed s) = os_tool_call_id s"
  by (simp_all add: flushed_def cleared_def)

lemma flush_streams_ok:
  assumes "\<forall>n. je_ok env n" and "flush_streams env agent l p streams = (l', p', streams', e)"
  shows "e = None \<and> streams' = map (\<lambda>(k, s). (k, flushed s)) streams \<and> p' = p - buffered streams \<and>
    completed_ids (lg_events l') = completed_ids (lg_events l) \<and>
    (\<forall>sid. sid \<notin> (\<lambda>(k, s). os_id s) ` set streams \<longrightarrow>
       checkpointed sid (lg_events l') = checkpointed sid (lg_events l))"
  using assms(2)
proof (induction streams arbitrary: l p l' p' streams' e)
  case Nil
  then show ?case by (simp add: buffered_def)
next
  case (Cons ks rest)
  obtain k s where ks: "ks = (k, s)" by (cases ks)
  show ?case
  proof (cases "os_parts s = []")
    case True
    obtain l1 p1 r1 e1 where f: "flush_streams env agent l p rest = (l1, p1, r1, e1)"
      by (metis prod_cases4)
    from Cons.prems ks True f have "(l', p', streams', e) = (l1, p1, (k, s) # r1, e1)" by simp
    with Cons.IH [OF f] ks True show ?thesis
      by (auto simp: buffered_def flushed_def)
  next
    case False
    obtain l1 res where a: "append_event True l ''output_checkpoint'' (checkpoint_payload s)
        (no_attribution\<lparr>at_agent_id := Some agent, at_turn_id := os_turn_id s\<rparr>)
        (je_stamp env (lg_next_seq l)) = (l1, res)" by fastforce
    obtain l2 p2 r2 e2 where f: "flush_streams env agent l1 (p - int (length (concat (os_parts s)))) rest
        = (l2, p2, r2, e2)" by (metis prod_cases4)
    from Cons.prems ks False a append_event_ok [OF a] f assms(1)
    have eq: "(l', p', streams', e) = (l2, p2, (k, cleared s) # r2, e2)" by simp
    have ev: "lg_events l1 = lg_events l @ [checkpoint_event env agent l s]"
      using append_event_frame(1) [OF a] by (simp add: checkpoint_event_def)
    show ?thesis
      using Cons.IH [OF f] eq ks False ev
      by (auto simp: buffered_def flushed_def checkpointed_snoc checkpoint_event_step completed_checkpoint)
  qed
qed

text \<open>After a flush the history holds the whole text of every stream it flushed.\<close>

lemma flush_streams_text:
  assumes "\<forall>n. je_ok env n" and "flush_streams env agent l p streams = (l', p', streams', e)"
    and "distinct (map (\<lambda>(k, s). os_id s) streams)" and "(k, s) \<in> set streams"
  shows "checkpointed (os_id s) (lg_events l') =
    (if os_parts s = [] then checkpointed (os_id s) (lg_events l) else Some (live_text (lg_events l) s))"
  using assms(2-4)
proof (induction streams arbitrary: l p l' p' streams' e)
  case Nil
  then show ?case by simp
next
  case (Cons ks rest)
  obtain k0 s0 where ks: "ks = (k0, s0)" by (cases ks)
  show ?case
  proof (cases "os_parts s0 = []")
    case True
    obtain l1 p1 r1 e1 where f: "flush_streams env agent l p rest = (l1, p1, r1, e1)"
      by (metis prod_cases4)
    from Cons.prems ks True f have l': "l' = l1" by simp
    show ?thesis
    proof (cases "(k, s) \<in> set rest")
      case True
      with Cons.IH [OF f] Cons.prems(2) ks l' show ?thesis by simp
    next
      case False
      with Cons.prems ks have "s = s0" by auto
      moreover have "os_id s0 \<notin> (\<lambda>(k, s). os_id s) ` set rest" using Cons.prems(2) ks by auto
      ultimately show ?thesis using flush_streams_ok [OF assms(1) f] True l' by simp
    qed
  next
    case False
    obtain l1 res where a: "append_event True l ''output_checkpoint'' (checkpoint_payload s0)
        (no_attribution\<lparr>at_agent_id := Some agent, at_turn_id := os_turn_id s0\<rparr>)
        (je_stamp env (lg_next_seq l)) = (l1, res)" by fastforce
    obtain l2 p2 r2 e2 where f: "flush_streams env agent l1 (p - int (length (concat (os_parts s0)))) rest
        = (l2, p2, r2, e2)" by (metis prod_cases4)
    from Cons.prems ks False a append_event_ok [OF a] f assms(1) have l': "l' = l2" by simp
    have ev: "lg_events l1 = lg_events l @ [checkpoint_event env agent l s0]"
      using append_event_frame(1) [OF a] by (simp add: checkpoint_event_def)
    have other: "checkpointed sid (lg_events l1) = checkpointed sid (lg_events l)" if "sid \<noteq> os_id s0" for sid
      using that by (simp add: ev checkpointed_snoc checkpoint_event_step)
    show ?thesis
    proof (cases "(k, s) \<in> set rest")
      case True
      then have "os_id s \<noteq> os_id s0" using Cons.prems(2) ks by force
      with Cons.IH [OF f _ True] Cons.prems(2) ks l' other [of "os_id s"] show ?thesis
        by (simp add: live_text_def)
    next
      case rest: False
      with Cons.prems ks have "s = s0" by auto
      moreover have "os_id s0 \<notin> (\<lambda>(k, s). os_id s) ` set rest" using Cons.prems(2) ks by auto
      ultimately show ?thesis
        using flush_streams_ok [OF assms(1) f] False l'
        by (simp add: ev checkpointed_snoc checkpoint_event_step live_text_def)
    qed
  qed
qed

lemma dict_get_map_flushed:
  "dict_get (map (\<lambda>(k, s). (k, flushed s)) streams) k = map_option flushed (dict_get streams k)"
  by (simp add: dict_get_def map_of_map)

lemma buffered_flushed: "buffered (map (\<lambda>(k, s). (k, flushed s)) streams) = 0"
  by (induction streams) (auto simp: buffered_def)

lemma buffered_nonneg: "0 \<le> buffered streams"
  by (induction streams) (auto simp: buffered_def)

lemma flush_locked_ok:
  assumes ok: "\<forall>n. je_ok env n" and run: "flush_locked env j = (j', e)"
    and streams: "dict_ok (oj_streams j)" "distinct (map (\<lambda>(k, s). os_id s) (oj_streams j))"
      "\<forall>(k, s)\<in>set (oj_streams j). stream_inv (lg_events (oj_ledger j)) k s"
    and pending: "oj_pending_chars j = buffered (oj_streams j)"
  shows "e = None" "journal_inv j'" "abs_journal j' = abs_journal j" "oj_pending_chars j' = 0"
    "oj_agent_id j' = oj_agent_id j"
    "oj_streams j' = map (\<lambda>(k, s). (k, flushed s)) (oj_streams j)"
    "completed_ids (lg_events (oj_ledger j')) = completed_ids (lg_events (oj_ledger j))"
    "\<And>k s. (k, s) \<in> set (oj_streams j) \<Longrightarrow>
       checkpointed (os_id s) (lg_events (oj_ledger j')) = Some (live_text (lg_events (oj_ledger j)) s)"
    "\<And>sid. sid \<notin> (\<lambda>(k, s). os_id s) ` set (oj_streams j) \<Longrightarrow>
       checkpointed sid (lg_events (oj_ledger j')) = checkpointed sid (lg_events (oj_ledger j))"
proof -
  obtain l p st e0 where f: "flush_streams env (oj_agent_id j) (oj_ledger j) (oj_pending_chars j) (oj_streams j)
      = (l, p, st, e0)" by (metis prod_cases4)
  have j': "j' = j\<lparr>oj_ledger := l, oj_pending_chars := p, oj_streams := st, oj_timer := False\<rparr>" "e = e0"
    using run f by (simp_all add: flush_locked_def)
  note F = flush_streams_ok [OF ok f]
  show e: "e = None" and p: "oj_pending_chars j' = 0" and agent: "oj_agent_id j' = oj_agent_id j"
    and st: "oj_streams j' = map (\<lambda>(k, s). (k, flushed s)) (oj_streams j)"
    and comp: "completed_ids (lg_events (oj_ledger j')) = completed_ids (lg_events (oj_ledger j))"
    using F pending by (simp_all add: j')
  show other: "checkpointed sid (lg_events (oj_ledger j')) = checkpointed sid (lg_events (oj_ledger j))"
    if "sid \<notin> (\<lambda>(k, s). os_id s) ` set (oj_streams j)" for sid
    using F that by (simp add: j')
  show whole: "checkpointed (os_id s) (lg_events (oj_ledger j')) = Some (live_text (lg_events (oj_ledger j)) s)"
    if m: "(k, s) \<in> set (oj_streams j)" for k s
  proof -
    have "stream_inv (lg_events (oj_ledger j)) k s" using streams(3) m by auto
    then show ?thesis
      using flush_streams_text [OF ok f streams(2) m]
      by (auto simp: j' stream_inv_def live_text_def or_empty_def)
  qed
  have live: "live_text (lg_events (oj_ledger j')) (flushed s) = live_text (lg_events (oj_ledger j)) s"
    if m: "(k, s) \<in> set (oj_streams j)" for k s
  proof -
    have "stream_inv (lg_events (oj_ledger j)) k s" using streams(3) m by auto
    then have "\<not> os_replace (flushed s)" by (auto simp: flushed_def cleared_def stream_inv_def)
    then show ?thesis using whole [OF m] by (simp add: live_text_def or_empty_def)
  qed
  show "abs_journal j' = abs_journal j"
  proof
    fix k
    show "abs_journal j' k = abs_journal j k"
      using live dict_get_SomeD [of "oj_streams j" k]
      by (cases "dict_get (oj_streams j) k") (simp_all add: abs_journal_def st dict_get_map_flushed)
  qed
  have "stream_inv (lg_events (oj_ledger j')) k (flushed s)" if m: "(k, s) \<in> set (oj_streams j)" for k s
  proof -
    have "stream_inv (lg_events (oj_ledger j)) k s" using streams(3) m by auto
    then show ?thesis
      using whole [OF m] comp by (auto simp: stream_inv_def flushed_def cleared_def)
  qed
  moreover have "map (\<lambda>(k, s). os_id s) (oj_streams j') = map (\<lambda>(k, s). os_id s) (oj_streams j)"
    "keys (oj_streams j') = keys (oj_streams j)"
    by (auto simp: st)
  ultimately have "dict_ok (oj_streams j')" "distinct (map (\<lambda>(k, s). os_id s) (oj_streams j'))"
    "\<forall>(k, s)\<in>set (oj_streams j'). stream_inv (lg_events (oj_ledger j')) k s"
    using streams(1,2) by (simp_all only: dict_ok_def) (auto simp: st)
  moreover have "oj_pending_chars j' = buffered (oj_streams j')" using p by (simp add: st buffered_flushed)
  ultimately show "journal_inv j'"
    using p by (simp add: journal_inv_def flush_limit_def)
qed

lemma journal_inv_flush:
  assumes "\<forall>n. je_ok env n" and "journal_inv j" and "flush_locked env j = (j', e)"
  shows "e = None" "journal_inv j'" "abs_journal j' = abs_journal j" "oj_pending_chars j' = 0"
    "oj_agent_id j' = oj_agent_id j" "oj_streams j' = map (\<lambda>(k, s). (k, flushed s)) (oj_streams j)"
    "completed_ids (lg_events (oj_ledger j')) = completed_ids (lg_events (oj_ledger j))"
    "\<And>k s. (k, s) \<in> set (oj_streams j) \<Longrightarrow>
       checkpointed (os_id s) (lg_events (oj_ledger j')) = Some (live_text (lg_events (oj_ledger j)) s)"
    "\<And>sid. sid \<notin> (\<lambda>(k, s). os_id s) ` set (oj_streams j) \<Longrightarrow>
       checkpointed sid (lg_events (oj_ledger j')) = checkpointed sid (lg_events (oj_ledger j))"
  using flush_locked_ok [OF assms(1,3)] assms(2) by (simp_all add: journal_inv_def)

section \<open>Recording refines the text map\<close>

definition fresh_stream_id :: "string \<Rightarrow> output_journal \<Rightarrow> bool" where
  "fresh_stream_id sid j \<longleftrightarrow> sid \<notin> (\<lambda>(k, s). os_id s) ` set (oj_streams j) \<and>
     checkpointed sid (lg_events (oj_ledger j)) = None \<and> sid \<notin> set (completed_ids (lg_events (oj_ledger j)))"

text \<open>What \<open>record\<close> means for the texts of the live streams.\<close>

definition spec_record ::
    "string \<Rightarrow> (stream_key \<Rightarrow> string option) \<Rightarrow> agent_event \<Rightarrow> stream_key \<Rightarrow> string option" where
  "spec_record agent m ev =
     (if ae_agent_id ev \<noteq> agent then m
      else
        let m1 = (if ae_type ev = Chat_Start \<or> ae_type ev = Chat_End then (\<lambda>_. None)
                  else if ae_type ev = Assistant_Stream_Interrupted
                  then (\<lambda>k. if fst k = ''tool'' then m k else None) else m)
        in case stream_kind (ae_type ev) of
             None \<Rightarrow> m1
           | Some kind \<Rightarrow>
               if ae_type ev = Tool_Call_End then m1((kind, ae_correlation_id ev) \<mapsto> ae_text ev)
               else if ae_text ev = [] then m1
               else m1((kind, ae_correlation_id ev) \<mapsto>
                      or_empty (m1 (kind, ae_correlation_id ev)) @ ae_text ev))"

lemma buffered_set:
  "dict_ok d \<Longrightarrow> buffered (dict_set k s d) = buffered d - (case dict_get d k of
     Some s0 \<Rightarrow> int (length (concat (os_parts s0))) | None \<Rightarrow> 0) + int (length (concat (os_parts s)))"
  by (induction d)
    (auto simp: buffered_def dict_get_def dict_ok_def simp del: map_of_eq_Some_iff split: option.splits)

lemma ids_dict_set_same:
  "dict_get d k = Some s0 \<Longrightarrow> os_id s = os_id s0 \<Longrightarrow>
    map (\<lambda>(k, s). os_id s) (dict_set k s d) = map (\<lambda>(k, s). os_id s) d"
  by (induction d) (auto simp: dict_get_def split: if_splits)

lemma add_text_refines:
  assumes ok: "\<forall>n. je_ok env n" and inv: "journal_inv j" and fresh: "fresh_stream_id sid j"
    and run: "add_text env sid kind final ev j = (j', e)"
  shows "e = None \<and> journal_inv j' \<and> oj_agent_id j' = oj_agent_id j \<and>
    abs_journal j' = (abs_journal j)((kind, ae_correlation_id ev) \<mapsto>
      (if final then ae_text ev else or_empty (abs_journal j (kind, ae_correlation_id ev)) @ ae_text ev))"
proof -
  let ?key = "(kind, ae_correlation_id ev)" and ?evs = "lg_events (oj_ledger j)"
  define s0 where "s0 = (case dict_get (oj_streams j) ?key of Some s \<Rightarrow> s | None \<Rightarrow> new_stream sid kind ev)"
  define s2 where "s2 = (if final then s0\<lparr>os_parts := [ae_text ev], os_replace := True\<rparr>
     else s0\<lparr>os_parts := os_parts s0 @ [ae_text ev]\<rparr>)"
  define j1 where "j1 = j\<lparr>oj_streams := dict_set ?key s2 (oj_streams j),
     oj_pending_chars := buffered (dict_set ?key s2 (oj_streams j))\<rparr>"
  note I = inv [unfolded journal_inv_def]
  have ok0: "dict_ok (oj_streams j)" using I by simp
  have s2: "os_id s2 = os_id s0" "os_kind s2 = os_kind s0" "os_parts s2 \<noteq> []" by (simp_all add: s2_def)
  have old: "?key \<notin> set (keys (oj_streams j)) \<or> dict_get (oj_streams j) ?key = Some s0"
    by (cases "dict_get (oj_streams j) ?key") (simp_all add: s0_def dict_get_None_iff)
  have found: "stream_inv ?evs ?key s" if "dict_get (oj_streams j) ?key = Some s" for s
    using I dict_get_SomeD [OF that] by auto
  have kind: "os_kind s0 = kind" "os_id s0 \<notin> set (completed_ids ?evs)"
    using fresh found
    by (auto simp: s0_def new_stream_def stream_inv_def fresh_stream_id_def split: option.splits)
  have ids: "distinct (map (\<lambda>(k, s). os_id s) (dict_set ?key s2 (oj_streams j)))"
  proof (cases "dict_get (oj_streams j) ?key")
    case None
    then have "dict_set ?key s2 (oj_streams j) = oj_streams j @ [(?key, s2)]"
      by (intro dict_set_new) (simp add: dict_get_None_iff)
    moreover have "os_id s2 = sid" using s2 None by (simp add: s0_def new_stream_def)
    ultimately show ?thesis using I fresh by (auto simp: fresh_stream_id_def)
  next
    case (Some s)
    then show ?thesis using I ids_dict_set_same [OF Some, of s2] s2 by (simp add: s0_def)
  qed
  have sinv: "\<forall>(k, s)\<in>set (oj_streams j1). stream_inv (lg_events (oj_ledger j1)) k s"
    using I kind s2 by (auto simp: j1_def stream_inv_def dest!: dict_set_mem)
  have abs: "abs_journal j1 = (abs_journal j)(?key \<mapsto>
      (if final then ae_text ev else or_empty (abs_journal j ?key) @ ae_text ev))"
  proof
    fix k
    have "live_text ?evs s2 = (if final then ae_text ev else or_empty (abs_journal j ?key) @ ae_text ev)"
    proof (cases "dict_get (oj_streams j) ?key")
      case None
      then show ?thesis
        using fresh by (simp add: live_text_def s2_def s0_def new_stream_def abs_journal_def or_empty_def
            fresh_stream_id_def)
    next
      case (Some s)
      then show ?thesis by (simp add: live_text_def s2_def s0_def abs_journal_def or_empty_def)
    qed
    then show "abs_journal j1 k = ((abs_journal j)(?key \<mapsto>
        (if final then ae_text ev else or_empty (abs_journal j ?key) @ ae_text ev))) k"
      by (simp add: abs_journal_def j1_def dict_get_set)
  qed
  have pend: "(if final then oj_pending_chars j - int (length (concat (os_parts s0))) else oj_pending_chars j)
      + int (length (ae_text ev)) = buffered (dict_set ?key s2 (oj_streams j))"
    using I buffered_set [OF ok0, of ?key s2]
    by (cases "dict_get (oj_streams j) ?key") (auto simp: s2_def s0_def new_stream_def)
  have run': "add_text env sid kind final ev j =
      (if final \<or> oj_pending_chars j1 \<ge> flush_limit then flush_locked env j1
       else (j1\<lparr>oj_timer := True\<rparr>, None))"
  proof -
    have "(if final then s0\<lparr>os_parts := [], os_replace := True\<rparr> else s0)
        \<lparr>os_parts := os_parts (if final then s0\<lparr>os_parts := [], os_replace := True\<rparr> else s0) @ [ae_text ev]\<rparr> = s2"
      by (simp add: s2_def)
    then show ?thesis unfolding add_text_def Let_def s0_def [symmetric] pend
      by (simp only: j1_def) simp
  qed
  show ?thesis
  proof (cases "final \<or> oj_pending_chars j1 \<ge> flush_limit")
    case True
    then have f: "flush_locked env j1 = (j', e)" using run run' by simp
    have "dict_ok (oj_streams j1)" using dict_ok_set [OF ok0] by (simp add: j1_def)
    moreover have "oj_pending_chars j1 = buffered (oj_streams j1)" by (simp add: j1_def)
    moreover have "distinct (map (\<lambda>(k, s). os_id s) (oj_streams j1))" using ids by (simp add: j1_def)
    ultimately show ?thesis
      using flush_locked_ok(1-3,5) [OF ok f] sinv abs by (simp add: j1_def)
  next
    case False
    then have j': "j' = j1\<lparr>oj_timer := True\<rparr>" "e = None" using run run' by simp_all
    have "journal_inv j'"
      using ids sinv False dict_ok_set [OF ok0, of ?key s2] by (simp add: journal_inv_def j' j1_def)
    moreover have "abs_journal j' = abs_journal j1" by (simp add: abs_journal_def fun_eq_iff j')
    ultimately show ?thesis using abs j' by (simp add: j1_def)
  qed
qed

lemma dict_get_filter:
  "dict_ok d \<Longrightarrow> dict_get (filter (\<lambda>(k, v). P v) d) k =
    (case dict_get d k of Some v \<Rightarrow> if P v then Some v else None | None \<Rightarrow> None)"
proof (induction d)
  case Nil
  then show ?case by (simp add: pydict.get_emp)
next
  case (Cons kv d)
  obtain k0 v0 where kv: "kv = (k0, v0)" by (cases kv)
  have "dict_get (filter (\<lambda>(k, v). P v) d) k0 = None" "dict_get d k0 = None"
    using Cons.prems kv by (auto simp: dict_get_None_iff dict_ok_def rev_image_eqI)
  with Cons kv show ?case by (auto simp: dict_get_def dict_ok_def)
qed

lemma buffered_empty: "\<forall>(k, s)\<in>set d. os_parts s = [] \<Longrightarrow> buffered d = 0"
  by (induction d) (auto simp: buffered_def)

lemma journal_inv_drop_streams:
  assumes inv: "journal_inv j" and "oj_pending_chars j = 0" "\<forall>(k, s)\<in>set (oj_streams j). os_parts s = []"
  shows "journal_inv (j\<lparr>oj_streams := filter P (oj_streams j)\<rparr>)"
proof -
  have "buffered (filter P (oj_streams j)) = 0"
    using assms(3) by (intro buffered_empty) auto
  moreover have "dict_ok (filter P (oj_streams j))"
    "distinct (map (\<lambda>(k, s). os_id s) (filter P (oj_streams j)))"
    using inv by (auto simp: journal_inv_def dict_ok_def distinct_map_filter)
  ultimately show ?thesis using inv assms(2) by (auto simp: journal_inv_def flush_limit_def)
qed

lemma flushed_parts:
  "oj_streams j' = map (\<lambda>(k, s). (k, flushed s)) streams \<Longrightarrow> \<forall>(k, s)\<in>set (oj_streams j'). os_parts s = []"
  by auto

lemma record_refines:
  assumes ok: "\<forall>n. je_ok env n" and inv: "journal_inv j" and fresh: "fresh_stream_id sid j"
    and run: "record_output env sid j ev = (j', e)"
  shows "e = None \<and> journal_inv j' \<and> abs_journal j' = spec_record (oj_agent_id j) (abs_journal j) ev"
proof (cases "ae_agent_id ev = oj_agent_id j")
  case False
  with run inv show ?thesis by (auto simp: record_output_def spec_record_def)
next
  case agent: True
  obtain j1 e1 where f: "flush_locked env j = (j1, e1)" by fastforce
  note F = journal_inv_flush [OF ok inv f]
  note parts = flushed_parts [OF F(6)]
  have okd: "dict_ok (oj_streams j1)" using F(2) by (simp add: journal_inv_def)
  consider (chat) "ae_type ev = Chat_Start \<or> ae_type ev = Chat_End"
    | (interrupted) "ae_type ev = Assistant_Stream_Interrupted"
    | (text_event) "ae_type ev \<notin> {Chat_Start, Chat_End, Assistant_Stream_Interrupted}"
    by auto
  then show ?thesis
  proof cases
    case chat
    then have j': "j' = j1\<lparr>oj_streams := []\<rparr>" "e = None"
      using run agent f F(1) by (auto simp: record_output_def)
    moreover have "journal_inv (j1\<lparr>oj_streams := []\<rparr>)"
      using journal_inv_drop_streams [OF F(2,4) parts, of "\<lambda>_. False"] by simp
    moreover have "abs_journal (j1\<lparr>oj_streams := []\<rparr>) = (\<lambda>_. None)"
      by (simp add: abs_journal_def fun_eq_iff pydict.get_emp)
    ultimately show ?thesis using chat agent by (auto simp: spec_record_def)
  next
    case interrupted
    then have j': "j' = j1\<lparr>oj_streams := filter (\<lambda>(k, s). os_kind s = ''tool'') (oj_streams j1)\<rparr>" "e = None"
      using run agent f F(1) by (auto simp: record_output_def)
    have kinds: "fst k = os_kind s" if "dict_get (oj_streams j1) k = Some s" for k s
      using F(2) dict_get_SomeD [OF that] by (auto simp: journal_inv_def stream_inv_def)
    have "abs_journal j' = (\<lambda>k. if fst k = ''tool'' then abs_journal j k else None)"
    proof
      fix k
      show "abs_journal j' k = (if fst k = ''tool'' then abs_journal j k else None)"
        using kinds [of k] F(3) [symmetric]
        by (cases "dict_get (oj_streams j1) k") (auto simp: abs_journal_def j' dict_get_filter [OF okd])
    qed
    with j' journal_inv_drop_streams [OF F(2,4) parts] interrupted agent show ?thesis
      by (simp add: spec_record_def)
  next
    case text_event
    show ?thesis
    proof (cases "stream_kind (ae_type ev)")
      case None
      with run agent text_event inv show ?thesis by (auto simp: record_output_def spec_record_def)
    next
      case (Some kind)
      show ?thesis
      proof (cases "ae_text ev = [] \<and> ae_type ev \<noteq> Tool_Call_End")
        case True
        with run agent text_event inv Some show ?thesis by (auto simp: record_output_def spec_record_def Let_def)
      next
        case False
        then have "add_text env sid kind (ae_type ev = Tool_Call_End) ev j = (j', e)"
          using run agent text_event Some by (auto simp: record_output_def Let_def)
        from add_text_refines [OF ok inv fresh this] show ?thesis
          using False agent text_event Some by (auto simp: spec_record_def Let_def)
      qed
    qed
  qed
qed

section \<open>Acknowledgement\<close>

text \<open>The append the runtime performs inside \<open>commit\<close>.\<close>

definition append_body ::
    "(json \<Rightarrow> string) \<Rightarrow> bool \<Rightarrow> (string, json) dict \<Rightarrow> string \<Rightarrow> attribution \<Rightarrow> stamp \<Rightarrow> stamp
      \<Rightarrow> ledger \<Rightarrow> (string, json) dict \<Rightarrow> ledger \<times> py_exn option" where
  "append_body py_str ok message source who st1 st2 l metadata =
     (case append_message py_str ok l message source who metadata st1 st2 of
        (l', Inl e) \<Rightarrow> (l', Some e) | (l', Inr _) \<Rightarrow> (l', None))"

lemma batch_events:
  assumes "batch_sink_writes True l body = (l', res)"
    and "body (l\<lparr>lg_batch_depth := lg_batch_depth l + 1\<rparr>) = (l1, Inr x)"
  shows "lg_events l' = lg_events l1 \<and> res = Inr x"
proof -
  obtain l3 f where w: "write_sink_events True (l1\<lparr>lg_batch_depth := lg_batch_depth l1 - 1\<rparr>)
      (lg_pending_sink_events l1) = (l3, f)" by fastforce
  have "f = None" "lg_events l3 = lg_events l1"
    using write_sink_frame(1,6) [OF w] by (simp_all add: same_core_def)
  with assms w show ?thesis by (auto simp: batch_sink_writes_def Let_def split: if_splits)
qed

lemma semantic_kind_other:
  "message_semantic_kind py_str message source = Some kind \<Longrightarrow>
    kind \<noteq> ''message_committed'' \<and> kind \<noteq> ''output_checkpoint''"
  by (auto simp: message_semantic_kind_def Let_def split: if_splits)

lemma append_message_events:
  assumes "append_message py_str True l message source who metadata st1 st2 = (l', res)"
  shows "\<exists>e es. lg_events l' = lg_events l @ e # es \<and> res = Inr e \<and> he_kind e = ''message_committed'' \<and>
    he_payload e = JObj (foldl (\<lambda>d (k, v). dict_set k v d)
      [(''source'', JStr source), (''message'', JObj (canonical_message message))] metadata) \<and>
    (\<forall>e\<in>set es. he_kind e \<noteq> ''message_committed'' \<and> he_kind e \<noteq> ''output_checkpoint'')"
proof -
  let ?who = "no_attribution\<lparr>at_agent_id := at_agent_id who, at_turn_id := at_turn_id who,
     at_api_round_id := at_api_round_id who, at_role := optional_str (dict_get message ''role'')\<rparr>"
  let ?p = "JObj (foldl (\<lambda>d (k, v). dict_set k v d)
      [(''source'', JStr source), (''message'', JObj (canonical_message message))] metadata)"
  let ?l = "l\<lparr>lg_batch_depth := Suc (lg_batch_depth l)\<rparr>"
  obtain l1 r1 where a1: "append_event True ?l ''message_committed'' ?p ?who st1 = (l1, r1)" by fastforce
  let ?e = "make_event ?l ''message_committed'' ?p ?who st1"
  let ?p2 = "JObj [(''message_event_id'', JStr (he_event_id ?e)), (''source'', JStr source),
     (''tool_call_ids'', JList (map JStr (message_tool_call_ids py_str message))),
     (''tool_call_id'', field message ''tool_call_id'')]"
  have r1: "r1 = Inr ?e" by (rule append_event_ok [OF a1])
  have ev1: "lg_events l1 = lg_events l @ [?e]" using append_event_frame(1) [OF a1] by simp
  have e: "he_kind ?e = ''message_committed''" "he_payload ?e = ?p" by (simp_all add: make_event_def)
  show ?thesis
  proof (cases "message_semantic_kind py_str message source")
    case None
    then have "lg_events l' = lg_events l1 \<and> res = Inr ?e"
      by (intro batch_events [OF assms [unfolded append_message_def Let_def]]) (simp add: a1 r1)
    with ev1 e show ?thesis by (intro exI [of _ ?e] exI [of _ "[]"]) simp
  next
    case (Some kind)
    obtain l2 r2 where a2: "append_event True l1 kind ?p2 ?who st2 = (l2, r2)" by fastforce
    have "lg_events l' = lg_events l2 \<and> res = Inr ?e"
      by (intro batch_events [OF assms [unfolded append_message_def Let_def]])
        (simp add: a1 r1 a2 append_event_ok [OF a2] Some)
    moreover have "lg_events l2 = lg_events l1 @ [make_event l1 kind ?p2 ?who st2]"
      by (rule append_event_frame(1) [OF a2])
    ultimately show ?thesis
      using ev1 e semantic_kind_other [OF Some]
      by (intro exI [of _ ?e] exI [of _ "[make_event l1 kind ?p2 ?who st2]"]) (simp add: make_event_def)
  qed
qed

lemma fold_dict_pop: "fold dict_pop ks d = filter (\<lambda>(k, v). k \<notin> set ks) d"
  by (induction ks arbitrary: d) (auto simp: dict_pop_def intro: filter_cong)

lemma dict_get_filter_keys:
  "dict_get (filter (\<lambda>(k, v). k \<notin> S) d) k = (if k \<in> S then None else dict_get d k)"
  by (induction d) (auto simp: dict_get_def)

lemma checkpointed_other:
  "\<forall>e\<in>set es. he_kind e \<noteq> ''output_checkpoint'' \<Longrightarrow> checkpointed sid (events @ es) = checkpointed sid events"
  by (induction es rule: rev_induct)
    (auto simp: checkpointed_snoc checkpoint_step_def simp flip: append_assoc)

lemma completed_ids_append: "completed_ids (xs @ ys) = completed_ids xs @ completed_ids ys"
  by (simp add: completed_ids_def)

lemma str_items_strs: "str_items (JList (map JStr xs)) = xs"
  by (induction xs) (simp_all add: str_items_def)

lemma completed_message:
  assumes "he_kind e = ''message_committed''"
    and "he_payload e = JObj (foldl (\<lambda>d (k, v). dict_set k v d)
      [(''source'', JStr source), (''message'', m)] (commit_metadata ids))"
    and "\<forall>e\<in>set es. he_kind e \<noteq> ''message_committed''"
  shows "completed_ids (e # es) = ids"
proof -
  have "jget (he_payload e) ''output_stream_ids'' = (if ids = [] then JNull else JList (map JStr ids))"
    by (simp add: assms(2) commit_metadata_def)
  then have "str_items (jget (he_payload e) ''output_stream_ids'') = ids"
    by (simp add: str_items_strs) (simp add: str_items_def)
  with assms show ?thesis by (simp add: completed_ids_def filter_empty_conv)
qed

lemma flush_ids:
  fixes streams :: "(stream_key, output_stream) dict"
  assumes "dict_ok streams"
  shows "concat (map (\<lambda>k. case dict_get (map (\<lambda>(k, s). (k, flushed s)) streams) k of
      Some s \<Rightarrow> [os_id s] | None \<Rightarrow> []) (map fst (filter (\<lambda>(k, s). P s) streams)))
    = map (\<lambda>(k, s). os_id s) (filter (\<lambda>(k, s). P s) streams)"
proof -
  have "(case dict_get (map (\<lambda>(k, s). (k, flushed s)) streams) (fst ks) of
      Some s \<Rightarrow> [os_id s] | None \<Rightarrow> []) = [os_id (snd ks)]" if "ks \<in> set streams" for ks
    using that dict_get_mem [OF assms, of "fst ks" "snd ks"] by (simp add: dict_get_map_flushed)
  then have "map (\<lambda>ks. case dict_get (map (\<lambda>(k, s). (k, flushed s)) streams) (fst ks) of
      Some s \<Rightarrow> [os_id s] | None \<Rightarrow> []) (filter (\<lambda>(k, s). P s) streams)
    = map (\<lambda>ks. [os_id (snd ks)]) (filter (\<lambda>(k, s). P s) streams)"
    by (intro map_cong) auto
  moreover have "concat (map (\<lambda>ks. [os_id (snd ks)]) xs) = map (\<lambda>(k, s). os_id s) xs"
    for xs :: "(stream_key, output_stream) dict"
    by (induction xs) auto
  ultimately show ?thesis by (simp only: map_map comp_def)
qed

lemma selected_keys:
  assumes "dict_ok streams" "(k, s) \<in> set streams"
  shows "k \<in> set (map fst (filter (\<lambda>(k, s). P s) streams)) \<longleftrightarrow> P s"
proof
  assume "k \<in> set (map fst (filter (\<lambda>(k, s). P s) streams))"
  then obtain s' where "(k, s') \<in> set streams" "P s'" by auto
  moreover have "s' = s"
    using eq_key_imp_eq_value [of streams k s' s] assms calculation(1) by (simp add: dict_ok_def)
  ultimately show "P s" by simp
next
  assume "P s"
  with assms(2) have "(k, s) \<in> set (filter (\<lambda>(k, s). P s) streams)" by simp
  then show "k \<in> set (map fst (filter (\<lambda>(k, s). P s) streams))" by (metis fst_conv image_eqI set_map)
qed

lemma commit_refines:
  assumes ok: "\<forall>n. je_ok env n" and inv: "journal_inv j"
    and run: "commit_message env j message (append_body py_str True message source who st1 st2) = (j', e)"
  shows "e = None \<and> journal_inv j' \<and> (\<forall>(k, s)\<in>set (oj_streams j).
    if commits_stream message s
    then abs_journal j' k = None \<and> os_id s \<in> set (completed_ids (lg_events (oj_ledger j')))
    else abs_journal j' k = abs_journal j k)"
proof -
  let ?P = "commits_stream message"
  let ?sel = "map fst (filter (\<lambda>(k, s). ?P s) (oj_streams j))"
  let ?ids = "map (\<lambda>(k, s). os_id s) (filter (\<lambda>(k, s). ?P s) (oj_streams j))"
  obtain j1 e1 where f: "flush_locked env j = (j1, e1)" by fastforce
  note F = journal_inv_flush [OF ok inv f]
  note I = inv [unfolded journal_inv_def] and I1 = F(2) [unfolded journal_inv_def]
  have okd: "dict_ok (oj_streams j)" and okd1: "dict_ok (oj_streams j1)" using I I1 by simp_all
  obtain l res where m: "append_message py_str True (oj_ledger j1) message source who (commit_metadata ?ids) st1 st2
      = (l, res)" by fastforce
  obtain ev es where me: "lg_events l = lg_events (oj_ledger j1) @ ev # es" "res = Inr ev"
    "he_kind ev = ''message_committed''"
    "he_payload ev = JObj (foldl (\<lambda>d (k, v). dict_set k v d)
      [(''source'', JStr source), (''message'', JObj (canonical_message message))] (commit_metadata ?ids))"
    "\<forall>e\<in>set es. he_kind e \<noteq> ''message_committed'' \<and> he_kind e \<noteq> ''output_checkpoint''"
    using append_message_events [OF m] by blast
  then have ev: "lg_events l = lg_events (oj_ledger j1) @ ev # es"
    "completed_ids (ev # es) = ?ids" "\<forall>e\<in>set (ev # es). he_kind e \<noteq> ''output_checkpoint''"
    using completed_message [OF me(3,4)] by simp_all
  note res = me(2)
  let ?j = "j1\<lparr>oj_ledger := l, oj_streams := filter (\<lambda>(k, s). k \<notin> set ?sel) (oj_streams j1)\<rparr>"
  have j': "j' = ?j" "e = None"
    using run f F(1) m res flush_ids [OF okd, of ?P]
    by (simp_all add: commit_message_def append_body_def Let_def F(6) fold_dict_pop)
  have txt1: "checkpointed sid (lg_events l) = checkpointed sid (lg_events (oj_ledger j1))" for sid
    using checkpointed_other [OF ev(3)] by (simp add: ev(1))
  have comp: "completed_ids (lg_events l) = completed_ids (lg_events (oj_ledger j1)) @ ?ids"
    using ev(2) by (simp add: ev(1) completed_ids_append)
  have keep: "os_id s \<notin> set ?ids" if "(k, s) \<in> set (oj_streams j)" "\<not> ?P s" for k s
  proof
    assume "os_id s \<in> set ?ids"
    then obtain k' s' where s': "(k', s') \<in> set (oj_streams j)" "?P s'" "os_id s' = os_id s" by auto
    have "inj_on (\<lambda>(k, s). os_id s) (set (oj_streams j))" using I by (simp add: distinct_map)
    from inj_onD [OF this, of "(k', s')" "(k, s)"] have "(k', s') = (k, s)" using s' that(1) by simp
    with s' that(2) show False by simp
  qed
  have "stream_inv (lg_events l) k s1"
    if mem: "(k, s1) \<in> set (oj_streams j1)" and key: "k \<notin> set ?sel" for k s1
  proof -
    obtain s where s: "(k, s) \<in> set (oj_streams j)" "s1 = flushed s" using mem F(6) by auto
    have "\<not> ?P s" using selected_keys [OF okd s(1)] key by blast
    with keep [OF s(1)] I1 mem s(2) show ?thesis by (auto simp: stream_inv_def txt1 comp)
  qed
  then have "journal_inv ?j"
    using journal_inv_drop_streams [OF F(2,4) flushed_parts [OF F(6)], of "\<lambda>(k, s). k \<notin> set ?sel"]
    by (auto simp: journal_inv_def)
  moreover have "abs_journal ?j k = (if ?P s then None else abs_journal j k)"
    if m: "(k, s) \<in> set (oj_streams j)" for k s
  proof -
    have g: "dict_get (oj_streams j1) k = Some (flushed s)"
      using dict_get_mem [OF okd m] by (simp add: F(6) dict_get_map_flushed)
    have "dict_get (oj_streams ?j) k = (if ?P s then None else dict_get (oj_streams j1) k)"
    proof -
      have st: "oj_streams ?j = filter (\<lambda>(k, s). k \<notin> set ?sel) (oj_streams j1)" by simp
      show ?thesis
        unfolding st dict_get_filter_keys by (simp only: selected_keys [OF okd m, of ?P])
    qed
    then show ?thesis
      using g F(3) [symmetric] by (simp add: abs_journal_def live_text_def txt1)
  qed
  moreover have "os_id s \<in> set (completed_ids (lg_events l))" if "(k, s) \<in> set (oj_streams j)" "?P s" for k s
    using that by (auto simp: comp)
  ultimately show ?thesis using j' by auto
qed

section \<open>Properties\<close>

definition ex_journal_env :: journal_env where
  "ex_journal_env = \<lparr>je_stamp = (\<lambda>n. ex_stamp ''e''), je_ok = (\<lambda>n. True)\<rparr>"

definition ex_journal :: output_journal where
  "ex_journal = \<lparr>oj_ledger = ex_ledger, oj_agent_id = ''main'', oj_streams = [], oj_timer = False,
     oj_pending_chars = 0\<rparr>"

definition ex_token :: "string \<Rightarrow> agent_event" where
  "ex_token t = \<lparr>ae_type = Stream_Token, ae_agent_id = ''main'', ae_turn_id = None,
     ae_correlation_id = None, ae_tool_name = None, ae_text = t\<rparr>"

definition ex_journal1 :: output_journal where
  "ex_journal1 = fst (record_output ex_journal_env ''s1'' ex_journal (ex_token ''hello''))"

lemma ex_journal_inv: "journal_inv ex_journal" "fresh_stream_id ''s1'' ex_journal"
  by (simp_all add: journal_inv_def ex_journal_def dict_ok_def buffered_def flush_limit_def
      fresh_stream_id_def ex_ledger_def checkpointed_def completed_ids_def)

lemma ex_journal1: "abs_journal ex_journal1 (''response'', None) = Some ''hello''" "journal_inv ex_journal1"
  using record_refines [OF _ ex_journal_inv prod.collapse [symmetric], of ex_journal_env "ex_token ''hello''"]
  by (simp_all add: ex_journal1_def ex_journal_env_def spec_record_def ex_token_def ex_journal_def
      abs_journal_def pydict.get_emp or_empty_def)

text \<open>Recording implements the text map: with working writes, each event leaves every live
  stream with exactly the text the stream has received (a finished tool call replaces what
  was streamed, a new turn drops all streams, an interrupted answer drops all but tool
  output, another agent's events change nothing), whether that text is still buffered or
  already checkpointed, and fewer than 65536 characters ever stay buffered.\<close>

theorem record_implements_text_map:
  assumes "\<forall>n. je_ok env n" and "journal_inv j" and "fresh_stream_id sid j"
  shows "snd (record_output env sid j ev) = None \<and>
    abs_journal (fst (record_output env sid j ev)) = spec_record (oj_agent_id j) (abs_journal j) ev \<and>
    journal_inv (fst (record_output env sid j ev)) \<and>
    oj_pending_chars (fst (record_output env sid j ev)) < 65536"
proof -
  obtain j' e where run: "record_output env sid j ev = (j', e)" by fastforce
  from record_refines [OF assms run] show ?thesis
    by (auto simp: run journal_inv_def flush_limit_def)
qed

theorem record_implements_text_map_witness:
  "abs_journal ex_journal1 (''response'', None) = Some ''hello'' \<and> journal_inv ex_journal1"
  using record_implements_text_map [OF _ ex_journal_inv, of ex_journal_env "ex_token ''hello''"]
  by (simp add: ex_journal1_def ex_journal_env_def spec_record_def ex_token_def ex_journal_def
      abs_journal_def pydict.get_emp or_empty_def)

text \<open>No unacknowledged output is lost: once the journal is closed, the projection of the
  history shows, for every stream that was live, one recovered entry with exactly the text
  the stream had received.\<close>

theorem closed_journal_recovers_output:
  assumes "\<forall>n. je_ok env n" and "journal_inv j" and "abs_journal j k = Some t"
  shows "\<exists>seq label. (seq, ''[Recovered '' @ label @ '' - session interrupted]'' @ [CHR 0x0A] @ t)
    \<in> set (interrupted_output (lg_events (oj_ledger (fst (close_journal env j)))))"
proof -
  obtain j1 e1 where f: "flush_locked env j = (j1, e1)" by fastforce
  note F = journal_inv_flush [OF assms(1,2) f]
  obtain s where s: "dict_get (oj_streams j) k = Some s" "t = live_text (lg_events (oj_ledger j)) s"
    using assms(3) by (auto simp: abs_journal_def)
  note mem = dict_get_SomeD [OF s(1)]
  let ?evs = "lg_events (oj_ledger j1)"
  have "os_id s \<notin> set (completed_ids ?evs)"
    using assms(2) mem F(7) by (auto simp: journal_inv_def stream_inv_def)
  from projection_text [OF this, of ?evs] F(8) [OF mem] s(2)
  obtain entry where entry: "dict_get (foldl (project_event (completed_ids ?evs)) [] ?evs) (os_id s) = Some entry"
    "entry_text entry = t" by auto
  obtain seq label parts where parts: "entry = (seq, label, parts)" by (cases entry)
  have "(os_id s, seq, label, parts) \<in> set (foldl (project_event (completed_ids ?evs)) [] ?evs)"
    using dict_get_SomeD [OF entry(1)] parts by simp
  moreover have "concat parts = t" using entry(2) parts by (simp add: entry_text_def)
  ultimately have "(seq, ''[Recovered '' @ label @ '' - session interrupted]'' @ [CHR 0x0A] @ t)
      \<in> set (interrupted_output ?evs)"
    unfolding interrupted_output_def by force
  moreover have "oj_ledger (fst (close_journal env j)) = oj_ledger j1"
    using f F(1) by (simp add: close_journal_def)
  ultimately show ?thesis by metis
qed

theorem closed_journal_recovers_output_witness:
  "\<exists>seq label. (seq, ''[Recovered '' @ label @ '' - session interrupted]'' @ [CHR 0x0A] @ ''hello'')
    \<in> set (interrupted_output (lg_events (oj_ledger (fst (close_journal ex_journal_env ex_journal1)))))"
  by (rule closed_journal_recovers_output [OF _ ex_journal1(2,1)]) (simp add: ex_journal_env_def)

text \<open>A committed message acknowledges exactly its own output: committing an assistant message
  ends its response and reasoning streams, committing a tool message ends the stream of its
  call, the ended streams are projected as interrupted no more, and every other stream keeps
  its text.\<close>

theorem commit_acknowledges_streams:
  assumes "\<forall>n. je_ok env n" and "journal_inv j" and "(k, s) \<in> set (oj_streams j)"
    and "commit_message env j message (append_body py_str True message source who st1 st2) = (j', e)"
  shows "e = None \<and> journal_inv j' \<and>
    (if commits_stream message s
     then abs_journal j' k = None \<and>
       dict_get (foldl (project_event (completed_ids (lg_events (oj_ledger j')))) []
         (lg_events (oj_ledger j'))) (os_id s) = None
     else abs_journal j' k = abs_journal j k)"
  using commit_refines [OF assms(1,2,4)] assms(3) projection_completed by fastforce

definition ex_assistant_message :: "(string, json) dict" where
  "ex_assistant_message = [(''role'', JStr ''assistant''), (''content'', JStr ''hello'')]"

theorem commit_acknowledges_streams_witness:
  "\<exists>s. dict_get (oj_streams ex_journal1) (''response'', None) = Some s \<and> os_id s = ''s1'' \<and>
    abs_journal (fst (commit_message ex_journal_env ex_journal1 ex_assistant_message
      (append_body (\<lambda>_. []) True ex_assistant_message ''model'' no_attribution (ex_stamp ''m'') (ex_stamp ''n''))))
      (''response'', None) = None"
proof -
  let ?body = "append_body (\<lambda>_. []) True ex_assistant_message ''model'' no_attribution (ex_stamp ''m'') (ex_stamp ''n'')"
  note inv = ex_journal1(2)
  obtain s where s: "dict_get (oj_streams ex_journal1) (''response'', None) = Some s" "os_id s = ''s1''"
    "os_kind s = ''response''"
    by (auto simp: ex_journal1_def record_output_def ex_token_def ex_journal_def add_text_def Let_def
        flush_limit_def new_stream_def dict_get_def)
  have "commits_stream ex_assistant_message s"
    using s by (simp add: commits_stream_def ex_assistant_message_def field_def dict_get_def)
  with commit_acknowledges_streams [OF _ inv dict_get_SomeD [OF s(1)] prod.collapse [symmetric],
      of ex_journal_env ex_assistant_message "\<lambda>_. []" "''model''" no_attribution "ex_stamp ''m''" "ex_stamp ''n''"]
  show ?thesis using s by (simp add: ex_journal_env_def)
qed

end
