(* ===== verification/Remote_Relay.thy ===== *)
theory Remote_Relay
  imports Prelude "HOL-Library.Multiset"
begin

text \<open>
  The host side of remote execution: tokens (\<^verbatim>\<open>extensions/remote_exec/auth.py\<close>), the peer
  registry (\<^verbatim>\<open>peer_registry.py\<close>) and the relay server's registration, request correlation
  and maintenance (\<^verbatim>\<open>server.py\<close>). Clock readings and freshly generated tokens and ids are
  inputs. Each atomic block of the event loop is one operation; the operations form a
  machine. The lemmas show that a spent bootstrap token admits only registrations that overlap
  the one that spent it, that leases bound what a
  peer token verifies, and that a request is answered at most once and only by the peer it
  was sent to.
\<close>

section \<open>Tokens\<close>

record token_entry =
  te_token :: string
  te_expires_at :: real
  te_used :: bool
  te_peer_id :: "string option"

record token_manager =
  tm_bootstrap :: "(string, token_entry) dict"
  tm_peers :: "(string, token_entry) dict"

definition new_token_manager :: token_manager where
  "new_token_manager = \<lparr>tm_bootstrap = [], tm_peers = []\<rparr>"

definition issue_bootstrap_token :: "real \<Rightarrow> string \<Rightarrow> int \<Rightarrow> token_manager \<Rightarrow> token_manager \<times> string" where
  "issue_bootstrap_token now secret ttl_sec tm =
     (let token = ''bt_'' @ secret;
          entry = \<lparr>te_token = token, te_expires_at = now + of_int ttl_sec, te_used = False, te_peer_id = None\<rparr>
      in (tm\<lparr>tm_bootstrap := dict_set token entry (tm_bootstrap tm)\<rparr>, token))"

text \<open>Consuming a bootstrap token holds no lock: it looks at the entry and then marks it. The two
  halves are separate definitions because the threads of the HTTP server may be preempted
  between them. The mark goes to the entry object that was looked at; an entry pruned in the
  meantime is marked outside the store.\<close>

definition check_bootstrap_token :: "real \<Rightarrow> string \<Rightarrow> token_manager \<Rightarrow> bool" where
  "check_bootstrap_token now token tm =
     (case dict_get (tm_bootstrap tm) token of
        None \<Rightarrow> False
      | Some entry \<Rightarrow>
          if te_used entry then False
          else if now > te_expires_at entry then False
          else True)"

definition mark_bootstrap_token :: "string \<Rightarrow> token_manager \<Rightarrow> token_manager" where
  "mark_bootstrap_token token tm =
     (case dict_get (tm_bootstrap tm) token of
        None \<Rightarrow> tm
      | Some entry \<Rightarrow> tm\<lparr>tm_bootstrap := dict_set token (entry\<lparr>te_used := True\<rparr>) (tm_bootstrap tm)\<rparr>)"

definition consume_bootstrap_token :: "real \<Rightarrow> string \<Rightarrow> token_manager \<Rightarrow> token_manager \<times> bool" where
  "consume_bootstrap_token now token tm =
     (if check_bootstrap_token now token tm then (mark_bootstrap_token token tm, True) else (tm, False))"

definition issue_peer_token :: "real \<Rightarrow> string \<Rightarrow> string \<Rightarrow> int \<Rightarrow> token_manager \<Rightarrow> token_manager \<times> string" where
  "issue_peer_token now secret peer_id ttl_sec tm =
     (let token = ''pt_'' @ secret;
          entry = \<lparr>te_token = token, te_expires_at = now + of_int ttl_sec, te_used = False,
            te_peer_id = Some peer_id\<rparr>
      in (tm\<lparr>tm_peers := dict_set token entry (tm_peers tm)\<rparr>, token))"

definition verify_peer_token :: "real \<Rightarrow> string \<Rightarrow> token_manager \<Rightarrow> string option" where
  "verify_peer_token now token tm =
     (case dict_get (tm_peers tm) token of
        None \<Rightarrow> None
      | Some entry \<Rightarrow> if now > te_expires_at entry then None else te_peer_id entry)"

definition revoke_peer_token :: "string \<Rightarrow> token_manager \<Rightarrow> token_manager" where
  "revoke_peer_token token tm = tm\<lparr>tm_peers := dict_pop token (tm_peers tm)\<rparr>"

definition refresh_peer_token ::
    "real \<Rightarrow> string \<Rightarrow> int \<Rightarrow> int \<Rightarrow> token_manager \<Rightarrow> token_manager \<times> string option" where
  "refresh_peer_token now token ttl_sec grace_sec tm =
     (case dict_get (tm_peers tm) token of
        None \<Rightarrow> (tm, None)
      | Some entry \<Rightarrow>
          (case te_peer_id entry of
             None \<Rightarrow> (tm, None)
           | Some peer_id \<Rightarrow>
               if now > te_expires_at entry + of_int (max 0 grace_sec) then (tm, None)
               else (tm\<lparr>tm_peers := dict_set token
                       (entry\<lparr>te_expires_at := now + of_int (max 1 ttl_sec)\<rparr>) (tm_peers tm)\<rparr>,
                     Some peer_id)))"

definition mask_token :: "string \<Rightarrow> string" where
  "mask_token token =
     (if length token \<le> 12 then ''***'' else take 6 token @ ''...'' @ drop (length token - 4) token)"

definition unexpired :: "real \<Rightarrow> int \<Rightarrow> (string, token_entry) dict \<Rightarrow> (string, token_entry) dict" where
  "unexpired now grace store = filter (\<lambda>(k, v). \<not> now > te_expires_at v + of_int grace) store"

definition prune_expired :: "real \<Rightarrow> int \<Rightarrow> token_manager \<Rightarrow> token_manager \<times> nat" where
  "prune_expired now peer_grace_sec tm =
     (let b = unexpired now 0 (tm_bootstrap tm);
          p = unexpired now (max 0 peer_grace_sec) (tm_peers tm)
      in (tm\<lparr>tm_bootstrap := b, tm_peers := p\<rparr>,
          (length (tm_bootstrap tm) - length b) + (length (tm_peers tm) - length p)))"

section \<open>Peers\<close>

record peer_info =
  peer_id_of :: string
  peer_connected_at :: real
  peer_last_seen_at :: real
  peer_capabilities :: "string list"
  peer_cwd :: string
  peer_workspace_root :: "string option"
  peer_online :: bool
  peer_protocol_version :: int
  peer_terminal :: json
  peer_disconnect_reason :: "string option"

record peer_registry =
  reg_peers :: "(string, peer_info) dict"
  reg_heartbeat_timeout :: real

record register_request =
  rq_bootstrap_token :: string
  rq_cwd :: string
  rq_workspace_root :: "string option"
  rq_capabilities :: "string list"
  rq_protocol_version :: int
  rq_terminal :: json

definition register_peer :: "real \<Rightarrow> string \<Rightarrow> register_request \<Rightarrow> peer_registry \<Rightarrow> peer_registry" where
  "register_peer now peer_id rq reg =
     reg\<lparr>reg_peers := dict_set peer_id
       \<lparr>peer_id_of = peer_id, peer_connected_at = now, peer_last_seen_at = now,
        peer_capabilities = rq_capabilities rq, peer_cwd = rq_cwd rq,
        peer_workspace_root = rq_workspace_root rq, peer_online = True,
        peer_protocol_version = rq_protocol_version rq, peer_terminal = rq_terminal rq,
        peer_disconnect_reason = None\<rparr> (reg_peers reg)\<rparr>"

definition update_peer :: "string \<Rightarrow> (peer_info \<Rightarrow> peer_info) \<Rightarrow> peer_registry \<Rightarrow> peer_registry \<times> bool" where
  "update_peer peer_id f reg =
     (case dict_get (reg_peers reg) peer_id of
        None \<Rightarrow> (reg, False)
      | Some info \<Rightarrow> (reg\<lparr>reg_peers := dict_set peer_id (f info) (reg_peers reg)\<rparr>, True))"

definition update_heartbeat :: "real \<Rightarrow> string \<Rightarrow> peer_registry \<Rightarrow> peer_registry \<times> bool" where
  "update_heartbeat now peer_id reg =
     update_peer peer_id (\<lambda>info. info\<lparr>peer_last_seen_at := now, peer_online := True\<rparr>) reg"

definition update_terminal :: "string \<Rightarrow> json \<Rightarrow> peer_registry \<Rightarrow> peer_registry \<times> bool" where
  "update_terminal peer_id terminal reg =
     update_peer peer_id (\<lambda>info. info\<lparr>peer_terminal := terminal\<rparr>) reg"

definition mark_disconnected :: "string \<Rightarrow> string \<Rightarrow> peer_registry \<Rightarrow> peer_registry \<times> bool" where
  "mark_disconnected peer_id reason reg =
     update_peer peer_id (\<lambda>info. info\<lparr>peer_online := False, peer_disconnect_reason := Some reason\<rparr>) reg"

definition get_peer :: "string \<Rightarrow> peer_registry \<Rightarrow> peer_info option" where
  "get_peer peer_id reg =
     (case dict_get (reg_peers reg) peer_id of
        Some info \<Rightarrow> if peer_online info then Some info else None
      | None \<Rightarrow> None)"

definition list_online :: "peer_registry \<Rightarrow> peer_info list" where
  "list_online reg = filter peer_online (map snd (reg_peers reg))"

definition pick_default_peer :: "peer_registry \<Rightarrow> peer_info option" where
  "pick_default_peer reg = (case list_online reg of [] \<Rightarrow> None | p # _ \<Rightarrow> Some p)"

definition is_stale :: "real \<Rightarrow> peer_registry \<Rightarrow> peer_info \<Rightarrow> bool" where
  "is_stale now reg info \<longleftrightarrow> peer_online info \<and> now - peer_last_seen_at info > reg_heartbeat_timeout reg"

definition prune_stale :: "real \<Rightarrow> peer_registry \<Rightarrow> peer_registry \<times> string list" where
  "prune_stale now reg =
     (reg\<lparr>reg_peers := map (\<lambda>(k, info). (k, if is_stale now reg info
         then info\<lparr>peer_online := False, peer_disconnect_reason := Some ''heartbeat_timeout''\<rparr>
         else info)) (reg_peers reg)\<rparr>,
      map fst (filter (\<lambda>(k, info). is_stale now reg info) (reg_peers reg)))"

definition remove_peer :: "string \<Rightarrow> peer_registry \<Rightarrow> peer_registry \<times> bool" where
  "remove_peer peer_id reg =
     (reg\<lparr>reg_peers := dict_pop peer_id (reg_peers reg)\<rparr>, dict_get (reg_peers reg) peer_id \<noteq> None)"

section \<open>The relay\<close>

datatype remote_error =
    Peer_Disconnected string
  | Peer_Not_Found string
  | Capability_Unavailable string string
  | Remote_Timeout
  | Register_Rejected string
  | Remote_Error string string
  | Relay_Not_Started
  | Wait_Cancelled

text \<open>A response to a request, tagged by its message type.\<close>

datatype relay_result =
    Tool_Result json
  | Workspace_Result json
  | Cleanup_Result json

text \<open>How a wait ended: with the result a peer sent, with an exception, or cancelled. An answer
  carries the peer the transport received it from.\<close>

datatype relay_outcome =
    Answered "string option" relay_result
  | Failed remote_error
  | Cancelled_Wait

text \<open>The three host-initiated requests. A tool request may carry a stream handler, a workspace
  request may find its cancellation signal already set.\<close>

datatype relay_request =
    Exec_Tool string bool
  | Workspace_Op string bool
  | Cleanup

text \<open>
  The relay's state. \<open>rl_scheduled\<close> holds the \<^verbatim>\<open>_send_and_wait\<close> coroutines handed to the event
  loop that have not run yet: the peer was checked in the calling thread, the wait is
  registered on the loop. The last four fields are histories: \<open>rl_outcomes\<close> how each wait
  ended, \<open>rl_chunks\<close> the chunks given to a stream handler, \<open>rl_sent\<close> the requests handed to
  the transport with their peer, \<open>rl_admitted\<close> the bootstrap token each registered peer
  presented. \<open>rl_registering\<close> holds the registrations of server threads that have found their
  bootstrap token good and have not marked it yet.
\<close>

record relay =
  rl_tokens :: token_manager
  rl_registry :: peer_registry
  rl_token_ttl :: int
  rl_refresh_grace :: int
  rl_started :: bool
  rl_scheduled :: "(string \<times> string \<times> relay_request) list"
  rl_pending :: "string list"
  rl_pending_peer_ids :: "(string, string) dict"
  rl_stream_handlers :: "string list"
  rl_outcomes :: "(string \<times> relay_outcome) list"
  rl_chunks :: "(string \<times> json) list"
  rl_sent :: "(string \<times> string) list"
  rl_admitted :: "(string \<times> string) list"
  rl_registering :: "register_request list"

definition remote_protocol_version :: int where "remote_protocol_version = 2"
definition remote_protocol_min_version :: int where "remote_protocol_min_version = 1"

definition new_relay :: "int \<Rightarrow> int \<Rightarrow> relay" where
  "new_relay heartbeat_timeout_sec peer_token_ttl_sec =
     \<lparr>rl_tokens = new_token_manager,
      rl_registry = \<lparr>reg_peers = [], reg_heartbeat_timeout = of_int heartbeat_timeout_sec\<rparr>,
      rl_token_ttl = max 1 peer_token_ttl_sec, rl_refresh_grace = max 0 heartbeat_timeout_sec,
      rl_started = False, rl_scheduled = [], rl_pending = [], rl_pending_peer_ids = [],
      rl_stream_handlers = [], rl_outcomes = [], rl_chunks = [], rl_sent = [], rl_admitted = [],
      rl_registering = []\<rparr>"

definition forget_request :: "string \<Rightarrow> relay \<Rightarrow> relay" where
  "forget_request req_id r = r\<lparr>rl_pending := removeAll req_id (rl_pending r),
     rl_pending_peer_ids := dict_pop req_id (rl_pending_peer_ids r),
     rl_stream_handlers := removeAll req_id (rl_stream_handlers r)\<rparr>"

definition take_pending :: "string \<Rightarrow> string option \<Rightarrow> relay \<Rightarrow> relay \<times> bool" where
  "take_pending req_id peer_id r =
     (if dict_get (rl_pending_peer_ids r) req_id \<noteq> peer_id then (r, False)
      else (forget_request req_id r, req_id \<in> set (rl_pending r)))"

text \<open>Resolving the future a handler took: the waiting coroutine then returns or raises.\<close>

definition settle :: "string \<Rightarrow> relay_outcome \<Rightarrow> relay \<Rightarrow> relay" where
  "settle req_id outcome r = r\<lparr>rl_outcomes := rl_outcomes r @ [(req_id, outcome)]\<rparr>"

definition unsupported_version :: "register_request \<Rightarrow> bool" where
  "unsupported_version rq \<longleftrightarrow> \<not> (remote_protocol_min_version \<le> rq_protocol_version rq \<and>
     rq_protocol_version rq \<le> remote_protocol_version)"

definition admit_peer ::
    "real \<Rightarrow> string \<Rightarrow> string \<Rightarrow> register_request \<Rightarrow> relay \<Rightarrow> relay \<times> (string \<times> string \<times> int)" where
  "admit_peer now peer_id secret rq r =
     (let reg = register_peer now peer_id rq (rl_registry r);
          (tm, token) = issue_peer_token now secret peer_id (rl_token_ttl r) (rl_tokens r)
      in (r\<lparr>rl_tokens := tm, rl_registry := reg,
            rl_admitted := rl_admitted r @ [(rq_bootstrap_token rq, peer_id)]\<rparr>,
          (peer_id, token, min (rq_protocol_version rq) remote_protocol_version)))"

definition on_register ::
    "real \<Rightarrow> string \<Rightarrow> string \<Rightarrow> register_request \<Rightarrow> relay \<Rightarrow> relay \<times> (remote_error, string \<times> string \<times> int) result" where
  "on_register now peer_id secret rq r =
     (if unsupported_version rq then (r, Inl (Register_Rejected ''Unsupported protocol version''))
      else
        let (tm, valid) = consume_bootstrap_token now (rq_bootstrap_token rq) (rl_tokens r)
        in if \<not> valid
           then (r\<lparr>rl_tokens := tm\<rparr>, Inl (Register_Rejected ''Invalid or expired bootstrap token''))
           else let (r', answer) = admit_peer now peer_id secret rq (r\<lparr>rl_tokens := tm\<rparr>)
                in (r', Inr answer))"

text \<open>The same method run by a thread of the HTTP server, cut where it can be preempted with effect:
  up to the checks of the token, and from the mark on. Any number of registrations may be
  between the two; the second half is given the position of its registration.\<close>

definition begin_register :: "real \<Rightarrow> register_request \<Rightarrow> relay \<Rightarrow> (remote_error, relay) result" where
  "begin_register now rq r =
     (if unsupported_version rq then Inl (Register_Rejected ''Unsupported protocol version'')
      else if \<not> check_bootstrap_token now (rq_bootstrap_token rq) (rl_tokens r)
      then Inl (Register_Rejected ''Invalid or expired bootstrap token'')
      else Inr (r\<lparr>rl_registering := rl_registering r @ [rq]\<rparr>))"

definition finish_register :: "real \<Rightarrow> nat \<Rightarrow> string \<Rightarrow> string \<Rightarrow> relay \<Rightarrow> relay" where
  "finish_register now n peer_id secret r =
     (if n < length (rl_registering r)
      then let rq = rl_registering r ! n;
               r' = r\<lparr>rl_tokens := mark_bootstrap_token (rq_bootstrap_token rq) (rl_tokens r),
                 rl_registering := take n (rl_registering r) @ drop (Suc n) (rl_registering r)\<rparr>
           in fst (admit_peer now peer_id secret rq r')
      else r)"

definition relay_refresh :: "real \<Rightarrow> string \<Rightarrow> relay \<Rightarrow> relay \<times> string option" where
  "relay_refresh now token r =
     (let (tm, peer) = refresh_peer_token now token (rl_token_ttl r) (rl_refresh_grace r) (rl_tokens r);
          r' = r\<lparr>rl_tokens := tm\<rparr>
      in case peer of
           None \<Rightarrow> (r', None)
         | Some peer_id \<Rightarrow> (r', if get_peer peer_id (rl_registry r') = None then None else Some peer_id))"

definition require_capability :: "peer_info \<Rightarrow> string \<Rightarrow> remote_error option" where
  "require_capability peer capability =
     (if peer_protocol_version peer \<le> 1 \<and> peer_capabilities peer = [] then None
      else if capability \<notin> set (peer_capabilities peer)
      then Some (Capability_Unavailable (peer_id_of peer) capability) else None)"

fun needed_capability :: "relay_request \<Rightarrow> string option" where
  "needed_capability (Exec_Tool tool _) = Some tool"
| "needed_capability (Workspace_Op op _) =
     Some (if starts_with op ''process.'' then op else ''workspace.'' @ op)"
| "needed_capability Cleanup = None"

text \<open>
  The calling thread's part of the three request methods: check the server, the peer and the
  capability, then hand the wait to the loop. Only cleanup answers at once for an offline
  peer; the others raise.
\<close>

definition send_request ::
    "string \<Rightarrow> string \<Rightarrow> relay_request \<Rightarrow> relay \<Rightarrow> (remote_error, relay \<times> relay_result option) result" where
  "send_request req_id peer_id request r =
     (if \<not> rl_started r then Inl Relay_Not_Started
      else case get_peer peer_id (rl_registry r) of
             None \<Rightarrow> if request = Cleanup
                     then Inr (r, Some (Cleanup_Result (JObj [(''ok'', JBool False),
                       (''removed_items'', JList []),
                       (''error_message'', JStr (''Peer '' @ squote peer_id @ '' is offline''))])))
                     else Inl (Peer_Not_Found peer_id)
           | Some peer \<Rightarrow>
               (case (case needed_capability request of
                        None \<Rightarrow> None | Some capability \<Rightarrow> require_capability peer capability) of
                  Some e \<Rightarrow> Inl e
                | None \<Rightarrow>
                    (case request of
                       Workspace_Op _ cancelled \<Rightarrow>
                         if cancelled then Inl Wait_Cancelled
                         else Inr (r\<lparr>rl_scheduled := rl_scheduled r @ [(req_id, peer_id, request)]\<rparr>, None)
                     | _ \<Rightarrow> Inr (r\<lparr>rl_scheduled := rl_scheduled r @ [(req_id, peer_id, request)]\<rparr>, None))))"

fun has_stream_handler :: "relay_request \<Rightarrow> bool" where
  "has_stream_handler (Exec_Tool _ h) = h"
| "has_stream_handler _ = False"

definition unschedule :: "string \<Rightarrow> relay \<Rightarrow> relay" where
  "unschedule req_id r = r\<lparr>rl_scheduled := filter (\<lambda>w. fst w \<noteq> req_id) (rl_scheduled r)\<rparr>"

text \<open>The loop's part: register the wait and send the envelope.\<close>

definition start_wait :: "string \<Rightarrow> relay \<Rightarrow> relay" where
  "start_wait req_id r =
     (case find (\<lambda>w. fst w = req_id) (rl_scheduled r) of
        None \<Rightarrow> r
      | Some (_, peer_id, request) \<Rightarrow>
          (unschedule req_id r)
            \<lparr>rl_pending := (if req_id \<in> set (rl_pending r) then rl_pending r else rl_pending r @ [req_id]),
             rl_pending_peer_ids := dict_set req_id peer_id (rl_pending_peer_ids r),
             rl_stream_handlers :=
               (if has_stream_handler request \<and> req_id \<notin> set (rl_stream_handlers r)
                then rl_stream_handlers r @ [req_id] else rl_stream_handlers r),
             rl_sent := rl_sent r @ [(req_id, peer_id)]\<rparr>)"

definition on_timeout :: "string \<Rightarrow> relay \<Rightarrow> relay" where
  "on_timeout req_id r =
     (if req_id \<in> set (rl_pending r) then settle req_id (Failed Remote_Timeout) (forget_request req_id r)
      else r)"

text \<open>A caller detaching from its wait cancels the coroutine, whether or not it has started.\<close>

definition cancel_wait :: "string \<Rightarrow> relay \<Rightarrow> relay" where
  "cancel_wait req_id r =
     (if req_id \<in> set (rl_pending r) \<or> req_id \<in> fst ` set (rl_scheduled r)
      then settle req_id Cancelled_Wait (forget_request req_id (unschedule req_id r))
      else r)"

definition on_heartbeat :: "real \<Rightarrow> string \<Rightarrow> json option \<Rightarrow> relay \<Rightarrow> relay" where
  "on_heartbeat now token terminal r =
     (case verify_peer_token now token (rl_tokens r) of
        None \<Rightarrow> r
      | Some peer \<Rightarrow>
          if peer = [] then r
          else
            let reg = fst (update_heartbeat now peer (rl_registry r))
            in r\<lparr>rl_registry := (case terminal of None \<Rightarrow> reg
                 | Some t \<Rightarrow> fst (update_terminal peer t reg))\<rparr>)"

definition on_stream :: "string option \<Rightarrow> string \<Rightarrow> json \<Rightarrow> relay \<Rightarrow> relay" where
  "on_stream peer_id req_id chunk r =
     (if req_id \<noteq> [] \<and> dict_get (rl_pending_peer_ids r) req_id = peer_id \<and>
         req_id \<in> set (rl_stream_handlers r)
      then r\<lparr>rl_chunks := rl_chunks r @ [(req_id, chunk)]\<rparr> else r)"

definition on_response :: "string option \<Rightarrow> string \<Rightarrow> relay_outcome \<Rightarrow> relay \<Rightarrow> relay" where
  "on_response peer_id req_id outcome r =
     (if req_id = [] then r
      else case take_pending req_id peer_id r of
             (r', taken) \<Rightarrow> if taken then settle req_id outcome r' else r')"

definition error_outcome :: "string option \<Rightarrow> string \<Rightarrow> string \<Rightarrow> relay_outcome" where
  "error_outcome peer_id code message =
     Failed (if code = ''PEER_DISCONNECTED''
             then Peer_Disconnected (if peer_id = None \<or> peer_id = Some [] then ''unknown'' else the peer_id)
             else Remote_Error code message)"

definition fail_pending_for_peer :: "string \<Rightarrow> relay \<Rightarrow> relay" where
  "fail_pending_for_peer peer_id r =
     (let failing = filter (\<lambda>req_id. dict_get (rl_pending_peer_ids r) req_id = Some peer_id) (rl_pending r);
          r' = fold forget_request failing r
      in fold (\<lambda>req_id. settle req_id (Failed (Peer_Disconnected peer_id))) failing r')"

definition on_disconnect :: "string \<Rightarrow> relay \<Rightarrow> relay" where
  "on_disconnect peer_id r =
     (if peer_id = [] then r
      else fail_pending_for_peer peer_id
             (r\<lparr>rl_registry := fst (mark_disconnected peer_id ''peer_initiated'' (rl_registry r))\<rparr>))"

definition prune_tick :: "real \<Rightarrow> relay \<Rightarrow> relay" where
  "prune_tick now r =
     (let (reg, stale) = prune_stale now (rl_registry r);
          r' = fold fail_pending_for_peer stale (r\<lparr>rl_registry := reg\<rparr>)
      in r'\<lparr>rl_tokens := fst (prune_expired now (rl_refresh_grace r') (rl_tokens r'))\<rparr>)"

definition stop_relay :: "relay \<Rightarrow> relay" where
  "stop_relay r =
     (if rl_started r
      then fold cancel_wait (rl_pending r @ map fst (rl_scheduled r)) (r\<lparr>rl_started := False\<rparr>)
      else r)"

text \<open>The messages of a peer, as the dispatch tells them apart, and the operations of the
  relay. A stopped relay ignores inbound messages.\<close>

datatype inbound =
    In_Register string string register_request
  | In_Heartbeat string "json option"
  | In_Stream string json
  | In_Result string relay_result
  | In_Disconnect
  | In_Error string string string

fun handle_inbound :: "real \<Rightarrow> string option \<Rightarrow> inbound \<Rightarrow> relay \<Rightarrow> relay" where
  "handle_inbound now peer_id (In_Register new_id secret rq) r = fst (on_register now new_id secret rq r)"
| "handle_inbound now peer_id (In_Heartbeat token terminal) r = on_heartbeat now token terminal r"
| "handle_inbound now peer_id (In_Stream req_id chunk) r = on_stream peer_id req_id chunk r"
| "handle_inbound now peer_id (In_Result req_id res) r = on_response peer_id req_id (Answered peer_id res) r"
| "handle_inbound now peer_id In_Disconnect r = (case peer_id of None \<Rightarrow> r | Some p \<Rightarrow> on_disconnect p r)"
| "handle_inbound now peer_id (In_Error req_id code message) r =
     on_response peer_id req_id (error_outcome peer_id code message) r"

datatype relay_op =
    Start_Relay
  | Stop_Relay
  | Issue_Bootstrap real string int
  | Refresh_Lease real string
  | Inbound real "string option" inbound
  | Begin_Register real register_request
  | Finish_Register real nat string string
  | Send string string relay_request
  | Loop_Starts string
  | Times_Out string
  | Detaches string
  | Prune real

fun relay_step :: "relay \<Rightarrow> relay_op \<Rightarrow> (remote_error, relay) result" where
  "relay_step r Start_Relay = Inr (r\<lparr>rl_started := True\<rparr>)"
| "relay_step r Stop_Relay = Inr (stop_relay r)"
| "relay_step r (Issue_Bootstrap now secret ttl) =
     Inr (r\<lparr>rl_tokens := fst (issue_bootstrap_token now secret ttl (rl_tokens r))\<rparr>)"
| "relay_step r (Refresh_Lease now token) = Inr (fst (relay_refresh now token r))"
| "relay_step r (Inbound now peer_id m) = Inr (if rl_started r then handle_inbound now peer_id m r else r)"
| "relay_step r (Begin_Register now rq) = begin_register now rq r"
| "relay_step r (Finish_Register now n peer_id secret) = Inr (finish_register now n peer_id secret r)"
| "relay_step r (Send req_id peer_id request) =
     (case send_request req_id peer_id request r of Inl e \<Rightarrow> Inl e | Inr (r', _) \<Rightarrow> Inr r')"
| "relay_step r (Loop_Starts req_id) = Inr (start_wait req_id r)"
| "relay_step r (Times_Out req_id) = Inr (on_timeout req_id r)"
| "relay_step r (Detaches req_id) = Inr (cancel_wait req_id r)"
| "relay_step r (Prune now) = Inr (prune_tick now r)"

section \<open>Correlation of requests and answers\<close>

text \<open>The three tables agree: a wait is pending iff it has an owner, and only pending waits have
  stream handlers.\<close>

definition relay_wf :: "relay \<Rightarrow> bool" where
  "relay_wf r \<longleftrightarrow> distinct (rl_pending r) \<and> dict_ok (rl_pending_peer_ids r) \<and>
     set (keys (rl_pending_peer_ids r)) = set (rl_pending r) \<and>
     set (rl_stream_handlers r) \<subseteq> set (rl_pending r)"

text \<open>Every request id is in one place: scheduled, pending or finished. \<open>used\<close> are the ids drawn
  so far. A request was handed to the transport at most once, its owner is the peer it was
  sent to, and only that peer answered it.\<close>

definition wait_ids :: "relay \<Rightarrow> string list" where
  "wait_ids r = map fst (rl_scheduled r) @ rl_pending r @ map fst (rl_outcomes r)"

definition placed :: "string set \<Rightarrow> relay \<Rightarrow> bool" where
  "placed used r \<longleftrightarrow> distinct (wait_ids r) \<and> set (wait_ids r) \<subseteq> used"

definition sent_once :: "string set \<Rightarrow> relay \<Rightarrow> bool" where
  "sent_once used r \<longleftrightarrow> distinct (map fst (rl_sent r)) \<and> fst ` set (rl_sent r) \<subseteq> used \<and>
     fst ` set (rl_sent r) \<inter> fst ` set (rl_scheduled r) = {}"

definition owned :: "relay \<Rightarrow> bool" where
  "owned r \<longleftrightarrow>
     (\<forall>k p. dict_get (rl_pending_peer_ids r) k = Some p \<longrightarrow> (k, p) \<in> set (rl_sent r)) \<and>
     (\<forall>k x res. (k, Answered x res) \<in> set (rl_outcomes r) \<longrightarrow>
        (\<exists>p. x = Some p \<and> (k, p) \<in> set (rl_sent r)))"

definition correlated :: "string set \<Rightarrow> relay \<Rightarrow> bool" where
  "correlated used r \<longleftrightarrow> relay_wf r \<and> placed used r \<and> sent_once used r \<and> owned r"

lemma correlatedI:
  "relay_wf r \<Longrightarrow> placed used r \<Longrightarrow> sent_once used r \<Longrightarrow> owned r \<Longrightarrow> correlated used r"
  by (simp add: correlated_def)

lemma correlatedD:
  assumes "correlated used r"
  shows "relay_wf r" "placed used r" "sent_once used r" "owned r"
  using assms by (simp_all add: correlated_def)

fun request_ids :: "relay_op \<Rightarrow> string list" where
  "request_ids (Send req_id _ _) = [req_id]"
| "request_ids _ = []"

lemma forget_absent: "relay_wf r \<Longrightarrow> q \<notin> set (rl_pending r) \<Longrightarrow> forget_request q r = r"
proof -
  assume wf: "relay_wf r" and q: "q \<notin> set (rl_pending r)"
  then have h: "q \<notin> set (rl_stream_handlers r)" and k: "q \<notin> set (keys (rl_pending_peer_ids r))"
    by (auto simp: relay_wf_def)
  have "dict_pop q d = d" if "q \<notin> set (keys d)" for d :: "(string, string) dict"
    using that by (induction d) (auto simp: dict_pop_def)
  with h k q show ?thesis by (simp add: forget_request_def)
qed

lemma pending_owner:
  "relay_wf r \<Longrightarrow> q \<in> set (rl_pending r) \<Longrightarrow> \<exists>p. dict_get (rl_pending_peer_ids r) q = Some p"
  by (metis dict_get_None_iff not_None_eq relay_wf_def)

lemma forget_fields [simp]:
  "rl_tokens (forget_request q r) = rl_tokens r"
  "rl_registry (forget_request q r) = rl_registry r"
  "rl_started (forget_request q r) = rl_started r"
  "rl_admitted (forget_request q r) = rl_admitted r"
  "rl_registering (forget_request q r) = rl_registering r"
  "rl_refresh_grace (forget_request q r) = rl_refresh_grace r"
  "rl_scheduled (forget_request q r) = rl_scheduled r"
  "rl_sent (forget_request q r) = rl_sent r"
  "rl_outcomes (forget_request q r) = rl_outcomes r"
  "rl_pending (forget_request q r) = removeAll q (rl_pending r)"
  "rl_pending_peer_ids (forget_request q r) = dict_pop q (rl_pending_peer_ids r)"
  "rl_stream_handlers (forget_request q r) = removeAll q (rl_stream_handlers r)"
  by (simp_all add: forget_request_def)

lemma settle_fields [simp]:
  "rl_tokens (settle q x r) = rl_tokens r"
  "rl_registry (settle q x r) = rl_registry r"
  "rl_started (settle q x r) = rl_started r"
  "rl_admitted (settle q x r) = rl_admitted r"
  "rl_registering (settle q x r) = rl_registering r"
  "rl_refresh_grace (settle q x r) = rl_refresh_grace r"
  "rl_scheduled (settle q x r) = rl_scheduled r"
  "rl_sent (settle q x r) = rl_sent r"
  "rl_outcomes (settle q x r) = rl_outcomes r @ [(q, x)]"
  "rl_pending (settle q x r) = rl_pending r"
  "rl_pending_peer_ids (settle q x r) = rl_pending_peer_ids r"
  "rl_stream_handlers (settle q x r) = rl_stream_handlers r"
  by (simp_all add: settle_def)

lemma unschedule_fields [simp]:
  "rl_tokens (unschedule q r) = rl_tokens r"
  "rl_registry (unschedule q r) = rl_registry r"
  "rl_started (unschedule q r) = rl_started r"
  "rl_admitted (unschedule q r) = rl_admitted r"
  "rl_registering (unschedule q r) = rl_registering r"
  "rl_refresh_grace (unschedule q r) = rl_refresh_grace r"
  "rl_scheduled (unschedule q r) = filter (\<lambda>w. fst w \<noteq> q) (rl_scheduled r)"
  "rl_sent (unschedule q r) = rl_sent r"
  "rl_outcomes (unschedule q r) = rl_outcomes r"
  "rl_pending (unschedule q r) = rl_pending r"
  "rl_pending_peer_ids (unschedule q r) = rl_pending_peer_ids r"
  "rl_stream_handlers (unschedule q r) = rl_stream_handlers r"
  by (simp_all add: unschedule_def)

lemma keys_pop_set: "fst ` set (dict_pop k d) = fst ` set d - {k}"
proof -
  have "set (keys (dict_pop k d)) = set (keys d) - {k}"
    unfolding keys_dict_pop by auto
  then show ?thesis by simp
qed

lemma wf_forget: "relay_wf r \<Longrightarrow> relay_wf (forget_request q r)"
  by (auto simp: relay_wf_def distinct_removeAll dict_ok_pop keys_pop_set)

lemma wf_settle [simp]: "relay_wf (settle q x r) = relay_wf r"
  by (simp add: relay_wf_def)

lemma placed_cong: "mset (wait_ids r') = mset (wait_ids r) \<Longrightarrow> placed used r' = placed used r"
  unfolding placed_def by (metis mset_eq_imp_distinct_iff mset_eq_setD)

lemma mset_removeAll: "distinct xs \<Longrightarrow> q \<in> set xs \<Longrightarrow> add_mset q (mset (removeAll q xs)) = mset xs"
  by (metis distinct_remove1_removeAll insert_DiffM mset_remove1 set_mset_mset)

lemma mset_unschedule:
  "distinct (map fst ws) \<Longrightarrow> q \<in> fst ` set ws \<Longrightarrow>
   add_mset q (mset (map fst (filter (\<lambda>w. fst w \<noteq> q) ws))) = mset (map fst ws)"
proof -
  assume a: "distinct (map fst ws)" "q \<in> fst ` set ws"
  have "map fst (filter (\<lambda>w. fst w \<noteq> q) ws) = removeAll q (map fst ws)"
    by (induction ws) auto
  with a show ?thesis by (metis list.set_map mset_removeAll)
qed

lemma placed_finish:
  assumes "placed used r" "q \<in> set (rl_pending r)"
  shows "placed used (settle q x (forget_request q r))"
proof -
  have "distinct (rl_pending r)" using assms(1) by (simp add: placed_def wait_ids_def)
  from mset_removeAll [OF this assms(2)]
  have "mset (wait_ids (settle q x (forget_request q r))) = mset (wait_ids r)"
    by (simp add: wait_ids_def flip: union_mset_add_mset_left)
  with assms(1) show ?thesis using placed_cong by blast
qed

lemma owned_finish:
  assumes o: "owned r" and p: "dict_get (rl_pending_peer_ids r) q = Some p"
    and x: "\<And>y res. x = Answered y res \<Longrightarrow> dict_get (rl_pending_peer_ids r) q = y"
  shows "owned (settle q x (forget_request q r))"
proof -
  have "(q, p) \<in> set (rl_sent r)" using o p by (simp add: owned_def)
  then have "\<exists>p. y = Some p \<and> (q, p) \<in> set (rl_sent r)" if "x = Answered y res" for y res
    using x [OF that] p by force
  with o show ?thesis by (simp add: owned_def dict_get_pop) blast
qed

lemma correlated_finish:
  assumes c: "correlated used r" and q: "q \<in> set (rl_pending r)"
    and x: "\<And>y res. x = Answered y res \<Longrightarrow> dict_get (rl_pending_peer_ids r) q = y"
  shows "correlated used (settle q x (forget_request q r))"
proof (rule correlatedI)
  obtain p where "dict_get (rl_pending_peer_ids r) q = Some p"
    using c q pending_owner correlatedD(1) by blast
  then show "owned (settle q x (forget_request q r))"
    using correlatedD(4) [OF c] x owned_finish by blast
  show "sent_once used (settle q x (forget_request q r))"
    using correlatedD(3) [OF c] by (simp add: sent_once_def)
qed (use c q in \<open>simp_all add: wf_forget placed_finish correlated_def\<close>)

lemma settle_forget_commute: "settle a x (forget_request b r) = forget_request b (settle a x r)"
  by (simp add: settle_def forget_request_def)

lemma fold_forget_settle:
  "fold forget_request qs (settle a x r) = settle a x (fold forget_request qs r)"
  by (induction qs arbitrary: r) (simp_all flip: settle_forget_commute)

text \<open>Failing all waits of a peer takes them first and resolves them afterwards; doing both wait by
  wait gives the same state.\<close>

lemma fail_one_by_one:
  "fold (\<lambda>q. settle q (f q)) qs (fold forget_request qs r) =
   fold (\<lambda>q r. settle q (f q) (forget_request q r)) qs r"
proof (induction qs arbitrary: r)
  case Nil
  then show ?case by simp
next
  case (Cons q qs)
  then show ?case by (simp add: fold_forget_settle [symmetric])
qed

lemma correlated_finish_all:
  assumes "correlated used r" "distinct qs" "set qs \<subseteq> set (rl_pending r)"
    and f: "\<And>q x res. f q \<noteq> Answered x res"
  shows "correlated used (fold (\<lambda>q r. settle q (f q) (forget_request q r)) qs r)"
  using assms(1-3)
proof (induction qs arbitrary: r)
  case Nil
  then show ?case by simp
next
  case (Cons q qs)
  have "correlated used (settle q (f q) (forget_request q r))"
    using Cons.prems f by (intro correlated_finish) auto
  moreover have "set qs \<subseteq> set (rl_pending (settle q (f q) (forget_request q r)))"
    using Cons.prems by auto
  ultimately show ?case using Cons by simp
qed

lemma correlated_fail_pending: "correlated used r \<Longrightarrow> correlated used (fail_pending_for_peer p r)"
  unfolding fail_pending_for_peer_def Let_def fail_one_by_one
  by (rule correlated_finish_all) (auto simp: correlated_def placed_def wait_ids_def)

lemma correlated_fields [simp]:
  "correlated used (r\<lparr>rl_tokens := tm\<rparr>) = correlated used r"
  "correlated used (r\<lparr>rl_registry := reg\<rparr>) = correlated used r"
  "correlated used (r\<lparr>rl_started := b\<rparr>) = correlated used r"
  "correlated used (r\<lparr>rl_chunks := cs\<rparr>) = correlated used r"
  "correlated used (r\<lparr>rl_admitted := ad\<rparr>) = correlated used r"
  "correlated used (r\<lparr>rl_registering := rs\<rparr>) = correlated used r"
  by (simp_all add: correlated_def relay_wf_def placed_def wait_ids_def sent_once_def owned_def)

lemma correlated_response:
  assumes "correlated used r" "\<And>x res. outcome = Answered x res \<Longrightarrow> x = peer_id"
  shows "correlated used (on_response peer_id q outcome r)"
proof (cases "q \<in> set (rl_pending r)")
  case True
  then show ?thesis
    using assms by (auto simp: on_response_def take_pending_def intro: correlated_finish)
next
  case False
  then have "forget_request q r = r"
    using correlatedD(1) [OF assms(1)] forget_absent by simp
  with False assms(1) show ?thesis by (simp add: on_response_def take_pending_def)
qed

lemma correlated_cancel:
  assumes c: "correlated used r"
  shows "correlated used (cancel_wait q r)"
proof (cases "q \<in> set (rl_pending r)")
  case True
  then have "filter (\<lambda>w. fst w \<noteq> q) (rl_scheduled r) = rl_scheduled r"
    using correlatedD(2) [OF c] by (auto simp: placed_def wait_ids_def filter_id_conv)
  then have "unschedule q r = r" by (simp add: unschedule_def)
  with True show ?thesis
    using correlated_finish [OF c True, of Cancelled_Wait] by (simp add: cancel_wait_def)
next
  case False
  have wf: "relay_wf (unschedule q r)" using correlatedD(1) [OF c] by (simp add: relay_wf_def)
  then have same: "forget_request q (unschedule q r) = unschedule q r"
    using False forget_absent by simp
  have "correlated used (settle q Cancelled_Wait (unschedule q r))"
    if q: "q \<in> fst ` set (rl_scheduled r)"
  proof (rule correlatedI)
    have "distinct (map fst (rl_scheduled r))"
      using correlatedD(2) [OF c] by (simp add: placed_def wait_ids_def)
    from mset_unschedule [OF this q]
    have "mset (wait_ids (settle q Cancelled_Wait (unschedule q r))) = mset (wait_ids r)"
      by (simp add: wait_ids_def flip: union_mset_add_mset_left mset_map)
    then show "placed used (settle q Cancelled_Wait (unschedule q r))"
      using correlatedD(2) [OF c] placed_cong by blast
    show "sent_once used (settle q Cancelled_Wait (unschedule q r))"
      using correlatedD(3) [OF c] by (auto simp: sent_once_def)
    show "owned (settle q Cancelled_Wait (unschedule q r))"
      using correlatedD(4) [OF c] by (simp add: owned_def)
  qed (use wf in simp)
  with same c False show ?thesis by (simp add: cancel_wait_def)
qed

lemma correlated_start:
  assumes c: "correlated used r"
  shows "correlated used (start_wait q r)"
proof (cases "find (\<lambda>w. fst w = q) (rl_scheduled r)")
  case None
  with c show ?thesis by (simp add: start_wait_def)
next
  case (Some w)
  then obtain p request where w: "w = (q, p, request)" "(q, p, request) \<in> set (rl_scheduled r)"
    by (cases w) (metis (mono_tags, lifting) find_Some_iff fst_conv nth_mem)
  let ?r = "start_wait q r"
  have q: "q \<in> fst ` set (rl_scheduled r)" using w(2) by force
  with correlatedD(2) [OF c] have d: "distinct (map fst (rl_scheduled r))"
    and new: "q \<notin> set (rl_pending r)"
    by (auto simp: placed_def wait_ids_def)
  from correlatedD(3) [OF c] q have unsent: "q \<notin> fst ` set (rl_sent r)" "q \<in> used"
    using correlatedD(2) [OF c] by (auto simp: sent_once_def placed_def wait_ids_def)
  have fields: "rl_scheduled ?r = filter (\<lambda>w. fst w \<noteq> q) (rl_scheduled r)"
    "rl_pending ?r = rl_pending r @ [q]"
    "rl_pending_peer_ids ?r = dict_set q p (rl_pending_peer_ids r)"
    "set (rl_stream_handlers ?r) \<subseteq> insert q (set (rl_stream_handlers r))"
    "rl_sent ?r = rl_sent r @ [(q, p)]" "rl_outcomes ?r = rl_outcomes r"
    using Some w new by (auto simp: start_wait_def)
  show ?thesis
  proof (rule correlatedI)
    show "relay_wf ?r"
      using correlatedD(1) [OF c] new fields unfolding relay_wf_def
      by (simp add: dict_ok_set keys_dict_set flip: set_map) blast
    show "placed used ?r"
      using correlatedD(2) [OF c] placed_cong [of ?r r] mset_unschedule [OF d q]
      by (simp add: wait_ids_def fields flip: union_mset_add_mset_left mset_map)
    show "sent_once used ?r"
      using correlatedD(3) [OF c] unsent by (auto simp: sent_once_def fields)
    show "owned ?r"
      using correlatedD(4) [OF c] by (auto simp: owned_def fields dict_get_set) blast
  qed
qed

lemma correlated_send:
  assumes c: "correlated used r" and q: "q \<notin> used" and s: "send_request q p request r = Inr (r', res)"
  shows "correlated (insert q used) r'"
proof -
  have r': "r' = r \<or> r' = r\<lparr>rl_scheduled := rl_scheduled r @ [(q, p, request)]\<rparr>"
    using s by (auto simp: send_request_def split: if_splits option.splits relay_request.splits)
  show ?thesis
  proof (rule correlatedI)
    show "relay_wf r'" using r' correlatedD(1) [OF c] by (elim disjE) (simp_all add: relay_wf_def)
    show "placed (insert q used) r'"
    proof (cases "r' = r")
      case True
      with correlatedD(2) [OF c] show ?thesis by (auto simp: placed_def)
    next
      case False
      with r' have "mset (wait_ids r') = mset (q # wait_ids r)" by (auto simp: wait_ids_def)
      moreover have "distinct (q # wait_ids r)" "set (q # wait_ids r) \<subseteq> insert q used"
        using correlatedD(2) [OF c] q by (auto simp: placed_def)
      ultimately show ?thesis unfolding placed_def by (metis mset_eq_imp_distinct_iff mset_eq_setD)
    qed
    show "sent_once (insert q used) r'"
      using r' correlatedD(3) [OF c] q unfolding sent_once_def by (elim disjE) (simp_all, blast+)
    show "owned r'" using r' correlatedD(4) [OF c] by (elim disjE) (simp_all add: owned_def)
  qed
qed

lemma fold_inv: "P s \<Longrightarrow> (\<And>x s. P s \<Longrightarrow> P (f x s)) \<Longrightarrow> P (fold f xs s)"
  by (induction xs arbitrary: s) auto

lemma correlated_inbound: "correlated used r \<Longrightarrow> correlated used (handle_inbound now peer m r)"
  by (cases m)
    (auto simp: on_register_def admit_peer_def issue_peer_token_def Let_def on_heartbeat_def on_stream_def
      on_disconnect_def error_outcome_def split: prod.splits option.splits
      intro!: correlated_response correlated_fail_pending)

lemma correlated_threads:
  "correlated used r \<Longrightarrow> correlated used (finish_register now n p secret r)"
  "correlated used r \<Longrightarrow> begin_register now rq r = Inr r' \<Longrightarrow> correlated used r'"
  by (auto simp: finish_register_def begin_register_def admit_peer_def issue_peer_token_def Let_def
      split: if_splits)

lemma correlated_prune: "correlated used r \<Longrightarrow> correlated used (prune_tick now r)"
  by (simp add: prune_tick_def Let_def split_beta fold_inv correlated_fail_pending)

lemma correlated_stop: "correlated used r \<Longrightarrow> correlated used (stop_relay r)"
  by (simp add: stop_relay_def fold_inv correlated_cancel)

lemma correlated_timeout: "correlated used r \<Longrightarrow> correlated used (on_timeout q r)"
  by (auto simp: on_timeout_def intro: correlated_finish)

lemma correlated_weaken: "correlated used r \<Longrightarrow> used \<subseteq> used' \<Longrightarrow> correlated used' r"
  unfolding correlated_def placed_def sent_once_def by blast

interpretation requests: fresh_machine relay_step correlated request_ids
proof
  fix used r x r'
  assume c: "correlated used r" and f: "set (request_ids x) \<inter> used = {}" and s: "relay_step r x = Inr r'"
  show "correlated (used \<union> set (request_ids x)) r'"
  proof (cases x)
    case (Send q p request)
    then obtain res where "send_request q p request r = Inr (r', res)"
      using s by (auto split: sum.splits)
    with c f Send show ?thesis using correlated_send by simp
  next
    case (Inbound now p m)
    with c s show ?thesis by (auto intro: correlated_inbound)
  qed (use c s in \<open>auto simp: relay_refresh_def Let_def split_beta correlated_stop correlated_start
      correlated_timeout correlated_cancel correlated_prune correlated_threads split: option.splits\<close>)
qed (rule correlated_weaken)

lemma correlated_new: "correlated {} (new_relay timeout ttl)"
  by (simp add: correlated_def new_relay_def relay_wf_def placed_def wait_ids_def sent_once_def
      owned_def dict_ok_def dict_get_def)

section \<open>Admission\<close>

text \<open>What admission depends on: the bootstrap entries, the admissions so far and the registrations
  in flight. Every operation but five leaves all three alone.\<close>

definition admission_view ::
    "relay \<Rightarrow> (string, token_entry) dict \<times> (string \<times> string) list \<times> register_request list" where
  "admission_view r = (tm_bootstrap (rl_tokens r), rl_admitted r, rl_registering r)"

text \<open>A token that admitted a peer stays spent: it is gone from the store or marked as used.\<close>

definition spent :: "string set \<Rightarrow> relay \<Rightarrow> bool" where
  "spent used r \<longleftrightarrow> dict_ok (tm_bootstrap (rl_tokens r)) \<and>
     set (keys (tm_bootstrap (rl_tokens r))) \<subseteq> (\<lambda>s. ''bt_'' @ s) ` used \<and>
     rq_bootstrap_token ` set (rl_registering r) \<subseteq> (\<lambda>s. ''bt_'' @ s) ` used \<and>
     (\<forall>t\<in>fst ` set (rl_admitted r). t \<in> (\<lambda>s. ''bt_'' @ s) ` used \<and>
        (\<forall>e. dict_get (tm_bootstrap (rl_tokens r)) t = Some e \<longrightarrow> te_used e))"

definition admissions_of :: "string \<Rightarrow> relay \<Rightarrow> nat" where
  "admissions_of token r = length (filter (\<lambda>a. fst a = token) (rl_admitted r))"

definition in_flight :: "string \<Rightarrow> relay \<Rightarrow> nat" where
  "in_flight token r = length (filter (\<lambda>rq. rq_bootstrap_token rq = token) (rl_registering r))"

text \<open>A spent token has at most \<open>n\<close> peers, those still in flight included.\<close>

definition spent_within :: "string \<Rightarrow> nat \<Rightarrow> string set \<Rightarrow> relay \<Rightarrow> bool" where
  "spent_within token n used r \<longleftrightarrow> spent used r \<and> token \<in> fst ` set (rl_admitted r) \<and>
     admissions_of token r + in_flight token r \<le> n"

fun bootstrap_secrets :: "relay_op \<Rightarrow> string list" where
  "bootstrap_secrets (Issue_Bootstrap _ secret _) = [secret]"
| "bootstrap_secrets _ = []"

lemma spent_frame: "admission_view r' = admission_view r \<Longrightarrow> spent used r' = spent used r"
  by (simp add: spent_def admission_view_def)

lemma within_frame:
  "admission_view r' = admission_view r \<Longrightarrow> spent_within token n used r' = spent_within token n used r"
  using spent_frame [of r' r used]
  by (simp add: spent_within_def admissions_of_def in_flight_def admission_view_def)

lemma fold_frame: "(\<And>x s. g (f x s) = g s) \<Longrightarrow> g (fold f xs s) = g s"
  by (induction xs arbitrary: s) auto

lemma fail_pending_frame [simp]:
  "rl_tokens (fail_pending_for_peer p r) = rl_tokens r"
  "rl_admitted (fail_pending_for_peer p r) = rl_admitted r"
  "rl_registering (fail_pending_for_peer p r) = rl_registering r"
  "rl_registry (fail_pending_for_peer p r) = rl_registry r"
  "rl_refresh_grace (fail_pending_for_peer p r) = rl_refresh_grace r"
  "rl_scheduled (fail_pending_for_peer p r) = rl_scheduled r"
  "rl_sent (fail_pending_for_peer p r) = rl_sent r"
  by (simp_all add: fail_pending_for_peer_def Let_def fail_one_by_one fold_frame)

lemma wait_frame [simp]:
  "admission_view (cancel_wait q r) = admission_view r"
  "admission_view (on_response p q x r) = admission_view r"
  "admission_view (start_wait q r) = admission_view r"
  "admission_view (on_timeout q r) = admission_view r"
  "admission_view (r\<lparr>rl_started := b\<rparr>) = admission_view r"
  by (auto simp: admission_view_def cancel_wait_def on_response_def take_pending_def start_wait_def
      on_timeout_def split: option.splits)

lemma stop_frame [simp]: "admission_view (stop_relay r) = admission_view r"
  by (simp add: stop_relay_def fold_frame [where g = admission_view])

lemma lease_frame [simp]: "admission_view (fst (relay_refresh now token r)) = admission_view r"
  by (auto simp: admission_view_def relay_refresh_def refresh_peer_token_def Let_def
      split: option.splits prod.splits)

lemma send_frame: "send_request q p request r = Inr (r', x) \<Longrightarrow> admission_view r' = admission_view r"
  by (auto simp: admission_view_def send_request_def split: if_splits option.splits relay_request.splits)

lemma inbound_frame:
  "(\<And>new_id secret rq. m \<noteq> In_Register new_id secret rq) \<Longrightarrow>
   admission_view (handle_inbound now p m r) = admission_view r"
  by (cases m) (auto simp: on_heartbeat_def on_stream_def on_disconnect_def Let_def admission_view_def
      on_response_def take_pending_def split: option.splits)

lemma prune_view:
  "admission_view (prune_tick now r) =
     (unexpired now 0 (tm_bootstrap (rl_tokens r)), rl_admitted r, rl_registering r)"
  by (simp add: admission_view_def prune_tick_def Let_def split_beta prune_expired_def fold_frame)

lemma admit_view:
  "admission_view (fst (admit_peer now p secret rq r)) =
     (tm_bootstrap (rl_tokens r), rl_admitted r @ [(rq_bootstrap_token rq, p)], rl_registering r)"
  by (simp add: admission_view_def admit_peer_def issue_peer_token_def Let_def)

lemmas view_defs = admission_view_def spent_within_def spent_def admissions_of_def in_flight_def

lemma dict_get_key: "dict_get d k = Some v \<Longrightarrow> k \<in> set (keys d)"
  by (metis dict_get_None_iff option.discI)

lemma spent_mark:
  assumes s: "spent used r" and t: "t \<in> (\<lambda>s. ''bt_'' @ s) ` used"
    and v: "admission_view r' = (tm_bootstrap (mark_bootstrap_token t (rl_tokens r)),
      rl_admitted r @ [(t, p)], rs)" and rs: "set rs \<subseteq> set (rl_registering r)"
  shows "spent used r'"
proof -
  let ?d = "tm_bootstrap (rl_tokens r)" and ?d' = "tm_bootstrap (rl_tokens r')"
  have d': "?d' = (case dict_get ?d t of None \<Rightarrow> ?d | Some e \<Rightarrow> dict_set t (e\<lparr>te_used := True\<rparr>) ?d)"
    using v by (simp add: admission_view_def mark_bootstrap_token_def split: option.splits)
  have "dict_ok ?d'" using s by (auto simp: d' spent_def dict_ok_set split: option.splits)
  moreover have "keys ?d' = keys ?d"
    using dict_get_key [of ?d t] by (simp add: d' keys_dict_set split: option.splits)
  moreover have "te_used e" if "dict_get ?d' x = Some e" "x = t \<or> x \<in> fst ` set (rl_admitted r)" for x e
    using that s by (auto simp: d' spent_def dict_get_set split: option.splits if_splits)
  moreover have "rq_bootstrap_token ` set rs \<subseteq> (\<lambda>s. ''bt_'' @ s) ` used"
    using s rs unfolding spent_def by blast
  ultimately show ?thesis
    using s t v unfolding spent_def by (simp add: admission_view_def)
qed

lemma spent_prune: "spent used r \<Longrightarrow> spent used (prune_tick now r)"
proof -
  assume s: "spent used r"
  let ?d = "tm_bootstrap (rl_tokens r)"
  have "set (unexpired now 0 ?d) \<subseteq> set ?d" by (auto simp: unexpired_def)
  with s prune_view [of now r] show ?thesis
    unfolding spent_def admission_view_def
    by (auto simp: unexpired_def dict_ok_filter dest: dict_get_filterD)
qed

lemma check_known: "spent used r \<Longrightarrow> check_bootstrap_token now t (rl_tokens r) \<Longrightarrow>
    t \<in> (\<lambda>s. ''bt_'' @ s) ` used \<and> t \<notin> fst ` set (rl_admitted r)"
  using dict_get_key [of "tm_bootstrap (rl_tokens r)" t]
  by (auto simp: spent_def check_bootstrap_token_def split: option.splits if_splits)

text \<open>How one operation moves the admission view.\<close>

inductive admission_step :: "relay \<Rightarrow> relay_op \<Rightarrow> relay \<Rightarrow> bool" where
  view_kept: "admission_view r' = admission_view r \<Longrightarrow> admission_step r x r'"
| token_issued: "admission_step r (Issue_Bootstrap now secret ttl)
    (r\<lparr>rl_tokens := fst (issue_bootstrap_token now secret ttl (rl_tokens r))\<rparr>)"
| tokens_pruned: "admission_step r x (prune_tick now r)"
| registered_at_once: "check_bootstrap_token now t (rl_tokens r) \<Longrightarrow>
    admission_view r' = (tm_bootstrap (mark_bootstrap_token t (rl_tokens r)),
      rl_admitted r @ [(t, p)], rl_registering r) \<Longrightarrow> admission_step r x r'"
| check_passed: "check_bootstrap_token now (rq_bootstrap_token rq) (rl_tokens r) \<Longrightarrow>
    admission_view r' = (tm_bootstrap (rl_tokens r), rl_admitted r, rl_registering r @ [rq]) \<Longrightarrow>
    admission_step r x r'"
| mark_made: "n < length (rl_registering r) \<Longrightarrow> t = rq_bootstrap_token (rl_registering r ! n) \<Longrightarrow>
    admission_view r' = (tm_bootstrap (mark_bootstrap_token t (rl_tokens r)), rl_admitted r @ [(t, p)],
      take n (rl_registering r) @ drop (Suc n) (rl_registering r)) \<Longrightarrow> admission_step r x r'"

lemma register_view:
  "admission_step r x (fst (on_register now p secret rq r))"
proof (cases "\<not> unsupported_version rq \<and> check_bootstrap_token now (rq_bootstrap_token rq) (rl_tokens r)")
  case True
  then show ?thesis
    by (intro registered_at_once [of now "rq_bootstrap_token rq" r _ p])
      (simp_all add: on_register_def consume_bootstrap_token_def split_beta admit_view)
next
  case False
  then have "fst (on_register now p secret rq r) = r"
    by (auto simp: on_register_def consume_bootstrap_token_def)
  then show ?thesis by (simp add: view_kept)
qed

lemma finish_register_view: "admission_step r x (finish_register now n p secret r)"
proof (cases "n < length (rl_registering r)")
  case True
  then show ?thesis
    by (intro mark_made [OF True refl, where p = p]) (simp add: finish_register_def Let_def admit_view)
qed (simp add: finish_register_def view_kept)

lemma begin_view: "begin_register now rq r = Inr r' \<Longrightarrow> admission_step r x r'"
  by (rule check_passed [of now rq])
    (auto simp: begin_register_def admission_view_def split: if_splits)

lemma inbound_view: "admission_step r x (handle_inbound now p m r)"
proof (cases "\<exists>new_id secret rq. m = In_Register new_id secret rq")
  case True
  then show ?thesis using register_view by auto
next
  case False
  then show ?thesis by (intro view_kept inbound_frame) blast
qed

lemma step_view: "relay_step r x = Inr r' \<Longrightarrow> admission_step r x r'"
  by (cases x) (auto simp: view_kept token_issued tokens_pruned finish_register_view begin_view inbound_view
      split: sum.splits intro: view_kept send_frame)

lemma spent_issue:
  assumes s: "spent used r" and f: "secret \<notin> used"
  shows "spent (insert secret used)
    (r\<lparr>rl_tokens := fst (issue_bootstrap_token now secret ttl (rl_tokens r))\<rparr>)"
proof -
  let ?t = "''bt_'' @ secret" and ?d = "tm_bootstrap (rl_tokens r)"
  have "?t \<notin> fst ` set (rl_admitted r)" "?t \<notin> set (keys ?d)"
    using s f by (auto simp: spent_def)
  with s show ?thesis
    by (auto simp: spent_def issue_bootstrap_token_def Let_def dict_ok_set keys_dict_set dict_get_set
        simp flip: set_map)
qed

lemma spent_weaken: "spent used r \<Longrightarrow> used \<subseteq> used' \<Longrightarrow> spent used' r"
  unfolding spent_def by blast

lemma spent_step:
  assumes "admission_step r x r'" "spent used r" "set (bootstrap_secrets x) \<inter> used = {}"
  shows "spent (used \<union> set (bootstrap_secrets x)) r'"
  using assms
proof (induction rule: admission_step.induct)
  case (view_kept r' r x)
  then show ?case using spent_frame spent_weaken by blast
next
  case (token_issued r now secret ttl)
  then show ?case using spent_issue by simp
next
  case (tokens_pruned r x now)
  then show ?case using spent_prune spent_weaken by blast
next
  case (registered_at_once now t r r' p x)
  then have "t \<in> (\<lambda>s. ''bt_'' @ s) ` used" using check_known by blast
  with registered_at_once have "spent used r'" by (blast intro: spent_mark)
  then show ?case using spent_weaken by blast
next
  case (check_passed now rq r r' x)
  then have "spent used r'"
    using check_known [of used r now "rq_bootstrap_token rq"] by (auto simp: spent_def admission_view_def)
  then show ?case using spent_weaken by blast
next
  case (mark_made n r t r' p x)
  then have "t \<in> (\<lambda>s. ''bt_'' @ s) ` used" by (auto simp: spent_def)
  moreover have "set (take n (rl_registering r) @ drop (Suc n) (rl_registering r)) \<subseteq> set (rl_registering r)"
    by (auto dest: in_set_takeD in_set_dropD)
  ultimately have "spent used r'" using mark_made spent_mark by blast
  then show ?case using spent_weaken by blast
qed

lemma length_filter_take_drop:
  "n < length xs \<Longrightarrow> length (filter P xs) =
     length (filter P (take n xs @ drop (Suc n) xs)) + (if P (xs ! n) then 1 else 0)"
  by (subst (1) id_take_nth_drop [of n xs]) auto

lemma spent_no_growth:
  assumes "admission_step r x r'" "spent used r" "token \<in> fst ` set (rl_admitted r)"
  shows "token \<in> fst ` set (rl_admitted r') \<and>
    admissions_of token r' + in_flight token r' \<le> admissions_of token r + in_flight token r"
  using assms
proof (induction rule: admission_step.induct)
  case (tokens_pruned r x now)
  then show ?case using prune_view [of now r] by (simp add: view_defs)
next
  case (registered_at_once now t r r' p x)
  then show ?case using check_known [of used r now t] by (auto simp: view_defs)
next
  case (check_passed now rq r r' x)
  then show ?case using check_known [of used r now "rq_bootstrap_token rq"] by (auto simp: view_defs)
next
  case (mark_made n r t r' p x)
  then show ?case
    using length_filter_take_drop [of n "rl_registering r" "\<lambda>rq. rq_bootstrap_token rq = token"]
    by (auto simp: view_defs)
qed (auto simp: view_defs)

interpretation admissions: fresh_machine relay_step spent bootstrap_secrets
  by unfold_locales (blast intro: spent_step step_view spent_weaken)+

interpretation overlaps: fresh_machine relay_step "spent_within token n" bootstrap_secrets for token n
proof
  fix used r x r'
  assume c: "spent_within token n used r" and f: "set (bootstrap_secrets x) \<inter> used = {}"
    and s: "relay_step r x = Inr r'"
  then have "spent (used \<union> set (bootstrap_secrets x)) r'"
    using spent_step [OF step_view [OF s]] by (simp add: spent_within_def)
  with spent_no_growth [OF step_view [OF s], of used token] c
  show "spent_within token n (used \<union> set (bootstrap_secrets x)) r'"
    by (simp add: spent_within_def)
next
  show "spent_within token n used' r" if "spent_within token n used r" "used \<subseteq> used'" for used used' r
    using that spent_weaken by (auto simp: spent_within_def)
qed

lemma spent_new: "spent {} (new_relay timeout ttl)"
  by (simp add: spent_def new_relay_def new_token_manager_def dict_ok_def)

section \<open>Disconnection\<close>

lemma fold_finish_fields:
  "rl_outcomes (fold (\<lambda>q r. settle q (f q) (forget_request q r)) qs r) =
     rl_outcomes r @ map (\<lambda>q. (q, f q)) qs"
  "dict_get (rl_pending_peer_ids (fold (\<lambda>q r. settle q (f q) (forget_request q r)) qs r)) k =
     (if k \<in> set qs then None else dict_get (rl_pending_peer_ids r) k)"
  by (induction qs arbitrary: r) (auto simp: dict_get_pop)

lemma fail_pending_fields:
  assumes "relay_wf r"
  shows "rl_outcomes (fail_pending_for_peer p r) = rl_outcomes r @
      map (\<lambda>q. (q, Failed (Peer_Disconnected p)))
        (filter (\<lambda>q. dict_get (rl_pending_peer_ids r) q = Some p) (rl_pending r))"
    "dict_get (rl_pending_peer_ids (fail_pending_for_peer p r)) k =
      (if dict_get (rl_pending_peer_ids r) k = Some p then None else dict_get (rl_pending_peer_ids r) k)"
proof -
  have "k \<in> set (rl_pending r)" if "dict_get (rl_pending_peer_ids r) k = Some p"
    using that assms by (metis dict_get_None_iff option.discI relay_wf_def)
  then show "dict_get (rl_pending_peer_ids (fail_pending_for_peer p r)) k =
      (if dict_get (rl_pending_peer_ids r) k = Some p then None else dict_get (rl_pending_peer_ids r) k)"
    by (simp add: fail_pending_for_peer_def Let_def fail_one_by_one fold_finish_fields)
qed (simp add: fail_pending_for_peer_def Let_def fail_one_by_one fold_finish_fields)

lemma disconnected_is_offline: "get_peer p (fst (mark_disconnected p reason reg)) = None"
  by (auto simp: get_peer_def mark_disconnected_def update_peer_def dict_get_set split: option.splits)

lemma wf_registry [simp]: "relay_wf (r\<lparr>rl_registry := reg\<rparr>) = relay_wf r"
  by (simp add: relay_wf_def)

section \<open>Pruning\<close>

lemma dict_get_unexpired:
  "dict_ok d \<Longrightarrow> dict_get (unexpired now g d) k =
     (case dict_get d k of None \<Rightarrow> None
      | Some e \<Rightarrow> if now > te_expires_at e + of_int g then None else Some e)"
proof (induction d)
  case Nil
  then show ?case by (simp add: unexpired_def dict_get_def)
next
  case (Cons x d)
  obtain k' e where x: "x = (k', e)" by force
  with Cons have IH: "dict_get (unexpired now g d) k =
      (case dict_get d k of None \<Rightarrow> None
       | Some e \<Rightarrow> if now > te_expires_at e + of_int g then None else Some e)"
    and "k' \<notin> set (keys d)"
    by (auto simp: dict_ok_def)
  then have "dict_get d k' = None" "dict_get (unexpired now g d) k' = None"
    by (auto simp: dict_get_None_iff unexpired_def)
  with IH x show ?case by (auto simp: unexpired_def dict_get_def)
qed

section \<open>Properties\<close>

definition ex_register :: "string \<Rightarrow> register_request" where
  "ex_register token = \<lparr>rq_bootstrap_token = token, rq_cwd = ''.'', rq_workspace_root = None,
     rq_capabilities = [''shell'', ''workspace.read''], rq_protocol_version = 2, rq_terminal = JNull\<rparr>"

text \<open>A run in which one peer registers, a replay of its bootstrap token is refused, a second peer
  registers with its own token, and two requests are sent: the second peer tries to answer
  the first peer's request, the first peer answers twice, the second peer disconnects.\<close>

definition ex_relay_ops :: "relay_op list" where
  "ex_relay_ops =
    [Start_Relay, Issue_Bootstrap 0 ''a'' 300, Issue_Bootstrap 0 ''b'' 300,
     Inbound 1 None (In_Register ''p1'' ''x'' (ex_register ''bt_a'')),
     Inbound 2 None (In_Register ''p3'' ''z'' (ex_register ''bt_a'')),
     Inbound 2 None (In_Register ''p2'' ''y'' (ex_register ''bt_b'')),
     Send ''r1'' ''p1'' (Exec_Tool ''shell'' True), Send ''r2'' ''p2'' (Workspace_Op ''read'' False),
     Loop_Starts ''r1'', Loop_Starts ''r2'',
     Inbound 3 (Some ''p2'') (In_Result ''r1'' (Tool_Result (JStr ''forged''))),
     Inbound 4 (Some ''p1'') (In_Result ''r1'' (Tool_Result (JStr ''first''))),
     Inbound 5 (Some ''p1'') (In_Result ''r1'' (Tool_Result (JStr ''second'')))]"

text \<open>Two server threads register with the same token: both pass the check before either marks it.
  A third attempt, after the marks, is refused.\<close>

definition ex_race_ops :: "relay_op list" where
  "ex_race_ops =
    [Issue_Bootstrap 0 ''a'' 300, Begin_Register 1 (ex_register ''bt_a''),
     Begin_Register 1 (ex_register ''bt_a''), Finish_Register 2 0 ''p1'' ''x'']"

definition ex_race_later :: "relay_op list" where
  "ex_race_later =
    [Finish_Register 2 0 ''p2'' ''y'', Begin_Register 3 (ex_register ''bt_a''),
     Finish_Register 3 0 ''p3'' ''z'']"

text \<open>C7: a bootstrap token that has admitted a peer is spent: from then on, over any sequence of relay
  operations (tokens issued, registrations on the event loop and on the threads of the HTTP
  server, each of those cut between checking the token and marking it, lease refreshes,
  pruning, requests, restarts), no check of that token passes again, and it admits at most as
  many further peers as there were registrations already past their check. A token with no
  registration in flight when it admits its first peer therefore admits no other. The
  generated secrets are assumed not to repeat.\<close>

theorem spent_token_admits_only_overlapping:
  assumes "distinct (concat (map bootstrap_secrets (ops @ later)))"
    and "r = run_ops relay_step (new_relay timeout ttl) ops" and "r' = run_ops relay_step r later"
    and "token \<in> fst ` set (rl_admitted r)"
  shows "\<not> check_bootstrap_token now token (rl_tokens r') \<and>
    admissions_of token r' + in_flight token r' \<le> admissions_of token r + in_flight token r"
proof -
  let ?used = "set (concat (map bootstrap_secrets ops))"
  have "spent ({} \<union> ?used) r"
    unfolding assms(2) by (rule admissions.fresh_run [OF spent_new]) (use assms(1) in auto)
  then have "spent_within token (admissions_of token r + in_flight token r) ?used r"
    using assms(4) by (simp add: spent_within_def)
  from overlaps.fresh_run [OF this, of later]
  have s: "spent_within token (admissions_of token r + in_flight token r)
      (?used \<union> set (concat (map bootstrap_secrets later))) r'"
    using assms(1,3) by (simp add: Int_commute)
  then show ?thesis
    using check_known [of _ r' now token] by (auto simp: spent_within_def)
qed

theorem spent_token_admits_only_overlapping_witness:
  "let r = run_ops relay_step (new_relay 30 3600) ex_race_ops; r' = run_ops relay_step r ex_race_later
   in rl_admitted r = [(''bt_a'', ''p1'')] \<and> in_flight ''bt_a'' r = 1 \<and>
      admissions_of ''bt_a'' r' + in_flight ''bt_a'' r' \<le> 2 \<and>
      \<not> check_bootstrap_token 4 ''bt_a'' (rl_tokens r')"
proof -
  let ?r = "run_ops relay_step (new_relay 30 3600) ex_race_ops"
  have "distinct (concat (map bootstrap_secrets (ex_race_ops @ ex_race_later)))" by code_simp
  moreover have a: "rl_admitted ?r = [(''bt_a'', ''p1'')]" by code_simp
  moreover have "in_flight ''bt_a'' ?r = 1" by code_simp
  moreover have "admissions_of ''bt_a'' ?r = 1" by code_simp
  moreover have "''bt_a'' \<in> fst ` set (rl_admitted ?r)" unfolding a by simp
  ultimately show ?thesis
    using spent_token_admits_only_overlapping [of ex_race_ops ex_race_later ?r 30 3600 _ "''bt_a''" 4]
    by (simp add: Let_def)
qed

text \<open>The code does not make a bootstrap token one-time: two overlapping registrations are both
  admitted with it.\<close>

theorem overlapping_registrations_share_token:
  "rl_admitted (run_ops relay_step (new_relay 30 3600) (ex_race_ops @ ex_race_later)) =
     [(''bt_a'', ''p1''), (''bt_a'', ''p2'')]"
  by code_simp

text \<open>C8: over any sequence of relay operations whose request ids do not repeat, each request is
  handed to the transport at most once, its wait ends at most once, and an answer is only
  ever accepted from the peer the request was sent to.\<close>

theorem answers_come_from_the_owner:
  assumes "distinct (concat (map request_ids ops))"
    and "r = run_ops relay_step (new_relay timeout ttl) ops"
  shows "distinct (map fst (rl_outcomes r)) \<and> distinct (map fst (rl_sent r)) \<and>
    (\<forall>k x res. (k, Answered x res) \<in> set (rl_outcomes r) \<longrightarrow>
       (\<exists>p. x = Some p \<and> (k, p) \<in> set (rl_sent r)))"
proof -
  have "correlated ({} \<union> set (concat (map request_ids ops))) r"
    unfolding assms(2) by (rule requests.fresh_run [OF correlated_new assms(1)]) simp
  then show ?thesis
    by (auto simp: correlated_def placed_def wait_ids_def sent_once_def owned_def)
qed

theorem answers_come_from_the_owner_witness:
  "let r = run_ops relay_step (new_relay 30 3600) ex_relay_ops
   in rl_outcomes r = [(''r1'', Answered (Some ''p1'') (Tool_Result (JStr ''first'')))] \<and>
      rl_sent r = [(''r1'', ''p1''), (''r2'', ''p2'')] \<and>
      distinct (map fst (rl_outcomes r)) \<and> distinct (map fst (rl_sent r))"
proof -
  have "distinct (concat (map request_ids ex_relay_ops))" by code_simp
  moreover have "rl_outcomes (run_ops relay_step (new_relay 30 3600) ex_relay_ops) =
      [(''r1'', Answered (Some ''p1'') (Tool_Result (JStr ''first'')))]" by code_simp
  moreover have "rl_sent (run_ops relay_step (new_relay 30 3600) ex_relay_ops) =
      [(''r1'', ''p1''), (''r2'', ''p2'')]" by code_simp
  ultimately show ?thesis
    using answers_come_from_the_owner [of ex_relay_ops _ 30 3600] by (simp add: Let_def)
qed

text \<open>when a peer disconnects, exactly its pending requests fail, each with a disconnection
  error and in the order they were sent; every other wait keeps its owner, and the peer is
  offline.\<close>

theorem disconnect_fails_exactly_its_requests:
  assumes "distinct (concat (map request_ids ops))"
    and "r = run_ops relay_step (new_relay timeout ttl) ops" and "p \<noteq> []"
  shows "get_peer p (rl_registry (on_disconnect p r)) = None \<and>
    rl_outcomes (on_disconnect p r) = rl_outcomes r @ map (\<lambda>q. (q, Failed (Peer_Disconnected p)))
      (filter (\<lambda>q. dict_get (rl_pending_peer_ids r) q = Some p) (rl_pending r)) \<and>
    (\<forall>k. dict_get (rl_pending_peer_ids (on_disconnect p r)) k =
      (if dict_get (rl_pending_peer_ids r) k = Some p then None else dict_get (rl_pending_peer_ids r) k))"
proof -
  have "correlated ({} \<union> set (concat (map request_ids ops))) r"
    unfolding assms(2) by (rule requests.fresh_run [OF correlated_new assms(1)]) simp
  then have "relay_wf r" by (rule correlatedD)
  then show ?thesis
    using assms(3) by (simp add: on_disconnect_def fail_pending_fields disconnected_is_offline)
qed

theorem disconnect_fails_exactly_its_requests_witness:
  "rl_outcomes (on_disconnect ''p2'' (run_ops relay_step (new_relay 30 3600) ex_relay_ops)) =
     [(''r1'', Answered (Some ''p1'') (Tool_Result (JStr ''first''))),
      (''r2'', Failed (Peer_Disconnected ''p2''))] \<and>
   get_peer ''p2'' (rl_registry (on_disconnect ''p2''
     (run_ops relay_step (new_relay 30 3600) ex_relay_ops))) = None"
proof -
  have "distinct (concat (map request_ids ex_relay_ops))" by code_simp
  moreover have "rl_outcomes (on_disconnect ''p2'' (run_ops relay_step (new_relay 30 3600) ex_relay_ops)) =
     [(''r1'', Answered (Some ''p1'') (Tool_Result (JStr ''first''))),
      (''r2'', Failed (Peer_Disconnected ''p2''))]" by code_simp
  ultimately show ?thesis
    using disconnect_fails_exactly_its_requests [of ex_relay_ops _ 30 3600 "''p2''"] by simp
qed

text \<open>pruning expired tokens is unobservable: at any later time, verifying a peer token, refreshing
  its lease within the grace window and consuming a bootstrap token give the same answer
  with and without it.\<close>

theorem pruning_is_unobservable:
  assumes "dict_ok (tm_bootstrap tm)" "dict_ok (tm_peers tm)" "now \<le> later"
    and "tm' = fst (prune_expired now grace tm)"
  shows "verify_peer_token later token tm' = verify_peer_token later token tm \<and>
    snd (refresh_peer_token later token ttl grace tm') = snd (refresh_peer_token later token ttl grace tm) \<and>
    snd (consume_bootstrap_token later token tm') = snd (consume_bootstrap_token later token tm)"
proof (intro conjI)
  have boot: "tm_bootstrap tm' = unexpired now 0 (tm_bootstrap tm)"
    and peers: "tm_peers tm' = unexpired now (max 0 grace) (tm_peers tm)"
    using assms(4) by (simp_all add: prune_expired_def Let_def)
  show "verify_peer_token later token tm' = verify_peer_token later token tm"
    using assms(2,3) by (auto simp: verify_peer_token_def peers dict_get_unexpired split: option.splits)
  show "snd (refresh_peer_token later token ttl grace tm') =
      snd (refresh_peer_token later token ttl grace tm)"
    using assms(2,3) by (auto simp: refresh_peer_token_def peers dict_get_unexpired split: option.splits)
  show "snd (consume_bootstrap_token later token tm') = snd (consume_bootstrap_token later token tm)"
    using assms(1,3) by (auto simp: consume_bootstrap_token_def check_bootstrap_token_def boot dict_get_unexpired
        split: option.splits)
qed

theorem pruning_is_unobservable_witness:
  "let tm = rl_tokens (run_ops relay_step (new_relay 30 3600) ex_relay_ops);
       tm' = fst (prune_expired 400 30 tm)
   in verify_peer_token 3000 ''pt_x'' tm = Some ''p1'' \<and> verify_peer_token 3000 ''pt_x'' tm' = Some ''p1'' \<and>
      tm_bootstrap tm' = [] \<and> snd (consume_bootstrap_token 500 ''bt_b'' tm') = False"
proof -
  let ?tm = "rl_tokens (run_ops relay_step (new_relay 30 3600) ex_relay_ops)"
  have ok: "dict_ok (tm_bootstrap ?tm)" "dict_ok (tm_peers ?tm)" by code_simp+
  have v: "verify_peer_token 3000 ''pt_x'' ?tm = Some ''p1''" by code_simp
  have c: "snd (consume_bootstrap_token 500 ''bt_b'' ?tm) = False" by code_simp
  have b: "tm_bootstrap (fst (prune_expired 400 30 ?tm)) = []" by code_simp
  show ?thesis
    using pruning_is_unobservable [OF ok, of 400 3000 _ 30 "''pt_x''"]
      pruning_is_unobservable [OF ok, of 400 500 _ 30 "''bt_b''"] v c b by (simp add: Let_def)
qed

text \<open>refreshing the lease of a peer that is offline answers None, as for an unknown token, yet
  extends the lease: the token of the disconnected peer, which would have expired, verifies
  again, and its next heartbeat brings the peer back online.\<close>

theorem offline_refresh_extends_lease:
  "let r = run_ops relay_step (new_relay 30 60)
         [Start_Relay, Issue_Bootstrap 0 ''a'' 300,
          Inbound 0 None (In_Register ''p1'' ''x'' (ex_register ''bt_a'')), Inbound 10 (Some ''p1'') In_Disconnect];
       r' = fst (relay_refresh 80 ''pt_x'' r)
   in snd (relay_refresh 80 ''pt_x'' r) = None \<and> get_peer ''p1'' (rl_registry r) = None \<and>
      verify_peer_token 100 ''pt_x'' (rl_tokens r) = None \<and>
      verify_peer_token 100 ''pt_x'' (rl_tokens r') = Some ''p1'' \<and>
      get_peer ''p1'' (rl_registry (on_heartbeat 100 ''pt_x'' None r')) \<noteq> None"
  by code_simp

end
