(* ===== verification/Hook_Registry.thy ===== *)
theory Hook_Registry
  imports Hook_Types
begin

text \<open>
  The hook runtime: \<^verbatim>\<open>domain/hooks/registry.py\<close> with the base classes of
  \<^verbatim>\<open>domain/hooks/base.py\<close> and the contexts, snapshots and diagnostics of
  \<^verbatim>\<open>domain/hooks/types.py\<close>. Hooks, the diagnostic sink and the performance monitor are code of
  their own: each is a function that takes and returns the state \<open>'w\<close> of everything outside
  the registry and either raises an ordinary exception or returns. The lemmas show that the
  per-kind cache is transparent, that guards run in priority order and fail closed, that
  transforms keep the context's class and its deferred callbacks, that observers cannot stop
  one another, and that a failure report never depends on the exception's text.
\<close>

section \<open>Exceptions and their safe facts\<close>

text \<open>Reading an attribute of an exception gives a string, something else (a missing attribute
  reads as None), or raises.\<close>

datatype attr_value = Attr_Str string | Attr_Other | Attr_Raises

record hook_exn =
  hx_type_name :: string
  hx_text :: string
  hx_error_type :: attr_value
  hx_phase :: attr_value
  hx_code :: attr_value
  hx_ref :: attr_value

definition type_error :: "string \<Rightarrow> hook_exn" where
  "type_error message = \<lparr>hx_type_name = ''TypeError'', hx_text = message, hx_error_type = Attr_Other,
     hx_phase = Attr_Other, hx_code = Attr_Other, hx_ref = Attr_Other\<rparr>"

record hook_failure_facts =
  hf_phase :: string
  hf_error_type :: string
  hf_code :: "string option"
  hf_ref :: "string option"

definition safe_char :: "char \<Rightarrow> bool" where
  "safe_char c = (let n = (of_char c :: nat) in
     (48 \<le> n \<and> n \<le> 57) \<or> (65 \<le> n \<and> n \<le> 90) \<or> (97 \<le> n \<and> n \<le> 122) \<or>
     c \<in> {CHR ''.'', CHR ''_'', CHR ''-'', CHR '':''})"

definition safe_fact :: "attr_value \<Rightarrow> string option \<Rightarrow> nat \<Rightarrow> string option" where
  "safe_fact value fallback limit =
     (case value of
        Attr_Str s \<Rightarrow> if s = [] \<or> limit < length s then fallback
                      else if \<not> list_all safe_char s then fallback else Some s
      | _ \<Rightarrow> fallback)"

definition safe_error_attribute :: "attr_value \<Rightarrow> string option" where
  "safe_error_attribute value = (if value = Attr_Raises then None else safe_fact value None 128)"

text \<open>\<^verbatim>\<open>a or b\<close> on optional strings: the empty string is false too.\<close>

fun str_or :: "string option \<Rightarrow> string option \<Rightarrow> string option" where
  "str_or (Some (c # s)) b = Some (c # s)"
| "str_or _ b = b"

definition str_or_default :: "string option \<Rightarrow> string \<Rightarrow> string" where
  "str_or_default a b = (case str_or a None of Some s \<Rightarrow> s | None \<Rightarrow> b)"

definition failure_facts :: "hook_exn \<Rightarrow> string \<Rightarrow> hook_failure_facts" where
  "failure_facts error default_phase =
     \<lparr>hf_phase = str_or_default (str_or (safe_error_attribute (hx_phase error))
         (safe_fact (Attr_Str default_phase) (Some ''hook'') 128)) ''hook'',
      hf_error_type = str_or_default (str_or (safe_error_attribute (hx_error_type error))
         (safe_fact (Attr_Str (hx_type_name error)) (Some ''Exception'') 64)) ''Exception'',
      hf_code = safe_error_attribute (hx_code error),
      hf_ref = safe_error_attribute (hx_ref error)\<rparr>"

definition safe_hook_name :: "string \<Rightarrow> string" where
  "safe_hook_name name = str_or_default (safe_fact (Attr_Str name) (Some ''unknown_hook'') 128) ''unknown_hook''"

definition failure_message :: "hook_failure_facts \<Rightarrow> string \<Rightarrow> hook_kind \<Rightarrow> string" where
  "failure_message facts hook_name kind =
     ''Hook execution failed ('' @ join '', ''
       ([''phase='' @ hf_phase facts, ''error_type='' @ hf_error_type facts] @
        (case hf_code facts of None \<Rightarrow> [] | Some c \<Rightarrow> [''code='' @ c]) @
        (case hf_ref facts of None \<Rightarrow> [] | Some c \<Rightarrow> [''ref='' @ c]) @
        [''hook='' @ hook_name, ''hook_kind='' @ hook_kind_value kind]) @ '')''"

record hook_diagnostic =
  hd_hook_name :: string
  hd_hook_point :: hook_point
  hd_hook_kind :: hook_kind
  hd_message :: string
  hd_severity :: string
  hd_phase :: "string option"
  hd_error_type :: "string option"
  hd_code :: "string option"
  hd_ref :: "string option"

definition failure_diagnostic ::
    "string \<Rightarrow> hook_point \<Rightarrow> hook_kind \<Rightarrow> hook_exn \<Rightarrow> string \<Rightarrow> string \<Rightarrow> hook_diagnostic" where
  "failure_diagnostic hook_name point kind error default_phase severity =
     (let facts = failure_facts error default_phase; safe = safe_hook_name hook_name
      in \<lparr>hd_hook_name = safe, hd_hook_point = point, hd_hook_kind = kind,
          hd_message = failure_message facts safe kind, hd_severity = severity,
          hd_phase = Some (hf_phase facts), hd_error_type = Some (hf_error_type facts),
          hd_code = hf_code facts, hd_ref = hf_ref facts\<rparr>)"

text \<open>The exception a failed transform raises.\<close>

record hook_execution_error =
  he_phase :: string
  he_hook_name :: string
  he_hook_kind :: string
  he_error_type :: string
  he_code :: "string option"
  he_ref :: "string option"
  he_message :: string

definition hook_execution_error_of :: "hook_diagnostic \<Rightarrow> hook_execution_error" where
  "hook_execution_error_of d =
     \<lparr>he_phase = str_or_default (hd_phase d) (hook_point_value (hd_hook_point d)),
      he_hook_name = hd_hook_name d, he_hook_kind = hook_kind_value (hd_hook_kind d),
      he_error_type = str_or_default (hd_error_type d) ''Exception'',
      he_code = hd_code d, he_ref = hd_ref d, he_message = hd_message d\<rparr>"

section \<open>Contexts and snapshots\<close>

text \<open>Values a context may hold. An instance is an object the context refers to: whether its class
  is a frozen dataclass, the class name and the attributes.\<close>

datatype pyv =
    P_Scalar json
  | P_Dict "(string \<times> pyv) list"
  | P_Mapping_Proxy "(string \<times> pyv) list"
  | P_List "pyv list"
  | P_Tuple "pyv list"
  | P_Set "pyv list"
  | P_Frozenset "pyv list"
  | P_Instance bool string "(string \<times> pyv) list"

datatype context_class =
    Hook_Context
  | Before_Tool_Execute_Context
  | After_Tool_Execute_Context
  | Before_LLM_Request_Context
  | After_LLM_Response_Context
  | Runner_Startup_Context
  | Runner_Shutdown_Context
  | Session_Start_Context
  | Session_Save_Context

text \<open>\<^verbatim>\<open>isinstance\<close> on this hierarchy: one base class and its direct subclasses.\<close>

definition is_instance :: "context_class \<Rightarrow> context_class \<Rightarrow> bool" where
  "is_instance c d = (c = d \<or> d = Hook_Context)"

text \<open>The fields of the base class, and the fields of the subclass with its deferred callbacks
  (only request contexts have any).\<close>

record hook_context =
  cx_class :: context_class
  cx_hook_point :: hook_point
  cx_agent_id :: "string option"
  cx_session_generation :: "int option"
  cx_session_id :: "string option"
  cx_turn_id :: "string option"
  cx_trace_id :: "string option"
  cx_metadata :: "(string \<times> pyv) list"
  cx_own :: "(string \<times> pyv) list llm_request_context"

record hook_snapshot =
  sn_hook_point :: hook_point
  sn_agent_id :: "string option"
  sn_session_generation :: "int option"
  sn_session_id :: "string option"
  sn_turn_id :: "string option"
  sn_trace_id :: "string option"
  sn_metadata :: pyv
  sn_payload :: pyv

fun freeze :: "pyv \<Rightarrow> pyv" where
  "freeze (P_Dict fs) = P_Mapping_Proxy (map (\<lambda>(k, v). (k, freeze v)) fs)"
| "freeze (P_Mapping_Proxy fs) = P_Mapping_Proxy (map (\<lambda>(k, v). (k, freeze v)) fs)"
| "freeze (P_List vs) = P_Tuple (map freeze vs)"
| "freeze (P_Tuple vs) = P_Tuple (map freeze vs)"
| "freeze (P_Set vs) = P_Frozenset (map freeze vs)"
| "freeze (P_Frozenset vs) = P_Frozenset (map freeze vs)"
| "freeze (P_Scalar j) = P_Scalar j"
| "freeze (P_Instance b c fs) = P_Instance b c fs"

text \<open>The base-class fields and the callback fields are left out of the payload; the subclass
  fields are exactly the rest, except that \<^verbatim>\<open>SessionSaveContext\<close> redeclares \<^verbatim>\<open>session_id\<close>,
  which stays a base field here.\<close>

definition snapshot :: "hook_context \<Rightarrow> hook_snapshot" where
  "snapshot c =
     \<lparr>sn_hook_point = cx_hook_point c, sn_agent_id = cx_agent_id c,
      sn_session_generation = cx_session_generation c, sn_session_id = cx_session_id c,
      sn_turn_id = cx_turn_id c, sn_trace_id = cx_trace_id c,
      sn_metadata = freeze (P_Dict (cx_metadata c)),
      sn_payload = P_Mapping_Proxy (map (\<lambda>(k, v). (k, freeze v)) (lr_payload (cx_own c)))\<rparr>"

section \<open>Hooks\<close>

text \<open>
  What a hook's \<^verbatim>\<open>run\<close> does: change the outside state, and raise or return. A guard returns a
  decision or something that is not one. A transform may also edit the context it was given
  in place; it returns that context, another one, or something that is not a context of the
  same class.
\<close>

datatype transform_return = Same_Context | New_Context hook_context | Not_A_Context

datatype 'w hook_body =
    Guard_Hook "hook_context \<Rightarrow> 'w \<Rightarrow> 'w \<times> (hook_exn, guard_decision option) result"
  | Transform_Hook "hook_context \<Rightarrow> 'w \<Rightarrow> 'w \<times> hook_context \<times> (hook_exn, transform_return) result"
  | Observer_Hook "hook_snapshot \<Rightarrow> 'w \<Rightarrow> 'w \<times> hook_exn option"

datatype 'w hook = Hook
  (hk_name: string)
  (hk_priority: int)
  (hk_extension: "string option")
  (hk_body: "'w hook_body")
  (hk_bind: "string \<Rightarrow> json option \<Rightarrow> 'w \<Rightarrow> 'w")
  (hk_clone: "string \<Rightarrow> hook_exn + 'w hook")

fun body_kind :: "'w hook_body \<Rightarrow> hook_kind" where
  "body_kind (Guard_Hook _) = GUARD"
| "body_kind (Transform_Hook _) = TRANSFORM"
| "body_kind (Observer_Hook _) = OBSERVER"

definition hook_kind_of :: "'w hook \<Rightarrow> hook_kind" where
  "hook_kind_of h = body_kind (hk_body h)"

record 'w hook_registry =
  hr_hooks :: "(hook_point, 'w hook list) dict"
  hr_kind_cache :: "(hook_point \<times> hook_kind, 'w hook list) dict"
  hr_diagnostic_sink :: "(hook_diagnostic \<Rightarrow> 'w \<Rightarrow> 'w \<times> hook_exn option) option"
  hr_diagnostics :: "hook_diagnostic list"
  hr_performance_monitor :: "(string \<Rightarrow> string \<Rightarrow> 'w \<Rightarrow> 'w \<times> hook_exn option) option"

type_synonym 'w hook_state = "'w hook_registry \<times> 'w"

definition new_hook_registry :: "'w hook_registry" where
  "new_hook_registry = \<lparr>hr_hooks = [], hr_kind_cache = [], hr_diagnostic_sink = None,
     hr_diagnostics = [], hr_performance_monitor = None\<rparr>"

definition hooks_get :: "hook_point \<Rightarrow> 'w hook_registry \<Rightarrow> 'w hook list" where
  "hooks_get point r = (case dict_get (hr_hooks r) point of None \<Rightarrow> [] | Some hs \<Rightarrow> hs)"

definition sorted_hooks :: "'w hook list \<Rightarrow> 'w hook list" where
  "sorted_hooks hs = sorted_desc hk_priority hs"

definition invalidate_hook_cache :: "hook_point \<Rightarrow> 'w hook_registry \<Rightarrow> 'w hook_registry" where
  "invalidate_hook_cache point r =
     r\<lparr>hr_kind_cache := fold (\<lambda>kind. dict_pop (point, kind)) [GUARD, TRANSFORM, OBSERVER] (hr_kind_cache r)\<rparr>"

definition register_hook :: "hook_point \<Rightarrow> 'w hook \<Rightarrow> 'w hook_registry \<Rightarrow> 'w hook_registry" where
  "register_hook point h r =
     invalidate_hook_cache point (r\<lparr>hr_hooks := dict_set point (hooks_get point r @ [h]) (hr_hooks r)\<rparr>)"

definition unregister_hook :: "hook_point \<Rightarrow> string \<Rightarrow> 'w hook_registry \<Rightarrow> 'w hook_registry" where
  "unregister_hook point name r =
     invalidate_hook_cache point
       (r\<lparr>hr_hooks := dict_set point (filter (\<lambda>h. hk_name h \<noteq> name) (hooks_get point r)) (hr_hooks r)\<rparr>)"

definition list_hooks :: "hook_point option \<Rightarrow> 'w hook_registry \<Rightarrow> (string \<times> string list) list" where
  "list_hooks point r =
     (case point of
        Some p \<Rightarrow> [(hook_point_value p, map hk_name (sorted_hooks (hooks_get p r)))]
      | None \<Rightarrow> map (\<lambda>(p, hs). (hook_point_value p, map hk_name (sorted_hooks hs))) (hr_hooks r))"

definition hooks_at :: "hook_point \<Rightarrow> 'w hook_registry \<Rightarrow> 'w hook list" where
  "hooks_at point r = sorted_hooks (hooks_get point r)"

definition drain_diagnostics :: "'w hook_registry \<Rightarrow> 'w hook_registry \<times> hook_diagnostic list" where
  "drain_diagnostics r = (r\<lparr>hr_diagnostics := []\<rparr>, hr_diagnostics r)"

definition log_diagnostic :: "hook_diagnostic \<Rightarrow> 'w hook_registry \<Rightarrow> 'w hook_registry" where
  "log_diagnostic d r = r\<lparr>hr_diagnostics := hr_diagnostics r @ [d]\<rparr>"

definition report_diagnostic :: "hook_diagnostic \<Rightarrow> 'w hook_state \<Rightarrow> 'w hook_state" where
  "report_diagnostic d st =
     (case st of (r, w) \<Rightarrow>
        let r1 = log_diagnostic d r
        in (case hr_diagnostic_sink r of
             None \<Rightarrow> (r1, w)
           | Some sink \<Rightarrow>
               (case sink d w of
                  (w', None) \<Rightarrow> (r1, w')
                | (w', Some error) \<Rightarrow>
                    (log_diagnostic (failure_diagnostic ''diagnostic_sink'' (hd_hook_point d) OBSERVER
                       error ''diagnostic_sink'' ''warning'') r1, w'))))"

definition bind_runtime_service :: "string \<Rightarrow> json option \<Rightarrow> 'w hook_state \<Rightarrow> 'w hook_state" where
  "bind_runtime_service name service st =
     (case st of (r, w) \<Rightarrow> (r, fold (\<lambda>h. hk_bind h name service) (concat (map snd (hr_hooks r))) w))"

definition iter_kind :: "hook_point \<Rightarrow> hook_kind \<Rightarrow> 'w hook_registry \<Rightarrow> 'w hook_registry \<times> 'w hook list" where
  "iter_kind point kind r =
     (case dict_get (hr_kind_cache r) (point, kind) of
        Some cached \<Rightarrow> (r, cached)
      | None \<Rightarrow>
          let selected = filter (\<lambda>h. hook_kind_of h = kind) (sorted_hooks (hooks_get point r))
          in (r\<lparr>hr_kind_cache := dict_set (point, kind) selected (hr_kind_cache r)\<rparr>, selected))"

fun clone_hooks :: "string \<Rightarrow> 'w hook list \<Rightarrow> (hook_exn, 'w hook list) result" where
  "clone_hooks scope [] = Inr []"
| "clone_hooks scope (h # hs) =
     bind_result (hk_clone h scope) (\<lambda>h'. bind_result (clone_hooks scope hs) (\<lambda>hs'. Inr (h' # hs')))"

fun clone_points ::
    "string \<Rightarrow> (hook_point, 'w hook list) dict \<Rightarrow> (hook_exn, (hook_point, 'w hook list) dict) result" where
  "clone_points scope [] = Inr []"
| "clone_points scope ((p, hs) # rest) =
     bind_result (clone_hooks scope hs) (\<lambda>hs'.
       bind_result (clone_points scope rest) (\<lambda>rest'. Inr ((p, hs') # rest')))"

definition clone_registry :: "string \<Rightarrow> 'w hook_registry \<Rightarrow> (hook_exn, 'w hook_registry) result" where
  "clone_registry scope r =
     bind_result (clone_points scope (hr_hooks r)) (\<lambda>hooks.
       Inr \<lparr>hr_hooks = hooks, hr_kind_cache = [], hr_diagnostic_sink = hr_diagnostic_sink r,
            hr_diagnostics = [], hr_performance_monitor = hr_performance_monitor r\<rparr>)"

section \<open>Running hooks\<close>

definition report_secondary_failure ::
    "string \<Rightarrow> hook_point \<Rightarrow> hook_kind \<Rightarrow> hook_exn \<Rightarrow> string \<Rightarrow> 'w hook_state \<Rightarrow> 'w hook_state \<times> hook_diagnostic" where
  "report_secondary_failure hook_name point kind error default_phase st =
     (let d = failure_diagnostic hook_name point kind error default_phase ''warning''
      in (report_diagnostic d st, d))"

definition report_failure ::
    "'w hook \<Rightarrow> hook_point \<Rightarrow> hook_kind \<Rightarrow> hook_exn \<Rightarrow> 'w hook_state \<Rightarrow> 'w hook_state \<times> hook_diagnostic" where
  "report_failure h point kind error st =
     (let d = failure_diagnostic (hk_name h) point kind error (hook_point_value point)
              (if kind \<noteq> OBSERVER then ''error'' else ''warning'')
      in (report_diagnostic d st, d))"

text \<open>Leaving a measured block: the monitor records the status; a monitor that raises is reported
  and does not change how the block ended.\<close>

definition leave_measurement ::
    "string \<Rightarrow> string \<Rightarrow> hook_point \<Rightarrow> hook_kind \<Rightarrow> bool \<Rightarrow> 'w hook_state \<Rightarrow> 'w hook_state" where
  "leave_measurement name hook_name point kind ok st =
     (case st of (r, w) \<Rightarrow>
        (case hr_performance_monitor r of
          None \<Rightarrow> (r, w)
        | Some monitor \<Rightarrow>
            (case monitor name (if ok then ''ok'' else ''error'') w of
               (w', None) \<Rightarrow> (r, w')
             | (w', Some error) \<Rightarrow>
                 fst (report_secondary_failure hook_name point kind error ''performance_measurement'' (r, w')))))"

definition leave_hook_measurement ::
    "'w hook \<Rightarrow> hook_point \<Rightarrow> hook_kind \<Rightarrow> bool \<Rightarrow> 'w hook_state \<Rightarrow> 'w hook_state" where
  "leave_hook_measurement h point kind ok st =
     (let hook_name = safe_hook_name (hk_name h)
      in leave_measurement (hook_point_value point @ '':'' @ hook_name) hook_name point kind ok st)"

text \<open>A guard's result inside the measured block: anything but a decision raises.\<close>

fun guard_result :: "(hook_exn, guard_decision option) result \<Rightarrow> (hook_exn, guard_decision) result" where
  "guard_result (Inl e) = Inl e"
| "guard_result (Inr None) = Inl (type_error ''guard hook returned an invalid decision'')"
| "guard_result (Inr (Some d)) = Inr d"

fun run_guard_list ::
    "hook_point \<Rightarrow> hook_context \<Rightarrow> 'w hook list \<Rightarrow> 'w hook_state \<Rightarrow> 'w hook_state \<times> guard_decision list" where
  "run_guard_list point ctx [] st = (st, [])"
| "run_guard_list point ctx (h # hs) (r, w) =
     (case hk_body h of
        Guard_Hook f \<Rightarrow>
          (case f ctx w of (w1, returned) \<Rightarrow>
             let res = guard_result returned;
                 st1 = leave_hook_measurement h point GUARD (\<not> isl res) (r, w1)
             in (case res of
                  Inl error \<Rightarrow>
                    (case report_failure h point GUARD error st1 of
                       (st2, d) \<Rightarrow> (st2, [gd_deny (hd_message d)]))
                | Inr decision \<Rightarrow>
                    if gd_allowed decision
                    then (case run_guard_list point ctx hs st1 of (st2, ds) \<Rightarrow> (st2, decision # ds))
                    else (st1, [decision])))
      | _ \<Rightarrow> run_guard_list point ctx hs (r, w))"

definition run_guards ::
    "hook_point \<Rightarrow> hook_context \<Rightarrow> 'w hook_state \<Rightarrow> 'w hook_state \<times> guard_decision list" where
  "run_guards point ctx st =
     (case st of (r, w) \<Rightarrow>
        case iter_kind point GUARD r of (r1, hs) \<Rightarrow> run_guard_list point ctx hs (r1, w))"

text \<open>A transform's result inside the measured block: the context the next hook gets. A request
  context that is replaced hands its deferred callbacks on.\<close>

definition transform_result ::
    "hook_context \<Rightarrow> (hook_exn, transform_return) result \<Rightarrow> (hook_exn, hook_context) result" where
  "transform_result current returned =
     (case returned of
        Inl e \<Rightarrow> Inl e
      | Inr Same_Context \<Rightarrow> Inr current
      | Inr Not_A_Context \<Rightarrow> Inl (type_error ''transform hook returned an invalid context'')
      | Inr (New_Context c) \<Rightarrow>
          if \<not> is_instance (cx_class c) (cx_class current)
          then Inl (type_error ''transform hook returned an invalid context'')
          else if is_instance (cx_class current) Before_LLM_Request_Context
          then Inr (c\<lparr>cx_own := snd (transfer_dispatch_callbacks_to (cx_own current) (cx_own c))\<rparr>)
          else Inr c)"

fun run_transform_list ::
    "hook_point \<Rightarrow> 'w hook list \<Rightarrow> hook_context \<Rightarrow> 'w hook_state
      \<Rightarrow> 'w hook_state \<times> (hook_execution_error, hook_context) result" where
  "run_transform_list point [] current st = (st, Inr current)"
| "run_transform_list point (h # hs) current (r, w) =
     (case hk_body h of
        Transform_Hook f \<Rightarrow>
          (case f current w of (w1, edited, returned) \<Rightarrow>
             let res = transform_result edited returned;
                 st1 = leave_hook_measurement h point TRANSFORM (\<not> isl res) (r, w1)
             in (case res of
                  Inl error \<Rightarrow>
                    (case report_failure h point TRANSFORM error st1 of
                       (st2, d) \<Rightarrow> (st2, Inl (hook_execution_error_of d)))
                | Inr c \<Rightarrow> run_transform_list point hs c st1))
      | _ \<Rightarrow> run_transform_list point hs current (r, w))"

definition run_transforms ::
    "hook_point \<Rightarrow> hook_context \<Rightarrow> 'w hook_state
      \<Rightarrow> 'w hook_state \<times> (hook_execution_error, hook_context) result" where
  "run_transforms point ctx st =
     (case st of (r, w) \<Rightarrow>
        case iter_kind point TRANSFORM r of (r1, hs) \<Rightarrow> run_transform_list point hs ctx (r1, w))"

fun run_observer_list ::
    "hook_point \<Rightarrow> hook_snapshot \<Rightarrow> 'w hook list \<Rightarrow> 'w hook_state \<Rightarrow> 'w hook_state \<times> hook_diagnostic list" where
  "run_observer_list point sn [] st = (st, [])"
| "run_observer_list point sn (h # hs) (r, w) =
     (case hk_body h of
        Observer_Hook f \<Rightarrow>
          (case f sn w of (w1, raised) \<Rightarrow>
             let st1 = leave_hook_measurement h point OBSERVER (raised = None) (r, w1)
             in (case raised of
                  None \<Rightarrow> run_observer_list point sn hs st1
                | Some error \<Rightarrow>
                    (case report_failure h point OBSERVER error st1 of
                       (st2, d) \<Rightarrow>
                         case run_observer_list point sn hs st2 of (st3, ds) \<Rightarrow> (st3, d # ds))))
      | _ \<Rightarrow> run_observer_list point sn hs (r, w))"

text \<open>Freezing cannot raise on these values, so the snapshot's error path does not arise.\<close>

definition run_observers ::
    "hook_point \<Rightarrow> hook_context \<Rightarrow> 'w hook_state \<Rightarrow> 'w hook_state \<times> hook_diagnostic list" where
  "run_observers point ctx st =
     (case st of (r, w) \<Rightarrow>
        case iter_kind point OBSERVER r of (r1, hs) \<Rightarrow>
          if hs = [] then ((r1, w), [])
          else run_observer_list point (snapshot ctx) hs
                 (leave_measurement (hook_point_value point @ '':snapshot'') ''observer_snapshot''
                    point OBSERVER True (r1, w)))"

text \<open>The operations of a registry, as a step on its state.\<close>

datatype 'w hook_op =
    Register_Hook hook_point "'w hook"
  | Unregister_Hook hook_point string
  | Bind_Service string "json option"
  | Drain_Diagnostics
  | Report_Diagnostic hook_diagnostic
  | Run_Guards hook_point hook_context
  | Run_Transforms hook_point hook_context
  | Run_Observers hook_point hook_context
  | Set_Sink "(hook_diagnostic \<Rightarrow> 'w \<Rightarrow> 'w \<times> hook_exn option) option"
  | Set_Monitor "(string \<Rightarrow> string \<Rightarrow> 'w \<Rightarrow> 'w \<times> hook_exn option) option"

fun hook_step :: "'w hook_state \<Rightarrow> 'w hook_op \<Rightarrow> (hook_exn, 'w hook_state) result" where
  "hook_step (r, w) (Register_Hook point h) = Inr (register_hook point h r, w)"
| "hook_step (r, w) (Unregister_Hook point name) = Inr (unregister_hook point name r, w)"
| "hook_step st (Bind_Service name service) = Inr (bind_runtime_service name service st)"
| "hook_step (r, w) Drain_Diagnostics = Inr (fst (drain_diagnostics r), w)"
| "hook_step st (Report_Diagnostic d) = Inr (report_diagnostic d st)"
| "hook_step st (Run_Guards point ctx) = Inr (fst (run_guards point ctx st))"
| "hook_step st (Run_Transforms point ctx) = Inr (fst (run_transforms point ctx st))"
| "hook_step st (Run_Observers point ctx) = Inr (fst (run_observers point ctx st))"
| "hook_step (r, w) (Set_Sink sink) = Inr (r\<lparr>hr_diagnostic_sink := sink\<rparr>, w)"
| "hook_step (r, w) (Set_Monitor monitor) = Inr (r\<lparr>hr_performance_monitor := monitor\<rparr>, w)"

section \<open>The cache is transparent\<close>

text \<open>What a stage runs: the hooks of the kind at the point, by descending priority.\<close>

definition stage_hooks :: "hook_point \<Rightarrow> hook_kind \<Rightarrow> 'w hook_registry \<Rightarrow> 'w hook list" where
  "stage_hooks point kind r = filter (\<lambda>h. hook_kind_of h = kind) (sorted_hooks (hooks_get point r))"

definition cache_ok :: "'w hook_state \<Rightarrow> bool" where
  "cache_ok st \<longleftrightarrow> (\<forall>point kind hs. dict_get (hr_kind_cache (fst st)) (point, kind) = Some hs \<longrightarrow>
     hs = stage_hooks point kind (fst st))"

lemma hooks_get_fields [simp]:
  "hooks_get p (r\<lparr>hr_kind_cache := c\<rparr>) = hooks_get p r"
  "hooks_get p (r\<lparr>hr_diagnostics := d\<rparr>) = hooks_get p r"
  "hooks_get p (r\<lparr>hr_diagnostic_sink := s\<rparr>) = hooks_get p r"
  "hooks_get p (r\<lparr>hr_performance_monitor := m\<rparr>) = hooks_get p r"
  by (simp_all add: hooks_get_def)

lemma stage_hooks_cong: "hr_hooks r' = hr_hooks r \<Longrightarrow> stage_hooks p k r' = stage_hooks p k r"
  by (simp add: stage_hooks_def hooks_get_def)

lemma cache_ok_cong:
  "cache_ok st \<Longrightarrow> hr_hooks (fst st') = hr_hooks (fst st) \<Longrightarrow>
   hr_kind_cache (fst st') = hr_kind_cache (fst st) \<Longrightarrow> cache_ok st'"
  unfolding cache_ok_def using stage_hooks_cong by metis

lemma iter_kind_stage: "cache_ok (r, w) \<Longrightarrow> snd (iter_kind p k r) = stage_hooks p k r"
  by (auto simp: iter_kind_def cache_ok_def stage_hooks_def Let_def split: option.splits)

lemma iter_kind_hooks: "hr_hooks (fst (iter_kind p k r)) = hr_hooks r"
  by (auto simp: iter_kind_def Let_def split: option.splits)

lemma iter_kind_cache_ok: "cache_ok (r, w) \<Longrightarrow> cache_ok (fst (iter_kind p k r), w')"
  by (auto simp: iter_kind_def cache_ok_def stage_hooks_def Let_def dict_get_set split: option.splits)

lemma invalidated:
  "dict_get (hr_kind_cache (invalidate_hook_cache p r)) (p', k) =
     (if p' = p then None else dict_get (hr_kind_cache r) (p', k))"
  by (cases k) (auto simp: invalidate_hook_cache_def dict_get_pop)

lemma invalidate_cache_ok:
  assumes "cache_ok (r, w)" "\<And>p'. p' \<noteq> p \<Longrightarrow> hooks_get p' r' = hooks_get p' r"
    "hr_kind_cache r' = hr_kind_cache r"
  shows "cache_ok (invalidate_hook_cache p r', w)"
  using assms unfolding cache_ok_def fst_conv invalidated
  by (auto simp: stage_hooks_def invalidate_hook_cache_def)

text \<open>Everything else a stage does only logs diagnostics and changes the outside state.\<close>

definition same_hooks :: "'w hook_state \<Rightarrow> 'w hook_state \<Rightarrow> bool" where
  "same_hooks st st' \<longleftrightarrow> hr_hooks (fst st') = hr_hooks (fst st) \<and>
     hr_kind_cache (fst st') = hr_kind_cache (fst st)"

lemma same_hooks_refl [simp]: "same_hooks st st"
  by (simp add: same_hooks_def)

lemma same_hooks_trans: "same_hooks a b \<Longrightarrow> same_hooks b c \<Longrightarrow> same_hooks a c"
  by (simp add: same_hooks_def)

lemma same_hooks_cache_ok: "same_hooks st st' \<Longrightarrow> cache_ok st \<Longrightarrow> cache_ok st'"
  by (metis cache_ok_cong same_hooks_def)

lemma same_hooks_world [simp]: "same_hooks (r, w) (r, w')"
  by (simp add: same_hooks_def)

lemma same_hooks_report [simp]: "same_hooks st (report_diagnostic d st)"
  by (cases st) (auto simp: same_hooks_def report_diagnostic_def log_diagnostic_def Let_def
      split: option.splits prod.splits)

lemma same_hooks_measurement: "same_hooks (r, w0) (leave_measurement n h p k ok (r, w))"
proof -
  have "same_hooks (r, w0) (report_diagnostic d (r, w'))" for d w'
    using same_hooks_trans [OF same_hooks_world same_hooks_report] .
  then show ?thesis
    by (auto simp: leave_measurement_def report_secondary_failure_def Let_def split: option.splits prod.splits)
qed

lemma same_hooks_leave_hook: "same_hooks (r, w0) (leave_hook_measurement h p k ok (r, w))"
  by (simp add: leave_hook_measurement_def Let_def same_hooks_measurement)

lemma same_hooks_failure: "report_failure h p k e st = (st', d) \<Longrightarrow> same_hooks st st'"
  by (auto simp: report_failure_def Let_def)

lemma same_hooks_guards: "same_hooks st (fst (run_guard_list p ctx hs st))"
proof (induction p ctx hs st rule: run_guard_list.induct)
  case (2 p ctx h hs r w)
  show ?case
  proof (cases "hk_body h")
    case (Guard_Hook f)
    obtain w1 ret where f: "f ctx w = (w1, ret)" by force
    let ?st = "leave_hook_measurement h p GUARD (\<not> isl (guard_result ret)) (r, w1)"
    have st: "same_hooks (r, w) ?st" by (rule same_hooks_leave_hook)
    show ?thesis
    proof (cases "guard_result ret")
      case (Inl e)
      obtain st2 d where "report_failure h p GUARD e ?st = (st2, d)" by (metis surj_pair)
      with Guard_Hook f Inl show ?thesis
        using same_hooks_trans [OF st same_hooks_failure] by simp
    next
      case (Inr d)
      have IH: "gd_allowed d \<Longrightarrow> same_hooks ?st (fst (run_guard_list p ctx hs ?st))"
        using "2.IH"(1) [OF Guard_Hook f [symmetric] refl refl Inr] by simp
      show ?thesis
        using Guard_Hook f Inr st same_hooks_trans [OF st IH] by (simp add: Let_def split_beta)
    qed
  qed (use "2.IH" in simp_all)
qed simp

lemma same_hooks_transforms: "same_hooks st (fst (run_transform_list p hs c st))"
proof (induction p hs c st rule: run_transform_list.induct)
  case (2 p h hs current r w)
  show ?case
  proof (cases "hk_body h")
    case (Transform_Hook f)
    obtain w1 ed ret where f: "f current w = (w1, ed, ret)" by (metis prod_cases3)
    let ?st = "leave_hook_measurement h p TRANSFORM (\<not> isl (transform_result ed ret)) (r, w1)"
    have st: "same_hooks (r, w) ?st" by (rule same_hooks_leave_hook)
    show ?thesis
    proof (cases "transform_result ed ret")
      case (Inl e)
      obtain st2 d where "report_failure h p TRANSFORM e ?st = (st2, d)" by (metis surj_pair)
      with Transform_Hook f Inl show ?thesis
        using same_hooks_trans [OF st same_hooks_failure] by simp
    next
      case (Inr c)
      have IH: "same_hooks ?st (fst (run_transform_list p hs c ?st))"
        using "2.IH"(2) [OF Transform_Hook f [symmetric] refl refl refl Inr] by simp
      show ?thesis
        using Transform_Hook f Inr same_hooks_trans [OF st IH] by simp
    qed
  qed (use "2.IH" in simp_all)
qed simp

lemma same_hooks_observers: "same_hooks st (fst (run_observer_list p sn hs st))"
proof (induction p sn hs st rule: run_observer_list.induct)
  case (2 p sn h hs r w)
  show ?case
  proof (cases "hk_body h")
    case (Observer_Hook f)
    obtain w1 raised where f: "f sn w = (w1, raised)" by force
    let ?st = "leave_hook_measurement h p OBSERVER (raised = None) (r, w1)"
    have st: "same_hooks (r, w) ?st" by (rule same_hooks_leave_hook)
    show ?thesis
    proof (cases raised)
      case None
      have IH: "same_hooks ?st (fst (run_observer_list p sn hs ?st))"
        using "2.IH"(3) [OF Observer_Hook f [symmetric] refl None] by simp
      show ?thesis
        using Observer_Hook f None same_hooks_trans [OF st IH] by simp
    next
      case (Some e)
      obtain st2 d where rf: "report_failure h p OBSERVER e ?st = (st2, d)" by (metis surj_pair)
      have IH: "same_hooks st2 (fst (run_observer_list p sn hs st2))"
        using "2.IH"(4) [OF Observer_Hook f [symmetric] refl Some rf [symmetric]] by simp
      show ?thesis
        using Observer_Hook f Some rf
          same_hooks_trans [OF same_hooks_trans [OF st same_hooks_failure [OF rf]] IH]
        by (simp add: split_beta)
    qed
  qed (use "2.IH" in simp_all)
qed simp

lemma cache_ok_stage:
  assumes "cache_ok (r, w)" "iter_kind p k r = (r1, hs)" "same_hooks (r1, w) st'"
  shows "cache_ok st'"
  using same_hooks_cache_ok [OF assms(3)] iter_kind_cache_ok [OF assms(1), of p k w] assms(2) by simp

lemma cache_ok_runs:
  assumes "cache_ok (r, w)"
  shows "cache_ok (fst (run_guards p ctx (r, w)))" "cache_ok (fst (run_transforms p ctx (r, w)))"
    "cache_ok (fst (run_observers p ctx (r, w)))"
proof -
  show "cache_ok (fst (run_guards p ctx (r, w)))"
    using assms by (auto simp: run_guards_def split: prod.splits
        intro: cache_ok_stage same_hooks_guards)
  show "cache_ok (fst (run_transforms p ctx (r, w)))"
    using assms by (auto simp: run_transforms_def split: prod.splits
        intro: cache_ok_stage same_hooks_transforms)
  show "cache_ok (fst (run_observers p ctx (r, w)))"
    using assms by (auto simp: run_observers_def split: prod.splits
        intro: cache_ok_stage same_hooks_trans [OF same_hooks_measurement same_hooks_observers])
qed

lemma cache_ok_register:
  assumes "cache_ok (r, w)"
  shows "cache_ok (register_hook p h r, w)" "cache_ok (unregister_hook p n r, w)"
  unfolding register_hook_def unregister_hook_def
  by (rule invalidate_cache_ok [OF assms]; simp add: hooks_get_def dict_get_set)+

interpretation hook_machine: machine hook_step cache_ok
proof
  fix st x st'
  assume ok: "cache_ok st" and s: "hook_step st x = Inr st'"
  obtain r w where st: "st = (r, w)" by force
  from ok s show "cache_ok st'"
    unfolding st
    by (cases x)
      (auto simp: cache_ok_register cache_ok_runs bind_runtime_service_def drain_diagnostics_def
        intro: cache_ok_cong same_hooks_cache_ok [OF same_hooks_report])
qed

lemma cache_ok_new: "cache_ok (new_hook_registry, w)"
  by (simp add: cache_ok_def new_hook_registry_def dict_get_def)

section \<open>Guards\<close>

text \<open>Hook \<open>h\<close>, asked in some outside state, returned the decision.\<close>

definition decided :: "hook_context \<Rightarrow> 'w hook \<Rightarrow> guard_decision \<Rightarrow> bool" where
  "decided ctx h d \<longleftrightarrow> (\<exists>f w w'. hk_body h = Guard_Hook f \<and> f ctx w = (w', Inr (Some d)))"

text \<open>The decisions of a guard stage: while guards allow, one decision per guard; the stage ends at
  the first guard that denies, raises or returns something else, with a denial.\<close>

fun guard_log :: "hook_context \<Rightarrow> 'w hook list \<Rightarrow> guard_decision list \<Rightarrow> bool" where
  "guard_log ctx [] ds \<longleftrightarrow> ds = []"
| "guard_log ctx (h # hs) [] \<longleftrightarrow> False"
| "guard_log ctx (h # hs) (d # ds) \<longleftrightarrow>
     (if gd_allowed d then decided ctx h d \<and> guard_log ctx hs ds else ds = [])"

lemma guard_result_decided:
  "hk_body h = Guard_Hook f \<Longrightarrow> f ctx w = (w1, ret) \<Longrightarrow> guard_result ret = Inr d \<Longrightarrow> decided ctx h d"
  unfolding decided_def by (cases ret rule: guard_result.cases) auto

lemma run_guard_list_log:
  "\<forall>h\<in>set hs. hook_kind_of h = GUARD \<Longrightarrow> guard_log ctx hs (snd (run_guard_list p ctx hs st))"
proof (induction p ctx hs st rule: run_guard_list.induct)
  case (2 p ctx h hs r w)
  then obtain f where h: "hk_body h = Guard_Hook f"
    by (cases "hk_body h") (auto simp: hook_kind_of_def)
  obtain w1 ret where f: "f ctx w = (w1, ret)" by force
  show ?case
  proof (cases "guard_result ret")
    case (Inl e)
    with h f show ?thesis by (simp add: split_beta gd_deny_def Let_def)
  next
    case (Inr d)
    have "gd_allowed d \<Longrightarrow> guard_log ctx hs (snd (run_guard_list p ctx hs
        (leave_hook_measurement h p GUARD (\<not> isl (guard_result ret)) (r, w1))))"
      using "2.IH"(1) [OF h f [symmetric] refl refl Inr] "2.prems" by simp
    with h f Inr show ?thesis
      using guard_result_decided [OF h f Inr] by (simp add: Let_def split_beta)
  qed
qed simp

lemma guard_log_allowed:
  "guard_log ctx hs ds \<Longrightarrow> \<forall>d\<in>set ds. gd_allowed d \<Longrightarrow> list_all2 (decided ctx) hs ds"
  by (induction ctx hs ds rule: guard_log.induct) auto

lemma guard_log_denied:
  "guard_log ctx hs ds \<Longrightarrow> \<exists>d\<in>set ds. \<not> gd_allowed d \<Longrightarrow>
   \<not> gd_allowed (last ds) \<and> (\<forall>d\<in>set (butlast ds). gd_allowed d)"
  by (induction ctx hs ds rule: guard_log.induct) (auto split: if_splits)

lemma stage_kind: "h \<in> set (stage_hooks p k r) \<Longrightarrow> hook_kind_of h = k"
  by (simp add: stage_hooks_def)

lemma run_guards_log:
  "cache_ok (r, w) \<Longrightarrow> guard_log ctx (stage_hooks p GUARD r) (snd (run_guards p ctx (r, w)))"
proof -
  assume ok: "cache_ok (r, w)"
  obtain r1 hs where i: "iter_kind p GUARD r = (r1, hs)" by force
  with iter_kind_stage [OF ok, of p GUARD] have "hs = stage_hooks p GUARD r" by simp
  with i show ?thesis by (auto simp: run_guards_def intro: run_guard_list_log stage_kind)
qed

section \<open>Transforms\<close>

text \<open>A transform that only adds deferred callbacks to the context it was given.\<close>

definition only_defers :: "'w hook \<Rightarrow> bool" where
  "only_defers h \<longleftrightarrow> (\<forall>f c w w1 ed ret. hk_body h = Transform_Hook f \<longrightarrow> f c w = (w1, ed, ret) \<longrightarrow>
     cx_class ed = cx_class c \<and> (\<exists>xs. lr_callbacks (cx_own ed) = lr_callbacks (cx_own c) @ xs))"

lemma transform_result_keeps:
  assumes "transform_result ed ret = Inr c" "cx_class ed = Before_LLM_Request_Context"
  shows "cx_class c = Before_LLM_Request_Context \<and>
    (\<exists>ys. lr_callbacks (cx_own c) = lr_callbacks (cx_own ed) @ ys)"
  using assms
  by (auto simp: transform_result_def is_instance_def transfer_keeps_order
      split: sum.splits transform_return.splits if_splits)

lemma run_transform_list_keeps:
  "run_transform_list p hs c st = (st', Inr c') \<Longrightarrow> \<forall>h\<in>set hs. only_defers h \<Longrightarrow>
   cx_class c = Before_LLM_Request_Context \<Longrightarrow>
   cx_class c' = Before_LLM_Request_Context \<and>
   (\<exists>ys. lr_callbacks (cx_own c') = lr_callbacks (cx_own c) @ ys)"
proof (induction p hs c st rule: run_transform_list.induct)
  case (2 p h hs c r w)
  show ?case
  proof (cases "hk_body h")
    case (Transform_Hook f)
    obtain w1 ed ret where f: "f c w = (w1, ed, ret)" by (metis prod_cases3)
    have "only_defers h" using "2.prems"(2) by simp
    with Transform_Hook f "2.prems"(3) obtain xs where ed: "cx_class ed = Before_LLM_Request_Context"
        "lr_callbacks (cx_own ed) = lr_callbacks (cx_own c) @ xs"
      unfolding only_defers_def by metis
    obtain c1 where c1: "transform_result ed ret = Inr c1"
      using "2.prems"(1) Transform_Hook f by (auto simp: Let_def split_beta split: sum.splits)
    then obtain ys where "cx_class c1 = Before_LLM_Request_Context"
        "lr_callbacks (cx_own c1) = lr_callbacks (cx_own ed) @ ys"
      using transform_result_keeps ed(1) by blast
    moreover have "run_transform_list p hs c1
        (leave_hook_measurement h p TRANSFORM (\<not> isl (transform_result ed ret)) (r, w1)) = (st', Inr c')"
      using "2.prems"(1) Transform_Hook f c1 by simp
    ultimately show ?thesis
      using "2.IH"(2) [OF Transform_Hook f [symmetric] refl refl refl c1] "2.prems"(2) ed(2) by auto
  qed (use 2 in simp_all)
qed simp

section \<open>Observers\<close>

definition observe :: "hook_snapshot \<Rightarrow> 'w hook \<Rightarrow> 'w \<Rightarrow> 'w" where
  "observe sn h w = (case hk_body h of Observer_Hook f \<Rightarrow> fst (f sn w) | _ \<Rightarrow> w)"

lemma observe_simps:
  "hk_body h = Observer_Hook f \<Longrightarrow> observe sn h w = fst (f sn w)"
  "hk_body h = Guard_Hook g \<Longrightarrow> observe sn h w = w"
  "hk_body h = Transform_Hook t \<Longrightarrow> observe sn h w = w"
  by (simp_all add: observe_def)

lemma leave_unmonitored: "hr_performance_monitor r = None \<Longrightarrow> leave_hook_measurement h p k ok (r, w) = (r, w)"
  by (simp add: leave_hook_measurement_def leave_measurement_def Let_def)

lemma run_observer_list_all:
  "hr_performance_monitor r = None \<Longrightarrow> hr_diagnostic_sink r = None \<Longrightarrow>
   snd (fst (run_observer_list p sn hs (r, w))) = fold (observe sn) hs w"
proof (induction hs arbitrary: r w)
  case (Cons h hs)
  show ?case
  proof (cases "hk_body h")
    case (Observer_Hook f)
    obtain w1 raised where f: "f sn w = (w1, raised)" by force
    show ?thesis
    proof (cases raised)
      case None
      with Cons Observer_Hook f show ?thesis by (simp add: leave_unmonitored observe_simps)
    next
      case (Some e)
      have "snd (fst (run_observer_list p sn hs (log_diagnostic d r, w1))) = fold (observe sn) hs w1" for d
        using Cons by (simp add: log_diagnostic_def)
      with Cons.prems Observer_Hook f Some show ?thesis
        by (simp add: leave_unmonitored report_failure_def report_diagnostic_def observe_simps Let_def split_beta)
    qed
  qed (use Cons in \<open>simp_all add: observe_simps\<close>)
qed simp

lemma iter_kind_frame:
  "hr_performance_monitor (fst (iter_kind p k r)) = hr_performance_monitor r"
  "hr_diagnostic_sink (fst (iter_kind p k r)) = hr_diagnostic_sink r"
  by (auto simp: iter_kind_def Let_def split: option.splits)

section \<open>Which guards are asked\<close>

text \<open>What asking a guard does to the outside state, whatever it answers.\<close>

definition ask :: "hook_context \<Rightarrow> 'w hook \<Rightarrow> 'w \<Rightarrow> 'w" where
  "ask ctx h w = (case hk_body h of Guard_Hook f \<Rightarrow> fst (f ctx w) | _ \<Rightarrow> w)"

lemma ask_guard: "hk_body h = Guard_Hook f \<Longrightarrow> ask ctx h w = fst (f ctx w)"
  by (simp add: ask_def)

lemma run_guard_list_asks:
  "\<forall>h\<in>set hs. hook_kind_of h = GUARD \<Longrightarrow> hr_performance_monitor r = None \<Longrightarrow> hr_diagnostic_sink r = None \<Longrightarrow>
   run_guard_list p ctx hs (r, w) = (st, ds) \<Longrightarrow> snd st = fold (ask ctx) (take (length ds) hs) w"
proof (induction hs arbitrary: w st ds)
  case (Cons h hs)
  then obtain f where h: "hk_body h = Guard_Hook f"
    by (cases "hk_body h") (auto simp: hook_kind_of_def)
  obtain w1 ret where f: "f ctx w = (w1, ret)" by force
  obtain st2 ds2 where rest: "run_guard_list p ctx hs (r, w1) = (st2, ds2)" by (cases "run_guard_list p ctx hs (r, w1)")
  with Cons have IH: "snd st2 = fold (ask ctx) (take (length ds2) hs) w1" by simp
  show ?case
  proof (cases "guard_result ret")
    case (Inl e)
    with Cons.prems h f show ?thesis
      by (auto simp: leave_unmonitored report_failure_def report_diagnostic_def ask_guard Let_def split_beta)
  next
    case (Inr d)
    with Cons.prems h f rest IH show ?thesis
      by (auto simp: leave_unmonitored ask_guard Let_def split: if_splits)
  qed
qed auto

text \<open>Behind a denial nothing is looked at: other guards in its place change neither the decisions nor the state.\<close>

lemma run_guard_list_cut:
  "\<forall>h\<in>set hs. hook_kind_of h = GUARD \<Longrightarrow> run_guard_list p ctx hs st = (st', ds) \<Longrightarrow> \<exists>d\<in>set ds. \<not> gd_allowed d \<Longrightarrow>
   run_guard_list p ctx (take (length ds) hs @ others) st = (st', ds)"
proof (induction hs arbitrary: st ds)
  case (Cons h hs)
  obtain r w where st: "st = (r, w)" by force
  from Cons.prems obtain f where h: "hk_body h = Guard_Hook f"
    by (cases "hk_body h") (auto simp: hook_kind_of_def)
  obtain w1 ret where f: "f ctx w = (w1, ret)" by force
  show ?case
  proof (cases "\<exists>d. guard_result ret = Inr d \<and> gd_allowed d")
    case True
    then obtain d where d: "guard_result ret = Inr d" "gd_allowed d" by blast
    let ?st = "leave_hook_measurement h p GUARD True (r, w1)"
    obtain ds2 where rest: "run_guard_list p ctx hs ?st = (st', ds2)" "ds = d # ds2"
      using Cons.prems(2) h f d by (auto simp: st Let_def split: prod.splits)
    with Cons.IH [of ?st ds2] Cons.prems d have "run_guard_list p ctx (take (length ds2) hs @ others) ?st = (st', ds2)" by auto
    with rest h f d show ?thesis by (simp add: st Let_def)
  next
    case False
    with Cons.prems(2) h f show ?thesis
      by (cases "guard_result ret") (auto simp: st Let_def split: prod.splits)
  qed
qed simp

section \<open>Safe failure reports\<close>

lemma safe_fact_safe:
  "safe_fact v fb n = Some s \<Longrightarrow> (\<And>x. fb = Some x \<Longrightarrow> list_all safe_char x) \<Longrightarrow> list_all safe_char s"
  by (auto simp: safe_fact_def split: attr_value.splits if_splits)

lemma safe_attribute_safe: "safe_error_attribute v = Some s \<Longrightarrow> list_all safe_char s"
  by (auto simp: safe_error_attribute_def dest: safe_fact_safe split: if_splits)

lemma str_or_default_safe:
  "(\<And>x. a = Some x \<Longrightarrow> list_all safe_char x) \<Longrightarrow> list_all safe_char b \<Longrightarrow> list_all safe_char (str_or_default a b)"
  by (cases "(a, None :: string option)" rule: str_or.cases) (auto simp: str_or_default_def)

lemma str_or_cases: "str_or a b = Some x \<Longrightarrow> a = Some x \<or> b = Some x"
  by (cases "(a, b)" rule: str_or.cases) auto

lemma literals_safe: "list_all safe_char ''hook''" "list_all safe_char ''Exception''"
  "list_all safe_char ''unknown_hook''" "list_all safe_char (hook_kind_value k)"
  by (cases k; simp add: safe_char_def)+

lemma safe_fact_fallback:
  "list_all safe_char fb \<Longrightarrow> safe_fact v (Some fb) n = Some s \<Longrightarrow> list_all safe_char s"
  using safe_fact_safe by blast

lemma attribute_or_fact_safe:
  "list_all safe_char fb \<Longrightarrow>
   list_all safe_char (str_or_default (str_or (safe_error_attribute a) (safe_fact v (Some fb) n)) fb)"
  by (metis safe_attribute_safe safe_fact_fallback str_or_cases str_or_default_safe)

lemma facts_safe:
  "list_all safe_char (hf_phase (failure_facts e ph))"
  "list_all safe_char (hf_error_type (failure_facts e ph))"
  "hf_code (failure_facts e ph) = Some c \<Longrightarrow> list_all safe_char c"
  "hf_ref (failure_facts e ph) = Some c \<Longrightarrow> list_all safe_char c"
  unfolding failure_facts_def hook_failure_facts.simps
  using literals_safe attribute_or_fact_safe safe_attribute_safe by blast+

lemma safe_hook_name_safe: "list_all safe_char (safe_hook_name n)"
  unfolding safe_hook_name_def
  using str_or_default_safe safe_fact_fallback literals_safe(3) by blast

definition message_char :: "char \<Rightarrow> bool" where
  "message_char c \<longleftrightarrow> safe_char c \<or> c \<in> set '' (),=''"

lemma message_char_lift: "list_all safe_char s \<Longrightarrow> list_all message_char s"
  by (auto simp: list_all_iff message_char_def)

lemma list_all_join:
  "list_all P sep \<Longrightarrow> list_all (list_all P) xs \<Longrightarrow> list_all P (join sep xs)"
  by (induction sep xs rule: join.induct) auto

lemma prefixed_safe: "list_all message_char l \<Longrightarrow> list_all safe_char s \<Longrightarrow> list_all message_char (l @ s)"
  using message_char_lift by (simp add: list_all_append)

lemma failure_message_safe:
  assumes "list_all safe_char n"
  shows "list_all message_char (failure_message (failure_facts e ph) n k)"
proof -
  have lit: "list_all message_char ''Hook execution failed (''" "list_all message_char '', ''"
    "list_all message_char ''phase=''" "list_all message_char ''error_type=''"
    "list_all message_char ''code=''" "list_all message_char ''ref=''" "list_all message_char ''hook=''"
    "list_all message_char ''hook_kind=''" "list_all message_char '')''"
    by (simp_all add: message_char_def safe_char_def)
  let ?f = "failure_facts e ph"
  let ?code = "case hf_code ?f of None \<Rightarrow> [] | Some c \<Rightarrow> [''code='' @ c]"
  let ?ref = "case hf_ref ?f of None \<Rightarrow> [] | Some c \<Rightarrow> [''ref='' @ c]"
  have "list_all (list_all message_char) ?code" "list_all (list_all message_char) ?ref"
    using facts_safe(3,4) [of e ph] prefixed_safe [OF lit(5)] prefixed_safe [OF lit(6)]
    by (cases "hf_code ?f"; cases "hf_ref ?f"; simp only: option.simps list.pred_inject)+
  moreover have "list_all (list_all message_char) [''phase='' @ hf_phase ?f, ''error_type='' @ hf_error_type ?f]"
    using prefixed_safe [OF lit(3) facts_safe(1) [of e ph]] prefixed_safe [OF lit(4) facts_safe(2) [of e ph]]
    by (simp only: list.pred_inject simp_thms)
  moreover have "list_all (list_all message_char) [''hook='' @ n, ''hook_kind='' @ hook_kind_value k]"
    using prefixed_safe [OF lit(7) assms] prefixed_safe [OF lit(8) literals_safe(4) [of k]]
    by (simp only: list.pred_inject simp_thms)
  ultimately show ?thesis
    unfolding failure_message_def using lit(1,9) list_all_join [OF lit(2)]
    by (simp only: list_all_append)
qed

section \<open>Snapshots\<close>

fun immutable :: "pyv \<Rightarrow> bool" where
  "immutable (P_Scalar _) = True"
| "immutable (P_Dict _) = False"
| "immutable (P_Mapping_Proxy fs) = list_all (\<lambda>(k, v). immutable v) fs"
| "immutable (P_List _) = False"
| "immutable (P_Tuple vs) = list_all immutable vs"
| "immutable (P_Set _) = False"
| "immutable (P_Frozenset vs) = list_all immutable vs"
| "immutable (P_Instance frozen _ fs) = (frozen \<and> list_all (\<lambda>(k, v). immutable v) fs)"

text \<open>Every object reachable through containers is immutable in itself.\<close>

fun holds_no_mutable_object :: "pyv \<Rightarrow> bool" where
  "holds_no_mutable_object (P_Scalar _) = True"
| "holds_no_mutable_object (P_Dict fs) = list_all (\<lambda>(k, v). holds_no_mutable_object v) fs"
| "holds_no_mutable_object (P_Mapping_Proxy fs) = list_all (\<lambda>(k, v). holds_no_mutable_object v) fs"
| "holds_no_mutable_object (P_List vs) = list_all holds_no_mutable_object vs"
| "holds_no_mutable_object (P_Tuple vs) = list_all holds_no_mutable_object vs"
| "holds_no_mutable_object (P_Set vs) = list_all holds_no_mutable_object vs"
| "holds_no_mutable_object (P_Frozenset vs) = list_all holds_no_mutable_object vs"
| "holds_no_mutable_object (P_Instance frozen c fs) = immutable (P_Instance frozen c fs)"

lemma immutable_freeze: "immutable (freeze v) = holds_no_mutable_object v"
  by (induction v rule: freeze.induct) (auto simp: list_all_iff)

section \<open>Properties\<close>

definition ex_context :: "context_class \<Rightarrow> hook_point \<Rightarrow> (string \<times> pyv) list \<Rightarrow> hook_context" where
  "ex_context c point payload = \<lparr>cx_class = c, cx_hook_point = point, cx_agent_id = None,
     cx_session_generation = None, cx_session_id = None, cx_turn_id = None, cx_trace_id = None,
     cx_metadata = [],
     cx_own = \<lparr>lr_payload = payload, lr_callbacks = [], lr_payload_changed = False\<rparr>\<rparr>"

text \<open>A hook that writes its name to the outside state, a list of names.\<close>

definition ex_hook :: "string \<Rightarrow> int \<Rightarrow> string list hook_body \<Rightarrow> string list hook" where
  "ex_hook name priority body = Hook name priority None body (\<lambda>_ _ w. w)
     (\<lambda>_. Inl (type_error ''no clone''))"

definition ex_guard :: "string \<Rightarrow> int \<Rightarrow> (hook_exn, guard_decision option) result \<Rightarrow> string list hook" where
  "ex_guard name priority res = ex_hook name priority (Guard_Hook (\<lambda>_ w. (w @ [name], res)))"

definition ex_observer :: "string \<Rightarrow> int \<Rightarrow> hook_exn option \<Rightarrow> string list hook" where
  "ex_observer name priority raised = ex_hook name priority (Observer_Hook (\<lambda>_ w. (w @ [name], raised)))"

definition ex_hook_ops :: "string list hook_op list" where
  "ex_hook_ops =
     [Register_Hook BEFORE_TOOL_EXECUTE (ex_guard ''low'' 1 (Inr (Some gd_allow))),
      Run_Guards BEFORE_TOOL_EXECUTE (ex_context Before_Tool_Execute_Context BEFORE_TOOL_EXECUTE []),
      Register_Hook BEFORE_TOOL_EXECUTE (ex_guard ''high'' 5 (Inr (Some gd_allow))),
      Register_Hook BEFORE_TOOL_EXECUTE (ex_guard ''mid'' 3 (Inl (type_error ''secret''))),
      Register_Hook BEFORE_TOOL_EXECUTE (ex_guard ''gone'' 4 (Inr None)),
      Unregister_Hook BEFORE_TOOL_EXECUTE ''gone'',
      Register_Hook AFTER_TOOL_EXECUTE (ex_observer ''a'' 1 None),
      Register_Hook AFTER_TOOL_EXECUTE (ex_observer ''b'' 2 (Some (type_error ''secret'')))]"

text \<open>C6: in every state a registry can reach, a guard stage fails closed. If all its decisions allow,
  then every guard registered at the point was asked, in stage order, and returned that
  allowing decision itself. If some decision denies, it is the last one, and nothing after it
  was asked: whatever guards stood behind it, the decisions and the state after the stage
  are the same. With no sink and no monitor attached, which may have effects of their own, the outside
  state is that of asking, once and in order, as many guards as there are decisions.\<close>

theorem guards_fail_closed:
  assumes "(r, w) = run_ops hook_step (new_hook_registry, w0) ops"
    and "run_guards point ctx (r, w) = (st, ds)" and "hs = stage_hooks point GUARD r"
  shows "((\<forall>d\<in>set ds. gd_allowed d) \<longrightarrow> list_all2 (decided ctx) hs ds) \<and>
    ((\<exists>d\<in>set ds. \<not> gd_allowed d) \<longrightarrow>
       \<not> gd_allowed (last ds) \<and> (\<forall>d\<in>set (butlast ds). gd_allowed d) \<and>
       (\<forall>others. run_guard_list point ctx (take (length ds) hs @ others) (fst (iter_kind point GUARD r), w) = (st, ds))) \<and>
    (hr_performance_monitor r = None \<and> hr_diagnostic_sink r = None \<longrightarrow> snd st = fold (ask ctx) (take (length ds) hs) w)"
proof -
  have ok: "cache_ok (r, w)"
    unfolding assms(1) by (rule hook_machine.run_inv) (rule cache_ok_new)
  then have log: "guard_log ctx hs ds"
    using run_guards_log [OF ok, of ctx point] assms(2,3) by simp
  obtain r1 where i: "iter_kind point GUARD r = (r1, hs)"
    using iter_kind_stage [OF ok, of point GUARD] assms(3) by (cases "iter_kind point GUARD r") simp
  then have run: "run_guard_list point ctx hs (r1, w) = (st, ds)" using assms(2) by (simp add: run_guards_def)
  have kind: "\<forall>h\<in>set hs. hook_kind_of h = GUARD" using stage_kind assms(3) by blast
  show ?thesis
    using guard_log_allowed [OF log] guard_log_denied [OF log] run_guard_list_cut [OF kind run]
      run_guard_list_asks [OF kind _ _ run] iter_kind_frame [of point GUARD r] by (simp add: i)
qed

theorem guards_fail_closed_witness:
  "let st = run_ops hook_step (new_hook_registry, []) ex_hook_ops;
       ctx = ex_context Before_Tool_Execute_Context BEFORE_TOOL_EXECUTE [];
       res = run_guards BEFORE_TOOL_EXECUTE ctx st
   in map gd_allowed (snd res) = [True, False] \<and> snd (fst res) = [''low'', ''high'', ''mid''] \<and>
      \<not> gd_allowed (last (snd res)) \<and>
      snd (fst res) = fold (ask ctx) (take (length (snd res)) (stage_hooks BEFORE_TOOL_EXECUTE GUARD (fst st))) (snd st)"
proof -
  define st where "st = run_ops hook_step (new_hook_registry, []) ex_hook_ops"
  define ctx where "ctx = ex_context Before_Tool_Execute_Context BEFORE_TOOL_EXECUTE []"
  have n: "Option.is_none (hr_performance_monitor (fst st)) \<and> Option.is_none (hr_diagnostic_sink (fst st))"
    unfolding st_def by code_simp
  have a: "map gd_allowed (snd (run_guards BEFORE_TOOL_EXECUTE ctx st)) = [True, False]"
    unfolding st_def ctx_def by code_simp
  then have "False \<in> set (map gd_allowed (snd (run_guards BEFORE_TOOL_EXECUTE ctx st)))" by simp
  then have "\<exists>d\<in>set (snd (run_guards BEFORE_TOOL_EXECUTE ctx st)). \<not> gd_allowed d" by auto
  moreover have "snd (fst (run_guards BEFORE_TOOL_EXECUTE ctx st)) = [''low'', ''high'', ''mid'']"
    unfolding st_def ctx_def by code_simp
  ultimately show ?thesis
    using a n guards_fail_closed [of "fst st" "snd st" "[]" ex_hook_ops BEFORE_TOOL_EXECUTE ctx "fst (run_guards BEFORE_TOOL_EXECUTE ctx st)"
      "snd (run_guards BEFORE_TOOL_EXECUTE ctx st)", OF _ _ refl]
    by (simp add: st_def [symmetric] ctx_def [symmetric] Let_def Option.is_none_def)
qed

text \<open>the per-kind cache never shows: in every state a registry can reach, a stage runs exactly
  the hooks of its kind registered at its point, by descending priority, hooks of equal
  priority in the order they were registered.\<close>

theorem stage_runs_registered_hooks_by_priority:
  assumes "(r, w) = run_ops hook_step (new_hook_registry, w0) ops"
    and "hs = snd (iter_kind point kind r)"
  shows "set hs = {h \<in> set (hooks_get point r). hook_kind_of h = kind} \<and>
    sorted_wrt (\<lambda>a b. hk_priority b \<le> hk_priority a) hs \<and>
    filter (\<lambda>h. hk_priority h = n) hs =
      filter (\<lambda>h. hk_priority h = n \<and> hook_kind_of h = kind) (hooks_get point r)"
proof -
  have "cache_ok (r, w)"
    unfolding assms(1) by (rule hook_machine.run_inv) (rule cache_ok_new)
  then have hs: "hs = filter (\<lambda>h. hook_kind_of h = kind) (sorted_hooks (hooks_get point r))"
    unfolding assms(2) by (simp add: iter_kind_stage stage_hooks_def)
  have "filter (\<lambda>h. hk_priority h = n) hs = filter (\<lambda>h. hook_kind_of h = kind)
      (filter (\<lambda>h. hk_priority h = n) (sorted_hooks (hooks_get point r)))"
    unfolding hs by (simp add: conj_commute)
  then show ?thesis
    unfolding hs using sorted_desc_wrt [of hk_priority "hooks_get point r"]
    by (auto simp: sorted_hooks_def sorted_desc_stable sorted_wrt_filter conj_commute)
qed

theorem stage_runs_registered_hooks_by_priority_witness:
  "let r = fst (run_ops hook_step (new_hook_registry, []) ex_hook_ops);
       hs = snd (iter_kind BEFORE_TOOL_EXECUTE GUARD r)
   in map hk_name hs = [''high'', ''mid'', ''low''] \<and>
      set hs = {h \<in> set (hooks_get BEFORE_TOOL_EXECUTE r). hook_kind_of h = GUARD}"
proof -
  let ?st = "run_ops hook_step (new_hook_registry, []) ex_hook_ops"
  have "map hk_name (snd (iter_kind BEFORE_TOOL_EXECUTE GUARD (fst ?st))) = [''high'', ''mid'', ''low'']"
    by code_simp
  then show ?thesis
    using stage_runs_registered_hooks_by_priority [of "fst ?st" "snd ?st" "[]" ex_hook_ops _ BEFORE_TOOL_EXECUTE GUARD]
    by (simp add: Let_def)
qed

text \<open>observers cannot stop one another: with no sink and no monitor attached, every observer of
  the stage runs once on the same snapshot, in stage order, whichever of them raise.\<close>

theorem observers_all_run:
  assumes "(r, w) = run_ops hook_step (new_hook_registry, w0) ops"
    and "hr_performance_monitor r = None" "hr_diagnostic_sink r = None"
  shows "snd (fst (run_observers point ctx (r, w))) =
    fold (observe (snapshot ctx)) (stage_hooks point OBSERVER r) w"
proof -
  have ok: "cache_ok (r, w)"
    unfolding assms(1) by (rule hook_machine.run_inv) (rule cache_ok_new)
  obtain r1 hs where i: "iter_kind point OBSERVER r = (r1, hs)" by force
  then have "hs = stage_hooks point OBSERVER r" using iter_kind_stage [OF ok, of point OBSERVER] by simp
  moreover have "hr_performance_monitor r1 = None" "hr_diagnostic_sink r1 = None"
    using iter_kind_frame [of point OBSERVER r] i assms(2,3) by simp_all
  ultimately show ?thesis
    using i run_observer_list_all [of r1 point "snapshot ctx" hs w]
    by (simp add: run_observers_def leave_measurement_def)
qed

theorem observers_all_run_witness:
  "let st = run_ops hook_step (new_hook_registry, []) ex_hook_ops;
       ctx = ex_context After_Tool_Execute_Context AFTER_TOOL_EXECUTE []
   in snd (fst (run_observers AFTER_TOOL_EXECUTE ctx st)) = [''low'', ''b'', ''a''] \<and>
      snd (fst (run_observers AFTER_TOOL_EXECUTE ctx st)) =
        fold (observe (snapshot ctx)) (stage_hooks AFTER_TOOL_EXECUTE OBSERVER (fst st)) (snd st)"
proof -
  let ?st = "run_ops hook_step (new_hook_registry, []) ex_hook_ops"
  let ?ctx = "ex_context After_Tool_Execute_Context AFTER_TOOL_EXECUTE []"
  have n: "Option.is_none (hr_performance_monitor (fst ?st)) \<and> Option.is_none (hr_diagnostic_sink (fst ?st))"
    by code_simp
  have "snd (fst (run_observers AFTER_TOOL_EXECUTE ?ctx ?st)) = [''low'', ''b'', ''a'']" by code_simp
  then show ?thesis
    using observers_all_run [of "fst ?st" "snd ?st" "[]" ex_hook_ops AFTER_TOOL_EXECUTE ?ctx] n
    by (simp add: Let_def Option.is_none_def)
qed

text \<open>a transform stage that succeeds on a request context ends with a request context that still
  carries every callback deferred before it, first and in order, even when hooks replace the
  context, as long as the hooks only add callbacks to what they are given.\<close>

theorem transforms_keep_deferred_callbacks:
  assumes "snd (run_transforms point c st) = Inr c'"
    and "\<forall>h\<in>set (snd (iter_kind point TRANSFORM (fst st))). only_defers h"
    and "cx_class c = Before_LLM_Request_Context"
  shows "cx_class c' = Before_LLM_Request_Context \<and>
    (\<exists>later. lr_callbacks (cx_own c') = lr_callbacks (cx_own c) @ later)"
proof -
  obtain r w where st: "st = (r, w)" by force
  obtain r1 hs where i: "iter_kind point TRANSFORM r = (r1, hs)" by force
  obtain st' where "run_transform_list point hs c (r1, w) = (st', Inr c')"
    using assms(1) st i by (cases "run_transform_list point hs c (r1, w)") (simp add: run_transforms_def)
  then show ?thesis
    using run_transform_list_keeps [of point hs c "(r1, w)" st' c'] assms(2,3) st i by simp
qed

theorem transforms_keep_deferred_callbacks_witness:
  "let h = ex_hook ''swap'' 0 (Transform_Hook (\<lambda>c w. (w, c, Inr (New_Context
             (ex_context Before_LLM_Request_Context BEFORE_LLM_REQUEST [(''x'', P_Scalar JNull)])))));
       st = run_ops hook_step (new_hook_registry, []) [Register_Hook BEFORE_LLM_REQUEST h];
       c = ex_context Before_LLM_Request_Context BEFORE_LLM_REQUEST [];
       c1 = c\<lparr>cx_own := defer_until_dispatch (\<lambda>p. (p, False)) (cx_own c)\<rparr>
   in \<exists>c'. snd (run_transforms BEFORE_LLM_REQUEST c1 st) = Inr c' \<and>
        lr_payload (cx_own c') = [(''x'', P_Scalar JNull)] \<and>
        (\<exists>later. lr_callbacks (cx_own c') = lr_callbacks (cx_own c1) @ later)"
proof -
  define h where "h = ex_hook ''swap'' 0 (Transform_Hook (\<lambda>c w. (w, c, Inr (New_Context
     (ex_context Before_LLM_Request_Context BEFORE_LLM_REQUEST [(''x'', P_Scalar JNull)])))))"
  define st where "st = run_ops hook_step (new_hook_registry, []) [Register_Hook BEFORE_LLM_REQUEST h]"
  define c where "c = ex_context Before_LLM_Request_Context BEFORE_LLM_REQUEST []"
  define c1 where "c1 = c\<lparr>cx_own := defer_until_dispatch (\<lambda>p. (p, False)) (cx_own c)\<rparr>"
  have hs: "snd (iter_kind BEFORE_LLM_REQUEST TRANSFORM (fst st)) = [h]"
    by (simp add: st_def h_def ex_hook_def register_hook_def invalidate_hook_cache_def iter_kind_def
        new_hook_registry_def hooks_get_def dict_get_def dict_pop_def sorted_hooks_def sorted_desc_def
        hook_kind_of_def Let_def)
  have d: "only_defers h"
    unfolding only_defers_def by (auto simp: h_def ex_hook_def)
  have "isl (snd (run_transforms BEFORE_LLM_REQUEST c1 st)) = False"
    unfolding c1_def c_def st_def h_def by code_simp
  then obtain c' where c': "snd (run_transforms BEFORE_LLM_REQUEST c1 st) = Inr c'"
    by (cases "snd (run_transforms BEFORE_LLM_REQUEST c1 st)") simp_all
  have "lr_payload (cx_own (projr (snd (run_transforms BEFORE_LLM_REQUEST c1 st)))) =
      [(''x'', P_Scalar JNull)]"
    unfolding c1_def c_def st_def h_def by code_simp
  moreover have "cx_class c1 = Before_LLM_Request_Context"
    by (simp add: c1_def c_def ex_context_def)
  with transforms_keep_deferred_callbacks [OF c'] hs d
  have "\<exists>later. lr_callbacks (cx_own c') = lr_callbacks (cx_own c1) @ later" by simp
  ultimately show ?thesis
    unfolding Let_def h_def [symmetric] st_def [symmetric] c_def [symmetric] c1_def [symmetric]
    using c' by (intro exI [of _ c']) simp
qed

text \<open>A failure report carries no free text of the exception: the hook name, phase, error type,
  code and reference of every diagnostic consist of ASCII letters, digits and \<^verbatim>\<open>. _ - :\<close>, and
  the message only adds blanks, parentheses, commas and equal signs to such characters.\<close>

theorem failure_reports_are_safe:
  "list_all safe_char (hd_hook_name (failure_diagnostic name point kind e phase sev)) \<and>
   pred_option (list_all safe_char) (hd_phase (failure_diagnostic name point kind e phase sev)) \<and>
   pred_option (list_all safe_char) (hd_error_type (failure_diagnostic name point kind e phase sev)) \<and>
   pred_option (list_all safe_char) (hd_code (failure_diagnostic name point kind e phase sev)) \<and>
   pred_option (list_all safe_char) (hd_ref (failure_diagnostic name point kind e phase sev)) \<and>
   list_all message_char (hd_message (failure_diagnostic name point kind e phase sev))"
  using facts_safe [of e phase] safe_hook_name_safe [of name]
    failure_message_safe [OF safe_hook_name_safe [of name], of e phase kind]
  by (simp add: failure_diagnostic_def Let_def pred_option_def)

text \<open>The snapshot an observer gets is immutable exactly when the context's fields reach no object
  of a mutable class: containers are frozen all the way down, objects are passed by
  reference. A \<^verbatim>\<open>ToolCall\<close>, a mutable dataclass, reaches the observer as it is.\<close>

theorem snapshot_immutable_iff:
  "immutable (sn_payload (snapshot c)) =
     list_all (\<lambda>(k, v). holds_no_mutable_object v) (lr_payload (cx_own c)) \<and>
   sn_payload (snapshot (ex_context After_Tool_Execute_Context AFTER_TOOL_EXECUTE
     [(''tool_call'', P_Instance False ''ToolCall'' [(''arguments'', P_Dict [])])])) =
   P_Mapping_Proxy [(''tool_call'', P_Instance False ''ToolCall'' [(''arguments'', P_Dict [])])]"
  by (auto simp: snapshot_def immutable_freeze list_all_iff ex_context_def)

end
