(* ===== verification/Extensions.thy ===== *)
theory Extensions
  imports Hook_Registry "HOL-Library.List_Lexorder" "HOL-Library.Char_ord" "HOL-Library.Product_Lexorder"
begin

text \<open>
  Extensions and lifecycle: manifests (\<^verbatim>\<open>domain/extensions/manifest.py\<close>), the manager that orders
  extensions, builds scopes and disposes them (\<^verbatim>\<open>manager.py\<close>), the lifecycle coordinator
  (\<^verbatim>\<open>lifecycle.py\<close>) and the adapter that puts the hook registry behind the extension ports
  (\<^verbatim>\<open>hook_adapter.py\<close>). Factories, instances' disposers and hooks act on an outside state
  \<open>'w\<close>. The lemmas show that the ordering loop is a correct and complete topological sort that
  always takes the least available extension, and that a scope is disposed once, in reverse
  construction order, also when opening it fails.
\<close>

section \<open>Manifests\<close>

datatype extension_scope = Runner_Scope | Session_Scope | Agent_Scope | Subagent_Scope

datatype extension_phase = Authorization | Context_Phase | Outcome_Phase | Observation | Lifecycle_Phase

datatype subagent_policy = Omit | Rebuild

fun scope_value :: "extension_scope \<Rightarrow> string" where
  "scope_value Runner_Scope = ''runner''"
| "scope_value Session_Scope = ''session''"
| "scope_value Agent_Scope = ''agent''"
| "scope_value Subagent_Scope = ''subagent''"

fun phase_value :: "extension_phase \<Rightarrow> int" where
  "phase_value Authorization = 10"
| "phase_value Context_Phase = 20"
| "phase_value Outcome_Phase = 30"
| "phase_value Observation = 40"
| "phase_value Lifecycle_Phase = 50"

definition extension_api_version :: int where "extension_api_version = 1"

record extension_manifest =
  em_extension_id :: string
  em_version :: string
  em_api_version :: int
  em_requires :: "string list"
  em_before :: "string list"
  em_after :: "string list"
  em_scopes :: "extension_scope list"
  em_config_namespace :: "string option"
  em_phase :: extension_phase
  em_subagent_policy :: subagent_policy
  em_remote_compatible :: bool
  em_thread_safe :: bool

text \<open>\<^verbatim>\<open>__post_init__\<close>: the first check that fails names the error.\<close>

definition check_manifest :: "extension_manifest \<Rightarrow> (string, extension_manifest) result" where
  "check_manifest m =
     (if em_extension_id m = [] \<or> strip (em_extension_id m) \<noteq> em_extension_id m
      then Inl ''extension_id must be a non-empty normalized string''
      else if em_version m = [] then Inl ''extension version is required''
      else if em_api_version m < 1 then Inl ''api_version must be positive''
      else if em_extension_id m \<in> set (em_requires m) then Inl ''an extension cannot require itself''
      else if em_extension_id m \<in> set (em_before m) \<or> em_extension_id m \<in> set (em_after m)
      then Inl ''an extension cannot order itself''
      else if set (em_before m) \<inter> set (em_after m) \<noteq> {}
      then Inl ''the same extension cannot appear in before and after''
      else if em_scopes m = [] then Inl ''at least one extension scope is required''
      else if Subagent_Scope \<in> set (em_scopes m) \<and> em_subagent_policy m = Omit
      then Inl (''a subagent-scoped extension must use subagent_policy='' @ squote ''rebuild'')
      else Inr m)"

section \<open>Definitions, instances and scopes\<close>

record extension_context =
  ec_scope :: extension_scope
  ec_scope_id :: string
  ec_config :: json
  ec_services :: json

text \<open>An instance, by what disposing it does: nothing callable, or a call that may raise.\<close>

type_synonym 'w extension_instance = "('w \<Rightarrow> 'w \<times> string option) option"

record 'w extension_definition =
  ed_manifest :: extension_manifest
  ed_factory :: "extension_context \<Rightarrow> 'w \<Rightarrow> 'w \<times> (string, 'w extension_instance) result"

record extension_diagnostic =
  xd_extension_id :: string
  xd_phase :: string
  xd_message :: string

record 'w scope_container =
  sc_scope :: extension_scope
  sc_scope_id :: string
  sc_instances :: "(string, 'w extension_instance) dict"
  sc_order :: "string list"
  sc_diagnostics :: "extension_diagnostic list"
  sc_disposed :: bool

definition new_container :: "extension_scope \<Rightarrow> string \<Rightarrow> 'w scope_container" where
  "new_container scope scope_id = \<lparr>sc_scope = scope, sc_scope_id = scope_id, sc_instances = [],
     sc_order = [], sc_diagnostics = [], sc_disposed = False\<rparr>"

definition container_get :: "string \<Rightarrow> 'w scope_container \<Rightarrow> 'w extension_instance option" where
  "container_get extension_id c = dict_get (sc_instances c) extension_id"

fun dispose_each ::
    "(string, 'w extension_instance) dict \<Rightarrow> string list \<Rightarrow> extension_diagnostic list \<Rightarrow> 'w
      \<Rightarrow> extension_diagnostic list \<times> 'w" where
  "dispose_each instances [] diagnostics w = (diagnostics, w)"
| "dispose_each instances (extension_id # ids) diagnostics w =
     (case dict_get instances extension_id of
        Some (Some dispose) \<Rightarrow>
          (case dispose w of
             (w', None) \<Rightarrow> dispose_each instances ids diagnostics w'
           | (w', Some error) \<Rightarrow>
               dispose_each instances ids
                 (diagnostics @ [\<lparr>xd_extension_id = extension_id, xd_phase = ''dispose'', xd_message = error\<rparr>]) w')
      | _ \<Rightarrow> dispose_each instances ids diagnostics w)"

definition dispose_container :: "'w scope_container \<Rightarrow> 'w \<Rightarrow> 'w scope_container \<times> 'w" where
  "dispose_container c w =
     (if sc_disposed c then (c, w)
      else case dispose_each (sc_instances c) (rev (sc_order c)) (sc_diagnostics c) w of
             (diagnostics, w') \<Rightarrow> (c\<lparr>sc_disposed := True, sc_diagnostics := diagnostics\<rparr>, w'))"

record 'w extension_manager =
  mg_api_version :: int
  mg_definitions :: "(string, 'w extension_definition) dict"
  mg_containers :: "'w scope_container list"

text \<open>The message of an API mismatch leaves out the two version numbers.\<close>

definition register_definition ::
    "'w extension_definition \<Rightarrow> 'w extension_manager \<Rightarrow> (string, 'w extension_manager) result" where
  "register_definition d mg =
     (let m = ed_manifest d
      in if em_extension_id m \<in> set (keys (mg_definitions mg))
         then Inl (''Duplicate extension id: '' @ em_extension_id m)
         else if em_api_version m \<noteq> mg_api_version mg
         then Inl (''Extension '' @ squote (em_extension_id m) @ '' requires another API'')
         else Inr (mg\<lparr>mg_definitions := dict_set (em_extension_id m) d (mg_definitions mg)\<rparr>))"

section \<open>Ordering\<close>

type_synonym edges = "(string, string list) dict"
type_synonym indegrees = "(string, int) dict"

definition succs :: "edges \<Rightarrow> string \<Rightarrow> string list" where
  "succs edges p = (case dict_get edges p of None \<Rightarrow> [] | Some s \<Rightarrow> s)"

definition degree :: "indegrees \<Rightarrow> string \<Rightarrow> int" where
  "degree indegree v = (case dict_get indegree v of None \<Rightarrow> 0 | Some d \<Rightarrow> d)"

definition add_edge :: "string \<Rightarrow> string \<Rightarrow> edges \<Rightarrow> edges" where
  "add_edge p s edges = dict_set p (List.insert s (succs edges p)) edges"

definition link_manifest :: "string list \<Rightarrow> string \<Rightarrow> extension_manifest \<Rightarrow> edges \<Rightarrow> edges" where
  "link_manifest ids extension_id m edges =
     fold (\<lambda>s e. if s \<in> set ids then add_edge extension_id s e else e) (em_before m)
       (fold (\<lambda>p e. if p \<in> set ids then add_edge p extension_id e else e) (em_requires m @ em_after m) edges)"

fun link_all :: "string list \<Rightarrow> (string, extension_manifest) dict \<Rightarrow> edges \<Rightarrow> (string, edges) result" where
  "link_all ids [] edges = Inr edges"
| "link_all ids ((extension_id, m) # rest) edges =
     (let missing = filter (\<lambda>x. x \<notin> set ids) (em_requires m)
      in if missing \<noteq> []
         then Inl (''Extension '' @ squote extension_id @ '' has missing dependencies: '' @
                join '', '' (sort (remdups missing)))
         else link_all ids rest (link_manifest ids extension_id m edges))"

definition count_edge :: "string \<Rightarrow> indegrees \<Rightarrow> indegrees" where
  "count_edge s indegree = dict_set s (degree indegree s + 1) indegree"

definition count_edges :: "edges \<Rightarrow> indegrees \<Rightarrow> indegrees" where
  "count_edges edges indegree = fold (\<lambda>(p, ss). fold count_edge ss) edges indegree"

text \<open>One finished predecessor of a successor: its count falls, and at zero it becomes ready.\<close>

definition relax_one ::
    "(string \<Rightarrow> 'k::linorder) \<Rightarrow> string \<Rightarrow> string list \<times> indegrees \<Rightarrow> string list \<times> indegrees" where
  "relax_one key s st =
     (case st of (ready, indegree) \<Rightarrow>
        let d = degree indegree s - 1; indegree' = dict_set s d indegree
        in if d = 0 then (sort_key key (ready @ [s]), indegree') else (ready, indegree'))"

definition relax ::
    "(string \<Rightarrow> 'k::linorder) \<Rightarrow> string list \<Rightarrow> string list \<times> indegrees \<Rightarrow> string list \<times> indegrees" where
  "relax key ss st = fold (relax_one key) ss st"

text \<open>The work left: ready extensions and edges not counted down yet.\<close>

definition work :: "string list \<times> indegrees \<Rightarrow> nat" where
  "work st = length (fst st) + sum_list (map (\<lambda>(k, d). nat d) (snd st))"

lemma sum_dict_set:
  "sum_list (map (\<lambda>(k, d). nat d) (dict_set s d indegree)) + nat (degree indegree s) =
   sum_list (map (\<lambda>(k, d). nat d) indegree) + nat d"
  by (induction indegree) (auto simp: degree_def dict_get_def)

lemma work_relax_one: "work (relax_one key s st) \<le> work st"
proof -
  obtain ready indegree where st: "st = (ready, indegree)" by force
  show ?thesis
    using sum_dict_set [of s "degree indegree s - 1" indegree]
    by (auto simp: st relax_one_def work_def Let_def)
qed

lemma work_relax: "work (relax key ss st) \<le> work st"
  unfolding relax_def
proof (induction ss arbitrary: st)
  case (Cons s ss)
  show ?case using le_trans [OF Cons.IH work_relax_one] by simp
qed simp

function kahn ::
    "(string \<Rightarrow> 'k::linorder) \<Rightarrow> edges \<Rightarrow> string list \<Rightarrow> string list \<Rightarrow> indegrees \<Rightarrow> string list \<times> indegrees" where
  "kahn key edges [] ordered indegree = (ordered, indegree)"
| "kahn key edges (current # ready) ordered indegree =
     (let st = relax key (sort (succs edges current)) (ready, indegree)
      in kahn key edges (fst st) (ordered @ [current]) (snd st))"
  by pat_completeness auto
termination
proof (relation "measure (\<lambda>(key, edges, ready, ordered, indegree). work (ready, indegree))")
  fix key :: "string \<Rightarrow> 'a::linorder" and edges current ready ordered indegree x
  assume x: "x = relax key (sort (succs edges current)) (ready, indegree)"
  have "work x \<le> work (ready, indegree)" unfolding x by (rule work_relax)
  also have "\<dots> < work (current # ready, indegree)" by (simp add: work_def)
  finally show "((key, edges, fst x, ordered @ [current], snd x), key, edges, current # ready, ordered, indegree)
      \<in> measure (\<lambda>(key, edges, ready, ordered, indegree). work (ready, indegree))" by simp
qed simp

declare kahn.simps [simp del]

text \<open>The sort key of an extension: its phase, then its id.\<close>

definition order_key :: "(string, extension_manifest) dict \<Rightarrow> string \<Rightarrow> int \<times> string" where
  "order_key ms name =
     (case dict_get ms name of None \<Rightarrow> (0, name) | Some m \<Rightarrow> (phase_value (em_phase m), name))"

definition order_manifests :: "(string, extension_manifest) dict \<Rightarrow> (string, string list) result" where
  "order_manifests ms =
     (let ids = keys ms
      in bind_result (link_all ids ms (map (\<lambda>i. (i, [])) ids)) (\<lambda>edges.
           let indegree = count_edges edges (map (\<lambda>i. (i, 0)) ids);
               ready = sort_key (order_key ms) (filter (\<lambda>i. degree indegree i = 0) ids);
               (ordered, left) = kahn (order_key ms) edges ready [] indegree
           in if length ordered \<noteq> length ids
              then Inl (''Extension ordering cycle: '' @
                     join '', '' (sort (map fst (filter (\<lambda>(i, d). d > 0) left))))
              else Inr ordered))"

definition manifests :: "'w extension_manager \<Rightarrow> (string, extension_manifest) dict" where
  "manifests mg = map (\<lambda>(i, d). (i, ed_manifest d)) (mg_definitions mg)"

definition resolve_order :: "'w extension_manager \<Rightarrow> (string, string list) result" where
  "resolve_order mg = order_manifests (manifests mg)"

fun phase_text :: "extension_phase \<Rightarrow> string" where
  "phase_text Authorization = ''10''"
| "phase_text Context_Phase = ''20''"
| "phase_text Outcome_Phase = ''30''"
| "phase_text Observation = ''40''"
| "phase_text Lifecycle_Phase = ''50''"

definition describe_graph :: "'w extension_manager \<Rightarrow> (string, string list) result" where
  "describe_graph mg =
     bind_result (resolve_order mg) (\<lambda>order. Inr (map (\<lambda>i.
       i @ '' ['' @ (case dict_get (manifests mg) i of None \<Rightarrow> [] | Some m \<Rightarrow> phase_text (em_phase m)) @ '']'')
       order))"

section \<open>Scopes\<close>

text \<open>\<^verbatim>\<open>config.get(namespace, {}) if namespace else config\<close>.\<close>

definition extension_config :: "string option \<Rightarrow> json \<Rightarrow> json" where
  "extension_config namespace config =
     (case namespace of
        None \<Rightarrow> config
      | Some n \<Rightarrow> if n = [] then config
                  else (case config of
                          JObj fs \<Rightarrow> (case map_of fs n of None \<Rightarrow> JObj [] | Some v \<Rightarrow> v)
                        | _ \<Rightarrow> JObj []))"

text \<open>An extension that a scope leaves out.\<close>

definition skipped :: "extension_scope \<Rightarrow> extension_manifest \<Rightarrow> bool" where
  "skipped scope m \<longleftrightarrow> scope \<notin> set (em_scopes m) \<or> (scope = Subagent_Scope \<and> em_subagent_policy m = Omit)"

text \<open>The construction loop; it stops at the first error with the container built so far.\<close>

fun build_instances ::
    "(string, 'w extension_definition) dict \<Rightarrow> json \<Rightarrow> json \<Rightarrow> bool \<Rightarrow> string list
      \<Rightarrow> 'w scope_container \<Rightarrow> 'w \<Rightarrow> 'w scope_container \<times> 'w \<times> string option" where
  "build_instances defs config services remote_target [] c w = (c, w, None)"
| "build_instances defs config services remote_target (i # ids) c w =
     (case dict_get defs i of
        None \<Rightarrow> (c, w, Some (''KeyError: '' @ i))
      | Some d \<Rightarrow>
          let m = ed_manifest d
          in if skipped (sc_scope c) m then build_instances defs config services remote_target ids c w
             else if remote_target \<and> \<not> em_remote_compatible m
             then (c, w, Some (''Extension '' @ squote i @ '' is not remote compatible''))
             else (case ed_factory d \<lparr>ec_scope = sc_scope c, ec_scope_id = sc_scope_id c,
                       ec_config = extension_config (em_config_namespace m) config, ec_services = services\<rparr> w of
                     (w', Inl error) \<Rightarrow> (c, w', Some error)
                   | (w', Inr inst) \<Rightarrow>
                       build_instances defs config services remote_target ids
                         (c\<lparr>sc_instances := dict_set i inst (sc_instances c), sc_order := sc_order c @ [i]\<rparr>) w'))"

definition open_scope ::
    "extension_scope \<Rightarrow> string \<Rightarrow> json \<Rightarrow> json \<Rightarrow> bool \<Rightarrow> 'w extension_manager \<Rightarrow> 'w
      \<Rightarrow> 'w extension_manager \<times> 'w \<times> (string, 'w scope_container) result" where
  "open_scope scope scope_id config services remote_target mg w =
     (let c0 = new_container scope scope_id
      in (case resolve_order mg of
            Inl error \<Rightarrow> (mg, snd (dispose_container c0 w), Inl error)
          | Inr order \<Rightarrow>
              (case build_instances (mg_definitions mg) config services remote_target order c0 w of
                 (c, w', Some error) \<Rightarrow> (mg, snd (dispose_container c w'), Inl error)
               | (c, w', None) \<Rightarrow> (mg\<lparr>mg_containers := mg_containers mg @ [c]\<rparr>, w', Inr c))))"

fun dispose_containers :: "'w scope_container list \<Rightarrow> 'w \<Rightarrow> extension_diagnostic list \<times> 'w" where
  "dispose_containers [] w = ([], w)"
| "dispose_containers (c # cs) w =
     (case dispose_container c w of (c', w1) \<Rightarrow>
        case dispose_containers cs w1 of (ds, w2) \<Rightarrow> (sc_diagnostics c' @ ds, w2))"

definition dispose_all ::
    "'w extension_manager \<Rightarrow> 'w \<Rightarrow> 'w extension_manager \<times> 'w \<times> extension_diagnostic list" where
  "dispose_all mg w =
     (case dispose_containers (rev (mg_containers mg)) w of
        (ds, w') \<Rightarrow> (mg\<lparr>mg_containers := []\<rparr>, w', ds))"

definition describe_scopes :: "'w extension_manager \<Rightarrow> string list" where
  "describe_scopes mg = map (\<lambda>c. scope_value (sc_scope c) @ '':'' @ sc_scope_id c @ '' -> '' @
     join '', '' (sc_order c)) (mg_containers mg)"

section \<open>Lifecycle transitions\<close>

record 'w lifecycle =
  lf_registry :: "'w hook_registry"
  lf_runner_started :: bool
  lf_runner_stopped :: bool
  lf_active_session_id :: "string option"
  lf_saved_session_ids :: "string set"
  lf_notifications :: "(string \<times> string \<times> string \<times> hook_point) list"

definition notify :: "string \<Rightarrow> string \<Rightarrow> string \<Rightarrow> hook_point \<Rightarrow> 'w lifecycle \<Rightarrow> 'w lifecycle" where
  "notify message code severity point lf =
     lf\<lparr>lf_notifications := lf_notifications lf @ [(message, code, severity, point)]\<rparr>"

definition warn_decision :: "hook_point \<Rightarrow> guard_decision \<Rightarrow> 'w lifecycle \<Rightarrow> 'w lifecycle" where
  "warn_decision point d lf =
     (case gd_warning d of
        None \<Rightarrow> lf
      | Some warning \<Rightarrow>
          if warning = [] then lf else notify warning ''lifecycle.guard_warning'' ''warning'' point lf)"

text \<open>Guards, then their warnings, then a denial, or transforms and observers. The notification
  sink is taken to accept every notification.\<close>

definition dispatch :: "hook_point \<Rightarrow> hook_context \<Rightarrow> 'w lifecycle \<times> 'w \<Rightarrow> ('w lifecycle \<times> 'w) \<times> bool" where
  "dispatch point ctx st =
     (case st of (lf, w) \<Rightarrow>
        (case run_guards point ctx (lf_registry lf, w) of ((r1, w1), decisions) \<Rightarrow>
           let lf1 = fold (warn_decision point) decisions (lf\<lparr>lf_registry := r1\<rparr>)
           in (case find (\<lambda>d. \<not> gd_allowed d) decisions of
                 Some denied \<Rightarrow>
                   ((notify (str_or_default (gd_reason denied)
                       (''Lifecycle transition denied: '' @ hook_point_value point))
                       ''lifecycle.denied'' ''error'' point lf1, w1), False)
               | None \<Rightarrow>
                   (case run_transforms point ctx (r1, w1) of
                      ((r2, w2), Inl _) \<Rightarrow> ((lf1\<lparr>lf_registry := r2\<rparr>, w2), False)
                    | ((r2, w2), Inr ctx') \<Rightarrow>
                        (case run_observers point ctx' (r2, w2) of
                           ((r3, w3), _) \<Rightarrow> ((lf1\<lparr>lf_registry := r3\<rparr>, w3), True))))))"

definition lifecycle_context ::
    "context_class \<Rightarrow> hook_point \<Rightarrow> string option \<Rightarrow> (string \<times> pyv) list \<Rightarrow> (string \<times> pyv) list \<Rightarrow> hook_context" where
  "lifecycle_context c point session_id metadata payload =
     \<lparr>cx_class = c, cx_hook_point = point, cx_agent_id = None, cx_session_generation = None,
      cx_session_id = session_id, cx_turn_id = None, cx_trace_id = None, cx_metadata = metadata,
      cx_own = \<lparr>lr_payload = payload, lr_callbacks = [], lr_payload_changed = False\<rparr>\<rparr>"

definition runner_started :: "(string \<times> pyv) list \<Rightarrow> 'w lifecycle \<times> 'w \<Rightarrow> 'w lifecycle \<times> 'w" where
  "runner_started metadata st =
     (case st of (lf, w) \<Rightarrow>
        if lf_runner_started lf then (lf, w)
        else fst (dispatch RUNNER_STARTUP
               (lifecycle_context Runner_Startup_Context RUNNER_STARTUP None metadata [(''config'', P_Dict [])])
               (lf\<lparr>lf_runner_started := True\<rparr>, w)))"

definition session_started ::
    "string option \<Rightarrow> string \<Rightarrow> (string \<times> pyv) list \<Rightarrow> 'w lifecycle \<times> 'w \<Rightarrow> 'w lifecycle \<times> 'w" where
  "session_started session_id reason metadata st =
     (case st of (lf, w) \<Rightarrow>
        fst (dispatch SESSION_START
          (lifecycle_context Session_Start_Context SESSION_START session_id
             (dict_set ''reason'' (P_Scalar (JStr reason)) metadata) [])
          (lf\<lparr>lf_active_session_id := session_id\<rparr>, w)))"

definition session_saved ::
    "string \<Rightarrow> (string \<times> pyv) list \<Rightarrow> 'w lifecycle \<times> 'w \<Rightarrow> 'w lifecycle \<times> 'w" where
  "session_saved session_id session_data st =
     (case st of (lf, w) \<Rightarrow>
        fst (dispatch SESSION_SAVE
          (lifecycle_context Session_Save_Context SESSION_SAVE (Some session_id) []
             [(''session_data'', P_Dict session_data)])
          (lf\<lparr>lf_saved_session_ids := insert session_id (lf_saved_session_ids lf)\<rparr>, w)))"

definition runner_shutdown :: "'w lifecycle \<times> 'w \<Rightarrow> 'w lifecycle \<times> 'w" where
  "runner_shutdown st =
     (case st of (lf, w) \<Rightarrow>
        if lf_runner_stopped lf then (lf, w)
        else fst (dispatch RUNNER_SHUTDOWN
               (lifecycle_context Runner_Shutdown_Context RUNNER_SHUTDOWN None [] [])
               (lf\<lparr>lf_runner_stopped := True\<rparr>, w)))"

section \<open>The hook adapter\<close>

text \<open>The tool call a context carries, as the signature compares it.\<close>

definition tool_call_signature :: "hook_context \<Rightarrow> pyv option" where
  "tool_call_signature c =
     (case map_of (lr_payload (cx_own c)) ''tool_call'' of
        None \<Rightarrow> None
      | Some (P_Scalar JNull) \<Rightarrow> None
      | Some v \<Rightarrow> Some v)"

definition authorize_tool :: "hook_context \<Rightarrow> 'w hook_state \<Rightarrow> 'w hook_state \<times> guard_decision list" where
  "authorize_tool c st = run_guards BEFORE_TOOL_EXECUTE c st"

datatype contribution_error =
    Contributor_Failed hook_execution_error
  | Invalid_Context
  | Modified_Tool_Call

text \<open>The transforms work on a deep copy, so what they edit in place never reaches the caller's
  context.\<close>

definition contribute_tool_context ::
    "hook_context \<Rightarrow> 'w hook_state \<Rightarrow> 'w hook_state \<times> (contribution_error, hook_context) result" where
  "contribute_tool_context c st =
     (case run_transforms BEFORE_TOOL_EXECUTE c st of
        (st', Inl e) \<Rightarrow> (st', Inl (Contributor_Failed e))
      | (st', Inr c') \<Rightarrow>
          if \<not> is_instance (cx_class c') Before_Tool_Execute_Context then (st', Inl Invalid_Context)
          else if tool_call_signature c' \<noteq> tool_call_signature c then (st', Inl Modified_Tool_Call)
          else (st', Inr c'))"

definition process_tool_outcome ::
    "hook_context \<Rightarrow> 'w hook_state \<Rightarrow> 'w hook_state \<times> (contribution_error, hook_context) result" where
  "process_tool_outcome c st =
     (case run_transforms AFTER_TOOL_EXECUTE c st of
        (st', Inl e) \<Rightarrow> (st', Inl (Contributor_Failed e))
      | (st', Inr c') \<Rightarrow>
          if \<not> is_instance (cx_class c') After_Tool_Execute_Context then (st', Inl Invalid_Context)
          else (st', Inr c'))"

section \<open>The ordering loop is a topological sort\<close>

lemma degree_set: "degree (dict_set s d indegree) v = (if v = s then d else degree indegree v)"
  by (simp add: degree_def dict_get_set)

lemma relax_spec:
  assumes "distinct ss" "distinct ready" "set ss \<inter> set ready = {}"
    "relax key ss (ready, indegree) = (ready', indegree')"
  shows "degree indegree' v = degree indegree v - (if v \<in> set ss then 1 else 0) \<and>
    set ready' = set ready \<union> {s \<in> set ss. degree indegree s = 1} \<and> distinct ready' \<and>
    (sorted (map key ready) \<longrightarrow> sorted (map key ready'))"
  using assms
proof (induction ss arbitrary: ready indegree)
  case Nil
  then show ?case by (simp add: relax_def)
next
  case (Cons s ss)
  obtain r1 i1 where one: "relax_one key s (ready, indegree) = (r1, i1)" by force
  have i1: "degree i1 u = (if u = s then degree indegree s - 1 else degree indegree u)" for u
    using one by (auto simp: relax_one_def Let_def degree_set split: if_splits)
  have r1: "r1 = (if degree indegree s = 1 then sort_key key (ready @ [s]) else ready)"
    using one by (auto simp: relax_one_def Let_def split: if_splits)
  have "relax key ss (r1, i1) = (ready', indegree')"
    using Cons.prems(4) one by (simp add: relax_def)
  moreover have "distinct r1" "set ss \<inter> set r1 = {}"
    using Cons.prems r1 by auto
  ultimately have IH: "degree indegree' v = degree i1 v - (if v \<in> set ss then 1 else 0)"
    "set ready' = set r1 \<union> {s \<in> set ss. degree i1 s = 1}" "distinct ready'"
    "sorted (map key r1) \<longrightarrow> sorted (map key ready')"
    using Cons.IH Cons.prems(1) by auto
  have "s \<notin> set ss" using Cons.prems(1) by simp
  then have "{s \<in> set ss. degree i1 s = 1} = {s \<in> set ss. degree indegree s = 1}" by (auto simp: i1)
  moreover have "set r1 = set ready \<union> (if degree indegree s = 1 then {s} else {})" by (simp add: r1)
  moreover have "sorted (map key ready) \<longrightarrow> sorted (map key r1)" by (simp add: r1)
  ultimately show ?case
    using IH \<open>s \<notin> set ss\<close> by (auto simp: i1)
qed

text \<open>The unfinished predecessors of an extension.\<close>

definition waiting_for :: "string set \<Rightarrow> edges \<Rightarrow> string set \<Rightarrow> string \<Rightarrow> string set" where
  "waiting_for ids edges finished v = {p \<in> ids. p \<notin> finished \<and> v \<in> set (succs edges p)}"

text \<open>An order taken so far: each extension came after its predecessors, and was the least of those
  available at its turn.\<close>

definition taken_in_order ::
    "(string \<Rightarrow> 'k::linorder) \<Rightarrow> string set \<Rightarrow> edges \<Rightarrow> string list \<Rightarrow> bool" where
  "taken_in_order key ids edges ordered \<longleftrightarrow>
     (\<forall>i<length ordered. waiting_for ids edges (set (take i ordered)) (ordered ! i) = {} \<and>
        (\<forall>v\<in>ids - set (take i ordered). waiting_for ids edges (set (take i ordered)) v = {} \<longrightarrow>
           key (ordered ! i) \<le> key v))"

definition kahn_inv ::
    "(string \<Rightarrow> 'k::linorder) \<Rightarrow> string set \<Rightarrow> edges \<Rightarrow> string list \<Rightarrow> string list \<Rightarrow> indegrees \<Rightarrow> bool" where
  "kahn_inv key ids edges ready ordered indegree \<longleftrightarrow>
     distinct (ordered @ ready) \<and> set ordered \<subseteq> ids \<and>
     (\<forall>v\<in>ids. degree indegree v = int (card (waiting_for ids edges (set ordered) v))) \<and>
     set ready = {v \<in> ids. v \<notin> set ordered \<and> waiting_for ids edges (set ordered) v = {}} \<and>
     sorted (map key ready) \<and> taken_in_order key ids edges ordered"

definition graph_ok :: "string set \<Rightarrow> edges \<Rightarrow> bool" where
  "graph_ok ids edges \<longleftrightarrow> finite ids \<and> (\<forall>p. distinct (succs edges p) \<and> set (succs edges p) \<subseteq> ids)"

lemma waiting_insert:
  "waiting_for ids edges (insert c finished) v = waiting_for ids edges finished v - {c}"
  by (auto simp: waiting_for_def)

lemma card_waiting_insert:
  assumes "finite ids" "c \<in> ids" "c \<notin> finished"
  shows "int (card (waiting_for ids edges (insert c finished) v)) =
    int (card (waiting_for ids edges finished v)) - (if v \<in> set (succs edges c) then 1 else 0)"
proof -
  have f: "finite (waiting_for ids edges finished v)" using assms(1) by (simp add: waiting_for_def)
  have "c \<in> waiting_for ids edges finished v \<longleftrightarrow> v \<in> set (succs edges c)"
    using assms(2,3) by (simp add: waiting_for_def)
  then show ?thesis
    unfolding waiting_insert using card_Suc_Diff1 [OF f, of c] by (auto simp: card_Diff_singleton_if)
qed

lemma taken_snoc:
  assumes "taken_in_order key ids edges ordered" "waiting_for ids edges (set ordered) c = {}"
    "\<And>v. v \<in> ids - set ordered \<Longrightarrow> waiting_for ids edges (set ordered) v = {} \<Longrightarrow> key c \<le> key v"
  shows "taken_in_order key ids edges (ordered @ [c])"
  using assms unfolding taken_in_order_def by (auto simp: nth_append less_Suc_eq)

lemma kahn_step:
  assumes g: "graph_ok ids edges" and inv: "kahn_inv key ids edges (c # ready) ordered indegree"
    and st: "relax key (sort (succs edges c)) (ready, indegree) = (ready', indegree')"
  shows "kahn_inv key ids edges ready' (ordered @ [c]) indegree'"
proof -
  let ?W = "waiting_for ids edges"
  have fin: "finite ids" and ds: "distinct (succs edges c)" "set (succs edges c) \<subseteq> ids"
    using g by (auto simp: graph_ok_def)
  have c: "c \<in> ids" "c \<notin> set ordered" "?W (set ordered) c = {}"
    and rd: "set ready = {v \<in> ids. v \<notin> set ordered \<and> ?W (set ordered) v = {}} - {c}"
      "distinct ready" "c \<notin> set ready" "sorted (map key ready)"
    and le: "\<forall>v\<in>set ready. key c \<le> key v"
    and deg: "\<And>v. v \<in> ids \<Longrightarrow> degree indegree v = int (card (?W (set ordered) v))"
    and rest: "distinct ordered" "set ordered \<subseteq> ids" "taken_in_order key ids edges ordered"
    using inv unfolding kahn_inv_def by auto
  have succ_waits: "c \<in> ?W (set ordered) v" if "v \<in> set (succs edges c)" for v
    using that c by (simp add: waiting_for_def)
  then have disj: "set (sort (succs edges c)) \<inter> set ready = {}" using rd(1) by auto
  have deg': "\<And>v. degree indegree' v = degree indegree v - (if v \<in> set (succs edges c) then 1 else 0)"
    and rd': "set ready' = set ready \<union> {s \<in> set (succs edges c). degree indegree s = 1}"
      "distinct ready'" "sorted (map key ready')"
    using relax_spec [OF _ rd(2) disj st] ds rd(4) by auto
  have card': "int (card (?W (set (ordered @ [c])) v)) = degree indegree' v" if "v \<in> ids" for v
    using card_waiting_insert [OF fin c(1,2), of edges v] deg [OF that] deg' [of v] by simp
  have one: "degree indegree v = 1 \<longleftrightarrow> ?W (set (ordered @ [c])) v = {}" if "v \<in> set (succs edges c)" for v
  proof -
    have v: "v \<in> ids" using that ds by blast
    have "finite (?W (set (ordered @ [c])) v)" using fin by (simp add: waiting_for_def)
    then show ?thesis using card' [OF v] deg' [of v] that by auto
  qed
  have ready': "set ready' = {v \<in> ids. v \<notin> set (ordered @ [c]) \<and> ?W (set (ordered @ [c])) v = {}}"
  proof (intro equalityI subsetI)
    fix v assume "v \<in> set ready'"
    then consider "v \<in> set ready" | "v \<in> set (succs edges c)" "degree indegree v = 1" using rd'(1) by auto
    then show "v \<in> {v \<in> ids. v \<notin> set (ordered @ [c]) \<and> ?W (set (ordered @ [c])) v = {}}"
    proof cases
      case 1
      then show ?thesis using rd(1) by (auto simp: waiting_for_def)
    next
      case 2
      have "v \<notin> set ordered"
      proof
        assume "v \<in> set ordered"
        then obtain i where i: "i < length ordered" "ordered ! i = v" by (metis in_set_conv_nth)
        then have "?W (set (take i ordered)) v = {}" using rest(3) by (auto simp: taken_in_order_def)
        moreover have "c \<notin> set (take i ordered)" using c(2) in_set_takeD by metis
        ultimately show False using succ_waits [OF 2(1)] by (auto simp: waiting_for_def)
      qed
      moreover have "v \<noteq> c" using succ_waits [OF 2(1)] c(3) by auto
      ultimately show ?thesis using one [OF 2(1)] 2 ds by auto
    qed
  next
    fix v assume v: "v \<in> {v \<in> ids. v \<notin> set (ordered @ [c]) \<and> ?W (set (ordered @ [c])) v = {}}"
    show "v \<in> set ready'"
    proof (cases "v \<in> set (succs edges c)")
      case True
      with v one [OF True] rd'(1) show ?thesis by auto
    next
      case False
      then have "?W (set ordered) v = {}" using v c by (auto simp: waiting_for_def)
      with v rd(1) rd'(1) show ?thesis by auto
    qed
  qed
  have "taken_in_order key ids edges (ordered @ [c])"
  proof (rule taken_snoc [OF rest(3) c(3)])
    fix v assume "v \<in> ids - set ordered" "?W (set ordered) v = {}"
    then show "key c \<le> key v" using rd(1) le by (cases "v = c") auto
  qed
  then show ?thesis
    unfolding kahn_inv_def using ready' rd'(2,3) card' rest c by auto
qed

lemma kahn_correct:
  assumes "graph_ok ids edges" "kahn_inv key ids edges ready ordered indegree"
    "kahn key edges ready ordered indegree = (ordered', indegree')"
  shows "kahn_inv key ids edges [] ordered' indegree'"
  using assms
proof (induction key edges ready ordered indegree rule: kahn.induct)
  case (1 key edges ordered indegree)
  then show ?case by (simp add: kahn.simps)
next
  case (2 key edges c ready ordered indegree)
  obtain r i where st: "relax key (sort (succs edges c)) (ready, indegree) = (r, i)" by force
  show ?case
    using "2.IH" [OF st [symmetric] "2.prems"(1)] kahn_step [OF "2.prems"(1,2) st] "2.prems"(3) st
    by (simp add: kahn.simps Let_def)
qed

section \<open>The graph the manifests describe\<close>

definition precedes :: "(string, extension_manifest) dict \<Rightarrow> string \<Rightarrow> string \<Rightarrow> bool" where
  "precedes ms p s \<longleftrightarrow> p \<in> set (keys ms) \<and> s \<in> set (keys ms) \<and>
     ((\<exists>m. (s, m) \<in> set ms \<and> p \<in> set (em_requires m) \<union> set (em_after m)) \<or>
      (\<exists>m. (p, m) \<in> set ms \<and> s \<in> set (em_before m)))"

lemma succs_add_edge:
  "set (succs (add_edge p s e) q) = set (succs e q) \<union> (if q = p then {s} else {})"
  "distinct (succs e q) \<Longrightarrow> distinct (succs (add_edge p s e) q)"
  by (auto simp: add_edge_def succs_def dict_get_set distinct_insert)

lemma keys_add_edge: "p \<in> set (keys e) \<Longrightarrow> keys (add_edge p s e) = keys e"
  by (simp add: add_edge_def keys_dict_set)

lemma fold_predecessors:
  assumes "set ids \<subseteq> set (keys e)"
  shows "set (succs (fold (\<lambda>p e. if p \<in> set ids then add_edge p i e else e) ps e) q) =
      set (succs e q) \<union> (if q \<in> set ids \<and> q \<in> set ps then {i} else {}) \<and>
    keys (fold (\<lambda>p e. if p \<in> set ids then add_edge p i e else e) ps e) = keys e \<and>
    (distinct (succs e q) \<longrightarrow>
      distinct (succs (fold (\<lambda>p e. if p \<in> set ids then add_edge p i e else e) ps e) q))"
  using assms
proof (induction ps arbitrary: e)
  case (Cons p ps)
  show ?case
  proof (cases "p \<in> set ids")
    case True
    then have k: "keys (add_edge p i e) = keys e" using Cons.prems keys_add_edge by blast
    then have "set ids \<subseteq> set (keys (add_edge p i e))" using Cons.prems by (simp only:)
    from Cons.IH [OF this] True k show ?thesis by (auto simp: succs_add_edge)
  qed (use Cons in auto)
qed simp

lemma fold_successors:
  assumes "set ids \<subseteq> set (keys e)" "i \<in> set ids"
  shows "set (succs (fold (\<lambda>s e. if s \<in> set ids then add_edge i s e else e) ss e) q) =
      set (succs e q) \<union> (if q = i then set ss \<inter> set ids else {}) \<and>
    keys (fold (\<lambda>s e. if s \<in> set ids then add_edge i s e else e) ss e) = keys e \<and>
    (distinct (succs e q) \<longrightarrow>
      distinct (succs (fold (\<lambda>s e. if s \<in> set ids then add_edge i s e else e) ss e) q))"
  using assms(1)
proof (induction ss arbitrary: e)
  case (Cons s ss)
  show ?case
  proof (cases "s \<in> set ids")
    case True
    have k: "keys (add_edge i s e) = keys e" using Cons.prems assms(2) keys_add_edge by blast
    then have "set ids \<subseteq> set (keys (add_edge i s e))" using Cons.prems by (simp only:)
    from Cons.IH [OF this] True k show ?thesis by (auto simp: succs_add_edge)
  qed (use Cons in auto)
qed simp

lemma link_manifest_spec:
  assumes "set ids \<subseteq> set (keys e)" "i \<in> set ids"
  shows "set (succs (link_manifest ids i m e) q) = set (succs e q) \<union>
      (if q \<in> set ids \<and> q \<in> set (em_requires m) \<union> set (em_after m) then {i} else {}) \<union>
      (if q = i then set (em_before m) \<inter> set ids else {})"
    "keys (link_manifest ids i m e) = keys e"
    "distinct (succs e q) \<Longrightarrow> distinct (succs (link_manifest ids i m e) q)"
proof -
  let ?e = "fold (\<lambda>p e. if p \<in> set ids then add_edge p i e else e) (em_requires m @ em_after m) e"
  note P = fold_predecessors [OF assms(1), of i "em_requires m @ em_after m" q]
  then have "set ids \<subseteq> set (keys ?e)" using assms(1) by (simp only:)
  note S = fold_successors [OF this assms(2), of "em_before m" q]
  show "set (succs (link_manifest ids i m e) q) = set (succs e q) \<union>
      (if q \<in> set ids \<and> q \<in> set (em_requires m) \<union> set (em_after m) then {i} else {}) \<union>
      (if q = i then set (em_before m) \<inter> set ids else {})"
    using P S unfolding link_manifest_def by (simp only: set_append)
  show "keys (link_manifest ids i m e) = keys e"
    using P S unfolding link_manifest_def by (simp only:)
  show "distinct (succs (link_manifest ids i m e) q)" if "distinct (succs e q)"
    using P S that unfolding link_manifest_def by blast
qed

lemma link_all_spec:
  assumes "link_all ids ms e = Inr e'" "set ids \<subseteq> set (keys e)" "set (keys ms) \<subseteq> set ids"
  shows "set (succs e' q) = set (succs e q) \<union>
      {s. \<exists>m. (s, m) \<in> set ms \<and> q \<in> set ids \<and> q \<in> set (em_requires m) \<union> set (em_after m)} \<union>
      {s \<in> set ids. \<exists>m. (q, m) \<in> set ms \<and> s \<in> set (em_before m)} \<and>
    keys e' = keys e \<and> (distinct (succs e q) \<longrightarrow> distinct (succs e' q)) \<and>
    (\<forall>(i, m)\<in>set ms. set (em_requires m) \<subseteq> set ids)"
  using assms
proof (induction ids ms e rule: link_all.induct)
  case (2 ids i m rest e)
  have ok: "filter (\<lambda>x. x \<notin> set ids) (em_requires m) = []"
    and l: "link_all ids rest (link_manifest ids i m e) = Inr e'"
    using "2.prems"(1) by (auto simp: Let_def split: if_splits)
  have i: "i \<in> set ids" using "2.prems"(3) by simp
  note L = link_manifest_spec [OF "2.prems"(2) i]
  have "set ids \<subseteq> set (keys (link_manifest ids i m e))" using "2.prems"(2) L(2) by (simp only:)
  from "2.IH" [OF refl _ l this] ok "2.prems"(3)
  have IH: "set (succs e' q) = set (succs (link_manifest ids i m e) q) \<union>
      {s. \<exists>m. (s, m) \<in> set rest \<and> q \<in> set ids \<and> q \<in> set (em_requires m) \<union> set (em_after m)} \<union>
      {s \<in> set ids. \<exists>m. (q, m) \<in> set rest \<and> s \<in> set (em_before m)}"
    "keys e' = keys (link_manifest ids i m e)"
    "distinct (succs (link_manifest ids i m e) q) \<longrightarrow> distinct (succs e' q)"
    "\<forall>(i, m)\<in>set rest. set (em_requires m) \<subseteq> set ids"
    by auto
  have "set (em_requires m) \<subseteq> set ids" using ok by (auto simp: filter_empty_conv)
  moreover have "set (succs e' q) = set (succs e q) \<union>
      {s. \<exists>m'. (s, m') \<in> set ((i, m) # rest) \<and> q \<in> set ids \<and> q \<in> set (em_requires m') \<union> set (em_after m')} \<union>
      {s \<in> set ids. \<exists>m'. (q, m') \<in> set ((i, m) # rest) \<and> s \<in> set (em_before m')}"
    unfolding IH(1) L(1) by auto
  ultimately show ?case using IH(2-4) L(2,3) by auto
qed auto

lemma degree_count_edge: "distinct ss \<Longrightarrow>
  degree (fold count_edge ss ind) v = degree ind v + (if v \<in> set ss then 1 else 0)"
  by (induction ss arbitrary: ind) (auto simp: count_edge_def degree_set)

lemma degree_count_edges:
  "\<forall>(p, ss)\<in>set e. distinct ss \<Longrightarrow>
   degree (count_edges e ind) v = degree ind v + int (length (filter (\<lambda>(p, ss). v \<in> set ss) e))"
  unfolding count_edges_def
  by (induction e arbitrary: ind) (auto simp: degree_count_edge)

lemma count_edges_card:
  assumes "dict_ok e" "\<forall>p. distinct (succs e p)" "set (keys e) = ids"
  shows "degree (count_edges e ind) v = degree ind v + int (card (waiting_for ids e {} v))"
proof -
  let ?f = "filter (\<lambda>(p, ss). v \<in> set ss) e"
  have sc: "succs e p = ss" if "(p, ss) \<in> set e" for p ss
    using dict_get_mem [OF assms(1) that] by (simp add: succs_def)
  then have d: "\<forall>(p, ss)\<in>set e. distinct ss" using assms(2) by (metis case_prodI2)
  have "distinct (map fst ?f)" using assms(1) unfolding dict_ok_def by (rule distinct_map_filter)
  then have "length ?f = card (set (map fst ?f))" by (metis distinct_card length_map)
  moreover have "set (map fst ?f) = waiting_for ids e {} v"
    using sc assms(3) by (force simp: waiting_for_def)
  ultimately show ?thesis using degree_count_edges [OF d] by simp
qed

lemma succs_empty: "succs (map (\<lambda>i. (i, [])) ids) q = []"
  by (induction ids) (auto simp: succs_def dict_get_def)

lemma degree_empty: "degree (map (\<lambda>i. (i, 0)) ids) v = 0"
  by (induction ids) (auto simp: degree_def dict_get_def)

text \<open>The edges built from the manifests are the precedence relation, and the loop starts in its
  invariant.\<close>

lemma linked_graph:
  assumes "dict_ok ms" "link_all (keys ms) ms (map (\<lambda>i. (i, [])) (keys ms)) = Inr e"
  shows "s \<in> set (succs e p) \<longleftrightarrow> precedes ms p s" "graph_ok (set (keys ms)) e" "dict_ok e"
    "keys e = keys ms" "\<forall>(i, m)\<in>set ms. set (em_requires m) \<subseteq> set (keys ms)"
proof -
  have k: "keys (map (\<lambda>i. (i, [] :: string list)) (keys ms)) = keys ms" by (simp add: comp_def)
  then have "set (keys ms) \<subseteq> set (keys (map (\<lambda>i. (i, [] :: string list)) (keys ms)))" by (simp only:)
  note L = link_all_spec [OF assms(2) this subset_refl]
  show ek: "keys e = keys ms" using L k by (simp only:)
  with assms(1) show "dict_ok e" by (simp add: dict_ok_def)
  have sc: "set (succs e q) = {s. \<exists>m. (s, m) \<in> set ms \<and> q \<in> set (keys ms) \<and>
      q \<in> set (em_requires m) \<union> set (em_after m)} \<union>
      {s \<in> set (keys ms). \<exists>m. (q, m) \<in> set ms \<and> s \<in> set (em_before m)}" for q
    using L [of q] unfolding succs_empty by simp
  show p: "s \<in> set (succs e p) \<longleftrightarrow> precedes ms p s" for s p
    unfolding sc precedes_def by force
  have "distinct (succs e q)" for q using L [of q] unfolding succs_empty by simp
  moreover have "set (succs e q) \<subseteq> set (keys ms)" for q using p by (auto simp: precedes_def)
  ultimately show "graph_ok (set (keys ms)) e" by (simp add: graph_ok_def)
  show "\<forall>(i, m)\<in>set ms. set (em_requires m) \<subseteq> set (keys ms)" using L by blast
qed

lemma kahn_starts:
  assumes "dict_ok ms" "link_all (keys ms) ms (map (\<lambda>i. (i, [])) (keys ms)) = Inr e"
    and ind: "ind = count_edges e (map (\<lambda>i. (i, 0)) (keys ms))"
    and rd: "ready = sort_key key (filter (\<lambda>i. degree ind i = 0) (keys ms))"
  shows "kahn_inv key (set (keys ms)) e ready [] ind"
proof -
  note G = linked_graph [OF assms(1,2)]
  have "\<forall>p. distinct (succs e p)" using G(2) by (simp add: graph_ok_def)
  from count_edges_card [OF G(3) this refl, of "map (\<lambda>i. (i, 0)) (keys ms)"]
  have d: "degree ind v = int (card (waiting_for (set (keys ms)) e {} v))" for v
    unfolding ind G(4) degree_empty by (simp only: add_0)
  have "finite (waiting_for (set (keys ms)) e {} v)" for v by (simp add: waiting_for_def)
  then have "degree ind v = 0 \<longleftrightarrow> waiting_for (set (keys ms)) e {} v = {}" for v
    using d [of v] by simp
  moreover have "distinct (keys ms)" using assms(1) by (simp add: dict_ok_def)
  ultimately show ?thesis
    unfolding kahn_inv_def rd using d by (simp add: taken_in_order_def)
qed

text \<open>What the loop leaves: an order of everything that does not wait on a cycle.\<close>

definition least_first :: "(string, extension_manifest) dict \<Rightarrow> string list \<Rightarrow> bool" where
  "least_first ms order \<longleftrightarrow> (\<forall>i<length order. (\<forall>p. precedes ms p (order ! i) \<longrightarrow> p \<in> set (take i order)) \<and>
     (\<forall>v\<in>set (keys ms) - set (take i order). (\<forall>p. precedes ms p v \<longrightarrow> p \<in> set (take i order)) \<longrightarrow>
        order_key ms (order ! i) \<le> order_key ms v))"

lemma waiting_empty_iff:
  assumes "\<And>p s. s \<in> set (succs e p) \<longleftrightarrow> precedes ms p s"
  shows "waiting_for (set (keys ms)) e f v = {} \<longleftrightarrow> (\<forall>p. precedes ms p v \<longrightarrow> p \<in> f)"
proof -
  have "precedes ms p v \<Longrightarrow> p \<in> set (keys ms)" for p by (simp add: precedes_def)
  then show ?thesis unfolding waiting_for_def assms by blast
qed

lemma loop_result:
  assumes "dict_ok ms" "link_all (keys ms) ms (map (\<lambda>i. (i, [])) (keys ms)) = Inr e"
    and "ind = count_edges e (map (\<lambda>i. (i, 0)) (keys ms))"
    and "ready = sort_key (order_key ms) (filter (\<lambda>i. degree ind i = 0) (keys ms))"
    and k: "kahn (order_key ms) e ready [] ind = (ordered, left)"
  shows "distinct ordered \<and> set ordered \<subseteq> set (keys ms) \<and> least_first ms ordered \<and>
    (\<forall>v\<in>set (keys ms) - set ordered. \<exists>p\<in>set (keys ms) - set ordered. precedes ms p v)"
proof -
  note G = linked_graph [OF assms(1,2)]
  have inv: "kahn_inv (order_key ms) (set (keys ms)) e [] ordered left"
    by (rule kahn_correct [OF G(2) kahn_starts [OF assms(1-4)] k])
  then have "\<forall>v\<in>set (keys ms). v \<notin> set ordered \<longrightarrow> waiting_for (set (keys ms)) e (set ordered) v \<noteq> {}"
    unfolding kahn_inv_def by auto
  then have "\<forall>v\<in>set (keys ms) - set ordered. \<exists>p\<in>set (keys ms) - set ordered. precedes ms p v"
    unfolding waiting_for_def G(1) by blast
  moreover have "least_first ms ordered"
    using inv unfolding kahn_inv_def taken_in_order_def least_first_def waiting_empty_iff [OF G(1)] by blast
  ultimately show ?thesis using inv by (simp add: kahn_inv_def)
qed

lemma order_manifests_linked:
  assumes "dict_ok ms" "order_manifests ms = Inr order"
  shows "\<exists>e. link_all (keys ms) ms (map (\<lambda>i. (i, [])) (keys ms)) = Inr e" "distinct order"
    "set order = set (keys ms)" "least_first ms order"
proof -
  obtain e where e: "link_all (keys ms) ms (map (\<lambda>i. (i, [])) (keys ms)) = Inr e"
    using assms(2) by (auto simp: order_manifests_def Let_def)
  then show "\<exists>e. link_all (keys ms) ms (map (\<lambda>i. (i, [])) (keys ms)) = Inr e" by blast
  define ind where "ind = count_edges e (map (\<lambda>i. (i, 0)) (keys ms))"
  define ready where "ready = sort_key (order_key ms) (filter (\<lambda>i. degree ind i = 0) (keys ms))"
  obtain ordered left where k: "kahn (order_key ms) e ready [] ind = (ordered, left)" by force
  have o: "order = ordered \<and> length ordered = length (keys ms)"
    using assms(2) e k unfolding order_manifests_def Let_def ind_def ready_def
    by (auto split: if_splits)
  note R = loop_result [OF assms(1) e ind_def ready_def k]
  then show "distinct order" "least_first ms order" using o by simp_all
  have "card (set ordered) = card (set (keys ms))"
    using R o assms(1) by (metis dict_ok_def distinct_card)
  with R o show "set order = set (keys ms)" by (metis card_subset_eq finite_set)
qed

lemma least_first_before:
  assumes "least_first ms order" "set order = set (keys ms)" "precedes ms p s"
  shows "\<exists>i j. i < j \<and> j < length order \<and> order ! i = p \<and> order ! j = s"
proof -
  have "s \<in> set order" using assms(2,3) by (simp add: precedes_def)
  then obtain j where j: "j < length order" "order ! j = s" by (metis in_set_conv_nth)
  then have "p \<in> set (take j order)" using assms(1,3) unfolding least_first_def by blast
  then obtain i where "i < length (take j order)" "take j order ! i = p" by (metis in_set_conv_nth)
  with j show ?thesis by auto
qed

lemma order_acyclic:
  assumes "distinct order" "\<And>p s. precedes ms p s \<Longrightarrow> \<exists>i j. i < j \<and> j < length order \<and> order ! i = p \<and> order ! j = s"
  shows "acyclic {(p, s). precedes ms p s}"
proof -
  define pos where "pos v = (THE i. i < length order \<and> order ! i = v)" for v
  have pos: "pos (order ! i) = i" if "i < length order" for i
    unfolding pos_def using that assms(1) by (auto simp: nth_eq_iff_index_eq)
  have "{(p, s). precedes ms p s} \<subseteq> inv_image less_than pos"
    using assms(2) pos by (fastforce simp: inv_image_def)
  then show ?thesis by (meson wf_acyclic wf_inv_image wf_less_than wf_subset)
qed

lemma link_all_succeeds:
  "\<forall>(i, m)\<in>set ms. set (em_requires m) \<subseteq> set ids \<Longrightarrow> \<exists>e'. link_all ids ms e = Inr e'"
proof (induction ids ms e rule: link_all.induct)
  case (2 ids i m rest e)
  then have "filter (\<lambda>x. x \<notin> set ids) (em_requires m) = []" by (auto simp: filter_empty_conv)
  with 2 show ?case by (auto simp: Let_def)
qed simp

lemma acyclic_orders:
  assumes "dict_ok ms" "\<forall>(i, m)\<in>set ms. set (em_requires m) \<subseteq> set (keys ms)"
    "acyclic {(p, s). precedes ms p s}"
  shows "\<exists>order. order_manifests ms = Inr order"
proof -
  obtain e where e: "link_all (keys ms) ms (map (\<lambda>i. (i, [])) (keys ms)) = Inr e"
    using link_all_succeeds [OF assms(2)] by blast
  define ind where "ind = count_edges e (map (\<lambda>i. (i, 0)) (keys ms))"
  define ready where "ready = sort_key (order_key ms) (filter (\<lambda>i. degree ind i = 0) (keys ms))"
  obtain ordered left where k: "kahn (order_key ms) e ready [] ind = (ordered, left)" by force
  note R = loop_result [OF assms(1) e ind_def ready_def k]
  have "finite {(p, s). precedes ms p s}"
    by (rule finite_subset [of _ "set (keys ms) \<times> set (keys ms)"]) (auto simp: precedes_def)
  then have wf: "wf {(p, s). precedes ms p s}" using assms(3) by (rule finite_acyclic_wf)
  have "set (keys ms) - set ordered = {}"
  proof (rule ccontr)
    assume "set (keys ms) - set ordered \<noteq> {}"
    then obtain x where "x \<in> set (keys ms) - set ordered" by blast
    then obtain z where z: "z \<in> set (keys ms) - set ordered"
        "\<And>y. (y, z) \<in> {(p, s). precedes ms p s} \<Longrightarrow> y \<notin> set (keys ms) - set ordered"
      using wfE_min [OF wf] by metis
    obtain p where "p \<in> set (keys ms) - set ordered" "precedes ms p z" using R z(1) by blast
    with z(2) [of p] show False by simp
  qed
  then have "set ordered = set (keys ms)" using R by blast
  then have "length ordered = length (keys ms)"
    using R assms(1) by (metis dict_ok_def distinct_card)
  then show ?thesis
    using e k unfolding order_manifests_def Let_def ind_def ready_def by simp
qed

lemma manifests_ok: "dict_ok (mg_definitions mg) \<Longrightarrow> dict_ok (manifests mg)"
  by (simp add: dict_ok_def manifests_def comp_def split_beta)

section \<open>Disposal\<close>

text \<open>What disposing one instance does to the outside state.\<close>

definition dispose_effect :: "'w scope_container \<Rightarrow> string \<Rightarrow> 'w \<Rightarrow> 'w" where
  "dispose_effect c i w = (case container_get i c of Some (Some f) \<Rightarrow> fst (f w) | _ \<Rightarrow> w)"

lemma dispose_each_effect:
  "snd (dispose_each (sc_instances c) ids ds w) = fold (dispose_effect c) ids w"
proof (induction ids arbitrary: ds w)
  case (Cons i ids)
  then show ?case
    by (auto simp: dispose_effect_def [abs_def] container_get_def split: option.splits prod.splits)
qed simp

lemma dispose_container_effect:
  "\<not> sc_disposed c \<Longrightarrow> snd (dispose_container c w) = fold (dispose_effect c) (rev (sc_order c)) w"
  using dispose_each_effect [of c "rev (sc_order c)" "sc_diagnostics c" w]
  by (auto simp: dispose_container_def split: prod.splits)

lemma dispose_twice:
  "dispose_container (fst (dispose_container c w)) w' = (fst (dispose_container c w), w')"
  by (auto simp: dispose_container_def split: prod.splits)

text \<open>A container in which every listed extension has an instance, each once.\<close>

definition container_ok :: "'w scope_container \<Rightarrow> bool" where
  "container_ok c \<longleftrightarrow> \<not> sc_disposed c \<and> distinct (sc_order c) \<and> set (keys (sc_instances c)) = set (sc_order c)"

lemma build_instances_ok:
  "build_instances defs config services remote ids c w = (c', w', err) \<Longrightarrow> container_ok c \<Longrightarrow>
   distinct ids \<Longrightarrow> set ids \<inter> set (sc_order c) = {} \<Longrightarrow>
   container_ok c' \<and> (\<exists>built rest. sc_order c' = sc_order c @ built \<and>
     built @ rest = filter (\<lambda>i. \<exists>d. dict_get defs i = Some d \<and> \<not> skipped (sc_scope c) (ed_manifest d)) ids \<and>
     (err = None \<longrightarrow> rest = []))"
proof (induction defs config services remote ids c w rule: build_instances.induct)
  case (2 defs config services remote i ids c w)
  show ?case
  proof (cases "dict_get defs i")
    case None
    with "2.prems" show ?thesis by auto
  next
    case (Some d)
    let ?m = "ed_manifest d"
    let ?ctx = "\<lparr>ec_scope = sc_scope c, ec_scope_id = sc_scope_id c,
      ec_config = extension_config (em_config_namespace ?m) config, ec_services = services\<rparr>"
    consider "skipped (sc_scope c) ?m" | "\<not> skipped (sc_scope c) ?m" "remote \<and> \<not> em_remote_compatible ?m"
      | "\<not> skipped (sc_scope c) ?m" "\<not> (remote \<and> \<not> em_remote_compatible ?m)" by blast
    then show ?thesis
    proof cases
      case 1
      with "2.IH"(1) [OF Some refl 1] "2.prems" Some show ?thesis by (auto simp: Let_def)
    next
      case 2
      with "2.prems" Some show ?thesis by (auto simp: Let_def)
    next
      case 3
      obtain w1 res where f: "ed_factory d ?ctx w = (w1, res)" by force
      show ?thesis
      proof (cases res)
        case (Inl e)
        with 3 f "2.prems" Some show ?thesis by (auto simp: Let_def)
      next
        case (Inr inst)
        let ?c = "c\<lparr>sc_instances := dict_set i inst (sc_instances c), sc_order := sc_order c @ [i]\<rparr>"
        have run: "build_instances defs config services remote ids ?c w1 = (c', w', err)"
          using "2.prems"(1) Some 3 f Inr by (auto simp: Let_def)
        have "container_ok ?c" "distinct ids" "set ids \<inter> set (sc_order ?c) = {}"
          using "2.prems"(2-4) by (auto simp: container_ok_def keys_dict_set simp del: map_map)
        from "2.IH"(2) [OF Some refl 3 f [symmetric] Inr run this]
        obtain built rest where "container_ok c'" "sc_order c' = sc_order c @ [i] @ built"
            "built @ rest = filter (\<lambda>i. \<exists>d. dict_get defs i = Some d \<and> \<not> skipped (sc_scope c) (ed_manifest d)) ids"
            "err = None \<longrightarrow> rest = []"
          by auto
        then show ?thesis
          using Some 3 by (intro conjI, blast) (rule exI [of _ "i # built"], rule exI [of _ rest], auto)
      qed
    qed
  qed
qed auto

lemma build_keeps_scope:
  "build_instances defs config services remote ids c w = (c', w', err) \<Longrightarrow> sc_disposed c' = sc_disposed c"
  by (induction defs config services remote ids c w rule: build_instances.induct)
    (auto simp: Let_def split: option.splits if_splits prod.splits sum.splits)

section \<open>Properties\<close>

definition ex_manifest :: "string \<Rightarrow> extension_phase \<Rightarrow> string list \<Rightarrow> string list \<Rightarrow> extension_manifest" where
  "ex_manifest i phase requires before = \<lparr>em_extension_id = i, em_version = ''1'', em_api_version = 1,
     em_requires = requires, em_before = before, em_after = [], em_scopes = [Session_Scope],
     em_config_namespace = None, em_phase = phase, em_subagent_policy = Omit,
     em_remote_compatible = False, em_thread_safe = False\<rparr>"

text \<open>Extensions that log their construction and disposal; one fails to build.\<close>

definition ex_extension :: "string \<Rightarrow> extension_phase \<Rightarrow> string list \<Rightarrow> string list \<Rightarrow> bool \<Rightarrow> string list extension_definition" where
  "ex_extension i phase requires before fails =
     \<lparr>ed_manifest = ex_manifest i phase requires before,
      ed_factory = (\<lambda>_ w. if fails then (w, Inl ''broken'')
        else (w @ [''+'' @ i], Inr (Some (\<lambda>w. (w @ [''-'' @ i], None)))))\<rparr>"

definition ex_manager :: "bool \<Rightarrow> string list extension_manager" where
  "ex_manager fails =
     \<lparr>mg_api_version = 1, mg_definitions = map (\<lambda>d. (em_extension_id (ed_manifest d), d))
        [ex_extension ''log'' Observation [] [] fails, ex_extension ''auth'' Authorization [''store''] [] False,
         ex_extension ''store'' Lifecycle_Phase [] [''log''] False],
      mg_containers = []\<rparr>"

text \<open>C12: an order the extension manager returns lists every registered extension once, after
  everything it requires or must follow and before everything it must precede, and at each
  position takes, of the extensions whose predecessors are all placed, the one with the least
  phase and then id; this determines the order uniquely.\<close>

theorem resolve_order_topological:
  assumes "dict_ok (mg_definitions mg)" "resolve_order mg = Inr order"
  shows "distinct order \<and> set order = set (keys (manifests mg)) \<and>
    (\<forall>p s. precedes (manifests mg) p s \<longrightarrow>
       (\<exists>i j. i < j \<and> j < length order \<and> order ! i = p \<and> order ! j = s)) \<and>
    least_first (manifests mg) order"
proof -
  note M = order_manifests_linked [OF manifests_ok [OF assms(1)], of order]
  have "order_manifests (manifests mg) = Inr order" using assms(2) by (simp add: resolve_order_def)
  with M show ?thesis using least_first_before by blast
qed

theorem resolve_order_topological_witness:
  "dict_ok (mg_definitions (ex_manager False)) \<and>
   resolve_order (ex_manager False) = Inr [''store'', ''auth'', ''log''] \<and>
   least_first (manifests (ex_manager False)) [''store'', ''auth'', ''log'']"
proof -
  have "dict_ok (mg_definitions (ex_manager False))" by code_simp
  moreover have "resolve_order (ex_manager False) = Inr [''store'', ''auth'', ''log'']" by code_simp
  ultimately show ?thesis using resolve_order_topological by blast
qed

text \<open>C38: ordering succeeds exactly when every required extension is registered and the constraints
  have no cycle.\<close>

theorem resolve_order_complete:
  assumes "dict_ok (mg_definitions mg)"
  shows "(\<exists>order. resolve_order mg = Inr order) \<longleftrightarrow>
    (\<forall>(i, m)\<in>set (manifests mg). set (em_requires m) \<subseteq> set (keys (manifests mg))) \<and>
    acyclic {(p, s). precedes (manifests mg) p s}"
proof
  let ?ms = "manifests mg"
  have ok: "dict_ok ?ms" using assms by (rule manifests_ok)
  {
    assume "\<exists>order. resolve_order mg = Inr order"
    then obtain order where o: "order_manifests ?ms = Inr order" by (auto simp: resolve_order_def)
    note M = order_manifests_linked [OF ok o]
    obtain e where "link_all (keys ?ms) ?ms (map (\<lambda>i. (i, [])) (keys ?ms)) = Inr e" using M(1) by blast
    from linked_graph(5) [OF ok this] order_acyclic [OF M(2)] least_first_before [OF M(4,3)]
    show "(\<forall>(i, m)\<in>set ?ms. set (em_requires m) \<subseteq> set (keys ?ms)) \<and> acyclic {(p, s). precedes ?ms p s}"
      by blast
  next
    assume "(\<forall>(i, m)\<in>set ?ms. set (em_requires m) \<subseteq> set (keys ?ms)) \<and> acyclic {(p, s). precedes ?ms p s}"
    then show "\<exists>order. resolve_order mg = Inr order"
      using acyclic_orders [OF ok] unfolding resolve_order_def by blast
  }
qed

theorem resolve_order_complete_witness:
  "acyclic {(p, s). precedes (manifests (ex_manager False)) p s}"
proof -
  have "dict_ok (mg_definitions (ex_manager False))" by code_simp
  moreover have "resolve_order (ex_manager False) = Inr [''store'', ''auth'', ''log'']" by code_simp
  ultimately show ?thesis using resolve_order_complete by blast
qed

text \<open>C39: opening a scope that fails, because an extension is not remote compatible or its factory
  raises, registers no scope and disposes exactly the instances it had built, in reverse
  order of construction; what was built is an initial part of the extensions the scope
  selects.\<close>

theorem failed_scope_is_disposed:
  assumes "open_scope scope scope_id config services remote mg w = (mg', w', Inl error)"
    and "dict_ok (mg_definitions mg)" and "resolve_order mg = Inr order"
  shows "mg' = mg \<and> (\<exists>c w1 rest. build_instances (mg_definitions mg) config services remote order
      (new_container scope scope_id) w = (c, w1, Some error) \<and>
    sc_order c @ rest = filter (\<lambda>i. \<exists>d. dict_get (mg_definitions mg) i = Some d \<and>
      \<not> skipped scope (ed_manifest d)) order \<and>
    w' = fold (dispose_effect c) (rev (sc_order c)) w1)"
proof -
  obtain c w1 err where b: "build_instances (mg_definitions mg) config services remote order
      (new_container scope scope_id) w = (c, w1, err)" by (metis prod_cases3)
  have o: "distinct order"
    using order_manifests_linked(2) [OF manifests_ok [OF assms(2)]] assms(3)
    by (simp add: resolve_order_def)
  have "container_ok (new_container scope scope_id :: 'a scope_container)"
    by (simp add: container_ok_def new_container_def)
  from build_instances_ok [OF b this o] obtain rest where
    c: "container_ok c" "sc_order c @ rest = filter (\<lambda>i. \<exists>d. dict_get (mg_definitions mg) i = Some d \<and>
      \<not> skipped scope (ed_manifest d)) order"
    by (auto simp: new_container_def)
  have "err = Some error \<and> mg' = mg \<and> w' = snd (dispose_container c w1)"
    using assms(1,3) b by (auto simp: open_scope_def Let_def split: option.splits)
  then show ?thesis
    using b c dispose_container_effect [of c w1] by (auto simp: container_ok_def)
qed

theorem failed_scope_is_disposed_witness:
  "\<exists>mg' w' c w1. open_scope Session_Scope ''s'' (JObj []) (JObj []) False (ex_manager True) [] =
      (mg', w', Inl ''broken'') \<and> w' = [''+store'', ''+auth'', ''-auth'', ''-store''] \<and>
      w' = fold (dispose_effect c) (rev (sc_order c)) w1"
proof -
  let ?run = "open_scope Session_Scope ''s'' (JObj []) (JObj []) False (ex_manager True) []"
  have ok: "dict_ok (mg_definitions (ex_manager True))" by code_simp
  have o: "resolve_order (ex_manager True) = Inr [''store'', ''auth'', ''log'']" by code_simp
  obtain mg' w' res where r: "?run = (mg', w', res)" by (metis prod_cases3)
  have "fst (snd ?run) = [''+store'', ''+auth'', ''-auth'', ''-store'']" by code_simp
  then have w: "w' = [''+store'', ''+auth'', ''-auth'', ''-store'']" unfolding r fst_conv snd_conv .
  have "case snd (snd ?run) of Inl e \<Rightarrow> e = ''broken'' | Inr _ \<Rightarrow> False" by code_simp
  then have "res = Inl ''broken''" unfolding r snd_conv by (cases res) simp_all
  with r have "?run = (mg', w', Inl ''broken'')" by (simp only:)
  with failed_scope_is_disposed [OF this ok o] w show ?thesis by blast
qed

text \<open>a lifecycle transition goes through only if every guard registered at its hook point was
  asked and allowed it.\<close>

theorem lifecycle_needs_every_guard:
  assumes "(lf_registry lf, w) = run_ops hook_step (new_hook_registry, w0) ops"
    and "snd (dispatch point ctx (lf, w))"
  shows "\<exists>ds. list_all2 (decided ctx) (stage_hooks point GUARD (lf_registry lf)) ds \<and>
    (\<forall>d\<in>set ds. gd_allowed d)"
proof -
  have ok: "cache_ok (lf_registry lf, w)"
    unfolding assms(1) by (rule hook_machine.run_inv) (rule cache_ok_new)
  obtain st ds where r: "run_guards point ctx (lf_registry lf, w) = (st, ds)" by (metis surj_pair)
  have "find (\<lambda>d. \<not> gd_allowed d) ds = None"
    using assms(2) r by (auto simp: dispatch_def Let_def split_beta split: option.splits)
  then have "\<forall>d\<in>set ds. gd_allowed d" by (simp add: find_None_iff)
  moreover have "guard_log ctx (stage_hooks point GUARD (lf_registry lf)) ds"
    using run_guards_log [OF ok, of ctx point] r by simp
  ultimately show ?thesis using guard_log_allowed by blast
qed

theorem lifecycle_needs_every_guard_witness:
  "let r = fst (run_ops hook_step (new_hook_registry, [])
         [Register_Hook SESSION_START (ex_guard ''ok'' 1 (Inr (Some (gd_warn ''careful''))))]);
       lf = \<lparr>lf_registry = r, lf_runner_started = False, lf_runner_stopped = False,
         lf_active_session_id = None, lf_saved_session_ids = {}, lf_notifications = []\<rparr>;
       ctx = lifecycle_context Session_Start_Context SESSION_START (Some ''s'') [] []
   in snd (dispatch SESSION_START ctx (lf, [])) \<and>
      (\<exists>ds. list_all2 (decided ctx) (stage_hooks SESSION_START GUARD r) ds \<and> (\<forall>d\<in>set ds. gd_allowed d))"
proof -
  define ops where "ops = [Register_Hook SESSION_START (ex_guard ''ok'' 1 (Inr (Some (gd_warn ''careful''))))]"
  define r where "r = fst (run_ops hook_step (new_hook_registry, []) ops)"
  define lf where "lf = \<lparr>lf_registry = r, lf_runner_started = False, lf_runner_stopped = False,
    lf_active_session_id = None, lf_saved_session_ids = {}, lf_notifications = []\<rparr>"
  define ctx where "ctx = lifecycle_context Session_Start_Context SESSION_START (Some ''s'') [] []"
  have "snd (run_ops hook_step (new_hook_registry, []) ops) = []" unfolding ops_def by code_simp
  then have run: "(lf_registry lf, []) = run_ops hook_step (new_hook_registry, []) ops"
    by (simp add: lf_def r_def prod_eq_iff)
  have ok: "snd (dispatch SESSION_START ctx (lf, []))"
    unfolding lf_def r_def ops_def ctx_def by code_simp
  from lifecycle_needs_every_guard [OF run ok] ok show ?thesis
    unfolding Let_def ops_def [symmetric] r_def [symmetric] lf_def [symmetric] ctx_def [symmetric]
    by (simp add: lf_def)
qed

end
