(* ===== verification/Text_Buffer.thy ===== *)
theory Text_Buffer
  imports Prelude
begin

text \<open>
  Retention and display of process output: the bounded buffer of
  \<^verbatim>\<open>infrastructure/process/buffer.py\<close> and the escaping of
  \<^verbatim>\<open>domain/process_output.py\<close>. Text is a list of Unicode code points, as natural numbers, since
  the buffer counts UTF-8 bytes. The lemmas show that the binary searches find the longest
  suffix and prefix within a byte limit, that the segmented buffer always holds exactly the
  longest suffix of everything appended that fits its limit, that reads return the stream
  from the requested offset, and that displayed text holds no control characters.
\<close>

type_synonym ptext = "nat list"

section \<open>UTF-8 lengths\<close>

text \<open>Bytes of one code point; a surrogate is replaced by a question mark (\<^verbatim>\<open>errors="replace"\<close>).\<close>

definition utf8_len :: "nat \<Rightarrow> nat" where
  "utf8_len c = (if c < 0x80 then 1 else if c < 0x800 then 2
     else if 0xD800 \<le> c \<and> c \<le> 0xDFFF then 1 else if c < 0x10000 then 3 else 4)"

definition byte_len :: "ptext \<Rightarrow> nat" where
  "byte_len t = sum_list (map utf8_len t)"

lemma byte_len_simps [simp]:
  "byte_len [] = 0" "byte_len (c # t) = utf8_len c + byte_len t" "byte_len (s @ t) = byte_len s + byte_len t"
  by (simp_all add: byte_len_def)

lemma utf8_len_pos [simp]: "0 < utf8_len c"
  by (simp add: utf8_len_def)

lemma byte_len_0_iff [simp]: "byte_len t = 0 \<longleftrightarrow> t = []"
  by (cases t) (auto simp: byte_len_def utf8_len_def)

lemma byte_len_drop: "byte_len t = byte_len (take m t) + byte_len (drop m t)"
  by (metis append_take_drop_id byte_len_simps(3))

lemma byte_len_drop_mono: "m \<le> n \<Longrightarrow> byte_len (drop n t) \<le> byte_len (drop m t)"
  using byte_len_drop [of "drop m t" "n - m"] by simp

lemma byte_len_take_mono: "m \<le> n \<Longrightarrow> byte_len (take m t) \<le> byte_len (take n t)"
  using byte_len_drop [of "take n t" m] by (simp add: min_def)

section \<open>Binary searches\<close>

function suffix_search :: "ptext \<Rightarrow> nat \<Rightarrow> nat \<Rightarrow> nat \<Rightarrow> nat" where
  "suffix_search t limit low high =
     (if low < high then
        let middle = (low + high) div 2
        in if byte_len (drop middle t) \<le> limit then suffix_search t limit low middle
           else suffix_search t limit (middle + 1) high
      else low)"
  by pat_completeness auto
termination
  by (relation "measure (\<lambda>(t, limit, low, high). high - low)") auto

declare suffix_search.simps [simp del]

definition suffix_within_bytes :: "ptext \<Rightarrow> int \<Rightarrow> ptext" where
  "suffix_within_bytes t limit =
     (if limit \<le> 0 then []
      else if int (byte_len t) \<le> limit then t
      else drop (suffix_search t (nat limit) 0 (length t)) t)"

function prefix_search :: "ptext \<Rightarrow> nat \<Rightarrow> nat \<Rightarrow> nat \<Rightarrow> nat" where
  "prefix_search t limit low high =
     (if low < high then
        let middle = (low + high + 1) div 2
        in if byte_len (take middle t) \<le> limit then prefix_search t limit middle high
           else prefix_search t limit low (middle - 1)
      else low)"
  by pat_completeness auto
termination
  by (relation "measure (\<lambda>(t, limit, low, high). high - low)") auto

declare prefix_search.simps [simp del]

definition prefix_within_bytes :: "ptext \<Rightarrow> int \<Rightarrow> ptext" where
  "prefix_within_bytes t limit =
     (if limit \<le> 0 then []
      else if int (byte_len t) \<le> limit then t
      else take (prefix_search t (nat limit) 0 (length t)) t)"

text \<open>What the searches look for: the cut after which the text fits, with nothing to gain by cutting
  elsewhere.\<close>

definition least_cut :: "ptext \<Rightarrow> nat \<Rightarrow> nat \<Rightarrow> bool" where
  "least_cut t limit m \<longleftrightarrow> m \<le> length t \<and> byte_len (drop m t) \<le> limit \<and> (\<forall>k<m. limit < byte_len (drop k t))"

definition greatest_cut :: "ptext \<Rightarrow> nat \<Rightarrow> nat \<Rightarrow> bool" where
  "greatest_cut t limit m \<longleftrightarrow> m \<le> length t \<and> byte_len (take m t) \<le> limit \<and>
     (\<forall>k\<le>length t. m < k \<longrightarrow> limit < byte_len (take k t))"

lemma suffix_search_least:
  "low \<le> high \<Longrightarrow> high \<le> length t \<Longrightarrow> byte_len (drop high t) \<le> limit \<Longrightarrow>
   (\<forall>k<low. limit < byte_len (drop k t)) \<Longrightarrow> least_cut t limit (suffix_search t limit low high)"
proof (induction t limit low high rule: suffix_search.induct)
  case (1 t limit low high)
  let ?m = "(low + high) div 2"
  show ?case
  proof (cases "low < high")
    case True
    then have m: "low \<le> ?m" "?m < high" by auto
    show ?thesis
    proof (cases "byte_len (drop ?m t) \<le> limit")
      case fits: True
      then have "least_cut t limit (suffix_search t limit low ?m)"
        using "1.IH"(1) [OF True refl fits] "1.prems" m by simp
      with True fits show ?thesis by (subst suffix_search.simps) (simp add: Let_def)
    next
      case False
      have "limit < byte_len (drop k t)" if "k < ?m + 1" for k
        using that False byte_len_drop_mono [of k ?m t] by simp
      then have "least_cut t limit (suffix_search t limit (?m + 1) high)"
        using "1.IH"(2) [OF True refl False] "1.prems" m by simp
      with True False show ?thesis by (subst suffix_search.simps) (simp add: Let_def)
    qed
  next
    case False
    with "1.prems" show ?thesis by (subst suffix_search.simps) (simp add: least_cut_def)
  qed
qed

lemma prefix_search_greatest:
  "low \<le> high \<Longrightarrow> high \<le> length t \<Longrightarrow> byte_len (take low t) \<le> limit \<Longrightarrow>
   (\<forall>k\<le>length t. high < k \<longrightarrow> limit < byte_len (take k t)) \<Longrightarrow>
   greatest_cut t limit (prefix_search t limit low high)"
proof (induction t limit low high rule: prefix_search.induct)
  case (1 t limit low high)
  let ?m = "(low + high + 1) div 2"
  show ?case
  proof (cases "low < high")
    case True
    then have m: "low < ?m" "?m \<le> high" by auto
    show ?thesis
    proof (cases "byte_len (take ?m t) \<le> limit")
      case fits: True
      then have "greatest_cut t limit (prefix_search t limit ?m high)"
        using "1.IH"(1) [OF True refl fits] "1.prems" m by simp
      with True fits show ?thesis by (subst prefix_search.simps) (simp add: Let_def)
    next
      case False
      have "limit < byte_len (take k t)" if "k \<le> length t" "?m - 1 < k" for k
      proof -
        have "?m \<le> k" using that(2) m(1) by linarith
        with False byte_len_take_mono [of ?m k t] show ?thesis by simp
      qed
      then have "greatest_cut t limit (prefix_search t limit low (?m - 1))"
        using "1.IH"(2) [OF True refl False] "1.prems" m by simp
      with True False show ?thesis by (subst prefix_search.simps) (simp add: Let_def)
    qed
  next
    case False
    with "1.prems" show ?thesis by (subst prefix_search.simps) (simp add: greatest_cut_def)
  qed
qed

lemma suffix_within_cut: "\<exists>m. suffix_within_bytes t limit = drop m t \<and> least_cut t (nat limit) m"
proof -
  consider "limit \<le> 0" | "0 < limit" "int (byte_len t) \<le> limit" | "0 < limit" "limit < int (byte_len t)"
    by linarith
  then show ?thesis
  proof cases
    case 1
    have "0 < byte_len (drop k t)" if "k < length t" for k
      using that by (metis byte_len_0_iff drop_eq_Nil gr0I not_le)
    with 1 have "least_cut t (nat limit) (length t)" by (simp add: least_cut_def)
    moreover have "suffix_within_bytes t limit = drop (length t) t" using 1 by (simp add: suffix_within_bytes_def)
    ultimately show ?thesis by blast
  next
    case 2
    then have "least_cut t (nat limit) 0" by (simp add: least_cut_def)
    moreover have "suffix_within_bytes t limit = drop 0 t" using 2 by (simp add: suffix_within_bytes_def)
    ultimately show ?thesis by blast
  next
    case 3
    then have "least_cut t (nat limit) (suffix_search t (nat limit) 0 (length t))"
      by (intro suffix_search_least) simp_all
    with 3 show ?thesis by (auto simp: suffix_within_bytes_def)
  qed
qed

lemma prefix_within_cut: "\<exists>m. prefix_within_bytes t limit = take m t \<and> greatest_cut t (nat limit) m"
proof -
  consider "limit \<le> 0" | "0 < limit" "int (byte_len t) \<le> limit" | "0 < limit" "limit < int (byte_len t)"
    by linarith
  then show ?thesis
  proof cases
    case 1
    have "0 < byte_len (take k t)" if "0 < k" "k \<le> length t" for k
    proof -
      have "take k t \<noteq> []" using that by auto
      then show ?thesis by (metis byte_len_0_iff gr0I)
    qed
    with 1 have "greatest_cut t (nat limit) 0" by (simp add: greatest_cut_def)
    moreover have "prefix_within_bytes t limit = take 0 t" using 1 by (simp add: prefix_within_bytes_def)
    ultimately show ?thesis by blast
  next
    case 2
    then have "greatest_cut t (nat limit) (length t)" by (simp add: greatest_cut_def)
    moreover have "prefix_within_bytes t limit = take (length t) t" using 2 by (simp add: prefix_within_bytes_def)
    ultimately show ?thesis by blast
  next
    case 3
    then have "greatest_cut t (nat limit) (prefix_search t (nat limit) 0 (length t))"
      by (intro prefix_search_greatest) simp_all
    with 3 show ?thesis by (auto simp: prefix_within_bytes_def)
  qed
qed

lemma least_cut_unique: "least_cut t n a \<Longrightarrow> least_cut t n b \<Longrightarrow> a = b"
  unfolding least_cut_def by (metis leD linorder_neqE_nat)

section \<open>The buffer\<close>

record segment =
  seg_start :: nat
  seg_text :: ptext
  seg_bytes :: nat

definition seg_end :: "segment \<Rightarrow> nat" where
  "seg_end s = seg_start s + length (seg_text s)"

record text_buffer =
  tb_max_bytes :: nat
  tb_segments :: "segment list"
  tb_retained_bytes :: nat
  tb_next_offset :: nat
  tb_total_bytes :: int
  tb_truncated :: bool

record buffer_read =
  br_text :: ptext
  br_next_offset :: nat
  br_truncated :: bool

definition new_buffer :: "int \<Rightarrow> (string, text_buffer) result" where
  "new_buffer max_bytes =
     (if max_bytes < 1 then Inl ''max_bytes must be positive''
      else Inr \<lparr>tb_max_bytes = nat max_bytes, tb_segments = [], tb_retained_bytes = 0,
        tb_next_offset = 0, tb_total_bytes = 0, tb_truncated = False\<rparr>)"

definition retained_start :: "text_buffer \<Rightarrow> nat" where
  "retained_start b = (case tb_segments b of [] \<Rightarrow> tb_next_offset b | s # _ \<Rightarrow> seg_start s)"

text \<open>The eviction loop: whole segments from the front, then a suffix of the first one left. The
  arguments are the segments, the retained bytes and the truncation flag.\<close>

fun enforce_limit :: "nat \<Rightarrow> segment list \<Rightarrow> nat \<Rightarrow> bool \<Rightarrow> segment list \<times> nat \<times> bool" where
  "enforce_limit max_bytes [] retained_bytes truncated = ([], retained_bytes, truncated)"
| "enforce_limit max_bytes (s # ss) retained_bytes truncated =
     (if retained_bytes \<le> max_bytes then (s # ss, retained_bytes, truncated)
      else
        let excess = retained_bytes - max_bytes
        in if seg_bytes s \<le> excess \<and> ss \<noteq> []
           then enforce_limit max_bytes ss (retained_bytes - seg_bytes s) True
           else
             let target_bytes = max 0 (int (seg_bytes s) - int excess);
                 retained = suffix_within_bytes (seg_text s) target_bytes;
                 dropped_chars = length (seg_text s) - length retained;
                 kept_bytes = byte_len retained;
                 s' = \<lparr>seg_start = seg_start s + dropped_chars, seg_text = retained, seg_bytes = kept_bytes\<rparr>
             in (if retained = [] then ss else s' # ss,
                 retained_bytes - (seg_bytes s - kept_bytes), True))"

definition append_text :: "ptext \<Rightarrow> int option \<Rightarrow> text_buffer \<Rightarrow> text_buffer" where
  "append_text t byte_count b =
     (let measured = (case byte_count of None \<Rightarrow> int (byte_len t) | Some n \<Rightarrow> max 0 n);
          b1 = b\<lparr>tb_total_bytes := tb_total_bytes b + measured\<rparr>
      in if t = [] then b1
         else
           let s = \<lparr>seg_start = tb_next_offset b, seg_text = t, seg_bytes = byte_len t\<rparr>;
               (segments, retained_bytes, truncated) =
                 enforce_limit (tb_max_bytes b) (tb_segments b @ [s])
                   (tb_retained_bytes b + byte_len t) (tb_truncated b)
           in b1\<lparr>tb_next_offset := tb_next_offset b + length t, tb_segments := segments,
                 tb_retained_bytes := retained_bytes, tb_truncated := truncated\<rparr>)"

definition read_pieces :: "nat \<Rightarrow> segment list \<Rightarrow> ptext list" where
  "read_pieces start segments =
     map (\<lambda>s. drop (start - seg_start s) (seg_text s)) (filter (\<lambda>s. \<not> seg_end s \<le> start) segments)"

definition read_after :: "int \<Rightarrow> int \<Rightarrow> text_buffer \<Rightarrow> (string, buffer_read) result" where
  "read_after offset max_bytes b =
     (if max_bytes < 1 then Inl ''max_bytes must be positive''
      else
        let first = retained_start b;
            requested = nat (max 0 (min offset (int (tb_next_offset b))));
            start = max requested first;
            complete = concat (read_pieces start (tb_segments b));
            selected = prefix_within_bytes complete max_bytes
        in Inr \<lparr>br_text = selected, br_next_offset = start + length selected,
             br_truncated = (requested < first \<or> length selected < length complete)\<rparr>)"

definition retained_read :: "text_buffer \<Rightarrow> buffer_read" where
  "retained_read b =
     \<lparr>br_text = concat (map seg_text (tb_segments b)), br_next_offset = tb_next_offset b,
      br_truncated = (tb_truncated b \<or> 0 < retained_start b)\<rparr>"

subsection \<open>What the buffer holds\<close>

text \<open>Segments laid end to end from an offset to another, each non-empty with its byte count.\<close>

fun chained :: "nat \<Rightarrow> segment list \<Rightarrow> nat \<Rightarrow> bool" where
  "chained i [] j \<longleftrightarrow> i = j"
| "chained i (s # ss) j \<longleftrightarrow> seg_start s = i \<and> seg_text s \<noteq> [] \<and> seg_bytes s = byte_len (seg_text s) \<and>
     chained (i + length (seg_text s)) ss j"

definition seg_content :: "segment list \<Rightarrow> ptext" where
  "seg_content ss = concat (map seg_text ss)"

lemma seg_content_simps [simp]:
  "seg_content [] = []" "seg_content (s # ss) = seg_text s @ seg_content ss"
  "seg_content (ss @ ts) = seg_content ss @ seg_content ts"
  by (simp_all add: seg_content_def)

lemma chained_snoc:
  "chained i ss j \<Longrightarrow> t \<noteq> [] \<Longrightarrow>
   chained i (ss @ [\<lparr>seg_start = j, seg_text = t, seg_bytes = byte_len t\<rparr>]) (j + length t)"
  by (induction i ss j rule: chained.induct) auto

lemma chained_length: "chained i ss j \<Longrightarrow> j = i + length (seg_content ss)"
  by (induction i ss j rule: chained.induct) auto

text \<open>Evicting keeps the longest suffix of the content that fits.\<close>

lemma least_cut_append:
  assumes "least_cut s target m" "limit = target + byte_len rest"
  shows "least_cut (s @ rest) limit m"
  using assms unfolding least_cut_def by auto

lemma least_cut_shift:
  assumes "least_cut rest limit m" "limit \<le> byte_len rest"
  shows "least_cut (s @ rest) limit (length s + m)"
proof -
  have "limit < byte_len (drop k (s @ rest))" if "k < length s + m" for k
  proof (cases "k < length s")
    case True
    then have "drop k s \<noteq> []" by simp
    then have "0 < byte_len (drop k s)" by (metis byte_len_0_iff gr0I)
    with assms(2) True show ?thesis by simp
  next
    case False
    with that have "k - length s < m" by simp
    with False assms(1) show ?thesis by (simp add: least_cut_def)
  qed
  with assms(1) show ?thesis by (simp add: least_cut_def)
qed

lemma least_cut_extend:
  assumes "least_cut u limit i" "least_cut (drop i (u @ t)) limit m"
  shows "least_cut (u @ t) limit (i + m)"
proof -
  have "limit < byte_len (drop k (u @ t))" if "k < i + m" for k
  proof (cases "k < i")
    case True
    then have "limit < byte_len (drop k u)" using assms(1) by (simp add: least_cut_def)
    then show ?thesis by simp
  next
    case False
    then have eq: "drop k (u @ t) = drop (k - i) (drop i (u @ t))"
      by (metis drop_drop le_add_diff_inverse2 not_less)
    have "k - i < m" using False that by simp
    then have "limit < byte_len (drop (k - i) (drop i (u @ t)))"
      using assms(2) unfolding least_cut_def by blast
    then show ?thesis unfolding eq .
  qed
  moreover have "i \<le> length (u @ t)" using assms(1) by (simp add: least_cut_def)
  ultimately show ?thesis
    using assms(2) by (auto simp: least_cut_def drop_drop add.commute simp del: drop_append)
qed

lemma trim_segment:
  assumes s: "seg_bytes s = byte_len (seg_text s)" and rb: "rb = byte_len (seg_text s) + byte_len rest"
    and over: "mx < rb" and rest: "byte_len rest \<le> mx"
    and ret: "ret = suffix_within_bytes (seg_text s) (max 0 (int (seg_bytes s) - int (rb - mx)))"
  shows "\<exists>m>0. ret = drop m (seg_text s) \<and> m \<le> length (seg_text s) \<and> least_cut (seg_text s @ rest) mx m \<and>
    rb - (seg_bytes s - byte_len ret) = byte_len ret + byte_len rest"
proof -
  have tgt: "nat (max 0 (int (seg_bytes s) - int (rb - mx))) = mx - byte_len rest"
    using s rb over rest by simp
  from suffix_within_cut [of "seg_text s" "max 0 (int (seg_bytes s) - int (rb - mx))"]
  obtain m where m: "ret = drop m (seg_text s)" "least_cut (seg_text s) (mx - byte_len rest) m"
    unfolding ret tgt by blast
  have cut: "least_cut (seg_text s @ rest) mx m"
    by (rule least_cut_append [OF m(2)]) (use rest in simp)
  have "0 < m"
  proof (rule ccontr)
    assume "\<not> 0 < m"
    with m(2) rb over rest show False by (simp add: least_cut_def)
  qed
  moreover have "byte_len ret \<le> byte_len (seg_text s)"
    using byte_len_drop_mono [of 0 m "seg_text s"] m(1) by simp
  ultimately show ?thesis
    using m cut s rb by (intro exI [of _ m]) (auto simp: least_cut_def)
qed

lemma enforce_limit_keeps_suffix:
  assumes "chained i ss j" "rb = byte_len (seg_content ss)"
    "enforce_limit mx ss rb tr = (ss', rb', tr')"
  shows "\<exists>m. chained (i + m) ss' j \<and> seg_content ss' = drop m (seg_content ss) \<and>
    rb' = byte_len (seg_content ss') \<and> least_cut (seg_content ss) mx m \<and> tr' = (tr \<or> 0 < m)"
  using assms
proof (induction mx ss rb tr arbitrary: i rule: enforce_limit.induct)
  case (1 mx rb tr)
  then show ?case by (auto simp: least_cut_def)
next
  case (2 mx s ss rb tr)
  let ?t = "seg_text s" and ?rest = "seg_content ss"
  have s: "seg_start s = i" "?t \<noteq> []" "seg_bytes s = byte_len ?t" "chained (i + length ?t) ss j"
    and rb: "rb = byte_len ?t + byte_len ?rest"
    using "2.prems" by simp_all
  consider "rb \<le> mx" | "mx < rb" "seg_bytes s \<le> rb - mx" "ss \<noteq> []"
    | "mx < rb" "\<not> (seg_bytes s \<le> rb - mx \<and> ss \<noteq> [])" by linarith
  then show ?case
  proof cases
    case 1
    then show ?thesis using "2.prems" s rb by (intro exI [of _ 0]) (auto simp: least_cut_def)
  next
    case 2
    have e: "enforce_limit mx ss (rb - seg_bytes s) True = (ss', rb', tr')"
      using "2.prems"(3) 2 by (simp add: Let_def)
    have "rb - seg_bytes s = byte_len ?rest" using rb s(3) by simp
    with "2.IH" [OF _ refl _ s(4) _ e] 2 obtain m where
      m: "chained (i + length ?t + m) ss' j" "seg_content ss' = drop m ?rest"
        "rb' = byte_len (seg_content ss')" "least_cut ?rest mx m" "tr'"
      by auto
    have "mx \<le> byte_len ?rest" using 2 rb s(3) by simp
    with least_cut_shift [OF m(4)] m s(2) show ?thesis
      by (intro exI [of _ "length ?t + m"]) (simp add: add.assoc)
  next
    case 3
    define ret where "ret = suffix_within_bytes ?t (max 0 (int (seg_bytes s) - int (rb - mx)))"
    have rest: "byte_len ?rest \<le> mx" using 3 rb s(3) by (cases "ss = []") auto
    from trim_segment [OF s(3) rb 3(1) rest ret_def] obtain m where
      m: "0 < m" "ret = drop m ?t" "m \<le> length ?t" "least_cut (?t @ ?rest) mx m"
        "rb - (seg_bytes s - byte_len ret) = byte_len ret + byte_len ?rest"
      by blast
    have out: "ss' = (if ret = [] then ss else
        \<lparr>seg_start = seg_start s + (length ?t - length ret), seg_text = ret, seg_bytes = byte_len ret\<rparr> # ss)"
      "rb' = rb - (seg_bytes s - byte_len ret)" "tr'"
      using "2.prems"(3) 3 unfolding ret_def by (auto simp: Let_def)
    have l: "length ?t - length ret = m" "ret = [] \<Longrightarrow> m = length ?t" using m(2,3) by auto
    have "chained (i + m) ss' j"
    proof (cases "ret = []")
      case True
      with l s(4) out show ?thesis by simp
    next
      case False
      have "i + m + length ret = i + length ?t" using m(2,3) by simp
      then have "chained (i + m + length ret) ss j" using s(4) by (simp only:)
      with False l s(1) out show ?thesis by simp
    qed
    moreover have "seg_content ss' = drop m (?t @ ?rest)"
      using m(2,3) out by simp
    ultimately show ?thesis
      using m out by (intro exI [of _ m]) simp
  qed
qed

text \<open>The buffer after the whole stream was appended.\<close>

definition holds :: "ptext \<Rightarrow> text_buffer \<Rightarrow> bool" where
  "holds stream b \<longleftrightarrow> tb_next_offset b = length stream \<and>
     chained (retained_start b) (tb_segments b) (tb_next_offset b) \<and>
     seg_content (tb_segments b) = drop (retained_start b) stream \<and>
     tb_retained_bytes b = byte_len (seg_content (tb_segments b)) \<and>
     least_cut stream (tb_max_bytes b) (retained_start b) \<and>
     tb_truncated b = (0 < retained_start b)"

lemma chained_start: "chained i ss j \<Longrightarrow> tb_segments b = ss \<Longrightarrow> tb_next_offset b = j \<Longrightarrow> retained_start b = i"
  by (cases ss) (simp_all add: retained_start_def)

lemma holds_new: "new_buffer mx = Inr b \<Longrightarrow> holds [] b"
  by (auto simp: new_buffer_def holds_def retained_start_def least_cut_def split: if_splits)

lemma append_text_max [simp]: "tb_max_bytes (append_text t n b) = tb_max_bytes b"
  by (auto simp: append_text_def Let_def split: prod.splits)

lemma holds_append:
  assumes "holds stream b"
  shows "holds (stream @ t) (append_text t n b)"
proof (cases "t = []")
  case True
  then have b: "append_text t n b = b\<lparr>tb_total_bytes := tb_total_bytes (append_text t n b)\<rparr>"
    by (simp add: append_text_def)
  have "retained_start (b\<lparr>tb_total_bytes := k\<rparr>) = retained_start b" for k
    by (simp add: retained_start_def split: list.split)
  with True assms show ?thesis by (subst b) (auto simp: holds_def)
next
  case False
  let ?i = "retained_start b"
  let ?ss = "tb_segments b @ [\<lparr>seg_start = tb_next_offset b, seg_text = t, seg_bytes = byte_len t\<rparr>]"
  obtain ss' rb' tr' where e: "enforce_limit (tb_max_bytes b) ?ss
      (tb_retained_bytes b + byte_len t) (tb_truncated b) = (ss', rb', tr')"
    by (metis prod_cases3)
  have i: "?i \<le> length stream" using assms by (simp add: holds_def least_cut_def)
  have c: "seg_content ?ss = drop ?i (stream @ t)" using assms i by (simp add: holds_def)
  have "chained ?i ?ss (tb_next_offset b + length t)"
    using assms False unfolding holds_def by (intro chained_snoc) blast+
  from enforce_limit_keeps_suffix [OF this _ e] assms obtain m where
    m: "chained (?i + m) ss' (tb_next_offset b + length t)" "seg_content ss' = drop m (seg_content ?ss)"
      "rb' = byte_len (seg_content ss')" "least_cut (seg_content ?ss) (tb_max_bytes b) m"
      "tr' = (tb_truncated b \<or> 0 < m)"
    by (auto simp: holds_def)
  let ?b = "append_text t n b"
  have f: "tb_segments ?b = ss'" "tb_retained_bytes ?b = rb'" "tb_truncated ?b = tr'"
    "tb_next_offset ?b = tb_next_offset b + length t"
    using False e by (simp_all add: append_text_def Let_def)
  have start: "retained_start ?b = ?i + m" using chained_start [OF m(1) f(1,4)] .
  moreover have "least_cut (stream @ t) (tb_max_bytes b) (?i + m)"
    using assms m(4) unfolding c holds_def by (blast intro: least_cut_extend)
  moreover have "seg_content ss' = drop (?i + m) (stream @ t)"
    using m(2) unfolding c drop_drop by (simp add: add.commute)
  ultimately show ?thesis
    using assms m f unfolding holds_def by simp
qed

lemma holds_fold:
  "holds stream b \<Longrightarrow> holds (stream @ concat (map fst xs)) (fold (\<lambda>(t, n). append_text t n) xs b)"
proof (induction xs arbitrary: stream b)
  case (Cons x xs)
  obtain t n where x: "x = (t, n)" by force
  have "holds (stream @ t) (append_text t n b)" using Cons.prems by (rule holds_append)
  from Cons.IH [OF this] x show ?case by simp
qed simp

lemma fold_append_max: "tb_max_bytes (fold (\<lambda>(t, n). append_text t n) xs b) = tb_max_bytes b"
  by (induction xs arbitrary: b) auto

lemma chained_ge: "chained i ss j \<Longrightarrow> x \<in> set ss \<Longrightarrow> i \<le> seg_start x \<and> seg_text x \<noteq> []"
  by (induction i ss j rule: chained.induct) auto

text \<open>Reading: the pieces of the segments from an offset are the rest of the content.\<close>

lemma read_pieces_content:
  "chained i ss j \<Longrightarrow> i \<le> start \<Longrightarrow> concat (read_pieces start ss) = drop (start - i) (seg_content ss)"
proof (induction i ss j arbitrary: start rule: chained.induct)
  case (1 i j)
  then show ?case by (simp add: read_pieces_def)
next
  case (2 i s ss j)
  let ?n = "length (seg_text s)"
  have c: "chained (i + ?n) ss j" and s: "seg_start s = i" using "2.prems" by simp_all
  show ?case
  proof (cases "i + ?n \<le> start")
    case True
    then have "concat (read_pieces start (s # ss)) = concat (read_pieces start ss)"
      using s by (simp add: read_pieces_def seg_end_def)
    also have "\<dots> = drop (start - (i + ?n)) (seg_content ss)"
      using "2.IH" [OF c True] .
    finally show ?thesis using True by (simp add: drop_append)
  next
    case False
    have tail: "read_pieces start ss = read_pieces (i + ?n) ss"
    proof -
      have ge: "i + ?n \<le> seg_start x \<and> 0 < length (seg_text x)" if "x \<in> set ss" for x
        using chained_ge [OF c that] by simp
      have "\<not> seg_end x \<le> k \<and> k - seg_start x = 0" if "x \<in> set ss" "k \<le> i + ?n" for x k
        using ge [OF that(1)] that(2) by (cases "seg_text x") (auto simp: seg_end_def)
      then have "read_pieces k ss = map seg_text ss" if "k \<le> i + ?n" for k
        using that by (simp add: read_pieces_def filter_id_conv [THEN iffD2] cong: map_cong)
      with False show ?thesis by simp
    qed
    have "concat (read_pieces (i + ?n) ss) = seg_content ss"
      using "2.IH" [OF c, of "i + ?n"] by simp
    with tail False s show ?thesis by (simp add: read_pieces_def seg_end_def)
  qed
qed

section \<open>Displaying untrusted output\<close>

definition is_control :: "nat \<Rightarrow> bool" where
  "is_control c \<longleftrightarrow> c < 32 \<or> c = 127 \<or> (0x80 \<le> c \<and> c \<le> 0x9F)"

definition hex_digit :: "nat \<Rightarrow> nat" where
  "hex_digit n = (if n < 10 then 48 + n else 87 + n)"

text \<open>Lower-case hexadecimal digits, padded with zeros to a width.\<close>

fun hex_padded :: "nat \<Rightarrow> nat \<Rightarrow> ptext" where
  "hex_padded 0 n = []"
| "hex_padded (Suc w) n = hex_padded w (n div 16) @ [hex_digit (n mod 16)]"

definition escape_control :: "nat \<Rightarrow> ptext" where
  "escape_control c =
     (if c = 13 then [92, 114]
      else if c \<le> 0xFF then [92, 120] @ hex_padded 2 c
      else [92, 117] @ hex_padded 4 c)"

fun escape_terminal_controls :: "ptext \<Rightarrow> ptext \<times> bool" where
  "escape_terminal_controls [] = ([], False)"
| "escape_terminal_controls (c # t) =
     (case escape_terminal_controls t of (rest, filtered) \<Rightarrow>
        if c = 10 \<or> c = 9 then (c # rest, filtered)
        else if is_control c then (escape_control c @ rest, True)
        else (c # rest, filtered))"

definition display_notice :: ptext where
  "display_notice = map of_char (CHR 0x0A # ''[terminal control bytes escaped for display]'' @ [CHR 0x0A])"

definition terminal_safe_display :: "ptext \<Rightarrow> ptext" where
  "terminal_safe_display t =
     (case escape_terminal_controls t of
        (safe, filtered) \<Rightarrow> if \<not> filtered then safe else safe @ display_notice)"

definition displayable :: "nat \<Rightarrow> bool" where
  "displayable c \<longleftrightarrow> c = 10 \<or> c = 9 \<or> \<not> is_control c"

lemma hex_displayable: "c \<in> set (hex_padded w n) \<Longrightarrow> displayable c"
  by (induction w n rule: hex_padded.induct)
    (auto simp: displayable_def is_control_def hex_digit_def split: if_splits)

lemma escape_control_displayable: "x \<in> set (escape_control c) \<Longrightarrow> displayable x"
  by (auto simp: escape_control_def displayable_def is_control_def dest!: hex_displayable
      split: if_splits)

lemma escape_displayable: "x \<in> set (fst (escape_terminal_controls t)) \<Longrightarrow> displayable x"
  by (induction t) (auto simp: split_beta displayable_def dest: escape_control_displayable split: if_splits)

lemma escape_unfiltered: "\<not> snd (escape_terminal_controls t) \<Longrightarrow> fst (escape_terminal_controls t) = t"
  by (induction t) (auto simp: split_beta split: if_splits)

lemma escape_filtered_iff: "snd (escape_terminal_controls t) \<longleftrightarrow> (\<exists>c\<in>set t. \<not> displayable c)"
  by (induction t) (auto simp: split_beta displayable_def)

lemma notice_displayable: "x \<in> set display_notice \<Longrightarrow> displayable x"
  by (auto simp: display_notice_def displayable_def is_control_def)

section \<open>Properties\<close>

definition ex_appends :: "(ptext \<times> int option) list" where
  "ex_appends = [([97, 98], None), ([0x4E2D], Some 3), ([99, 100], None)]"

text \<open>C13: whatever is appended to a process buffer, in whatever pieces, the buffer holds exactly the
  longest suffix of the whole stream that fits its byte limit, as the reference function on
  the full text computes it, and it reports truncation exactly when something was dropped.\<close>

theorem buffer_retains_longest_suffix:
  assumes "new_buffer mx = Inr b0"
    and "b = fold (\<lambda>(t, n). append_text t n) xs b0" and "stream = concat (map fst xs)"
  shows "br_text (retained_read b) = suffix_within_bytes stream mx \<and>
    int (byte_len (br_text (retained_read b))) \<le> mx \<and>
    tb_retained_bytes b = byte_len (br_text (retained_read b)) \<and>
    br_truncated (retained_read b) = (mx < int (byte_len stream))"
proof -
  have h: "holds stream b"
    using holds_fold [OF holds_new [OF assms(1)], of xs] assms(2,3) by simp
  have mx: "tb_max_bytes b = nat mx" "1 \<le> mx"
    using assms(1) unfolding assms(2) fold_append_max by (auto simp: new_buffer_def split: if_splits)
  have cut: "least_cut stream (nat mx) (retained_start b)" using h mx by (simp add: holds_def)
  obtain m where m: "suffix_within_bytes stream mx = drop m stream" "least_cut stream (nat mx) m"
    using suffix_within_cut by blast
  have tx: "br_text (retained_read b) = drop (retained_start b) stream"
    using h by (simp add: retained_read_def holds_def seg_content_def)
  have "0 < retained_start b \<longleftrightarrow> mx < int (byte_len stream)"
  proof
    assume "0 < retained_start b"
    with cut have "nat mx < byte_len (drop 0 stream)" unfolding least_cut_def by blast
    then show "mx < int (byte_len stream)" by simp
  next
    assume "mx < int (byte_len stream)"
    with cut mx(2) show "0 < retained_start b" by (cases "retained_start b") (simp_all add: least_cut_def)
  qed
  then show ?thesis
    using tx m least_cut_unique [OF cut m(2)] cut h mx(2)
    by (auto simp: holds_def retained_read_def seg_content_def least_cut_def)
qed

theorem buffer_retains_longest_suffix_witness:
  "let b = fold (\<lambda>(t, n). append_text t n) ex_appends (projr (new_buffer 5))
   in br_text (retained_read b) = [0x4E2D, 99, 100] \<and> br_truncated (retained_read b)"
proof -
  obtain b0 where b0: "new_buffer 5 = Inr b0" by (simp add: new_buffer_def)
  have st: "concat (map fst ex_appends) = [97, 98, 0x4E2D, 99, 100]" by (simp add: ex_appends_def)
  have s: "suffix_within_bytes [97, 98, 0x4E2D, 99, 100] 5 = [0x4E2D, 99, 100]"
    by (simp add: suffix_within_bytes_def suffix_search.simps utf8_len_def Let_def)
  have l: "(5 < int (byte_len [97, 98, 0x4E2D, 99, 100])) = True" by (simp add: utf8_len_def)
  from buffer_retains_longest_suffix [OF b0 refl refl, of ex_appends]
  show ?thesis unfolding st s l b0 sum.sel Let_def by blast
qed

text \<open>reading a process buffer from an offset returns the stream itself: it starts at the offset,
  or where the retained text starts if that is later, takes as many characters as fit the
  requested bytes, and the offset it returns is where the next read goes on.\<close>

theorem read_after_returns_the_stream:
  assumes "new_buffer mx = Inr b0"
    and "b = fold (\<lambda>(t, n). append_text t n) xs b0" and "stream = concat (map fst xs)"
    and "0 \<le> offset" "offset \<le> int (length stream)" and "1 \<le> limit"
    and "start = max (nat offset) (retained_start b)"
  shows "\<exists>res. read_after offset limit b = Inr res \<and>
    br_text res = prefix_within_bytes (drop start stream) limit \<and>
    br_next_offset res = start + length (br_text res) \<and>
    br_text res = take (br_next_offset res - start) (drop start stream) \<and>
    (\<not> br_truncated res \<longrightarrow> br_text res = drop (nat offset) stream)"
proof -
  have h: "holds stream b"
    using holds_fold [OF holds_new [OF assms(1)], of xs] assms(2,3) by simp
  have nx: "tb_next_offset b = length stream" using h by (simp add: holds_def)
  have req: "nat (max 0 (min offset (int (tb_next_offset b)))) = nat offset"
    using assms(4,5) nx by simp
  have "concat (read_pieces start (tb_segments b)) =
      drop (start - retained_start b) (seg_content (tb_segments b))"
    using h assms(7) by (intro read_pieces_content) (auto simp: holds_def)
  also have "\<dots> = drop start stream" using h assms(7) by (simp add: holds_def drop_drop)
  finally have rd: "concat (read_pieces start (tb_segments b)) = drop start stream" .
  obtain m where m: "prefix_within_bytes (drop start stream) limit = take m (drop start stream)"
    using prefix_within_cut by blast
  have "read_after offset limit b = Inr
      \<lparr>br_text = take m (drop start stream), br_next_offset = start + length (take m (drop start stream)),
       br_truncated = (nat offset < retained_start b \<or>
         length (take m (drop start stream)) < length (drop start stream))\<rparr>"
    using assms(6) by (simp add: read_after_def Let_def req assms(7) [symmetric] rd m)
  then show ?thesis
    using m assms(7) by (auto simp: max_def min_def not_less)
qed

theorem read_after_returns_the_stream_witness:
  "\<exists>res. read_after 3 2 (fold (\<lambda>(t, n). append_text t n) ex_appends (projr (new_buffer 5))) = Inr res \<and>
     br_text res = [99, 100] \<and> br_next_offset res = 5"
proof -
  obtain b0 where b0: "new_buffer 5 = Inr b0" by (simp add: new_buffer_def)
  have st: "concat (map fst ex_appends) = [97, 98, 0x4E2D, 99, 100]" by (simp add: ex_appends_def)
  have "max (nat 3) (retained_start (fold (\<lambda>(t, n). append_text t n) ex_appends (projr (new_buffer 5)))) = 3"
    by (simp add: ex_appends_def new_buffer_def append_text_def suffix_within_bytes_def suffix_search.simps
        utf8_len_def retained_start_def Let_def)
  then have start: "3 = max (nat 3) (retained_start (fold (\<lambda>(t, n). append_text t n) ex_appends b0))"
    unfolding b0 sum.sel by (rule sym)
  have s: "prefix_within_bytes (drop 3 [97, 98, 0x4E2D, 99, 100]) 2 = [99, 100]" by (simp add: prefix_within_bytes_def utf8_len_def)
  have len: "(3 :: int) \<le> int (length (concat (map fst ex_appends)))" unfolding st by simp
  have lo: "(0 :: int) \<le> 3" and one: "(1 :: int) \<le> 2" by simp_all
  obtain res where r: "read_after 3 2 (fold (\<lambda>(t, n). append_text t n) ex_appends b0) = Inr res"
      and t: "br_text res = prefix_within_bytes (drop 3 (concat (map fst ex_appends))) 2"
      and n: "br_next_offset res = 3 + length (br_text res)"
    using read_after_returns_the_stream [OF b0 refl refl lo len one start] by blast
  have tx: "br_text res = [99, 100]" using t unfolding st s .
  have "br_next_offset res = 5" unfolding n tx by simp
  with r tx show ?thesis unfolding b0 sum.sel by blast
qed

text \<open>text shown on a terminal contains no control characters besides newlines and tabs, text
  without any is shown unchanged, and escaping is disclosed exactly when something was
  escaped.\<close>

theorem terminal_display_is_safe:
  "list_all displayable (terminal_safe_display t) \<and>
   (list_all displayable t \<longrightarrow> terminal_safe_display t = t) \<and>
   (\<not> list_all displayable t \<longrightarrow>
      terminal_safe_display t = fst (escape_terminal_controls t) @ display_notice)"
  using escape_displayable [of _ t] escape_unfiltered [of t] escape_filtered_iff [of t] notice_displayable
  by (auto simp: terminal_safe_display_def split_beta list_all_iff)

theorem terminal_display_is_safe_witness:
  "fst (escape_terminal_controls [27, 91, 72, 10]) = [92, 120, 49, 98, 91, 72, 10] \<and>
   list_all displayable (terminal_safe_display [27, 91, 72, 10])"
proof -
  have "fst (escape_terminal_controls [27, 91, 72, 10]) = [92, 120, 49, 98, 91, 72, 10]" by code_simp
  then show ?thesis using terminal_display_is_safe [of "[27, 91, 72, 10]"] by blast
qed

end
