(* ===== verification/Workspace_Text.thy ===== *)
theory Workspace_Text
  imports Text_Buffer
begin

text \<open>
  Text as the workspace reads and writes it: the UTF-8 codec behind
  \<^verbatim>\<open>snapshot_text\<close> and \<^verbatim>\<open>write_text_verified\<close>
  (\<^verbatim>\<open>infrastructure/workspace/local.py\<close>), Python's \<^verbatim>\<open>str.splitlines\<close> and \<^verbatim>\<open>str.count\<close>, and the
  bounded page reader of \<^verbatim>\<open>infrastructure/workspace/text.py\<close>. The lemmas show that decoding
  inverts encoding, that joining and splitting lines are inverse on texts with one newline
  convention, and that a page read in arbitrary chunks is the requested slice of the lines
  of the whole text, cut at the character limit.
\<close>

section \<open>UTF-8\<close>

text \<open>Strict encoding fails on a surrogate (\<^verbatim>\<open>UnicodeEncodeError\<close>); decoding replaces each
  maximal ill-formed part by U+FFFD (\<^verbatim>\<open>errors="replace"\<close>).\<close>

definition is_surrogate :: "nat \<Rightarrow> bool" where
  "is_surrogate c = (0xD800 \<le> c \<and> c \<le> 0xDFFF)"

definition encode_char :: "nat \<Rightarrow> nat list" where
  "encode_char c =
     (if c < 0x80 then [c]
      else if c < 0x800 then [0xC0 + c div 64, 0x80 + c mod 64]
      else if c < 0x10000 then [0xE0 + c div 4096, 0x80 + c div 64 mod 64, 0x80 + c mod 64]
      else [0xF0 + c div 262144, 0x80 + c div 4096 mod 64, 0x80 + c div 64 mod 64, 0x80 + c mod 64])"

fun utf8_encode :: "ptext \<Rightarrow> nat list option" where
  "utf8_encode [] = Some []"
| "utf8_encode (c # t) =
     (if is_surrogate c then None
      else map_option (\<lambda>bs. encode_char c @ bs) (utf8_encode t))"

definition continuation :: "nat \<Rightarrow> bool" where
  "continuation b = (0x80 \<le> b \<and> b \<le> 0xBF)"

text \<open>The second byte of a three- or four-byte sequence: no overlong form, no surrogate, nothing
  beyond U+10FFFF.\<close>

definition second_ok :: "nat \<Rightarrow> nat \<Rightarrow> bool" where
  "second_ok a b =
     (if a = 0xE0 then 0xA0 \<le> b \<and> b \<le> 0xBF
      else if a = 0xED then 0x80 \<le> b \<and> b \<le> 0x9F
      else if a = 0xF0 then 0x90 \<le> b \<and> b \<le> 0xBF
      else if a = 0xF4 then 0x80 \<le> b \<and> b \<le> 0x8F
      else continuation b)"

definition replacement :: nat where "replacement = 0xFFFD"

fun utf8_decode :: "nat list \<Rightarrow> ptext" where
  "utf8_decode [] = []"
| "utf8_decode (a # bs) =
     (if a < 0x80 then a # utf8_decode bs
      else if 0xC2 \<le> a \<and> a \<le> 0xDF then
        (case bs of
           [] \<Rightarrow> [replacement]
         | b # bs1 \<Rightarrow>
             if continuation b then (a mod 32 * 64 + b mod 64) # utf8_decode bs1
             else replacement # utf8_decode bs)
      else if 0xE0 \<le> a \<and> a \<le> 0xEF then
        (case bs of
           [] \<Rightarrow> [replacement]
         | b # bs1 \<Rightarrow>
             if \<not> second_ok a b then replacement # utf8_decode bs
             else (case bs1 of
                [] \<Rightarrow> [replacement]
              | c # bs2 \<Rightarrow>
                  if continuation c
                  then (a mod 16 * 4096 + b mod 64 * 64 + c mod 64) # utf8_decode bs2
                  else replacement # utf8_decode bs1))
      else if 0xF0 \<le> a \<and> a \<le> 0xF4 then
        (case bs of
           [] \<Rightarrow> [replacement]
         | b # bs1 \<Rightarrow>
             if \<not> second_ok a b then replacement # utf8_decode bs
             else (case bs1 of
                [] \<Rightarrow> [replacement]
              | c # bs2 \<Rightarrow>
                  if \<not> continuation c then replacement # utf8_decode bs1
                  else (case bs2 of
                     [] \<Rightarrow> [replacement]
                   | d # bs3 \<Rightarrow>
                       if continuation d
                       then (a mod 8 * 262144 + b mod 64 * 4096 + c mod 64 * 64 + d mod 64)
                              # utf8_decode bs3
                       else replacement # utf8_decode bs2)))
      else replacement # utf8_decode bs)"

text \<open>Code points as Python strings hold them.\<close>

definition unicode :: "ptext \<Rightarrow> bool" where
  "unicode t = (\<forall>c\<in>set t. c \<le> 0x10FFFF)"

lemma byte_mods [simp]:
  "(128 + x) mod 64 = x mod (64::nat)"
  "x < 32 \<Longrightarrow> (192 + x) mod 32 = (x::nat)"
  "x < 16 \<Longrightarrow> (224 + x) mod 16 = (x::nat)"
  "x < 8 \<Longrightarrow> (240 + x) mod 8 = (x::nat)"
  using mod_mult_self1 [of x 2 64] mod_mult_self1 [of x 6 32] mod_mult_self1 [of x 14 16]
    mod_mult_self1 [of x 30 8]
  by (simp_all add: add.commute)

lemma second_okI:
  assumes "l < 64" "h \<noteq> 0 \<or> 32 \<le> l" "h \<noteq> 13 \<or> l < 32"
  shows "h < 16 \<Longrightarrow> second_ok (224 + h) (128 + l)"
  using assms unfolding second_ok_def continuation_def by auto

lemma second_okI4:
  assumes "l < 64" "h \<noteq> 0 \<or> 16 \<le> l" "h \<noteq> 4 \<or> l < 16"
  shows "h < 5 \<Longrightarrow> second_ok (240 + h) (128 + l)"
  using assms unfolding second_ok_def continuation_def by auto

lemma continuation_mod [simp]: "continuation (128 + x mod 64)"
proof -
  have "x mod 64 < 64" by simp
  then show ?thesis unfolding continuation_def by linarith
qed

text \<open>The six-bit digits of a code point.\<close>

lemma digits:
  "c div 4096 = c div 64 div (64::nat)" "c div 262144 = c div 64 div 64 div (64::nat)"
  by (simp_all flip: div_mult2_eq)

lemma digits_value:
  "q div 64 * 4096 + q mod 64 * 64 + r = q * 64 + (r::nat)"
  "q div 64 div 64 * 262144 + q div 64 mod 64 * 4096 + q mod 64 * 64 + r = q * 64 + r"
  using div_mult_mod_eq [of q 64] div_mult_mod_eq [of "q div 64" 64] by linarith+

lemma decode_encode_char:
  assumes "c \<le> 0x10FFFF" "\<not> is_surrogate c"
  shows "utf8_decode (encode_char c @ bs) = c # utf8_decode bs"
proof -
  define q where "q = c div 64"
  have c: "q * 64 + c mod 64 = c" unfolding q_def by simp
  have sur: "q < 864 \<or> 896 \<le> q" using assms(2) unfolding q_def is_surrogate_def by auto
  consider "c < 0x80" | "0x80 \<le> c" "c < 0x800" | "0x800 \<le> c" "c < 0x10000" | "0x10000 \<le> c"
    by linarith
  then show ?thesis
  proof cases
    case 1
    then show ?thesis by (simp add: encode_char_def)
  next
    case 2
    then have d: "2 \<le> q" "q < 32" unfolding q_def by linarith+
    with 2 c show ?thesis by (simp add: encode_char_def flip: q_def)
  next
    case 3
    then have q: "32 \<le> q" "q < 1024" unfolding q_def by linarith+
    then have d: "q div 64 < 16" by linarith
    have h: "q = q div 64 * 64 + q mod 64" "q mod 64 < 64" by simp_all
    have s: "second_ok (224 + q div 64) (128 + q mod 64)"
      by (rule second_okI) (use h q sur d in linarith)+
    from 3 d s c show ?thesis by (simp add: encode_char_def digits digits_value flip: q_def)
  next
    case 4
    then have q: "1024 \<le> q" "q \<le> 17407" using assms(1) unfolding q_def by linarith+
    define p where "p = q div 64"
    have p: "16 \<le> p" "p < 272" using q unfolding p_def by linarith+
    then have d: "p div 64 < 5" by linarith
    have h: "p = p div 64 * 64 + p mod 64" "p mod 64 < 64" by simp_all
    have s: "second_ok (240 + p div 64) (128 + p mod 64)"
      by (rule second_okI4) (use h p d in linarith)+
    from 4 d s c show ?thesis
      by (simp add: encode_char_def digits digits_value flip: q_def p_def)
        (simp add: p_def digits_value)
  qed
qed

declare utf8_decode.simps [simp del]

lemma utf8_decode_Nil [simp]: "utf8_decode [] = []"
  by (simp add: utf8_decode.simps)

lemma decode_encode:
  "unicode t \<Longrightarrow> utf8_encode t = Some bs \<Longrightarrow> utf8_decode bs = t"
proof (induction t arbitrary: bs)
  case Nil
  then show ?case by simp
next
  case (Cons c t)
  then obtain bs' where "utf8_encode t = Some bs'" "bs = encode_char c @ bs'" "\<not> is_surrogate c"
    by (auto split: if_splits)
  with Cons show ?case by (simp add: decode_encode_char unicode_def)
qed

lemma encode_inj:
  "unicode s \<Longrightarrow> unicode t \<Longrightarrow> utf8_encode s = Some bs \<Longrightarrow> utf8_encode t = Some bs \<Longrightarrow> s = t"
  using decode_encode by metis

lemma encode_length: "utf8_encode t = Some bs \<Longrightarrow> length bs = byte_len t"
proof (induction t arbitrary: bs)
  case Nil
  then show ?case by simp
next
  case (Cons c t)
  then obtain bs' where b: "utf8_encode t = Some bs'" "bs = encode_char c @ bs'" "\<not> is_surrogate c"
    by (auto split: if_splits)
  then have "length (encode_char c) = utf8_len c"
    by (auto simp: encode_char_def utf8_len_def is_surrogate_def)
  with b Cons.IH [of bs'] show ?case by simp
qed

section \<open>Lines\<close>

text \<open>The boundaries of \<^verbatim>\<open>str.splitlines\<close>; a carriage return takes a following line feed with it.\<close>

definition is_line_end :: "nat \<Rightarrow> bool" where
  "is_line_end c = (c \<in> {10, 11, 12, 13, 0x1C, 0x1D, 0x1E, 0x85, 0x2028, 0x2029})"

fun starts_lf :: "ptext \<Rightarrow> bool" where
  "starts_lf [] = False"
| "starts_lf (c # t) = (c = 10)"

definition drop_lf :: "ptext \<Rightarrow> ptext" where
  "drop_lf t = (if starts_lf t then tl t else t)"

definition after_end :: "nat \<Rightarrow> ptext \<Rightarrow> ptext" where
  "after_end c t = (if c = 13 then drop_lf t else t)"

lemma length_after_end: "length (after_end c t) \<le> length t"
  by (simp add: after_end_def drop_lf_def)

lemma size_after_end [simp, termination_simp]: "length (after_end c t) < Suc (length t)"
  using length_after_end [of c t] by simp

function lines_from :: "ptext \<Rightarrow> ptext \<Rightarrow> ptext list" where
  "lines_from cur [] = (if cur = [] then [] else [cur])"
| "lines_from cur (c # t) =
     (if is_line_end c then cur # lines_from [] (after_end c t) else lines_from (cur @ [c]) t)"
  by pat_completeness auto
termination
  by (relation "measure (\<lambda>(cur, t). length t)") auto

definition splitlines :: "ptext \<Rightarrow> ptext list" where
  "splitlines t = lines_from [] t"

text \<open>\<^verbatim>\<open>splitlines(keepends=True)\<close>.\<close>

function pieces_from :: "ptext \<Rightarrow> ptext \<Rightarrow> ptext list" where
  "pieces_from cur [] = (if cur = [] then [] else [cur])"
| "pieces_from cur (c # t) =
     (if is_line_end c
      then (cur @ [c] @ (if c = 13 \<and> starts_lf t then [10] else [])) # pieces_from [] (after_end c t)
      else pieces_from (cur @ [c]) t)"
  by pat_completeness auto
termination
  by (relation "measure (\<lambda>(cur, t). length t)") auto

subsection \<open>The page reader\<close>

record text_page =
  pg_lines :: "ptext list"
  pg_total :: "nat option"
  pg_has_more :: bool
  pg_truncated :: bool

record page_state =
  ps_lines :: "ptext list"
  ps_pieces :: "ptext list"
  ps_line_number :: nat
  ps_has_text :: bool
  ps_skip_lf :: bool
  ps_kept :: nat

definition piece_body :: "ptext \<Rightarrow> ptext" where
  "piece_body piece =
     (if length piece \<ge> 2 \<and> drop (length piece - 2) piece = [13, 10] then take (length piece - 2) piece
      else if is_line_end (last piece) then butlast piece else piece)"

definition end_piece :: "nat \<Rightarrow> ptext \<Rightarrow> page_state \<Rightarrow> page_state" where
  "end_piece offset piece st =
     (if is_line_end (last piece)
      then (if ps_line_number st \<ge> offset
            then st\<lparr>ps_lines := ps_lines st @ [concat (ps_pieces st)], ps_pieces := [],
                   ps_line_number := ps_line_number st + 1, ps_has_text := False\<rparr>
            else st\<lparr>ps_line_number := ps_line_number st + 1, ps_has_text := False\<rparr>)
      else st)"

definition page_piece ::
    "nat \<Rightarrow> nat \<Rightarrow> nat \<Rightarrow> ptext \<Rightarrow> page_state \<Rightarrow> text_page + page_state" where
  "page_piece offset limit max_chars piece0 st0 =
     (let piece = (if ps_skip_lf st0 \<and> starts_lf piece0 then tl piece0 else piece0);
          st1 = st0\<lparr>ps_skip_lf := False\<rparr>
      in if piece = [] then Inr st1
         else if ps_line_number st1 \<ge> offset + limit
         then Inl \<lparr>pg_lines = ps_lines st1, pg_total = None, pg_has_more = True, pg_truncated = False\<rparr>
         else
           let body = piece_body piece;
               st2 = st1\<lparr>ps_skip_lf := (last piece = 13), ps_has_text := ps_has_text st1 \<or> body \<noteq> []\<rparr>
           in if ps_line_number st2 \<ge> offset then
                (let separated = (ps_pieces st2 = [] \<and> ps_lines st2 \<noteq> []);
                     kept = ps_kept st2 + (if separated then 1 else 0)
                 in if separated \<and> kept > max_chars
                    then Inl \<lparr>pg_lines = ps_lines st2, pg_total = None, pg_has_more = True,
                              pg_truncated = True\<rparr>
                    else
                      let remaining = max_chars - kept;
                          st3 = st2\<lparr>ps_pieces := ps_pieces st2 @ [take remaining body],
                                    ps_kept := kept + min remaining (length body)\<rparr>
                      in if length body > remaining
                         then Inl \<lparr>pg_lines = ps_lines st3 @ [concat (ps_pieces st3)],
                                   pg_total = None, pg_has_more = True, pg_truncated = True\<rparr>
                         else Inr (end_piece offset piece st3))
              else Inr (end_piece offset piece st2))"

fun page_pieces ::
    "nat \<Rightarrow> nat \<Rightarrow> nat \<Rightarrow> ptext list \<Rightarrow> page_state \<Rightarrow> text_page + page_state" where
  "page_pieces offset limit max_chars [] st = Inr st"
| "page_pieces offset limit max_chars (p # ps) st =
     (case page_piece offset limit max_chars p st of
        Inl page \<Rightarrow> Inl page
      | Inr st' \<Rightarrow> page_pieces offset limit max_chars ps st')"

definition finish_page :: "nat \<Rightarrow> page_state \<Rightarrow> text_page" where
  "finish_page offset st =
     \<lparr>pg_lines = (if ps_has_text st \<and> ps_line_number st \<ge> offset
                  then ps_lines st @ [concat (ps_pieces st)] else ps_lines st),
      pg_total = Some (ps_line_number st - 1 + (if ps_has_text st then 1 else 0)),
      pg_has_more = False, pg_truncated = False\<rparr>"

text \<open>The stream yields chunks of text; an empty chunk is the end of the file.\<close>

fun page_chunks ::
    "nat \<Rightarrow> nat \<Rightarrow> nat \<Rightarrow> ptext list \<Rightarrow> page_state \<Rightarrow> text_page" where
  "page_chunks offset limit max_chars [] st = finish_page offset st"
| "page_chunks offset limit max_chars (c # cs) st =
     (if c = [] then finish_page offset st
      else case page_pieces offset limit max_chars (pieces_from [] c) st of
          Inl page \<Rightarrow> page
        | Inr st' \<Rightarrow> page_chunks offset limit max_chars cs st')"

definition new_page_state :: page_state where
  "new_page_state = \<lparr>ps_lines = [], ps_pieces = [], ps_line_number = 1, ps_has_text = False,
     ps_skip_lf = False, ps_kept = 0\<rparr>"

definition read_text_page :: "nat \<Rightarrow> nat \<Rightarrow> nat \<Rightarrow> ptext list \<Rightarrow> text_page" where
  "read_text_page offset limit max_chars chunks = page_chunks offset limit max_chars chunks new_page_state"

subsection \<open>Lines character by character\<close>

text \<open>
  The reference for both: an automaton over single characters, whose state is the finished
  lines, the line being read and whether the last character was a carriage return. It
  composes over concatenation, so how a text is cut into chunks cannot matter.
\<close>

type_synonym scan = "ptext list \<times> ptext \<times> bool"

fun scan_char :: "nat \<Rightarrow> scan \<Rightarrow> scan" where
  "scan_char c (ls, cur, cr) =
     (if cr \<and> c = 10 then (ls, cur, False)
      else if is_line_end c then (ls @ [cur], [], c = 13)
      else (ls, cur @ [c], False))"

definition scan_from :: "scan \<Rightarrow> ptext \<Rightarrow> scan" where
  "scan_from s t = fold scan_char t s"

fun scan_lines :: "scan \<Rightarrow> ptext list" where
  "scan_lines (ls, cur, cr) = ls @ (if cur = [] then [] else [cur])"

lemma scan_from_simps [simp]:
  "scan_from s [] = s" "scan_from s (c # t) = scan_from (scan_char c s) t"
  "scan_from s (t @ u) = scan_from (scan_from s t) u"
  by (simp_all add: scan_from_def)

lemma is_line_end_simps [simp]: "is_line_end 10" "is_line_end 13"
  by (simp_all add: is_line_end_def)

lemma scan_prefix:
  "scan_from (ls @ ls', cur, cr) t
     = (case scan_from (ls', cur, cr) t of (l, c, r) \<Rightarrow> (ls @ l, c, r))"
proof (induction t arbitrary: ls' cur cr)
  case Nil
  then show ?case by simp
next
  case (Cons c t)
  show ?case
    using Cons.IH [of ls' cur False] Cons.IH [of "ls' @ [cur]" "[]" "c = 13"]
      Cons.IH [of ls' "cur @ [c]" False]
    by simp
qed

lemma scan_after_cr:
  "scan_lines (scan_from (ls, cur, True) t) = scan_lines (scan_from (ls, cur, False) (drop_lf t))"
  by (cases t) (auto simp: drop_lf_def)

lemma lines_from_scan: "lines_from cur t = scan_lines (scan_from ([], cur, False) t)"
proof (induction cur t rule: lines_from.induct)
  case (1 cur)
  then show ?case by simp
next
  case (2 cur c t)
  show ?case
  proof (cases "is_line_end c")
    case True
    have "scan_lines (scan_from ([cur], [], c = 13) t)
        = scan_lines (scan_from ([cur], [], False) (after_end c t))"
      by (auto simp: after_end_def scan_after_cr)
    also have "\<dots> = cur # scan_lines (scan_from ([], [], False) (after_end c t))"
      using scan_prefix [of "[cur]" "[]" "[]" False "after_end c t"]
      by (cases "scan_from ([], [], False) (after_end c t)") simp
    finally show ?thesis using 2(1) True by simp
  next
    case False
    with 2(2) show ?thesis by auto
  qed
qed

lemma splitlines_scan: "splitlines t = scan_lines (scan_from ([], [], False) t)"
  by (simp add: splitlines_def lines_from_scan)

lemma scan_extends:
  assumes "cur \<noteq> [] \<or> t \<noteq> []"
  shows "\<exists>x rest. scan_lines (scan_from (ls, cur, False) t) = ls @ (cur @ x) # rest"
  using assms
proof (induction t arbitrary: cur)
  case Nil
  then show ?case by auto
next
  case (Cons c t)
  show ?case
  proof (cases "is_line_end c")
    case True
    obtain l k r where "scan_from ([], [], c = 13) t = (l, k, r)" by (metis prod_cases3)
    then have "scan_from (ls @ [cur], [], c = 13) t = ((ls @ [cur]) @ l, k, r)"
      using scan_prefix [of "ls @ [cur]" "[]" "[]" "c = 13" t] by simp
    with True show ?thesis by auto
  next
    case False
    with Cons.IH [of "cur @ [c]"] show ?thesis by auto
  qed
qed

lemma scan_body:
  "\<forall>c\<in>set body. \<not> is_line_end c \<Longrightarrow>
   scan_from (ls, cur, cr) body = (ls, cur @ body, cr \<and> body = [])"
proof (induction body arbitrary: cur cr)
  case Nil
  then show ?case by simp
next
  case (Cons c body)
  then have "c \<noteq> 10" by auto
  with Cons show ?case by simp
qed

subsection \<open>Pieces\<close>

definition piece_of :: "ptext \<Rightarrow> ptext \<Rightarrow> ptext \<Rightarrow> bool" where
  "piece_of p body e \<longleftrightarrow> p = body @ e \<and> (\<forall>c\<in>set body. \<not> is_line_end c) \<and>
     (e = [] \<and> body \<noteq> [] \<or> e = [13, 10] \<or> (\<exists>c. e = [c] \<and> is_line_end c))"

definition piece :: "ptext \<Rightarrow> bool" where
  "piece p \<longleftrightarrow> (\<exists>body e. piece_of p body e)"

lemma pieces_from_pieces:
  assumes "\<forall>c\<in>set cur. \<not> is_line_end c"
  shows "(\<forall>p\<in>set (pieces_from cur t). piece p) \<and> concat (pieces_from cur t) = cur @ t"
  using assms
proof (induction cur t rule: pieces_from.induct)
  case (1 cur)
  then show ?case by (auto simp: piece_def piece_of_def)
next
  case (2 cur c t)
  show ?case
  proof (cases "is_line_end c")
    case True
    let ?e = "[c] @ (if c = 13 \<and> starts_lf t then [10] else [])"
    have "piece_of (cur @ ?e) cur ?e" using 2(3) True by (auto simp: piece_of_def)
    then have "piece (cur @ ?e)" unfolding piece_def by blast
    moreover have "?e @ after_end c t = c # t"
      by (cases t) (auto simp: after_end_def drop_lf_def)
    ultimately show ?thesis using 2(1) True by simp
  next
    case False
    with 2(2,3) show ?thesis by auto
  qed
qed

lemma piece_nonempty: "piece_of p body e \<Longrightarrow> p \<noteq> []"
  by (auto simp: piece_of_def)

lemma piece_starts_lf: "piece_of p body e \<Longrightarrow> starts_lf p \<Longrightarrow> p = [10]"
  by (cases body) (auto simp: piece_of_def)

lemma piece_body_of:
  assumes "piece_of p body e"
  shows "piece_body p = body" "is_line_end (last p) \<longleftrightarrow> e \<noteq> []" "last p = 13 \<longleftrightarrow> e = [13]"
proof -
  from assms consider "e = []" "body \<noteq> []" "p = body" | "e = [13, 10]" "p = body @ [13, 10]"
    | c where "e = [c]" "is_line_end c" "p = body @ [c]"
    unfolding piece_of_def by blast
  then have "piece_body p = body \<and> (is_line_end (last p) \<longleftrightarrow> e \<noteq> []) \<and> (last p = 13 \<longleftrightarrow> e = [13])"
  proof cases
    case 1
    then have l: "\<not> is_line_end (last p)" using assms by (auto simp: piece_of_def)
    have "drop (length p - 2) p \<noteq> [13, 10]"
    proof
      assume "drop (length p - 2) p = [13, 10]"
      then have "last p = 10" by (metis last_ConsL last_ConsR last_drop list.distinct(1) drop_eq_Nil not_le)
      with l show False by simp
    qed
    with 1 l show ?thesis by (auto simp: piece_body_def)
  next
    case 2
    then show ?thesis by (simp add: piece_body_def)
  next
    case 3
    have "\<not> (length p \<ge> 2 \<and> drop (length p - 2) p = [13, 10])"
    proof
      assume a: "length p \<ge> 2 \<and> drop (length p - 2) p = [13, 10]"
      then obtain b where b: "body = b @ [13]"
        using 3 by (cases body rule: rev_cases) auto
      with assms show False by (auto simp: piece_of_def)
    qed
    with 3 show ?thesis by (auto simp: piece_body_def)
  qed
  then show "piece_body p = body" "is_line_end (last p) \<longleftrightarrow> e \<noteq> []" "last p = 13 \<longleftrightarrow> e = [13]"
    by blast+
qed

lemma scan_piece:
  assumes "piece_of p body e" "\<not> (cr \<and> starts_lf p)"
  shows "scan_from (ls, cur, cr) p
    = (if e = [] then (ls, cur @ body, False) else (ls @ [cur @ body], [], e = [13]))"
proof -
  have p: "p = body @ e" and b: "scan_from (ls, cur, cr) body = (ls, cur @ body, cr \<and> body = [])"
    using assms(1) by (auto simp: piece_of_def intro: scan_body)
  from assms(1) consider "e = []" "body \<noteq> []" | "e = [13, 10]" | c where "e = [c]" "is_line_end c"
    unfolding piece_of_def by blast
  then show ?thesis
  proof cases
    case 3
    then have "\<not> ((cr \<and> body = []) \<and> c = 10)" using assms(2) p by auto
    with 3 p b show ?thesis by simp
  qed (simp_all add: p b)
qed

subsection \<open>The page is the slice\<close>

lemma join_snoc: "join sep (xs @ [x]) = (if xs = [] then x else join sep xs @ sep @ x)"
  by (induction sep xs rule: join.induct) auto

lemma join_extends: "\<exists>y. join sep (xs @ (x @ z) # rest) = join sep (xs @ [x]) @ y"
proof (induction sep xs rule: join.induct)
  case (1 sep)
  then show ?case by (cases rest) auto
next
  case (2 sep w)
  then show ?case by (cases rest) auto
next
  case (3 sep w v vs)
  then show ?case by auto
qed

lemma join_Cons_extends:
  "xs \<noteq> [] \<Longrightarrow> \<exists>y. join sep (xs @ x # rest) = join sep xs @ sep @ y"
  using join_extends [of sep xs "[]" x rest] by (auto simp: join_snoc)

definition page_spec :: "nat \<Rightarrow> nat \<Rightarrow> nat \<Rightarrow> ptext list \<Rightarrow> text_page \<Rightarrow> bool" where
  "page_spec off limit mx all_lines page =
     (let slice = take limit (drop (off - 1) all_lines); rest = (off + limit \<le> length all_lines)
      in if length (join [10] slice) \<le> mx
         then page = \<lparr>pg_lines = slice, pg_total = (if rest then None else Some (length all_lines)),
                      pg_has_more = rest, pg_truncated = False\<rparr>
         else pg_truncated page \<and> pg_has_more page \<and> pg_total page = None \<and>
              join [10] (pg_lines page) = take mx (join [10] slice))"

fun page_inv :: "nat \<Rightarrow> nat \<Rightarrow> nat \<Rightarrow> scan \<Rightarrow> page_state \<Rightarrow> bool" where
  "page_inv off limit mx (ls, cur, cr) st \<longleftrightarrow>
     ps_line_number st = length ls + 1 \<and> ps_has_text st = (cur \<noteq> []) \<and> ps_skip_lf st = cr \<and>
     length ls < off + limit \<and> (length ls + 1 = off + limit \<longrightarrow> cur = []) \<and>
     ps_lines st = drop (off - 1) ls \<and>
     concat (ps_pieces st) = (if off \<le> length ls + 1 then cur else []) \<and>
     (ps_pieces st = [] \<longleftrightarrow> (if off \<le> length ls + 1 then cur else []) = []) \<and>
     ps_kept st = length (join [10] (drop (off - 1) (scan_lines (ls, cur, cr)))) \<and>
     ps_kept st \<le> mx"

lemma page_inv_new: "1 \<le> off \<Longrightarrow> 1 \<le> limit \<Longrightarrow> page_inv off limit mx ([], [], False) new_page_state"
  by (simp add: new_page_state_def)

lemma finish_page_spec:
  assumes "page_inv off limit mx s st" "1 \<le> off"
  shows "page_spec off limit mx (scan_lines s) (finish_page off st)"
proof -
  obtain ls cur cr where s: "s = (ls, cur, cr)" by (metis prod_cases3)
  let ?all = "scan_lines s"
  have inv: "ps_line_number st = length ls + 1" "ps_has_text st = (cur \<noteq> [])"
      "ps_lines st = drop (off - 1) ls" "length ls + 1 = off + limit \<longrightarrow> cur = []"
      "length ls < off + limit" "concat (ps_pieces st) = (if off \<le> length ls + 1 then cur else [])"
      "length (join [10] (drop (off - 1) ?all)) \<le> mx"
    using assms(1) by (auto simp: s)
  have len: "length ?all < off + limit" using inv(4,5) by (auto simp: s)
  then have "take limit (drop (off - 1) ?all) = drop (off - 1) ?all" using assms(2) by simp
  moreover have "finish_page off st = \<lparr>pg_lines = drop (off - 1) ?all,
      pg_total = Some (length ?all), pg_has_more = False, pg_truncated = False\<rparr>"
    using inv assms(2) by (auto simp: finish_page_def s)
  ultimately show ?thesis using len inv(7) by (simp add: page_spec_def)
qed

lemma scan_piece_rest:
  assumes "piece_of p body e" "\<not> (cr \<and> starts_lf p)"
  shows "\<exists>x zs. scan_lines (scan_from (ls, cur, cr) (p @ rest)) = ls @ (cur @ body @ x) # zs"
proof (cases "e = []")
  case True
  then have "body \<noteq> []" using assms(1) by (auto simp: piece_of_def)
  then have "\<exists>x zs. scan_lines (scan_from (ls, cur @ body, False) rest) = ls @ ((cur @ body) @ x) # zs"
    by (intro scan_extends) simp
  with True scan_piece [OF assms, of ls cur] show ?thesis by simp
next
  case False
  obtain l k r where "scan_from ([], [], e = [13]) rest = (l, k, r)" by (metis prod_cases3)
  then have "scan_from (ls @ [cur @ body], [], e = [13]) rest = ((ls @ [cur @ body]) @ l, k, r)"
    using scan_prefix [of "ls @ [cur @ body]" "[]" "[]" "e = [13]" rest] by simp
  with False scan_piece [OF assms, of ls cur] show ?thesis by force
qed

lemma take_slice:
  "length xs < n \<Longrightarrow> take n (xs @ y # zs) = xs @ y # take (n - length xs - 1) zs"
  by (cases "n - length xs") auto

lemma piece_skipped:
  assumes "page_inv off limit mx (ls, cur, cr) st" "piece_of p body e" "cr" "starts_lf p"
  shows "\<exists>st'. page_piece off limit mx p st = Inr st' \<and>
    page_inv off limit mx (scan_from (ls, cur, cr) p) st'"
proof -
  have p: "p = [10]" using assms(2,4) by (rule piece_starts_lf)
  then have "page_piece off limit mx p st = Inr (st\<lparr>ps_skip_lf := False\<rparr>)"
    using assms(1,3) by (simp add: page_piece_def)
  with p assms(1,3) show ?thesis by simp
qed

lemma piece_over_limit:
  assumes inv: "page_inv off limit mx (ls, cur, cr) st"
    and p: "piece_of p body e" "\<not> (cr \<and> starts_lf p)" and "1 \<le> off"
    and full: "off + limit \<le> length ls + 1"
  shows "\<exists>page. page_piece off limit mx p st = Inl page \<and>
    page_spec off limit mx (scan_lines (scan_from (ls, cur, cr) (p @ rest))) page"
proof -
  have len: "length ls + 1 = off + limit" using inv full by simp
  then have c: "cur = []" using inv by simp
  let ?page = "\<lparr>pg_lines = drop (off - 1) ls, pg_total = None, pg_has_more = True, pg_truncated = False\<rparr>"
  have "page_piece off limit mx p st = Inl ?page"
    using inv p(2) piece_nonempty [OF p(1)] len by (auto simp: page_piece_def Let_def)
  moreover obtain x zs where "scan_lines (scan_from (ls, cur, cr) (p @ rest)) = ls @ x # zs"
    using scan_piece_rest [OF p, of ls cur rest] by blast
  moreover have "length (drop (off - 1) ls) = limit" using len assms(4) by simp
  moreover have "length (join [10] (drop (off - 1) ls)) \<le> mx" using inv c by simp
  ultimately show ?thesis using len assms(4) by (simp add: page_spec_def)
qed

lemma piece_before_offset:
  assumes inv: "page_inv off limit mx (ls, cur, cr) st"
    and p: "piece_of p body e" "\<not> (cr \<and> starts_lf p)"
    and before: "length ls + 1 < off"
  shows "\<exists>st'. page_piece off limit mx p st = Inr st' \<and>
    page_inv off limit mx (scan_from (ls, cur, cr) p) st'"
proof -
  let ?st = "st\<lparr>ps_skip_lf := (last p = 13), ps_has_text := ps_has_text st \<or> body \<noteq> []\<rparr>"
  have "page_piece off limit mx p st = Inr (end_piece off p ?st)"
    using inv p(2) piece_nonempty [OF p(1)] piece_body_of [OF p(1)] before
    by (auto simp: page_piece_def Let_def)
  moreover have "page_inv off limit mx (scan_from (ls, cur, cr) p) (end_piece off p ?st)"
    using inv before p(1) piece_body_of [OF p(1)]
    unfolding scan_piece [OF p] end_piece_def by (auto simp: piece_of_def)
  ultimately show ?thesis by blast
qed

lemma piece_in_page:
  assumes inv: "page_inv off limit mx (ls, cur, cr) st"
    and p: "piece_of p body e" "\<not> (cr \<and> starts_lf p)" and "1 \<le> off"
    and inside: "off \<le> length ls + 1" "length ls + 1 < off + limit"
  shows "case page_piece off limit mx p st of
      Inl page \<Rightarrow> page_spec off limit mx (scan_lines (scan_from (ls, cur, cr) (p @ rest))) page
    | Inr st' \<Rightarrow> page_inv off limit mx (scan_from (ls, cur, cr) p) st'"
proof -
  define lines where "lines = drop (off - 1) ls"
  define separated where "separated = (ps_pieces st = [] \<and> ps_lines st \<noteq> [])"
  define kept where "kept = ps_kept st + (if separated then 1 else 0)"
  have dr: "drop (off - 1) (ls @ xs) = lines @ xs" for xs using inside(1) by (simp add: lines_def)
  have st: "ps_lines st = lines" "concat (ps_pieces st) = cur" "ps_pieces st = [] \<longleftrightarrow> cur = []"
      "ps_line_number st = length ls + 1" "ps_has_text st = (cur \<noteq> [])" "ps_skip_lf st = cr"
      "ps_kept st = length (join [10] (lines @ (if cur = [] then [] else [cur])))" "ps_kept st \<le> mx"
    using inv inside(1) by (auto simp: dr lines_def)
  have kept: "kept = length (join [10] (lines @ [cur]))"
    using st by (auto simp: kept_def separated_def join_snoc)
  have split: "join [10] (lines @ [cur @ z]) = join [10] (lines @ [cur]) @ z" for z
    by (simp add: join_snoc)
  obtain x zs where all_lines: "scan_lines (scan_from (ls, cur, cr) (p @ rest)) = ls @ (cur @ body @ x) # zs"
    using scan_piece_rest [OF p] by blast
  define zs' where "zs' = take (limit - length lines - 1) zs"
  have "length lines < limit" using inside by (simp add: lines_def)
  then have slice: "take limit (drop (off - 1) (ls @ (cur @ body @ x) # zs)) = lines @ (cur @ body @ x) # zs'"
    unfolding dr zs'_def by (rule take_slice)
  define st2 where "st2 = st\<lparr>ps_skip_lf := (last p = 13), ps_has_text := ps_has_text st \<or> body \<noteq> []\<rparr>"
  define st3 where "st3 = st2\<lparr>ps_pieces := ps_pieces st2 @ [take (mx - kept) body],
    ps_kept := kept + min (mx - kept) (length body)\<rparr>"
  have run: "page_piece off limit mx p st =
     (if separated \<and> kept > mx
      then Inl \<lparr>pg_lines = lines, pg_total = None, pg_has_more = True, pg_truncated = True\<rparr>
      else if length body > mx - kept
      then Inl \<lparr>pg_lines = lines @ [cur @ take (mx - kept) body], pg_total = None,
                pg_has_more = True, pg_truncated = True\<rparr>
      else Inr (end_piece off p st3))"
    using st p(2) piece_nonempty [OF p(1)] piece_body_of [OF p(1)] inside
    by (auto simp: page_piece_def Let_def separated_def kept_def st2_def st3_def)
  consider "separated" "kept > mx" | "kept \<le> mx" "length body > mx - kept"
    | "kept \<le> mx" "length body \<le> mx - kept"
    using st(8) unfolding kept_def by (cases separated) force+
  then show ?thesis
  proof cases
    case 1
    then have c: "cur = []" "lines \<noteq> []" using st by (auto simp: separated_def)
    obtain y where y: "join [10] (lines @ (body @ x) # zs') = join [10] lines @ [10] @ y"
      using join_Cons_extends [OF c(2)] by metis
    have "length (join [10] lines) = mx" using 1 st(7,8) c by (auto simp: kept_def)
    with 1 c y slice show ?thesis unfolding run all_lines page_spec_def by (simp add: Let_def)
  next
    case 2
    obtain y where y: "join [10] (lines @ (cur @ body @ x) # zs') = join [10] (lines @ [cur @ body]) @ y"
      using join_extends [of "[10]" lines "cur @ body" x zs'] by auto
    have len: "mx < length (join [10] (lines @ [cur @ body]))" using 2 kept by (simp add: split)
    have "take mx (join [10] (lines @ [cur @ body])) = join [10] (lines @ [cur @ take (mx - kept) body])"
      using 2 kept by (simp add: split)
    with 2 len y slice show ?thesis unfolding run all_lines page_spec_def by (simp add: Let_def)
  next
    case 3
    have k: "ps_kept st3 = length (join [10] (lines @ [cur @ body]))" "ps_kept st3 \<le> mx"
      using 3 kept by (simp_all add: st3_def split)
    have "page_inv off limit mx (scan_from (ls, cur, cr) p) (end_piece off p st3)"
    proof (cases "e = []")
      case True
      then have b: "body \<noteq> []" using p(1) by (auto simp: piece_of_def)
      have "end_piece off p st3 = st3" using True piece_body_of [OF p(1)] by (simp add: end_piece_def)
      then show ?thesis
        using True b 3 st k inside piece_body_of [OF p(1)]
        unfolding scan_piece [OF p] by (auto simp: st3_def st2_def dr lines_def)
    next
      case False
      have "end_piece off p st3 = st3\<lparr>ps_lines := lines @ [cur @ body], ps_pieces := [],
          ps_line_number := length ls + 2, ps_has_text := False\<rparr>"
        using False piece_body_of [OF p(1)] st 3 inside
        by (simp add: end_piece_def st3_def st2_def)
      then show ?thesis
        using False 3 st k inside piece_body_of [OF p(1)]
        unfolding scan_piece [OF p] by (auto simp: st3_def st2_def lines_def)
    qed
    with 3 show ?thesis unfolding run by simp
  qed
qed

lemma page_piece_step:
  assumes "page_inv off limit mx s st" "piece p" "1 \<le> off"
  shows "case page_piece off limit mx p st of
      Inl page \<Rightarrow> page_spec off limit mx (scan_lines (scan_from s (p @ rest))) page
    | Inr st' \<Rightarrow> page_inv off limit mx (scan_from s p) st'"
proof -
  obtain ls cur cr where s: "s = (ls, cur, cr)" by (metis prod_cases3)
  obtain body e where p: "piece_of p body e" using assms(2) unfolding piece_def by blast
  note inv = assms(1) [unfolded s]
  consider "cr" "starts_lf p" | "\<not> (cr \<and> starts_lf p)" "off + limit \<le> length ls + 1"
    | "\<not> (cr \<and> starts_lf p)" "length ls + 1 < off"
    | "\<not> (cr \<and> starts_lf p)" "off \<le> length ls + 1" "length ls + 1 < off + limit"
    by linarith
  then show ?thesis
  proof cases
    case 1
    then show ?thesis using piece_skipped [OF inv p] unfolding s by force
  next
    case 2
    then show ?thesis using piece_over_limit [OF inv p _ assms(3)] unfolding s by force
  next
    case 3
    then show ?thesis using piece_before_offset [OF inv p] unfolding s by force
  next
    case 4
    then show ?thesis using piece_in_page [OF inv p _ assms(3)] unfolding s by blast
  qed
qed

lemma page_pieces_steps:
  assumes "page_inv off limit mx s st" "\<forall>p\<in>set ps. piece p" "1 \<le> off"
  shows "case page_pieces off limit mx ps st of
      Inl page \<Rightarrow> page_spec off limit mx (scan_lines (scan_from s (concat ps @ rest))) page
    | Inr st' \<Rightarrow> page_inv off limit mx (scan_from s (concat ps)) st'"
  using assms
proof (induction ps arbitrary: s st)
  case Nil
  then show ?case by simp
next
  case (Cons p ps)
  have step: "case page_piece off limit mx p st of
      Inl page \<Rightarrow> page_spec off limit mx (scan_lines (scan_from s (p @ concat ps @ rest))) page
    | Inr st' \<Rightarrow> page_inv off limit mx (scan_from s p) st'"
    using Cons.prems by (intro page_piece_step) auto
  show ?case
  proof (cases "page_piece off limit mx p st")
    case (Inl page)
    with step show ?thesis by simp
  next
    case (Inr st')
    with step Cons.IH [of "scan_from s p" st'] Cons.prems show ?thesis by (auto split: sum.splits)
  qed
qed

lemma page_chunks_spec:
  assumes "page_inv off limit mx s st" "1 \<le> off"
  shows "page_spec off limit mx
    (scan_lines (scan_from s (concat (takeWhile (\<lambda>c. c \<noteq> []) chunks)))) (page_chunks off limit mx chunks st)"
  using assms
proof (induction chunks arbitrary: s st)
  case Nil
  then show ?case by (simp add: finish_page_spec)
next
  case (Cons c cs)
  let ?rest = "concat (takeWhile (\<lambda>c. c \<noteq> []) cs)"
  have ps: "\<forall>p\<in>set (pieces_from [] c). piece p" "concat (pieces_from [] c) = c"
    using pieces_from_pieces [of "[]" c] by auto
  have step: "case page_pieces off limit mx (pieces_from [] c) st of
      Inl page \<Rightarrow> page_spec off limit mx (scan_lines (scan_from s (c @ ?rest))) page
    | Inr st' \<Rightarrow> page_inv off limit mx (scan_from s c) st'"
    using page_pieces_steps [OF Cons.prems(1) ps(1) Cons.prems(2), of ?rest] unfolding ps(2) .
  show ?case
  proof (cases "c = []")
    case True
    with Cons.prems show ?thesis by (simp add: finish_page_spec)
  next
    case False
    with step Cons.IH [of "scan_from s c"] Cons.prems(2) show ?thesis
      by (cases "page_pieces off limit mx (pieces_from [] c) st") auto
  qed
qed

text \<open>A page of a file is the requested slice of its lines, however the stream cuts the text into
  chunks (in the middle of a CRLF too): it starts at the requested line, holds at most the
  requested number of lines and says whether there are more and otherwise how many lines
  the file has; when the slice is longer than the character limit, the page is its first
  characters up to the limit and says that it was cut.\<close>

theorem page_is_slice_of_lines:
  assumes "1 \<le> offset" "1 \<le> limit"
  shows "page_spec offset limit max_chars (splitlines (concat (takeWhile (\<lambda>c. c \<noteq> []) chunks)))
    (read_text_page offset limit max_chars chunks)"
  using page_chunks_spec [OF page_inv_new [OF assms] assms(1)]
  by (simp add: read_text_page_def splitlines_scan)

theorem page_is_slice_of_lines_witness:
  "read_text_page 2 2 100 [[97, 13], [10, 98], [99, 10, 10, 100]]
     = \<lparr>pg_lines = [[98, 99], []], pg_total = None, pg_has_more = True, pg_truncated = False\<rparr>"
proof -
  have "page_spec 2 2 100 (splitlines (concat (takeWhile (\<lambda>c. c \<noteq> []) [[97, 13], [10, 98], [99, 10, 10, 100]])))
      (read_text_page 2 2 100 [[97, 13], [10, 98], [99, 10, 10, 100]])"
    by (rule page_is_slice_of_lines) simp_all
  moreover have "splitlines (concat (takeWhile (\<lambda>c. c \<noteq> []) [[97, 13], [10, 98], [99, 10, 10, 100]]))
      = [[97], [98, 99], [], [100]]"
    by (simp add: splitlines_def is_line_end_def after_end_def drop_lf_def)
  ultimately show ?thesis by (simp add: page_spec_def)
qed

section \<open>Literals, numbers, joining\<close>

definition lit :: "string \<Rightarrow> ptext" where
  "lit s = map of_char s"

fun decimal :: "nat \<Rightarrow> ptext" where
  "decimal n = (if n < 10 then [48 + n] else decimal (n div 10) @ [48 + n mod 10])"

declare decimal.simps [simp del]

definition plain_line :: "ptext \<Rightarrow> bool" where
  "plain_line l = (\<forall>c\<in>set l. \<not> is_line_end c)"

text \<open>Text in one newline convention: lines without line ends, joined by the newline, with or
  without a final one.\<close>

definition uniform_text :: "ptext \<Rightarrow> ptext list \<Rightarrow> ptext \<Rightarrow> bool" where
  "uniform_text nl ls suffix \<longleftrightarrow>
     (nl = [10] \<or> nl = [13, 10]) \<and> list_all plain_line ls \<and>
     (suffix = [] \<and> (ls = [] \<or> last ls \<noteq> []) \<or> suffix = nl \<and> ls \<noteq> [])"

lemma join_Cons: "join sep (x # xs) = (if xs = [] then x else x @ sep @ join sep xs)"
  by (cases xs) auto

lemma lines_from_plain:
  "plain_line l \<Longrightarrow> lines_from cur (l @ t) = lines_from (cur @ l) t"
  by (induction l arbitrary: cur) (auto simp: plain_line_def)

lemma lines_from_newline:
  assumes "plain_line l" "nl = [10] \<or> nl = [13, 10]"
  shows "lines_from [] (l @ nl @ t) = l # lines_from [] t"
  using assms by (auto simp: lines_from_plain after_end_def drop_lf_def)

lemma splitlines_join:
  assumes "uniform_text nl ls suffix"
  shows "splitlines (join nl ls @ suffix) = ls"
proof -
  have nl: "nl = [10] \<or> nl = [13, 10]" and pl: "list_all plain_line ls"
    and s: "suffix = [] \<and> (ls = [] \<or> last ls \<noteq> []) \<or> suffix = nl \<and> ls \<noteq> []"
    using assms by (auto simp: uniform_text_def)
  from pl s have "lines_from [] (join nl ls @ suffix) = ls"
  proof (induction ls)
    case Nil
    then show ?case by simp
  next
    case (Cons x xs)
    then have x: "plain_line x" by simp
    show ?case
    proof (cases "xs = []")
      case True
      then show ?thesis
        using Cons.prems lines_from_plain [OF x, of "[]" "[]"] lines_from_newline [OF x nl, of "[]"]
        by auto
    next
      case False
      then show ?thesis
        using Cons lines_from_newline [OF x nl, of "join nl xs @ suffix"] by (simp add: join_Cons)
    qed
  qed
  then show ?thesis by (simp add: splitlines_def)
qed

section \<open>Searching\<close>

text \<open>The first occurrence of a text: what stands before it and what after it.\<close>

fun split_first :: "ptext \<Rightarrow> ptext \<Rightarrow> (ptext \<times> ptext) option" where
  "split_first sub [] = (if sub = [] then Some ([], []) else None)"
| "split_first sub (c # t) =
     (if take (length sub) (c # t) = sub then Some ([], drop (length sub) (c # t))
      else map_option (\<lambda>(a, b). (c # a, b)) (split_first sub t))"

lemma split_first_Some: "split_first sub t = Some (a, b) \<Longrightarrow> t = a @ sub @ b"
proof (induction t arbitrary: a)
  case Nil
  then show ?case by (auto split: if_splits)
next
  case (Cons c t)
  show ?case
  proof (cases "take (length sub) (c # t) = sub")
    case True
    with Cons.prems have "a = []" "b = drop (length sub) (c # t)" by auto
    then show ?thesis using append_take_drop_id [of "length sub" "c # t"] True by simp
  next
    case False
    with Cons.prems obtain a' where "a = c # a'" "split_first sub t = Some (a', b)" by auto
    with Cons.IH show ?thesis by simp
  qed
qed

lemma split_first_None: "split_first sub t = None \<longleftrightarrow> (\<forall>a b. t \<noteq> a @ sub @ b)"
proof (induction t)
  case Nil
  then show ?case by simp
next
  case (Cons c t)
  show ?case
  proof (cases "take (length sub) (c # t) = sub")
    case True
    then have "c # t = [] @ sub @ drop (length sub) (c # t)"
      using append_take_drop_id [of "length sub" "c # t"] by simp
    then have "\<exists>a b. c # t = a @ sub @ b" by metis
    with True show ?thesis by simp
  next
    case False
    have "(\<exists>a b. c # t = a @ sub @ b) \<longleftrightarrow> (\<exists>a b. t = a @ sub @ b)"
    proof
      assume "\<exists>a b. c # t = a @ sub @ b"
      then obtain a b where ab: "c # t = a @ sub @ b" by blast
      with False have "a \<noteq> []" by auto
      with ab show "\<exists>a b. t = a @ sub @ b" by (cases a) auto
    next
      assume "\<exists>a b. t = a @ sub @ b"
      then show "\<exists>a b. c # t = a @ sub @ b" by (metis append_Cons)
    qed
    with False Cons show ?thesis by auto
  qed
qed

text \<open>\<^verbatim>\<open>t.count(sub)\<close>: occurrences that do not overlap, from the left.\<close>

function count_sub :: "ptext \<Rightarrow> ptext \<Rightarrow> nat" where
  "count_sub sub t =
     (if sub = [] then length t + 1
      else case split_first sub t of None \<Rightarrow> 0 | Some (a, b) \<Rightarrow> 1 + count_sub sub b)"
  by pat_completeness auto
termination
  by (relation "measure (\<lambda>(sub, t). length t)") (auto dest: split_first_Some)

declare count_sub.simps [simp del]

text \<open>\<^verbatim>\<open>t.replace(sub, new, 1)\<close>.\<close>

definition replace_first :: "ptext \<Rightarrow> ptext \<Rightarrow> ptext \<Rightarrow> ptext" where
  "replace_first sub new t =
     (case split_first sub t of None \<Rightarrow> t | Some (a, b) \<Rightarrow> a @ new @ b)"

lemma count_sub_0: "count_sub sub t = 0 \<longleftrightarrow> (\<forall>a b. t \<noteq> a @ sub @ b)"
proof (cases "sub = []")
  case True
  then show ?thesis by (subst count_sub.simps) (metis append_Nil add_is_0 zero_neq_one)
next
  case False
  then show ?thesis
    by (subst count_sub.simps) (auto simp flip: split_first_None split: option.splits)
qed

lemma count_sub_1:
  assumes "count_sub sub t = 1"
  obtains a b where "split_first sub t = Some (a, b)" "t = a @ sub @ b"
    "replace_first sub new t = a @ new @ b" "sub \<noteq> [] \<longrightarrow> (\<forall>x y. b \<noteq> x @ sub @ y)"
proof -
  have "count_sub sub t \<noteq> 0" using assms by simp
  then have "split_first sub t \<noteq> None" unfolding count_sub_0 split_first_None by blast
  then obtain a b where ab: "split_first sub t = Some (a, b)" by auto
  have "count_sub sub b = 0" if "sub \<noteq> []"
    using assms ab that by (subst (asm) count_sub.simps) simp
  then have "sub \<noteq> [] \<longrightarrow> (\<forall>x y. b \<noteq> x @ sub @ y)" unfolding count_sub_0 by blast
  moreover have "t = a @ sub @ b" using ab by (rule split_first_Some)
  ultimately show thesis using that [OF ab] ab by (simp add: replace_first_def)
qed

end
