(* ===== verification/Workspace.thy ===== *)
theory Workspace
  imports Workspace_Text
begin

text \<open>
  The file-backed workspace: revisions, snapshots and receipts of
  \<^verbatim>\<open>domain/workspace.py\<close> and the root-confined \<^verbatim>\<open>LocalWorkspacePort\<close> of
  \<^verbatim>\<open>infrastructure/workspace/local.py\<close>. The file system is a map from resolved paths to files
  and directories. What other programs do to it between two steps of an operation, and the
  errors of the operating system, are arguments (\<open>os_env\<close>); so are the resolution of a path
  (\<^verbatim>\<open>Path.expanduser\<close> and \<^verbatim>\<open>Path.resolve\<close>) and the hash function. The lemmas show that an operation
  only reaches paths inside the root or granted explicitly (and, when even the cleanup fails, leaves a
  temporary file beside the target), what a receipt's
  verification says about the file, that a write is read back, and which text an exact
  replacement yields. The locale \<open>workspace_port\<close> is what the file tools rely on.
\<close>

section \<open>Data\<close>

type_synonym path = "ptext list"

datatype workspace_error_code =
    INVALID_PATH | PATH_OUTSIDE_WORKSPACE | NOT_FOUND | NOT_A_FILE | NOT_A_DIRECTORY
  | NOT_UNIQUE | REVISION_CONFLICT | IO_ERROR

datatype mutation_verification = APPLIED_VERIFIED | FAILED_UNCHANGED | DIVERGED | UNKNOWN

record workspace_revision =
  rv_exists :: bool
  rv_sha256 :: "ptext option"
  rv_size :: nat
  rv_mtime_ns :: "int option"
  rv_authoritative :: bool

definition same_content :: "workspace_revision \<Rightarrow> workspace_revision \<Rightarrow> bool" where
  "same_content a b =
     (rv_exists a = rv_exists b \<and> rv_sha256 a = rv_sha256 b \<and> rv_size a = rv_size b)"

definition short_sha256 :: "workspace_revision \<Rightarrow> ptext" where
  "short_sha256 r =
     (case rv_sha256 r of Some h \<Rightarrow> if h = [] then lit ''missing'' else take 12 h
      | None \<Rightarrow> lit ''missing'')"

record document_snapshot =
  sn_path :: path
  sn_content :: "ptext option"
  sn_revision :: workspace_revision

record mutation_receipt =
  mr_path :: path
  mr_before :: workspace_revision
  mr_intended_sha256 :: ptext
  mr_intended_size :: nat
  mr_observed_after :: "workspace_revision option"
  mr_atomic_replace :: bool
  mr_verification :: mutation_verification
  mr_expected_before :: "workspace_revision option"
  mr_external_change :: bool

record mutation_result =
  mu_old_content :: "ptext option"
  mu_new_content :: ptext
  mu_receipt :: mutation_receipt

text \<open>A \<^verbatim>\<open>WorkspaceError\<close>, or the \<^verbatim>\<open>UnicodeEncodeError\<close> of an unencodable text.\<close>

datatype workspace_exn =
    Workspace_Error workspace_error_code ptext "mutation_receipt option"
  | Unicode_Encode_Error

section \<open>The file system\<close>

datatype node = File_Node "nat list" int | Dir_Node

type_synonym file_system = "path \<Rightarrow> node option"

fun is_file_node :: "node option \<Rightarrow> bool" where
  "is_file_node (Some (File_Node bs m)) = True"
| "is_file_node _ = False"

definition ancestors :: "path \<Rightarrow> path list" where
  "ancestors p = map (\<lambda>n. take n p) [0..<length p]"

text \<open>Some ancestor is a file: neither reading nor \<^verbatim>\<open>mkdir(parents=True)\<close> gets past it.\<close>

definition blocked :: "file_system \<Rightarrow> path \<Rightarrow> bool" where
  "blocked fs p = list_ex (\<lambda>q. is_file_node (fs q)) (ancestors p)"

text \<open>\<^verbatim>\<open>mkdir(parents=True)\<close> works from the top down; \<open>n\<close> is the depth it reaches.\<close>

definition make_parents :: "nat \<Rightarrow> path \<Rightarrow> file_system \<Rightarrow> file_system" where
  "make_parents n p fs =
     (\<lambda>q. if fs q = None \<and> q \<in> set (ancestors p) \<and> length q < n then Some Dir_Node else fs q)"

text \<open>Where the operating system stops a write: in \<^verbatim>\<open>mkdir\<close> at some depth, in \<^verbatim>\<open>mkstemp\<close>, while the
  temporary file is filled (some bytes are in it), or afterwards, in \<^verbatim>\<open>chmod\<close> or \<^verbatim>\<open>os.replace\<close>.
  The environment also has the random part of the temporary file's name and says whether removing
  that file fails.\<close>

datatype write_stage = Making_Parents nat | Making_Temporary | Filling nat | Replacing

record os_env =
  os_race :: "file_system \<Rightarrow> file_system"
  os_failure :: "(write_stage \<times> ptext) option"
  os_temp_name :: ptext
  os_unlink_fails :: bool
  os_mtime :: int
  os_later :: "file_system \<Rightarrow> file_system"
  os_read_error :: "path \<Rightarrow> ptext option"

section \<open>The local workspace\<close>

record local_workspace =
  lw_root :: path
  lw_grants :: "path list"
  lw_resolve :: "ptext \<Rightarrow> (ptext, path) result"

definition inside_root :: "local_workspace \<Rightarrow> path \<Rightarrow> bool" where
  "inside_root ws p = (take (length (lw_root ws)) p = lw_root ws)"

definition resolve_candidate :: "local_workspace \<Rightarrow> ptext \<Rightarrow> (workspace_exn, path) result" where
  "resolve_candidate ws path =
     (if path = [] then Inl (Workspace_Error INVALID_PATH (lit ''path must be a non-empty string'') None)
      else case lw_resolve ws path of
          Inl e \<Rightarrow> Inl (Workspace_Error INVALID_PATH
            (lit ''failed to resolve path '' @ path @ lit '': '' @ e) None)
        | Inr p \<Rightarrow> Inr p)"

definition resolve_path :: "local_workspace \<Rightarrow> ptext \<Rightarrow> (workspace_exn, path) result" where
  "resolve_path ws path =
     (case resolve_candidate ws path of
        Inl e \<Rightarrow> Inl e
      | Inr p \<Rightarrow>
          if inside_root ws p \<or> p \<in> set (lw_grants ws) then Inr p
          else Inl (Workspace_Error PATH_OUTSIDE_WORKSPACE
            (lit ''path escapes workspace root: '' @ path) None))"

definition external_path :: "local_workspace \<Rightarrow> ptext \<Rightarrow> (workspace_exn, path option) result" where
  "external_path ws path =
     (case resolve_candidate ws path of
        Inl e \<Rightarrow> Inl e
      | Inr p \<Rightarrow> Inr (if inside_root ws p then None else Some p))"

text \<open>Inside \<^verbatim>\<open>with grant_external_path(path)\<close> the workspace has one more grant; outside it has
  the grants it had.\<close>

definition grant_external_path ::
    "local_workspace \<Rightarrow> ptext \<Rightarrow> (workspace_exn, local_workspace \<times> path) result" where
  "grant_external_path ws path =
     (case resolve_candidate ws path of
        Inl e \<Rightarrow> Inl e
      | Inr p \<Rightarrow> Inr (if inside_root ws p then ws else ws\<lparr>lw_grants := p # lw_grants ws\<rparr>, p))"

definition render_path :: "path \<Rightarrow> ptext" where
  "render_path p = 47 # join [47] p"

definition missing_revision :: workspace_revision where
  "missing_revision = \<lparr>rv_exists = False, rv_sha256 = None, rv_size = 0, rv_mtime_ns = None,
     rv_authoritative = True\<rparr>"

definition file_revision :: "(nat list \<Rightarrow> ptext) \<Rightarrow> nat list \<Rightarrow> int option \<Rightarrow> workspace_revision" where
  "file_revision sha bs mtime = \<lparr>rv_exists = True, rv_sha256 = Some (sha bs), rv_size = length bs,
     rv_mtime_ns = mtime, rv_authoritative = True\<rparr>"

definition io_error :: "string \<Rightarrow> ptext \<Rightarrow> ptext \<Rightarrow> workspace_exn" where
  "io_error what path e =
     Workspace_Error IO_ERROR (lit ''failed to '' @ lit what @ lit '' '' @ path @ lit '': '' @ e) None"

definition snapshot_at ::
    "(nat list \<Rightarrow> ptext) \<Rightarrow> (path \<Rightarrow> ptext option) \<Rightarrow> file_system \<Rightarrow> ptext \<Rightarrow> path
      \<Rightarrow> (workspace_exn, document_snapshot) result" where
  "snapshot_at sha read_error fs path p =
     (case read_error p of
        Some e \<Rightarrow> Inl (io_error ''read'' path e)
      | None \<Rightarrow>
          if blocked fs p then Inl (io_error ''read'' path (lit ''Not a directory''))
          else case fs p of
              None \<Rightarrow> Inr \<lparr>sn_path = p, sn_content = None, sn_revision = missing_revision\<rparr>
            | Some Dir_Node \<Rightarrow> Inl (Workspace_Error NOT_A_FILE (path @ lit '' is not a file'') None)
            | Some (File_Node bs mtime) \<Rightarrow>
                Inr \<lparr>sn_path = p, sn_content = Some (utf8_decode bs),
                     sn_revision = file_revision sha bs (Some mtime)\<rparr>)"

definition snapshot_text ::
    "(nat list \<Rightarrow> ptext) \<Rightarrow> (path \<Rightarrow> ptext option) \<Rightarrow> local_workspace \<Rightarrow> file_system \<Rightarrow> ptext
      \<Rightarrow> (workspace_exn, document_snapshot) result" where
  "snapshot_text sha read_error ws fs path =
     bind_result (resolve_path ws path) (snapshot_at sha read_error fs path)"

definition read_text ::
    "(path \<Rightarrow> ptext option) \<Rightarrow> local_workspace \<Rightarrow> file_system \<Rightarrow> ptext \<Rightarrow> (workspace_exn, ptext) result" where
  "read_text read_error ws fs path =
     bind_result (resolve_path ws path) (\<lambda>p.
       if blocked fs p then Inl (Workspace_Error NOT_FOUND (path @ lit '' not found'') None)
       else case fs p of
           None \<Rightarrow> Inl (Workspace_Error NOT_FOUND (path @ lit '' not found'') None)
         | Some Dir_Node \<Rightarrow> Inl (Workspace_Error NOT_A_FILE (path @ lit '' is not a file'') None)
         | Some (File_Node bs mtime) \<Rightarrow>
             (case read_error p of
                Some e \<Rightarrow> Inl (io_error ''read'' path e)
              | None \<Rightarrow> Inr (utf8_decode bs)))"

text \<open>The sibling that \<^verbatim>\<open>mkstemp\<close> creates, and its removal, whose own failure is swallowed.\<close>

definition temporary_path :: "os_env \<Rightarrow> path \<Rightarrow> path" where
  "temporary_path env p = butlast p @ [46 # (if p = [] then [] else last p) @ 46 # os_temp_name env]"

definition unlink_temporary :: "os_env \<Rightarrow> path \<Rightarrow> file_system \<Rightarrow> file_system" where
  "unlink_temporary env temporary fs = (if os_unlink_fails env then fs else fs(temporary := None))"

text \<open>Temporary file, \<^verbatim>\<open>fsync\<close> and \<^verbatim>\<open>os.replace\<close>, once the parent directories are there: the new file, or
  the error that left the target alone and, when its removal fails too, the temporary file.
  \<^verbatim>\<open>mkstemp\<close> never takes a name in use.\<close>

definition fill_and_replace ::
    "os_env \<Rightarrow> path \<Rightarrow> nat list \<Rightarrow> file_system \<Rightarrow> file_system \<times> ptext option" where
  "fill_and_replace env p bs fs =
     (let temporary = temporary_path env p;
          holding = (\<lambda>written. fs(temporary := Some (File_Node written (os_mtime env))));
          abandon = (\<lambda>written. unlink_temporary env temporary (holding written))
      in if fs temporary \<noteq> None then (fs, Some (lit ''No usable temporary file name found''))
         else case os_failure env of
             Some (Filling n, e) \<Rightarrow> (abandon (take n bs), Some e)
           | Some (Replacing, e) \<Rightarrow> (abandon bs, Some e)
           | Some (_, e) \<Rightarrow> (fs, Some e)
           | None \<Rightarrow>
               if fs p = Some Dir_Node then (abandon bs, Some (lit ''Is a directory''))
               else ((holding bs)(temporary := None, p := holding bs temporary), None))"

text \<open>The parent directories first; the root of the file system is a directory.\<close>

definition replace_file ::
    "os_env \<Rightarrow> path \<Rightarrow> nat list \<Rightarrow> file_system \<Rightarrow> file_system \<times> ptext option" where
  "replace_file env p bs fs =
     (if p = [] then (fs, Some (lit ''Is a directory''))
      else if blocked fs p then (fs, Some (lit ''Not a directory''))
      else case os_failure env of
          Some (Making_Parents n, e) \<Rightarrow> (make_parents n p fs, Some e)
        | _ \<Rightarrow> fill_and_replace env p bs (make_parents (length p) p fs))"

definition mutation_receipt_of ::
    "(nat list \<Rightarrow> ptext) \<Rightarrow> os_env \<Rightarrow> file_system \<Rightarrow> path \<Rightarrow> workspace_revision \<Rightarrow> nat list
      \<Rightarrow> workspace_revision option \<Rightarrow> bool \<Rightarrow> mutation_receipt" where
  "mutation_receipt_of sha env fs p before encoded expected write_failed =
     (let observed = (case snapshot_at sha (os_read_error env) fs (render_path p) p of
            Inl _ \<Rightarrow> None | Inr s \<Rightarrow> Some (sn_revision s));
          verification = (case observed of
            None \<Rightarrow> UNKNOWN
          | Some seen \<Rightarrow>
              if same_content seen (file_revision sha encoded None) then APPLIED_VERIFIED
              else if write_failed \<and> same_content seen before then FAILED_UNCHANGED
              else DIVERGED)
      in \<lparr>mr_path = p, mr_before = before, mr_intended_sha256 = sha encoded,
          mr_intended_size = length encoded, mr_observed_after = observed,
          mr_atomic_replace = \<not> write_failed, mr_verification = verification,
          mr_expected_before = expected,
          mr_external_change = (case expected of None \<Rightarrow> False | Some e \<Rightarrow> \<not> same_content e before)\<rparr>)"

definition write_text ::
    "(nat list \<Rightarrow> ptext) \<Rightarrow> local_workspace \<Rightarrow> os_env \<Rightarrow> workspace_revision option
      \<Rightarrow> workspace_revision option \<Rightarrow> ptext \<Rightarrow> ptext \<Rightarrow> file_system
      \<Rightarrow> file_system \<times> (workspace_exn, mutation_result) result" where
  "write_text sha ws env expected required path content fs =
     (case resolve_path ws path of
        Inl e \<Rightarrow> (fs, Inl e)
      | Inr p \<Rightarrow>
          (case snapshot_at sha (os_read_error env) fs (render_path p) p of
             Inl e \<Rightarrow> (fs, Inl e)
           | Inr before \<Rightarrow>
               if (case required of None \<Rightarrow> False | Some base \<Rightarrow> \<not> same_content (sn_revision before) base)
               then (fs, Inl (Workspace_Error REVISION_CONFLICT
                 (path @ lit '' changed before the prepared edit could be committed'') None))
               else case utf8_encode content of
                   None \<Rightarrow> (fs, Inl Unicode_Encode_Error)
                 | Some encoded \<Rightarrow>
                     (case replace_file env p encoded (os_race env fs) of (fs1, failure) \<Rightarrow>
                        let fs2 = os_later env fs1;
                            receipt = mutation_receipt_of sha env fs2 p (sn_revision before) encoded
                              expected (failure \<noteq> None)
                        in (fs2,
                            case failure of
                              Some e \<Rightarrow> Inl (Workspace_Error IO_ERROR
                                (lit ''failed to write '' @ path @ lit '': '' @ e) (Some receipt))
                            | None \<Rightarrow> Inr \<lparr>mu_old_content = sn_content before,
                                mu_new_content = content, mu_receipt = receipt\<rparr>))))"

definition write_text_verified ::
    "(nat list \<Rightarrow> ptext) \<Rightarrow> local_workspace \<Rightarrow> os_env \<Rightarrow> workspace_revision option \<Rightarrow> ptext \<Rightarrow> ptext
      \<Rightarrow> file_system \<Rightarrow> file_system \<times> (workspace_exn, mutation_result) result" where
  "write_text_verified sha ws env expected = write_text sha ws env expected None"

text \<open>One attempt of an exact replacement: what happened before it, between its own snapshot and
  the write's, and the write's environment.\<close>

record edit_attempt =
  ea_before :: "file_system \<Rightarrow> file_system"
  ea_between :: "file_system \<Rightarrow> file_system"
  ea_env :: os_env

fun replace_attempts ::
    "(nat list \<Rightarrow> ptext) \<Rightarrow> local_workspace \<Rightarrow> workspace_revision option \<Rightarrow> ptext \<Rightarrow> ptext \<Rightarrow> ptext
      \<Rightarrow> edit_attempt list \<Rightarrow> file_system
      \<Rightarrow> file_system \<times> (workspace_exn, mutation_result) result" where
  "replace_attempts sha ws expected path old new [] fs =
     (fs, Inl (Workspace_Error REVISION_CONFLICT
        (path @ lit '' kept changing while the edit was being prepared'') None))"
| "replace_attempts sha ws expected path old new (a # attempts) fs0 =
     (let fs = ea_before a fs0
      in case snapshot_text sha (os_read_error (ea_env a)) ws fs path of
           Inl e \<Rightarrow> (fs, Inl e)
         | Inr snapshot \<Rightarrow>
             (case sn_content snapshot of
                None \<Rightarrow> (fs, Inl (Workspace_Error NOT_FOUND (path @ lit '' not found'') None))
              | Some content \<Rightarrow>
                  let occurrences = count_sub old content
                  in if occurrences = 0
                     then (fs, Inl (Workspace_Error NOT_FOUND (lit ''old text was not found'') None))
                     else if occurrences > 1
                     then (fs, Inl (Workspace_Error NOT_UNIQUE
                       (lit ''old text occurs '' @ decimal occurrences @ lit '' times'') None))
                     else
                       (case write_text sha ws (ea_env a) expected (Some (sn_revision snapshot)) path
                               (replace_first old new content) (ea_between a fs) of
                          (fs', Inl (Workspace_Error REVISION_CONFLICT m r)) \<Rightarrow>
                            replace_attempts sha ws expected path old new attempts fs'
                        | (fs', res) \<Rightarrow> (fs', res))))"

text \<open>\<^verbatim>\<open>range(3)\<close> attempts.\<close>

definition replace_exact_verified ::
    "(nat list \<Rightarrow> ptext) \<Rightarrow> local_workspace \<Rightarrow> (edit_attempt \<times> edit_attempt \<times> edit_attempt)
      \<Rightarrow> workspace_revision option \<Rightarrow> ptext \<Rightarrow> ptext \<Rightarrow> ptext \<Rightarrow> file_system
      \<Rightarrow> file_system \<times> (workspace_exn, mutation_result) result" where
  "replace_exact_verified sha ws attempts expected path old new fs =
     (case attempts of (a, b, c) \<Rightarrow>
        if old = new
        then (fs, Inl (Workspace_Error INVALID_PATH (lit ''old and new values must differ'') None))
        else replace_attempts sha ws expected path old new [a, b, c] fs)"

section \<open>Confinement\<close>

definition quiet :: "os_env \<Rightarrow> bool" where
  "quiet env \<longleftrightarrow> (\<forall>fs. os_race env fs = fs) \<and> (\<forall>fs. os_later env fs = fs)"

definition admitted :: "local_workspace \<Rightarrow> path \<Rightarrow> bool" where
  "admitted ws p \<longleftrightarrow> inside_root ws p \<or> p \<in> set (lw_grants ws)"

lemma resolve_path_admitted: "resolve_path ws path = Inr p \<Longrightarrow> admitted ws p"
  by (auto simp: resolve_path_def admitted_def split: sum.splits if_splits)

lemma ancestors_length: "q \<in> set (ancestors p) \<Longrightarrow> length q < length p"
  by (auto simp: ancestors_def)

lemma ancestors_proper: "p \<notin> set (ancestors p)"
  using ancestors_length by blast

lemma temporary_sibling:
  assumes "p \<noteq> []"
  shows "length (temporary_path env p) = length p" "temporary_path env p \<noteq> p"
    "ancestors (temporary_path env p) = ancestors p" "temporary_path env p \<notin> set (ancestors p)"
proof -
  show len: "length (temporary_path env p) = length p" using assms by (simp add: temporary_path_def)
  have "46 # last p @ 46 # os_temp_name env \<noteq> last p"
    by (metis length_Cons length_append less_irrefl not_add_less1 add_Suc_right less_Suc_eq trans_less_add1 lessI)
  then have "last (temporary_path env p) \<noteq> last p" using assms by (simp add: temporary_path_def)
  then show "temporary_path env p \<noteq> p" by auto
  show "temporary_path env p \<notin> set (ancestors p)" using ancestors_length len by fastforce
  have "take n (temporary_path env p) = take n p" if "n < length p" for n
    using that by (simp add: temporary_path_def take_butlast)
  then show "ancestors (temporary_path env p) = ancestors p"
    unfolding ancestors_def len by (intro map_cong) auto
qed

lemma make_parents_effect:
  "make_parents n p fs q \<noteq> fs q \<Longrightarrow> q \<in> set (ancestors p) \<and> fs q = None \<and> make_parents n p fs q = Some Dir_Node"
  by (auto simp: make_parents_def split: if_splits)

text \<open>How a replacement can end: done; failed with some of the directories made; or failed with the
  temporary file left behind.\<close>

lemma fill_and_replace_cases:
  assumes "fill_and_replace env p bs fs = (fs', failure)" "p \<noteq> []"
  obtains (failed) e where "failure = Some e" "fs' = fs"
  | (stray) e n where "failure = Some e" "os_unlink_fails env" "fs (temporary_path env p) = None"
      "fs' = fs(temporary_path env p := Some (File_Node (take n bs) (os_mtime env)))"
  | (completed) "failure = None" "fs p \<noteq> Some Dir_Node" "fs' = fs(p := Some (File_Node bs (os_mtime env)))"
proof (cases "fs (temporary_path env p) = None")
  case False
  with assms(1) failed show thesis by (auto simp: fill_and_replace_def Let_def)
next
  case True
  let ?t = "temporary_path env p"
  have abandoned: thesis if "failure = Some e"
    "fs' = unlink_temporary env ?t (fs(?t := Some (File_Node (take n bs) (os_mtime env))))" for e n
    using that True failed [of e] stray [of e n] by (cases "os_unlink_fails env") (auto simp: unlink_temporary_def fun_upd_idem)
  have all: "take (length bs) bs = bs" by simp
  have moved: "fs(?t := None, p := x) = fs(p := x)" for x
    using True temporary_sibling(2) [OF assms(2)] by (auto simp: fun_eq_iff)
  show thesis
  proof (cases "os_failure env")
    case None
    with assms(1) True abandoned [of _ "length bs"] completed moved show thesis
      by (cases "fs p = Some Dir_Node") (auto simp: fill_and_replace_def Let_def all)
  next
    case (Some x)
    obtain s e where x: "x = (s, e)" by fastforce
    show thesis
      using assms(1) True Some x failed abandoned abandoned [of _ "length bs"]
      by (cases s) (auto simp: fill_and_replace_def Let_def all)
  qed
qed

lemma replace_file_cases:
  assumes "replace_file env p bs fs = (fs', failure)"
  obtains (unmade) e where "failure = Some e" "fs' = fs"
  | (failed) e n where "failure = Some e" "p \<noteq> []" "\<not> blocked fs p" "fs' = make_parents n p fs"
  | (stray) e n where "failure = Some e" "p \<noteq> []" "\<not> blocked fs p" "os_unlink_fails env"
      "make_parents (length p) p fs (temporary_path env p) = None"
      "fs' = (make_parents (length p) p fs)(temporary_path env p := Some (File_Node (take n bs) (os_mtime env)))"
  | (completed) "failure = None" "p \<noteq> []" "\<not> blocked fs p" "make_parents (length p) p fs p \<noteq> Some Dir_Node"
      "fs' = (make_parents (length p) p fs)(p := Some (File_Node bs (os_mtime env)))"
proof (cases "p = [] \<or> blocked fs p")
  case True
  with assms unmade show thesis by (auto simp: replace_file_def split: if_splits)
next
  case False
  then consider (parents) n e where "failure = Some e" "fs' = make_parents n p fs"
    | (fill) "fill_and_replace env p bs (make_parents (length p) p fs) = (fs', failure)"
    using assms by (auto simp: replace_file_def split: option.splits write_stage.splits)
  then show thesis
  proof cases
    case parents
    with False failed show thesis by blast
  next
    case fill
    have p: "p \<noteq> []" "\<not> blocked fs p" using False by auto
    from fill p(1) show thesis
      by (cases rule: fill_and_replace_cases) (use p failed stray completed in blast)+
  qed
qed

lemma replace_file_effect:
  assumes "replace_file env p bs fs = (fs', failure)" "fs' q \<noteq> fs q"
  shows "q = p \<and> failure = None \<and> fs' q = Some (File_Node bs (os_mtime env)) \<or>
    q \<in> set (ancestors p) \<and> fs q = None \<and> fs' q = Some Dir_Node \<or>
    q = temporary_path env p \<and> failure \<noteq> None \<and> os_unlink_fails env \<and> p \<noteq> [] \<and> fs q = None \<and>
      (\<exists>n. fs' q = Some (File_Node (take n bs) (os_mtime env)))"
  using assms(1)
proof (cases rule: replace_file_cases)
  case (stray e n)
  then have "fs (temporary_path env p) = None"
    using make_parents_effect [of "length p" p fs "temporary_path env p"] by force
  with stray assms(2) make_parents_effect [of "length p" p fs q] show ?thesis by (auto split: if_splits)
next
  case (failed e n)
  with assms(2) make_parents_effect [of n p fs q] show ?thesis by auto
next
  case completed
  with assms(2) make_parents_effect [of "length p" p fs q] show ?thesis by (auto split: if_splits)
qed (use assms(2) in simp)

lemma replace_file_ok:
  assumes "replace_file env p bs fs = (fs', None)"
  shows "fs' p = Some (File_Node bs (os_mtime env))" "\<not> blocked fs' p"
proof -
  have a: "\<not> blocked fs p" "fs' = (make_parents (length p) p fs)(p := Some (File_Node bs (os_mtime env)))"
    using assms by (auto elim: replace_file_cases)
  then show "fs' p = Some (File_Node bs (os_mtime env))" by simp
  show "\<not> blocked fs' p"
    using a ancestors_proper [of p]
    by (auto simp: blocked_def list_ex_iff make_parents_def split: if_splits)
qed

lemma temporary_inside:
  assumes "inside_root ws p" "p \<noteq> lw_root ws"
  shows "inside_root ws (temporary_path env p)"
proof -
  have "length (lw_root ws) < length p"
    using assms by (metis inside_root_def le_eq_less_or_eq length_take min.bounded_iff nle_le order_refl take_all)
  then have "take (length (lw_root ws)) (temporary_path env p) = take (length (lw_root ws)) p"
    by (simp add: temporary_path_def take_butlast)
  with assms(1) show ?thesis by (simp add: inside_root_def)
qed

text \<open>A write that got as far as the replacement, with its environment and its receipt.\<close>

lemma write_text_cases:
  assumes "write_text sha ws env expected required path content fs = (fs', res)"
  obtains (refused) e where "res = Inl e" "fs' = fs" "\<And>c m r. e \<noteq> Workspace_Error c m (Some r)"
  | (replaced) p before encoded fs1 failure where
      "resolve_path ws path = Inr p" "snapshot_at sha (os_read_error env) fs (render_path p) p = Inr before"
      "\<forall>base. required = Some base \<longrightarrow> same_content (sn_revision before) base"
      "utf8_encode content = Some encoded"
      "replace_file env p encoded (os_race env fs) = (fs1, failure)" "fs' = os_later env fs1"
      "res = (let receipt = mutation_receipt_of sha env fs' p (sn_revision before) encoded expected
                (failure \<noteq> None)
              in case failure of
                   Some e \<Rightarrow> Inl (Workspace_Error IO_ERROR (lit ''failed to write '' @ path @ lit '': '' @ e)
                     (Some receipt))
                 | None \<Rightarrow> Inr \<lparr>mu_old_content = sn_content before, mu_new_content = content,
                     mu_receipt = receipt\<rparr>)"
proof -
  have no: "resolve_path ws path = Inl e \<Longrightarrow> e \<noteq> Workspace_Error c m (Some r)" for e c m r
    by (auto simp: resolve_path_def resolve_candidate_def split: sum.splits if_splits)
  have no': "snapshot_at sha re fs q p = Inl e \<Longrightarrow> e \<noteq> Workspace_Error c m (Some r)" for re q p e c m r
    by (auto simp: snapshot_at_def io_error_def split: option.splits if_splits node.splits)
  show thesis
  proof (cases "resolve_path ws path")
    case (Inl e)
    with assms no show thesis by (intro refused [of e]) (auto simp: write_text_def)
  next
    case (Inr p)
    note p = this
    show thesis
    proof (cases "snapshot_at sha (os_read_error env) fs (render_path p) p")
      case (Inl e)
      with assms p no' show thesis by (intro refused [of e]) (auto simp: write_text_def)
    next
      case (Inr before)
      note b = this
      show thesis
      proof (cases "\<exists>base. required = Some base \<and> \<not> same_content (sn_revision before) base")
        case True
        with assms p b show thesis by (intro refused) (auto simp: write_text_def)
      next
        case False
        show thesis
        proof (cases "utf8_encode content")
          case None
          with assms p b False show thesis
            by (intro refused) (auto simp: write_text_def split: option.splits)
        next
          case (Some encoded)
          obtain fs1 failure where r: "replace_file env p encoded (os_race env fs) = (fs1, failure)"
            by (metis surj_pair)
          with assms p b False Some show thesis
            by (intro replaced [OF p b _ Some r]) (auto simp: write_text_def Let_def split: option.splits)
        qed
      qed
    qed
  qed
qed

section \<open>Verified writes\<close>

lemma snapshot_at_content:
  assumes "snapshot_at sha re fs path p = Inr s" "sn_content s = Some c"
  obtains bs m where "fs p = Some (File_Node bs m)" "c = utf8_decode bs"
    "sn_revision s = file_revision sha bs (Some m)" "\<not> blocked fs p"
  using assms by (auto simp: snapshot_at_def split: option.splits if_splits node.splits)

lemma receipt_verified:
  assumes "r = mutation_receipt_of sha env fs p before encoded expected failed"
    and "mr_verification r = APPLIED_VERIFIED" "\<And>x. sha x = sha encoded \<Longrightarrow> x = encoded"
  shows "\<exists>m. fs p = Some (File_Node encoded m)"
proof -
  obtain s where s: "snapshot_at sha (os_read_error env) fs (render_path p) p = Inr s"
      "same_content (sn_revision s) (file_revision sha encoded None)"
    using assms(1,2)
    by (auto simp: mutation_receipt_of_def Let_def split: sum.splits if_splits)
  then obtain bs m where "fs p = Some (File_Node bs m)" "sn_revision s = file_revision sha bs (Some m)"
    by (auto simp: snapshot_at_def missing_revision_def file_revision_def same_content_def
        split: option.splits if_splits node.splits)
  with s(2) assms(3) show ?thesis by (auto simp: same_content_def file_revision_def)
qed

lemma receipt_unchanged:
  assumes "r = mutation_receipt_of sha env fs p before encoded expected failed"
    and "mr_verification r = FAILED_UNCHANGED"
  shows "failed \<and> (\<exists>s. snapshot_at sha (os_read_error env) fs (render_path p) p = Inr s \<and>
    same_content (sn_revision s) before)"
  using assms by (auto simp: mutation_receipt_of_def Let_def split: sum.splits if_splits option.splits)

text \<open>The receipt a write leaves, on success or with its error.\<close>

fun receipt_of :: "(workspace_exn, mutation_result) result \<Rightarrow> mutation_receipt option" where
  "receipt_of (Inr m) = Some (mu_receipt m)"
| "receipt_of (Inl (Workspace_Error c m r)) = r"
| "receipt_of (Inl Unicode_Encode_Error) = None"

lemma write_receipt:
  assumes "write_text sha ws env expected required path content fs = (fs', res)"
    and "receipt_of res = Some r"
  obtains p before encoded failed where "resolve_path ws path = Inr p"
    "snapshot_at sha (os_read_error env) fs (render_path p) p = Inr before"
    "utf8_encode content = Some encoded"
    "r = mutation_receipt_of sha env fs' p (sn_revision before) encoded expected failed"
    "failed \<longleftrightarrow> isl res"
  using assms(1)
proof (cases rule: write_text_cases)
  case (refused e)
  with assms(2) show thesis by (cases e) auto
next
  case (replaced p before encoded fs1 failure)
  with assms(2) show thesis
    by (intro that [of p before encoded "failure \<noteq> None"]) (auto simp: Let_def split: option.splits)
qed

lemma quiet_write_reads_back:
  assumes "write_text sha ws env expected required path content fs = (fs', Inr m)" "quiet env"
    and "unicode content"
  shows "\<exists>s. snapshot_text sha (\<lambda>_. None) ws fs' path = Inr s \<and> sn_content s = Some content \<and>
    mu_new_content m = content \<and> mr_atomic_replace (mu_receipt m) \<and>
    mr_verification (mu_receipt m) \<in> {APPLIED_VERIFIED, UNKNOWN}"
  using assms(1)
proof (cases rule: write_text_cases)
  case (refused e)
  then show ?thesis by simp
next
  case (replaced p before encoded fs1 failure)
  then have f: "failure = None" by (auto simp: Let_def split: option.splits)
  with replaced have r: "replace_file env p encoded fs = (fs', None)" using assms(2) by (simp add: quiet_def)
  from replace_file_ok [OF r] have fl: "fs' p = Some (File_Node encoded (os_mtime env))" "\<not> blocked fs' p" .
  have m: "mu_receipt m = mutation_receipt_of sha env fs' p (sn_revision before) encoded expected False"
      "mu_new_content m = content"
    using replaced f by (auto simp: Let_def)
  have "mr_verification (mu_receipt m) \<in> {APPLIED_VERIFIED, UNKNOWN}" "mr_atomic_replace (mu_receipt m)"
    unfolding m using fl
    by (auto simp: mutation_receipt_of_def snapshot_at_def file_revision_def same_content_def
        split: option.splits)
  with fl m replaced(1,4) decode_encode [OF assms(3)] show ?thesis
    by (auto simp: snapshot_text_def snapshot_at_def)
qed

section \<open>Exact replacement\<close>

lemma write_text_old_content:
  assumes "write_text sha ws env expected (Some base) path content fs = (fs', Inr m)"
    and "base = file_revision sha bs mt" "inj sha"
  shows "mu_old_content m = Some (utf8_decode bs) \<and> mu_new_content m = content"
  using assms(1)
proof (cases rule: write_text_cases)
  case (refused e)
  then show ?thesis by simp
next
  case (replaced p before encoded fs1 failure)
  then have "same_content (sn_revision before) base" by simp
  with replaced(2) assms(2) obtain bs' m' where "sn_content before = Some (utf8_decode bs')"
      "sha bs' = sha bs"
    by (auto simp: snapshot_at_def same_content_def file_revision_def missing_revision_def
        split: option.splits if_splits node.splits)
  with replaced(7) injD [OF assms(3)] show ?thesis by (auto simp: Let_def split: option.splits)
qed

lemma replace_attempts_exact:
  assumes "replace_attempts sha ws expected path old new attempts fs = (fs', Inr m)" "inj sha"
  shows "\<exists>a b. mu_old_content m = Some (a @ old @ b) \<and> mu_new_content m = a @ new @ b \<and>
    (old \<noteq> [] \<longrightarrow> (\<forall>x y. b \<noteq> x @ old @ y))"
  using assms(1)
proof (induction attempts arbitrary: fs)
  case Nil
  then show ?case by simp
next
  case (Cons att attempts)
  obtain s c where s: "snapshot_text sha (os_read_error (ea_env att)) ws (ea_before att fs) path = Inr s"
      "sn_content s = Some c" and one: "count_sub old c = 1"
    and w: "(case write_text sha ws (ea_env att) expected (Some (sn_revision s)) path
               (replace_first old new c) (ea_between att (ea_before att fs)) of
              (fs', Inl (Workspace_Error REVISION_CONFLICT m r)) \<Rightarrow>
                replace_attempts sha ws expected path old new attempts fs'
            | (fs', res) \<Rightarrow> (fs', res)) = (fs', Inr m)"
    using Cons.prems by (auto simp: Let_def split: sum.splits option.splits if_splits)
  obtain fs1 res where r: "write_text sha ws (ea_env att) expected (Some (sn_revision s)) path
      (replace_first old new c) (ea_between att (ea_before att fs)) = (fs1, res)" by (metis surj_pair)
  show ?case
  proof (cases res)
    case (Inl e)
    with w r have "replace_attempts sha ws expected path old new attempts fs1 = (fs', Inr m)"
      by (auto split: workspace_exn.splits workspace_error_code.splits)
    then show ?thesis by (rule Cons.IH)
  next
    case (Inr m')
    with w r have m: "m' = m" by simp
    from s obtain bs mt where b: "c = utf8_decode bs" "sn_revision s = file_revision sha bs mt"
      unfolding snapshot_text_def by (auto elim!: snapshot_at_content)
    have "mu_old_content m = Some c" "mu_new_content m = replace_first old new c"
      using write_text_old_content [OF r [unfolded Inr m] b(2) assms(2)] b(1) by auto
    moreover obtain a b where "c = a @ old @ b" "replace_first old new c = a @ new @ b"
        "old \<noteq> [] \<longrightarrow> (\<forall>x y. b \<noteq> x @ old @ y)"
      using one by (rule count_sub_1)
    ultimately show ?thesis by auto
  qed
qed

text \<open>The expected revision of a write is reported, never enforced: the file ends up the same
  whatever revision the caller expected.\<close>

lemma expected_revision_not_enforced:
  "fst (write_text sha ws env expected required path content fs)
     = fst (write_text sha ws env None required path content fs)"
  by (simp add: write_text_def Let_def split: sum.splits option.splits prod.splits)

lemma edit_accepts_overlapping_occurrences:
  "count_sub [97, 97] [97, 97, 97] = 1"
  by (simp add: count_sub.simps)

section \<open>The interface of the file tools\<close>

text \<open>
  What a tool relies on: a write that succeeds is read back, a write that fails leaves every
  readable file as it was, and a write at one place leaves the files at other places alone.
\<close>

locale workspace_port =
  fixes ok :: "'s \<Rightarrow> bool"
    and content_at :: "'s \<Rightarrow> 'p \<Rightarrow> ptext option"
    and put :: "'v \<Rightarrow> 's \<Rightarrow> 'p \<Rightarrow> ptext \<Rightarrow> 's \<times> ('e, 'r) result"
    and place :: "'p \<Rightarrow> 'l"
    and text_ok :: "ptext \<Rightarrow> bool"
  assumes put_ok: "ok s \<Longrightarrow> put v s p c = (s', res) \<Longrightarrow> ok s'"
    and put_read: "ok s \<Longrightarrow> put v s p c = (s', Inr r) \<Longrightarrow> text_ok c \<Longrightarrow> content_at s' p = Some c"
    and put_failed: "ok s \<Longrightarrow> put v s p c = (s', Inl e) \<Longrightarrow> content_at s q = Some d \<Longrightarrow>
      content_at s' q = Some d"
    and put_other: "ok s \<Longrightarrow> put v s p c = (s', res) \<Longrightarrow> place q \<noteq> place p \<Longrightarrow>
      content_at s q = Some d \<Longrightarrow> content_at s' q = Some d"

text \<open>A file system is a tree: above everything that exists there are directories.\<close>

definition tree :: "file_system \<Rightarrow> bool" where
  "tree fs \<longleftrightarrow> (\<forall>p q. fs p \<noteq> None \<longrightarrow> q \<in> set (ancestors p) \<longrightarrow> fs q = Some Dir_Node)"

lemma ancestors_trans: "r \<in> set (ancestors q) \<Longrightarrow> q \<in> set (ancestors p) \<Longrightarrow> r \<in> set (ancestors p)"
  by (auto simp: ancestors_def min_def)

lemma tree_not_blocked: "tree fs \<Longrightarrow> fs p \<noteq> None \<Longrightarrow> \<not> blocked fs p"
  by (fastforce simp: tree_def blocked_def list_ex_iff)

lemma tree_make_parents:
  assumes "tree fs" "\<not> blocked fs p"
  shows "tree (make_parents n p fs)"
    "q \<in> set (ancestors p) \<Longrightarrow> length q < n \<Longrightarrow> make_parents n p fs q = Some Dir_Node"
proof -
  have dir: "make_parents n p fs q = Some Dir_Node" if q: "q \<in> set (ancestors p)" "length q < n" for q
  proof -
    have "\<not> is_file_node (fs q)" using assms(2) q by (auto simp: blocked_def list_ex_iff)
    then show ?thesis using q by (cases "fs q" rule: is_file_node.cases) (auto simp: make_parents_def)
  qed
  then show "q \<in> set (ancestors p) \<Longrightarrow> length q < n \<Longrightarrow> make_parents n p fs q = Some Dir_Node" .
  show "tree (make_parents n p fs)"
    unfolding tree_def
  proof (intro allI impI)
    fix a b assume a: "make_parents n p fs a \<noteq> None" and b: "b \<in> set (ancestors a)"
    show "make_parents n p fs b = Some Dir_Node"
    proof (cases "a \<in> set (ancestors p) \<and> length a < n")
      case True
      with b show ?thesis using ancestors_trans ancestors_length [OF b] by (intro dir) auto
    next
      case False
      with a have "fs a \<noteq> None" by (auto simp: make_parents_def split: if_splits)
      with b assms(1) have "fs b = Some Dir_Node" by (auto simp: tree_def)
      then show ?thesis by (simp add: make_parents_def)
    qed
  qed
qed

lemma tree_put_file:
  assumes "tree fs" "\<forall>q\<in>set (ancestors p). fs q = Some Dir_Node" "fs p \<noteq> Some Dir_Node"
  shows "tree (fs(p := Some (File_Node bs m)))"
  unfolding tree_def
proof (intro allI impI)
  fix a b assume a: "(fs(p := Some (File_Node bs m))) a \<noteq> None" and b: "b \<in> set (ancestors a)"
  have "fs b = Some Dir_Node"
  proof (cases "a = p")
    case True
    with b assms(2) show ?thesis by blast
  next
    case False
    with a b assms(1) show ?thesis by (auto simp: tree_def)
  qed
  with assms(3) show "(fs(p := Some (File_Node bs m))) b = Some Dir_Node" by auto
qed

lemma replace_file_tree:
  assumes "replace_file env p bs fs = (fs', failure)" "tree fs"
  shows "tree fs'"
  using assms(1)
proof (cases rule: replace_file_cases)
  case (failed e n)
  then show ?thesis using tree_make_parents(1) assms(2) by blast
next
  case (stray e n)
  with tree_make_parents [OF assms(2) stray(3), where n = "length p"] ancestors_length [of _ p]
  show ?thesis by (auto intro!: tree_put_file simp: temporary_sibling(3))
next
  case completed
  with tree_make_parents [OF assms(2) completed(3), where n = "length p"] ancestors_length [of _ p]
  show ?thesis by (auto intro!: tree_put_file)
qed (use assms in simp)

lemma write_text_tree:
  assumes "write_text sha ws env expected required path content fs = (fs', res)" "quiet env" "tree fs"
  shows "tree fs'"
  using assms(1)
proof (cases rule: write_text_cases)
  case (refused e)
  with assms show ?thesis by simp
next
  case (replaced p before encoded fs1 failure)
  then have "replace_file env p encoded fs = (fs', failure)" using assms(2) by (simp add: quiet_def)
  then show ?thesis using assms(3) by (rule replace_file_tree)
qed

lemma quiet_write_keeps:
  assumes "write_text sha ws env expected required path content fs = (fs', res)" "quiet env"
    and "fs q = Some (File_Node bs m)" "isl res \<or> resolve_path ws path \<noteq> Inr q"
  shows "fs' q = Some (File_Node bs m)"
  using assms(1)
proof (cases rule: write_text_cases)
  case (refused e)
  with assms show ?thesis by simp
next
  case (replaced p before encoded fs1 failure)
  then have r: "replace_file env p encoded fs = (fs', failure)" using assms(2) by (simp add: quiet_def)
  have "failure \<noteq> None \<or> q \<noteq> p" using replaced assms(4) by (auto simp: Let_def split: option.splits)
  then show ?thesis using replace_file_effect [OF r, of q] assms(3) by auto
qed

definition local_content ::
    "(nat list \<Rightarrow> ptext) \<Rightarrow> local_workspace \<Rightarrow> file_system \<Rightarrow> ptext \<Rightarrow> ptext option" where
  "local_content sha ws fs path =
     (case snapshot_text sha (\<lambda>_. None) ws fs path of Inl _ \<Rightarrow> None | Inr s \<Rightarrow> sn_content s)"

lemma local_content_Some:
  "local_content sha ws fs path = Some c \<longleftrightarrow>
     (\<exists>p bs m. resolve_path ws path = Inr p \<and> \<not> blocked fs p \<and> fs p = Some (File_Node bs m) \<and>
       c = utf8_decode bs)"
proof (cases "resolve_path ws path")
  case (Inl e)
  then show ?thesis by (simp add: local_content_def snapshot_text_def)
next
  case (Inr p)
  then show ?thesis
    by (cases "fs p" rule: is_file_node.cases) (auto simp: local_content_def snapshot_text_def snapshot_at_def)
qed

lemma quiet_content_keeps:
  assumes "write_text sha ws env expected required path content fs = (fs', res)" "quiet env" "tree fs"
    and "local_content sha ws fs q = Some d" "isl res \<or> resolve_path ws q \<noteq> resolve_path ws path"
  shows "local_content sha ws fs' q = Some d"
proof -
  from assms(4) obtain p bs m where p: "resolve_path ws q = Inr p" "fs p = Some (File_Node bs m)"
      "d = utf8_decode bs"
    unfolding local_content_Some by blast
  have "fs' p = Some (File_Node bs m)" using quiet_write_keeps [OF assms(1,2) p(2)] assms(5) p(1) by auto
  moreover have "\<not> blocked fs' p"
    using write_text_tree [OF assms(1-3)] calculation by (simp add: tree_not_blocked)
  ultimately show ?thesis unfolding local_content_Some using p by blast
qed

text \<open>An environment without interference: only the operating system may refuse the write.\<close>

type_synonym write_fault = "(write_stage \<times> ptext) option \<times> ptext \<times> bool"

definition calm :: "write_fault \<Rightarrow> int \<Rightarrow> os_env" where
  "calm fault mtime = (case fault of (failure, temp_name, unlink_fails) \<Rightarrow>
     \<lparr>os_race = (\<lambda>fs. fs), os_failure = failure, os_temp_name = temp_name, os_unlink_fails = unlink_fails,
      os_mtime = mtime, os_later = (\<lambda>fs. fs), os_read_error = (\<lambda>_. None)\<rparr>)"

lemma quiet_calm [simp]: "quiet (calm fault mtime)"
  by (simp add: quiet_def calm_def split: prod.split)

definition local_put ::
    "(nat list \<Rightarrow> ptext) \<Rightarrow> local_workspace \<Rightarrow> write_fault \<times> int \<times> workspace_revision option
      \<Rightarrow> file_system \<Rightarrow> ptext \<Rightarrow> ptext \<Rightarrow> file_system \<times> (workspace_exn, mutation_result) result" where
  "local_put sha ws v fs path content =
     (case v of (fault, mtime, expected) \<Rightarrow>
        write_text_verified sha ws (calm fault mtime) expected path content fs)"

interpretation local_port: workspace_port tree "local_content sha ws" "local_put sha ws"
  "resolve_path ws" unicode for sha ws
proof
  fix s s' p c res and v :: "write_fault \<times> int \<times> workspace_revision option"
  assume "tree s" "local_put sha ws v s p c = (s', res)"
  then show "tree s'"
    by (auto simp: local_put_def write_text_verified_def intro: write_text_tree split: prod.splits)
next
  fix s s' p c r and v :: "write_fault \<times> int \<times> workspace_revision option"
  assume "local_put sha ws v s p c = (s', Inr r)" "unicode c"
  then show "local_content sha ws s' p = Some c"
    using quiet_write_reads_back [of sha ws _ _ None p c s s' r]
    by (force simp: local_put_def write_text_verified_def local_content_def split: prod.splits)
next
  fix s s' p c e q d and v :: "write_fault \<times> int \<times> workspace_revision option"
  assume "tree s" "local_put sha ws v s p c = (s', Inl e)" "local_content sha ws s q = Some d"
  then show "local_content sha ws s' q = Some d"
    using quiet_content_keeps [of sha ws _ _ None p c s s' "Inl e" q d]
    by (auto simp: local_put_def write_text_verified_def split: prod.splits)
next
  fix s s' p c res q d and v :: "write_fault \<times> int \<times> workspace_revision option"
  assume "tree s" "local_put sha ws v s p c = (s', res)" "resolve_path ws q \<noteq> resolve_path ws p"
    "local_content sha ws s q = Some d"
  then show "local_content sha ws s' q = Some d"
    using quiet_content_keeps [of sha ws _ _ None p c s s' res q d]
    by (auto simp: local_put_def write_text_verified_def split: prod.splits)
qed

section \<open>Properties\<close>

definition ex_ws :: local_workspace where
  "ex_ws = \<lparr>lw_root = [lit ''w''], lw_grants = [], lw_resolve = (\<lambda>path. Inr [lit ''w'', path])\<rparr>"

definition ex_fs :: file_system where
  "ex_fs p = (if p = [] \<or> p = [lit ''w''] then Some Dir_Node
     else if p = [lit ''w'', lit ''a''] then Some (File_Node [104, 105] 1) else None)"

definition ex_write :: "workspace_revision option
    \<Rightarrow> file_system \<times> (workspace_exn, mutation_result) result" where
  "ex_write expected = write_text (\<lambda>x. x) ex_ws (calm (None, [], False) 7) expected None (lit ''a'') [72] ex_fs"

definition ex_attempt :: edit_attempt where
  "ex_attempt = \<lparr>ea_before = (\<lambda>fs. fs), ea_between = (\<lambda>fs. fs), ea_env = calm (None, [], False) 7\<rparr>"

definition ex_edit :: "file_system \<times> (workspace_exn, mutation_result) result" where
  "ex_edit = replace_exact_verified (\<lambda>x. x) ex_ws (ex_attempt, ex_attempt, ex_attempt) None
     (lit ''a'') [105] [111] ex_fs"

lemmas ex_workspace_simps = ex_write_def ex_edit_def ex_attempt_def ex_ws_def ex_fs_def write_text_def resolve_path_def
  resolve_candidate_def inside_root_def snapshot_at_def snapshot_text_def blocked_def ancestors_def
  replace_file_def fill_and_replace_def temporary_path_def make_parents_def calm_def mutation_receipt_of_def file_revision_def
  same_content_def replace_exact_verified_def count_sub.simps replace_first_def Let_def lit_def
  is_surrogate_def encode_char_def utf8_decode.simps upt_rec

text \<open>A receipt tells the truth about the file, whatever other programs did meanwhile: if it says
  that the write was applied and verified, the file holds exactly the requested bytes when
  the operation returns; if it says that a failed write left the file unchanged, the file
  has the revision it had before; and only a failed write says so.\<close>

theorem receipts_are_truthful:
  assumes "write_text sha ws env expected required path content fs = (fs', res)"
    and "receipt_of res = Some r" and "inj sha"
  shows "\<exists>p encoded. resolve_path ws path = Inr p \<and> utf8_encode content = Some encoded \<and>
    (mr_verification r = APPLIED_VERIFIED \<longrightarrow> (\<exists>m. fs' p = Some (File_Node encoded m))) \<and>
    (mr_verification r = FAILED_UNCHANGED \<longrightarrow> isl res \<and>
      (\<exists>s. snapshot_at sha (os_read_error env) fs' (render_path p) p = Inr s \<and>
        same_content (sn_revision s) (mr_before r)))"
proof -
  from assms(1,2) obtain p before encoded failed where w: "resolve_path ws path = Inr p"
      "snapshot_at sha (os_read_error env) fs (render_path p) p = Inr before"
      "utf8_encode content = Some encoded"
      "r = mutation_receipt_of sha env fs' p (sn_revision before) encoded expected failed"
      "failed \<longleftrightarrow> isl res"
    by (rule write_receipt)
  have "mr_before r = sn_revision before" using w(4) by (simp add: mutation_receipt_of_def Let_def)
  with w receipt_verified [OF w(4)] receipt_unchanged [OF w(4)] injD [OF assms(3)] show ?thesis
    by auto
qed

theorem receipts_are_truthful_witness:
  "\<exists>r. receipt_of (snd (ex_write None)) = Some r \<and> mr_verification r = APPLIED_VERIFIED \<and>
     (\<exists>m. fst (ex_write None) [lit ''w'', lit ''a''] = Some (File_Node [72] m))"
proof -
  obtain fs' res where e: "ex_write None = (fs', res)" by (metis surj_pair)
  have "receipt_of (snd (ex_write None)) \<noteq> None \<and>
      mr_verification (the (receipt_of (snd (ex_write None)))) = APPLIED_VERIFIED"
    by (simp add: ex_workspace_simps)
  then obtain r where r: "receipt_of res = Some r" "mr_verification r = APPLIED_VERIFIED"
    using e by auto
  have "resolve_path ex_ws (lit ''a'') = Inr [lit ''w'', lit ''a'']" "utf8_encode [72] = Some [72]"
    by (simp_all add: ex_workspace_simps)
  with receipts_are_truthful [of "\<lambda>x. x", OF e [unfolded ex_write_def] r(1)] r(2) e show ?thesis
    by (auto simp: r(1))
qed

text \<open>C28: A write stays where it is allowed: without interference from other programs, it changes
  nothing but the target, which resolves to a path inside the workspace root or to one that
  was granted explicitly and then holds the encoded text; missing directories above the target; and,
  only when the write fails and so does the removal of its temporary file, that file: a new
  sibling of the target, which holds a beginning of the text and is itself inside the root when the
  target is a path below it.\<close>

theorem writes_stay_in_workspace:
  assumes "write_text sha ws env expected required path content fs = (fs', res)" "quiet env"
    and "fs' q \<noteq> fs q"
  shows "\<exists>p. resolve_path ws path = Inr p \<and> (inside_root ws p \<or> p \<in> set (lw_grants ws)) \<and>
    (q = p \<and> (\<exists>bs. utf8_encode content = Some bs \<and> fs' q = Some (File_Node bs (os_mtime env))) \<or>
     q \<in> set (ancestors p) \<and> fs q = None \<and> fs' q = Some Dir_Node \<or>
     isl res \<and> os_unlink_fails env \<and> fs q = None \<and>
       q = butlast p @ [46 # last p @ 46 # os_temp_name env] \<and>
       (\<exists>bs n. utf8_encode content = Some bs \<and> fs' q = Some (File_Node (take n bs) (os_mtime env))) \<and>
       (inside_root ws p \<and> p \<noteq> lw_root ws \<longrightarrow> inside_root ws q))"
  using assms(1)
proof (cases rule: write_text_cases)
  case (refused e)
  with assms(3) show ?thesis by simp
next
  case (replaced p before encoded fs1 failure)
  then have r: "replace_file env p encoded fs = (fs', failure)" using assms(2) by (simp add: quiet_def)
  have "failure \<noteq> None \<Longrightarrow> isl res" using replaced by (auto simp: Let_def split: option.splits)
  with replace_file_effect [OF r assms(3)] replaced(1,4) resolve_path_admitted [OF replaced(1)]
    temporary_inside [of ws p env]
  show ?thesis by (auto simp: admitted_def temporary_path_def split: if_splits)
qed

theorem writes_stay_in_workspace_witness:
  "\<exists>p. resolve_path ex_ws (lit ''a'') = Inr p \<and> inside_root ex_ws p \<and>
     p = [lit ''w'', lit ''a''] \<and> fst (ex_write None) p \<noteq> ex_fs p"
proof -
  have ne: "fst (ex_write None) [lit ''w'', lit ''a''] \<noteq> ex_fs [lit ''w'', lit ''a'']"
    by (simp add: ex_workspace_simps)
  have "ex_write None = (fst (ex_write None), snd (ex_write None))" by simp
  from writes_stay_in_workspace [OF this [unfolded ex_write_def] _ ne [unfolded ex_write_def]]
  obtain p where "resolve_path ex_ws (lit ''a'') = Inr p" "inside_root ex_ws p \<or> p \<in> set (lw_grants ex_ws)"
    by auto
  moreover have "resolve_path ex_ws (lit ''a'') = Inr [lit ''w'', lit ''a'']" "lw_grants ex_ws = []"
    by (simp_all add: ex_workspace_simps)
  ultimately show ?thesis using ne by auto
qed

text \<open>The last case happens: the disk is full after one byte and the temporary file cannot be removed. The
  error that is raised does not mention the file.\<close>

theorem failed_write_leaves_temporary:
  "case write_text (\<lambda>x. x) ex_ws (calm (Some (Filling 1, lit ''No space left''), [120], True) 7) None None
      (lit ''a'') [72, 73] ex_fs of
     (fs', res) \<Rightarrow> isl res \<and> fs' [lit ''w'', lit ''a''] = ex_fs [lit ''w'', lit ''a''] \<and>
       fs' [lit ''w'', lit ''.a.x''] = Some (File_Node [72] 7)"
  by (simp add: ex_workspace_simps unlink_temporary_def)

text \<open>What is written is read back: after a write that succeeds without interference, a snapshot
  of the same path shows exactly the text, and the receipt says applied and verified unless
  the verifying read itself failed.\<close>

theorem write_then_read:
  assumes "write_text sha ws env expected required path content fs = (fs', Inr m)" "quiet env"
    and "unicode content"
  shows "\<exists>s. snapshot_text sha (\<lambda>_. None) ws fs' path = Inr s \<and> sn_content s = Some content \<and>
    mu_new_content m = content \<and> mr_atomic_replace (mu_receipt m) \<and>
    mr_verification (mu_receipt m) \<in> {APPLIED_VERIFIED, UNKNOWN}"
  using assms by (rule quiet_write_reads_back)

theorem write_then_read_witness:
  "\<exists>s. snapshot_text (\<lambda>x. x) (\<lambda>_. None) ex_ws (fst (ex_write None)) (lit ''a'') = Inr s \<and>
     sn_content s = Some [72]"
proof -
  have "\<not> isl (snd (ex_write None))" by (simp add: ex_workspace_simps)
  then obtain m where "snd (ex_write None) = Inr m" by (cases "snd (ex_write None)") auto
  then have e: "ex_write None = (fst (ex_write None), Inr m)" by (metis prod.collapse)
  have "\<exists>s. snapshot_text (\<lambda>x. x) (\<lambda>_. None) ex_ws (fst (ex_write None)) (lit ''a'') = Inr s \<and>
      sn_content s = Some [72] \<and> mu_new_content m = [72] \<and> mr_atomic_replace (mu_receipt m) \<and>
      mr_verification (mu_receipt m) \<in> {APPLIED_VERIFIED, UNKNOWN}"
  proof (rule write_then_read)
    show "write_text (\<lambda>x. x) ex_ws (calm (None, [], False) 7) None None (lit ''a'') [72] ex_fs
        = (fst (ex_write None), Inr m)"
      using e by (simp add: ex_write_def)
  qed (simp_all add: unicode_def)
  then show ?thesis by blast
qed

text \<open>An exact edit changes exactly the requested text: when it succeeds, whatever other programs
  did meanwhile, the new text is the text that was replaced with one occurrence of the old
  string exchanged for the new one, and the old string does not occur again after it.\<close>

theorem edit_replaces_one_occurrence:
  assumes "replace_exact_verified sha ws attempts expected path old new fs = (fs', Inr m)" "inj sha"
  shows "\<exists>a b. mu_old_content m = Some (a @ old @ b) \<and> mu_new_content m = a @ new @ b \<and>
    old \<noteq> new \<and> (old \<noteq> [] \<longrightarrow> (\<forall>x y. b \<noteq> x @ old @ y))"
proof -
  obtain r s t where a: "attempts = (r, s, t)" by (metis prod_cases3)
  then have "old \<noteq> new" "replace_attempts sha ws expected path old new [r, s, t] fs = (fs', Inr m)"
    using assms(1) by (auto simp: replace_exact_verified_def split: if_splits)
  with replace_attempts_exact [OF this(2) assms(2)] show ?thesis by auto
qed

theorem edit_replaces_one_occurrence_witness:
  "\<exists>m. snd ex_edit = Inr m \<and> (\<exists>a b. mu_old_content m = Some (a @ [105] @ b) \<and>
     mu_new_content m = a @ [111] @ b \<and> [105] \<noteq> [111 :: nat])"
proof -
  have "\<not> isl (snd ex_edit)" by (simp add: ex_workspace_simps)
  then obtain m where "snd ex_edit = Inr m" by (cases "snd ex_edit") auto
  then have e: "ex_edit = (fst ex_edit, Inr m)" by (metis prod.collapse)
  then have "replace_exact_verified (\<lambda>x. x) ex_ws (ex_attempt, ex_attempt, ex_attempt) None
      (lit ''a'') [105] [111] ex_fs = (fst ex_edit, Inr m)"
    by (simp add: ex_edit_def)
  from edit_replaces_one_occurrence [OF this] e show ?thesis by (metis inj_on_id2 snd_conv)
qed

end
