(* ===== verification/Images.thy ===== *)
theory Images
  imports Workspace_Text "HOL-Library.Multiset"
begin

text \<open>
  Image references and the request view of messages with images
  (\<^verbatim>\<open>domain/images.py\<close>): validation, captions, chat inputs whose text carries numbered markers,
  the placeholders that stand for images a request does not send, and the recovery levels
  after a provider refused a request for its size. Loading an image, the hash of a foreign
  image part and the digits the regular expressions accept beyond ASCII are arguments. The
  lemmas show that displaying a marked input gives back its text, which images a request
  sends, and that recovery ends with none.
\<close>

section \<open>References\<close>

record image_config =
  ic_max_edge_px :: int
  ic_normal_max_bytes :: int
  ic_detail_max_base64_bytes :: int
  ic_originals_cache_max_bytes :: int
  ic_import_max_bytes :: int
  ic_max_pixels :: int

definition image_config_ok :: "image_config \<Rightarrow> bool" where
  "image_config_ok c = list_all (\<lambda>v. 1 \<le> v) [ic_max_edge_px c, ic_normal_max_bytes c,
     ic_detail_max_base64_bytes c, ic_originals_cache_max_bytes c, ic_import_max_bytes c, ic_max_pixels c]"

record image_reference =
  ir_attachment_id :: ptext
  ir_variant_id :: ptext
  ir_mime_type :: ptext
  ir_width :: int
  ir_height :: int
  ir_size_bytes :: int
  ir_original_width :: int
  ir_original_height :: int
  ir_name :: ptext
  ir_turn_id :: "ptext option"
  ir_path :: "ptext option"

datatype image_error =
    Invalid_Image_Reference | Invalid_Image_Name | Invalid_Image_Path | Unsupported_Image_Type
  | Invalid_Image_Dimensions | Image_Store_Unavailable | Invalid_Image_Markers

definition hash_text :: "ptext \<Rightarrow> bool" where
  "hash_text h = (length h = 64 \<and> list_all (\<lambda>c. 97 \<le> c \<and> c \<le> 102 \<or> 48 \<le> c \<and> c \<le> 57) h)"

definition image_reference_check :: "image_reference \<Rightarrow> (image_error, image_reference) result" where
  "image_reference_check r =
     (if \<not> hash_text (ir_attachment_id r) \<or> \<not> hash_text (ir_variant_id r) then Inl Invalid_Image_Reference
      else if 256 < length (ir_name r) then Inl Invalid_Image_Name
      else if (case ir_path r of None \<Rightarrow> False | Some p \<Rightarrow> p = [] \<or> 4096 < length p \<or> 0 \<in> set p)
      then Inl Invalid_Image_Path
      else if ir_mime_type r \<notin> {lit ''image/png'', lit ''image/jpeg'', lit ''image/webp''}
      then Inl Unsupported_Image_Type
      else if \<not> list_all (\<lambda>v. 1 \<le> v) [ir_width r, ir_height r, ir_size_bytes r, ir_original_width r,
                 ir_original_height r] then Inl Invalid_Image_Dimensions
      else Inr r)"

text \<open>The parts of a message's content. An image part holds the fields as they were stored; a raw part
  is not a dictionary.\<close>

datatype content_part =
    Text_Part ptext
  | Image_Part image_reference
  | Url_Part "(ptext, ptext) dict"
  | Input_Image_Part
  | Other_Part ptext
  | Raw_Part ptext

datatype 'y content = Parts "content_part list" | Plain_Text ptext | Other_Content 'y

definition to_part :: "image_reference \<Rightarrow> content_part" where
  "to_part r = Image_Part r"

fun from_part :: "content_part \<Rightarrow> (image_error, image_reference) result" where
  "from_part (Image_Part r) = image_reference_check r"
| "from_part _ = Inl Invalid_Image_Reference"

definition signed_decimal :: "int \<Rightarrow> ptext" where
  "signed_decimal n = (if n < 0 then 45 # decimal (nat (- n)) else decimal (nat n))"

definition caption :: "image_reference \<Rightarrow> ptext" where
  "caption r =
     (let known = (case ir_path r of None \<Rightarrow> False | Some p \<Rightarrow> p \<noteq> []);
          location = (if known then the (ir_path r) else ir_attachment_id r);
          source = (if known then lit ''path'' else lit ''attachment ID'')
      in lit ''[Image '' @ location @ lit '': '' @ ir_name r @ lit ''; original '' @
         signed_decimal (ir_original_width r) @ lit ''x'' @ signed_decimal (ir_original_height r) @
         lit ''; sent '' @ signed_decimal (ir_width r) @ lit ''x'' @ signed_decimal (ir_height r) @ lit '', '' @
         signed_decimal (ir_size_bytes r) @
         lit '' bytes. For unreadable detail use view_image with this '' @ source @
         lit '' and a region in original, orientation-corrected pixels; '' @
         lit ''original availability depends on the image cache.]'')"

section \<open>Chat inputs\<close>

record chat_input =
  ci_text :: ptext
  ci_images :: "image_reference list"
  ci_session_id :: "ptext option"
  ci_session_generation :: "int option"
  ci_image_labels :: "ptext list"
  ci_submission_id :: "ptext option"

text \<open>\<open>nd\<close> are the characters \<^verbatim>\<open>\d\<close> stands for. The first digit of a label is not zero.\<close>

definition is_label :: "(nat \<Rightarrow> bool) \<Rightarrow> ptext \<Rightarrow> bool" where
  "is_label nd l =
     (take 8 l = lit ''[Image #'' \<and> 10 \<le> length l \<and> 49 \<le> l ! 8 \<and> l ! 8 \<le> 57 \<and>
      last l = 93 \<and> list_all nd (butlast (drop 9 l)))"

definition chat_input_check :: "(nat \<Rightarrow> bool) \<Rightarrow> chat_input \<Rightarrow> (image_error, chat_input) result" where
  "chat_input_check nd c =
     (let labels = ci_image_labels c
      in if labels \<noteq> [] \<and>
            (length labels \<noteq> length (ci_images c) \<or> \<not> list_all (is_label nd) labels \<or> \<not> distinct labels \<or>
             \<not> list_all (\<lambda>l. count_sub l (ci_text c) = 1) labels)
         then Inl Invalid_Image_Markers else Inr c)"

text \<open>\<^verbatim>\<open>text.index(label)\<close>, for a label that occurs.\<close>

definition index_of :: "ptext \<Rightarrow> ptext \<Rightarrow> nat" where
  "index_of sub t = (case split_first sub t of None \<Rightarrow> 0 | Some (a, b) \<Rightarrow> length a)"

fun place_images :: "ptext \<Rightarrow> ptext \<Rightarrow> nat \<Rightarrow> (nat \<times> ptext \<times> image_reference) list \<Rightarrow> content_part list" where
  "place_images turn t cursor [] = (if cursor < length t then [Text_Part (drop cursor t)] else [])"
| "place_images turn t cursor ((position, label, img) # rest) =
     Text_Part (take (position + length label - cursor) (drop cursor t)) #
     to_part (img\<lparr>ir_turn_id := Some turn\<rparr>) # place_images turn t (position + length label) rest"

definition chat_content :: "chat_input \<Rightarrow> ptext \<Rightarrow> 'y content" where
  "chat_content c turn =
     (if ci_images c = [] then Plain_Text (ci_text c)
      else if ci_image_labels c \<noteq> []
      then Parts (place_images turn (ci_text c) 0 (sort_key fst
             (map (\<lambda>(label, img). (index_of label (ci_text c), label, img))
               (zip (ci_image_labels c) (ci_images c)))))
      else Parts ((if ci_text c \<noteq> [] then [Text_Part (ci_text c)] else []) @
             map (\<lambda>img. to_part (img\<lparr>ir_turn_id := Some turn\<rparr>)) (ci_images c)))"

text \<open>A label at the end, also before a final newline.\<close>

definition ends_with_label :: "(nat \<Rightarrow> bool) \<Rightarrow> ptext \<Rightarrow> bool" where
  "ends_with_label nd t =
     (list_ex (\<lambda>i. is_label nd (drop i t)) [0..<length t] \<or>
      t \<noteq> [] \<and> last t = 10 \<and> list_ex (\<lambda>i. is_label nd (drop i (butlast t))) [0..<length t])"

fun display_part :: "(nat \<Rightarrow> bool) \<Rightarrow> content_part \<Rightarrow> ptext \<times> nat \<times> bool \<Rightarrow> ptext \<times> nat \<times> bool" where
  "display_part nd (Image_Part r) (t, number, previous_text) =
     (if \<not> previous_text \<or> \<not> ends_with_label nd t
      then t @ (if t \<noteq> [] then [10] else []) @ lit ''[Image #'' @ decimal (number + 1) @ [93] else t,
      number + 1, False)"
| "display_part nd (Text_Part s) (t, number, previous_text) = (t @ s, number, True)"
| "display_part nd (Raw_Part s) (t, number, previous_text) = (t, number, previous_text)"
| "display_part nd _ (t, number, previous_text) = (t, number, False)"

text \<open>The text projection of a content; an image part that does not parse raises.\<close>

fun part_text :: "content_part \<Rightarrow> (image_error, ptext list) result" where
  "part_text (Text_Part s) = Inr [s]"
| "part_text (Image_Part r) = bind_result (from_part (Image_Part r)) (\<lambda>r. Inr [caption r])"
| "part_text (Url_Part u) = Inr [lit ''[Image content; not included in this text projection]'']"
| "part_text Input_Image_Part = Inr [lit ''[Image content; not included in this text projection]'']"
| "part_text (Other_Part s) = Inr []"
| "part_text (Raw_Part s) = Inr []"

fun parts_text :: "content_part list \<Rightarrow> (image_error, ptext list) result" where
  "parts_text [] = Inr []"
| "parts_text (p # ps) = bind_result (part_text p) (\<lambda>ts. bind_result (parts_text ps) (\<lambda>us. Inr (ts @ us)))"

fun content_text :: "'y content \<Rightarrow> (image_error, ptext) result" where
  "content_text (Plain_Text s) = Inr s"
| "content_text (Parts ps) = bind_result (parts_text ps) (\<lambda>ts. Inr (join [10] ts))"
| "content_text (Other_Content y) = Inr []"

fun display_content :: "(nat \<Rightarrow> bool) \<Rightarrow> 'y content \<Rightarrow> (image_error, ptext) result" where
  "display_content nd (Parts ps) = Inr (fst (fold (display_part nd) ps ([], 0, False)))"
| "display_content nd content = content_text content"

section \<open>The request view\<close>

type_synonym ('x, 'y) image_message = "'x \<times> 'y content"

fun is_image_part :: "content_part \<Rightarrow> bool" where
  "is_image_part (Image_Part r) = True"
| "is_image_part (Url_Part u) = True"
| "is_image_part _ = False"

fun content_parts :: "'y content \<Rightarrow> content_part list" where
  "content_parts (Parts ps) = ps"
| "content_parts _ = []"

definition image_parts :: "('x, 'y) image_message list \<Rightarrow> content_part list" where
  "image_parts messages = concat (map (\<lambda>m. filter is_image_part (content_parts (snd m))) messages)"

text \<open>\<open>digest\<close> is the hash of a part the runtime did not make.\<close>

fun image_identity :: "(content_part \<Rightarrow> ptext) \<Rightarrow> content_part \<Rightarrow> ptext" where
  "image_identity digest (Image_Part r) = ir_variant_id r"
| "image_identity digest p = digest p"

record image_recovery =
  rec_level :: nat
  rec_stripped :: "ptext list"

definition new_recovery :: image_recovery where
  "new_recovery = \<lparr>rec_level = 0, rec_stripped = []\<rparr>"

definition advance ::
    "(content_part \<Rightarrow> ptext) \<Rightarrow> image_recovery \<Rightarrow> ('x, 'y) image_message list \<Rightarrow> image_recovery \<times> bool" where
  "advance digest rc messages =
     (let parts = image_parts messages
      in if parts = [] \<or> 2 \<le> rec_level rc then (rc, False)
         else if rec_level rc = 0 \<and> 2 < length parts then (rc\<lparr>rec_level := 1\<rparr>, True)
         else (rc\<lparr>rec_level := 2, rec_stripped := rec_stripped rc @ map (image_identity digest) parts\<rparr>, True))"

text \<open>What a request is made for.\<close>

record image_view =
  iv_supports_images :: bool
  iv_load_image :: "(image_reference \<Rightarrow> ptext) option"
  iv_user_turn :: bool
  iv_turn_id :: "ptext option"
  iv_recovery :: "image_recovery option"

definition other_turn :: "image_view \<Rightarrow> content_part \<Rightarrow> bool" where
  "other_turn v p = (iv_user_turn v \<and> (case p of Image_Part r \<Rightarrow> ir_turn_id r \<noteq> iv_turn_id v | _ \<Rightarrow> False))"

definition older_images :: "image_view \<Rightarrow> ('x, 'y) image_message list \<Rightarrow> nat" where
  "older_images v messages =
     (case iv_recovery v of
        None \<Rightarrow> 0
      | Some rc \<Rightarrow> if rec_level rc = 1 then length (filter (\<lambda>p. \<not> other_turn v p) (image_parts messages)) - 2 else 0)"

definition withheld :: "(content_part \<Rightarrow> ptext) \<Rightarrow> image_view \<Rightarrow> content_part \<Rightarrow> nat \<Rightarrow> string option \<times> nat" where
  "withheld digest v p older =
     (if other_turn v p then (Some ''outside the current user turn'', older)
      else if \<not> iv_supports_images v then (Some ''current model does not support image input'', older)
      else if (case iv_recovery v of None \<Rightarrow> False
                | Some rc \<Rightarrow> rec_level rc = 2 \<and> image_identity digest p \<in> set (rec_stripped rc))
      then (Some ''provider rejected request size'', older)
      else if older \<noteq> 0
      then (Some ''provider rejected request size; retaining the latest two images'', older - 1)
      else (None, older))"

definition placeholder :: "ptext \<Rightarrow> string \<Rightarrow> content_part" where
  "placeholder identity reason =
     Text_Part (lit ''[Image '' @ identity @ lit '' not sent: '' @ lit reason @ lit ''.]'')"

definition reference_identity :: "image_reference \<Rightarrow> ptext" where
  "reference_identity r = (case ir_path r of Some p \<Rightarrow> if p \<noteq> [] then p else ir_name r | None \<Rightarrow> ir_name r)"

fun project_part ::
    "(content_part \<Rightarrow> ptext) \<Rightarrow> image_view \<Rightarrow> nat \<Rightarrow> content_part \<Rightarrow> (image_error, nat \<times> content_part list) result" where
  "project_part digest v older (Image_Part r) =
     bind_result (from_part (Image_Part r)) (\<lambda>reference.
       case withheld digest v (Image_Part r) older of
         (Some reason, older') \<Rightarrow> Inr (older', [placeholder (reference_identity reference) reason])
       | (None, older') \<Rightarrow>
           (case iv_load_image v of
              None \<Rightarrow> Inl Image_Store_Unavailable
            | Some load \<Rightarrow> Inr (older', [Text_Part (caption reference), Url_Part [(lit ''url'', load reference)]])))"
| "project_part digest v older (Url_Part u) =
     (case withheld digest v (Url_Part u) older of
        (Some reason, older') \<Rightarrow> Inr (older', [placeholder (digest (Url_Part u)) reason])
      | (None, older') \<Rightarrow> Inr (older', [Url_Part u]))"
| "project_part digest v older p = Inr (older, [p])"

fun project_parts ::
    "(content_part \<Rightarrow> ptext) \<Rightarrow> image_view \<Rightarrow> nat \<Rightarrow> content_part list \<Rightarrow> (image_error, nat \<times> content_part list) result" where
  "project_parts digest v older [] = Inr (older, [])"
| "project_parts digest v older (p # ps) =
     bind_result (project_part digest v older p) (\<lambda>(older', qs).
       bind_result (project_parts digest v older' ps) (\<lambda>(older'', rs). Inr (older'', qs @ rs)))"

fun project_messages ::
    "(content_part \<Rightarrow> ptext) \<Rightarrow> image_view \<Rightarrow> nat \<Rightarrow> ('x, 'y) image_message list
      \<Rightarrow> (image_error, ('x, 'y) image_message list) result" where
  "project_messages digest v older [] = Inr []"
| "project_messages digest v older ((x, Parts ps) # ms) =
     bind_result (project_parts digest v older ps) (\<lambda>(older', qs).
       bind_result (project_messages digest v older' ms) (\<lambda>rs. Inr ((x, Parts qs) # rs)))"
| "project_messages digest v older (m # ms) =
     bind_result (project_messages digest v older ms) (\<lambda>rs. Inr (m # rs))"

definition project_images ::
    "(content_part \<Rightarrow> ptext) \<Rightarrow> image_view \<Rightarrow> ('x, 'y) image_message list
      \<Rightarrow> (image_error, ('x, 'y) image_message list) result" where
  "project_images digest v messages = project_messages digest v (older_images v messages) messages"

definition base64_bytes :: "content_part \<Rightarrow> nat" where
  "base64_bytes p =
     (case p of Url_Part u \<Rightarrow>
        let url = (case dict_get u (lit ''url'') of None \<Rightarrow> [] | Some s \<Rightarrow> s)
        in if take 5 url = lit ''data:'' \<and> 44 \<in> set url then length (tl (dropWhile (\<lambda>c. c \<noteq> 44) url)) else 0
      | _ \<Rightarrow> 0)"

definition image_request_stats :: "('x, 'y) image_message list \<Rightarrow> nat \<times> nat" where
  "image_request_stats messages =
     (length (image_parts messages), sum_list (map base64_bytes (image_parts messages)))"

section \<open>Marked inputs are displayed as written\<close>

lemma label_shape:
  assumes "is_label nd l" "\<not> nd 91" "\<not> nd 93"
  obtains m where "l = 91 # m @ [93]" "91 \<notin> set m" "93 \<notin> set m"
proof -
  have l: "take 8 l = [91, 73, 109, 97, 103, 101, 32, 35]" "10 \<le> length l" "49 \<le> l ! 8" "l ! 8 \<le> 57"
      "last l = 93" "list_all nd (butlast (drop 9 l))"
    using assms(1) by (simp_all add: is_label_def lit_def)
  have "l = take 8 l @ [l ! 8] @ drop 9 l"
    using l(2) id_take_nth_drop [of 8 l] by simp
  moreover have "drop 9 l = butlast (drop 9 l) @ [93]"
    using l(2,5) append_butlast_last_id [of "drop 9 l"] by simp
  ultimately have "l = 91 # ([73, 109, 97, 103, 101, 32, 35] @ [l ! 8] @ butlast (drop 9 l)) @ [93]"
    using l(1) by simp
  moreover have "91 \<notin> set (butlast (drop 9 l))" "93 \<notin> set (butlast (drop 9 l))"
    using l(6) assms(2,3) by (auto simp: list_all_iff)
  moreover have "l ! 8 \<noteq> 91" "l ! 8 \<noteq> 93" using l(3,4) by simp_all
  ultimately show ?thesis
    by (intro that [of "[73, 109, 97, 103, 101, 32, 35] @ [l ! 8] @ butlast (drop 9 l)"]) auto
qed

lemma labels_not_prefixed:
  assumes "is_label nd l" "is_label nd l'" "\<not> nd 91" "\<not> nd 93" "l @ x = l' @ y"
  shows "l = l'"
proof -
  obtain m where m: "l = 91 # m @ [93]" "91 \<notin> set m" "93 \<notin> set m" by (rule label_shape [OF assms(1,3,4)])
  obtain m' where m': "l' = 91 # m' @ [93]" "91 \<notin> set m'" "93 \<notin> set m'" by (rule label_shape [OF assms(2-4)])
  have eq: "m @ 93 # x = m' @ 93 # y" using assms(5) m(1) m'(1) by simp
  then have "takeWhile (\<lambda>c. c \<noteq> 93) (m @ 93 # x) = takeWhile (\<lambda>c. c \<noteq> 93) (m' @ 93 # y)" by simp
  moreover have "takeWhile (\<lambda>c. c \<noteq> 93) m = m" "takeWhile (\<lambda>c. c \<noteq> 93) m' = m'"
    using m(3) m'(3) by (auto simp: takeWhile_eq_all_conv)
  ultimately have "m = m'" by (simp add: takeWhile_tail)
  then show ?thesis using m(1) m'(1) by simp
qed

text \<open>The markers of an input, from left to right.\<close>

fun marked :: "(nat \<Rightarrow> bool) \<Rightarrow> ptext \<Rightarrow> nat \<Rightarrow> (nat \<times> ptext \<times> image_reference) list \<Rightarrow> bool" where
  "marked nd t cursor [] \<longleftrightarrow> cursor \<le> length t"
| "marked nd t cursor ((p, l, img) # rest) \<longleftrightarrow>
     cursor \<le> p \<and> take (length l) (drop p t) = l \<and> is_label nd l \<and> marked nd t (p + length l) rest"

lemma marked_le: "marked nd t c xs \<Longrightarrow> c \<le> length t"
  by (induction nd t c xs rule: marked.induct) auto

lemma ends_with_labelI:
  assumes "is_label nd l" "take (length l) (drop p t) = l" "p + length l \<le> length t"
  shows "ends_with_label nd (take (p + length l) t)"
proof -
  have "drop p (take (p + length l) t) = l" using assms(2) by (simp add: drop_take)
  moreover have "l \<noteq> []" using assms(1) by (auto simp: is_label_def)
  then have "p \<in> set [0..<length (take (p + length l) t)]" using assms(3) by simp
  ultimately show ?thesis using assms(1) unfolding ends_with_label_def list_ex_iff by metis
qed

lemma place_images_display:
  assumes "marked nd t c xs"
  shows "fst (fold (display_part nd) (place_images turn t c xs) (take c t, n, b)) = t"
  using assms
proof (induction xs arbitrary: c n b)
  case Nil
  then show ?case by auto
next
  case (Cons x xs)
  obtain p l img where x: "x = (p, l, img)" by (cases x)
  with Cons.prems have m: "c \<le> p" "take (length l) (drop p t) = l" "is_label nd l" "marked nd t (p + length l) xs"
    by auto
  have e: "p + length l \<le> length t" by (rule marked_le [OF m(4)])
  have "take c t @ take (p + length l - c) (drop c t) = take (p + length l) t"
    using m(1) by (metis le_add1 le_add_diff_inverse order_trans take_add)
  with Cons.IH [OF m(4)] ends_with_labelI [OF m(3,2) e] show ?case
    by (simp add: x to_part_def)
qed

lemma labels_do_not_overlap:
  assumes "is_label nd l" "is_label nd l'" "\<not> nd 91" "\<not> nd 93" "l \<noteq> l'" "p \<le> p'"
    and "take (length l) (drop p t) = l" "take (length l') (drop p' t) = l'"
  shows "p + length l \<le> p'"
proof (rule ccontr)
  assume over: "\<not> p + length l \<le> p'"
  obtain m where m: "l = 91 # m @ [93]" "91 \<notin> set m" "93 \<notin> set m" by (rule label_shape [OF assms(1,3,4)])
  obtain m' where m': "l' = 91 # m' @ [93]" by (rule label_shape [OF assms(2-4)])
  have "p' \<noteq> p"
  proof
    assume "p' = p"
    then have "l @ drop (length l) (drop p t) = l' @ drop (length l') (drop p t)"
      using assms(7,8) by (metis append_take_drop_id)
    with assms(1-5) labels_not_prefixed show False by blast
  qed
  then have k: "0 < p' - p" "p' - p < length l" using over assms(6) by simp_all
  have "l ! (p' - p) = drop p t ! (p' - p)" using k(2) assms(7) by (metis nth_take)
  moreover have "p \<le> length t" using assms(7) k(2) by (cases "p \<le> length t") auto
  ultimately have "t ! p' = l ! (p' - p)" using assms(6) by simp
  moreover note k
  moreover have "l ! k \<noteq> 91" if "0 < k" "k < length l" for k
  proof -
    have "l ! k = (m @ [93]) ! (k - 1)" using that m(1) by (simp add: nth_Cons')
    moreover have "(m @ [93]) ! (k - 1) \<in> set (m @ [93])" using that m(1) by (intro nth_mem) auto
    ultimately show ?thesis using m(2) by auto
  qed
  moreover have "t ! p' = 91"
  proof -
    have "drop p' t = l' @ drop (length l') (drop p' t)" using assms(8) by (metis append_take_drop_id)
    then have "hd (drop p' t) = 91" "drop p' t \<noteq> []" using m' by simp_all
    then show ?thesis by (simp add: hd_drop_conv_nth)
  qed
  ultimately show False by metis
qed

lemma markedI:
  assumes "sorted (map fst xs)" "distinct (map (fst \<circ> snd) xs)" "\<not> nd 91" "\<not> nd 93" "c \<le> length t"
    and "\<And>p l i. (p, l, i) \<in> set xs \<Longrightarrow> c \<le> p \<and> take (length l) (drop p t) = l \<and> is_label nd l"
  shows "marked nd t c xs"
  using assms
proof (induction xs arbitrary: c)
  case Nil
  then show ?case by simp
next
  case (Cons x xs)
  obtain p l i where x: "x = (p, l, i)" by (cases x)
  have here: "c \<le> p" "take (length l) (drop p t) = l" "is_label nd l" using Cons.prems(6) [of p l i] x by auto
  have "l \<noteq> []" using here(3) by (auto simp: is_label_def)
  then have "p + length l \<le> length t"
    using arg_cong [OF here(2), of length] by (cases "length t - p") (auto simp: min_def split: if_splits)
  moreover have "p + length l \<le> p' \<and> take (length l') (drop p' t) = l' \<and> is_label nd l'"
    if "(p', l', i') \<in> set xs" for p' l' i'
  proof -
    have o: "take (length l') (drop p' t) = l'" "is_label nd l'" using Cons.prems(6) [of p' l' i'] that by auto
    have "p \<le> p'" "l \<noteq> l'" using Cons.prems(1,2) that x by force+
    with labels_do_not_overlap [OF here(3) o(2) Cons.prems(3,4) _ _ here(2) o(1)] o show ?thesis by simp
  qed
  ultimately have "marked nd t (p + length l) xs"
    using Cons.prems by (intro Cons.IH) auto
  then show ?case using here x by simp
qed

lemma labelled_input_marked:
  assumes "chat_input_check nd c = Inr c'" "ci_image_labels c \<noteq> []" "\<not> nd 91" "\<not> nd 93"
  shows "marked nd (ci_text c) 0 (sort_key fst (map (\<lambda>(label, img). (index_of label (ci_text c), label, img))
    (zip (ci_image_labels c) (ci_images c))))"
proof (rule markedI)
  let ?t = "ci_text c"
  let ?xs = "map (\<lambda>(label, img). (index_of label ?t, label, img)) (zip (ci_image_labels c) (ci_images c))"
  have ok: "length (ci_image_labels c) = length (ci_images c)" "distinct (ci_image_labels c)"
      "list_all (is_label nd) (ci_image_labels c)" "list_all (\<lambda>l. count_sub l ?t = 1) (ci_image_labels c)"
    using assms(1,2) by (auto simp: chat_input_check_def Let_def split: if_splits)
  show "sorted (map fst (sort_key fst ?xs))" by simp
  have labels: "map (fst \<circ> snd) ?xs = ci_image_labels c"
    using ok(1) by (simp add: comp_def case_prod_beta map_fst_zip)
  have "mset (map (fst \<circ> snd) (sort_key fst ?xs)) = mset (map (fst \<circ> snd) ?xs)"
    unfolding mset_map mset_sort ..
  then show "distinct (map (fst \<circ> snd) (sort_key fst ?xs))"
    unfolding labels using ok(2) mset_eq_imp_distinct_iff by blast
  fix p l i assume "(p, l, i) \<in> set (sort_key fst ?xs)"
  then have l: "l \<in> set (ci_image_labels c)" "p = index_of l ?t" by (auto dest: set_zip_leftD)
  then have "count_sub l ?t = 1" "is_label nd l" using ok(3,4) by (auto simp: list_all_iff)
  then obtain a b where "split_first l ?t = Some (a, b)" "?t = a @ l @ b" by (metis count_sub_1)
  then show "0 \<le> p \<and> take (length l) (drop p ?t) = l \<and> is_label nd l"
    using l(2) \<open>is_label nd l\<close> by (simp add: index_of_def)
qed (use assms in simp_all)

lemma labelled_input_displayed:
  assumes "chat_input_check nd c = Inr c'" "ci_images c \<noteq> [] \<longrightarrow> ci_image_labels c \<noteq> []" "\<not> nd 91" "\<not> nd 93"
  shows "display_content nd (chat_content c turn) = Inr (ci_text c)"
proof (cases "ci_images c = []")
  case True
  then show ?thesis by (simp add: chat_content_def)
next
  case False
  with assms(2) have "ci_image_labels c \<noteq> []" by simp
  from place_images_display [OF labelled_input_marked [OF assms(1) this assms(3,4)], of turn 0 False]
  show ?thesis using False \<open>ci_image_labels c \<noteq> []\<close> by (simp add: chat_content_def)
qed

section \<open>Which images a request sends\<close>

abbreviation sent :: "content_part list \<Rightarrow> content_part list" where
  "sent ps \<equiv> filter is_image_part ps"

abbreviation eligible :: "image_view \<Rightarrow> content_part list \<Rightarrow> content_part list" where
  "eligible v ps \<equiv> filter (\<lambda>p. \<not> other_turn v p) (sent ps)"

lemma image_parts_simps [simp]:
  "image_parts [] = []"
  "image_parts (m # ms) = sent (content_parts (snd m)) @ image_parts ms"
  by (simp_all add: image_parts_def)

lemma placeholder_not_sent [simp]: "\<not> is_image_part (placeholder i r)"
  by (simp add: placeholder_def)

lemma project_part_cases:
  assumes "project_part digest v older p = Inr (older', qs)"
  obtains "\<not> is_image_part p" "older' = older" "qs = [p]"
  | reason where "is_image_part p" "withheld digest v p older = (Some reason, older')" "sent qs = []"
  | u where "is_image_part p" "withheld digest v p older = (None, older')" "sent qs = [Url_Part u]"
proof -
  obtain w o' where w: "withheld digest v p older = (w, o')" by (cases "withheld digest v p older")
  show thesis
  proof (cases "is_image_part p")
    case False
    with assms that(1) show thesis by (cases p) auto
  next
    case True
    show thesis
    proof (cases w)
      case None
      with assms True w have "older' = o' \<and> (\<exists>u. sent qs = [Url_Part u])"
        by (cases p) (auto split: option.splits)
      with that(3) True w None show thesis by blast
    next
      case (Some reason)
      with assms True w have "older' = o' \<and> sent qs = []" by (cases p) auto
      with that(2) True w Some show thesis by blast
    qed
  qed
qed

lemma withheld_None: "withheld digest v p older = (None, older') \<Longrightarrow> iv_supports_images v \<and> older = 0 \<and> older' = 0"
  by (auto simp: withheld_def split: if_splits)

lemma withheld_stripped:
  assumes "iv_recovery v = Some rc" "rec_level rc = 2" "image_identity digest p \<in> set (rec_stripped rc)"
  shows "withheld digest v p older \<noteq> (None, older')"
  using assms by (auto simp: withheld_def)

lemma project_part_sent:
  assumes "project_part digest v older p = Inr (older', qs)"
  shows "(\<forall>q\<in>set (sent qs). \<exists>u. q = Url_Part u) \<and>
    (sent qs \<noteq> [] \<longrightarrow> iv_supports_images v \<and> is_image_part p \<and> (\<exists>o'. withheld digest v p older = (None, o')))"
  using assms by (cases rule: project_part_cases) (auto dest: withheld_None)

lemma project_parts_sent:
  assumes "project_parts digest v older ps = Inr (older', qs)"
  shows "(\<forall>q\<in>set (sent qs). \<exists>u. q = Url_Part u) \<and>
    (sent qs \<noteq> [] \<longrightarrow> iv_supports_images v \<and>
      (\<exists>p o1 o2. p \<in> set (sent ps) \<and> withheld digest v p o1 = (None, o2)))"
  using assms
proof (induction ps arbitrary: older older' qs)
  case Nil
  then show ?case by simp
next
  case (Cons p ps)
  then obtain o1 q1 q2 where q: "project_part digest v older p = Inr (o1, q1)"
      "project_parts digest v o1 ps = Inr (older', q2)" "qs = q1 @ q2"
    by auto
  from project_part_sent [OF q(1)] Cons.IH [OF q(2)] show ?case
    unfolding q(3) by (simp, blast)
qed

lemma project_messages_sent:
  assumes "project_messages digest v older ms = Inr rs"
  shows "map fst rs = map fst ms \<and> (\<forall>q\<in>set (image_parts rs). \<exists>u. q = Url_Part u) \<and>
    (image_parts rs \<noteq> [] \<longrightarrow> iv_supports_images v \<and>
      (\<exists>p o1 o2. p \<in> set (image_parts ms) \<and> withheld digest v p o1 = (None, o2)))"
  using assms
proof (induction digest v older ms arbitrary: rs rule: project_messages.induct)
  case (2 digest v older x ps ms)
  then obtain o1 qs rs' where q: "project_parts digest v older ps = Inr (o1, qs)"
      "project_messages digest v o1 ms = Inr rs'" "rs = (x, Parts qs) # rs'"
    by auto
  from 2(1) [OF q(2)] project_parts_sent [OF q(1)] show ?case
    unfolding q(3) by (simp, blast)
qed auto

lemma project_part_count:
  assumes "project_part digest v older p = Inr (older', qs)" "iv_supports_images v"
    and "iv_recovery v = Some rc" "rec_level rc = 1"
  shows "length (sent qs) = length (eligible v [p]) - older \<and> older' = older - length (eligible v [p])"
  using assms(1)
proof (cases rule: project_part_cases)
  case 1
  then show ?thesis by simp
next
  case (2 reason)
  with assms(2-4) show ?thesis by (auto simp: withheld_def split: if_splits)
next
  case (3 u)
  with assms(2-4) show ?thesis by (auto simp: withheld_def split: if_splits)
qed

lemma project_parts_count:
  assumes "project_parts digest v older ps = Inr (older', qs)" "iv_supports_images v"
    and "iv_recovery v = Some rc" "rec_level rc = 1"
  shows "length (sent qs) = length (eligible v ps) - older \<and> older' = older - length (eligible v ps)"
  using assms(1)
proof (induction ps arbitrary: older older' qs)
  case Nil
  then show ?case by simp
next
  case (Cons p ps)
  then obtain o1 q1 q2 where q: "project_part digest v older p = Inr (o1, q1)"
      "project_parts digest v o1 ps = Inr (older', q2)" "qs = q1 @ q2"
    by auto
  have "length (eligible v (p # ps)) = length (eligible v [p]) + length (eligible v ps)" by simp
  with project_part_count [OF q(1) assms(2-4)] Cons.IH [OF q(2)] q(3) show ?case by simp
qed

lemma project_messages_count:
  assumes "project_messages digest v older ms = Inr rs" "iv_supports_images v"
    and "iv_recovery v = Some rc" "rec_level rc = 1"
  shows "length (image_parts rs) = length (filter (\<lambda>p. \<not> other_turn v p) (image_parts ms)) - older"
  using assms
proof (induction digest v older ms arbitrary: rs rule: project_messages.induct)
  case (2 digest v older x ps ms)
  then obtain o1 qs rs' where q: "project_parts digest v older ps = Inr (o1, qs)"
      "project_messages digest v o1 ms = Inr rs'" "rs = (x, Parts qs) # rs'"
    by auto
  from 2(1) [OF q(2)] 2(3-5) project_parts_count [OF q(1)] show ?case
    unfolding q(3) by simp
qed auto

lemma level_one_sends_two:
  assumes "project_images digest v ms = Inr rs" "iv_recovery v = Some rc" "rec_level rc = 1"
  shows "length (image_parts rs) \<le> 2"
proof (cases "iv_supports_images v")
  case True
  with project_messages_count [OF assms(1) [unfolded project_images_def] True assms(2,3)] assms(2,3)
  show ?thesis by (simp add: older_images_def)
next
  case False
  with project_messages_sent [OF assms(1) [unfolded project_images_def]] show ?thesis by auto
qed

lemma stripped_images_not_sent:
  assumes "project_images digest v ms = Inr rs" "iv_recovery v = Some rc" "rec_level rc = 2"
    and "image_identity digest ` set (image_parts ms) \<subseteq> set (rec_stripped rc)"
  shows "image_parts rs = []"
  using project_messages_sent [OF assms(1) [unfolded project_images_def]]
    withheld_stripped [OF assms(2,3), of digest] assms(4)
  by blast

section \<open>Properties\<close>

definition ex_image :: "nat \<Rightarrow> image_reference" where
  "ex_image n = \<lparr>ir_attachment_id = replicate 64 97, ir_variant_id = replicate 64 (97 + n), ir_mime_type = lit ''image/png'',
     ir_width = 1, ir_height = 1, ir_size_bytes = 1, ir_original_width = 1, ir_original_height = 1,
     ir_name = [120], ir_turn_id = None, ir_path = None\<rparr>"

definition ex_chat :: chat_input where
  "ex_chat = \<lparr>ci_text = lit ''a [Image #2] b [Image #1]'', ci_images = [ex_image 0, ex_image 1], ci_session_id = None,
     ci_session_generation = None, ci_image_labels = [lit ''[Image #1]'', lit ''[Image #2]''], ci_submission_id = None\<rparr>"

definition ex_request :: "(nat, unit) image_message list" where
  "ex_request = [(0, Plain_Text [104]), (1, Parts [Image_Part (ex_image 0), Text_Part [98], Image_Part (ex_image 1)]),
     (2, Parts [Image_Part (ex_image 2)])]"

definition ex_view :: "nat \<Rightarrow> ptext list \<Rightarrow> image_view" where
  "ex_view level stripped = \<lparr>iv_supports_images = True, iv_load_image = Some (\<lambda>r. []), iv_user_turn = False,
     iv_turn_id = None, iv_recovery = Some \<lparr>rec_level = level, rec_stripped = stripped\<rparr>\<rparr>"

lemmas ex_image_simps = ex_image_def ex_request_def ex_view_def project_images_def older_images_def other_turn_def
  withheld_def placeholder_def image_reference_check_def hash_text_def lit_def list_all_iff

text \<open>Images do not disturb the text of an input: when the input is accepted and its images carry
  markers, the markers keep their places in the content that is sent, and displaying that
  content gives back exactly the text the user wrote, in whatever order the images were attached.\<close>

theorem marked_input_is_displayed_as_written:
  assumes "chat_input_check nd c = Inr c'" "ci_images c \<noteq> [] \<longrightarrow> ci_image_labels c \<noteq> []" "\<not> nd 91" "\<not> nd 93"
  shows "display_content nd (chat_content c turn) = Inr (ci_text c)"
  using assms by (rule labelled_input_displayed)

theorem marked_input_is_displayed_as_written_witness:
  "display_content (\<lambda>c. 48 \<le> c \<and> c \<le> 57) (chat_content ex_chat [116]) = Inr (lit ''a [Image #2] b [Image #1]'')"
proof -
  have "chat_input_check (\<lambda>c. 48 \<le> c \<and> c \<le> 57) ex_chat = Inr ex_chat"
    by (simp add: chat_input_check_def ex_chat_def is_label_def lit_def count_sub.simps)
  from marked_input_is_displayed_as_written [OF this, of "[116]"] show ?thesis by (simp add: ex_chat_def)
qed

text \<open>A request sends only images it may send: the messages keep their order and other fields; no
  stored reference leaves, only loaded images; a model without image input gets none; after
  a first refusal for size at most the latest two are sent, and after the second none of the images that were
  stripped.\<close>

theorem request_sends_permitted_images:
  assumes "project_images digest v ms = Inr rs"
  shows "map fst rs = map fst ms \<and> (\<forall>q\<in>set (image_parts rs). \<exists>u. q = Url_Part u) \<and>
    (\<not> iv_supports_images v \<longrightarrow> image_parts rs = []) \<and>
    (\<forall>rc. iv_recovery v = Some rc \<longrightarrow> rec_level rc = 1 \<longrightarrow> length (image_parts rs) \<le> 2) \<and>
    (\<forall>rc. iv_recovery v = Some rc \<longrightarrow> rec_level rc = 2 \<longrightarrow>
       image_identity digest ` set (image_parts ms) \<subseteq> set (rec_stripped rc) \<longrightarrow> image_parts rs = [])"
  using project_messages_sent [OF assms [unfolded project_images_def]] level_one_sends_two [OF assms]
    stripped_images_not_sent [OF assms]
  by blast

theorem request_sends_permitted_images_witness:
  "\<exists>rs. project_images (\<lambda>_. []) (ex_view 1 []) ex_request = Inr rs \<and> map fst rs = [0, 1, 2] \<and>
     length (image_parts rs) \<le> 2"
proof -
  have "\<not> isl (project_images (\<lambda>_. []) (ex_view 1 []) ex_request)" by (simp add: ex_image_simps)
  then obtain rs where rs: "project_images (\<lambda>_. []) (ex_view 1 []) ex_request = Inr rs"
    by (cases "project_images (\<lambda>_. []) (ex_view 1 []) ex_request") auto
  have "map fst ex_request = [0, 1, 2]" "iv_recovery (ex_view 1 []) = Some \<lparr>rec_level = 1, rec_stripped = []\<rparr>"
    by (simp_all add: ex_request_def ex_view_def)
  with request_sends_permitted_images [OF rs] rs show ?thesis by auto
qed

text \<open>Recovery from a refused request size ends: every step raises the level, there are only two
  levels, and after the step to the last level the same messages are sent without images.\<close>

theorem size_recovery_ends:
  assumes "advance digest rc ms = (rc', True)"
  shows "rec_level rc < rec_level rc' \<and> rec_level rc' \<le> 2 \<and>
    (\<forall>v rs. rec_level rc' = 2 \<longrightarrow> iv_recovery v = Some rc' \<longrightarrow> project_images digest v ms = Inr rs \<longrightarrow>
       image_parts rs = [])"
proof -
  have level: "rec_level rc < rec_level rc'" "rec_level rc' \<le> 2"
      "rec_level rc' = 2 \<longrightarrow> image_identity digest ` set (image_parts ms) \<subseteq> set (rec_stripped rc')"
    using assms by (auto simp: advance_def Let_def split: if_splits)
  then show ?thesis using stripped_images_not_sent by blast
qed

theorem size_recovery_ends_witness:
  "rec_level \<lparr>rec_level = 0, rec_stripped = []\<rparr> <
     rec_level (fst (advance (\<lambda>_. []) \<lparr>rec_level = 0, rec_stripped = []\<rparr> ex_request))"
proof -
  have "snd (advance (\<lambda>_. []) \<lparr>rec_level = 0, rec_stripped = []\<rparr> ex_request)"
    by (simp add: advance_def ex_request_def)
  then have "advance (\<lambda>_. []) \<lparr>rec_level = 0, rec_stripped = []\<rparr> ex_request =
      (fst (advance (\<lambda>_. []) \<lparr>rec_level = 0, rec_stripped = []\<rparr> ex_request), True)"
    by (metis prod.collapse)
  from size_recovery_ends [OF this] show ?thesis by simp
qed

end
