(* ===== verification/Tool_Outcome.thy ===== *)
theory Tool_Outcome
  imports Workspace Images
begin

text \<open>
  The structured result of a tool (\<^verbatim>\<open>domain/agent/tool_outcome.py\<close>), its text projections, the
  diff it carries (\<^verbatim>\<open>domain/diff.py\<close>) and the projection of mutation receipts into
  outcomes (\<^verbatim>\<open>extensions/tools/builtin/_workspace_mutation.py\<close>). The unified diff itself, made by
  \<^verbatim>\<open>difflib\<close>, is an argument. The lemmas show that every outcome the projections build passes
  the constructor's own checks, that a write whose result differs from what was intended
  is never reported as a success, and when a legacy string result counts as a failure.
\<close>

section \<open>Outcomes\<close>

datatype outcome_status = SUCCEEDED | FAILED | DENIED | CANCELLED | TIMED_OUT

datatype error_kind =
    Kind_Denied | Kind_Invalid_Arguments | Kind_Not_Found | Kind_Interrupted | Kind_Execution | Kind_Internal

record tool_diff =
  td_path :: ptext
  td_unified :: ptext
  td_additions :: "nat option"
  td_deletions :: "nat option"
  td_original_chars :: "nat option"
  td_truncated :: bool

record tool_diagnostic =
  dg_path :: ptext
  dg_line :: nat
  dg_character :: nat
  dg_message :: ptext
  dg_severity :: ptext
  dg_code :: "ptext option"
  dg_source :: "ptext option"
  dg_end_line :: "nat option"
  dg_end_character :: "nat option"

record tool_truncation =
  tt_original_chars :: nat
  tt_original_lines :: nat
  tt_retained_chars :: nat
  tt_retained_lines :: nat
  tt_strategy :: ptext

record tool_archive_reference =
  ta_path :: ptext
  ta_media_type :: ptext
  ta_checksum_sha256 :: "ptext option"
  ta_size_bytes :: "nat option"

datatype retention_strategy = Keep_Head | Keep_Tail | Keep_Head_Tail

record tool_retention_hint =
  rh_strategy :: retention_strategy
  rh_anchor_line :: "int option"

definition check_retention_hint :: "tool_retention_hint \<Rightarrow> (string, tool_retention_hint) result" where
  "check_retention_hint h =
     (if (case rh_anchor_line h of None \<Rightarrow> False | Some l \<Rightarrow> l < 1) then Inl ''anchor_line must be positive''
      else Inr h)"

text \<open>Facts under the string keys of the metadata.\<close>

datatype fact =
    Fact_Text ptext
  | Fact_Bool bool
  | Fact_Nat nat
  | Fact_Texts "ptext list"
  | Fact_Receipt mutation_receipt
  | Fact_Verification mutation_verification
  | Fact_Results "(ptext \<times> ptext \<times> mutation_receipt \<times> ptext) list"
  | Fact_Failures "(ptext \<times> ptext \<times> nat) list"

record tool_outcome =
  to_status :: outcome_status
  to_summary :: "ptext option"
  to_content :: "ptext option"
  to_stdout :: ptext
  to_stderr :: ptext
  to_diff :: "tool_diff option"
  to_diagnostics :: "tool_diagnostic list"
  to_exit_code :: "int option"
  to_duration :: "real option"
  to_truncation :: "tool_truncation option"
  to_archive :: "tool_archive_reference option"
  to_metadata :: "(string, fact) dict"
  to_error_kind :: "error_kind option"
  to_model_content :: "ptext option"
  to_retention_hint :: tool_retention_hint
  to_images :: "image_reference list"

definition new_outcome :: tool_outcome where
  "new_outcome = \<lparr>to_status = SUCCEEDED, to_summary = None, to_content = None, to_stdout = [],
     to_stderr = [], to_diff = None, to_diagnostics = [], to_exit_code = None, to_duration = None,
     to_truncation = None, to_archive = None, to_metadata = [], to_error_kind = None,
     to_model_content = None, to_retention_hint = \<lparr>rh_strategy = Keep_Head, rh_anchor_line = None\<rparr>,
     to_images = []\<rparr>"

definition success :: "tool_outcome \<Rightarrow> bool" where
  "success o' = (to_status o' = SUCCEEDED)"

definition check_outcome :: "tool_outcome \<Rightarrow> (string, tool_outcome) result" where
  "check_outcome out =
     (if (case to_duration out of None \<Rightarrow> False | Some d \<Rightarrow> d < 0)
      then Inl ''duration_seconds cannot be negative''
      else if success out \<and> to_error_kind out \<noteq> None
      then Inl ''A successful ToolOutcome cannot have an error_kind''
      else if to_truncation out \<noteq> None \<and> to_model_content out = None
      then Inl ''truncation requires an explicit model_content projection''
      else Inr out)"

section \<open>Text projections\<close>

text \<open>\<^verbatim>\<open>str.strip\<close> on code points.\<close>

definition pt_space :: "nat \<Rightarrow> bool" where
  "pt_space c \<longleftrightarrow> 9 \<le> c \<and> c \<le> 13 \<or> 28 \<le> c \<and> c \<le> 32 \<or>
     c \<in> {0x85, 0xA0, 0x1680, 0x2028, 0x2029, 0x202F, 0x205F, 0x3000} \<or> 0x2000 \<le> c \<and> c \<le> 0x200A"

definition pt_rstrip :: "ptext \<Rightarrow> ptext" where
  "pt_rstrip t = rev (dropWhile pt_space (rev t))"

definition pt_strip :: "ptext \<Rightarrow> ptext" where
  "pt_strip t = pt_rstrip (dropWhile pt_space t)"

definition opt_text :: "ptext option \<Rightarrow> ptext" where
  "opt_text t = (case t of None \<Rightarrow> [] | Some s \<Rightarrow> s)"

definition diagnostic_line :: "tool_diagnostic \<Rightarrow> ptext" where
  "diagnostic_line d =
     dg_path d @ [58] @ decimal (dg_line d) @ [58] @ decimal (dg_character d) @ [58, 32] @ dg_severity d @
     (case dg_code d of None \<Rightarrow> [] | Some c \<Rightarrow> [32, 91] @ c @ [93]) @ [58, 32] @ dg_message d"

definition defer_status :: "tool_outcome \<Rightarrow> bool" where
  "defer_status out = (to_status out = TIMED_OUT \<or> to_status out = CANCELLED)"

definition detailed_sections :: "bool \<Rightarrow> tool_outcome \<Rightarrow> ptext list" where
  "detailed_sections include_diagnostics out =
     (if opt_text (to_content out) \<noteq> [] \<and> \<not> defer_status out then [opt_text (to_content out)]
      else if opt_text (to_summary out) \<noteq> [] \<and> to_stdout out = [] \<and> to_stderr out = [] \<and> to_diff out = None
      then [opt_text (to_summary out)] else []) @
     (if to_stdout out \<noteq> [] then [to_stdout out] else []) @
     (if to_stderr out \<noteq> [] then [lit ''[stderr]'' @ [10] @ to_stderr out] else []) @
     (if opt_text (to_content out) \<noteq> [] \<and> defer_status out then [opt_text (to_content out)] else []) @
     (case to_diff out of None \<Rightarrow> [] | Some d \<Rightarrow> if td_unified d \<noteq> [] then [td_unified d] else []) @
     (if include_diagnostics \<and> to_diagnostics out \<noteq> []
      then [join [10] (lit ''[diagnostics]'' # map diagnostic_line (to_diagnostics out))] else []) @
     (case to_exit_code out of
        None \<Rightarrow> [] | Some n \<Rightarrow> if n \<noteq> 0 then [lit ''[exit code: '' @ signed_decimal n @ [93]] else [])"

definition detailed_text :: "bool \<Rightarrow> tool_outcome \<Rightarrow> ptext" where
  "detailed_text include_diagnostics out =
     pt_strip (join [10] (map pt_rstrip (filter (\<lambda>s. s \<noteq> []) (detailed_sections include_diagnostics out))))"

definition model_text :: "tool_outcome \<Rightarrow> ptext" where
  "model_text out = (case to_model_content out of Some t \<Rightarrow> t | None \<Rightarrow> detailed_text True out)"

definition model_message_content :: "tool_outcome \<Rightarrow> 'y content" where
  "model_message_content out =
     (if to_images out = [] then Plain_Text (model_text out)
      else Parts (Text_Part (model_text out) # map to_part (to_images out)))"

definition ui_text :: "bool \<Rightarrow> tool_outcome \<Rightarrow> ptext" where
  "ui_text include_details out =
     (if \<not> include_details \<and> opt_text (to_summary out) \<noteq> [] then opt_text (to_summary out)
      else detailed_text include_details out)"

definition with_model_projection ::
    "ptext \<Rightarrow> tool_truncation option \<Rightarrow> tool_archive_reference option \<Rightarrow> tool_outcome \<Rightarrow> tool_outcome" where
  "with_model_projection t truncation archive out =
     out\<lparr>to_model_content := Some t, to_truncation := truncation,
         to_archive := (case archive of None \<Rightarrow> to_archive out | Some a \<Rightarrow> Some a)\<rparr>"

definition with_metadata :: "(string, fact) dict \<Rightarrow> tool_outcome \<Rightarrow> tool_outcome" where
  "with_metadata values out =
     out\<lparr>to_metadata := fold (\<lambda>(k, v) d. dict_set k v d) values (to_metadata out)\<rparr>"

definition with_duration :: "real \<Rightarrow> tool_outcome \<Rightarrow> tool_outcome" where
  "with_duration seconds out = out\<lparr>to_duration := Some (max 0 seconds)\<rparr>"

definition legacy_failure_text :: ptext where
  "legacy_failure_text = lit ''Tool execution failed (phase=execute, error_type=LegacyErrorResult, details=unstructured_tool_error).''"

definition from_legacy :: "ptext \<Rightarrow> bool option \<Rightarrow> error_kind option \<Rightarrow> tool_outcome" where
  "from_legacy result succeeded kind =
     (if succeeded = None \<and> take 6 result = lit ''Error:''
      then new_outcome\<lparr>to_status := FAILED, to_summary := Some (lit ''Tool execution failed''),
             to_content := Some (legacy_failure_text @ [10, 10] @ result),
             to_error_kind := Some (case kind of None \<Rightarrow> Kind_Execution | Some k \<Rightarrow> k),
             to_metadata := [(''failure_phase'', Fact_Text (lit ''execute'')),
               (''error_type'', Fact_Text (lit ''LegacyErrorResult'')),
               (''error_detail_state'', Fact_Text (lit ''unstructured_tool_error''))]\<rparr>
      else
        let status = (if succeeded \<noteq> Some False then SUCCEEDED
              else if kind = Some Kind_Denied then DENIED
              else if kind = Some Kind_Interrupted then CANCELLED else FAILED)
        in new_outcome\<lparr>to_status := status, to_content := Some result, to_error_kind := kind\<rparr>)"

section \<open>Diffs\<close>

fun normalize_newlines :: "ptext \<Rightarrow> ptext" where
  "normalize_newlines [] = []"
| "normalize_newlines [c] = [if c = 13 then 10 else c]"
| "normalize_newlines (c # d # t) =
     (if c = 13 then (if d = 10 then 10 # normalize_newlines t else 10 # normalize_newlines (d # t))
      else c # normalize_newlines (d # t))"

definition count_lines :: "nat \<Rightarrow> ptext list \<Rightarrow> nat" where
  "count_lines c ls =
     length (filter (\<lambda>l. take 1 l = [c] \<and> take 3 l \<noteq> [43, 43, 43] \<and> take 3 l \<noteq> [45, 45, 45]) ls)"

text \<open>\<open>unified old new from to\<close> stands for \<^verbatim>\<open>difflib.unified_diff\<close> on the normalised texts.\<close>

definition build_tool_diff ::
    "(ptext \<Rightarrow> ptext \<Rightarrow> ptext \<Rightarrow> ptext \<Rightarrow> ptext) \<Rightarrow> ptext \<Rightarrow> ptext \<Rightarrow> ptext \<Rightarrow> tool_diff" where
  "build_tool_diff unified old new filename =
     (let u = unified (normalize_newlines old) (normalize_newlines new)
            (lit ''a/'' @ filename) (lit ''b/'' @ filename)
      in \<lparr>td_path = filename, td_unified = u, td_additions = Some (count_lines 43 (splitlines u)),
          td_deletions = Some (count_lines 45 (splitlines u)),
          td_original_chars = Some (length (normalize_newlines old)), td_truncated = False\<rparr>)"

section \<open>Receipts in outcomes\<close>

fun verification_value :: "mutation_verification \<Rightarrow> string" where
  "verification_value APPLIED_VERIFIED = ''applied_verified''"
| "verification_value FAILED_UNCHANGED = ''failed_unchanged''"
| "verification_value DIVERGED = ''diverged''"
| "verification_value UNKNOWN = ''unknown''"

fun error_code_value :: "workspace_error_code \<Rightarrow> string" where
  "error_code_value INVALID_PATH = ''invalid_path''"
| "error_code_value PATH_OUTSIDE_WORKSPACE = ''path_outside_workspace''"
| "error_code_value NOT_FOUND = ''not_found''"
| "error_code_value NOT_A_FILE = ''not_a_file''"
| "error_code_value NOT_A_DIRECTORY = ''not_a_directory''"
| "error_code_value NOT_UNIQUE = ''not_unique''"
| "error_code_value REVISION_CONFLICT = ''revision_conflict''"
| "error_code_value IO_ERROR = ''io_error''"

definition short_revision :: "workspace_revision option \<Rightarrow> ptext" where
  "short_revision r = (case r of None \<Rightarrow> lit ''unknown'' | Some v \<Rightarrow> short_sha256 v)"

definition append_notice :: "ptext \<Rightarrow> ptext \<Rightarrow> ptext" where
  "append_notice content notice = (if content \<noteq> [] then content @ [10, 10] @ notice else notice)"

definition successful_mutation_warning :: "mutation_receipt \<Rightarrow> bool \<Rightarrow> ptext" where
  "successful_mutation_warning r edit =
     (let external = (if \<not> mr_external_change r then []
            else if edit then
              [lit ''Warning: the file changed externally after this edit was prepared. The requested exact replacement was reapplied to the latest contents.'',
               lit ''Prepared revision: '' @ short_revision (mr_expected_before r),
               lit ''Applied against: '' @ short_sha256 (mr_before r)]
            else
              [lit ''Warning: the file changed externally after this write was prepared. write_file performed the requested full-file replacement and overwrote that newer revision.'',
               lit ''Prepared revision: '' @ short_revision (mr_expected_before r),
               lit ''Overwritten revision: '' @ short_sha256 (mr_before r)]);
          lines = external @ (if mr_atomic_replace r then []
            else [lit ''Warning: the backend did not confirm an atomic replacement for this write.'']);
          verdict = (case mr_verification r of
            APPLIED_VERIFIED \<Rightarrow>
              if lines \<noteq> [] then [lit ''Verified result: '' @ short_revision (mr_observed_after r)] else []
          | DIVERGED \<Rightarrow>
              [lit ''The target does not match the intended contents after the write.'',
               lit ''Intended revision: '' @ take 12 (mr_intended_sha256 r),
               lit ''Observed revision: '' @ short_revision (mr_observed_after r),
               lit ''Read '' @ render_path (mr_path r) @ lit '' before making further edits.'']
          | UNKNOWN \<Rightarrow>
              [lit ''The target'' @ [39] @ lit ''s final contents could not be verified.'',
               lit ''Intended revision: '' @ take 12 (mr_intended_sha256 r),
               lit ''Read '' @ render_path (mr_path r) @ lit '' before making further edits.'']
          | FAILED_UNCHANGED \<Rightarrow> [])
      in join [10] (lines @ verdict))"

definition failed_mutation_notice :: "mutation_receipt \<Rightarrow> ptext \<Rightarrow> ptext \<Rightarrow> ptext" where
  "failed_mutation_notice r operation file_path =
     join [10] (case mr_verification r of
         APPLIED_VERIFIED \<Rightarrow>
           [lit ''The '' @ operation @ lit '' reported an error, but the intended contents are visible and were verified.'',
            lit ''Before: '' @ short_sha256 (mr_before r),
            lit ''Verified result: '' @ short_revision (mr_observed_after r),
            lit ''Do not retry blindly; inspect the file if later work depends on it.'']
       | FAILED_UNCHANGED \<Rightarrow>
           [lit ''The target was re-checked and still matches its pre-write contents.'',
            lit ''Unchanged revision: '' @ short_sha256 (mr_before r)]
       | DIVERGED \<Rightarrow>
           [lit ''The target changed while the write was failing. It may have been partially modified or changed externally.'',
            lit ''Before: '' @ short_sha256 (mr_before r),
            lit ''Observed after failure: '' @ short_revision (mr_observed_after r),
            lit ''Read '' @ file_path @ lit '' before making further edits.'']
       | UNKNOWN \<Rightarrow>
           [lit ''The target'' @ [39] @ lit ''s final state could not be verified after the write failed.'',
            lit ''Before: '' @ short_sha256 (mr_before r),
            lit ''Read '' @ file_path @ lit '' before making further edits.''])"

definition receipt_facts :: "mutation_receipt \<Rightarrow> (string, fact) dict" where
  "receipt_facts r = [(''mutation_receipt'', Fact_Receipt r),
     (''mutation_verification'', Fact_Verification (mr_verification r)),
     (''external_change_before_write'', Fact_Bool (mr_external_change r)),
     (''atomic_replace'', Fact_Bool (mr_atomic_replace r))]"

definition project_successful_mutation :: "tool_outcome \<Rightarrow> mutation_receipt \<Rightarrow> bool \<Rightarrow> tool_outcome" where
  "project_successful_mutation out r edit =
     (let warning = successful_mutation_warning r edit;
          projected = with_metadata (receipt_facts r) out;
          projected = (if mr_verification r = DIVERGED
            then projected\<lparr>to_status := FAILED, to_error_kind := Some Kind_Execution\<rparr> else projected)
      in if warning = [] then projected
         else
           let base = (if opt_text (to_content projected) \<noteq> [] then opt_text (to_content projected)
                  else opt_text (to_summary projected));
               projected = projected\<lparr>to_content := Some (append_notice base warning)\<rparr>
           in with_model_projection (model_text projected) None None projected)"

definition workspace_mutation_failure ::
    "workspace_error_code \<Rightarrow> ptext \<Rightarrow> mutation_receipt option \<Rightarrow> ptext \<Rightarrow> ptext \<Rightarrow> tool_outcome" where
  "workspace_mutation_failure code message receipt operation file_path =
     (let kind = (if code = NOT_FOUND then Kind_Not_Found else Kind_Execution);
          content = lit ''Error ['' @ lit (error_code_value code) @ lit '']: '' @ message;
          code_fact = (''workspace_error_code'', Fact_Text (lit (error_code_value code)))
      in case receipt of
           None \<Rightarrow> new_outcome\<lparr>to_status := FAILED, to_content := Some content,
             to_error_kind := Some kind, to_metadata := [code_fact]\<rparr>
         | Some r \<Rightarrow>
             let full = append_notice content (failed_mutation_notice r operation file_path)
             in new_outcome\<lparr>to_status := FAILED, to_content := Some full, to_model_content := Some full,
                  to_error_kind := Some kind, to_metadata := code_fact # receipt_facts r\<rparr>)"

section \<open>Stripping and joining\<close>

lemma rstrip_append: "pt_rstrip b \<noteq> [] \<Longrightarrow> pt_rstrip (a @ b) = a @ pt_rstrip b"
  by (auto simp: pt_rstrip_def dropWhile_append2 dropWhile_eq_Nil_conv dropWhile_append)

lemma rstrip_idem [simp]: "pt_rstrip (pt_rstrip t) = pt_rstrip t"
  by (simp add: pt_rstrip_def dropWhile_idem)

lemma rstrip_append_space: "pt_rstrip b = [] \<Longrightarrow> pt_rstrip (a @ b) = pt_rstrip a"
  by (auto simp: pt_rstrip_def dropWhile_eq_Nil_conv dropWhile_append)

lemma rstrip_solid_head: "\<not> pt_space c \<Longrightarrow> pt_rstrip (c # t) \<noteq> []"
  by (auto simp: pt_rstrip_def dropWhile_eq_Nil_conv)

lemma rstrip_head:
  assumes "\<not> pt_space c"
  shows "\<exists>u. pt_rstrip (c # t) = c # u"
proof (cases "pt_rstrip t = []")
  case True
  then have "pt_rstrip ([c] @ t) = pt_rstrip [c]" by (rule rstrip_append_space)
  with assms show ?thesis by (simp add: pt_rstrip_def)
next
  case False
  from rstrip_append [OF this, of "[c]"] show ?thesis by simp
qed

text \<open>A part that starts with a printing character survives \<^verbatim>\<open>strip\<close> as a whole.\<close>

lemma strip_keeps_solid:
  assumes "\<not> pt_space c"
  shows "\<exists>pre suf. pt_strip (a @ pt_rstrip (c # t) @ b) = pre @ pt_rstrip (c # t) @ suf"
proof -
  obtain u where u: "pt_rstrip (c # t) = c # u" using rstrip_head [OF assms] by blast
  then have keep: "pt_rstrip (c # u) = c # u" by (metis rstrip_idem)
  have "dropWhile pt_space (a @ c # u @ b) = dropWhile pt_space a @ c # u @ b"
    using assms by (auto simp: dropWhile_append)
  then have "pt_strip (a @ c # u @ b) = pt_rstrip ((dropWhile pt_space a @ c # u) @ b)"
    by (simp add: pt_strip_def)
  moreover have "pt_rstrip (dropWhile pt_space a @ c # u) = dropWhile pt_space a @ c # u"
    using keep rstrip_append [of "c # u"] by simp
  ultimately have "\<exists>suf. pt_strip (a @ c # u @ b) = (dropWhile pt_space a @ c # u) @ suf"
    by (metis append_Nil2 rstrip_append_space rstrip_append)
  then show ?thesis using u by auto
qed

lemma join_head: "\<exists>rest. join sep (x # xs) = x @ rest"
  by (cases xs) auto

lemma detailed_text_head:
  assumes "detailed_sections d out = s # ss" "s \<noteq> []"
  shows "\<exists>rest. detailed_text d out = pt_strip (pt_rstrip s @ rest)"
  using assms join_head [of "[10]" "pt_rstrip s"] by (auto simp: detailed_text_def) metis

lemma content_is_first_section:
  assumes "to_content out = Some c" "c \<noteq> []" "\<not> defer_status out"
  shows "\<exists>ss. detailed_sections d out = c # ss"
  using assms by (simp add: detailed_sections_def opt_text_def)

section \<open>Honest reports\<close>

text \<open>What a reader of the result has to be told.\<close>

definition exceptional :: "mutation_receipt \<Rightarrow> bool" where
  "exceptional r \<longleftrightarrow> mr_external_change r \<or> \<not> mr_atomic_replace r \<or> mr_verification r \<in> {DIVERGED, UNKNOWN}"

lemma join_starts: "xs \<noteq> [] \<Longrightarrow> hd xs = c # t \<Longrightarrow> \<exists>u. join sep xs = c # u"
  using join_head [of sep "hd xs" "tl xs"] by (cases xs) auto

lemma lit_head [simp]: "lit (ch # s) \<noteq> []" "hd (lit (ch # s)) = of_char ch"
  by (simp_all add: lit_def)

lemma warning_starts_solid:
  assumes "exceptional r"
  shows "\<exists>c t. \<not> pt_space c \<and> successful_mutation_warning r edit = c # t"
proof -
  have "\<exists>xs. successful_mutation_warning r edit = join [10] xs \<and> xs \<noteq> [] \<and> hd xs \<noteq> [] \<and>
      hd (hd xs) \<in> {84, 87}"
    unfolding successful_mutation_warning_def Let_def
    by (rule exI, rule conjI, rule refl, insert assms, cases "mr_verification r")
      (auto simp: exceptional_def)
  then obtain xs where "successful_mutation_warning r edit = join [10] xs" "xs \<noteq> []"
      "hd xs = hd (hd xs) # tl (hd xs)" "hd (hd xs) \<in> {84, 87}"
    by force
  with join_starts [of xs "hd (hd xs)" "tl (hd xs)" "[10]"] show ?thesis by (auto simp: pt_space_def)
qed

lemma no_warning: "\<not> exceptional r \<Longrightarrow> successful_mutation_warning r edit = []"
  by (cases "mr_verification r") (simp_all add: exceptional_def successful_mutation_warning_def)

lemma receipt_is_recorded:
  "dict_get (to_metadata (with_metadata (receipt_facts r) out)) ''mutation_receipt'' = Some (Fact_Receipt r)"
  by (simp add: with_metadata_def receipt_facts_def dict_get_set)

lemma warned_text:
  assumes "exceptional r" "to_model_content out = None" "\<not> defer_status out"
  shows "\<exists>pre suf. model_text (out\<lparr>to_content := Some (append_notice base (successful_mutation_warning r edit))\<rparr>)
    = pre @ pt_rstrip (successful_mutation_warning r edit) @ suf"
proof -
  obtain c t where w: "\<not> pt_space c" "successful_mutation_warning r edit = c # t"
    using warning_starts_solid [OF assms(1)] by blast
  let ?out = "out\<lparr>to_content := Some (append_notice base (c # t))\<rparr>"
  have split: "append_notice base (c # t) = (if base = [] then [] else base @ [10, 10]) @ c # t"
    by (simp add: append_notice_def)
  have "append_notice base (c # t) \<noteq> []" by (simp add: append_notice_def)
  moreover have "\<not> defer_status ?out" using assms(3) by (simp add: defer_status_def)
  ultimately obtain ss where "detailed_sections True ?out = append_notice base (c # t) # ss"
    using content_is_first_section [of ?out _ True] by fastforce
  then obtain rest where "detailed_text True ?out = pt_strip (pt_rstrip (append_notice base (c # t)) @ rest)"
    using detailed_text_head \<open>append_notice base (c # t) \<noteq> []\<close> by blast
  moreover have "pt_rstrip (append_notice base (c # t)) =
      (if base = [] then [] else base @ [10, 10]) @ pt_rstrip (c # t)"
    unfolding split by (rule rstrip_append [OF rstrip_solid_head [OF w(1)]])
  ultimately have "detailed_text True ?out =
      pt_strip ((if base = [] then [] else base @ [10, 10]) @ pt_rstrip (c # t) @ rest)"
    by simp
  then show ?thesis
    using strip_keeps_solid [OF w(1), of _ t rest] assms(2) w(2) by (simp add: model_text_def)
qed

text \<open>C31: A file-changing tool reports honestly: the outcome built from a successful write and its
  receipt is well formed and carries the receipt; it is a success unless the file was seen
  to differ from what was intended; and when another program changed the file, the
  replacement was not atomic or the result differs or is unknown, the model is shown the whole warning.\<close>

theorem mutation_reports_are_honest:
  assumes "to_status out = SUCCEEDED" "check_outcome out = Inr out" "to_model_content out = None"
  shows "check_outcome (project_successful_mutation out r edit) = Inr (project_successful_mutation out r edit) \<and>
    success (project_successful_mutation out r edit) = (mr_verification r \<noteq> DIVERGED) \<and>
    dict_get (to_metadata (project_successful_mutation out r edit)) ''mutation_receipt'' = Some (Fact_Receipt r) \<and>
    (exceptional r \<longrightarrow> (\<exists>pre suf. model_text (project_successful_mutation out r edit) =
       pre @ pt_rstrip (successful_mutation_warning r edit) @ suf \<and>
       pt_rstrip (successful_mutation_warning r edit) \<noteq> []))"
proof -
  define mid where "mid = (if mr_verification r = DIVERGED
    then (with_metadata (receipt_facts r) out)\<lparr>to_status := FAILED, to_error_kind := Some Kind_Execution\<rparr>
    else with_metadata (receipt_facts r) out)"
  define base where "base = (if opt_text (to_content mid) \<noteq> [] then opt_text (to_content mid) else opt_text (to_summary mid))"
  define w where "w = successful_mutation_warning r edit"
  have p: "project_successful_mutation out r edit = (if w = [] then mid
      else with_model_projection (model_text (mid\<lparr>to_content := Some (append_notice base w)\<rparr>)) None None
        (mid\<lparr>to_content := Some (append_notice base w)\<rparr>))"
    unfolding project_successful_mutation_def mid_def base_def w_def Let_def by simp
  have mid: "check_outcome mid = Inr mid" "success mid = (mr_verification r \<noteq> DIVERGED)"
      "to_model_content mid = None" "\<not> defer_status mid"
    using assms by (auto simp: mid_def check_outcome_def success_def with_metadata_def defer_status_def
        split: if_splits option.splits)
  have meta: "dict_get (to_metadata mid) ''mutation_receipt'' = Some (Fact_Receipt r)"
    by (simp add: mid_def receipt_is_recorded)
  have ok: "check_outcome (project_successful_mutation out r edit) = Inr (project_successful_mutation out r edit)"
    using mid(1) unfolding p
    by (auto simp: check_outcome_def with_model_projection_def success_def split: if_splits option.splits)
  have "model_text (project_successful_mutation out r edit) = model_text (mid\<lparr>to_content := Some (append_notice base w)\<rparr>)
      \<and> w \<noteq> [] \<and> pt_rstrip w \<noteq> []" if "exceptional r"
    using warning_starts_solid [OF that, of edit] rstrip_solid_head
    by (auto simp: p w_def with_model_projection_def model_text_def)
  with warned_text [of r mid base edit] mid ok meta show ?thesis
    by (auto simp: p w_def with_model_projection_def success_def)
qed

theorem mutation_reports_are_honest_witness:
  "success (project_successful_mutation new_outcome
     \<lparr>mr_path = [], mr_before = missing_revision, mr_intended_sha256 = [], mr_intended_size = 0,
      mr_observed_after = None, mr_atomic_replace = True, mr_verification = DIVERGED,
      mr_expected_before = None, mr_external_change = False\<rparr> True) = False"
proof -
  have "to_status new_outcome = SUCCEEDED" "check_outcome new_outcome = Inr new_outcome"
      "to_model_content new_outcome = None"
    by (simp_all add: new_outcome_def check_outcome_def success_def)
  from mutation_reports_are_honest [OF this, of "\<lparr>mr_path = [], mr_before = missing_revision,
      mr_intended_sha256 = [], mr_intended_size = 0, mr_observed_after = None, mr_atomic_replace = True,
      mr_verification = DIVERGED, mr_expected_before = None, mr_external_change = False\<rparr>" True]
  show ?thesis by simp
qed

text \<open>A legacy string counts as a failure exactly when it starts with the error prefix and the
  tool did not say how it went, or when the tool said that it failed.\<close>

lemma from_legacy_success:
  "success (from_legacy result succeeded kind) \<longleftrightarrow>
     succeeded = Some True \<or> succeeded = None \<and> take 6 result \<noteq> lit ''Error:''"
  by (cases succeeded) (auto simp: from_legacy_def success_def new_outcome_def Let_def)

text \<open>The constructor accepts every legacy result but a success with an error kind.\<close>

lemma from_legacy_checked:
  "check_outcome (from_legacy result succeeded kind) = Inr (from_legacy result succeeded kind) \<longleftrightarrow>
     \<not> (success (from_legacy result succeeded kind) \<and> kind \<noteq> None)"
  by (cases succeeded) (auto simp: from_legacy_def check_outcome_def success_def new_outcome_def Let_def)

end
