(* ===== verification/File_Tools.thy ===== *)
theory File_Tools
  imports Tool_Outcome
begin

text \<open>
  The file-changing tools: \<^verbatim>\<open>apply_patch\<close> (\<^verbatim>\<open>extensions/tools/builtin/patch.py\<close>),
  with its parser, hunk matching, preparation and sequence of verified writes. Every error
  the parser and the matcher raise is a constructor of \<open>patch_error\<close>. The lemmas show that
  the parser accepts exactly the documented patch language, that the in-place matching
  implements the relational meaning of a patch on texts with one newline convention, and
  which files a patch run leaves changed, also when a write fails midway.
\<close>

section \<open>Data\<close>

record hunk =
  hk_old :: "ptext list"
  hk_new :: "ptext list"

record patch_file =
  pf_path :: ptext
  pf_add :: bool
  pf_hunks :: "hunk list"

record prepared_file =
  pp_path :: ptext
  pp_old :: ptext
  pp_new :: ptext
  pp_expected :: workspace_revision

datatype patch_error =
    Patch_Too_Long
  | Patch_Envelope
  | Expected_File_Header nat
  | Empty_Path
  | Duplicate_File ptext
  | Add_Needs_Plus ptext
  | Expected_Hunk ptext nat
  | Invalid_Hunk_Line ptext ptext
  | Hunk_Without_Context ptext
  | Hunk_Without_Change ptext
  | No_Hunk ptext
  | Too_Many_Hunks
  | Too_Many_Files
  | Hunk_Not_Found ptext
  | Hunk_Not_Unique ptext
  | Unknown_Expected_Paths "ptext list"
  | Bad_Expected_Hash
  | Add_Target_Exists ptext
  | Update_Target_Missing ptext
  | Expected_Revision_Mismatch ptext
  | Patch_Workspace_Error workspace_exn

section \<open>Parsing\<close>

definition pt_starts :: "ptext \<Rightarrow> ptext \<Rightarrow> bool" where
  "pt_starts t p = (take (length p) t = p)"

definition begin_patch :: ptext where "begin_patch = lit ''*** Begin Patch''"
definition end_patch :: ptext where "end_patch = lit ''*** End Patch''"
definition add_header :: ptext where "add_header = lit ''*** Add File: ''"
definition update_header :: ptext where "update_header = lit ''*** Update File: ''"
definition stars :: ptext where "stars = lit ''*** ''"
definition at_at :: ptext where "at_at = lit ''@@''"

fun parse_added :: "ptext \<Rightarrow> ptext list \<Rightarrow> (patch_error, ptext list \<times> ptext list) result" where
  "parse_added path [] = Inr ([], [])"
| "parse_added path (l # ls) =
     (if pt_starts l stars then Inr ([], l # ls)
      else if \<not> pt_starts l [43] then Inl (Add_Needs_Plus path)
      else bind_result (parse_added path ls) (\<lambda>(added, rest). Inr (tl l # added, rest)))"

text \<open>The lines of one hunk: the old lines, the new lines and what follows the hunk.\<close>

fun parse_hunk_lines ::
    "ptext \<Rightarrow> ptext list \<Rightarrow> (patch_error, ptext list \<times> ptext list \<times> ptext list) result" where
  "parse_hunk_lines path [] = Inr ([], [], [])"
| "parse_hunk_lines path (l # ls) =
     (if pt_starts l at_at \<or> pt_starts l stars then Inr ([], [], l # ls)
      else if \<not> (pt_starts l [32] \<or> pt_starts l [45] \<or> pt_starts l [43])
      then Inl (Invalid_Hunk_Line path l)
      else bind_result (parse_hunk_lines path ls) (\<lambda>(old, new, rest).
             Inr (if pt_starts l [43] then old else tl l # old,
                  if pt_starts l [45] then new else tl l # new, rest)))"

lemma parse_added_rest: "parse_added path ls = Inr (added, rest) \<Longrightarrow> length rest \<le> length ls"
  by (induction ls arbitrary: added) (fastforce split: if_splits)+

lemma parse_hunk_lines_rest:
  "parse_hunk_lines path ls = Inr (old, new, rest) \<Longrightarrow> length rest \<le> length ls"
proof (induction ls arbitrary: old new)
  case (Cons l ls)
  then show ?case by (fastforce split: if_splits)
qed simp

text \<open>\<open>end_line\<close> is the number of the last line of the patch, so that the rest of the list tells
  the line a message names.\<close>

function parse_hunks ::
    "nat \<Rightarrow> ptext \<Rightarrow> ptext list \<Rightarrow> (patch_error, hunk list \<times> ptext list) result" where
  "parse_hunks end_line path [] = Inr ([], [])"
| "parse_hunks end_line path (l # ls) =
     (if pt_starts l update_header \<or> pt_starts l add_header then Inr ([], l # ls)
      else if \<not> pt_starts l at_at then Inl (Expected_Hunk path (end_line - length (l # ls)))
      else (case parse_hunk_lines path ls of
              Inl e \<Rightarrow> Inl e
            | Inr (old, new, rest) \<Rightarrow>
                if old = [] then Inl (Hunk_Without_Context path)
                else if old = new then Inl (Hunk_Without_Change path)
                else bind_result (parse_hunks end_line path rest) (\<lambda>(hunks, rest').
                       Inr (\<lparr>hk_old = old, hk_new = new\<rparr> # hunks, rest'))))"
  by pat_completeness auto
termination
  by (relation "measure (\<lambda>(n, path, ls). length ls)") (auto dest: parse_hunk_lines_rest)

lemma parse_hunks_rest: "parse_hunks n path ls = Inr (hunks, rest) \<Longrightarrow> length rest \<le> length ls"
proof (induction n path ls arbitrary: hunks rest rule: parse_hunks.induct)
  case (1 n path)
  then show ?case by simp
next
  case (2 n path l ls)
  show ?case
  proof (cases "pt_starts l update_header \<or> pt_starts l add_header")
    case True
    with 2(2) show ?thesis by auto
  next
    case False
    with 2(2) obtain old new r hs where "parse_hunk_lines path ls = Inr (old, new, r)"
        "parse_hunks n path r = Inr (hs, rest)" "pt_starts l at_at" "old \<noteq> []" "old \<noteq> new"
      by (auto split: sum.splits if_splits)
    with 2(1) False parse_hunk_lines_rest [of path ls old new r] show ?thesis by fastforce
  qed
qed

text \<open>The body of one file section.\<close>

definition parse_section ::
    "nat \<Rightarrow> ptext \<Rightarrow> bool \<Rightarrow> ptext list \<Rightarrow> (patch_error, hunk list \<times> ptext list) result" where
  "parse_section end_line path add ls =
     (if add
      then bind_result (parse_added path ls) (\<lambda>(added, rest). Inr ([\<lparr>hk_old = [], hk_new = added\<rparr>], rest))
      else bind_result (parse_hunks end_line path ls) (\<lambda>(hunks, rest).
             if hunks = [] then Inl (No_Hunk path) else Inr (hunks, rest)))"

lemma parse_section_rest:
  "parse_section n path add ls = Inr (hunks, rest) \<Longrightarrow> length rest \<le> length ls"
  by (auto simp: parse_section_def dest: parse_added_rest parse_hunks_rest split: if_splits)

function parse_files ::
    "nat \<Rightarrow> patch_file list \<Rightarrow> ptext list \<Rightarrow> (patch_error, patch_file list) result" where
  "parse_files end_line files [] = Inr files"
| "parse_files end_line files (l # ls) =
     (let add = pt_starts l add_header; update = pt_starts l update_header
      in if \<not> add \<and> \<not> update then Inl (Expected_File_Header (end_line - length (l # ls)))
         else
           let path = pt_strip (drop (length (if add then add_header else update_header)) l)
           in if path = [] then Inl Empty_Path
              else if path \<in> set (map pf_path files) then Inl (Duplicate_File path)
              else (case parse_section end_line path add ls of
                      Inl e \<Rightarrow> Inl e
                    | Inr (hunks, rest) \<Rightarrow>
                        if length hunks > 200 then Inl Too_Many_Hunks
                        else
                          let files' = files @ [\<lparr>pf_path = path, pf_add = add, pf_hunks = hunks\<rparr>]
                          in if length files' > 20 then Inl Too_Many_Files
                             else parse_files end_line files' rest))"
  by pat_completeness auto
termination
  by (relation "measure (\<lambda>(n, fs, ls). length ls)") (auto dest: parse_section_rest)

definition parse_patch :: "ptext \<Rightarrow> (patch_error, patch_file list) result" where
  "parse_patch patch =
     (if length patch > 256000 then Inl Patch_Too_Long
      else let lines = splitlines patch
           in if length lines < 3 \<or> hd lines \<noteq> begin_patch \<or> last lines \<noteq> end_patch
              then Inl Patch_Envelope
              else parse_files (length lines) [] (butlast (tl lines)))"

section \<open>Matching\<close>

text \<open>The newline a text uses: CRLF if it occurs anywhere.\<close>

definition newline_of :: "ptext \<Rightarrow> ptext" where
  "newline_of content = (if split_first [13, 10] content \<noteq> None then [13, 10] else [10])"

definition hunk_matches :: "ptext list \<Rightarrow> nat \<Rightarrow> ptext list \<Rightarrow> nat list" where
  "hunk_matches lines cursor old =
     filter (\<lambda>i. take (length old) (drop i lines) = old) [cursor..<length lines + 1 - length old]"

fun apply_hunk_list ::
    "ptext \<Rightarrow> ptext list \<Rightarrow> nat \<Rightarrow> hunk list \<Rightarrow> (patch_error, ptext list) result" where
  "apply_hunk_list path lines cursor [] = Inr lines"
| "apply_hunk_list path lines cursor (h # hs) =
     (case hunk_matches lines cursor (hk_old h) of
        [] \<Rightarrow> Inl (Hunk_Not_Found path)
      | [start] \<Rightarrow>
          apply_hunk_list path
            (take start lines @ hk_new h @ drop (start + length (hk_old h)) lines)
            (start + length (hk_new h)) hs
      | _ \<Rightarrow> Inl (Hunk_Not_Unique path))"

definition apply_hunks :: "ptext \<Rightarrow> hunk list \<Rightarrow> ptext \<Rightarrow> (patch_error, ptext) result" where
  "apply_hunks content hunks path =
     bind_result (apply_hunk_list path (splitlines content) 0 hunks) (\<lambda>lines.
       Inr (join (newline_of content) lines @
         (if content \<noteq> [] \<and> last content \<in> {10, 13} then newline_of content else [])))"

section \<open>Preparing and writing\<close>

definition hex_char :: "nat \<Rightarrow> bool" where
  "hex_char c \<longleftrightarrow> 48 \<le> c \<and> c \<le> 57 \<or> 65 \<le> c \<and> c \<le> 70 \<or> 97 \<le> c \<and> c \<le> 102"

definition full_hash :: "ptext \<Rightarrow> bool" where
  "full_hash v = (length v = 64 \<and> list_all hex_char v)"

definition lower_hex :: "ptext \<Rightarrow> ptext" where
  "lower_hex v = map (\<lambda>c. if 65 \<le> c \<and> c \<le> 90 then c + 32 else c) v"

definition prepare_file ::
    "(ptext \<Rightarrow> (workspace_exn, document_snapshot) result) \<Rightarrow> (ptext, ptext) dict \<Rightarrow> patch_file
      \<Rightarrow> (patch_error, prepared_file) result" where
  "prepare_file snap expected item =
     (case snap (pf_path item) of
        Inl e \<Rightarrow> Inl (Patch_Workspace_Error e)
      | Inr snapshot \<Rightarrow>
          if pf_add item then
            (if rv_exists (sn_revision snapshot) then Inl (Add_Target_Exists (pf_path item))
             else Inr \<lparr>pp_path = pf_path item, pp_old = [],
                       pp_new = join [10] (hk_new (hd (pf_hunks item))) @ [10],
                       pp_expected = missing_revision\<rparr>)
          else (case sn_content snapshot of
              None \<Rightarrow> Inl (Update_Target_Missing (pf_path item))
            | Some content \<Rightarrow>
                if (case dict_get expected (pf_path item) of
                      None \<Rightarrow> False
                    | Some wanted \<Rightarrow> rv_sha256 (sn_revision snapshot) \<noteq> Some (lower_hex wanted))
                then Inl (Expected_Revision_Mismatch (pf_path item))
                else bind_result (apply_hunks content (pf_hunks item) (pf_path item)) (\<lambda>updated.
                       Inr \<lparr>pp_path = pf_path item, pp_old = content, pp_new = updated,
                            pp_expected = sn_revision snapshot\<rparr>)))"

fun prepare_all ::
    "(ptext \<Rightarrow> (workspace_exn, document_snapshot) result) \<Rightarrow> (ptext, ptext) dict \<Rightarrow> patch_file list
      \<Rightarrow> (patch_error, prepared_file list) result" where
  "prepare_all snap expected [] = Inr []"
| "prepare_all snap expected (f # fs) =
     bind_result (prepare_file snap expected f) (\<lambda>p.
       bind_result (prepare_all snap expected fs) (\<lambda>ps. Inr (p # ps)))"

definition prepare ::
    "(ptext \<Rightarrow> (workspace_exn, document_snapshot) result) \<Rightarrow> ptext \<Rightarrow> (ptext, ptext) dict
      \<Rightarrow> (patch_error, prepared_file list) result" where
  "prepare snap patch expected =
     bind_result (parse_patch patch) (\<lambda>files.
       let unknown = filter (\<lambda>k. k \<notin> set (map pf_path files)) (keys expected)
       in if unknown \<noteq> [] then Inl (Unknown_Expected_Paths unknown)
          else if \<not> list_all full_hash (map snd expected) then Inl Bad_Expected_Hash
          else prepare_all snap expected files)"

datatype 'r patch_run =
    Patch_Refused patch_error
  | Patch_Raised patch_error
  | Patch_Unencodable
  | Patch_Stopped "ptext list" ptext workspace_exn "ptext list"
  | Patch_Applied "(prepared_file \<times> 'r) list"

text \<open>The write loop, over any workspace: \<open>wr env expected s path content\<close> is one verified write in
  its environment.\<close>

fun write_prepared ::
    "('v \<Rightarrow> workspace_revision option \<Rightarrow> 's \<Rightarrow> ptext \<Rightarrow> ptext \<Rightarrow> 's \<times> (workspace_exn, 'r) result)
      \<Rightarrow> ('v \<times> prepared_file) list \<Rightarrow> (prepared_file \<times> 'r) list \<Rightarrow> 's \<Rightarrow> 's \<times> 'r patch_run" where
  "write_prepared wr [] completed s = (s, Patch_Applied completed)"
| "write_prepared wr ((env, item) # items) completed s =
     (case wr env (Some (pp_expected item)) s (pp_path item) (pp_new item) of
        (s', Inr r) \<Rightarrow> write_prepared wr items (completed @ [(item, r)]) s'
      | (s', Inl Unicode_Encode_Error) \<Rightarrow> (s', Patch_Unencodable)
      | (s', Inl e) \<Rightarrow> (s', Patch_Stopped (map (pp_path \<circ> fst) completed) (pp_path item) e
                           (map (pp_path \<circ> snd) items)))"

text \<open>
  The whole tool: validation, a second preparation (an error there is not caught), the
  writes. \<open>between\<close> is what other programs do between the two preparations, \<open>envs\<close> the
  environments of the writes; there is one for each file, the last one for any further.
\<close>

definition with_envs :: "'v list \<Rightarrow> 'v \<Rightarrow> 'a list \<Rightarrow> ('v \<times> 'a) list" where
  "with_envs envs env items =
     map (\<lambda>i. (if i < length envs then envs ! i else env, items ! i)) [0..<length items]"

definition run_patch ::
    "('s \<Rightarrow> ptext \<Rightarrow> (workspace_exn, document_snapshot) result)
      \<Rightarrow> ('v \<Rightarrow> workspace_revision option \<Rightarrow> 's \<Rightarrow> ptext \<Rightarrow> ptext \<Rightarrow> 's \<times> (workspace_exn, 'r) result)
      \<Rightarrow> ('s \<Rightarrow> 's) \<Rightarrow> 'v list \<Rightarrow> 'v \<Rightarrow> ptext \<Rightarrow> (ptext, ptext) dict \<Rightarrow> 's \<Rightarrow> 's \<times> 'r patch_run" where
  "run_patch snap wr between envs env patch expected s =
     (case prepare (snap s) patch expected of
        Inl e \<Rightarrow> (s, Patch_Refused e)
      | Inr _ \<Rightarrow>
          let s1 = between s
          in case prepare (snap s1) patch expected of
               Inl e \<Rightarrow> (s1, Patch_Raised e)
             | Inr prepared \<Rightarrow> write_prepared wr (with_envs envs env prepared) [] s1)"

subsection \<open>Outcomes of the tools\<close>

definition patched_outcome ::
    "(ptext \<Rightarrow> ptext \<Rightarrow> ptext \<Rightarrow> ptext \<Rightarrow> ptext) \<Rightarrow> prepared_file \<times> mutation_result \<Rightarrow> tool_outcome" where
  "patched_outcome unified entry =
     (case entry of (item, result) \<Rightarrow>
        let resolved = render_path (mr_path (mu_receipt result));
            message = lit ''Patched '' @ pp_path item
        in project_successful_mutation
             (new_outcome\<lparr>to_summary := Some message, to_content := Some message,
                to_diff := Some (build_tool_diff unified (pp_old item) (pp_new item) resolved),
                to_metadata := [(''operation'', Fact_Text (lit ''apply_patch'')),
                  (''file_path'', Fact_Text (pp_path item)), (''resolved_path'', Fact_Text resolved)]\<rparr>)
             (mu_receipt result) False)"

definition applied_outcome ::
    "(ptext \<Rightarrow> ptext \<Rightarrow> ptext \<Rightarrow> ptext \<Rightarrow> ptext) \<Rightarrow> (prepared_file \<times> mutation_result) list \<Rightarrow> tool_outcome" where
  "applied_outcome unified completed =
     (let outcomes = map (patched_outcome unified) completed;
          summary = lit ''Applied patch to '' @ decimal (length completed) @ lit '' file(s)'';
          resolved = map (\<lambda>(item, result). render_path (mr_path (mu_receipt result))) completed;
          results = map (\<lambda>(item, result). (pp_path item, render_path (mr_path (mu_receipt result)),
              mu_receipt result, opt_text (map_option td_unified (to_diff (patched_outcome unified (item, result))))))
            completed;
          content = summary @ [10, 10] @ join [10, 10]
            (map (\<lambda>out. model_text out @ (case to_diff out of None \<Rightarrow> [] | Some d \<Rightarrow> 10 # td_unified d)) outcomes);
          facts = [(''operation'', Fact_Text (lit ''apply_patch'')), (''file_count'', Fact_Nat (length completed)),
            (''resolved_paths'', Fact_Texts resolved), (''file_results'', Fact_Results results),
            (''show_diff_by_default'', Fact_Bool True)]
      in case outcomes of
           [only] \<Rightarrow>
             with_metadata [(''resolved_paths'', Fact_Texts resolved), (''file_results'', Fact_Results results)]
               (with_metadata (to_metadata only)
                 (new_outcome\<lparr>to_summary := Some summary, to_content := Some content,
                    to_diff := to_diff only, to_metadata := facts\<rparr>))
         | _ \<Rightarrow> new_outcome\<lparr>to_summary := Some summary, to_content := Some content, to_metadata := facts\<rparr>)"

definition stopped_outcome ::
    "ptext list \<Rightarrow> ptext \<Rightarrow> workspace_error_code \<Rightarrow> ptext \<Rightarrow> mutation_receipt option \<Rightarrow> ptext list \<Rightarrow> tool_outcome" where
  "stopped_outcome applied failed code message receipt remaining =
     (let failure = workspace_mutation_failure code message receipt (lit ''apply_patch'') failed
      in with_metadata [(''operation'', Fact_Text (lit ''apply_patch'')), (''applied_files'', Fact_Texts applied),
           (''failed_file'', Fact_Text failed), (''unattempted_files'', Fact_Texts remaining)]
         (new_outcome\<lparr>to_status := FAILED,
            to_content := Some (lit ''Patch stopped at '' @ failed @ lit ''; '' @ decimal (length applied) @
              lit '' file(s) were already written and '' @ decimal (length remaining) @
              lit '' were not attempted.'' @ [10, 10] @ opt_text (to_content failure)),
            to_error_kind := to_error_kind failure, to_metadata := to_metadata failure\<rparr>))"

text \<open>\<^verbatim>\<open>write_file\<close> and \<^verbatim>\<open>edit_file\<close>: one verified operation, projected. \<open>encode_error\<close> is what Python
  says about a text that cannot be encoded.\<close>

definition line_count :: "ptext \<Rightarrow> nat" where
  "line_count content =
     length (filter (\<lambda>c. c = 10) content) + (if content \<noteq> [] \<and> last content \<noteq> 10 then 1 else 0)"

definition mutation_outcome ::
    "(ptext \<Rightarrow> ptext \<Rightarrow> ptext \<Rightarrow> ptext \<Rightarrow> ptext) \<Rightarrow> ptext \<Rightarrow> bool \<Rightarrow> ptext \<Rightarrow> ptext \<Rightarrow> (string, fact) dict
      \<Rightarrow> (workspace_exn, mutation_result) result \<Rightarrow> tool_outcome" where
  "mutation_outcome unified encode_error edit file_path summary extra res =
     (let operation = lit (if edit then ''edit'' else ''write'')
      in case res of
           Inr m \<Rightarrow>
             let resolved = render_path (mr_path (mu_receipt m))
             in project_successful_mutation
                  (new_outcome\<lparr>to_summary := Some summary, to_content := Some summary,
                     to_diff := Some (build_tool_diff unified (opt_text (mu_old_content m)) (mu_new_content m) resolved),
                     to_metadata := [(''operation'', Fact_Text operation), (''file_path'', Fact_Text file_path),
                       (''resolved_path'', Fact_Text resolved)] @ extra @ [(''show_diff_by_default'', Fact_Bool True)]\<rparr>)
                  (mu_receipt m) edit
         | Inl (Workspace_Error code message receipt) \<Rightarrow>
             workspace_mutation_failure code message receipt operation file_path
         | Inl Unicode_Encode_Error \<Rightarrow>
             new_outcome\<lparr>to_status := FAILED, to_content := Some (lit ''Error: '' @ encode_error),
               to_error_kind := Some Kind_Execution\<rparr>)"

definition write_file ::
    "(ptext \<Rightarrow> ptext \<Rightarrow> ptext \<Rightarrow> ptext \<Rightarrow> ptext) \<Rightarrow> ptext \<Rightarrow> (nat list \<Rightarrow> ptext) \<Rightarrow> local_workspace \<Rightarrow> os_env
      \<Rightarrow> workspace_revision option \<Rightarrow> ptext \<Rightarrow> ptext \<Rightarrow> file_system \<Rightarrow> file_system \<times> tool_outcome" where
  "write_file unified encode_error sha ws env expected file_path content fs =
     (case write_text_verified sha ws env expected file_path content fs of
        (fs', res) \<Rightarrow>
          (fs', mutation_outcome unified encode_error False file_path
                  (lit ''Wrote '' @ decimal (line_count content) @ lit '' lines to '' @ file_path)
                  [(''line_count'', Fact_Nat (line_count content))] res))"

definition validate_edit ::
    "(path \<Rightarrow> ptext option) \<Rightarrow> local_workspace \<Rightarrow> file_system \<Rightarrow> ptext \<Rightarrow> ptext \<Rightarrow> ptext \<Rightarrow> ptext option" where
  "validate_edit read_error ws fs file_path old new =
     (if file_path = [] then Some (lit ''Error: edit_file requires a valid string file_path'')
      else if old = new then Some (lit ''Error: old_string and new_string must differ'')
      else case read_text read_error ws fs file_path of
          Inl (Workspace_Error code message r) \<Rightarrow>
            Some (lit ''Error ['' @ lit (error_code_value code) @ lit '']: '' @ message)
        | Inl Unicode_Encode_Error \<Rightarrow> None
        | Inr content \<Rightarrow>
            let occurrences = count_sub old content
            in if occurrences = 0
               then Some (lit ''Error [not_found]: old_string not found in '' @ file_path @
                 lit ''. Include exact text with enough surrounding context.'')
               else if occurrences > 1
               then Some (lit ''Error [not_unique]: old_string appears '' @ decimal occurrences @
                 lit '' times in '' @ file_path @
                 lit ''. Include more surrounding lines to make it unique.'')
               else None)"

text \<open>The outcome \<^verbatim>\<open>preflight_validate\<close> makes of a rejected request.\<close>

definition preflight_rejected :: "ptext \<Rightarrow> ptext \<Rightarrow> tool_outcome" where
  "preflight_rejected name failure =
     new_outcome\<lparr>to_status := FAILED, to_summary := Some (lit ''Preflight rejected '' @ name),
       to_content := Some failure,
       to_model_content := Some (lit ''Tool call rejected [preflight_failed]: '' @ failure @ [10] @
         lit ''Correct the arguments using current conversation context and retry once. Do not repeat the unchanged tool call or invent unknown values.''),
       to_error_kind := Some Kind_Invalid_Arguments,
       to_metadata := [(''preflight_code'', Fact_Text (lit ''domain_validation_failed''))]\<rparr>"

definition edit_file ::
    "(ptext \<Rightarrow> ptext \<Rightarrow> ptext \<Rightarrow> ptext \<Rightarrow> ptext) \<Rightarrow> ptext \<Rightarrow> (nat list \<Rightarrow> ptext) \<Rightarrow> local_workspace
      \<Rightarrow> (path \<Rightarrow> ptext option) \<Rightarrow> (edit_attempt \<times> edit_attempt \<times> edit_attempt)
      \<Rightarrow> workspace_revision option \<Rightarrow> ptext \<Rightarrow> ptext \<Rightarrow> ptext \<Rightarrow> file_system \<Rightarrow> file_system \<times> tool_outcome" where
  "edit_file unified encode_error sha ws read_error attempts expected file_path old new fs =
     (case validate_edit read_error ws fs file_path old new of
        Some failure \<Rightarrow> (fs, preflight_rejected (lit ''edit_file'') failure)
      | None \<Rightarrow>
          (case replace_exact_verified sha ws attempts expected file_path old new fs of
             (fs', res) \<Rightarrow> (fs', mutation_outcome unified encode_error True file_path
                              (lit ''Edited '' @ file_path) [] res)))"

section \<open>The patch language\<close>

text \<open>
  The format the tool's description gives to the model: sections for added and for updated files, an update made
  of hunks with a heading, a hunk of context, removed and added lines. A section's path may be padded with blanks.
\<close>

datatype edit_line = Context_Line ptext | Removed_Line ptext | Added_Line ptext

fun edit_text :: "edit_line \<Rightarrow> ptext" where
  "edit_text (Context_Line t) = 32 # t"
| "edit_text (Removed_Line t) = 45 # t"
| "edit_text (Added_Line t) = 43 # t"

fun old_lines :: "edit_line list \<Rightarrow> ptext list" where
  "old_lines [] = []"
| "old_lines (Context_Line t # es) = t # old_lines es"
| "old_lines (Removed_Line t # es) = t # old_lines es"
| "old_lines (Added_Line t # es) = old_lines es"

fun new_lines :: "edit_line list \<Rightarrow> ptext list" where
  "new_lines [] = []"
| "new_lines (Context_Line t # es) = t # new_lines es"
| "new_lines (Removed_Line t # es) = new_lines es"
| "new_lines (Added_Line t # es) = t # new_lines es"

type_synonym written_hunk = "ptext \<times> edit_line list"

datatype patch_section = Add_Section ptext "ptext list" | Update_Section ptext "written_hunk list"

definition hunk_lines :: "written_hunk \<Rightarrow> ptext list" where
  "hunk_lines h = (at_at @ fst h) # map edit_text (snd h)"

definition hunk_meaning :: "written_hunk \<Rightarrow> hunk" where
  "hunk_meaning h = \<lparr>hk_old = old_lines (snd h), hk_new = new_lines (snd h)\<rparr>"

fun section_lines :: "patch_section \<Rightarrow> ptext list" where
  "section_lines (Add_Section path ls) = (add_header @ path) # map (\<lambda>l. 43 # l) ls"
| "section_lines (Update_Section path hs) = (update_header @ path) # concat (map hunk_lines hs)"

fun section_meaning :: "patch_section \<Rightarrow> patch_file" where
  "section_meaning (Add_Section path ls) =
     \<lparr>pf_path = pt_strip path, pf_add = True, pf_hunks = [\<lparr>hk_old = [], hk_new = ls\<rparr>]\<rparr>"
| "section_meaning (Update_Section path hs) =
     \<lparr>pf_path = pt_strip path, pf_add = False, pf_hunks = map hunk_meaning hs\<rparr>"

text \<open>A hunk has context or removed lines and changes something; a patch keeps the limits of the tool.\<close>

fun section_ok :: "patch_section \<Rightarrow> bool" where
  "section_ok (Add_Section path ls) \<longleftrightarrow> pt_strip path \<noteq> []"
| "section_ok (Update_Section path hs) \<longleftrightarrow> pt_strip path \<noteq> [] \<and> hs \<noteq> [] \<and> length hs \<le> 200 \<and>
     list_all (\<lambda>h. old_lines (snd h) \<noteq> [] \<and> old_lines (snd h) \<noteq> new_lines (snd h)) hs"

definition patch_ok :: "patch_section list \<Rightarrow> bool" where
  "patch_ok ss \<longleftrightarrow> ss \<noteq> [] \<and> length ss \<le> 20 \<and> list_all section_ok ss \<and>
     distinct (map (pf_path \<circ> section_meaning) ss)"

definition patch_lines :: "patch_section list \<Rightarrow> ptext list" where
  "patch_lines ss = begin_patch # concat (map section_lines ss) @ [end_patch]"

abbreviation at_stop :: "(ptext \<Rightarrow> bool) \<Rightarrow> ptext list \<Rightarrow> bool" where
  "at_stop P rest \<equiv> rest = [] \<or> P (hd rest)"

lemmas marker_simps = pt_starts_def stars_def at_at_def add_header_def update_header_def lit_def

abbreviation file_header :: "ptext \<Rightarrow> bool" where
  "file_header l \<equiv> pt_starts l update_header \<or> pt_starts l add_header"

lemma pt_starts_append [simp]: "pt_starts (p @ t) p"
  by (simp add: pt_starts_def)

lemma pt_starts_split: "pt_starts l p \<Longrightarrow> l = p @ drop (length p) l"
  by (metis append_take_drop_id pt_starts_def)

lemma pt_starts_one: "pt_starts l [c] \<longleftrightarrow> (\<exists>t. l = c # t)"
  by (cases l) (simp_all add: pt_starts_def)

lemma headers_are_starred: "file_header l \<Longrightarrow> pt_starts l stars"
proof -
  have "pt_starts l stars" if "pt_starts l (stars @ t)" for t
    using pt_starts_split [OF that] by (metis append.assoc pt_starts_append)
  moreover have "update_header = stars @ lit ''Update File: ''" "add_header = stars @ lit ''Add File: ''"
    by (simp_all add: marker_simps)
  ultimately show "file_header l \<Longrightarrow> pt_starts l stars" by metis
qed

lemma section_header: "\<exists>l. section_lines s = l # tl (section_lines s) \<and> file_header l"
  by (cases s) auto

lemma header_kinds: "pt_starts (add_header @ t) add_header" "\<not> pt_starts (add_header @ t) update_header"
  "pt_starts (update_header @ t) update_header" "\<not> pt_starts (update_header @ t) add_header" "\<not> file_header (at_at @ t)"
  by (simp_all add: marker_simps)

lemma line_markers: "\<not> pt_starts (43 # t) stars" "\<not> pt_starts (edit_text e) at_at" "\<not> pt_starts (edit_text e) stars"
  by (cases e; simp add: marker_simps)+

text \<open>The parser accepts what is written in the language and gives its meaning.\<close>

lemma parse_added_written:
  assumes "at_stop (\<lambda>l. pt_starts l stars) rest"
  shows "parse_added path (map (\<lambda>l. 43 # l) new @ rest) = Inr (new, rest)"
proof (induction new)
  case Nil
  then show ?case using assms by (cases rest) auto
next
  case (Cons x new)
  then show ?case using line_markers(1) [of x] by (simp add: pt_starts_one)
qed

lemma parse_hunk_lines_written:
  assumes "at_stop (\<lambda>l. pt_starts l at_at \<or> pt_starts l stars) rest"
  shows "parse_hunk_lines path (map edit_text es @ rest) = Inr (old_lines es, new_lines es, rest)"
proof (induction es)
  case Nil
  then show ?case using assms by (cases rest) auto
next
  case (Cons e es)
  then show ?case using line_markers(2,3) [of e] by (cases e) (simp_all add: pt_starts_one)
qed

lemma parse_hunks_written:
  assumes "list_all (\<lambda>h. old_lines (snd h) \<noteq> [] \<and> old_lines (snd h) \<noteq> new_lines (snd h)) hs" "at_stop file_header rest"
  shows "parse_hunks n path (concat (map hunk_lines hs) @ rest) = Inr (map hunk_meaning hs, rest)"
  using assms(1)
proof (induction hs)
  case Nil
  then show ?case using assms(2) by (cases rest) auto
next
  case (Cons h hs)
  let ?tail = "concat (map hunk_lines hs) @ rest"
  have "at_stop (\<lambda>l. pt_starts l at_at \<or> pt_starts l stars) ?tail"
    using assms(2) headers_are_starred by (cases hs) (auto simp: hunk_lines_def)
  with Cons parse_hunk_lines_written [of ?tail path "snd h"] header_kinds(5) show ?case
    by (simp add: hunk_lines_def [of h] hunk_meaning_def)
qed

lemma parse_section_written:
  assumes "section_ok s" "at_stop file_header rest"
  shows "parse_section n path (pf_add (section_meaning s)) (tl (section_lines s) @ rest) = Inr (pf_hunks (section_meaning s), rest)"
proof (cases s)
  case (Add_Section p ls)
  have "at_stop (\<lambda>l. pt_starts l stars) rest" using assms(2) headers_are_starred by blast
  with Add_Section parse_added_written [of rest path ls] show ?thesis by (simp add: parse_section_def)
next
  case (Update_Section p hs)
  with assms parse_hunks_written [of hs rest n path] show ?thesis by (simp add: parse_section_def)
qed

lemma parse_files_written:
  assumes "list_all section_ok ss" "distinct (map pf_path (files @ map section_meaning ss))" "length files + length ss \<le> 20"
  shows "parse_files n files (concat (map section_lines ss)) = Inr (files @ map section_meaning ss)"
  using assms
proof (induction ss arbitrary: files)
  case Nil
  then show ?case by simp
next
  case (Cons s ss)
  let ?tail = "concat (map section_lines ss)" and ?f = "section_meaning s"
  have stop: "at_stop file_header ?tail"
  proof (cases ss)
    case (Cons a rest)
    obtain l where "section_lines a = l # tl (section_lines a)" "file_header l" using section_header by blast
    then have "hd ?tail = l" using Cons by (metis append_Cons concat.simps(2) list.sel(1) list.simps(9))
    with \<open>file_header l\<close> show ?thesis by blast
  qed simp
  obtain l where l: "section_lines s = l # tl (section_lines s)" "pt_starts l add_header = pf_add ?f"
      "pt_starts l update_header = (\<not> pf_add ?f)"
      "pt_strip (drop (length (if pf_add ?f then add_header else update_header)) l) = pf_path ?f"
    using header_kinds by (cases s) auto
  have eq: "\<lparr>pf_path = pf_path ?f, pf_add = pf_add ?f, pf_hunks = pf_hunks ?f\<rparr> = ?f" by simp
  have "pf_path ?f \<noteq> []" "length (pf_hunks ?f) \<le> 200" "pf_path ?f \<notin> set (map pf_path files)" "length (files @ [?f]) \<le> 20"
    using Cons.prems by (cases s; auto)+
  moreover have "parse_files n (files @ [?f]) ?tail = Inr (files @ ?f # map section_meaning ss)"
    using Cons.IH [of "files @ [?f]"] Cons.prems by simp
  moreover have "parse_section n (pf_path ?f) (pf_add ?f) (tl (section_lines s) @ ?tail) = Inr (pf_hunks ?f, ?tail)"
    using parse_section_written [OF _ stop] Cons.prems(1) by simp
  ultimately have "parse_files n files (l # (tl (section_lines s) @ ?tail)) = Inr (files @ ?f # map section_meaning ss)"
    using l by (simp add: Let_def eq)
  then show ?case using l(1) by (metis append_Cons concat.simps(2) list.simps(9))
qed

text \<open>What the parser accepts is written in the language.\<close>

lemma parse_added_reads:
  "parse_added path ls = Inr (added, rest) \<Longrightarrow> ls = map (\<lambda>l. 43 # l) added @ rest"
proof (induction ls arbitrary: added)
  case (Cons l ls)
  then show ?case by (cases "pt_starts l stars") (auto simp: pt_starts_one split: if_splits)
qed simp

lemma parse_hunk_lines_reads:
  "parse_hunk_lines path ls = Inr (old, new, rest) \<Longrightarrow>
   \<exists>es. ls = map edit_text es @ rest \<and> old_lines es = old \<and> new_lines es = new"
proof (induction ls arbitrary: old new)
  case Nil
  then show ?case by simp
next
  case (Cons l ls)
  show ?case
  proof (cases "pt_starts l at_at \<or> pt_starts l stars")
    case True
    with Cons.prems show ?thesis by (intro exI [of _ "[]"]) auto
  next
    case False
    with Cons.prems obtain t c old' new' where l: "l = c # t" "c \<in> {32, 45, 43}"
        "parse_hunk_lines path ls = Inr (old', new', rest)"
        "old = (if c = 43 then old' else t # old')" "new = (if c = 45 then new' else t # new')"
      by (auto simp: pt_starts_one split: if_splits)
    from Cons.IH [OF l(3)] obtain es where es: "ls = map edit_text es @ rest" "old_lines es = old'" "new_lines es = new'" by blast
    from l(2) show ?thesis
    proof (elim insertE emptyE)
      assume "c = 32" with l es show ?thesis by (intro exI [of _ "Context_Line t # es"]) simp
    next
      assume "c = 45" with l es show ?thesis by (intro exI [of _ "Removed_Line t # es"]) simp
    next
      assume "c = 43" with l es show ?thesis by (intro exI [of _ "Added_Line t # es"]) simp
    qed
  qed
qed

lemma parse_hunks_reads:
  assumes "parse_hunks n path ls = Inr (hunks, rest)"
  shows "\<exists>hs. ls = concat (map hunk_lines hs) @ rest \<and> hunks = map hunk_meaning hs \<and>
    list_all (\<lambda>h. old_lines (snd h) \<noteq> [] \<and> old_lines (snd h) \<noteq> new_lines (snd h)) hs"
  using assms
proof (induction n path ls arbitrary: hunks rest rule: parse_hunks.induct)
  case (1 n path)
  then show ?case by simp
next
  case (2 n path l ls)
  show ?case
  proof (cases "file_header l")
    case True
    with 2(2) show ?thesis by (intro exI [of _ "[]"]) auto
  next
    case False
    with 2(2) obtain old new r hunks' where h: "parse_hunk_lines path ls = Inr (old, new, r)"
        "parse_hunks n path r = Inr (hunks', rest)" "pt_starts l at_at" "old \<noteq> []" "old \<noteq> new"
        "hunks = \<lparr>hk_old = old, hk_new = new\<rparr> # hunks'"
      by (auto split: sum.splits if_splits)
    from 2(1) [OF False _ h(1) refl refl] h obtain hs where hs: "r = concat (map hunk_lines hs) @ rest"
        "hunks' = map hunk_meaning hs"
        "list_all (\<lambda>h. old_lines (snd h) \<noteq> [] \<and> old_lines (snd h) \<noteq> new_lines (snd h)) hs" by auto
    from parse_hunk_lines_reads [OF h(1)] obtain es where es: "ls = map edit_text es @ r" "old_lines es = old" "new_lines es = new"
      by blast
    show ?thesis
      using pt_starts_split [OF h(3)] h(4-6) hs es
      by (intro exI [of _ "(drop (length at_at) l, es) # hs"]) (simp add: hunk_lines_def [of "(_, es)"] hunk_meaning_def)
  qed
qed

lemma parse_section_reads:
  assumes "parse_section n (pt_strip path) add ls = Inr (hunks, rest)" "pt_strip path \<noteq> []" "length hunks \<le> 200"
  obtains s where "section_ok s" "section_meaning s = \<lparr>pf_path = pt_strip path, pf_add = add, pf_hunks = hunks\<rparr>"
    "section_lines s @ rest = ((if add then add_header else update_header) @ path) # ls"
proof (cases add)
  case True
  with assms(1) obtain added where a: "parse_added (pt_strip path) ls = Inr (added, rest)" "hunks = [\<lparr>hk_old = [], hk_new = added\<rparr>]"
    by (auto simp: parse_section_def)
  with parse_added_reads [OF a(1)] True assms(2) that [of "Add_Section path added"] show ?thesis by simp
next
  case False
  with assms(1) have a: "parse_hunks n (pt_strip path) ls = Inr (hunks, rest)" "hunks \<noteq> []"
    by (auto simp: parse_section_def split: if_splits)
  from parse_hunks_reads [OF a(1)] obtain hs where "ls = concat (map hunk_lines hs) @ rest" "hunks = map hunk_meaning hs"
      "list_all (\<lambda>h. old_lines (snd h) \<noteq> [] \<and> old_lines (snd h) \<noteq> new_lines (snd h)) hs" by blast
  with False a assms(2,3) that [of "Update_Section path hs"] show ?thesis by simp
qed

lemma parse_files_reads:
  assumes "parse_files n files ls = Inr out" "distinct (map pf_path files)" "length files \<le> 20"
  shows "\<exists>ss. ls = concat (map section_lines ss) \<and> out = files @ map section_meaning ss \<and> list_all section_ok ss \<and>
    distinct (map pf_path out) \<and> length out \<le> 20"
  using assms
proof (induction n files ls arbitrary: out rule: parse_files.induct)
  case (1 n files)
  then show ?case by (intro exI [of _ "[]"]) simp
next
  case (2 n files l ls)
  define add where "add = pt_starts l add_header"
  define path where "path = drop (length (if add then add_header else update_header)) l"
  from 2(2) obtain hunks rest where h: "add \<or> pt_starts l update_header" "pt_strip path \<noteq> []"
      "pt_strip path \<notin> set (map pf_path files)"
      "parse_section n (pt_strip path) add ls = Inr (hunks, rest)" "length hunks \<le> 200" "length files < 20"
      "parse_files n (files @ [\<lparr>pf_path = pt_strip path, pf_add = add, pf_hunks = hunks\<rparr>]) rest = Inr out"
    by (auto simp: Let_def add_def path_def split: sum.splits if_splits)
  have l: "l = (if add then add_header else update_header) @ path"
    using h(1) pt_starts_split unfolding path_def add_def by (auto split: if_splits)
  obtain s where s: "section_ok s" "section_meaning s = \<lparr>pf_path = pt_strip path, pf_add = add, pf_hunks = hunks\<rparr>"
      "section_lines s @ rest = l # ls"
    using parse_section_reads [OF h(4,2,5)] l by metis
  have "\<exists>ss. rest = concat (map section_lines ss) \<and> out = (files @ [section_meaning s]) @ map section_meaning ss \<and>
      list_all section_ok ss \<and> distinct (map pf_path out) \<and> length out \<le> 20"
    using 2(1) [OF add_def refl _ refl _ _ h(4) [unfolded path_def] refl _ refl _ h(7) [unfolded path_def]] h s(2) 2(3)
    by (simp add: not_less path_def)
  then obtain ss where ss: "rest = concat (map section_lines ss)" "out = (files @ [section_meaning s]) @ map section_meaning ss"
      "list_all section_ok ss" "distinct (map pf_path out)" "length out \<le> 20" by blast
  with s show ?case by (intro exI [of _ "s # ss"]) simp
qed

lemma parse_patch_written:
  assumes "patch_ok ss" "splitlines text = patch_lines ss" "length text \<le> 256000"
  shows "parse_patch text = Inr (map section_meaning ss)"
proof -
  obtain s ss' where "ss = s # ss'" using assms(1) by (cases ss) (auto simp: patch_ok_def)
  then have "concat (map section_lines ss) \<noteq> []" using section_header [of s] by auto
  moreover have "parse_files n [] (concat (map section_lines ss)) = Inr (map section_meaning ss)" for n
    using parse_files_written [of ss "[]" n] assms(1) by (simp add: patch_ok_def)
  ultimately show ?thesis
    using assms(2,3) by (auto simp: parse_patch_def patch_lines_def butlast_append Let_def)
qed

lemma parse_patch_reads:
  assumes "parse_patch text = Inr files"
  shows "length text \<le> 256000 \<and> (\<exists>ss. patch_ok ss \<and> splitlines text = patch_lines ss \<and> files = map section_meaning ss)"
proof -
  let ?ls = "splitlines text"
  have p: "length text \<le> 256000" "3 \<le> length ?ls" "hd ?ls = begin_patch" "last ?ls = end_patch"
      "parse_files (length ?ls) [] (butlast (tl ?ls)) = Inr files"
    using assms by (auto simp: parse_patch_def Let_def split: if_splits)
  from parse_files_reads [OF p(5)] obtain ss where ss: "butlast (tl ?ls) = concat (map section_lines ss)"
      "files = map section_meaning ss" "list_all section_ok ss" "distinct (map pf_path files)" "length files \<le> 20" by auto
  obtain x xs where x: "?ls = x # xs" "xs \<noteq> []"
    using p(2) by (cases ?ls; cases "tl ?ls") auto
  then have "?ls = begin_patch # butlast xs @ [end_patch]" using p(3,4) by (metis append_butlast_last_id last.simps list.sel(1))
  then have "?ls = patch_lines ss" using ss(1) x by (simp add: patch_lines_def)
  moreover have "ss \<noteq> []" using ss(1) p(2) x by (auto simp: butlast_conv_take)
  ultimately show ?thesis using p(1) ss by (auto simp: patch_ok_def comp_def)
qed

lemma plain_append [simp]: "plain_line (a @ b) \<longleftrightarrow> plain_line a \<and> plain_line b"
  by (auto simp: plain_line_def)

lemma plain_Cons [simp]: "plain_line (c # l) \<longleftrightarrow> \<not> is_line_end c \<and> plain_line l"
  by (simp add: plain_line_def)

lemma plain_Nil [simp]: "plain_line []"
  by (simp add: plain_line_def)

section \<open>The meaning of a patch\<close>

text \<open>
  A list of hunks turns one text into another when each old block occurs exactly once in
  what follows the previous hunk, and is exchanged there for the new block.
\<close>

inductive patched :: "hunk list \<Rightarrow> ptext list \<Rightarrow> ptext list \<Rightarrow> bool" where
  no_hunk: "patched [] ls ls"
| next_hunk: "ls = pre @ hk_old h @ post \<Longrightarrow> \<forall>pre' post'. ls = pre' @ hk_old h @ post' \<longrightarrow> pre' = pre \<Longrightarrow>
    patched hs post post' \<Longrightarrow> patched (h # hs) ls (pre @ hk_new h @ post')"

inductive_simps patched_Nil: "patched [] ls ls'"
inductive_simps patched_Cons: "patched (h # hs) ls ls'"

lemma hunk_matches_set:
  "set (hunk_matches (before @ ls) (length before) old) =
     (\<lambda>pre. length before + length pre) ` {pre. \<exists>post. ls = pre @ old @ post}"
proof (intro set_eqI iffI)
  fix i assume "i \<in> set (hunk_matches (before @ ls) (length before) old)"
  then have i: "length before \<le> i" "i < Suc (length before + length ls) - length old"
      "take (length old) (drop (i - length before) ls) = old"
    by (auto simp: hunk_matches_def)
  have "ls = take (i - length before) ls @ old @ drop (length old) (drop (i - length before) ls)"
    using i(3) by (metis append_take_drop_id)
  moreover have "i = length before + length (take (i - length before) ls)" using i(1,2) by auto
  ultimately show "i \<in> (\<lambda>pre. length before + length pre) ` {pre. \<exists>post. ls = pre @ old @ post}" by blast
next
  fix i assume "i \<in> (\<lambda>pre. length before + length pre) ` {pre. \<exists>post. ls = pre @ old @ post}"
  then show "i \<in> set (hunk_matches (before @ ls) (length before) old)"
    by (auto simp: hunk_matches_def)
qed

lemma distinct_singleton: "distinct xs \<Longrightarrow> xs = [x] \<longleftrightarrow> set xs = {x}"
  by (cases xs; cases "tl xs") auto

lemma hunk_match_unique:
  "hunk_matches (before @ ls) (length before) old = [start] \<longleftrightarrow>
     (\<exists>pre post. ls = pre @ old @ post \<and> start = length before + length pre \<and>
       (\<forall>pre' post'. ls = pre' @ old @ post' \<longrightarrow> pre' = pre))"
proof -
  have d: "distinct (hunk_matches (before @ ls) (length before) old)" by (simp add: hunk_matches_def)
  have same: "pre' = pre" if "ls = pre @ old @ post" "ls = pre' @ old @ post'" "length pre' = length pre"
    for pre post pre' post'
    using that by auto
  show ?thesis
  proof
    assume "hunk_matches (before @ ls) (length before) old = [start]"
    then have one: "(\<lambda>pre. length before + length pre) ` {pre. \<exists>post. ls = pre @ old @ post} = {start}"
      by (simp add: distinct_singleton [OF d] hunk_matches_set)
    then obtain pre post where p: "ls = pre @ old @ post" "start = length before + length pre" by blast
    moreover have "pre' = pre" if "ls = pre' @ old @ post'" for pre' post'
    proof (rule same [OF p(1) that])
      have "length before + length pre' \<in>
          (\<lambda>pre. length before + length pre) ` {pre. \<exists>post. ls = pre @ old @ post}"
        using that by blast
      then show "length pre' = length pre" using one p(2) by simp
    qed
    ultimately show "\<exists>pre post. ls = pre @ old @ post \<and> start = length before + length pre \<and>
       (\<forall>pre' post'. ls = pre' @ old @ post' \<longrightarrow> pre' = pre)"
      by blast
  next
    assume "\<exists>pre post. ls = pre @ old @ post \<and> start = length before + length pre \<and>
       (\<forall>pre' post'. ls = pre' @ old @ post' \<longrightarrow> pre' = pre)"
    then obtain pre where "{pre. \<exists>post. ls = pre @ old @ post} = {pre}" "start = length before + length pre"
      by blast
    then show "hunk_matches (before @ ls) (length before) old = [start]"
      by (simp add: distinct_singleton [OF d] hunk_matches_set)
  qed
qed

lemma apply_hunk_list_iff:
  "apply_hunk_list path (before @ ls) (length before) hs = Inr out \<longleftrightarrow>
     (\<exists>ls'. patched hs ls ls' \<and> out = before @ ls')"
proof (induction hs arbitrary: before ls)
  case Nil
  then show ?case by (auto simp: patched_Nil)
next
  case (Cons h hs)
  let ?m = "hunk_matches (before @ ls) (length before) (hk_old h)"
  show ?case
  proof (cases "\<exists>start. ?m = [start]")
    case True
    then obtain start where m: "?m = [start]" by blast
    then obtain pre post where pp: "ls = pre @ hk_old h @ post" "start = length before + length pre"
        "\<forall>pre' post'. ls = pre' @ hk_old h @ post' \<longrightarrow> pre' = pre"
      unfolding hunk_match_unique by blast
    have "apply_hunk_list path (before @ ls) (length before) (h # hs) =
        apply_hunk_list path ((before @ pre @ hk_new h) @ post) (length (before @ pre @ hk_new h)) hs"
      using m pp(1,2) by (simp add: add.assoc)
    also have "\<dots> = Inr out \<longleftrightarrow> (\<exists>ls'. patched hs post ls' \<and> out = (before @ pre @ hk_new h) @ ls')"
      by (rule Cons.IH)
    also have "\<dots> \<longleftrightarrow> (\<exists>ls'. patched (h # hs) ls ls' \<and> out = before @ ls')"
    proof
      assume "\<exists>ls'. patched hs post ls' \<and> out = (before @ pre @ hk_new h) @ ls'"
      then obtain ls' where "patched hs post ls'" "out = before @ (pre @ hk_new h @ ls')" by auto
      with next_hunk [OF pp(1) pp(3)] show "\<exists>ls'. patched (h # hs) ls ls' \<and> out = before @ ls'" by blast
    next
      assume "\<exists>ls'. patched (h # hs) ls ls' \<and> out = before @ ls'"
      then obtain pre2 post2 post' where "ls = pre2 @ hk_old h @ post2" "patched hs post2 post'"
          "out = before @ pre2 @ hk_new h @ post'"
        unfolding patched_Cons by blast
      with pp show "\<exists>ls'. patched hs post ls' \<and> out = (before @ pre @ hk_new h) @ ls'" by auto
    qed
    finally show ?thesis .
  next
    case False
    then have "\<nexists>y. apply_hunk_list path (before @ ls) (length before) (h # hs) = Inr y"
      by (cases ?m rule: list.exhaust) (auto split: list.splits)
    moreover have "\<not> patched (h # hs) ls ls'" for ls'
      using False unfolding patched_Cons hunk_match_unique by blast
    ultimately show ?thesis by blast
  qed
qed

lemma apply_hunks_meaning:
  assumes "uniform_text nl ls suffix" "newline_of (join nl ls @ suffix) = nl"
  shows "apply_hunks (join nl ls @ suffix) hunks path = Inr new \<longleftrightarrow>
    (\<exists>ls'. patched hunks ls ls' \<and> new = join nl ls' @ suffix)"
proof -
  let ?c = "join nl ls @ suffix"
  have nl: "nl = [10] \<or> nl = [13, 10]" "list_all plain_line ls"
      "suffix = [] \<and> (ls = [] \<or> last ls \<noteq> []) \<or> suffix = nl \<and> ls \<noteq> []"
    using assms(1) by (auto simp: uniform_text_def)
  have "(if ?c \<noteq> [] \<and> last ?c \<in> {10, 13} then nl else []) = suffix"
  proof (cases "suffix = []")
    case False
    then have "suffix = nl" using nl by auto
    then show ?thesis using nl by auto
  next
    case True
    have "last (join nl ls) \<notin> {10, 13}" if "ls \<noteq> []" "last ls \<noteq> []"
    proof -
      have "join nl ls \<noteq> [] \<and> last (join nl ls) = last (last ls)"
        using that by (induction ls) (auto simp: join_Cons)
      moreover have "plain_line (last ls)" using nl(2) that by (simp add: list_all_iff)
      ultimately show ?thesis using that by (metis (no_types, lifting) empty_iff insert_iff is_line_end_def last_in_set plain_line_def)
    qed
    with True nl show ?thesis by (cases "ls = []") auto
  qed
  moreover have "splitlines ?c = ls" by (rule splitlines_join [OF assms(1)])
  ultimately show ?thesis
    using apply_hunk_list_iff [of path "[]" ls hunks] assms(2) by (auto simp: apply_hunks_def)
qed

section \<open>The write sequence\<close>

text \<open>What a run reports about the files written and the files left.\<close>

fun reports :: "'r patch_run \<Rightarrow> ptext list \<Rightarrow> ptext list \<Rightarrow> bool" where
  "reports (Patch_Applied completed) written todo \<longleftrightarrow> todo = [] \<and> map (pp_path \<circ> fst) completed = written"
| "reports (Patch_Stopped applied failed e unattempted) written todo \<longleftrightarrow>
     applied = written \<and> todo = failed # unattempted"
| "reports Patch_Unencodable written todo \<longleftrightarrow> todo \<noteq> []"
| "reports (Patch_Refused e) written todo \<longleftrightarrow> written = []"
| "reports (Patch_Raised e) written todo \<longleftrightarrow> written = []"

locale patch_port = workspace_port ok content_at put place text_ok
  for ok :: "'s \<Rightarrow> bool" and content_at :: "'s \<Rightarrow> ptext \<Rightarrow> ptext option"
    and put :: "'v \<Rightarrow> 's \<Rightarrow> ptext \<Rightarrow> ptext \<Rightarrow> 's \<times> (workspace_exn, 'r) result"
    and place :: "ptext \<Rightarrow> 'l" and text_ok :: "ptext \<Rightarrow> bool" +
  fixes wr :: "'w \<Rightarrow> workspace_revision option \<Rightarrow> 's \<Rightarrow> ptext \<Rightarrow> ptext \<Rightarrow> 's \<times> (workspace_exn, 'r) result"
    and mode :: "'w \<Rightarrow> workspace_revision option \<Rightarrow> 'v"
  assumes wr_put: "wr env e s p c = put (mode env e) s p c"
begin

lemma write_prepared_effect:
  assumes "write_prepared wr items completed s = (s', run)" "ok s"
    and "distinct (map (place \<circ> pp_path \<circ> snd) items)" "list_all (text_ok \<circ> pp_new \<circ> snd) items"
  shows "\<exists>written todo. map snd items = written @ todo \<and>
    reports run (map (pp_path \<circ> fst) completed @ map pp_path written) (map pp_path todo) \<and>
    (\<forall>p\<in>set written. content_at s' (pp_path p) = Some (pp_new p)) \<and>
    (\<forall>q d. content_at s q = Some d \<longrightarrow> place q \<notin> (place \<circ> pp_path) ` set written \<longrightarrow>
       content_at s' q = Some d)"
  using assms
proof (induction items arbitrary: completed s)
  case Nil
  then show ?case by auto
next
  case (Cons x items)
  obtain env item where x: "x = (env, item)" by (cases x)
  obtain s1 res where v: "wr env (Some (pp_expected item)) s (pp_path item) (pp_new item) = (s1, res)"
    by (metis surj_pair)
  then have w: "put (mode env (Some (pp_expected item))) s (pp_path item) (pp_new item) = (s1, res)"
    by (simp add: wr_put)
  have ok1: "ok s1" by (rule put_ok [OF Cons.prems(2) w])
  show ?case
  proof (cases res)
    case (Inl e)
    then have "s' = s1" "reports run (map (pp_path \<circ> fst) completed) (map (pp_path \<circ> snd) (x # items))"
      using Cons.prems(1) v x by (cases e; auto)+
    then show ?thesis
      using put_failed [OF Cons.prems(2) w [unfolded Inl]]
      by (intro exI [of _ "[]"] exI [of _ "map snd (x # items)"]) (simp add: comp_def)
  next
    case (Inr r)
    have rest: "write_prepared wr items (completed @ [(item, r)]) s1 = (s', run)"
      using Cons.prems(1) v x Inr by simp
    have "distinct (map (place \<circ> pp_path \<circ> snd) items)" "list_all (text_ok \<circ> pp_new \<circ> snd) items"
      using Cons.prems(3,4) by (simp_all add: comp_def)
    from Cons.IH [OF rest ok1 this] obtain written todo where i: "map snd items = written @ todo"
        "reports run (map (pp_path \<circ> fst) (completed @ [(item, r)]) @ map pp_path written) (map pp_path todo)"
        "\<forall>p\<in>set written. content_at s' (pp_path p) = Some (pp_new p)"
        "\<forall>q d. content_at s1 q = Some d \<longrightarrow> place q \<notin> (place \<circ> pp_path) ` set written \<longrightarrow> content_at s' q = Some d"
      by blast
    have fresh: "place (pp_path item) \<notin> (place \<circ> pp_path) ` set (written @ todo)"
      using Cons.prems(3) x unfolding i(1) [symmetric] by (auto simp: image_comp comp_def)
    have "content_at s1 (pp_path item) = Some (pp_new item)"
      using put_read [OF Cons.prems(2) w [unfolded Inr]] Cons.prems(4) x by simp
    then have "content_at s' (pp_path item) = Some (pp_new item)" using i(4) fresh by auto
    moreover have "content_at s' q = Some d" if "content_at s q = Some d"
        "place q \<notin> (place \<circ> pp_path) ` set (item # written)" for q d
      using that i(4) put_other [OF Cons.prems(2) w, of q d] by auto
    ultimately show ?thesis
      using i(1-3) x by - (rule exI [of _ "item # written"], rule exI [of _ todo], auto simp: comp_def)
  qed
qed

end

definition local_write ::
    "(nat list \<Rightarrow> ptext) \<Rightarrow> local_workspace \<Rightarrow> write_fault \<times> int \<Rightarrow> workspace_revision option
      \<Rightarrow> file_system \<Rightarrow> ptext \<Rightarrow> ptext \<Rightarrow> file_system \<times> (workspace_exn, mutation_result) result" where
  "local_write sha ws env expected fs path content =
     write_text_verified sha ws (calm (fst env) (snd env)) expected path content fs"

interpretation local_patch: patch_port tree "local_content sha ws" "local_put sha ws"
  "resolve_path ws" unicode "local_write sha ws" "\<lambda>env e. (fst env, snd env, e)" for sha ws
  by unfold_locales (simp add: local_write_def local_put_def)

text \<open>What a file section asks for: the text before (if the file exists) and the text after.\<close>

definition changed_as :: "patch_file \<Rightarrow> ptext option \<Rightarrow> ptext \<Rightarrow> bool" where
  "changed_as f old new \<longleftrightarrow>
     (if pf_add f then old = None \<and> new = join [10] (hk_new (hd (pf_hunks f))) @ [10]
      else (\<exists>c. old = Some c \<and> apply_hunks c (pf_hunks f) (pf_path f) = Inr new))"

lemma snapshot_content:
  assumes "snapshot_text sha (\<lambda>_. None) ws fs path = Inr s"
  shows "local_content sha ws fs path = sn_content s"
    and "\<not> rv_exists (sn_revision s) \<Longrightarrow> sn_content s = None"
  using assms
  by (auto simp: local_content_def snapshot_text_def snapshot_at_def file_revision_def
      split: if_splits option.splits node.splits)

lemma prepare_all_spec:
  assumes "prepare_all (snapshot_text sha (\<lambda>_. None) ws fs) expected files = Inr prepared"
  shows "list_all2 (\<lambda>f p. pp_path p = pf_path f \<and>
    changed_as f (local_content sha ws fs (pf_path f)) (pp_new p)) files prepared"
  using assms
proof (induction files arbitrary: prepared)
  case Nil
  then show ?case by simp
next
  case (Cons f files)
  then obtain p ps where p: "prepare_file (snapshot_text sha (\<lambda>_. None) ws fs) expected f = Inr p"
      "prepare_all (snapshot_text sha (\<lambda>_. None) ws fs) expected files = Inr ps" "prepared = p # ps"
    by auto
  then obtain s where s: "snapshot_text sha (\<lambda>_. None) ws fs (pf_path f) = Inr s"
    by (auto simp: prepare_file_def split: sum.splits)
  have "pp_path p = pf_path f \<and> changed_as f (local_content sha ws fs (pf_path f)) (pp_new p)"
    using p(1) s snapshot_content [OF s]
    by (auto simp: prepare_file_def changed_as_def split: if_splits option.splits)
  with Cons.IH p show ?case by simp
qed

lemma map_snd_with_envs [simp]: "map snd (with_envs envs env items) = items"
  by (simp add: with_envs_def map_nth comp_def)

lemma comp_with_envs:
  "map (f \<circ> snd) (with_envs envs env items) = map f items"
  "list_all (P \<circ> snd) (with_envs envs env items) = list_all P items"
  by (metis map_map map_snd_with_envs) (metis list.pred_map map_snd_with_envs)

lemma patch_run_effect:
  assumes "run_patch (snapshot_text sha (\<lambda>_. None) ws) (local_write sha ws) (\<lambda>fs. fs) envs env patch expected fs
      = (fs', run)"
    and "prepare (snapshot_text sha (\<lambda>_. None) ws fs) patch expected = Inr prepared"
    and "tree fs" "distinct (map (resolve_path ws \<circ> pp_path) prepared)" "list_all (unicode \<circ> pp_new) prepared"
  shows "\<exists>written todo. parse_patch patch = Inr (written @ todo) \<and>
    reports run (map pf_path written) (map pf_path todo) \<and>
    (\<forall>f\<in>set written. \<exists>new. changed_as f (local_content sha ws fs (pf_path f)) new \<and>
       local_content sha ws fs' (pf_path f) = Some new) \<and>
    (\<forall>q d. local_content sha ws fs q = Some d \<longrightarrow> resolve_path ws q \<notin> (resolve_path ws \<circ> pf_path) ` set written \<longrightarrow>
       local_content sha ws fs' q = Some d)"
proof -
  obtain files where files: "parse_patch patch = Inr files"
      "prepare_all (snapshot_text sha (\<lambda>_. None) ws fs) expected files = Inr prepared"
    using assms(2) by (auto simp: prepare_def Let_def split: if_splits)
  note spec = prepare_all_spec [OF files(2)]
  have "write_prepared (local_write sha ws) (with_envs envs env prepared) [] fs = (fs', run)"
    using assms(1,2) by (simp add: run_patch_def)
  from local_patch.write_prepared_effect [OF this assms(3)] assms(4,5)
  obtain written todo where w: "prepared = written @ todo" "reports run (map pp_path written) (map pp_path todo)"
      "\<forall>p\<in>set written. local_content sha ws fs' (pp_path p) = Some (pp_new p)"
      "\<forall>q d. local_content sha ws fs q = Some d \<longrightarrow> resolve_path ws q \<notin> (resolve_path ws \<circ> pp_path) ` set written \<longrightarrow>
         local_content sha ws fs' q = Some d"
    by (auto simp: comp_with_envs)
  from spec obtain fw ft where f: "files = fw @ ft"
      "list_all2 (\<lambda>f p. pp_path p = pf_path f \<and> changed_as f (local_content sha ws fs (pf_path f)) (pp_new p)) fw written"
      "list_all2 (\<lambda>f p. pp_path p = pf_path f \<and> changed_as f (local_content sha ws fs (pf_path f)) (pp_new p)) ft todo"
    unfolding w(1) by (auto simp: list_all2_append2)
  have paths: "map pp_path ps = map pf_path gs" if "list_all2 (\<lambda>f p. pp_path p = pf_path f \<and> Q f p) gs ps"
    for gs ps and Q :: "patch_file \<Rightarrow> prepared_file \<Rightarrow> bool"
    using that by induction auto
  have written: "(\<lambda>p. g (pp_path p)) ` set written = (\<lambda>f. g (pf_path f)) ` set fw" for g :: "ptext \<Rightarrow> 'b"
    using paths [OF f(2)] by (metis image_image list.set_map)
  have "\<exists>new. changed_as f (local_content sha ws fs (pf_path f)) new \<and> local_content sha ws fs' (pf_path f) = Some new"
    if "f \<in> set fw" for f
  proof -
    from that f(2) obtain p where "p \<in> set written" "pp_path p = pf_path f"
        "changed_as f (local_content sha ws fs (pf_path f)) (pp_new p)"
      by (auto simp: in_set_conv_nth list_all2_conv_all_nth) blast
    with w(3) show ?thesis by metis
  qed
  moreover have "reports run (map pf_path fw) (map pf_path ft)" using w(2) paths [OF f(2)] paths [OF f(3)] by simp
  ultimately show ?thesis
    using files(1) f(1) w(4) written [of "resolve_path ws"]
    by - (rule exI [of _ fw], rule exI [of _ ft], simp add: comp_def)
qed

section \<open>Properties\<close>

text \<open>An update of a file that exchanges its only line.\<close>

definition ex_sections :: "patch_section list" where
  "ex_sections = [Update_Section [97, 32] [([32], [Removed_Line [104, 105], Added_Line [72], Added_Line []])]]"

definition patch_text :: "patch_section list \<Rightarrow> ptext" where
  "patch_text ss = join [10] (patch_lines ss)"

lemma parse_patch_text:
  assumes "patch_ok ss" "list_all plain_line (patch_lines ss)" "length (patch_text ss) \<le> 256000"
  shows "parse_patch (patch_text ss) = Inr (map section_meaning ss)"
proof (rule parse_patch_written [OF assms(1) _ assms(3)])
  have "uniform_text [10] (patch_lines ss) []"
    using assms(2) by (simp add: uniform_text_def patch_lines_def end_patch_def lit_def)
  from splitlines_join [OF this] show "splitlines (patch_text ss) = patch_lines ss" by (simp add: patch_text_def)
qed

lemmas patch_eval = patch_ok_def patch_lines_def patch_text_def hunk_lines_def hunk_meaning_def begin_patch_def end_patch_def
  pt_strip_def pt_rstrip_def pt_space_def is_line_end_def marker_simps

definition ex_patch :: "patch_file list" where
  "ex_patch = [\<lparr>pf_path = [97], pf_add = False, pf_hunks = [\<lparr>hk_old = [[104, 105]], hk_new = [[72], []]\<rparr>]\<rparr>]"

definition ex_run :: "file_system \<times> mutation_result patch_run" where
  "ex_run = run_patch (snapshot_text (\<lambda>x. x) (\<lambda>_. None) ex_ws) (local_write (\<lambda>x. x) ex_ws) (\<lambda>fs. fs) [] ((None, [], False), 7)
     (patch_text ex_sections) [] ex_fs"

lemma ex_patch_parses: "parse_patch (patch_text ex_sections) = Inr ex_patch"
proof -
  have "parse_patch (patch_text ex_sections) = Inr (map section_meaning ex_sections)"
    by (rule parse_patch_text) (simp_all add: ex_sections_def patch_eval)
  then show ?thesis by (simp add: ex_sections_def ex_patch_def patch_eval)
qed

lemma ex_prepared:
  "prepare (snapshot_text (\<lambda>x. x) (\<lambda>_. None) ex_ws ex_fs) (patch_text ex_sections) [] =
     Inr [\<lparr>pp_path = [97], pp_old = [104, 105], pp_new = [72, 10],
           pp_expected = file_revision (\<lambda>x. x) [104, 105] (Some 1)\<rparr>]"
  unfolding prepare_def ex_patch_parses
  by (simp add: ex_patch_def prepare_file_def ex_workspace_simps apply_hunks_def hunk_matches_def newline_of_def
      splitlines_def is_line_end_def dict_get_def)

text \<open>C30: The parser accepts exactly the documented patch language and gives each text its meaning: a text of at
  most 256000 characters is accepted if and only if its lines are the envelope around one to twenty sections with
  distinct non-blank paths, added files made of added lines only, updates of one to two hundred hunks, each with context
  or removed lines and changing something. The old block of a hunk is then its context and removed lines, the
  new block its context and added lines, in order.\<close>

theorem parser_accepts_patch_language:
  "parse_patch text = Inr files \<longleftrightarrow>
     length text \<le> 256000 \<and> (\<exists>ss. patch_ok ss \<and> splitlines text = patch_lines ss \<and> files = map section_meaning ss)"
  using parse_patch_written parse_patch_reads by blast

text \<open>C29: Hunks mean what they say: on a text with one newline convention, applying hunks succeeds
  exactly when each old block occurs exactly once in what follows the previous hunk, and
  the result is the text with these blocks exchanged, in the same convention and with the
  same final newline.\<close>

theorem hunks_replace_unique_blocks:
  assumes "uniform_text nl ls suffix" "newline_of (join nl ls @ suffix) = nl"
  shows "apply_hunks (join nl ls @ suffix) hunks path = Inr new \<longleftrightarrow>
    (\<exists>ls'. patched hunks ls ls' \<and> new = join nl ls' @ suffix)"
  using assms by (rule apply_hunks_meaning)

theorem hunks_replace_unique_blocks_witness:
  "\<exists>ls'. patched [\<lparr>hk_old = [[98]], hk_new = [[99], [100]]\<rparr>] [[97], [98]] ls' \<and>
     [97, 13, 10, 99, 13, 10, 100, 13, 10] = join [13, 10] ls' @ [13, 10]"
proof -
  have c: "join [13, 10] [[97], [98]] @ [13, 10] = [97, 13, 10, 98, 13, 10]" by simp
  have "apply_hunks (join [13, 10] [[97], [98]] @ [13, 10]) [\<lparr>hk_old = [[98]], hk_new = [[99], [100]]\<rparr>] []
      = Inr [97, 13, 10, 99, 13, 10, 100, 13, 10]"
    unfolding c by (simp add: apply_hunks_def hunk_matches_def newline_of_def splitlines_def is_line_end_def
        after_end_def drop_lf_def upt_rec)
  moreover have "uniform_text [13, 10] [[97], [98]] [13, 10]"
    by (simp add: uniform_text_def plain_line_def is_line_end_def)
  moreover have "newline_of (join [13, 10] [[97], [98]] @ [13, 10]) = [13, 10]" by (simp add: newline_of_def)
  ultimately show ?thesis using hunks_replace_unique_blocks by blast
qed

text \<open>C27: A patch changes what it says and reports what it changed: without interference, the files
  before the point where the run stopped are exactly the ones reported as written, each
  holds its old text with its section applied (an added file did not exist before), every
  other readable file is unchanged, and the run is reported as applied only when every file was written. The
  sections are assumed to name different files.\<close>

theorem patch_changes_what_it_reports:
  assumes "run_patch (snapshot_text sha (\<lambda>_. None) ws) (local_write sha ws) (\<lambda>fs. fs) envs env patch expected fs
      = (fs', run)"
    and "prepare (snapshot_text sha (\<lambda>_. None) ws fs) patch expected = Inr prepared"
    and "tree fs" "distinct (map (resolve_path ws \<circ> pp_path) prepared)" "list_all (unicode \<circ> pp_new) prepared"
  shows "\<exists>written todo. parse_patch patch = Inr (written @ todo) \<and>
    reports run (map pf_path written) (map pf_path todo) \<and>
    (\<forall>f\<in>set written. \<exists>new. changed_as f (local_content sha ws fs (pf_path f)) new \<and>
       local_content sha ws fs' (pf_path f) = Some new) \<and>
    (\<forall>q d. local_content sha ws fs q = Some d \<longrightarrow> resolve_path ws q \<notin> (resolve_path ws \<circ> pf_path) ` set written \<longrightarrow>
       local_content sha ws fs' q = Some d)"
  using assms by (rule patch_run_effect)

theorem patch_changes_what_it_reports_witness:
  "\<exists>written todo. parse_patch (patch_text ex_sections) = Inr (written @ todo) \<and>
     reports (snd ex_run) (map pf_path written) (map pf_path todo)"
proof -
  have "ex_run = (fst ex_run, snd ex_run)" by simp
  note run = this [unfolded ex_run_def]
  have "tree ex_fs"
    by (auto simp: tree_def ex_fs_def ancestors_def lit_def less_Suc_eq take_Cons' split: if_splits)
  moreover have "distinct (map (resolve_path ex_ws \<circ> pp_path) [\<lparr>pp_path = [97], pp_old = [104, 105],
      pp_new = [72, 10], pp_expected = file_revision (\<lambda>x. x) [104, 105] (Some 1)\<rparr>])"
    by simp
  moreover have "list_all (unicode \<circ> pp_new) [\<lparr>pp_path = [97], pp_old = [104, 105],
      pp_new = [72, 10], pp_expected = file_revision (\<lambda>x. x) [104, 105] (Some 1)\<rparr>]"
    by (simp add: unicode_def)
  ultimately show ?thesis
    using patch_changes_what_it_reports [OF run ex_prepared] unfolding ex_run_def by blast
qed

section \<open>Where the tool falls short of its description\<close>

text \<open>The summary of an applied patch is a success whatever the receipts say, also when one of them
  says that the file differs from what was intended.\<close>

lemma applied_patch_always_succeeds: "success (applied_outcome unified completed)"
  by (simp add: applied_outcome_def Let_def success_def new_outcome_def with_metadata_def split: list.split)

text \<open>Lines the patch does not touch change too: a form feed is a line end for the splitter and becomes a newline.\<close>

lemma patch_rewrites_form_feeds:
  "apply_hunks [97, 12, 98, 10, 99, 10] [\<lparr>hk_old = [[99]], hk_new = [[100]]\<rparr>] [] = Inr [97, 10, 98, 10, 100, 10]"
  by (simp add: apply_hunks_def hunk_matches_def newline_of_def splitlines_def is_line_end_def
      after_end_def drop_lf_def upt_rec)

text \<open>Two sections whose paths are spelled differently but name one file pass the check for
  duplicates; the second overwrites the first, and both are reported as applied.\<close>

definition ex_alias_ws :: local_workspace where
  "ex_alias_ws = \<lparr>lw_root = [lit ''w''], lw_grants = [], lw_resolve = (\<lambda>path. Inr [lit ''w'', [97]])\<rparr>"

definition ex_alias_sections :: "patch_section list" where
  "ex_alias_sections = [Update_Section [97] [([], [Removed_Line [104, 105], Added_Line [72]])],
     Update_Section [46, 47, 97] [([], [Removed_Line [104, 105], Added_Line [74]])]]"

definition ex_alias :: "patch_file list" where
  "ex_alias =
     [\<lparr>pf_path = [97], pf_add = False, pf_hunks = [\<lparr>hk_old = [[104, 105]], hk_new = [[72]]\<rparr>]\<rparr>,
      \<lparr>pf_path = [46, 47, 97], pf_add = False, pf_hunks = [\<lparr>hk_old = [[104, 105]], hk_new = [[74]]\<rparr>]\<rparr>]"

lemma ex_alias_parses: "parse_patch (patch_text ex_alias_sections) = Inr ex_alias"
proof -
  have "parse_patch (patch_text ex_alias_sections) = Inr (map section_meaning ex_alias_sections)"
    by (rule parse_patch_text) (simp_all add: ex_alias_sections_def patch_eval)
  then show ?thesis by (simp add: ex_alias_sections_def ex_alias_def patch_eval)
qed

lemma aliased_sections_lose_a_change:
  "case run_patch (snapshot_text (\<lambda>x. x) (\<lambda>_. None) ex_alias_ws) (local_write (\<lambda>x. x) ex_alias_ws)
       (\<lambda>fs. fs) [] ((None, [], False), 7) (patch_text ex_alias_sections) [] ex_fs of
     (fs', Patch_Applied completed) \<Rightarrow> map (pp_new \<circ> fst) completed = [[72], [74]] \<and>
       local_content (\<lambda>x. x) ex_alias_ws fs' [97] = Some [74]
   | _ \<Rightarrow> False"
proof -
  have p: "prepare (snapshot_text (\<lambda>x. x) (\<lambda>_. None) ex_alias_ws ex_fs) (patch_text ex_alias_sections) [] =
     Inr [\<lparr>pp_path = [97], pp_old = [104, 105], pp_new = [72],
           pp_expected = file_revision (\<lambda>x. x) [104, 105] (Some 1)\<rparr>,
          \<lparr>pp_path = [46, 47, 97], pp_old = [104, 105], pp_new = [74],
           pp_expected = file_revision (\<lambda>x. x) [104, 105] (Some 1)\<rparr>]"
    unfolding prepare_def ex_alias_parses
    by (simp add: ex_alias_def ex_alias_ws_def prepare_file_def ex_workspace_simps apply_hunks_def
        hunk_matches_def newline_of_def splitlines_def is_line_end_def dict_get_def)
  show ?thesis
    unfolding run_patch_def Let_def p sum.case
    by (simp add: with_envs_def ex_alias_ws_def local_write_def write_text_verified_def ex_workspace_simps
        local_content_def)
qed

end
