(* ===== verification/Secret_Filter.thy ===== *)
theory Secret_Filter
  imports Workspace_Text
begin

text \<open>
  The output filter of \<^verbatim>\<open>domain/process_manager.py\<close> that replaces hidden input in the output of a
  process by a marker, chunk by chunk, and the bounded tail a polling consumer keeps. A chunk's end that may be the start of a
  hidden value is held back until the next chunk. The lemmas show that no hidden value ever
  passes in the clear, however the output is cut into chunks; that the cutting does not
  matter at all when no value begins with another; and that it does otherwise.
\<close>

section \<open>The filter\<close>

definition hidden_input_marker :: ptext where
  "hidden_input_marker = lit ''[hidden input redacted]''"

definition starts :: "ptext \<Rightarrow> ptext \<Rightarrow> bool" where
  "starts t v = (take (length v) t = v)"

text \<open>What the loop appends: the marker for a hidden value, or one character.\<close>

datatype piece_out = Hidden | Shown nat

fun piece_text :: "piece_out \<Rightarrow> ptext" where
  "piece_text Hidden = hidden_input_marker"
| "piece_text (Shown c) = [c]"

text \<open>The scan of one text: what is put out and what is held back.\<close>

function filter_scan :: "ptext list \<Rightarrow> bool \<Rightarrow> ptext \<Rightarrow> piece_out list \<times> ptext" where
  "filter_scan vs final [] = ([], [])"
| "filter_scan vs final (c # t) =
     (case find (\<lambda>v. v \<noteq> [] \<and> starts (c # t) v) vs of
        Some v \<Rightarrow> (case filter_scan vs final (drop (length v) (c # t)) of (out, pending) \<Rightarrow> (Hidden # out, pending))
      | None \<Rightarrow>
          if \<not> final \<and> list_ex (\<lambda>v. starts v (c # t)) vs then ([], c # t)
          else (case filter_scan vs final t of (out, pending) \<Rightarrow> (Shown c # out, pending)))"
  by pat_completeness auto
termination
  by (relation "measure (\<lambda>(vs, final, t). length t)") (auto simp: find_Some_iff)

definition scan_order :: "ptext list \<Rightarrow> ptext list" where
  "scan_order secrets = sorted_desc (\<lambda>v. int (length v)) (filter (\<lambda>v. v \<noteq> []) secrets)"

definition apply_pieces :: "ptext list \<Rightarrow> ptext \<Rightarrow> ptext \<Rightarrow> bool \<Rightarrow> piece_out list \<times> ptext" where
  "apply_pieces secrets pending chunk final =
     (let t = pending @ chunk
      in if t = [] \<or> secrets = [] then (map Shown t, []) else filter_scan (scan_order secrets) final t)"

text \<open>\<open>apply_filter secrets pending chunk final\<close>: the text that passes and the new held-back text.\<close>

definition apply_filter :: "ptext list \<Rightarrow> ptext \<Rightarrow> ptext \<Rightarrow> bool \<Rightarrow> ptext \<times> ptext" where
  "apply_filter secrets pending chunk final =
     (case apply_pieces secrets pending chunk final of
        (out, pending') \<Rightarrow> (concat (map piece_text out), pending'))"

section \<open>A whole stream\<close>

fun stream_pieces :: "ptext list \<Rightarrow> ptext \<Rightarrow> ptext list \<Rightarrow> ptext \<Rightarrow> piece_out list" where
  "stream_pieces secrets pending [] end_chunk = fst (apply_pieces secrets pending end_chunk True)"
| "stream_pieces secrets pending (chunk # chunks) end_chunk =
     (case apply_pieces secrets pending chunk False of
        (out, pending') \<Rightarrow> out @ stream_pieces secrets pending' chunks end_chunk)"

text \<open>What passes when the chunks arrive one after the other and the last with the exit of the process.\<close>

fun stream_text :: "ptext list \<Rightarrow> ptext \<Rightarrow> ptext list \<Rightarrow> ptext \<Rightarrow> ptext" where
  "stream_text secrets pending [] end_chunk = fst (apply_filter secrets pending end_chunk True)"
| "stream_text secrets pending (chunk # chunks) end_chunk =
     (case apply_filter secrets pending chunk False of
        (out, pending') \<Rightarrow> out @ stream_text secrets pending' chunks end_chunk)"

lemma stream_text_pieces:
  "stream_text secrets pending chunks end_chunk =
     concat (map piece_text (stream_pieces secrets pending chunks end_chunk))"
  by (induction secrets pending chunks end_chunk rule: stream_text.induct)
    (auto simp: apply_filter_def split: prod.splits)

section \<open>Hidden values do not pass\<close>

lemma starts_iff: "starts t v \<longleftrightarrow> (\<exists>u. t = v @ u)"
  by (metis append_eq_conv_conj append_take_drop_id starts_def)

lemma starts_append: "starts t v \<Longrightarrow> starts (t @ u) v"
  unfolding starts_iff by auto

lemma starts_overlap: "starts (t @ u) v \<Longrightarrow> starts t v \<or> starts v t"
  unfolding starts_iff by (metis append_eq_append_conv2)

lemma set_scan_order [simp]: "set (scan_order secrets) = {v \<in> set secrets. v \<noteq> []}"
  by (auto simp: scan_order_def)

text \<open>
  Everything the filter shows, in one text with what it holds back and what is still to
  come: a run of shown characters stands for itself in the input.
\<close>

definition no_clear :: "ptext list \<Rightarrow> piece_out list \<Rightarrow> bool" where
  "no_clear vs out \<longleftrightarrow> (\<forall>v a b. v \<in> set vs \<longrightarrow> v \<noteq> [] \<longrightarrow> out \<noteq> a @ map Shown v @ b)"

text \<open>The shown characters at the start of the output, and of the output that follows.\<close>

lemma no_clear_Hidden: "no_clear vs (Hidden # out) \<longleftrightarrow> no_clear vs out"
proof -
  have "(\<exists>a b. Hidden # out = a @ map Shown v @ b) \<longleftrightarrow> (\<exists>a b. out = a @ map Shown v @ b)" if "v \<noteq> []" for v
  proof
    assume "\<exists>a b. Hidden # out = a @ map Shown v @ b"
    then obtain a b where ab: "Hidden # out = a @ map Shown v @ b" by blast
    then have "a \<noteq> []" using that by (cases v) auto
    with ab show "\<exists>a b. out = a @ map Shown v @ b" by (cases a) auto
  next
    assume "\<exists>a b. out = a @ map Shown v @ b"
    then show "\<exists>a b. Hidden # out = a @ map Shown v @ b" by (metis append_Cons)
  qed
  then show ?thesis unfolding no_clear_def by blast
qed

lemma no_clear_Shown:
  "no_clear vs (Shown c # out) \<longleftrightarrow>
     no_clear vs out \<and> (\<forall>v b. v \<in> set vs \<longrightarrow> v \<noteq> [] \<longrightarrow> Shown c # out \<noteq> map Shown v @ b)"
proof -
  have "(\<exists>a b. Shown c # out = a @ map Shown v @ b) \<longleftrightarrow>
      (\<exists>a b. out = a @ map Shown v @ b) \<or> (\<exists>b. Shown c # out = map Shown v @ b)" for v
  proof
    assume "\<exists>a b. Shown c # out = a @ map Shown v @ b"
    then obtain a b where "Shown c # out = a @ map Shown v @ b" by blast
    then show "(\<exists>a b. out = a @ map Shown v @ b) \<or> (\<exists>b. Shown c # out = map Shown v @ b)"
      by (cases a) auto
  next
    assume "(\<exists>a b. out = a @ map Shown v @ b) \<or> (\<exists>b. Shown c # out = map Shown v @ b)"
    then show "\<exists>a b. Shown c # out = a @ map Shown v @ b" by (metis append_Cons append_Nil)
  qed
  then show ?thesis unfolding no_clear_def by blast
qed

text \<open>Shown characters followed by anything later read as the input does.\<close>

fun reads_as :: "piece_out list \<Rightarrow> ptext \<Rightarrow> bool" where
  "reads_as [] t \<longleftrightarrow> True"
| "reads_as (Hidden # out) t \<longleftrightarrow> True"
| "reads_as (Shown c # out) t \<longleftrightarrow> (\<exists>u. t = c # u \<and> reads_as out u)"

lemma reads_as_prefix: "reads_as (map Shown v @ b) t \<Longrightarrow> starts t v"
  by (induction v arbitrary: t) (auto simp: starts_def)

lemma scan_Cons_cases:
  obtains v where "v \<in> set vs" "v \<noteq> []" "starts (c # t) v"
    "filter_scan vs final (c # t) = (Hidden # fst (filter_scan vs final (drop (length v) (c # t))),
       snd (filter_scan vs final (drop (length v) (c # t))))"
    "find (\<lambda>v. v \<noteq> [] \<and> starts (c # t) v) vs = Some v"
  | w where "\<not> final" "w \<in> set vs" "starts w (c # t)" "filter_scan vs final (c # t) = ([], c # t)"
  | "\<And>v. v \<in> set vs \<Longrightarrow> v \<noteq> [] \<Longrightarrow> \<not> starts (c # t) v" "\<And>v. v \<in> set vs \<Longrightarrow> final \<or> \<not> starts v (c # t)"
    "filter_scan vs final (c # t) = (Shown c # fst (filter_scan vs final t), snd (filter_scan vs final t))"
proof (cases "find (\<lambda>v. v \<noteq> [] \<and> starts (c # t) v) vs")
  case (Some v)
  then have "v \<in> set vs" "v \<noteq> []" "starts (c # t) v" by (auto simp: find_Some_iff)
  with that(1) [of v] Some show ?thesis by (simp add: case_prod_beta)
next
  case None
  then have none: "\<not> starts (c # t) v" if "v \<in> set vs" "v \<noteq> []" for v
    using that by (auto simp: find_None_iff)
  show ?thesis
  proof (cases "\<not> final \<and> list_ex (\<lambda>v. starts v (c # t)) vs")
    case True
    with None that(2) show ?thesis by (auto simp: list_ex_iff)
  next
    case False
    with None none that(3) show ?thesis by (auto simp: case_prod_beta list_ex_iff)
  qed
qed

lemma scan_reads:
  assumes "reads_as later (snd (filter_scan vs final t) @ u)"
  shows "reads_as (fst (filter_scan vs final t) @ later) (t @ u)"
  using assms
proof (induction t rule: length_induct)
  case (1 t)
  show ?case
  proof (cases t)
    case Nil
    with 1 show ?thesis by simp
  next
    case (Cons c t')
    show ?thesis
      using 1 Cons by (cases rule: scan_Cons_cases [of vs c t' final]) auto
  qed
qed

lemma scan_hides:
  assumes "reads_as later (snd (filter_scan vs final t) @ u)" "no_clear vs later" "final \<longrightarrow> u = []"
  shows "no_clear vs (fst (filter_scan vs final t) @ later)"
  using assms(1)
proof (induction t rule: length_induct)
  case (1 t)
  show ?case
  proof (cases t)
    case Nil
    with assms(2) show ?thesis by simp
  next
    case (Cons c t')
    show ?thesis
    proof (cases rule: scan_Cons_cases [of vs c t' final])
      case (1 v)
      have "no_clear vs (fst (filter_scan vs final (drop (length v) t)) @ later)"
        using "1.IH" "1.prems" 1 Cons by simp
      with 1 Cons show ?thesis by (simp add: no_clear_Hidden)
    next
      case (2 w)
      with assms(2) Cons show ?thesis by simp
    next
      case 3
      have reads: "reads_as (fst (filter_scan vs final t) @ later) (t @ u)"
        by (rule scan_reads [OF "1.prems"])
      have "no_clear vs (fst (filter_scan vs final t') @ later)"
        using "1.IH" "1.prems" 3 Cons by simp
      moreover have "fst (filter_scan vs final t) @ later \<noteq> map Shown v @ b" if "v \<in> set vs" "v \<noteq> []" for v b
      proof
        assume "fst (filter_scan vs final t) @ later = map Shown v @ b"
        with reads have "starts (t @ u) v" by (metis reads_as_prefix)
        with starts_overlap 3(1,2) that Cons assms(3) show False by (metis append_Nil2)
      qed
      ultimately show ?thesis using 3(3) Cons by (simp add: no_clear_Shown)
    qed
  qed
qed

lemma reads_as_shown: "reads_as (map Shown t) (t @ u)"
  by (induction t) auto

lemma stream_hides:
  "reads_as (stream_pieces secrets pending chunks end_chunk) (pending @ concat chunks @ end_chunk) \<and>
   no_clear (scan_order secrets) (stream_pieces secrets pending chunks end_chunk)"
proof (induction chunks arbitrary: pending)
  case Nil
  show ?case
  proof (cases "pending @ end_chunk = [] \<or> secrets = []")
    case True
    then show ?thesis
      using reads_as_shown [of "pending @ end_chunk" "[]"] by (auto simp: apply_pieces_def no_clear_def)
  next
    case False
    then have "stream_pieces secrets pending [] end_chunk =
        fst (filter_scan (scan_order secrets) True (pending @ end_chunk))"
      by (auto simp: apply_pieces_def Let_def)
    then show ?thesis
      using scan_reads [of "[]" "scan_order secrets" True "pending @ end_chunk" "[]"]
        scan_hides [of "[]" "scan_order secrets" True "pending @ end_chunk" "[]"]
      by (simp add: no_clear_def)
  qed
next
  case (Cons chunk chunks)
  show ?case
  proof (cases "pending @ chunk = [] \<or> secrets = []")
    case True
    have "reads_as (map Shown t @ later) (t @ u)" if "reads_as later u" for t later u
      using that by (induction t) auto
    with True Cons.IH [of "[]"] show ?thesis
      by (auto simp: apply_pieces_def no_clear_def)
  next
    case False
    define t where "t = pending @ chunk"
    note ih = Cons.IH [of "snd (filter_scan (scan_order secrets) False t)"]
    have "stream_pieces secrets pending (chunk # chunks) end_chunk = fst (filter_scan (scan_order secrets) False t) @
        stream_pieces secrets (snd (filter_scan (scan_order secrets) False t)) chunks end_chunk"
      using False by (auto simp: apply_pieces_def t_def case_prod_beta Let_def)
    with scan_reads [of _ _ False t "concat chunks @ end_chunk"] scan_hides [of _ _ False t "concat chunks @ end_chunk"] ih
    show ?thesis by (simp add: t_def)
  qed
qed

text \<open>What passes before the process has exited, with no last chunk.\<close>

fun open_pieces :: "ptext list \<Rightarrow> ptext \<Rightarrow> ptext list \<Rightarrow> piece_out list" where
  "open_pieces secrets pending [] = []"
| "open_pieces secrets pending (chunk # chunks) =
     (case apply_pieces secrets pending chunk False of
        (out, pending') \<Rightarrow> out @ open_pieces secrets pending' chunks)"

lemma stream_pieces_open:
  "\<exists>rest. stream_pieces secrets pending chunks end_chunk = open_pieces secrets pending chunks @ rest"
  by (induction secrets pending chunks end_chunk rule: stream_pieces.induct) (auto split: prod.splits)

lemma no_clear_prefix: "no_clear vs (out @ rest) \<Longrightarrow> no_clear vs out"
  unfolding no_clear_def by (metis append_assoc)

lemma open_pieces_hide: "no_clear secrets (open_pieces secrets [] chunks)"
proof -
  obtain rest where "stream_pieces secrets [] chunks [] = open_pieces secrets [] chunks @ rest"
    using stream_pieces_open by blast
  with stream_hides [of secrets "[]" chunks "[]"]
  have "no_clear (scan_order secrets) (open_pieces secrets [] chunks)" by (metis no_clear_prefix)
  then show ?thesis by (auto simp: no_clear_def)
qed

section \<open>Cutting into chunks\<close>

definition prefix_free :: "ptext list \<Rightarrow> bool" where
  "prefix_free vs \<longleftrightarrow> (\<forall>v\<in>set vs. \<forall>w\<in>set vs. v \<noteq> [] \<longrightarrow> starts w v \<longrightarrow> v = w)"

lemma find_match_append:
  assumes "prefix_free vs" "find (\<lambda>v. v \<noteq> [] \<and> starts t v) vs = Some v"
  shows "find (\<lambda>v. v \<noteq> [] \<and> starts (t @ u) v) vs = Some v"
proof -
  have v: "v \<in> set vs" "v \<noteq> []" "starts t v" using assms(2) by (auto simp: find_Some_iff)
  have "(w \<noteq> [] \<and> starts (t @ u) w) = (w \<noteq> [] \<and> starts t w)" if "w \<in> set vs" for w
  proof (cases "w \<noteq> [] \<and> starts (t @ u) w")
    case True
    then have "starts v w \<or> starts w v" using v(3) unfolding starts_iff by (metis append_eq_append_conv2 append.assoc)
    then have "v = w" using assms(1) v that True unfolding prefix_free_def by metis
    with True v(3) show ?thesis by simp
  qed (auto dest: starts_append)
  then have "find (\<lambda>v. v \<noteq> [] \<and> starts (t @ u) v) vs = find (\<lambda>v. v \<noteq> [] \<and> starts t v) vs"
    by (intro find_cong) auto
  with assms(2) show ?thesis by simp
qed

lemma scan_append:
  assumes "prefix_free vs"
  shows "filter_scan vs final (t @ u) =
    (fst (filter_scan vs False t) @ fst (filter_scan vs final (snd (filter_scan vs False t) @ u)),
     snd (filter_scan vs final (snd (filter_scan vs False t) @ u)))"
proof (induction t rule: length_induct)
  case (1 t)
  show ?case
  proof (cases t)
    case Nil
    then show ?thesis by simp
  next
    case (Cons c t')
    show ?thesis
    proof (cases rule: scan_Cons_cases [of vs c t' False])
      case (1 v)
      have "length v \<le> length t" using 1(3) Cons by (metis starts_iff length_append le_add1)
      then have "drop (length v) (c # t' @ u) = drop (length v) t @ u"
        using drop_append [of "length v" "c # t'" u] Cons by simp
      then have "filter_scan vs final (t @ u) = (Hidden # fst (filter_scan vs final (drop (length v) t @ u)),
          snd (filter_scan vs final (drop (length v) t @ u)))"
        using find_match_append [OF assms 1(5), of u] Cons by (simp add: case_prod_beta)
      moreover have "length (drop (length v) t) < length t" using 1(2) Cons by simp
      ultimately show ?thesis using "1.IH" 1(4) Cons by simp
    next
      case (2 w)
      then show ?thesis using Cons by simp
    next
      case 3
      have "\<not> starts (c # t' @ u) v" if "v \<in> set vs" "v \<noteq> []" for v
        using starts_overlap [of "c # t'" u v] 3(1,2) that by auto
      moreover have "\<not> starts v (c # t' @ u)" if "v \<in> set vs" for v
        using 3(2) [OF that] by (auto simp: starts_iff)
      ultimately have "filter_scan vs final (t @ u) =
          (Shown c # fst (filter_scan vs final (t' @ u)), snd (filter_scan vs final (t' @ u)))"
        using Cons by (cases rule: scan_Cons_cases [of vs c "t' @ u" final]) auto
      moreover have "length t' < length t" using Cons by simp
      ultimately show ?thesis using "1.IH" 3(3) Cons by simp
    qed
  qed
qed

lemma apply_pieces_scan: "secrets \<noteq> [] \<Longrightarrow> apply_pieces secrets p chunk final = filter_scan (scan_order secrets) final (p @ chunk)"
  by (auto simp: apply_pieces_def Let_def)

lemma stream_pieces_once:
  assumes "prefix_free secrets"
  shows "stream_pieces secrets pending chunks end_chunk = fst (apply_pieces secrets pending (concat chunks @ end_chunk) True)"
proof (cases "secrets = []")
  case True
  then have "stream_pieces secrets pending chunks end_chunk = map Shown (pending @ concat chunks @ end_chunk)"
    by (induction chunks arbitrary: pending) (simp_all add: apply_pieces_def)
  with True show ?thesis by (simp add: apply_pieces_def Let_def)
next
  case False
  have pf: "prefix_free (scan_order secrets)" using assms by (auto simp: prefix_free_def)
  show ?thesis
  proof (induction chunks arbitrary: pending)
    case Nil
    then show ?case by simp
  next
    case (Cons chunk chunks)
    let ?p = "snd (filter_scan (scan_order secrets) False (pending @ chunk))"
    have "stream_pieces secrets pending (chunk # chunks) end_chunk =
        fst (filter_scan (scan_order secrets) False (pending @ chunk)) @ stream_pieces secrets ?p chunks end_chunk"
      by (simp add: apply_pieces_scan [OF False] case_prod_beta)
    then show ?case
      using scan_append [OF pf, of True "pending @ chunk" "concat chunks @ end_chunk"] Cons.IH [of ?p]
      by (simp add: apply_pieces_scan [OF False])
  qed
qed

section \<open>Properties\<close>

text \<open>Hidden input never passes in the clear: however the output of a process is cut into chunks,
  what the filter puts out is a sequence of markers and characters in which no run of
  characters is a hidden value, and the text it returns is that sequence printed.\<close>

theorem hidden_input_never_passes:
  "stream_text secrets [] chunks end_chunk = concat (map piece_text (stream_pieces secrets [] chunks end_chunk)) \<and>
   no_clear (filter (\<lambda>v. v \<noteq> []) secrets) (stream_pieces secrets [] chunks end_chunk)"
  using stream_hides [of secrets "[]" chunks end_chunk] by (auto simp: stream_text_pieces no_clear_def)

text \<open>The filter does not depend on how the output is cut: when no hidden value begins with another,
  filtering the chunks one by one and flushing at the end gives exactly the filtering of the whole output.\<close>

theorem chunking_is_invisible:
  assumes "prefix_free secrets"
  shows "stream_text secrets [] chunks end_chunk = fst (apply_filter secrets [] (concat chunks @ end_chunk) True)"
  using stream_pieces_once [OF assms, of "[]" chunks end_chunk]
  by (simp add: stream_text_pieces apply_filter_def case_prod_beta)

theorem chunking_is_invisible_witness:
  "stream_text [[97, 98]] [] [[120, 97], [98]] [121] = [120] @ hidden_input_marker @ [121]"
proof -
  have "prefix_free [[97, 98]]" by (simp add: prefix_free_def)
  from chunking_is_invisible [OF this, of "[[120, 97], [98]]" "[121]"] show ?thesis
    by (simp add: apply_filter_def apply_pieces_def scan_order_def sorted_desc_def starts_def)
qed

text \<open>When one value begins with another, a chunk that ends after the shorter one releases the rest
  of the longer one.\<close>

lemma prefix_value_leaks_rest:
  "stream_text [[97, 98], [97, 98, 99, 100]] [] [[97, 98]] [99, 100] = hidden_input_marker @ [99, 100]"
  "fst (apply_filter [[97, 98], [97, 98, 99, 100]] [] [97, 98, 99, 100] True) = hidden_input_marker"
  by (simp_all add: apply_filter_def apply_pieces_def scan_order_def sorted_desc_def starts_def)

end
