(* ===== verification/Process_Manager.thy ===== *)
theory Process_Manager
  imports Secret_Filter
begin

text \<open>
  The session-level owner of processes (\<^verbatim>\<open>domain/process.py\<close> and \<^verbatim>\<open>domain/process_manager.py\<close>). Each
  region under the manager's lock is one operation on the manager's state; what the port
  (the transport that runs the processes) answers between two regions is an argument, so the operations
  of concurrent calls interleave freely. The calls the manager makes on ports and the
  events it emits are recorded in the state. A start is three regions (reserve,
  register, done), and its call id ties them together. The lemmas show that the number of sessions never
  exceeds the limit, that the input of a session is bounded, that a completion is reported
  once, that only owners reach a session, and what hidden input a consumer can see.
  The sink is called at once where the code calls it after leaving the lock, and the two
  regions of \<^verbatim>\<open>publish\<close> (the flags, then the watcher's start) are one operation. The waiting, joining and
  reporting of \<^verbatim>\<open>shutdown\<close> are not modelled, only its effect on the sessions.
\<close>

section \<open>Processes\<close>

definition max_process_input_bytes :: nat where "max_process_input_bytes = 64 * 1024"
definition max_process_session_input_bytes :: nat where "max_process_session_input_bytes = 1024 * 1024"

datatype process_state = Running | Exited | Unknown_State

datatype stream_mode = Pipe | Pty

record process_cursor =
  cu_stdout :: nat
  cu_stderr :: nat

definition new_cursor :: process_cursor where
  "new_cursor = \<lparr>cu_stdout = 0, cu_stderr = 0\<rparr>"

record process_handle =
  ph_session_id :: ptext
  ph_stream_mode :: stream_mode

record process_snapshot =
  ps_session_id :: ptext
  ps_state :: process_state
  ps_stream_mode :: stream_mode
  ps_backend :: ptext
  ps_stdout :: ptext
  ps_stderr :: ptext
  ps_cursor :: process_cursor
  ps_exit_code :: "int option"
  ps_termination_reason :: "ptext option"
  ps_started_at :: real
  ps_finished_at :: "real option"
  ps_runtime_timeout_seconds :: int
  ps_output_truncated :: bool
  ps_output_decode_replaced :: bool
  ps_total_stdout_bytes :: nat
  ps_total_stderr_bytes :: nat

definition elapsed_seconds :: "real \<Rightarrow> process_snapshot \<Rightarrow> real" where
  "elapsed_seconds wall s =
     max 0 ((case ps_finished_at s of Some t \<Rightarrow> t | None \<Rightarrow> wall) - ps_started_at s)"

datatype process_exn =
    Session_Not_Found ptext
  | Operation_Unsupported ptext
  | Operation_Unconfirmed "process_snapshot option"
  | Capacity_Reached
  | Input_Too_Large
  | Session_Input_Too_Large
  | Process_Value_Error string
  | Process_Runtime_Error string
  | Process_Encode_Error
  | Port_Failure ptext

section \<open>Sessions\<close>

record consumer_tail =
  tl_limit :: nat
  tl_stdout :: ptext
  tl_stderr :: ptext

text \<open>\<^verbatim>\<open>t[-n:]\<close> for a positive \<open>n\<close>.\<close>

definition last_chars :: "nat \<Rightarrow> ptext \<Rightarrow> ptext" where
  "last_chars n t = drop (length t - n) t"

definition tail_append :: "consumer_tail \<Rightarrow> process_snapshot \<Rightarrow> consumer_tail \<times> process_snapshot" where
  "tail_append tail s =
     (let out = last_chars (tl_limit tail) (tl_stdout tail @ ps_stdout s);
          err = last_chars (tl_limit tail) (tl_stderr tail @ ps_stderr s)
      in (tail\<lparr>tl_stdout := out, tl_stderr := err\<rparr>, s\<lparr>ps_stdout := out, ps_stderr := err\<rparr>))"

text \<open>\<open>me_uid\<close> is the identity of the entry object; a session id can be used again after its entry
  is gone. Of a filter only the held-back text is kept: it shares the entry's list of hidden values.\<close>

record managed_entry =
  me_uid :: nat
  me_handle :: process_handle
  me_port :: nat
  me_command :: ptext
  me_cwd :: ptext
  me_owner_agent_id :: ptext
  me_owner_session_id :: "ptext option"
  me_session_generation :: int
  me_origin_turn_id :: "ptext option"
  me_created :: real
  me_last_snapshot :: process_snapshot
  me_published :: bool
  me_observed :: bool
  me_abandoned :: bool
  me_observed_at :: "real option"
  me_terminal_at :: "real option"
  me_cursors :: "(ptext, process_cursor) dict"
  me_watcher_cursor :: process_cursor
  me_watcher_started :: bool
  me_completion_emitted :: bool
  me_input_bytes :: nat
  me_sensitive_values :: "ptext list"
  me_output_filters :: "(ptext \<times> bool, ptext) dict"
  me_output_tails :: "(ptext, consumer_tail) dict"

definition me_session_id :: "managed_entry \<Rightarrow> ptext" where
  "me_session_id e = ph_session_id (me_handle e)"

definition exited :: "managed_entry \<Rightarrow> bool" where
  "exited e = (ps_state (me_last_snapshot e) = Exited)"

datatype event_kind = Published | Output | Updated | Completed

record process_event =
  pe_kind :: event_kind
  pe_entry :: nat
  pe_snapshot :: process_snapshot
  pe_command :: ptext
  pe_cwd :: ptext
  pe_owner_agent_id :: ptext
  pe_owner_session_id :: "ptext option"
  pe_session_generation :: int
  pe_origin_turn_id :: "ptext option"

text \<open>Calls on a port, as they are made.\<close>

datatype port_call =
    Call_Release nat ptext
  | Call_Terminate nat ptext ptext
  | Call_Resize nat ptext int int
  | Call_Interrupt nat ptext

text \<open>Where a call of \<^verbatim>\<open>start\<close> is: it holds a reserved place, its session is registered, or it failed
  with (\<open>True\<close>) or without a session on the port.\<close>

datatype start_phase = Reserved | Registered | Failed_Start bool

record process_manager =
  pm_event_sink :: bool
  pm_max_sessions :: nat
  pm_observed_retention :: real
  pm_terminal_ttl :: real
  pm_entries :: "(ptext, managed_entry) dict"
  pm_ports :: "nat list"
  pm_starting_ports :: "(nat, nat) dict"
  pm_closing :: bool
  pm_starting :: nat
  pm_next_uid :: nat
  pm_start_calls :: "(nat, nat \<times> start_phase) dict"
  pm_events :: "process_event list"
  pm_port_calls :: "port_call list"

definition new_manager :: "bool \<Rightarrow> int \<Rightarrow> real \<Rightarrow> real \<Rightarrow> (process_exn, process_manager) result" where
  "new_manager sink max_sessions retention ttl =
     (if max_sessions < 1 then Inl (Process_Value_Error ''max_sessions must be positive'')
      else if retention < 0 \<or> ttl < 0
      then Inl (Process_Value_Error ''retention periods must be non-negative'')
      else Inr \<lparr>pm_event_sink = sink, pm_max_sessions = nat max_sessions, pm_observed_retention = retention,
        pm_terminal_ttl = ttl, pm_entries = [], pm_ports = [], pm_starting_ports = [], pm_closing = False,
        pm_starting = 0, pm_next_uid = 0, pm_start_calls = [], pm_events = [], pm_port_calls = []\<rparr>)"

section \<open>Shared parts\<close>

definition put_entry :: "managed_entry \<Rightarrow> process_manager \<Rightarrow> process_manager" where
  "put_entry e m = m\<lparr>pm_entries := dict_set (me_session_id e) e (pm_entries m)\<rparr>"

definition call_port :: "port_call \<Rightarrow> process_manager \<Rightarrow> process_manager" where
  "call_port c m = m\<lparr>pm_port_calls := pm_port_calls m @ [c]\<rparr>"

definition emit :: "event_kind \<Rightarrow> managed_entry \<Rightarrow> process_snapshot \<Rightarrow> process_manager \<Rightarrow> process_manager" where
  "emit kind e s m =
     (if pm_event_sink m
      then m\<lparr>pm_events := pm_events m @ [\<lparr>pe_kind = kind, pe_entry = me_uid e, pe_snapshot = s,
        pe_command = me_command e, pe_cwd = me_cwd e, pe_owner_agent_id = me_owner_agent_id e,
        pe_owner_session_id = me_owner_session_id e, pe_session_generation = me_session_generation e,
        pe_origin_turn_id = me_origin_turn_id e\<rparr>]\<rparr>
      else m)"

definition require_entry :: "process_manager \<Rightarrow> ptext \<Rightarrow> (process_exn, managed_entry) result" where
  "require_entry m sid =
     (case dict_get (pm_entries m) sid of None \<Rightarrow> Inl (Session_Not_Found sid) | Some e \<Rightarrow> Inr e)"

record requester =
  rq_consumer :: ptext
  rq_agent_id :: ptext
  rq_owner_session_id :: "ptext option"
  rq_session_generation :: int

definition can_access :: "managed_entry \<Rightarrow> requester \<Rightarrow> bool" where
  "can_access e r =
     (me_session_generation e = rq_session_generation r \<and>
      (rq_owner_session_id r \<noteq> None \<and> me_owner_session_id e = rq_owner_session_id r \<or>
       me_owner_agent_id e = rq_agent_id r))"

definition entry_and_cursor ::
    "process_manager \<Rightarrow> ptext \<Rightarrow> requester \<Rightarrow> (process_exn, managed_entry \<times> process_cursor) result" where
  "entry_and_cursor m sid r =
     (case require_entry m sid of
        Inl x \<Rightarrow> Inl x
      | Inr e \<Rightarrow>
          if \<not> can_access e r then Inl (Session_Not_Found sid)
          else Inr (e, case dict_get (me_cursors e) (rq_consumer r) of None \<Rightarrow> new_cursor | Some c \<Rightarrow> c))"

text \<open>\<^verbatim>\<open>x or y\<close> on times: zero counts as absent.\<close>

definition or_time :: "real option \<Rightarrow> real \<Rightarrow> real" where
  "or_time x y = (case x of Some t \<Rightarrow> if t = 0 then y else t | None \<Rightarrow> y)"

definition redact :: "ptext \<Rightarrow> bool \<Rightarrow> bool \<Rightarrow> ptext \<Rightarrow> managed_entry \<Rightarrow> managed_entry \<times> ptext" where
  "redact consumer err final t e =
     (case apply_filter (me_sensitive_values e)
             (case dict_get (me_output_filters e) (consumer, err) of None \<Rightarrow> [] | Some p \<Rightarrow> p) t final of
        (out, pending) \<Rightarrow>
          (e\<lparr>me_output_filters := dict_set (consumer, err) pending (me_output_filters e)\<rparr>, out))"

definition redact_snapshot ::
    "managed_entry \<Rightarrow> ptext \<Rightarrow> process_snapshot \<Rightarrow> managed_entry \<times> process_snapshot" where
  "redact_snapshot e consumer s =
     (if me_sensitive_values e = [] then (e, s)
      else
        let final = (ps_state s = Exited);
            (e1, out) = redact consumer False final (ps_stdout s) e;
            (e2, err) = redact consumer True final (ps_stderr s) e1
        in (e2, s\<lparr>ps_stdout := out, ps_stderr := err\<rparr>))"

definition start_watcher :: "managed_entry \<Rightarrow> managed_entry" where
  "start_watcher e = e\<lparr>me_watcher_started := True\<rparr>"

definition drop_idle_port :: "nat \<Rightarrow> process_manager \<Rightarrow> process_manager" where
  "drop_idle_port port m =
     (if (case dict_get (pm_starting_ports m) port of None \<Rightarrow> False | Some n \<Rightarrow> 0 < n) then m
      else if list_ex (\<lambda>e. me_port e = port) (map snd (pm_entries m)) then m
      else m\<lparr>pm_ports := filter (\<lambda>p. p \<noteq> port) (pm_ports m)\<rparr>)"

definition expired_entry :: "real \<Rightarrow> process_manager \<Rightarrow> managed_entry \<Rightarrow> bool" where
  "expired_entry now m e =
     (exited e \<and>
      (let terminal_at = or_time (me_terminal_at e) (me_created e)
       in if me_observed e then now - or_time (me_observed_at e) terminal_at \<ge> pm_observed_retention m
          else now - terminal_at \<ge> pm_terminal_ttl m))"

definition cleanup_expired :: "real \<Rightarrow> process_manager \<Rightarrow> process_manager \<times> managed_entry list" where
  "cleanup_expired now m =
     (m\<lparr>pm_entries := filter (\<lambda>(k, e). \<not> expired_entry now m e) (pm_entries m)\<rparr>,
      filter (expired_entry now m) (map snd (pm_entries m)))"

definition release_expired :: "managed_entry list \<Rightarrow> process_manager \<Rightarrow> process_manager" where
  "release_expired es m = fold (\<lambda>e m. call_port (Call_Release (me_port e) (me_session_id e)) m) es m"

text \<open>A release that succeeded: the port may have become idle.\<close>

definition port_released :: "nat \<Rightarrow> process_manager \<Rightarrow> process_manager" where
  "port_released port m = drop_idle_port port m"

section \<open>Starting\<close>

definition reserve_start ::
    "nat \<Rightarrow> real \<Rightarrow> nat \<Rightarrow> process_manager \<Rightarrow> process_manager \<times> (process_exn, unit) result" where
  "reserve_start call now port m =
     (if pm_closing m then (m, Inl (Process_Runtime_Error ''process manager is shutting down''))
      else
        case cleanup_expired now m of (m1, expired) \<Rightarrow>
          if pm_max_sessions m1 \<le> length (pm_entries m1) + pm_starting m1
          then (release_expired expired m1, Inl Capacity_Reached)
          else
            (release_expired expired (m1\<lparr>pm_ports := (if port \<in> set (pm_ports m1) then pm_ports m1 else pm_ports m1 @ [port]),
                pm_starting_ports := dict_set port
                  (case dict_get (pm_starting_ports m1) port of None \<Rightarrow> 1 | Some n \<Rightarrow> n + 1) (pm_starting_ports m1),
                pm_starting := pm_starting m1 + 1,
                pm_start_calls := dict_set call (port, Reserved) (pm_start_calls m1)\<rparr>), Inr ()))"

record start_request =
  sr_command :: ptext
  sr_cwd :: ptext
  sr_owner_agent_id :: ptext
  sr_owner_session_id :: "ptext option"
  sr_session_generation :: int
  sr_origin_turn_id :: "ptext option"

definition new_entry ::
    "nat \<Rightarrow> nat \<Rightarrow> real \<Rightarrow> start_request \<Rightarrow> process_handle \<Rightarrow> process_snapshot \<Rightarrow> managed_entry" where
  "new_entry uid port now q handle initial =
     \<lparr>me_uid = uid, me_handle = handle, me_port = port, me_command = sr_command q, me_cwd = sr_cwd q,
      me_owner_agent_id = sr_owner_agent_id q, me_owner_session_id = sr_owner_session_id q,
      me_session_generation = sr_session_generation q, me_origin_turn_id = sr_origin_turn_id q,
      me_created = now, me_last_snapshot = initial, me_published = False, me_observed = False,
      me_abandoned = False, me_observed_at = None, me_terminal_at = None, me_cursors = [],
      me_watcher_cursor = new_cursor, me_watcher_started = False, me_completion_emitted = False,
      me_input_bytes = 0, me_sensitive_values = [], me_output_filters = [], me_output_tails = []\<rparr>"

text \<open>What the port made of the start: it raised without a session, it raised after one was
  accepted, or it gave a handle and a first snapshot.\<close>

datatype port_start =
    Start_Raised process_exn
  | First_Poll_Raised process_handle process_exn
  | Start_Accepted process_handle process_snapshot

definition set_phase :: "nat \<Rightarrow> nat \<Rightarrow> start_phase \<Rightarrow> process_manager \<Rightarrow> process_manager" where
  "set_phase call port phase m = m\<lparr>pm_start_calls := dict_set call (port, phase) (pm_start_calls m)\<rparr>"

definition abort_start :: "nat \<Rightarrow> nat \<Rightarrow> process_handle \<Rightarrow> process_manager \<Rightarrow> process_manager" where
  "abort_start call port handle m =
     set_phase call port (Failed_Start True) (call_port (Call_Terminate port (ph_session_id handle)
       (if pm_closing m then lit ''shutdown'' else lit ''start_failed'')) m)"

definition register_start ::
    "nat \<Rightarrow> real \<Rightarrow> start_request \<Rightarrow> port_start \<Rightarrow> process_manager
      \<Rightarrow> process_manager \<times> (process_exn, process_handle) result" where
  "register_start call now q res m =
     (case dict_get (pm_start_calls m) call of
        Some (port, Reserved) \<Rightarrow>
          (case res of
             Start_Raised x \<Rightarrow> (set_phase call port (Failed_Start False) m, Inl x)
           | First_Poll_Raised handle x \<Rightarrow> (abort_start call port handle m, Inl x)
           | Start_Accepted handle initial \<Rightarrow>
               if pm_closing m
               then (abort_start call port handle m, Inl (Process_Runtime_Error ''process manager is shutting down''))
               else if dict_get (pm_entries m) (ph_session_id handle) \<noteq> None
               then (abort_start call port handle m, Inl (Process_Runtime_Error ''duplicate process session id''))
               else
                 (set_phase call port Registered
                   (put_entry (new_entry (pm_next_uid m) port now q handle initial)
                     (m\<lparr>pm_next_uid := pm_next_uid m + 1\<rparr>)), Inr handle))
      | _ \<Rightarrow> (m, Inl (Process_Runtime_Error ''no such start'')))"

text \<open>The \<^verbatim>\<open>finally\<close> region of a start.\<close>

definition finish_start :: "nat \<Rightarrow> process_manager \<Rightarrow> process_manager" where
  "finish_start call m =
     (case dict_get (pm_start_calls m) call of
        None \<Rightarrow> m
      | Some (port, phase) \<Rightarrow>
          if phase = Reserved then m
          else
            let remaining = (case dict_get (pm_starting_ports m) port of None \<Rightarrow> 0 | Some n \<Rightarrow> n) - (1 :: nat);
                m1 = m\<lparr>pm_starting := pm_starting m - 1, pm_start_calls := dict_pop call (pm_start_calls m)\<rparr>;
                m2 = m1\<lparr>pm_starting_ports := (if 0 < remaining then dict_set port remaining (pm_starting_ports m1)
                   else dict_pop port (pm_starting_ports m1))\<rparr>
            in if phase = Failed_Start True then m2 else drop_idle_port port m2)"

section \<open>Operations on a session\<close>

definition publish :: "real \<Rightarrow> ptext \<Rightarrow> bool \<Rightarrow> process_manager \<Rightarrow> process_manager \<times> (process_exn, unit) result" where
  "publish now sid observed m =
     (case require_entry m sid of
        Inl x \<Rightarrow> (m, Inl x)
      | Inr e \<Rightarrow>
          let e1 = e\<lparr>me_published := True\<rparr>;
              e2 = (if observed \<and> exited e then e1\<lparr>me_observed := True, me_observed_at := Some now\<rparr> else e1);
              completes = (exited e \<and> \<not> me_completion_emitted e);
              e3 = (if completes then e2\<lparr>me_completion_emitted := True\<rparr> else e2);
              m1 = emit Published e3 (me_last_snapshot e3) m;
              m2 = (if completes then emit Completed e3 (me_last_snapshot e3) m1 else m1)
          in (put_entry (start_watcher e3) m2, Inr ()))"

definition abandon :: "ptext \<Rightarrow> ptext \<Rightarrow> process_manager \<Rightarrow> process_manager \<times> (process_exn, unit) result" where
  "abandon sid reason m =
     (case require_entry m sid of
        Inl x \<Rightarrow> (m, Inl x)
      | Inr e \<Rightarrow>
          if me_published e then (m, Inr ())
          else if exited e
          then (call_port (Call_Release (me_port e) sid) (m\<lparr>pm_entries := dict_pop sid (pm_entries m)\<rparr>), Inr ())
          else (call_port (Call_Terminate (me_port e) sid reason)
                  (put_entry (start_watcher (e\<lparr>me_abandoned := True\<rparr>)) m), Inr ()))"

definition polled_entry :: "real \<Rightarrow> ptext \<Rightarrow> bool \<Rightarrow> process_snapshot \<Rightarrow> managed_entry \<Rightarrow> managed_entry" where
  "polled_entry now consumer mark_observed s e =
     e\<lparr>me_cursors := dict_set consumer (ps_cursor s) (me_cursors e), me_last_snapshot := s,
       me_terminal_at := (if ps_state s = Exited then Some (or_time (me_terminal_at e) now) else me_terminal_at e),
       me_observed := (ps_state s = Exited \<and> mark_observed \<or> me_observed e),
       me_observed_at := (if ps_state s = Exited \<and> mark_observed then Some now else me_observed_at e)\<rparr>"

text \<open>The last region of \<^verbatim>\<open>poll\<close>: the entry found at the start (\<open>uid\<close>) must still be the current one.\<close>

definition finish_poll ::
    "real \<Rightarrow> ptext \<Rightarrow> nat \<Rightarrow> ptext \<Rightarrow> bool \<Rightarrow> nat option \<Rightarrow> process_snapshot \<Rightarrow> process_manager
      \<Rightarrow> process_manager \<times> (process_exn, process_snapshot) result" where
  "finish_poll now sid uid consumer mark_observed retain raw m =
     (case dict_get (pm_entries m) sid of
        None \<Rightarrow> (m, Inl (Session_Not_Found sid))
      | Some e \<Rightarrow>
          if me_uid e \<noteq> uid then (m, Inl (Session_Not_Found sid))
          else
            case redact_snapshot e consumer raw of (e1, s) \<Rightarrow>
              let e2 = polled_entry now consumer mark_observed s e1;
                  tails = (case retain of
                      None \<Rightarrow> me_output_tails e2
                    | Some n \<Rightarrow>
                        dict_set consumer
                          ((case dict_get (me_output_tails e2) consumer of
                              None \<Rightarrow> \<lparr>tl_limit = n, tl_stdout = [], tl_stderr = []\<rparr> | Some t \<Rightarrow> t)\<lparr>tl_limit := n\<rparr>)
                          (me_output_tails e2))
              in case dict_get tails consumer of
                   None \<Rightarrow> (put_entry (e2\<lparr>me_output_tails := tails\<rparr>) m, Inr s)
                 | Some t \<Rightarrow>
                     (case tail_append t s of
                        (t', s') \<Rightarrow> (put_entry (e2\<lparr>me_output_tails := dict_set consumer t' tails\<rparr>) m, Inr s')))"

text \<open>A whole poll: the access check, the port's answer to the cursor, the last region. Other calls run
  while the port waits (\<open>between\<close>).\<close>

definition poll ::
    "real \<Rightarrow> ptext \<Rightarrow> requester \<Rightarrow> bool \<Rightarrow> int option \<Rightarrow> (process_manager \<Rightarrow> process_manager)
      \<Rightarrow> (nat \<Rightarrow> process_cursor \<Rightarrow> (process_exn, process_snapshot) result) \<Rightarrow> process_manager
      \<Rightarrow> process_manager \<times> (process_exn, process_snapshot) result" where
  "poll now sid r mark_observed retain between answer m =
     (if (case retain of None \<Rightarrow> False | Some n \<Rightarrow> n < 1)
      then (m, Inl (Process_Value_Error ''retain_output_chars must be positive''))
      else
        case entry_and_cursor m sid r of
          Inl x \<Rightarrow> (m, Inl x)
        | Inr (e, cursor) \<Rightarrow>
            (case answer (me_port e) cursor of
               Inl x \<Rightarrow> (between m, Inl x)
             | Inr raw \<Rightarrow>
                 finish_poll now sid (me_uid e) (rq_consumer r) mark_observed (map_option nat retain) raw (between m)))"

definition validated_input_byte_count :: "managed_entry \<Rightarrow> ptext \<Rightarrow> (process_exn, nat) result" where
  "validated_input_byte_count e chars =
     (case utf8_encode chars of
        None \<Rightarrow> Inl Process_Encode_Error
      | Some bs \<Rightarrow>
          if max_process_input_bytes < length bs then Inl Input_Too_Large
          else if max_process_session_input_bytes < me_input_bytes e + length bs then Inl Session_Input_Too_Large
          else Inr (length bs))"

text \<open>\<open>answer\<close> is what the port says about the write: how many bytes it confirmed, or an error.\<close>

definition write_input_bounded ::
    "managed_entry \<Rightarrow> nat \<Rightarrow> (process_exn, int) result \<Rightarrow> managed_entry \<times> (process_exn, unit) result" where
  "write_input_bounded e byte_count answer =
     (case answer of
        Inl x \<Rightarrow> (e, Inl x)
      | Inr confirmed \<Rightarrow>
          (e\<lparr>me_input_bytes := me_input_bytes e + nat (max 0 confirmed)\<rparr>,
           if confirmed \<noteq> int byte_count
           then Inl (Process_Runtime_Error ''process input write not fully confirmed'') else Inr ()))"

definition write_chars ::
    "ptext \<Rightarrow> requester \<Rightarrow> ptext \<Rightarrow> (process_exn, int) result \<Rightarrow> process_manager
      \<Rightarrow> process_manager \<times> (process_exn, unit) result" where
  "write_chars sid r chars answer m =
     (case entry_and_cursor m sid r of
        Inl x \<Rightarrow> (m, Inl x)
      | Inr (e, cursor) \<Rightarrow>
          (case validated_input_byte_count e chars of
             Inl x \<Rightarrow> (m, Inl x)
           | Inr n \<Rightarrow> (case write_input_bounded e n answer of (e', res) \<Rightarrow> (put_entry e' m, res))))"

definition write_sensitive_line ::
    "ptext \<Rightarrow> requester \<Rightarrow> ptext \<Rightarrow> (process_exn, int) result \<Rightarrow> process_manager
      \<Rightarrow> process_manager \<times> (process_exn, unit) result" where
  "write_sensitive_line sid r v answer m =
     (if v = [] then (m, Inl (Process_Value_Error ''hidden input cannot be empty''))
      else if 10 \<in> set v \<or> 13 \<in> set v then (m, Inl (Process_Value_Error ''hidden input must be one line''))
      else
        case entry_and_cursor m sid r of
          Inl x \<Rightarrow> (m, Inl x)
        | Inr (e, cursor) \<Rightarrow>
            (case validated_input_byte_count e (v @ [10]) of
               Inl x \<Rightarrow> (m, Inl x)
             | Inr n \<Rightarrow>
                 if ph_stream_mode (me_handle e) \<noteq> Pty then (m, Inl (Operation_Unsupported (lit ''pipe mode'')))
                 else if ps_state (me_last_snapshot e) \<noteq> Running
                 then (m, Inl (Operation_Unsupported (lit ''not running'')))
                 else
                   let e1 = (if v \<in> set (me_sensitive_values e) then e
                          else e\<lparr>me_sensitive_values := me_sensitive_values e @ [v]\<rparr>)
                   in case write_input_bounded e1 n answer of (e2, res) \<Rightarrow> (put_entry e2 m, res)))"

text \<open>\<^verbatim>\<open>interrupt\<close> and \<^verbatim>\<open>terminate\<close> before their poll: the check and the call.\<close>

definition control ::
    "ptext \<Rightarrow> requester \<Rightarrow> (nat \<Rightarrow> port_call) \<Rightarrow> process_manager \<Rightarrow> process_manager \<times> (process_exn, unit) result" where
  "control sid r call m =
     (case entry_and_cursor m sid r of
        Inl x \<Rightarrow> (m, Inl x)
      | Inr (e, cursor) \<Rightarrow> (call_port (call (me_port e)) m, Inr ()))"

section \<open>Views\<close>

record process_view =
  pv_session_id :: ptext
  pv_command :: ptext
  pv_cwd :: ptext
  pv_state :: process_state
  pv_stream_mode :: stream_mode
  pv_backend :: ptext
  pv_elapsed_seconds :: real
  pv_exit_code :: "int option"
  pv_termination_reason :: "ptext option"
  pv_output_truncated :: bool
  pv_output_decode_replaced :: bool
  pv_published :: bool
  pv_observed :: bool

definition view_of :: "real \<Rightarrow> managed_entry \<Rightarrow> process_view" where
  "view_of wall e =
     (let s = me_last_snapshot e
      in \<lparr>pv_session_id = me_session_id e, pv_command = me_command e, pv_cwd = me_cwd e, pv_state = ps_state s,
          pv_stream_mode = ps_stream_mode s, pv_backend = ps_backend s, pv_elapsed_seconds = elapsed_seconds wall s,
          pv_exit_code = ps_exit_code s, pv_termination_reason = ps_termination_reason s,
          pv_output_truncated = ps_output_truncated s, pv_output_decode_replaced = ps_output_decode_replaced s,
          pv_published = me_published e, pv_observed = me_observed e\<rparr>)"

definition get_view :: "real \<Rightarrow> ptext \<Rightarrow> requester \<Rightarrow> process_manager \<Rightarrow> (process_exn, process_view) result" where
  "get_view wall sid r m =
     (case require_entry m sid of
        Inl x \<Rightarrow> Inl x
      | Inr e \<Rightarrow> if \<not> me_published e \<or> \<not> can_access e r then Inl (Session_Not_Found sid) else Inr (view_of wall e))"

definition list_sessions ::
    "real \<Rightarrow> real \<Rightarrow> requester \<Rightarrow> bool \<Rightarrow> process_manager \<Rightarrow> process_manager \<times> process_view list" where
  "list_sessions now wall r include_observed m =
     (case cleanup_expired now m of (m1, expired) \<Rightarrow>
        (release_expired expired m1,
         map (view_of wall) (sort_key me_created
           (filter (\<lambda>e. can_access e r \<and> (include_observed \<or> \<not> me_observed e) \<and> me_published e)
             (map snd (pm_entries m1))))))"

definition active_count :: "ptext option \<Rightarrow> process_manager \<Rightarrow> nat" where
  "active_count owner m =
     length (filter (\<lambda>e. me_published e \<and> \<not> exited e \<and> (owner = None \<or> me_owner_session_id e = owner))
       (map snd (pm_entries m)))"

text \<open>The resizes that are tried; a failure of one does not stop the others.\<close>

definition resize_tty_sessions ::
    "int \<Rightarrow> int \<Rightarrow> requester \<Rightarrow> process_manager \<Rightarrow> process_manager \<times> (process_exn, ptext list) result" where
  "resize_tty_sessions rows columns r m =
     (if rows < 1 \<or> columns < 1
      then (m, Inl (Process_Value_Error ''terminal rows and columns must be positive''))
      else
        let es = filter (\<lambda>e. me_published e \<and> ph_stream_mode (me_handle e) = Pty \<and>
                     ps_state (me_last_snapshot e) = Running \<and> can_access e r) (map snd (pm_entries m))
        in (fold (\<lambda>e m. call_port (Call_Resize (me_port e) (me_session_id e) rows columns) m) es m,
            Inr (map me_session_id es)))"

definition rebound :: "ptext option \<Rightarrow> int \<Rightarrow> managed_entry \<Rightarrow> bool" where
  "rebound owner previous e =
     (me_owner_session_id e = owner \<and> me_session_generation e = previous \<and> me_published e)"

definition rebind_generation :: "ptext option \<Rightarrow> int \<Rightarrow> int \<Rightarrow> process_manager \<Rightarrow> process_manager \<times> nat" where
  "rebind_generation owner previous next_generation m =
     (m\<lparr>pm_entries := map (\<lambda>(k, e). (k, if rebound owner previous e
          then e\<lparr>me_session_generation := next_generation\<rparr> else e)) (pm_entries m)\<rparr>,
      length (filter (rebound owner previous) (map snd (pm_entries m))))"

section \<open>Stopping\<close>

definition stop_all :: "requester \<Rightarrow> ptext \<Rightarrow> process_manager \<Rightarrow> process_manager \<times> nat" where
  "stop_all r reason m =
     (let es = filter (\<lambda>e. can_access e r \<and> \<not> exited e) (map snd (pm_entries m))
      in (fold (\<lambda>e m. call_port (Call_Terminate (me_port e) (me_session_id e) reason) m) es m, length es))"

text \<open>What a forced stop does with the port's answer, with or without the filter.\<close>

definition stopped ::
    "real \<Rightarrow> ptext \<Rightarrow> nat \<Rightarrow> bool \<Rightarrow> process_snapshot \<Rightarrow> process_manager \<Rightarrow> process_manager" where
  "stopped now sid uid filtered raw m =
     (case dict_get (pm_entries m) sid of
        None \<Rightarrow> m
      | Some e \<Rightarrow>
          if me_uid e \<noteq> uid then m
          else
            case (if filtered then redact_snapshot e (lit ''manager'') raw else (e, raw)) of (e1, s) \<Rightarrow>
              let e2 = e1\<lparr>me_last_snapshot := s\<rparr>
              in put_entry (if ps_state s = Exited then e2\<lparr>me_terminal_at := Some (or_time (me_terminal_at e2) now)\<rparr> else e2) m)"

definition begin_shutdown :: "process_manager \<Rightarrow> process_manager" where
  "begin_shutdown m =
     m\<lparr>pm_closing := True, pm_entries := map (\<lambda>(k, e). (k, start_watcher e)) (pm_entries m)\<rparr>"

definition end_shutdown :: "process_manager \<Rightarrow> process_manager" where
  "end_shutdown m = m\<lparr>pm_entries := [], pm_ports := []\<rparr>"

section \<open>The watcher\<close>

definition completes :: "managed_entry \<Rightarrow> process_snapshot \<Rightarrow> bool" where
  "completes e s = (me_published e \<and> ps_state s = Exited \<and> \<not> me_completion_emitted e)"

definition watched_entry :: "real \<Rightarrow> process_cursor \<Rightarrow> process_snapshot \<Rightarrow> managed_entry \<Rightarrow> managed_entry" where
  "watched_entry now cursor s e =
     e\<lparr>me_watcher_cursor := cursor, me_last_snapshot := s,
       me_terminal_at := (if ps_state s = Exited then Some (or_time (me_terminal_at e) now) else me_terminal_at e),
       me_completion_emitted := (me_completion_emitted e \<or> completes e s)\<rparr>"

text \<open>One turn of the watcher's loop with the port's answer; the flag says whether it goes on.\<close>

definition watch_turn ::
    "real \<Rightarrow> ptext \<Rightarrow> nat \<Rightarrow> process_snapshot \<Rightarrow> process_manager \<Rightarrow> process_manager \<times> bool" where
  "watch_turn now sid uid raw m =
     (case dict_get (pm_entries m) sid of
        None \<Rightarrow> (m, False)
      | Some e \<Rightarrow>
          if me_uid e \<noteq> uid then (m, False)
          else
            case redact_snapshot e (lit ''watcher'') raw of (e1, s) \<Rightarrow>
              let e2 = watched_entry now (ps_cursor raw) s e1;
                  m1 = put_entry e2 m
              in if me_abandoned e2 \<and> ps_state s = Exited
                 then (call_port (Call_Release (me_port e2) sid) (m1\<lparr>pm_entries := dict_pop sid (pm_entries m1)\<rparr>), False)
                 else
                   let m2 = (if (ps_stdout s \<noteq> [] \<or> ps_stderr s \<noteq> []) \<and> me_published e2 then emit Output e2 s m1
                          else if me_published e2 \<and> ps_state s \<noteq> ps_state (me_last_snapshot e) then emit Updated e2 s m1
                          else m1);
                       m3 = (if completes e1 s then emit Completed e2 s m2 else m2)
                   in (m3, ps_state s \<noteq> Exited))"

section \<open>Runs\<close>

datatype pm_op =
    Op_Reserve nat real nat
  | Op_Register nat real start_request port_start
  | Op_Finish nat
  | Op_Publish real ptext bool
  | Op_Abandon ptext ptext
  | Op_Poll real ptext nat ptext bool "nat option" process_snapshot
  | Op_Write ptext requester ptext "(process_exn, int) result"
  | Op_Write_Sensitive ptext requester ptext "(process_exn, int) result"
  | Op_Control ptext requester "nat \<Rightarrow> port_call"
  | Op_List real real requester bool
  | Op_Resize int int requester
  | Op_Rebind "ptext option" int int
  | Op_Stop requester ptext
  | Op_Stopped real ptext nat bool process_snapshot
  | Op_Released nat
  | Op_Begin_Shutdown
  | Op_End_Shutdown
  | Op_Watch real ptext nat process_snapshot

text \<open>Any region of any call may come next; a call id is used for one start at a time.\<close>

fun pm_step :: "process_manager \<Rightarrow> pm_op \<Rightarrow> process_manager" where
  "pm_step m (Op_Reserve call now port) =
     (if dict_get (pm_start_calls m) call \<noteq> None then m else fst (reserve_start call now port m))"
| "pm_step m (Op_Register call now q res) = fst (register_start call now q res m)"
| "pm_step m (Op_Finish call) = finish_start call m"
| "pm_step m (Op_Publish now sid observed) = fst (publish now sid observed m)"
| "pm_step m (Op_Abandon sid reason) = fst (abandon sid reason m)"
| "pm_step m (Op_Poll now sid uid consumer mark retain raw) = fst (finish_poll now sid uid consumer mark retain raw m)"
| "pm_step m (Op_Write sid r chars answer) = fst (write_chars sid r chars answer m)"
| "pm_step m (Op_Write_Sensitive sid r v answer) = fst (write_sensitive_line sid r v answer m)"
| "pm_step m (Op_Control sid r call) = fst (control sid r call m)"
| "pm_step m (Op_List now wall r include_observed) = fst (list_sessions now wall r include_observed m)"
| "pm_step m (Op_Resize rows columns r) = fst (resize_tty_sessions rows columns r m)"
| "pm_step m (Op_Rebind owner previous next_generation) = fst (rebind_generation owner previous next_generation m)"
| "pm_step m (Op_Stop r reason) = fst (stop_all r reason m)"
| "pm_step m (Op_Stopped now sid uid filtered raw) = stopped now sid uid filtered raw m"
| "pm_step m (Op_Released port) = port_released port m"
| "pm_step m Op_Begin_Shutdown = begin_shutdown m"
| "pm_step m Op_End_Shutdown = end_shutdown m"
| "pm_step m (Op_Watch now sid uid raw) = fst (watch_turn now sid uid raw m)"

definition pm_try :: "process_manager \<Rightarrow> pm_op \<Rightarrow> (unit, process_manager) result" where
  "pm_try m x = Inr (pm_step m x)"

section \<open>How operations change sessions\<close>

text \<open>
  What an operation may do to the sessions: it keeps the object and its identity, never takes
  back that a completion was reported, and leaves the count of input bytes unless it is a write.
\<close>

definition evolves :: "managed_entry \<Rightarrow> managed_entry \<Rightarrow> bool" where
  "evolves e e' \<longleftrightarrow> me_session_id e' = me_session_id e \<and> me_uid e' = me_uid e \<and>
     (me_completion_emitted e \<longrightarrow> me_completion_emitted e')"

lemma evolves_refl [simp]: "evolves e e"
  by (simp add: evolves_def)

lemma redact_fields:
  assumes "redact consumer err final t e = (e', out)"
  shows "e' = e\<lparr>me_output_filters := me_output_filters e'\<rparr>"
  using assms by (auto simp: redact_def split: prod.splits)

lemma redact_snapshot_fields:
  assumes "redact_snapshot e consumer s = (e', s')"
  shows "e' = e\<lparr>me_output_filters := me_output_filters e'\<rparr>" "ps_state s' = ps_state s" "ps_cursor s' = ps_cursor s"
proof -
  obtain e1 out where 1: "redact consumer False (ps_state s = Exited) (ps_stdout s) e = (e1, out)" by fastforce
  obtain e2 err where 2: "redact consumer True (ps_state s = Exited) (ps_stderr s) e1 = (e2, err)" by fastforce
  have "e' = e \<and> s' = s \<or> e' = e2 \<and> s' = s\<lparr>ps_stdout := out, ps_stderr := err\<rparr>"
    using assms 1 2 by (auto simp: redact_snapshot_def Let_def split: if_splits)
  moreover have "e2 = e\<lparr>me_output_filters := me_output_filters e2\<rparr>"
    using redact_fields [OF 1] redact_fields [OF 2] by (metis (no_types, lifting) managed_entry.surjective
        managed_entry.update_convs(23))
  ultimately show "e' = e\<lparr>me_output_filters := me_output_filters e'\<rparr>" "ps_state s' = ps_state s"
      "ps_cursor s' = ps_cursor s"
    by auto
qed

lemmas redact_frame = redact_snapshot_fields(1)

lemma redact_evolves: "redact_snapshot e consumer s = (e', s') \<Longrightarrow> evolves e e' \<and> me_input_bytes e' = me_input_bytes e \<and>
    me_published e' = me_published e \<and> me_completion_emitted e' = me_completion_emitted e \<and>
    me_abandoned e' = me_abandoned e \<and> me_handle e' = me_handle e \<and> me_uid e' = me_uid e"
  by (drule redact_frame, erule ssubst) (simp add: evolves_def me_session_id_def)

section \<open>The invariant\<close>

definition shape :: "process_manager \<Rightarrow> (ptext \<times> ptext \<times> nat) list" where
  "shape m = map (\<lambda>(k, e). (k, me_session_id e, me_uid e)) (pm_entries m)"

definition reserved :: "process_manager \<Rightarrow> nat" where
  "reserved m = length (filter (\<lambda>(call, port, phase). phase = Reserved) (pm_start_calls m))"

definition pm_inv :: "process_manager \<Rightarrow> bool" where
  "pm_inv m \<longleftrightarrow> distinct (map fst (shape m)) \<and> distinct (map (snd \<circ> snd) (shape m)) \<and>
     (\<forall>(k, sid, u)\<in>set (shape m). k = sid \<and> u < pm_next_uid m) \<and>
     dict_ok (pm_start_calls m) \<and> pm_starting m = length (pm_start_calls m) \<and>
     length (shape m) + reserved m \<le> pm_max_sessions m"

definition same_books :: "process_manager \<Rightarrow> process_manager \<Rightarrow> bool" where
  "same_books m m' \<longleftrightarrow> pm_next_uid m' = pm_next_uid m \<and> pm_start_calls m' = pm_start_calls m \<and>
     pm_starting m' = pm_starting m \<and> pm_max_sessions m' = pm_max_sessions m"

lemma same_books_refl [simp]: "same_books m m"
  by (simp add: same_books_def)

lemma same_books_trans: "same_books m m' \<Longrightarrow> same_books m' m'' \<Longrightarrow> same_books m m''"
  by (simp add: same_books_def)

lemma same_books_parts [simp]:
  "same_books m (call_port c m') = same_books m m'" "same_books m (emit k e s m') = same_books m m'"
  "same_books m (put_entry e m') = same_books m m'" "same_books m (drop_idle_port port m') = same_books m m'"
  "same_books m (m'\<lparr>pm_entries := es\<rparr>) = same_books m m'"
  by (simp_all add: same_books_def call_port_def emit_def put_entry_def drop_idle_port_def)

lemma entries_parts [simp]:
  "pm_entries (call_port c m) = pm_entries m" "pm_entries (emit k e s m) = pm_entries m"
  "pm_entries (drop_idle_port port m) = pm_entries m"
  by (simp_all add: call_port_def emit_def drop_idle_port_def)

lemma inv_by_shape:
  assumes "pm_inv m" "same_books m m'" "shape m' = shape m"
  shows "pm_inv m'"
  using assms by (simp add: pm_inv_def same_books_def reserved_def)

lemma inv_filter:
  assumes "pm_inv m" "same_books m m'" "pm_entries m' = filter P (pm_entries m)"
  shows "pm_inv m'"
proof -
  have "distinct (map fst (shape m'))" "distinct (map (snd \<circ> snd) (shape m'))"
    using assms(1) by (auto simp: pm_inv_def shape_def assms(3) intro: distinct_map_filter)
  moreover have "set (shape m') \<subseteq> set (shape m)" "length (shape m') \<le> length (shape m)"
    by (auto simp: shape_def assms(3))
  ultimately show ?thesis
    using assms(1,2) unfolding pm_inv_def same_books_def reserved_def by auto
qed

lemma entries_ok: "pm_inv m \<Longrightarrow> dict_ok (pm_entries m)"
  by (auto simp: pm_inv_def dict_ok_def shape_def comp_def case_prod_beta)

lemma get_entry:
  assumes "pm_inv m" "dict_get (pm_entries m) sid = Some e"
  shows "me_session_id e = sid" "me_uid e < pm_next_uid m" "(sid, e) \<in> set (pm_entries m)"
proof -
  show mem: "(sid, e) \<in> set (pm_entries m)" using assms(2) by (rule dict_get_SomeD)
  then have "(sid, me_session_id e, me_uid e) \<in> set (shape m)" by (force simp: shape_def)
  then show "me_session_id e = sid" "me_uid e < pm_next_uid m" using assms(1) by (auto simp: pm_inv_def)
qed

lemma map_dict_set:
  "dict_get d k = Some e \<Longrightarrow> f k e' = f k e \<Longrightarrow> map (\<lambda>(k, e). f k e) (dict_set k e' d) = map (\<lambda>(k, e). f k e) d"
  by (induction d) (auto simp: dict_get_def)

lemma put_shape:
  assumes "pm_inv m" "dict_get (pm_entries m) sid = Some e" "evolves e e'"
  shows "shape (put_entry e' m) = shape m"
proof -
  have "me_session_id e' = sid" using get_entry(1) [OF assms(1,2)] assms(3) by (simp add: evolves_def)
  then show ?thesis
    using map_dict_set [OF assms(2), of "\<lambda>k e. (k, me_session_id e, me_uid e)" e'] assms(3)
    by (simp add: shape_def put_entry_def evolves_def)
qed

lemma inv_put:
  assumes "pm_inv m" "dict_get (pm_entries m) sid = Some e" "evolves e e'"
  shows "pm_inv (put_entry e' m)"
  by (rule inv_by_shape [OF assms(1) _ put_shape [OF assms]]) simp

lemma inv_parts [simp]:
  "pm_inv (call_port c m) = pm_inv m" "pm_inv (emit k e s m) = pm_inv m" "pm_inv (drop_idle_port port m) = pm_inv m"
  by (simp_all add: pm_inv_def shape_def reserved_def call_port_def emit_def drop_idle_port_def)

lemma inv_fold_calls: "pm_inv (fold (\<lambda>e m. call_port (f e) m) es m) = pm_inv m"
  by (induction es arbitrary: m) simp_all

lemma evolves_trans: "evolves a b \<Longrightarrow> evolves b c \<Longrightarrow> evolves a c"
  by (simp add: evolves_def)

lemmas evolves_simps = evolves_def me_session_id_def

lemma require_entry_Inr: "require_entry m sid = Inr e \<longleftrightarrow> dict_get (pm_entries m) sid = Some e"
  by (auto simp: require_entry_def split: option.splits)

lemma entry_and_cursor_Inr:
  "entry_and_cursor m sid r = Inr (e, c) \<Longrightarrow> dict_get (pm_entries m) sid = Some e \<and> can_access e r"
  by (auto simp: entry_and_cursor_def require_entry_Inr split: sum.splits if_splits)

text \<open>Every operation on one session leaves the books and either puts an evolved entry back, or takes it out.\<close>

definition touches :: "process_manager \<Rightarrow> process_manager \<Rightarrow> bool" where
  "touches m m' \<longleftrightarrow> same_books m m' \<and>
     (pm_entries m' = pm_entries m \<or>
      (\<exists>sid e e'. dict_get (pm_entries m) sid = Some e \<and> evolves e e' \<and>
         (pm_entries m' = dict_set sid e' (pm_entries m) \<or> pm_entries m' = dict_pop sid (dict_set sid e' (pm_entries m)))))"

lemma pop_after_set: "dict_pop k (dict_set k v d) = dict_pop k d"
  by (induction d) (auto simp: dict_pop_def)

lemma inv_touches:
  assumes "pm_inv m" "touches m m'"
  shows "pm_inv m'"
proof -
  have books: "same_books m m'" using assms(2) by (simp add: touches_def)
  from assms(2) consider "pm_entries m' = pm_entries m"
    | sid e e' where "dict_get (pm_entries m) sid = Some e" "evolves e e'" "pm_entries m' = dict_set sid e' (pm_entries m)"
    | sid where "pm_entries m' = dict_pop sid (pm_entries m)"
    by (auto simp: touches_def pop_after_set)
  then show ?thesis
  proof cases
    case 1
    with assms(1) books show ?thesis by (intro inv_by_shape [OF assms(1) books]) (simp add: shape_def)
  next
    case (2 sid e e')
    have "me_session_id e' = sid" using get_entry(1) [OF assms(1) 2(1)] 2(2) by (simp add: evolves_def)
    with put_shape [OF assms(1) 2(1,2)] 2(3) have "shape m' = shape m" by (simp add: shape_def put_entry_def)
    then show ?thesis by (rule inv_by_shape [OF assms(1) books])
  next
    case (3 sid)
    then show ?thesis by (intro inv_filter [OF assms(1) books]) (simp add: dict_pop_def)
  qed
qed

lemma touches_put:
  assumes "pm_inv m" "dict_get (pm_entries m) sid = Some e" "evolves e e'" "same_books m m1" "pm_entries m1 = pm_entries m"
  shows "touches m (put_entry e' m1)"
proof -
  have "me_session_id e' = sid" using get_entry(1) [OF assms(1,2)] assms(3) by (simp add: evolves_def)
  then show ?thesis
    using assms(2-5) by (auto simp: touches_def put_entry_def same_books_def)
qed

lemma touches_refl [simp]: "touches m m"
  by (simp add: touches_def)

lemma touches_keep: "same_books m m' \<Longrightarrow> pm_entries m' = pm_entries m \<Longrightarrow> touches m m'"
  by (simp add: touches_def)

lemma touches_pop:
  assumes "dict_get (pm_entries m) sid = Some e" "same_books m m'" "pm_entries m' = dict_pop sid (pm_entries m)"
  shows "touches m m'"
  unfolding touches_def using assms evolves_refl [of e] pop_after_set [of sid e "pm_entries m"] by metis

lemma touches_call: "touches m m' \<Longrightarrow> touches m (call_port c m')"
  by (simp add: touches_def same_books_def call_port_def)

lemma touches_emit: "touches m m' \<Longrightarrow> touches m (emit k e s m')"
  by (simp add: touches_def same_books_def emit_def)

lemma publish_touches: "pm_inv m \<Longrightarrow> touches m (fst (publish now sid observed m))"
proof (cases "require_entry m sid")
  case (Inr e)
  assume inv: "pm_inv m"
  have get: "dict_get (pm_entries m) sid = Some e" using Inr by (simp add: require_entry_Inr)
  show ?thesis
    unfolding publish_def Inr Let_def sum.case fst_conv
    by (rule touches_put [OF inv get]) (auto simp: start_watcher_def evolves_simps)
qed (simp add: publish_def)

lemma abandon_touches: "pm_inv m \<Longrightarrow> touches m (fst (abandon sid reason m))"
proof (cases "require_entry m sid")
  case (Inr e)
  assume inv: "pm_inv m"
  have get: "dict_get (pm_entries m) sid = Some e" using Inr by (simp add: require_entry_Inr)
  have "touches m (m\<lparr>pm_entries := dict_pop sid (pm_entries m)\<rparr>)"
    by (rule touches_pop [OF get]) simp_all
  moreover have "touches m (put_entry (start_watcher (e\<lparr>me_abandoned := True\<rparr>)) m)"
    by (rule touches_put [OF inv get]) (auto simp: start_watcher_def evolves_simps)
  ultimately show ?thesis by (auto simp: abandon_def Inr intro: touches_call)
qed (simp add: abandon_def)

lemma finish_poll_touches: "pm_inv m \<Longrightarrow> touches m (fst (finish_poll now sid uid consumer mark retain raw m))"
proof (cases "dict_get (pm_entries m) sid")
  case (Some e)
  assume inv: "pm_inv m"
  obtain e1 s where r: "redact_snapshot e consumer raw = (e1, s)" by fastforce
  have ev: "evolves e (f e1)" if "me_session_id (f e1) = me_session_id e1" "me_uid (f e1) = me_uid e1"
      "me_completion_emitted (f e1) = me_completion_emitted e1" for f
    using redact_evolves [OF r] that by (simp add: evolves_def)
  show ?thesis
  proof (cases "me_uid e = uid")
    case True
    have "\<exists>e'. fst (finish_poll now sid uid consumer mark retain raw m) = put_entry e' m \<and>
        me_session_id e' = me_session_id e1 \<and> me_uid e' = me_uid e1 \<and> me_completion_emitted e' = me_completion_emitted e1"
      using True by (auto simp: finish_poll_def polled_entry_def Some r Let_def me_session_id_def split: option.splits prod.splits)
    then obtain e' where e': "fst (finish_poll now sid uid consumer mark retain raw m) = put_entry e' m"
        "me_session_id e' = me_session_id e1" "me_uid e' = me_uid e1" "me_completion_emitted e' = me_completion_emitted e1"
      by blast
    have "evolves e e'" using ev [of "\<lambda>_. e'"] e' by simp
    then show ?thesis unfolding e'(1) by (rule touches_put [OF inv Some]) simp_all
  qed (simp add: finish_poll_def Some)
qed (simp add: finish_poll_def)

lemma write_input_evolves: "write_input_bounded e n answer = (e', res) \<Longrightarrow> evolves e e'"
  by (auto simp: write_input_bounded_def evolves_simps split: sum.splits)

lemma write_chars_touches: "pm_inv m \<Longrightarrow> touches m (fst (write_chars sid r chars answer m))"
  by (auto simp: write_chars_def split: sum.splits prod.splits
      intro!: touches_put dest: entry_and_cursor_Inr write_input_evolves)

lemma write_sensitive_touches:
  assumes "pm_inv m"
  shows "touches m (fst (write_sensitive_line sid r v answer m))"
proof (cases "\<exists>x. snd (write_sensitive_line sid r v answer m) = x \<and> fst (write_sensitive_line sid r v answer m) = m")
  case False
  then obtain e c n where e: "entry_and_cursor m sid r = Inr (e, c)" "validated_input_byte_count e (v @ [10]) = Inr n"
      "fst (write_sensitive_line sid r v answer m) =
        put_entry (fst (write_input_bounded (if v \<in> set (me_sensitive_values e) then e
          else e\<lparr>me_sensitive_values := me_sensitive_values e @ [v]\<rparr>) n answer)) m"
    by (auto simp: write_sensitive_line_def Let_def case_prod_beta split: if_splits sum.splits prod.splits)
  let ?e1 = "if v \<in> set (me_sensitive_values e) then e else e\<lparr>me_sensitive_values := me_sensitive_values e @ [v]\<rparr>"
  have "evolves e ?e1" by (simp add: evolves_simps)
  moreover have "evolves ?e1 (fst (write_input_bounded ?e1 n answer))"
    using write_input_evolves by (metis prod.collapse)
  ultimately have "evolves e (fst (write_input_bounded ?e1 n answer))" by (rule evolves_trans)
  then show ?thesis
    unfolding e(3) using assms entry_and_cursor_Inr [OF e(1)] by (intro touches_put [of m sid e]) auto
qed auto

lemma control_touches: "touches m (fst (control sid r call m))"
  by (auto simp: control_def intro: touches_call split: sum.splits)

lemma stopped_touches: "pm_inv m \<Longrightarrow> touches m (stopped now sid uid filtered raw m)"
proof (cases "dict_get (pm_entries m) sid")
  case (Some e)
  assume inv: "pm_inv m"
  obtain e1 s where r: "(if filtered then redact_snapshot e (lit ''manager'') raw else (e, raw)) = (e1, s)" by fastforce
  have "evolves e e1" using r redact_evolves by (auto split: if_splits)
  then have "evolves e (e1\<lparr>me_last_snapshot := s\<rparr>)" "evolves e (e1\<lparr>me_last_snapshot := s, me_terminal_at := t\<rparr>)" for t
    by (simp_all add: evolves_simps)
  with inv Some show ?thesis
    by (auto simp: stopped_def r Let_def intro!: touches_put [of m sid e])
qed (simp add: stopped_def)

lemma watched_evolves: "evolves e (watched_entry now cursor s e)"
  by (simp add: watched_entry_def evolves_simps)

lemma watch_touches:
  assumes "pm_inv m"
  shows "touches m (fst (watch_turn now sid uid raw m))"
proof (cases "\<exists>e. dict_get (pm_entries m) sid = Some e \<and> me_uid e = uid")
  case False
  then show ?thesis by (auto simp: watch_turn_def split: option.splits)
next
  case True
  then obtain e where e: "dict_get (pm_entries m) sid = Some e" "me_uid e = uid" by blast
  obtain e1 s where r: "redact_snapshot e (lit ''watcher'') raw = (e1, s)" by fastforce
  define e2 where "e2 = watched_entry now (ps_cursor raw) s e1"
  have w: "evolves e e2" using redact_evolves [OF r] watched_evolves evolves_trans unfolding e2_def by blast
  have "me_session_id e2 = sid" using get_entry(1) [OF assms e(1)] w by (simp add: evolves_def)
  then have "touches m ((put_entry e2 m)\<lparr>pm_entries := dict_pop sid (pm_entries (put_entry e2 m))\<rparr>)"
    by (intro touches_pop [OF e(1)]) (simp_all add: put_entry_def pop_after_set same_books_def)
  moreover have "touches m (put_entry e2 m)" by (rule touches_put [OF assms e(1) w]) simp_all
  ultimately show ?thesis
    using e by (simp add: watch_turn_def r Let_def touches_call touches_emit flip: e2_def)
qed

lemma inv_map:
  assumes "pm_inv m" "same_books m m'" "pm_entries m' = map (\<lambda>(k, e). (k, f e)) (pm_entries m)"
    and "\<And>e. me_session_id (f e) = me_session_id e \<and> me_uid (f e) = me_uid e"
  shows "pm_inv m'"
proof (rule inv_by_shape [OF assms(1,2)])
  show "shape m' = shape m" using assms(4) by (simp add: shape_def assms(3) case_prod_beta)
qed

lemma fold_calls_frame:
  "same_books m (fold (\<lambda>e m. call_port (f e) m) es m') = same_books m m'"
  "pm_entries (fold (\<lambda>e m. call_port (f e) m) es m') = pm_entries m'"
  "pm_events (fold (\<lambda>e m. call_port (f e) m) es m') = pm_events m'"
  by (induction es arbitrary: m') (simp_all add: call_port_def same_books_def)

lemma cleanup_inv: "pm_inv m \<Longrightarrow> pm_inv (fst (cleanup_expired now m))"
  by (rule inv_filter [where m = m]) (auto simp: cleanup_expired_def same_books_def)

lemma inv_reserve:
  assumes "pm_inv m" "dict_get (pm_start_calls m) call = None"
  shows "pm_inv (fst (reserve_start call now port m))"
proof -
  obtain m1 expired where c: "cleanup_expired now m = (m1, expired)" by fastforce
  have i: "pm_inv m1" using cleanup_inv [OF assms(1), of now] c by simp
  have same: "pm_start_calls m1 = pm_start_calls m" using c by (auto simp: cleanup_expired_def)
  show ?thesis
  proof (cases "pm_closing m \<or> pm_max_sessions m1 \<le> length (pm_entries m1) + pm_starting m1")
    case True
    then show ?thesis
      using assms(1) i by (auto simp: reserve_start_def c release_expired_def inv_fold_calls)
  next
    case False
    have new: "dict_set call (port, Reserved) (pm_start_calls m1) = pm_start_calls m1 @ [(call, port, Reserved)]"
      using assms(2) same by (intro dict_set_new) (simp add: dict_get_None_iff)
    have "dict_ok (pm_start_calls m1 @ [(call, port, Reserved)])"
      using i assms(2) same by (auto simp: pm_inv_def dict_ok_def dict_get_None_iff)
    moreover have "reserved m1 \<le> pm_starting m1" using i by (simp add: pm_inv_def reserved_def)
    then have "length (pm_entries m1) + reserved m1 < pm_max_sessions m1" using False by linarith
    ultimately have "pm_inv (m1\<lparr>pm_ports := ports, pm_starting_ports := starts, pm_starting := pm_starting m1 + 1,
        pm_start_calls := pm_start_calls m1 @ [(call, port, Reserved)]\<rparr>)" for ports starts
      using i by (simp add: pm_inv_def shape_def reserved_def)
    then show ?thesis
      using False by (simp add: reserve_start_def c release_expired_def inv_fold_calls new del: One_nat_def)
  qed
qed

lemma reserved_set:
  assumes "dict_get d call = Some (port, Reserved)" "phase \<noteq> Reserved" "dict_ok d"
  shows "length (filter (\<lambda>(call, port, phase). phase = Reserved) (dict_set call (port, phase) d)) + 1 =
    length (filter (\<lambda>(call, port, phase). phase = Reserved) d)"
  using assms by (induction d) (auto simp: dict_get_def dict_ok_def split: if_splits)

lemma length_dict_set_present: "dict_get d k = Some w \<Longrightarrow> length (dict_set k v d) = length d"
  by (induction d) (auto simp: dict_get_def)

lemma set_phase_fields [simp]:
  "shape (set_phase call port phase m) = shape m" "pm_next_uid (set_phase call port phase m) = pm_next_uid m"
  "pm_max_sessions (set_phase call port phase m) = pm_max_sessions m"
  by (simp_all add: set_phase_def shape_def)

lemma inv_set_phase:
  assumes "pm_inv m" "dict_get (pm_start_calls m) call = Some (port, Reserved)" "phase \<noteq> Reserved"
    and "same_books m m'" "shape m' = shape m \<or> (\<exists>x. shape m' = shape m @ [x] \<and> phase = Registered)"
  shows "dict_ok (pm_start_calls (set_phase call port phase m')) \<and>
    pm_starting (set_phase call port phase m') = length (pm_start_calls (set_phase call port phase m')) \<and>
    length (shape (set_phase call port phase m')) + reserved (set_phase call port phase m') \<le> pm_max_sessions m'"
proof -
  have d: "dict_ok (pm_start_calls m)" using assms(1) by (simp add: pm_inv_def)
  have sh: "shape (set_phase call port phase m') = shape m'" by (simp add: set_phase_def shape_def)
  have calls: "pm_start_calls (set_phase call port phase m') = dict_set call (port, phase) (pm_start_calls m)"
    using assms(4) by (simp add: set_phase_def same_books_def)
  have "reserved (set_phase call port phase m') + 1 = reserved m"
    using reserved_set [OF assms(2,3) d] by (simp add: reserved_def calls)
  moreover have "length (shape m') \<le> length (shape m) + 1" using assms(5) by auto
  ultimately show ?thesis
    using assms(1,4) length_dict_set_present [OF assms(2)] dict_ok_set [OF d] sh calls
    by (auto simp: pm_inv_def same_books_def set_phase_def)
qed

lemma inv_register:
  assumes "pm_inv m"
  shows "pm_inv (fst (register_start call now q res m))"
proof (cases "\<exists>port. dict_get (pm_start_calls m) call = Some (port, Reserved)")
  case False
  then have "fst (register_start call now q res m) = m"
    by (auto simp: register_start_def split: option.splits start_phase.splits)
  with assms show ?thesis by simp
next
  case True
  then obtain port where p: "dict_get (pm_start_calls m) call = Some (port, Reserved)" by blast
  have fail: "pm_inv (set_phase call port phase m')" if "same_books m m'" "shape m' = shape m" "phase \<noteq> Reserved" for phase m'
    using inv_set_phase [OF assms p that(3,1)] that assms
    by (auto simp: pm_inv_def same_books_def)
  have abort: "pm_inv (abort_start call port handle m)" for handle
    unfolding abort_start_def by (rule fail) (simp_all add: shape_def)
  have acc: "pm_inv (set_phase call port Registered (put_entry (new_entry (pm_next_uid m) port now q handle initial)
      (m\<lparr>pm_next_uid := pm_next_uid m + 1\<rparr>)))"
    if fresh: "dict_get (pm_entries m) (ph_session_id handle) = None" for handle initial
  proof -
    let ?e = "new_entry (pm_next_uid m) port now q handle initial"
    let ?m' = "m\<lparr>pm_entries := pm_entries m @ [(ph_session_id handle, ?e)]\<rparr>"
    have set: "dict_set (ph_session_id handle) ?e (pm_entries m) = pm_entries m @ [(ph_session_id handle, ?e)]"
      using fresh by (intro dict_set_new) (simp add: dict_get_None_iff)
    have sh: "shape ?m' = shape m @ [(ph_session_id handle, ph_session_id handle, pm_next_uid m)]"
      by (simp add: shape_def new_entry_def me_session_id_def)
    have "ph_session_id handle \<notin> set (map fst (shape m))"
      using fresh by (force simp: dict_get_None_iff shape_def)
    moreover have "pm_next_uid m \<notin> set (map (snd \<circ> snd) (shape m))"
      using assms by (fastforce simp: pm_inv_def)
    moreover note inv_set_phase [OF assms p, of Registered ?m']
    ultimately show ?thesis
      using assms sh set
      by (auto simp: pm_inv_def set_phase_def put_entry_def new_entry_def me_session_id_def shape_def reserved_def
          less_Suc_eq)
  qed
  show ?thesis
    using p fail [of m "Failed_Start False"] abort acc by (cases res) (auto simp: register_start_def)
qed

lemma dict_pop_absent: "k \<notin> set (keys d) \<Longrightarrow> dict_pop k d = d"
  by (induction d) (auto simp: dict_pop_def)

lemma dict_pop_Cons: "dict_pop k ((k', v) # d) = (if k' = k then dict_pop k d else (k', v) # dict_pop k d)"
  by (simp add: dict_pop_def)

lemma dict_pop_counts:
  assumes "dict_ok d" "dict_get d call = Some (port, phase)"
  shows "length (dict_pop call d) + 1 = length d"
    and "phase \<noteq> Reserved \<Longrightarrow> length (filter (\<lambda>(call, port, phase). phase = Reserved) (dict_pop call d)) =
      length (filter (\<lambda>(call, port, phase). phase = Reserved) d)"
  using assms
  by (induction d) (auto simp: dict_get_def dict_ok_def dict_pop_Cons dict_pop_absent split: if_splits)

lemma inv_finish:
  assumes "pm_inv m"
  shows "pm_inv (finish_start call m)"
proof (cases "\<exists>port phase. dict_get (pm_start_calls m) call = Some (port, phase) \<and> phase \<noteq> Reserved")
  case False
  then have "finish_start call m = m" by (auto simp: finish_start_def split: option.splits)
  with assms show ?thesis by simp
next
  case True
  then obtain port phase where p: "dict_get (pm_start_calls m) call = Some (port, phase)" "phase \<noteq> Reserved" by blast
  have d: "dict_ok (pm_start_calls m)" using assms by (simp add: pm_inv_def)
  have "pm_inv (m\<lparr>pm_starting := pm_starting m - 1, pm_start_calls := dict_pop call (pm_start_calls m),
      pm_starting_ports := ports\<rparr>)" for ports
    using assms dict_pop_counts [OF d p(1)] p(2) dict_ok_pop [OF d]
    by (auto simp: pm_inv_def shape_def reserved_def)
  then show ?thesis using p by (simp add: finish_start_def Let_def)
qed

lemma inv_step:
  assumes "pm_inv m"
  shows "pm_inv (pm_step m x)"
proof (cases x)
  case (Op_Reserve call now port)
  with assms show ?thesis using inv_reserve [OF assms, of call] by (cases "dict_get (pm_start_calls m) call") auto
next
  case (Op_List now wall r include_observed)
  obtain m1 expired where "cleanup_expired now m = (m1, expired)" by fastforce
  with Op_List cleanup_inv [OF assms, of now] show ?thesis
    by (simp add: list_sessions_def release_expired_def inv_fold_calls)
next
  case (Op_Rebind owner previous next_generation)
  have "pm_inv (fst (rebind_generation owner previous next_generation m))"
    by (rule inv_map [OF assms, of _ "\<lambda>e. if rebound owner previous e
        then e\<lparr>me_session_generation := next_generation\<rparr> else e"])
      (auto simp: rebind_generation_def me_session_id_def)
  with Op_Rebind show ?thesis by simp
next
  case Op_Begin_Shutdown
  have "pm_inv (begin_shutdown m)"
    by (rule inv_map [OF assms, of _ start_watcher])
      (auto simp: begin_shutdown_def same_books_def start_watcher_def me_session_id_def)
  with Op_Begin_Shutdown show ?thesis by simp
next
  case Op_End_Shutdown
  have "pm_inv (end_shutdown m)"
    by (rule inv_filter [OF assms, of _ "\<lambda>_. False"]) (auto simp: end_shutdown_def same_books_def)
  with Op_End_Shutdown show ?thesis by simp
next
  case (Op_Stop r reason)
  with assms show ?thesis by (simp add: stop_all_def Let_def inv_fold_calls)
next
  case (Op_Resize rows columns r)
  with assms show ?thesis by (simp add: resize_tty_sessions_def Let_def inv_fold_calls)
qed (use assms inv_register inv_finish inv_touches publish_touches abandon_touches finish_poll_touches
      write_chars_touches write_sensitive_touches control_touches stopped_touches watch_touches
    in \<open>auto simp: port_released_def\<close>)

interpretation manager: machine pm_try pm_inv
  by unfold_locales (auto simp: pm_try_def intro: inv_step)

section \<open>Completions are reported once\<close>

definition completed_of :: "process_manager \<Rightarrow> nat \<Rightarrow> nat" where
  "completed_of m u = length (filter (\<lambda>v. pe_kind v = Completed \<and> pe_entry v = u) (pm_events m))"

definition once :: "process_manager \<Rightarrow> bool" where
  "once m \<longleftrightarrow> (\<forall>u. completed_of m u \<le> 1) \<and>
     (\<forall>(k, e)\<in>set (pm_entries m). \<not> me_completion_emitted e \<longrightarrow> completed_of m (me_uid e) = 0) \<and>
     (\<forall>v\<in>set (pm_events m). pe_entry v < pm_next_uid m)"

lemma once_quiet:
  assumes "once m" "pm_events m' = pm_events m" "pm_next_uid m \<le> pm_next_uid m'"
    and "\<And>k e'. (k, e') \<in> set (pm_entries m') \<Longrightarrow> pm_next_uid m \<le> me_uid e' \<or>
      (\<exists>k e. (k, e) \<in> set (pm_entries m) \<and> me_uid e' = me_uid e \<and> (me_completion_emitted e \<longrightarrow> me_completion_emitted e'))"
  shows "once m'"
proof -
  have c: "completed_of m' = completed_of m" using assms(2) by (simp add: completed_of_def fun_eq_iff)
  have fresh: "completed_of m u = 0" if "pm_next_uid m \<le> u" for u
    using assms(1) that by (fastforce simp: once_def completed_of_def filter_empty_conv)
  show ?thesis
    unfolding once_def c assms(2)
  proof (intro conjI)
    show "\<forall>(k, e)\<in>set (pm_entries m'). \<not> me_completion_emitted e \<longrightarrow> completed_of m (me_uid e) = 0"
    proof clarify
      fix k e' assume e': "(k, e') \<in> set (pm_entries m')" "\<not> me_completion_emitted e'"
      from assms(4) [OF e'(1)] show "completed_of m (me_uid e') = 0"
      proof
        assume "\<exists>k e. (k, e) \<in> set (pm_entries m) \<and> me_uid e' = me_uid e \<and>
          (me_completion_emitted e \<longrightarrow> me_completion_emitted e')"
        then obtain k e where "(k, e) \<in> set (pm_entries m)" "me_uid e' = me_uid e" "\<not> me_completion_emitted e"
          using e'(2) by blast
        with assms(1) show ?thesis unfolding once_def by fastforce
      qed (rule fresh)
    qed
  qed (use assms in \<open>auto simp: once_def\<close>)
qed

lemma touches_entry:
  assumes "touches m m'" "(k, e') \<in> set (pm_entries m')"
  shows "\<exists>k e. (k, e) \<in> set (pm_entries m) \<and> evolves e e'"
proof -
  have set: "\<exists>k e. (k, e) \<in> set (pm_entries m) \<and> evolves e e'"
    if "dict_get (pm_entries m) sid = Some x" "evolves x x'" "(k, e') \<in> set (dict_set sid x' (pm_entries m))" for sid x x'
    using dict_set_mem [OF that(3)] dict_get_SomeD [OF that(1)] that(2) evolves_refl by blast
  from assms(1) consider "pm_entries m' = pm_entries m"
    | sid x x' where "dict_get (pm_entries m) sid = Some x" "evolves x x'" "set (pm_entries m') \<subseteq> set (dict_set sid x' (pm_entries m))"
    by (auto simp: touches_def dict_pop_def)
  then show ?thesis
  proof cases
    case 1
    with assms(2) evolves_refl show ?thesis by metis
  next
    case (2 sid x x')
    with set assms(2) show ?thesis by blast
  qed
qed

lemma once_touches:
  assumes "once m" "touches m m'" "pm_events m' = pm_events m"
  shows "once m'"
proof (rule once_quiet [OF assms(1,3)])
  show "pm_next_uid m \<le> pm_next_uid m'" using assms(2) by (simp add: touches_def same_books_def)
next
  fix k e' assume "(k, e') \<in> set (pm_entries m')"
  from touches_entry [OF assms(2) this] show "pm_next_uid m \<le> me_uid e' \<or>
      (\<exists>k e. (k, e) \<in> set (pm_entries m) \<and> me_uid e' = me_uid e \<and> (me_completion_emitted e \<longrightarrow> me_completion_emitted e'))"
    by (auto simp: evolves_def)
qed

lemma completed_emit:
  "completed_of (emit k e s m) u =
     completed_of m u + (if pm_event_sink m \<and> k = Completed \<and> me_uid e = u then 1 else 0)"
  by (simp add: completed_of_def emit_def)

lemma once_emit:
  assumes "once m" "me_uid e < pm_next_uid m"
    and "k = Completed \<Longrightarrow> completed_of m (me_uid e) = 0 \<and>
      (\<forall>(j, x)\<in>set (pm_entries m). me_uid x = me_uid e \<longrightarrow> me_completion_emitted x)"
  shows "once (emit k e s m)"
  unfolding once_def completed_emit
proof (intro conjI)
  show "\<forall>u. completed_of m u + (if pm_event_sink m \<and> k = Completed \<and> me_uid e = u then 1 else 0) \<le> 1"
    using assms(1,3) by (auto simp: once_def)
  show "\<forall>v\<in>set (pm_events (emit k e s m)). pe_entry v < pm_next_uid (emit k e s m)"
    using assms(1,2) by (auto simp: once_def emit_def)
  show "\<forall>(j, x)\<in>set (pm_entries (emit k e s m)). \<not> me_completion_emitted x \<longrightarrow>
      completed_of m (me_uid x) + (if pm_event_sink m \<and> k = Completed \<and> me_uid e = me_uid x then 1 else 0) = 0"
    using assms(1,3) by (fastforce simp: once_def)
qed

lemma uid_unique:
  assumes "pm_inv m" "(k, x) \<in> set (pm_entries m)" "(j, y) \<in> set (pm_entries m)" "me_uid x = me_uid y"
  shows "x = y"
proof -
  have "distinct (map (\<lambda>x. me_uid (snd x)) (pm_entries m))"
    using assms(1) by (simp add: pm_inv_def shape_def comp_def case_prod_beta)
  then have "inj_on (\<lambda>x. me_uid (snd x)) (set (pm_entries m))" by (simp add: distinct_map)
  from inj_onD [OF this, of "(k, x)" "(j, y)"] assms(2-4) show ?thesis by simp
qed

lemma put_entry_mem:
  assumes "pm_inv m" "dict_get (pm_entries m) sid = Some e" "evolves e e'"
  shows "(sid, e') \<in> set (pm_entries (put_entry e' m))"
proof -
  have "me_session_id e' = sid" using get_entry(1) [OF assms(1,2)] assms(3) by (simp add: evolves_def)
  then show ?thesis by (auto simp: put_entry_def intro: dict_get_SomeD simp: dict_get_set)
qed

text \<open>Putting an entry back that now counts as completed, and reporting the completion.\<close>

lemma once_complete:
  assumes "pm_inv m" "once m" "dict_get (pm_entries m) sid = Some e" "evolves e e'"
    and "k' = Completed \<Longrightarrow> False"
  shows "once (put_entry e' m)" "once (emit k' e' s' (put_entry e' m))"
    and "\<not> me_completion_emitted e \<Longrightarrow> me_completion_emitted e' \<Longrightarrow>
      once (emit Completed e' s (put_entry e' m)) \<and> once (emit Completed e' s (emit k' e' s' (put_entry e' m)))"
proof -
  have t: "touches m (put_entry e' m)" by (rule touches_put [OF assms(1,3,4)]) simp_all
  show o: "once (put_entry e' m)" by (rule once_touches [OF assms(2) t]) (simp add: put_entry_def)
  have u: "me_uid e' < pm_next_uid (put_entry e' m)"
    using get_entry(2) [OF assms(1,3)] assms(4) by (simp add: put_entry_def evolves_def)
  show o1: "once (emit k' e' s' (put_entry e' m))" by (rule once_emit [OF o u]) (use assms(5) in blast)
  assume fresh: "\<not> me_completion_emitted e" "me_completion_emitted e'"
  have zero: "completed_of m (me_uid e') = 0"
    using assms(2,4) get_entry(3) [OF assms(1,3)] fresh(1) by (fastforce simp: once_def evolves_def)
  have same: "completed_of (put_entry e' m) u = completed_of m u" for u by (simp add: completed_of_def put_entry_def)
  have i: "pm_inv (put_entry e' m)" by (rule inv_put [OF assms(1,3,4)])
  have all: "\<forall>(j, x)\<in>set (pm_entries (put_entry e' m)). me_uid x = me_uid e' \<longrightarrow> me_completion_emitted x"
    using uid_unique [OF i _ put_entry_mem [OF assms(1,3,4)]] fresh(2) by blast
  have "once (emit Completed e' s (put_entry e' m))"
    by (rule once_emit [OF o u]) (use zero same all in auto)
  moreover have "once (emit Completed e' s (emit k' e' s' (put_entry e' m)))"
  proof (rule once_emit [OF o1])
    show "me_uid e' < pm_next_uid (emit k' e' s' (put_entry e' m))" using u by (simp add: emit_def)
    show "completed_of (emit k' e' s' (put_entry e' m)) (me_uid e') = 0 \<and>
        (\<forall>(j, x)\<in>set (pm_entries (emit k' e' s' (put_entry e' m))). me_uid x = me_uid e' \<longrightarrow> me_completion_emitted x)"
      using zero same all assms(5) by (auto simp: completed_emit)
  qed
  ultimately show "once (emit Completed e' s (put_entry e' m)) \<and>
      once (emit Completed e' s (emit k' e' s' (put_entry e' m)))" ..
qed

lemma put_emit: "put_entry e (emit k e' s m) = emit k e' s (put_entry e m)"
  by (simp add: put_entry_def emit_def)

lemma emit_watcher: "emit k (start_watcher e) s m = emit k e s m"
  by (simp add: emit_def start_watcher_def)

lemma once_publish:
  assumes "pm_inv m" "once m"
  shows "once (fst (publish now sid observed m))"
proof (cases "require_entry m sid")
  case (Inl x)
  with assms(2) show ?thesis by (simp add: publish_def)
next
  case (Inr e)
  have get: "dict_get (pm_entries m) sid = Some e" using Inr by (simp add: require_entry_Inr)
  define e2 where "e2 = (if observed \<and> exited e then e\<lparr>me_published := True, me_observed := True, me_observed_at := Some now\<rparr>
      else e\<lparr>me_published := True\<rparr>)"
  define fin where "fin = (exited e \<and> \<not> me_completion_emitted e)"
  define e3 where "e3 = (if fin then e2\<lparr>me_completion_emitted := True\<rparr> else e2)"
  have e4: "evolves e (start_watcher e3)" "fin \<Longrightarrow> me_completion_emitted (start_watcher e3)"
    by (auto simp: e3_def e2_def start_watcher_def evolves_simps)
  have "fst (publish now sid observed m) =
      (let m1 = emit Published (start_watcher e3) (me_last_snapshot e3) (put_entry (start_watcher e3) m)
       in if fin then emit Completed (start_watcher e3) (me_last_snapshot e3) m1 else m1)"
    by (simp add: publish_def Inr Let_def put_emit emit_watcher e3_def e2_def fin_def)
  then show ?thesis
    using once_complete(2,3) [OF assms get e4(1), of Published] e4(2) by (auto simp: Let_def fin_def)
qed

lemma once_filter: "once m \<Longrightarrow> once (m\<lparr>pm_entries := filter P (pm_entries m)\<rparr>)"
  by (rule once_quiet [of m]) auto

lemma once_call [simp]: "once (call_port c m) = once m"
  by (simp add: once_def completed_of_def call_port_def)

lemma once_watch:
  assumes "pm_inv m" "once m"
  shows "once (fst (watch_turn now sid uid raw m))"
proof (cases "\<exists>e. dict_get (pm_entries m) sid = Some e \<and> me_uid e = uid")
  case False
  with assms(2) show ?thesis by (auto simp: watch_turn_def split: option.splits)
next
  case True
  then obtain e where e: "dict_get (pm_entries m) sid = Some e" "me_uid e = uid" by blast
  obtain e1 s where r: "redact_snapshot e (lit ''watcher'') raw = (e1, s)" by fastforce
  define e2 where "e2 = watched_entry now (ps_cursor raw) s e1"
  have w: "evolves e e2" using redact_evolves [OF r] watched_evolves evolves_trans unfolding e2_def by blast
  have c: "completes e1 s \<Longrightarrow> \<not> me_completion_emitted e \<and> me_completion_emitted e2"
    using redact_evolves [OF r] by (auto simp: completes_def e2_def watched_entry_def)
  note o = once_complete [OF assms e(1) w]
  have o1: "once (put_entry e2 m)" "once (emit Output e2 s (put_entry e2 m))" "once (emit Updated e2 s (put_entry e2 m))"
    using o(1) [of Output] o(2) [of Output] o(2) [of Updated] by auto
  have o2: "once (emit Completed e2 s (put_entry e2 m))" "once (emit Completed e2 s (emit Output e2 s (put_entry e2 m)))"
      "once (emit Completed e2 s (emit Updated e2 s (put_entry e2 m)))" if "completes e1 s"
    using o(3) [of Output s s] o(3) [of Updated s s] c [OF that] by auto
  have "once ((put_entry e2 m)\<lparr>pm_entries := dict_pop sid (pm_entries (put_entry e2 m))\<rparr>)"
    unfolding dict_pop_def by (rule once_filter [OF o1(1)])
  with e o1 o2 show ?thesis by (simp add: watch_turn_def r Let_def flip: e2_def)
qed

lemma events_parts [simp]:
  "pm_events (call_port c m) = pm_events m" "pm_events (put_entry e m) = pm_events m"
  "pm_events (drop_idle_port port m) = pm_events m" "pm_events (set_phase call port phase m) = pm_events m"
  by (simp_all add: call_port_def put_entry_def drop_idle_port_def set_phase_def)

lemma quiet_events:
  "pm_events (fst (abandon sid reason m)) = pm_events m"
  "pm_events (fst (finish_poll now sid uid consumer mark retain raw m)) = pm_events m"
  "pm_events (fst (write_chars sid r chars answer m)) = pm_events m"
  "pm_events (fst (write_sensitive_line sid r v answer m)) = pm_events m"
  "pm_events (fst (control sid r call m)) = pm_events m"
  "pm_events (stopped now sid uid filtered raw m) = pm_events m"
  by (auto simp: abandon_def finish_poll_def write_chars_def write_sensitive_line_def control_def stopped_def Let_def
      split: sum.splits option.splits prod.splits)

lemma once_fold_calls [simp]: "once (fold (\<lambda>e m. call_port (f e) m) es m) = once m"
  by (induction es arbitrary: m) simp_all

lemma once_cleanup: "once m \<Longrightarrow> once (fst (cleanup_expired now m))"
  unfolding cleanup_expired_def fst_conv by (rule once_filter)

lemma once_reserve:
  assumes "once m"
  shows "once (fst (reserve_start call now port m))"
proof -
  obtain m1 expired where c: "cleanup_expired now m = (m1, expired)" by fastforce
  have "once m1" using once_cleanup [OF assms, of now] c by simp
  then have "once (m1\<lparr>pm_ports := ports, pm_starting_ports := starts, pm_starting := n, pm_start_calls := calls\<rparr>)"
    for ports starts n calls
    by (simp add: once_def completed_of_def)
  with \<open>once m1\<close> assms show ?thesis by (simp add: reserve_start_def c release_expired_def)
qed

lemma once_register:
  assumes "once m"
  shows "once (fst (register_start call now q res m))"
proof -
  have phase: "once (set_phase call port phase m') = once m'" for port phase m'
    by (simp add: once_def completed_of_def set_phase_def)
  have "once (put_entry (new_entry (pm_next_uid m) port now q handle initial) (m\<lparr>pm_next_uid := pm_next_uid m + 1\<rparr>))"
    for port handle initial
  proof (rule once_quiet [OF assms])
    fix k e' assume "(k, e') \<in> set (pm_entries (put_entry (new_entry (pm_next_uid m) port now q handle initial)
        (m\<lparr>pm_next_uid := pm_next_uid m + 1\<rparr>)))"
    then have "(k, e') = (me_session_id (new_entry (pm_next_uid m) port now q handle initial),
        new_entry (pm_next_uid m) port now q handle initial) \<or> (k, e') \<in> set (pm_entries m)"
      using dict_set_mem by (fastforce simp: put_entry_def)
    then show "pm_next_uid m \<le> me_uid e' \<or> (\<exists>k e. (k, e) \<in> set (pm_entries m) \<and> me_uid e' = me_uid e \<and>
        (me_completion_emitted e \<longrightarrow> me_completion_emitted e'))"
      by (auto simp: new_entry_def)
  qed (simp_all add: put_entry_def)
  with assms phase show ?thesis
    by (auto simp: register_start_def abort_start_def split: option.splits start_phase.splits port_start.splits)
qed

lemma once_finish: "once m \<Longrightarrow> once (finish_start call m)"
  by (auto simp: finish_start_def drop_idle_port_def once_def completed_of_def Let_def split: option.splits)

lemma once_map:
  assumes "once m" "pm_events m' = pm_events m" "pm_next_uid m' = pm_next_uid m"
    and "pm_entries m' = map (\<lambda>(k, e). (k, f e)) (pm_entries m)"
    and "\<And>e. me_uid (f e) = me_uid e \<and> me_completion_emitted (f e) = me_completion_emitted e"
  shows "once m'"
  by (rule once_quiet [OF assms(1,2)]) (use assms(3-5) in auto)

lemma once_step:
  assumes "pm_inv m" "once m"
  shows "once (pm_step m x)"
proof (cases x)
  case (Op_List now wall r include_observed)
  obtain m1 expired where "cleanup_expired now m = (m1, expired)" by fastforce
  with Op_List once_cleanup [OF assms(2), of now] show ?thesis
    by (simp add: list_sessions_def release_expired_def)
next
  case (Op_Rebind owner previous next_generation)
  have "once (fst (rebind_generation owner previous next_generation m))"
    by (rule once_map [OF assms(2), where f = "\<lambda>e. if rebound owner previous e
        then e\<lparr>me_session_generation := next_generation\<rparr> else e"]) (auto simp: rebind_generation_def)
  with Op_Rebind show ?thesis by simp
next
  case Op_Begin_Shutdown
  have "once (begin_shutdown m)"
    by (rule once_map [OF assms(2), where f = start_watcher]) (auto simp: begin_shutdown_def start_watcher_def)
  with Op_Begin_Shutdown show ?thesis by simp
next
  case Op_End_Shutdown
  with assms(2) show ?thesis by (auto simp: end_shutdown_def once_def completed_of_def)
next
  case (Op_Released port)
  with assms(2) show ?thesis by (auto simp: port_released_def drop_idle_port_def once_def completed_of_def)
next
  case (Op_Stop r reason)
  with assms(2) show ?thesis by (simp add: stop_all_def Let_def)
next
  case (Op_Resize rows columns r)
  with assms(2) show ?thesis by (simp add: resize_tty_sessions_def Let_def)
next
  case (Op_Reserve call now port)
  with assms(2) show ?thesis by (simp add: once_reserve)
qed (use assms once_register once_finish once_publish once_watch
      once_touches [OF assms(2) abandon_touches [OF assms(1)]]
      once_touches [OF assms(2) finish_poll_touches [OF assms(1)]]
      once_touches [OF assms(2) write_chars_touches [OF assms(1)]]
      once_touches [OF assms(2) write_sensitive_touches [OF assms(1)]]
      once_touches [OF assms(2) control_touches]
      once_touches [OF assms(2) stopped_touches [OF assms(1)]] quiet_events
    in simp_all)

interpretation completion: machine pm_try "\<lambda>m. pm_inv m \<and> once m"
  by unfold_locales (auto simp: pm_try_def intro: inv_step once_step)

section \<open>Input is bounded\<close>

definition bounded :: "process_manager \<Rightarrow> bool" where
  "bounded m \<longleftrightarrow> (\<forall>(k, e)\<in>set (pm_entries m). me_input_bytes e \<le> max_process_session_input_bytes)"

definition byte_count :: "ptext \<Rightarrow> nat" where
  "byte_count chars = (case utf8_encode chars of None \<Rightarrow> 0 | Some bs \<Rightarrow> length bs)"

text \<open>A port never confirms more bytes than it was given.\<close>

fun honest :: "pm_op \<Rightarrow> bool" where
  "honest (Op_Write sid r chars (Inr n)) \<longleftrightarrow> n \<le> int (byte_count chars)"
| "honest (Op_Write_Sensitive sid r v (Inr n)) \<longleftrightarrow> n \<le> int (byte_count (v @ [10]))"
| "honest _ \<longleftrightarrow> True"

definition pm_try_honest :: "process_manager \<Rightarrow> pm_op \<Rightarrow> (unit, process_manager) result" where
  "pm_try_honest m x = (if honest x then Inr (pm_step m x) else Inl ())"

lemma bounded_parts [simp]:
  "bounded (call_port c m) = bounded m" "bounded (emit k e s m) = bounded m" "bounded (drop_idle_port port m) = bounded m"
  "bounded (set_phase call port phase m) = bounded m"
  by (simp_all add: bounded_def set_phase_def)

lemma bounded_put: "bounded m \<Longrightarrow> me_input_bytes e \<le> max_process_session_input_bytes \<Longrightarrow> bounded (put_entry e m)"
  unfolding bounded_def put_entry_def by (auto dest!: dict_set_mem)

lemma bounded_get: "bounded m \<Longrightarrow> dict_get (pm_entries m) sid = Some e \<Longrightarrow> me_input_bytes e \<le> max_process_session_input_bytes"
  unfolding bounded_def by (auto dest: dict_get_SomeD)

lemma bounded_sub: "bounded m \<Longrightarrow> set (pm_entries m') \<subseteq> set (pm_entries m) \<Longrightarrow> bounded m'"
  unfolding bounded_def by blast

lemma bounded_fold_calls [simp]: "bounded (fold (\<lambda>e m. call_port (f e) m) es m) = bounded m"
  by (induction es arbitrary: m) simp_all

lemma bounded_publish: "bounded m \<Longrightarrow> bounded (fst (publish now sid observed m))"
  by (cases "dict_get (pm_entries m) sid")
    (auto simp: publish_def Let_def start_watcher_def require_entry_def intro!: bounded_put dest: bounded_get)

lemma bounded_abandon: "bounded m \<Longrightarrow> bounded (fst (abandon sid reason m))"
  by (cases "dict_get (pm_entries m) sid")
    (auto simp: abandon_def start_watcher_def require_entry_def dict_pop_def intro!: bounded_put
      dest: bounded_get intro: bounded_sub)

lemma bounded_finish_poll:
  assumes "bounded m"
  shows "bounded (fst (finish_poll now sid uid consumer mark retain raw m))"
proof (cases "dict_get (pm_entries m) sid")
  case (Some e)
  obtain e1 s where r: "redact_snapshot e consumer raw = (e1, s)" by fastforce
  have "me_input_bytes e1 \<le> max_process_session_input_bytes"
    using redact_evolves [OF r] bounded_get [OF assms Some] by simp
  with assms show ?thesis
    by (auto simp: finish_poll_def polled_entry_def Some r Let_def intro!: bounded_put split: option.splits prod.splits)
qed (use assms in \<open>simp add: finish_poll_def\<close>)

lemma bounded_stopped:
  assumes "bounded m"
  shows "bounded (stopped now sid uid filtered raw m)"
proof (cases "dict_get (pm_entries m) sid")
  case (Some e)
  obtain e1 s where r: "(if filtered then redact_snapshot e (lit ''manager'') raw else (e, raw)) = (e1, s)" by fastforce
  have "me_input_bytes e1 = me_input_bytes e" using r redact_evolves by (auto split: if_splits)
  with assms bounded_get [OF assms Some] show ?thesis
    by (auto simp: stopped_def Some r Let_def intro!: bounded_put)
qed (use assms in \<open>simp add: stopped_def\<close>)

lemma bounded_watch:
  assumes "bounded m"
  shows "bounded (fst (watch_turn now sid uid raw m))"
proof (cases "dict_get (pm_entries m) sid")
  case (Some e)
  obtain e1 s where r: "redact_snapshot e (lit ''watcher'') raw = (e1, s)" by fastforce
  have "me_input_bytes (watched_entry now (ps_cursor raw) s e1) \<le> max_process_session_input_bytes"
    using redact_evolves [OF r] bounded_get [OF assms Some] by (simp add: watched_entry_def)
  then have b: "bounded (put_entry (watched_entry now (ps_cursor raw) s e1) m)" by (rule bounded_put [OF assms])
  then have "bounded ((put_entry (watched_entry now (ps_cursor raw) s e1) m)\<lparr>pm_entries :=
      dict_pop sid (pm_entries (put_entry (watched_entry now (ps_cursor raw) s e1) m))\<rparr>)"
    by (rule bounded_sub) (auto simp: dict_pop_def)
  with b assms show ?thesis by (simp add: watch_turn_def Some r Let_def)
qed (use assms in \<open>simp add: watch_turn_def\<close>)

lemma write_input_bounded_le:
  assumes "validated_input_byte_count e chars = Inr n" "\<And>c. answer = Inr c \<Longrightarrow> c \<le> int (byte_count chars)"
    and "me_input_bytes e \<le> max_process_session_input_bytes" "me_input_bytes e1 = me_input_bytes e"
    and "write_input_bounded e1 n answer = (e', res)"
  shows "me_input_bytes e' \<le> max_process_session_input_bytes"
proof (cases answer)
  case (Inl x)
  with assms show ?thesis by (simp add: write_input_bounded_def)
next
  case (Inr c)
  have "me_input_bytes e + byte_count chars \<le> max_process_session_input_bytes"
    using assms(1) by (auto simp: validated_input_byte_count_def byte_count_def split: option.splits if_splits)
  moreover have "nat (max 0 c) \<le> byte_count chars" using assms(2) [OF Inr] by simp
  moreover have "me_input_bytes e' = me_input_bytes e + nat (max 0 c)"
    using assms(4,5) Inr by (auto simp: write_input_bounded_def)
  ultimately show ?thesis by linarith
qed

lemma bounded_write_chars:
  assumes "bounded m" "\<And>c. answer = Inr c \<Longrightarrow> c \<le> int (byte_count chars)"
  shows "bounded (fst (write_chars sid r chars answer m))"
proof (cases "entry_and_cursor m sid r")
  case (Inr x)
  obtain e c where x: "x = (e, c)" by (cases x)
  have e: "me_input_bytes e \<le> max_process_session_input_bytes"
    using bounded_get [OF assms(1)] entry_and_cursor_Inr [of m sid r e c] Inr x by blast
  show ?thesis
  proof (cases "validated_input_byte_count e chars")
    case (Inr n)
    obtain e' res where w: "write_input_bounded e n answer = (e', res)" by fastforce
    with write_input_bounded_le [OF Inr assms(2) e refl w] assms(1) show ?thesis
      using \<open>entry_and_cursor m sid r = Inr x\<close> x Inr by (simp add: write_chars_def bounded_put)
  qed (use assms(1) Inr x in \<open>simp add: write_chars_def\<close>)
qed (use assms(1) in \<open>simp add: write_chars_def\<close>)

lemma bounded_write_sensitive:
  assumes "bounded m" "\<And>c. answer = Inr c \<Longrightarrow> c \<le> int (byte_count (v @ [10]))"
  shows "bounded (fst (write_sensitive_line sid r v answer m))"
proof (cases "fst (write_sensitive_line sid r v answer m) = m")
  case False
  then obtain e c n where e: "entry_and_cursor m sid r = Inr (e, c)" "validated_input_byte_count e (v @ [10]) = Inr n"
      "fst (write_sensitive_line sid r v answer m) =
        put_entry (fst (write_input_bounded (if v \<in> set (me_sensitive_values e) then e
          else e\<lparr>me_sensitive_values := me_sensitive_values e @ [v]\<rparr>) n answer)) m"
    by (auto simp: write_sensitive_line_def Let_def case_prod_beta split: if_splits sum.splits prod.splits)
  let ?e1 = "if v \<in> set (me_sensitive_values e) then e else e\<lparr>me_sensitive_values := me_sensitive_values e @ [v]\<rparr>"
  have b: "me_input_bytes e \<le> max_process_session_input_bytes"
    using bounded_get [OF assms(1)] entry_and_cursor_Inr [OF e(1)] by blast
  have "me_input_bytes (fst (write_input_bounded ?e1 n answer)) \<le> max_process_session_input_bytes"
    by (rule write_input_bounded_le [OF e(2) assms(2) b _ prod.collapse [symmetric]]) simp_all
  then show ?thesis unfolding e(3) by (rule bounded_put [OF assms(1)])
qed (use assms(1) in simp)

lemma bounded_register: "bounded m \<Longrightarrow> bounded (fst (register_start call now q res m))"
proof -
  assume "bounded m"
  then have "bounded (m\<lparr>pm_next_uid := pm_next_uid m + 1\<rparr>)" by (rule bounded_sub) simp
  then have "bounded (put_entry (new_entry (pm_next_uid m) port now q handle initial) (m\<lparr>pm_next_uid := pm_next_uid m + 1\<rparr>))"
    for port handle initial
    by (rule bounded_put) (simp add: new_entry_def)
  with \<open>bounded m\<close> show ?thesis
    by (auto simp: register_start_def abort_start_def split: option.splits start_phase.splits port_start.splits)
qed

lemma bounded_reserve: "bounded m \<Longrightarrow> bounded (fst (reserve_start call now port m))"
proof -
  assume b: "bounded m"
  obtain m1 expired where c: "cleanup_expired now m = (m1, expired)" by fastforce
  have "bounded m1" by (rule bounded_sub [OF b]) (use c in \<open>auto simp: cleanup_expired_def\<close>)
  then have "bounded (m1\<lparr>pm_ports := ports, pm_starting_ports := starts, pm_starting := n, pm_start_calls := calls\<rparr>)"
    for ports starts n calls
    by (rule bounded_sub) simp
  with b \<open>bounded m1\<close> show ?thesis by (simp add: reserve_start_def c release_expired_def)
qed

lemma bounded_step:
  assumes "bounded m" "honest x"
  shows "bounded (pm_step m x)"
proof (cases x)
  case (Op_List now wall r include_observed)
  obtain m1 expired where c: "cleanup_expired now m = (m1, expired)" by fastforce
  have "bounded m1" by (rule bounded_sub [OF assms(1)]) (use c in \<open>auto simp: cleanup_expired_def\<close>)
  with Op_List c show ?thesis by (simp add: list_sessions_def release_expired_def)
next
  case (Op_Write sid r chars answer)
  with assms show ?thesis by (cases answer) (auto intro!: bounded_write_chars)
next
  case (Op_Write_Sensitive sid r v answer)
  with assms show ?thesis by (cases answer) (auto intro!: bounded_write_sensitive)
next
  case (Op_Finish call)
  with assms(1) show ?thesis
    by (auto simp: finish_start_def Let_def split: option.splits intro: bounded_sub)
next
  case Op_Begin_Shutdown
  with assms(1) show ?thesis by (fastforce simp: begin_shutdown_def bounded_def start_watcher_def)
next
  case Op_End_Shutdown
  then show ?thesis by (simp add: end_shutdown_def bounded_def)
next
  case (Op_Rebind owner previous next_generation)
  with assms(1) show ?thesis by (fastforce simp: rebind_generation_def bounded_def)
next
  case (Op_Control sid r call)
  with assms(1) show ?thesis by (auto simp: control_def split: sum.splits)
qed (use assms(1) bounded_register bounded_reserve bounded_publish bounded_abandon bounded_finish_poll bounded_stopped
      bounded_watch in \<open>auto simp: stop_all_def resize_tty_sessions_def port_released_def Let_def\<close>)

interpretation input_limit: machine pm_try_honest bounded
  by unfold_locales (auto simp: pm_try_honest_def intro: bounded_step split: if_splits)

section \<open>What a consumer sees of hidden input\<close>

definition held_back :: "managed_entry \<Rightarrow> ptext \<Rightarrow> bool \<Rightarrow> ptext" where
  "held_back e consumer err = (case dict_get (me_output_filters e) (consumer, err) of None \<Rightarrow> [] | Some p \<Rightarrow> p)"

definition stream_of :: "bool \<Rightarrow> process_snapshot \<Rightarrow> ptext" where
  "stream_of err s = (if err then ps_stderr s else ps_stdout s)"

lemma redact_snapshot_stream:
  assumes "redact_snapshot e consumer raw = (e', s)" "me_sensitive_values e \<noteq> []"
  shows "apply_filter (me_sensitive_values e) (held_back e consumer err) (stream_of err raw) (ps_state raw = Exited) =
    (stream_of err s, held_back e' consumer err)"
  using assms
  by (cases err) (auto simp: redact_snapshot_def redact_def held_back_def stream_of_def Let_def dict_get_set split: prod.splits)

text \<open>A consumer's successive polls, the port answering them with any snapshots. The port caps each
  snapshot, also once the process has exited, so several snapshots in a row may say that it
  has exited; the filter treats each of them as the last.\<close>

fun poll_all :: "real \<Rightarrow> ptext \<Rightarrow> nat \<Rightarrow> ptext \<Rightarrow> process_snapshot list \<Rightarrow> process_manager \<Rightarrow> process_snapshot list" where
  "poll_all now sid uid consumer [] m = []"
| "poll_all now sid uid consumer (raw # raws) m =
     (case finish_poll now sid uid consumer True None raw m of
        (m', Inr s) \<Rightarrow> s # poll_all now sid uid consumer raws m'
      | (m', Inl x) \<Rightarrow> [])"

lemma finish_poll_shows:
  assumes "pm_inv m" "dict_get (pm_entries m) sid = Some e" "dict_get (me_output_tails e) consumer = None"
    and "redact_snapshot e consumer raw = (e1, s)"
  obtains e' where "finish_poll now sid (me_uid e) consumer mark None raw m = (put_entry e' m, Inr s)"
    "pm_inv (put_entry e' m)" "dict_get (pm_entries (put_entry e' m)) sid = Some e'" "me_uid e' = me_uid e"
    "me_output_filters e' = me_output_filters e1" "me_sensitive_values e' = me_sensitive_values e"
    "dict_get (me_output_tails e') consumer = None"
proof -
  have e1: "e1 = e\<lparr>me_output_filters := me_output_filters e1\<rparr>" by (rule redact_frame [OF assms(4)])
  have "me_output_tails e1 = me_output_tails e" "me_sensitive_values e1 = me_sensitive_values e" "me_handle e1 = me_handle e"
      "me_uid e1 = me_uid e" "me_completion_emitted e1 = me_completion_emitted e"
    by (subst e1, simp)+
  then obtain e' where e': "finish_poll now sid (me_uid e) consumer mark None raw m = (put_entry e' m, Inr s)"
      "me_uid e' = me_uid e" "me_output_filters e' = me_output_filters e1" "me_handle e' = me_handle e"
      "me_sensitive_values e' = me_sensitive_values e" "me_output_tails e' = me_output_tails e"
      "me_completion_emitted e' = me_completion_emitted e"
    using assms(2-4) by (auto simp: finish_poll_def polled_entry_def Let_def)
  have ev: "evolves e e'" using e' by (simp add: evolves_simps)
  have "me_session_id e' = sid" using get_entry(1) [OF assms(1,2)] ev by (simp add: evolves_def)
  then have "dict_get (pm_entries (put_entry e' m)) sid = Some e'" by (simp add: put_entry_def dict_get_set)
  with e' inv_put [OF assms(1,2) ev] assms(3) show thesis by (intro that [of e']) auto
qed

lemma final_holds_nothing: "snd (apply_filter vs pending chunk True) = []"
proof -
  have "snd (filter_scan ws True t) = []" for ws t
  proof (induction ws True t rule: filter_scan.induct)
    case (2 ws c t)
    then show ?case
      by (cases "find (\<lambda>v. v \<noteq> [] \<and> starts (c # t) v) ws") (auto simp: case_prod_beta)
  qed simp
  then show ?thesis by (simp add: apply_filter_def apply_pieces_def Let_def case_prod_beta)
qed

lemma poll_all_append:
  assumes "pm_inv m" "dict_get (pm_entries m) sid = Some e" "me_sensitive_values e \<noteq> []"
    and "dict_get (me_output_tails e) consumer = None"
  obtains m' e' where "poll_all now sid (me_uid e) consumer (a @ b) m =
      poll_all now sid (me_uid e) consumer a m @ poll_all now sid (me_uid e) consumer b m'"
    "length (poll_all now sid (me_uid e) consumer a m) = length a"
    "pm_inv m'" "dict_get (pm_entries m') sid = Some e'" "me_uid e' = me_uid e"
    "me_sensitive_values e' = me_sensitive_values e" "dict_get (me_output_tails e') consumer = None"
    "held_back e' consumer err = (if a = [] then held_back e consumer err
       else if ps_state (last a) = Exited then [] else held_back e' consumer err)"
  using assms
proof (induction a arbitrary: m e thesis)
  case Nil
  then show ?case by auto
next
  case (Cons raw a)
  obtain e1 s where r: "redact_snapshot e consumer raw = (e1, s)" by fastforce
  from Cons.prems(2,3,5) r obtain e' where f:
      "finish_poll now sid (me_uid e) consumer True None raw m = (put_entry e' m, Inr s)"
      "pm_inv (put_entry e' m)" "dict_get (pm_entries (put_entry e' m)) sid = Some e'" "me_uid e' = me_uid e"
      "me_output_filters e' = me_output_filters e1" "me_sensitive_values e' = me_sensitive_values e"
      "dict_get (me_output_tails e') consumer = None"
    by (rule finish_poll_shows)
  have held: "held_back e' consumer err = []" if "ps_state raw = Exited"
    using redact_snapshot_stream [OF r Cons.prems(4), of err] that f(5)
      final_holds_nothing [of "me_sensitive_values e" "held_back e consumer err" "stream_of err raw"]
    by (simp add: held_back_def)
  have "me_sensitive_values e' \<noteq> []" using f(6) Cons.prems(4) by simp
  from Cons.IH [OF _ f(2,3) this f(7)] obtain m2 e2 where g:
      "poll_all now sid (me_uid e) consumer (a @ b) (put_entry e' m) =
        poll_all now sid (me_uid e) consumer a (put_entry e' m) @ poll_all now sid (me_uid e) consumer b m2"
      "length (poll_all now sid (me_uid e) consumer a (put_entry e' m)) = length a"
      "pm_inv m2" "dict_get (pm_entries m2) sid = Some e2" "me_uid e2 = me_uid e"
      "me_sensitive_values e2 = me_sensitive_values e" "dict_get (me_output_tails e2) consumer = None"
      "held_back e2 consumer err = (if a = [] then held_back e' consumer err
        else if ps_state (last a) = Exited then [] else held_back e2 consumer err)"
    unfolding f(4,6) by blast
  show ?case
    by (rule Cons.prems(1) [of m2 e2]) (use f g held in \<open>auto split: if_splits\<close>)
qed

lemma poll_all_open:
  assumes "pm_inv m" "dict_get (pm_entries m) sid = Some e" "me_sensitive_values e \<noteq> []"
    and "dict_get (me_output_tails e) consumer = None" "list_all (\<lambda>s. ps_state s \<noteq> Exited) raws"
  shows "concat (map (stream_of err) (poll_all now sid (me_uid e) consumer raws m)) =
    concat (map piece_text (open_pieces (me_sensitive_values e) (held_back e consumer err) (map (stream_of err) raws)))"
  using assms
proof (induction raws arbitrary: m e)
  case Nil
  then show ?case by simp
next
  case (Cons raw raws)
  obtain e1 s where r: "redact_snapshot e consumer raw = (e1, s)" by fastforce
  from Cons.prems(1,2,4) r obtain e' where f:
      "finish_poll now sid (me_uid e) consumer True None raw m = (put_entry e' m, Inr s)"
      "pm_inv (put_entry e' m)" "dict_get (pm_entries (put_entry e' m)) sid = Some e'" "me_uid e' = me_uid e"
      "me_output_filters e' = me_output_filters e1" "me_sensitive_values e' = me_sensitive_values e"
      "dict_get (me_output_tails e') consumer = None"
    by (rule finish_poll_shows)
  have "held_back e' consumer err = held_back e1 consumer err" using f(5) by (simp add: held_back_def)
  with Cons.IH [OF f(2,3)] f Cons.prems redact_snapshot_stream [OF r Cons.prems(3), of err]
  show ?case by (auto simp: apply_filter_def split: prod.splits)
qed

lemma poll_all_stream:
  assumes "pm_inv m" "dict_get (pm_entries m) sid = Some e" "me_sensitive_values e \<noteq> []"
    and "dict_get (me_output_tails e) consumer = None"
    and "list_all (\<lambda>s. ps_state s \<noteq> Exited) raws" "ps_state end_raw = Exited"
  shows "concat (map (stream_of err) (poll_all now sid (me_uid e) consumer (raws @ [end_raw]) m)) =
    stream_text (me_sensitive_values e) (held_back e consumer err) (map (stream_of err) raws) (stream_of err end_raw)"
  using assms
proof (induction raws arbitrary: m e)
  case Nil
  obtain e1 s where r: "redact_snapshot e consumer end_raw = (e1, s)" by fastforce
  from Nil.prems(1,2,4) r obtain e' where
      "finish_poll now sid (me_uid e) consumer True None end_raw m = (put_entry e' m, Inr s)"
    by (rule finish_poll_shows)
  with redact_snapshot_stream [OF r Nil.prems(3), of err] Nil.prems(6) show ?case by simp
next
  case (Cons raw raws)
  obtain e1 s where r: "redact_snapshot e consumer raw = (e1, s)" by fastforce
  from Cons.prems(1,2,4) r obtain e' where f:
      "finish_poll now sid (me_uid e) consumer True None raw m = (put_entry e' m, Inr s)"
      "pm_inv (put_entry e' m)" "dict_get (pm_entries (put_entry e' m)) sid = Some e'" "me_uid e' = me_uid e"
      "me_output_filters e' = me_output_filters e1" "me_sensitive_values e' = me_sensitive_values e"
      "dict_get (me_output_tails e') consumer = None"
    by (rule finish_poll_shows)
  have "held_back e' consumer err = held_back e1 consumer err" using f(5) by (simp add: held_back_def)
  with Cons.IH [OF f(2,3)] f Cons.prems redact_snapshot_stream [OF r Cons.prems(3), of err] show ?case by simp
qed

section \<open>Properties\<close>

definition ex_manager :: process_manager where
  "ex_manager = \<lparr>pm_event_sink = True, pm_max_sessions = 1, pm_observed_retention = 30, pm_terminal_ttl = 600,
     pm_entries = [], pm_ports = [], pm_starting_ports = [], pm_closing = False, pm_starting = 0, pm_next_uid = 0,
     pm_start_calls = [], pm_events = [], pm_port_calls = []\<rparr>"

definition ex_snapshot :: "process_state \<Rightarrow> ptext \<Rightarrow> process_snapshot" where
  "ex_snapshot st out = \<lparr>ps_session_id = [115], ps_state = st, ps_stream_mode = Pty, ps_backend = [], ps_stdout = out,
     ps_stderr = [], ps_cursor = new_cursor, ps_exit_code = None, ps_termination_reason = None, ps_started_at = 0,
     ps_finished_at = None, ps_runtime_timeout_seconds = 0, ps_output_truncated = False,
     ps_output_decode_replaced = False, ps_total_stdout_bytes = 0, ps_total_stderr_bytes = 0\<rparr>"

definition ex_start :: start_request where
  "ex_start = \<lparr>sr_command = [], sr_cwd = [], sr_owner_agent_id = [97], sr_owner_session_id = None,
     sr_session_generation = 0, sr_origin_turn_id = None\<rparr>"

definition ex_owner :: requester where
  "ex_owner = \<lparr>rq_consumer = [99], rq_agent_id = [97], rq_owner_session_id = None, rq_session_generation = 0\<rparr>"

definition ex_ops :: "pm_op list" where
  "ex_ops = [Op_Reserve 0 1 7,
     Op_Register 0 1 ex_start (Start_Accepted \<lparr>ph_session_id = [115], ph_stream_mode = Pty\<rparr> (ex_snapshot Running [])),
     Op_Finish 0, Op_Publish 1 [115] False, Op_Reserve 1 1 7, Op_Write_Sensitive [115] ex_owner [104, 105] (Inr 3),
     Op_Watch 2 [115] 0 (ex_snapshot Exited []), Op_Publish 3 [115] True]"

lemma inv_new: "new_manager sink n retention ttl = Inr m \<Longrightarrow> pm_inv m \<and> once m \<and> bounded m"
  by (auto simp: new_manager_def pm_inv_def shape_def reserved_def dict_ok_def once_def completed_of_def bounded_def
      split: if_splits)

lemma touches_max: "touches m m' \<Longrightarrow> pm_max_sessions m' = pm_max_sessions m"
  by (simp add: touches_def same_books_def)

lemma max_parts [simp]:
  "pm_max_sessions (call_port c m) = pm_max_sessions m" "pm_max_sessions (put_entry e m) = pm_max_sessions m"
  "pm_max_sessions (drop_idle_port port m) = pm_max_sessions m"
  "pm_max_sessions (fold (\<lambda>e m. call_port (f e) m) es m) = pm_max_sessions m"
  using fold_calls_frame(1) [of m f es m]
  by (simp_all add: call_port_def put_entry_def drop_idle_port_def same_books_def)

lemma step_max:
  assumes "pm_inv m"
  shows "pm_max_sessions (pm_step m x) = pm_max_sessions m"
  using assms
  by (cases x)
    (auto simp: reserve_start_def register_start_def abort_start_def finish_start_def list_sessions_def cleanup_expired_def
      release_expired_def resize_tty_sessions_def rebind_generation_def stop_all_def port_released_def begin_shutdown_def
      end_shutdown_def Let_def
      split: option.splits start_phase.splits port_start.splits
      intro: touches_max publish_touches abandon_touches finish_poll_touches write_chars_touches
        write_sensitive_touches control_touches stopped_touches watch_touches)

interpretation capacity: machine pm_try "\<lambda>m. pm_inv m \<and> pm_max_sessions m = n" for n
  by unfold_locales (auto simp: pm_try_def intro: inv_step step_max)

lemmas ex_process_simps = ex_ops_def ex_manager_def ex_snapshot_def ex_start_def ex_owner_def pm_try_def pm_try_honest_def
  reserve_start_def cleanup_expired_def release_expired_def register_start_def put_entry_def new_entry_def set_phase_def
  me_session_id_def finish_start_def drop_idle_port_def publish_def require_entry_def exited_def emit_def start_watcher_def
  write_sensitive_line_def entry_and_cursor_def can_access_def validated_input_byte_count_def write_input_bounded_def
  max_process_input_bytes_def max_process_session_input_bytes_def watch_turn_def redact_snapshot_def redact_def
  apply_filter_def apply_pieces_def watched_entry_def completes_def or_time_def dict_get_def dict_pop_def Let_def
  byte_count_def is_surrogate_def encode_char_def new_cursor_def expired_entry_def

text \<open>The manager keeps within its limit: whatever calls run and however their regions interleave, the
  sessions together with the places reserved by calls that are still starting never exceed the limit it was
  made with.\<close>

theorem sessions_within_capacity:
  assumes "new_manager sink n retention ttl = Inr m"
  shows "length (pm_entries (run_ops pm_try m ops)) + reserved (run_ops pm_try m ops) \<le> nat n"
proof -
  have "pm_inv m \<and> pm_max_sessions m = nat n"
    using inv_new [OF assms] assms by (auto simp: new_manager_def split: if_splits)
  from capacity.run_inv [OF this, of ops] show ?thesis by (auto simp: pm_inv_def shape_def)
qed

theorem sessions_within_capacity_witness:
  "length (pm_entries (run_ops pm_try ex_manager ex_ops)) + reserved (run_ops pm_try ex_manager ex_ops) \<le> 1 \<and>
   length (pm_entries (run_ops pm_try ex_manager ex_ops)) = 1"
proof -
  have "new_manager True 1 30 600 = Inr ex_manager" by (simp add: new_manager_def ex_manager_def)
  from sessions_within_capacity [OF this, of ex_ops] show ?thesis by (simp add: ex_process_simps)
qed

text \<open>The end of a process is reported once: over any interleaving of calls and watcher turns, at most one
  completion event is emitted for a session.\<close>

theorem completion_reported_once:
  assumes "new_manager sink n retention ttl = Inr m"
  shows "completed_of (run_ops pm_try m ops) u \<le> 1"
  using completion.run_inv [of m ops] inv_new [OF assms] by (simp add: once_def)

theorem completion_reported_once_witness:
  "completed_of (run_ops pm_try ex_manager ex_ops) 0 \<le> 1 \<and> completed_of (run_ops pm_try ex_manager ex_ops) 0 \<noteq> 0"
proof -
  have "new_manager True 1 30 600 = Inr ex_manager" by (simp add: new_manager_def ex_manager_def)
  from completion_reported_once [OF this, of ex_ops 0] show ?thesis by (simp add: ex_process_simps completed_of_def)
qed

text \<open>The input of a session is bounded: as long as ports do not confirm more bytes than they were given, no
  session ever has more than one mebibyte of confirmed input.\<close>

theorem session_input_bounded:
  assumes "new_manager sink n retention ttl = Inr m"
    and "dict_get (pm_entries (run_ops pm_try_honest m ops)) sid = Some e"
  shows "me_input_bytes e \<le> 1024 * 1024"
  using bounded_get [OF input_limit.run_inv [of m ops] assms(2)] inv_new [OF assms(1)]
  by (simp add: max_process_session_input_bytes_def)

theorem session_input_bounded_witness:
  "\<exists>e. dict_get (pm_entries (run_ops pm_try_honest ex_manager ex_ops)) [115] = Some e \<and>
     me_input_bytes e = 3 \<and> me_input_bytes e \<le> 1024 * 1024"
proof -
  have m: "new_manager True 1 30 600 = Inr ex_manager" by (simp add: new_manager_def ex_manager_def)
  have "map_option me_input_bytes (dict_get (pm_entries (run_ops pm_try_honest ex_manager ex_ops)) [115]) = Some 3"
    by (simp add: ex_process_simps)
  then obtain e where e: "dict_get (pm_entries (run_ops pm_try_honest ex_manager ex_ops)) [115] = Some e"
      "me_input_bytes e = 3"
    by auto
  with session_input_bounded [OF m e(1)] show ?thesis by blast
qed

text \<open>Only the owner reaches a session: a caller of another generation, or of neither the owning session nor the
  owning agent, gets an error from every operation on it, and nothing changes.\<close>

theorem only_owners_reach_a_session:
  assumes "dict_get (pm_entries m) sid = Some e" "\<not> can_access e r"
  shows "fst (poll now sid r mark retain between answer m) = m \<and> isl (snd (poll now sid r mark retain between answer m)) \<and>
    fst (write_chars sid r chars confirmed m) = m \<and> isl (snd (write_chars sid r chars confirmed m)) \<and>
    fst (write_sensitive_line sid r v confirmed m) = m \<and> isl (snd (write_sensitive_line sid r v confirmed m)) \<and>
    fst (control sid r call m) = m \<and> isl (snd (control sid r call m)) \<and> isl (get_view wall sid r m)"
proof -
  have "entry_and_cursor m sid r = Inl (Session_Not_Found sid)"
    using assms by (simp add: entry_and_cursor_def require_entry_def)
  then show ?thesis
    using assms by (simp add: poll_def write_chars_def write_sensitive_line_def control_def get_view_def require_entry_def)
qed

theorem only_owners_reach_a_session_witness:
  "isl (snd (write_chars [115] (ex_owner\<lparr>rq_session_generation := 1\<rparr>) [104] (Inr 1) (run_ops pm_try ex_manager (take 4 ex_ops))))"
proof -
  have "\<exists>e. dict_get (pm_entries (run_ops pm_try ex_manager (take 4 ex_ops))) [115] = Some e \<and> me_session_generation e = 0"
    by (simp add: ex_process_simps)
  then obtain e where e: "dict_get (pm_entries (run_ops pm_try ex_manager (take 4 ex_ops))) [115] = Some e"
      "me_session_generation e = 0"
    by blast
  then have "\<not> can_access e (ex_owner\<lparr>rq_session_generation := 1\<rparr>)" by (simp add: can_access_def)
  with only_owners_reach_a_session [OF e(1)] show ?thesis by blast
qed

lemma ex_hidden_session:
  obtains e where "pm_inv (run_ops pm_try ex_manager (take 6 ex_ops))"
    "dict_get (pm_entries (run_ops pm_try ex_manager (take 6 ex_ops))) [115] = Some e" "me_uid e = 0"
    "me_sensitive_values e = [[104, 105]]" "me_output_tails e = []" "me_output_filters e = []"
proof -
  have m: "new_manager True 1 30 600 = Inr ex_manager" by (simp add: new_manager_def ex_manager_def)
  have inv: "pm_inv (run_ops pm_try ex_manager (take 6 ex_ops))"
    using manager.run_inv inv_new [OF m] by blast
  have "\<exists>e. dict_get (pm_entries (run_ops pm_try ex_manager (take 6 ex_ops))) [115] = Some e \<and> me_uid e = 0 \<and>
      me_sensitive_values e = [[104, 105]] \<and> me_output_tails e = [] \<and> me_output_filters e = []"
    by (simp add: ex_process_simps)
  with inv that show thesis by blast
qed

lemma span_hides:
  assumes "pm_inv m" "dict_get (pm_entries m) sid = Some e" "me_sensitive_values e \<noteq> []"
    and "dict_get (me_output_tails e) consumer = None" "held_back e consumer err = []"
    and "list_all (\<lambda>s. ps_state s \<noteq> Exited) (butlast polls)"
  shows "\<exists>out. concat (map (stream_of err) (poll_all now sid (me_uid e) consumer polls m)) =
      concat (map piece_text out) \<and> no_clear (me_sensitive_values e) out"
proof (cases "polls \<noteq> [] \<and> ps_state (last polls) = Exited")
  case True
  then have polls: "polls = butlast polls @ [last polls]" by simp
  let ?out = "stream_pieces (me_sensitive_values e) [] (map (stream_of err) (butlast polls)) (stream_of err (last polls))"
  have "concat (map (stream_of err) (poll_all now sid (me_uid e) consumer polls m)) = concat (map piece_text ?out)"
    using poll_all_stream [OF assms(1-4,6), of "last polls" err now] True assms(5) polls
    by (simp add: stream_text_pieces)
  then show ?thesis using stream_hides [of "me_sensitive_values e" "[]"] by (auto simp: no_clear_def)
next
  case False
  then have "list_all (\<lambda>s. ps_state s \<noteq> Exited) polls"
    using assms(6) by (cases polls rule: rev_cases) auto
  from poll_all_open [OF assms(1-4) this, of err now]
  have "concat (map (stream_of err) (poll_all now sid (me_uid e) consumer polls m)) =
      concat (map piece_text (open_pieces (me_sensitive_values e) [] (map (stream_of err) polls)))"
    by (simp add: assms(5))
  then show ?thesis using open_pieces_hide by blast
qed

text \<open>C33: hidden input stays hidden up to and including the poll that reports the exit: when a session has
  hidden values, take the snapshots a consumer without a retained tail receives, in any
  number and cut in any way, and in them any span of polls that begins with the consumer's
  first poll or after one that reported the exit, and in which only the last may report the
  exit. What that span shows of either stream is a sequence of markers and characters in which
  no run of characters is a hidden value. (A value cut between two polls that both report the exit
  is not covered, and is shown: the theorem after this one.)\<close>

theorem consumer_never_sees_hidden_input:
  assumes "pm_inv m" "dict_get (pm_entries m) sid = Some e" "me_sensitive_values e \<noteq> []"
    and "dict_get (me_output_tails e) consumer = None" "held_back e consumer err = []"
    and "raws = before @ polls @ after" "before = [] \<or> ps_state (last before) = Exited"
    and "list_all (\<lambda>s. ps_state s \<noteq> Exited) (butlast polls)"
  shows "\<exists>out. concat (map (stream_of err) (take (length polls) (drop (length before)
        (poll_all now sid (me_uid e) consumer raws m)))) = concat (map piece_text out) \<and>
      no_clear (me_sensitive_values e) out"
proof -
  from assms(1-4) obtain m1 e1 where a: "poll_all now sid (me_uid e) consumer (before @ polls @ after) m =
        poll_all now sid (me_uid e) consumer before m @ poll_all now sid (me_uid e) consumer (polls @ after) m1"
      "length (poll_all now sid (me_uid e) consumer before m) = length before"
      "pm_inv m1" "dict_get (pm_entries m1) sid = Some e1" "me_uid e1 = me_uid e"
      "me_sensitive_values e1 = me_sensitive_values e" "dict_get (me_output_tails e1) consumer = None"
      "held_back e1 consumer err = (if before = [] then held_back e consumer err
        else if ps_state (last before) = Exited then [] else held_back e1 consumer err)"
    by (rule poll_all_append)
  have "me_sensitive_values e1 \<noteq> []" using a(6) assms(3) by simp
  from a(3,4) this a(7) obtain m2 where
      b: "poll_all now sid (me_uid e1) consumer (polls @ after) m1 =
        poll_all now sid (me_uid e1) consumer polls m1 @ poll_all now sid (me_uid e1) consumer after m2"
      "length (poll_all now sid (me_uid e1) consumer polls m1) = length polls"
    by (rule poll_all_append [where a = polls])
  have "held_back e1 consumer err = []" using a(8) assms(5,7) by (auto split: if_splits)
  from span_hides [OF a(3,4) \<open>me_sensitive_values e1 \<noteq> []\<close> a(7) this assms(8), of now]
  show ?thesis using a b by (simp add: assms(6))
qed

theorem consumer_never_sees_hidden_input_witness:
  "\<exists>e out. dict_get (pm_entries (run_ops pm_try ex_manager (take 6 ex_ops))) [115] = Some e \<and>
     concat (map (stream_of False) (take 2 (poll_all 2 [115] 0 [99]
       [ex_snapshot Running [120, 104], ex_snapshot Exited [105, 121], ex_snapshot Exited [122]]
       (run_ops pm_try ex_manager (take 6 ex_ops))))) = concat (map piece_text out) \<and> no_clear [[104, 105]] out"
proof -
  obtain e where inv: "pm_inv (run_ops pm_try ex_manager (take 6 ex_ops))"
    and e: "dict_get (pm_entries (run_ops pm_try ex_manager (take 6 ex_ops))) [115] = Some e" "me_uid e = 0"
      "me_sensitive_values e = [[104, 105]]" "me_output_tails e = []" "me_output_filters e = []"
    by (rule ex_hidden_session)
  let ?polls = "[ex_snapshot Running [120, 104], ex_snapshot Exited [105, 121]]"
  let ?raws = "[ex_snapshot Running [120, 104], ex_snapshot Exited [105, 121], ex_snapshot Exited [122]]"
  have "?raws = [] @ ?polls @ [ex_snapshot Exited [122]]"
    "list_all (\<lambda>s. ps_state s \<noteq> Exited) (butlast ?polls)" "held_back e [99] False = []"
    "me_sensitive_values e \<noteq> []" "dict_get (me_output_tails e) [99] = None"
    by (simp_all add: e ex_snapshot_def dict_get_def held_back_def)
  then obtain out where "concat (map (stream_of False) (take (length ?polls) (drop (length ([] :: process_snapshot list))
      (poll_all 2 [115] (me_uid e) [99] ?raws (run_ops pm_try ex_manager (take 6 ex_ops)))))) =
      concat (map piece_text out)" "no_clear (me_sensitive_values e) out"
    using consumer_never_sees_hidden_input [OF inv e(1), of "[99]" False ?raws "[]" ?polls "[ex_snapshot Exited [122]]" 2]
    by blast
  moreover have "length ?polls = 2" "drop (length ([] :: process_snapshot list)) xs = xs" for xs :: "process_snapshot list" by simp_all
  ultimately show ?thesis unfolding e(2,3) using e(1) by metis
qed

text \<open>After the exit each capped snapshot counts as the last one, so nothing is held back between
  them: a hidden value cut between two such polls is shown in the clear.\<close>

theorem hidden_input_shown_after_exit:
  "\<exists>e. dict_get (pm_entries (run_ops pm_try ex_manager (take 6 ex_ops))) [115] = Some e \<and>
     me_sensitive_values e = [[104, 105]] \<and>
     concat (map (stream_of False) (poll_all 2 [115] (me_uid e) [99]
       [ex_snapshot Exited [120, 104], ex_snapshot Exited [105, 121]] (run_ops pm_try ex_manager (take 6 ex_ops)))) =
       [120, 104, 105, 121]"
proof -
  let ?m = "run_ops pm_try ex_manager (take 6 ex_ops)"
  let ?a = "ex_snapshot Exited [120, 104]" and ?b = "ex_snapshot Exited [105, 121]"
  obtain e where inv: "pm_inv ?m" and e: "dict_get (pm_entries ?m) [115] = Some e"
      "me_sensitive_values e = [[104, 105]]" "me_output_tails e = []" "me_output_filters e = []"
    by (rule ex_hidden_session)
  then have s: "me_sensitive_values e \<noteq> []" "dict_get (me_output_tails e) [99] = None" "held_back e [99] False = []"
    by (simp_all add: held_back_def dict_get_def)
  from inv e(1) s(1,2) obtain m' e' where n: "poll_all 2 [115] (me_uid e) [99] ([?a] @ [?b]) ?m =
        poll_all 2 [115] (me_uid e) [99] [?a] ?m @ poll_all 2 [115] (me_uid e) [99] [?b] m'"
      "pm_inv m'" "dict_get (pm_entries m') [115] = Some e'" "me_uid e' = me_uid e"
      "me_sensitive_values e' = me_sensitive_values e" "dict_get (me_output_tails e') [99] = None"
      "held_back e' [99] False = (if [?a] = [] then held_back e [99] False
        else if ps_state (last [?a]) = Exited then [] else held_back e' [99] False)"
    by (rule poll_all_append [where a = "[?a]"])
  have x: "ps_state ?a = Exited" "ps_state ?b = Exited" "stream_of False ?a = [120, 104]" "stream_of False ?b = [105, 121]"
    by (simp_all add: ex_snapshot_def stream_of_def)
  have "fst (apply_filter [[104, 105]] [] [120, 104] True) = [120, 104]"
    "fst (apply_filter [[104, 105]] [] [105, 121] True) = [105, 121]" by code_simp+
  then have "concat (map (stream_of False) (poll_all 2 [115] (me_uid e) [99] [?a] ?m)) = [120, 104]"
    "concat (map (stream_of False) (poll_all 2 [115] (me_uid e) [99] [?b] m')) = [105, 121]"
    using poll_all_stream [OF inv e(1) s(1,2), of "[]" ?a False 2] s(3) e(2) x n(7) s(1)
      poll_all_stream [OF n(2,3) _ n(6), of "[]" ?b False 2] n(4,5) by simp_all
  then have "concat (map (stream_of False) (poll_all 2 [115] (me_uid e) [99] ([?a] @ [?b]) ?m)) = [120, 104, 105, 121]"
    unfolding n(1) by simp
  with e show ?thesis by (metis append_Cons append_Nil)
qed

end
