(* ===== verification/Tool_Metadata.thy ===== *)
theory Tool_Metadata
  imports Workspace_Text
begin

text \<open>
  The bounded copy of extension-owned metadata (\<^verbatim>\<open>_SnapshotBudget\<close> and \<^verbatim>\<open>_snapshot_json_value\<close> of
  \<^verbatim>\<open>domain/agent/tool_outcome_validation.py\<close>). A Python object is a finite tree of the values the
  function tells apart, so the test for cyclic containers, which have no such tree, is not
  part of the model. Keys of a mapping are distinct, and so are their copies, since a member of a string enumeration equals
  its text; members whose value is not their text, which only a class with a constructor of its own can make, are left out. The lemmas show that the copy is made exactly for
  the values that meet a declarative description of the limits (depth, nodes, container sizes, integer
  widths, single and total string bytes), and that it is the same value with enumeration members
  replaced by their values, keys included.
\<close>

section \<open>Values\<close>

text \<open>\<open>PEnum\<close> is a member of an enumeration that is no string, given by its value; \<open>PStrEnum\<close> one of an
  enumeration of strings, which is both a member and a string with its value as text.\<close>

datatype pyval =
    PNone
  | PBool bool
  | PInt int
  | PFloat real
  | PNonFinite
  | PStr ptext
  | PEnum pyval
  | PStrEnum ptext
  | PMap "(pyval \<times> pyval) list"
  | PSeq "pyval list"
  | PObject

definition metadata_max_depth :: nat where "metadata_max_depth = 32"
definition metadata_max_container_items :: nat where "metadata_max_container_items = 8192"
definition metadata_max_nodes :: nat where "metadata_max_nodes = 16384"
definition metadata_max_int_bits :: nat where "metadata_max_int_bits = 256"
definition metadata_max_string_bytes :: nat where "metadata_max_string_bytes = 1048576"
definition metadata_max_total_string_bytes :: nat where "metadata_max_total_string_bytes = 2097152"

lemmas metadata_limits = metadata_max_depth_def metadata_max_container_items_def metadata_max_nodes_def
  metadata_max_int_bits_def metadata_max_string_bytes_def metadata_max_total_string_bytes_def

section \<open>The budget\<close>

record snapshot_budget =
  sb_nodes :: nat
  sb_string_bytes :: nat

definition new_budget :: snapshot_budget where
  "new_budget = \<lparr>sb_nodes = 0, sb_string_bytes = 0\<rparr>"

definition add_node :: "snapshot_budget \<Rightarrow> (unit, snapshot_budget) result" where
  "add_node b =
     (if metadata_max_nodes < sb_nodes b + 1 then Inl () else Inr (b\<lparr>sb_nodes := sb_nodes b + 1\<rparr>))"

definition add_string :: "ptext \<Rightarrow> snapshot_budget \<Rightarrow> (unit, ptext \<times> snapshot_budget) result" where
  "add_string t b =
     (if metadata_max_string_bytes < length t then Inl ()
      else case utf8_encode t of
        None \<Rightarrow> Inl ()
      | Some encoded \<Rightarrow>
          if metadata_max_string_bytes < length encoded then Inl ()
          else if metadata_max_total_string_bytes < sb_string_bytes b + length encoded then Inl ()
          else Inr (t, b\<lparr>sb_string_bytes := sb_string_bytes b + length encoded\<rparr>))"

text \<open>\<^verbatim>\<open>n.bit_length() <= 256\<close>: the magnitude is below the power of two.\<close>

definition int_fits :: "int \<Rightarrow> bool" where
  "int_fits n = (\<bar>n\<bar> < 2 ^ metadata_max_int_bits)"

section \<open>The copy\<close>

text \<open>The test of the depth and the count of the node that every call starts with.\<close>

definition enter ::
    "nat \<Rightarrow> snapshot_budget \<Rightarrow> (snapshot_budget \<Rightarrow> (unit, 'a) result) \<Rightarrow> (unit, 'a) result" where
  "enter depth b f = (if metadata_max_depth < depth then Inl () else bind_result (add_node b) f)"

text \<open>\<^verbatim>\<open>isinstance(key, str)\<close>.\<close>

definition is_key :: "pyval \<Rightarrow> bool" where
  "is_key k = (case k of PStr _ \<Rightarrow> True | PStrEnum _ \<Rightarrow> True | _ \<Rightarrow> False)"

function snapshot_json_value :: "nat \<Rightarrow> pyval \<Rightarrow> snapshot_budget \<Rightarrow> (unit, pyval \<times> snapshot_budget) result"
  and snapshot_entries ::
    "nat \<Rightarrow> nat \<Rightarrow> (pyval \<times> pyval) list \<Rightarrow> snapshot_budget \<Rightarrow> (unit, (pyval \<times> pyval) list \<times> snapshot_budget) result"
  and snapshot_items :: "nat \<Rightarrow> nat \<Rightarrow> pyval list \<Rightarrow> snapshot_budget \<Rightarrow> (unit, pyval list \<times> snapshot_budget) result"
  where
  "snapshot_json_value depth (PEnum v) b = enter depth b (\<lambda>b. snapshot_json_value depth v b)"
| "snapshot_json_value depth (PStrEnum t) b =
     enter depth b (\<lambda>b. enter depth b (\<lambda>b. bind_result (add_string t b) (\<lambda>(t, b). Inr (PStr t, b))))"
| "snapshot_json_value depth (PStr t) b =
     enter depth b (\<lambda>b. bind_result (add_string t b) (\<lambda>(t, b). Inr (PStr t, b)))"
| "snapshot_json_value depth PNone b = enter depth b (\<lambda>b. Inr (PNone, b))"
| "snapshot_json_value depth (PBool x) b = enter depth b (\<lambda>b. Inr (PBool x, b))"
| "snapshot_json_value depth (PInt n) b = enter depth b (\<lambda>b. if int_fits n then Inr (PInt n, b) else Inl ())"
| "snapshot_json_value depth (PFloat x) b = enter depth b (\<lambda>b. Inr (PFloat x, b))"
| "snapshot_json_value depth PNonFinite b = enter depth b (\<lambda>b. Inl ())"
| "snapshot_json_value depth PObject b = enter depth b (\<lambda>b. Inl ())"
| "snapshot_json_value depth (PMap es) b =
     enter depth b (\<lambda>b. bind_result (snapshot_entries (depth + 1) 0 es b) (\<lambda>(es, b). Inr (PMap es, b)))"
| "snapshot_json_value depth (PSeq vs) b =
     enter depth b (\<lambda>b. bind_result (snapshot_items (depth + 1) 0 vs b) (\<lambda>(vs, b). Inr (PSeq vs, b)))"
| "snapshot_entries depth index [] b = Inr ([], b)"
| "snapshot_entries depth index ((k, v) # es) b =
     (if metadata_max_container_items \<le> index then Inl ()
      else if \<not> is_key k then Inl ()
      else
        bind_result (snapshot_json_value depth k b) (\<lambda>(k, b).
          bind_result (snapshot_json_value depth v b) (\<lambda>(v, b).
            bind_result (snapshot_entries depth (index + 1) es b) (\<lambda>(es, b). Inr ((k, v) # es, b)))))"
| "snapshot_items depth index [] b = Inr ([], b)"
| "snapshot_items depth index (v # vs) b =
     (if metadata_max_container_items \<le> index then Inl ()
      else
        bind_result (snapshot_json_value depth v b) (\<lambda>(v, b).
          bind_result (snapshot_items depth (index + 1) vs b) (\<lambda>(vs, b). Inr (v # vs, b))))"
  by pat_completeness auto
termination
  by (relation "measure (case_sum (\<lambda>(d, v, b). size v)
      (case_sum (\<lambda>(d, i, es, b). size_list (size_prod size size) es) (\<lambda>(d, i, vs, b). size_list size vs)))") auto

section \<open>What is accepted\<close>

fun node_count :: "pyval \<Rightarrow> nat" where
  "node_count (PEnum v) = 1 + node_count v"
| "node_count (PStrEnum t) = 2"
| "node_count (PMap es) = 1 + sum_list (map (\<lambda>(k, v). node_count k + node_count v) es)"
| "node_count (PSeq vs) = 1 + sum_list (map node_count vs)"
| "node_count _ = 1"

fun string_bytes :: "pyval \<Rightarrow> nat" where
  "string_bytes (PStr t) = byte_len t"
| "string_bytes (PEnum v) = string_bytes v"
| "string_bytes (PStrEnum t) = byte_len t"
| "string_bytes (PMap es) = sum_list (map (\<lambda>(k, v). string_bytes k + string_bytes v) es)"
| "string_bytes (PSeq vs) = sum_list (map string_bytes vs)"
| "string_bytes _ = 0"

text \<open>The value without enumeration members: what the copy holds.\<close>

fun frozen :: "pyval \<Rightarrow> pyval" where
  "frozen (PEnum v) = frozen v"
| "frozen (PStrEnum t) = PStr t"
| "frozen (PMap es) = PMap (map (\<lambda>(k, v). (frozen k, frozen v)) es)"
| "frozen (PSeq vs) = PSeq (map frozen vs)"
| "frozen v = v"

text \<open>The limits that do not depend on what was copied before.\<close>

fun allowed :: "nat \<Rightarrow> pyval \<Rightarrow> bool" where
  "allowed d (PEnum v) \<longleftrightarrow> d \<le> metadata_max_depth \<and> allowed d v"
| "allowed d (PMap es) \<longleftrightarrow> d \<le> metadata_max_depth \<and> length es \<le> metadata_max_container_items \<and>
     (\<forall>(k, v)\<in>set es. is_key k \<and> allowed (d + 1) k \<and> allowed (d + 1) v)"
| "allowed d (PSeq vs) \<longleftrightarrow> d \<le> metadata_max_depth \<and> length vs \<le> metadata_max_container_items \<and>
     (\<forall>v\<in>set vs. allowed (d + 1) v)"
| "allowed d (PStrEnum t) \<longleftrightarrow> d \<le> metadata_max_depth \<and> list_all (\<lambda>c. \<not> is_surrogate c) t \<and>
     byte_len t \<le> metadata_max_string_bytes"
| "allowed d (PStr t) \<longleftrightarrow> d \<le> metadata_max_depth \<and> list_all (\<lambda>c. \<not> is_surrogate c) t \<and>
     byte_len t \<le> metadata_max_string_bytes"
| "allowed d (PInt n) \<longleftrightarrow> d \<le> metadata_max_depth \<and> int_fits n"
| "allowed d PNonFinite \<longleftrightarrow> False"
| "allowed d PObject \<longleftrightarrow> False"
| "allowed d _ \<longleftrightarrow> d \<le> metadata_max_depth"

definition affordable :: "snapshot_budget \<Rightarrow> nat \<Rightarrow> nat \<Rightarrow> bool" where
  "affordable b nodes bytes \<longleftrightarrow> sb_nodes b + nodes \<le> metadata_max_nodes \<and>
     sb_string_bytes b + bytes \<le> metadata_max_total_string_bytes"

definition spend :: "snapshot_budget \<Rightarrow> nat \<Rightarrow> nat \<Rightarrow> snapshot_budget" where
  "spend b nodes bytes = b\<lparr>sb_nodes := sb_nodes b + nodes, sb_string_bytes := sb_string_bytes b + bytes\<rparr>"

lemma spend_simps [simp]:
  "spend (spend b n s) m r = spend b (n + m) (s + r)"
  "spend b 0 0 = b"
  "affordable (spend b n s) m r \<longleftrightarrow> affordable b (n + m) (s + r)"
  by (simp_all add: spend_def affordable_def add_ac)

lemma encode_None: "utf8_encode t = None \<longleftrightarrow> \<not> list_all (\<lambda>c. \<not> is_surrogate c) t"
  by (induction t) auto

lemma length_le_bytes: "length t \<le> byte_len t"
  by (induction t) (auto simp: utf8_len_def)

lemma add_string_spec:
  "add_string t b =
     (if list_all (\<lambda>c. \<not> is_surrogate c) t \<and> byte_len t \<le> metadata_max_string_bytes \<and>
        sb_string_bytes b + byte_len t \<le> metadata_max_total_string_bytes
      then Inr (t, spend b 0 (byte_len t)) else Inl ())"
proof (cases "utf8_encode t")
  case None
  then show ?thesis using encode_None [of t] by (simp add: add_string_def)
next
  case (Some bs)
  then show ?thesis
    using encode_None [of t] encode_length [OF Some] length_le_bytes [of t]
    by (auto simp: add_string_def spend_def)
qed

lemma affordable_mono: "affordable b n s \<Longrightarrow> m \<le> n \<Longrightarrow> r \<le> s \<Longrightarrow> affordable b m r"
  by (simp add: affordable_def)

lemma enter_spec:
  "affordable b 0 0 \<Longrightarrow>
   enter d b f = (if d \<le> metadata_max_depth \<and> affordable b 1 0 then f (spend b 1 0) else Inl ())"
  by (auto simp: enter_def add_node_def spend_def affordable_def)

definition entries_allowed :: "nat \<Rightarrow> nat \<Rightarrow> (pyval \<times> pyval) list \<Rightarrow> bool" where
  "entries_allowed d i es \<longleftrightarrow> (es = [] \<or> i + length es \<le> metadata_max_container_items) \<and>
     (\<forall>(k, v)\<in>set es. is_key k \<and> allowed d k \<and> allowed d v)"

definition items_allowed :: "nat \<Rightarrow> nat \<Rightarrow> pyval list \<Rightarrow> bool" where
  "items_allowed d i vs \<longleftrightarrow> (vs = [] \<or> i + length vs \<le> metadata_max_container_items) \<and>
     (\<forall>v\<in>set vs. allowed d v)"

abbreviation entries_cost :: "(pyval \<Rightarrow> nat) \<Rightarrow> (pyval \<times> pyval) list \<Rightarrow> nat" where
  "entries_cost c es \<equiv> sum_list (map (\<lambda>(k, v). c k + c v) es)"

text \<open>A copy that follows the description, and one after the other.\<close>

definition copies ::
    "(snapshot_budget \<Rightarrow> (unit, 'a \<times> snapshot_budget) result) \<Rightarrow> bool \<Rightarrow> nat \<Rightarrow> nat \<Rightarrow> 'a \<Rightarrow> bool" where
  "copies f ok n s w \<longleftrightarrow>
     (\<forall>b. affordable b 0 0 \<longrightarrow> f b = (if ok \<and> affordable b n s then Inr (w, spend b n s) else Inl ()))"

lemma copies_enter:
  assumes "copies f ok n s w"
  shows "copies (\<lambda>b. enter d b f) (d \<le> metadata_max_depth \<and> ok) (1 + n) s w"
  using assms by (auto simp: copies_def enter_spec dest: affordable_mono)

lemma copies_two:
  assumes f: "copies f ok n s w" and g: "copies g ok' m r w'"
  shows "copies (\<lambda>b. bind_result (f b) (\<lambda>(v, b). bind_result (g b) (\<lambda>(v', b). Inr (h v v', b))))
    (ok \<and> ok') (n + m) (s + r) (h w w')"
proof -
  have "affordable b n s" if "affordable b (n + m) (s + r)" for b
    using that by (rule affordable_mono) simp_all
  with f g show ?thesis by (auto simp: copies_def)
qed

lemma copies_three:
  assumes f: "copies f ok n s w" and g: "copies g ok' m r w'" and e: "copies e ok'' l q w''"
  shows "copies (\<lambda>b. bind_result (f b) (\<lambda>(u, b). bind_result (g b) (\<lambda>(v, b).
      bind_result (e b) (\<lambda>(vs, b). Inr ((u, v) # vs, b)))))
    (ok \<and> ok' \<and> ok'') (n + (m + l)) (s + (r + q)) ((w, w') # w'')"
proof -
  have "affordable b n s \<and> affordable b (n + m) (s + r)" if "affordable b (n + (m + l)) (s + (r + q))" for b
    using that affordable_mono by (metis add.assoc le_add1)
  with f g e show ?thesis by (auto simp: copies_def add.assoc)
qed

lemma copies_string:
  "copies (add_string t) (list_all (\<lambda>c. \<not> is_surrogate c) t \<and> byte_len t \<le> metadata_max_string_bytes) 0 (byte_len t) t"
  by (auto simp: copies_def add_string_spec affordable_def)

lemma copies_map:
  "copies f ok n s w \<Longrightarrow> copies (\<lambda>b. bind_result (f b) (\<lambda>(v, b). Inr (h v, b))) ok n s (h w)"
  by (auto simp: copies_def)

lemma copies_cong:
  "copies f ok n s w \<Longrightarrow> (\<And>b. f' b = f b) \<Longrightarrow> ok' = ok \<Longrightarrow> n' = n \<Longrightarrow> s' = s \<Longrightarrow> w' = w \<Longrightarrow>
   copies f' ok' n' s' w'"
  by (auto simp: copies_def)

lemma snapshot_copies:
  fixes b :: snapshot_budget
  shows
  "copies (snapshot_json_value d v) (allowed d v) (node_count v) (string_bytes v) (frozen v)"
  "copies (snapshot_entries d i es) (entries_allowed d i es)
     (entries_cost node_count es) (entries_cost string_bytes es) (map (\<lambda>(k, v). (frozen k, frozen v)) es)"
  "copies (snapshot_items d i vs) (items_allowed d i vs)
     (sum_list (map node_count vs)) (sum_list (map string_bytes vs)) (map frozen vs)"
proof (induction d v b and d i es b and d i vs b rule: snapshot_json_value_snapshot_entries_snapshot_items.induct)
  case (1 depth v b)
  then show ?case by - (rule copies_cong [OF copies_enter], simp_all)
next
  case (2 depth t b)
  show ?case by (rule copies_cong [OF copies_enter [OF copies_enter [OF copies_map [OF copies_string, where h = PStr]]]]) auto
next
  case (3 depth t b)
  show ?case by (rule copies_cong [OF copies_enter [OF copies_map [OF copies_string, where h = PStr]]]) simp_all
next
  case (10 depth es b)
  then show ?case
    by - (rule copies_cong [OF copies_enter [OF copies_map [where h = PMap]]], assumption, auto simp: entries_allowed_def)
next
  case (11 depth vs b)
  then show ?case
    by - (rule copies_cong [OF copies_enter [OF copies_map [where h = PSeq]]], assumption, auto simp: items_allowed_def)
next
  case (13 depth index k v es b)
  show ?case
  proof (cases "metadata_max_container_items \<le> index \<or> \<not> is_key k")
    case True
    then show ?thesis by (auto simp: copies_def entries_allowed_def)
  next
    case False
    show ?thesis
      by (rule copies_cong [OF copies_three [OF 13(1) 13(2) 13(3)]])
         (use False in \<open>auto simp: entries_allowed_def\<close>)
  qed
next
  case (15 depth index v vs b)
  show ?case
  proof (cases "metadata_max_container_items \<le> index")
    case True
    then show ?thesis by (simp add: copies_def items_allowed_def)
  next
    case False
    show ?thesis
      by (rule copies_cong [OF copies_two [OF 15(1) 15(2), where h = Cons]])
         (use False in \<open>auto simp: items_allowed_def\<close>)
  qed
qed (auto simp: enter_spec copies_def entries_allowed_def items_allowed_def dest: affordable_mono)

lemma metadata_copied:
  "snapshot_json_value 0 v new_budget =
     (if allowed 0 v \<and> node_count v \<le> 16384 \<and> string_bytes v \<le> 2097152
      then Inr (frozen v, \<lparr>sb_nodes = node_count v, sb_string_bytes = string_bytes v\<rparr>) else Inl ())"
proof -
  have "affordable new_budget n s \<longleftrightarrow> n \<le> 16384 \<and> s \<le> 2097152" for n s
    by (simp add: affordable_def new_budget_def metadata_limits)
  moreover have "spend new_budget n s = \<lparr>sb_nodes = n, sb_string_bytes = s\<rparr>" for n s
    by (simp add: spend_def new_budget_def)
  ultimately show ?thesis using snapshot_copies(1) [of 0 v] by (simp add: copies_def)
qed

text \<open>Copying a copy changes nothing more.\<close>

lemma frozen_idem: "frozen (frozen v) = frozen v"
  by (induction v rule: frozen.induct) auto

text \<open>C37: Metadata is copied exactly when it is within the limits: the copy succeeds for the values that meet the
  declarative limits on depth, container sizes, integers and strings and whose nodes and string bytes
  fit the budget, and then it is the same value with enumeration members, also among the keys, replaced by their values.\<close>

theorem metadata_copied_iff_within_limits:
  "(\<exists>b. snapshot_json_value 0 v new_budget = Inr (w, b)) \<longleftrightarrow>
     w = frozen v \<and> allowed 0 v \<and> node_count v \<le> 16384 \<and> string_bytes v \<le> 2097152"
  by (auto simp: metadata_copied)

end
