(* ===== verification/Tool_Validation.thy ===== *)
theory Tool_Validation
  imports Hook_Types Tool_Outcome Tool_Metadata "HOL-Library.List_Lexorder" "HOL-Library.Product_Lexorder"
begin

text \<open>
  The checks a tool's result passes before the agent believes it
  (\<^verbatim>\<open>domain/agent/tool_outcome_validation.py\<close>): the bounded collector of secondary failures, the
  protocol check of an outcome, the acceptance of what an after-tool hook made of it, and the canonical
  facts of a failure. A value of unknown type is a \<^typ>\<open>pyval\<close>; the fields of an outcome have
  their types, so of the protocol check only the conditions remain that a typed outcome can fail.
  The lemmas show that the collector's report does not depend on the order in which
  failures arrive, that a hook cannot change the primary facts of an outcome, and that a failed
  tool is never reported as safe to retry.
\<close>

section \<open>Safe names\<close>

definition ascii_alnum :: "nat \<Rightarrow> bool" where
  "ascii_alnum c \<longleftrightarrow> 48 \<le> c \<and> c \<le> 57 \<or> 65 \<le> c \<and> c \<le> 90 \<or> 97 \<le> c \<and> c \<le> 122"

text \<open>The further characters of a phase are \<^verbatim>\<open>._-:\<close>.\<close>

definition phase_ok :: "ptext \<Rightarrow> bool" where
  "phase_ok t \<longleftrightarrow> 0 < length t \<and> length t \<le> 64 \<and> list_all (\<lambda>c. ascii_alnum c \<or> c \<in> {46, 95, 45, 58}) t"

definition error_type_ok :: "ptext \<Rightarrow> bool" where
  "error_type_ok t \<longleftrightarrow> 0 < length t \<and> length t \<le> 64 \<and>
     (let rest = filter (\<lambda>c. c \<noteq> 95) t in rest \<noteq> [] \<and> list_all ascii_alnum rest)"

definition safe_failure_phase :: "pyval \<Rightarrow> ptext" where
  "safe_failure_phase v = (case v of
     PStr t \<Rightarrow> if phase_ok t then t else lit ''post_effect''
   | PStrEnum t \<Rightarrow> if phase_ok t then t else lit ''post_effect''
   | _ \<Rightarrow> lit ''post_effect'')"

definition safe_failure_error_type :: "pyval \<Rightarrow> ptext" where
  "safe_failure_error_type v = (case v of
     PStr t \<Rightarrow> if error_type_ok t then t else lit ''Exception''
   | PStrEnum t \<Rightarrow> if error_type_ok t then t else lit ''Exception''
   | _ \<Rightarrow> lit ''Exception'')"

section \<open>The collector of secondary failures\<close>

definition post_effect_failure_limit :: nat where "post_effect_failure_limit = 8"
definition post_effect_failure_count_limit :: nat where "post_effect_failure_count_limit = 1000000"

type_synonym failure = "ptext \<times> ptext"

record failure_collector =
  fc_limit :: nat
  fc_counts :: "(failure, nat) dict"
  fc_overflow :: nat

definition new_collector :: "int \<Rightarrow> failure_collector" where
  "new_collector limit = \<lparr>fc_limit = nat (max 2 limit), fc_counts = [], fc_overflow = 0\<rparr>"

definition safe_count :: "pyval \<Rightarrow> nat" where
  "safe_count v =
     (case v of PInt n \<Rightarrow> if 0 < n then min (nat n) post_effect_failure_count_limit else 1 | _ \<Rightarrow> 1)"

definition saturate :: "nat \<Rightarrow> nat" where
  "saturate n = min n post_effect_failure_count_limit"

definition record_fact :: "failure \<Rightarrow> nat \<Rightarrow> failure_collector \<Rightarrow> failure_collector" where
  "record_fact key n c =
     (case dict_get (fc_counts c) key of
        Some current \<Rightarrow> c\<lparr>fc_counts := dict_set key (saturate (current + n)) (fc_counts c)\<rparr>
      | None \<Rightarrow>
          if length (fc_counts c) < fc_limit c - 1
          then c\<lparr>fc_counts := dict_set key n (fc_counts c)\<rparr>
          else
            let largest = Max (set (keys (fc_counts c)))
            in if key < largest
               then c\<lparr>fc_counts := dict_set key n (dict_pop largest (fc_counts c)),
                      fc_overflow := saturate (fc_overflow c +
                        (case dict_get (fc_counts c) largest of None \<Rightarrow> 0 | Some k \<Rightarrow> k))\<rparr>
               else c\<lparr>fc_overflow := saturate (fc_overflow c + n)\<rparr>)"

definition record_failure :: "pyval \<Rightarrow> pyval \<Rightarrow> pyval \<Rightarrow> failure_collector \<Rightarrow> failure_collector" where
  "record_failure phase error_type n c =
     record_fact (safe_failure_phase phase, safe_failure_error_type error_type) (safe_count n) c"

definition omit_failures :: "pyval \<Rightarrow> failure_collector \<Rightarrow> failure_collector" where
  "omit_failures v c =
     (case v of
        PInt n \<Rightarrow>
          if n < 1 then c else c\<lparr>fc_overflow := saturate (fc_overflow c + saturate (nat n))\<rparr>
      | _ \<Rightarrow> c)"

definition collected :: "failure_collector \<Rightarrow> (ptext \<times> ptext \<times> nat) list" where
  "collected c =
     map (\<lambda>((phase, error_type), n). (phase, error_type, n)) (sort_key fst (fc_counts c)) @
     (if fc_overflow c \<noteq> 0 then [(lit ''post_effect'', lit ''AdditionalFailuresOmitted'', fc_overflow c)] else [])"

definition drain :: "failure_collector \<Rightarrow> failure_collector \<times> (ptext \<times> ptext \<times> nat) list" where
  "drain c = (c\<lparr>fc_counts := [], fc_overflow := 0\<rparr>, collected c)"

definition any_failures :: "failure_collector \<Rightarrow> bool" where
  "any_failures c = (fc_counts c \<noteq> [] \<or> fc_overflow c \<noteq> 0)"

datatype collector_op = Record_Failure pyval pyval pyval | Omit_Failures pyval

fun collector_step :: "collector_op \<Rightarrow> failure_collector \<Rightarrow> failure_collector" where
  "collector_step (Record_Failure phase error_type n) c = record_failure phase error_type n c"
| "collector_step (Omit_Failures n) c = omit_failures n c"

section \<open>The collector does not depend on the order\<close>

text \<open>What the operations say in total.\<close>

fun op_fact :: "collector_op \<Rightarrow> failure option" where
  "op_fact (Record_Failure phase error_type n) = Some (safe_failure_phase phase, safe_failure_error_type error_type)"
| "op_fact (Omit_Failures n) = None"

fun op_count :: "collector_op \<Rightarrow> nat" where
  "op_count (Record_Failure phase error_type n) = safe_count n"
| "op_count (Omit_Failures v) = (case v of PInt n \<Rightarrow> if n < 1 then 0 else saturate (nat n) | _ \<Rightarrow> 0)"

definition facts_of :: "collector_op list \<Rightarrow> failure set" where
  "facts_of ops = {f. Some f \<in> op_fact ` set ops}"

definition total_of :: "collector_op list \<Rightarrow> failure option \<Rightarrow> nat" where
  "total_of ops f = sum_list (map op_count (filter (\<lambda>x. op_fact x = f) ops))"

text \<open>The least elements of a set, as many as fit.\<close>

definition least_of :: "nat \<Rightarrow> 'a :: linorder set \<Rightarrow> 'a set \<Rightarrow> bool" where
  "least_of k S K \<longleftrightarrow> K \<subseteq> S \<and> card K = min k (card S) \<and> (\<forall>f\<in>K. \<forall>g\<in>S - K. f < g)"

lemma least_of_unique:
  assumes "finite S" "least_of k S K" "least_of k S K'"
  shows "K = K'"
proof (rule ccontr)
  assume ne: "K \<noteq> K'"
  have fin: "finite K" "finite K'" and "card K = card K'"
    using assms by (auto simp: least_of_def intro: finite_subset)
  with ne have "\<not> K \<subseteq> K'" "\<not> K' \<subseteq> K" using card_subset_eq by metis+
  then obtain f g where "f \<in> K" "f \<notin> K'" "g \<in> K'" "g \<notin> K" by blast
  with assms have "f < g" "g < f" by (auto simp: least_of_def)
  then show False by simp
qed

lemma least_of_room: "finite S \<Longrightarrow> card S < k \<Longrightarrow> least_of k S K \<Longrightarrow> K = S"
  by (auto simp: least_of_def card_subset_eq)

definition collects :: "failure_collector \<Rightarrow> collector_op list \<Rightarrow> bool" where
  "collects c ops \<longleftrightarrow> dict_ok (fc_counts c) \<and> 2 \<le> fc_limit c \<and>
     least_of (fc_limit c - 1) (facts_of ops) (set (keys (fc_counts c))) \<and>
     (\<forall>f n. dict_get (fc_counts c) f = Some n \<longrightarrow> n = saturate (total_of ops (Some f))) \<and>
     fc_overflow c = saturate (total_of ops None +
       (\<Sum>f\<in>facts_of ops - set (keys (fc_counts c)). total_of ops (Some f)))"

lemma saturate_simps [simp]:
  "saturate (saturate a + b) = saturate (a + b)" "saturate (a + saturate b) = saturate (a + b)"
  "saturate (saturate a) = saturate a" "saturate 0 = 0" "saturate (a + (saturate b + d)) = saturate (a + (b + d))"
  by (auto simp: saturate_def)

lemma safe_count_saturated: "saturate (safe_count v) = safe_count v"
  by (auto simp: saturate_def safe_count_def post_effect_failure_count_limit_def split: pyval.splits)

lemma facts_snoc: "facts_of (ops @ [x]) = facts_of ops \<union> set_option (op_fact x)"
  by (cases "op_fact x") (auto simp: facts_of_def)

lemma total_snoc: "total_of (ops @ [x]) f = total_of ops f + (if op_fact x = f then op_count x else 0)"
  by (simp add: total_of_def)

lemma finite_facts: "finite (facts_of ops)"
proof -
  have "facts_of ops = Some -` (op_fact ` set ops)" by (auto simp: facts_of_def)
  then show ?thesis by (simp add: finite_vimageI)
qed

lemma total_absent: "f \<notin> facts_of ops \<Longrightarrow> total_of ops (Some f) = 0"
  by (auto simp: total_of_def facts_of_def filter_empty_conv image_iff)

lemma least_of_replace:
  assumes fin: "finite S" and K: "least_of k S K" and full: "k \<le> card K" and "0 < k" and f: "f \<notin> K" "f < Max K"
  shows "f \<notin> S \<and> least_of k (insert f S) (insert f (K - {Max K})) \<and>
    insert f S - insert f (K - {Max K}) = insert (Max K) (S - K)"
proof -
  have sub: "K \<subseteq> S" and card: "card K = min k (card S)" and less: "\<And>a g. a \<in> K \<Longrightarrow> g \<in> S - K \<Longrightarrow> a < g"
    using K by (auto simp: least_of_def)
  have finK: "finite K" using sub fin by (rule finite_subset)
  have ne: "K \<noteq> {}" using full \<open>0 < k\<close> by auto
  have M: "Max K \<in> K" "\<And>a. a \<in> K \<Longrightarrow> a \<le> Max K" using finK ne by auto
  have fS: "f \<notin> S" using less [OF M(1), of f] f by auto
  have rest: "insert f S - insert f (K - {Max K}) = insert (Max K) (S - K)" using M(1) sub fS by auto
  have "a < g" if "a \<in> insert f (K - {Max K})" "g \<in> insert (Max K) (S - K)" for a g
    using that f(2) M less [OF M(1), of g] less [of a g] by (auto simp: order.strict_iff_order)
  moreover have "card (insert f (K - {Max K})) = card K" using finK f M(1) by (simp add: card_insert_if card_gt_0_iff card_Diff_singleton ne Suc_pred)
  moreover have "min k (card (insert f S)) = min k (card S)" using full card fin by (simp add: card_insert_if fS)
  ultimately have "least_of k (insert f S) (insert f (K - {Max K}))"
    using sub card unfolding least_of_def rest by auto
  with fS rest show ?thesis by blast
qed

lemma least_of_skip:
  assumes fin: "finite S" and K: "least_of k S K" and full: "k \<le> card K" and "0 < k" and f: "f \<notin> K" "\<not> f < Max K"
  shows "least_of k (insert f S) K"
proof -
  have sub: "K \<subseteq> S" and card: "card K = min k (card S)" and less: "\<And>a g. a \<in> K \<Longrightarrow> g \<in> S - K \<Longrightarrow> a < g"
    using K by (auto simp: least_of_def)
  have finK: "finite K" using sub fin by (rule finite_subset)
  have "a < f" if "a \<in> K" for a
    using that finK f by (metis Max_ge not_less order.not_eq_order_implies_strict order.trans)
  with sub card less full fin show ?thesis by (auto simp: least_of_def card_insert_if)
qed

lemma dict_length: "dict_ok d \<Longrightarrow> length d = card (set (keys d))"
  by (metis dict_ok_def distinct_card length_map)

lemma step_collects_omit:
  "collects c ops \<Longrightarrow> collects (omit_failures v c) (ops @ [Omit_Failures v])"
  by (auto simp: collects_def omit_failures_def facts_snoc total_snoc add_ac split: pyval.splits)

lemma record_collects:
  assumes c: "collects c ops" and x: "op_fact x = Some f" "op_count x = n" "saturate n = n"
  shows "collects (record_fact f n c) (ops @ [x])"
proof -
  let ?K = "set (keys (fc_counts c))" and ?S = "facts_of ops" and ?k = "fc_limit c - 1"
  note fin = finite_facts [of ops]
  have ok: "dict_ok (fc_counts c)" and k: "0 < ?k" "2 \<le> fc_limit c" and least: "least_of ?k ?S ?K"
    and counts: "\<And>g m. dict_get (fc_counts c) g = Some m \<Longrightarrow> m = saturate (total_of ops (Some g))"
    and over: "fc_overflow c = saturate (total_of ops None + (\<Sum>g\<in>?S - ?K. total_of ops (Some g)))"
    using c by (auto simp: collects_def)
  have len: "length (fc_counts c) = card ?K" using ok by (rule dict_length)
  have T: "total_of (ops @ [x]) g = total_of ops g + (if g = Some f then n else 0)" for g
    using x by (simp add: total_snoc)
  have F: "facts_of (ops @ [x]) = insert f ?S" using x by (simp add: facts_snoc)
  have sums: "(\<Sum>g\<in>D. total_of ops (Some g) + (if g = f then n else 0)) = (\<Sum>g\<in>D. total_of ops (Some g)) + (if f \<in> D then n else 0)"
    if "finite D" for D
    using that by (simp add: sum.distrib)
  show ?thesis
  proof (cases "dict_get (fc_counts c) f")
    case (Some m)
    then have f: "f \<in> ?K" by (metis dict_get_None_iff option.distinct(1))
    with least have "insert f ?S = ?S" by (auto simp: least_of_def)
    with Some f counts [OF Some] show ?thesis
      using ok k least over fin
      by (auto simp: collects_def record_fact_def F T keys_dict_set dict_ok_set dict_get_set sums insert_absorb
          dest: counts split: if_splits)
  next
    case None
    then have f: "f \<notin> ?K" by (simp add: dict_get_None_iff)
    show ?thesis
    proof (cases "length (fc_counts c) < ?k")
      case True
      then have K: "?K = ?S" using least len fin by (auto simp: least_of_def card_subset_eq)
      with f have "f \<notin> ?S" by simp
      have "least_of ?k (insert f ?S) (insert f ?S)" using True K len fin \<open>f \<notin> ?S\<close> by (auto simp: least_of_def)
      with None True K f \<open>f \<notin> ?S\<close> show ?thesis
        using ok k over x(3) total_absent [OF \<open>f \<notin> ?S\<close>]
        by (auto simp: collects_def record_fact_def F T keys_dict_set dict_ok_set dict_get_set dest: counts split: if_splits)
    next
      case False
      then have full: "?k \<le> card ?K" using len by simp
      show ?thesis
      proof (cases "f < Max ?K")
        case True
        note r = least_of_replace [OF fin least full k(1) f True]
        have "?K \<noteq> {}" using full k by auto
        then have M: "Max ?K \<in> ?K" by simp
        then obtain m where m: "dict_get (fc_counts c) (Max ?K) = Some m" "m = saturate (total_of ops (Some (Max ?K)))"
          using counts by (metis dict_get_None_iff not_None_eq)
        have K': "set (keys (dict_set f n (dict_pop (Max ?K) (fc_counts c)))) = insert f (?K - {Max ?K})"
          by (auto simp: keys_dict_set keys_dict_pop)
        have fM: "f \<noteq> Max ?K" using f M by metis
        have "(\<Sum>g\<in>insert (Max ?K) (?S - ?K). total_of ops (Some g) + (if g = f then n else 0)) =
            total_of ops (Some (Max ?K)) + (\<Sum>g\<in>?S - ?K. total_of ops (Some g))"
          using fin M r fM by (simp add: sums)
        then have total: "(\<Sum>g\<in>insert f ?S - insert f (?K - {Max ?K}). total_of ops (Some g) + (if Some g = Some f then n else 0)) =
            total_of ops (Some (Max ?K)) + (\<Sum>g\<in>?S - ?K. total_of ops (Some g))"
          using r by simp
        have rec: "record_fact f n c = c\<lparr>fc_counts := dict_set f n (dict_pop (Max ?K) (fc_counts c)),
            fc_overflow := saturate (fc_overflow c + m)\<rparr>"
          using None False True m(1) by (simp add: record_fact_def Let_def del: set_map)
        show ?thesis unfolding collects_def rec
        proof (intro conjI allI impI)
          fix g l assume "dict_get (fc_counts (c\<lparr>fc_counts := dict_set f n (dict_pop (Max ?K) (fc_counts c)),
            fc_overflow := saturate (fc_overflow c + m)\<rparr>)) g = Some l"
          then show "l = saturate (total_of (ops @ [x]) (Some g))"
            using counts x(3) total_absent [of f ops] r
            by (auto simp: T dict_get_set dict_get_pop simp del: set_map split: if_splits)
        qed (use ok k r over m(2) total in \<open>simp_all add: dict_ok_set dict_ok_pop K' F T add_ac del: set_map\<close>)
      next
        case False': False
        note least' = least_of_skip [OF fin least full k(1) f False']
        have "(\<Sum>g\<in>insert f ?S - ?K. total_of ops (Some g) + (if g = f then n else 0)) =
            (\<Sum>g\<in>?S - ?K. total_of ops (Some g)) + n"
        proof (cases "f \<in> ?S")
          case True
          with fin f show ?thesis by (simp add: sums insert_absorb)
        next
          case False
          then have "insert f ?S - ?K = insert f (?S - ?K)" using f by auto
          with False fin show ?thesis by (simp add: sums total_absent)
        qed
        with None False False' least' show ?thesis
          using ok k over f
          by (auto simp: collects_def record_fact_def Let_def F T add_ac simp del: set_map
              dest: counts dict_get_SomeD split: if_splits)
      qed
    qed
  qed
qed

lemma step_collects: "collects c ops \<Longrightarrow> collects (collector_step x c) (ops @ [x])"
  by (cases x) (simp_all add: step_collects_omit record_failure_def record_collects safe_count_saturated)

lemma run_collects: "collects (fold collector_step ops (new_collector limit)) ops"
proof (induction ops rule: rev_induct)
  case Nil
  then show ?case by (simp add: collects_def new_collector_def dict_ok_def least_of_def facts_of_def dict_get_def total_of_def)
next
  case (snoc x ops)
  then show ?case by (simp add: step_collects)
qed

lemma run_limit: "fc_limit (fold collector_step ops c) = fc_limit c"
proof (induction ops arbitrary: c)
  case (Cons x ops)
  have "fc_limit (collector_step x c) = fc_limit c"
    by (cases x) (auto simp: record_failure_def record_fact_def omit_failures_def Let_def split: option.splits pyval.splits)
  with Cons show ?case by simp
qed simp

text \<open>Dictionaries with the same entries are sorted to the same list.\<close>

lemma same_sorted:
  fixes d :: "('k :: linorder, 'v) dict"
  assumes "dict_ok d" "dict_ok d'" "\<And>k. dict_get d k = dict_get d' k"
  shows "sort_key fst d = sort_key fst d'"
proof (rule map_sorted_distinct_set_unique [where f = fst])
  have sets: "set d = set d'" using assms by (metis dict_get_SomeD dict_get_mem subrelI subset_antisym)
  then show "set (sort_key fst d) = set (sort_key fst d')" by simp
  have "distinct (map fst (sort_key fst e))" if "dict_ok e" for e :: "('k, 'v) dict"
    using that by (metis dict_ok_def distinct_map distinct_sort set_sort)
  with assms show "distinct (map fst (sort_key fst d))" "distinct (map fst (sort_key fst d'))" by blast+
  show "inj_on fst (set (sort_key fst d) \<union> set (sort_key fst d'))"
    using assms(1) sets by (simp add: dict_ok_def distinct_map)
qed simp_all

lemma collects_determines:
  assumes "collects c ops" "collects c' ops'" "mset ops = mset ops'" "fc_limit c = fc_limit c'"
  shows "collected c = collected c'"
proof -
  have total: "total_of ops f = total_of ops' f" for f
  proof -
    have "mset (map op_count (filter (\<lambda>x. op_fact x = f) ops)) = mset (map op_count (filter (\<lambda>x. op_fact x = f) ops'))"
      using assms(3) by simp
    then show ?thesis unfolding total_of_def by (metis sum_mset_sum_list)
  qed
  have facts: "facts_of ops = facts_of ops'" using assms(3) unfolding facts_of_def by (metis set_mset_mset)
  have keys: "set (keys (fc_counts c)) = set (keys (fc_counts c'))"
    using assms least_of_unique [OF finite_facts] unfolding collects_def facts by metis
  have get: "dict_get (fc_counts c) f = dict_get (fc_counts c') f" for f
  proof (cases "f \<in> set (keys (fc_counts c))")
    case True
    with keys obtain n m where "dict_get (fc_counts c) f = Some n" "dict_get (fc_counts c') f = Some m"
      by (metis dict_get_None_iff not_None_eq)
    with assms(1,2) total show ?thesis unfolding collects_def by metis
  next
    case False
    with keys show ?thesis by (metis dict_get_None_iff)
  qed
  have "sort_key fst (fc_counts c) = sort_key fst (fc_counts c')"
    using assms(1,2) get by (auto simp: collects_def intro: same_sorted)
  moreover have "fc_overflow c = fc_overflow c'" using assms(1,2) by (simp only: collects_def keys total facts)
  ultimately show ?thesis by (simp add: collected_def)
qed

text \<open>The report of secondary failures does not depend on the order in which they arrive, and is bounded:
  any two runs with the same failures give the same report, of at most as many lines as the collector allows.\<close>

theorem failure_report_ignores_order:
  assumes "mset ops = mset ops'"
  shows "collected (fold collector_step ops (new_collector limit)) = collected (fold collector_step ops' (new_collector limit)) \<and>
    int (length (collected (fold collector_step ops (new_collector limit)))) \<le> max 2 limit"
proof
  show "collected (fold collector_step ops (new_collector limit)) = collected (fold collector_step ops' (new_collector limit))"
    using collects_determines [OF run_collects run_collects assms] by (simp add: run_limit)
  let ?c = "fold collector_step ops (new_collector limit)"
  have "collects ?c ops" by (rule run_collects)
  then have "length (fc_counts ?c) \<le> fc_limit ?c - 1" "2 \<le> fc_limit ?c"
    using dict_length [of "fc_counts ?c"] by (auto simp: collects_def least_of_def simp del: set_map)
  moreover have "length (collected ?c) \<le> length (fc_counts ?c) + 1" by (simp add: collected_def)
  moreover have "fc_limit ?c = nat (max 2 limit)" by (simp add: run_limit new_collector_def)
  ultimately show "int (length (collected ?c)) \<le> max 2 limit" by linarith
qed

theorem failure_report_ignores_order_witness:
  "collected (fold collector_step [Record_Failure (PStr [98]) (PStr [66]) (PInt 1), Omit_Failures (PInt 2),
      Record_Failure (PStr [97]) (PStr [65]) (PInt 1)] (new_collector 2)) = [([97], [65], 1),
        (lit ''post_effect'', lit ''AdditionalFailuresOmitted'', 3)] \<and>
   collected (fold collector_step [Record_Failure (PStr [97]) (PStr [65]) (PInt 1),
      Record_Failure (PStr [98]) (PStr [66]) (PInt 1), Omit_Failures (PInt 2)] (new_collector 2)) = [([97], [65], 1),
        (lit ''post_effect'', lit ''AdditionalFailuresOmitted'', 3)]"
proof -
  let ?a = "Record_Failure (PStr [97]) (PStr [65]) (PInt 1)" and ?b = "Record_Failure (PStr [98]) (PStr [66]) (PInt 1)"
  let ?o = "Omit_Failures (PInt 2)"
  have "mset [?b, ?o, ?a] = mset [?a, ?b, ?o]" by simp
  from failure_report_ignores_order [OF this, of 2] have
    "collected (fold collector_step [?b, ?o, ?a] (new_collector 2)) = collected (fold collector_step [?a, ?b, ?o] (new_collector 2))"
    by blast
  moreover have "collected (fold collector_step [?a, ?b, ?o] (new_collector 2)) =
      [([97], [65], 1), (lit ''post_effect'', lit ''AdditionalFailuresOmitted'', 3)]"
    by (simp add: record_failure_def record_fact_def omit_failures_def new_collector_def collected_def safe_count_def
        safe_failure_phase_def safe_failure_error_type_def phase_ok_def error_type_ok_def ascii_alnum_def Let_def
        saturate_def post_effect_failure_count_limit_def dict_get_def lit_def)
  ultimately show ?thesis by simp
qed

section \<open>Metadata as values\<close>

definition revision_dict :: "workspace_revision \<Rightarrow> pyval" where
  "revision_dict r = PMap [(PStr (lit ''exists''), PBool (rv_exists r)),
     (PStr (lit ''sha256''), case rv_sha256 r of None \<Rightarrow> PNone | Some t \<Rightarrow> PStr t),
     (PStr (lit ''size_bytes''), PInt (int (rv_size r))),
     (PStr (lit ''mtime_ns''), case rv_mtime_ns r of None \<Rightarrow> PNone | Some n \<Rightarrow> PInt n),
     (PStr (lit ''authoritative''), PBool (rv_authoritative r))]"

definition receipt_dict :: "mutation_receipt \<Rightarrow> pyval" where
  "receipt_dict r = PMap [(PStr (lit ''resolved_path''), PStr (render_path (mr_path r))),
     (PStr (lit ''before''), revision_dict (mr_before r)),
     (PStr (lit ''intended_after_sha256''), PStr (mr_intended_sha256 r)),
     (PStr (lit ''intended_size_bytes''), PInt (int (mr_intended_size r))),
     (PStr (lit ''observed_after''), case mr_observed_after r of None \<Rightarrow> PNone | Some v \<Rightarrow> revision_dict v),
     (PStr (lit ''atomic_replace''), PBool (mr_atomic_replace r)),
     (PStr (lit ''verification''), PStr (lit (verification_value (mr_verification r)))),
     (PStr (lit ''expected_before''), case mr_expected_before r of None \<Rightarrow> PNone | Some v \<Rightarrow> revision_dict v),
     (PStr (lit ''external_change_before_write''), PBool (mr_external_change r))]"

fun fact_value :: "fact \<Rightarrow> pyval" where
  "fact_value (Fact_Text t) = PStr t"
| "fact_value (Fact_Bool b) = PBool b"
| "fact_value (Fact_Nat n) = PInt (int n)"
| "fact_value (Fact_Texts ts) = PSeq (map PStr ts)"
| "fact_value (Fact_Receipt r) = receipt_dict r"
| "fact_value (Fact_Verification v) = PStr (lit (verification_value v))"
| "fact_value (Fact_Results rs) = PSeq (map (\<lambda>(path, resolved, receipt, diff).
     PMap [(PStr (lit ''file_path''), PStr path), (PStr (lit ''resolved_path''), PStr resolved),
       (PStr (lit ''mutation_receipt''), receipt_dict receipt), (PStr (lit ''diff''), PStr diff)]) rs)"
| "fact_value (Fact_Failures fs) = PSeq (map (\<lambda>(phase, error_type, n).
     PMap [(PStr (lit ''phase''), PStr phase), (PStr (lit ''error_type''), PStr error_type),
       (PStr (lit ''count''), PInt (int n))]) fs)"

definition metadata_value :: "(string, fact) dict \<Rightarrow> pyval" where
  "metadata_value md = PMap (map (\<lambda>(k, f). (PStr (lit k), fact_value f)) md)"

section \<open>The protocol of an outcome\<close>

datatype validation_error = Bad_Protocol | Bad_Projection | Bad_Transition | Bad_Contribution

definition structured_fact_max_string_bytes :: nat where "structured_fact_max_string_bytes = 65536"
definition structured_fact_max_total_string_bytes :: nat where "structured_fact_max_total_string_bytes = 2097152"
definition tool_diagnostic_limit :: nat where "tool_diagnostic_limit = 512"
definition text_validation_chunk_chars :: nat where "text_validation_chunk_chars = 65536"

text \<open>Chunk by chunk, so that no second copy of the whole text is made.\<close>

function validate_unbounded_text :: "ptext \<Rightarrow> (validation_error, unit) result" where
  "validate_unbounded_text t =
     (if t = [] then Inr ()
      else if utf8_encode (take text_validation_chunk_chars t) = None then Inl Bad_Protocol
      else validate_unbounded_text (drop text_validation_chunk_chars t))"
  by auto
termination
  by (relation "measure length") (auto simp: text_validation_chunk_chars_def)

declare validate_unbounded_text.simps [simp del]

definition validate_fact_text :: "ptext \<Rightarrow> (validation_error, nat) result" where
  "validate_fact_text t =
     (if structured_fact_max_string_bytes < length t then Inl Bad_Protocol
      else case utf8_encode t of
        None \<Rightarrow> Inl Bad_Protocol
      | Some encoded \<Rightarrow> if structured_fact_max_string_bytes < length encoded then Inl Bad_Protocol
          else Inr (length encoded))"

definition optional_fits :: "int option \<Rightarrow> bool" where
  "optional_fits n = (case n of None \<Rightarrow> True | Some k \<Rightarrow> int_fits k)"

definition status_consistent :: "tool_outcome \<Rightarrow> bool" where
  "status_consistent out \<longleftrightarrow> (to_status out = SUCCEEDED) = (to_error_kind out = None) \<and>
     (to_status out \<noteq> DENIED \<or> to_error_kind out = Some Kind_Denied) \<and>
     (to_status out \<noteq> CANCELLED \<or> to_error_kind out = Some Kind_Interrupted)"

definition diff_fits :: "tool_diff \<Rightarrow> bool" where
  "diff_fits d \<longleftrightarrow> list_all (\<lambda>n. optional_fits (map_option int n)) [td_additions d, td_deletions d, td_original_chars d]"

definition diagnostic_fits :: "tool_diagnostic \<Rightarrow> bool" where
  "diagnostic_fits d \<longleftrightarrow> int_fits (int (dg_line d)) \<and> int_fits (int (dg_character d)) \<and>
     optional_fits (map_option int (dg_end_line d)) \<and> optional_fits (map_option int (dg_end_character d))"

definition strategy_value :: "retention_strategy \<Rightarrow> ptext" where
  "strategy_value s = (case s of Keep_Head \<Rightarrow> lit ''head'' | Keep_Tail \<Rightarrow> lit ''tail'' | Keep_Head_Tail \<Rightarrow> lit ''head_tail'')"

definition truncation_fits :: "tool_outcome \<Rightarrow> tool_truncation \<Rightarrow> bool" where
  "truncation_fits out t \<longleftrightarrow>
     list_all (\<lambda>n. int_fits (int n)) [tt_original_chars t, tt_original_lines t, tt_retained_chars t, tt_retained_lines t] \<and>
     tt_retained_chars t \<le> tt_original_chars t \<and> tt_retained_lines t \<le> tt_original_lines t \<and>
     tt_strategy t \<in> set (map strategy_value [Keep_Head, Keep_Tail, Keep_Head_Tail]) \<and> to_model_content out \<noteq> None"

definition archive_fits :: "tool_archive_reference \<Rightarrow> bool" where
  "archive_fits a \<longleftrightarrow> ta_path a \<noteq> [] \<and> optional_fits (map_option int (ta_size_bytes a))"

definition retention_fits :: "tool_retention_hint \<Rightarrow> bool" where
  "retention_fits h = (case rh_anchor_line h of None \<Rightarrow> True | Some n \<Rightarrow> int_fits n \<and> 0 < n)"

definition facts_fit :: "tool_outcome \<Rightarrow> bool" where
  "facts_fit out \<longleftrightarrow> status_consistent out \<and> optional_fits (to_exit_code out) \<and>
     (case to_duration out of None \<Rightarrow> True | Some d \<Rightarrow> 0 \<le> d) \<and>
     length (to_diagnostics out) \<le> tool_diagnostic_limit \<and>
     (case to_diff out of None \<Rightarrow> True | Some d \<Rightarrow> diff_fits d) \<and>
     list_all diagnostic_fits (to_diagnostics out) \<and>
     (case to_truncation out of None \<Rightarrow> True | Some t \<Rightarrow> truncation_fits out t) \<and>
     (case to_archive out of None \<Rightarrow> True | Some a \<Rightarrow> archive_fits a) \<and> retention_fits (to_retention_hint out)"

definition unbounded_texts :: "tool_outcome \<Rightarrow> ptext list" where
  "unbounded_texts out = List.map_filter id [to_content out, Some (to_stdout out), Some (to_stderr out),
     to_model_content out, map_option td_unified (to_diff out)]"

definition bounded_texts :: "tool_outcome \<Rightarrow> ptext list" where
  "bounded_texts out = List.map_filter id
     ([to_summary out, map_option td_path (to_diff out)] @
      concat (map (\<lambda>d. [Some (dg_path d), Some (dg_message d), Some (dg_severity d), dg_code d, dg_source d]) (to_diagnostics out)) @
      [map_option tt_strategy (to_truncation out)] @
      (case to_archive out of None \<Rightarrow> [] | Some a \<Rightarrow> [Some (ta_path a), Some (ta_media_type a), ta_checksum_sha256 a]))"

fun check_unbounded :: "ptext list \<Rightarrow> (validation_error, unit) result" where
  "check_unbounded [] = Inr ()"
| "check_unbounded (t # ts) = bind_result (validate_unbounded_text t) (\<lambda>_. check_unbounded ts)"

fun check_bounded :: "nat \<Rightarrow> ptext list \<Rightarrow> (validation_error, unit) result" where
  "check_bounded used [] = Inr ()"
| "check_bounded used (t # ts) =
     bind_result (validate_fact_text t) (\<lambda>n.
       if structured_fact_max_total_string_bytes < used + n then Inl Bad_Protocol
       else check_bounded (used + n) ts)"

definition check_tool_outcome_protocol :: "tool_outcome \<Rightarrow> (validation_error, unit) result" where
  "check_tool_outcome_protocol out =
     (if \<not> facts_fit out then Inl Bad_Protocol
      else bind_result (check_unbounded (unbounded_texts out)) (\<lambda>_.
        bind_result (check_bounded 0 (bounded_texts out)) (\<lambda>_.
          case snapshot_json_value 0 (metadata_value (to_metadata out)) new_budget of
            Inl _ \<Rightarrow> Inl Bad_Protocol | Inr _ \<Rightarrow> Inr ())))"

definition normalize_model_projection :: "ptext \<Rightarrow> (validation_error, ptext) result" where
  "normalize_model_projection t =
     (case validate_unbounded_text t of Inl _ \<Rightarrow> Inl Bad_Projection | Inr _ \<Rightarrow> Inr t)"

definition normalize_tool_outcome :: "tool_outcome \<Rightarrow> (validation_error, tool_outcome) result" where
  "normalize_tool_outcome out =
     bind_result (check_tool_outcome_protocol out) (\<lambda>_.
       bind_result (normalize_model_projection (model_text out)) (\<lambda>t.
         case check_outcome (out\<lparr>to_model_content := Some t\<rparr>) of Inl _ \<Rightarrow> Inl Bad_Protocol | Inr o' \<Rightarrow> Inr o'))"

section \<open>What an after-tool hook may change\<close>

record called_tool =
  ct_id :: ptext
  ct_name :: ptext
  ct_arguments :: "(pyval \<times> pyval) list"

record after_context =
  ac_hook_point :: hook_point
  ac_agent_id :: "ptext option"
  ac_session_generation :: "int option"
  ac_session_id :: "ptext option"
  ac_turn_id :: "ptext option"
  ac_trace_id :: "ptext option"
  ac_round_index :: "int option"
  ac_tool_call :: called_tool
  ac_result :: ptext
  ac_outcome :: tool_outcome

definition called_signature :: "called_tool \<Rightarrow> (validation_error, pyval \<times> pyval \<times> pyval) result" where
  "called_signature tc =
     (case (snapshot_json_value 0 (PStr (ct_id tc)) new_budget, snapshot_json_value 0 (PStr (ct_name tc)) new_budget,
            snapshot_json_value 0 (PMap (ct_arguments tc)) new_budget) of
        (Inr (i, _), Inr (n, _), Inr (a, _)) \<Rightarrow> Inr (i, n, a)
      | _ \<Rightarrow> Inl Bad_Contribution)"

definition same_context :: "after_context \<Rightarrow> after_context \<Rightarrow> bool" where
  "same_context a b \<longleftrightarrow> ac_hook_point a = ac_hook_point b \<and> ac_agent_id a = ac_agent_id b \<and>
     ac_session_generation a = ac_session_generation b \<and> ac_session_id a = ac_session_id b \<and>
     ac_turn_id a = ac_turn_id b \<and> ac_trace_id a = ac_trace_id b \<and> ac_round_index a = ac_round_index b"

definition same_primary_facts :: "tool_outcome \<Rightarrow> tool_outcome \<Rightarrow> bool" where
  "same_primary_facts a b \<longleftrightarrow> to_images a = to_images b \<and> to_status a = to_status b \<and> to_summary a = to_summary b \<and>
     to_content a = to_content b \<and> to_stdout a = to_stdout b \<and> to_stderr a = to_stderr b \<and> to_diff a = to_diff b \<and>
     to_exit_code a = to_exit_code b \<and> to_duration a = to_duration b \<and> to_error_kind a = to_error_kind b \<and>
     to_retention_hint a = to_retention_hint b"

definition failure_fact_keys :: "string list" where
  "failure_fact_keys = [''failure_phase'', ''error_type'', ''effect_state'', ''completion_state'', ''retry_safety'']"

definition runtime_metadata_keys :: "string list" where
  "runtime_metadata_keys = failure_fact_keys @ [''post_effect_failures'', ''reported_effect_state'']"

text \<open>\<open>same\<close> says that the hook returned the very outcome object it was given.\<close>

definition accepted_after_transform ::
    "bool \<Rightarrow> after_context \<Rightarrow> after_context \<Rightarrow> (validation_error, tool_outcome) result" where
  "accepted_after_transform same original transformed =
     (if \<not> same_context transformed original then Inl Bad_Transition
      else
        bind_result (called_signature (ac_tool_call transformed)) (\<lambda>signature.
        bind_result (called_signature (ac_tool_call original)) (\<lambda>signature'.
          if signature \<noteq> signature' then Inl Bad_Transition
          else
            bind_result (if same then Inr (ac_outcome original) else normalize_tool_outcome (ac_outcome transformed)) (\<lambda>candidate.
            bind_result (normalize_model_projection (ac_result transformed)) (\<lambda>projection.
              let candidate = (if projection \<noteq> model_text candidate
                    then with_model_projection projection (to_truncation candidate) (to_archive candidate) candidate
                    else candidate);
                  before = ac_outcome original
              in if \<not> same_primary_facts candidate before \<or>
                    take (length (to_diagnostics before)) (to_diagnostics candidate) \<noteq> to_diagnostics before
                 then Inl Bad_Transition
                 else if \<not> list_all (\<lambda>(k, v). dict_get (to_metadata candidate) k = Some v) (to_metadata before)
                 then Inl Bad_Transition
                 else if list_ex (\<lambda>k. k \<notin> set (keys (to_metadata before)) \<and> k \<in> set runtime_metadata_keys)
                           (keys (to_metadata candidate))
                 then Inl Bad_Transition
                 else Inr candidate)))))"

section \<open>Canonical facts of a failure\<close>

definition text_fact :: "(string, fact) dict \<Rightarrow> string \<Rightarrow> ptext option" where
  "text_fact md k = (case dict_get md k of None \<Rightarrow> None
     | Some f \<Rightarrow> (case fact_value f of PStr t \<Rightarrow> Some t | _ \<Rightarrow> None))"

definition canonical_fact :: "string \<Rightarrow> ptext \<Rightarrow> bool" where
  "canonical_fact k t =
     (if k = ''error_type'' then safe_failure_error_type (PStr t) = t
      else if k = ''effect_state''
      then t \<in> set (map lit [''not_started'', ''started'', ''completed'', ''unknown''])
      else if k = ''completion_state'' then t \<in> set (map lit [''not_started'', ''completed'', ''uncertain''])
      else if k = ''retry_safety'' then t \<in> set (map lit [''safe_to_retry'', ''do_not_retry_automatically''])
      else safe_failure_phase (PStr t) = t)"

definition safe_metadata_fact :: "(string, fact) dict \<Rightarrow> string \<Rightarrow> ptext option" where
  "safe_metadata_fact md k =
     (case text_fact md k of None \<Rightarrow> None | Some t \<Rightarrow> if canonical_fact k t then Some t else None)"

record reported_facts =
  ff_phase :: ptext
  ff_error_type :: ptext
  ff_effect_state :: ptext
  ff_completion_state :: ptext
  ff_retry_safety :: ptext

definition default_facts :: "reported_facts \<Rightarrow> (string \<times> ptext) list" where
  "default_facts f =
     [(''failure_phase'', safe_failure_phase (PStr (ff_phase f))),
      (''error_type'', safe_failure_error_type (PStr (ff_error_type f))),
      (''effect_state'', safe_failure_phase (PStr (ff_effect_state f))),
      (''completion_state'', safe_failure_phase (PStr (ff_completion_state f))),
      (''retry_safety'', safe_failure_phase (PStr (ff_retry_safety f)))]"

definition without_runtime_keys :: "(string, fact) dict \<Rightarrow> (string, fact) dict" where
  "without_runtime_keys md = filter (\<lambda>(k, v). k \<notin> set runtime_metadata_keys) md"

definition with_failure_facts :: "reported_facts \<Rightarrow> bool \<Rightarrow> tool_outcome \<Rightarrow> tool_outcome" where
  "with_failure_facts f replace_existing out =
     (if success out then
        (if \<not> replace_existing \<or> set (keys (to_metadata out)) \<inter> set runtime_metadata_keys = {} then out
         else out\<lparr>to_metadata := without_runtime_keys (to_metadata out)\<rparr>)
      else
        out\<lparr>to_metadata := fold (\<lambda>(k, d) md.
              if replace_existing \<or> safe_metadata_fact md k = None then dict_set k (Fact_Text d) md else md)
            (default_facts f)
            (if replace_existing then without_runtime_keys (to_metadata out) else to_metadata out)\<rparr>)"

definition cancelled_before_outcome :: "ptext \<Rightarrow> ptext \<Rightarrow> ptext \<Rightarrow> tool_outcome" where
  "cancelled_before_outcome tool_name phase message =
     with_failure_facts \<lparr>ff_phase = phase, ff_error_type = lit ''ToolExecutionCancelled'',
         ff_effect_state = lit ''not_started'', ff_completion_state = lit ''not_started'',
         ff_retry_safety = lit ''safe_to_retry''\<rparr> True
       (new_outcome\<lparr>to_status := CANCELLED, to_summary := Some (tool_name @ lit '' interrupted before execution''),
          to_content := Some message, to_model_content := Some message, to_error_kind := Some Kind_Interrupted\<rparr>)"

fun status_value :: "outcome_status \<Rightarrow> ptext" where
  "status_value SUCCEEDED = lit ''succeeded''"
| "status_value FAILED = lit ''failed''"
| "status_value DENIED = lit ''denied''"
| "status_value CANCELLED = lit ''cancelled''"
| "status_value TIMED_OUT = lit ''timed_out''"

text \<open>The line of facts; a missing fact is a \<^verbatim>\<open>KeyError\<close>.\<close>

fun facts_line :: "(string, fact) dict \<Rightarrow> (string \<times> string) list \<Rightarrow> (string, ptext) result" where
  "facts_line md [] = Inr []"
| "facts_line md ((label, k) # rest) =
     (case text_fact md k of
        None \<Rightarrow> Inl k
      | Some t \<Rightarrow> bind_result (facts_line md rest) (\<lambda>line. Inr (32 # lit label @ [61] @ t @ line)))"

definition fact_labels :: "(string \<times> string) list" where
  "fact_labels = [(''phase'', ''failure_phase''), (''error_type'', ''error_type''), (''effect_state'', ''effect_state''),
     (''completion_state'', ''completion_state''), (''retry_safety'', ''retry_safety'')]"

definition appended_text :: "ptext \<Rightarrow> ptext \<Rightarrow> ptext" where
  "appended_text t more' = (if t \<noteq> [] then pt_rstrip t @ [10, 10] @ more' else more')"

definition with_canonical_failure_projection :: "tool_outcome \<Rightarrow> (string, tool_outcome) result" where
  "with_canonical_failure_projection out =
     (if success out then Inr out
      else
        bind_result (facts_line (to_metadata out) fact_labels) (\<lambda>line.
          Inr (with_model_projection
            (appended_text (model_text out) (lit ''[tool outcome facts]'' @ [10] @ lit ''status='' @ status_value (to_status out) @ line))
            (to_truncation out) (to_archive out) out)))"

datatype raw_result = Returned_Outcome tool_outcome | Returned_Text ptext | Returned_Other

definition or_literal :: "ptext option \<Rightarrow> string \<Rightarrow> ptext" where
  "or_literal v d = (case v of None \<Rightarrow> lit d | Some t \<Rightarrow> if t = [] then lit d else t)"

definition returned_facts :: "tool_outcome \<Rightarrow> reported_facts" where
  "returned_facts normalized =
     (let md = to_metadata normalized; denied = (to_status normalized = DENIED)
      in \<lparr>ff_phase = or_literal (safe_metadata_fact md ''failure_phase'') ''execute'',
          ff_error_type = or_literal (safe_metadata_fact md ''error_type'') ''ToolReportedFailure'',
          ff_effect_state = (if denied then lit ''not_started'' else lit ''unknown''),
          ff_completion_state = (if denied then lit ''not_started'' else lit ''uncertain''),
          ff_retry_safety = lit ''do_not_retry_automatically''\<rparr>)"

definition reported_effect :: "(string, fact) dict \<Rightarrow> ptext option" where
  "reported_effect md =
     (case text_fact md ''effect_state'' of
        None \<Rightarrow> None
      | Some t \<Rightarrow> if t \<in> set (map lit [''not_started'', ''started'', ''completed'', ''unknown'', ''server_reported_failure''])
          then Some t else None)"

definition returned_projection :: "tool_outcome \<Rightarrow> tool_outcome" where
  "returned_projection normalized =
     (let projected = with_failure_facts (returned_facts normalized) True normalized
      in case reported_effect (to_metadata normalized) of
           None \<Rightarrow> projected
         | Some t \<Rightarrow>
             if success normalized then projected
             else projected\<lparr>to_metadata := dict_set ''reported_effect_state'' (Fact_Text t) (to_metadata projected)\<rparr>)"

definition coerce_returned_outcome :: "raw_result \<Rightarrow> real \<Rightarrow> (validation_error, tool_outcome) result" where
  "coerce_returned_outcome raw seconds =
     bind_result
       (case raw of
          Returned_Outcome out \<Rightarrow> Inr out
        | Returned_Text t \<Rightarrow> Inr (with_duration seconds (from_legacy t None None))
        | Returned_Other \<Rightarrow> Inl Bad_Protocol)
       (\<lambda>out. bind_result (normalize_tool_outcome out) (\<lambda>normalized. Inr (returned_projection normalized)))"

definition completed_result_failure :: "bool \<Rightarrow> ptext \<Rightarrow> tool_outcome" where
  "completed_result_failure protocol_failure type_name =
     (let phase = (if protocol_failure then lit ''result_protocol'' else lit ''result_projection'');
          error_type = safe_failure_error_type (PStr type_name);
          problem = (if protocol_failure then lit ''violated the result protocol'' else lit ''could not be projected'');
          message = lit ''The tool returned, but its result '' @ problem @ lit '' (phase='' @ phase @ lit '', error_type='' @
            error_type @ lit '', effect_state=unknown, completion_state=uncertain, retry_safety=do_not_retry_automatically). Do not retry solely because the result '' @
            (if protocol_failure then lit ''protocol validation'' else lit ''projection'') @ lit '' failed.''
      in new_outcome\<lparr>to_status := FAILED, to_summary := Some (lit ''Tool execution failed''), to_content := Some message,
           to_model_content := Some message, to_error_kind := Some Kind_Internal,
           to_metadata := [(''failure_phase'', Fact_Text phase), (''error_type'', Fact_Text error_type),
             (''effect_state'', Fact_Text (lit ''unknown'')), (''completion_state'', Fact_Text (lit ''uncertain'')),
             (''retry_safety'', Fact_Text (lit ''do_not_retry_automatically''))]\<rparr>)"

section \<open>Secondary failures in an outcome\<close>

record observer_diagnostic =
  od_point :: hook_point
  od_kind :: hook_kind
  od_error_type :: ptext
  od_phase :: "ptext option"

fun record_retained ::
    "hook_point \<Rightarrow> ptext \<Rightarrow> observer_diagnostic list \<Rightarrow> failure_collector \<Rightarrow> failure_collector \<times> bool" where
  "record_retained point default_phase [] c = (c, True)"
| "record_retained point default_phase (d # ds) c =
     (if od_point d \<noteq> point \<or> od_kind d \<noteq> OBSERVER \<or> od_error_type d = [] then (c, False)
      else record_retained point default_phase ds
        (record_failure (PStr (case od_phase d of None \<Rightarrow> default_phase | Some t \<Rightarrow> if t = [] then default_phase else t))
          (PStr (od_error_type d)) (PInt 1) c))"

text \<open>The flag says whether the diagnostics were well formed; otherwise a \<^verbatim>\<open>TypeError\<close> is raised.\<close>

definition record_hook_diagnostics ::
    "hook_point \<Rightarrow> ptext \<Rightarrow> observer_diagnostic list \<Rightarrow> failure_collector \<Rightarrow> failure_collector \<times> bool" where
  "record_hook_diagnostics point default_phase ds c =
     (let retained = take (post_effect_failure_limit - 1) ds
      in case record_retained point default_phase retained c of
           (c, False) \<Rightarrow> (c, False)
         | (c, True) \<Rightarrow> (omit_failures (PInt (int (length ds - length retained))) c, True))"

definition failure_line :: "ptext \<times> ptext \<times> nat \<Rightarrow> ptext" where
  "failure_line f = (case f of (phase, error_type, n) \<Rightarrow>
     lit ''phase='' @ phase @ lit '' error_type='' @ error_type @ lit '' count='' @ decimal n)"

definition with_post_effect_failures :: "failure_collector \<Rightarrow> tool_outcome \<Rightarrow> tool_outcome" where
  "with_post_effect_failures c out =
     (if collected c = [] then out
      else
        let lines = [lit ''[post-effect diagnostics]'',
              lit ''The tool outcome above remains authoritative. Do not retry the tool solely because secondary processing failed.'']
              @ map failure_line (collected c);
            projected = with_model_projection (appended_text (model_text out) (join [10] lines)) (to_truncation out) (to_archive out) out
        in projected\<lparr>to_metadata := dict_set ''post_effect_failures'' (Fact_Failures (collected c)) (to_metadata out)\<rparr>)"

section \<open>Facts about validation\<close>

definition encodable :: "ptext \<Rightarrow> bool" where
  "encodable t = list_all (\<lambda>c. \<not> is_surrogate c) t"

text \<open>Checking chunk by chunk is checking the whole text.\<close>

lemma validate_unbounded_iff: "validate_unbounded_text t = (if encodable t then Inr () else Inl Bad_Protocol)"
proof (induction t rule: validate_unbounded_text.induct)
  case (1 t)
  have "encodable t \<longleftrightarrow> encodable (take text_validation_chunk_chars t) \<and> encodable (drop text_validation_chunk_chars t)"
    unfolding encodable_def by (metis append_take_drop_id list_all_append)
  with 1 show ?case
    by (subst validate_unbounded_text.simps) (auto simp: encode_None encodable_def)
qed

lemma check_unbounded_iff: "check_unbounded ts = (if list_all encodable ts then Inr () else Inl Bad_Protocol)"
  by (induction ts) (auto simp: validate_unbounded_iff)

lemma normalize_projection_iff: "normalize_model_projection t = (if encodable t then Inr t else Inl Bad_Projection)"
  by (simp add: normalize_model_projection_def validate_unbounded_iff)

text \<open>Metadata built from facts has no enumeration members, so the copy is the metadata itself.\<close>

lemma fact_value_frozen: "frozen (fact_value f) = fact_value f"
proof -
  have r: "frozen (revision_dict v) = revision_dict v" for v by (simp add: revision_dict_def split: option.split)
  then have "frozen (receipt_dict v) = receipt_dict v" for v by (simp add: receipt_dict_def split: option.split)
  then show ?thesis by (cases f) auto
qed

lemma metadata_copy_is_metadata:
  "snapshot_json_value 0 (metadata_value md) new_budget = Inr (w, b) \<Longrightarrow> w = metadata_value md"
  using metadata_copied [of "metadata_value md"]
  by (auto simp: metadata_value_def fact_value_frozen split: if_splits)

lemma normalized:
  assumes "normalize_tool_outcome out = Inr o'"
  shows "o' = out\<lparr>to_model_content := Some (model_text out)\<rparr> \<and> check_tool_outcome_protocol out = Inr () \<and> encodable (model_text out)"
  using assms
  by (auto simp: normalize_tool_outcome_def normalize_projection_iff check_outcome_def split: sum.splits if_splits)

text \<open>Validating twice is validating once.\<close>

lemma normalize_idem:
  assumes "normalize_tool_outcome out = Inr o'"
  shows "normalize_tool_outcome o' = Inr o'"
proof -
  note n = normalized [OF assms]
  let ?o = "out\<lparr>to_model_content := Some (model_text out)\<rparr>"
  have fits: "facts_fit ?o" and un: "list_all encodable (unbounded_texts out)"
    and rest: "check_bounded 0 (bounded_texts out) = Inr ()"
      "\<exists>w. snapshot_json_value 0 (metadata_value (to_metadata out)) new_budget = Inr w"
    using n by (auto simp: check_tool_outcome_protocol_def check_unbounded_iff facts_fit_def status_consistent_def
        truncation_fits_def split: if_splits sum.splits option.splits)
  have "list_all encodable (unbounded_texts ?o)"
    using un n by (auto simp: unbounded_texts_def List.map_filter_def split: if_splits option.splits)
  moreover have "bounded_texts ?o = bounded_texts out" by (simp add: bounded_texts_def)
  ultimately have "check_tool_outcome_protocol ?o = Inr ()"
    using fits rest by (auto simp: check_tool_outcome_protocol_def check_unbounded_iff)
  moreover have "model_text ?o = model_text out" by (simp add: model_text_def)
  moreover have "check_outcome ?o = Inr ?o" using assms n by (auto simp: normalize_tool_outcome_def normalize_projection_iff split: sum.splits)
  ultimately show ?thesis using n by (simp add: normalize_tool_outcome_def normalize_projection_iff)
qed

lemma model_text_projection [simp]: "model_text (with_model_projection t tr a out) = t"
  by (simp add: model_text_def with_model_projection_def)

lemma text_fact_set: "text_fact (dict_set k (Fact_Text t) md) k' = (if k' = k then Some t else text_fact md k')"
  by (simp add: text_fact_def dict_get_set)

lemma dict_get_without: "k \<in> set runtime_metadata_keys \<Longrightarrow> dict_get (without_runtime_keys md) k = None"
  by (auto simp: without_runtime_keys_def dict_get_None_iff)

lemma failure_facts_replaced:
  assumes "\<not> success out" "(k, t) \<in> set (default_facts f)"
  shows "text_fact (to_metadata (with_failure_facts f True out)) k = Some t"
  using assms by (auto simp: with_failure_facts_def default_facts_def text_fact_set)

lemma failure_facts_keep_status [simp]:
  "to_status (with_failure_facts f r out) = to_status out" "success (with_failure_facts f r out) = success out"
  by (auto simp: with_failure_facts_def success_def)

lemma success_without_runtime_keys:
  "success out \<Longrightarrow> set (keys (to_metadata (with_failure_facts f True out))) \<inter> set runtime_metadata_keys = {}"
  by (auto simp: with_failure_facts_def without_runtime_keys_def)

lemma safe_names [simp]:
  "safe_failure_phase (PStr (lit ''not_started'')) = lit ''not_started''"
  "safe_failure_phase (PStr (lit ''unknown'')) = lit ''unknown''"
  "safe_failure_phase (PStr (lit ''uncertain'')) = lit ''uncertain''"
  "safe_failure_phase (PStr (lit ''do_not_retry_automatically'')) = lit ''do_not_retry_automatically''"
  by (simp_all add: safe_failure_phase_def phase_ok_def ascii_alnum_def lit_def)

lemma defaults_ok [simp]: "phase_ok (lit ''post_effect'')" "error_type_ok (lit ''Exception'')"
  by (simp_all add: phase_ok_def error_type_ok_def ascii_alnum_def lit_def)

lemma safe_phase_safe: "safe_failure_phase (PStr (safe_failure_phase v)) = safe_failure_phase v"
  by (cases v) (auto simp: safe_failure_phase_def)

lemma safe_error_type_safe: "safe_failure_error_type (PStr (safe_failure_error_type v)) = safe_failure_error_type v"
  by (cases v) (auto simp: safe_failure_error_type_def)

lemma default_keys: "map fst (default_facts f) = failure_fact_keys"
  by (simp add: default_facts_def failure_fact_keys_def)

lemma default_key: "(k, t) \<in> set (default_facts f) \<Longrightarrow> k \<in> set failure_fact_keys"
  using default_keys [of f] by (metis fst_conv image_eqI set_map)

lemma returned_facts_safe: "list_all (\<lambda>(k, t). canonical_fact k t) (default_facts (returned_facts n))"
  by (simp add: default_facts_def canonical_fact_def safe_phase_safe safe_error_type_safe returned_facts_def Let_def)

lemma returned_facts_values:
  "(''retry_safety'', lit ''do_not_retry_automatically'') \<in> set (default_facts (returned_facts n))"
  "(''effect_state'', if to_status n = DENIED then lit ''not_started'' else lit ''unknown'') \<in> set (default_facts (returned_facts n))"
  "(''completion_state'', if to_status n = DENIED then lit ''not_started'' else lit ''uncertain'') \<in> set (default_facts (returned_facts n))"
  by (simp_all add: default_facts_def returned_facts_def Let_def)

lemma label_key: "(l, k) \<in> set fact_labels \<Longrightarrow> k \<in> set failure_fact_keys"
proof -
  have "map snd fact_labels = failure_fact_keys" by (simp add: fact_labels_def failure_fact_keys_def)
  then show "(l, k) \<in> set fact_labels \<Longrightarrow> k \<in> set failure_fact_keys" by (metis image_eqI set_map snd_conv)
qed

lemma safe_text: "safe_metadata_fact md k \<noteq> None \<Longrightarrow> text_fact md k \<noteq> None"
  by (cases "text_fact md k") (simp_all add: safe_metadata_fact_def)

lemma facts_line_total:
  "\<forall>(l, k)\<in>set labels. text_fact md k \<noteq> None \<Longrightarrow> \<exists>line. facts_line md labels = Inr line"
  by (induction labels) fastforce+

section \<open>Properties\<close>

definition ex_context :: "tool_outcome \<Rightarrow> ptext \<Rightarrow> after_context" where
  "ex_context out res = \<lparr>ac_hook_point = AFTER_TOOL_EXECUTE, ac_agent_id = None, ac_session_generation = None,
     ac_session_id = None, ac_turn_id = None, ac_trace_id = None, ac_round_index = None,
     ac_tool_call = \<lparr>ct_id = [49], ct_name = [116], ct_arguments = []\<rparr>, ac_result = res, ac_outcome = out\<rparr>"

text \<open>C34: An after-tool hook keeps the primary facts: when what a hook returns is accepted, the outcome has the status,
  error kind, texts, diff, exit code, duration, images and retention of the tool's own outcome, its diagnostics and
  metadata extend the original ones, no fact that only the runtime may set was added or changed, and the
  model sees the text the hook returned.\<close>

theorem hook_keeps_primary_facts:
  assumes "accepted_after_transform same original transformed = Inr out"
  shows "same_primary_facts out (ac_outcome original) \<and>
    (\<exists>added. to_diagnostics out = to_diagnostics (ac_outcome original) @ added) \<and>
    (\<forall>k. dict_get (to_metadata (ac_outcome original)) k \<noteq> None \<or> k \<in> set runtime_metadata_keys \<longrightarrow>
       dict_get (to_metadata out) k = dict_get (to_metadata (ac_outcome original)) k) \<and>
    model_text out = ac_result transformed"
proof -
  let ?before = "ac_outcome original"
  from assms have facts: "same_primary_facts out ?before"
      "take (length (to_diagnostics ?before)) (to_diagnostics out) = to_diagnostics ?before"
      "list_all (\<lambda>(k, v). dict_get (to_metadata out) k = Some v) (to_metadata ?before)"
      "\<not> list_ex (\<lambda>k. k \<notin> set (keys (to_metadata ?before)) \<and> k \<in> set runtime_metadata_keys) (keys (to_metadata out))"
      "model_text out = ac_result transformed"
    by (auto simp: accepted_after_transform_def Let_def normalize_projection_iff split: if_splits)
  have keep: "dict_get (to_metadata out) k = Some v" if "dict_get (to_metadata ?before) k = Some v" for k v
    using facts(3) dict_get_SomeD [OF that] by (auto simp: list_all_iff)
  moreover have "dict_get (to_metadata out) k = None"
    if "dict_get (to_metadata ?before) k = None" "k \<in> set runtime_metadata_keys" for k
    using facts(4) that by (auto simp: list_ex_iff dict_get_None_iff)
  moreover have "\<exists>added. to_diagnostics out = to_diagnostics ?before @ added"
    using facts(2) by (metis append_take_drop_id)
  ultimately show ?thesis using facts(1,5) by (metis not_Some_eq)
qed

theorem hook_keeps_primary_facts_witness:
  "\<exists>out. accepted_after_transform False (ex_context new_outcome [])
      (ex_context (new_outcome\<lparr>to_metadata := [(''note'', Fact_Text [110])]\<rparr>) [111, 107]) = Inr out \<and>
     same_primary_facts out new_outcome \<and> model_text out = [111, 107]"
proof -
  have "\<exists>out. accepted_after_transform False (ex_context new_outcome [])
      (ex_context (new_outcome\<lparr>to_metadata := [(''note'', Fact_Text [110])]\<rparr>) [111, 107]) = Inr out"
    by (simp add: accepted_after_transform_def ex_context_def same_context_def called_signature_def metadata_copied
        normalize_tool_outcome_def check_tool_outcome_protocol_def check_unbounded_iff normalize_projection_iff
        facts_fit_def status_consistent_def optional_fits_def retention_fits_def tool_diagnostic_limit_def
        new_outcome_def unbounded_texts_def bounded_texts_def map_filter_simps encodable_def is_surrogate_def
        metadata_value_def metadata_limits is_key_def byte_len_def utf8_len_def lit_def model_text_def detailed_text_def
        detailed_sections_def opt_text_def defer_status_def pt_strip_def pt_rstrip_def check_outcome_def success_def
        same_primary_facts_def with_model_projection_def runtime_metadata_keys_def failure_fact_keys_def
        del: snapshot_json_value.simps)
  then obtain out where out: "accepted_after_transform False (ex_context new_outcome [])
      (ex_context (new_outcome\<lparr>to_metadata := [(''note'', Fact_Text [110])]\<rparr>) [111, 107]) = Inr out"
    by blast
  from hook_keeps_primary_facts [OF this] out show ?thesis by (auto simp: ex_context_def)
qed

text \<open>A failed tool is never reported as safe to retry: whatever a tool returned, when it is accepted as a failure its facts
  say not to retry automatically, its effect is unknown unless the call was denied, every canonical fact is
  present and safe, and the line of facts can be written for the model; an accepted success has none of these facts.\<close>

theorem failures_are_not_retry_safe:
  assumes "coerce_returned_outcome raw seconds = Inr out"
  shows "(success out \<longrightarrow> set (keys (to_metadata out)) \<inter> set runtime_metadata_keys = {}) \<and>
    (\<not> success out \<longrightarrow>
       text_fact (to_metadata out) ''retry_safety'' = Some (lit ''do_not_retry_automatically'') \<and>
       text_fact (to_metadata out) ''effect_state'' = Some (if to_status out = DENIED then lit ''not_started'' else lit ''unknown'') \<and>
       text_fact (to_metadata out) ''completion_state'' = Some (if to_status out = DENIED then lit ''not_started'' else lit ''uncertain'') \<and>
       list_all (\<lambda>k. safe_metadata_fact (to_metadata out) k \<noteq> None) failure_fact_keys \<and>
       (\<exists>o'. with_canonical_failure_projection out = Inr o'))"
proof -
  from assms obtain n where out: "out = returned_projection n"
    by (auto simp: coerce_returned_outcome_def)
  let ?f = "returned_facts n" and ?p = "with_failure_facts (returned_facts n) True n"
  have same: "to_status out = to_status n" "success out = success n"
    unfolding out returned_projection_def Let_def by (auto simp: success_def split: option.splits)
  have "text_fact (to_metadata out) k = text_fact (to_metadata ?p) k" if "k \<in> set failure_fact_keys" for k
    using that unfolding out returned_projection_def Let_def
    by (auto simp: text_fact_set failure_fact_keys_def split: option.splits)
  then have fact: "text_fact (to_metadata out) k = Some t"
    if "\<not> success n" "(k, t) \<in> set (default_facts ?f)" for k t
    using failure_facts_replaced [OF that] default_key [OF that(2)] by simp
  show ?thesis
  proof (cases "success n")
    case True
    then have "out = ?p" unfolding out returned_projection_def Let_def by (auto split: option.splits)
    with True same success_without_runtime_keys [of n ?f] show ?thesis by simp
  next
    case False
    have safe: "safe_metadata_fact (to_metadata out) k \<noteq> None" if k: "k \<in> set failure_fact_keys" for k
    proof -
      from k obtain t where "(k, t) \<in> set (default_facts ?f)" unfolding default_keys [of ?f, symmetric] by auto
      with fact [OF False this] returned_facts_safe [of n] show ?thesis by (auto simp: list_all_iff safe_metadata_fact_def)
    qed
    then have "\<exists>line. facts_line (to_metadata out) fact_labels = Inr line"
      using label_key safe_text by (intro facts_line_total) blast
    then have "\<exists>o'. with_canonical_failure_projection out = Inr o'"
      by (auto simp: with_canonical_failure_projection_def)
    with False safe same returned_facts_values [of n, THEN fact [OF False]] show ?thesis
      by (simp add: list_all_iff)
  qed
qed

theorem failures_are_not_retry_safe_witness:
  "\<exists>out. coerce_returned_outcome (Returned_Outcome (new_outcome\<lparr>to_status := FAILED, to_error_kind := Some Kind_Execution,
        to_metadata := [(''retry_safety'', Fact_Text (lit ''safe_to_retry''))]\<rparr>)) 1 = Inr out \<and> \<not> success out \<and>
     text_fact (to_metadata out) ''retry_safety'' = Some (lit ''do_not_retry_automatically'')"
proof -
  let ?o = "new_outcome\<lparr>to_status := FAILED, to_error_kind := Some Kind_Execution,
        to_metadata := [(''retry_safety'', Fact_Text (lit ''safe_to_retry''))]\<rparr>"
  have "normalize_tool_outcome ?o = Inr (?o\<lparr>to_model_content := Some []\<rparr>)"
    by (simp add: metadata_copied
        normalize_tool_outcome_def check_tool_outcome_protocol_def check_unbounded_iff normalize_projection_iff
        facts_fit_def status_consistent_def optional_fits_def retention_fits_def tool_diagnostic_limit_def
        new_outcome_def unbounded_texts_def bounded_texts_def map_filter_simps encodable_def is_surrogate_def
        metadata_value_def metadata_limits is_key_def byte_len_def utf8_len_def lit_def model_text_def detailed_text_def
        detailed_sections_def opt_text_def defer_status_def pt_strip_def pt_rstrip_def check_outcome_def success_def
        del: snapshot_json_value.simps)
  then have out: "coerce_returned_outcome (Returned_Outcome ?o) 1 = Inr (returned_projection (?o\<lparr>to_model_content := Some []\<rparr>))"
    by (simp add: coerce_returned_outcome_def)
  moreover have "\<not> success (returned_projection (?o\<lparr>to_model_content := Some []\<rparr>))"
    by (simp add: returned_projection_def Let_def reported_effect_def text_fact_def dict_get_def success_def with_failure_facts_def)
  ultimately show ?thesis using failures_are_not_retry_safe [OF out] by blast
qed

end
