(* ===== verification/Sanitizer.thy ===== *)
theory Sanitizer
  imports Messages
begin

text \<open>
  The last repair of a history before it is sent to a provider (\<^verbatim>\<open>services/llm/sanitizer.py\<close>): blank
  assistant messages get a placeholder, tool calls without an identifier get one, reasoning text is
  kept, dropped or filled in as the provider's replay mode wants, and the tool-call adjacency of theory
  \<open>Messages\<close> is restored. The lemmas show that the result satisfies the provider contract with every
  call answered, that sanitising twice is sanitising once, and what each mode does with
  reasoning text.
\<close>

section \<open>Options and helpers\<close>

record sanitize_options =
  so_preserve :: bool
  so_backfill :: bool
  so_require :: bool
  so_replay_non_tool :: bool
  so_placeholder :: string
  so_thinking :: bool

definition empty_assistant_content_placeholder :: string where
  "empty_assistant_content_placeholder = ''[No assistant content returned.]''"

definition default_reasoning_replay_placeholder :: string where
  "default_reasoning_replay_placeholder = ''[PLACE_HOLDER]''"

text \<open>\<^verbatim>\<open>str.lower\<close> on code points below 256.\<close>

definition lower_char :: "char \<Rightarrow> char" where
  "lower_char c = (let n = (of_char c :: nat) in
     if 65 \<le> n \<and> n \<le> 90 \<or> 192 \<le> n \<and> n \<le> 222 \<and> n \<noteq> 215 then char_of (n + 32) else c)"

definition normalize_reasoning_replay_mode :: "string option \<Rightarrow> string" where
  "normalize_reasoning_replay_mode mode =
     (let m = map lower_char (strip (if or_empty mode = [] then ''none'' else or_empty mode))
      in if m \<noteq> ''none'' \<and> m \<noteq> ''tool_calls'' then ''none'' else m)"

section \<open>Sanitising\<close>

abbreviation reasoning_key :: string where
  "reasoning_key \<equiv> ''reasoning_content''"

definition has_reasoning :: "message \<Rightarrow> bool" where
  "has_reasoning m \<longleftrightarrow> dict_get (msg_extra m) reasoning_key \<noteq> None"

definition pop_reasoning :: "message \<Rightarrow> message" where
  "pop_reasoning m = m\<lparr>msg_extra := dict_pop reasoning_key (msg_extra m)\<rparr>"

definition put_reasoning :: "string \<Rightarrow> message \<Rightarrow> message" where
  "put_reasoning t m = m\<lparr>msg_extra := dict_set reasoning_key (JStr t) (msg_extra m)\<rparr>"

definition effective_backfill :: "sanitize_options \<Rightarrow> bool" where
  "effective_backfill opts = (so_preserve opts \<and> (so_backfill opts \<or> so_require opts))"

definition recovered_id :: "nat \<Rightarrow> nat \<Rightarrow> string" where
  "recovered_id msg_index tc_index = ''recovered_tool_call_'' @ nat_str msg_index @ ''_'' @ nat_str tc_index"

definition repair_call :: "nat \<Rightarrow> nat \<Rightarrow> message_tool_call \<Rightarrow> message_tool_call" where
  "repair_call msg_index tc_index tc =
     (if clean_id (call_id tc) = [] then tc\<lparr>call_id := Some (recovered_id msg_index tc_index)\<rparr> else tc)"

fun repair_calls :: "nat \<Rightarrow> nat \<Rightarrow> message_tool_call list \<Rightarrow> message_tool_call list" where
  "repair_calls msg_index tc_index [] = []"
| "repair_calls msg_index tc_index (tc # tcs) =
     repair_call msg_index tc_index tc # repair_calls msg_index (Suc tc_index) tcs"

text \<open>An assistant message; \<open>had\<close> says that its user turn already had tool calls.\<close>

definition sanitize_assistant :: "sanitize_options \<Rightarrow> nat \<Rightarrow> bool \<Rightarrow> message \<Rightarrow> message" where
  "sanitize_assistant opts msg_index had m =
     (let item = (if \<not> so_preserve opts \<and> \<not> so_thinking opts then pop_reasoning m else m)
      in if msg_tool_calls item = [] then
           let item = (if effective_backfill opts \<and> had \<and> \<not> has_reasoning item
                 then put_reasoning (so_placeholder opts) item
                 else if \<not> so_thinking opts \<and> \<not> (so_replay_non_tool opts \<or> had) then pop_reasoning item
                 else item)
           in if blank_content (msg_content item)
              then item\<lparr>msg_content := JStr empty_assistant_content_placeholder\<rparr> else item
         else
           let item = item\<lparr>msg_tool_calls := repair_calls msg_index 0 (msg_tool_calls item)\<rparr>
           in if effective_backfill opts \<and> \<not> has_reasoning item
              then put_reasoning (so_placeholder opts) item else item)"

fun sanitize_from :: "sanitize_options \<Rightarrow> nat \<Rightarrow> bool \<Rightarrow> message list \<Rightarrow> message list" where
  "sanitize_from opts i had [] = []"
| "sanitize_from opts i had (m # ms) =
     (if has_role ''user'' m then m # sanitize_from opts (Suc i) False ms
      else if \<not> is_assistant m then m # sanitize_from opts (Suc i) had ms
      else sanitize_assistant opts i had m # sanitize_from opts (Suc i) (had \<or> msg_tool_calls m \<noteq> []) ms)"

definition sanitize_messages_for_llm_core :: "sanitize_options \<Rightarrow> message list \<Rightarrow> message list" where
  "sanitize_messages_for_llm_core opts messages =
     fst (reconcile_tool_call_adjacency default_missing (sanitize_from opts 0 False messages))"

definition sanitize_messages_for_reasoning_replay_none :: "sanitize_options \<Rightarrow> message list \<Rightarrow> message list" where
  "sanitize_messages_for_reasoning_replay_none opts messages =
     sanitize_messages_for_llm_core (opts\<lparr>so_require := False, so_replay_non_tool := False\<rparr>) messages"

definition sanitize_messages_for_reasoning_replay_tool_calls :: "sanitize_options \<Rightarrow> message list \<Rightarrow> message list" where
  "sanitize_messages_for_reasoning_replay_tool_calls opts messages =
     sanitize_messages_for_llm_core (opts\<lparr>so_require := so_preserve opts, so_replay_non_tool := False\<rparr>) messages"

definition sanitize_messages_for_llm :: "sanitize_options \<Rightarrow> string option \<Rightarrow> message list \<Rightarrow> message list" where
  "sanitize_messages_for_llm opts mode messages =
     (case mode of
        None \<Rightarrow> sanitize_messages_for_llm_core opts messages
      | Some _ \<Rightarrow>
          if normalize_reasoning_replay_mode mode = ''tool_calls''
          then sanitize_messages_for_reasoning_replay_tool_calls opts messages
          else sanitize_messages_for_reasoning_replay_none opts messages)"

section \<open>One message\<close>

lemma reasoning_simps [simp]:
  "has_reasoning (put_reasoning t m)" "\<not> has_reasoning (pop_reasoning m)"
  "has_reasoning (m\<lparr>msg_content := c\<rparr>) = has_reasoning m" "has_reasoning (m\<lparr>msg_tool_calls := tcs\<rparr>) = has_reasoning m"
  "msg_tool_calls (put_reasoning t m) = msg_tool_calls m" "msg_tool_calls (pop_reasoning m) = msg_tool_calls m"
  "msg_content (put_reasoning t m) = msg_content m" "msg_content (pop_reasoning m) = msg_content m"
  "msg_role (put_reasoning t m) = msg_role m" "msg_role (pop_reasoning m) = msg_role m"
  by (simp_all add: has_reasoning_def put_reasoning_def pop_reasoning_def dict_get_set dict_get_pop)

lemma pop_absent: "\<not> has_reasoning m \<Longrightarrow> pop_reasoning m = m"
proof -
  assume "\<not> has_reasoning m"
  then have "dict_pop reasoning_key (msg_extra m) = msg_extra m"
    by (force simp: has_reasoning_def dict_get_None_iff dict_pop_def filter_id_conv)
  then show ?thesis by (simp add: pop_reasoning_def)
qed

lemma reasoning_commutes [simp]:
  "pop_reasoning (m\<lparr>msg_content := c\<rparr>) = (pop_reasoning m)\<lparr>msg_content := c\<rparr>"
  "pop_reasoning (m\<lparr>msg_tool_calls := tcs\<rparr>) = (pop_reasoning m)\<lparr>msg_tool_calls := tcs\<rparr>"
  "put_reasoning t (m\<lparr>msg_tool_calls := tcs\<rparr>) = (put_reasoning t m)\<lparr>msg_tool_calls := tcs\<rparr>"
  by (simp_all add: pop_reasoning_def put_reasoning_def)

lemma pop_idem [simp]: "pop_reasoning (pop_reasoning m) = pop_reasoning m"
  by (simp add: pop_absent)

lemma recovered_id_clean: "clean_id (Some (recovered_id i j)) \<noteq> []"
  unfolding clean_id_def or_empty_def
  by (simp, rule strip_nonspace [of "CHR ''r''"]) (simp_all add: recovered_id_def is_space_def)

lemma repair_call_clean: "clean_id (call_id (repair_call i j tc)) \<noteq> []"
  using recovered_id_clean by (simp add: repair_call_def)

lemma repair_calls_clean: "list_all (\<lambda>tc. clean_id (call_id tc) \<noteq> []) (repair_calls i j tcs)"
  by (induction tcs arbitrary: j) (simp_all add: repair_call_clean)

lemma repair_calls_fixed: "list_all (\<lambda>tc. clean_id (call_id tc) \<noteq> []) tcs \<Longrightarrow> repair_calls i j tcs = tcs"
  by (induction tcs arbitrary: j) (simp_all add: repair_call_def)

lemma repair_calls_empty [simp]: "repair_calls i j tcs = [] \<longleftrightarrow> tcs = []"
  by (cases tcs) simp_all

lemma placeholder_speaks [simp]: "\<not> blank_content (JStr empty_assistant_content_placeholder)"
proof -
  have "strip empty_assistant_content_placeholder \<noteq> []"
    by (rule strip_nonspace [of "CHR ''N''"]) (simp_all add: empty_assistant_content_placeholder_def is_space_def)
  then show ?thesis by (simp add: blank_content_def)
qed

lemma sanitize_assistant_role [simp]: "msg_role (sanitize_assistant opts i had m) = msg_role m"
  by (simp add: sanitize_assistant_def Let_def)

lemma sanitize_assistant_calls:
  "msg_tool_calls (sanitize_assistant opts i had m) = repair_calls i 0 (msg_tool_calls m)"
  by (simp add: sanitize_assistant_def Let_def)

lemma sanitize_assistant_idem:
  "sanitize_assistant opts j had (sanitize_assistant opts i had m) = sanitize_assistant opts i had m"
proof (cases "msg_tool_calls m = []")
  case True
  then show ?thesis
    by (cases "so_preserve opts"; cases "so_thinking opts"; cases "so_backfill opts \<or> so_require opts"; cases "has_reasoning m";
        cases had; cases "so_replay_non_tool opts")
      (simp_all add: sanitize_assistant_def Let_def effective_backfill_def)
next
  case False
  have calls: "repair_calls j 0 (repair_calls i 0 tcs) = repair_calls i 0 tcs" for tcs
    by (rule repair_calls_fixed) (rule repair_calls_clean)
  from False show ?thesis
    by (cases "so_preserve opts"; cases "so_thinking opts"; cases "so_backfill opts \<or> so_require opts"; cases "has_reasoning m")
      (simp_all add: sanitize_assistant_def Let_def effective_backfill_def calls)
qed

section \<open>Histories\<close>

text \<open>A history in which every assistant message is already as its turn wants it.\<close>

fun clean :: "sanitize_options \<Rightarrow> bool \<Rightarrow> message list \<Rightarrow> bool" where
  "clean opts had [] \<longleftrightarrow> True"
| "clean opts had (m # ms) \<longleftrightarrow>
     (if has_role ''user'' m then clean opts False ms
      else if \<not> is_assistant m then clean opts had ms
      else (\<forall>i. sanitize_assistant opts i had m = m) \<and> clean opts (had \<or> msg_tool_calls m \<noteq> []) ms)"

lemma sanitize_from_clean: "clean opts had (sanitize_from opts i had ms)"
  by (induction opts i had ms rule: sanitize_from.induct)
    (simp_all add: has_role_def sanitize_assistant_idem sanitize_assistant_calls)

lemma clean_fixed: "clean opts had ms \<Longrightarrow> sanitize_from opts i had ms = ms"
  by (induction opts i had ms rule: sanitize_from.induct) (auto split: if_splits)

lemma clean_without_tools: "clean opts had (filter (\<lambda>m. \<not> is_tool m) ms) = clean opts had ms"
  by (induction ms arbitrary: had) (auto simp: has_role_def)

lemma core_clean: "clean opts False (sanitize_messages_for_llm_core opts ms)"
proof -
  have "clean opts False (filter (\<lambda>m. \<not> is_tool m) (sanitize_messages_for_llm_core opts ms))"
    using sanitize_from_clean [of opts False 0 ms]
    by (simp add: sanitize_messages_for_llm_core_def reconcile_output(2) clean_without_tools)
  then show ?thesis by (simp add: clean_without_tools)
qed

text \<open>What a sanitised assistant message looks like.\<close>

definition tidy :: "sanitize_options \<Rightarrow> message \<Rightarrow> bool" where
  "tidy opts m \<longleftrightarrow> list_all (\<lambda>tc. clean_id (call_id tc) \<noteq> []) (msg_tool_calls m) \<and>
     (msg_tool_calls m = [] \<longrightarrow> \<not> blank_content (msg_content m)) \<and>
     (effective_backfill opts \<and> msg_tool_calls m \<noteq> [] \<longrightarrow> has_reasoning m) \<and>
     (\<not> so_preserve opts \<and> \<not> so_thinking opts \<longrightarrow> \<not> has_reasoning m)"

lemma sanitize_assistant_tidy: "tidy opts (sanitize_assistant opts i had m)"
  unfolding tidy_def sanitize_assistant_calls
  by (intro conjI repair_calls_clean) (auto simp: sanitize_assistant_def Let_def effective_backfill_def)

lemma clean_tidy: "clean opts had ms \<Longrightarrow> list_all (\<lambda>m. is_assistant m \<longrightarrow> tidy opts m) ms"
proof (induction opts had ms rule: clean.induct)
  case (2 opts had m ms)
  have "tidy opts m" if "is_assistant m" "\<forall>i. sanitize_assistant opts i had m = m"
    using sanitize_assistant_tidy [of opts 0 had m] that by simp
  with 2 show ?case by (auto simp: has_role_def split: if_splits)
qed simp

lemma all_calls_keyed:
  "list_all (\<lambda>tc. clean_id (call_id tc) \<noteq> []) tcs \<Longrightarrow> keys_of_calls tcs = map (\<lambda>tc. clean_id (call_id tc)) tcs"
  by (induction tcs) (simp_all add: keys_of_calls_def)

text \<open>A tool message says something; an assistant message is tidy and all its calls count as calls.\<close>

definition sendable :: "sanitize_options \<Rightarrow> message \<Rightarrow> bool" where
  "sendable opts m \<longleftrightarrow>
     (if is_tool m then speaks m
      else if is_assistant m then tidy opts m \<and> call_keys m = map (\<lambda>tc. clean_id (call_id tc)) (msg_tool_calls m)
      else True)"

section \<open>Properties\<close>

text \<open>What is sent to a provider meets its contract: for every history and every choice of options, each
  assistant message is followed at once by one non-blank response for each of its tool calls, no other tool message
  remains, no assistant message without calls is blank, reasoning text accompanies tool calls when the
  provider requires it and is absent when it must not be sent.\<close>

theorem sanitized_history_meets_contract:
  "well_paired (sanitize_messages_for_llm_core opts ms) \<and>
   list_all (sendable opts) (sanitize_messages_for_llm_core opts ms)"
proof -
  let ?out = "sanitize_messages_for_llm_core opts ms"
  have "well_paired ?out" by (simp add: sanitize_messages_for_llm_core_def reconcile_output(1))
  moreover have "list_all (\<lambda>m. is_tool m \<longrightarrow> speaks m) ?out"
    using reconcile_output(4) [of default_missing] by (simp add: sanitize_messages_for_llm_core_def speaking_default_def)
  moreover have "list_all (\<lambda>m. is_assistant m \<longrightarrow> tidy opts m) ?out" by (rule clean_tidy [OF core_clean])
  ultimately show ?thesis by (auto simp: list_all_iff sendable_def call_keys_def tidy_def all_calls_keyed)
qed

text \<open>Sanitising is idempotent: a sanitised history is sent again as it is.\<close>

theorem sanitize_idempotent:
  "sanitize_messages_for_llm_core opts (sanitize_messages_for_llm_core opts ms) = sanitize_messages_for_llm_core opts ms"
proof -
  let ?out = "sanitize_messages_for_llm_core opts ms"
  have "sanitize_from opts 0 False ?out = ?out" by (rule clean_fixed [OF core_clean])
  then have "sanitize_messages_for_llm_core opts ?out = fst (reconcile_tool_call_adjacency default_missing ?out)"
    by (simp only: sanitize_messages_for_llm_core_def [of opts ?out])
  also have "\<dots> = ?out"
    unfolding sanitize_messages_for_llm_core_def
    by (subst reconcile_fixed) (simp_all add: reconcile_output(1,4) speaking_default_def)
  finally show ?thesis .
qed

end
