(* ===== verification/Replay.thy ===== *)
theory Replay
  imports History_Ledger
begin

text \<open>
  Canonical replay of a conversation (\<^verbatim>\<open>domain/context/replay.py\<close>): the canonical form of JSON values, the
  checks on stored provider messages and replay payloads, the replay envelope with its two hashes, and
  the index that traces each message of a request to the history event it came from. Text is below code
  point 256, where Unicode's normal form C changes nothing, so of the normalisation of strings
  the line ends remain. The digest of a canonical value (SHA-256 of its JSON text) and Python's \<^verbatim>\<open>str()\<close>
  on values that are not text are arguments. An event tuple lists
  events with their object identities. The lemmas show when an envelope validates after it was made and after it
  was stored and loaded, and that the incremental index answers as one built from scratch.
\<close>

section \<open>The canonical form\<close>

definition token_count_key :: string where
  "token_count_key = ''_rc_token_count''"

fun crlf_to_lf :: "string \<Rightarrow> string" where
  "crlf_to_lf [] = []"
| "crlf_to_lf [c] = [c]"
| "crlf_to_lf (c # d # s) =
     (if c = CHR 0x0D \<and> d = CHR 0x0A then CHR 0x0A # crlf_to_lf s else c # crlf_to_lf (d # s))"

text \<open>Values keep their keys, so sorting the items before or after their values are made canonical is the same.\<close>

fun canonicalize :: "json \<Rightarrow> json" where
  "canonicalize (JObj fs) =
     JObj (filter (\<lambda>(k, v). k \<noteq> token_count_key) (sort_key fst (map (\<lambda>(k, v). (k, canonicalize v)) fs)))"
| "canonicalize (JList vs) = JList (map canonicalize vs)"
| "canonicalize (JStr s) = JStr (crlf_to_lf s)"
| "canonicalize v = v"

definition content_hash :: "(json \<Rightarrow> string) \<Rightarrow> json \<Rightarrow> string" where
  "content_hash digest v = digest (canonicalize v)"

section \<open>Checks on stored values\<close>

fun first_error :: "('e, unit) result list \<Rightarrow> ('e, unit) result" where
  "first_error [] = Inr ()"
| "first_error (r # rs) = bind_result r (\<lambda>_. first_error rs)"

definition ensure :: "bool \<Rightarrow> string \<Rightarrow> (string, unit) result" where
  "ensure b message = (if b then Inr () else Inl message)"

fun validate_json_value :: "nat \<Rightarrow> json \<Rightarrow> (string, unit) result"
  and validate_json_list :: "nat \<Rightarrow> json list \<Rightarrow> (string, unit) result"
  and validate_json_fields :: "nat \<Rightarrow> (string \<times> json) list \<Rightarrow> (string, unit) result"
  where
  "validate_json_value depth (JList vs) =
     (if 32 < depth then Inl ''provider value nesting is too deep'' else validate_json_list (depth + 1) vs)"
| "validate_json_value depth (JObj fs) =
     (if 32 < depth then Inl ''provider value nesting is too deep'' else validate_json_fields (depth + 1) fs)"
| "validate_json_value depth v =
     (if 32 < depth then Inl ''provider value nesting is too deep'' else Inr ())"
| "validate_json_list depth [] = Inr ()"
| "validate_json_list depth (v # vs) =
     bind_result (validate_json_value depth v) (\<lambda>_. validate_json_list depth vs)"
| "validate_json_fields depth [] = Inr ()"
| "validate_json_fields depth ((k, v) # fs) =
     bind_result (validate_json_value depth v) (\<lambda>_. validate_json_fields depth fs)"

definition has_key :: "json \<Rightarrow> string \<Rightarrow> bool" where
  "has_key v k = (case v of JObj fs \<Rightarrow> k \<in> set (map fst fs) | _ \<Rightarrow> False)"

definition is_object :: "json \<Rightarrow> bool" where
  "is_object v = (case v of JObj _ \<Rightarrow> True | _ \<Rightarrow> False)"

definition is_text :: "json \<Rightarrow> bool" where
  "is_text v = (case v of JStr _ \<Rightarrow> True | _ \<Rightarrow> False)"

definition nonempty_text :: "json \<Rightarrow> bool" where
  "nonempty_text v = (case v of JStr s \<Rightarrow> s \<noteq> [] | _ \<Rightarrow> False)"

definition list_items :: "json \<Rightarrow> json list" where
  "list_items v = (case v of JList vs \<Rightarrow> vs | _ \<Rightarrow> [])"

definition is_list :: "json \<Rightarrow> bool" where
  "is_list v = (case v of JList _ \<Rightarrow> True | _ \<Rightarrow> False)"

definition provider_message_roles :: "string list" where
  "provider_message_roles = [''system'', ''developer'', ''user'', ''assistant'', ''tool'']"

definition max_replay_counter :: int where
  "max_replay_counter = 2 ^ 63 - 1"

definition validate_part :: "json \<Rightarrow> (string, unit) result" where
  "validate_part part = first_error
     [ensure (is_object part) ''provider content part must be an object'',
      ensure (nonempty_text (jget part ''type'')) ''provider content part type is invalid'',
      ensure (jget part ''type'' \<notin> {JStr ''text'', JStr ''input_text'', JStr ''output_text''} \<or> is_text (jget part ''text''))
        ''provider text content is invalid'',
      validate_json_value 0 part]"

definition validate_call :: "json \<Rightarrow> (string, unit) result" where
  "validate_call call =
     (let function = jget call ''function''
      in first_error
        [ensure (is_object call) ''provider tool call must be an object'',
         ensure (nonempty_text (jget call ''id'') \<and> (\<not> has_key call ''type'' \<or> jget call ''type'' = JStr ''function'') \<and>
             is_object function \<and> nonempty_text (jget function ''name'') \<and> is_text (jget function ''arguments''))
           ''provider function tool call is invalid'',
         validate_json_value 0 call])"

definition validate_provider_message :: "json \<Rightarrow> (string, unit) result" where
  "validate_provider_message message =
     (let role = jget message ''role''; content = jget message ''content''; tool_call_id = jget message ''tool_call_id'';
          name = jget message ''name''; tool_calls = jget message ''tool_calls''
      in first_error
        ([ensure (is_object message) ''provider message must be an object'',
          ensure (role \<in> JStr ` set provider_message_roles) ''provider message role is invalid'',
          ensure (has_key message ''content'') ''provider message content is missing'',
          ensure (content = JNull \<or> is_text content \<or> is_list content) ''provider message content is invalid'',
          ensure (content \<noteq> JNull \<or> role = JStr ''assistant'') ''only assistant content may be null'',
          first_error (map validate_part (list_items content)),
          ensure (tool_call_id = JNull \<or> nonempty_text tool_call_id) ''provider tool_call_id is invalid'',
          ensure (role \<noteq> JStr ''tool'' \<or> is_text tool_call_id) ''tool message requires tool_call_id'',
          ensure (name = JNull \<or> nonempty_text name) ''provider message name is invalid''] @
         (if tool_calls = JNull then []
          else [ensure (role = JStr ''assistant'' \<and> is_list tool_calls) ''provider tool_calls is invalid'',
                first_error (map validate_call (list_items tool_calls))]) @
         [validate_json_value 0 message]))"

definition hex_hash :: "json \<Rightarrow> bool" where
  "hex_hash v = (case v of
     JStr s \<Rightarrow> length s = 64 \<and> list_all (\<lambda>c. CHR ''0'' \<le> c \<and> c \<le> CHR ''9'' \<or> CHR ''a'' \<le> c \<and> c \<le> CHR ''f'') s
   | _ \<Rightarrow> False)"

definition validate_tool :: "json \<Rightarrow> (string, unit) result" where
  "validate_tool tool =
     (let tool_type = jget tool ''type''; function = jget tool ''function''
      in first_error
        ([ensure (tool_type = JNull \<or> nonempty_text tool_type) ''replay tool type is invalid''] @
         (if tool_type = JStr ''function'' \<or> has_key tool ''function''
          then [ensure (is_object function \<and> nonempty_text (jget function ''name'')) ''replay function tool is invalid'',
                ensure (jget function ''description'' = JNull \<or> is_text (jget function ''description''))
                  ''replay tool description is invalid'',
                ensure (jget function ''parameters'' = JNull \<or> is_object (jget function ''parameters''))
                  ''replay tool parameters are invalid'',
                ensure (jget function ''strict'' \<in> {JNull, JBool True, JBool False}) ''replay tool strict flag is invalid'']
          else [])))"

text \<open>\<^verbatim>\<open>item.get(key, [])\<close>: a missing key reads as the default.\<close>

definition get_or :: "json \<Rightarrow> string \<Rightarrow> json \<Rightarrow> json" where
  "get_or v k d = (if has_key v k then jget v k else d)"

definition validate_provenance :: "json \<Rightarrow> (string, unit) result" where
  "validate_provenance item = first_error
     [ensure (is_object item) ''replay provenance item must be an object'',
      ensure (list_all (\<lambda>k. is_list (get_or item k (JList [])) \<and> list_all nonempty_text (list_items (get_or item k (JList []))))
          [''source_event_ids'', ''artifact_refs''])
        ''replay provenance references are invalid'',
      ensure (jget item ''checkpoint_id'' = JNull \<or> nonempty_text (jget item ''checkpoint_id'')) ''replay checkpoint id is invalid'',
      validate_json_value 0 item]"

definition required_fields :: "int \<Rightarrow> string list" where
  "required_fields version =
     [''schema_version'', ''session_id'', ''view_id'', ''cache_epoch'', ''history_version'', ''model_profile'',
      ''provider_family'', ''request_mode'', ''instructions'', ''tools'', ''items'', ''stable_prefix_hash'',
      ''canonical_payload_hash''] @
     (if 2 \<le> version then [''request_settings''] else []) @ (if 3 \<le> version then [''item_provenance''] else [])"

definition counter_ok :: "json \<Rightarrow> bool" where
  "counter_ok v = (case v of JInt n \<Rightarrow> 0 \<le> n \<and> n \<le> max_replay_counter | _ \<Rightarrow> False)"

definition short_text :: "json \<Rightarrow> bool" where
  "short_text v = (case v of JStr s \<Rightarrow> s \<noteq> [] \<and> length s \<le> 256 | _ \<Rightarrow> False)"

definition session_id_ok :: "int \<Rightarrow> string option \<Rightarrow> json \<Rightarrow> (string, unit) result" where
  "session_id_ok version expected session_id = first_error
     [ensure (nonempty_text session_id \<or> version < 3 \<and> session_id = JNull) ''replay session id is invalid'',
      ensure (case expected of
          None \<Rightarrow> True
        | Some e \<Rightarrow> session_id = JStr e \<or> version < 3 \<and> session_id = JNull)
        ''replay session id does not match'']"

definition validate_replay_payload :: "json \<Rightarrow> string option \<Rightarrow> (string, unit) result" where
  "validate_replay_payload payload expected =
     (if \<not> is_object payload then Inl ''replay must be an object''
      else case jget payload ''schema_version'' of
        JInt version \<Rightarrow>
          if version \<notin> {1, 2, 3} then Inl ''replay schema version is unsupported''
          else
            let settings = get_or payload ''request_settings'' (JObj []);
                provenance = get_or payload ''item_provenance'' (JList [])
            in first_error
              [ensure (list_all (has_key payload) (required_fields version)) ''replay required field is missing'',
               session_id_ok version expected (jget payload ''session_id''),
               ensure (list_all (\<lambda>k. counter_ok (jget payload k)) [''cache_epoch'', ''history_version'']) ''replay counter is invalid'',
               ensure (list_all (\<lambda>k. short_text (jget payload k)) [''view_id'', ''model_profile'', ''provider_family'', ''request_mode''])
                 ''replay text field is invalid'',
               ensure (list_all (\<lambda>k. hex_hash (jget payload k)) [''stable_prefix_hash'', ''canonical_payload_hash''])
                 ''replay hash is invalid'',
               ensure (is_object settings) ''replay request settings must be an object'',
               validate_json_value 0 settings,
               ensure (is_list (jget payload ''instructions'')) ''replay messages must be a list'',
               first_error (map validate_provider_message (list_items (jget payload ''instructions''))),
               ensure (is_list (jget payload ''items'')) ''replay messages must be a list'',
               first_error (map validate_provider_message (list_items (jget payload ''items''))),
               ensure (is_list (jget payload ''tools'') \<and> list_all is_object (list_items (jget payload ''tools'')))
                 ''replay tools must be a list of objects'',
               first_error (map validate_tool (list_items (jget payload ''tools''))),
               validate_json_value 0 (jget payload ''tools''),
               ensure (is_list provenance) ''replay provenance must be a list'',
               ensure (version < 3 \<or> length (list_items provenance) = length (list_items (jget payload ''items'')))
                 ''replay provenance does not align with items'',
               first_error (map validate_provenance (list_items provenance))]
      | _ \<Rightarrow> Inl ''replay schema version is unsupported'')"

section \<open>The envelope\<close>

record replay_envelope =
  rp_schema_version :: int
  rp_session_id :: json
  rp_view_id :: string
  rp_cache_epoch :: int
  rp_history_version :: int
  rp_model_profile :: string
  rp_provider_family :: string
  rp_request_mode :: string
  rp_request_settings :: json
  rp_instructions :: "json list"
  rp_tools :: "json list"
  rp_items :: "json list"
  rp_item_provenance :: "json list"
  rp_stable_prefix_hash :: string
  rp_canonical_payload_hash :: string

record replay_input =
  ri_session_id :: json
  ri_cache_epoch :: int
  ri_history_version :: int
  ri_model_profile :: string
  ri_provider_family :: string
  ri_request_mode :: string
  ri_request_settings :: json
  ri_instructions :: "json list"
  ri_tools :: "json list"
  ri_items :: "json list"
  ri_item_provenance :: "json list"

text \<open>The parts that both hashes of a version-3 envelope cover.\<close>

definition stable_fields :: "replay_input \<Rightarrow> (string \<times> json) list" where
  "stable_fields r =
     [(''model_profile'', JStr (ri_model_profile r)), (''provider_family'', JStr (ri_provider_family r)),
      (''request_mode'', JStr (ri_request_mode r)), (''request_settings'', ri_request_settings r),
      (''instructions'', JList (ri_instructions r)), (''tools'', JList (ri_tools r)), (''items'', JList (ri_items r))]"

definition core_fields :: "int \<Rightarrow> replay_input \<Rightarrow> (string \<times> json) list" where
  "core_fields version r =
     [(''schema_version'', JInt version), (''session_id'', ri_session_id r), (''cache_epoch'', JInt (ri_cache_epoch r)),
      (''history_version'', JInt (ri_history_version r))] @ stable_fields r"

definition or_object :: "json \<Rightarrow> json" where
  "or_object v = (if truthy v then v else JObj [])"

definition create_replay :: "(json \<Rightarrow> string) \<Rightarrow> string \<Rightarrow> replay_input \<Rightarrow> (string, replay_envelope) result" where
  "create_replay digest view_id r =
     (let provenance = (if ri_item_provenance r = [] then map (\<lambda>_. JObj []) (ri_items r) else ri_item_provenance r);
          settings = canonicalize (or_object (ri_request_settings r));
          r' = r\<lparr>ri_request_settings := settings\<rparr>
      in if length provenance \<noteq> length (ri_items r) then Inl ''item_provenance must align one-to-one with items''
         else Inr
           \<lparr>rp_schema_version = 3, rp_session_id = ri_session_id r, rp_view_id = view_id,
            rp_cache_epoch = ri_cache_epoch r, rp_history_version = ri_history_version r,
            rp_model_profile = ri_model_profile r, rp_provider_family = ri_provider_family r,
            rp_request_mode = ri_request_mode r, rp_request_settings = settings,
            rp_instructions = map canonicalize (ri_instructions r), rp_tools = map canonicalize (ri_tools r),
            rp_items = map canonicalize (ri_items r), rp_item_provenance = map canonicalize provenance,
            rp_stable_prefix_hash = content_hash digest (JObj (stable_fields r')),
            rp_canonical_payload_hash =
              content_hash digest (JObj (core_fields 3 r' @ [(''item_provenance'', JList provenance)]))\<rparr>)"

definition input_of :: "replay_envelope \<Rightarrow> replay_input" where
  "input_of e =
     \<lparr>ri_session_id = rp_session_id e, ri_cache_epoch = rp_cache_epoch e, ri_history_version = rp_history_version e,
      ri_model_profile = rp_model_profile e, ri_provider_family = rp_provider_family e,
      ri_request_mode = rp_request_mode e, ri_request_settings = rp_request_settings e,
      ri_instructions = rp_instructions e, ri_tools = rp_tools e, ri_items = rp_items e,
      ri_item_provenance = rp_item_provenance e\<rparr>"

definition without_settings :: "(string \<times> json) list \<Rightarrow> (string \<times> json) list" where
  "without_settings fs = filter (\<lambda>(k, v). k \<noteq> ''request_settings'') fs"

definition hashes_are :: "(json \<Rightarrow> string) \<Rightarrow> replay_envelope \<Rightarrow> (string \<times> json) list \<Rightarrow> (string \<times> json) list \<Rightarrow> bool" where
  "hashes_are digest e fs fs' \<longleftrightarrow>
     content_hash digest (JObj fs) = rp_stable_prefix_hash e \<and>
     content_hash digest (JObj fs') = rp_canonical_payload_hash e"

definition validate_replay :: "(json \<Rightarrow> string) \<Rightarrow> replay_envelope \<Rightarrow> bool" where
  "validate_replay digest e =
     (if rp_schema_version e < 2
      then hashes_are digest e (without_settings (stable_fields (input_of e))) (without_settings (core_fields 1 (input_of e)))
      else if rp_schema_version e = 2
      then hashes_are digest e (stable_fields (input_of e)) (core_fields 2 (input_of e))
      else if length (rp_item_provenance e) \<noteq> length (rp_items e) then False
      else case create_replay digest (rp_view_id e) (input_of e) of
        Inl _ \<Rightarrow> False
      | Inr rebuilt \<Rightarrow>
          rp_stable_prefix_hash rebuilt = rp_stable_prefix_hash e \<and>
          rp_canonical_payload_hash rebuilt = rp_canonical_payload_hash e)"

definition replay_to_dict :: "replay_envelope \<Rightarrow> json" where
  "replay_to_dict e = JObj
     [(''schema_version'', JInt (rp_schema_version e)), (''session_id'', rp_session_id e), (''view_id'', JStr (rp_view_id e)),
      (''cache_epoch'', JInt (rp_cache_epoch e)), (''history_version'', JInt (rp_history_version e)),
      (''model_profile'', JStr (rp_model_profile e)), (''provider_family'', JStr (rp_provider_family e)),
      (''request_mode'', JStr (rp_request_mode e)), (''request_settings'', rp_request_settings e),
      (''instructions'', JList (rp_instructions e)), (''tools'', JList (rp_tools e)), (''items'', JList (rp_items e)),
      (''item_provenance'', JList (rp_item_provenance e)), (''stable_prefix_hash'', JStr (rp_stable_prefix_hash e)),
      (''canonical_payload_hash'', JStr (rp_canonical_payload_hash e))]"

text \<open>\<^verbatim>\<open>int(...)\<close>: numbers are cut towards zero, text must be a decimal numeral.\<close>

definition is_digit :: "char \<Rightarrow> bool" where
  "is_digit c \<longleftrightarrow> CHR ''0'' \<le> c \<and> c \<le> CHR ''9''"

definition text_int :: "string \<Rightarrow> (string, int) result" where
  "text_int s =
     (let t = strip s;
          negative = (take 1 t = ''-'');
          digits = (if take 1 t = ''-'' \<or> take 1 t = ''+'' then drop 1 t else t);
          parts = split_on (CHR ''_'') digits
      in if list_all (\<lambda>p. p \<noteq> [] \<and> list_all is_digit p) parts
         then Inr ((if negative then - 1 else 1) * foldl (\<lambda>n c. 10 * n + (of_char c - 48)) 0 (concat parts))
         else Inl ''not a number'')"

definition stored_int :: "json \<Rightarrow> (string, int) result" where
  "stored_int v = (case v of
     JInt n \<Rightarrow> Inr n
   | JBool b \<Rightarrow> Inr (if b then 1 else 0)
   | JReal x \<Rightarrow> Inr (if 0 \<le> x then \<lfloor>x\<rfloor> else - \<lfloor>- x\<rfloor>)
   | JStr s \<Rightarrow> text_int s
   | _ \<Rightarrow> Inl ''not a number'')"

definition stored_text :: "(json \<Rightarrow> string) \<Rightarrow> json \<Rightarrow> string \<Rightarrow> string" where
  "stored_text py_str v d = (if \<not> truthy v then d else case v of JStr s \<Rightarrow> s | _ \<Rightarrow> py_str v)"

text \<open>\<^verbatim>\<open>tuple(dict(item) for item in data.get(key, []))\<close>: every item must be an object.\<close>

definition stored_objects :: "json \<Rightarrow> (string, json list) result" where
  "stored_objects v =
     (if is_list v \<and> list_all is_object (list_items v) then Inr (list_items v) else Inl ''not a list of objects'')"

definition replay_from_dict :: "(json \<Rightarrow> string) \<Rightarrow> json \<Rightarrow> (string, replay_envelope) result" where
  "replay_from_dict py_str data =
     bind_result (stored_int (get_or data ''schema_version'' (JInt 1))) (\<lambda>version.
     bind_result (stored_int (get_or data ''cache_epoch'' (JInt 0))) (\<lambda>epoch.
     bind_result (stored_int (get_or data ''history_version'' (JInt 0))) (\<lambda>history.
     bind_result (stored_objects (get_or data ''instructions'' (JList []))) (\<lambda>instructions.
     bind_result (stored_objects (get_or data ''tools'' (JList []))) (\<lambda>tools.
     bind_result (stored_objects (get_or data ''items'' (JList []))) (\<lambda>items.
     bind_result (stored_objects (get_or data ''item_provenance'' (JList []))) (\<lambda>provenance.
       Inr \<lparr>rp_schema_version = version, rp_session_id = jget data ''session_id'',
            rp_view_id = stored_text py_str (jget data ''view_id'') ''legacy'',
            rp_cache_epoch = epoch, rp_history_version = history,
            rp_model_profile = stored_text py_str (jget data ''model_profile'') ''unknown'',
            rp_provider_family = stored_text py_str (jget data ''provider_family'') ''openai-compatible'',
            rp_request_mode = stored_text py_str (jget data ''request_mode'') ''chat-completions'',
            rp_request_settings = canonicalize (or_object (jget data ''request_settings'')),
            rp_instructions = instructions, rp_tools = tools, rp_items = items, rp_item_provenance = provenance,
            rp_stable_prefix_hash = stored_text py_str (jget data ''stable_prefix_hash'') [],
            rp_canonical_payload_hash = stored_text py_str (jget data ''canonical_payload_hash'') []\<rparr>)))))))"

section \<open>Canonical values stay canonical\<close>

text \<open>No string of the value has two carriage returns before a line feed.\<close>

fun no_crcrlf :: "string \<Rightarrow> bool" where
  "no_crcrlf (c # d # e # s) \<longleftrightarrow> \<not> (c = CHR 0x0D \<and> d = CHR 0x0D \<and> e = CHR 0x0A) \<and> no_crcrlf (d # e # s)"
| "no_crcrlf _ \<longleftrightarrow> True"

fun stable_text :: "json \<Rightarrow> bool" where
  "stable_text (JObj fs) \<longleftrightarrow> (\<forall>(k, v)\<in>set fs. stable_text v)"
| "stable_text (JList vs) \<longleftrightarrow> (\<forall>v\<in>set vs. stable_text v)"
| "stable_text (JStr s) \<longleftrightarrow> no_crcrlf s"
| "stable_text _ \<longleftrightarrow> True"

lemma crlf_idem: "no_crcrlf s \<Longrightarrow> crlf_to_lf (crlf_to_lf s) = crlf_to_lf s"
proof (induction s rule: crlf_to_lf.induct)
  case (3 c d s)
  show ?case
  proof (cases "c = CHR 0x0D \<and> d = CHR 0x0A")
    case True
    have "no_crcrlf s" using 3(3) by (cases s rule: no_crcrlf.cases) auto
    with 3(1) [OF True] True show ?thesis by (cases "crlf_to_lf s") auto
  next
    case False
    have n: "no_crcrlf (d # s)" using 3(3) by (cases s) auto
    then have "crlf_to_lf (crlf_to_lf (d # s)) = crlf_to_lf (d # s)" using 3(2) False by blast
    moreover have "\<not> (c = CHR 0x0D \<and> (\<exists>r. crlf_to_lf (d # s) = CHR 0x0A # r))"
      using 3(3) False by (cases s rule: no_crcrlf.cases) (auto split: if_splits)
    ultimately show ?thesis using False by (cases "crlf_to_lf (d # s)") auto
  qed
qed simp_all

definition canonical_fields :: "(string \<times> json) list \<Rightarrow> (string \<times> json) list" where
  "canonical_fields fs = map (\<lambda>(k, v). (k, canonicalize v)) fs"

lemma canonicalize_obj:
  "canonicalize (JObj fs) = JObj (filter (\<lambda>(k, v). k \<noteq> token_count_key) (sort_key fst (canonical_fields fs)))"
  by (simp add: canonical_fields_def)

declare canonicalize.simps(1) [simp del]

lemma canonical_fields_sorted:
  assumes "sorted (map fst fs)" "\<And>k v. (k, v) \<in> set fs \<Longrightarrow> canonicalize v = v \<and> k \<noteq> token_count_key"
  shows "canonicalize (JObj fs) = JObj fs"
proof -
  have same: "canonical_fields fs = fs"
    unfolding canonical_fields_def by (rule map_idI) (use assms(2) in auto)
  have "filter (\<lambda>(k, v). k \<noteq> token_count_key) fs = fs"
    using assms(2) by (auto simp: filter_id_conv)
  then show ?thesis using assms(1) by (simp add: canonicalize_obj same sort_key_id_if_sorted)
qed

lemma canonicalize_idem: "stable_text v \<Longrightarrow> canonicalize (canonicalize v) = canonicalize v"
proof (induction v rule: canonicalize.induct)
  case (1 fs)
  let ?gs = "filter (\<lambda>(k, v). k \<noteq> token_count_key) (sort_key fst (canonical_fields fs))"
  have "canonicalize (JObj ?gs) = JObj ?gs"
  proof (rule canonical_fields_sorted)
    show "sorted (map fst ?gs)" by (simp add: sorted_filter)
    show "canonicalize v = v \<and> k \<noteq> token_count_key" if "(k, v) \<in> set ?gs" for k v
      using that 1 by (auto simp: canonical_fields_def)
  qed
  then show ?case by (simp only: canonicalize_obj)
next
  case (2 vs)
  then show ?case by simp
qed (simp_all add: crlf_idem)

lemma map_canonicalize_idem: "list_all stable_text vs \<Longrightarrow> map canonicalize (map canonicalize vs) = map canonicalize vs"
  by (simp add: list_all_iff canonicalize_idem)

lemma canonicalize_truthless: "truthy v \<Longrightarrow> \<not> truthy (canonicalize v) \<Longrightarrow> canonicalize v = JObj []"
proof (cases v)
  case (JStr s)
  assume "truthy v" "\<not> truthy (canonicalize v)"
  with JStr show ?thesis by (cases s rule: crlf_to_lf.cases) (auto split: if_splits)
qed (auto simp: canonicalize_obj)

lemma canonical_settings:
  assumes "stable_text v"
  shows "canonicalize (or_object (canonicalize (or_object v))) = canonicalize (or_object v)"
proof -
  have empty: "canonicalize (JObj []) = JObj []" by (simp add: canonicalize_obj canonical_fields_def)
  have "stable_text (or_object v)" using assms by (simp add: or_object_def)
  then have idem: "canonicalize (canonicalize (or_object v)) = canonicalize (or_object v)" by (rule canonicalize_idem)
  show ?thesis
  proof (cases "truthy (canonicalize (or_object v))")
    case True
    with idem show ?thesis by (simp add: or_object_def [of "canonicalize (or_object v)"])
  next
    case False
    then have "canonicalize (or_object v) = JObj []"
      using canonicalize_truthless [of v] by (auto simp: or_object_def empty split: if_splits)
    then show ?thesis by (simp add: or_object_def empty)
  qed
qed

definition stable_input :: "replay_input \<Rightarrow> bool" where
  "stable_input r \<longleftrightarrow> stable_text (ri_request_settings r) \<and> list_all stable_text (ri_instructions r) \<and>
     list_all stable_text (ri_tools r) \<and> list_all stable_text (ri_items r) \<and> list_all stable_text (ri_item_provenance r)"

text \<open>Making the parts canonical first does not change the fields that are hashed.\<close>

definition canonical_parts :: "replay_input \<Rightarrow> json list \<Rightarrow> replay_input" where
  "canonical_parts r prov =
     r\<lparr>ri_instructions := map canonicalize (ri_instructions r), ri_tools := map canonicalize (ri_tools r),
       ri_items := map canonicalize (ri_items r), ri_item_provenance := map canonicalize prov\<rparr>"

lemma canonical_parts_fields:
  assumes "stable_input r"
  shows "canonical_fields (stable_fields (canonical_parts (r\<lparr>ri_request_settings := v\<rparr>) prov)) =
      canonical_fields (stable_fields (r\<lparr>ri_request_settings := v\<rparr>))"
    "canonical_fields (core_fields n (canonical_parts (r\<lparr>ri_request_settings := v\<rparr>) prov)) =
      canonical_fields (core_fields n (r\<lparr>ri_request_settings := v\<rparr>))"
  using assms map_canonicalize_idem [of "ri_instructions r"] map_canonicalize_idem [of "ri_tools r"] map_canonicalize_idem [of "ri_items r"]
  by (simp_all add: canonical_fields_def stable_fields_def core_fields_def canonical_parts_def stable_input_def)

lemma canonicalize_fields_cong: "canonical_fields fs = canonical_fields gs \<Longrightarrow> canonicalize (JObj fs) = canonicalize (JObj gs)"
  by (simp only: canonicalize_obj)

lemma canonical_fields_append: "canonical_fields (fs @ gs) = canonical_fields fs @ canonical_fields gs"
  by (simp add: canonical_fields_def)

lemma created_validates:
  assumes "create_replay digest view_id r = Inr e" "stable_input r"
  shows "validate_replay digest e"
proof -
  define prov where "prov = (if ri_item_provenance r = [] then map (\<lambda>_. JObj []) (ri_items r) else ri_item_provenance r)"
  define settings where "settings = canonicalize (or_object (ri_request_settings r))"
  have len: "length prov = length (ri_items r)" using assms(1) by (auto simp: create_replay_def Let_def prov_def split: if_splits)
  have st: "list_all stable_text prov" using assms(2) by (auto simp: prov_def stable_input_def list_all_iff)
  have empty: "prov = [] \<longleftrightarrow> ri_items r = []" using len by auto
  have e: "e = \<lparr>rp_schema_version = 3, rp_session_id = ri_session_id r, rp_view_id = view_id,
            rp_cache_epoch = ri_cache_epoch r, rp_history_version = ri_history_version r,
            rp_model_profile = ri_model_profile r, rp_provider_family = ri_provider_family r,
            rp_request_mode = ri_request_mode r, rp_request_settings = settings,
            rp_instructions = map canonicalize (ri_instructions r), rp_tools = map canonicalize (ri_tools r),
            rp_items = map canonicalize (ri_items r), rp_item_provenance = map canonicalize prov,
            rp_stable_prefix_hash = content_hash digest (JObj (stable_fields (r\<lparr>ri_request_settings := settings\<rparr>))),
            rp_canonical_payload_hash = content_hash digest
              (JObj (core_fields 3 (r\<lparr>ri_request_settings := settings\<rparr>) @ [(''item_provenance'', JList prov)]))\<rparr>"
    using assms(1) len by (simp add: create_replay_def Let_def flip: prov_def settings_def)
  let ?r = "r\<lparr>ri_request_settings := settings\<rparr>"
  have set': "canonicalize (or_object settings) = settings"
    using canonical_settings [of "ri_request_settings r"] assms(2) by (simp add: settings_def stable_input_def)
  have in': "(input_of e)\<lparr>ri_request_settings := settings\<rparr> = canonical_parts ?r prov"
    by (simp add: e input_of_def canonical_parts_def)
  note fields = canonical_parts_fields [OF assms(2), where v = settings and prov = prov]
  have prov': "canonical_fields [(''item_provenance'', JList (map canonicalize prov))] = canonical_fields [(''item_provenance'', JList prov)]"
    using map_canonicalize_idem [OF st] by (simp add: canonical_fields_def)
  have "rp_item_provenance e = [] \<longleftrightarrow> rp_items e = []" using empty by (simp add: e)
  then have prov'': "(if ri_item_provenance (input_of e) = [] then map (\<lambda>_. JObj []) (ri_items (input_of e))
      else ri_item_provenance (input_of e)) = map canonicalize prov"
    by (simp add: input_of_def) (simp add: e)
  obtain e' where e': "create_replay digest (rp_view_id e) (input_of e) = Inr e'"
      "rp_stable_prefix_hash e' = content_hash digest (JObj (stable_fields (canonical_parts ?r prov)))"
      "rp_canonical_payload_hash e' = content_hash digest
        (JObj (core_fields 3 (canonical_parts ?r prov) @ [(''item_provenance'', JList (map canonicalize prov))]))"
    using len set' in' by (simp add: create_replay_def Let_def prov'') (simp add: e input_of_def)
  show ?thesis
    using e' len canonicalize_fields_cong [OF fields(1)]
      canonicalize_fields_cong [of "core_fields 3 (canonical_parts ?r prov) @ [(''item_provenance'', JList (map canonicalize prov))]"
        "core_fields 3 ?r @ [(''item_provenance'', JList prov)]"] fields(2) prov'
    by (simp add: validate_replay_def content_hash_def canonical_fields_append) (simp add: e content_hash_def)
qed

lemma canonicalize_object [simp]: "is_object (canonicalize v) = is_object v"
  by (cases v) (simp_all add: is_object_def canonicalize_obj)

lemma stored_objects_list: "list_all is_object vs \<Longrightarrow> stored_objects (JList vs) = Inr vs"
  by (simp add: stored_objects_def is_list_def list_items_def)

lemma replay_fields:
  "get_or (replay_to_dict e) ''schema_version'' d = JInt (rp_schema_version e)"
  "get_or (replay_to_dict e) ''cache_epoch'' d = JInt (rp_cache_epoch e)"
  "get_or (replay_to_dict e) ''history_version'' d = JInt (rp_history_version e)"
  "get_or (replay_to_dict e) ''instructions'' d = JList (rp_instructions e)"
  "get_or (replay_to_dict e) ''tools'' d = JList (rp_tools e)"
  "get_or (replay_to_dict e) ''items'' d = JList (rp_items e)"
  "get_or (replay_to_dict e) ''item_provenance'' d = JList (rp_item_provenance e)"
  "jget (replay_to_dict e) ''session_id'' = rp_session_id e"
  "jget (replay_to_dict e) ''view_id'' = JStr (rp_view_id e)"
  "jget (replay_to_dict e) ''model_profile'' = JStr (rp_model_profile e)"
  "jget (replay_to_dict e) ''provider_family'' = JStr (rp_provider_family e)"
  "jget (replay_to_dict e) ''request_mode'' = JStr (rp_request_mode e)"
  "jget (replay_to_dict e) ''request_settings'' = rp_request_settings e"
  "jget (replay_to_dict e) ''stable_prefix_hash'' = JStr (rp_stable_prefix_hash e)"
  "jget (replay_to_dict e) ''canonical_payload_hash'' = JStr (rp_canonical_payload_hash e)"
  by (simp_all add: replay_to_dict_def get_or_def has_key_def)

lemma replay_stored_loaded:
  assumes "rp_view_id e \<noteq> []" "rp_model_profile e \<noteq> []" "rp_provider_family e \<noteq> []" "rp_request_mode e \<noteq> []"
    and "list_all is_object (rp_instructions e)" "list_all is_object (rp_tools e)" "list_all is_object (rp_items e)"
      "list_all is_object (rp_item_provenance e)"
    and "canonicalize (or_object (rp_request_settings e)) = rp_request_settings e"
  shows "replay_from_dict py_str (replay_to_dict e) = Inr e"
  using assms
  by (simp add: replay_from_dict_def replay_fields stored_objects_list stored_int_def stored_text_def)

section \<open>Tracing messages to events\<close>

record provenance_source =
  pv_event_id :: string
  pv_artifact_refs :: "string list"
  pv_checkpoint_id :: json

definition source_to_dict :: "provenance_source \<Rightarrow> json" where
  "source_to_dict s = JObj [(''source_event_ids'', JList [JStr (pv_event_id s)]),
     (''artifact_refs'', JList (map JStr (pv_artifact_refs s))), (''checkpoint_id'', pv_checkpoint_id s)]"

definition provenance_hash :: "(json \<Rightarrow> string) \<Rightarrow> (string \<times> json) list \<Rightarrow> string" where
  "provenance_hash digest fs = content_hash digest (JObj (filter (\<lambda>(k, v). \<not> is_private_key k) fs))"

record provenance_index =
  ix_events :: "(nat \<times> history_event) list"
  ix_messages :: "(string, provenance_source list) dict"
  ix_view_hashes :: "string list"
  ix_view_source :: "provenance_source option"

definition empty_index :: provenance_index where
  "empty_index = \<lparr>ix_events = [], ix_messages = [], ix_view_hashes = [], ix_view_source = None\<rparr>"

definition source_of :: "history_event \<Rightarrow> json \<Rightarrow> provenance_source" where
  "source_of e checkpoint = \<lparr>pv_event_id = he_event_id e, pv_artifact_refs = he_artifact_refs e, pv_checkpoint_id = checkpoint\<rparr>"

definition index_message ::
    "(json \<Rightarrow> string) \<Rightarrow> history_event \<Rightarrow> (string, provenance_source list) dict \<Rightarrow> (string, provenance_source list) dict" where
  "index_message digest e d =
     (case jget (he_payload e) ''message'' of
        JObj fs \<Rightarrow>
          let h = provenance_hash digest fs
          in dict_set h ((case dict_get d h of None \<Rightarrow> [] | Some ss \<Rightarrow> ss) @ [source_of e JNull]) d
      | _ \<Rightarrow> d)"

definition index_event ::
    "(json \<Rightarrow> string) \<Rightarrow> history_event \<Rightarrow> (string, provenance_source list) dict \<times> history_event option
      \<Rightarrow> (string, provenance_source list) dict \<times> history_event option" where
  "index_event digest e st =
     (if he_kind e = ''message_committed'' then (index_message digest e (fst st), snd st)
      else if he_kind e = ''context_view_committed'' then (fst st, Some e)
      else st)"

text \<open>\<^verbatim>\<open>payload.get("items") or ()\<close>, each of which must be an object.\<close>

fun object_fields :: "json list \<Rightarrow> (string \<times> json) list list option" where
  "object_fields [] = Some []"
| "object_fields (JObj fs # vs) = map_option (\<lambda>r. fs # r) (object_fields vs)"
| "object_fields (_ # vs) = None"

definition view_items :: "history_event \<Rightarrow> (string \<times> json) list list option" where
  "view_items e =
     (let v = jget (he_payload e) ''items''
      in if \<not> truthy v then Some [] else case v of JList vs \<Rightarrow> object_fields vs | _ \<Rightarrow> None)"

definition same_events :: "(nat \<times> history_event) list \<Rightarrow> (nat \<times> history_event) list \<Rightarrow> bool" where
  "same_events old current \<longleftrightarrow> length old \<le> length current \<and> map fst (take (length old) current) = map fst old"

text \<open>The flag is False when the update raised; the index is empty then.\<close>

definition sync_index ::
    "(json \<Rightarrow> string) \<Rightarrow> (nat \<times> history_event) list \<Rightarrow> provenance_index \<Rightarrow> provenance_index \<times> bool" where
  "sync_index digest current ix =
     (let ix = (if same_events (ix_events ix) current then ix else empty_index)
      in case fold (index_event digest) (map snd (drop (length (ix_events ix)) current)) (ix_messages ix, None) of
           (messages, None) \<Rightarrow> (ix\<lparr>ix_messages := messages, ix_events := current\<rparr>, True)
         | (messages, Some view) \<Rightarrow>
             (case view_items view of
                None \<Rightarrow> (empty_index, False)
              | Some items \<Rightarrow>
                  (ix\<lparr>ix_messages := messages, ix_events := current, ix_view_hashes := map (provenance_hash digest) items,
                      ix_view_source := Some (source_of view (jget (he_payload view) ''checkpoint_id''))\<rparr>, True)))"

fun match_view :: "string list \<Rightarrow> string list \<Rightarrow> bool list" where
  "match_view [] vs = []"
| "match_view (h # hs) vs =
     (case dropWhile (\<lambda>v. v \<noteq> h) vs of
        [] \<Rightarrow> False # match_view hs []
      | _ # rest \<Rightarrow> True # match_view hs rest)"

text \<open>Going down from a position to the newest source whose event is not used yet.\<close>

fun pick_source :: "provenance_source list \<Rightarrow> nat \<Rightarrow> string list \<Rightarrow> nat \<times> provenance_source option" where
  "pick_source candidates 0 used = (0, None)"
| "pick_source candidates (Suc n) used =
     (if pv_event_id (candidates ! n) \<in> set used then pick_source candidates n used
      else (n, Some (candidates ! n)))"

definition fallback_source :: "string option \<Rightarrow> json" where
  "fallback_source fallback = JObj [(''source_event_ids'', JList (if or_empty fallback = [] then [] else [JStr (or_empty fallback)])),
     (''artifact_refs'', JList []), (''checkpoint_id'', JNull)]"

fun align_rest ::
    "provenance_index \<Rightarrow> string option \<Rightarrow> (string \<times> bool) list \<Rightarrow> string list \<Rightarrow> (string, nat) dict \<Rightarrow> json list" where
  "align_rest ix fallback [] used positions = []"
| "align_rest ix fallback ((h, matched) # hs) used positions =
     (if matched
      then (case ix_view_source ix of None \<Rightarrow> JObj [] | Some s \<Rightarrow> source_to_dict s) # align_rest ix fallback hs used positions
      else
        let candidates = (case dict_get (ix_messages ix) h of None \<Rightarrow> [] | Some ss \<Rightarrow> ss);
            position = (case dict_get positions h of None \<Rightarrow> length candidates | Some p \<Rightarrow> p)
        in case pick_source candidates position used of
             (p, Some s) \<Rightarrow>
               source_to_dict s # align_rest ix fallback hs (pv_event_id s # used) (dict_set h p positions)
           | (p, None) \<Rightarrow> fallback_source fallback # align_rest ix fallback hs used (dict_set h p positions))"

definition align_items ::
    "(json \<Rightarrow> string) \<Rightarrow> provenance_index \<Rightarrow> (string \<times> json) list list \<Rightarrow> string option \<Rightarrow> json list" where
  "align_items digest ix items fallback =
     (let hashes = map (provenance_hash digest) items;
          matched = (if ix_view_source ix = None then map (\<lambda>_. False) items else match_view hashes (ix_view_hashes ix))
      in align_rest ix fallback (zip hashes matched) [] [])"

definition align ::
    "(json \<Rightarrow> string) \<Rightarrow> (nat \<times> history_event) list \<Rightarrow> (string \<times> json) list list \<Rightarrow> string option \<Rightarrow> provenance_index
      \<Rightarrow> provenance_index \<times> json list option" where
  "align digest events items fallback ix =
     (case sync_index digest events ix of
        (ix', False) \<Rightarrow> (ix', None)
      | (ix', True) \<Rightarrow> (ix', Some (align_items digest ix' items fallback)))"

definition align_item_provenance ::
    "(json \<Rightarrow> string) \<Rightarrow> (nat \<times> history_event) list \<Rightarrow> (string \<times> json) list list \<Rightarrow> string option \<Rightarrow> json list option" where
  "align_item_provenance digest events items fallback = snd (align digest events items fallback empty_index)"

section \<open>The request envelope\<close>

record request_envelope =
  rq_schema_version :: int
  rq_request_id :: string
  rq_replay_envelope_hash :: string
  rq_execution_overlay_revision :: int
  rq_execution_overlay_hash :: string
  rq_execution_overlay_tokens :: int
  rq_canonical_request_hash :: string
  rq_plan_revision :: int

definition create_request ::
    "(json \<Rightarrow> string) \<Rightarrow> string \<Rightarrow> replay_envelope \<Rightarrow> json \<Rightarrow> int \<Rightarrow> int \<Rightarrow> int \<Rightarrow> json option \<Rightarrow> request_envelope" where
  "create_request digest request_id replay overlay overlay_revision overlay_tokens plan_revision payload =
     \<lparr>rq_schema_version = 1, rq_request_id = request_id, rq_replay_envelope_hash = rp_canonical_payload_hash replay,
      rq_execution_overlay_revision = overlay_revision, rq_execution_overlay_hash = content_hash digest overlay,
      rq_execution_overlay_tokens = overlay_tokens,
      rq_canonical_request_hash = content_hash digest
        (case payload of Some p \<Rightarrow> p | None \<Rightarrow> JObj [(''replay'', replay_to_dict replay), (''overlay'', overlay)]),
      rq_plan_revision = max 0 plan_revision\<rparr>"

definition request_to_dict :: "request_envelope \<Rightarrow> json" where
  "request_to_dict q = JObj
     [(''schema_version'', JInt (rq_schema_version q)), (''request_id'', JStr (rq_request_id q)),
      (''replay_envelope_hash'', JStr (rq_replay_envelope_hash q)),
      (''execution_overlay_revision'', JInt (rq_execution_overlay_revision q)),
      (''execution_overlay_hash'', JStr (rq_execution_overlay_hash q)),
      (''execution_overlay_tokens'', JInt (rq_execution_overlay_tokens q)),
      (''canonical_request_hash'', JStr (rq_canonical_request_hash q)), (''plan_revision'', JInt (rq_plan_revision q))]"

section \<open>The incremental index\<close>

text \<open>The contents of event objects never change: \<open>obj\<close> gives them.\<close>

definition tuple_of :: "(nat \<Rightarrow> history_event) \<Rightarrow> nat list \<Rightarrow> (nat \<times> history_event) list" where
  "tuple_of obj us = map (\<lambda>u. (u, obj u)) us"

definition index_ok :: "(json \<Rightarrow> string) \<Rightarrow> (nat \<Rightarrow> history_event) \<Rightarrow> provenance_index \<Rightarrow> bool" where
  "index_ok digest obj ix \<longleftrightarrow> (\<exists>us. ix_events ix = tuple_of obj us) \<and> sync_index digest (ix_events ix) empty_index = (ix, True)"

lemma index_event_view:
  "index_event digest e (d, v) =
     (fst (index_event digest e (d, None)), case snd (index_event digest e (d, None)) of None \<Rightarrow> v | Some w \<Rightarrow> Some w)"
  by (simp add: index_event_def)

lemma fold_index_view:
  "fold (index_event digest) es (d, v) =
     (fst (fold (index_event digest) es (d, None)),
      case snd (fold (index_event digest) es (d, None)) of None \<Rightarrow> v | Some w \<Rightarrow> Some w)"
proof (induction es arbitrary: d v)
  case Nil
  then show ?case by simp
next
  case (Cons e es)
  obtain d' v' where s: "index_event digest e (d, None) = (d', v')" by fastforce
  have "fold (index_event digest) (e # es) (d, v) = fold (index_event digest) es (d', case v' of None \<Rightarrow> v | Some w \<Rightarrow> Some w)"
    using index_event_view [of digest e d v] s by simp
  moreover have "fold (index_event digest) (e # es) (d, None) = fold (index_event digest) es (d', v')" using s by simp
  ultimately show ?case
    using Cons.IH [of d' v'] Cons.IH [of d' "case v' of None \<Rightarrow> v | Some w \<Rightarrow> Some w"]
    by (auto split: option.split)
qed

lemma same_events_tuple:
  "same_events (tuple_of obj us) (tuple_of obj us') \<longleftrightarrow> (\<exists>new. us' = us @ new)"
proof -
  have "map fst (take n (tuple_of obj vs)) = take n vs" for n vs
    by (simp add: tuple_of_def take_map comp_def)
  moreover have "map fst (tuple_of obj us) = us" by (simp add: tuple_of_def comp_def)
  ultimately have "same_events (tuple_of obj us) (tuple_of obj us') \<longleftrightarrow> length us \<le> length us' \<and> take (length us) us' = us"
    by (simp add: same_events_def) (simp add: tuple_of_def)
  also have "\<dots> \<longleftrightarrow> (\<exists>new. us' = us @ new)" by (metis append_eq_conv_conj append_take_drop_id length_append le_add1)
  finally show ?thesis .
qed

lemma empty_index_events [simp]:
  "ix_events empty_index = []" "ix_messages empty_index = []" "same_events [] current"
  by (simp_all add: empty_index_def same_events_def)

text \<open>Where the index already holds a prefix, reading the rest is reading everything.\<close>

lemma sync_extends:
  assumes "sync_index digest old empty_index = (ix, True)" "ix_events ix = old" "same_events old (old @ new)"
  shows "sync_index digest (old @ new) ix = sync_index digest (old @ new) empty_index"
proof -
  obtain d v where f: "fold (index_event digest) (map snd old) ([], None) = (d, v)" by fastforce
  obtain d' v' where g: "fold (index_event digest) (map snd new) (d, None) = (d', v')" by fastforce
  have all: "fold (index_event digest) (map snd (old @ new)) ([], None) = (d', case v' of None \<Rightarrow> v | Some w \<Rightarrow> Some w)"
    using fold_index_view [of digest "map snd new" d v] f g by simp
  have ix: "case v of
      None \<Rightarrow> ix = empty_index\<lparr>ix_messages := d, ix_events := old\<rparr>
    | Some w \<Rightarrow> \<exists>items. view_items w = Some items \<and>
        ix = empty_index\<lparr>ix_messages := d, ix_events := old, ix_view_hashes := map (provenance_hash digest) items,
               ix_view_source := Some (source_of w (jget (he_payload w) ''checkpoint_id''))\<rparr>"
    using assms(1) f by (cases v) (auto simp: sync_index_def Let_def split: option.splits)
  have new: "map snd (drop (length (ix_events ix)) (old @ new)) = map snd new" using assms(2) by simp
  have m: "ix_messages ix = d" using ix by (auto split: option.splits)
  have "sync_index digest (old @ new) ix =
     (case v' of
        None \<Rightarrow> (ix\<lparr>ix_messages := d', ix_events := old @ new\<rparr>, True)
      | Some w \<Rightarrow> (case view_items w of
          None \<Rightarrow> (empty_index, False)
        | Some items \<Rightarrow> (ix\<lparr>ix_messages := d', ix_events := old @ new, ix_view_hashes := map (provenance_hash digest) items,
            ix_view_source := Some (source_of w (jget (he_payload w) ''checkpoint_id''))\<rparr>, True)))"
    unfolding sync_index_def Let_def assms(2) using assms(3) g m by (simp add: assms(2))
  moreover have "sync_index digest (old @ new) empty_index =
     (case (case v' of None \<Rightarrow> v | Some w \<Rightarrow> Some w) of
        None \<Rightarrow> (empty_index\<lparr>ix_messages := d', ix_events := old @ new\<rparr>, True)
      | Some w \<Rightarrow> (case view_items w of
          None \<Rightarrow> (empty_index, False)
        | Some items \<Rightarrow> (empty_index\<lparr>ix_messages := d', ix_events := old @ new, ix_view_hashes := map (provenance_hash digest) items,
            ix_view_source := Some (source_of w (jget (he_payload w) ''checkpoint_id''))\<rparr>, True)))"
    using all by (simp add: sync_index_def Let_def)
  ultimately show ?thesis using ix by (cases v; cases v') (auto split: option.splits)
qed

lemma sync_events: "sync_index digest current ix = (ix', True) \<Longrightarrow> ix_events ix' = current"
  by (auto simp: sync_index_def Let_def split: option.splits prod.splits if_splits)

lemma sync_fresh:
  assumes "index_ok digest obj ix"
  shows "sync_index digest (tuple_of obj us) ix = sync_index digest (tuple_of obj us) empty_index"
proof -
  from assms obtain vs where ix: "ix_events ix = tuple_of obj vs" "sync_index digest (tuple_of obj vs) empty_index = (ix, True)"
    by (auto simp: index_ok_def)
  show ?thesis
  proof (cases "same_events (tuple_of obj vs) (tuple_of obj us)")
    case True
    then obtain new where us: "us = vs @ new" by (auto simp: same_events_tuple)
    then have "tuple_of obj us = tuple_of obj vs @ tuple_of obj new" by (simp add: tuple_of_def)
    with sync_extends [OF ix(2) ix(1)] True show ?thesis by simp
  next
    case False
    then show ?thesis using ix(1) by (simp add: sync_index_def Let_def)
  qed
qed

lemma index_ok_empty: "index_ok digest obj empty_index"
proof -
  have "ix_events empty_index = tuple_of obj []" by (simp add: tuple_of_def)
  moreover have "sync_index digest [] empty_index = (empty_index, True)"
    by (simp add: sync_index_def empty_index_def)
  ultimately show ?thesis unfolding index_ok_def by (metis empty_index_events(1))
qed

lemma index_ok_align:
  assumes "index_ok digest obj ix"
  shows "index_ok digest obj (fst (align digest (tuple_of obj us) items fallback ix))"
proof -
  obtain ix' ok where s: "sync_index digest (tuple_of obj us) empty_index = (ix', ok)" by fastforce
  have "index_ok digest obj ix'"
  proof (cases ok)
    case True
    with s sync_events [of digest "tuple_of obj us" empty_index ix'] show ?thesis by (auto simp: index_ok_def)
  next
    case False
    with s have "ix' = empty_index" by (auto simp: sync_index_def Let_def split: option.splits prod.splits)
    then show ?thesis by (simp add: index_ok_empty)
  qed
  with s sync_fresh [OF assms, of us] show ?thesis by (auto simp: align_def split: bool.splits)
qed

lemma index_ok_calls:
  assumes "index_ok digest obj ix"
  shows "index_ok digest obj (fold (\<lambda>(us, items, fallback) ix. fst (align digest (tuple_of obj us) items fallback ix)) calls ix)"
  using assms by (induction calls arbitrary: ix) (auto intro: index_ok_align)

text \<open>C32: However often the provenance index was used before, for whatever event tuples, messages and
  fallbacks, and also after a call that raised, the next alignment gives exactly what a new index gives
  that reads all events again.
\<close>

theorem incremental_index_is_fresh:
  "snd (align digest (tuple_of obj us) items fallback
      (fold (\<lambda>(us', items', fallback') ix. fst (align digest (tuple_of obj us') items' fallback' ix)) calls empty_index)) =
   align_item_provenance digest (tuple_of obj us) items fallback"
  using sync_fresh [OF index_ok_calls [OF index_ok_empty], of digest obj us calls]
  by (simp add: align_def align_item_provenance_def split: prod.splits)

section \<open>The stored envelope\<close>

definition storable_input :: "replay_input \<Rightarrow> bool" where
  "storable_input r \<longleftrightarrow> stable_input r \<and> ri_model_profile r \<noteq> [] \<and> ri_provider_family r \<noteq> [] \<and> ri_request_mode r \<noteq> [] \<and>
     list_all is_object (ri_instructions r) \<and> list_all is_object (ri_tools r) \<and> list_all is_object (ri_items r) \<and>
     list_all is_object (ri_item_provenance r)"

text \<open>An envelope that was made from a request whose texts have no two carriage returns before a line
  feed is read back from its stored form unchanged, and passes its own check of both hashes.
\<close>

theorem replay_roundtrip:
  assumes "create_replay digest view_id r = Inr e" "storable_input r" "view_id \<noteq> []"
  shows "replay_from_dict py_str (replay_to_dict e) = Inr e \<and> validate_replay digest e"
proof
  show "validate_replay digest e" using created_validates assms by (simp add: storable_input_def)
  have stable: "stable_text (ri_request_settings r)" using assms(2) by (simp add: storable_input_def stable_input_def)
  show "replay_from_dict py_str (replay_to_dict e) = Inr e"
    using assms canonical_settings [OF stable]
    by (intro replay_stored_loaded)
      (auto simp: create_replay_def Let_def storable_input_def list_all_iff is_object_def [of "JObj []"] split: if_splits)
qed

definition message_input :: "string \<Rightarrow> replay_input" where
  "message_input t =
     \<lparr>ri_session_id = JStr ''s1'', ri_cache_epoch = 0, ri_history_version = 1, ri_model_profile = ''main'',
      ri_provider_family = ''openai-compatible'', ri_request_mode = ''chat-completions'', ri_request_settings = JNull,
      ri_instructions = [], ri_tools = [],
      ri_items = [JObj [(''role'', JStr ''user''), (''content'', JStr t)]], ri_item_provenance = []\<rparr>"

theorem replay_roundtrip_witness:
  "\<exists>e. create_replay (\<lambda>_. ''d'') ''rv_1'' (message_input ''hello'') = Inr e \<and>
     replay_from_dict (\<lambda>_. []) (replay_to_dict e) = Inr e \<and> validate_replay (\<lambda>_. ''d'') e"
proof -
  obtain e where e: "create_replay (\<lambda>_. ''d'') ''rv_1'' (message_input ''hello'') = Inr e"
    by (simp add: create_replay_def message_input_def Let_def)
  have "storable_input (message_input ''hello'')"
    by (simp add: storable_input_def stable_input_def message_input_def is_object_def)
  with replay_roundtrip [OF e, where py_str = "\<lambda>_. []"] e show ?thesis by auto
qed

definition hashed_message :: "string \<Rightarrow> json" where
  "hashed_message t = canonicalize (JObj (stable_fields ((message_input t)\<lparr>ri_request_settings := JObj []\<rparr>)))"

lemma canonical_message:
  "canonicalize (JObj [(''role'', JStr ''user''), (''content'', JStr t)]) =
     JObj [(''content'', JStr (crlf_to_lf t)), (''role'', JStr ''user'')]"
  "canonicalize (JObj [(''content'', JStr t), (''role'', JStr ''user'')]) =
     JObj [(''content'', JStr (crlf_to_lf t)), (''role'', JStr ''user'')]"
  "canonicalize (JObj []) = JObj []"
  by (simp_all add: canonicalize_obj canonical_fields_def token_count_key_def less_eq_list_code)

text \<open>With two carriage returns before a line feed the first normalisation leaves a carriage return and a
  line feed, which the second one changes again. Such an envelope fails its own check, unless the digest
  gives two different values the same text.
\<close>

theorem double_return_fails_validation:
  assumes "create_replay digest view_id (message_input [CHR 0x0D, CHR 0x0D, CHR 0x0A]) = Inr e"
    and "digest (hashed_message [CHR 0x0D, CHR 0x0D, CHR 0x0A]) \<noteq> digest (hashed_message [CHR 0x0D, CHR 0x0A])"
  shows "\<not> validate_replay digest e"
proof -
  let ?r = "message_input [CHR 0x0D, CHR 0x0D, CHR 0x0A]"
  have e: "rp_schema_version e = 3" "rp_stable_prefix_hash e = digest (hashed_message [CHR 0x0D, CHR 0x0D, CHR 0x0A])"
      "input_of e = ?r\<lparr>ri_request_settings := JObj [],
         ri_items := [JObj [(''content'', JStr [CHR 0x0D, CHR 0x0A]), (''role'', JStr ''user'')]], ri_item_provenance := [JObj []]\<rparr>"
    using assms(1)
    by (auto simp: create_replay_def message_input_def Let_def or_object_def canonical_message content_hash_def
        hashed_message_def input_of_def)
  have "digest (canonicalize (JObj (stable_fields (input_of e)))) = digest (hashed_message [CHR 0x0D, CHR 0x0A])"
    unfolding e(3) hashed_message_def
    by (rule arg_cong [where f = digest], rule canonicalize_fields_cong)
      (simp add: canonical_fields_def stable_fields_def message_input_def canonical_message)
  moreover have "validate_replay digest e \<Longrightarrow> digest (canonicalize (JObj (stable_fields (input_of e)))) = rp_stable_prefix_hash e"
    using e(1) by (auto simp: validate_replay_def create_replay_def e(3) Let_def or_object_def canonical_message content_hash_def
        message_input_def split: if_splits)
  ultimately show ?thesis using assms(2) e(2) by auto
qed

end
