(* ===== verification/Rpc_Transport.thy ===== *)
theory Rpc_Transport
  imports Workspace_Text
begin

text \<open>
  The message transports of the RPC connection (\<^verbatim>\<open>infrastructure/rpc/transport.py\<close>): one message per
  line over a byte stream, and the pair of queues in memory. A stream is the list of bytes that were
  written and not read yet; what a reader gets from a stream that ends anywhere is made of whole
  messages.
\<close>

section \<open>Newline-framed streams\<close>

datatype frame_error = Frame_Not_Encodable | Frame_Invalid | Frame_Truncated | Frame_Undecodable

definition max_message_bytes :: nat where
  "max_message_bytes = 16 * 1024 * 1024"

definition stream_send :: "ptext \<Rightarrow> nat list \<Rightarrow> (frame_error, nat list) result" where
  "stream_send message stream =
     (case utf8_encode message of
        None \<Rightarrow> Inl Frame_Not_Encodable
      | Some data \<Rightarrow>
          if 10 \<in> set data \<or> length data > max_message_bytes then Inl Frame_Invalid
          else Inr (stream @ data @ [10]))"

text \<open>\<^verbatim>\<open>readline(limit)\<close>: up to and with the first line feed, at most \<open>limit\<close> bytes.\<close>

definition readline :: "nat \<Rightarrow> nat list \<Rightarrow> nat list \<times> nat list" where
  "readline limit stream =
     (let n = min limit (length (takeWhile (\<lambda>b. b \<noteq> 10) stream) + 1)
      in (take n stream, drop n stream))"

definition strict_decode :: "nat list \<Rightarrow> ptext option" where
  "strict_decode data = (if utf8_encode (utf8_decode data) = Some data then Some (utf8_decode data) else None)"

definition rstrip_line_end :: "ptext \<Rightarrow> ptext" where
  "rstrip_line_end t = rev (dropWhile (\<lambda>c. c = 13 \<or> c = 10) (rev t))"

text \<open>The end of the stream is \<open>Inr None\<close>.\<close>

definition stream_receive :: "nat list \<Rightarrow> (frame_error, ptext option) result \<times> nat list" where
  "stream_receive stream =
     (case readline (max_message_bytes + 2) stream of
        (data, rest) \<Rightarrow>
          (if data = [] then Inr None
           else if length data > max_message_bytes + 1 \<or> last data \<noteq> 10 then Inl Frame_Truncated
           else case strict_decode data of
             None \<Rightarrow> Inl Frame_Undecodable
           | Some t \<Rightarrow> Inr (Some (rstrip_line_end t)),
           rest))"

lemma receive_consumes: "stream_receive stream = (Inr (Some t), rest) \<Longrightarrow> length rest < length stream"
  by (auto simp: stream_receive_def readline_def Let_def split: if_splits)

text \<open>Reading until the stream ends or a frame is broken.\<close>

function receive_all :: "nat list \<Rightarrow> ptext list \<times> frame_error option" where
  "receive_all stream =
     (case stream_receive stream of
        (Inl e, _) \<Rightarrow> ([], Some e)
      | (Inr None, _) \<Rightarrow> ([], None)
      | (Inr (Some t), rest) \<Rightarrow> (t # fst (receive_all rest), snd (receive_all rest)))"
  by auto
termination by (relation "measure length") (auto dest: receive_consumes [OF sym])

declare receive_all.simps [simp del]

fun send_all :: "ptext list \<Rightarrow> nat list \<Rightarrow> (frame_error, nat list) result" where
  "send_all [] stream = Inr stream"
| "send_all (m # ms) stream = bind_result (stream_send m stream) (send_all ms)"

text \<open>A text of code points that does not end with a carriage return, as every JSON document.\<close>

definition document :: "ptext \<Rightarrow> bool" where
  "document m \<longleftrightarrow> unicode m \<and> (m = [] \<or> last m \<noteq> 13)"

lemma encode_snoc: "utf8_encode t = Some bs \<Longrightarrow> \<not> is_surrogate c \<Longrightarrow> utf8_encode (t @ [c]) = Some (bs @ encode_char c)"
  by (induction t arbitrary: bs) (auto split: if_splits)

lemma encode_char_bytes: "c = 10 \<or> 10 \<notin> set (encode_char c)"
  by (auto simp: encode_char_def split: if_splits)

lemma encode_no_lf: "utf8_encode t = Some bs \<Longrightarrow> 10 \<notin> set bs \<Longrightarrow> 10 \<notin> set t"
  by (induction t arbitrary: bs) (auto simp: encode_char_def split: if_splits)

lemma unicode_snoc: "unicode (t @ [10]) = unicode t"
  by (simp add: unicode_def)

lemma receive_frame:
  assumes "utf8_encode m = Some data" "10 \<notin> set data" "length data \<le> max_message_bytes" "document m"
  shows "stream_receive (data @ 10 # rest) = (Inr (Some m), rest)"
proof -
  have enc: "utf8_encode (m @ [10]) = Some (data @ [10])"
    using encode_snoc [OF assms(1), of 10] by (simp add: is_surrogate_def encode_char_def)
  have dec: "utf8_decode (data @ [10]) = m @ [10]"
    using decode_encode [OF _ enc] assms(4) by (simp add: document_def unicode_snoc)
  have "takeWhile (\<lambda>b. b \<noteq> 10) (data @ 10 # rest) = data"
    using assms(2) by (auto simp: takeWhile_append)
  then have line: "readline (max_message_bytes + 2) (data @ 10 # rest) = (data @ [10], rest)"
    using assms(3) by (simp add: readline_def Let_def min_def)
  have "rstrip_line_end (m @ [10]) = m"
  proof (cases m rule: rev_cases)
    case (snoc s c)
    with assms(4) encode_no_lf [OF assms(1,2)] show ?thesis by (auto simp: rstrip_line_end_def document_def)
  qed (simp add: rstrip_line_end_def)
  then show ?thesis using assms(3) by (simp only: stream_receive_def line) (simp add: strict_decode_def dec enc)
qed

lemma receive_partial:
  assumes "10 \<notin> set data" "data \<noteq> []"
  shows "receive_all data = ([], Some Frame_Truncated)"
proof -
  have "takeWhile (\<lambda>b. b \<noteq> 10) data = data" using assms(1) by (auto simp: takeWhile_eq_all_conv)
  moreover have "last (take n data) \<noteq> 10" if "0 < n" for n
    using that assms by (metis in_set_takeD last_in_set take_eq_Nil neq0_conv)
  ultimately show ?thesis
    using assms(2) by (subst receive_all.simps) (auto simp: stream_receive_def readline_def Let_def min_def)
qed

lemma send_Inr:
  "stream_send m stream = Inr stream' \<longleftrightarrow>
     (\<exists>data. utf8_encode m = Some data \<and> 10 \<notin> set data \<and> length data \<le> max_message_bytes \<and> stream' = stream @ data @ [10])"
  by (auto simp: stream_send_def split: option.splits)

lemma send_all_append:
  "send_all ms (s @ stream) = map_sum id (\<lambda>t. s @ t) (send_all ms stream)"
proof (induction ms arbitrary: stream)
  case Nil
  then show ?case by simp
next
  case (Cons m ms)
  have "stream_send m (s @ stream) = map_sum id (\<lambda>t. s @ t) (stream_send m stream)"
    by (simp add: stream_send_def split: option.split)
  with Cons show ?case by (cases "stream_send m stream") auto
qed

lemma receive_sent:
  assumes "send_all ms [] = Inr stream" "list_all document ms"
  shows "\<exists>k e. receive_all (take n stream) = (take k ms, e) \<and>
    (length stream \<le> n \<longrightarrow> take k ms = ms \<and> e = None)"
  using assms
proof (induction ms arbitrary: stream n)
  case Nil
  then show ?case by (auto simp: receive_all.simps [of "[]"] stream_receive_def readline_def)
next
  case (Cons m ms)
  from Cons.prems(1) obtain data where d: "utf8_encode m = Some data" "10 \<notin> set data" "length data \<le> max_message_bytes"
      "send_all ms (data @ [10]) = Inr stream"
    by (auto simp: send_Inr)
  from d(4) send_all_append [of ms "data @ [10]" "[]"] obtain stream' where
      s: "send_all ms [] = Inr stream'" "stream = data @ 10 # stream'"
    by (cases "send_all ms []") auto
  have doc: "document m" "list_all document ms" using Cons.prems(2) by auto
  show ?case
  proof (cases "n \<le> length data")
    case True
    show ?thesis
    proof (cases "take n data = []")
      case empty: True
      with True s show ?thesis
        by (intro exI [of _ 0] exI [of _ None]) (auto simp: receive_all.simps [of "[]"] stream_receive_def readline_def)
    next
      case False
      have "10 \<notin> set (take n data)" using d(2) by (auto dest: in_set_takeD)
      from receive_partial [OF this False] True s show ?thesis
        by (intro exI [of _ 0] exI [of _ "Some Frame_Truncated"]) auto
    qed
  next
    case False
    define n' where "n' = n - length data - 1"
    have t: "take n stream = data @ 10 # take n' stream'"
      using False s(2) by (simp add: n'_def take_Cons' )
    from Cons.IH [OF s(1) doc(2), of n'] obtain k e where
      k: "receive_all (take n' stream') = (take k ms, e)" "length stream' \<le> n' \<longrightarrow> take k ms = ms \<and> e = None" by blast
    have "receive_all (take n stream) = (take (Suc k) (m # ms), e)"
      unfolding t by (subst receive_all.simps) (simp add: receive_frame [OF d(1-3) doc(1)] k(1))
    moreover have "length stream \<le> n \<Longrightarrow> length stream' \<le> n'" using s(2) by (simp add: n'_def)
    ultimately show ?thesis using k(2) by (intro exI [of _ "Suc k"] exI [of _ e]) auto
  qed
qed

text \<open>When messages were sent over a stream and the stream ends anywhere, also inside a frame, the
  reader gets some of the first messages, whole and unchanged and in order, and then the end or an
  error; it never gets a part of a message. It gets all of them when nothing is missing.
\<close>

theorem cut_stream_gives_whole_messages:
  assumes "send_all ms [] = Inr stream" "list_all document ms"
  shows "(\<exists>k. fst (receive_all (take n stream)) = take k ms) \<and> receive_all stream = (ms, None)"
proof
  from receive_sent [OF assms, of n] show "\<exists>k. fst (receive_all (take n stream)) = take k ms" by (metis fst_conv)
  from receive_sent [OF assms, of "length stream"] show "receive_all stream = (ms, None)" by auto
qed

lemma ex_messages_sent: "send_all [[123, 125], [91, 0xE9, 93]] [] = Inr [123, 125, 10, 91, 0xC3, 0xA9, 93, 10]"
  by (simp add: stream_send_def is_surrogate_def encode_char_def max_message_bytes_def)

theorem cut_stream_gives_whole_messages_witness:
  "(\<exists>k. fst (receive_all (take 5 [123, 125, 10, 91, 0xC3, 0xA9, 93, 10])) = take k [[123, 125], [91, 0xE9, 93]]) \<and>
   receive_all [123, 125, 10, 91, 0xC3, 0xA9, 93, 10] = ([[123, 125], [91, 0xE9, 93]], None)"
proof -
  have "list_all document [[123, 125], [91, 0xE9, 93]]" by (simp add: document_def unicode_def)
  then show ?thesis using cut_stream_gives_whole_messages [OF ex_messages_sent, of 5] by simp
qed

section \<open>Channels in memory\<close>

text \<open>\<^verbatim>\<open>MemoryTransport.pair()\<close>: two ends, each with a queue of incoming messages; None in a queue is the end.\<close>

datatype channel_end = Left_End | Right_End

fun other_end :: "channel_end \<Rightarrow> channel_end" where
  "other_end Left_End = Right_End"
| "other_end Right_End = Left_End"

record memory_channel =
  mc_left :: "ptext option list"
  mc_right :: "ptext option list"
  mc_closed :: bool

definition new_channel :: memory_channel where
  "new_channel = \<lparr>mc_left = [], mc_right = [], mc_closed = False\<rparr>"

fun incoming :: "channel_end \<Rightarrow> memory_channel \<Rightarrow> ptext option list" where
  "incoming Left_End ch = mc_left ch"
| "incoming Right_End ch = mc_right ch"

fun set_incoming :: "channel_end \<Rightarrow> ptext option list \<Rightarrow> memory_channel \<Rightarrow> memory_channel" where
  "set_incoming Left_End q ch = ch\<lparr>mc_left := q\<rparr>"
| "set_incoming Right_End q ch = ch\<lparr>mc_right := q\<rparr>"

definition memory_send :: "channel_end \<Rightarrow> ptext \<Rightarrow> memory_channel \<Rightarrow> (unit, memory_channel) result" where
  "memory_send e m ch =
     (if mc_closed ch then Inl ()
      else Inr (set_incoming (other_end e) (incoming (other_end e) ch @ [Some m]) ch))"

text \<open>An empty queue blocks: there is no step.\<close>

definition memory_receive :: "channel_end \<Rightarrow> memory_channel \<Rightarrow> (unit, ptext option \<times> memory_channel) result" where
  "memory_receive e ch = (case incoming e ch of [] \<Rightarrow> Inl () | x # q \<Rightarrow> Inr (x, set_incoming e q ch))"

definition memory_close :: "channel_end \<Rightarrow> memory_channel \<Rightarrow> memory_channel" where
  "memory_close e ch =
     (if mc_closed ch then ch
      else let ch1 = set_incoming e (incoming e ch @ [None]) (ch\<lparr>mc_closed := True\<rparr>)
           in set_incoming (other_end e) (incoming (other_end e) ch1 @ [None]) ch1)"

datatype memory_op = Mem_Send channel_end ptext | Mem_Receive channel_end | Mem_Close channel_end

text \<open>A channel with what each end has sent and received so far.\<close>

record channel_log =
  cg_channel :: memory_channel
  cg_sent :: "channel_end \<Rightarrow> ptext list"
  cg_got :: "channel_end \<Rightarrow> ptext option list"

fun memory_step :: "channel_log \<Rightarrow> memory_op \<Rightarrow> (unit, channel_log) result" where
  "memory_step l (Mem_Send e m) =
     bind_result (memory_send e m (cg_channel l))
       (\<lambda>ch. Inr (l\<lparr>cg_channel := ch, cg_sent := (cg_sent l)(e := cg_sent l e @ [m])\<rparr>))"
| "memory_step l (Mem_Receive e) =
     bind_result (memory_receive e (cg_channel l))
       (\<lambda>(x, ch). Inr (l\<lparr>cg_channel := ch, cg_got := (cg_got l)(e := cg_got l e @ [x])\<rparr>))"
| "memory_step l (Mem_Close e) = Inr (l\<lparr>cg_channel := memory_close e (cg_channel l)\<rparr>)"

definition channel_fifo :: "channel_log \<Rightarrow> bool" where
  "channel_fifo l \<longleftrightarrow> (\<forall>e. cg_got l e @ incoming e (cg_channel l) =
     map Some (cg_sent l (other_end e)) @ (if mc_closed (cg_channel l) then [None] else []))"

definition new_log :: channel_log where
  "new_log = \<lparr>cg_channel = new_channel, cg_sent = (\<lambda>_. []), cg_got = (\<lambda>_. [])\<rparr>"

lemma other_end_simps [simp]: "other_end (other_end e) = e" "other_end e \<noteq> e" "e \<noteq> other_end e"
  by (cases e; simp)+

lemma incoming_set [simp]:
  "incoming e (set_incoming e' q ch) = (if e = e' then q else incoming e ch)" "mc_closed (set_incoming e' q ch) = mc_closed ch"
  by (cases e; cases e'; simp)+

lemma incoming_closed [simp]: "incoming e (ch\<lparr>mc_closed := b\<rparr>) = incoming e ch"
  by (cases e) simp_all

lemma end_cases: "e' = e \<or> e' = other_end e"
  by (cases e; cases e') simp_all

lemma memory_step_fifo:
  assumes "channel_fifo l" "memory_step l x = Inr l'"
  shows "channel_fifo l'"
proof (cases x)
  case (Mem_Send e m)
  have "cg_got l' e' @ incoming e' (cg_channel l') =
      map Some (cg_sent l' (other_end e')) @ (if mc_closed (cg_channel l') then [None] else [])" for e'
    using assms Mem_Send end_cases [of e' e] unfolding channel_fifo_def
    by (auto simp: memory_send_def simp flip: append_assoc split: if_splits)
  then show ?thesis by (simp add: channel_fifo_def)
next
  case (Mem_Receive e)
  have "cg_got l' e' @ incoming e' (cg_channel l') =
      map Some (cg_sent l' (other_end e')) @ (if mc_closed (cg_channel l') then [None] else [])" for e'
    using assms Mem_Receive unfolding channel_fifo_def
    by (auto simp: memory_receive_def split: list.splits) (metis (no_types))+
  then show ?thesis by (simp add: channel_fifo_def)
next
  case (Mem_Close e)
  have "cg_got l' e' @ incoming e' (cg_channel l') =
      map Some (cg_sent l' (other_end e')) @ (if mc_closed (cg_channel l') then [None] else [])" for e'
    using assms Mem_Close end_cases [of e' e] unfolding channel_fifo_def
    by (auto simp: memory_close_def Let_def simp flip: append_assoc split: if_splits)
  then show ?thesis by (simp add: channel_fifo_def)
qed

interpretation channel: machine memory_step channel_fifo
  by unfold_locales (rule memory_step_fifo)

text \<open>After any sequence of sends, receives and closes at both ends, what an end has received and what
  still waits for it are together exactly what the other end sent, in order, followed by one end mark
  once the channel was closed.
\<close>

theorem memory_channel_is_fifo:
  "cg_got (run_ops memory_step new_log xs) e @ incoming e (cg_channel (run_ops memory_step new_log xs)) =
   map Some (cg_sent (run_ops memory_step new_log xs) (other_end e)) @
     (if mc_closed (cg_channel (run_ops memory_step new_log xs)) then [None] else [])"
proof -
  have "channel_fifo new_log" by (auto simp: channel_fifo_def new_log_def new_channel_def) (metis channel_end.exhaust incoming.simps memory_channel.select_convs(1,2))
  from channel.run_inv [OF this, of xs] show ?thesis by (simp add: channel_fifo_def)
qed

end
