(* ===== verification/Rpc_Peer.thy ===== *)
theory Rpc_Peer
  imports Prelude
begin

text \<open>
  One side of a JSON-RPC connection (\<^verbatim>\<open>infrastructure/rpc/peer.py\<close>). Requests run on their callers'
  threads, a reader thread takes messages from the transport, four workers answer the requests of
  the other side, a notifier thread delivers notifications, and any thread may close the connection.
  Every section under a lock is one step, and a step of any thread may come next, except that
  \<^verbatim>\<open>transport.send\<close>, which runs under the send lock and may block, has a step that enters it and
  one that leaves it: between the two the lock is held and no other thread can send. What the
  transport, the handlers and the clock do are arguments of the steps. Answers that cannot be
  written as JSON are the reply \<open>Unsendable\<close>. Logs of what was received, delivered and
  answered are part of the state, so that the properties can speak of them.
\<close>

section \<open>Messages\<close>

definition in_object :: "string \<Rightarrow> json \<Rightarrow> bool" where
  "in_object k v = (case v of JObj fs \<Rightarrow> k \<in> set (map fst fs) | _ \<Rightarrow> False)"

text \<open>A key of a Python dictionary must be hashable: lists and dictionaries are not.\<close>

definition hashable :: "json \<Rightarrow> bool" where
  "hashable v = (case v of JList _ \<Rightarrow> False | JObj _ \<Rightarrow> False | _ \<Rightarrow> True)"

definition params_or_empty :: "json \<Rightarrow> json" where
  "params_or_empty p = (if truthy p then p else JObj [])"

definition request_message :: "string \<Rightarrow> string \<Rightarrow> json \<Rightarrow> json" where
  "request_message request_id rpc_method params =
     JObj [(''jsonrpc'', JStr ''2.0''), (''id'', JStr request_id), (''method'', JStr rpc_method), (''params'', params_or_empty params)]"

definition notification_message :: "string \<Rightarrow> json \<Rightarrow> json" where
  "notification_message rpc_method params =
     JObj [(''jsonrpc'', JStr ''2.0''), (''method'', JStr rpc_method), (''params'', params_or_empty params)]"

definition error_message :: "json \<Rightarrow> int \<Rightarrow> string \<Rightarrow> json \<Rightarrow> json" where
  "error_message request_id code message data =
     JObj [(''jsonrpc'', JStr ''2.0''), (''id'', request_id),
       (''error'', JObj [(''code'', JInt code), (''message'', JStr message), (''data'', data)])]"

definition result_message :: "json \<Rightarrow> json \<Rightarrow> json" where
  "result_message request_id v = JObj [(''jsonrpc'', JStr ''2.0''), (''id'', request_id), (''result'', v)]"

section \<open>Answering requests\<close>

text \<open>What a handler does: it returns a value, or one that is not JSON, raises an RPC error
  whose data may not be JSON either, or raises another exception.\<close>

datatype handled =
    Returned json
  | Returned_Other string
  | Raised_Rpc int string "json option"
  | Raised_Other string

datatype reply = Reply json | Unsendable

definition internal_error :: "json \<Rightarrow> string \<Rightarrow> json" where
  "internal_error request_id error_type =
     error_message request_id (- 32603) ''Internal error'' (JObj [(''error_type'', JStr error_type)])"

definition handler_reply :: "json \<Rightarrow> handled \<Rightarrow> reply" where
  "handler_reply request_id h =
     (case h of
        Returned v \<Rightarrow> Reply (result_message request_id v)
      | Returned_Other error_type \<Rightarrow> Reply (internal_error request_id error_type)
      | Raised_Rpc code message (Some data) \<Rightarrow> Reply (error_message request_id code message data)
      | Raised_Rpc code message None \<Rightarrow> Unsendable
      | Raised_Other error_type \<Rightarrow> Reply (internal_error request_id error_type))"

text \<open>\<open>methods\<close> gives for each known method whether its signature takes the parameters.\<close>

definition bindable :: "(json \<Rightarrow> bool) \<Rightarrow> json \<Rightarrow> bool" where
  "bindable signature params = (case params of JObj _ \<Rightarrow> signature params | JList _ \<Rightarrow> signature params | _ \<Rightarrow> False)"

definition invoke ::
    "(string \<Rightarrow> (json \<Rightarrow> bool) option) \<Rightarrow> (string \<Rightarrow> json \<Rightarrow> handled) \<Rightarrow> string \<Rightarrow> json \<Rightarrow> reply option" where
  "invoke methods run rpc_method message =
     (let request_id = jget message ''id'';
          params = (if in_object ''params'' message then jget message ''params'' else JObj []);
          answer = (case methods rpc_method of
              None \<Rightarrow> Reply (error_message request_id (- 32601) ''Method not found'' JNull)
            | Some signature \<Rightarrow>
                if \<not> bindable signature params then Reply (error_message request_id (- 32602) ''Invalid params'' JNull)
                else handler_reply request_id (run rpc_method params))
      in if in_object ''id'' message then Some answer else None)"

definition invalid_request :: reply where
  "invalid_request = Reply (error_message JNull (- 32600) ''Invalid Request'' JNull)"

definition id_valid :: "json \<Rightarrow> bool" where
  "id_valid v = (case v of JNull \<Rightarrow> True | JStr _ \<Rightarrow> True | JInt _ \<Rightarrow> True | _ \<Rightarrow> False)"

definition dispatch_message ::
    "(string \<Rightarrow> (json \<Rightarrow> bool) option) \<Rightarrow> (string \<Rightarrow> json \<Rightarrow> handled) \<Rightarrow> json \<Rightarrow> reply option" where
  "dispatch_message methods run message =
     (if jget message ''jsonrpc'' \<noteq> JStr ''2.0'' then Some invalid_request
      else case jget message ''method'' of
        JStr rpc_method \<Rightarrow>
          if in_object ''id'' message \<and> \<not> id_valid (jget message ''id'') then Some invalid_request
          else invoke methods run rpc_method message
      | _ \<Rightarrow> Some invalid_request)"

fun batch_reply :: "reply list \<Rightarrow> reply option" where
  "batch_reply [] = None"
| "batch_reply rs = Some (if Unsendable \<in> set rs then Unsendable
     else Reply (JList (map (\<lambda>r. case r of Reply v \<Rightarrow> v | Unsendable \<Rightarrow> JNull) rs)))"

text \<open>A handler may act differently for each entry of a batch: \<open>run\<close> has its position.\<close>

definition response_to ::
    "(string \<Rightarrow> (json \<Rightarrow> bool) option) \<Rightarrow> (nat \<Rightarrow> string \<Rightarrow> json \<Rightarrow> handled) \<Rightarrow> json \<Rightarrow> reply option" where
  "response_to methods run message =
     (case message of
        JList (v # vs) \<Rightarrow>
          batch_reply (List.map_filter (\<lambda>(i, entry). dispatch_message methods (run i) entry) (List.enumerate 0 (v # vs)))
      | _ \<Rightarrow> dispatch_message methods (run 0) message)"

section \<open>The state of a connection\<close>

datatype rpc_outcome =
    Answered json
  | Refused json json json
  | Connection_Closed
  | Request_Cancelled
  | Request_Timed_Out
  | Request_Not_Json
  | Transport_Failed

text \<open>A waiting call asks its future for a short time, again and again, when it can be cancelled;
  \<open>Expired\<close> is a call whose future was not done when that time was over. \<open>Sending\<close> is a call
  inside \<^verbatim>\<open>transport.send\<close>.\<close>

datatype call_phase = Registered | Sending | Waiting | Expired | Finished rpc_outcome

text \<open>Who holds the send lock: a request, a worker with a reply, the reader with a parse error, or a
  caller of \<^verbatim>\<open>notify\<close>.\<close>

datatype rpc_sender = Caller nat | Worker | Reader | Notifying

record rpc_call =
  cl_message :: json
  cl_cancellable :: bool
  cl_deadline :: bool
  cl_future :: "rpc_outcome option"
  cl_phase :: call_phase
  cl_start :: nat

datatype rpc_event = Notification string json | Marker nat | Stop

datatype close_stage = Open | Marked | Signalled | Released

record rpc_peer =
  rpc_methods :: "string \<Rightarrow> (json \<Rightarrow> bool) option"
  rpc_notifications :: "string list"
  rpc_stage :: close_stage
  rpc_calls :: "rpc_call list"
  rpc_pending :: "(string, nat) dict"
  rpc_reading :: bool
  rpc_notifying :: bool
  rpc_events :: "rpc_event list"
  rpc_jobs :: "json list"
  rpc_running :: "json list"
  rpc_sender_of :: "rpc_sender option"
  rpc_sent :: "json list"
  rpc_inbound :: "json list"
  rpc_received :: "(string \<times> json) list"
  rpc_delivered :: "(string \<times> json) list"
  rpc_markers :: "nat list"

definition rpc_closed :: "rpc_peer \<Rightarrow> bool" where
  "rpc_closed p \<longleftrightarrow> rpc_stage p \<noteq> Open"

definition new_peer :: "(string \<Rightarrow> (json \<Rightarrow> bool) option) \<Rightarrow> string list \<Rightarrow> rpc_peer" where
  "new_peer methods notifications =
     \<lparr>rpc_methods = methods, rpc_notifications = notifications, rpc_stage = Open, rpc_calls = [], rpc_pending = [],
      rpc_reading = True, rpc_notifying = True, rpc_events = [], rpc_jobs = [], rpc_running = [], rpc_sender_of = None,
      rpc_sent = [],
      rpc_inbound = [], rpc_received = [], rpc_delivered = [], rpc_markers = []\<rparr>"

definition call_at :: "rpc_peer \<Rightarrow> nat \<Rightarrow> rpc_call" where
  "call_at p k = rpc_calls p ! k"

definition set_call :: "nat \<Rightarrow> rpc_call \<Rightarrow> rpc_peer \<Rightarrow> rpc_peer" where
  "set_call k c p = p\<lparr>rpc_calls := (rpc_calls p)[k := c]\<rparr>"

text \<open>The first section of \<^verbatim>\<open>close()\<close>: only the first caller passes, and fails what is pending.\<close>

definition mark_closed :: "rpc_peer \<Rightarrow> rpc_peer" where
  "mark_closed p =
     (if rpc_closed p then p
      else p\<lparr>rpc_stage := Marked,
             rpc_calls := fold (\<lambda>(i, k) calls.
                 if cl_future (calls ! k) = None then calls[k := (calls ! k)\<lparr>cl_future := Some Connection_Closed\<rparr>] else calls)
               (rpc_pending p) (rpc_calls p)\<rparr>)"

definition signal_closed :: "rpc_peer \<Rightarrow> rpc_peer" where
  "signal_closed p = p\<lparr>rpc_stage := Signalled, rpc_events := rpc_events p @ [Stop]\<rparr>"

definition release_transport :: "rpc_peer \<Rightarrow> rpc_peer" where
  "release_transport p = p\<lparr>rpc_stage := Released, rpc_jobs := []\<rparr>"

section \<open>Requests\<close>

definition request_id_of :: "nat \<Rightarrow> string" where
  "request_id_of k = nat_str (k + 1)"

definition begin_request :: "string \<Rightarrow> json \<Rightarrow> bool \<Rightarrow> bool \<Rightarrow> rpc_peer \<Rightarrow> (rpc_outcome, rpc_peer) result" where
  "begin_request rpc_method params cancellable deadline p =
     (if rpc_closed p then Inl Connection_Closed
      else
        let k = length (rpc_calls p)
        in Inr (p\<lparr>rpc_calls := rpc_calls p @
               [\<lparr>cl_message = request_message (request_id_of k) rpc_method params, cl_cancellable = cancellable,
                 cl_deadline = deadline, cl_future = None, cl_phase = Registered, cl_start = length (rpc_inbound p)\<rparr>],
             rpc_pending := dict_set (request_id_of k) k (rpc_pending p)\<rparr>))"

text \<open>The return value or exception of the call, and its \<^verbatim>\<open>finally\<close>.\<close>

definition finish_request :: "nat \<Rightarrow> rpc_outcome \<Rightarrow> rpc_peer \<Rightarrow> rpc_peer" where
  "finish_request k r p =
     (set_call k ((call_at p k)\<lparr>cl_phase := Finished r\<rparr>) p)\<lparr>rpc_pending := dict_pop (request_id_of k) (rpc_pending p)\<rparr>"

text \<open>\<^verbatim>\<open>_send\<close> up to the call of the transport. The text is made before the lock is taken; a thread that
  finds the lock taken waits, so the steps below are not enabled then. \<open>rpc_sent\<close> has what was handed
  to the transport.\<close>

definition send_message :: "rpc_sender \<Rightarrow> bool \<Rightarrow> json \<Rightarrow> rpc_peer \<Rightarrow> (rpc_outcome, rpc_peer) result" where
  "send_message who encodable message p =
     (if \<not> encodable then Inl Request_Not_Json
      else if rpc_closed p then Inl Connection_Closed
      else Inr (p\<lparr>rpc_sender_of := Some who, rpc_sent := rpc_sent p @ [message]\<rparr>))"

definition lock_free :: "rpc_peer \<Rightarrow> bool" where
  "lock_free p \<longleftrightarrow> rpc_sender_of p = None"

definition transmit_request :: "nat \<Rightarrow> bool \<Rightarrow> bool \<Rightarrow> rpc_peer \<Rightarrow> rpc_peer" where
  "transmit_request k cancelled encodable p =
     (if cl_cancellable (call_at p k) \<and> cancelled then finish_request k Request_Cancelled p
      else case send_message (Caller k) encodable (cl_message (call_at p k)) p of
        Inl e \<Rightarrow> finish_request k e p
      | Inr p' \<Rightarrow> set_call k ((call_at p k)\<lparr>cl_phase := Sending\<rparr>) p')"

text \<open>One round of waiting. Without a cancellation event the call waits in its future, until
  the time-out if it has one. With an event, the event and the deadline are looked at first.\<close>

definition await_request :: "nat \<Rightarrow> bool \<Rightarrow> bool \<Rightarrow> rpc_peer \<Rightarrow> (unit, rpc_peer) result" where
  "await_request k cancelled late p =
     (let c = call_at p k
      in if cl_cancellable c \<and> cancelled then Inr (finish_request k Request_Cancelled p)
         else if cl_cancellable c \<and> cl_deadline c \<and> late then Inr (finish_request k Request_Timed_Out p)
         else case cl_future c of
           Some r \<Rightarrow> Inr (finish_request k r p)
         | None \<Rightarrow>
             if cl_cancellable c then Inr (set_call k (c\<lparr>cl_phase := Expired\<rparr>) p)
             else if cl_deadline c \<and> late then Inr (finish_request k Request_Timed_Out p)
             else Inl ())"

text \<open>\<^verbatim>\<open>except TimeoutError: if future.done(): raise\<close>.\<close>

definition expire_request :: "nat \<Rightarrow> rpc_peer \<Rightarrow> rpc_peer" where
  "expire_request k p =
     (if cl_future (call_at p k) \<noteq> None then finish_request k Request_Timed_Out p
      else set_call k ((call_at p k)\<lparr>cl_phase := Waiting\<rparr>) p)"

section \<open>The reader\<close>

datatype rpc_input = End_Of_Stream | Broken_Stream | Garbled | Message json

definition is_response :: "json \<Rightarrow> bool" where
  "is_response m \<longleftrightarrow> \<not> in_object ''method'' m \<and> in_object ''id'' m \<and> (in_object ''result'' m \<or> in_object ''error'' m)"

text \<open>The value a response gives to a future; None where reading the error raises.\<close>

definition response_outcome :: "json \<Rightarrow> rpc_outcome option" where
  "response_outcome m =
     (if in_object ''error'' m then
        let e = jget m ''error''
        in if in_object ''code'' e \<and> in_object ''message'' e
           then Some (Refused (jget e ''code'') (jget e ''message'') (jget e ''data'')) else None
      else Some (Answered (jget m ''result'')))"

definition pending_call :: "json \<Rightarrow> rpc_peer \<Rightarrow> nat option" where
  "pending_call i p = (case i of JStr s \<Rightarrow> dict_get (rpc_pending p) s | _ \<Rightarrow> None)"

definition stop_reading :: "rpc_peer \<Rightarrow> rpc_peer" where
  "stop_reading p = mark_closed (p\<lparr>rpc_reading := False\<rparr>)"

definition read_response :: "json \<Rightarrow> rpc_peer \<Rightarrow> rpc_peer" where
  "read_response m p =
     (if \<not> hashable (jget m ''id'') then stop_reading p
      else case pending_call (jget m ''id'') p of
        None \<Rightarrow> p
      | Some k \<Rightarrow>
          if cl_future (call_at p k) \<noteq> None then p
          else case response_outcome m of
            None \<Rightarrow> stop_reading p
          | Some r \<Rightarrow> set_call k ((call_at p k)\<lparr>cl_future := Some r\<rparr>) p)"

definition is_notification_shape :: "json \<Rightarrow> bool" where
  "is_notification_shape m \<longleftrightarrow> jget m ''jsonrpc'' = JStr ''2.0'' \<and> \<not> in_object ''id'' m"

definition known_notification :: "json \<Rightarrow> rpc_peer \<Rightarrow> bool" where
  "known_notification m p = (case jget m ''method'' of JStr s \<Rightarrow> s \<in> set (rpc_notifications p) | _ \<Rightarrow> False)"

definition put_notification :: "json \<Rightarrow> rpc_peer \<Rightarrow> rpc_peer" where
  "put_notification m p =
     (case jget m ''method'' of
        JStr s \<Rightarrow>
          let params = (if in_object ''params'' m then jget m ''params'' else JObj [])
          in p\<lparr>rpc_events := rpc_events p @ [Notification s params], rpc_received := rpc_received p @ [(s, params)]\<rparr>
      | _ \<Rightarrow> p)"

definition submit_job :: "json \<Rightarrow> rpc_peer \<Rightarrow> rpc_peer" where
  "submit_job m p = (if rpc_stage p = Released then stop_reading p else p\<lparr>rpc_jobs := rpc_jobs p @ [m]\<rparr>)"

definition read_message :: "json \<Rightarrow> rpc_peer \<Rightarrow> rpc_peer" where
  "read_message m p =
     (let p = p\<lparr>rpc_inbound := rpc_inbound p @ [m]\<rparr>
      in if is_response m then read_response m p
         else if is_notification_shape m then
           (if \<not> hashable (jget m ''method'') then stop_reading p
            else if known_notification m p then put_notification m p
            else submit_job m p)
         else submit_job m p)"

definition parse_error :: json where
  "parse_error = error_message JNull (- 32700) ''Parse error'' JNull"

definition read_step :: "rpc_input \<Rightarrow> rpc_peer \<Rightarrow> rpc_peer" where
  "read_step x p =
     (let p' = (case x of
          End_Of_Stream \<Rightarrow> stop_reading p
        | Broken_Stream \<Rightarrow> stop_reading p
        | Garbled \<Rightarrow> (case send_message Reader True parse_error p of Inl _ \<Rightarrow> stop_reading p | Inr p' \<Rightarrow> p')
        | Message m \<Rightarrow> read_message m p)
      in if rpc_closed p' then stop_reading p' else p')"

section \<open>Workers, notifications and the steps of the connection\<close>

definition max_rpc_workers :: nat where
  "max_rpc_workers = 4"

definition remove_nth :: "nat \<Rightarrow> 'a list \<Rightarrow> 'a list" where
  "remove_nth i xs = take i xs @ drop (Suc i) xs"

definition respond :: "nat \<Rightarrow> (nat \<Rightarrow> string \<Rightarrow> json \<Rightarrow> handled) \<Rightarrow> rpc_peer \<Rightarrow> rpc_peer" where
  "respond i run p =
     (let q = p\<lparr>rpc_running := remove_nth i (rpc_running p)\<rparr>
      in case response_to (rpc_methods p) run (rpc_running p ! i) of
           None \<Rightarrow> q
         | Some r \<Rightarrow>
             if rpc_closed p then q
             else (case r of
                 Unsendable \<Rightarrow> mark_closed q
               | Reply v \<Rightarrow> (case send_message Worker True v q of Inl _ \<Rightarrow> mark_closed q | Inr q' \<Rightarrow> q')))"

text \<open>A worker waits for the send lock only with a reply that can be sent.\<close>

definition respond_ready :: "nat \<Rightarrow> (nat \<Rightarrow> string \<Rightarrow> json \<Rightarrow> handled) \<Rightarrow> rpc_peer \<Rightarrow> bool" where
  "respond_ready i run p \<longleftrightarrow> i < length (rpc_running p) \<and>
     (lock_free p \<or> rpc_closed p \<or>
      (case response_to (rpc_methods p) run (rpc_running p ! i) of Some (Reply v) \<Rightarrow> False | _ \<Rightarrow> True))"

text \<open>The transport returns or raises, the lock is released, and the thread that sent goes on.\<close>

definition transport_returns :: "bool \<Rightarrow> rpc_peer \<Rightarrow> (unit, rpc_peer) result" where
  "transport_returns transport_ok p =
     (let q = p\<lparr>rpc_sender_of := None\<rparr>
      in case rpc_sender_of p of
           None \<Rightarrow> Inl ()
         | Some (Caller k) \<Rightarrow>
             Inr (if transport_ok then set_call k ((call_at q k)\<lparr>cl_phase := Waiting\<rparr>) q
                  else finish_request k Transport_Failed q)
         | Some Worker \<Rightarrow> Inr (if transport_ok then q else mark_closed q)
         | Some Reader \<Rightarrow> Inr (if transport_ok \<and> \<not> rpc_closed q then q else stop_reading q)
         | Some Notifying \<Rightarrow> Inr q)"

definition deliver :: "bool \<Rightarrow> rpc_peer \<Rightarrow> (unit, rpc_peer) result" where
  "deliver handler_ok p =
     (case rpc_events p of
        [] \<Rightarrow> Inl ()
      | Notification s params # es \<Rightarrow>
          if (case params of JObj _ \<Rightarrow> handler_ok | _ \<Rightarrow> False)
          then Inr (p\<lparr>rpc_events := es, rpc_delivered := rpc_delivered p @ [(s, params)]\<rparr>)
          else Inr (mark_closed (p\<lparr>rpc_events := es, rpc_notifying := False\<rparr>))
      | Marker n # es \<Rightarrow> Inr (p\<lparr>rpc_events := es, rpc_markers := n # rpc_markers p\<rparr>)
      | Stop # es \<Rightarrow> Inr (p\<lparr>rpc_events := es, rpc_notifying := False\<rparr>))"

text \<open>\<^verbatim>\<open>wait_notifications\<close> puts a marker on the queue, here with the number of notifications received so far.\<close>

definition put_marker :: "rpc_peer \<Rightarrow> rpc_peer" where
  "put_marker p = p\<lparr>rpc_events := rpc_events p @ [Marker (length (rpc_received p))]\<rparr>"

datatype rpc_op =
    Begin string json bool bool
  | Send nat bool bool
  | Returned bool
  | Await nat bool bool
  | Expire nat
  | Notify string json bool
  | Read rpc_input
  | Take_Job
  | Respond nat "nat \<Rightarrow> string \<Rightarrow> json \<Rightarrow> handled"
  | Deliver bool
  | Mark
  | Close
  | Signal
  | Release

definition in_phase :: "nat \<Rightarrow> call_phase \<Rightarrow> rpc_peer \<Rightarrow> bool" where
  "in_phase k ph p \<longleftrightarrow> k < length (rpc_calls p) \<and> cl_phase (call_at p k) = ph"

definition guarded :: "bool \<Rightarrow> 'a \<Rightarrow> (unit, 'a) result" where
  "guarded b x = (if b then Inr x else Inl ())"

fun rpc_step :: "rpc_peer \<Rightarrow> rpc_op \<Rightarrow> (unit, rpc_peer) result" where
  "rpc_step p (Begin rpc_method params cancellable deadline) = map_sum (\<lambda>_. ()) id (begin_request rpc_method params cancellable deadline p)"
| "rpc_step p (Send k cancelled encodable) =
     guarded (in_phase k Registered p \<and> (cl_cancellable (call_at p k) \<and> cancelled \<or> \<not> encodable \<or> lock_free p))
       (transmit_request k cancelled encodable p)"
| "rpc_step p (Returned transport_ok) = transport_returns transport_ok p"
| "rpc_step p (Await k cancelled late) = (if in_phase k Waiting p then await_request k cancelled late p else Inl ())"
| "rpc_step p (Expire k) = guarded (in_phase k Expired p) (expire_request k p)"
| "rpc_step p (Notify rpc_method params encodable) =
     (if \<not> encodable \<or> lock_free p
      then map_sum (\<lambda>_. ()) id (send_message Notifying encodable (notification_message rpc_method params) p) else Inl ())"
| "rpc_step p (Read x) =
     guarded (rpc_reading p \<and> rpc_sender_of p \<noteq> Some Reader \<and> (x = Garbled \<longrightarrow> lock_free p)) (read_step x p)"
| "rpc_step p Take_Job =
     (case rpc_jobs p of
        m # ms \<Rightarrow> guarded (length (rpc_running p) + (if rpc_sender_of p = Some Worker then 1 else 0) < max_rpc_workers)
          (p\<lparr>rpc_jobs := ms, rpc_running := rpc_running p @ [m]\<rparr>)
      | [] \<Rightarrow> Inl ())"
| "rpc_step p (Respond i run) = guarded (respond_ready i run p) (respond i run p)"
| "rpc_step p (Deliver handler_ok) = (if rpc_notifying p then deliver handler_ok p else Inl ())"
| "rpc_step p Mark = Inr (put_marker p)"
| "rpc_step p Close = Inr (mark_closed p)"
| "rpc_step p Signal = guarded (rpc_stage p = Marked) (signal_closed p)"
| "rpc_step p Release = guarded (rpc_stage p = Signalled \<and> lock_free p) (release_transport p)"

section \<open>Calls and their futures\<close>

definition finished :: "rpc_call \<Rightarrow> bool" where
  "finished c \<longleftrightarrow> (\<exists>r. cl_phase c = Finished r)"

text \<open>The pending table has exactly the calls that have not returned.\<close>

definition pending_ok :: "rpc_peer \<Rightarrow> bool" where
  "pending_ok p \<longleftrightarrow> dict_ok (rpc_pending p) \<and>
     (\<forall>i k. dict_get (rpc_pending p) i = Some k \<longleftrightarrow>
        k < length (rpc_calls p) \<and> i = request_id_of k \<and> \<not> finished (call_at p k))"

definition answers :: "nat \<Rightarrow> json \<Rightarrow> bool" where
  "answers k m \<longleftrightarrow> is_response m \<and> jget m ''id'' = JStr (request_id_of k)"

definition first_answer :: "rpc_peer \<Rightarrow> nat \<Rightarrow> json option" where
  "first_answer p k = find (answers k) (drop (cl_start (call_at p k)) (rpc_inbound p))"

fun from_response :: "rpc_outcome \<Rightarrow> bool" where
  "from_response (Answered _) = True"
| "from_response (Refused _ _ _) = True"
| "from_response _ = False"

definition call_sound :: "rpc_peer \<Rightarrow> nat \<Rightarrow> bool" where
  "call_sound p k \<longleftrightarrow>
     cl_start (call_at p k) \<le> length (rpc_inbound p) \<and>
     (\<forall>r. cl_future (call_at p k) = Some r \<longrightarrow> from_response r \<longrightarrow>
        (\<exists>m. first_answer p k = Some m \<and> response_outcome m = Some r)) \<and>
     (cl_future (call_at p k) = None \<longrightarrow> \<not> finished (call_at p k) \<longrightarrow> first_answer p k = None \<and> \<not> rpc_closed p) \<and>
     (\<forall>r. cl_phase (call_at p k) = Finished r \<longrightarrow> from_response r \<longrightarrow> cl_future (call_at p k) = Some r)"

definition calls_ok :: "rpc_peer \<Rightarrow> bool" where
  "calls_ok p \<longleftrightarrow> pending_ok p \<and> (\<forall>k < length (rpc_calls p). call_sound p k)"

text \<open>Steps that leave the calls, the pending table, the messages and the stage alone.\<close>

definition same_calls :: "rpc_peer \<Rightarrow> rpc_peer \<Rightarrow> bool" where
  "same_calls p q \<longleftrightarrow> rpc_calls q = rpc_calls p \<and> rpc_pending q = rpc_pending p \<and> rpc_inbound q = rpc_inbound p \<and>
     rpc_closed q = rpc_closed p"

lemma calls_ok_cong: "calls_ok p \<Longrightarrow> same_calls p q \<Longrightarrow> calls_ok q"
  by (simp add: calls_ok_def same_calls_def pending_ok_def call_sound_def call_at_def first_answer_def)

lemma call_at_set [simp]:
  "k < length (rpc_calls p) \<Longrightarrow> call_at (set_call k c p) j = (if j = k then c else call_at p j)"
  "length (rpc_calls (set_call k c p)) = length (rpc_calls p)" "rpc_pending (set_call k c p) = rpc_pending p"
  "rpc_inbound (set_call k c p) = rpc_inbound p" "rpc_closed (set_call k c p) = rpc_closed p"
  by (auto simp: set_call_def call_at_def rpc_closed_def)

lemma request_id_inj [simp]: "request_id_of j = request_id_of k \<longleftrightarrow> j = k"
  by (simp add: request_id_of_def)

lemma call_soundD: "calls_ok p \<Longrightarrow> k < length (rpc_calls p) \<Longrightarrow> call_sound p k"
  by (simp add: calls_ok_def)

text \<open>Updating one call keeps the table when the call stays unfinished.\<close>

lemma calls_ok_set:
  assumes "calls_ok p" "k < length (rpc_calls p)" "\<not> finished (call_at p k)" "\<not> finished c"
    and "call_sound (set_call k c p) k"
  shows "calls_ok (set_call k c p)"
proof -
  have "pending_ok (set_call k c p)" using assms(1-4) by (auto simp: calls_ok_def pending_ok_def)
  moreover have "call_sound (set_call k c p) j" if "j < length (rpc_calls p)" "j \<noteq> k" for j
    using call_soundD [OF assms(1) that(1)] that(2) assms(2) by (simp add: call_sound_def first_answer_def)
  ultimately show ?thesis using assms(5) by (auto simp: calls_ok_def)
qed

lemma calls_ok_finish:
  assumes "calls_ok p" "k < length (rpc_calls p)" "from_response r \<Longrightarrow> cl_future (call_at p k) = Some r"
  shows "calls_ok (finish_request k r p)"
proof -
  let ?q = "finish_request k r p"
  have at: "call_at ?q j = (if j = k then (call_at p k)\<lparr>cl_phase := Finished r\<rparr> else call_at p j)" for j
    using assms(2) by (simp add: finish_request_def call_at_def set_call_def)
  have f: "length (rpc_calls ?q) = length (rpc_calls p)" "rpc_inbound ?q = rpc_inbound p" "rpc_closed ?q = rpc_closed p"
      "rpc_pending ?q = dict_pop (request_id_of k) (rpc_pending p)"
    by (auto simp: finish_request_def set_call_def rpc_closed_def)
  have "pending_ok ?q"
    using assms(1) unfolding calls_ok_def pending_ok_def f at
    by (auto simp: dict_ok_pop dict_simps finished_def split: if_splits)
  moreover have "call_sound ?q j" if "j < length (rpc_calls p)" for j
    using call_soundD [OF assms(1) that] assms(3) by (auto simp: call_sound_def first_answer_def at f finished_def)
  ultimately show ?thesis by (simp add: calls_ok_def f)
qed

lemma fold_fail_pending:
  assumes "\<forall>(i, k) \<in> set ps. k < length calls"
  shows "let calls' = fold (\<lambda>(i, k) calls. if cl_future (calls ! k) = None
      then calls[k := (calls ! k)\<lparr>cl_future := Some Connection_Closed\<rparr>] else calls) ps calls
    in length calls' = length calls \<and>
       (\<forall>k < length calls. calls' ! k = (if k \<in> snd ` set ps \<and> cl_future (calls ! k) = None
          then (calls ! k)\<lparr>cl_future := Some Connection_Closed\<rparr> else calls ! k))"
  using assms
proof (induction ps arbitrary: calls)
  case Nil
  then show ?case by simp
next
  case (Cons x ps)
  obtain i j where x: "x = (i, j)" by fastforce
  let ?calls = "if cl_future (calls ! j) = None then calls[j := (calls ! j)\<lparr>cl_future := Some Connection_Closed\<rparr>] else calls"
  have len: "length ?calls = length calls" by simp
  have "\<forall>(i, k) \<in> set ps. k < length ?calls" using Cons.prems by auto
  from Cons.IH [OF this] Cons.prems show ?case by (auto simp: x Let_def nth_list_update)
qed

lemma mark_closed_calls:
  assumes "pending_ok p" "\<not> rpc_closed p"
  shows "length (rpc_calls (mark_closed p)) = length (rpc_calls p)"
    "k < length (rpc_calls p) \<Longrightarrow> call_at (mark_closed p) k =
       (if \<not> finished (call_at p k) \<and> cl_future (call_at p k) = None
        then (call_at p k)\<lparr>cl_future := Some Connection_Closed\<rparr> else call_at p k)"
proof -
  have get: "(i, k) \<in> set (rpc_pending p) \<Longrightarrow> k < length (rpc_calls p) \<and> i = request_id_of k \<and> \<not> finished (call_at p k)" for i k
    using assms(1) dict_get_mem unfolding pending_ok_def by metis
  then have "\<forall>(i, k) \<in> set (rpc_pending p). k < length (rpc_calls p)" by blast
  note fold = fold_fail_pending [OF this, unfolded Let_def]
  from fold show "length (rpc_calls (mark_closed p)) = length (rpc_calls p)"
    using assms(2) by (simp add: mark_closed_def)
  have "k \<in> snd ` set (rpc_pending p) \<longleftrightarrow> k < length (rpc_calls p) \<and> \<not> finished (call_at p k)" for k
  proof
    show "k \<in> snd ` set (rpc_pending p) \<Longrightarrow> k < length (rpc_calls p) \<and> \<not> finished (call_at p k)" using get by force
    show "k < length (rpc_calls p) \<and> \<not> finished (call_at p k) \<Longrightarrow> k \<in> snd ` set (rpc_pending p)"
      using assms(1) dict_get_SomeD unfolding pending_ok_def by (metis image_eqI snd_conv)
  qed
  with fold show "k < length (rpc_calls p) \<Longrightarrow> call_at (mark_closed p) k =
       (if \<not> finished (call_at p k) \<and> cl_future (call_at p k) = None
        then (call_at p k)\<lparr>cl_future := Some Connection_Closed\<rparr> else call_at p k)"
    using assms(2) by (simp add: mark_closed_def call_at_def)
qed

text \<open>A message that was just received may answer a call whose future is not set yet.\<close>

definition calls_weak :: "rpc_peer \<Rightarrow> bool" where
  "calls_weak p \<longleftrightarrow> pending_ok p \<and> (\<forall>k < length (rpc_calls p).
     cl_start (call_at p k) \<le> length (rpc_inbound p) \<and>
     (\<forall>r. cl_future (call_at p k) = Some r \<longrightarrow> from_response r \<longrightarrow>
        (\<exists>m. first_answer p k = Some m \<and> response_outcome m = Some r)) \<and>
     (cl_future (call_at p k) = None \<longrightarrow> \<not> finished (call_at p k) \<longrightarrow> \<not> rpc_closed p) \<and>
     (\<forall>r. cl_phase (call_at p k) = Finished r \<longrightarrow> from_response r \<longrightarrow> cl_future (call_at p k) = Some r))"

lemma calls_ok_weak: "calls_ok p \<Longrightarrow> calls_weak p"
  by (auto simp: calls_ok_def calls_weak_def call_sound_def)

lemma calls_ok_strong:
  assumes "calls_weak p"
    and "\<And>k. k < length (rpc_calls p) \<Longrightarrow> cl_future (call_at p k) = None \<Longrightarrow> \<not> finished (call_at p k) \<Longrightarrow> first_answer p k = None"
  shows "calls_ok p"
  using assms by (auto simp: calls_ok_def calls_weak_def call_sound_def)

lemma calls_weak_cong: "calls_weak p \<Longrightarrow> same_calls p q \<Longrightarrow> calls_weak q"
  by (simp add: calls_weak_def same_calls_def pending_ok_def call_at_def first_answer_def)

lemma find_append_Some: "find P xs = Some x \<Longrightarrow> find P (xs @ ys) = Some x"
  by (induction xs) auto

lemma find_append_None: "find P xs = None \<Longrightarrow> find P (xs @ ys) = find P ys"
  by (induction xs) auto

definition record_message :: "json \<Rightarrow> rpc_peer \<Rightarrow> rpc_peer" where
  "record_message m p = p\<lparr>rpc_inbound := rpc_inbound p @ [m]\<rparr>"

lemma record_message_fields [simp]:
  "call_at (record_message m p) k = call_at p k" "rpc_calls (record_message m p) = rpc_calls p"
  "rpc_pending (record_message m p) = rpc_pending p" "rpc_closed (record_message m p) = rpc_closed p"
  "rpc_inbound (record_message m p) = rpc_inbound p @ [m]"
  by (simp_all add: record_message_def call_at_def rpc_closed_def)

lemma first_answer_record:
  assumes "cl_start (call_at p k) \<le> length (rpc_inbound p)"
  shows "first_answer p k = Some a \<Longrightarrow> first_answer (record_message m p) k = Some a"
    "first_answer p k = None \<Longrightarrow> first_answer (record_message m p) k = (if answers k m then Some m else None)"
  using assms by (simp_all add: first_answer_def find_append_Some find_append_None)

lemma record_weak:
  assumes "calls_ok p"
  shows "calls_weak (record_message m p)"
proof -
  have "pending_ok (record_message m p)" using assms by (simp add: calls_ok_def pending_ok_def)
  moreover have "call_sound p k" if "k < length (rpc_calls p)" for k using assms that by (simp add: calls_ok_def)
  ultimately show ?thesis
    unfolding calls_weak_def using first_answer_record(1) by (fastforce simp: call_sound_def)
qed

lemma record_other:
  assumes "calls_ok p" "\<And>k. k < length (rpc_calls p) \<Longrightarrow> cl_future (call_at p k) = None \<Longrightarrow> \<not> finished (call_at p k) \<Longrightarrow> \<not> answers k m"
  shows "calls_ok (record_message m p)"
proof (rule calls_ok_strong [OF record_weak [OF assms(1)]])
  fix k assume k: "k < length (rpc_calls (record_message m p))" "cl_future (call_at (record_message m p) k) = None"
    "\<not> finished (call_at (record_message m p) k)"
  then have "call_sound p k" using assms(1) by (simp add: calls_ok_def)
  with k assms(2) [of k] first_answer_record(2) [of p k m] show "first_answer (record_message m p) k = None"
    by (simp add: call_sound_def)
qed

lemma mark_closed_frame [simp]:
  "rpc_inbound (mark_closed p) = rpc_inbound p" "rpc_pending (mark_closed p) = rpc_pending p" "rpc_closed (mark_closed p)"
  "rpc_closed p \<Longrightarrow> mark_closed p = p"
  by (auto simp: mark_closed_def rpc_closed_def)

lemma close_calls:
  assumes "calls_weak p"
  shows "calls_ok (mark_closed p)"
proof (cases "rpc_closed p")
  case True
  with assms show ?thesis by (intro calls_ok_strong) (auto simp: calls_weak_def)
next
  case False
  have pend: "pending_ok p" using assms by (simp add: calls_weak_def)
  note at = mark_closed_calls [OF pend False]
  have fin: "k < length (rpc_calls p) \<Longrightarrow> finished (call_at (mark_closed p) k) = finished (call_at p k)" for k
    by (simp add: at finished_def)
  have "pending_ok (mark_closed p)" using pend fin unfolding pending_ok_def at(1) by auto
  moreover have "call_sound (mark_closed p) k" if k: "k < length (rpc_calls p)" for k
    using assms k unfolding calls_weak_def call_sound_def first_answer_def by (auto simp: at(2) finished_def)
  ultimately show ?thesis by (simp add: calls_ok_def at(1))
qed

lemma stop_reading_ok: "calls_weak p \<Longrightarrow> calls_ok (stop_reading p)"
proof -
  assume "calls_weak p"
  then have "calls_weak (p\<lparr>rpc_reading := False\<rparr>)" by (rule calls_weak_cong) (simp add: same_calls_def rpc_closed_def)
  then show ?thesis unfolding stop_reading_def by (rule close_calls)
qed

lemma pending_call_Some:
  assumes "pending_ok p"
  shows "pending_call v p = Some k \<longleftrightarrow> v = JStr (request_id_of k) \<and> k < length (rpc_calls p) \<and> \<not> finished (call_at p k)"
  using assms by (cases v) (auto simp: pending_call_def pending_ok_def)

lemma set_future_ok:
  assumes "calls_ok p" "is_response m" "jget m ''id'' = JStr (request_id_of k)" "k < length (rpc_calls p)"
    and "\<not> finished (call_at p k)" "cl_future (call_at p k) = None" "response_outcome m = Some r"
  shows "calls_ok (set_call k ((call_at p k)\<lparr>cl_future := Some r\<rparr>) (record_message m p))" (is "calls_ok ?q")
proof (rule calls_ok_strong)
  let ?p = "record_message m p"
  have weak: "calls_weak ?p" using assms(1) by (rule record_weak)
  then have pend: "pending_ok ?p" by (simp add: calls_weak_def)
  have "first_answer ?p k = Some m"
    using first_answer_record(2) [of p k m] assms by (simp add: calls_ok_def call_sound_def answers_def)
  then have first: "first_answer ?q j = (if j = k then Some m else first_answer ?p j)" for j
    using assms(4) by (simp add: first_answer_def)
  show "calls_weak ?q"
    unfolding calls_weak_def
  proof (intro conjI allI impI)
    show "pending_ok ?q" using pend assms(4,5) by (auto simp: pending_ok_def finished_def)
    show "\<exists>a. first_answer ?q j = Some a \<and> response_outcome a = Some r'"
      if "j < length (rpc_calls ?q)" "cl_future (call_at ?q j) = Some r'" "from_response r'" for j r'
      using that assms(4,7) weak by (auto simp: first calls_weak_def split: if_splits)
  qed (use weak assms(4,5) in \<open>auto simp: calls_weak_def finished_def split: if_splits\<close>)
  show "first_answer ?q j = None"
    if "j < length (rpc_calls ?q)" "cl_future (call_at ?q j) = None" "\<not> finished (call_at ?q j)" for j
  proof -
    have j: "j \<noteq> k" "j < length (rpc_calls p)" using that assms(4) by (auto split: if_splits)
    with that assms(1,4) have "first_answer p j = None" "cl_start (call_at p j) \<le> length (rpc_inbound p)"
      by (auto simp: calls_ok_def call_sound_def)
    with j assms(3) show ?thesis using first_answer_record(2) [of p j m] by (auto simp: first answers_def)
  qed
qed

lemma read_response_ok:
  assumes "calls_ok p" "is_response m"
  shows "calls_ok (read_response m (record_message m p))"
proof -
  let ?p = "record_message m p"
  have weak: "calls_weak ?p" using assms(1) by (rule record_weak)
  then have pend: "pending_ok ?p" by (simp add: calls_weak_def)
  note stopped = stop_reading_ok [OF weak]
  show ?thesis
  proof (cases "pending_call (jget m ''id'') ?p")
    case None
    have "\<not> answers k m" if "k < length (rpc_calls p)" "\<not> finished (call_at p k)" for k
      using None that pending_call_Some [OF pend, of "jget m ''id''" k] by (auto simp: answers_def)
    then have "calls_ok ?p" using assms(1) by (intro record_other) auto
    with None stopped show ?thesis by (simp add: read_response_def)
  next
    case (Some k)
    then have k: "jget m ''id'' = JStr (request_id_of k)" "k < length (rpc_calls p)" "\<not> finished (call_at p k)"
      by (auto simp: pending_call_Some [OF pend])
    have "calls_ok ?p" if "cl_future (call_at p k) \<noteq> None"
      using assms(1) k(1) that by (intro record_other) (auto simp: answers_def)
    then show ?thesis
      using Some stopped set_future_ok [OF assms k] by (auto simp: read_response_def split: option.split)
  qed
qed

lemma read_message_ok:
  assumes "calls_ok p"
  shows "calls_ok (read_message m p)"
proof (cases "is_response m")
  case True
  with read_response_ok [OF assms] show ?thesis by (simp add: read_message_def record_message_def Let_def)
next
  case False
  then have "\<not> answers k m" for k by (simp add: answers_def)
  then have ok: "calls_ok (record_message m p)" using record_other [OF assms] by blast
  then have stop: "calls_ok (stop_reading (record_message m p))" by (intro stop_reading_ok calls_ok_weak)
  have put: "calls_ok (put_notification m (record_message m p))"
    using ok by (rule calls_ok_cong) (auto simp: same_calls_def put_notification_def Let_def rpc_closed_def split: json.split)
  have "calls_ok (submit_job m (record_message m p))"
    using stop ok calls_ok_cong [OF ok, of "(record_message m p)\<lparr>rpc_jobs := rpc_jobs (record_message m p) @ [m]\<rparr>"]
    by (simp add: submit_job_def same_calls_def rpc_closed_def)
  with False put stop show ?thesis
    by (simp add: read_message_def Let_def flip: record_message_def)
qed

lemma send_message_same: "send_message w e m p = Inr q \<Longrightarrow> same_calls p q \<and> \<not> rpc_closed p"
  by (auto simp: send_message_def same_calls_def rpc_closed_def split: if_splits)

lemma send_message_failed: "send_message w e m p = Inl r \<Longrightarrow> \<not> from_response r"
  by (auto simp: send_message_def split: if_splits)

lemma read_step_ok: "calls_ok p \<Longrightarrow> calls_ok (read_step x p)"
proof -
  assume ok: "calls_ok p"
  define q where "q = (case x of
          End_Of_Stream \<Rightarrow> stop_reading p
        | Broken_Stream \<Rightarrow> stop_reading p
        | Garbled \<Rightarrow> (case send_message Reader True parse_error p of Inl _ \<Rightarrow> stop_reading p | Inr p' \<Rightarrow> p')
        | Message m \<Rightarrow> read_message m p)"
  have "calls_ok (stop_reading p)" using ok by (intro stop_reading_ok calls_ok_weak)
  then have "calls_ok q"
    unfolding q_def using ok read_message_ok calls_ok_cong send_message_same by (auto split: rpc_input.split sum.split)
  then show ?thesis using stop_reading_ok [OF calls_ok_weak] by (simp add: read_step_def flip: q_def)
qed

lemma phase_ok:
  assumes "calls_ok p" "in_phase k ph p" "\<not> (\<exists>r. ph = Finished r)" "\<not> (\<exists>r. ph' = Finished r)"
  shows "calls_ok (set_call k ((call_at p k)\<lparr>cl_phase := ph'\<rparr>) p)"
proof (rule calls_ok_set)
  have k: "k < length (rpc_calls p)" "cl_phase (call_at p k) = ph" using assms(2) by (auto simp: in_phase_def)
  then show "k < length (rpc_calls p)" "\<not> finished (call_at p k)" "\<not> finished ((call_at p k)\<lparr>cl_phase := ph'\<rparr>)"
    using assms(3,4) by (auto simp: finished_def)
  then show "call_sound (set_call k ((call_at p k)\<lparr>cl_phase := ph'\<rparr>) p) k"
    using call_soundD [OF assms(1) k(1)] k assms(3,4) by (auto simp: call_sound_def first_answer_def finished_def)
qed (rule assms(1))

lemma in_phase_length: "in_phase k ph p \<Longrightarrow> k < length (rpc_calls p)"
  by (simp add: in_phase_def)

lemma transmit_request_ok:
  assumes "calls_ok p" "in_phase k Registered p"
  shows "calls_ok (transmit_request k c e p)"
proof (cases "send_message (Caller k) e (cl_message (call_at p k)) p")
  case (Inl r)
  then show ?thesis
    using send_message_failed [OF Inl]
    by (auto simp: transmit_request_def intro!: calls_ok_finish [OF assms(1) in_phase_length [OF assms(2)]])
next
  case (Inr q)
  then have same: "same_calls p q" by (simp add: send_message_same)
  then have "calls_ok (set_call k ((call_at q k)\<lparr>cl_phase := Sending\<rparr>) q)"
    using assms by (intro phase_ok [where ph = Registered] calls_ok_cong [OF assms(1) same])
      (auto simp: in_phase_def same_calls_def call_at_def)
  moreover have "call_at q k = call_at p k" using same by (simp add: same_calls_def call_at_def)
  ultimately show ?thesis
    using Inr by (auto simp: transmit_request_def intro!: calls_ok_finish [OF assms(1) in_phase_length [OF assms(2)]])
qed

text \<open>The call that is inside the transport is the one that holds the send lock.\<close>

definition sender_ok :: "rpc_peer \<Rightarrow> bool" where
  "sender_ok p \<longleftrightarrow> (\<forall>k. in_phase k Sending p \<longleftrightarrow> rpc_sender_of p = Some (Caller k))"

lemma transport_returns_ok:
  assumes "calls_ok p" "sender_ok p" "transport_returns t p = Inr q"
  shows "calls_ok q"
proof -
  let ?p = "p\<lparr>rpc_sender_of := None\<rparr>"
  have ok: "calls_ok ?p" using assms(1) by (rule calls_ok_cong) (simp add: same_calls_def rpc_closed_def)
  show ?thesis
  proof (cases "rpc_sender_of p")
    case None
    with assms(3) show ?thesis by (simp add: transport_returns_def)
  next
    case (Some w)
    show ?thesis
    proof (cases w)
      case (Caller k)
      then have k: "in_phase k Sending ?p"
        using Some assms(2) by (simp add: sender_ok_def in_phase_def call_at_def)
      from phase_ok [OF ok k, of Waiting] calls_ok_finish [OF ok in_phase_length [OF k], of Transport_Failed]
      show ?thesis using Some Caller assms(3) by (auto simp: transport_returns_def Let_def split: if_splits)
    qed (use Some assms(3) ok close_calls [OF calls_ok_weak [OF ok]] stop_reading_ok [OF calls_ok_weak [OF ok]] in
        \<open>auto simp: transport_returns_def Let_def split: if_splits\<close>)
  qed
qed

lemma await_request_ok:
  assumes "calls_ok p" "in_phase k Waiting p" "await_request k c l p = Inr q"
  shows "calls_ok q"
proof -
  have "calls_ok (set_call k ((call_at p k)\<lparr>cl_phase := Expired\<rparr>) p)" using assms by (intro phase_ok) auto
  with assms(3) show ?thesis
    by (auto simp: await_request_def Let_def intro!: calls_ok_finish [OF assms(1) in_phase_length [OF assms(2)]]
        split: if_splits option.splits)
qed

lemma expire_request_ok:
  assumes "calls_ok p" "in_phase k Expired p"
  shows "calls_ok (expire_request k p)"
  using phase_ok [OF assms, of Waiting]
  by (auto simp: expire_request_def intro!: calls_ok_finish [OF assms(1) in_phase_length [OF assms(2)]])

lemma begin_request_ok:
  assumes "calls_ok p" "begin_request s v c d p = Inr q"
  shows "calls_ok q"
proof -
  let ?k = "length (rpc_calls p)"
  have opened: "\<not> rpc_closed p" using assms(2) by (simp add: begin_request_def split: if_splits)
  have f: "length (rpc_calls q) = Suc ?k" "rpc_inbound q = rpc_inbound p" "rpc_closed q = rpc_closed p"
      "rpc_pending q = dict_set (request_id_of ?k) ?k (rpc_pending p)"
      "k < ?k \<Longrightarrow> call_at q k = call_at p k"
      "cl_future (call_at q ?k) = None" "cl_phase (call_at q ?k) = Registered" "cl_start (call_at q ?k) = length (rpc_inbound p)" for k
    using assms(2) by (auto simp: begin_request_def Let_def rpc_closed_def call_at_def nth_append split: if_splits)
  have "dict_get (rpc_pending p) i = Some j \<longleftrightarrow> j < ?k \<and> i = request_id_of j \<and> \<not> finished (call_at p j)" for i j
    using assms(1) by (simp add: calls_ok_def pending_ok_def)
  then have "pending_ok q"
    using assms(1) unfolding pending_ok_def f(1,4) calls_ok_def
    by (auto simp: dict_simps dict_ok_set less_Suc_eq f(5,7) finished_def)
  moreover have "call_sound q ?k" using opened by (simp add: call_sound_def f first_answer_def finished_def)
  moreover have "call_sound q k" if "k < ?k" for k
    using call_soundD [OF assms(1) that] that by (simp add: call_sound_def f first_answer_def)
  ultimately show ?thesis by (auto simp: calls_ok_def f(1) less_Suc_eq)
qed

lemma respond_ok: "calls_ok p \<Longrightarrow> calls_ok (respond i run p)"
proof -
  assume ok: "calls_ok p"
  have q: "calls_ok (p\<lparr>rpc_running := xs\<rparr>)" for xs
    using ok by (rule calls_ok_cong) (simp add: same_calls_def rpc_closed_def)
  note [intro] = close_calls [OF calls_ok_weak] calls_ok_cong [OF q]
  show ?thesis
    by (auto simp: respond_def Let_def q dest!: send_message_same split: option.split reply.split sum.split)
qed

lemma deliver_ok: "calls_ok p \<Longrightarrow> deliver h p = Inr q \<Longrightarrow> calls_ok q"
proof -
  assume ok: "calls_ok p" and q: "deliver h p = Inr q"
  have same: "calls_ok (p\<lparr>rpc_events := a, rpc_delivered := b\<rparr>)" "calls_ok (p\<lparr>rpc_events := a, rpc_notifying := c\<rparr>)"
      "calls_ok (p\<lparr>rpc_events := a, rpc_markers := d\<rparr>)" for a b c d
    using ok by (auto intro!: calls_ok_cong [OF ok] simp: same_calls_def rpc_closed_def)
  show ?thesis
    using q close_calls [OF calls_ok_weak] same
    by (auto simp: deliver_def split: list.splits rpc_event.splits if_splits)
qed

lemma rpc_step_ok:
  assumes "calls_ok p" "sender_ok p" "rpc_step p x = Inr q"
  shows "calls_ok q"
proof (cases x)
  case (Begin a b c d)
  with assms begin_request_ok show ?thesis by (cases "begin_request a b c d p") auto
next
  case (Send k c e)
  with assms transmit_request_ok show ?thesis by (auto simp: guarded_def split: if_splits)
next
  case (Returned t)
  with assms transport_returns_ok show ?thesis by simp
next
  case (Await k c l)
  with assms await_request_ok show ?thesis by (auto split: if_splits)
next
  case (Expire k)
  with assms expire_request_ok show ?thesis by (auto simp: guarded_def split: if_splits)
next
  case (Notify a b c)
  with assms show ?thesis
    by (cases "send_message Notifying c (notification_message a b) p")
      (auto dest: send_message_same intro: calls_ok_cong split: if_splits)
next
  case (Read y)
  with assms read_step_ok show ?thesis by (auto simp: guarded_def split: if_splits)
next
  case (Respond i run)
  with assms respond_ok show ?thesis by (auto simp: guarded_def split: if_splits)
next
  case (Deliver h)
  with assms deliver_ok show ?thesis by (auto split: if_splits)
next
  case Close
  with assms close_calls [OF calls_ok_weak] show ?thesis by auto
qed (use assms calls_ok_cong [OF assms(1)] in
    \<open>auto simp: guarded_def same_calls_def rpc_closed_def put_marker_def signal_closed_def release_transport_def
      split: if_splits list.splits\<close>)

text \<open>What \<open>sender_ok\<close> depends on.\<close>

definition phases :: "rpc_peer \<Rightarrow> call_phase list" where
  "phases p = map cl_phase (rpc_calls p)"

definition sending_view :: "rpc_peer \<Rightarrow> call_phase list \<times> rpc_sender option" where
  "sending_view p = (phases p, rpc_sender_of p)"

lemma in_phase_view: "in_phase k ph p \<longleftrightarrow> k < length (phases p) \<and> phases p ! k = ph"
  by (auto simp: in_phase_def phases_def call_at_def)

lemma sender_ok_view:
  "sender_ok p \<longleftrightarrow> (\<forall>k. k < length (phases p) \<and> phases p ! k = Sending \<longleftrightarrow> rpc_sender_of p = Some (Caller k))"
  by (simp add: sender_ok_def in_phase_view)

lemma sender_ok_cong: "sending_view q = sending_view p \<Longrightarrow> sender_ok q = sender_ok p"
  by (simp add: sender_ok_view sending_view_def)

lemma phases_set: "phases (set_call k c p) = (phases p)[k := cl_phase c]"
  by (simp add: phases_def set_call_def map_update)

lemma update_own_phase: "(map cl_phase calls)[k := cl_phase (calls ! k)] = map cl_phase calls"
  by (cases "k < length calls") (simp_all add: list_update_same_conv list_update_beyond)

lemma view_set_future [simp]:
  "sending_view (set_call k ((call_at p k)\<lparr>cl_future := r\<rparr>) p) = sending_view p"
  by (simp add: sending_view_def phases_def set_call_def call_at_def map_update update_own_phase)

lemma fold_keeps_phases:
  "map cl_phase (fold (\<lambda>(i, k) calls. if cl_future (calls ! k) = None
      then calls[k := (calls ! k)\<lparr>cl_future := r\<rparr>] else calls) ps calls) = map cl_phase calls"
proof (induction ps arbitrary: calls)
  case (Cons x ps)
  then show ?case by (simp add: case_prod_beta map_update update_own_phase)
qed simp

lemma view_mark [simp]: "sending_view (mark_closed p) = sending_view p"
  by (simp add: sending_view_def phases_def mark_closed_def fold_keeps_phases)

lemma view_stop [simp]: "sending_view (stop_reading p) = sending_view p"
  using view_mark [of "p\<lparr>rpc_reading := False\<rparr>"] by (simp add: stop_reading_def sending_view_def phases_def)

lemma view_record [simp]: "sending_view (record_message m p) = sending_view p"
  by (simp add: sending_view_def phases_def record_message_def)

lemma view_read [simp]: "sending_view (read_message m p) = sending_view p"
proof -
  let ?p = "record_message m p"
  have "sending_view (read_response m ?p) = sending_view ?p" "sending_view (submit_job m ?p) = sending_view ?p"
    "sending_view (put_notification m ?p) = sending_view ?p"
    using view_set_future [of _ _ ?p] view_stop [of ?p]
    by (auto simp: read_response_def submit_job_def put_notification_def Let_def split: option.split json.split)
      (simp_all add: sending_view_def phases_def record_message_def)
  then show ?thesis by (simp add: read_message_def Let_def flip: record_message_def)
qed

text \<open>A call that does not send keeps out of the transport.\<close>

lemma sender_ok_phase:
  assumes "sender_ok p" "in_phase k ph p" "ph \<noteq> Sending" "ph' \<noteq> Sending"
    and "phases q = (phases p)[k := ph']" "rpc_sender_of q = rpc_sender_of p"
  shows "sender_ok q"
  unfolding sender_ok_view
proof
  fix j
  have p: "j < length (phases p) \<and> phases p ! j = Sending \<longleftrightarrow> rpc_sender_of p = Some (Caller j)" for j
    using assms(1) by (simp add: sender_ok_view)
  show "j < length (phases q) \<and> phases q ! j = Sending \<longleftrightarrow> rpc_sender_of q = Some (Caller j)"
    using p [of j] p [of k] assms(2-) by (cases "j = k") (simp_all add: in_phase_view)
qed

lemma finish_request_view: "phases (finish_request k r p) = (phases p)[k := Finished r]" "rpc_sender_of (finish_request k r p) = rpc_sender_of p"
  by (simp_all add: finish_request_def phases_def set_call_def map_update)

lemma sender_ok_entered:
  assumes "sender_ok p" "lock_free p" "sending_view q = (phases p, Some w)" "\<And>k. w \<noteq> Caller k"
  shows "sender_ok q"
  using assms by (auto simp: sender_ok_view sending_view_def lock_free_def)

lemma transmit_sender:
  assumes "sender_ok p" "in_phase k Registered p" "cl_cancellable (call_at p k) \<and> c \<or> \<not> e \<or> lock_free p"
  shows "sender_ok (transmit_request k c e p)"
proof (cases "cl_cancellable (call_at p k) \<and> c \<or> \<not> e \<or> rpc_closed p")
  case True
  then have "\<exists>r. transmit_request k c e p = finish_request k r p"
    by (auto simp: transmit_request_def send_message_def)
  then obtain r where "transmit_request k c e p = finish_request k r p" by blast
  with sender_ok_phase [OF assms(1,2), of "Finished r"] show ?thesis by (simp add: finish_request_view)
next
  case False
  then have "phases (transmit_request k c e p) = (phases p)[k := Sending]"
    "rpc_sender_of (transmit_request k c e p) = Some (Caller k)" "lock_free p"
    using assms(3) by (auto simp: transmit_request_def send_message_def phases_def set_call_def map_update)
  with assms(1,2) show ?thesis
    by (auto simp: sender_ok_view lock_free_def in_phase_def phases_def nth_list_update)
qed

lemma returns_sender:
  assumes "sender_ok p" "transport_returns t p = Inr q"
  shows "sender_ok q"
proof (cases "rpc_sender_of p")
  case None
  with assms(2) show ?thesis by (simp add: transport_returns_def)
next
  case (Some w)
  let ?p = "p\<lparr>rpc_sender_of := None\<rparr>"
  have free: "rpc_sender_of q = None" "length (phases q) = length (phases p)"
    and ph: "phases q = (case w of Caller k \<Rightarrow> (phases p)[k := if t then Waiting else Finished Transport_Failed] | _ \<Rightarrow> phases p)"
    using Some assms(2) view_mark [of ?p] view_stop [of ?p]
    by (auto simp: transport_returns_def Let_def phases_set finish_request_view sending_view_def split: rpc_sender.splits if_splits)
      (auto simp: phases_def set_call_def)
  have p: "j < length (phases p) \<and> phases p ! j = Sending \<longleftrightarrow> w = Caller j" for j
    using assms(1) Some by (simp add: sender_ok_view)
  have "\<not> (j < length (phases q) \<and> phases q ! j = Sending)" for j
    using p [of j] free(2) by (cases w; cases "w = Caller j") (auto simp: ph)
  with free(1) show ?thesis by (simp add: sender_ok_view)
qed

lemma rpc_step_sender:
  assumes s: "sender_ok p" and q: "rpc_step p x = Inr q"
  shows "sender_ok q"
proof (cases x)
  case (Begin a b c d)
  then have "phases q = phases p @ [Registered]" "rpc_sender_of q = rpc_sender_of p"
    using q by (auto simp: begin_request_def Let_def phases_def split: if_splits)
  moreover have "j < length (phases p @ [Registered]) \<and> (phases p @ [Registered]) ! j = Sending \<longleftrightarrow>
      j < length (phases p) \<and> phases p ! j = Sending" for j
    by (cases "j < length (phases p)") (auto simp: nth_append less_Suc_eq)
  ultimately show ?thesis using s by (simp add: sender_ok_view)
next
  case (Send k c e)
  with s q transmit_sender show ?thesis by (auto simp: guarded_def split: if_splits)
next
  case (Returned t)
  with s q returns_sender show ?thesis by simp
next
  case (Await k c l)
  with q have k: "in_phase k Waiting p" by (auto split: if_splits)
  obtain ph where "ph \<noteq> Sending" "phases q = (phases p)[k := ph]" "rpc_sender_of q = rpc_sender_of p"
    using q k Await by (auto simp: await_request_def Let_def finish_request_view phases_set split: if_splits option.splits)
      (auto simp: set_call_def)
  with s k show ?thesis by (auto intro: sender_ok_phase)
next
  case (Expire k)
  with q have k: "in_phase k Expired p" by (auto simp: guarded_def split: if_splits)
  obtain ph where "ph \<noteq> Sending" "phases q = (phases p)[k := ph]" "rpc_sender_of q = rpc_sender_of p"
    using q k Expire by (auto simp: expire_request_def guarded_def finish_request_view phases_set split: if_splits)
      (auto simp: set_call_def)
  with s k show ?thesis by (auto intro: sender_ok_phase)
next
  case (Notify a b c)
  then have "lock_free p" "sending_view q = (phases p, Some Notifying)"
    using q by (auto simp: send_message_def sending_view_def phases_def split: if_splits)
  with s show ?thesis using sender_ok_entered by blast
next
  case (Read y)
  then consider "sending_view q = sending_view p" | "lock_free p" "sending_view q = (phases p, Some Reader)"
    using q by (cases y) (auto simp: guarded_def read_step_def Let_def send_message_def split: if_splits,
        auto simp: sending_view_def phases_def)
  then show ?thesis using s sender_ok_cong sender_ok_entered by cases blast+
next
  case (Respond i run)
  let ?p = "p\<lparr>rpc_running := remove_nth i (rpc_running p)\<rparr>"
  have v: "sending_view ?p = sending_view p" "sending_view (mark_closed ?p) = sending_view p"
    using view_mark [of ?p] by (simp_all add: sending_view_def phases_def)
  consider "sending_view q = sending_view p" | "lock_free p" "sending_view q = (phases p, Some Worker)"
    using q Respond v
    by (auto simp: guarded_def respond_def respond_ready_def Let_def send_message_def
        split: if_splits option.splits reply.splits) (auto simp: sending_view_def phases_def)
  then show ?thesis using s sender_ok_cong sender_ok_entered by cases blast+
next
  case (Deliver h)
  have "sending_view (mark_closed (p\<lparr>rpc_events := es, rpc_notifying := False\<rparr>)) = sending_view p" for es
    using view_mark [of "p\<lparr>rpc_events := es, rpc_notifying := False\<rparr>"] by (simp add: sending_view_def phases_def)
  then have "sending_view q = sending_view p"
    using q Deliver by (auto simp: deliver_def split: if_splits list.splits rpc_event.splits)
      (auto simp: sending_view_def phases_def)
  with s sender_ok_cong show ?thesis by blast
next
  case Close
  with q s sender_ok_cong [OF view_mark] show ?thesis by auto
qed (use s q sender_ok_cong [of q p] in
    \<open>auto simp: guarded_def sending_view_def phases_def put_marker_def signal_closed_def release_transport_def
      split: if_splits list.splits\<close>)

definition rpc_inv :: "rpc_peer \<Rightarrow> bool" where
  "rpc_inv p \<longleftrightarrow> calls_ok p \<and> sender_ok p"

interpretation rpc: machine rpc_step rpc_inv
  by unfold_locales (auto simp: rpc_inv_def intro: rpc_step_ok rpc_step_sender)

lemma new_peer_ok: "rpc_inv (new_peer methods notifications)"
  by (simp add: rpc_inv_def sender_ok_view phases_def calls_ok_def pending_ok_def new_peer_def dict_ok_empty dict_get_def)

section \<open>The order of notifications\<close>

definition queued :: "rpc_event list \<Rightarrow> (string \<times> json) list" where
  "queued es = List.map_filter (\<lambda>e. case e of Notification s v \<Rightarrow> Some (s, v) | _ \<Rightarrow> None) es"

lemma queued_simps [simp]:
  "queued [] = []" "queued (Notification s v # es) = (s, v) # queued es" "queued (Marker n # es) = queued es" "queued (Stop # es) = queued es"
  "queued (es @ es') = queued es @ queued es'"
  by (simp_all add: queued_def List.map_filter_def)

text \<open>With \<open>d\<close> notifications delivered, every marker comes after the notifications it counts.\<close>

fun markers_ok :: "nat \<Rightarrow> rpc_event list \<Rightarrow> bool" where
  "markers_ok d [] \<longleftrightarrow> True"
| "markers_ok d (Notification s v # es) \<longleftrightarrow> markers_ok (d + 1) es"
| "markers_ok d (Marker n # es) \<longleftrightarrow> n \<le> d \<and> markers_ok d es"
| "markers_ok d (Stop # es) \<longleftrightarrow> markers_ok d es"

lemma markers_ok_append: "markers_ok d (es @ es') \<longleftrightarrow> markers_ok d es \<and> markers_ok (d + length (queued es)) es'"
  by (induction d es rule: markers_ok.induct) auto

definition delivery_ok :: "rpc_peer \<Rightarrow> bool" where
  "delivery_ok p \<longleftrightarrow>
     (\<exists>rest. rpc_received p = rpc_delivered p @ rest) \<and>
     (rpc_notifying p \<longrightarrow> rpc_received p = rpc_delivered p @ queued (rpc_events p) \<and>
        markers_ok (length (rpc_delivered p)) (rpc_events p)) \<and>
     list_all (\<lambda>n. n \<le> length (rpc_delivered p)) (rpc_markers p)"

definition same_delivery :: "rpc_peer \<Rightarrow> rpc_peer \<Rightarrow> bool" where
  "same_delivery p q \<longleftrightarrow> rpc_received q = rpc_received p \<and> rpc_delivered q = rpc_delivered p \<and>
     rpc_events q = rpc_events p \<and> rpc_notifying q = rpc_notifying p \<and> rpc_markers q = rpc_markers p"

lemma delivery_cong: "delivery_ok p \<Longrightarrow> same_delivery p q \<Longrightarrow> delivery_ok q"
  by (simp add: delivery_ok_def same_delivery_def)

named_theorems same_delivery

lemma same_delivery_trans: "same_delivery p q \<Longrightarrow> same_delivery q r \<Longrightarrow> same_delivery p r"
  by (simp add: same_delivery_def)

lemma same_delivery_mark [same_delivery]: "same_delivery p (mark_closed p)"
  by (simp add: same_delivery_def mark_closed_def)

lemma same_delivery_stop [same_delivery]: "same_delivery p (stop_reading p)"
  using same_delivery_mark [of "p\<lparr>rpc_reading := False\<rparr>"] by (simp add: same_delivery_def stop_reading_def)

lemma same_delivery_send [same_delivery]: "send_message w e m p = Inr q \<Longrightarrow> same_delivery p q"
  by (auto simp: same_delivery_def send_message_def split: if_splits)

lemma same_delivery_finish [same_delivery]: "same_delivery p (finish_request k r p)"
  by (simp add: same_delivery_def finish_request_def set_call_def)

lemma same_delivery_set [same_delivery]: "same_delivery p (set_call k c p)"
  by (simp add: same_delivery_def set_call_def)

lemma same_delivery_record [same_delivery]: "same_delivery p (record_message m p)"
  by (simp add: same_delivery_def record_message_def)

lemma same_delivery_response [same_delivery]: "same_delivery p (read_response m p)"
  using same_delivery by (auto simp: read_response_def same_delivery_def split: option.split)

lemma same_delivery_submit [same_delivery]: "same_delivery p (submit_job m p)"
  using same_delivery by (auto simp: submit_job_def same_delivery_def)

lemma same_delivery_respond [same_delivery]: "same_delivery p (respond i run p)"
proof -
  let ?q = "p\<lparr>rpc_running := remove_nth i (rpc_running p)\<rparr>"
  have q: "same_delivery p ?q" by (simp add: same_delivery_def)
  then show ?thesis
    by (auto simp: respond_def Let_def split: option.split reply.split sum.split
        intro: same_delivery same_delivery_trans [OF q])
qed

lemma put_notification_ok: "delivery_ok p \<Longrightarrow> delivery_ok (put_notification m p)"
  by (auto simp: put_notification_def delivery_ok_def Let_def markers_ok_append split: json.split)

lemma read_message_delivery: "delivery_ok p \<Longrightarrow> delivery_ok (read_message m p)"
proof -
  assume "delivery_ok p"
  then have ok: "delivery_ok (record_message m p)" by (rule delivery_cong) (rule same_delivery)
  note rest = delivery_cong [OF ok] put_notification_ok [OF ok]
  show ?thesis
    unfolding read_message_def Let_def record_message_def [symmetric]
    by (auto intro: rest same_delivery)
qed

lemma read_step_delivery: "delivery_ok p \<Longrightarrow> delivery_ok (read_step x p)"
proof -
  assume ok: "delivery_ok p"
  define q where "q = (case x of
          End_Of_Stream \<Rightarrow> stop_reading p
        | Broken_Stream \<Rightarrow> stop_reading p
        | Garbled \<Rightarrow> (case send_message Reader True parse_error p of Inl _ \<Rightarrow> stop_reading p | Inr p' \<Rightarrow> p')
        | Message m \<Rightarrow> read_message m p)"
  have "delivery_ok q"
    unfolding q_def using read_message_delivery [OF ok]
    by (auto split: rpc_input.split sum.split intro: delivery_cong [OF ok] same_delivery)
  then show ?thesis by (auto simp: read_step_def simp flip: q_def intro: delivery_cong same_delivery)
qed

lemma deliver_delivery:
  assumes "delivery_ok p" "rpc_notifying p" "deliver h p = Inr q"
  shows "delivery_ok q"
proof -
  have close: "delivery_ok (mark_closed (p\<lparr>rpc_events := es, rpc_notifying := False\<rparr>))" for es
    by (rule delivery_cong [OF _ same_delivery_mark]) (use assms(1) in \<open>simp add: delivery_ok_def\<close>)
  show ?thesis
  proof (cases "rpc_events p")
    case Nil
    with assms(3) show ?thesis by (simp add: deliver_def)
  next
    case (Cons e es)
    have "deliver h p = Inr q \<Longrightarrow> q = mark_closed (p\<lparr>rpc_events := es, rpc_notifying := False\<rparr>) \<or> delivery_ok q"
      using assms(1,2) Cons
      by (cases e) (auto simp: deliver_def delivery_ok_def list_all_iff le_Suc_eq split: if_splits)
    with assms(3) close show ?thesis by auto
  qed
qed

lemma rpc_step_delivery:
  assumes "delivery_ok p" "rpc_step p x = Inr q"
  shows "delivery_ok q"
proof (cases x)
  case (Begin a b c d)
  with assms show ?thesis
    by (auto simp: begin_request_def Let_def same_delivery_def split: if_splits intro!: delivery_cong [OF assms(1)])
next
  case (Send k c e)
  have "same_delivery p (transmit_request k c e p)"
    by (auto simp: transmit_request_def split: sum.split intro: same_delivery same_delivery_trans [OF same_delivery_send])
  with assms Send show ?thesis by (auto simp: guarded_def split: if_splits intro: delivery_cong)
next
  case (Returned t)
  let ?p = "p\<lparr>rpc_sender_of := None\<rparr>"
  have "same_delivery p ?p" by (simp add: same_delivery_def)
  with assms Returned show ?thesis
    by (auto simp: transport_returns_def Let_def split: if_splits option.splits rpc_sender.splits
        intro!: delivery_cong [OF assms(1)] intro: same_delivery same_delivery_trans)
next
  case (Await k c l)
  with assms show ?thesis
    by (auto simp: await_request_def Let_def split: if_splits option.splits intro!: delivery_cong [OF assms(1)] intro: same_delivery)
next
  case (Expire k)
  with assms show ?thesis
    by (auto simp: expire_request_def guarded_def split: if_splits intro!: delivery_cong [OF assms(1)] intro: same_delivery)
next
  case (Notify a b c)
  with assms show ?thesis
    by (cases "send_message Notifying c (notification_message a b) p")
      (auto intro: delivery_cong same_delivery split: if_splits)
next
  case (Read y)
  with assms read_step_delivery show ?thesis by (auto simp: guarded_def split: if_splits)
next
  case (Respond i run)
  with assms show ?thesis by (auto simp: guarded_def split: if_splits intro: delivery_cong same_delivery)
next
  case (Deliver h)
  with assms deliver_delivery show ?thesis by (auto split: if_splits)
next
  case Close
  with assms show ?thesis by (auto intro: delivery_cong same_delivery)
next
  case Mark
  with assms show ?thesis by (auto simp: put_marker_def delivery_ok_def markers_ok_append)
next
  case Signal
  with assms show ?thesis
    by (auto simp: guarded_def signal_closed_def delivery_ok_def markers_ok_append split: if_splits)
qed (use assms in \<open>auto simp: guarded_def release_transport_def delivery_ok_def split: if_splits list.splits\<close>)

interpretation delivery: machine rpc_step delivery_ok
  by unfold_locales (rule rpc_step_delivery)

section \<open>Closed connections are silent\<close>

definition silent :: "rpc_peer \<Rightarrow> rpc_peer \<Rightarrow> bool" where
  "silent p q \<longleftrightarrow> rpc_sent q = rpc_sent p \<and> rpc_closed q \<and> (lock_free p \<longrightarrow> lock_free q)"

lemma send_message_closed: "rpc_closed p \<Longrightarrow> \<exists>r. send_message w e m p = Inl r"
  by (simp add: send_message_def)

lemma mark_closed_silent: "rpc_sent (mark_closed p) = rpc_sent p" "rpc_sent (stop_reading p) = rpc_sent p"
  "rpc_closed (stop_reading p)" "lock_free (mark_closed p) = lock_free p" "lock_free (stop_reading p) = lock_free p"
  by (simp_all add: mark_closed_def stop_reading_def rpc_closed_def lock_free_def)

lemma finish_silent: "rpc_sent (finish_request k r p) = rpc_sent p" "rpc_closed (finish_request k r p) = rpc_closed p"
  "rpc_sent (set_call k c p) = rpc_sent p" "lock_free (finish_request k r p) = lock_free p" "lock_free (set_call k c p) = lock_free p"
  by (simp_all add: finish_request_def set_call_def rpc_closed_def lock_free_def)

lemma read_response_silent: "rpc_closed p \<Longrightarrow> silent p (read_response m p)"
  by (auto simp: silent_def read_response_def mark_closed_silent finish_silent split: option.split)

lemma read_message_silent:
  assumes "rpc_closed p"
  shows "silent p (read_message m p)"
proof -
  let ?p = "record_message m p"
  have p: "rpc_closed ?p" "rpc_sent ?p = rpc_sent p" "lock_free ?p = lock_free p"
    using assms by (simp, simp_all add: record_message_def lock_free_def)
  have "silent ?p (submit_job m ?p)" "silent ?p (put_notification m ?p)" "silent ?p (stop_reading ?p)"
    using p by (auto simp: silent_def submit_job_def put_notification_def Let_def mark_closed_silent split: json.split)
      (simp_all add: rpc_closed_def record_message_def lock_free_def)
  with read_response_silent [OF p(1), of m] show ?thesis
    using p by (auto simp: read_message_def Let_def silent_def simp flip: record_message_def)
qed

lemma read_step_silent: "rpc_closed p \<Longrightarrow> silent p (read_step x p)"
  using send_message_closed [of p Reader True parse_error] read_message_silent [of p]
  by (cases x) (auto simp: read_step_def Let_def silent_def mark_closed_silent)

lemma rpc_step_silent:
  assumes "rpc_closed p" "rpc_step p x = Inr q"
  shows "silent p q"
proof (cases x)
  case (Begin a b c d)
  with assms show ?thesis by (simp add: begin_request_def)
next
  case (Send k c e)
  with assms send_message_closed [OF assms(1), of "Caller k" e "cl_message (call_at p k)"] show ?thesis
    by (auto simp: guarded_def transmit_request_def silent_def finish_silent split: if_splits)
next
  case (Returned t)
  have "rpc_closed (p\<lparr>rpc_sender_of := None\<rparr>)" using assms(1) by (simp add: rpc_closed_def)
  with Returned assms show ?thesis
    by (auto simp: transport_returns_def Let_def silent_def mark_closed_silent finish_silent lock_free_def
        split: if_splits option.splits rpc_sender.splits)
next
  case (Await k c l)
  with assms show ?thesis
    by (auto simp: await_request_def Let_def silent_def finish_silent split: if_splits option.splits)
next
  case (Expire k)
  with assms show ?thesis by (auto simp: guarded_def expire_request_def silent_def finish_silent split: if_splits)
next
  case (Notify a b c)
  with assms send_message_closed [OF assms(1), of Notifying c "notification_message a b"] show ?thesis
    by (auto split: if_splits)
next
  case (Read y)
  with assms read_step_silent show ?thesis by (auto simp: guarded_def split: if_splits)
next
  case (Respond i run)
  with assms show ?thesis
    by (auto simp: guarded_def respond_def Let_def silent_def split: if_splits option.splits) (simp_all add: rpc_closed_def lock_free_def)
next
  case (Deliver h)
  with assms show ?thesis
    by (auto simp: deliver_def silent_def mark_closed_silent split: if_splits list.splits rpc_event.splits)
      (simp_all add: rpc_closed_def lock_free_def)
qed (use assms in \<open>auto simp: guarded_def silent_def put_marker_def signal_closed_def release_transport_def mark_closed_silent
      rpc_closed_def lock_free_def split: if_splits list.splits\<close>)

lemma closed_run_silent:
  assumes "rpc_closed p"
  shows "silent p (run_ops rpc_step p xs)"
  using assms
proof (induction xs arbitrary: p)
  case Nil
  then show ?case by (simp add: silent_def)
next
  case (Cons x xs)
  show ?case
  proof (cases "rpc_step p x")
    case (Inl e)
    with Cons show ?thesis by simp
  next
    case (Inr q)
    with rpc_step_silent [OF Cons.prems Inr] Cons.IH [of q] show ?thesis by (simp add: silent_def)
  qed
qed

text \<open>
  After \<^verbatim>\<open>close()\<close> marked a connection nothing more is handed to its transport, whatever its
  threads still do; a write that was already inside the transport may still be going on.
\<close>

theorem closed_connection_is_silent: "rpc_sent (run_ops rpc_step (mark_closed p) xs) = rpc_sent p"
  using closed_run_silent [of "mark_closed p" xs] by (simp add: silent_def mark_closed_silent)

section \<open>Properties\<close>

text \<open>Whatever the threads of a connection do, when a request returns a value or an error of the other
  side, this comes from the first response with the request's own number that was received after
  the request was registered. Numbers of different requests differ.
\<close>

theorem answer_belongs_to_request:
  assumes "p = run_ops rpc_step (new_peer methods notifications) xs" "k < length (rpc_calls p)"
    and "cl_phase (call_at p k) = Finished r" "from_response r"
  shows "\<exists>m. first_answer p k = Some m \<and> response_outcome m = Some r"
  using rpc.run_inv [OF new_peer_ok, of methods notifications xs] assms
  by (auto simp: rpc_inv_def calls_ok_def call_sound_def)

text \<open>A request with an answer between two other messages.\<close>

definition ex_answer :: json where
  "ex_answer = result_message (JStr ''1'') (JInt 42)"

definition ex_rpc_ops :: "rpc_op list" where
  "ex_rpc_ops = [Begin ''ping'' JNull False False, Send 0 False True, Returned True, Read Garbled, Returned True,
     Read (Message ex_answer), Read (Message (result_message (JStr ''1'') (JInt 43))), Await 0 False False]"

lemma first_id: "request_id_of 0 = ''1''"
  by (simp add: request_id_of_def nat_str.simps [of "Suc 0"] char_of_eq_iff)

lemmas rpc_eval = first_id new_peer_def begin_request_def transmit_request_def send_message_def lock_free_def
  transport_returns_def read_step_def read_message_def
  read_response_def await_request_def finish_request_def set_call_def call_at_def rpc_closed_def guarded_def in_phase_def
  request_message_def params_or_empty_def is_response_def in_object_def hashable_def
  pending_call_def dict_get_def dict_pop_def response_outcome_def result_message_def ex_answer_def Let_def

lemma ex_rpc_ops_run:
  "let p = run_ops rpc_step (new_peer (\<lambda>_. None) []) ex_rpc_ops
   in length (rpc_calls p) = 1 \<and> cl_phase (call_at p 0) = Finished (Answered (JInt 42))"
  by (simp add: ex_rpc_ops_def rpc_eval)

theorem answer_belongs_to_request_witness:
  "\<exists>m. first_answer (run_ops rpc_step (new_peer (\<lambda>_. None) []) ex_rpc_ops) 0 = Some m \<and> response_outcome m = Some (Answered (JInt 42))"
proof -
  have "0 < length (rpc_calls (run_ops rpc_step (new_peer (\<lambda>_. None) []) ex_rpc_ops))"
      "cl_phase (call_at (run_ops rpc_step (new_peer (\<lambda>_. None) []) ex_rpc_ops) 0) = Finished (Answered (JInt 42))"
    using ex_rpc_ops_run by (simp_all add: Let_def)
  from answer_belongs_to_request [OF refl this] show ?thesis by simp
qed

text \<open>The steps of a call itself.\<close>

fun own_steps :: "nat \<Rightarrow> rpc_op list \<Rightarrow> bool" where
  "own_steps k [] = True"
| "own_steps k (Send j _ _ # xs) = (j = k \<and> own_steps k xs)"
| "own_steps k (Await j _ _ # xs) = (j = k \<and> own_steps k xs)"
| "own_steps k (Expire j # xs) = (j = k \<and> own_steps k xs)"
| "own_steps k (_ # xs) = False"

text \<open>One step of its own ends a call of a closed connection, unless it is inside the transport or waits
  for a send lock that is taken.\<close>

lemma closed_call_ends:
  assumes "rpc_inv p" "rpc_closed p" "k < length (rpc_calls p)"
    and "lock_free p \<or> cl_phase (call_at p k) \<notin> {Registered, Sending}"
  shows "\<exists>ys. own_steps k ys \<and> length ys \<le> 1 \<and> finished (call_at (run_ops rpc_step p ys) k)"
proof -
  have ok: "call_sound p k" using assms(1,3) by (simp add: rpc_inv_def calls_ok_def)
  have fin: "finished (call_at (finish_request k r p) k)" for r
    using assms(3) by (simp add: finish_request_def finished_def call_at_def set_call_def)
  show ?thesis
  proof (cases "cl_phase (call_at p k)")
    case Registered
    with assms fin show ?thesis
      by (intro exI [of _ "[Send k False True]"]) (auto simp: guarded_def in_phase_def transmit_request_def send_message_def)
  next
    case Sending
    with assms have "lock_free p" "rpc_sender_of p = Some (Caller k)"
      by (auto simp: rpc_inv_def sender_ok_def in_phase_def)
    then show ?thesis by (simp add: lock_free_def)
  next
    case Waiting
    then obtain r where "cl_future (call_at p k) = Some r" using ok assms(2) by (auto simp: call_sound_def finished_def)
    with Waiting assms fin show ?thesis
      by (intro exI [of _ "[Await k False False]"]) (simp add: in_phase_def await_request_def Let_def)
  next
    case Expired
    then have "cl_future (call_at p k) \<noteq> None" using ok assms(2) by (auto simp: call_sound_def finished_def)
    with Expired assms fin show ?thesis
      by (intro exI [of _ "[Expire k]"]) (simp add: guarded_def in_phase_def expire_request_def)
  next
    case (Finished r)
    then show ?thesis by (intro exI [of _ "[]"]) (simp add: finished_def)
  qed
qed

lemma transport_returns_frees:
  assumes "\<not> lock_free p"
  obtains q where "transport_returns t p = Inr q" "lock_free q" "rpc_closed p \<Longrightarrow> rpc_closed q"
    "rpc_closed p \<Longrightarrow> length (rpc_calls q) = length (rpc_calls p)"
proof -
  obtain w where w: "rpc_sender_of p = Some w" using assms by (auto simp: lock_free_def)
  obtain q where q: "transport_returns t p = Inr q" using w by (cases w) (auto simp: transport_returns_def Let_def)
  have "lock_free q" using w q
    by (auto simp: transport_returns_def Let_def lock_free_def finish_request_def set_call_def mark_closed_def
        stop_reading_def split: rpc_sender.splits if_splits)
  moreover have "rpc_closed q \<and> length (rpc_calls q) = length (rpc_calls p)" if c: "rpc_closed p"
  proof -
    have "rpc_closed (p\<lparr>rpc_sender_of := None\<rparr>)" using c by (simp add: rpc_closed_def)
    moreover have "rpc_calls (stop_reading (p\<lparr>rpc_sender_of := None\<rparr>)) = rpc_calls p"
      using c by (simp add: stop_reading_def mark_closed_def rpc_closed_def)
    ultimately show ?thesis
      using w q by (auto simp: transport_returns_def Let_def finish_silent mark_closed_silent split: rpc_sender.splits if_splits)
        (auto simp: finish_request_def set_call_def)
  qed
  ultimately show thesis using q that by blast
qed

text \<open>C36: Once a connection is closed a request is held up by nothing but a write that is going on: with the
  send lock free every request that has not returned can return by one step of its own, whatever the
  state it is in, and nobody takes the lock again; the same holds with the lock taken for a
  request that neither is inside the sending of the transport nor has it still ahead; and when
  the lock is taken, one return of the transport, normal or by an exception, frees it, and then
  one own step is enough for each of the others too.
\<close>

theorem close_releases_every_request:
  assumes "p = run_ops rpc_step (new_peer methods notifications) xs" "rpc_closed p" "k < length (rpc_calls p)"
  shows "(lock_free p \<or> cl_phase (call_at p k) \<notin> {Registered, Sending} \<longrightarrow>
      (\<exists>ys. own_steps k ys \<and> length ys \<le> 1 \<and> finished (call_at (run_ops rpc_step p ys) k))) \<and>
    (lock_free p \<longrightarrow> lock_free (run_ops rpc_step p zs)) \<and>
    (\<not> lock_free p \<longrightarrow> (\<exists>q. rpc_step p (Returned transport_ok) = Inr q \<and> lock_free q \<and>
      (\<exists>ys. own_steps k ys \<and> length ys \<le> 1 \<and> finished (call_at (run_ops rpc_step q ys) k))))"
proof (intro conjI impI)
  have inv: "rpc_inv p" unfolding assms(1) by (rule rpc.run_inv [OF new_peer_ok])
  show "\<exists>ys. own_steps k ys \<and> length ys \<le> 1 \<and> finished (call_at (run_ops rpc_step p ys) k)"
    if "lock_free p \<or> cl_phase (call_at p k) \<notin> {Registered, Sending}"
    using closed_call_ends [OF inv assms(2,3) that] .
  show "lock_free (run_ops rpc_step p zs)" if "lock_free p"
    using closed_run_silent [OF assms(2), of zs] that by (simp add: silent_def)
  assume "\<not> lock_free p"
  then obtain q where q: "transport_returns transport_ok p = Inr q" "lock_free q" "rpc_closed q"
      "length (rpc_calls q) = length (rpc_calls p)"
    using transport_returns_frees assms(2) by metis
  then have "rpc_inv q" using inv rpc.step_inv [of p "Returned transport_ok" q] by simp
  from closed_call_ends [OF this q(3), of k] q assms(3)
  show "\<exists>q. rpc_step p (Returned transport_ok) = Inr q \<and> lock_free q \<and>
      (\<exists>ys. own_steps k ys \<and> length ys \<le> 1 \<and> finished (call_at (run_ops rpc_step q ys) k))"
    by auto
qed

text \<open>Two requests, one inside the transport and one behind it, when the connection is closed.\<close>

definition ex_closed_ops :: "rpc_op list" where
  "ex_closed_ops = [Begin ''ping'' JNull False False, Begin ''ping'' JNull False False, Send 0 False True, Close]"

lemma ex_closed_run:
  "let p = run_ops rpc_step (new_peer (\<lambda>_. None) []) ex_closed_ops
   in length (rpc_calls p) = 2 \<and> rpc_closed p \<and> cl_phase (call_at p 0) = Sending \<and> cl_phase (call_at p 1) = Registered \<and>
      \<not> lock_free p"
  by (simp add: rpc_eval ex_closed_ops_def mark_closed_def)

theorem close_releases_every_request_witness:
  "\<exists>p q ys. p = run_ops rpc_step (new_peer (\<lambda>_. None) []) ex_closed_ops \<and> \<not> finished (call_at p 1) \<and>
     rpc_step p (Returned False) = Inr q \<and> own_steps 1 ys \<and> finished (call_at (run_ops rpc_step q ys) 1)"
proof -
  define p where "p = run_ops rpc_step (new_peer (\<lambda>_. None) []) ex_closed_ops"
  have "rpc_closed p" "1 < length (rpc_calls p)" "\<not> finished (call_at p 1)" "\<not> lock_free p"
    using ex_closed_run unfolding p_def [symmetric] by (auto simp: Let_def finished_def)
  with close_releases_every_request [OF p_def this(1,2), of "[]" False] show ?thesis unfolding p_def by blast
qed

text \<open>While \<^verbatim>\<open>transport.send\<close> does not return, neither of the two can: closing the connection does not
  end them, and no time-out is looked at.\<close>

theorem requests_hang_behind_send:
  "let p = run_ops rpc_step (new_peer (\<lambda>_. None) []) ex_closed_ops
   in \<forall>k c e l. rpc_closed p \<and> rpc_step p (Send 0 c e) = Inl () \<and> rpc_step p (Send 1 False True) = Inl () \<and>
        rpc_step p (Await k c l) = Inl () \<and> rpc_step p (Expire k) = Inl ()"
proof -
  define p where "p = run_ops rpc_step (new_peer (\<lambda>_. None) []) ex_closed_ops"
  have p: "length (rpc_calls p) = 2" "rpc_closed p" "cl_phase (call_at p 0) = Sending" "cl_phase (call_at p 1) = Registered"
      "\<not> lock_free p"
    using ex_closed_run by (simp_all add: p_def [symmetric] Let_def)
  have c: "\<not> cl_cancellable (call_at p 1)"
    unfolding p_def by (simp add: rpc_eval ex_closed_ops_def mark_closed_def)
  have "\<not> in_phase k Waiting p \<and> \<not> in_phase k Expired p" for k
    using p(1,3,4) by (cases "k = 0"; cases "k = 1") (auto simp: in_phase_def)
  then show ?thesis
    unfolding p_def [symmetric] Let_def using p(2-5) c by (simp add: guarded_def) (simp add: in_phase_def)
qed

text \<open>
  Notifications are delivered in the order in which they were received, each at most once, and a
  caller of \<^verbatim>\<open>wait_notifications\<close> that was told so has all notifications delivered that were received
  before its call.
\<close>

theorem notifications_in_order:
  assumes "p = run_ops rpc_step (new_peer methods notifications) xs"
  shows "rpc_delivered p = take (length (rpc_delivered p)) (rpc_received p) \<and>
    list_all (\<lambda>n. take n (rpc_delivered p) = take n (rpc_received p)) (rpc_markers p)"
proof -
  have "delivery_ok (new_peer methods notifications)" by (simp add: delivery_ok_def new_peer_def)
  from delivery.run_inv [OF this, of xs] show ?thesis
    unfolding assms delivery_ok_def by (auto simp: list_all_iff)
qed

theorem notifications_in_order_witness:
  "rpc_delivered (run_ops rpc_step (new_peer (\<lambda>_. None) [''tick''])
     [Read (Message (notification_message ''tick'' JNull)), Mark, Deliver True, Deliver True]) = [(''tick'', JObj [])]"
proof -
  define p where "p = run_ops rpc_step (new_peer (\<lambda>_. None) [''tick''])
     [Read (Message (notification_message ''tick'' JNull)), Mark, Deliver True, Deliver True]"
  have "rpc_received p = [(''tick'', JObj [])]" "rpc_markers p = [1]"
    by (simp_all add: p_def rpc_eval notification_message_def is_notification_shape_def known_notification_def
        put_notification_def put_marker_def deliver_def)
  with notifications_in_order [OF p_def] have "take 1 (rpc_delivered p) = [(''tick'', JObj [])]"
      "rpc_delivered p = take (length (rpc_delivered p)) [(''tick'', JObj [])]" by auto
  then show ?thesis unfolding p_def [symmetric] by (metis length_Cons list.size(3) take_all_iff take_take min.idem nat_le_linear One_nat_def)
qed

section \<open>Requests are answered once\<close>

definition well_formed_request :: "json \<Rightarrow> bool" where
  "well_formed_request m \<longleftrightarrow> jget m ''jsonrpc'' = JStr ''2.0'' \<and> (\<exists>s. jget m ''method'' = JStr s) \<and>
     (\<not> in_object ''id'' m \<or> id_valid (jget m ''id''))"

text \<open>The id of the reply that JSON-RPC asks for: none for a notification, null for what is no request.\<close>

definition expected_id :: "json \<Rightarrow> json option" where
  "expected_id m =
     (if \<not> well_formed_request m then Some JNull else if in_object ''id'' m then Some (jget m ''id'') else None)"

definition expected_replies :: "json \<Rightarrow> json list" where
  "expected_replies m = (case m of JList (v # vs) \<Rightarrow> List.map_filter expected_id (v # vs)
     | _ \<Rightarrow> List.map_filter expected_id [m])"

definition replies_in :: "json \<Rightarrow> json \<Rightarrow> json list" where
  "replies_in m v = (case m of JList (_ # _) \<Rightarrow> (case v of JList rs \<Rightarrow> rs | _ \<Rightarrow> []) | _ \<Rightarrow> [v])"

definition proper_reply :: "json \<Rightarrow> json \<Rightarrow> bool" where
  "proper_reply i v \<longleftrightarrow> jget v ''jsonrpc'' = JStr ''2.0'' \<and> in_object ''id'' v \<and> jget v ''id'' = i \<and>
     in_object ''result'' v \<noteq> in_object ''error'' v"

lemma proper_messages [simp]:
  "proper_reply i (error_message j c s d) \<longleftrightarrow> j = i" "proper_reply i (result_message j v) \<longleftrightarrow> j = i"
  "proper_reply i (internal_error j e) \<longleftrightarrow> j = i"
  by (auto simp: proper_reply_def error_message_def result_message_def internal_error_def in_object_def)

definition reply_matches :: "json option \<Rightarrow> reply option \<Rightarrow> bool" where
  "reply_matches expected r = (case r of
     None \<Rightarrow> expected = None
   | Some Unsendable \<Rightarrow> expected \<noteq> None
   | Some (Reply v) \<Rightarrow> (case expected of None \<Rightarrow> False | Some i \<Rightarrow> proper_reply i v))"

lemma dispatch_message_matches: "reply_matches (expected_id m) (dispatch_message methods run m)"
proof (cases "well_formed_request m")
  case False
  then have "dispatch_message methods run m = Some invalid_request"
    by (auto simp: dispatch_message_def well_formed_request_def split: json.split)
  with False show ?thesis by (simp add: reply_matches_def expected_id_def invalid_request_def)
next
  case True
  then obtain s where s: "jget m ''method'' = JStr s" by (auto simp: well_formed_request_def)
  with True have "dispatch_message methods run m = invoke methods run s m" by (auto simp: dispatch_message_def well_formed_request_def)
  with True show ?thesis
    by (auto simp: reply_matches_def expected_id_def invoke_def Let_def handler_reply_def
        split: option.split handled.split reply.split)
qed

lemma filtered_matches:
  assumes "\<And>i m. reply_matches (expected_id m) (f i m)"
  shows "length (List.map_filter (\<lambda>(i, m). f i m) (List.enumerate n ms)) = length (List.map_filter expected_id ms)"
    "Unsendable \<notin> set (List.map_filter (\<lambda>(i, m). f i m) (List.enumerate n ms)) \<Longrightarrow>
      list_all2 proper_reply (List.map_filter expected_id ms)
        (map (\<lambda>r. case r of Reply v \<Rightarrow> v | Unsendable \<Rightarrow> JNull) (List.map_filter (\<lambda>(i, m). f i m) (List.enumerate n ms)))"
proof (induction ms arbitrary: n)
  case (Cons m ms)
  case 1
  with Cons(1) [of "Suc n"] assms [of m n] show ?case
    by (auto simp: List.map_filter_simps reply_matches_def split: option.split option.splits reply.splits)
next
  case (Cons m ms)
  case 2
  with Cons(2) [of "Suc n"] assms [of m n] show ?case
    by (auto simp: List.map_filter_simps reply_matches_def split: option.splits reply.splits)
qed (simp_all add: List.map_filter_simps)

text \<open>Every message is answered as JSON-RPC asks: each request of it, alone or in a batch, gets exactly
  one reply, with its own id and either a result or an error; what is no request gets an error with a
  null id; notifications get none. Replies in a batch come in the order of the requests. When a handler's
  error cannot be written, and only then, there is no reply to a message that expects one.
\<close>

theorem requests_are_answered_once:
  "case response_to methods run m of
     None \<Rightarrow> expected_replies m = []
   | Some Unsendable \<Rightarrow> expected_replies m \<noteq> []
   | Some (Reply v) \<Rightarrow> list_all2 proper_reply (expected_replies m) (replies_in m v)"
proof (cases "\<exists>v vs. m = JList (v # vs)")
  case True
  then obtain v vs where m: "m = JList (v # vs)" by blast
  let ?rs = "List.map_filter (\<lambda>(i, e). dispatch_message methods (run i) e) (List.enumerate 0 (v # vs))"
  note f = filtered_matches [where f = "\<lambda>i. dispatch_message methods (run i)", OF dispatch_message_matches, of 0 "v # vs"]
  have r: "response_to methods run m = batch_reply ?rs" by (simp add: m response_to_def)
  show ?thesis
  proof (cases ?rs)
    case Nil
    with f(1) r show ?thesis by (simp add: m expected_replies_def)
  next
    case (Cons x xs)
    have "length (expected_replies m) = length ?rs" using f(1) by (simp add: m expected_replies_def)
    then have "expected_replies m \<noteq> []" using Cons by auto
    then show ?thesis using f(2) r Cons by (auto simp: m expected_replies_def replies_in_def)
  qed
next
  case False
  then have "response_to methods run m = dispatch_message methods (run 0) m" "expected_replies m = List.map_filter expected_id [m]"
      "\<And>v. replies_in m v = [v]"
    by (auto simp: response_to_def expected_replies_def replies_in_def split: json.split list.split)
  with dispatch_message_matches [of m methods "run 0"] show ?thesis
    by (auto simp: reply_matches_def List.map_filter_simps split: option.splits reply.splits)
qed

section \<open>Two defects\<close>

text \<open>
  A call that can be cancelled and has no time-out can raise \<^verbatim>\<open>TimeoutError\<close> although its answer is there:
  the answer arrives after the short wait expired and before the handler asks whether the future is done.
\<close>

theorem answered_request_can_time_out:
  "let p = run_ops rpc_step (new_peer (\<lambda>_. None) [])
       [Begin ''ping'' JNull True False, Send 0 False True, Returned True, Await 0 False False, Read (Message ex_answer), Expire 0]
   in cl_future (call_at p 0) = Some (Answered (JInt 42)) \<and> \<not> cl_deadline (call_at p 0) \<and>
      cl_phase (call_at p 0) = Finished Request_Timed_Out"
  by (simp add: rpc_eval expire_request_def)

text \<open>A notification whose method is a list is answered by nobody: looking it up raises, and the
  connection is closed with all its requests.\<close>

theorem unhashable_method_closes_connection:
  "rpc_closed (run_ops rpc_step (new_peer methods notifications)
     [Read (Message (JObj [(''jsonrpc'', JStr ''2.0''), (''method'', JList [])]))])"
  by (simp add: rpc_eval is_notification_shape_def stop_reading_def mark_closed_def)

end
