(* ===== verification/Transcript.thy ===== *)
theory Transcript
  imports Tool_Outcome
begin

text \<open>
  The transcript a user interface shows (\<^verbatim>\<open>presentation/models.py\<close>): cells with a stable identity, bounded in
  number and in characters, with an index by id and a cached tuple of the cells. The eight classes of
  cells share id, revision and group; here they are one record with a body per class. The lemmas show
  that index, character count and cache always agree with the cells, and that what is
  kept is the longest suffix within both limits.
\<close>

section \<open>Cells\<close>

datatype tool_cell_status = Cell_Running | Cell_Succeeded | Cell_Failed

record tool_cell =
  tl_tool_call_id :: string
  tl_name :: string
  tl_arguments :: "json option"
  tl_output :: ptext
  tl_status :: tool_cell_status
  tl_outcome :: "tool_outcome option"
  tl_orphaned :: bool

record runtime_diagnostic =
  rd_line :: int
  rd_character :: int
  rd_message :: ptext
  rd_severity :: string
  rd_code :: "string option"

record diagnostic_cell =
  dc_path :: string
  dc_batch_id :: string
  dc_document_version :: int
  dc_diagnostic_generation :: int
  dc_diagnostics :: "runtime_diagnostic list"

record subagent_cell =
  sc_job_id :: string
  sc_mode :: string
  sc_task :: ptext
  sc_status :: string
  sc_result :: "ptext option"
  sc_error :: "ptext option"

record approval_section =
  as_id :: string
  as_title :: string
  as_kind :: string
  as_content :: json

record approval_cell =
  ap_request_id :: string
  ap_title :: ptext
  ap_status :: string
  ap_preview :: "ptext option"
  ap_summary :: ptext
  ap_sections :: "approval_section list"
  ap_reason :: "ptext option"
  ap_mode :: "string option"
  ap_grant_label :: "ptext option"
  ap_released_count :: int
  ap_resolution_source :: "string option"

datatype cell_body =
    User_Cell ptext
  | Assistant_Cell ptext bool bool
  | Tool_Cell tool_cell
  | Diff_Cell ptext ptext
  | Diagnostic_Cell diagnostic_cell
  | Subagent_Cell subagent_cell
  | Notice_Cell ptext string string
  | Approval_Cell approval_cell

record transcript_cell =
  tc_id :: string
  tc_revision :: nat
  tc_group :: "string option"
  tc_body :: cell_body

definition new_cell :: "string \<Rightarrow> string option \<Rightarrow> cell_body \<Rightarrow> transcript_cell" where
  "new_cell i g b = \<lparr>tc_id = i, tc_revision = 0, tc_group = g, tc_body = b\<rparr>"

definition next_revision :: "cell_body \<Rightarrow> transcript_cell \<Rightarrow> transcript_cell" where
  "next_revision b c = c\<lparr>tc_revision := tc_revision c + 1, tc_body := b\<rparr>"

definition cell_display_text :: "tool_outcome \<Rightarrow> ptext" where
  "cell_display_text out = detailed_text True out"

definition cell_text_chars :: "transcript_cell \<Rightarrow> nat" where
  "cell_text_chars c =
     (case tc_body c of
        User_Cell t \<Rightarrow> length t
      | Assistant_Cell t _ _ \<Rightarrow> length t
      | Tool_Cell c \<Rightarrow> (case tl_outcome c of None \<Rightarrow> 0 | Some out \<Rightarrow> length (cell_display_text out))
      | Notice_Cell t _ _ \<Rightarrow> length t
      | Subagent_Cell sc \<Rightarrow> length (opt_text (sc_result sc)) + length (opt_text (sc_error sc))
      | Diff_Cell _ d \<Rightarrow> length d
      | _ \<Rightarrow> 0)"

section \<open>The bounded transcript\<close>

datatype transcript_error = Bad_Limit | Duplicate_Cell string | Missing_Cell string | Pop_From_Empty

record transcript =
  tr_max_cells :: nat
  tr_max_text_chars :: nat
  tr_cells :: "transcript_cell list"
  tr_indexes :: "(string, nat) dict"
  tr_text_chars_total :: int
  tr_revision :: nat
  tr_snapshot :: "transcript_cell list"

definition new_transcript :: "nat \<Rightarrow> nat \<Rightarrow> (transcript_error, transcript) result" where
  "new_transcript max_cells max_text_chars =
     (if max_cells < 1 \<or> max_text_chars < 1 then Inl Bad_Limit
      else Inr \<lparr>tr_max_cells = max_cells, tr_max_text_chars = max_text_chars, tr_cells = [], tr_indexes = [],
                tr_text_chars_total = 0, tr_revision = 0, tr_snapshot = []\<rparr>)"

text \<open>The property \<^verbatim>\<open>cells\<close>, which refreshes its cache.\<close>

definition transcript_cells :: "transcript \<Rightarrow> transcript_cell list \<times> transcript" where
  "transcript_cells t =
     (let t' = (if length (tr_snapshot t) \<noteq> length (tr_cells t) then t\<lparr>tr_snapshot := tr_cells t\<rparr> else t)
      in (tr_snapshot t', t'))"

definition get_cell :: "transcript \<Rightarrow> string \<Rightarrow> transcript_cell option" where
  "get_cell t i = (case dict_get (tr_indexes t) i of None \<Rightarrow> None | Some n \<Rightarrow> Some (tr_cells t ! n))"

definition mark_changed :: "transcript \<Rightarrow> transcript" where
  "mark_changed t = t\<lparr>tr_revision := tr_revision t + 1, tr_snapshot := []\<rparr>"

definition reindex :: "transcript_cell list \<Rightarrow> (string, nat) dict" where
  "reindex cs = fold (\<lambda>(n, c) d. dict_set (tc_id c) n d) (List.enumerate 0 cs) []"

text \<open>The loop that pops the oldest cell: what it evicts, what stays, and the character count left.\<close>

fun evict_cells :: "nat \<Rightarrow> nat \<Rightarrow> transcript_cell list \<Rightarrow> int
    \<Rightarrow> (transcript_error, transcript_cell list \<times> transcript_cell list \<times> int) result" where
  "evict_cells max_cells max_chars [] chars = (if chars > int max_chars then Inl Pop_From_Empty else Inr ([], [], chars))"
| "evict_cells max_cells max_chars (c # cs) chars =
     (if length (c # cs) > max_cells \<or> chars > int max_chars
      then map_sum id (\<lambda>(evicted, kept, chars'). (c # evicted, kept, chars'))
             (evict_cells max_cells max_chars cs (chars - int (cell_text_chars c)))
      else Inr ([], c # cs, chars))"

definition enforce_retention :: "transcript \<Rightarrow> (transcript_error, transcript_cell list \<times> transcript) result" where
  "enforce_retention t =
     map_sum id (\<lambda>(evicted, kept, chars).
         (evicted, t\<lparr>tr_cells := kept, tr_text_chars_total := chars,
            tr_indexes := (if evicted = [] then tr_indexes t else reindex kept)\<rparr>))
       (evict_cells (tr_max_cells t) (tr_max_text_chars t) (tr_cells t) (tr_text_chars_total t))"

definition append_to :: "transcript_cell \<Rightarrow> transcript \<Rightarrow> (transcript_error, transcript_cell list \<times> transcript) result" where
  "append_to c t =
     (if tc_id c \<in> set (keys (tr_indexes t)) then Inl (Duplicate_Cell (tc_id c))
      else enforce_retention (mark_changed (t\<lparr>tr_indexes := dict_set (tc_id c) (length (tr_cells t)) (tr_indexes t),
             tr_cells := tr_cells t @ [c],
             tr_text_chars_total := tr_text_chars_total t + int (cell_text_chars c)\<rparr>)))"

definition replace_in :: "transcript_cell \<Rightarrow> transcript \<Rightarrow> (transcript_error, transcript_cell \<times> transcript) result" where
  "replace_in c t =
     (case dict_get (tr_indexes t) (tc_id c) of
        None \<Rightarrow> Inl (Missing_Cell (tc_id c))
      | Some n \<Rightarrow>
          let previous = tr_cells t ! n
          in map_sum id (\<lambda>(_, t'). (previous, t'))
               (enforce_retention (mark_changed (t\<lparr>tr_cells := (tr_cells t)[n := c],
                  tr_text_chars_total := tr_text_chars_total t + (int (cell_text_chars c) - int (cell_text_chars previous))\<rparr>))))"

definition clear_transcript :: "transcript \<Rightarrow> transcript" where
  "clear_transcript t =
     (if tr_cells t = [] then t
      else mark_changed (t\<lparr>tr_cells := [], tr_indexes := [], tr_text_chars_total := 0\<rparr>))"

section \<open>Agreement of index, count and cache with the cells\<close>

definition ids :: "transcript_cell list \<Rightarrow> string list" where
  "ids cs = map tc_id cs"

definition text_chars :: "transcript_cell list \<Rightarrow> nat" where
  "text_chars cs = sum_list (map cell_text_chars cs)"

definition within_limits :: "transcript \<Rightarrow> transcript_cell list \<Rightarrow> bool" where
  "within_limits t cs \<longleftrightarrow> length cs \<le> tr_max_cells t \<and> text_chars cs \<le> tr_max_text_chars t"

definition index_table :: "transcript_cell list \<Rightarrow> (string, nat) dict" where
  "index_table cs = zip (ids cs) [0..<length cs]"

text \<open>\<open>counted\<close> holds between adding a cell and dropping what is too much.\<close>

definition counted :: "transcript \<Rightarrow> bool" where
  "counted t \<longleftrightarrow> 1 \<le> tr_max_cells t \<and> 1 \<le> tr_max_text_chars t \<and> distinct (ids (tr_cells t)) \<and>
     tr_indexes t = index_table (tr_cells t) \<and> tr_text_chars_total t = int (text_chars (tr_cells t)) \<and>
     (tr_snapshot t = [] \<or> tr_snapshot t = tr_cells t)"

definition transcript_ok :: "transcript \<Rightarrow> bool" where
  "transcript_ok t \<longleftrightarrow> counted t \<and> within_limits t (tr_cells t)"

lemma index_table_snoc: "index_table (cs @ [c]) = index_table cs @ [(tc_id c, length cs)]"
  by (simp add: index_table_def ids_def)

lemma keys_index_table [simp]: "keys (index_table cs) = ids cs"
  by (simp add: index_table_def ids_def)

lemma index_table_get:
  assumes "distinct (ids cs)"
  shows "dict_get (index_table cs) i = Some n \<longleftrightarrow> n < length cs \<and> tc_id (cs ! n) = i"
proof -
  have "dict_ok (index_table cs)" using assms by (simp add: dict_ok_def)
  then have "dict_get (index_table cs) i = Some n \<longleftrightarrow> (i, n) \<in> set (index_table cs)"
    using dict_get_mem dict_get_SomeD by metis
  also have "\<dots> \<longleftrightarrow> n < length cs \<and> tc_id (cs ! n) = i"
    by (auto simp: index_table_def ids_def set_zip intro!: exI [of _ n])
  finally show ?thesis .
qed

lemma reindex_prefix: "distinct (ids (as @ cs)) \<Longrightarrow>
    fold (\<lambda>(n, c) d. dict_set (tc_id c) n d) (List.enumerate (length as) cs) (index_table as) = index_table (as @ cs)"
proof (induction cs arbitrary: as)
  case Nil
  then show ?case by simp
next
  case (Cons c cs)
  have "dict_set (tc_id c) (length as) (index_table as) = index_table (as @ [c])"
    using Cons.prems by (simp add: index_table_snoc dict_set_new ids_def)
  with Cons.IH [of "as @ [c]"] Cons.prems show ?case by simp
qed

lemma reindex_table: "distinct (ids cs) \<Longrightarrow> reindex cs = index_table cs"
  using reindex_prefix [of "[]" cs] by (simp add: reindex_def index_table_def ids_def)

lemma text_chars_simps [simp]:
  "text_chars [] = 0" "text_chars (c # cs) = cell_text_chars c + text_chars cs" "text_chars (as @ cs) = text_chars as + text_chars cs"
  by (simp_all add: text_chars_def)

text \<open>What is evicted is the shortest prefix whose removal suffices.\<close>

lemma evict_cells_spec:
  "\<exists>k. evict_cells mc mt cs (int (text_chars cs)) = Inr (take k cs, drop k cs, int (text_chars (drop k cs))) \<and> k \<le> length cs \<and>
     length (drop k cs) \<le> mc \<and> text_chars (drop k cs) \<le> mt \<and>
     (\<forall>j < k. mc < length (drop j cs) \<or> mt < text_chars (drop j cs))"
proof (induction cs)
  case Nil
  then show ?case by simp
next
  case (Cons c cs)
  show ?case
  proof (cases "length (c # cs) > mc \<or> text_chars (c # cs) > mt")
    case True
    from Cons obtain k where k: "evict_cells mc mt cs (int (text_chars cs)) = Inr (take k cs, drop k cs, int (text_chars (drop k cs)))"
        "k \<le> length cs" "length (drop k cs) \<le> mc" "text_chars (drop k cs) \<le> mt"
        "\<forall>j < k. mc < length (drop j cs) \<or> mt < text_chars (drop j cs)" by blast
    have "evict_cells mc mt (c # cs) (int (text_chars (c # cs))) =
        Inr (take (Suc k) (c # cs), drop (Suc k) (c # cs), int (text_chars (drop (Suc k) (c # cs))))"
      using True k(1) by auto
    moreover have "\<forall>j < Suc k. mc < length (drop j (c # cs)) \<or> mt < text_chars (drop j (c # cs))"
      using True k(5) by (auto simp: less_Suc_eq_0_disj)
    ultimately show ?thesis using k by (intro exI [of _ "Suc k"]) auto
  next
    case False
    then show ?thesis by (intro exI [of _ 0]) auto
  qed
qed

definition retained :: "transcript \<Rightarrow> transcript_cell list \<Rightarrow> transcript_cell list" where
  "retained t cs = drop (LEAST k. within_limits t (drop k cs)) cs"

lemma retained_eq:
  assumes "within_limits t (drop k cs)" "\<forall>j < k. \<not> within_limits t (drop j cs)"
  shows "retained t cs = drop k cs"
  using assms unfolding retained_def by (metis (mono_tags, lifting) LeastI_ex Least_le linorder_neqE_nat not_less)

lemma enforce_retention_spec:
  assumes "counted t" "tr_snapshot t = []"
  obtains evicted t' where "enforce_retention t = Inr (evicted, t')" "transcript_ok t'"
    "tr_cells t = evicted @ tr_cells t'" "tr_cells t' = retained t (tr_cells t)"
    "tr_max_cells t' = tr_max_cells t" "tr_max_text_chars t' = tr_max_text_chars t" "tr_revision t' = tr_revision t"
proof -
  from evict_cells_spec [of "tr_max_cells t" "tr_max_text_chars t" "tr_cells t"] obtain k where
    k: "evict_cells (tr_max_cells t) (tr_max_text_chars t) (tr_cells t) (int (text_chars (tr_cells t))) =
        Inr (take k (tr_cells t), drop k (tr_cells t), int (text_chars (drop k (tr_cells t))))"
      "within_limits t (drop k (tr_cells t))" "\<forall>j < k. \<not> within_limits t (drop j (tr_cells t))"
    unfolding within_limits_def by (auto simp: not_le)
  let ?t = "t\<lparr>tr_cells := drop k (tr_cells t), tr_text_chars_total := int (text_chars (drop k (tr_cells t))),
     tr_indexes := (if take k (tr_cells t) = [] then tr_indexes t else reindex (drop k (tr_cells t)))\<rparr>"
  have e: "enforce_retention t = Inr (take k (tr_cells t), ?t)"
    using assms(1) k(1) by (simp add: enforce_retention_def counted_def)
  have d: "distinct (ids (drop k (tr_cells t)))" using assms(1) by (simp add: counted_def ids_def drop_map [symmetric])
  have "tr_indexes ?t = index_table (drop k (tr_cells t))"
    using assms(1) reindex_table [OF d] by (auto simp: counted_def)
  with assms d k(2) have "transcript_ok ?t" by (simp add: transcript_ok_def counted_def within_limits_def)
  with that [OF e] retained_eq [OF k(2,3)] show ?thesis by simp
qed

lemma get_cell_iff:
  assumes "counted t"
  shows "get_cell t i = Some c \<longleftrightarrow> c \<in> set (tr_cells t) \<and> tc_id c = i"
proof -
  have d: "distinct (ids (tr_cells t))" "tr_indexes t = index_table (tr_cells t)" using assms by (simp_all add: counted_def)
  show ?thesis
  proof (cases "dict_get (tr_indexes t) i")
    case None
    then have "n < length (tr_cells t) \<Longrightarrow> tc_id (tr_cells t ! n) \<noteq> i" for n
      using index_table_get [OF d(1), of i n] d(2) by auto
    with None show ?thesis by (auto simp: get_cell_def in_set_conv_nth)
  next
    case (Some n)
    then have n: "n < length (tr_cells t)" "tc_id (tr_cells t ! n) = i" using index_table_get [OF d(1)] d(2) by auto
    have "c = tr_cells t ! n" if "c \<in> set (tr_cells t)" "tc_id c = i"
      using that n d(1) by (auto simp: in_set_conv_nth ids_def distinct_conv_nth)
    with Some n show ?thesis by (auto simp: get_cell_def)
  qed
qed

lemma get_cell_None: "counted t \<Longrightarrow> get_cell t i = None \<longleftrightarrow> i \<notin> set (ids (tr_cells t))"
  using get_cell_iff [of t i] by (cases "get_cell t i") (auto simp: ids_def, metis image_eqI)

lemma append_to_ok:
  assumes "transcript_ok t"
  shows "if tc_id c \<in> set (ids (tr_cells t)) then append_to c t = Inl (Duplicate_Cell (tc_id c))
    else \<exists>evicted t'. append_to c t = Inr (evicted, t') \<and> transcript_ok t' \<and> tr_cells t @ [c] = evicted @ tr_cells t' \<and>
      tr_cells t' = retained t (tr_cells t @ [c]) \<and>
      tr_max_cells t' = tr_max_cells t \<and> tr_max_text_chars t' = tr_max_text_chars t"
proof (cases "tc_id c \<in> set (ids (tr_cells t))")
  case True
  with assms show ?thesis by (simp add: append_to_def transcript_ok_def counted_def)
next
  case False
  define u where "u = mark_changed (t\<lparr>tr_indexes := dict_set (tc_id c) (length (tr_cells t)) (tr_indexes t),
             tr_cells := tr_cells t @ [c], tr_text_chars_total := tr_text_chars_total t + int (cell_text_chars c)\<rparr>)"
  have u: "tr_cells u = tr_cells t @ [c]" "tr_max_cells u = tr_max_cells t" "tr_max_text_chars u = tr_max_text_chars t"
      "tr_snapshot u = []" by (simp_all add: u_def mark_changed_def)
  have "counted u"
    using assms False
    by (simp add: u_def mark_changed_def transcript_ok_def counted_def index_table_snoc dict_set_new) (simp add: ids_def)
  from enforce_retention_spec [OF this u(4)] obtain ev t' where e: "enforce_retention u = Inr (ev, t')" "transcript_ok t'"
    "tr_cells u = ev @ tr_cells t'" "tr_cells t' = retained u (tr_cells u)" "tr_max_cells t' = tr_max_cells u"
    "tr_max_text_chars t' = tr_max_text_chars u" by metis
  have "retained u = retained t" by (rule ext) (simp add: retained_def within_limits_def u)
  moreover have "append_to c t = enforce_retention u"
    using assms False by (simp add: append_to_def u_def transcript_ok_def counted_def)
  ultimately show ?thesis using e False u by simp
qed

lemma text_chars_update:
  "n < length cs \<Longrightarrow> text_chars (cs[n := c]) + cell_text_chars (cs ! n) = text_chars cs + cell_text_chars c"
  by (induction cs arbitrary: n) (auto split: nat.split)

lemma replace_in_ok:
  assumes "transcript_ok t" "p \<in> set (tr_cells t)" "tc_id c = tc_id p"
  shows "\<exists>evicted n t'. n < length (tr_cells t) \<and> tr_cells t ! n = p \<and> replace_in c t = Inr (p, t') \<and> transcript_ok t' \<and>
      (tr_cells t)[n := c] = evicted @ tr_cells t' \<and>
      tr_max_cells t' = tr_max_cells t \<and> tr_max_text_chars t' = tr_max_text_chars t"
proof -
  have ct: "counted t" using assms(1) by (simp add: transcript_ok_def)
  then have d: "distinct (ids (tr_cells t))" and ix: "tr_indexes t = index_table (tr_cells t)" by (simp_all add: counted_def)
  from assms(2) obtain n where n: "n < length (tr_cells t)" "tr_cells t ! n = p" by (auto simp: in_set_conv_nth)
  with assms(3) d ix have get: "dict_get (tr_indexes t) (tc_id c) = Some n" by (simp add: index_table_get)
  define u where "u = mark_changed (t\<lparr>tr_cells := (tr_cells t)[n := c],
     tr_text_chars_total := tr_text_chars_total t + (int (cell_text_chars c) - int (cell_text_chars p))\<rparr>)"
  have ids: "ids ((tr_cells t)[n := c]) = ids (tr_cells t)"
    using n assms(3) by (simp add: ids_def map_update list_update_same_conv)
  have chars: "int (text_chars ((tr_cells t)[n := c])) = int (text_chars (tr_cells t)) + (int (cell_text_chars c) - int (cell_text_chars p))"
    using text_chars_update [OF n(1), of c] n(2) by simp
  have u: "tr_cells u = (tr_cells t)[n := c]" "tr_max_cells u = tr_max_cells t" "tr_max_text_chars u = tr_max_text_chars t"
      "tr_snapshot u = []" by (simp_all add: u_def mark_changed_def)
  have "counted u"
    using ct chars by (simp add: u_def mark_changed_def counted_def ids index_table_def)
  from enforce_retention_spec [OF this u(4)] obtain ev t' where e: "enforce_retention u = Inr (ev, t')" "transcript_ok t'"
    "tr_cells u = ev @ tr_cells t'" "tr_max_cells t' = tr_max_cells u" "tr_max_text_chars t' = tr_max_text_chars u" by metis
  have "replace_in c t = Inr (p, t')" using get n e(1) by (simp add: replace_in_def Let_def flip: u_def)
  with n e u show ?thesis by metis
qed

lemma clear_ok: "transcript_ok t \<Longrightarrow> transcript_ok (clear_transcript t)"
  by (auto simp: clear_transcript_def transcript_ok_def counted_def mark_changed_def within_limits_def index_table_def ids_def)

lemma clear_cells:
  "tr_cells (clear_transcript t) = []" "tr_max_cells (clear_transcript t) = tr_max_cells t"
  "tr_max_text_chars (clear_transcript t) = tr_max_text_chars t"
  by (simp_all add: clear_transcript_def mark_changed_def)

lemma cells_ok: "transcript_ok t \<Longrightarrow> fst (transcript_cells t) = tr_cells t \<and> transcript_ok (snd (transcript_cells t)) \<and>
    tr_cells (snd (transcript_cells t)) = tr_cells t \<and> tr_max_cells (snd (transcript_cells t)) = tr_max_cells t \<and>
    tr_max_text_chars (snd (transcript_cells t)) = tr_max_text_chars t"
  by (auto simp: transcript_cells_def Let_def transcript_ok_def counted_def within_limits_def)

lemma new_transcript_ok: "new_transcript mc mt = Inr t \<Longrightarrow> transcript_ok t \<and> tr_cells t = []"
  by (auto simp: new_transcript_def transcript_ok_def counted_def within_limits_def index_table_def ids_def split: if_splits)

end
