(* ===== verification/Reducer.thy ===== *)
theory Reducer
  imports Transcript File_Tools
begin

text \<open>
  The reduction of runtime events to the transcript (\<^verbatim>\<open>presentation/reducer.py\<close>): correlation of events
  with cells, streaming of assistant text, tools, diffs, diagnostics, sub-agents and approvals, and the
  filters for repeated events and for older session generations. An operation returns its changes or
  the exception it raised, and the state it left behind in both cases; reading the cells, which fills the
  cached tuple, and clearing them are operations too. Payloads carry the fields the reducer reads.
\<close>

section \<open>Events\<close>

datatype runtime_payload =
    Turn_Started ptext
  | Chat_Started ptext
  | User_Steering_Applied ptext
  | Assistant_Content_Delta ptext
  | Assistant_Stream_Interrupted
  | Reasoning_Delta ptext
  | Stream_Chunk ptext bool
  | Turn_Finished ptext
  | Chat_Completed ptext
  | Tool_Call_Started string string json
  | Tool_Call_Finished string string tool_outcome
  | Tool_Output_Delta string ptext
  | Subagent_Finished subagent_cell
  | Error_Occurred ptext
  | Notification_Raised ptext string string
  | Diagnostics_Published diagnostic_cell
  | Diagnostics_Cleared string string int int
  | Approval_Requested string ptext "ptext option"
  | Approval_Resolved string bool "ptext option" "string option" "ptext option" int "string option"
  | Session_Changed "string option"
  | Runtime_State_Changed string
  | Operation_Phase_Changed string
  | Plan_Updated
  | Progress_Reported
  | Process_Session_Changed string
  | View_Requested string string
  | View_Refreshed string string int

fun is_transient_payload :: "runtime_payload \<Rightarrow> bool" where
  "is_transient_payload (Operation_Phase_Changed status) = (status = ''running'')"
| "is_transient_payload (Process_Session_Changed state) = (state = ''running'')"
| "is_transient_payload (Assistant_Content_Delta _) = True"
| "is_transient_payload (Reasoning_Delta _) = True"
| "is_transient_payload (Stream_Chunk _ _) = True"
| "is_transient_payload (Tool_Output_Delta _ _) = True"
| "is_transient_payload _ = False"

record runtime_event =
  re_payload :: runtime_payload
  re_event_id :: string
  re_agent_id :: "string option"
  re_session_generation :: "int option"
  re_session_id :: "string option"
  re_turn_id :: "string option"

datatype presentation_change =
    Change_Append transcript_cell
  | Change_Update transcript_cell transcript_cell
  | Change_Evict transcript_cell

type_synonym assistant_key = "string option \<times> string option \<times> int option \<times> string option"
type_synonym turn_key = "string option \<times> string option \<times> int option"

record view_state =
  vs_transcript :: transcript
  vs_seen_event_ids :: "string list"
  vs_session_generations :: "(string \<times> string option, int) dict"
  vs_active_session_id :: "string option"
  vs_runtime_state :: string
  vs_view_revisions :: "(string \<times> string, int) dict"
  vs_active_assistant_cells :: "(assistant_key, string) dict"
  vs_active_turn_groups :: "(turn_key, string) dict"

definition new_view_state :: "transcript \<Rightarrow> view_state" where
  "new_view_state t =
     \<lparr>vs_transcript = t, vs_seen_event_ids = [], vs_session_generations = [], vs_active_session_id = None,
      vs_runtime_state = ''idle'', vs_view_revisions = [], vs_active_assistant_cells = [], vs_active_turn_groups = []\<rparr>"

type_synonym reduction = "(transcript_error, presentation_change list) result \<times> view_state"

section \<open>Changing the transcript\<close>

definition append_cell :: "transcript_cell \<Rightarrow> view_state \<Rightarrow> reduction" where
  "append_cell c s =
     (case append_to c (vs_transcript s) of
        Inl e \<Rightarrow> (Inl e, s)
      | Inr (evicted, t) \<Rightarrow> (Inr (Change_Append c # map Change_Evict evicted), s\<lparr>vs_transcript := t\<rparr>))"

definition replace_cell :: "transcript_cell \<Rightarrow> view_state \<Rightarrow> reduction" where
  "replace_cell c s =
     (case replace_in c (vs_transcript s) of
        Inl e \<Rightarrow> (Inl e, s)
      | Inr (previous, t) \<Rightarrow> (Inr [Change_Update c previous], s\<lparr>vs_transcript := t\<rparr>))"

definition no_changes :: "view_state \<Rightarrow> reduction" where
  "no_changes s = (Inr [], s)"

definition and_then :: "reduction \<Rightarrow> (view_state \<Rightarrow> reduction) \<Rightarrow> reduction" where
  "and_then r f =
     (case r of
        (Inl e, s) \<Rightarrow> (Inl e, s)
      | (Inr cs, s) \<Rightarrow> (case f s of (Inl e, s') \<Rightarrow> (Inl e, s') | (Inr ds, s') \<Rightarrow> (Inr (cs @ ds), s')))"

definition find_cell :: "view_state \<Rightarrow> string \<Rightarrow> transcript_cell option" where
  "find_cell s i = get_cell (vs_transcript s) i"

section \<open>Routes and groups\<close>

definition or_text :: "string option \<Rightarrow> string \<Rightarrow> string" where
  "or_text x d = (if or_empty x = [] then d else or_empty x)"

definition int_str :: "int \<Rightarrow> string" where
  "int_str n = (if n < 0 then CHR ''-'' # nat_str (nat (- n)) else nat_str (nat n))"

definition assistant_route :: "runtime_event \<Rightarrow> assistant_key" where
  "assistant_route e = (re_agent_id e, re_session_id e, re_session_generation e, re_turn_id e)"

definition turn_route :: "runtime_event \<Rightarrow> turn_key" where
  "turn_route e = (re_agent_id e, re_session_id e, re_session_generation e)"

definition group_identity :: "runtime_event \<Rightarrow> string \<Rightarrow> string" where
  "group_identity e identity =
     join '':'' [or_text (re_agent_id e) ''agent'', or_text (re_session_id e) ''session'',
       int_str (case re_session_generation e of None \<Rightarrow> 0 | Some g \<Rightarrow> g), identity]"

definition event_identity :: "runtime_event \<Rightarrow> string" where
  "event_identity e = or_text (re_turn_id e) (re_event_id e)"

definition start_turn_group :: "runtime_event \<Rightarrow> view_state \<Rightarrow> string \<times> view_state" where
  "start_turn_group e s =
     (let g = group_identity e (event_identity e)
      in (g, s\<lparr>vs_active_turn_groups := dict_set (turn_route e) g (vs_active_turn_groups s)\<rparr>))"

definition event_group :: "runtime_event \<Rightarrow> view_state \<Rightarrow> string option" where
  "event_group e s =
     (if or_empty (re_turn_id e) \<noteq> [] then Some (group_identity e (or_empty (re_turn_id e)))
      else dict_get (vs_active_turn_groups s) (turn_route e))"

definition owned_id :: "string \<Rightarrow> runtime_event \<Rightarrow> string" where
  "owned_id kind e =
     (if or_empty (re_agent_id e) \<noteq> [] then kind @ '':'' @ or_empty (re_agent_id e) @ '':'' @ event_identity e
      else kind @ '':'' @ event_identity e)"

section \<open>Assistant text\<close>

definition active_assistant :: "runtime_event \<Rightarrow> view_state \<Rightarrow> transcript_cell option" where
  "active_assistant e s =
     (case dict_get (vs_active_assistant_cells s) (assistant_route e) of
        None \<Rightarrow> None
      | Some i \<Rightarrow> if i = [] then None else find_cell s i)"

definition pop_active :: "runtime_event \<Rightarrow> view_state \<Rightarrow> view_state" where
  "pop_active e s = s\<lparr>vs_active_assistant_cells := dict_pop (assistant_route e) (vs_active_assistant_cells s)\<rparr>"

definition next_assistant_cell_id :: "runtime_event \<Rightarrow> view_state \<Rightarrow> string" where
  "next_assistant_cell_id e s =
     (let i = owned_id ''assistant'' e in if find_cell s i \<noteq> None then i @ '':'' @ re_event_id e else i)"

text \<open>The text and the interruption mark of an assistant cell that is not complete.\<close>

definition open_assistant :: "transcript_cell option \<Rightarrow> (transcript_cell \<times> ptext \<times> bool) option" where
  "open_assistant x =
     (case x of
        None \<Rightarrow> None
      | Some c \<Rightarrow> (case tc_body c of Assistant_Cell t over interrupted \<Rightarrow>
            if over then None else Some (c, t, interrupted) | _ \<Rightarrow> None))"

definition complete_active_assistant :: "runtime_event \<Rightarrow> view_state \<Rightarrow> reduction" where
  "complete_active_assistant e s =
     (case open_assistant (active_assistant e s) of
        Some (c, t, interrupted) \<Rightarrow>
          (case replace_cell (next_revision (Assistant_Cell t True interrupted) c) s of
             (Inl err, s') \<Rightarrow> (Inl err, s')
           | (Inr _, s') \<Rightarrow> no_changes (pop_active e s'))
      | None \<Rightarrow> no_changes (pop_active e s))"

definition append_stream :: "runtime_event \<Rightarrow> ptext \<Rightarrow> view_state \<Rightarrow> reduction" where
  "append_stream e text_delta s =
     (case open_assistant (active_assistant e s) of
        None \<Rightarrow>
          let i = next_assistant_cell_id e s
          in append_cell (new_cell i (event_group e s) (Assistant_Cell text_delta False False))
               (s\<lparr>vs_active_assistant_cells := dict_set (assistant_route e) i (vs_active_assistant_cells s)\<rparr>)
      | Some (c, t, interrupted) \<Rightarrow> replace_cell (next_revision (Assistant_Cell (t @ text_delta) False interrupted) c) s)"

definition complete_chat :: "runtime_event \<Rightarrow> ptext \<Rightarrow> view_state \<Rightarrow> reduction" where
  "complete_chat e response s =
     (case open_assistant (active_assistant e s) of
        Some (c, t, interrupted) \<Rightarrow> replace_cell (next_revision (Assistant_Cell response True interrupted) c) (pop_active e s)
      | None \<Rightarrow>
          let s = pop_active e s
          in if response \<noteq> []
             then append_cell (new_cell (next_assistant_cell_id e s) (event_group e s) (Assistant_Cell response True False)) s
             else no_changes s)"

definition finish_turn :: "runtime_event \<Rightarrow> ptext \<Rightarrow> view_state \<Rightarrow> reduction" where
  "finish_turn e response s =
     (case complete_chat e response s of
        (Inl err, s') \<Rightarrow> (Inl err, s')
      | (Inr cs, s') \<Rightarrow> (Inr cs, s'\<lparr>vs_active_turn_groups := dict_pop (turn_route e) (vs_active_turn_groups s')\<rparr>))"

definition interrupt_active_assistant :: "runtime_event \<Rightarrow> view_state \<Rightarrow> reduction" where
  "interrupt_active_assistant e s =
     (case open_assistant (active_assistant e s) of
        Some (c, t, _) \<Rightarrow> replace_cell (next_revision (Assistant_Cell t True True) c) (pop_active e s)
      | None \<Rightarrow> no_changes (pop_active e s))"

text \<open>Lifecycle metadata in front of the first blank line is not shown.\<close>

fun after_blank_line :: "ptext \<Rightarrow> ptext" where
  "after_blank_line (c # d # t) = (if c = 10 \<and> d = 10 then t else after_blank_line (d # t))"
| "after_blank_line _ = []"

definition visible_user_input :: "ptext \<Rightarrow> ptext" where
  "visible_user_input t =
     (if pt_starts t (lit ''[SESSION_RESUME]'') \<or> pt_starts t (lit ''[SESSION_EXIT]'') then after_blank_line t else t)"

definition start_turn :: "runtime_event \<Rightarrow> ptext \<Rightarrow> view_state \<Rightarrow> reduction" where
  "start_turn e user_input s =
     and_then (complete_active_assistant e s) (\<lambda>s.
       case start_turn_group e s of
         (g, s) \<Rightarrow>
           if user_input = [] then no_changes s
           else append_cell (new_cell (owned_id ''user'' e) (Some g) (User_Cell (visible_user_input user_input))) s)"

section \<open>Tools\<close>

text \<open>The last five lines, then the last characters; \<^verbatim>\<open>tail[-0:]\<close> is the whole text.\<close>

definition last_items :: "nat \<Rightarrow> 'a list \<Rightarrow> 'a list" where
  "last_items n xs = (if n = 0 then xs else drop (length xs - n) xs)"

definition tool_output_tail :: "nat \<Rightarrow> ptext \<Rightarrow> ptext" where
  "tool_output_tail max_chars t = last_items max_chars (concat (last_items 5 (pieces_from [] t)))"

definition tool_id :: "string \<Rightarrow> string" where
  "tool_id tool_call_id = ''tool:'' @ tool_call_id"

definition start_tool :: "runtime_event \<Rightarrow> string \<Rightarrow> string \<Rightarrow> json \<Rightarrow> view_state \<Rightarrow> reduction" where
  "start_tool e tool_call_id name arguments s =
     and_then (complete_active_assistant e s) (\<lambda>s.
       append_cell (new_cell (tool_id tool_call_id) (event_group e s)
         (Tool_Cell \<lparr>tl_tool_call_id = tool_call_id, tl_name = name, tl_arguments = Some arguments, tl_output = [],
            tl_status = Cell_Running, tl_outcome = None, tl_orphaned = False\<rparr>)) s)"

text \<open>Whether a metadata value is true in a condition.\<close>

fun fact_true :: "fact \<Rightarrow> bool" where
  "fact_true (Fact_Text t) = (t \<noteq> [])"
| "fact_true (Fact_Bool b) = b"
| "fact_true (Fact_Nat n) = (n \<noteq> 0)"
| "fact_true (Fact_Texts ts) = (ts \<noteq> [])"
| "fact_true (Fact_Receipt _) = True"
| "fact_true (Fact_Verification _) = True"
| "fact_true (Fact_Results rs) = (rs \<noteq> [])"
| "fact_true (Fact_Failures fs) = (fs \<noteq> [])"

definition record_diff :: "runtime_event \<Rightarrow> string \<Rightarrow> tool_outcome \<Rightarrow> view_state \<Rightarrow> reduction" where
  "record_diff e tool_call_id out s =
     (if (case dict_get (to_metadata out) ''diff_reviewed'' of None \<Rightarrow> False | Some f \<Rightarrow> fact_true f) then no_changes s
      else case to_diff out of
        None \<Rightarrow> no_changes s
      | Some d \<Rightarrow>
          if td_unified d = [] then no_changes s
          else
            let i = ''diff:'' @ tool_call_id; b = Diff_Cell (td_path d) (td_unified d)
            in case find_cell s i of
                 Some c \<Rightarrow> (case tc_body c of Diff_Cell _ _ \<Rightarrow> replace_cell (next_revision b c) s
                   | _ \<Rightarrow> append_cell (new_cell i (event_group e s) b) s)
               | None \<Rightarrow> append_cell (new_cell i (event_group e s) b) s)"

definition finish_tool :: "runtime_event \<Rightarrow> string \<Rightarrow> string \<Rightarrow> tool_outcome \<Rightarrow> view_state \<Rightarrow> reduction" where
  "finish_tool e tool_call_id name out s =
     (let status = (if success out then Cell_Succeeded else Cell_Failed);
          orphan = new_cell (tool_id tool_call_id) (event_group e s)
            (Tool_Cell \<lparr>tl_tool_call_id = tool_call_id, tl_name = name, tl_arguments = None, tl_output = [],
               tl_status = status, tl_outcome = Some out, tl_orphaned = True\<rparr>)
      in and_then
           (case find_cell s (tool_id tool_call_id) of
              Some c \<Rightarrow> (case tc_body c of
                  Tool_Cell b \<Rightarrow> replace_cell (next_revision (Tool_Cell (b\<lparr>tl_status := status, tl_outcome := Some out\<rparr>)) c) s
                | _ \<Rightarrow> append_cell orphan s)
            | None \<Rightarrow> append_cell orphan s)
           (record_diff e tool_call_id out))"

definition append_tool_output :: "nat \<Rightarrow> runtime_event \<Rightarrow> string \<Rightarrow> ptext \<Rightarrow> view_state \<Rightarrow> reduction" where
  "append_tool_output preview_chars e tool_call_id t s =
     (let orphan = new_cell (tool_id tool_call_id) (event_group e s)
            (Tool_Cell \<lparr>tl_tool_call_id = tool_call_id, tl_name = ''unknown_tool'', tl_arguments = None,
               tl_output = tool_output_tail preview_chars t, tl_status = Cell_Running, tl_outcome = None, tl_orphaned = True\<rparr>)
      in case find_cell s (tool_id tool_call_id) of
           Some c \<Rightarrow> (case tc_body c of
               Tool_Cell b \<Rightarrow>
                 replace_cell (next_revision (Tool_Cell (b\<lparr>tl_output := tool_output_tail preview_chars (tl_output b @ t)\<rparr>)) c) s
             | _ \<Rightarrow> append_cell orphan s)
         | None \<Rightarrow> append_cell orphan s)"

section \<open>Diagnostics, sub-agents, notices and approvals\<close>

definition diagnostic_cell_id :: "runtime_event \<Rightarrow> string \<Rightarrow> string" where
  "diagnostic_cell_id e file_path = ''diagnostic:'' @ or_text (re_agent_id e) ''unknown'' @ '':'' @ file_path"

definition publish_diagnostics :: "runtime_event \<Rightarrow> diagnostic_cell \<Rightarrow> view_state \<Rightarrow> reduction" where
  "publish_diagnostics e d s =
     (let i = diagnostic_cell_id e (dc_path d); fresh = new_cell i (event_group e s) (Diagnostic_Cell d)
      in case find_cell s i of
           Some c \<Rightarrow> (case tc_body c of
               Diagnostic_Cell old \<Rightarrow> replace_cell (next_revision (Diagnostic_Cell (d\<lparr>dc_path := dc_path old\<rparr>)) c) s
             | _ \<Rightarrow> append_cell fresh s)
         | None \<Rightarrow> append_cell fresh s)"

definition subagent_finished :: "runtime_event \<Rightarrow> subagent_cell \<Rightarrow> view_state \<Rightarrow> reduction" where
  "subagent_finished e a s =
     (let i = ''subagent:'' @ sc_job_id a; fresh = new_cell i (event_group e s) (Subagent_Cell a)
      in case find_cell s i of
           Some c \<Rightarrow> (case tc_body c of
               Subagent_Cell old \<Rightarrow> replace_cell (next_revision (Subagent_Cell (a\<lparr>sc_job_id := sc_job_id old\<rparr>)) c) s
             | _ \<Rightarrow> append_cell fresh s)
         | None \<Rightarrow> append_cell fresh s)"

definition raise_notice :: "runtime_event \<Rightarrow> ptext \<Rightarrow> string \<Rightarrow> string \<Rightarrow> view_state \<Rightarrow> reduction" where
  "raise_notice e message level category s =
     append_cell (new_cell (''notice:'' @ re_event_id e) (event_group e s) (Notice_Cell message level category)) s"

definition approval_id :: "string \<Rightarrow> string" where
  "approval_id request_id = ''approval:'' @ request_id"

definition pending_approval_cell :: "string \<Rightarrow> ptext \<Rightarrow> approval_cell" where
  "pending_approval_cell request_id title =
     \<lparr>ap_request_id = request_id, ap_title = title, ap_status = ''pending'', ap_preview = None, ap_summary = [],
      ap_sections = [], ap_reason = None, ap_mode = None, ap_grant_label = None, ap_released_count = 0, ap_resolution_source = None\<rparr>"

definition request_approval_cell :: "runtime_event \<Rightarrow> string \<Rightarrow> ptext \<Rightarrow> ptext option \<Rightarrow> view_state \<Rightarrow> reduction" where
  "request_approval_cell e request_id title preview s =
     (let i = approval_id request_id; g = event_group e s;
          fresh = new_cell i g (Approval_Cell ((pending_approval_cell request_id title)\<lparr>ap_preview := preview\<rparr>))
      in case find_cell s i of
           Some c \<Rightarrow> (case tc_body c of
               Approval_Cell a \<Rightarrow>
                 replace_cell ((next_revision
                     (Approval_Cell (a\<lparr>ap_title := title, ap_status := ''pending'', ap_preview := preview, ap_reason := None\<rparr>)) c)
                   \<lparr>tc_group := (if or_empty (tc_group c) \<noteq> [] then tc_group c else g)\<rparr>) s
             | _ \<Rightarrow> append_cell fresh s)
         | None \<Rightarrow> append_cell fresh s)"

definition resolve_approval_cell ::
    "runtime_event \<Rightarrow> string \<Rightarrow> bool \<Rightarrow> ptext option \<Rightarrow> string option \<Rightarrow> ptext option \<Rightarrow> int \<Rightarrow> string option
      \<Rightarrow> view_state \<Rightarrow> reduction" where
  "resolve_approval_cell e request_id approved reason mode grant_label released source s =
     (let i = approval_id request_id;
          resolve = (\<lambda>a. a\<lparr>ap_status := (if approved then ''approved'' else ''denied''), ap_reason := reason, ap_mode := mode,
            ap_grant_label := grant_label, ap_released_count := released, ap_resolution_source := source\<rparr>);
          fresh = new_cell i (event_group e s) (Approval_Cell (resolve (pending_approval_cell request_id (lit ''Approval''))))
      in case find_cell s i of
           Some c \<Rightarrow> (case tc_body c of
               Approval_Cell a \<Rightarrow> replace_cell (next_revision (Approval_Cell (resolve a)) c) s
             | _ \<Rightarrow> append_cell fresh s)
         | None \<Rightarrow> append_cell fresh s)"

definition append_notice_cell :: "string \<Rightarrow> ptext \<Rightarrow> string \<Rightarrow> string \<Rightarrow> string option \<Rightarrow> view_state \<Rightarrow> reduction" where
  "append_notice_cell notice_id message level category group_id s =
     (let i = ''notice:'' @ notice_id
      in if find_cell s i \<noteq> None then no_changes s
         else append_cell (new_cell i group_id (Notice_Cell message level category)) s)"

definition hydrate_approval ::
    "string \<Rightarrow> ptext \<Rightarrow> ptext \<Rightarrow> approval_section list \<Rightarrow> view_state \<Rightarrow> reduction" where
  "hydrate_approval request_id title summary sections s =
     (let i = approval_id request_id;
          fresh = new_cell i None (Approval_Cell ((pending_approval_cell request_id title)\<lparr>ap_summary := summary, ap_sections := sections\<rparr>))
      in case find_cell s i of
           Some c \<Rightarrow> (case tc_body c of
               Approval_Cell a \<Rightarrow>
                 replace_cell (next_revision (Approval_Cell (a\<lparr>ap_title := title, ap_summary := summary, ap_sections := sections\<rparr>)) c) s
             | _ \<Rightarrow> append_cell fresh s)
         | None \<Rightarrow> append_cell fresh s)"

section \<open>The reducer\<close>

text \<open>A generation is current, new or older for its agent and session.\<close>

definition stale_generation :: "runtime_event \<Rightarrow> view_state \<Rightarrow> bool \<times> view_state" where
  "stale_generation e s =
     (case (re_agent_id e, re_session_generation e) of
        (Some a, Some g) \<Rightarrow>
          let key = (a, re_session_id e)
          in (case dict_get (vs_session_generations s) key of
                None \<Rightarrow> (False, s\<lparr>vs_session_generations := dict_set key g (vs_session_generations s)\<rparr>)
              | Some current \<Rightarrow>
                  if g < current then (True, s)
                  else if current < g then (False, s\<lparr>vs_session_generations := dict_set key g (vs_session_generations s)\<rparr>)
                  else (False, s))
      | _ \<Rightarrow> (False, s))"

fun reduce_payload :: "nat \<Rightarrow> runtime_event \<Rightarrow> runtime_payload \<Rightarrow> view_state \<Rightarrow> reduction" where
  "reduce_payload n e (Turn_Started t) s = start_turn e t s"
| "reduce_payload n e (Chat_Started t) s = start_turn e t s"
| "reduce_payload n e (User_Steering_Applied t) s =
     append_cell (new_cell (''user-steer:'' @ re_event_id e) (event_group e s) (User_Cell (visible_user_input t))) s"
| "reduce_payload n e (Assistant_Content_Delta t) s = append_stream e t s"
| "reduce_payload n e Assistant_Stream_Interrupted s = interrupt_active_assistant e s"
| "reduce_payload n e (Reasoning_Delta t) s = no_changes s"
| "reduce_payload n e (Stream_Chunk t reasoning) s = (if reasoning then no_changes s else append_stream e t s)"
| "reduce_payload n e (Turn_Finished t) s = finish_turn e t s"
| "reduce_payload n e (Chat_Completed t) s = finish_turn e t s"
| "reduce_payload n e (Tool_Call_Started i name arguments) s = start_tool e i name arguments s"
| "reduce_payload n e (Tool_Call_Finished i name out) s = finish_tool e i name out s"
| "reduce_payload n e (Tool_Output_Delta i t) s = append_tool_output n e i t s"
| "reduce_payload n e (Subagent_Finished a) s = subagent_finished e a s"
| "reduce_payload n e (Error_Occurred t) s = raise_notice e t ''error'' ''agent'' s"
| "reduce_payload n e (Notification_Raised t code severity) s = raise_notice e t severity code s"
| "reduce_payload n e (Diagnostics_Published d) s = publish_diagnostics e d s"
| "reduce_payload n e (Diagnostics_Cleared batch path version generation) s =
     publish_diagnostics e \<lparr>dc_path = path, dc_batch_id = batch, dc_document_version = version,
       dc_diagnostic_generation = generation, dc_diagnostics = []\<rparr> s"
| "reduce_payload n e (Approval_Requested i title preview) s = request_approval_cell e i title preview s"
| "reduce_payload n e (Approval_Resolved i approved reason mode grant_label released source) s =
     resolve_approval_cell e i approved reason mode grant_label released source s"
| "reduce_payload n e (Session_Changed i) s = no_changes (s\<lparr>vs_active_session_id := i\<rparr>)"
| "reduce_payload n e (Runtime_State_Changed x) s = no_changes (s\<lparr>vs_runtime_state := x\<rparr>)"
| "reduce_payload n e (Operation_Phase_Changed x) s = no_changes s"
| "reduce_payload n e Plan_Updated s = no_changes s"
| "reduce_payload n e Progress_Reported s = no_changes s"
| "reduce_payload n e (Process_Session_Changed x) s = no_changes s"
| "reduce_payload n e (View_Requested i v) s =
     no_changes (s\<lparr>vs_view_revisions := dict_set (i, v) 0 (vs_view_revisions s)\<rparr>)"
| "reduce_payload n e (View_Refreshed i v r) s =
     no_changes (s\<lparr>vs_view_revisions := dict_set (i, v) r (vs_view_revisions s)\<rparr>)"

definition note_seen :: "runtime_event \<Rightarrow> view_state \<Rightarrow> bool \<times> view_state" where
  "note_seen e s =
     (if is_transient_payload (re_payload e) then (False, s)
      else if re_event_id e \<in> set (vs_seen_event_ids s) then (True, s)
      else (False, s\<lparr>vs_seen_event_ids := re_event_id e # vs_seen_event_ids s\<rparr>))"

definition apply_event :: "nat \<Rightarrow> runtime_event \<Rightarrow> view_state \<Rightarrow> reduction" where
  "apply_event preview_chars e s =
     (case note_seen e s of
        (True, s) \<Rightarrow> no_changes s
      | (False, s) \<Rightarrow>
          (case stale_generation e s of
             (True, s) \<Rightarrow> no_changes s
           | (False, s) \<Rightarrow> reduce_payload preview_chars e (re_payload e) s))"

text \<open>A front end also reads the cells, which fills the cached tuple, and clears the transcript.\<close>

definition read_cells :: "view_state \<Rightarrow> transcript_cell list \<times> view_state" where
  "read_cells s = (let (cs, t) = transcript_cells (vs_transcript s) in (cs, s\<lparr>vs_transcript := t\<rparr>))"

datatype view_op =
    Apply_Event nat runtime_event
  | Append_Notice string ptext string string "string option"
  | Hydrate_Approval string ptext ptext "approval_section list"
  | Read_Cells
  | Clear_Cells

fun view_reduction :: "view_op \<Rightarrow> view_state \<Rightarrow> reduction" where
  "view_reduction (Apply_Event n e) s = apply_event n e s"
| "view_reduction (Append_Notice i t l c g) s = append_notice_cell i t l c g s"
| "view_reduction (Hydrate_Approval i t sm ss) s = hydrate_approval i t sm ss s"
| "view_reduction Read_Cells s = (Inr [], snd (read_cells s))"
| "view_reduction Clear_Cells s = (Inr [], s\<lparr>vs_transcript := clear_transcript (vs_transcript s)\<rparr>)"

text \<open>What an operation leaves behind, whether it raised or not.\<close>

definition view_step :: "view_state \<Rightarrow> view_op \<Rightarrow> (unit, view_state) result" where
  "view_step s x = Inr (snd (view_reduction x s))"

section \<open>What every operation honours\<close>

definition assistant_cell :: "transcript_cell \<Rightarrow> bool" where
  "assistant_cell c \<longleftrightarrow> (\<exists>t b i. tc_body c = Assistant_Cell t b i)"

definition completed :: "transcript_cell \<Rightarrow> bool" where
  "completed c \<longleftrightarrow> (\<exists>t i. tc_body c = Assistant_Cell t True i)"

definition assistant_id :: "string \<Rightarrow> bool" where
  "assistant_id i \<longleftrightarrow> starts_with i ''assistant:''"

abbreviation shown :: "view_state \<Rightarrow> transcript_cell list" where
  "shown s \<equiv> tr_cells (vs_transcript s)"

definition view_ok :: "view_state \<Rightarrow> bool" where
  "view_ok s \<longleftrightarrow> transcript_ok (vs_transcript s) \<and> (\<forall>c\<in>set (shown s). assistant_cell c \<longrightarrow> assistant_id (tc_id c))"

text \<open>A completed assistant cell is still there as it was, or its id is gone.\<close>

definition keeps_completed :: "view_state \<Rightarrow> view_state \<Rightarrow> bool" where
  "keeps_completed s s' \<longleftrightarrow>
     (\<forall>c\<in>set (shown s). completed c \<longrightarrow> c \<in> set (shown s') \<or> tc_id c \<notin> set (ids (shown s')))"

definition same_filters :: "view_state \<Rightarrow> view_state \<Rightarrow> bool" where
  "same_filters s s' \<longleftrightarrow> vs_seen_event_ids s' = vs_seen_event_ids s \<and> vs_session_generations s' = vs_session_generations s"

definition same_limits :: "view_state \<Rightarrow> view_state \<Rightarrow> bool" where
  "same_limits s s' \<longleftrightarrow> tr_max_cells (vs_transcript s') = tr_max_cells (vs_transcript s) \<and>
     tr_max_text_chars (vs_transcript s') = tr_max_text_chars (vs_transcript s)"

definition honours :: "view_state \<Rightarrow> view_state \<Rightarrow> bool" where
  "honours s s' \<longleftrightarrow> same_filters s s' \<and> (view_ok s \<longrightarrow> view_ok s' \<and> keeps_completed s s' \<and> same_limits s s')"

lemma honours_same: "same_filters s s' \<Longrightarrow> vs_transcript s' = vs_transcript s \<Longrightarrow> honours s s'"
  by (auto simp: honours_def view_ok_def keeps_completed_def same_limits_def)

lemma honours_after:
  assumes "same_filters s u" "vs_transcript u = vs_transcript s" "honours u s'"
  shows "honours s s'"
  using assms by (auto simp: honours_def view_ok_def keeps_completed_def same_filters_def same_limits_def)

lemma honours_before:
  assumes "honours s u" "same_filters u s'" "vs_transcript s' = vs_transcript u"
  shows "honours s s'"
  using assms by (auto simp: honours_def view_ok_def keeps_completed_def same_filters_def same_limits_def)

lemma completed_assistant: "completed c \<Longrightarrow> assistant_cell c"
  by (auto simp: completed_def assistant_cell_def)

text \<open>Two effects in a row, where the second brings no assistant id that was not there.\<close>

lemma honours_trans:
  assumes "honours s u" "honours u s'"
    and "view_ok u \<Longrightarrow> \<forall>i\<in>set (ids (shown s')). assistant_id i \<longrightarrow> i \<in> set (ids (shown u))"
  shows "honours s s'"
proof -
  have "keeps_completed s s'" if ok: "view_ok s"
    unfolding keeps_completed_def
  proof (intro ballI impI)
    fix c assume c: "c \<in> set (shown s)" "completed c"
    have u: "view_ok u" "keeps_completed s u" "keeps_completed u s'" using assms(1,2) ok by (auto simp: honours_def)
    have "assistant_id (tc_id c)" using ok c completed_assistant by (auto simp: view_ok_def)
    then show "c \<in> set (shown s') \<or> tc_id c \<notin> set (ids (shown s'))"
      using u c assms(3) [OF u(1)] unfolding keeps_completed_def by blast
  qed
  with assms(1,2) show ?thesis by (auto simp: honours_def same_filters_def same_limits_def)
qed

lemma append_cell_honours:
  assumes "assistant_cell c \<longrightarrow> assistant_id (tc_id c)"
  shows "honours s (snd (append_cell c s))"
    "view_ok s \<Longrightarrow> set (ids (shown (snd (append_cell c s)))) \<subseteq> insert (tc_id c) (set (ids (shown s)))"
proof -
  have "(view_ok s \<longrightarrow> view_ok s' \<and> keeps_completed s s' \<and> same_limits s s' \<and> set (ids (shown s')) \<subseteq> insert (tc_id c) (set (ids (shown s)))) \<and>
      same_filters s s'" if s': "s' = snd (append_cell c s)" for s'
  proof (intro conjI impI)
    show "same_filters s s'" by (auto simp: s' append_cell_def same_filters_def split: sum.split)
    assume ok: "view_ok s"
    note app = append_to_ok [of "vs_transcript s" c]
    have "view_ok s' \<and> keeps_completed s s' \<and> same_limits s s' \<and> set (ids (shown s')) \<subseteq> insert (tc_id c) (set (ids (shown s)))"
    proof (cases "tc_id c \<in> set (ids (shown s))")
      case True
      with app ok have "s' = s" by (simp add: s' append_cell_def view_ok_def)
      with ok show ?thesis
        by (auto simp: keeps_completed_def same_limits_def)
    next
      case False
      with app ok obtain ev t where t: "append_to c (vs_transcript s) = Inr (ev, t)" "transcript_ok t" "shown s @ [c] = ev @ tr_cells t"
          "tr_max_cells t = tr_max_cells (vs_transcript s)" "tr_max_text_chars t = tr_max_text_chars (vs_transcript s)"
        by (auto simp: view_ok_def)
      then have s'': "shown s' = tr_cells t" "vs_transcript s' = t" by (simp_all add: s' append_cell_def)
      have all: "set (shown s) \<union> {c} = set ev \<union> set (tr_cells t)" using arg_cong [OF t(3), of set] by simp
      have d: "distinct (ids (ev @ tr_cells t))"
        using ok False unfolding t(3) [symmetric] by (simp add: view_ok_def transcript_ok_def counted_def ids_def)
      have sub: "set (tr_cells t) \<subseteq> insert c (set (shown s))" using all by auto
      have "x \<in> set (tr_cells t) \<or> tc_id x \<notin> set (ids (tr_cells t))" if "x \<in> set (shown s)" for x
        using that all d by (auto simp: ids_def)
      moreover have "\<forall>x\<in>set (tr_cells t). assistant_cell x \<longrightarrow> assistant_id (tc_id x)"
        using sub assms ok by (auto simp: view_ok_def)
      ultimately show ?thesis
        using t sub by (auto simp: view_ok_def keeps_completed_def same_limits_def s'' ids_def)
    qed
    then show "view_ok s'" "keeps_completed s s'" "same_limits s s'" "set (ids (shown s')) \<subseteq> insert (tc_id c) (set (ids (shown s)))"
      by simp_all
  qed
  then show "honours s (snd (append_cell c s))"
    "view_ok s \<Longrightarrow> set (ids (shown (snd (append_cell c s)))) \<subseteq> insert (tc_id c) (set (ids (shown s)))"
    by (auto simp: honours_def)
qed

lemma replace_cell_honours:
  assumes "find_cell s (tc_id c) = Some p" "\<not> completed p" "assistant_cell c \<longrightarrow> assistant_id (tc_id c)"
  shows "honours s (snd (replace_cell c s))"
    "view_ok s \<Longrightarrow> set (ids (shown (snd (replace_cell c s)))) \<subseteq> set (ids (shown s))"
    "view_ok s \<Longrightarrow> \<exists>cs. fst (replace_cell c s) = Inr cs"
proof -
  have "(view_ok s \<longrightarrow> view_ok s' \<and> keeps_completed s s' \<and> same_limits s s' \<and> set (ids (shown s')) \<subseteq> set (ids (shown s)) \<and>
      (\<exists>cs. fst (replace_cell c s) = Inr cs)) \<and> same_filters s s'" if s': "s' = snd (replace_cell c s)" for s'
  proof (intro conjI impI)
    show "same_filters s s'" by (auto simp: s' replace_cell_def same_filters_def split: sum.split)
    assume ok: "view_ok s"
    have p: "p \<in> set (shown s)" "tc_id c = tc_id p"
      using assms(1) ok get_cell_iff [of "vs_transcript s"] by (auto simp: find_cell_def view_ok_def transcript_ok_def)
    from replace_in_ok [OF _ p] ok obtain ev n t where t: "n < length (shown s)" "shown s ! n = p"
        "replace_in c (vs_transcript s) = Inr (p, t)" "transcript_ok t" "(shown s)[n := c] = ev @ tr_cells t"
        "tr_max_cells t = tr_max_cells (vs_transcript s)" "tr_max_text_chars t = tr_max_text_chars (vs_transcript s)"
      by (auto simp: view_ok_def)
    then have s'': "shown s' = tr_cells t" "vs_transcript s' = t" by (simp_all add: s' replace_cell_def)
    have ids': "ids (ev @ tr_cells t) = ids (shown s)"
      unfolding t(5) [symmetric] using t(1,2) p(2) by (simp add: ids_def map_update list_update_same_conv)
    then have d: "distinct (ids (ev @ tr_cells t))" using ok by (simp add: view_ok_def transcript_ok_def counted_def)
    have all: "set (ev @ tr_cells t) \<subseteq> insert c (set (shown s))" unfolding t(5) [symmetric] by (rule set_update_subset_insert)
    have kept: "x \<in> set (ev @ tr_cells t)" if "x \<in> set (shown s)" "x \<noteq> p" for x
      unfolding t(5) [symmetric] using that t(1,2) by (metis in_set_conv_nth length_list_update nth_list_update_neq)
    show "view_ok s'" using t(4) all assms(3) ok by (auto simp: view_ok_def s'')
    show "keeps_completed s s'"
      unfolding keeps_completed_def s'' using kept d assms(2) by (auto simp: ids_def)
    show "same_limits s s'" using t by (simp add: same_limits_def s'')
    show "set (ids (shown s')) \<subseteq> set (ids (shown s))" unfolding ids' [symmetric] by (auto simp: s'' ids_def)
    show "\<exists>cs. fst (replace_cell c s) = Inr cs" using t(3) by (simp add: replace_cell_def)
  qed
  then show "honours s (snd (replace_cell c s))"
    "view_ok s \<Longrightarrow> set (ids (shown (snd (replace_cell c s)))) \<subseteq> set (ids (shown s))"
    "view_ok s \<Longrightarrow> \<exists>cs. fst (replace_cell c s) = Inr cs"
    by (auto simp: honours_def)
qed

lemma cell_simps [simp]:
  "tc_id (new_cell i g b) = i" "tc_body (new_cell i g b) = b" "tc_id (next_revision b c) = tc_id c" "tc_body (next_revision b c) = b"
  by (simp_all add: new_cell_def next_revision_def)

lemma append_other: "\<not> assistant_cell c \<Longrightarrow> honours s (snd (append_cell c s))"
  by (rule append_cell_honours) simp

lemma found_id: "view_ok s \<Longrightarrow> find_cell s i = Some c \<Longrightarrow> tc_id c = i \<and> c \<in> set (shown s)"
  using get_cell_iff [of "vs_transcript s" i c] by (simp add: view_ok_def transcript_ok_def find_cell_def)

lemma replace_found:
  assumes "find_cell s i = Some p" "\<not> completed p" "tc_id c = tc_id p" "assistant_cell c \<longrightarrow> assistant_cell p"
  shows "honours s (snd (replace_cell c s))"
    "view_ok s \<Longrightarrow> set (ids (shown (snd (replace_cell c s)))) \<subseteq> set (ids (shown s))"
    "view_ok s \<Longrightarrow> \<exists>cs. fst (replace_cell c s) = Inr cs"
proof -
  have "find_cell s (tc_id c) = Some p \<and> (assistant_cell c \<longrightarrow> assistant_id (tc_id c))" if "view_ok s"
    using found_id [OF that assms(1)] assms that by (auto simp: view_ok_def)
  note found = this
  show "view_ok s \<Longrightarrow> set (ids (shown (snd (replace_cell c s)))) \<subseteq> set (ids (shown s))"
    "view_ok s \<Longrightarrow> \<exists>cs. fst (replace_cell c s) = Inr cs"
    using found replace_cell_honours(2,3) [OF _ assms(2)] by blast+
  have "same_filters s (snd (replace_cell c s))" by (auto simp: replace_cell_def same_filters_def split: sum.split)
  then show "honours s (snd (replace_cell c s))"
    using found replace_cell_honours(1) [OF _ assms(2), of s c] by (auto simp: honours_def)
qed

lemma open_assistant_Some:
  "open_assistant x = Some (c, t, i) \<Longrightarrow> x = Some c \<and> tc_body c = Assistant_Cell t False i \<and> \<not> completed c \<and> assistant_cell c"
  by (auto simp: open_assistant_def completed_def assistant_cell_def split: option.splits cell_body.splits if_splits)

lemma active_assistant_Some: "active_assistant e s = Some c \<Longrightarrow> \<exists>i. find_cell s i = Some c"
  by (auto simp: active_assistant_def split: option.splits if_splits)

lemma same_pop [simp]: "same_filters s (pop_active e s)" "vs_transcript (pop_active e s) = vs_transcript s"
  by (simp_all add: pop_active_def same_filters_def)

lemma same_refl [simp]: "same_filters s s"
  by (simp add: same_filters_def)

lemma honours_refl [simp]: "honours s s"
  by (rule honours_same) simp_all

lemma find_same: "vs_transcript s' = vs_transcript s \<Longrightarrow> find_cell s' i = find_cell s i"
  by (simp add: find_cell_def)

text \<open>Replacing the open assistant cell of an event, before or after other parts of the state changed.\<close>

lemma replace_active:
  assumes "open_assistant (active_assistant e s) = Some (c, t, i)" "vs_transcript u = vs_transcript s" "same_filters s u"
  shows "honours s (snd (replace_cell (next_revision (Assistant_Cell t' b i') c) u))"
    "view_ok s \<Longrightarrow> set (ids (shown (snd (replace_cell (next_revision (Assistant_Cell t' b i') c) u)))) \<subseteq> set (ids (shown s))"
proof -
  from open_assistant_Some [OF assms(1)] have o: "active_assistant e s = Some c" "\<not> completed c" "assistant_cell c" by auto
  from active_assistant_Some [OF o(1)] obtain j where "find_cell u j = Some c" using find_same [OF assms(2)] by auto
  note r = replace_found [OF this o(2), of "next_revision (Assistant_Cell t' b i') c"]
  from r(1) o(3) assms(2,3) show "honours s (snd (replace_cell (next_revision (Assistant_Cell t' b i') c) u))"
    by (auto intro: honours_after)
  show "view_ok s \<Longrightarrow> set (ids (shown (snd (replace_cell (next_revision (Assistant_Cell t' b i') c) u)))) \<subseteq> set (ids (shown s))"
    using r(2) o(3) assms(2) by (simp add: view_ok_def)
qed

lemma next_assistant_id: "assistant_id (next_assistant_cell_id e s)"
  by (auto simp: next_assistant_cell_id_def owned_id_def Let_def assistant_id_def starts_with_def)

lemma complete_active_honours:
  "honours s (snd (complete_active_assistant e s))"
  "view_ok s \<Longrightarrow> set (ids (shown (snd (complete_active_assistant e s)))) \<subseteq> set (ids (shown s))"
proof -
  have "honours s (snd (complete_active_assistant e s)) \<and>
      (view_ok s \<longrightarrow> set (ids (shown (snd (complete_active_assistant e s)))) \<subseteq> set (ids (shown s)))"
  proof (cases "open_assistant (active_assistant e s)")
    case None
    then show ?thesis by (auto simp: complete_active_assistant_def no_changes_def intro: honours_same)
  next
    case (Some x)
    obtain c t i where x: "x = (c, t, i)" by (cases x) auto
    let ?r = "replace_cell (next_revision (Assistant_Cell t True i) c) s"
    note r = replace_active [OF Some [unfolded x], of s t True i, OF refl same_refl]
    have "vs_transcript (snd (complete_active_assistant e s)) = vs_transcript (snd ?r) \<and>
        same_filters (snd ?r) (snd (complete_active_assistant e s))"
      by (cases ?r) (auto simp: complete_active_assistant_def Some x no_changes_def split: sum.split)
    with r honours_before [OF r(1)] show ?thesis by auto
  qed
  then show "honours s (snd (complete_active_assistant e s))"
    "view_ok s \<Longrightarrow> set (ids (shown (snd (complete_active_assistant e s)))) \<subseteq> set (ids (shown s))" by auto
qed

lemma append_stream_honours: "honours s (snd (append_stream e t s))"
proof (cases "open_assistant (active_assistant e s)")
  case None
  let ?u = "s\<lparr>vs_active_assistant_cells := dict_set (assistant_route e) (next_assistant_cell_id e s) (vs_active_assistant_cells s)\<rparr>"
  have "honours ?u (snd (append_cell (new_cell (next_assistant_cell_id e s) (event_group e s) (Assistant_Cell t False False)) ?u))"
    by (rule append_cell_honours) (simp add: next_assistant_id)
  then have "honours s (snd (append_cell (new_cell (next_assistant_cell_id e s) (event_group e s) (Assistant_Cell t False False)) ?u))"
    by (rule honours_after [rotated 2]) (simp_all add: same_filters_def)
  with None show ?thesis by (simp add: append_stream_def Let_def)
next
  case (Some x)
  then show ?thesis by (cases x) (simp add: append_stream_def replace_active(1) [OF _ refl same_refl])
qed

lemma complete_chat_honours: "honours s (snd (complete_chat e t s))"
proof (cases "open_assistant (active_assistant e s)")
  case None
  let ?u = "pop_active e s"
  have "honours ?u (snd (append_cell (new_cell (next_assistant_cell_id e ?u) (event_group e ?u) (Assistant_Cell t True False)) ?u))"
    by (rule append_cell_honours) (simp add: next_assistant_id)
  then have "honours s (snd (append_cell (new_cell (next_assistant_cell_id e ?u) (event_group e ?u) (Assistant_Cell t True False)) ?u))"
    by (rule honours_after [rotated 2]) simp_all
  with None show ?thesis by (auto simp: complete_chat_def Let_def no_changes_def intro: honours_same)
next
  case (Some x)
  then show ?thesis by (cases x) (simp add: complete_chat_def replace_active(1))
qed

lemma finish_turn_honours: "honours s (snd (finish_turn e t s))"
proof -
  have "vs_transcript (snd (finish_turn e t s)) = vs_transcript (snd (complete_chat e t s)) \<and>
      same_filters (snd (complete_chat e t s)) (snd (finish_turn e t s))"
    by (cases "complete_chat e t s") (auto simp: finish_turn_def same_filters_def split: sum.split)
  then show ?thesis using honours_before [OF complete_chat_honours] by blast
qed

lemma interrupt_honours: "honours s (snd (interrupt_active_assistant e s))"
proof (cases "open_assistant (active_assistant e s)")
  case None
  then show ?thesis by (auto simp: interrupt_active_assistant_def no_changes_def intro: honours_same)
next
  case (Some x)
  then show ?thesis by (cases x) (simp add: interrupt_active_assistant_def replace_active(1))
qed

lemma snd_and_then: "snd (and_then r f) = (case fst r of Inl _ \<Rightarrow> snd r | Inr _ \<Rightarrow> snd (f (snd r)))"
  by (cases r) (auto simp: and_then_def split: sum.split prod.split)

lemma other_id [simp]:
  "\<not> assistant_id (''user'' @ i)" "\<not> assistant_id (owned_id ''user'' e)" "\<not> assistant_id (tool_id i)" "\<not> assistant_id (''diff:'' @ i)"
  by (simp_all add: assistant_id_def owned_id_def tool_id_def starts_with_def)

text \<open>Completing the open cell and then appending a cell with another kind of id.\<close>

lemma complete_then_append:
  assumes "vs_transcript u = vs_transcript (snd (complete_active_assistant e s))"
    and "same_filters (snd (complete_active_assistant e s)) u" "\<not> assistant_cell c" "\<not> assistant_id (tc_id c)"
  shows "honours s (snd (append_cell c u))"
proof (rule honours_trans [OF honours_before [OF complete_active_honours(1) assms(2,1)] append_other [OF assms(3)]])
  show "view_ok u \<Longrightarrow> \<forall>i\<in>set (ids (shown (snd (append_cell c u)))). assistant_id i \<longrightarrow> i \<in> set (ids (shown u))"
    using append_cell_honours(2) [of c u] assms(3,4) by auto
qed

lemma start_turn_honours: "honours s (snd (start_turn e t s))"
proof -
  let ?u = "snd (complete_active_assistant e s)"
  let ?v = "snd (start_turn_group e ?u)"
  have v: "vs_transcript ?v = vs_transcript ?u" "same_filters ?u ?v" by (simp_all add: start_turn_group_def same_filters_def Let_def)
  have "honours s ?v" using honours_before [OF complete_active_honours(1) v(2,1)] .
  moreover have "honours s (snd (append_cell (new_cell (owned_id ''user'' e) g (User_Cell x)) ?v))" for g x
    using v by (intro complete_then_append) (auto simp: assistant_cell_def)
  ultimately show ?thesis
    using complete_active_honours(1) [of s e]
    by (auto simp: start_turn_def snd_and_then no_changes_def split: sum.split prod.split)
qed

lemma start_tool_honours: "honours s (snd (start_tool e i name args s))"
proof -
  have "honours s (snd (append_cell (new_cell (tool_id i) g (Tool_Cell b)) (snd (complete_active_assistant e s))))" for g b
    by (rule complete_then_append) (auto simp: assistant_cell_def)
  then show ?thesis
    using complete_active_honours(1) [of s e] by (auto simp: start_tool_def snd_and_then split: sum.split)
qed

lemma not_completed [simp]:
  "tc_body c = Tool_Cell b \<Longrightarrow> \<not> completed c" "tc_body c = Diff_Cell x y \<Longrightarrow> \<not> completed c"
  "tc_body c = Diagnostic_Cell d \<Longrightarrow> \<not> completed c" "tc_body c = Subagent_Cell a \<Longrightarrow> \<not> completed c"
  "tc_body c = Approval_Cell q \<Longrightarrow> \<not> completed c"
  by (simp_all add: completed_def)

lemma record_diff_honours:
  "honours s (snd (record_diff e i out s))"
  "view_ok s \<Longrightarrow> \<forall>j\<in>set (ids (shown (snd (record_diff e i out s)))). assistant_id j \<longrightarrow> j \<in> set (ids (shown s))"
proof -
  let ?fresh = "\<lambda>d. new_cell (''diff:'' @ i) (event_group e s) (Diff_Cell (td_path d) (td_unified d))"
  have fresh: "honours s (snd (append_cell (?fresh d) s))"
      "view_ok s \<Longrightarrow> \<forall>j\<in>set (ids (shown (snd (append_cell (?fresh d) s)))). assistant_id j \<longrightarrow> j \<in> set (ids (shown s))" for d
    using append_cell_honours [of "?fresh d" s] by (auto simp: assistant_cell_def assistant_id_def starts_with_def)
  have upd: "honours s (snd (replace_cell (next_revision (Diff_Cell (td_path d) (td_unified d)) c) s))"
      "view_ok s \<Longrightarrow> set (ids (shown (snd (replace_cell (next_revision (Diff_Cell (td_path d) (td_unified d)) c) s)))) \<subseteq> set (ids (shown s))"
    if "find_cell s (''diff:'' @ i) = Some c" "tc_body c = Diff_Cell x y" for d c x y
    using replace_found [OF that(1), of "next_revision (Diff_Cell (td_path d) (td_unified d)) c"] that(2)
    by (auto simp: assistant_cell_def)
  define d where "d = (case to_diff out of None \<Rightarrow> undefined | Some d \<Rightarrow> d)"
  have shape: "snd (record_diff e i out s) = s \<or> snd (record_diff e i out s) = snd (append_cell (?fresh d) s) \<or>
      (\<exists>c x y. find_cell s (''diff:'' @ i) = Some c \<and> tc_body c = Diff_Cell x y \<and>
         snd (record_diff e i out s) = snd (replace_cell (next_revision (Diff_Cell (td_path d) (td_unified d)) c) s))"
    by (auto simp: record_diff_def Let_def no_changes_def d_def split: option.split cell_body.split)
  from shape consider (same) "snd (record_diff e i out s) = s"
    | (added) "snd (record_diff e i out s) = snd (append_cell (?fresh d) s)"
    | (update) c x y where "find_cell s (''diff:'' @ i) = Some c" "tc_body c = Diff_Cell x y"
        "snd (record_diff e i out s) = snd (replace_cell (next_revision (Diff_Cell (td_path d) (td_unified d)) c) s)"
    by blast
  then have "honours s (snd (record_diff e i out s)) \<and>
    (view_ok s \<longrightarrow> (\<forall>j\<in>set (ids (shown (snd (record_diff e i out s)))). assistant_id j \<longrightarrow> j \<in> set (ids (shown s))))"
  proof cases
    case same
    then show ?thesis by simp
  next
    case added
    show ?thesis unfolding added using fresh(1) [of d] fresh(2) [of d] by auto
  next
    case update
    show ?thesis unfolding update(3) using upd(1) [OF update(1,2), of d] upd(2) [OF update(1,2), of d] by auto
  qed
  then show "honours s (snd (record_diff e i out s))"
    "view_ok s \<Longrightarrow> \<forall>j\<in>set (ids (shown (snd (record_diff e i out s)))). assistant_id j \<longrightarrow> j \<in> set (ids (shown s))" by auto
qed

lemma finish_tool_honours: "honours s (snd (finish_tool e i name out s))"
proof -
  define r where "r = (let status = (if success out then Cell_Succeeded else Cell_Failed);
          orphan = new_cell (tool_id i) (event_group e s)
            (Tool_Cell \<lparr>tl_tool_call_id = i, tl_name = name, tl_arguments = None, tl_output = [],
               tl_status = status, tl_outcome = Some out, tl_orphaned = True\<rparr>)
      in (case find_cell s (tool_id i) of
              Some c \<Rightarrow> (case tc_body c of
                  Tool_Cell b \<Rightarrow> replace_cell (next_revision (Tool_Cell (b\<lparr>tl_status := status, tl_outcome := Some out\<rparr>)) c) s
                | _ \<Rightarrow> append_cell orphan s)
            | None \<Rightarrow> append_cell orphan s))"
  have "honours s (snd r)"
    by (auto simp: r_def Let_def assistant_cell_def split: option.split cell_body.split intro!: append_other replace_found(1))
  then have "honours s (snd (and_then r (record_diff e i out)))"
    using honours_trans [OF _ record_diff_honours] by (auto simp: snd_and_then split: sum.split)
  then show ?thesis by (simp add: finish_tool_def r_def Let_def)
qed

lemma keyed_honours:
  "honours s (snd (append_tool_output n e i t s))" "honours s (snd (publish_diagnostics e d s))"
  "honours s (snd (subagent_finished e a s))" "honours s (snd (raise_notice e t l k s))"
  "honours s (snd (request_approval_cell e i t pv s))" "honours s (snd (resolve_approval_cell e i b rs m gl rc src s))"
  "honours s (snd (append_notice_cell i t l k g s))" "honours s (snd (hydrate_approval i t t' ss s))"
  by (auto simp: append_tool_output_def publish_diagnostics_def subagent_finished_def raise_notice_def request_approval_cell_def
      resolve_approval_cell_def append_notice_cell_def hydrate_approval_def Let_def assistant_cell_def no_changes_def
      split: option.split cell_body.split intro!: append_other replace_found(1))

lemma reduce_payload_honours: "honours s (snd (reduce_payload n e x s))"
proof -
  have "honours s (snd (append_cell (new_cell i g (User_Cell t)) s))" for i g t
    by (rule append_other) (simp add: assistant_cell_def)
  then show ?thesis
    by (cases x)
      (simp_all add: start_turn_honours append_stream_honours interrupt_honours finish_turn_honours start_tool_honours
        finish_tool_honours keyed_honours no_changes_def honours_same same_filters_def)
qed

text \<open>The filters only grow.\<close>

definition filters_grow :: "view_state \<Rightarrow> view_state \<Rightarrow> bool" where
  "filters_grow s s' \<longleftrightarrow> set (vs_seen_event_ids s) \<subseteq> set (vs_seen_event_ids s') \<and>
     (\<forall>key g. dict_get (vs_session_generations s) key = Some g \<longrightarrow>
        (\<exists>g'. dict_get (vs_session_generations s') key = Some g' \<and> g \<le> g'))"

definition sound_step :: "view_state \<Rightarrow> view_state \<Rightarrow> bool" where
  "sound_step s s' \<longleftrightarrow> filters_grow s s' \<and> (view_ok s \<longrightarrow> view_ok s' \<and> keeps_completed s s' \<and> same_limits s s')"

lemma honours_sound: "filters_grow s u \<Longrightarrow> vs_transcript u = vs_transcript s \<Longrightarrow> honours u s' \<Longrightarrow> sound_step s s'"
  by (auto simp: sound_step_def honours_def filters_grow_def same_filters_def view_ok_def keeps_completed_def same_limits_def)

lemma filters_grow_refl: "filters_grow s s"
  by (auto simp: filters_grow_def)

lemma note_seen_grows: "filters_grow s (snd (note_seen e s)) \<and> vs_transcript (snd (note_seen e s)) = vs_transcript s"
  by (auto simp: note_seen_def filters_grow_def)

lemma stale_generation_grows:
  "filters_grow s (snd (stale_generation e s)) \<and> vs_transcript (snd (stale_generation e s)) = vs_transcript s \<and>
   vs_seen_event_ids (snd (stale_generation e s)) = vs_seen_event_ids s"
  by (auto simp: stale_generation_def filters_grow_def dict_simps Let_def split: option.splits if_splits prod.splits)

lemma filters_grow_trans: "filters_grow s t \<Longrightarrow> filters_grow t u \<Longrightarrow> filters_grow s u"
  unfolding filters_grow_def by (meson order_trans)

lemma apply_event_sound: "sound_step s (snd (apply_event n e s))"
proof -
  let ?s1 = "snd (note_seen e s)"
  let ?s2 = "snd (stale_generation e ?s1)"
  note g = note_seen_grows [of s e] stale_generation_grows [of ?s1 e]
  have "honours ?s1 (snd (no_changes ?s1))" "honours ?s2 (snd (no_changes ?s2))" by (simp_all add: no_changes_def)
  with g filters_grow_trans [of s ?s1 ?s2] reduce_payload_honours [of ?s2 n e "re_payload e"] show ?thesis
    by (cases "note_seen e s"; cases "stale_generation e ?s1")
      (auto simp: apply_event_def split: bool.split intro: honours_sound)
qed

lemma read_clear_honours:
  "honours s (snd (read_cells s))"
  "honours s (s\<lparr>vs_transcript := clear_transcript (vs_transcript s)\<rparr>)"
  using cells_ok [of "vs_transcript s"] clear_ok [of "vs_transcript s"] clear_cells [of "vs_transcript s"]
  by (auto simp: honours_def same_filters_def view_ok_def keeps_completed_def same_limits_def read_cells_def ids_def split: prod.split)

lemma view_step_sound: "view_step s x = Inr s' \<Longrightarrow> sound_step s s'"
  using apply_event_sound honours_sound [OF filters_grow_refl refl] keyed_honours(7,8) read_clear_honours
  by (cases x) (auto simp: view_step_def)

interpretation view: machine view_step view_ok
  by unfold_locales (use view_step_sound in \<open>auto simp: sound_step_def\<close>)

section \<open>Properties\<close>

lemma new_view_ok: "new_transcript mc mt = Inr t \<Longrightarrow> view_ok (new_view_state t)"
  using new_transcript_ok by (auto simp: view_ok_def new_view_state_def)

lemma run_limits: "view_ok s \<Longrightarrow> same_limits s (run_ops view_step s xs)"
proof (induction xs arbitrary: s)
  case Nil
  then show ?case by (simp add: same_limits_def)
next
  case (Cons x xs)
  obtain s' where s': "view_step s x = Inr s'" by (simp add: view_step_def)
  from view_step_sound [OF s'] Cons.prems have "view_ok s'" "same_limits s s'" by (auto simp: sound_step_def)
  with Cons.IH [of s'] s' show ?case by (simp add: same_limits_def)
qed

text \<open>C40: Whatever events, notices and reviews arrive, also ones that raise, and whenever a front end reads or
  clears the cells in between, the transcript stays within its limits on cells and characters, cell ids are unique, looking
  up an id finds exactly the cell with that id, and a read returns the current cells, never a
  tuple that an earlier read has cached.
\<close>

theorem transcript_stays_consistent:
  assumes "new_transcript mc mt = Inr t" "s = run_ops view_step (new_view_state t) xs"
  shows "length (shown s) \<le> mc \<and> text_chars (shown s) \<le> mt \<and> distinct (ids (shown s)) \<and>
    find_cell s = map_of (map (\<lambda>c. (tc_id c, c)) (shown s)) \<and> fst (read_cells s) = shown s"
proof -
  have ok: "view_ok s" unfolding assms(2) by (rule view.run_inv [OF new_view_ok [OF assms(1)]])
  have "tr_max_cells t = mc" "tr_max_text_chars t = mt" using assms(1) by (auto simp: new_transcript_def split: if_splits)
  with run_limits [OF new_view_ok [OF assms(1)], of xs] have lim: "tr_max_cells (vs_transcript s) = mc" "tr_max_text_chars (vs_transcript s) = mt"
    by (simp_all add: same_limits_def assms(2) new_view_state_def)
  from ok have t: "transcript_ok (vs_transcript s)" by (simp add: view_ok_def)
  then have d: "distinct (ids (shown s))" by (simp add: transcript_ok_def counted_def)
  have "find_cell s i = map_of (map (\<lambda>c. (tc_id c, c)) (shown s)) i" for i
  proof (cases "find_cell s i")
    case None
    then have "i \<notin> set (ids (shown s))" using get_cell_None t by (simp add: find_cell_def transcript_ok_def)
    then have "map_of (map (\<lambda>c. (tc_id c, c)) (shown s)) i = None" by (auto simp: map_of_eq_None_iff ids_def)
    then show ?thesis using None by simp
  next
    case (Some c)
    then have "c \<in> set (shown s)" "tc_id c = i" using found_id [OF ok] by auto
    then have "map_of (map (\<lambda>c. (tc_id c, c)) (shown s)) i = Some c"
      using d by (intro map_of_is_SomeI) (auto simp: ids_def comp_def)
    with Some show ?thesis by simp
  qed
  with d lim t cells_ok [OF t] show ?thesis by (auto simp: transcript_ok_def within_limits_def read_cells_def split: prod.split)
qed

text \<open>C14: The text of an assistant message that was completed, by the end of the turn, a tool call or an
  interruption, never changes afterwards, whatever arrives late or again: as long as a cell with its id is
  shown, it is the same cell.
\<close>

theorem completed_text_is_final:
  assumes "new_transcript mc mt = Inr t" "s = run_ops view_step (new_view_state t) xs"
    and "c \<in> set (shown s)" "completed c"
    and "\<forall>k \<le> length ys. tc_id c \<in> set (ids (shown (run_ops view_step s (take k ys))))"
  shows "c \<in> set (shown (run_ops view_step s ys))"
proof -
  have "view_ok s" unfolding assms(2) by (rule view.run_inv [OF new_view_ok [OF assms(1)]])
  with assms(3-5) show ?thesis
  proof (induction ys arbitrary: s)
    case Nil
    then show ?case by simp
  next
    case (Cons y ys)
    obtain s' where s': "view_step s y = Inr s'" by (simp add: view_step_def)
    have run: "run_ops view_step s (take (Suc k) (y # ys)) = run_ops view_step s' (take k ys)" for k by (simp add: s')
    have ids: "\<forall>k \<le> length ys. tc_id c \<in> set (ids (shown (run_ops view_step s' (take k ys))))"
      using Cons.prems(3) run by (metis Suc_le_mono length_Cons)
    then have "tc_id c \<in> set (ids (shown s'))" by (metis le0 run_ops.simps(1) take0)
    with view_step_sound [OF s'] Cons.prems have "c \<in> set (shown s')" "view_ok s'"
      by (auto simp: sound_step_def keeps_completed_def)
    with Cons.IH [of s'] Cons.prems(2) ids s' show ?case by simp
  qed
qed

lemma run_filters_grow: "filters_grow s (run_ops view_step s xs)"
proof (induction xs arbitrary: s)
  case Nil
  then show ?case by (simp add: filters_grow_refl)
next
  case (Cons x xs)
  obtain s' where s': "view_step s x = Inr s'" by (simp add: view_step_def)
  with view_step_sound [OF s'] Cons [of s'] show ?case by (auto simp: sound_step_def intro: filters_grow_trans)
qed

lemma apply_event_seen: "\<not> is_transient_payload (re_payload e) \<Longrightarrow> re_event_id e \<in> set (vs_seen_event_ids (snd (apply_event n e s)))"
proof -
  assume nt: "\<not> is_transient_payload (re_payload e)"
  let ?s1 = "snd (note_seen e s)"
  let ?s2 = "snd (stale_generation e ?s1)"
  have "re_event_id e \<in> set (vs_seen_event_ids ?s1)" using nt by (auto simp: note_seen_def)
  moreover have "vs_seen_event_ids ?s2 = vs_seen_event_ids ?s1" using stale_generation_grows by blast
  moreover have "vs_seen_event_ids (snd (reduce_payload n e (re_payload e) ?s2)) = vs_seen_event_ids ?s2"
    using reduce_payload_honours [of ?s2 n e "re_payload e"] by (auto simp: honours_def same_filters_def)
  ultimately show ?thesis
    by (cases "note_seen e s"; cases "stale_generation e ?s1") (auto simp: apply_event_def no_changes_def split: bool.split)
qed

text \<open>An event that is not a transient delta takes effect at most once: delivered again, after any other
  events, it changes nothing at all.
\<close>

theorem repeated_event_changes_nothing:
  assumes "\<not> is_transient_payload (re_payload e)" "s = run_ops view_step s0 (xs @ Apply_Event n e # ys)"
  shows "apply_event m e s = (Inr [], s)"
proof -
  let ?u = "snd (apply_event n e (run_ops view_step s0 xs))"
  have "s = run_ops view_step ?u ys" by (simp add: assms(2) run_ops_append view_step_def)
  with run_filters_grow [of ?u ys] apply_event_seen [OF assms(1), of n "run_ops view_step s0 xs"]
  have "re_event_id e \<in> set (vs_seen_event_ids s)" by (auto simp: filters_grow_def)
  with assms(1) show ?thesis by (simp add: apply_event_def note_seen_def no_changes_def)
qed

section \<open>Examples and defects\<close>

definition ex_event :: "string \<Rightarrow> runtime_payload \<Rightarrow> runtime_event" where
  "ex_event i x = \<lparr>re_payload = x, re_event_id = i, re_agent_id = None, re_session_generation = None, re_session_id = None,
     re_turn_id = Some ''t''\<rparr>"

definition ex_screen :: "nat \<Rightarrow> nat \<Rightarrow> view_state" where
  "ex_screen mc mt = new_view_state \<lparr>tr_max_cells = mc, tr_max_text_chars = mt, tr_cells = [], tr_indexes = [],
                tr_text_chars_total = 0, tr_revision = 0, tr_snapshot = []\<rparr>"

lemma ex_screen_new: "1 \<le> mc \<Longrightarrow> 1 \<le> mt \<Longrightarrow> \<exists>t. new_transcript mc mt = Inr t \<and> new_view_state t = ex_screen mc mt"
  by (simp add: new_transcript_def ex_screen_def)

lemmas view_eval = ex_screen_def ex_event_def new_view_state_def view_step_def apply_event_def note_seen_def stale_generation_def
  append_stream_def open_assistant_def active_assistant_def dict_get_def assistant_route_def next_assistant_cell_id_def
  owned_id_def find_cell_def get_cell_def event_identity_def or_text_def or_empty_def append_cell_def append_to_def
  new_cell_def event_group_def enforce_retention_def mark_changed_def replace_cell_def replace_in_def next_revision_def
  complete_chat_def finish_turn_def pop_active_def dict_pop_def reindex_def cell_text_chars_def Let_def no_changes_def

definition ex_turn :: "view_op list" where
  "ex_turn = [Apply_Event 100 (ex_event ''e1'' (Assistant_Content_Delta [104])),
     Apply_Event 100 (ex_event ''e2'' (Assistant_Content_Delta [105])),
     Apply_Event 100 (ex_event ''e3'' (Turn_Finished [104, 105]))]"

definition ex_done :: transcript_cell where
  "ex_done = \<lparr>tc_id = ''assistant:t'', tc_revision = 2, tc_group = Some (group_identity (ex_event ''e1'' Plan_Updated) ''t''),
     tc_body = Assistant_Cell [104, 105] True False\<rparr>"

lemma ex_turn_run: "shown (run_ops view_step (ex_screen 5 50) ex_turn) = [ex_done]"
  by (simp add: ex_turn_def ex_done_def view_eval group_identity_def turn_route_def)

text \<open>The same turn with a read before its last event, which leaves a cached tuple of the same length.\<close>

definition ex_read_turn :: "view_op list" where
  "ex_read_turn = take 2 ex_turn @ Read_Cells # drop 2 ex_turn"

lemma ex_read_turn_run:
  "shown (run_ops view_step (ex_screen 5 50) ex_read_turn) = [ex_done]"
  "map tc_revision (tr_snapshot (vs_transcript (run_ops view_step (ex_screen 5 50) (take 3 ex_read_turn)))) = [1]"
  by (simp_all add: ex_read_turn_def ex_turn_def ex_done_def view_eval group_identity_def turn_route_def read_cells_def transcript_cells_def)

theorem transcript_stays_consistent_witness:
  "length (shown (run_ops view_step (ex_screen 5 50) ex_read_turn)) \<le> 5 \<and>
   fst (read_cells (run_ops view_step (ex_screen 5 50) ex_read_turn)) = [ex_done]"
proof -
  obtain t where t: "new_transcript 5 50 = Inr t" "new_view_state t = ex_screen 5 50" using ex_screen_new [of 5 50] by auto
  show ?thesis using transcript_stays_consistent [OF t(1) refl, of ex_read_turn] by (simp add: t(2) ex_read_turn_run)
qed

definition ex_late :: "view_op list" where
  "ex_late = [Apply_Event 100 (ex_event ''e4'' (Assistant_Content_Delta [33]))]"

lemma ex_late_run: "map tc_id (shown (run_ops view_step (ex_screen 5 50) (ex_turn @ ex_late))) = [''assistant:t'', ''assistant:t:e4'']"
  by (simp add: ex_late_def ex_turn_def view_eval)

theorem completed_text_is_final_witness:
  "ex_done \<in> set (shown (run_ops view_step (run_ops view_step (ex_screen 5 50) ex_turn) ex_late))"
proof -
  obtain t where t: "new_transcript 5 50 = Inr t" "new_view_state t = ex_screen 5 50" using ex_screen_new [of 5 50] by auto
  define s where "s = run_ops view_step (new_view_state t) ex_turn"
  have in_s: "ex_done \<in> set (shown s)" using ex_turn_run by (simp add: s_def t(2))
  have over: "completed ex_done" unfolding completed_def by (auto simp: ex_done_def)
  have len: "length ex_late = 1" by (simp add: ex_late_def)
  have "tc_id ex_done \<in> set (ids (shown (run_ops view_step s (take k ex_late))))" if "k \<le> length ex_late" for k
  proof (cases k)
    case 0
    then show ?thesis by (simp add: s_def t(2) ex_turn_run ids_def)
  next
    case (Suc j)
    with that len have "take k ex_late = ex_late" by simp
    then show ?thesis using ex_late_run by (simp add: s_def t(2) ids_def ex_done_def run_ops_append)
  qed
  then have "ex_done \<in> set (shown (run_ops view_step s ex_late))"
    using completed_text_is_final [OF t(1) s_def in_s over] by blast
  then show ?thesis by (simp add: s_def t(2))
qed

theorem repeated_event_changes_nothing_witness:
  "apply_event 100 (ex_event ''e3'' (Turn_Finished [104, 105])) (run_ops view_step (ex_screen 5 50) (ex_turn @ ex_late)) =
     (Inr [], run_ops view_step (ex_screen 5 50) (ex_turn @ ex_late))"
proof -
  let ?e = "ex_event ''e3'' (Turn_Finished [104, 105])"
  have "ex_turn @ ex_late = take 2 ex_turn @ Apply_Event 100 ?e # ex_late" by (simp add: ex_turn_def)
  moreover have "\<not> is_transient_payload (re_payload ?e)" by (simp add: ex_event_def)
  ultimately show ?thesis using repeated_event_changes_nothing [OF _ refl] by metis
qed

text \<open>Output that arrives before the start of its tool call gets a cell of its own, marked as orphaned; the start
  then raises, because it only appends, and since the event counts as seen it is lost for good.
\<close>

theorem early_output_makes_start_raise:
  "let s = run_ops view_step (ex_screen 5 50) [Apply_Event 100 (ex_event ''e1'' (Tool_Output_Delta ''x'' [104]))]
   in fst (apply_event 100 (ex_event ''e2'' (Tool_Call_Started ''x'' ''shell'' JNull)) s) = Inl (Duplicate_Cell ''tool:x'')"
  by (simp add: view_eval append_tool_output_def start_tool_def and_then_def complete_active_assistant_def tool_id_def)

text \<open>Growing text can push old cells out of the transcript. Appending reports them as evicted; updating does not,
  so a view that follows the reported changes keeps a cell the transcript no longer has.
\<close>

theorem update_hides_evictions:
  "let s = run_ops view_step (ex_screen 5 3)
       [Apply_Event 100 (ex_event ''e1'' (User_Steering_Applied [97])), Apply_Event 100 (ex_event ''e2'' (Assistant_Content_Delta [98, 98]))];
     r = apply_event 100 (ex_event ''e3'' (Assistant_Content_Delta [98])) s
   in map tc_id (shown s) = [''user-steer:e1'', ''assistant:t''] \<and> map tc_id (shown (snd r)) = [''assistant:t''] \<and>
      (\<exists>c p. fst r = Inr [Change_Update c p])"
  by (simp add: view_eval visible_user_input_def pt_starts_def lit_def)

end
