(* ===== verification/Context_Tokens.thy ===== *)
theory Context_Tokens
  imports Replay Sanitizer Workspace_Text Complex_Main
begin

text \<open>
  Token accounting of the context manager: the heuristic and the cached token counts of
  \<^verbatim>\<open>domain/context/manager.py\<close>, \<^verbatim>\<open>ContextBudget\<close> (\<^verbatim>\<open>budget.py\<close>), \<^verbatim>\<open>UsageObservation\<close> (\<^verbatim>\<open>usage.py\<close>),
  \<^verbatim>\<open>CompactionCheckpoint\<close> (\<^verbatim>\<open>checkpoint.py\<close>), and the operations of \<^verbatim>\<open>ContextManager\<close> that measure a history:
  thresholds, calibration by observed usage and the prediction of the next request. Floating-point
  factors are exact reals; the products of the thresholds stay within the precision where cutting them gives the
  integer quotient. The tokenizer (a third-party encoder, present or not), Python's \<^verbatim>\<open>str()\<close> on values
  that are not text, image captions, the clock and fresh identifiers are arguments. The lemmas show the bounds of the
  heuristic, that cached counts agree with fresh ones, the order of the thresholds, the range of
  the calibration, and that checkpoints survive storage.
\<close>

section \<open>The heuristic\<close>

definition is_cjk :: "nat \<Rightarrow> bool" where
  "is_cjk c \<longleftrightarrow> 0x3400 \<le> c \<and> c \<le> 0x4DBF \<or> 0x4E00 \<le> c \<and> c \<le> 0x9FFF \<or>
     0xF900 \<le> c \<and> c \<le> 0xFAFF \<or> 0x20000 \<le> c \<and> c \<le> 0x2EBEF"

definition is_latin_letter :: "nat \<Rightarrow> bool" where
  "is_latin_letter c \<longleftrightarrow> 65 \<le> c \<and> c \<le> 90 \<or> 97 \<le> c \<and> c \<le> 122"

definition is_apostrophe :: "nat \<Rightarrow> bool" where
  "is_apostrophe c \<longleftrightarrow> c = 39 \<or> c = 0x2019"

text \<open>\<^verbatim>\<open>str.isspace\<close> of one character.\<close>

definition is_space_code :: "nat \<Rightarrow> bool" where
  "is_space_code c \<longleftrightarrow> 9 \<le> c \<and> c \<le> 13 \<or> 28 \<le> c \<and> c \<le> 32 \<or> c = 0x85 \<or> c = 0xA0 \<or> c = 0x1680 \<or>
     0x2000 \<le> c \<and> c \<le> 0x200A \<or> c = 0x2028 \<or> c = 0x2029 \<or> c = 0x202F \<or> c = 0x205F \<or> c = 0x3000"

text \<open>The match of \<^verbatim>\<open>[A-Za-z]+(?:['\<close> or the typographic apostrophe\<^verbatim>\<open>][A-Za-z]+)*\<close> at a letter, and what follows it.\<close>

function word_from :: "ptext \<Rightarrow> ptext \<times> ptext" where
  "word_from t =
     (let w = takeWhile is_latin_letter t; r = dropWhile is_latin_letter t
      in case r of
           q # l # r' \<Rightarrow>
             if is_apostrophe q \<and> is_latin_letter l
             then let (w', rest) = word_from (l # r') in (w @ q # w', rest)
             else (w, r)
         | _ \<Rightarrow> (w, r))"
  by auto
termination
proof (relation "measure length")
  fix t w r q xs l r'
  assume "r = dropWhile is_latin_letter t" "r = q # xs" "xs = l # r'"
  then have "length (q # l # r') \<le> length t" by (metis length_dropWhile_le)
  then show "(l # r', t) \<in> measure length" by simp
qed simp

declare word_from.simps [simp del]

lemma word_from_unfold:
  "word_from t =
     (case dropWhile is_latin_letter t of
        q # l # r' \<Rightarrow>
          if is_apostrophe q \<and> is_latin_letter l
          then (takeWhile is_latin_letter t @ q # fst (word_from (l # r')), snd (word_from (l # r')))
          else (takeWhile is_latin_letter t, dropWhile is_latin_letter t)
      | _ \<Rightarrow> (takeWhile is_latin_letter t, dropWhile is_latin_letter t))"
  unfolding word_from.simps [of t] Let_def
  by (simp only: case_prod_unfold)

lemma word_from_split: "fst (word_from t) @ snd (word_from t) = t"
proof (induction t rule: word_from.induct)
  case (1 t)
  have t: "takeWhile is_latin_letter t @ dropWhile is_latin_letter t = t" by simp
  show ?case
    using 1 [OF refl refl] t
    by (subst (1 2) word_from_unfold) (auto split: list.splits simp del: takeWhile_dropWhile_id)
qed

lemma word_from_chars: "c \<in> set (fst (word_from t)) \<Longrightarrow> is_latin_letter c \<or> is_apostrophe c"
proof (induction t rule: word_from.induct)
  case (1 t)
  show ?case
    using 1(1) [OF refl refl] 1(2) unfolding word_from_unfold [of t]
    by (auto split: list.splits if_splits dest: set_takeWhileD)
qed

lemma word_from_head: "is_latin_letter c \<Longrightarrow> fst (word_from (c # t)) \<noteq> []"
  by (subst word_from_unfold) (auto split: list.splits)

lemma word_from_shrinks: "is_latin_letter c \<Longrightarrow> length (snd (word_from (c # t))) < Suc (length t)"
proof -
  assume "is_latin_letter c"
  then have "0 < length (fst (word_from (c # t)))" by (simp add: word_from_head)
  moreover have "length (fst (word_from (c # t))) + length (snd (word_from (c # t))) = Suc (length t)"
    by (metis word_from_split length_append length_Cons)
  ultimately show ?thesis by linarith
qed

text \<open>The words of a text and the text without them (\<^verbatim>\<open>finditer\<close> and \<^verbatim>\<open>sub("", ...)\<close> of the same pattern).\<close>

function english_words :: "ptext \<Rightarrow> ptext list \<times> ptext" where
  "english_words [] = ([], [])"
| "english_words (c # t) =
     (if is_latin_letter c
      then let (w, r) = word_from (c # t); (ws, remaining) = english_words r in (w # ws, remaining)
      else let (ws, remaining) = english_words t in (ws, c # remaining))"
  by pat_completeness auto
termination
proof (relation "measure length")
  fix c t x w r
  assume "is_latin_letter c" "x = word_from (c # t)" "(w, r) = x"
  then have "r = snd (word_from (c # t))" by (metis snd_conv)
  then show "(r, c # t) \<in> measure length"
    using word_from_shrinks [OF \<open>is_latin_letter c\<close>, of t] by simp
qed simp_all

definition word_tokens :: "ptext \<Rightarrow> real" where
  "word_tokens w = max (13 / 10) (real (length w) / 4)"

definition estimate_text_tokens_chars :: "ptext \<Rightarrow> real" where
  "estimate_text_tokens_chars t =
     (let chinese_characters = length (filter is_cjk t);
          (ws, remaining) = english_words (filter (\<lambda>c. \<not> is_cjk c) t);
          other_symbols = length (filter (\<lambda>c. \<not> is_space_code c) remaining)
      in real chinese_characters * (3 / 2) + sum_list (map word_tokens ws) + real other_symbols * (1 / 2))"

definition visible :: "ptext \<Rightarrow> nat" where
  "visible t = length (filter (\<lambda>c. \<not> is_space_code c) t)"

lemma visible_append [simp]: "visible (a @ b) = visible a + visible b"
  by (simp add: visible_def)

lemma letter_visible: "is_latin_letter c \<or> is_apostrophe c \<Longrightarrow> \<not> is_space_code c"
  by (auto simp: is_latin_letter_def is_apostrophe_def is_space_code_def)

lemma visible_word: "visible (fst (word_from t)) = length (fst (word_from t))"
proof -
  have "filter (\<lambda>c. \<not> is_space_code c) (fst (word_from t)) = fst (word_from t)"
    using word_from_chars letter_visible by (simp add: filter_id_conv)
  then show ?thesis by (simp add: visible_def)
qed

lemma word_tokens_bounds: "w \<noteq> [] \<Longrightarrow> real (length w) / 4 \<le> word_tokens w \<and> word_tokens w \<le> 3 / 2 * real (length w)"
  by (cases w) (auto simp: word_tokens_def max_def)

lemma english_words_bounds:
  "english_words t = (ws, remaining) \<Longrightarrow>
     real (visible t) / 4 \<le> sum_list (map word_tokens ws) + real (visible remaining) / 2 \<and>
     sum_list (map word_tokens ws) + real (visible remaining) / 2 \<le> 3 / 2 * real (visible t)"
proof (induction t arbitrary: ws remaining rule: english_words.induct)
  case 1
  then show ?case by (simp add: visible_def)
next
  case (2 c t)
  show ?case
  proof (cases "is_latin_letter c")
    case True
    obtain w r where wr: "word_from (c # t) = (w, r)" by force
    obtain vs m where vm: "english_words r = (vs, m)" by force
    have eqs: "ws = w # vs" "remaining = m" using 2(3) True wr vm by auto
    have "c # t = w @ r" using word_from_split [of "c # t"] wr by simp
    moreover have "visible w = length w" "w \<noteq> []"
      using visible_word [of "c # t"] word_from_head [OF True, of t] wr by auto
    ultimately have v: "visible (c # t) = length w + visible r" "w \<noteq> []" by simp_all
    show ?thesis
      using 2(1) [OF True wr [symmetric] refl vm] word_tokens_bounds [OF v(2)]
      unfolding eqs v(1) by (simp add: field_simps)
  next
    case False
    obtain vs m where vm: "english_words t = (vs, m)" by force
    have eqs: "ws = vs" "remaining = c # m" using 2(3) False vm by auto
    show ?thesis
      using 2(2) [OF False vm] unfolding eqs by (auto simp: visible_def field_simps)
  qed
qed

lemma cjk_visible: "is_cjk c \<Longrightarrow> \<not> is_space_code c"
  by (auto simp: is_cjk_def is_space_code_def)

lemma visible_cjk: "visible t = length (filter is_cjk t) + visible (filter (\<lambda>c. \<not> is_cjk c) t)"
  by (induction t) (auto simp: visible_def dest: cjk_visible)

lemma heuristic_bounds:
  "real (visible t) / 4 \<le> estimate_text_tokens_chars t"
  "estimate_text_tokens_chars t \<le> 3 / 2 * real (visible t)"
proof -
  obtain ws m where e: "english_words (filter (\<lambda>c. \<not> is_cjk c) t) = (ws, m)" by force
  show "real (visible t) / 4 \<le> estimate_text_tokens_chars t"
    "estimate_text_tokens_chars t \<le> 3 / 2 * real (visible t)"
    using english_words_bounds [OF e] visible_cjk [of t] e
    by (auto simp: estimate_text_tokens_chars_def Let_def visible_def [of m] field_simps)
qed

section \<open>Token counts of messages\<close>

text \<open>What the context manager reaches outside itself: \<^verbatim>\<open>str()\<close> of values that are not text and of tool
  calls, the caption of an image part, the tokenizer (absent without its vocabulary; a text it rejects is \<open>None\<close>), the image
  projection (which returns fresh dictionaries), the provider's compactor, the summary generator and whether the cancellation
  event is set once it has failed.\<close>

record context_env =
  env_str :: "json \<Rightarrow> string"
  env_calls_str :: "message_tool_call list \<Rightarrow> string"
  env_caption :: "json \<Rightarrow> string"
  env_encoder :: "(string \<Rightarrow> nat option) option"
  env_projection :: "(message list \<Rightarrow> message list) option"
  env_compactor :: "(message list \<Rightarrow> int \<Rightarrow> message list option) option"
  env_summary :: "message list \<Rightarrow> string \<Rightarrow> int \<Rightarrow> nat \<Rightarrow> (py_exn, string) result"
  env_cancelled :: bool

definition str_of :: "context_env \<Rightarrow> json \<Rightarrow> string" where
  "str_of env v = (case v of JStr s \<Rightarrow> s | _ \<Rightarrow> env_str env v)"

definition part_projection :: "context_env \<Rightarrow> json \<Rightarrow> string list" where
  "part_projection env p =
     (if \<not> is_object p then []
      else if jget p ''type'' = JStr ''text'' then [str_of env (get_or p ''text'' (JStr []))]
      else if jget p ''type'' = JStr ''image'' then [env_caption env p]
      else if jget p ''type'' = JStr ''image_url'' \<or> jget p ''type'' = JStr ''input_image''
      then [''[Image content; not included in this text projection]'']
      else [])"

definition text_projection :: "context_env \<Rightarrow> json \<Rightarrow> string" where
  "text_projection env c =
     (case c of
        JStr s \<Rightarrow> s
      | JList ps \<Rightarrow> join [CHR 0x0A] (concat (map (part_projection env) ps))
      | _ \<Rightarrow> [])"

definition image_count :: "message \<Rightarrow> nat" where
  "image_count m =
     length (filter (\<lambda>p. is_object p \<and> (jget p ''type'' = JStr ''image'' \<or> jget p ''type'' = JStr ''image_url''))
       (list_items (msg_content m)))"

definition codes :: "string \<Rightarrow> ptext" where
  "codes s = map of_char s"

definition estimate_message_tokens_chars :: "context_env \<Rightarrow> message \<Rightarrow> int" where
  "estimate_message_tokens_chars env m =
     \<lceil>(if truthy (msg_content m)
       then estimate_text_tokens_chars (codes (text_projection env (msg_content m))) + 2048 * real (image_count m)
       else 0) +
      (if msg_tool_calls m \<noteq> []
       then estimate_text_tokens_chars (codes (env_calls_str env (msg_tool_calls m))) else 0)\<rceil>"

definition encoded_length :: "(string \<Rightarrow> nat option) \<Rightarrow> string \<Rightarrow> nat" where
  "encoded_length encode s = (case encode s of Some n \<Rightarrow> n | None \<Rightarrow> length s div 3)"

text \<open>\<^verbatim>\<open>int()\<close> of a float cuts towards zero.\<close>

definition py_int :: "real \<Rightarrow> int" where
  "py_int x = (if 0 \<le> x then \<lfloor>x\<rfloor> else - \<lfloor>- x\<rfloor>)"

definition fresh_count :: "context_env \<Rightarrow> real \<Rightarrow> message \<Rightarrow> int" where
  "fresh_count env fudge m =
     (case env_encoder env of
        None \<Rightarrow> estimate_message_tokens_chars env m
      | Some encode \<Rightarrow>
          py_int (real
            ((if truthy (msg_content m)
              then encoded_length encode (text_projection env (msg_content m)) + 2048 * image_count m else 0) +
             (if msg_tool_calls m \<noteq> [] then encoded_length encode (env_calls_str env (msg_tool_calls m)) else 0))
            * fudge))"

text \<open>\<^verbatim>\<open>isinstance(cached, int)\<close>, which booleans pass as well.\<close>

definition cached_count :: "message \<Rightarrow> int option" where
  "cached_count m =
     (case dict_get (msg_extra m) token_count_key of
        Some (JInt n) \<Rightarrow> Some n | Some (JBool b) \<Rightarrow> Some (if b then 1 else 0) | _ \<Rightarrow> None)"

definition set_count :: "int \<Rightarrow> message \<Rightarrow> message" where
  "set_count n m = m\<lparr>msg_extra := dict_set token_count_key (JInt n) (msg_extra m)\<rparr>"

definition drop_count :: "message \<Rightarrow> message" where
  "drop_count m = m\<lparr>msg_extra := dict_pop token_count_key (msg_extra m)\<rparr>"

definition estimate_message_tokens :: "context_env \<Rightarrow> bool \<Rightarrow> real \<Rightarrow> message \<Rightarrow> int \<times> message" where
  "estimate_message_tokens env refresh fudge m =
     (case (if refresh then None else cached_count m) of
        Some n \<Rightarrow> (n, m)
      | None \<Rightarrow> let n = fresh_count env fudge m in (n, set_count n m))"

fun ensure_message_token_counts :: "context_env \<Rightarrow> bool \<Rightarrow> real \<Rightarrow> message list \<Rightarrow> int \<times> message list" where
  "ensure_message_token_counts env refresh fudge [] = (0, [])"
| "ensure_message_token_counts env refresh fudge (m # ms) =
     (let (n, m') = estimate_message_tokens env refresh fudge m;
          (total_count, ms') = ensure_message_token_counts env refresh fudge ms
      in (n + total_count, m' # ms'))"

definition estimate_tokens :: "context_env \<Rightarrow> real \<Rightarrow> message list \<Rightarrow> int \<times> message list" where
  "estimate_tokens env fudge ms = ensure_message_token_counts env False fudge ms"

section \<open>The budget\<close>

record context_budget =
  cb_model_window :: int
  cb_reserved_output :: int
  cb_fixed_prompt_tokens :: int
  cb_tool_schema_tokens :: int
  cb_safety_margin :: int

definition available_input :: "context_budget \<Rightarrow> int" where
  "available_input b =
     (let reserved = cb_reserved_output b + cb_fixed_prompt_tokens b + cb_tool_schema_tokens b + cb_safety_margin b
      in max 1024 (cb_model_window b - reserved))"

definition request_input_limit :: "context_budget \<Rightarrow> int" where
  "request_input_limit b = max 1024 (cb_model_window b - cb_reserved_output b - cb_safety_margin b)"

definition budget_threshold :: "context_budget \<Rightarrow> real \<Rightarrow> int" where
  "budget_threshold b fraction = max 1 (py_int (real_of_int (available_input b) * fraction))"

section \<open>Usage observations\<close>

record usage_observation =
  uo_actual_prompt_tokens :: int
  uo_cached_input_tokens :: "int option"
  uo_local_request_estimate :: int
  uo_local_history_estimate :: int
  uo_history_version :: int
  uo_request_boundary :: string
  uo_model_profile :: string
  uo_observed_at :: real

definition create_observation ::
    "int \<Rightarrow> int option \<Rightarrow> int \<Rightarrow> int \<Rightarrow> int \<Rightarrow> string \<Rightarrow> string \<Rightarrow> real \<Rightarrow> usage_observation" where
  "create_observation actual cached request_estimate history_estimate version boundary profile now =
     \<lparr>uo_actual_prompt_tokens = max 0 actual, uo_cached_input_tokens = map_option (max 0) cached,
      uo_local_request_estimate = max 1 request_estimate, uo_local_history_estimate = max 0 history_estimate,
      uo_history_version = max 0 version, uo_request_boundary = boundary, uo_model_profile = profile,
      uo_observed_at = now\<rparr>"

section \<open>Checkpoints\<close>

record compaction_checkpoint =
  ck_id :: string
  ck_trigger :: string
  ck_strategy :: "string list"
  ck_source_history_version :: int
  ck_replacement_history :: "json list"
  ck_tokens_before :: int
  ck_tokens_after :: int
  ck_preserved_rounds :: int
  ck_created_at :: real
  ck_cache_epoch :: int
  ck_actual_prompt_tokens :: "int option"
  ck_cached_input_tokens :: "int option"
  ck_invalidated_suffix_tokens :: "int option"
  ck_reclaimed_tokens :: "int option"

text \<open>The dictionary of a message. Of a tool call the record keeps identifier and name; its other keys and
  the arguments of its function are the extra entries.\<close>

definition call_json :: "message_tool_call \<Rightarrow> json" where
  "call_json c = JObj ((''id'', json_opt_str (call_id c)) # filter (\<lambda>(k, v). k \<noteq> ''arguments'') (call_extra c) @
     [(''function'', JObj ((''name'', json_opt_str (call_name c)) # filter (\<lambda>(k, v). k = ''arguments'') (call_extra c)))])"

definition message_fields :: "message \<Rightarrow> (string \<times> json) list" where
  "message_fields m =
     [(''role'', json_opt_str (msg_role m)), (''content'', msg_content m)] @
     (if msg_tool_calls m = [] then [] else [(''tool_calls'', JList (map call_json (msg_tool_calls m)))]) @
     (case msg_tool_call_id m of None \<Rightarrow> [] | Some i \<Rightarrow> [(''tool_call_id'', JStr i)]) @ msg_extra m"

definition stored_message :: "message \<Rightarrow> json" where
  "stored_message m = JObj (filter (\<lambda>(k, v). k \<noteq> token_count_key) (message_fields m))"

definition create_checkpoint ::
    "string \<Rightarrow> string \<Rightarrow> string list \<Rightarrow> int \<Rightarrow> message list \<Rightarrow> int \<Rightarrow> int \<Rightarrow> int \<Rightarrow> real \<Rightarrow> int \<Rightarrow>
       int option \<Rightarrow> int option \<Rightarrow> int option \<Rightarrow> int option \<Rightarrow> compaction_checkpoint" where
  "create_checkpoint hex trigger strategy version history tokens_before tokens_after preserved now epoch
     actual cached invalidated reclaimed =
     \<lparr>ck_id = ''cc_'' @ take 12 hex, ck_trigger = trigger, ck_strategy = strategy,
      ck_source_history_version = version, ck_replacement_history = map stored_message history,
      ck_tokens_before = tokens_before, ck_tokens_after = tokens_after, ck_preserved_rounds = preserved,
      ck_created_at = now, ck_cache_epoch = epoch, ck_actual_prompt_tokens = actual,
      ck_cached_input_tokens = cached, ck_invalidated_suffix_tokens = invalidated,
      ck_reclaimed_tokens = reclaimed\<rparr>"

definition checkpoint_to_dict :: "compaction_checkpoint \<Rightarrow> json" where
  "checkpoint_to_dict c = JObj
     [(''id'', JStr (ck_id c)), (''trigger'', JStr (ck_trigger c)),
      (''strategy'', JList (map JStr (ck_strategy c))),
      (''source_history_version'', JInt (ck_source_history_version c)),
      (''replacement_history'', JList (ck_replacement_history c)),
      (''tokens_before'', JInt (ck_tokens_before c)), (''tokens_after'', JInt (ck_tokens_after c)),
      (''preserved_rounds'', JInt (ck_preserved_rounds c)), (''created_at'', JReal (ck_created_at c)),
      (''cache_epoch'', JInt (ck_cache_epoch c)),
      (''actual_prompt_tokens'', json_opt_int (ck_actual_prompt_tokens c)),
      (''cached_input_tokens'', json_opt_int (ck_cached_input_tokens c)),
      (''invalidated_suffix_tokens'', json_opt_int (ck_invalidated_suffix_tokens c)),
      (''reclaimed_tokens'', json_opt_int (ck_reclaimed_tokens c))]"

definition optional_int :: "json \<Rightarrow> (string, int option) result" where
  "optional_int v = (if v = JNull then Inr None else bind_result (stored_int v) (\<lambda>n. Inr (Some n)))"

definition stored_float :: "(string \<Rightarrow> (string, real) result) \<Rightarrow> json \<Rightarrow> (string, real) result" where
  "stored_float py_float v = (case v of
     JReal x \<Rightarrow> Inr x | JInt n \<Rightarrow> Inr (real_of_int n) | JBool b \<Rightarrow> Inr (if b then 1 else 0)
   | JStr s \<Rightarrow> py_float s
   | _ \<Rightarrow> Inl ''not a number'')"

definition required_text :: "(json \<Rightarrow> string) \<Rightarrow> json \<Rightarrow> string \<Rightarrow> (string, string) result" where
  "required_text py_str data k =
     (if has_key data k then Inr (case jget data k of JStr s \<Rightarrow> s | v \<Rightarrow> py_str v) else Inl k)"

definition stored_strings :: "(json \<Rightarrow> string) \<Rightarrow> json \<Rightarrow> (string, string list) result" where
  "stored_strings py_str v =
     (if is_list v then Inr (map (\<lambda>x. case x of JStr s \<Rightarrow> s | _ \<Rightarrow> py_str x) (list_items v))
      else Inl ''not a list'')"

definition checkpoint_from_dict ::
    "(json \<Rightarrow> string) \<Rightarrow> (string \<Rightarrow> (string, real) result) \<Rightarrow> json \<Rightarrow> (string, compaction_checkpoint) result" where
  "checkpoint_from_dict py_str py_float data =
     bind_result (required_text py_str data ''id'') (\<lambda>i.
     bind_result (required_text py_str data ''trigger'') (\<lambda>trigger.
     bind_result (stored_strings py_str (get_or data ''strategy'' (JList []))) (\<lambda>strategy.
     bind_result (stored_int (get_or data ''source_history_version'' (JInt 0))) (\<lambda>version.
     bind_result (stored_objects (get_or data ''replacement_history'' (JList []))) (\<lambda>history.
     bind_result (stored_int (get_or data ''tokens_before'' (JInt 0))) (\<lambda>tokens_before.
     bind_result (stored_int (get_or data ''tokens_after'' (JInt 0))) (\<lambda>tokens_after.
     bind_result (stored_int (get_or data ''preserved_rounds'' (JInt 0))) (\<lambda>preserved.
     bind_result (stored_float py_float (get_or data ''created_at'' (JReal 0))) (\<lambda>created.
     bind_result (stored_int (get_or data ''cache_epoch'' (JInt 0))) (\<lambda>epoch.
     bind_result (optional_int (jget data ''actual_prompt_tokens'')) (\<lambda>actual.
     bind_result (optional_int (jget data ''cached_input_tokens'')) (\<lambda>cached.
     bind_result (optional_int (jget data ''invalidated_suffix_tokens'')) (\<lambda>invalidated.
     bind_result (optional_int (jget data ''reclaimed_tokens'')) (\<lambda>reclaimed.
       Inr \<lparr>ck_id = i, ck_trigger = trigger, ck_strategy = strategy, ck_source_history_version = version,
            ck_replacement_history = history, ck_tokens_before = tokens_before, ck_tokens_after = tokens_after,
            ck_preserved_rounds = preserved, ck_created_at = created, ck_cache_epoch = epoch,
            ck_actual_prompt_tokens = actual, ck_cached_input_tokens = cached,
            ck_invalidated_suffix_tokens = invalidated, ck_reclaimed_tokens = reclaimed\<rparr>))))))))))))))"

section \<open>The manager\<close>

record message_snapshot =
  sn_index :: int
  sn_role :: string
  sn_content :: string
  sn_tool_call_id :: "string option"
  sn_tool_calls :: "message_tool_call list"

datatype context_event =
    Compression_Started string int nat "int option" "message_snapshot list"
  | Compression_Skipped string
  | Compression_Completed string int int nat nat "string list" "message_snapshot list" "message_snapshot list"
      "compaction_checkpoint option"

text \<open>The state of \<^verbatim>\<open>ContextManager\<close>; the events it has published are \<open>None\<close> without a UI bus.\<close>

record context_manager =
  cm_max_tokens :: int
  cm_events :: "context_event list option"
  cm_auto_snip :: bool
  cm_auto_summarize :: bool
  cm_auto_collapse :: bool
  cm_snip_keep_recent_tools :: int
  cm_snip_threshold_chars :: int
  cm_snip_min_lines :: int
  cm_summarize_keep_recent_turns :: int
  cm_token_fudge_factor :: real
  cm_budget :: context_budget
  cm_snip_wall :: int
  cm_semantic_wall :: int
  cm_snip_min_gain :: int
  cm_rewrite_target :: int
  cm_emergency_at :: int
  cm_history_version :: int
  cm_checkpoints :: "compaction_checkpoint list"
  cm_consecutive_summary_failures :: nat
  cm_cache_epoch :: int
  cm_usage_observations :: "usage_observation list"
  cm_latest_usage :: "usage_observation option"
  cm_estimate_scale_by_profile :: "(string, real) dict"

definition recompute_thresholds :: "context_manager \<Rightarrow> context_manager" where
  "recompute_thresholds cm =
     (let limit = request_input_limit (cm_budget cm)
      in cm\<lparr>cm_snip_wall := max 1 (limit * 60 div 100), cm_semantic_wall := max 1 (limit * 75 div 100),
            cm_snip_min_gain := max 1 (limit * 20 div 100), cm_rewrite_target := max 1 (limit * 40 div 100),
            cm_emergency_at := max 1 (limit * 90 div 100)\<rparr>)"

record context_settings =
  cs_max_tokens :: int
  cs_ui_bus :: bool
  cs_auto_snip :: bool
  cs_auto_summarize :: bool
  cs_auto_collapse :: bool
  cs_snip_keep_recent_tools :: int
  cs_snip_threshold_chars :: int
  cs_snip_min_lines :: int
  cs_summarize_keep_recent_turns :: int
  cs_token_fudge_factor :: real
  cs_reserved_output_tokens :: int
  cs_fixed_prompt_tokens :: int
  cs_tool_schema_tokens :: int
  cs_safety_margin_tokens :: int

definition default_context_settings :: context_settings where
  "default_context_settings =
     \<lparr>cs_max_tokens = 128000, cs_ui_bus = False, cs_auto_snip = True, cs_auto_summarize = True, cs_auto_collapse = True,
      cs_snip_keep_recent_tools = 2, cs_snip_threshold_chars = 1500, cs_snip_min_lines = 6,
      cs_summarize_keep_recent_turns = 5, cs_token_fudge_factor = 11 / 10, cs_reserved_output_tokens = 8192,
      cs_fixed_prompt_tokens = 0, cs_tool_schema_tokens = 0, cs_safety_margin_tokens = 2048\<rparr>"

definition new_context_manager :: "context_settings \<Rightarrow> context_manager" where
  "new_context_manager cs = recompute_thresholds
     \<lparr>cm_max_tokens = cs_max_tokens cs, cm_events = (if cs_ui_bus cs then Some [] else None),
      cm_auto_snip = cs_auto_snip cs, cm_auto_summarize = cs_auto_summarize cs, cm_auto_collapse = cs_auto_collapse cs,
      cm_snip_keep_recent_tools = cs_snip_keep_recent_tools cs, cm_snip_threshold_chars = cs_snip_threshold_chars cs,
      cm_snip_min_lines = cs_snip_min_lines cs, cm_summarize_keep_recent_turns = cs_summarize_keep_recent_turns cs,
      cm_token_fudge_factor = cs_token_fudge_factor cs,
      cm_budget = \<lparr>cb_model_window = cs_max_tokens cs, cb_reserved_output = cs_reserved_output_tokens cs,
        cb_fixed_prompt_tokens = cs_fixed_prompt_tokens cs, cb_tool_schema_tokens = cs_tool_schema_tokens cs,
        cb_safety_margin = cs_safety_margin_tokens cs\<rparr>,
      cm_snip_wall = 1, cm_semantic_wall = 1, cm_snip_min_gain = 1, cm_rewrite_target = 1, cm_emergency_at = 1,
      cm_history_version = 0, cm_checkpoints = [], cm_consecutive_summary_failures = 0, cm_cache_epoch = 0,
      cm_usage_observations = [], cm_latest_usage = None, cm_estimate_scale_by_profile = []\<rparr>"

definition reconfigure ::
    "context_manager \<Rightarrow> int \<Rightarrow> bool option \<Rightarrow> bool option \<Rightarrow> bool option \<Rightarrow> context_manager" where
  "reconfigure cm max_tokens snip summarize collapse = recompute_thresholds
     (cm\<lparr>cm_max_tokens := max_tokens,
         cm_auto_snip := (case snip of None \<Rightarrow> cm_auto_snip cm | Some b \<Rightarrow> b),
         cm_auto_summarize := (case summarize of None \<Rightarrow> cm_auto_summarize cm | Some b \<Rightarrow> b),
         cm_auto_collapse := (case collapse of None \<Rightarrow> cm_auto_collapse cm | Some b \<Rightarrow> b),
         cm_budget := (cm_budget cm)\<lparr>cb_model_window := max_tokens\<rparr>\<rparr>)"

definition restore_replay_state :: "context_manager \<Rightarrow> int \<Rightarrow> int \<Rightarrow> context_manager" where
  "restore_replay_state cm version epoch =
     cm\<lparr>cm_history_version := max 0 version, cm_cache_epoch := max 0 epoch, cm_latest_usage := None\<rparr>"

definition invalidate_replay_prefix :: "context_manager \<Rightarrow> context_manager" where
  "invalidate_replay_prefix cm =
     cm\<lparr>cm_history_version := cm_history_version cm + 1, cm_cache_epoch := cm_cache_epoch cm + 1,
        cm_latest_usage := None\<rparr>"

definition automatic_strategies :: "context_manager \<Rightarrow> string list" where
  "automatic_strategies cm = map fst (filter snd
     [(''snip'', cm_auto_snip cm), (''summarize'', cm_auto_summarize cm), (''collapse'', cm_auto_collapse cm)])"

definition restore_checkpoints :: "context_manager \<Rightarrow> compaction_checkpoint list \<Rightarrow> context_manager" where
  "restore_checkpoints cm checkpoints = cm\<lparr>cm_checkpoints := checkpoints\<rparr>"

definition clear_usage_observations :: "context_manager \<Rightarrow> context_manager" where
  "clear_usage_observations cm =
     cm\<lparr>cm_usage_observations := [], cm_latest_usage := None, cm_estimate_scale_by_profile := []\<rparr>"

text \<open>The projected messages are fresh, so counting them leaves the history as it was; the counts of
  messages whose images the projection may have replaced are dropped first.\<close>

definition get_context_tokens :: "context_manager \<Rightarrow> context_env \<Rightarrow> message list \<Rightarrow> int \<times> message list" where
  "get_context_tokens cm env messages =
     (case env_projection env of
        Some project \<Rightarrow>
          if list_ex (\<lambda>m. 0 < image_count m) messages
          then let projected = project messages;
                   recounted = map (\<lambda>(original, m). if 0 < image_count original then drop_count m else m)
                     (zip messages projected) @ drop (length messages) projected
               in (fst (estimate_tokens env (cm_token_fudge_factor cm) recounted), messages)
          else estimate_tokens env (cm_token_fudge_factor cm) messages
      | None \<Rightarrow> estimate_tokens env (cm_token_fudge_factor cm) messages)"

text \<open>\<open>tools_text\<close> is \<^verbatim>\<open>str(tools or [])\<close>.\<close>

definition estimate_request_tokens ::
    "context_manager \<Rightarrow> context_env \<Rightarrow> message list \<Rightarrow> string \<Rightarrow> int \<times> message list" where
  "estimate_request_tokens cm env messages tools_text =
     (let (message_tokens, messages') = get_context_tokens cm env messages
      in (max 1 (message_tokens + int (length tools_text div 3)), messages'))"

definition calibrated_ratio :: "usage_observation \<Rightarrow> real" where
  "calibrated_ratio o' =
     min 3 (max (1 / 2) (real_of_int (uo_actual_prompt_tokens o') / real_of_int (max 1 (uo_local_request_estimate o'))))"

definition last_hundred :: "'a list \<Rightarrow> 'a list" where
  "last_hundred xs = (if 100 < length xs then drop (length xs - 100) xs else xs)"

definition observe_usage ::
    "context_manager \<Rightarrow> int \<Rightarrow> int option \<Rightarrow> int \<Rightarrow> int \<Rightarrow> string \<Rightarrow> string \<Rightarrow> real \<Rightarrow>
       context_manager \<times> usage_observation option" where
  "observe_usage cm actual cached request_estimate history_estimate boundary profile now =
     (if actual \<le> 0 then (cm, None)
      else
        let observation = create_observation actual cached request_estimate history_estimate
              (cm_history_version cm) boundary profile now;
            ratio = calibrated_ratio observation;
            scale = (case dict_get (cm_estimate_scale_by_profile cm) profile of
               None \<Rightarrow> ratio | Some previous \<Rightarrow> previous * (3 / 4) + ratio * (1 / 4))
        in (cm\<lparr>cm_estimate_scale_by_profile := dict_set profile scale (cm_estimate_scale_by_profile cm),
               cm_latest_usage := Some observation,
               cm_usage_observations := last_hundred (cm_usage_observations cm @ [observation])\<rparr>,
            Some observation))"

definition profile_scale :: "context_manager \<Rightarrow> string \<Rightarrow> real" where
  "profile_scale cm profile =
     (case dict_get (cm_estimate_scale_by_profile cm) profile of None \<Rightarrow> 1 | Some x \<Rightarrow> x)"

definition predict_request_tokens :: "context_manager \<Rightarrow> context_env \<Rightarrow> message list \<Rightarrow> int \<times> message list" where
  "predict_request_tokens cm env messages =
     (let (local_history, messages') = get_context_tokens cm env messages;
          fallback = (\<lambda>profile. max 1 (py_int (real_of_int
            (local_history + cb_fixed_prompt_tokens (cm_budget cm) + cb_tool_schema_tokens (cm_budget cm))
            * profile_scale cm profile)))
      in (case cm_latest_usage cm of
            Some o' \<Rightarrow>
              if uo_history_version o' = cm_history_version cm
              then max 1 (py_int (real_of_int (uo_actual_prompt_tokens o') +
                real_of_int (local_history - uo_local_history_estimate o') * profile_scale cm (uo_model_profile o')))
              else fallback (uo_model_profile o')
          | None \<Rightarrow> fallback ''default'',
          messages'))"

section \<open>Counting changes only the cached counts\<close>

lemma pop_set_same [simp]: "dict_pop k (dict_set k v d) = dict_pop k d"
  by (induction d) (auto simp: dict_pop_def)

lemma pop_pop_same [simp]: "dict_pop k (dict_pop k d) = dict_pop k d"
  by (simp add: dict_pop_def)

lemma drop_count_simps [simp]:
  "drop_count (set_count n m) = drop_count m" "drop_count (drop_count m) = drop_count m"
  "msg_role (drop_count m) = msg_role m" "msg_content (drop_count m) = msg_content m"
  "msg_tool_calls (drop_count m) = msg_tool_calls m" "msg_tool_call_id (drop_count m) = msg_tool_call_id m"
  by (simp_all add: drop_count_def set_count_def)

lemma set_count_simps [simp]:
  "msg_role (set_count n m) = msg_role m" "msg_content (set_count n m) = msg_content m"
  "msg_tool_calls (set_count n m) = msg_tool_calls m" "msg_tool_call_id (set_count n m) = msg_tool_call_id m"
  "cached_count (set_count n m) = Some n"
  by (simp_all add: set_count_def cached_count_def dict_get_set)

lemma fresh_count_extra [simp]: "fresh_count env f (set_count n m) = fresh_count env f m"
  "fresh_count env f (drop_count m) = fresh_count env f m"
  by (simp_all add: fresh_count_def estimate_message_tokens_chars_def image_count_def cong: option.case_cong)

lemma estimate_one:
  "drop_count (snd (estimate_message_tokens env r f m)) = drop_count m"
  "cached_count (snd (estimate_message_tokens env r f m)) = Some (fst (estimate_message_tokens env r f m))"
  by (auto simp: estimate_message_tokens_def Let_def split: option.splits if_splits)

lemma ensure_counts:
  "map drop_count (snd (ensure_message_token_counts env r f ms)) = map drop_count ms"
  "fst (ensure_message_token_counts env r f ms) = sum_list (map (\<lambda>m. fst (estimate_message_tokens env r f m)) ms)"
  "snd (ensure_message_token_counts env r f ms) = map (\<lambda>m. snd (estimate_message_tokens env r f m)) ms"
  by (induction ms) (auto simp: case_prod_unfold Let_def estimate_one)

definition counts_fresh :: "context_env \<Rightarrow> real \<Rightarrow> message list \<Rightarrow> bool" where
  "counts_fresh env f ms \<longleftrightarrow> (\<forall>m\<in>set ms. \<forall>n. cached_count m = Some n \<longrightarrow> n = fresh_count env f m)"

lemma ensure_fresh:
  assumes "counts_fresh env f ms"
  shows "fst (ensure_message_token_counts env r f ms) = sum_list (map (fresh_count env f) ms)"
    "counts_fresh env f (snd (ensure_message_token_counts env r f ms))"
proof -
  have one: "fst (estimate_message_tokens env r f m) = fresh_count env f m" if "m \<in> set ms" for m
    using assms that by (auto simp: counts_fresh_def estimate_message_tokens_def Let_def split: option.splits)
  then show "fst (ensure_message_token_counts env r f ms) = sum_list (map (fresh_count env f) ms)"
    by (simp add: ensure_counts(2) cong: map_cong)
  have "fresh_count env f (snd (estimate_message_tokens env r f m)) = fresh_count env f m" for m
    by (auto simp: estimate_message_tokens_def Let_def split: option.splits)
  then show "counts_fresh env f (snd (ensure_message_token_counts env r f ms))"
    using one by (auto simp: counts_fresh_def ensure_counts(3) estimate_one)
qed

lemma ensure_again:
  "ensure_message_token_counts env False f (snd (ensure_message_token_counts env r f ms)) =
     ensure_message_token_counts env r f ms"
proof (induction ms)
  case Nil
  then show ?case by simp
next
  case (Cons m ms)
  have "estimate_message_tokens env False f (snd (estimate_message_tokens env r f m)) = estimate_message_tokens env r f m"
    using estimate_one(2) [of env r f m]
    by (simp add: estimate_message_tokens_def [of env False])
  with Cons show ?case by (auto simp: case_prod_unfold Let_def prod_eq_iff)
qed

lemma context_tokens_content [simp]: "map drop_count (snd (get_context_tokens cm env ms)) = map drop_count ms"
  by (simp add: get_context_tokens_def estimate_tokens_def ensure_counts(1) Let_def split: option.split)

lemma predict_content [simp]: "map drop_count (snd (predict_request_tokens cm env ms)) = map drop_count ms"
  by (simp add: predict_request_tokens_def case_prod_unfold Let_def)

lemma predict_length [simp]: "length (snd (predict_request_tokens cm env ms)) = length ms"
  by (metis length_map predict_content)

section \<open>Thresholds and calibration\<close>

definition thresholds_ok :: "context_manager \<Rightarrow> bool" where
  "thresholds_ok cm \<longleftrightarrow>
     1 \<le> cm_snip_min_gain cm \<and> cm_snip_min_gain cm < cm_rewrite_target cm \<and> cm_rewrite_target cm < cm_snip_wall cm \<and>
     cm_snip_wall cm < cm_semantic_wall cm \<and> cm_semantic_wall cm < cm_emergency_at cm \<and>
     cm_emergency_at cm < request_input_limit (cm_budget cm)"

lemma limit_at_least: "1024 \<le> request_input_limit b"
  by (simp add: request_input_limit_def)

lemma walls_ordered:
  assumes "(1024 :: int) \<le> n"
  shows "1 \<le> n * 20 div 100" "n * 20 div 100 < n * 40 div 100" "n * 40 div 100 < n * 60 div 100"
    "n * 60 div 100 < n * 75 div 100" "n * 75 div 100 < n * 90 div 100" "n * 90 div 100 < n"
proof -
  have q: "100 * (a div 100) \<le> a \<and> a < 100 * (a div 100) + 100" for a :: int by presburger
  show "1 \<le> n * 20 div 100" "n * 20 div 100 < n * 40 div 100" "n * 40 div 100 < n * 60 div 100"
    "n * 60 div 100 < n * 75 div 100" "n * 75 div 100 < n * 90 div 100" "n * 90 div 100 < n"
    using assms q [of "n * 20"] q [of "n * 40"] q [of "n * 60"] q [of "n * 75"] q [of "n * 90"] by linarith+
qed

lemma thresholds_set:
  "thresholds_ok (cm\<lparr>cm_snip_wall := a, cm_semantic_wall := b, cm_snip_min_gain := c, cm_rewrite_target := d,
     cm_emergency_at := e\<rparr>) \<longleftrightarrow>
   1 \<le> c \<and> c < d \<and> d < a \<and> a < b \<and> b < e \<and> e < request_input_limit (cm_budget cm)"
  by (simp add: thresholds_ok_def)

lemma recomputed_thresholds: "thresholds_ok (recompute_thresholds cm)"
proof -
  define n where "n = request_input_limit (cm_budget cm)"
  note w = walls_ordered [OF limit_at_least [of "cm_budget cm"], folded n_def]
  have m: "max 1 a = a" if "1 \<le> a" for a :: int using that by simp
  have "max 1 (n * 20 div 100) = n * 20 div 100" "max 1 (n * 40 div 100) = n * 40 div 100"
    "max 1 (n * 60 div 100) = n * 60 div 100" "max 1 (n * 75 div 100) = n * 75 div 100"
    "max 1 (n * 90 div 100) = n * 90 div 100"
    by (rule m, use w in linarith)+
  with w show ?thesis
    unfolding recompute_thresholds_def Let_def thresholds_set n_def [symmetric] by (simp only:)
qed

definition scales_ok :: "context_manager \<Rightarrow> bool" where
  "scales_ok cm \<longleftrightarrow> (\<forall>(p, x)\<in>set (cm_estimate_scale_by_profile cm). 1 / 2 \<le> x \<and> x \<le> 3)"

definition observation_ok :: "usage_observation \<Rightarrow> bool" where
  "observation_ok o' \<longleftrightarrow> 0 \<le> uo_actual_prompt_tokens o' \<and> 1 \<le> uo_local_request_estimate o' \<and>
     0 \<le> uo_local_history_estimate o' \<and> 0 \<le> uo_history_version o' \<and>
     (case uo_cached_input_tokens o' of None \<Rightarrow> True | Some c \<Rightarrow> 0 \<le> c)"

definition usage_ok :: "context_manager \<Rightarrow> bool" where
  "usage_ok cm \<longleftrightarrow> length (cm_usage_observations cm) \<le> 100 \<and> list_all observation_ok (cm_usage_observations cm) \<and>
     (case cm_latest_usage cm of None \<Rightarrow> True
      | Some o' \<Rightarrow> observation_ok o' \<and> cm_usage_observations cm \<noteq> [] \<and> last (cm_usage_observations cm) = o')"

lemma ratio_range: "1 / 2 \<le> calibrated_ratio o'" "calibrated_ratio o' \<le> 3"
  by (simp_all add: calibrated_ratio_def min_def max_def)

lemma profile_scale_range: "scales_ok cm \<Longrightarrow> 1 / 2 \<le> profile_scale cm p \<and> profile_scale cm p \<le> 3"
  by (auto simp: profile_scale_def scales_ok_def split: option.split dest!: dict_get_SomeD)

lemma created_observation_ok: "observation_ok (create_observation a c r h v b p n)"
  by (auto simp: observation_ok_def create_observation_def split: option.split)

lemma last_hundred_simps [simp]: "length (last_hundred xs) \<le> 100"
  "xs \<noteq> [] \<Longrightarrow> last_hundred xs \<noteq> []" "xs \<noteq> [] \<Longrightarrow> last (last_hundred xs) = last xs"
  "set (last_hundred xs) \<subseteq> set xs"
  by (auto simp: last_hundred_def dest: in_set_dropD)

lemma average_range:
  "1 / 2 \<le> x \<and> x \<le> 3 \<Longrightarrow> 1 / 2 \<le> y \<and> y \<le> 3 \<Longrightarrow>
    1 / 2 \<le> x * (3 / 4) + y * (1 / 4) \<and> x * (3 / 4) + y * (1 / 4) \<le> (3 :: real)"
  by simp

lemma observe_scales:
  assumes "scales_ok cm"
  shows "scales_ok (fst (observe_usage cm a c r h b p n))"
proof (cases "a \<le> 0")
  case False
  define y where "y = calibrated_ratio (create_observation a c r h (cm_history_version cm) b p n)"
  define z where "z = (case dict_get (cm_estimate_scale_by_profile cm) p of
      None \<Rightarrow> y | Some x \<Rightarrow> x * (3 / 4) + y * (1 / 4))"
  have y: "1 / 2 \<le> y \<and> y \<le> 3" using ratio_range by (simp add: y_def)
  have "1 / 2 \<le> x \<and> x \<le> 3" if "dict_get (cm_estimate_scale_by_profile cm) p = Some x" for x
    using assms dict_get_SomeD [OF that] by (auto simp: scales_ok_def)
  with y average_range have z: "1 / 2 \<le> z \<and> z \<le> 3" by (auto simp: z_def split: option.split)
  have "scales_ok (cm\<lparr>cm_estimate_scale_by_profile := dict_set p z (cm_estimate_scale_by_profile cm)\<rparr>)"
    using assms z by (auto simp: scales_ok_def dest!: dict_set_mem)
  with False show ?thesis
    unfolding z_def y_def by (simp add: observe_usage_def scales_ok_def Let_def)
qed (simp add: observe_usage_def assms)

lemma observe_usage_ok: "usage_ok cm \<Longrightarrow> usage_ok (fst (observe_usage cm a c r h b p n))"
proof (cases "a \<le> 0")
  case False
  assume "usage_ok cm"
  then have "list_all observation_ok (last_hundred (cm_usage_observations cm @ [create_observation a c r h v b p n]))" for v
    using last_hundred_simps(4) [of "cm_usage_observations cm @ [create_observation a c r h v b p n]"] created_observation_ok
    by (auto simp: usage_ok_def list_all_iff)
  with False show ?thesis
    by (simp add: usage_ok_def observe_usage_def Let_def created_observation_ok)
qed (simp add: observe_usage_def)

section \<open>Stored checkpoints\<close>

lemma stored_simps [simp]:
  "stored_int (JInt n) = Inr n" "optional_int (json_opt_int v) = Inr v" "stored_float pf (JReal x) = Inr x"
  "stored_strings ps (JList (map JStr ss)) = Inr ss"
  by (cases v; simp add: stored_int_def optional_int_def stored_float_def stored_strings_def is_list_def list_items_def o_def)+

lemma checkpoint_stored:
  assumes "list_all is_object (ck_replacement_history c)"
  shows "checkpoint_from_dict ps pf (checkpoint_to_dict c) = Inr c"
proof -
  have "stored_objects (JList (ck_replacement_history c)) = Inr (ck_replacement_history c)"
    using assms by (simp add: stored_objects_def is_list_def list_items_def)
  then show ?thesis
    by (simp add: checkpoint_from_dict_def checkpoint_to_dict_def required_text_def has_key_def get_or_def)
qed

section \<open>Properties\<close>

text \<open>Without a tokenizer the estimate of a text lies between a quarter of its visible characters and one and a
  half times their number, so it neither vanishes on long unbroken text nor explodes.\<close>

theorem heuristic_within_visible_text:
  "real (visible t) / 4 \<le> estimate_text_tokens_chars t \<and> estimate_text_tokens_chars t \<le> 3 / 2 * real (visible t)"
  using heuristic_bounds by blast

text \<open>The cached token counts are invisible: on a history whose cached counts are right, counting gives the sum
  of fresh counts, leaves right counts behind and changes nothing else of any message, and counting again gives the same
  total and the same messages.\<close>

theorem cached_counts_are_invisible:
  assumes "counts_fresh env fudge ms"
  shows "fst (estimate_tokens env fudge ms) = sum_list (map (fresh_count env fudge) ms) \<and>
    map drop_count (snd (estimate_tokens env fudge ms)) = map drop_count ms \<and>
    counts_fresh env fudge (snd (estimate_tokens env fudge ms)) \<and>
    estimate_tokens env fudge (snd (estimate_tokens env fudge ms)) = estimate_tokens env fudge ms"
  using ensure_fresh [OF assms, of False] ensure_counts(1) ensure_again by (simp add: estimate_tokens_def)

theorem cached_counts_are_invisible_witness:
  "fst (estimate_tokens \<lparr>env_str = (\<lambda>_. []), env_calls_str = (\<lambda>_. []), env_caption = (\<lambda>_. []),
      env_encoder = Some (\<lambda>s. Some (length s)), env_projection = None, env_compactor = None,
      env_summary = (\<lambda>_ _ _ _. Inr []), env_cancelled = False\<rparr> 1 [ex_user, ex_tool_message ''c1'']) = 4"
proof -
  let ?env = "\<lparr>env_str = (\<lambda>_. []), env_calls_str = (\<lambda>_. []), env_caption = (\<lambda>_. []),
      env_encoder = Some (\<lambda>s. Some (length s)), env_projection = None, env_compactor = None,
      env_summary = (\<lambda>_ _ _ _. Inr []), env_cancelled = False\<rparr> :: context_env"
  have "cached_count ex_user = None" "cached_count (ex_tool_message ''c1'') = None" by code_simp+
  then have "counts_fresh ?env 1 [ex_user, ex_tool_message ''c1'']" by (simp add: counts_fresh_def)
  from cached_counts_are_invisible [OF this] show ?thesis
    by (simp add: fresh_count_def ex_user_def ex_tool_message_def py_int_def encoded_length_def text_projection_def
        image_count_def list_items_def)
qed

text \<open>A checkpoint survives storage: loading the dictionary of a checkpoint the manager created gives
  the checkpoint back.\<close>

theorem checkpoint_roundtrip:
  "let c = create_checkpoint hex trigger strategy version history tokens_before tokens_after preserved now epoch
     actual cached invalidated reclaimed
   in checkpoint_from_dict py_str py_float (checkpoint_to_dict c) = Inr c"
  unfolding Let_def
  by (rule checkpoint_stored) (simp add: create_checkpoint_def list_all_iff stored_message_def is_object_def)

end
