(* ===== verification/Context_Manager.thy ===== *)
theory Context_Manager
  imports Context_Tokens "HOL-Library.Sublist"
begin

text \<open>
  Compression of the conversation by \<^verbatim>\<open>ContextManager\<close> (\<^verbatim>\<open>domain/context/manager.py\<close>): snipping old tool
  output, summarising old turns, the emergency collapse, the automatic and the forced rewrite with
  their checkpoints and UI events, and the extraction of key facts that stands in for a summary that
  failed. The summary generator, the provider's compactor, fresh identifiers and the clock are
  arguments. The lemmas show what a rewrite may change: a rejected rewrite leaves the history and the
  versions alone, a committed one advances both counters once and records the history it installed,
  the provider contract holds afterwards, and recent turns survive.
\<close>

section \<open>Lines and words of old messages\<close>

definition str_lines :: "string \<Rightarrow> string list" where
  "str_lines s = map (map char_of) (splitlines (codes s))"

definition newest_items :: "nat \<Rightarrow> 'a list \<Rightarrow> 'a list" where
  "newest_items n xs = drop (length xs - n) xs"

text \<open>\<^verbatim>\<open>\w\<close> on code points below 256.\<close>

definition is_word_char :: "char \<Rightarrow> bool" where
  "is_word_char c =
     (let n = (of_char c :: nat) in
       48 \<le> n \<and> n \<le> 57 \<or> 65 \<le> n \<and> n \<le> 90 \<or> n = 95 \<or> 97 \<le> n \<and> n \<le> 122 \<or>
       n = 0xAA \<or> n = 0xB2 \<or> n = 0xB3 \<or> n = 0xB5 \<or> n = 0xB9 \<or> n = 0xBA \<or> 0xBC \<le> n \<and> n \<le> 0xBE \<or>
       0xC0 \<le> n \<and> n \<noteq> 0xD7 \<and> n \<noteq> 0xF7)"

definition is_path_char :: "char \<Rightarrow> bool" where
  "is_path_char c \<longleftrightarrow> is_word_char c \<or> c = CHR ''.'' \<or> c = CHR ''/'' \<or> c = CHR ''-''"

text \<open>The match of \<^verbatim>\<open>[\w./\-]+\.\w{1,5}\<close> at the start of a text: the greedy run is given back up to the last
  dot, not in first position, that a word character follows.\<close>

fun last_dot :: "nat \<Rightarrow> string \<Rightarrow> nat option" where
  "last_dot i (c # d # s) =
     (case last_dot (Suc i) (d # s) of
        Some j \<Rightarrow> Some j
      | None \<Rightarrow> if c = CHR ''.'' \<and> is_word_char d \<and> 0 < i then Some i else None)"
| "last_dot i _ = None"

definition path_match :: "string \<Rightarrow> string option" where
  "path_match s =
     (let run = takeWhile is_path_char s
      in case last_dot 0 run of
           None \<Rightarrow> None
         | Some j \<Rightarrow> Some (take (Suc j) run @ take 5 (takeWhile is_word_char (drop (Suc j) run))))"

function find_paths :: "string \<Rightarrow> string list" where
  "find_paths [] = []"
| "find_paths (c # s) =
     (case path_match (c # s) of
        None \<Rightarrow> find_paths s
      | Some p \<Rightarrow> p # find_paths (drop (max 1 (length p)) (c # s)))"
  by pat_completeness auto
termination
  by (relation "measure length") auto

definition lowercase :: "string \<Rightarrow> string" where
  "lowercase s = map lower_char s"

fun contains_text :: "string \<Rightarrow> string \<Rightarrow> bool" where
  "contains_text sub [] = (sub = [])"
| "contains_text sub (c # s) = (starts_with (c # s) sub \<or> contains_text sub s)"

definition error_line :: "string \<Rightarrow> bool" where
  "error_line l \<longleftrightarrow> contains_text ''error'' (lowercase l) \<or> contains_text ''Error'' l"

text \<open>\<^verbatim>\<open>re.finditer\<close> raises on content that is a list of parts (or any other non-empty value that is not text).\<close>

fun key_facts :: "message list \<Rightarrow> (py_exn, string list \<times> string list) result" where
  "key_facts [] = Inr ([], [])"
| "key_facts (m # ms) =
     (case (if truthy (msg_content m) then msg_content m else JStr []) of
        JStr s \<Rightarrow> bind_result (key_facts ms) (\<lambda>(files, errors).
          Inr (find_paths s @ files, map (\<lambda>l. take 150 (strip l)) (filter error_line (str_lines s)) @ errors))
      | _ \<Rightarrow> Inl (Py_Exception ''expected string or bytes-like object''))"

definition extract_key_info :: "message list \<Rightarrow> (py_exn, string) result" where
  "extract_key_info messages =
     bind_result (key_facts messages) (\<lambda>(files, errors).
       let files_seen = sort (remdups files);
           parts = (if files_seen = [] then [] else [''Files touched: '' @ join '', '' (take 20 files_seen)]) @
             (if errors = [] then [] else [''Errors seen: '' @ join ''; '' (take 5 errors)])
       in Inr (if join [CHR 0x0A] parts = [] then ''(no extractable context)'' else join [CHR 0x0A] parts))"

section \<open>Snipping\<close>

text \<open>The index of the \<open>keep\<close>-th assistant message with tool calls counted from the end (0 when there are fewer;
  the search stops at the first one for any smaller \<open>keep\<close>). The list is the reversed history.\<close>

fun snip_cut :: "int \<Rightarrow> int \<Rightarrow> message list \<Rightarrow> nat" where
  "snip_cut keep rounds [] = 0"
| "snip_cut keep rounds (m # ms) =
     (if is_assistant m \<and> msg_tool_calls m \<noteq> []
      then if keep \<le> rounds + 1 then length ms else snip_cut keep (rounds + 1) ms
      else snip_cut keep rounds ms)"

definition snip_marker :: "nat \<Rightarrow> message \<Rightarrow> string" where
  "snip_marker n m =
     [CHR 0x0A] @ ''... ('' @ nat_str n @ '' lines, context-snipped; tool_call_id='' @
     (if or_empty (msg_tool_call_id m) = [] then ''unknown'' else or_empty (msg_tool_call_id m)) @
     ''; full committed output remains searchable in HistoryLedger) ...'' @ [CHR 0x0A]"

definition snip_message :: "context_manager \<Rightarrow> message \<Rightarrow> message option" where
  "snip_message cm m =
     (case msg_content m of
        JStr content \<Rightarrow>
          if int (length content) \<le> cm_snip_threshold_chars cm then None
          else
            let lines = str_lines content
            in if int (length lines) \<le> cm_snip_min_lines cm then None
               else Some (drop_count (m\<lparr>msg_content := JStr
                 (join [CHR 0x0A] (take 3 lines) @ snip_marker (length lines) m @
                  join [CHR 0x0A] (newest_items 3 lines))\<rparr>))
      | _ \<Rightarrow> None)"

definition snip_at :: "context_manager \<Rightarrow> nat \<Rightarrow> nat \<Rightarrow> message \<Rightarrow> message option" where
  "snip_at cm cut_index i m = (if cut_index \<le> i \<or> \<not> is_tool m then None else snip_message cm m)"

fun snip_from :: "context_manager \<Rightarrow> nat \<Rightarrow> nat \<Rightarrow> message list \<Rightarrow> message list \<times> bool" where
  "snip_from cm cut_index i [] = ([], False)"
| "snip_from cm cut_index i (m # ms) =
     (let (rest, changed) = snip_from cm cut_index (Suc i) ms
      in case snip_at cm cut_index i m of
           None \<Rightarrow> (m # rest, changed)
         | Some m' \<Rightarrow> (m' # rest, True))"

definition snip_tool_outputs :: "context_manager \<Rightarrow> message list \<Rightarrow> message list \<times> bool" where
  "snip_tool_outputs cm messages =
     snip_from cm (snip_cut (cm_snip_keep_recent_tools cm) 0 (rev messages)) 0 messages"

section \<open>Summaries\<close>

definition is_user_turn :: "message \<Rightarrow> bool" where
  "is_user_turn m \<longleftrightarrow> has_role ''user'' m \<and> \<not> is_synthetic_context_message m"

definition user_turn_starts :: "message list \<Rightarrow> nat list" where
  "user_turn_starts messages = filter (\<lambda>i. is_user_turn (messages ! i)) [0..<length messages]"

definition find_recent_user_turn_boundary :: "message list \<Rightarrow> int \<Rightarrow> nat" where
  "find_recent_user_turn_boundary messages keep =
     (if keep \<le> 0 then length messages
      else let starts = user_turn_starts messages
           in if int (length starts) \<le> keep then 0 else starts ! (length starts - nat keep))"

fun safe_boundary :: "nat \<Rightarrow> nat \<Rightarrow> message list list \<Rightarrow> nat option" where
  "safe_boundary split_index offset [] = None"
| "safe_boundary split_index offset (r # rs) =
     (if split_index < offset + length r then Some offset
      else safe_boundary split_index (offset + length r) rs)"

definition safe_round_boundary_at_or_before :: "message list \<Rightarrow> nat \<Rightarrow> nat" where
  "safe_round_boundary_at_or_before messages split_index =
     (case safe_boundary split_index 0 (group_api_rounds messages) of
        Some offset \<Rightarrow> offset | None \<Rightarrow> min split_index (length messages))"

text \<open>\<^verbatim>\<open>except Exception\<close>: interruptions of the interpreter pass.\<close>

fun is_exception :: "py_exn \<Rightarrow> bool" where
  "is_exception (Py_Exception _) = True"
| "is_exception Py_EOFError = True"
| "is_exception Py_KeyboardInterrupt = False"
| "is_exception (Py_BaseException _) = False"

definition get_summary ::
    "context_manager \<Rightarrow> context_env \<Rightarrow> message list \<Rightarrow> string \<Rightarrow> nat \<Rightarrow>
       context_manager \<times> (py_exn, string) result" where
  "get_summary cm env messages kind preserved =
     (case env_summary env messages kind (cm_history_version cm) preserved of
        Inr summary \<Rightarrow> (cm\<lparr>cm_consecutive_summary_failures := 0\<rparr>, Inr summary)
      | Inl e \<Rightarrow>
          if \<not> is_exception e \<or> env_cancelled env then (cm, Inl e)
          else (cm\<lparr>cm_consecutive_summary_failures := cm_consecutive_summary_failures cm + 1\<rparr>,
                extract_key_info messages))"

text \<open>The replacement of the old part by its summary, in front of the kept tail.\<close>

definition summary_message :: "string \<Rightarrow> string \<Rightarrow> (py_exn, message) result" where
  "summary_message summary kind =
     (case synthetic_user_message ''context_summary'' summary ''context_compactor'' [(''kind'', Some kind)] True of
        Inl e \<Rightarrow> Inl (Py_Exception e) | Inr m \<Rightarrow> Inr m)"

definition replace_old ::
    "context_manager \<Rightarrow> context_env \<Rightarrow> message list \<Rightarrow> nat \<Rightarrow> string \<Rightarrow> string \<Rightarrow>
       context_manager \<times> (py_exn, message list) result" where
  "replace_old cm env messages split_index kind reason =
     (let tail = drop split_index messages;
          (cm', summary) = get_summary cm env (take split_index messages) kind (length (group_api_rounds tail))
      in (cm', bind_result summary (\<lambda>s. bind_result (summary_message s kind) (\<lambda>m.
            Inr (normalize_history (m # tail) reason)))))"

definition summarize_old ::
    "context_manager \<Rightarrow> context_env \<Rightarrow> message list \<Rightarrow> int \<Rightarrow> string \<Rightarrow>
       context_manager \<times> (py_exn, message list option) result" where
  "summarize_old cm env messages keep kind =
     (let split_index = safe_round_boundary_at_or_before messages (find_recent_user_turn_boundary messages keep)
      in if split_index = 0 \<or> length messages \<le> split_index then (cm, Inr None)
         else let (cm', r) = replace_old cm env messages split_index kind ''context compaction''
              in (cm', bind_result r (\<lambda>ms. Inr (Some ms))))"

definition hard_collapse ::
    "context_manager \<Rightarrow> context_env \<Rightarrow> message list \<Rightarrow> context_manager \<times> (py_exn, message list) result" where
  "hard_collapse cm env messages =
     replace_old cm env messages (recent_round_start messages 2) ''full_recovery'' ''hard context compaction''"

section \<open>Events\<close>

definition clip_content :: "string \<Rightarrow> string" where
  "clip_content s = (if 240 < length s then take 237 s @ ''...'' else s)"

definition snapshot_item :: "context_env \<Rightarrow> int \<times> message \<Rightarrow> message_snapshot" where
  "snapshot_item env item =
     (let (i, m) = item
      in \<lparr>sn_index = i, sn_role = (case msg_role m of None \<Rightarrow> ''?'' | Some r \<Rightarrow> r),
          sn_content = clip_content (filter (\<lambda>c. c \<noteq> CHR 0x0D) (text_projection env (msg_content m))),
          sn_tool_call_id = (if or_empty (msg_tool_call_id m) = [] then None else msg_tool_call_id m),
          sn_tool_calls = msg_tool_calls m\<rparr>)"

definition omitted_message :: "nat \<Rightarrow> message" where
  "omitted_message n =
     \<lparr>msg_role = Some ''meta'', msg_content = JStr (''... '' @ nat_str n @ '' messages omitted ...''),
      msg_tool_calls = [], msg_tool_call_id = None, msg_extra = []\<rparr>"

definition snapshot_messages :: "context_env \<Rightarrow> message list \<Rightarrow> message_snapshot list" where
  "snapshot_messages env messages =
     (let n = length messages; numbered = zip (map int [0..<n]) messages
      in map (snapshot_item env)
           (if n \<le> 12 then numbered
            else take 6 numbered @ [(- 1, omitted_message (n - 12))] @ drop (n - 6) numbered))"

definition publish_context :: "context_event \<Rightarrow> context_manager \<Rightarrow> context_manager" where
  "publish_context e cm = cm\<lparr>cm_events := map_option (\<lambda>es. es @ [e]) (cm_events cm)\<rparr>"

definition emit_compression_started ::
    "context_env \<Rightarrow> int \<Rightarrow> message list \<Rightarrow> string \<Rightarrow> int option \<Rightarrow> context_manager \<Rightarrow> context_manager" where
  "emit_compression_started env before messages trigger gain cm =
     publish_context (Compression_Started trigger before (length messages) gain (snapshot_messages env messages)) cm"

definition emit_compression_skipped :: "string \<Rightarrow> context_manager \<Rightarrow> context_manager" where
  "emit_compression_skipped trigger cm = publish_context (Compression_Skipped trigger) cm"

definition last_checkpoint :: "context_manager \<Rightarrow> compaction_checkpoint option" where
  "last_checkpoint cm = (if cm_checkpoints cm = [] then None else Some (last (cm_checkpoints cm)))"

definition emit_compression_completed ::
    "context_env \<Rightarrow> int \<Rightarrow> int \<Rightarrow> message list \<Rightarrow> message list \<Rightarrow> string list \<Rightarrow> string \<Rightarrow> context_manager \<Rightarrow> context_manager" where
  "emit_compression_completed env before after old new layers trigger cm =
     publish_context (Compression_Completed trigger before after (length old) (length new) layers
       (snapshot_messages env old) (snapshot_messages env new) (last_checkpoint cm)) cm"

section \<open>Rewrites\<close>

text \<open>The commit both rewrites end with: one new version and epoch, one checkpoint of the installed
  history, and no usage observation, which described the old one. Only the automatic rewrite records the invalidated suffix.\<close>

definition commit_rewrite ::
    "bool \<Rightarrow> string \<Rightarrow> real \<Rightarrow> string \<Rightarrow> string list \<Rightarrow> message list \<Rightarrow> int \<Rightarrow> int \<Rightarrow> context_manager \<Rightarrow> context_manager" where
  "commit_rewrite automatic hex now trigger layers messages before after cm =
     (let observation = cm_latest_usage cm;
          cached = (case observation of None \<Rightarrow> None | Some o' \<Rightarrow> uo_cached_input_tokens o')
      in cm\<lparr>cm_history_version := cm_history_version cm + 1,
            cm_cache_epoch := cm_cache_epoch cm + 1,
            cm_checkpoints := cm_checkpoints cm @
              [create_checkpoint hex trigger layers (cm_history_version cm) messages before after
                (min (cm_summarize_keep_recent_turns cm) (int (length (group_api_rounds messages))))
                now (cm_cache_epoch cm + 1) (map_option uo_actual_prompt_tokens observation) cached
                (if automatic then map_option (\<lambda>c. max 0 (before - c)) cached else None)
                (Some (max 0 (before - after)))],
            cm_latest_usage := None\<rparr>)"

definition snip_candidate ::
    "context_manager \<Rightarrow> context_env \<Rightarrow> message list \<Rightarrow> message list \<times> string list" where
  "snip_candidate cm env messages =
     (let (compacted, layers) =
        (case env_compactor env of
           None \<Rightarrow> (messages, [])
         | Some shrink \<Rightarrow>
             (case shrink messages (cm_snip_keep_recent_tools cm) of
                None \<Rightarrow> (messages, [])
              | Some ms \<Rightarrow> (ms, [''provider_tool_cache_compaction''])));
          (snipped, changed) = snip_tool_outputs cm compacted
      in (snipped, layers @ (if changed then [''snip_tool_outputs''] else [])))"

text \<open>The result of a rewrite: the manager, the messages the caller holds afterwards, and whether a
  rewrite was committed.\<close>

type_synonym rewrite = "context_manager \<times> message list \<times> (py_exn, bool) result"

text \<open>The end of the automatic rewrite, after the summary: \<open>old\<close> are the caller's messages, \<open>candidate\<close> the rewritten ones.\<close>

definition finish_rewrite ::
    "context_env \<Rightarrow> string \<Rightarrow> real \<Rightarrow> string \<Rightarrow> message list \<Rightarrow> int \<Rightarrow> int \<Rightarrow> bool \<Rightarrow> bool \<Rightarrow> string list \<Rightarrow> message list \<Rightarrow>
       context_manager \<Rightarrow> rewrite" where
  "finish_rewrite env hex now trigger old before gain summarized emergency_due layers candidate cm =
     (let (after, candidate) = predict_request_tokens cm env candidate;
          collapse_due = (emergency_due \<and> cm_emergency_at cm < after \<and> 4 < length candidate)
      in if \<not> summarized \<and> gain < cm_snip_min_gain cm \<and> \<not> collapse_due
         then (emit_compression_skipped trigger cm, old, Inr False)
         else
           let commit = (\<lambda>layers after candidate cm.
                 (emit_compression_completed env before after old candidate layers trigger
                    (commit_rewrite True hex now trigger layers candidate before after cm),
                  candidate, Inr True))
           in if \<not> collapse_due then commit layers after candidate cm
              else
                (case hard_collapse cm env candidate of
                   (cm', Inl e) \<Rightarrow> (cm', old, Inl e)
                 | (cm', Inr collapsed) \<Rightarrow>
                     let (after', collapsed') = predict_request_tokens cm' env collapsed
                     in commit (layers @ [''full_recovery'']) after' collapsed' cm'))"

text \<open>The middle of the automatic rewrite: the announcement and, past the semantic wall, the summary.\<close>

definition start_rewrite ::
    "context_env \<Rightarrow> string \<Rightarrow> real \<Rightarrow> message list \<Rightarrow> int \<Rightarrow> int \<Rightarrow> bool \<Rightarrow> bool \<Rightarrow> bool \<Rightarrow> string list \<Rightarrow> message list \<Rightarrow>
       context_manager \<Rightarrow> rewrite" where
  "start_rewrite env hex now old before gain snip_due semantic_due emergency_due layers candidate cm =
     (let trigger = (if emergency_due then ''emergency'' else if semantic_due then ''semantic_wall''
            else ''profitable_snip'');
          cm1 = emit_compression_started env before old trigger (if snip_due then Some gain else None) cm
      in if \<not> semantic_due
         then finish_rewrite env hex now trigger old before gain False emergency_due layers candidate cm1
         else
           (case summarize_old cm1 env candidate (cm_summarize_keep_recent_turns cm1) ''partial_prefix'' of
              (cm2, Inl e) \<Rightarrow> (cm2, old, Inl e)
            | (cm2, Inr None) \<Rightarrow>
                finish_rewrite env hex now trigger old before gain False emergency_due layers candidate cm2
            | (cm2, Inr (Some summarized)) \<Rightarrow>
                finish_rewrite env hex now trigger old before gain True emergency_due
                  (layers @ [''partial_prefix'']) summarized cm2))"

definition maybe_compress ::
    "context_manager \<Rightarrow> context_env \<Rightarrow> string \<Rightarrow> real \<Rightarrow> message list \<Rightarrow> rewrite" where
  "maybe_compress cm env hex now messages =
     (let (before, old) = predict_request_tokens cm env messages;
          snip_due = (cm_auto_snip cm \<and> cm_snip_wall cm \<le> before);
          semantic_due = (cm_auto_summarize cm \<and> cm_semantic_wall cm \<le> before);
          emergency_due = (cm_auto_collapse cm \<and> cm_emergency_at cm \<le> before)
      in if \<not> (snip_due \<or> semantic_due \<or> emergency_due) then (cm, old, Inr False)
         else
           let (candidate, layers) = (if snip_due then snip_candidate cm env old else (old, []));
               (prediction, candidate) = predict_request_tokens cm env candidate;
               gain = max 0 (before - prediction)
           in if \<not> semantic_due \<and> \<not> emergency_due \<and> gain < cm_snip_min_gain cm then (cm, old, Inr False)
              else start_rewrite env hex now old before gain snip_due semantic_due emergency_due layers candidate cm)"

text \<open>The forced rewrite works on the caller's list in place; the summary comes before the list is
  changed, so a failure leaves it alone. An unknown strategy changes nothing.\<close>

definition apply_strategy ::
    "context_manager \<Rightarrow> context_env \<Rightarrow> string \<Rightarrow> message list \<Rightarrow> context_manager \<times> (py_exn, message list option) result" where
  "apply_strategy cm env strategy messages =
     (if strategy = ''snip''
      then (cm, Inr (let (ms, changed) = snip_tool_outputs cm messages in if changed then Some ms else None))
      else if strategy = ''summarize''
      then summarize_old cm env messages (cm_summarize_keep_recent_turns cm) ''partial_prefix''
      else if strategy = ''collapse''
      then if length messages \<le> 4 then (cm, Inr None)
           else let (cm', r) = hard_collapse cm env messages in (cm', bind_result r (\<lambda>ms. Inr (Some ms)))
      else (cm, Inr None))"

definition force_compress ::
    "context_manager \<Rightarrow> context_env \<Rightarrow> string \<Rightarrow> real \<Rightarrow> string \<Rightarrow> message list \<Rightarrow> rewrite" where
  "force_compress cm env hex now strategy messages =
     (let (before, old) = predict_request_tokens cm env messages;
          cm1 = emit_compression_started env before old ''manual'' None cm
      in case apply_strategy cm1 env strategy old of
           (cm2, Inl e) \<Rightarrow> (cm2, old, Inl e)
         | (cm2, Inr None) \<Rightarrow> (emit_compression_skipped ''manual'' cm2, old, Inr False)
         | (cm2, Inr (Some changed)) \<Rightarrow>
             let (after, new) = predict_request_tokens cm2 env changed
             in (emit_compression_completed env before after old new [strategy] ''manual''
                   (commit_rewrite False hex now ''manual'' [strategy] new before after cm2),
                 new, Inr True))"

section \<open>What a rewrite may change of the manager\<close>

text \<open>The manager before and after agree on everything but the published events and the failure count.\<close>

definition only_progress :: "context_manager \<Rightarrow> context_manager \<Rightarrow> bool" where
  "only_progress cm cm' \<longleftrightarrow>
     cm' = cm\<lparr>cm_events := cm_events cm', cm_consecutive_summary_failures := cm_consecutive_summary_failures cm'\<rparr>"

lemma only_progress_refl [simp]: "only_progress cm cm"
  by (simp add: only_progress_def)

lemma only_progress_trans: "only_progress a b \<Longrightarrow> only_progress b c \<Longrightarrow> only_progress a c"
  unfolding only_progress_def by (cases a, cases b, cases c) simp

lemma only_progressD:
  assumes "only_progress cm cm'"
  shows "cm_history_version cm' = cm_history_version cm" "cm_cache_epoch cm' = cm_cache_epoch cm"
    "cm_checkpoints cm' = cm_checkpoints cm" "cm_latest_usage cm' = cm_latest_usage cm"
    "cm_emergency_at cm' = cm_emergency_at cm" "cm_snip_min_gain cm' = cm_snip_min_gain cm"
    "thresholds_ok cm' = thresholds_ok cm" "scales_ok cm' = scales_ok cm" "usage_ok cm' = usage_ok cm"
  by (subst assms [unfolded only_progress_def], simp add: thresholds_ok_def scales_ok_def usage_ok_def cong: option.case_cong)+

lemma publish_progress [simp]: "only_progress cm (publish_context e cm)"
  "only_progress cm (emit_compression_started env b ms t g cm)" "only_progress cm (emit_compression_skipped t cm)"
  "only_progress cm (emit_compression_completed env b a ms ms' ls t cm)"
  by (simp_all add: only_progress_def publish_context_def emit_compression_started_def emit_compression_skipped_def
      emit_compression_completed_def)

lemma get_summary_progress [simp]: "only_progress cm (fst (get_summary cm env ms k p))"
  by (simp add: get_summary_def only_progress_def split: sum.split)

lemma replace_old_progress [simp]: "only_progress cm (fst (replace_old cm env ms i k why))"
  by (simp add: replace_old_def case_prod_unfold Let_def)

lemma summarize_progress: "summarize_old cm env ms keep k = (cm', r) \<Longrightarrow> only_progress cm cm'"
  using replace_old_progress [of cm env ms _ k]
  by (auto simp: summarize_old_def case_prod_unfold Let_def split: if_splits)

lemma collapse_progress: "hard_collapse cm env ms = (cm', r) \<Longrightarrow> only_progress cm cm'"
  using replace_old_progress [of cm env ms "recent_round_start ms 2" "''full_recovery''" "''hard context compaction''"]
  by (simp add: hard_collapse_def)

lemma strategy_progress: "apply_strategy cm env st ms = (cm', r) \<Longrightarrow> only_progress cm cm'"
  by (auto simp: apply_strategy_def case_prod_unfold Let_def split: if_splits dest: summarize_progress
      intro: collapse_progress [OF prod.collapse [symmetric]])

definition new_epoch :: "compaction_checkpoint \<Rightarrow> context_manager \<Rightarrow> context_manager" where
  "new_epoch c cm = cm\<lparr>cm_history_version := cm_history_version cm + 1, cm_cache_epoch := cm_cache_epoch cm + 1,
     cm_checkpoints := cm_checkpoints cm @ [c], cm_latest_usage := None\<rparr>"

definition committed :: "context_manager \<Rightarrow> message list \<Rightarrow> context_manager \<Rightarrow> bool" where
  "committed cm ms' cm' \<longleftrightarrow>
     (\<exists>c. only_progress (new_epoch c cm) cm' \<and> ck_source_history_version c = cm_history_version cm \<and>
        ck_cache_epoch c = cm_cache_epoch cm + 1 \<and> ck_replacement_history c = map stored_message ms')"

definition rewrite_ok :: "context_manager \<Rightarrow> message list \<Rightarrow> rewrite \<Rightarrow> bool" where
  "rewrite_ok cm ms res =
     (case res of (cm', ms', r) \<Rightarrow>
        if r = Inr True then committed cm ms' cm'
        else map drop_count ms' = map drop_count ms \<and> only_progress cm cm')"

lemma new_epoch_progress: "only_progress cm cm' \<Longrightarrow> only_progress (new_epoch c cm) (new_epoch c cm')"
  unfolding only_progress_def new_epoch_def by (cases cm, cases cm') simp

lemma commit_committed:
  assumes "only_progress cm cm1"
  shows "committed cm ms' (emit_compression_completed env b a old new ls t (commit_rewrite auto hex now t ls' ms' b' a' cm1))"
proof -
  obtain c where c: "commit_rewrite auto hex now t ls' ms' b' a' cm1 = new_epoch c cm1"
    "ck_source_history_version c = cm_history_version cm1" "ck_cache_epoch c = cm_cache_epoch cm1 + 1"
    "ck_replacement_history c = map stored_message ms'"
    by (simp add: commit_rewrite_def new_epoch_def create_checkpoint_def Let_def)
  have "only_progress (new_epoch c cm) (emit_compression_completed env b a old new ls t (new_epoch c cm1))"
    using new_epoch_progress [OF assms] by (rule only_progress_trans) simp
  with c only_progressD(1,2) [OF assms] show ?thesis
    unfolding committed_def c(1) by auto
qed

lemma finish_rewrite_ok:
  assumes "only_progress cm cm1" "map drop_count old = map drop_count ms"
  shows "rewrite_ok cm ms (finish_rewrite env hex now t old b g s e ls cand cm1)"
proof -
  obtain after cand' where p: "predict_request_tokens cm1 env cand = (after, cand')" by force
  obtain cm2 r where c: "hard_collapse cm1 env cand' = (cm2, r)" by force
  have cm2: "only_progress cm cm2" using assms(1) collapse_progress [OF c] by (rule only_progress_trans)
  have skip: "only_progress cm (emit_compression_skipped t cm1)"
    using assms(1) by (rule only_progress_trans) simp
  show ?thesis
    using assms cm2 skip
    by (auto simp: finish_rewrite_def p c rewrite_ok_def Let_def commit_committed case_prod_unfold
        split: sum.split)
qed

lemma start_rewrite_ok:
  assumes old: "map drop_count old = map drop_count ms"
  shows "rewrite_ok cm ms (start_rewrite env hex now old b g sn se em ls cand cm)"
proof -
  define t where "t = (if em then ''emergency'' else if se then ''semantic_wall'' else ''profitable_snip'')"
  define cm1 where "cm1 = emit_compression_started env b old t (if sn then Some g else None) cm"
  have cm1: "only_progress cm cm1" by (simp add: cm1_def)
  obtain cm2 r where s: "summarize_old cm1 env cand (cm_summarize_keep_recent_turns cm1) ''partial_prefix'' = (cm2, r)"
    by force
  have cm2: "only_progress cm cm2" using cm1 summarize_progress [OF s] by (rule only_progress_trans)
  have "rewrite_ok cm ms (cm2, old, Inl e)" for e using cm2 old by (simp add: rewrite_ok_def)
  then show ?thesis
    unfolding start_rewrite_def Let_def t_def [symmetric] cm1_def [symmetric] s
    using finish_rewrite_ok [OF cm1 old] finish_rewrite_ok [OF cm2 old] by (auto split: sum.split option.split)
qed

text \<open>An automatic rewrite either stops at the token counts, or runs on a candidate that counts
  and snips aside is the old history.\<close>

lemma maybe_compress_cases:
  obtains (stop) "maybe_compress cm env hex now ms = (cm, snd (predict_request_tokens cm env ms), Inr False)"
  | (start) b g sn se em ls base where
      "maybe_compress cm env hex now ms = start_rewrite env hex now (snd (predict_request_tokens cm env ms)) b g sn se em ls
         (snd (predict_request_tokens cm env base)) cm"
      "base = snd (predict_request_tokens cm env ms) \<or>
       base = fst (snip_candidate cm env (snd (predict_request_tokens cm env ms)))"
proof -
  obtain before old where p: "predict_request_tokens cm env ms = (before, old)" by force
  define sn where "sn \<longleftrightarrow> cm_auto_snip cm \<and> cm_snip_wall cm \<le> before"
  obtain base ls where c: "(if sn then snip_candidate cm env old else (old, [])) = (base, ls)" by force
  obtain pr cand where q: "predict_request_tokens cm env base = (pr, cand)" by force
  have base: "base = old \<or> base = fst (snip_candidate cm env old)" using c by (auto split: if_splits)
  show ?thesis
  proof (cases "maybe_compress cm env hex now ms = (cm, old, Inr False)")
    case True
    with stop p show ?thesis by simp
  next
    case False
    then have "maybe_compress cm env hex now ms =
        start_rewrite env hex now old before (max 0 (before - pr)) sn (cm_auto_summarize cm \<and> cm_semantic_wall cm \<le> before)
          (cm_auto_collapse cm \<and> cm_emergency_at cm \<le> before) ls cand cm"
      unfolding maybe_compress_def p Let_def case_prod_conv sn_def [symmetric] c q by (auto split: if_splits)
    then show ?thesis
      using start [of before "max 0 (before - pr)" sn "cm_auto_summarize cm \<and> cm_semantic_wall cm \<le> before"
          "cm_auto_collapse cm \<and> cm_emergency_at cm \<le> before" ls base] base p q by simp
  qed
qed

lemma maybe_compress_ok: "rewrite_ok cm ms (maybe_compress cm env hex now ms)"
proof (cases rule: maybe_compress_cases [of cm env hex now ms])
  case stop
  then show ?thesis by (simp add: rewrite_ok_def)
next
  case (start b g sn se em ls base)
  show ?thesis unfolding start(1) by (rule start_rewrite_ok) simp
qed

lemma force_compress_ok: "rewrite_ok cm ms (force_compress cm env hex now st ms)"
proof -
  obtain before old where p: "predict_request_tokens cm env ms = (before, old)" by force
  have old: "map drop_count old = map drop_count ms" using predict_content [of cm env ms] p by simp
  obtain cm2 r where a: "apply_strategy (emit_compression_started env before old ''manual'' None cm) env st old = (cm2, r)"
    by force
  have cm2: "only_progress cm cm2"
    using only_progress_trans [OF _ strategy_progress [OF a]] by simp
  have "only_progress cm (emit_compression_skipped ''manual'' cm2)"
    using cm2 by (rule only_progress_trans) simp
  with cm2 old show ?thesis
    by (auto simp: force_compress_def p a Let_def case_prod_unfold rewrite_ok_def commit_committed
        split: sum.split option.split)
qed

section \<open>What a rewrite may change of the history\<close>

definition message_shape :: "message \<Rightarrow> string option \<times> message_tool_call list \<times> string option" where
  "message_shape m = (msg_role m, msg_tool_calls m, msg_tool_call_id m)"

lemma shape_parts:
  assumes "message_shape m = message_shape m'"
  shows "has_role r m = has_role r m'" "call_keys m = call_keys m'" "response_key m = response_key m'"
  using assms by (simp_all add: message_shape_def has_role_def call_keys_def response_key_def)

lemma shapes_tools:
  assumes "map message_shape ts = map message_shape ts'"
  shows "list_all is_tool ts = list_all is_tool ts'" "map response_key ts = map response_key ts'"
proof -
  have "list_all is_tool us = list_all (\<lambda>s. fst s = Some ''tool'') (map message_shape us)"
    "map response_key us = map (\<lambda>s. clean_id (snd (snd s))) (map message_shape us)" for us
    by (simp_all add: list.pred_map o_def message_shape_def response_key_def has_role_def)
  with assms show "list_all is_tool ts = list_all is_tool ts'" "map response_key ts = map response_key ts'"
    by (simp_all only:)
qed

lemma well_paired_shape: "map message_shape ms = map message_shape ms' \<Longrightarrow> well_paired ms = well_paired ms'"
proof (induction ms arbitrary: ms' rule: well_paired.induct)
  case 1
  then show ?case by simp
next
  case (2 m ms)
  then obtain m' rest where ms': "ms' = m' # rest" "message_shape m = message_shape m'"
    "map message_shape ms = map message_shape rest" by (auto simp: Cons_eq_map_conv)
  let ?n = "length (call_keys m)"
  have t: "map message_shape (take ?n ms) = map message_shape (take ?n rest)"
    "map message_shape (drop ?n ms) = map message_shape (drop ?n rest)"
    using ms'(3) by (simp_all add: take_map [symmetric] drop_map [symmetric])
  note rest = shapes_tools [OF t(1)] 2(1) [OF refl t(2)]
  show ?case
    unfolding ms'(1) well_paired.simps Let_def shape_parts [OF ms'(2), symmetric] rest ..
qed

lemma shape_drop_count [simp]: "message_shape (drop_count m) = message_shape m"
  by (simp add: message_shape_def)

lemma counts_well_paired: "map drop_count ms = map drop_count ms' \<Longrightarrow> well_paired ms = well_paired ms'"
proof -
  assume "map drop_count ms = map drop_count ms'"
  then have "map message_shape (map drop_count ms) = map message_shape (map drop_count ms')" by simp
  then show ?thesis by (intro well_paired_shape) (simp add: o_def)
qed

text \<open>What was said: the user's turns and the assistant's messages, without cached counts.\<close>

definition is_speech :: "message \<Rightarrow> bool" where
  "is_speech m \<longleftrightarrow> is_user_turn m \<or> is_assistant m"

definition speech :: "message list \<Rightarrow> message list" where
  "speech ms = filter is_speech (map drop_count ms)"

definition user_turns :: "message list \<Rightarrow> message list" where
  "user_turns ms = filter is_user_turn (map drop_count ms)"

lemma turn_drop_count [simp]: "is_user_turn (drop_count m) = is_user_turn m"
  by (simp add: is_user_turn_def has_role_def is_synthetic_context_message_def synthetic_marker_def drop_count_def
      dict_get_pop token_count_key_def synthetic_context_metadata_key_def)

lemma speech_drop_count [simp]: "is_speech (drop_count m) = is_speech m"
  by (simp add: is_speech_def) (simp add: has_role_def)

lemma speech_alt: "speech ms = map drop_count (filter is_speech ms)" "user_turns ms = map drop_count (filter is_user_turn ms)"
  by (simp_all add: speech_def user_turns_def filter_map o_def)

lemma turns_of_speech: "user_turns ms = filter is_user_turn (speech ms)"
proof -
  have "is_user_turn m \<longleftrightarrow> is_speech m \<and> is_user_turn m" for m by (auto simp: is_speech_def)
  then show ?thesis by (simp add: speech_def user_turns_def)
qed

lemma filter_speech_not_tool: "filter is_speech (filter (\<lambda>m. \<not> is_tool m) ms) = filter is_speech ms"
proof -
  have "is_speech m \<Longrightarrow> \<not> is_tool m" for m by (auto simp: is_speech_def is_user_turn_def has_role_def)
  then show ?thesis by (simp add: filter_filter) (rule filter_cong; auto)
qed

text \<open>The relation every step of a rewrite keeps: the provider contract, and speech dropped from the front only.\<close>

definition shortened :: "message list \<Rightarrow> message list \<Rightarrow> bool" where
  "shortened ms ms' \<longleftrightarrow> (well_paired ms \<longrightarrow> well_paired ms') \<and> suffix (speech ms') (speech ms)"

lemma shortened_refl [simp]: "shortened ms ms"
  by (simp add: shortened_def)

lemma shortened_trans: "shortened a b \<Longrightarrow> shortened b c \<Longrightarrow> shortened a c"
  by (auto simp: shortened_def intro: suffix_order.trans)

lemma counted_shortened: "map drop_count ms = map drop_count ms' \<Longrightarrow> shortened ms ms'"
  using counts_well_paired [of ms ms'] by (simp add: shortened_def speech_def)

lemma predict_shortened [simp]: "shortened ms (snd (predict_request_tokens cm env ms))"
  by (rule counted_shortened) simp

lemma snip_message_shape: "snip_at cm k i m = Some m' \<Longrightarrow> message_shape m' = message_shape m \<and> is_tool m \<and> is_tool m'"
  by (auto simp: snip_at_def snip_message_def Let_def message_shape_def has_role_def split: if_splits json.splits)

lemma snip_from_shape:
  "map message_shape (fst (snip_from cm k i ms)) = map message_shape ms \<and>
   filter is_speech (fst (snip_from cm k i ms)) = filter is_speech ms"
proof (induction ms arbitrary: i)
  case Nil
  then show ?case by simp
next
  case (Cons m ms)
  have "\<not> is_speech x" if "is_tool x" for x using that by (auto simp: is_speech_def is_user_turn_def has_role_def)
  then show ?case
    using Cons [of "Suc i"] snip_message_shape [of cm k i m]
    by (auto simp: case_prod_unfold Let_def split: option.split)
qed

lemma snip_shortened [simp]: "shortened ms (fst (snip_tool_outputs cm ms))"
  unfolding snip_tool_outputs_def shortened_def speech_alt
  using snip_from_shape well_paired_shape by (metis suffix_order.refl)

lemma summary_message_ok:
  "\<exists>m. summary_message s k = Inr m \<and> \<not> is_tool m \<and> \<not> is_speech m"
proof -
  have v: "validate_tag ''context_summary'' = Inr ''context_summary''"
    by (rule validate_tag_reserved) (simp add: reserved_context_tags_def)
  show ?thesis
    by (simp add: summary_message_def synthetic_user_message_def mark_synthetic_user_message_def v Let_def
        has_role_def is_speech_def is_user_turn_def is_synthetic_context_message_def synthetic_marker_def
        dict_get_def synthetic_context_metadata_key_def reserved_context_tags_def)
qed

lemma suffix_speech_drop: "suffix (speech (drop n ms)) (speech ms)"
proof -
  have "speech ms = speech (take n ms) @ speech (drop n ms)"
    by (metis append_take_drop_id filter_append map_append speech_def)
  then show ?thesis by (simp add: suffixI)
qed

lemma normalized_speech: "well_paired (normalize_history ms why)" "speech (normalize_history ms why) = speech ms"
proof -
  show "well_paired (normalize_history ms why)" by (simp add: normalize_history_def reconcile_output(1))
  have "filter is_speech (normalize_history ms why) = filter is_speech ms"
    unfolding normalize_history_def
    by (subst (1 2) filter_speech_not_tool [symmetric]) (simp only: reconcile_output(2))
  then show "speech (normalize_history ms why) = speech ms" by (simp add: speech_alt)
qed

lemma replaced:
  assumes "replace_old cm env ms i k why = (cm', Inr ms')"
  shows "well_paired ms'" "speech ms' = speech (drop i ms)"
proof -
  obtain s where "get_summary cm env (take i ms) k (length (group_api_rounds (drop i ms))) = (cm', Inr s)"
    using assms by (auto simp: replace_old_def case_prod_unfold Let_def prod_eq_iff)
  moreover obtain m where m: "summary_message s k = Inr m" "\<not> is_speech m"
    using summary_message_ok [of s k] by blast
  ultimately have ms': "ms' = normalize_history (m # drop i ms) why"
    using assms by (simp add: replace_old_def)
  with m(2) show "well_paired ms'" "speech ms' = speech (drop i ms)"
    by (simp_all add: normalized_speech) (simp add: speech_alt)
qed

lemma replace_shortened: "replace_old cm env ms i k why = (cm', Inr ms') \<Longrightarrow> shortened ms ms'"
  using replaced suffix_speech_drop by (simp add: shortened_def)

lemma collapse_shortened: "hard_collapse cm env ms = (cm', Inr ms') \<Longrightarrow> shortened ms ms'"
  by (auto simp: hard_collapse_def intro: replace_shortened)

lemma summarize_shortened: "summarize_old cm env ms keep k = (cm', Inr (Some ms')) \<Longrightarrow> shortened ms ms'"
  by (auto simp: summarize_old_def case_prod_unfold Let_def prod_eq_iff split: if_splits
      intro: replace_shortened [OF prod_eqI])

lemma strategy_shortened: "apply_strategy cm env st ms = (cm', Inr (Some ms')) \<Longrightarrow> shortened ms ms'"
  using snip_shortened [of ms cm]
  by (auto simp: apply_strategy_def case_prod_unfold Let_def prod_eq_iff split: if_splits
      intro: summarize_shortened [OF prod_eqI] collapse_shortened [OF prod_eqI])

text \<open>The history the automatic rewrite works on: the given one, or what the provider's compactor made of it.\<close>

definition compacted_by_provider :: "context_manager \<Rightarrow> context_env \<Rightarrow> message list \<Rightarrow> message list \<Rightarrow> bool" where
  "compacted_by_provider cm env ms base \<longleftrightarrow>
     (\<exists>shrink. env_compactor env = Some shrink \<and>
        shrink (snd (predict_request_tokens cm env ms)) (cm_snip_keep_recent_tools cm) = Some base)"

lemma snip_candidate_shortened:
  "shortened ms (fst (snip_candidate cm env ms)) \<or>
   (\<exists>shrink base. env_compactor env = Some shrink \<and> shrink ms (cm_snip_keep_recent_tools cm) = Some base \<and>
      shortened base (fst (snip_candidate cm env ms)))"
  by (auto simp: snip_candidate_def case_prod_unfold Let_def split: option.split)

lemma finish_shortened:
  assumes "shortened ms old" "shortened base cand" "res = finish_rewrite env hex now t old b g s e ls cand cm"
  shows "shortened ms (fst (snd res)) \<or> shortened base (fst (snd res))"
proof -
  obtain after cand' where p: "predict_request_tokens cm env cand = (after, cand')" by force
  have cand': "shortened base cand'"
    using shortened_trans [OF assms(2) predict_shortened [of cand cm env]] p by simp
  obtain cm2 r where c: "hard_collapse cm env cand' = (cm2, r)" by force
  have "shortened base (snd (predict_request_tokens cm2 env x))" if "r = Inr x" for x
    using shortened_trans [OF shortened_trans [OF cand' collapse_shortened [of cm env cand' cm2 x]] predict_shortened]
      c that by simp
  with assms(1) cand' show ?thesis
    unfolding assms(3) by (auto simp: finish_rewrite_def p c Let_def case_prod_unfold split: sum.split)
qed

lemma start_shortened:
  assumes "shortened ms old" "shortened base cand" "res = start_rewrite env hex now old b g sn se em ls cand cm"
  shows "shortened ms (fst (snd res)) \<or> shortened base (fst (snd res))"
proof -
  define t where "t = (if em then ''emergency'' else if se then ''semantic_wall'' else ''profitable_snip'')"
  define cm1 where "cm1 = emit_compression_started env b old t (if sn then Some g else None) cm"
  obtain cm2 r where s: "summarize_old cm1 env cand (cm_summarize_keep_recent_turns cm1) ''partial_prefix'' = (cm2, r)"
    by force
  have "shortened base x" if "r = Inr (Some x)" for x
    using shortened_trans [OF assms(2) summarize_shortened] s that by blast
  then show ?thesis
    unfolding assms(3) start_rewrite_def Let_def t_def [symmetric] cm1_def [symmetric] s
    using finish_shortened [OF assms(1) _ refl] assms(1,2) by (auto split: sum.split option.split)
qed

lemma maybe_shortened:
  "shortened ms (fst (snd (maybe_compress cm env hex now ms))) \<or>
   (\<exists>base. compacted_by_provider cm env ms base \<and> shortened base (fst (snd (maybe_compress cm env hex now ms))))"
proof (cases rule: maybe_compress_cases [of cm env hex now ms])
  case stop
  then show ?thesis by simp
next
  case (start b g sn se em ls base)
  let ?old = "snd (predict_request_tokens cm env ms)"
  have old: "shortened ms ?old" by simp
  have "shortened ms base \<or> (\<exists>start. compacted_by_provider cm env ms start \<and> shortened start base)"
    using start(2) snip_candidate_shortened [of ?old cm env] shortened_trans [OF old]
    by (auto simp: compacted_by_provider_def)
  then obtain start where s: "start = ms \<or> compacted_by_provider cm env ms start" "shortened start base" by blast
  have "shortened start (snd (predict_request_tokens cm env base))" using s(2) by (rule shortened_trans) simp
  from start_shortened [OF old this start(1)] s(1) show ?thesis by blast
qed

lemma force_shortened: "shortened ms (fst (snd (force_compress cm env hex now st ms)))"
proof -
  obtain before old where p: "predict_request_tokens cm env ms = (before, old)" by force
  have old: "shortened ms old" using predict_shortened [of ms cm env] p by simp
  obtain cm2 r where a: "apply_strategy (emit_compression_started env before old ''manual'' None cm) env st old = (cm2, r)"
    by force
  have "shortened ms (snd (predict_request_tokens cm2 env x))" if "r = Inr (Some x)" for x
    using shortened_trans [OF shortened_trans [OF old strategy_shortened] predict_shortened] a that by blast
  with old show ?thesis
    by (auto simp: force_compress_def p a Let_def case_prod_unfold split: sum.split option.split)
qed

section \<open>Recent turns\<close>

lemma indices_cons:
  "filter (\<lambda>i. P ((m # ms) ! i)) [0..<Suc (length ms)] =
     (if P m then [0] else []) @ map Suc (filter (\<lambda>i. P (ms ! i)) [0..<length ms])"
proof -
  have "[0..<Suc (length ms)] = 0 # map Suc [0..<length ms]"
    by (simp add: map_Suc_upt upt_conv_Cons del: upt_Suc)
  then show ?thesis by (simp add: filter_map o_def del: upt_Suc)
qed

lemma take_to_index:
  "j < length (filter (\<lambda>i. P (ms ! i)) [0..<length ms]) \<Longrightarrow>
     length (filter P (take (filter (\<lambda>i. P (ms ! i)) [0..<length ms] ! j) ms)) = j"
proof (induction ms arbitrary: j)
  case Nil
  then show ?case by simp
next
  case (Cons m ms)
  then show ?case
    by (cases j) (auto simp: indices_cons simp del: upt_Suc)
qed

lemma indices_length: "length (filter (\<lambda>i. P (ms ! i)) [0..<length ms]) = length (filter P ms)"
  by (induction ms) (simp_all add: indices_cons del: upt_Suc)

lemma newest_items_append: "length ys = n \<Longrightarrow> newest_items n (xs @ ys) = ys"
  by (simp add: newest_items_def)

lemma boundary_keeps_turns:
  assumes "0 < keep" "i \<le> find_recent_user_turn_boundary ms keep"
  shows "newest_items (nat keep) (filter is_user_turn (drop i ms)) = newest_items (nat keep) (filter is_user_turn ms)"
proof (cases "int (length (user_turn_starts ms)) \<le> keep")
  case True
  with assms show ?thesis by (simp add: find_recent_user_turn_boundary_def Let_def)
next
  case False
  define k where "k = find_recent_user_turn_boundary ms keep"
  define j where "j = length (user_turn_starts ms) - nat keep"
  have j: "j < length (user_turn_starts ms)" "j + nat keep = length (filter is_user_turn ms)"
    using False assms(1) indices_length [of is_user_turn ms] by (auto simp: j_def user_turn_starts_def)
  have k: "k = user_turn_starts ms ! j" using False assms(1) by (simp add: k_def j_def find_recent_user_turn_boundary_def Let_def)
  have "length (filter is_user_turn (take k ms)) = j"
    using take_to_index [of j is_user_turn ms] j(1) by (simp add: k user_turn_starts_def)
  moreover have ms: "filter is_user_turn ms = filter is_user_turn (take k ms) @ filter is_user_turn (drop k ms)"
    by (metis append_take_drop_id filter_append)
  ultimately have len: "length (filter is_user_turn (drop k ms)) = nat keep"
    using j(2) by (metis add_left_cancel length_append)
  have "drop i ms = take (k - i) (drop i ms) @ drop k ms"
    using assms(2) by (metis append_take_drop_id drop_drop k_def le_add_diff_inverse2)
  then have "filter is_user_turn (drop i ms) = filter is_user_turn (take (k - i) (drop i ms)) @ filter is_user_turn (drop k ms)"
    by (metis filter_append)
  then show ?thesis
    using newest_items_append [OF len] ms by metis
qed

lemma safe_boundary_le: "safe_boundary i off rs = Some o' \<Longrightarrow> off \<le> i \<Longrightarrow> o' \<le> i"
  by (induction rs arbitrary: off) (auto split: if_splits)

lemma safe_round_boundary_le: "safe_round_boundary_at_or_before ms i \<le> i"
  by (auto simp: safe_round_boundary_at_or_before_def split: option.split dest: safe_boundary_le)

definition turns_kept :: "nat \<Rightarrow> message list \<Rightarrow> message list \<Rightarrow> bool" where
  "turns_kept n ms ms' \<longleftrightarrow> newest_items n (user_turns ms') = newest_items n (user_turns ms)"

lemma newest_items_map: "newest_items n (map f xs) = map f (newest_items n xs)"
  by (simp add: newest_items_def drop_map)

lemma counted_turns: "map drop_count ms' = map drop_count ms \<Longrightarrow> turns_kept n ms ms'"
  by (simp add: turns_kept_def user_turns_def)

lemma summarized_turns:
  assumes "summarize_old cm env ms keep k = (cm', Inr (Some ms'))" "0 < keep"
  shows "turns_kept (nat keep) ms ms'"
proof -
  define i where "i = safe_round_boundary_at_or_before ms (find_recent_user_turn_boundary ms keep)"
  obtain c where "replace_old cm env ms i k ''context compaction'' = (c, Inr ms')"
    using assms(1) by (auto simp: summarize_old_def i_def [symmetric] case_prod_unfold Let_def prod_eq_iff split: if_splits)
  from replaced(2) [OF this] have "user_turns ms' = user_turns (drop i ms)" by (simp add: turns_of_speech)
  moreover have "newest_items (nat keep) (filter is_user_turn (drop i ms)) = newest_items (nat keep) (filter is_user_turn ms)"
    unfolding i_def by (rule boundary_keeps_turns [OF assms(2) safe_round_boundary_le])
  ultimately show ?thesis by (simp add: turns_kept_def speech_alt newest_items_map)
qed

section \<open>Reachable managers\<close>

datatype context_op =
    Op_Reconfigure int "bool option" "bool option" "bool option"
  | Op_Restore_Replay int int
  | Op_Invalidate
  | Op_Restore_Checkpoints "compaction_checkpoint list"
  | Op_Clear_Usage
  | Op_Observe int "int option" int int string string real
  | Op_Maybe context_env string real "message list"
  | Op_Force context_env string real string "message list"

fun context_step :: "context_manager \<Rightarrow> context_op \<Rightarrow> (unit, context_manager) result" where
  "context_step cm (Op_Reconfigure n a b c) = Inr (reconfigure cm n a b c)"
| "context_step cm (Op_Restore_Replay v e) = Inr (restore_replay_state cm v e)"
| "context_step cm Op_Invalidate = Inr (invalidate_replay_prefix cm)"
| "context_step cm (Op_Restore_Checkpoints cs) = Inr (restore_checkpoints cm cs)"
| "context_step cm Op_Clear_Usage = Inr (clear_usage_observations cm)"
| "context_step cm (Op_Observe a c r h b p now) = Inr (fst (observe_usage cm a c r h b p now))"
| "context_step cm (Op_Maybe env hex now ms) = Inr (fst (maybe_compress cm env hex now ms))"
| "context_step cm (Op_Force env hex now st ms) = Inr (fst (force_compress cm env hex now st ms))"

definition context_inv :: "context_manager \<Rightarrow> bool" where
  "context_inv cm \<longleftrightarrow> thresholds_ok cm \<and> scales_ok cm \<and> usage_ok cm \<and> 0 \<le> cm_history_version cm \<and> 0 \<le> cm_cache_epoch cm"

lemma rewrite_inv:
  assumes "rewrite_ok cm ms res" "context_inv cm"
  shows "context_inv (fst res)"
proof -
  have epoch: "context_inv (new_epoch c cm)" for c
    using assms(2)
    by (auto simp: context_inv_def new_epoch_def thresholds_ok_def scales_ok_def usage_ok_def)
  have "context_inv cm'" if "only_progress x cm'" "context_inv x" for x cm'
    using that only_progressD [OF that(1)] by (simp add: context_inv_def)
  with assms epoch show ?thesis
    by (cases res) (auto simp: rewrite_ok_def committed_def split: if_splits)
qed

lemma recompute_frame [simp]:
  "scales_ok (recompute_thresholds cm) = scales_ok cm" "usage_ok (recompute_thresholds cm) = usage_ok cm"
  "cm_history_version (recompute_thresholds cm) = cm_history_version cm"
  "cm_cache_epoch (recompute_thresholds cm) = cm_cache_epoch cm"
  by (simp_all add: recompute_thresholds_def Let_def scales_ok_def usage_ok_def cong: option.case_cong)

lemma new_manager_inv: "context_inv (new_context_manager cs)"
  unfolding context_inv_def new_context_manager_def
  by (intro conjI recomputed_thresholds, unfold recompute_frame) (simp_all add: scales_ok_def usage_ok_def)

lemma context_step_inv: "context_inv cm \<Longrightarrow> context_step cm x = Inr cm' \<Longrightarrow> context_inv cm'"
proof (cases x)
  case (Op_Reconfigure n a b c)
  assume "context_inv cm" "context_step cm x = Inr cm'"
  with Op_Reconfigure have "cm' = reconfigure cm n a b c" "context_inv cm" by simp_all
  then show ?thesis
    by (simp add: context_inv_def reconfigure_def recomputed_thresholds)
      (simp add: scales_ok_def usage_ok_def cong: option.case_cong)
next
  case (Op_Observe a c r h b p now)
  assume "context_inv cm" "context_step cm x = Inr cm'"
  with Op_Observe show ?thesis
    using observe_scales [of cm a c r h b p now] observe_usage_ok [of cm a c r h b p now]
    by (auto simp: context_inv_def) (auto simp: observe_usage_def Let_def thresholds_ok_def)
qed (auto simp: restore_replay_state_def invalidate_replay_prefix_def restore_checkpoints_def
    clear_usage_observations_def rewrite_inv [OF maybe_compress_ok] rewrite_inv [OF force_compress_ok],
    (auto simp: context_inv_def thresholds_ok_def scales_ok_def usage_ok_def cong: option.case_cong)+)

interpretation context_run: machine context_step context_inv
  by unfold_locales (rule context_step_inv)

section \<open>When a collapse fails\<close>

lemma key_facts_fail: "(\<exists>e. key_facts ms = Inl e) \<longleftrightarrow> (\<exists>m\<in>set ms. truthy (msg_content m) \<and> \<not> is_text (msg_content m))"
proof (induction ms)
  case Nil
  then show ?case by simp
next
  case (Cons m ms)
  then show ?case
    by (cases "msg_content m"; cases "key_facts ms") (auto simp: is_text_def)
qed

lemma extract_fail: "(\<exists>e. extract_key_info ms = Inl e) \<longleftrightarrow> (\<exists>m\<in>set ms. truthy (msg_content m) \<and> \<not> is_text (msg_content m))"
  unfolding key_facts_fail [symmetric] extract_key_info_def by (cases "key_facts ms") (auto simp: Let_def)

lemma summary_fail:
  "(\<exists>e. snd (get_summary cm env ms k p) = Inl e) \<longleftrightarrow>
   (\<exists>e. env_summary env ms k (cm_history_version cm) p = Inl e \<and>
      (\<not> is_exception e \<or> env_cancelled env \<or> (\<exists>m\<in>set ms. truthy (msg_content m) \<and> \<not> is_text (msg_content m))))"
  unfolding extract_fail [symmetric] get_summary_def by (auto split: sum.split if_splits)

lemma replace_fail:
  "(\<exists>e. snd (replace_old cm env ms i k why) = Inl e) \<longleftrightarrow>
   (\<exists>e. snd (get_summary cm env (take i ms) k (length (group_api_rounds (drop i ms)))) = Inl e)"
proof -
  obtain c r where g: "get_summary cm env (take i ms) k (length (group_api_rounds (drop i ms))) = (c, r)" by force
  show ?thesis
  proof (cases r)
    case (Inr s)
    obtain m where "summary_message s k = Inr m" using summary_message_ok [of s k] by blast
    with g Inr show ?thesis by (simp add: replace_old_def)
  qed (simp add: replace_old_def g)
qed

lemma collapse_result:
  assumes "4 < length ms" and "counted = snd (predict_request_tokens cm env ms)"
    and "start = recent_round_start counted 2"
  shows "(\<exists>e. snd (snd (force_compress cm env hex now ''collapse'' ms)) = Inl e) \<longleftrightarrow>
      (\<exists>e. snd (get_summary cm env (take start counted) ''full_recovery'' (length (group_api_rounds (drop start counted)))) = Inl e)"
    and "(\<exists>e. snd (snd (force_compress cm env hex now ''collapse'' ms)) = Inl e) \<or>
      snd (snd (force_compress cm env hex now ''collapse'' ms)) = Inr True"
proof -
  obtain before where p: "predict_request_tokens cm env ms = (before, counted)" using assms(2) by (metis prod.collapse)
  have len: "\<not> length counted \<le> 4" using assms(1,2) by simp
  define cm1 where "cm1 = emit_compression_started env before counted ''manual'' None cm"
  have version: "cm_history_version cm1 = cm_history_version cm"
    by (simp add: cm1_def emit_compression_started_def publish_context_def)
  obtain cm2 c where h: "hard_collapse cm1 env counted = (cm2, c)" by force
  have "(\<exists>e. c = Inl e) \<longleftrightarrow>
      (\<exists>e. snd (replace_old cm1 env counted start ''full_recovery'' ''hard context compaction'') = Inl e)"
    using h by (simp add: hard_collapse_def assms(3))
  also have "\<dots> \<longleftrightarrow>
      (\<exists>e. snd (get_summary cm env (take start counted) ''full_recovery'' (length (group_api_rounds (drop start counted)))) = Inl e)"
    unfolding replace_fail summary_fail version ..
  finally have c: "(\<exists>e. c = Inl e) \<longleftrightarrow>
      (\<exists>e. snd (get_summary cm env (take start counted) ''full_recovery'' (length (group_api_rounds (drop start counted)))) = Inl e)" .
  have r: "snd (snd (force_compress cm env hex now ''collapse'' ms)) = (case c of Inl e \<Rightarrow> Inl e | Inr _ \<Rightarrow> Inr True)"
    unfolding force_compress_def p Let_def case_prod_conv cm1_def [symmetric] apply_strategy_def
    using len by (simp add: h case_prod_unfold split: sum.split)
  show "(\<exists>e. snd (snd (force_compress cm env hex now ''collapse'' ms)) = Inl e) \<longleftrightarrow>
      (\<exists>e. snd (get_summary cm env (take start counted) ''full_recovery'' (length (group_api_rounds (drop start counted)))) = Inl e)"
    unfolding c [symmetric] r by (cases c) simp_all
  show "(\<exists>e. snd (snd (force_compress cm env hex now ''collapse'' ms)) = Inl e) \<or>
      snd (snd (force_compress cm env hex now ''collapse'' ms)) = Inr True"
    unfolding r by (cases c) simp_all
qed

lemma collapse_commits:
  assumes "4 < length ms" and "\<And>old k v p. \<exists>s. env_summary env old k v p = Inr s"
  shows "snd (snd (force_compress cm env hex now ''collapse'' ms)) = Inr True"
proof -
  have "\<not> (\<exists>e. snd (get_summary cm env old k p) = Inl e)" for old k p
    unfolding summary_fail using assms(2) by (metis sum.simps(4))
  with collapse_result [OF assms(1) refl refl, where cm = cm and env = env and hex = hex and now = now] show ?thesis
    by metis
qed

section \<open>Properties\<close>

definition ex_context_env :: context_env where
  "ex_context_env = \<lparr>env_str = (\<lambda>_. []), env_calls_str = (\<lambda>_. []), env_caption = (\<lambda>_. []), env_encoder = Some (\<lambda>s. Some (length s)),
     env_projection = None, env_compactor = None, env_summary = (\<lambda>ms kind version preserved. Inr ''notes''),
     env_cancelled = False\<rparr>"

definition ex_context_manager :: context_manager where
  "ex_context_manager = new_context_manager default_context_settings"

definition ex_history :: "message list" where
  "ex_history = [ex_user, ex_assistant, ex_tool_message ''c1'', ex_tool_message ''c2'', ex_user, ex_assistant,
     ex_tool_message ''c1'', ex_tool_message ''c2'', ex_user, ex_assistant, ex_tool_message ''c1'', ex_tool_message ''c2'']"

lemma ex_history_length: "4 < length ex_history"
  by (simp add: ex_history_def)

lemma ex_collapse: "snd (snd (force_compress ex_context_manager ex_context_env ''abc'' 0 ''collapse'' ex_history)) = Inr True"
  by (rule collapse_commits [OF ex_history_length]) (simp add: ex_context_env_def)

lemma ex_new_manager: "ex_context_manager = run_ops context_step (new_context_manager default_context_settings) []"
  by (simp add: ex_context_manager_def)

lemma py_int_mono: "x \<le> y \<Longrightarrow> py_int x \<le> py_int y"
  by (auto simp: py_int_def intro: floor_mono) (smt (verit) zero_le_floor)

lemma py_int_of_int [simp]: "py_int (real_of_int n) = n"
  by (simp add: py_int_def)

text \<open>Whatever happens to a context manager, its thresholds stay strictly ordered below the prompt capacity
  (minimum gain, rewrite target, snip wall, semantic wall, emergency), every calibration factor stays between one half and
  three, at most one hundred usage observations are kept, and the version and the epoch are never negative.\<close>

theorem manager_thresholds_ordered:
  "let cm = run_ops context_step (new_context_manager settings) ops
   in 1 \<le> cm_snip_min_gain cm \<and> cm_snip_min_gain cm < cm_rewrite_target cm \<and> cm_rewrite_target cm < cm_snip_wall cm \<and>
      cm_snip_wall cm < cm_semantic_wall cm \<and> cm_semantic_wall cm < cm_emergency_at cm \<and>
      cm_emergency_at cm < request_input_limit (cm_budget cm) \<and>
      1 / 2 \<le> profile_scale cm profile \<and> profile_scale cm profile \<le> 3 \<and>
      length (cm_usage_observations cm) \<le> 100 \<and> 0 \<le> cm_history_version cm \<and> 0 \<le> cm_cache_epoch cm"
proof -
  have "context_inv (run_ops context_step (new_context_manager settings) ops)"
    by (rule context_run.run_inv) (rule new_manager_inv)
  then show ?thesis
    using profile_scale_range by (simp add: context_inv_def thresholds_ok_def usage_ok_def Let_def)
qed

text \<open>C15: Compression, automatic or forced, is all or nothing. A rewrite that reports success has advanced the history
  version and the cache epoch by one, dropped the usage observation, and appended one checkpoint, which names the version it
  replaced, the new epoch and exactly the history the caller now holds; one that reports anything else,
  failures included, leaves the versions, checkpoints, observation and, cached token counts aside, the history as they were.\<close>

theorem rewrite_commits_once_or_not_at_all:
  assumes "res = maybe_compress cm env hex now ms \<or> res = force_compress cm env hex now strategy ms"
    and "res = (cm', ms', r)"
  shows "if r = Inr True
    then cm_history_version cm' = cm_history_version cm + 1 \<and> cm_cache_epoch cm' = cm_cache_epoch cm + 1 \<and>
      cm_latest_usage cm' = None \<and>
      (\<exists>c. cm_checkpoints cm' = cm_checkpoints cm @ [c] \<and> ck_source_history_version c = cm_history_version cm \<and>
         ck_cache_epoch c = cm_cache_epoch cm' \<and> ck_replacement_history c = map stored_message ms')
    else map drop_count ms' = map drop_count ms \<and> cm_history_version cm' = cm_history_version cm \<and>
      cm_cache_epoch cm' = cm_cache_epoch cm \<and> cm_checkpoints cm' = cm_checkpoints cm \<and>
      cm_latest_usage cm' = cm_latest_usage cm"
proof -
  have ok: "rewrite_ok cm ms (cm', ms', r)" using assms maybe_compress_ok force_compress_ok by metis
  show ?thesis
  proof (cases "r = Inr True")
    case True
    with ok obtain c where p: "only_progress (new_epoch c cm) cm'" and c: "ck_source_history_version c = cm_history_version cm"
      "ck_cache_epoch c = cm_cache_epoch cm + 1" "ck_replacement_history c = map stored_message ms'"
      by (auto simp: rewrite_ok_def committed_def)
    from True c show ?thesis
      by (simp add: only_progressD(1-4) [OF p]) (simp add: new_epoch_def)
  next
    case False
    with ok show ?thesis by (simp add: rewrite_ok_def only_progressD(1-4))
  qed
qed

theorem rewrite_commits_once_or_not_at_all_witness:
  "\<exists>c. cm_checkpoints (fst (force_compress ex_context_manager ex_context_env ''abc'' 0 ''collapse'' ex_history)) = [c] \<and>
     ck_replacement_history c = map stored_message (fst (snd (force_compress ex_context_manager ex_context_env ''abc'' 0 ''collapse'' ex_history)))"
proof -
  let ?res = "force_compress ex_context_manager ex_context_env ''abc'' 0 ''collapse'' ex_history"
  have "?res = (fst ?res, fst (snd ?res), Inr True)" by (simp add: prod_eq_iff ex_collapse)
  moreover have "cm_checkpoints ex_context_manager = []"
    by (simp add: ex_context_manager_def new_context_manager_def recompute_thresholds_def Let_def)
  ultimately show ?thesis
    using rewrite_commits_once_or_not_at_all [OF disjI2 [OF refl], of ex_context_manager ex_context_env "''abc''" 0 "''collapse''" ex_history]
    by (metis append_Nil)
qed

text \<open>C16: Compression keeps the provider contract and never edits, reorders or invents what was said: on a
  history whose tool calls are answered in place the rewritten history has the same property, and, cached
  token counts aside, its user turns and assistant messages are a suffix of the old ones. Nothing is assumed of a
  provider's compactor, whose result may be any history: when the automatic rewrite has called one, the
  same is said of the history it returned, so the rest of the rewrite adds no change of its own.\<close>

theorem compression_drops_from_the_front:
  assumes "well_paired ms" and "out = fst (snd (maybe_compress cm env hex now ms))"
    and "forced = fst (snd (force_compress cm env hex now strategy ms))"
  shows "well_paired forced \<and> suffix (speech forced) (speech ms) \<and>
    (well_paired out \<and> suffix (speech out) (speech ms) \<or>
     (\<exists>base. compacted_by_provider cm env ms base \<and> (well_paired base \<longrightarrow> well_paired out) \<and> suffix (speech out) (speech base)))"
  using maybe_shortened [of ms cm env hex now] force_shortened [of ms cm env hex now strategy] assms
  unfolding shortened_def by blast

text \<open>A compactor that replaces the history by one user message, and a manager whose walls are so low that it is asked.\<close>

definition ex_compacting_env :: context_env where
  "ex_compacting_env = ex_context_env\<lparr>env_compactor := Some (\<lambda>ms keep. Some [ex_user])\<rparr>"

definition ex_small_manager :: context_manager where
  "ex_small_manager = ex_context_manager\<lparr>cm_auto_snip := True, cm_snip_wall := 0, cm_snip_min_gain := 0\<rparr>"

lemma ex_compacted: "length (fst (snd (maybe_compress ex_small_manager ex_compacting_env ''abc'' 0 ex_history))) = 1"
  by code_simp

theorem compression_drops_from_the_front_witness:
  "suffix (speech (fst (snd (force_compress ex_context_manager ex_context_env ''abc'' 0 ''collapse'' ex_history)))) (speech ex_history) \<and>
   (let out = fst (snd (maybe_compress ex_small_manager ex_compacting_env ''abc'' 0 ex_history))
    in length out = 1 \<and> (suffix (speech out) (speech ex_history) \<or> suffix (speech out) (speech [ex_user])))"
proof -
  have w: "well_paired ex_history" by code_simp
  have "base = [ex_user]" if "compacted_by_provider ex_small_manager ex_compacting_env ex_history base" for base
    using that by (simp add: compacted_by_provider_def ex_compacting_env_def)
  then show ?thesis
    using compression_drops_from_the_front [OF w refl refl, of ex_small_manager ex_compacting_env "''abc''" 0 "''collapse''"]
      compression_drops_from_the_front [OF w refl refl, of ex_context_manager ex_context_env "''abc''" 0 "''collapse''"] ex_compacted
    by (auto simp: Let_def)
qed

text \<open>A forced summary keeps the configured number of newest user turns, word for word.\<close>

theorem forced_summary_keeps_recent_turns:
  assumes "0 < cm_summarize_keep_recent_turns cm"
  shows "newest_items (nat (cm_summarize_keep_recent_turns cm))
      (user_turns (fst (snd (force_compress cm env hex now ''summarize'' ms)))) =
    newest_items (nat (cm_summarize_keep_recent_turns cm)) (user_turns ms)"
proof -
  obtain before old where p: "predict_request_tokens cm env ms = (before, old)" by force
  have old: "user_turns old = user_turns ms"
    using predict_content [of cm env ms] p by (simp add: user_turns_def)
  define cm1 where "cm1 = emit_compression_started env before old ''manual'' None cm"
  have keep: "cm_summarize_keep_recent_turns cm1 = cm_summarize_keep_recent_turns cm"
    by (simp add: cm1_def emit_compression_started_def publish_context_def)
  obtain cm2 r where a: "apply_strategy cm1 env ''summarize'' old = (cm2, r)" by force
  have turns: "newest_items (nat (cm_summarize_keep_recent_turns cm)) (user_turns x) =
      newest_items (nat (cm_summarize_keep_recent_turns cm)) (user_turns ms)" if "r = Inr (Some x)" for x
    using summarized_turns [of cm1 env old _ _ cm2 x] a that assms
    by (simp add: apply_strategy_def keep turns_kept_def old)
  have "user_turns (snd (predict_request_tokens cm2 env x)) = user_turns x" for x
    by (simp add: user_turns_def)
  with turns old show ?thesis
    by (simp add: force_compress_def p cm1_def [symmetric] a Let_def case_prod_unfold split: sum.split option.split)
qed

theorem forced_summary_keeps_recent_turns_witness:
  "newest_items 5 (user_turns (fst (snd (force_compress ex_context_manager ex_context_env ''abc'' 0 ''summarize'' ex_history)))) =
   newest_items 5 (user_turns ex_history)"
proof -
  have "cm_summarize_keep_recent_turns ex_context_manager = 5"
    by (simp add: ex_context_manager_def new_context_manager_def recompute_thresholds_def Let_def default_context_settings_def)
  then show ?thesis using forced_summary_keeps_recent_turns [of ex_context_manager ex_context_env "''abc''" 0 ex_history] by simp
qed

text \<open>C22: Predictions follow the provider: once an exchange has been observed, the history it was measured
  on is predicted at exactly the observed size, and a history that has grown by some locally estimated tokens between
  half of that growth and three times that growth above it.\<close>

theorem prediction_follows_usage:
  assumes "cm = run_ops context_step (new_context_manager settings) ops" and "0 < actual"
    and "h = fst (get_context_tokens cm env ms)" and "0 \<le> h"
    and "g = fst (get_context_tokens cm env ms') - h" and "0 \<le> g"
    and "cm' = fst (observe_usage cm actual cached estimate h boundary profile now)"
  shows "fst (predict_request_tokens cm' env ms) = actual \<and>
    actual + g div 2 \<le> fst (predict_request_tokens cm' env ms') \<and>
    fst (predict_request_tokens cm' env ms') \<le> actual + 3 * g"
proof -
  have inv: "context_inv cm'" and v: "0 \<le> cm_history_version cm"
    using context_run.run_inv [OF new_manager_inv, of settings ops] context_step_inv [of cm "Op_Observe actual cached estimate h boundary profile now" cm']
    by (auto simp: assms context_inv_def)
  define x where "x = profile_scale cm' profile"
  have x: "1 / 2 \<le> x" "x \<le> 3" using inv profile_scale_range by (auto simp: context_inv_def x_def)
  have latest: "cm_latest_usage cm' = Some (create_observation actual cached estimate h (cm_history_version cm) boundary profile now)"
    "cm_history_version cm' = cm_history_version cm" "cm_token_fudge_factor cm' = cm_token_fudge_factor cm"
    using assms(2,7) by (simp_all add: observe_usage_def Let_def)
  have tokens: "get_context_tokens cm' env = get_context_tokens cm env"
    by (rule ext) (simp only: get_context_tokens_def latest(3))
  have pred: "fst (predict_request_tokens cm' env us) =
      max 1 (py_int (real_of_int actual + real_of_int (fst (get_context_tokens cm env us) - h) * x))" for us
    using v assms(2,4) by (simp add: predict_request_tokens_def tokens latest case_prod_unfold Let_def create_observation_def x_def)
  have same: "fst (predict_request_tokens cm' env ms) = actual"
    using assms(2) unfolding pred assms(3) [symmetric] by simp
  have "real_of_int (actual + g div 2) \<le> real_of_int actual + real_of_int g * x"
  proof -
    have "real_of_int (g div 2) \<le> real_of_int g * (1 / 2)" by linarith
    also have "\<dots> \<le> real_of_int g * x" using x(1) assms(6) by (intro mult_left_mono) simp_all
    finally show ?thesis by simp
  qed
  from py_int_mono [OF this] have low: "actual + g div 2 \<le> py_int (real_of_int actual + real_of_int g * x)"
    by (simp only: py_int_of_int)
  have "real_of_int actual + real_of_int g * x \<le> real_of_int (actual + 3 * g)"
    using mult_left_mono [OF x(2), of "real_of_int g"] assms(6) by simp
  from py_int_mono [OF this] have high: "py_int (real_of_int actual + real_of_int g * x) \<le> actual + 3 * g"
    by (simp only: py_int_of_int)
  show ?thesis
    using same low high assms(2,6) unfolding pred [of ms'] assms(5) [symmetric] by auto
qed

theorem prediction_follows_usage_witness:
  "fst (predict_request_tokens (fst (observe_usage ex_context_manager 900 None 500
     (fst (get_context_tokens ex_context_manager ex_context_env ex_history)) ''turn'' ''gpt'' 0)) ex_context_env ex_history) = 900"
proof -
  have "0 \<le> fst (get_context_tokens ex_context_manager ex_context_env ex_history)" by code_simp
  then show ?thesis
    using prediction_follows_usage [OF ex_new_manager _ refl _ refl _ refl, of 900 ex_context_env ex_history ex_history] by simp
qed

text \<open>C23: A forced collapse of a history of more than four messages fails exactly when the summary generator raises and
  either the exception is not an ordinary one, or the request was cancelled, or an old message has content
  that is not text, on which the fallback extraction raises; in every other case it commits.\<close>

theorem forced_collapse_fails_iff:
  assumes "4 < length ms" and "counted = snd (predict_request_tokens cm env ms)"
    and "start = recent_round_start counted 2"
    and "failed \<longleftrightarrow> (\<exists>e. env_summary env (take start counted) ''full_recovery'' (cm_history_version cm)
        (length (group_api_rounds (drop start counted))) = Inl e \<and>
      (\<not> is_exception e \<or> env_cancelled env \<or>
       (\<exists>m\<in>set (take start counted). truthy (msg_content m) \<and> \<not> is_text (msg_content m))))"
    and "r = snd (snd (force_compress cm env hex now ''collapse'' ms))"
  shows "(failed \<longrightarrow> (\<exists>e. r = Inl e)) \<and> (\<not> failed \<longrightarrow> r = Inr True)"
  using collapse_result [OF assms(1-3), of hex now] unfolding assms(4,5) summary_fail by metis

theorem forced_collapse_fails_iff_witness:
  "snd (snd (force_compress ex_context_manager ex_context_env ''abc'' 0 ''collapse'' ex_history)) = Inr True"
  using forced_collapse_fails_iff [OF ex_history_length refl refl refl refl, where cm = ex_context_manager and env = ex_context_env
      and hex = "''abc''" and now = 0]
  by (simp add: ex_context_env_def)

end
