(* ===== verification/Context_Summary.thy ===== *)
theory Context_Summary
  imports Context_Manager
begin

text \<open>
  The checkpoint summary (\<^verbatim>\<open>domain/context/summary.py\<close>): the deterministic document built from
  old messages and history events, the schema every document must meet, the merge with what a model
  proposed, the bounded projection of the conversation the model is shown, and the generation that
  combines them. Provenance of the messages (the replay index), \<^verbatim>\<open>json.dumps\<close> and \<^verbatim>\<open>json.loads\<close>, the model
  and the ellipsis character, which has no code below 256, are arguments; text is below code
  point 256, so of the keyword lists the Chinese entries never match. The lemmas show that the deterministic
  document always meets the schema, that a merge keeps it and every deterministic fact, and
  that the projection keeps complete recent rounds.
\<close>

section \<open>Scanning old messages\<close>

definition is_segment_char :: "char \<Rightarrow> bool" where
  "is_segment_char c \<longleftrightarrow> is_word_char c \<or> c = CHR ''.'' \<or> c = CHR ''-''"

text \<open>The match of \<^verbatim>\<open>(?:[\w.-]+/)+[\w.-]+|[\w.-]+\.\w{1,8}\<close> at the start of a text.\<close>

definition file_match :: "string \<Rightarrow> string option" where
  "file_match s =
     (let run = takeWhile (\<lambda>c. is_segment_char c \<or> c = CHR ''/'') s;
          segments = takeWhile (\<lambda>x. x \<noteq> []) (split_on (CHR ''/'') run);
          name = takeWhile is_segment_char s
      in if 2 \<le> length segments then Some (join ''/'' segments)
         else case last_dot 0 name of
                None \<Rightarrow> None
              | Some j \<Rightarrow> Some (take (Suc j) name @ take 8 (takeWhile is_word_char (drop (Suc j) name))))"

function find_files :: "string \<Rightarrow> string list" where
  "find_files [] = []"
| "find_files (c # s) =
     (case file_match (c # s) of
        None \<Rightarrow> find_files s
      | Some p \<Rightarrow> p # find_files (drop (max 1 (length p)) (c # s)))"
  by pat_completeness auto
termination
  by (relation "measure length") auto

text \<open>The match of \<^verbatim>\<open>(?:artifact|transcript)[_ ]ref[=:]\s*([^\s,}\]]+)\<close>, case aside: its group and its length.\<close>

definition artifact_match :: "string \<Rightarrow> (string \<times> nat) option" where
  "artifact_match s =
     (let low = lowercase s;
          n = (if starts_with low ''artifact'' then 8 else if starts_with low ''transcript'' then 10 else 0);
          after = drop n low
      in if n = 0 \<or> \<not> (starts_with after ''_ref'' \<or> starts_with after '' ref'') \<or>
            \<not> (take 1 (drop 4 after) = ''='' \<or> take 1 (drop 4 after) = '':'')
         then None
         else
           let rest = drop (n + 5) s;
               blank = takeWhile is_space rest;
               value = takeWhile (\<lambda>c. \<not> is_space c \<and> c \<noteq> CHR '','' \<and> c \<noteq> CHR ''}'' \<and> c \<noteq> CHR '']'') (drop (length blank) rest)
           in if value = [] then None else Some (value, n + 5 + length blank + length value))"

function find_artifacts :: "string \<Rightarrow> string list" where
  "find_artifacts [] = []"
| "find_artifacts (c # s) =
     (case artifact_match (c # s) of
        None \<Rightarrow> find_artifacts s
      | Some (v, n) \<Rightarrow> v # find_artifacts (drop (max 1 n) (c # s)))"
  by pat_completeness auto
termination
  by (relation "measure length") auto

text \<open>\<^verbatim>\<open>" ".join(content.split())\<close>.\<close>

fun collapse_spaces :: "string \<Rightarrow> string \<Rightarrow> string list" where
  "collapse_spaces cur [] = (if cur = [] then [] else [cur])"
| "collapse_spaces cur (c # s) =
     (if is_space c then (if cur = [] then collapse_spaces [] s else cur # collapse_spaces [] s)
      else collapse_spaces (cur @ [c]) s)"

definition single_spaced :: "string \<Rightarrow> string" where
  "single_spaced s = join '' '' (collapse_spaces [] s)"

record summary_facts =
  sf_users :: "(string \<times> string) list"
  sf_tool_facts :: "string list"
  sf_files :: "string list"
  sf_errors :: "string list"
  sf_decisions :: "string list"
  sf_artifacts :: "string list"
  sf_active_subagents :: "string list"
  sf_pending_approvals :: "string list"

definition no_facts :: summary_facts where
  "no_facts = \<lparr>sf_users = [], sf_tool_facts = [], sf_files = [], sf_errors = [], sf_decisions = [], sf_artifacts = [],
     sf_active_subagents = [], sf_pending_approvals = []\<rparr>"

definition first_line :: "string \<Rightarrow> string" where
  "first_line s = (case str_lines s of [] \<Rightarrow> [] | l # _ \<Rightarrow> l)"

definition first_visible_line :: "string \<Rightarrow> string" where
  "first_visible_line s = (case filter (\<lambda>l. l \<noteq> []) (map strip (str_lines s)) of [] \<Rightarrow> [] | l # _ \<Rightarrow> l)"

text \<open>One message of the scan: \<open>sources\<close> are the identifiers of the events it came from.\<close>

definition scan_message :: "context_env \<Rightarrow> nat \<Rightarrow> string list \<Rightarrow> message \<Rightarrow> summary_facts \<Rightarrow> summary_facts" where
  "scan_message env i sources m f =
     (let content = strip (text_projection env (msg_content m)); low = lowercase content
      in if content = [] then f
         else
           f\<lparr>sf_users := sf_users f @
               (if has_role ''user'' m \<and> \<not> starts_with content ''[SESSION_'' \<and> \<not> is_synthetic_context_message m
                then [(case sources of [] \<Rightarrow> ''message:'' @ nat_str i | e # _ \<Rightarrow> e, take 500 (single_spaced content))] else []),
             sf_files := sf_files f @ find_files content,
             sf_artifacts := sf_artifacts f @ find_artifacts content,
             sf_tool_facts := sf_tool_facts f @
               (if is_tool m \<and> first_visible_line content \<noteq> []
                then [(if or_empty (msg_tool_call_id m) = [] then ''tool'' else or_empty (msg_tool_call_id m)) @ '': ''
                      @ take 240 (first_visible_line content)] else []),
             sf_errors := sf_errors f @ map (\<lambda>l. take 240 (strip l))
               (filter (\<lambda>l. contains_text ''error'' (lowercase l) \<or> contains_text ''failed'' (lowercase l)) (str_lines content)),
             sf_decisions := sf_decisions f @ map (\<lambda>l. take 240 (strip l))
               (filter (\<lambda>l. starts_with (lowercase l) ''decision:'' \<or> contains_text '' decided '' (lowercase l)) (str_lines content)),
             sf_active_subagents := sf_active_subagents f @
               (if contains_text ''[Sub-agent'' content then [take 160 (first_line content)] else []),
             sf_pending_approvals := sf_pending_approvals f @
               (if contains_text ''approval'' low \<and> contains_text ''pending'' low
                then [take 160 (first_line content)] else [])\<rparr>)"

fun scan_messages :: "context_env \<Rightarrow> nat \<Rightarrow> string list list \<Rightarrow> message list \<Rightarrow> summary_facts \<Rightarrow> summary_facts" where
  "scan_messages env i provenance [] f = f"
| "scan_messages env i provenance (m # ms) f =
     scan_messages env (Suc i) provenance ms
       (scan_message env i (if i < length provenance then provenance ! i else []) m f)"

section \<open>Facts from history events\<close>

text \<open>An event by its session, kind and payload.\<close>

type_synonym history_fact = "string \<times> string \<times> json"

record event_facts =
  ef_latest_jobs :: "(string, json) dict"
  ef_pending_review_ids :: "(string, string) dict"
  ef_source_checkpoint_ids :: "string list"

definition payload_text :: "context_env \<Rightarrow> json \<Rightarrow> string \<Rightarrow> string \<Rightarrow> string" where
  "payload_text env payload k d = (if truthy (jget payload k) then str_of env (jget payload k) else d)"

definition scan_history_event :: "context_env \<Rightarrow> event_facts \<Rightarrow> history_fact \<Rightarrow> event_facts" where
  "scan_history_event env f e =
     (let (session, kind, payload) = e
      in if kind = ''subagent_job_changed'' then
           (let job = payload_text env payload ''job_id'' []
            in if job = [] then f else f\<lparr>ef_latest_jobs := dict_set job payload (ef_latest_jobs f)\<rparr>)
         else if kind = ''approval_requested'' then
           (let request = payload_text env payload ''request_id'' []
            in if request = [] then f
               else f\<lparr>ef_pending_review_ids :=
                 dict_set request (payload_text env payload ''tool_name'' ''tool'') (ef_pending_review_ids f)\<rparr>)
         else if kind = ''approval_resolved'' then
           f\<lparr>ef_pending_review_ids := dict_pop (payload_text env payload ''request_id'' []) (ef_pending_review_ids f)\<rparr>
         else if kind = ''context_checkpoint'' then
           (let checkpoint = payload_text env payload ''checkpoint_id'' []
            in if checkpoint = [] then f
               else f\<lparr>ef_source_checkpoint_ids := ef_source_checkpoint_ids f @ [checkpoint]\<rparr>)
         else f)"

definition finished_job_states :: "string list" where
  "finished_job_states = [''completed'', ''failed'', ''cancelled'', ''killed'', ''timed_out'', ''stale'']"

definition job_line :: "context_env \<Rightarrow> string \<times> json \<Rightarrow> string list" where
  "job_line env j =
     (let (job, payload) = j; status = payload_text env payload ''status'' ''unknown''
      in if status \<in> set finished_job_states then []
         else [job @ '': '' @ status @ '' '' @ [CHR 0xB7] @ '' '' @ take 120 (payload_text env payload ''task'' [])])"

definition worktree_line :: "context_env \<Rightarrow> string \<times> json \<Rightarrow> string list" where
  "worktree_line env j =
     (let (job, payload) = j
      in if truthy (jget payload ''worktree_path'') then [job @ '': '' @ str_of env (jget payload ''worktree_path'')] else [])"

definition mentions :: "string list \<Rightarrow> string \<Rightarrow> bool" where
  "mentions tokens s = list_ex (\<lambda>t. contains_text t (lowercase s)) tokens"

definition json_strs :: "string list \<Rightarrow> json" where
  "json_strs ss = JList (map JStr ss)"

definition request_json :: "string \<times> string \<Rightarrow> json" where
  "request_json u = JObj [(''event_ref'', JStr (fst u)), (''text'', JStr (snd u))]"

definition error_json :: "string \<Rightarrow> json" where
  "error_json e = JObj [(''error'', JStr e), (''cause'', JStr ''unknown''), (''fix_or_status'', JStr ''unverified''),
     (''user_feedback'', JStr [])]"

definition decision_json :: "string \<Rightarrow> json" where
  "decision_json d = JObj [(''decision'', JStr d), (''rationale'', JStr ''unverified''), (''alternatives_rejected'', JList [])]"

definition count_user_rounds :: "message list \<Rightarrow> nat" where
  "count_user_rounds messages = length (filter is_user_turn messages)"

record summary_request =
  sq_checkpoint_kind :: string
  sq_history_version :: int
  sq_recent_rounds_preserved :: int
  sq_provenance :: "string list list"
  sq_events :: "history_fact list"

definition transcript_ref :: "(json \<Rightarrow> string) \<Rightarrow> history_fact list \<Rightarrow> string" where
  "transcript_ref dumps events =
     (case filter (\<lambda>e. fst e \<noteq> []) (rev events) of
        [] \<Rightarrow> ''history_read()''
      | e # _ \<Rightarrow> ''history_read(session_id='' @ dumps (JStr (fst e)) @ '')'')"

definition build_summary_document ::
    "context_env \<Rightarrow> (json \<Rightarrow> string) \<Rightarrow> summary_request \<Rightarrow> message list \<Rightarrow> json" where
  "build_summary_document env dumps q messages =
     (let f = scan_messages env 0 (sq_provenance q) messages no_facts;
          e = foldl (scan_history_event env) \<lparr>ef_latest_jobs = [], ef_pending_review_ids = [], ef_source_checkpoint_ids = []\<rparr> (sq_events q);
          source_event_ids = rev (remdups (rev (concat (sq_provenance q))));
          active = sf_active_subagents f @ concat (map (job_line env) (ef_latest_jobs e));
          worktrees = sort (remdups (concat (map (worktree_line env) (ef_latest_jobs e))));
          pending = sf_pending_approvals f @ map (\<lambda>(request, tool). request @ '': '' @ tool) (ef_pending_review_ids e);
          texts = map snd (sf_users f);
          goal = (if texts = [] then ''unknown'' else last texts)
      in JObj
        [(''scope'', JObj
           [(''summarized_history_version'', JInt (max 0 (sq_history_version q))),
            (''summarized_rounds'', JInt (int (count_user_rounds messages))),
            (''recent_rounds_preserved'', JInt (max 0 (sq_recent_rounds_preserved q))),
            (''checkpoint_kind'', JStr (sq_checkpoint_kind q))]),
         (''user_intent'', JObj
           [(''current_goal'', JStr goal),
            (''explicit_requests'', JList (map request_json (newest_items 12 (sf_users f)))),
            (''constraints_and_preferences'', json_strs (newest_items 12
               (filter (mentions [''must'', ''do not'', ''don'' @ [CHR 0x27] @ ''t'']) texts))),
            (''authorization_boundaries'', json_strs (newest_items 8
               (filter (mentions [''allow'', ''approve'', ''permission'']) texts)))]),
         (''decisions'', JList (map decision_json (newest_items 12 (sf_decisions f)))),
         (''progress'', JObj
           [(''completed'', JList []), (''current_work'', JStr goal),
            (''verified_by'', json_strs (newest_items 12 (sf_tool_facts f)))]),
         (''code_state'', JObj
           [(''files_read'', json_strs (take 100 (sort (remdups (sf_files f))))), (''files_changed'', JList []),
            (''important_symbols'', JList []), (''worktrees_and_commits'', json_strs (take 50 worktrees))]),
         (''errors_and_learning'', JList (map error_json (newest_items 12 (sf_errors f)))),
         (''agent_state'', JObj
           [(''active_subagents'', json_strs (newest_items 12 active)),
            (''pending_approvals'', json_strs (newest_items 12 pending)),
            (''execution_target'', JStr ''unknown''),
            (''relevant_artifacts'', json_strs (take 50 (sort (remdups (sf_artifacts f)))))]),
         (''pending'', JObj
           [(''tasks'', if goal \<noteq> ''unknown'' then json_strs [goal] else JList []), (''blockers'', JList []),
            (''next_action'', JStr ''continue current work'')]),
         (''provenance'', JObj
           [(''transcript_ref'', JStr (transcript_ref dumps (sq_events q))),
            (''source_checkpoint_ids'', json_strs (newest_items 20 (ef_source_checkpoint_ids e))),
            (''source_event_ids'', json_strs (newest_items 64 source_event_ids))])])"

section \<open>The schema\<close>

definition top_level :: "string list" where
  "top_level = [''scope'', ''user_intent'', ''decisions'', ''progress'', ''code_state'', ''errors_and_learning'',
     ''agent_state'', ''pending'', ''provenance'']"

definition nested_fields :: "(string \<times> string list) list" where
  "nested_fields =
     [(''scope'', [''summarized_history_version'', ''summarized_rounds'', ''recent_rounds_preserved'', ''checkpoint_kind'']),
      (''user_intent'', [''current_goal'', ''explicit_requests'', ''constraints_and_preferences'', ''authorization_boundaries'']),
      (''progress'', [''completed'', ''current_work'', ''verified_by'']),
      (''code_state'', [''files_read'', ''files_changed'', ''important_symbols'', ''worktrees_and_commits'']),
      (''agent_state'', [''active_subagents'', ''pending_approvals'', ''execution_target'', ''relevant_artifacts'']),
      (''pending'', [''tasks'', ''blockers'', ''next_action'']),
      (''provenance'', [''transcript_ref'', ''source_checkpoint_ids''])]"

text \<open>The lists inside the sections, as the constant \<^verbatim>\<open>list_fields\<close> of the validation has them; the two lists of the top
  level, decisions and errors, are checked with the keys.\<close>

definition list_fields :: "(string \<times> string) list" where
  "list_fields =
     [(''user_intent'', ''explicit_requests''), (''user_intent'', ''constraints_and_preferences''),
      (''user_intent'', ''authorization_boundaries''), (''progress'', ''completed''), (''progress'', ''verified_by''),
      (''code_state'', ''files_read''), (''code_state'', ''files_changed''), (''code_state'', ''important_symbols''),
      (''code_state'', ''worktrees_and_commits''), (''agent_state'', ''active_subagents''),
      (''agent_state'', ''pending_approvals''), (''agent_state'', ''relevant_artifacts''), (''pending'', ''tasks''),
      (''pending'', ''blockers''), (''provenance'', ''source_checkpoint_ids'')]"

definition string_fields :: "(string \<times> string) list" where
  "string_fields =
     [(''user_intent'', ''current_goal''), (''progress'', ''current_work''), (''agent_state'', ''execution_target''),
      (''pending'', ''next_action''), (''provenance'', ''transcript_ref'')]"

definition count_fields :: "string list" where
  "count_fields = [''summarized_history_version'', ''summarized_rounds'', ''recent_rounds_preserved'']"

definition checkpoint_kinds :: "string list" where
  "checkpoint_kinds = [''partial_prefix'', ''phase_checkpoint'', ''full_recovery'']"

definition field_names :: "json \<Rightarrow> string list" where
  "field_names v = (case v of JObj fs \<Rightarrow> map fst fs | _ \<Rightarrow> [])"

definition is_count :: "json \<Rightarrow> bool" where
  "is_count v = (case v of JInt _ \<Rightarrow> True | _ \<Rightarrow> False)"

definition sub :: "json \<Rightarrow> string \<times> string \<Rightarrow> json" where
  "sub v f = jget (jget v (fst f)) (snd f)"

text \<open>The checks of \<^verbatim>\<open>validate_summary_document\<close> but the one on the size, in three groups: the objects and
  their keys, the scope, and the types of the fields.\<close>

definition schema_keys :: "json \<Rightarrow> bool" where
  "schema_keys v \<longleftrightarrow>
     is_object v \<and> set (field_names v) = set top_level \<and>
     list_all (\<lambda>(k, fields). is_object (jget v k)) nested_fields \<and>
     is_list (jget v ''decisions'') \<and> is_list (jget v ''errors_and_learning'') \<and>
     list_all (\<lambda>(k, fields). set (field_names (jget v k)) - (if k = ''provenance'' then {''source_event_ids''} else {}) = set fields)
       nested_fields \<and>
     (has_key (jget v ''provenance'') ''source_event_ids'' \<longrightarrow> is_list (sub v (''provenance'', ''source_event_ids'')))"

definition schema_scope :: "json \<Rightarrow> bool" where
  "schema_scope v \<longleftrightarrow>
     list_all (\<lambda>k. is_count (sub v (''scope'', k))) count_fields \<and>
     sub v (''scope'', ''checkpoint_kind'') \<in> set (map JStr checkpoint_kinds)"

definition schema_types :: "json \<Rightarrow> bool" where
  "schema_types v \<longleftrightarrow> list_all (\<lambda>f. is_list (sub v f)) list_fields \<and> list_all (\<lambda>f. is_text (sub v f)) string_fields"

definition unhashable :: "json \<Rightarrow> bool" where
  "unhashable v = (case v of JList _ \<Rightarrow> True | JObj _ \<Rightarrow> True | _ \<Rightarrow> False)"

text \<open>Looking an unhashable checkpoint kind up in the set of kinds raises.\<close>

definition validate_summary_document :: "(json \<Rightarrow> string) \<Rightarrow> json \<Rightarrow> (py_exn, bool) result" where
  "validate_summary_document dumps v =
     (if \<not> is_object v \<or> set (field_names v) \<noteq> set top_level then Inr False
      else if 20000 < length (dumps v) then Inr False
      else if \<not> schema_keys v then Inr False
      else if list_all (\<lambda>k. is_count (sub v (''scope'', k))) count_fields \<and> unhashable (sub v (''scope'', ''checkpoint_kind''))
      then Inl (Py_Exception ''unhashable type'')
      else Inr (schema_scope v \<and> schema_types v))"

section \<open>Merging\<close>

fun add_new :: "(json \<Rightarrow> string) \<Rightarrow> json list \<Rightarrow> string list \<Rightarrow> json list \<Rightarrow> json list" where
  "add_new marker result seen [] = result"
| "add_new marker result seen (x # xs) =
     (if marker x \<in> set seen then add_new marker result seen xs
      else add_new marker (result @ [x]) (marker x # seen) xs)"

definition merge_lists :: "(json \<Rightarrow> string) \<Rightarrow> json list \<Rightarrow> json list \<Rightarrow> json list" where
  "merge_lists marker left right = take 100 (add_new marker left (map marker left) right)"

definition unknown_value :: "json \<Rightarrow> bool" where
  "unknown_value v \<longleftrightarrow> v = JStr [] \<or> v = JStr ''unknown'' \<or> v = JNull"

definition merge_scalar :: "json \<Rightarrow> json \<Rightarrow> json" where
  "merge_scalar left right = (if unknown_value left \<and> right \<noteq> JStr [] \<and> right \<noteq> JNull then right else left)"

fun merge_json :: "(json \<Rightarrow> string) \<Rightarrow> json \<Rightarrow> json \<Rightarrow> json" where
  "merge_json marker (JObj fs) right =
     (if is_object right then JObj (map (\<lambda>(k, v). (k, merge_json marker v (jget right k))) fs) else JObj fs)"
| "merge_json marker (JList xs) right =
     (if is_list right then JList (merge_lists marker xs (list_items right)) else JList xs)"
| "merge_json marker left right = merge_scalar left right"

definition set_field :: "json \<Rightarrow> string \<Rightarrow> json \<Rightarrow> json" where
  "set_field v k x = (case v of JObj fs \<Rightarrow> JObj (dict_set k x fs) | _ \<Rightarrow> v)"

definition merge_summary_documents ::
    "(json \<Rightarrow> string) \<Rightarrow> (json \<Rightarrow> string) \<Rightarrow> json \<Rightarrow> json option \<Rightarrow> (py_exn, json) result" where
  "merge_summary_documents dumps marker base enrichment =
     (case enrichment of
        None \<Rightarrow> Inr base
      | Some e \<Rightarrow> bind_result (validate_summary_document dumps e) (\<lambda>ok.
          if \<not> ok then Inr base
          else
            let result = set_field (merge_json marker base e) ''provenance'' (jget base ''provenance'')
            in Inr (set_field result ''user_intent''
                 (set_field (jget result ''user_intent'') ''explicit_requests'' (sub base (''user_intent'', ''explicit_requests''))))))"

section \<open>The projection shown to the model\<close>

definition first_truthy :: "context_env \<Rightarrow> json \<Rightarrow> string list \<Rightarrow> string \<Rightarrow> string" where
  "first_truthy env v ks d =
     (case filter (\<lambda>k. truthy (jget v k)) ks of [] \<Rightarrow> d | k # _ \<Rightarrow> str_of env (jget v k))"

definition binary_part_types :: "string list" where
  "binary_part_types = [''image'', ''image_url'', ''document'', ''input_image'']"

definition project_content_part :: "context_env \<Rightarrow> json \<Rightarrow> string" where
  "project_content_part env p =
     (if is_object p
      then if jget p ''type'' \<in> set (map JStr binary_part_types)
           then ''['' @ str_of env (jget p ''type'') @ '' source='' @ first_truthy env p [''attachment_id'', ''name'', ''id''] ''embedded''
             @ ''; image bytes not viewed by summarizer]''
           else first_truthy env p [''text'', ''content''] []
      else str_of env p)"

definition project_content :: "context_env \<Rightarrow> json \<Rightarrow> string" where
  "project_content env c =
     (case c of
        JList ps \<Rightarrow> join [CHR 0x0A] (filter (\<lambda>s. s \<noteq> []) (map (project_content_part env) ps))
      | _ \<Rightarrow> if truthy c then str_of env c else [])"

text \<open>\<open>dots\<close> is the ellipsis character.\<close>

definition shorten_tool_content :: "string \<Rightarrow> string \<Rightarrow> string" where
  "shorten_tool_content dots s =
     (if 1200 < length s
      then let lines = str_lines s
           in join [CHR 0x0A] (take 4 lines @ [dots @ '' [artifact-backed output omitted] '' @ dots] @ newest_items 4 lines)
      else s)"

definition project_call :: "context_env \<Rightarrow> json \<Rightarrow> json" where
  "project_call env c =
     (let fn = (if truthy (jget c ''function'') then jget c ''function'' else JObj [])
      in set_field c ''function''
           (if jget fn ''arguments'' = JNull then fn
            else set_field fn ''arguments'' (JStr (take 1200 (str_of env (jget fn ''arguments''))))))"

definition project_summary_message :: "context_env \<Rightarrow> string \<Rightarrow> message \<Rightarrow> (string \<times> json) list" where
  "project_summary_message env dots m =
     (let content = project_content env (msg_content m);
          content = (if is_tool m then shorten_tool_content dots content else content)
      in [(''role'', JStr (case msg_role m of None \<Rightarrow> ''unknown'' | Some r \<Rightarrow> r)), (''content'', JStr (take 2400 content))] @
         (if or_empty (msg_tool_call_id m) = [] then [] else [(''tool_call_id'', JStr (or_empty (msg_tool_call_id m)))]) @
         (if msg_tool_calls m = [] then []
          else [(''tool_calls'', JList (map (\<lambda>c. project_call env (call_json c)) (msg_tool_calls m)))]))"

definition loss_marker :: "nat \<Rightarrow> (string \<times> json) list" where
  "loss_marker n =
     [(''role'', JStr ''user''),
      (''content'', JStr (''<context_summary source='' @ [CHR 0x22] @ ''summary_projection'' @ [CHR 0x22] @ '' kind='' @
         [CHR 0x22] @ ''loss_marker'' @ [CHR 0x22] @ ''>'' @ nat_str n @ '' older complete API rounds omitted</context_summary>''))]"

definition render_rounds :: "context_env \<Rightarrow> string \<Rightarrow> nat \<Rightarrow> message list list \<Rightarrow> (string \<times> json) list list" where
  "render_rounds env dots omitted selected =
     (if omitted = 0 then [] else [loss_marker omitted]) @ map (project_summary_message env dots) (concat selected)"

fun fit_rounds :: "((string \<times> json) list list \<Rightarrow> nat) \<Rightarrow> context_env \<Rightarrow> string \<Rightarrow> nat \<Rightarrow> nat \<Rightarrow> message list list \<Rightarrow> nat \<times> message list list" where
  "fit_rounds len env dots max_chars omitted [] = (omitted, [])"
| "fit_rounds len env dots max_chars omitted (r # rs) =
     (if max_chars < len (render_rounds env dots omitted (r # rs)) \<and> rs \<noteq> []
      then fit_rounds len env dots max_chars (omitted + 1) rs else (omitted, r # rs))"

definition omit_arguments :: "json \<Rightarrow> json" where
  "omit_arguments c =
     (if truthy (jget c ''function'') \<and> truthy (jget (jget c ''function'') ''arguments'')
      then set_field c ''function'' (set_field (jget c ''function'') ''arguments'' (JStr ''[arguments omitted; call ID preserved]''))
      else c)"

definition compact_item :: "context_env \<Rightarrow> string \<Rightarrow> (string \<times> json) list \<Rightarrow> (string \<times> json) list" where
  "compact_item env dots item =
     (let content = (case dict_get item ''content'' of None \<Rightarrow> [] | Some v \<Rightarrow> if truthy v then str_of env v else []);
          item = (if 500 < length content
            then dict_set ''content'' (JStr (take 220 content @ [CHR 0x0A] @ dots @ '' [summary projection payload omitted] '' @ dots
              @ [CHR 0x0A] @ newest_items 220 content)) item else item)
      in case dict_get item ''tool_calls'' of
           Some (JList calls) \<Rightarrow> dict_set ''tool_calls'' (JList (map omit_arguments calls)) item
         | _ \<Rightarrow> item)"

definition project_summary_input ::
    "((string \<times> json) list list \<Rightarrow> nat) \<Rightarrow> context_env \<Rightarrow> string \<Rightarrow> nat \<Rightarrow> nat \<Rightarrow> message list \<Rightarrow> (string \<times> json) list list" where
  "project_summary_input len env dots max_rounds max_chars messages =
     (let rounds = group_api_rounds messages;
          omitted = length rounds - max_rounds;
          (omitted, selected) = fit_rounds len env dots max_chars omitted (drop omitted rounds);
          projected = render_rounds env dots omitted selected
      in if max_chars < len projected then map (compact_item env dots) projected else projected)"

section \<open>Generation\<close>

definition parse_summary :: "(json \<Rightarrow> string) \<Rightarrow> (string \<Rightarrow> json option) \<Rightarrow> string \<Rightarrow> (py_exn, json option) result" where
  "parse_summary dumps loads text =
     (case loads (strip text) of
        None \<Rightarrow> Inr None
      | Some v \<Rightarrow> bind_result (validate_summary_document dumps v) (\<lambda>ok. Inr (if ok then Some v else None)))"

definition empty_summary_document :: "context_env \<Rightarrow> (json \<Rightarrow> string) \<Rightarrow> json" where
  "empty_summary_document env dumps = build_summary_document env dumps
     \<lparr>sq_checkpoint_kind = ''partial_prefix'', sq_history_version = 0, sq_recent_rounds_preserved = 0,
      sq_provenance = [], sq_events = []\<rparr> []"

definition summary_prompt :: "context_env \<Rightarrow> (json \<Rightarrow> string) \<Rightarrow> json \<Rightarrow> (string \<times> json) list list \<Rightarrow> string" where
  "summary_prompt env dumps deterministic projected =
     ''Required schema (all keys required):'' @ [CHR 0x0A] @ dumps (empty_summary_document env dumps) @ [CHR 0x0A, CHR 0x0A] @
     ''Deterministic facts must not be removed or contradicted:'' @ [CHR 0x0A] @ dumps deterministic @ [CHR 0x0A, CHR 0x0A] @
     ''Bounded conversation projection:'' @ [CHR 0x0A] @ dumps (JList (map JObj projected))"

definition repair_prompt :: "context_env \<Rightarrow> (json \<Rightarrow> string) \<Rightarrow> string \<Rightarrow> string" where
  "repair_prompt env dumps reply =
     ''Schema:'' @ [CHR 0x0A] @ dumps (empty_summary_document env dumps) @ [CHR 0x0A] @ ''Candidate:'' @ [CHR 0x0A] @ take 15000 reply"

text \<open>\<open>chat repairing prompt limit\<close> is one exchange with the model, under the system prompt of the summary or of its repair.\<close>

record summary_tools =
  st_dumps :: "json \<Rightarrow> string"
  st_dumps_sorted :: "json \<Rightarrow> string"
  st_dumps_pretty :: "json \<Rightarrow> string"
  st_items_length :: "(string \<times> json) list list \<Rightarrow> nat"
  st_loads :: "string \<Rightarrow> json option"
  st_dots :: string
  st_chat :: "(bool \<Rightarrow> string \<Rightarrow> nat \<Rightarrow> (py_exn, string) result) option"

definition enrich_summary :: "context_env \<Rightarrow> summary_tools \<Rightarrow> json \<Rightarrow> message list \<Rightarrow> (py_exn, json option) result" where
  "enrich_summary env t deterministic messages =
     (case st_chat t of
        None \<Rightarrow> Inr None
      | Some chat \<Rightarrow>
          let projected = project_summary_input (st_items_length t) env (st_dots t) 24 30000 messages;
              attempt = bind_result (chat False (summary_prompt env (st_dumps t) deterministic projected) 4096) (\<lambda>reply.
                bind_result (parse_summary (st_dumps t) (st_loads t) reply) (\<lambda>enriched.
                  if enriched \<noteq> None then Inr enriched
                  else bind_result (chat True (repair_prompt env (st_dumps t) reply) 2048) (\<lambda>repair.
                    parse_summary (st_dumps t) (st_loads t) repair)))
          in (case attempt of
                Inl e \<Rightarrow> if is_exception e \<and> \<not> env_cancelled env then Inr None else Inl e
              | Inr enriched \<Rightarrow> Inr enriched))"

definition generate_document :: "context_env \<Rightarrow> summary_tools \<Rightarrow> summary_request \<Rightarrow> message list \<Rightarrow> (py_exn, json) result" where
  "generate_document env t q messages =
     (let deterministic = build_summary_document env (st_dumps t) q messages
      in bind_result (enrich_summary env t deterministic messages) (\<lambda>enriched.
           merge_summary_documents (st_dumps t) (st_dumps_sorted t) deterministic enriched))"

definition generate_summary :: "context_env \<Rightarrow> summary_tools \<Rightarrow> summary_request \<Rightarrow> message list \<Rightarrow> (py_exn, string) result" where
  "generate_summary env t q messages =
     bind_result (generate_document env t q messages) (\<lambda>document. Inr (st_dumps_pretty t document))"

section \<open>Objects\<close>

lemma jget_set_field: "is_object v \<Longrightarrow> jget (set_field v k x) k' = (if k' = k then x else jget v k')"
  by (cases v) (auto simp: is_object_def set_field_def dict_get_set [unfolded dict_get_def] split: option.splits)

lemma set_field_object [simp]: "is_object (set_field v k x) = is_object v"
  by (cases v) (auto simp: is_object_def set_field_def)

lemma names_set_field: "k \<in> set (field_names v) \<Longrightarrow> field_names (set_field v k x) = field_names v"
  by (cases v) (auto simp: set_field_def field_names_def keys_dict_set)

lemma has_key_names: "has_key v k \<longleftrightarrow> k \<in> set (field_names v)"
  by (cases v) (auto simp: has_key_def field_names_def)

lemma merge_object: "is_object v \<Longrightarrow> is_object (merge_json marker v r)"
  by (cases v) (auto simp: is_object_def split: json.splits)

lemma names_merge: "is_object v \<Longrightarrow> field_names (merge_json marker v r) = field_names v"
  by (cases v) (auto simp: is_object_def field_names_def)

lemma jget_merge:
  assumes "is_object v" "is_object r" "k \<in> set (field_names v)"
  shows "jget (merge_json marker v r) k = merge_json marker (jget v k) (jget r k)"
proof -
  obtain fs where v: "v = JObj fs" using assms(1) by (cases v) (auto simp: is_object_def)
  have "map_of (map (\<lambda>(k, v). (k, f k v)) fs) k = map_option (f k) (map_of fs k)" for f :: "string \<Rightarrow> json \<Rightarrow> json"
    by (induction fs) auto
  moreover obtain x where "map_of fs k = Some x"
    using assms(3) by (cases "map_of fs k") (auto simp: v field_names_def map_of_eq_None_iff)
  ultimately show ?thesis using assms(2) by (simp add: v)
qed

section \<open>The deterministic document meets the schema\<close>

definition schema :: "json \<Rightarrow> bool" where
  "schema v \<longleftrightarrow> schema_keys v \<and> schema_scope v \<and> schema_types v"

lemma schema_skeleton:
  assumes "kind \<in> set checkpoint_kinds"
  shows "schema (JObj
    [(''scope'', JObj [(''summarized_history_version'', JInt a1), (''summarized_rounds'', JInt a2),
        (''recent_rounds_preserved'', JInt a3), (''checkpoint_kind'', JStr kind)]),
     (''user_intent'', JObj [(''current_goal'', JStr b1), (''explicit_requests'', JList b2),
        (''constraints_and_preferences'', JList b3), (''authorization_boundaries'', JList b4)]),
     (''decisions'', JList c),
     (''progress'', JObj [(''completed'', JList d1), (''current_work'', JStr d2), (''verified_by'', JList d3)]),
     (''code_state'', JObj [(''files_read'', JList e1), (''files_changed'', JList e2),
        (''important_symbols'', JList e3), (''worktrees_and_commits'', JList e4)]),
     (''errors_and_learning'', JList f),
     (''agent_state'', JObj [(''active_subagents'', JList g1), (''pending_approvals'', JList g2),
        (''execution_target'', JStr g3), (''relevant_artifacts'', JList g4)]),
     (''pending'', JObj [(''tasks'', JList h1), (''blockers'', JList h2), (''next_action'', JStr h3)]),
     (''provenance'', JObj [(''transcript_ref'', JStr i1), (''source_checkpoint_ids'', JList i2),
        (''source_event_ids'', JList i3)])])" (is "schema ?doc")
proof -
  note defs = sub_def is_object_def is_list_def is_text_def is_count_def field_names_def has_key_def
  have "schema_scope ?doc" using assms by (simp add: schema_scope_def count_fields_def defs)
  moreover have "schema_types ?doc" by (simp add: schema_types_def list_fields_def string_fields_def defs)
  moreover have "set (field_names (jget ?doc ''provenance'')) - {''source_event_ids''} = {''transcript_ref'', ''source_checkpoint_ids''}"
    by (auto simp: defs)
  then have "schema_keys ?doc" unfolding schema_keys_def
    by (simp add: nested_fields_def top_level_def defs) (intro conjI; auto)
  ultimately show ?thesis by (simp only: schema_def)
qed

lemma built_schema:
  "sq_checkpoint_kind q \<in> set checkpoint_kinds \<Longrightarrow> schema (build_summary_document env dumps q ms)"
  unfolding build_summary_document_def Let_def json_strs_def if_distrib [of JList, symmetric]
  by (cases "map snd (sf_users (scan_messages env 0 (sq_provenance q) ms no_facts)) = []")
    (simp_all only: schema_skeleton simp_thms if_True if_False split: if_split)

section \<open>Merging keeps the schema and the facts\<close>

definition schema_field :: "string \<times> string \<Rightarrow> bool" where
  "schema_field f \<longleftrightarrow> list_ex (\<lambda>(p, fields). p = fst f \<and> snd f \<in> set fields) nested_fields"

lemma schema_fields:
  "list_all schema_field list_fields" "list_all schema_field string_fields"
  "list_all (\<lambda>k. schema_field (''scope'', k)) (''checkpoint_kind'' # count_fields)"
  "schema_field (''user_intent'', ''explicit_requests'')"
  by code_simp+

lemma nested_top: "list_all (\<lambda>(p, fields). p \<in> set top_level) nested_fields"
  by code_simp

lemma schema_fieldD:
  assumes "schema_keys v" "schema_field f"
  shows "is_object v" "fst f \<in> set (field_names v)" "is_object (jget v (fst f))" "snd f \<in> set (field_names (jget v (fst f)))"
proof -
  obtain fields where f: "(fst f, fields) \<in> set nested_fields" "snd f \<in> set fields"
    using assms(2) by (auto simp: schema_field_def list_ex_iff)
  have v: "is_object v" "set (field_names v) = set top_level"
    "list_all (\<lambda>(k, fields). is_object (jget v k)) nested_fields"
    "list_all (\<lambda>(k, fields). set (field_names (jget v k)) - (if k = ''provenance'' then {''source_event_ids''} else {}) = set fields)
       nested_fields"
    using assms(1) by (simp_all add: schema_keys_def)
  show "is_object v" by (fact v(1))
  show "fst f \<in> set (field_names v)" using nested_top f(1) v(2) by (auto simp: list_all_iff)
  show "is_object (jget v (fst f))" using v(3) f(1) by (auto simp: list_all_iff)
  show "snd f \<in> set (field_names (jget v (fst f)))" using v(4) f by (fastforce simp: list_all_iff)
qed

lemma sub_merge:
  assumes "schema_keys b" "schema_keys e" "schema_field f"
  shows "sub (merge_json marker b e) f = merge_json marker (sub b f) (sub e f)"
  using schema_fieldD [OF assms(1,3)] schema_fieldD [OF assms(2,3)]
  by (simp add: sub_def jget_merge)

definition merged :: "(json \<Rightarrow> string) \<Rightarrow> json \<Rightarrow> json \<Rightarrow> json" where
  "merged marker b e =
     (let result = set_field (merge_json marker b e) ''provenance'' (jget b ''provenance'')
      in set_field result ''user_intent''
           (set_field (jget result ''user_intent'') ''explicit_requests'' (sub b (''user_intent'', ''explicit_requests''))))"

lemma jget_merged:
  assumes "schema_keys b"
  shows "jget (merged marker b e) p =
    (if p = ''user_intent'' then set_field (jget (merge_json marker b e) p) ''explicit_requests'' (sub b (p, ''explicit_requests''))
     else if p = ''provenance'' then jget b p else jget (merge_json marker b e) p)"
proof -
  have "is_object (merge_json marker b e)"
    using schema_fieldD(1) [OF assms schema_fields(4)] by (rule merge_object)
  then show ?thesis by (simp add: merged_def Let_def jget_set_field)
qed

lemma sub_merged:
  assumes "schema_keys b" "schema_keys e" "schema_field f"
  shows "sub (merged marker b e) f =
    (if fst f = ''provenance'' \<or> f = (''user_intent'', ''explicit_requests'') then sub b f
     else merge_json marker (sub b f) (sub e f))"
proof -
  have "is_object (jget (merge_json marker b e) (fst f))"
    using schema_fieldD [OF assms(1,3)] schema_fieldD [OF assms(2,3)] by (simp add: jget_merge merge_object)
  then show ?thesis
    using sub_merge [OF assms, of marker]
    by (cases f) (auto simp: sub_def jget_merged [OF assms(1)] jget_set_field)
qed

lemma merge_types:
  "is_list v \<Longrightarrow> is_list (merge_json marker v r)"
  "is_text v \<Longrightarrow> is_text r \<Longrightarrow> is_text (merge_json marker v r)"
  "is_count v \<Longrightarrow> merge_json marker v r = v"
  "is_text v \<Longrightarrow> \<not> unknown_value v \<Longrightarrow> merge_json marker v r = v"
  by (cases v; auto simp: is_list_def is_text_def is_count_def merge_scalar_def unknown_value_def)+

lemma merged_keys:
  assumes "schema_keys b" "schema_keys e"
  shows "schema_keys (merged marker b e)"
proof -
  note b = schema_fieldD [OF assms(1)]
  have obj: "is_object (merge_json marker b e)" and names: "field_names (merge_json marker b e) = field_names b"
    using b(1) [OF schema_fields(4)] by (auto simp: merge_object names_merge)
  have top: "''provenance'' \<in> set (field_names b)" "''user_intent'' \<in> set (field_names b)"
    using assms(1) by (auto simp: schema_keys_def top_level_def)
  have names': "field_names (merged marker b e) = field_names b" "is_object (merged marker b e)"
    using obj top names by (simp_all add: merged_def Let_def names_set_field)
  have lists: "is_list (jget (merged marker b e) k)" if "k = ''decisions'' \<or> k = ''errors_and_learning''" for k
  proof -
    have "k \<in> set (field_names b)" "is_list (jget b k)" using assms(1) that by (auto simp: schema_keys_def top_level_def)
    moreover have "is_object b" "is_object e" using assms by (simp_all add: schema_keys_def)
    ultimately show ?thesis
      using that by (auto simp: jget_merged [OF assms(1)] jget_merge merge_types(1))
  qed
  have nested: "is_object (jget (merged marker b e) p) \<and> field_names (jget (merged marker b e) p) = field_names (jget b p)"
    if "p \<in> set (map fst nested_fields)" for p
  proof -
    have p: "p \<in> set (field_names b)" "is_object (jget b p)" "is_object b" "is_object e"
      using assms that nested_top by (auto simp: schema_keys_def list_all_iff)
    have "is_object (merge_json marker (jget b p) (jget e p))"
      "field_names (merge_json marker (jget b p) (jget e p)) = field_names (jget b p)"
      using p(2) by (simp_all add: merge_object names_merge)
    moreover have "''explicit_requests'' \<in> set (field_names (jget b ''user_intent''))"
      using b(4) [OF schema_fields(4)] by simp
    ultimately show ?thesis
      using p by (auto simp: jget_merged [OF assms(1)] jget_merge names_set_field)
  qed
  have prov: "jget (merged marker b e) ''provenance'' = jget b ''provenance''"
    by (simp add: jget_merged [OF assms(1)])
  have n: "fst x \<in> set (map fst nested_fields)" if "x \<in> set nested_fields" for x using that by simp
  show ?thesis
    using assms(1) nested n names' lists prov
    unfolding schema_keys_def by (simp add: list_all_iff case_prod_unfold sub_def)
qed

lemma merged_schema:
  assumes "schema b" "schema e"
  shows "schema (merged marker b e)"
proof -
  have k: "schema_keys b" "schema_keys e" using assms by (simp_all add: schema_def)
  note sm = sub_merged [OF k]
  have lists: "is_list (sub (merged marker b e) f)" if "f \<in> set list_fields" for f
  proof -
    have "schema_field f" "is_list (sub b f)"
      using that schema_fields(1) assms(1) by (auto simp: list_all_iff schema_def schema_types_def)
    then show ?thesis by (simp add: sm merge_types(1))
  qed
  have texts: "is_text (sub (merged marker b e) f)" if "f \<in> set string_fields" for f
  proof -
    have "schema_field f" "is_text (sub b f)" "is_text (sub e f)"
      using that schema_fields(2) assms by (auto simp: list_all_iff schema_def schema_types_def)
    then show ?thesis by (simp add: sm merge_types(2))
  qed
  have counts: "is_count (sub (merged marker b e) (''scope'', f))" if "f \<in> set count_fields" for f
  proof -
    have "schema_field (''scope'', f)" "is_count (sub b (''scope'', f))"
      using that schema_fields(3) assms(1) by (auto simp: list_all_iff schema_def schema_scope_def)
    then show ?thesis by (simp add: sm merge_types(3))
  qed
  have "sub (merged marker b e) (''scope'', ''checkpoint_kind'') = sub b (''scope'', ''checkpoint_kind'')"
  proof -
    have "schema_field (''scope'', ''checkpoint_kind'')" using schema_fields(3) by simp
    moreover have "is_text (sub b (''scope'', ''checkpoint_kind''))" "\<not> unknown_value (sub b (''scope'', ''checkpoint_kind''))"
      using assms(1) by (auto simp: schema_def schema_scope_def checkpoint_kinds_def is_text_def unknown_value_def)
    ultimately show ?thesis by (simp add: sm merge_types(4))
  qed
  then show ?thesis
    using merged_keys [OF k] lists texts counts assms(1)
    by (simp add: schema_def schema_scope_def schema_types_def list_all_iff)
qed

lemma add_new_spec:
  "\<exists>added. add_new marker xs seen zs = xs @ added \<and> subseq added zs \<and> distinct (map marker added) \<and>
     (\<forall>x\<in>set added. marker x \<notin> set seen) \<and> (\<forall>z\<in>set zs. marker z \<in> set seen \<union> marker ` set added)"
proof (induction zs arbitrary: xs seen)
  case Nil
  then show ?case by simp
next
  case (Cons z zs)
  show ?case
  proof (cases "marker z \<in> set seen")
    case True
    then show ?thesis using Cons [of xs seen] by auto
  next
    case False
    obtain ys where "add_new marker (xs @ [z]) (marker z # seen) zs = (xs @ [z]) @ ys" "subseq ys zs" "distinct (map marker ys)"
      "\<forall>x\<in>set ys. marker x \<notin> set (marker z # seen)" "\<forall>x\<in>set zs. marker x \<in> set (marker z # seen) \<union> marker ` set ys"
      using Cons by blast
    with False show ?thesis by (intro exI [of _ "z # ys"]) auto
  qed
qed

text \<open>
  What a merge may do. A list becomes the old items followed by the proposed ones that are new, in their order and once each,
  cut at a hundred. A text that was unknown takes the proposed value, any other keeps its own.
  \<open>additive\<close> says this of every part of a document: provenance, scope and explicit requests stay.
\<close>

definition list_extends :: "(json \<Rightarrow> string) \<Rightarrow> json \<Rightarrow> json \<Rightarrow> json \<Rightarrow> bool" where
  "list_extends marker old proposed new \<longleftrightarrow>
     (\<exists>added. new = JList (take 100 (list_items old @ added)) \<and> subseq added (list_items proposed) \<and> distinct (map marker added) \<and>
        (\<forall>x\<in>set added. marker x \<notin> marker ` set (list_items old)) \<and>
        (\<forall>x\<in>set (list_items proposed). marker x \<in> marker ` (set (list_items old) \<union> set added)))"

definition merged_lists :: "(json \<Rightarrow> json) list" where
  "merged_lists = map (\<lambda>f v. sub v f)
       (filter (\<lambda>f. fst f \<noteq> ''provenance'' \<and> f \<noteq> (''user_intent'', ''explicit_requests'')) list_fields) @
     [\<lambda>v. jget v ''decisions'', \<lambda>v. jget v ''errors_and_learning'']"

definition additive :: "(json \<Rightarrow> string) \<Rightarrow> json \<Rightarrow> json \<Rightarrow> json \<Rightarrow> bool" where
  "additive marker b e d \<longleftrightarrow> jget d ''provenance'' = jget b ''provenance'' \<and>
     sub d (''user_intent'', ''explicit_requests'') = sub b (''user_intent'', ''explicit_requests'') \<and>
     (\<forall>k\<in>set (''checkpoint_kind'' # count_fields). sub d (''scope'', k) = sub b (''scope'', k)) \<and>
     (\<forall>f\<in>set string_fields. fst f \<noteq> ''provenance'' \<longrightarrow>
        sub d f = (if unknown_value (sub b f) \<and> sub e f \<noteq> JStr [] then sub e f else sub b f)) \<and>
     (\<forall>part\<in>set merged_lists. list_extends marker (part b) (part e) (part d))"

lemma merge_list_extends:
  assumes "is_list v" "is_list r"
  shows "list_extends marker v r (merge_json marker v r)"
proof -
  obtain xs ys where v: "v = JList xs" "r = JList ys" using assms by (cases v; cases r) (auto simp: is_list_def)
  obtain added where "add_new marker xs (map marker xs) ys = xs @ added" "subseq added ys" "distinct (map marker added)"
    "\<forall>x\<in>set added. marker x \<notin> set (map marker xs)" "\<forall>z\<in>set ys. marker z \<in> set (map marker xs) \<union> marker ` set added"
    using add_new_spec by blast
  then show ?thesis
    unfolding v list_extends_def by (intro exI [of _ added]) (auto simp: is_list_def list_items_def merge_lists_def)
qed

lemma merge_text: "is_text v \<Longrightarrow> is_text r \<Longrightarrow>
    merge_json marker v r = (if unknown_value v \<and> r \<noteq> JStr [] then r else v)"
  by (cases v; cases r) (auto simp: is_text_def merge_scalar_def)

lemma merged_additive:
  assumes "schema b" "schema e"
  shows "additive marker b e (merged marker b e)"
proof -
  let ?d = "merged marker b e"
  have k: "schema_keys b" "schema_keys e" using assms by (simp_all add: schema_def)
  note sm = sub_merged [OF k, of _ marker]
  have fields: "schema_field f" if "f \<in> set list_fields \<or> f \<in> set string_fields" for f
    using that schema_fields(1,2) by (auto simp: list_all_iff)
  have nested: "list_extends marker (sub b f) (sub e f) (sub ?d f)"
    if "f \<in> set list_fields" "fst f \<noteq> ''provenance''" "f \<noteq> (''user_intent'', ''explicit_requests'')" for f
  proof -
    have "is_list (sub b f)" "is_list (sub e f)" using that assms by (auto simp: schema_def schema_types_def list_all_iff)
    then show ?thesis using sm [of f] fields that by (simp add: merge_list_extends)
  qed
  have top: "list_extends marker (jget b x) (jget e x) (jget ?d x)" if "x = ''decisions'' \<or> x = ''errors_and_learning''" for x
  proof -
    have "is_object b" "is_object e" "is_list (jget b x)" "is_list (jget e x)" "x \<in> set (field_names b)"
      using k that by (auto simp: schema_keys_def top_level_def)
    then show ?thesis using that by (auto simp: jget_merged [OF k(1)] jget_merge merge_list_extends)
  qed
  have texts: "sub ?d f = (if unknown_value (sub b f) \<and> sub e f \<noteq> JStr [] then sub e f else sub b f)"
    if "f \<in> set string_fields" "fst f \<noteq> ''provenance''" for f
  proof -
    have "is_text (sub b f)" "is_text (sub e f)" "f \<noteq> (''user_intent'', ''explicit_requests'')"
      using that assms by (auto simp: schema_def schema_types_def list_all_iff string_fields_def)
    then show ?thesis using sm [of f] fields that by (simp add: merge_text)
  qed
  have scope: "sub ?d (''scope'', x) = sub b (''scope'', x)" if "x \<in> set (''checkpoint_kind'' # count_fields)" for x
  proof -
    have f: "schema_field (''scope'', x)" using that schema_fields(3) by (auto simp: list_all_iff)
    have "is_count (sub b (''scope'', x)) \<or> is_text (sub b (''scope'', x)) \<and> \<not> unknown_value (sub b (''scope'', x))"
      using that assms(1) by (auto simp: schema_def schema_scope_def list_all_iff checkpoint_kinds_def is_text_def unknown_value_def)
    then show ?thesis using sm [OF f] by (auto simp: merge_types(3,4))
  qed
  have "jget ?d ''provenance'' = jget b ''provenance''" by (simp add: jget_merged [OF k(1)])
  moreover have "sub ?d (''user_intent'', ''explicit_requests'') = sub b (''user_intent'', ''explicit_requests'')"
    using sm [OF schema_fields(4)] by simp
  moreover have "list_extends marker (part b) (part e) (part ?d)" if "part \<in> set merged_lists" for part
    using that nested top by (auto simp: merged_lists_def)
  ultimately show ?thesis using scope texts unfolding additive_def by blast
qed

section \<open>Generation\<close>

lemma validated_schema: "validate_summary_document dumps v = Inr True \<Longrightarrow> schema v"
  by (auto simp: validate_summary_document_def schema_def split: if_splits)

lemma parsed_schema: "parse_summary dumps loads reply = Inr (Some e) \<Longrightarrow> validate_summary_document dumps e = Inr True"
  by (auto simp: parse_summary_def split: option.splits if_splits)

lemma enriched_valid:
  assumes "enrich_summary env t d ms = Inr (Some e)"
  shows "validate_summary_document (st_dumps t) e = Inr True"
  using assms parsed_schema
  by (fastforce simp: enrich_summary_def Let_def split: option.splits sum.splits if_splits)

text \<open>The documents the model offers: its answer to the summary prompt, and to the prompt that asks for a repair of it.\<close>

definition first_reply :: "context_env \<Rightarrow> summary_tools \<Rightarrow> json \<Rightarrow> message list \<Rightarrow> string option" where
  "first_reply env t b messages =
     (case st_chat t of
        None \<Rightarrow> None
      | Some chat \<Rightarrow>
          (case chat False (summary_prompt env (st_dumps t) b
                  (project_summary_input (st_items_length t) env (st_dots t) 24 30000 messages)) 4096 of
             Inl _ \<Rightarrow> None | Inr reply \<Rightarrow> Some reply))"

definition repair_reply :: "context_env \<Rightarrow> summary_tools \<Rightarrow> string \<Rightarrow> string option" where
  "repair_reply env t reply =
     (case st_chat t of
        None \<Rightarrow> None
      | Some chat \<Rightarrow>
          (case chat True (repair_prompt env (st_dumps t) reply) 2048 of Inl _ \<Rightarrow> None | Inr repair \<Rightarrow> Some repair))"

definition offered :: "summary_tools \<Rightarrow> string option \<Rightarrow> json \<Rightarrow> bool" where
  "offered t reply e \<longleftrightarrow> (\<exists>text. reply = Some text \<and> st_loads t (strip text) = Some e \<and>
     validate_summary_document (st_dumps t) e = Inr True)"

lemma parse_offered:
  "parse_summary (st_dumps t) (st_loads t) text = Inr (Some e) \<longleftrightarrow> offered t (Some text) e"
  by (auto simp: parse_summary_def offered_def split: option.splits)

lemma enriched_offered:
  assumes "enrich_summary env t b ms = Inr (Some e)"
  shows "offered t (first_reply env t b ms) e \<or>
    (\<exists>reply. first_reply env t b ms = Some reply \<and> offered t (repair_reply env t reply) e)"
  using assms
  by (auto simp: enrich_summary_def first_reply_def repair_reply_def Let_def parse_offered
      split: option.splits sum.splits if_splits)

lemma first_offered: "offered t (first_reply env t b ms) e \<Longrightarrow> enrich_summary env t b ms = Inr (Some e)"
proof -
  assume o: "offered t (first_reply env t b ms) e"
  then obtain chat reply where c: "st_chat t = Some chat" "first_reply env t b ms = Some reply"
    by (auto simp: offered_def first_reply_def split: option.splits)
  then have "chat False (summary_prompt env (st_dumps t) b
      (project_summary_input (st_items_length t) env (st_dots t) 24 30000 ms)) 4096 = Inr reply"
    by (auto simp: first_reply_def split: sum.splits)
  moreover have "parse_summary (st_dumps t) (st_loads t) reply = Inr (Some e)" using o c(2) by (simp add: parse_offered)
  ultimately show ?thesis using c(1) by (simp add: enrich_summary_def Let_def)
qed

text \<open>The documents generation can end with.\<close>

lemma merge_offered:
  assumes "validate_summary_document (st_dumps t) e = Inr True"
  shows "merge_summary_documents (st_dumps t) (st_dumps_sorted t) b (Some e) = Inr (merged (st_dumps_sorted t) b e)"
  using assms by (simp add: merge_summary_documents_def merged_def Let_def)

lemma generated_cases:
  assumes "generate_document env t q ms = Inr d" "b = build_summary_document env (st_dumps t) q ms"
  obtains "d = b" "enrich_summary env t b ms = Inr None"
  | e where "enrich_summary env t b ms = Inr (Some e)" "validate_summary_document (st_dumps t) e = Inr True"
      "d = merged (st_dumps_sorted t) b e"
proof -
  obtain enriched where e: "enrich_summary env t b ms = Inr enriched"
    "merge_summary_documents (st_dumps t) (st_dumps_sorted t) b enriched = Inr d"
    using assms by (auto simp: generate_document_def Let_def)
  show ?thesis
  proof (cases enriched)
    case None
    with e that(1) show ?thesis by (simp add: merge_summary_documents_def)
  next
    case (Some x)
    with e enriched_valid merge_offered that(2) show ?thesis by fastforce
  qed
qed

lemma generated_document:
  assumes "generate_document env t q ms = Inr d"
  shows "d = build_summary_document env (st_dumps t) q ms \<or>
    (\<exists>e. validate_summary_document (st_dumps t) e = Inr True \<and>
       d = merged (st_dumps_sorted t) (build_summary_document env (st_dumps t) q ms) e)"
  using generated_cases [OF assms refl] by blast

lemma generation_total:
  assumes "\<not> env_cancelled env" "\<And>chat r p n e. st_chat t = Some chat \<Longrightarrow> chat r p n = Inl e \<Longrightarrow> is_exception e"
  shows "\<exists>d. generate_document env t q ms = Inr d"
proof -
  define b where "b = build_summary_document env (st_dumps t) q ms"
  have "\<exists>x. enrich_summary env t b ms = Inr x"
  proof (cases "st_chat t")
    case None
    then show ?thesis by (simp add: enrich_summary_def)
  next
    case (Some chat)
    have p: "is_exception e" if "parse_summary dumps loads reply = Inl e" for dumps loads reply e
      using that
      by (auto simp: parse_summary_def validate_summary_document_def bind_result_Inl_iff split: option.splits if_splits)
    define attempt where "attempt = bind_result (chat False (summary_prompt env (st_dumps t) b
          (project_summary_input (st_items_length t) env (st_dots t) 24 30000 ms)) 4096) (\<lambda>reply.
        bind_result (parse_summary (st_dumps t) (st_loads t) reply) (\<lambda>enriched.
          if enriched \<noteq> None then Inr enriched
          else bind_result (chat True (repair_prompt env (st_dumps t) reply) 2048) (\<lambda>repair.
            parse_summary (st_dumps t) (st_loads t) repair)))"
    have "is_exception e" if "attempt = Inl e" for e
      using that assms(2) [OF Some] p unfolding attempt_def by (auto simp: bind_result_Inl_iff split: if_splits)
    moreover have "enrich_summary env t b ms =
        (case attempt of Inl e \<Rightarrow> if is_exception e \<and> \<not> env_cancelled env then Inr None else Inl e | Inr x \<Rightarrow> Inr x)"
      by (simp add: enrich_summary_def Some Let_def attempt_def)
    ultimately show ?thesis using assms(1) by (cases attempt) auto
  qed
  then obtain x where x: "enrich_summary env t b ms = Inr x" by blast
  then have "\<exists>d. merge_summary_documents (st_dumps t) (st_dumps_sorted t) b x = Inr d"
    using enriched_valid by (cases x) (auto simp: merge_summary_documents_def Let_def)
  with x show ?thesis by (auto simp: generate_document_def Let_def b_def)
qed

section \<open>Rounds shown to the model\<close>

lemma fit_rounds_drop:
  "fit_rounds len env dots mx k rs = (k', sel) \<Longrightarrow>
     \<exists>n. k' = k + n \<and> sel = drop n rs \<and> (rs \<noteq> [] \<longrightarrow> n < length rs) \<and>
       (len (render_rounds env dots k' sel) \<le> mx \<or> length sel \<le> 1)"
proof (induction rs arbitrary: k)
  case Nil
  then show ?case by auto
next
  case (Cons r rs)
  show ?case
  proof (cases "mx < len (render_rounds env dots k (r # rs)) \<and> rs \<noteq> []")
    case True
    with Cons.prems have "fit_rounds len env dots mx (k + 1) rs = (k', sel)" by simp
    from Cons.IH [OF this] True obtain n where "k' = k + 1 + n" "sel = drop n rs" "n < length rs"
      "len (render_rounds env dots k' sel) \<le> mx \<or> length sel \<le> 1" by blast
    then show ?thesis by (intro exI [of _ "Suc n"]) simp
  next
    case False
    with Cons.prems have "k' = k" "sel = r # rs" by auto
    with False show ?thesis by (intro exI [of _ 0]) (auto simp: not_less)
  qed
qed

definition item_id :: "(string \<times> json) list \<Rightarrow> json \<times> json" where
  "item_id item = (jget (JObj item) ''role'', jget (JObj item) ''tool_call_id'')"

lemma item_id_set [simp]:
  "item_id (dict_set ''content'' v item) = item_id item" "item_id (dict_set ''tool_calls'' v item) = item_id item"
  by (simp_all add: item_id_def dict_get_set [unfolded dict_get_def])

lemma compact_item_id [simp]: "item_id (compact_item env dots item) = item_id item"
  by (simp add: compact_item_def Let_def split: option.split json.split)

definition message_id :: "message \<Rightarrow> json \<times> json" where
  "message_id m = (JStr (case msg_role m of None \<Rightarrow> ''unknown'' | Some r \<Rightarrow> r),
     if or_empty (msg_tool_call_id m) = [] then JNull else JStr (or_empty (msg_tool_call_id m)))"

lemma projected_id [simp]: "item_id (project_summary_message env dots m) = message_id m"
  by (auto simp: item_id_def project_summary_message_def Let_def message_id_def)

section \<open>Properties\<close>

definition ex_tools :: summary_tools where
  "ex_tools = \<lparr>st_dumps = (\<lambda>_. []), st_dumps_sorted = (\<lambda>_. []), st_dumps_pretty = (\<lambda>_. ''{}''), st_items_length = length,
     st_loads = (\<lambda>_. None), st_dots = ''..'', st_chat = Some (\<lambda>_ _ _. Inl (Py_Exception ''offline''))\<rparr>"

definition ex_summary_request :: summary_request where
  "ex_summary_request = \<lparr>sq_checkpoint_kind = ''partial_prefix'', sq_history_version = 3, sq_recent_rounds_preserved = 2,
     sq_provenance = [], sq_events = []\<rparr>"

lemma ex_kind: "sq_checkpoint_kind ex_summary_request \<in> set checkpoint_kinds"
  by (simp add: ex_summary_request_def checkpoint_kinds_def)

text \<open>C18: Whatever the model answers, malformed, empty or not at all, a summary that was not cancelled is generated,
  and its document meets the schema.\<close>

theorem generated_summary_meets_schema:
  assumes "sq_checkpoint_kind q \<in> set checkpoint_kinds" and "\<not> env_cancelled env"
    and "\<forall>chat repairing prompt limit e. st_chat t = Some chat \<longrightarrow> chat repairing prompt limit = Inl e \<longrightarrow> is_exception e"
  shows "\<exists>d. generate_document env t q ms = Inr d \<and> schema_keys d \<and> schema_scope d \<and> schema_types d \<and>
    generate_summary env t q ms = Inr (st_dumps_pretty t d)"
proof -
  obtain d where d: "generate_document env t q ms = Inr d" using generation_total [OF assms(2)] assms(3) by blast
  have "schema d"
    using generated_document [OF d] built_schema [OF assms(1)] validated_schema merged_schema by metis
  with d show ?thesis by (simp add: schema_def generate_summary_def)
qed

theorem generated_summary_meets_schema_witness:
  "\<exists>d. generate_document ex_context_env ex_tools ex_summary_request ex_history = Inr d \<and> schema_keys d"
proof -
  have "\<not> env_cancelled ex_context_env" by (simp add: ex_context_env_def)
  then show ?thesis
    using generated_summary_meets_schema [OF ex_kind, of ex_context_env ex_tools ex_history] by (auto simp: ex_tools_def)
qed

text \<open>C17: The model can only add to a summary, and what it adds is kept. The generated document is the deterministic
  one, or the deterministic one with a valid document merged in that the model gave as its answer or as the repair of its
  answer; a valid first answer is always merged. A merge is additive: provenance, scope and explicit requests are the
  deterministic ones, a text that was known keeps its value and an unknown one takes the model's, and every other list,
  the decisions and the errors included, is the deterministic items followed by the model's new ones,
  once each and in order, cut at a hundred items.\<close>

theorem generated_summary_keeps_facts:
  assumes "sq_checkpoint_kind q \<in> set checkpoint_kinds" and "generate_document env t q ms = Inr d"
    and "b = build_summary_document env (st_dumps t) q ms" and "reply = first_reply env t b ms"
  shows "(d = b \<or> (\<exists>e. (offered t reply e \<or> (\<exists>text. reply = Some text \<and> offered t (repair_reply env t text) e)) \<and>
      additive (st_dumps_sorted t) b e d)) \<and>
    (\<forall>e. offered t reply e \<longrightarrow> additive (st_dumps_sorted t) b e d)"
proof -
  have b: "schema b" unfolding assms(3) by (rule built_schema [OF assms(1)])
  show ?thesis
  proof (cases rule: generated_cases [OF assms(2,3)])
    case 1
    then have "\<not> offered t reply e" for e using first_offered [of t env b ms e] assms(4) by auto
    with 1 show ?thesis by blast
  next
    case (2 e)
    have a: "additive (st_dumps_sorted t) b e d" using merged_additive [OF b validated_schema [OF 2(2)]] 2(3) by simp
    have "e' = e" if "offered t reply e'" for e' using first_offered [of t env b ms e'] that 2(1) assms(4) by simp
    with a enriched_offered [OF 2(1)] assms(4) show ?thesis by blast
  qed
qed

text \<open>A model that knows a decision and the execution target.\<close>

definition ex_model_document :: json where
  "ex_model_document = set_field (set_field (build_summary_document ex_context_env (\<lambda>_. []) ex_summary_request [])
       ''decisions'' (JList [JStr ''use a queue'', JStr ''use a queue'']))
     ''agent_state'' (JObj [(''active_subagents'', JList []), (''pending_approvals'', JList []),
       (''execution_target'', JStr ''remote''), (''relevant_artifacts'', JList [])])"

definition ex_answering :: summary_tools where
  "ex_answering = ex_tools\<lparr>st_loads := (\<lambda>s. if s = ''{..}'' then Some ex_model_document else None),
     st_dumps_sorted := (\<lambda>v. case v of JStr s \<Rightarrow> s | _ \<Rightarrow> []), st_chat := Some (\<lambda>_ _ _. Inr '' {..} '')\<rparr>"

lemma ex_model_document_valid: "validate_summary_document (\<lambda>_. []) ex_model_document = Inr True"
  by code_simp

lemma ex_answer_offered: "offered ex_answering (first_reply ex_context_env ex_answering b ms) ex_model_document"
proof -
  have "strip '' {..} '' = ''{..}''" by code_simp
  then show ?thesis
    using ex_model_document_valid by (simp add: offered_def first_reply_def ex_answering_def ex_tools_def)
qed

theorem generated_summary_keeps_facts_witness:
  "\<exists>d. generate_document ex_context_env ex_answering ex_summary_request ex_history = Inr d \<and>
     sub d (''scope'', ''summarized_history_version'') = JInt 3 \<and> sub d (''agent_state'', ''execution_target'') = JStr ''remote'' \<and>
     JStr ''use a queue'' \<in> set (list_items (jget d ''decisions''))"
proof -
  have "\<exists>d. generate_document ex_context_env ex_answering ex_summary_request ex_history = Inr d"
    by (rule generation_total) (auto simp: ex_context_env_def ex_answering_def ex_tools_def)
  then obtain d where d: "generate_document ex_context_env ex_answering ex_summary_request ex_history = Inr d" ..
  define b where "b = build_summary_document ex_context_env (st_dumps ex_answering) ex_summary_request ex_history"
  have "additive (st_dumps_sorted ex_answering) b ex_model_document d"
    using generated_summary_keeps_facts [OF ex_kind d b_def refl] ex_answer_offered by blast
  then have a: "sub d (''scope'', ''summarized_history_version'') = sub b (''scope'', ''summarized_history_version'')"
    "sub d (''agent_state'', ''execution_target'') = (if unknown_value (sub b (''agent_state'', ''execution_target'')) \<and>
        sub ex_model_document (''agent_state'', ''execution_target'') \<noteq> JStr []
      then sub ex_model_document (''agent_state'', ''execution_target'') else sub b (''agent_state'', ''execution_target''))"
    "list_extends (st_dumps_sorted ex_answering) (jget b ''decisions'') (jget ex_model_document ''decisions'') (jget d ''decisions'')"
    by (simp_all add: additive_def count_fields_def string_fields_def merged_lists_def)
  have b: "sub b (''scope'', ''summarized_history_version'') = JInt 3" "sub b (''agent_state'', ''execution_target'') = JStr ''unknown''"
    by (simp_all add: b_def build_summary_document_def Let_def sub_def ex_summary_request_def)
  obtain old where b': "jget b ''decisions'' = JList old" "length old \<le> 12" "\<forall>x\<in>set old. st_dumps_sorted ex_answering x = []"
    by (auto simp: b_def build_summary_document_def Let_def newest_items_def decision_json_def ex_answering_def)
  have e: "sub ex_model_document (''agent_state'', ''execution_target'') = JStr ''remote''"
    "list_items (jget ex_model_document ''decisions'') = [JStr ''use a queue'', JStr ''use a queue'']" by code_simp+
  obtain added where ad: "jget d ''decisions'' = JList (take 100 (old @ added))" "subseq added (list_items (jget ex_model_document ''decisions''))"
    "\<forall>x\<in>set (list_items (jget ex_model_document ''decisions'')). st_dumps_sorted ex_answering x \<in> st_dumps_sorted ex_answering ` (set old \<union> set added)"
    using a(3) unfolding list_extends_def b'(1) by (auto simp: list_items_def)
  have "''use a queue'' \<in> st_dumps_sorted ex_answering ` (set old \<union> set added)"
    using ad(3) unfolding e(2) by (simp add: ex_answering_def)
  then have "added \<noteq> []" using b'(3) by auto
  moreover have "length added \<le> 2" "set added \<subseteq> {JStr ''use a queue''}"
    using list_emb_length [OF ad(2)] list_emb_set [OF ad(2)] unfolding e(2) by auto
  ultimately have "JStr ''use a queue'' \<in> set (list_items (jget d ''decisions''))"
    using ad(1) b'(2) by (cases added) (auto simp: list_items_def)
  with d a(1,2) b e(1) show ?thesis by (simp add: unknown_value_def)
qed

text \<open>The model is shown complete recent rounds: the projection is the newest rounds, at most the allowed
  number and at least one, with every message's role and tool call identifier in place, after a marker that counts the rounds
  left out; when it holds more than one round it fits the character budget.\<close>

theorem projection_keeps_recent_rounds:
  assumes "items = project_summary_input len env dots max_rounds max_chars ms" and "0 < max_rounds"
  shows "\<exists>n. length (group_api_rounds ms) - max_rounds \<le> n \<and> (ms \<noteq> [] \<longrightarrow> n < length (group_api_rounds ms)) \<and>
    map item_id items = (if n = 0 then [] else [item_id (loss_marker n)]) @ map message_id (concat (drop n (group_api_rounds ms))) \<and>
    (1 < length (group_api_rounds ms) - n \<longrightarrow> len items \<le> max_chars)"
proof -
  define rounds where "rounds = group_api_rounds ms"
  define o' where "o' = length rounds - max_rounds"
  obtain k sel where f: "fit_rounds len env dots max_chars o' (drop o' rounds) = (k, sel)" by force
  obtain n where n: "k = o' + n" "sel = drop n (drop o' rounds)" "drop o' rounds \<noteq> [] \<longrightarrow> n < length (drop o' rounds)"
    "len (render_rounds env dots k sel) \<le> max_chars \<or> length sel \<le> 1"
    using fit_rounds_drop [OF f] by blast
  have sel: "sel = drop k rounds" using n(1,2) by (simp add: add.commute)
  have items: "items = (if max_chars < len (render_rounds env dots k sel)
      then map (compact_item env dots) (render_rounds env dots k sel) else render_rounds env dots k sel)"
    using assms(1) by (simp add: project_summary_input_def Let_def rounds_def [symmetric] o'_def [symmetric] f)
  have "map item_id items = map item_id (render_rounds env dots k sel)" unfolding items by simp
  also have "\<dots> = (if k = 0 then [] else [item_id (loss_marker k)]) @ map message_id (concat sel)"
    by (simp add: render_rounds_def o_def)
  finally have ids: "map item_id items = (if k = 0 then [] else [item_id (loss_marker k)]) @ map message_id (concat (drop k rounds))"
    unfolding sel .
  have "rounds \<noteq> []" if "ms \<noteq> []"
    using that concat_group_rounds [of "[]" False ms] by (auto simp: rounds_def group_api_rounds_def)
  then have "ms \<noteq> [] \<longrightarrow> k < length rounds"
    using n(1,3) assms(2) by (cases rounds) (auto simp: o'_def)
  moreover have "len items \<le> max_chars" if "1 < length rounds - k" using that n(4) unfolding items by (auto simp: sel)
  ultimately show ?thesis
    using ids n(1) unfolding rounds_def [symmetric] by (intro exI [of _ k]) (auto simp: o'_def)
qed

theorem projection_keeps_recent_rounds_witness:
  "\<exists>n<3. map item_id (project_summary_input length ex_context_env ''..'' 2 100 ex_history) =
     (if n = 0 then [] else [item_id (loss_marker n)]) @ map message_id (concat (drop n (group_api_rounds ex_history)))"
proof -
  have r: "length (group_api_rounds ex_history) = 3" "ex_history \<noteq> []" by code_simp+
  obtain n where "ex_history \<noteq> [] \<longrightarrow> n < length (group_api_rounds ex_history)"
    "map item_id (project_summary_input length ex_context_env ''..'' 2 100 ex_history) =
     (if n = 0 then [] else [item_id (loss_marker n)]) @ map message_id (concat (drop n (group_api_rounds ex_history)))"
    using projection_keeps_recent_rounds [OF refl, where max_rounds = 2 and len = length and env = ex_context_env and dots = "''..''"
        and max_chars = 100 and ms = ex_history] by (metis zero_less_numeral)
  with r show ?thesis by (intro exI [of _ n]) simp
qed

end
