(* ===== verification/Session_Models.thy ===== *)
theory Session_Models
  imports Context_Summary
begin

text \<open>
  Persisted session data: the file names of sessions (\<^verbatim>\<open>infrastructure/persistence/session_paths.py\<close>), and
  previews, runtime state and restore issues (\<^verbatim>\<open>domain/session/models.py\<close>). Text is below code point 256.
  The size of an entry's JSON text and the rendering of content for display are arguments. The lemmas show that
  the paths of sessions never collide, on file systems that ignore case apart from the plain names of older
  versions (a finding), that previews are safe and bounded,
  that the recent conversation stays within its byte budget and cuts the longest text that fits, and that
  stored state comes back.
\<close>

section \<open>File names of sessions\<close>

definition is_lower_digit :: "char \<Rightarrow> bool" where
  "is_lower_digit c \<longleftrightarrow> CHR ''a'' \<le> c \<and> c \<le> CHR ''z'' \<or> CHR ''0'' \<le> c \<and> c \<le> CHR ''9''"

definition is_alnum :: "char \<Rightarrow> bool" where
  "is_alnum c \<longleftrightarrow> is_lower_digit c \<or> CHR ''A'' \<le> c \<and> c \<le> CHR ''Z''"

definition session_id_char :: "char \<Rightarrow> bool" where
  "session_id_char c \<longleftrightarrow> is_alnum c \<or> c = CHR ''_'' \<or> c = CHR ''.'' \<or> c = CHR '':'' \<or> c = CHR ''-''"

definition is_safe_session_id :: "json \<Rightarrow> bool" where
  "is_safe_session_id v = (case v of
     JStr (c # s) \<Rightarrow> is_alnum c \<and> list_all session_id_char s \<and> length s \<le> 127 \<and> \<not> contains_text ''..'' (c # s)
   | _ \<Rightarrow> False)"

definition encoded_prefix :: string where
  "encoded_prefix = ''~rcsid-''"

definition windows_reserved_components :: "string list" where
  "windows_reserved_components = [''con'', ''prn'', ''aux'', ''nul''] @
     map (\<lambda>n. ''com'' @ nat_str n) [1..<10] @ map (\<lambda>n. ''lpt'' @ nat_str n) [1..<10]"

definition direct_component :: "string \<Rightarrow> bool" where
  "direct_component s = (case s of
     [] \<Rightarrow> False
   | c # cs \<Rightarrow> is_lower_digit c \<and> list_all (\<lambda>d. is_lower_digit d \<or> d = CHR ''_'' \<or> d = CHR ''-'') cs)"

text \<open>\<^verbatim>\<open>base64.b32encode\<close> without its padding, in lower case: the bits of the bytes in groups of five, the last
  group filled with zeros.\<close>

definition byte_bits :: "char \<Rightarrow> bool list" where
  "byte_bits c = map (\<lambda>i. bit (of_char c :: nat) i) [7, 6, 5, 4, 3, 2, 1, 0]"

definition group_value :: "bool list \<Rightarrow> nat" where
  "group_value bs = foldl (\<lambda>n b. 2 * n + (if b then 1 else 0)) 0 bs"

definition base32_digit :: "nat \<Rightarrow> char" where
  "base32_digit n = ''abcdefghijklmnopqrstuvwxyz234567'' ! n"

function groups_of_five :: "bool list \<Rightarrow> bool list list" where
  "groups_of_five [] = []"
| "groups_of_five (b # bs) =
     (take 5 (b # bs) @ replicate (5 - length (take 5 (b # bs))) False) # groups_of_five (drop 5 (b # bs))"
  by pat_completeness auto
termination
  by (relation "measure length") auto

definition base32_lower :: "string \<Rightarrow> string" where
  "base32_lower s = map (\<lambda>g. base32_digit (group_value g)) (groups_of_five (concat (map byte_bits s)))"

definition session_path_component :: "string \<Rightarrow> string" where
  "session_path_component s =
     (if direct_component s \<and> \<not> starts_with s encoded_prefix \<and> s \<notin> set windows_reserved_components then s
      else encoded_prefix @ base32_lower s)"

definition is_windows_compatible_component :: "string \<Rightarrow> bool" where
  "is_windows_compatible_component s \<longleftrightarrow>
     \<not> list_ex (\<lambda>c. c \<in> set (''<>:/|?*'' @ [CHR 0x22, CHR 0x5C])) s \<and>
     \<not> (ends_with s '' '' \<or> ends_with s ''.'') \<and>
     lowercase (takeWhile (\<lambda>c. c \<noteq> CHR ''.'') s) \<notin> set windows_reserved_components"

definition session_path_candidates :: "bool \<Rightarrow> string \<Rightarrow> string list" where
  "session_path_candidates on_windows s =
     (let canonical = session_path_component s
      in if canonical = s then [canonical]
         else if on_windows \<and> \<not> is_windows_compatible_component s then [canonical]
         else [canonical, s])"

text \<open>\<open>probe\<close> is \<^verbatim>\<open>lstat\<close> on a name below the root: it succeeds, finds nothing, or fails otherwise.\<close>

datatype probe_result = Probe_Found | Probe_Missing | Probe_Failed

fun first_stored :: "(string \<Rightarrow> probe_result) \<Rightarrow> string \<Rightarrow> string list \<Rightarrow> string option" where
  "first_stored probe ext [] = None"
| "first_stored probe ext (c # cs) =
     (if probe (c @ ext) = Probe_Missing then first_stored probe ext cs else Some (c @ ext))"

definition session_storage_path :: "(string \<Rightarrow> probe_result) \<Rightarrow> bool \<Rightarrow> string \<Rightarrow> string \<Rightarrow> string" where
  "session_storage_path probe on_windows s ext =
     (case first_stored probe ext (session_path_candidates on_windows s) of
        Some p \<Rightarrow> p | None \<Rightarrow> session_path_component s @ ext)"

definition is_encoded_session_path_component :: "string \<Rightarrow> bool" where
  "is_encoded_session_path_component s \<longleftrightarrow>
     starts_with s encoded_prefix \<and> drop (length encoded_prefix) s \<noteq> [] \<and>
     list_all (\<lambda>c. CHR ''a'' \<le> c \<and> c \<le> CHR ''z'' \<or> CHR ''2'' \<le> c \<and> c \<le> CHR ''7'') (drop (length encoded_prefix) s)"

section \<open>File names do not collide\<close>

lemma byte_bits_inj: "byte_bits c = byte_bits d \<Longrightarrow> c = d"
proof -
  assume eq: "byte_bits c = byte_bits d"
  have "bit (of_char c :: nat) i = bit (of_char d :: nat) i" for i
  proof (cases "i < 8")
    case True
    then have "i \<in> {0, 1, 2, 3, 4, 5, 6, 7}" by auto
    with eq show ?thesis by (auto simp: byte_bits_def)
  next
    case False
    have "\<not> bit (of_char x :: nat) i" for x
    proof -
      have "(of_char x :: nat) < 2 ^ 8" using nat_of_char_less_256 [of x] by simp
      also have "\<dots> \<le> 2 ^ i" using False by (intro power_increasing) auto
      finally show ?thesis by (simp add: bit_iff_odd div_less)
    qed
    then show ?thesis by simp
  qed
  then have "(of_char c :: nat) = of_char d" by (rule bit_eqI)
  then show ?thesis by (simp only: of_char_eq_iff)
qed

lemma length_byte_bits [simp]: "length (byte_bits c) = 8"
  by (simp add: byte_bits_def)

lemma bits_inj: "concat (map byte_bits s) = concat (map byte_bits t) \<Longrightarrow> s = t"
proof (induction s arbitrary: t)
  case Nil
  then show ?case by (cases t) (auto simp: byte_bits_def)
next
  case (Cons c s)
  then obtain d t' where t: "t = d # t'" by (cases t) (auto simp: byte_bits_def)
  with Cons.prems have "byte_bits c = byte_bits d" "concat (map byte_bits s) = concat (map byte_bits t')" by auto
  with Cons.IH byte_bits_inj show ?case by (auto simp: t)
qed

lemma length_bits: "length (concat (map byte_bits s)) = 8 * length s"
  by (induction s) auto

lemma groups_concat:
  "\<exists>k<5. concat (groups_of_five bs) = bs @ replicate k False"
proof (induction bs rule: groups_of_five.induct)
  case 1
  then show ?case by (intro exI [of _ 0]) simp
next
  case (2 b bs)
  show ?case
  proof (cases "length (b # bs) \<le> 5")
    case True
    then show ?thesis by (intro exI [of _ "5 - length (b # bs)"]) auto
  next
    case False
    from 2 obtain k where "k < 5" "concat (groups_of_five (drop 5 (b # bs))) = drop 5 (b # bs) @ replicate k False" by blast
    then have "concat (groups_of_five (b # bs)) = take 5 (b # bs) @ drop 5 (b # bs) @ replicate k False"
      using False by simp
    with \<open>k < 5\<close> show ?thesis by (metis append_assoc append_take_drop_id)
  qed
qed

lemma groups_length: "g \<in> set (groups_of_five bs) \<Longrightarrow> length g = 5"
  by (induction bs rule: groups_of_five.induct) auto

lemma group_value_snoc [simp]: "group_value (xs @ [b]) = 2 * group_value xs + (if b then 1 else 0)" "group_value [] = 0"
  by (simp_all add: group_value_def)

lemma group_value_less: "group_value xs < 2 ^ length xs"
  by (induction xs rule: rev_induct) auto

lemma group_value_inj: "length xs = length ys \<Longrightarrow> group_value xs = group_value ys \<Longrightarrow> xs = ys"
proof (induction xs arbitrary: ys rule: rev_induct)
  case Nil
  then show ?case by simp
next
  case (snoc b xs)
  then obtain ys' c where ys: "ys = ys' @ [c]" by (cases ys rule: rev_cases) auto
  have "b = c" "group_value xs = group_value ys'" using snoc.prems(2) by (auto simp: ys split: if_splits) presburger+
  with snoc.IH [of ys'] snoc.prems(1) show ?case by (simp add: ys)
qed

lemma group_digit_inj:
  assumes "length g = 5" "length h = 5" "base32_digit (group_value g) = base32_digit (group_value h)"
  shows "g = h"
proof -
  have "group_value g < 32" "group_value h < 32" using group_value_less [of g] group_value_less [of h] assms(1,2) by simp_all
  moreover have "distinct ''abcdefghijklmnopqrstuvwxyz234567''" by code_simp
  ultimately have "group_value g = group_value h"
    using assms(3) unfolding base32_digit_def by (subst (asm) nth_eq_iff_index_eq) auto
  then show ?thesis using assms(1,2) by (intro group_value_inj) simp
qed

lemma base32_inj: "base32_lower s = base32_lower t \<Longrightarrow> s = t"
proof -
  assume eq: "base32_lower s = base32_lower t"
  let ?b = "concat (map byte_bits s)" and ?c = "concat (map byte_bits t)"
  have "groups_of_five ?b = groups_of_five ?c"
  proof (rule nth_equalityI)
    show len: "length (groups_of_five ?b) = length (groups_of_five ?c)"
      using arg_cong [OF eq, of length] by (simp add: base32_lower_def)
    fix i assume i: "i < length (groups_of_five ?b)"
    then have "base32_digit (group_value (groups_of_five ?b ! i)) = base32_digit (group_value (groups_of_five ?c ! i))"
      using arg_cong [OF eq, of "\<lambda>x. x ! i"] len by (simp add: base32_lower_def)
    then show "groups_of_five ?b ! i = groups_of_five ?c ! i"
      using i len by (intro group_digit_inj groups_length) (auto intro: nth_mem)
  qed
  moreover obtain j where j: "j < 5" "concat (groups_of_five ?b) = ?b @ replicate j False" using groups_concat by blast
  moreover obtain k where k: "k < 5" "concat (groups_of_five ?c) = ?c @ replicate k False" using groups_concat by blast
  ultimately have e: "?b @ replicate j False = ?c @ replicate k False" by metis
  have "8 * length s + j = 8 * length t + k"
    using arg_cong [OF e, of length] by (simp add: length_bits)
  then have "length ?b = length ?c" using j(1) k(1) unfolding length_bits by presburger
  with e have "?b = ?c" by (simp add: append_eq_append_conv)
  then show "s = t" by (rule bits_inj)
qed

lemma lower_unchanged: "is_lower_digit c \<or> c \<in> {CHR ''_'', CHR ''-'', CHR ''~''} \<Longrightarrow> lower_char c = c"
proof -
  assume "is_lower_digit c \<or> c \<in> {CHR ''_'', CHR ''-'', CHR ''~''}"
  then have "97 \<le> (of_char c :: nat) \<and> (of_char c :: nat) \<le> 122 \<or> 48 \<le> (of_char c :: nat) \<and> (of_char c :: nat) \<le> 57 \<or>
      (of_char c :: nat) \<in> {95, 45, 126}"
    by (auto simp: is_lower_digit_def less_eq_char_def)
  then show ?thesis by (auto simp: lower_char_def Let_def)
qed

lemma base32_lower_chars: "c \<in> set (base32_lower s) \<Longrightarrow> is_lower_digit c"
proof -
  assume "c \<in> set (base32_lower s)"
  then obtain g where g: "g \<in> set (groups_of_five (concat (map byte_bits s)))" "c = base32_digit (group_value g)"
    by (auto simp: base32_lower_def)
  have "group_value g < 32" using group_value_less [of g] groups_length [OF g(1)] by simp
  then have "c \<in> set ''abcdefghijklmnopqrstuvwxyz234567''"
    unfolding g(2) base32_digit_def by (intro nth_mem) simp
  moreover have "list_all is_lower_digit ''abcdefghijklmnopqrstuvwxyz234567''" by code_simp
  ultimately show ?thesis by (simp only: list_all_iff)
qed

lemma component_cases:
  obtains (direct) "direct_component s" "session_path_component s = s"
  | (encoded) "session_path_component s = encoded_prefix @ base32_lower s"
  unfolding session_path_component_def by (cases "direct_component s") metis+

lemma component_lowercase: "lowercase (session_path_component s) = session_path_component s"
proof (cases s rule: component_cases)
  case direct
  have "lower_char c = c" if "c \<in> set s" for c
    using that direct(1) by (intro lower_unchanged) (auto simp: direct_component_def list_all_iff split: list.splits)
  with direct(2) show ?thesis by (simp add: lowercase_def map_idI)
next
  case encoded
  have "lowercase (base32_lower s) = base32_lower s"
    unfolding lowercase_def by (intro map_idI lower_unchanged disjI1 base32_lower_chars)
  moreover have "lowercase encoded_prefix = encoded_prefix" by code_simp
  ultimately show ?thesis unfolding encoded by (simp add: lowercase_def)
qed

lemma direct_not_encoded: "direct_component s \<Longrightarrow> s \<noteq> encoded_prefix @ t"
proof
  assume "direct_component s" "s = encoded_prefix @ t"
  then have "is_lower_digit (CHR ''~'')" by (simp add: direct_component_def encoded_prefix_def)
  moreover have "\<not> is_lower_digit (CHR ''~'')" by code_simp
  ultimately show False by contradiction
qed

lemma component_inj:
  assumes "session_path_component s = session_path_component t"
  shows "s = t"
proof (cases s rule: component_cases)
  case direct
  with assms direct_not_encoded [OF direct(1)] show ?thesis by (cases t rule: component_cases) simp_all
next
  case encoded
  show ?thesis
  proof (cases t rule: component_cases)
    case direct
    with assms encoded direct_not_encoded [OF direct(1)] show ?thesis by metis
  next
    case encoded': encoded
    with assms encoded have "base32_lower s = base32_lower t" by simp
    then show ?thesis by (rule base32_inj)
  qed
qed

section \<open>Previews\<close>

text \<open>The categories Cc and Cf of code points below 256.\<close>

definition hidden_char :: "char \<Rightarrow> bool" where
  "hidden_char c = (let n = (of_char c :: nat) in n < 32 \<or> 127 \<le> n \<and> n < 160 \<or> n = 0xAD)"

definition max_session_preview_chars :: nat where
  "max_session_preview_chars = 120"

definition is_safe_session_preview :: "json \<Rightarrow> bool" where
  "is_safe_session_preview v =
     (case v of JStr s \<Rightarrow> length s \<le> max_session_preview_chars \<and> \<not> list_ex hidden_char s | _ \<Rightarrow> False)"

definition normalize_session_preview :: "string \<Rightarrow> string" where
  "normalize_session_preview s =
     take max_session_preview_chars (single_spaced (map (\<lambda>c. if hidden_char c then CHR '' '' else c) s))"

text \<open>\<open>display role content\<close> is \<^verbatim>\<open>display_content\<close> for the user and \<^verbatim>\<open>content_text\<close> for the others.\<close>

definition display_message_text :: "(string option \<Rightarrow> json \<Rightarrow> string) \<Rightarrow> message \<Rightarrow> string" where
  "display_message_text display m =
     (if is_synthetic_context_message m then []
      else
        let text = strip (display (msg_role m) (msg_content m))
        in if has_role ''user'' m \<and> starts_with text ''[SESSION_EXIT]'' then []
           else if has_role ''user'' m \<and> starts_with text ''[SESSION_RESUME]''
           then (case split_first [10, 10] (codes text) of
                   None \<Rightarrow> [] | Some (before, after) \<Rightarrow> strip (map char_of after))
           else text)"

fun latest_preview :: "(string option \<Rightarrow> json \<Rightarrow> string) \<Rightarrow> message list \<Rightarrow> string option" where
  "latest_preview display [] = None"
| "latest_preview display (m # ms) =
     (if \<not> has_role ''user'' m then latest_preview display ms
      else let text = normalize_session_preview (display_message_text display m)
           in if text = [] then latest_preview display ms else Some text)"

text \<open>\<open>goal\<close> is the objective of the session's goal, when there is one.\<close>

definition get_preview :: "(string option \<Rightarrow> json \<Rightarrow> string) \<Rightarrow> message list \<Rightarrow> string option \<Rightarrow> string" where
  "get_preview display messages goal =
     (case latest_preview display (rev messages) of
        Some text \<Rightarrow> text
      | None \<Rightarrow> (case goal of None \<Rightarrow> [] | Some objective \<Rightarrow> normalize_session_preview objective))"

section \<open>The recent conversation\<close>

record conversation_entry =
  ce_role :: string
  ce_content :: string
  ce_images :: "json list"

definition max_recent_conversation_bytes :: int where
  "max_recent_conversation_bytes = 256 * 1024"

definition max_recent_entry_bytes :: int where
  "max_recent_entry_bytes = 64 * 1024"

definition max_recent_conversation_entries :: nat where
  "max_recent_conversation_entries = 128"

definition preview_truncated :: string where
  "preview_truncated = [CHR 0x0A] @ ''[Preview truncated; open session history for full content.]''"

definition preview_omitted :: conversation_entry where
  "preview_omitted = \<lparr>ce_role = ''assistant'',
     ce_content = ''[Earlier preview entries omitted; open session history for full content.]'', ce_images = []\<rparr>"

definition cut_entry :: "conversation_entry \<Rightarrow> nat \<Rightarrow> conversation_entry" where
  "cut_entry e n = e\<lparr>ce_content := take n (ce_content e) @ preview_truncated\<rparr>"

text \<open>\<open>size_of\<close> is \<^verbatim>\<open>_preview_size\<close>: the bytes of the entry's compact JSON text.\<close>

function search_cut :: "(conversation_entry \<Rightarrow> nat) \<Rightarrow> conversation_entry \<Rightarrow> int \<Rightarrow> nat \<Rightarrow> nat \<Rightarrow> nat" where
  "search_cut size_of e budget low high =
     (if low < high
      then let middle = (low + high + 1) div 2
           in if int (size_of (cut_entry e middle)) \<le> budget then search_cut size_of e budget middle high
              else search_cut size_of e budget low (middle - 1)
      else low)"
  by pat_completeness auto
termination
  by (relation "measure (\<lambda>(s, e, b, low, high). high - low)") (auto simp: Let_def)

declare search_cut.simps [simp del]

definition fit_entry :: "(conversation_entry \<Rightarrow> nat) \<Rightarrow> int \<Rightarrow> conversation_entry \<Rightarrow> conversation_entry option" where
  "fit_entry size_of budget e =
     (if int (length (ce_content e)) \<le> budget \<and> int (size_of e) \<le> budget then Some e
      else if budget < int (size_of (e\<lparr>ce_content := preview_truncated\<rparr>)) then None
      else Some (cut_entry e (search_cut size_of e budget 0 (nat (min (int (length (ce_content e))) budget)))))"

text \<open>The newest entries first.\<close>

fun select_entries ::
    "(conversation_entry \<Rightarrow> nat) \<Rightarrow> int \<Rightarrow> conversation_entry list \<Rightarrow> conversation_entry list \<Rightarrow> conversation_entry list" where
  "select_entries size_of remaining selected [] = selected"
| "select_entries size_of remaining selected (e # es) =
     (if max_recent_conversation_entries \<le> length selected then selected
      else case fit_entry size_of (min max_recent_entry_bytes (remaining - 1)) e of
             None \<Rightarrow> selected
           | Some p \<Rightarrow> select_entries size_of (remaining - (int (size_of p) + 1)) (selected @ [p]) es)"

definition bounded_recent_conversation ::
    "(conversation_entry \<Rightarrow> nat) \<Rightarrow> conversation_entry list \<Rightarrow> conversation_entry list" where
  "bounded_recent_conversation size_of entries =
     (let selected = select_entries size_of
            (max_recent_conversation_bytes - 2 - int (size_of preview_omitted) - 1) [] (rev entries)
      in rev (if length selected < length entries then selected @ [preview_omitted] else selected))"

text \<open>\<open>image_refs\<close> gives the references of a part that is a valid image.\<close>

definition conversation_entry_of :: "(json \<Rightarrow> json option) \<Rightarrow> message \<Rightarrow> string \<Rightarrow> conversation_entry" where
  "conversation_entry_of image_ref m text =
     \<lparr>ce_role = or_empty (msg_role m), ce_content = text,
      ce_images =
        (if has_role ''user'' m
         then take 30 (map the (filter (\<lambda>r. r \<noteq> None) (map image_ref
           (filter (\<lambda>p. is_object p \<and> jget p ''type'' = JStr ''image'') (list_items (msg_content m))))))
         else [])\<rparr>"

definition conversation_entries ::
    "(string option \<Rightarrow> json \<Rightarrow> string) \<Rightarrow> (json \<Rightarrow> json option) \<Rightarrow> message list \<Rightarrow> conversation_entry list" where
  "conversation_entries display image_ref messages =
     concat (map (\<lambda>m. if has_role ''user'' m \<or> is_assistant m
         then let text = display_message_text display m in if text = [] then [] else [conversation_entry_of image_ref m text]
         else []) messages)"

text \<open>\<open>recovered\<close> is the interrupted output of the ledger, \<open>spoken\<close> its committed messages, both with their sequence numbers.\<close>

definition merge_history_entries ::
    "conversation_entry list \<Rightarrow> (int \<times> string) list \<Rightarrow> (int \<times> conversation_entry) list \<Rightarrow> conversation_entry list" where
  "merge_history_entries entries recovered spoken =
     (let timeline = map (\<lambda>(seq, text). (seq, \<lparr>ce_role = ''assistant'', ce_content = text, ce_images = []\<rparr>)) recovered @ spoken;
          history = map snd (sort_key fst timeline);
          known = map (\<lambda>e. (ce_role e, ce_content e)) history
      in filter (\<lambda>e. (ce_role e, ce_content e) \<notin> set known) entries @ history)"

definition recent_turns :: "nat \<Rightarrow> conversation_entry list \<Rightarrow> conversation_entry list" where
  "recent_turns max_user_turns entries =
     (let positions = filter (\<lambda>i. ce_role (entries ! i) = ''user'') [0..<length entries]
      in if max_user_turns < length positions
         then drop (positions ! (if max_user_turns = 0 then 0 else length positions - max_user_turns)) entries
         else entries)"

definition get_recent_conversation ::
    "(conversation_entry \<Rightarrow> nat) \<Rightarrow> (string option \<Rightarrow> json \<Rightarrow> string) \<Rightarrow> (json \<Rightarrow> json option) \<Rightarrow> message list \<Rightarrow>
       (int \<times> string) list \<Rightarrow> (int \<times> message) list \<Rightarrow> bool \<Rightarrow> nat \<Rightarrow> conversation_entry list" where
  "get_recent_conversation size_of display image_ref messages recovered events projection_safe max_user_turns =
     (let entries = conversation_entries display image_ref messages;
          spoken = concat (map (\<lambda>(seq, m). map (\<lambda>e. (seq, e)) (conversation_entries display image_ref [m])) events);
          merged = (if recovered \<noteq> [] \<or> \<not> projection_safe then merge_history_entries entries recovered spoken else entries)
      in bounded_recent_conversation size_of (recent_turns max_user_turns merged))"

section \<open>Runtime state\<close>

record session_runtime_state =
  rt_model :: json
  rt_active_mode :: json
  rt_llm_debug_trace :: json
  rt_active_main_model_profile :: json
  rt_active_sub_model_profile :: json
  rt_approval_rules :: "json list"
  rt_execution_target :: json
  rt_remote_binding :: json
  rt_plan_state :: json
  rt_progress_state :: json
  rt_skills_disabled :: "string list"
  rt_goal :: json

definition object_or_empty :: "json \<Rightarrow> json" where
  "object_or_empty v = (if is_object v then v else JObj [])"

definition runtime_from_dict :: "context_env \<Rightarrow> json \<Rightarrow> session_runtime_state" where
  "runtime_from_dict env data =
     (let payload = (if truthy data then data else JObj [])
      in \<lparr>rt_model = jget payload ''model'', rt_active_mode = jget payload ''active_mode'',
          rt_llm_debug_trace = jget payload ''llm_debug_trace'',
          rt_active_main_model_profile = jget payload ''active_main_model_profile'',
          rt_active_sub_model_profile = jget payload ''active_sub_model_profile'',
          rt_approval_rules = filter is_object (list_items (jget payload ''approval_rules'')),
          rt_execution_target = jget payload ''execution_target'',
          rt_remote_binding = object_or_empty (jget payload ''remote_binding''),
          rt_plan_state = object_or_empty (jget payload ''plan_state''),
          rt_progress_state = object_or_empty (jget payload ''progress_state''),
          rt_skills_disabled = map (str_of env) (list_items (jget payload ''skills_disabled'')),
          rt_goal = jget payload ''goal''\<rparr>)"

definition runtime_to_dict :: "session_runtime_state \<Rightarrow> json" where
  "runtime_to_dict r = JObj
     [(''model'', rt_model r), (''active_mode'', rt_active_mode r), (''llm_debug_trace'', rt_llm_debug_trace r),
      (''active_main_model_profile'', rt_active_main_model_profile r),
      (''active_sub_model_profile'', rt_active_sub_model_profile r),
      (''approval_rules'', JList (rt_approval_rules r)), (''execution_target'', rt_execution_target r),
      (''remote_binding'', rt_remote_binding r), (''plan_state'', rt_plan_state r),
      (''progress_state'', rt_progress_state r), (''skills_disabled'', json_strs (rt_skills_disabled r)),
      (''goal'', rt_goal r)]"

section \<open>Restore issues\<close>

record restore_issue =
  ri_phase :: string
  ri_error_type :: string
  ri_ref :: string
  ri_count :: int

definition is_fact_text :: "string \<Rightarrow> bool" where
  "is_fact_text s \<longleftrightarrow> s \<noteq> [] \<and> length s \<le> 64 \<and> list_all (\<lambda>c. is_alnum c \<or> c = CHR ''_'') s \<and> list_ex is_alnum s"

definition restore_fact :: "json \<Rightarrow> string \<Rightarrow> (string, string) result" where
  "restore_fact v fieldname =
     (case v of JStr s \<Rightarrow> if is_fact_text s then Inr s else Inl (''invalid restore issue '' @ fieldname)
      | _ \<Rightarrow> Inl (''invalid restore issue '' @ fieldname))"

definition restore_issue_ok :: "restore_issue \<Rightarrow> bool" where
  "restore_issue_ok i \<longleftrightarrow> is_fact_text (ri_phase i) \<and> is_fact_text (ri_error_type i) \<and> is_fact_text (ri_ref i) \<and> 0 \<le> ri_count i"

definition issue_from_dict :: "json \<Rightarrow> (string, restore_issue) result" where
  "issue_from_dict data =
     (if \<not> is_object data then Inl ''restore issue must be an object''
      else
        bind_result (restore_fact (jget data ''phase'') ''phase'') (\<lambda>phase.
        bind_result (restore_fact (jget data ''error_type'') ''error_type'') (\<lambda>error_type.
        bind_result (restore_fact (jget data ''ref'') ''ref'') (\<lambda>ref.
          (case get_or data ''count'' (JInt 0) of
             JInt n \<Rightarrow> if 0 \<le> n then Inr \<lparr>ri_phase = phase, ri_error_type = error_type, ri_ref = ref, ri_count = n\<rparr>
               else Inl ''restore issue count must be a non-negative integer''
           | _ \<Rightarrow> Inl ''restore issue count must be a non-negative integer'')))))"

definition issue_to_dict :: "restore_issue \<Rightarrow> json" where
  "issue_to_dict i = JObj ([(''phase'', JStr (ri_phase i)), (''error_type'', JStr (ri_error_type i)), (''ref'', JStr (ri_ref i))] @
     (if ri_count i = 0 then [] else [(''count'', JInt (ri_count i))]))"

lemma issue_stored: "restore_issue_ok i \<Longrightarrow> issue_from_dict (issue_to_dict i) = Inr i"
  by (simp add: issue_from_dict_def issue_to_dict_def is_object_def restore_fact_def restore_issue_ok_def get_or_def has_key_def)

section \<open>Previews are safe\<close>

lemma collapse_spaces_chars:
  "w \<in> set (collapse_spaces cur s) \<Longrightarrow> c \<in> set w \<Longrightarrow> c \<in> set cur \<or> c \<in> set s"
proof (induction cur s rule: collapse_spaces.induct)
  case (1 cur)
  then show ?case by (auto split: if_splits)
next
  case (2 cur d s)
  then show ?case by (auto split: if_splits)
qed

lemma join_chars: "c \<in> set (join sep ws) \<Longrightarrow> c \<in> set sep \<or> (\<exists>w\<in>set ws. c \<in> set w)"
  by (induction sep ws rule: join.induct) auto

lemma single_spaced_chars: "c \<in> set (single_spaced s) \<Longrightarrow> c = CHR '' '' \<or> c \<in> set s"
  unfolding single_spaced_def by (auto dest!: join_chars collapse_spaces_chars)

lemma normalized_preview_safe: "is_safe_session_preview (JStr (normalize_session_preview s))"
proof -
  have "\<not> hidden_char c" if "c \<in> set (normalize_session_preview s)" for c
  proof -
    have "c = CHR '' '' \<or> c \<in> set (map (\<lambda>c. if hidden_char c then CHR '' '' else c) s)"
      using that single_spaced_chars unfolding normalize_session_preview_def by (blast dest: in_set_takeD)
    moreover have "\<not> hidden_char (CHR '' '')" by code_simp
    ultimately show ?thesis by auto
  qed
  moreover have "length (normalize_session_preview s) \<le> max_session_preview_chars"
    by (simp add: normalize_session_preview_def)
  ultimately show ?thesis unfolding is_safe_session_preview_def list_ex_iff json.case by blast
qed

lemma latest_preview_safe: "latest_preview display ms = Some text \<Longrightarrow> is_safe_session_preview (JStr text)"
  by (induction ms) (auto simp: Let_def normalized_preview_safe split: if_splits)

section \<open>The recent conversation stays within its budget\<close>

lemma search_cut_fits:
  "int (size_of (cut_entry e low)) \<le> budget \<Longrightarrow> low \<le> high \<Longrightarrow>
     int (size_of (cut_entry e (search_cut size_of e budget low high))) \<le> budget \<and>
     low \<le> search_cut size_of e budget low high \<and> search_cut size_of e budget low high \<le> high"
proof (induction size_of e budget low high rule: search_cut.induct)
  case (1 size_of e budget low high)
  define middle where "middle = (low + high + 1) div 2"
  show ?case
  proof (cases "low < high")
    case True
    then have m: "low < middle" "middle \<le> high" by (auto simp: middle_def)
    show ?thesis
    proof (cases "int (size_of (cut_entry e middle)) \<le> budget")
      case fits: True
      have "search_cut size_of e budget low high = search_cut size_of e budget middle high"
        using True fits by (subst search_cut.simps) (simp add: Let_def middle_def)
      then show ?thesis using 1(1) [OF True middle_def fits fits m(2)] m by simp
    next
      case over: False
      have "search_cut size_of e budget low high = search_cut size_of e budget low (middle - 1)"
        using True over by (subst search_cut.simps) (simp add: Let_def middle_def)
      moreover have "low \<le> middle - 1" using m(1) by simp
      ultimately show ?thesis using 1(2) [OF True middle_def over 1(3)] m by force
    qed
  next
    case False
    then have "search_cut size_of e budget low high = low" by (subst search_cut.simps) simp
    with 1(3,4) show ?thesis by simp
  qed
qed

lemma search_cut_longest:
  assumes "\<And>i j. i \<le> j \<Longrightarrow> size_of (cut_entry e i) \<le> size_of (cut_entry e j)"
  shows "search_cut size_of e budget low high < n \<Longrightarrow> n \<le> high \<Longrightarrow> budget < int (size_of (cut_entry e n))"
  using assms
proof (induction size_of e budget low high rule: search_cut.induct)
  case (1 size_of e budget low high)
  define middle where "middle = (low + high + 1) div 2"
  show ?case
  proof (cases "low < high")
    case True
    show ?thesis
    proof (cases "int (size_of (cut_entry e middle)) \<le> budget")
      case fits: True
      then have "search_cut size_of e budget low high = search_cut size_of e budget middle high"
        using True by (subst search_cut.simps) (simp add: Let_def middle_def)
      then show ?thesis using 1(1) [OF True middle_def fits] 1(3-5) by simp
    next
      case over: False
      then have cut: "search_cut size_of e budget low high = search_cut size_of e budget low (middle - 1)"
        using True by (subst search_cut.simps) (simp add: Let_def middle_def)
      show ?thesis
      proof (cases "n \<le> middle - 1")
        case True': True
        then show ?thesis using 1(2) [OF True middle_def over] 1(3,5) cut by simp
      next
        case False
        then have "size_of (cut_entry e middle) \<le> size_of (cut_entry e n)" by (intro 1(5)) simp
        with over show ?thesis by simp
      qed
    qed
  next
    case False
    then have "search_cut size_of e budget low high = low" by (subst search_cut.simps) simp
    with 1(3,4) False show ?thesis by simp
  qed
qed

lemma cut_entry_0: "cut_entry e 0 = e\<lparr>ce_content := preview_truncated\<rparr>"
  by (simp add: cut_entry_def)

lemma fit_entry_fits:
  assumes "fit_entry size_of budget e = Some p"
  shows "int (size_of p) \<le> budget \<and> (p = e \<or> (\<exists>n. p = cut_entry e n))"
proof (cases "int (length (ce_content e)) \<le> budget \<and> int (size_of e) \<le> budget")
  case True
  with assms show ?thesis by (auto simp: fit_entry_def)
next
  case False
  then have "\<not> budget < int (size_of (cut_entry e 0))"
    "p = cut_entry e (search_cut size_of e budget 0 (nat (min (int (length (ce_content e))) budget)))"
    using assms by (auto simp: fit_entry_def cut_entry_0 split: if_splits)
  with search_cut_fits [of size_of e 0 budget] show ?thesis by auto
qed

definition entries_bytes :: "(conversation_entry \<Rightarrow> nat) \<Rightarrow> conversation_entry list \<Rightarrow> int" where
  "entries_bytes size_of es = sum_list (map (\<lambda>e. int (size_of e) + 1) es)"

lemma select_entries_budget:
  "0 \<le> remaining \<Longrightarrow>
     entries_bytes size_of (select_entries size_of remaining selected es) \<le> entries_bytes size_of selected + remaining \<and>
     length (select_entries size_of remaining selected es) \<le> max max_recent_conversation_entries (length selected)"
proof (induction es arbitrary: remaining selected)
  case Nil
  then show ?case by simp
next
  case (Cons e es)
  show ?case
  proof (cases "max_recent_conversation_entries \<le> length selected")
    case True
    with Cons.prems show ?thesis by simp
  next
    case False
    show ?thesis
    proof (cases "fit_entry size_of (min max_recent_entry_bytes (remaining - 1)) e")
      case None
      with False Cons.prems show ?thesis by simp
    next
      case (Some p)
      have "0 \<le> remaining - (int (size_of p) + 1)" using fit_entry_fits [OF Some] by simp
      from Cons.IH [OF this, of "selected @ [p]"] False Some show ?thesis
        by (auto simp: entries_bytes_def)
    qed
  qed
qed

lemma select_entries_shape:
  "\<exists>n. length (select_entries size_of remaining selected es) = length selected + n \<and> n \<le> length es \<and>
     list_all2 (\<lambda>p e. p = e \<or> (\<exists>k. p = cut_entry e k)) (drop (length selected) (select_entries size_of remaining selected es)) (take n es) \<and>
     take (length selected) (select_entries size_of remaining selected es) = selected"
proof (induction es arbitrary: remaining selected)
  case Nil
  then show ?case by (intro exI [of _ 0]) simp
next
  case (Cons e es)
  show ?case
  proof (cases "max_recent_conversation_entries \<le> length selected \<or>
      fit_entry size_of (min max_recent_entry_bytes (remaining - 1)) e = None")
    case True
    then show ?thesis by (intro exI [of _ 0]) auto
  next
    case False
    then obtain p where p: "fit_entry size_of (min max_recent_entry_bytes (remaining - 1)) e = Some p" by auto
    let ?out = "select_entries size_of (remaining - (int (size_of p) + 1)) (selected @ [p]) es"
    have out: "select_entries size_of remaining selected (e # es) = ?out" using False p by simp
    obtain n where n: "length ?out = length (selected @ [p]) + n" "n \<le> length es"
      "list_all2 (\<lambda>p e. p = e \<or> (\<exists>k. p = cut_entry e k)) (drop (length (selected @ [p])) ?out) (take n es)"
      "take (length (selected @ [p])) ?out = selected @ [p]"
      using Cons.IH by blast
    have "?out = selected @ p # drop (Suc (length selected)) ?out"
      using n(4) by (metis append_Cons append_Nil append_assoc append_take_drop_id length_append_singleton)
    then have d: "drop (length selected) ?out = p # drop (Suc (length selected)) ?out" "take (length selected) ?out = selected"
      by (metis append_eq_conv_conj)+
    show ?thesis
      unfolding out using n(1-3) d fit_entry_fits [OF p]
      by (intro exI [of _ "Suc n"]) auto
  qed
qed

section \<open>Properties\<close>

text \<open>The names that are tried for a session: its component, and its identity as it is, which older versions used.\<close>

definition falls_back :: "(string \<Rightarrow> probe_result) \<Rightarrow> string \<Rightarrow> string \<Rightarrow> bool" where
  "falls_back probe s ext \<longleftrightarrow> session_path_component s \<noteq> s \<and> probe (session_path_component s @ ext) = Probe_Missing \<and>
     probe (s @ ext) \<noteq> Probe_Missing"

lemma candidate_names: "set (session_path_candidates w s) \<subseteq> {session_path_component s, s}"
  by (auto simp: session_path_candidates_def Let_def)

lemma safe_not_encoded:
  assumes "is_safe_session_id (JStr t)" "session_path_component t \<noteq> t"
  shows "session_path_component s \<noteq> t"
proof (cases s rule: component_cases)
  case direct
  with assms(2) show ?thesis by auto
next
  case encoded
  have "is_alnum (hd t)" using assms(1) by (cases t) (auto simp: is_safe_session_id_def)
  moreover have "\<not> is_alnum (hd (session_path_component s))"
    unfolding encoded(1) by (simp add: encoded_prefix_def is_alnum_def is_lower_digit_def less_eq_char_def)
  ultimately show ?thesis by blast
qed

text \<open>Different safe identities have no name in common.\<close>

lemma names_disjoint:
  assumes "is_safe_session_id (JStr s)" "is_safe_session_id (JStr t)" "s \<noteq> t"
    and "a \<in> set (session_path_candidates w s)" "b \<in> set (session_path_candidates w t)"
  shows "a \<noteq> b"
proof -
  have "a \<in> {session_path_component s, s}" "b \<in> {session_path_component t, t}"
    using candidate_names assms(4,5) by blast+
  moreover have "session_path_component s \<noteq> session_path_component t" using component_inj assms(3) by blast
  moreover have "session_path_component t \<noteq> s" using safe_not_encoded [OF assms(1), of t] calculation(3) by metis
  moreover have "session_path_component s \<noteq> t" using safe_not_encoded [OF assms(2), of s] calculation(3) by metis
  ultimately show ?thesis using assms(3) by auto
qed

lemma first_stored_member: "first_stored probe ext cs = Some p \<Longrightarrow> \<exists>c\<in>set cs. p = c @ ext"
  by (induction cs) (auto split: if_splits)

lemma storage_name: "\<exists>c\<in>set (session_path_candidates w s). session_storage_path probe w s ext = c @ ext"
proof -
  have "session_path_component s \<in> set (session_path_candidates w s)" by (simp add: session_path_candidates_def Let_def)
  then show ?thesis
    using first_stored_member [of probe ext "session_path_candidates w s"]
    by (auto simp: session_storage_path_def split: option.split)
qed

lemma first_stored_other:
  "\<forall>c\<in>set cs. c @ ext \<noteq> p \<Longrightarrow> first_stored (probe(p := x)) ext cs = first_stored probe ext cs"
  by (induction cs) auto

lemma storage_cases:
  "session_storage_path probe w s ext = (if falls_back probe s ext \<and> s \<in> set (session_path_candidates w s)
     then s @ ext else session_path_component s @ ext)"
  by (auto simp: session_storage_path_def session_path_candidates_def falls_back_def Let_def)



text \<open>The exception is real: on a file system that ignores case, the session \<open>foo\<close> makes the name of a session
  \<open>Foo\<close> look stored, and both are given the same file.\<close>

definition ignoring_case :: "string list \<Rightarrow> string \<Rightarrow> probe_result" where
  "ignoring_case stored name = (if lowercase name \<in> set (map lowercase stored) then Probe_Found else Probe_Missing)"

theorem capital_identity_takes_other_file:
  "lowercase (session_storage_path (ignoring_case [''foo.json'']) False ''Foo'' ''.json'') = ''foo.json'' \<and>
   session_storage_path (ignoring_case [''foo.json'']) False ''foo'' ''.json'' = ''foo.json''"
  by code_simp

text \<open>A preview can always be stored: whatever the conversation and the goal hold, the preview of a session is
  accepted by the check that restoring it applies.\<close>

theorem previews_are_safe: "is_safe_session_preview (JStr (get_preview display messages goal))"
proof -
  have "\<not> list_ex hidden_char []" by simp
  then have "is_safe_session_preview (JStr [])" by (simp add: is_safe_session_preview_def)
  then show ?thesis
    using latest_preview_safe normalized_preview_safe
    by (auto simp: get_preview_def split: option.split)
qed

text \<open>C24: The recent conversation fits its budget of 256 KiB of JSON text, brackets and separators counted, and has at
  most 128 entries and a notice; without the notice it is the whole conversation, otherwise its newest
  entries, each whole or cut with a remark.\<close>

theorem recent_conversation_bounded:
  assumes "out = bounded_recent_conversation size_of entries" and "int (size_of preview_omitted) < 200000"
  shows "2 + sum_list (map (\<lambda>e. int (size_of e) + 1) out) \<le> 256 * 1024 \<and> length out \<le> 129 \<and>
    (\<exists>n\<le>length entries. \<exists>kept. list_all2 (\<lambda>p e. p = e \<or> (\<exists>k. p = cut_entry e k)) kept (take n (rev entries)) \<and>
       out = rev (if n < length entries then kept @ [preview_omitted] else kept))"
proof -
  define start where "start = max_recent_conversation_bytes - 2 - int (size_of preview_omitted) - 1"
  define kept where "kept = select_entries size_of start [] (rev entries)"
  have out: "out = rev (if length kept < length entries then kept @ [preview_omitted] else kept)"
    using assms(1) by (simp add: bounded_recent_conversation_def kept_def start_def)
  have start: "0 \<le> start" using assms(2) by (simp add: start_def max_recent_conversation_bytes_def)
  have b: "entries_bytes size_of kept \<le> start" "length kept \<le> 128"
    using select_entries_budget [OF start, of size_of "[]" "rev entries"]
    by (simp_all add: kept_def entries_bytes_def max_recent_conversation_entries_def)
  obtain n where n: "length kept = n" "n \<le> length (rev entries)"
    "list_all2 (\<lambda>p e. p = e \<or> (\<exists>k. p = cut_entry e k)) kept (take n (rev entries))"
    using select_entries_shape [of size_of start "[]" "rev entries"] by (auto simp: kept_def)
  have "2 + sum_list (map (\<lambda>e. int (size_of e) + 1) out) \<le> 256 * 1024"
    using b(1) by (auto simp: out entries_bytes_def start_def max_recent_conversation_bytes_def rev_map [symmetric])
  moreover have "length out \<le> 129" using b(2) by (simp add: out)
  ultimately show ?thesis
    using n out by (intro conjI exI [of _ n]) auto
qed

theorem recent_conversation_bounded_witness:
  "length (bounded_recent_conversation (\<lambda>e. length (ce_content e) + 30)
     [\<lparr>ce_role = ''user'', ce_content = ''hello'', ce_images = []\<rparr>]) \<le> 129"
proof -
  have "int (length (ce_content preview_omitted) + 30) < 200000" by (simp add: preview_omitted_def)
  from recent_conversation_bounded [OF refl, of "\<lambda>e. length (ce_content e) + 30", OF this] show ?thesis by blast
qed

text \<open>C25: An entry that does not fit is cut at the longest place: when more text never makes an entry smaller, the cut the
  binary search finds fits the budget, and every longer cut it could have taken does not.\<close>

theorem cut_is_longest_fit:
  assumes "\<forall>i j. i \<le> j \<longrightarrow> size_of (cut_entry e i) \<le> size_of (cut_entry e j)"
    and "int (size_of (cut_entry e 0)) \<le> budget" and "high = nat (min (int (length (ce_content e))) budget)"
    and "n = search_cut size_of e budget 0 high"
  shows "int (size_of (cut_entry e n)) \<le> budget \<and> n \<le> high \<and>
    (\<forall>m. n < m \<and> m \<le> high \<longrightarrow> budget < int (size_of (cut_entry e m)))"
proof -
  have "int (size_of (cut_entry e n)) \<le> budget \<and> n \<le> high"
    using search_cut_fits [of size_of e 0 budget high] assms(2,4) by auto
  moreover have "budget < int (size_of (cut_entry e m))" if "n < m" "m \<le> high" for m
    using search_cut_longest [of size_of e budget 0 high m] assms(1,4) that by blast
  ultimately show ?thesis by blast
qed

theorem cut_is_longest_fit_witness:
  "int (length (ce_content (cut_entry preview_omitted (search_cut (\<lambda>e. length (ce_content e)) preview_omitted 70
     0 (nat (min (int (length (ce_content preview_omitted))) 70)))))) \<le> 70"
proof -
  have mono: "\<forall>i j. i \<le> j \<longrightarrow> length (ce_content (cut_entry preview_omitted i)) \<le> length (ce_content (cut_entry preview_omitted j))"
    by (auto simp: cut_entry_def)
  have "int (length (ce_content (cut_entry preview_omitted 0))) \<le> 70"
    by (simp add: cut_entry_def preview_truncated_def)
  with cut_is_longest_fit [where size_of = "\<lambda>e. length (ce_content e)", OF mono _ refl refl] show ?thesis by blast
qed

text \<open>Runtime state survives storage: what was stored comes back, when its mappings and rules are objects.\<close>

theorem runtime_state_roundtrip:
  assumes "is_object (rt_remote_binding r)" "is_object (rt_plan_state r)" "is_object (rt_progress_state r)"
    and "list_all is_object (rt_approval_rules r)"
  shows "runtime_from_dict env (runtime_to_dict r) = r"
  using assms
  by (simp add: runtime_from_dict_def runtime_to_dict_def object_or_empty_def list_items_def json_strs_def str_of_def o_def
      list_all_iff)

theorem runtime_state_roundtrip_witness:
  "runtime_from_dict ex_context_env (runtime_to_dict
     \<lparr>rt_model = JStr ''m'', rt_active_mode = JNull, rt_llm_debug_trace = JNull, rt_active_main_model_profile = JNull,
      rt_active_sub_model_profile = JNull, rt_approval_rules = [JObj []], rt_execution_target = JNull,
      rt_remote_binding = JObj [], rt_plan_state = JObj [], rt_progress_state = JObj [], rt_skills_disabled = [''s''],
      rt_goal = JNull\<rparr>) =
     \<lparr>rt_model = JStr ''m'', rt_active_mode = JNull, rt_llm_debug_trace = JNull, rt_active_main_model_profile = JNull,
      rt_active_sub_model_profile = JNull, rt_approval_rules = [JObj []], rt_execution_target = JNull,
      rt_remote_binding = JObj [], rt_plan_state = JObj [], rt_progress_state = JObj [], rt_skills_disabled = [''s''],
      rt_goal = JNull\<rparr>"
  by (rule runtime_state_roundtrip) (simp_all add: is_object_def)

end
