(* ===== verification/Session_Validation.thy ===== *)
theory Session_Validation
  imports Session_Models Plan
begin

text \<open>
  Checks of stored session data (\<^verbatim>\<open>infrastructure/persistence/session_validation.py\<close>): metadata, runtime
  state, request records, checkpoints, history events of every kind, and the bounded collector of restore
  issues. Text is below code point 256, so it can always be encoded, and floats are finite. \<^verbatim>\<open>json.dumps\<close>,
  \<^verbatim>\<open>str()\<close> on values that are not text and the parsing of dates are arguments. A check
  returns which exception its source raises, because the callers catch some and not others.
\<close>

section \<open>Values\<close>

definition max_restore_issues :: nat where
  "max_restore_issues = 8"

definition bounded_runtime_text :: "nat \<Rightarrow> json \<Rightarrow> bool" where
  "bounded_runtime_text n v = (case v of JStr s \<Rightarrow> length s \<le> n \<and> \<not> list_ex hidden_char s | _ \<Rightarrow> False)"

definition bounded_safe_text :: "nat \<Rightarrow> json \<Rightarrow> bool" where
  "bounded_safe_text n v \<longleftrightarrow> nonempty_text v \<and> bounded_runtime_text n v"

definition artifact_char :: "char \<Rightarrow> bool" where
  "artifact_char c \<longleftrightarrow> is_alnum c \<or> c = CHR ''_'' \<or> c = CHR ''.'' \<or> c = CHR ''-''"

definition is_safe_artifact_id :: "json \<Rightarrow> bool" where
  "is_safe_artifact_id v = (case v of
     JStr (c # s) \<Rightarrow> Suc (length s) \<le> 128 \<and> is_alnum c \<and> list_all artifact_char s \<and> \<not> contains_text ''..'' (c # s)
   | _ \<Rightarrow> False)"

text \<open>Strings of code points below 256 are always encodable: the depth remains.\<close>

fun shallow_tree :: "nat \<Rightarrow> json \<Rightarrow> bool" where
  "shallow_tree depth (JObj fs) = (depth \<le> 64 \<and> list_all (\<lambda>f. shallow_tree (Suc depth) (snd f)) fs)"
| "shallow_tree depth (JList vs) = (depth \<le> 64 \<and> list_all (shallow_tree (Suc depth)) vs)"
| "shallow_tree depth _ = (depth \<le> 64)"

definition safe_restore_fact :: "string \<Rightarrow> string \<Rightarrow> string" where
  "safe_restore_fact s fallback = (if is_fact_text s then s else fallback)"

definition safe_error_type :: "string \<Rightarrow> string" where
  "safe_error_type name = (if is_fact_text name then name else ''Exception'')"

definition is_valid_token_count :: "json \<Rightarrow> bool" where
  "is_valid_token_count v = (case v of JInt n \<Rightarrow> 0 \<le> n | _ \<Rightarrow> False)"

definition bounded_projection_count :: "json \<Rightarrow> int" where
  "bounded_projection_count v = (case v of JInt n \<Rightarrow> if 0 \<le> n then min n max_replay_counter else 0 | _ \<Rightarrow> 0)"

definition bounded_projection_length :: "json \<Rightarrow> int" where
  "bounded_projection_length v = (if is_list v then min (int (length (list_items v))) max_replay_counter else 0)"

datatype check_error = Check_Value string | Check_Type | Check_Overflow

definition check_value :: "bool \<Rightarrow> string \<Rightarrow> (check_error, unit) result" where
  "check_value b message = (if b then Inr () else Inl (Check_Value message))"

definition check_object :: "json \<Rightarrow> (check_error, unit) result" where
  "check_object v = (if is_object v then Inr () else Inl Check_Type)"

text \<open>\<^verbatim>\<open>math.isfinite\<close> raises for an integer that no float is near to.\<close>

definition float_limit :: int where
  "float_limit = 2 ^ 1024 - 2 ^ 970"

definition check_timestamp :: "json \<Rightarrow> string \<Rightarrow> (check_error, unit) result" where
  "check_timestamp v message = (case v of
     JInt n \<Rightarrow> if float_limit \<le> \<bar>n\<bar> then Inl Check_Overflow else check_value (0 \<le> n) message
   | JReal x \<Rightarrow> check_value (0 \<le> x) message
   | _ \<Rightarrow> Inl (Check_Value message))"

definition opt_ok :: "(json \<Rightarrow> bool) \<Rightarrow> json \<Rightarrow> bool" where
  "opt_ok P v \<longleftrightarrow> v = JNull \<or> P v"

definition is_bool :: "json \<Rightarrow> bool" where
  "is_bool v = (case v of JBool _ \<Rightarrow> True | _ \<Rightarrow> False)"

definition text_in :: "string list \<Rightarrow> json \<Rightarrow> bool" where
  "text_in ss v \<longleftrightarrow> v \<in> JStr ` set ss"

section \<open>The issue collector\<close>

record issue_collector =
  ic_issues :: "restore_issue list"
  ic_omitted :: int

definition empty_collector :: issue_collector where
  "empty_collector = \<lparr>ic_issues = [], ic_omitted = 0\<rparr>"

definition issue_key :: "restore_issue \<Rightarrow> string \<times> string \<times> string" where
  "issue_key i = (ri_phase i, ri_error_type i, ri_ref i)"

definition occurrences :: "restore_issue \<Rightarrow> int" where
  "occurrences i = max 1 (ri_count i)"

fun bump_issue :: "restore_issue \<Rightarrow> restore_issue list \<Rightarrow> restore_issue list option" where
  "bump_issue i [] = None"
| "bump_issue i (c # cs) =
     (if issue_key c = issue_key i then Some (c\<lparr>ri_count := occurrences c + occurrences i\<rparr> # cs)
      else map_option (\<lambda>cs'. c # cs') (bump_issue i cs))"

definition add_issue :: "issue_collector \<Rightarrow> restore_issue \<Rightarrow> issue_collector" where
  "add_issue ic i =
     (if ri_error_type i = ''AdditionalIssuesOmitted'' then ic\<lparr>ic_omitted := ic_omitted ic + occurrences i\<rparr>
      else case bump_issue i (ic_issues ic) of
             Some issues \<Rightarrow> ic\<lparr>ic_issues := issues\<rparr>
           | None \<Rightarrow>
               if length (ic_issues ic) < max_restore_issues
               then ic\<lparr>ic_issues := ic_issues ic @ [i\<lparr>ri_count := (if 1 < occurrences i then occurrences i else 0)\<rparr>]\<rparr>
               else ic\<lparr>ic_omitted := ic_omitted ic + occurrences i\<rparr>)"

definition record_issue :: "issue_collector \<Rightarrow> string \<Rightarrow> string \<Rightarrow> string \<Rightarrow> issue_collector" where
  "record_issue ic phase error_type ref = add_issue ic
     \<lparr>ri_phase = safe_restore_fact phase ''restore'', ri_error_type = safe_restore_fact error_type ''Exception'',
      ri_ref = safe_restore_fact ref ''session_artifact'', ri_count = 0\<rparr>"

definition omitted_issue :: "int \<Rightarrow> restore_issue" where
  "omitted_issue n = \<lparr>ri_phase = ''restore_observability'', ri_error_type = ''AdditionalIssuesOmitted'',
     ri_ref = ''session_artifacts'', ri_count = n\<rparr>"

definition issue_facts :: "issue_collector \<Rightarrow> restore_issue list" where
  "issue_facts ic =
     (if ic_omitted ic = 0 then ic_issues ic
      else
        let visible = take (max_restore_issues - 1) (ic_issues ic)
        in visible @ [omitted_issue (ic_omitted ic + sum_list (map occurrences (drop (length visible) (ic_issues ic))))])"

definition record_damaged_issues :: "issue_collector \<Rightarrow> issue_collector" where
  "record_damaged_issues ic =
     record_issue ic ''restore_issues_validate'' ''SessionRestoreIssuesValidationError'' ''restore_issues''"

definition collect_persisted_restore_issues :: "json \<Rightarrow> issue_collector" where
  "collect_persisted_restore_issues raw =
     (case raw of
        JList items \<Rightarrow> foldl (\<lambda>ic item. case issue_from_dict item of Inr i \<Rightarrow> add_issue ic i | Inl _ \<Rightarrow> record_damaged_issues ic)
          empty_collector items
      | _ \<Rightarrow> record_damaged_issues empty_collector)"

section \<open>Metadata\<close>

record restore_error =
  re_phase :: string
  re_error_type :: string
  re_ref :: string

definition restore_error_of :: "string \<Rightarrow> string \<Rightarrow> string \<Rightarrow> restore_error" where
  "restore_error_of phase error_type ref =
     \<lparr>re_phase = safe_restore_fact phase ''restore'', re_error_type = safe_restore_fact error_type ''Exception'',
      re_ref = safe_restore_fact ref ''session_artifact''\<rparr>"

record session_metadata =
  sm_id :: json
  sm_model :: json
  sm_saved_at :: json
  sm_preview :: json
  sm_fingerprint :: json

definition metadata_from_dict :: "json \<Rightarrow> session_metadata" where
  "metadata_from_dict d = \<lparr>sm_id = get_or d ''id'' (JStr []), sm_model = get_or d ''model'' (JStr ''?''),
     sm_saved_at = get_or d ''saved_at'' (JStr ''?''), sm_preview = get_or d ''preview'' (JStr []),
     sm_fingerprint = get_or d ''fingerprint'' (JStr ''local'')\<rparr>"

definition require_safe_session_id :: "json \<Rightarrow> (restore_error, unit) result" where
  "require_safe_session_id v =
     (if is_safe_session_id v then Inr ()
      else Inl (restore_error_of ''session_identity'' ''SessionIdentityValidationError'' ''session''))"

definition validate_phase :: "string \<Rightarrow> string" where
  "validate_phase ref = (if ref = ''manifest'' then ''manifest_validate'' else ''legacy_session_validate'')"

definition validate_metadata :: "session_metadata \<Rightarrow> string \<Rightarrow> (restore_error, unit) result" where
  "validate_metadata m ref =
     (if \<not> bounded_safe_text 256 (sm_fingerprint m)
      then Inl (restore_error_of (validate_phase ref) ''SessionFingerprintValidationError'' ref)
      else if \<not> is_safe_session_id (sm_id m) \<or> \<not> bounded_safe_text 256 (sm_model m) \<or>
        \<not> bounded_safe_text 64 (sm_saved_at m) \<or> \<not> is_safe_session_preview (sm_preview m)
      then Inl (restore_error_of (validate_phase ref) ''SessionMetadataValidationError'' ref)
      else Inr ())"

definition validate_legacy_session_identity :: "string \<Rightarrow> string \<Rightarrow> (restore_error, unit) result" where
  "validate_legacy_session_identity session_id file_stem =
     (if session_id = file_stem then Inr ()
      else Inl (restore_error_of ''legacy_session_validate'' ''SessionIdentityMismatchError'' ''legacy_session''))"

text \<open>\<open>isoformat\<close> and \<open>legacy_format\<close> are the two parsers of dates, \<open>error\<close> the name of what the second raises.\<close>

definition parse_saved_at :: "(string \<Rightarrow> 't option) \<Rightarrow> (string \<Rightarrow> 't option) \<Rightarrow> string \<Rightarrow> string \<Rightarrow> string \<Rightarrow> (restore_error, 't) result" where
  "parse_saved_at isoformat legacy_format error saved_at ref =
     (case isoformat saved_at of
        Some t \<Rightarrow> Inr t
      | None \<Rightarrow>
          (case legacy_format saved_at of
             Some t \<Rightarrow> Inr t
           | None \<Rightarrow> Inl (restore_error_of (validate_phase ref) (safe_error_type error) ref)))"

section \<open>Runtime state\<close>

text \<open>Membership of a value in a set of strings: a list or an object raises.\<close>

definition check_member :: "string list \<Rightarrow> json \<Rightarrow> string \<Rightarrow> (check_error, unit) result" where
  "check_member ss v message = (if unhashable v then Inl Check_Type else check_value (text_in ss v) message)"

definition approval_strings :: "string list" where
  "approval_strings = [''tool_name'', ''tool_source'', ''mcp_server'', ''effect_class'', ''profile'', ''pattern'', ''scope_key'']"

definition check_approval_rule :: "json \<Rightarrow> (check_error, unit) result" where
  "check_approval_rule rule = first_error
     [check_value (list_all (\<lambda>k. opt_ok (bounded_runtime_text (if k = ''pattern'' \<or> k = ''scope_key'' then 64000 else 1024)) (jget rule k))
        approval_strings) ''runtime approval rule is invalid'',
      check_value (text_in [''allow'', ''warn'', ''require_approval'', ''deny''] (jget rule ''action'')) ''runtime approval action is invalid'']"

definition plan_statuses :: "string list" where
  "plan_statuses = [''pending'', ''in_progress'', ''completed'']"

fun check_plan_items :: "json list \<Rightarrow> (check_error, unit) result" where
  "check_plan_items [] = Inr ()"
| "check_plan_items (item # items) =
     (if \<not> (is_object item \<and> is_text (jget item ''step'') \<and> is_text (jget item ''active_form''))
      then Inl (Check_Value ''runtime plan state is invalid'')
      else bind_result (check_member plan_statuses (jget item ''status'') ''runtime plan state is invalid'')
        (\<lambda>_. check_plan_items items))"

definition plan_items_valid :: "(json \<Rightarrow> string) \<Rightarrow> json \<Rightarrow> bool" where
  "plan_items_valid py_str v \<longleftrightarrow> is_list v \<and> (case validate_items py_str (list_items v) of Inr _ \<Rightarrow> True | Inl _ \<Rightarrow> False)"

definition check_progress :: "json \<Rightarrow> (check_error, unit) result" where
  "check_progress progress =
     (if \<not> truthy progress then Inr ()
      else first_error
        [check_member progress_phases (jget progress ''phase'') ''runtime progress phase is invalid'',
         check_value (counter_ok (get_or progress ''revision'' (JInt 0))) ''runtime progress revision is invalid'',
         check_value (list_all (\<lambda>k. opt_ok (bounded_runtime_text 1024) (jget progress k)) [''summary'', ''next'', ''event_id''])
           ''runtime progress metadata is invalid''])"

definition validate_runtime_state_payload ::
    "(json \<Rightarrow> string) \<Rightarrow> (json \<Rightarrow> string) \<Rightarrow> json \<Rightarrow> (check_error, unit) result" where
  "validate_runtime_state_payload dumps py_str runtime =
     (let skills = get_or runtime ''skills_disabled'' (JList []);
          rules = get_or runtime ''approval_rules'' (JList []);
          plan = get_or runtime ''plan_state'' (JObj []);
          items = get_or plan ''items'' (JList []);
          progress = get_or runtime ''progress_state'' (JObj [])
      in first_error
        [check_value (is_object runtime) ''runtime state must be an object'',
         check_value (shallow_tree 0 runtime) ''JSON tree nesting is too deep'',
         check_value (length (dumps runtime) \<le> 64000) ''runtime state exceeds the persisted size limit'',
         check_value (list_all (\<lambda>k. opt_ok (bounded_runtime_text 1024) (jget runtime k))
             [''model'', ''active_mode'', ''active_main_model_profile'', ''active_sub_model_profile'', ''execution_target''])
           ''runtime string field is invalid'',
         check_value (opt_ok is_bool (jget runtime ''llm_debug_trace'')) ''runtime debug flag is invalid'',
         check_value (list_all (\<lambda>k. has_key runtime k \<longrightarrow> is_object (jget runtime k))
             [''remote_binding'', ''plan_state'', ''progress_state''])
           ''runtime mapping field is invalid'',
         check_value (is_list skills \<and> length (list_items skills) \<le> 256 \<and> list_all (bounded_safe_text 1024) (list_items skills))
           ''runtime skills list is invalid'',
         check_value (is_list rules \<and> length (list_items rules) \<le> 256 \<and> list_all is_object (list_items rules))
           ''runtime approval rules are invalid'',
         first_error (map check_approval_rule (list_items rules)),
         check_value (is_list items) ''runtime plan state is invalid'',
         check_plan_items (list_items items),
         check_value (plan_items_valid py_str items) ''runtime plan state is invalid'',
         check_value (list_all (\<lambda>k. counter_ok (get_or plan k (JInt 0))) [''revision'', ''session_generation''])
           ''runtime plan revision is invalid'',
         check_value (list_all (\<lambda>k. opt_ok (bounded_runtime_text 1024) (jget plan k)) [''owner_agent_id'', ''explanation'', ''event_id''])
           ''runtime plan metadata is invalid'',
         check_progress progress])"

section \<open>Provider messages\<close>

text \<open>The checks of \<^verbatim>\<open>replay.py\<close> that raise \<^verbatim>\<open>TypeError\<close>; every other one raises \<^verbatim>\<open>ValueError\<close>.\<close>

definition type_error_messages :: "string list" where
  "type_error_messages =
     [''provider message must be an object'', ''provider message content is invalid'', ''provider content part must be an object'',
      ''provider text content is invalid'', ''provider tool_calls is invalid'', ''provider tool call must be an object'',
      ''replay must be an object'', ''replay request settings must be an object'', ''replay messages must be a list'',
      ''replay tools must be a list of objects'', ''replay tool description is invalid'', ''replay tool parameters are invalid'',
      ''replay tool strict flag is invalid'', ''replay provenance must be a list'', ''replay provenance item must be an object'']"

definition raised :: "string \<Rightarrow> check_error" where
  "raised message = (if message \<in> set type_error_messages then Check_Type else Check_Value message)"

definition lift_raised :: "(string, 'a) result \<Rightarrow> (check_error, 'a) result" where
  "lift_raised r = map_sum raised id r"

definition check_messages :: "json list \<Rightarrow> (check_error, unit) result" where
  "check_messages ms = first_error (map (\<lambda>m. lift_raised (validate_provider_message m)) ms)"

section \<open>Request records and checkpoints\<close>

definition validate_request_record_payload :: "json \<Rightarrow> string \<Rightarrow> (check_error, unit) result" where
  "validate_request_record_payload payload expected = first_error
     [check_value (jget payload ''request_id'' = JStr expected \<and> is_safe_artifact_id (JStr expected)) ''request record identity is invalid'',
      check_value (jget payload ''schema_version'' = JInt 1) ''request record version is invalid'',
      check_value (counter_ok (jget payload ''execution_overlay_revision'') \<and> counter_ok (jget payload ''execution_overlay_tokens'') \<and>
          counter_ok (get_or payload ''plan_revision'' (JInt 0))) ''request record counter is invalid'',
      check_value (list_all (\<lambda>k. hex_hash (jget payload k)) [''replay_envelope_hash'', ''execution_overlay_hash'', ''canonical_request_hash''])
        ''request record hash is invalid'']"

definition checkpoint_counters :: "string list" where
  "checkpoint_counters = [''source_history_version'', ''tokens_before'', ''tokens_after'', ''preserved_rounds'', ''cache_epoch'']"

definition checkpoint_optional_counters :: "string list" where
  "checkpoint_optional_counters = [''actual_prompt_tokens'', ''cached_input_tokens'', ''invalidated_suffix_tokens'', ''reclaimed_tokens'']"

definition validate_checkpoint_payload :: "json \<Rightarrow> string \<Rightarrow> (check_error, unit) result" where
  "validate_checkpoint_payload payload expected =
     (let strategy = jget payload ''strategy''; history = jget payload ''replacement_history''
      in first_error
        [check_value (jget payload ''id'' = JStr expected \<and> is_safe_artifact_id (JStr expected)) ''checkpoint identity is invalid'',
         check_value (nonempty_text (jget payload ''trigger'') \<and> is_list strategy \<and> list_all nonempty_text (list_items strategy) \<and>
             is_list history \<and> list_all is_object (list_items history)) ''checkpoint content is invalid'',
         check_messages (list_items history),
         check_value (list_all (\<lambda>k. counter_ok (get_or payload k (JInt 0))) checkpoint_counters) ''checkpoint counter is invalid'',
         check_value (list_all (\<lambda>k. opt_ok counter_ok (jget payload k)) checkpoint_optional_counters) ''checkpoint optional counter is invalid'',
         check_timestamp (jget payload ''created_at'') ''checkpoint timestamp is invalid''])"


section \<open>History events\<close>

definition event_name :: "json \<Rightarrow> bool" where
  "event_name v = (case v of JStr s \<Rightarrow> s \<noteq> [] \<and> length s \<le> 64 \<and> list_all artifact_char s | _ \<Rightarrow> False)"

definition int_between :: "int \<Rightarrow> int \<Rightarrow> json \<Rightarrow> bool" where
  "int_between a b v = (case v of JInt n \<Rightarrow> a \<le> n \<and> n \<le> b | _ \<Rightarrow> False)"

definition is_int :: "json \<Rightarrow> bool" where
  "is_int v = (case v of JInt _ \<Rightarrow> True | _ \<Rightarrow> False)"

definition list_of :: "(json \<Rightarrow> bool) \<Rightarrow> json \<Rightarrow> bool" where
  "list_of P v \<longleftrightarrow> is_list v \<and> list_all P (list_items v)"

definition texts_at :: "json \<Rightarrow> string list \<Rightarrow> bool" where
  "texts_at v ks = list_all (\<lambda>k. nonempty_text (jget v k)) ks"

definition check_opt_timestamp :: "json \<Rightarrow> string \<Rightarrow> (check_error, unit) result" where
  "check_opt_timestamp v message = (if v = JNull then Inr () else check_timestamp v message)"

definition check_message_event :: "json \<Rightarrow> (check_error, unit) result" where
  "check_message_event event = first_error
     [check_value (nonempty_text (jget event ''source'')) ''history message source is invalid'',
      lift_raised (validate_provider_message (jget event ''message'')),
      check_value (list_of nonempty_text (get_or event ''output_stream_ids'' (JList []))) ''history output acknowledgements are invalid'',
      check_value (list_all (\<lambda>k. opt_ok nonempty_text (jget event k)) [''steering_id'', ''attempt_id''])
        ''history message control metadata is invalid'']"

definition check_output_event :: "json \<Rightarrow> (check_error, unit) result" where
  "check_output_event event = check_value
     (nonempty_text (jget event ''stream_id'') \<and> text_in [''response'', ''reasoning'', ''tool''] (jget event ''kind'') \<and>
      is_text (jget event ''text'') \<and> is_bool (get_or event ''replace'' (JBool False)) \<and>
      list_all (\<lambda>k. opt_ok is_text (jget event k)) [''tool_call_id'', ''tool_name''])
     ''history output checkpoint is invalid''"

definition check_view_event :: "json \<Rightarrow> (check_error, unit) result" where
  "check_view_event event = first_error
     [check_value (nonempty_text (jget event ''reason'') \<and> is_valid_token_count (jget event ''history_version'') \<and>
         opt_ok nonempty_text (jget event ''checkpoint_id'') \<and> is_list (jget event ''items''))
       ''history context view is invalid'',
      check_messages (list_items (jget event ''items''))]"

definition check_usage_event :: "json \<Rightarrow> (check_error, unit) result" where
  "check_usage_event event = first_error
     [check_value (list_all (\<lambda>k. counter_ok (jget event k)) [''actual_prompt_tokens'', ''local_request_estimate'', ''local_history_estimate''])
       ''history usage counter is invalid'',
      check_value (opt_ok counter_ok (jget event ''cached_input_tokens'')) ''history cached usage is invalid'',
      check_value (texts_at event [''request_boundary'', ''model_profile'']) ''history usage identity is invalid'']"

definition check_steering_admitted :: "json \<Rightarrow> json \<Rightarrow> (check_error, unit) result" where
  "check_steering_admitted payload event =
     (let generation = jget event ''generation''; turn = jget payload ''turn_id''
      in first_error
        [check_value (texts_at event [''steering_id'', ''turn_id'']) ''history steering admission is invalid'',
         check_value ((is_text (jget event ''content'') \<or> is_list (jget event ''content'')) \<and> truthy (jget event ''content''))
           ''history steering content is invalid'',
         check_value (counter_ok generation \<and> generation = jget payload ''session_generation'' \<and> (turn = JNull \<or> turn = jget event ''turn_id''))
           ''history steering generation is invalid''])"

definition check_steering_settled :: "bool \<Rightarrow> json \<Rightarrow> (check_error, unit) result" where
  "check_steering_settled applied event = first_error
     [check_value (nonempty_text (jget event ''steering_id'')) ''history steering identity is invalid'',
      (if applied then check_value (opt_ok nonempty_text (jget event ''attempt_id'')) ''history steering attempt is invalid''
       else check_value (nonempty_text (jget event ''reason'')) ''history steering discard reason is invalid'')]"

definition check_approval_event :: "bool \<Rightarrow> json \<Rightarrow> (check_error, unit) result" where
  "check_approval_event requested event = first_error
     [check_value (nonempty_text (jget event ''request_id'')) ''history approval identity is invalid'',
      (if requested then check_value (nonempty_text (jget event ''tool_name'')) ''history approval tool is invalid''
       else check_value (is_bool (jget event ''approved'')) ''history approval decision is invalid'')]"

definition check_checkpoint_event :: "json \<Rightarrow> (check_error, unit) result" where
  "check_checkpoint_event event = check_value
     (texts_at event [''checkpoint_id'', ''context_view_event_id''] \<and> counter_ok (jget event ''history_version''))
     ''history checkpoint is invalid''"

definition owner_state_ok :: "json \<Rightarrow> json \<Rightarrow> bool" where
  "owner_state_ok payload event \<longleftrightarrow>
     texts_at event [''owner_agent_id'', ''tool_call_id''] \<and> counter_ok (jget event ''revision'') \<and>
     is_int (jget event ''session_generation'') \<and> jget event ''session_generation'' = jget payload ''session_generation''"

definition check_plan_event :: "(json \<Rightarrow> string) \<Rightarrow> json \<Rightarrow> json \<Rightarrow> (check_error, unit) result" where
  "check_plan_event py_str payload event = first_error
     [check_value (owner_state_ok payload event \<and> opt_ok (bounded_runtime_text 1024) (jget event ''explanation''))
       ''history plan metadata is invalid'',
      check_value (plan_items_valid py_str (jget event ''items'')) ''plan items are invalid'']"

definition text_up_to :: "nat \<Rightarrow> json \<Rightarrow> bool" where
  "text_up_to n v = (case v of JStr s \<Rightarrow> length s \<le> n | _ \<Rightarrow> False)"

definition check_progress_event :: "json \<Rightarrow> json \<Rightarrow> (check_error, unit) result" where
  "check_progress_event payload event =
     (let message = ''history progress state is invalid''
      in first_error
        [check_value (owner_state_ok payload event) message,
         check_member progress_phases (jget event ''phase'') message,
         check_value (nonempty_text (jget event ''summary'') \<and> text_up_to 500 (jget event ''summary'') \<and>
             opt_ok (text_up_to 500) (jget event ''next'')) message])"

definition subagent_job_statuses :: "string list" where
  "subagent_job_statuses =
     [''queued'', ''running'', ''parking'', ''resuming'', ''blocked'', ''cancelling'', ''completed'', ''failed'', ''cancelled'',
      ''killed'', ''timed_out'', ''indeterminate'', ''stale'']"

definition subagent_message_kinds :: "string list" where
  "subagent_message_kinds =
     [''reply'', ''milestone'', ''amendment'', ''warning'', ''approval_needed'', ''partial'', ''guidance'']"

definition job_counters :: "string list" where
  "job_counters =
     [''generation'', ''depth'', ''prompt_tokens'', ''completion_tokens'', ''tool_calls'', ''worker_generation'', ''model_calls'',
      ''cancellation_epoch'', ''max_rounds'']"

definition job_times :: "string list" where
  "job_times = [''created_at'', ''started_at'', ''finished_at'', ''guidance_deadline_at'', ''last_activity_at'', ''active_seconds'']"

definition job_texts :: "string list" where
  "job_texts =
     [''parent_session_id'', ''parent_job_id'', ''context_mode'', ''worktree_path'', ''verification_job_id'', ''verification_for'',
      ''working_directory'', ''guidance_request_id'', ''resume_reference'', ''current_tool'', ''model_profile_name'', ''agent_id'',
      ''cancellation_id'', ''result'', ''error'']"

definition check_job_event :: "json \<Rightarrow> json \<Rightarrow> (check_error, unit) result" where
  "check_job_event payload event = first_error
     [check_value (texts_at event [''job_id'', ''mode'', ''task'', ''status'']) ''subagent job text is invalid'',
      check_value (text_in [''explore'', ''execute'', ''verify''] (jget event ''mode'') \<and> text_in subagent_job_statuses (jget event ''status''))
        ''subagent job state is invalid'',
      check_value (jget payload ''job_id'' = JNull \<or> jget payload ''job_id'' = jget event ''job_id'') ''subagent job attribution is invalid'',
      check_value (list_all (\<lambda>k. counter_ok (get_or event k (JInt 0))) job_counters) ''subagent job counter is invalid'',
      check_value (jget event ''generation'' = jget payload ''session_generation'') ''subagent job generation is invalid'',
      first_error (map (\<lambda>k. check_opt_timestamp (jget event k) ''subagent job timestamp is invalid'') job_times),
      check_value (jget event ''created_at'' \<noteq> JNull) ''subagent job created_at is missing'',
      check_value (opt_ok is_valid_token_count (jget event ''timeout_seconds'')) ''subagent timeout is invalid'',
      check_value (list_all (\<lambda>k. opt_ok is_text (jget event k)) job_texts) ''subagent optional text is invalid'',
      check_value (list_of is_text (get_or event ''progress'' (JList []))) ''subagent progress is invalid'',
      check_value (list_all (\<lambda>k. is_bool (get_or event k (JBool False))) [''auto_verify'', ''usage_uncertain'', ''resume_ready''])
        ''subagent boolean state is invalid'']"

definition check_communication_event :: "json \<Rightarrow> json \<Rightarrow> (check_error, unit) result" where
  "check_communication_event payload event =
     (let direction = jget event ''direction''
      in first_error
        ([check_value (nonempty_text (jget event ''item_id'')) ''subagent communication identity is invalid'',
          check_member [''child_to_parent'', ''parent_to_child''] direction ''subagent communication identity is invalid'',
          check_value (list_all (\<lambda>k. counter_ok (jget event k)) [''generation'', ''seq'']) ''subagent communication counter is invalid'',
          check_value (jget event ''generation'' = jget payload ''session_generation'') ''subagent communication generation is invalid'',
          check_value (nonempty_text (jget event ''content'')) ''subagent communication content is invalid'',
          check_value (opt_ok hex_hash (jget event ''content_hash'')) ''subagent communication hash is invalid''] @
         (if direction = JStr ''child_to_parent''
          then [check_value (texts_at event [''sender_agent_id'', ''recipient_agent_id'']) ''subagent communication peer is invalid'',
                check_timestamp (jget event ''created_at'') ''subagent communication metadata is invalid'',
                check_member subagent_message_kinds (jget event ''kind'') ''subagent communication metadata is invalid'']
          else [check_value (texts_at event [''target_job_id'', ''sender_agent_id'', ''source'']) ''subagent directive metadata is invalid''])))"

text \<open>An event of any other kind has no further check.\<close>

definition check_event_body :: "(json \<Rightarrow> string) \<Rightarrow> string \<Rightarrow> json \<Rightarrow> json \<Rightarrow> (check_error, unit) result" where
  "check_event_body py_str kind payload event =
     (if kind = ''message_committed'' then check_message_event event
      else if kind = ''output_checkpoint'' then check_output_event event
      else if kind = ''context_view_committed'' then check_view_event event
      else if kind = ''usage_observed'' then check_usage_event event
      else if kind = ''steering_admitted'' then check_steering_admitted payload event
      else if kind = ''steering_applied'' \<or> kind = ''steering_discarded'' then check_steering_settled (kind = ''steering_applied'') event
      else if kind = ''approval_requested'' \<or> kind = ''approval_resolved'' then check_approval_event (kind = ''approval_requested'') event
      else if kind = ''context_checkpoint'' then check_checkpoint_event event
      else if kind = ''plan_updated'' then check_plan_event py_str payload event
      else if kind = ''progress_reported'' then check_progress_event payload event
      else if kind = ''subagent_job_changed'' then check_job_event payload event
      else if kind = ''subagent_communication_queued'' \<or> kind = ''subagent_communication_delivered''
      then check_communication_event payload event
      else Inr ())"

definition validate_history_event_payload ::
    "(json \<Rightarrow> string) \<Rightarrow> json \<Rightarrow> string option \<Rightarrow> (check_error, unit) result" where
  "validate_history_event_payload py_str payload expected =
     (let event = jget payload ''payload''; kind = jget payload ''kind''; session_id = jget payload ''session_id''
      in first_error
        [check_object payload,
         check_value (event_name (jget payload ''event_id'') \<and> event_name kind \<and>
             int_between 1 max_replay_counter (jget payload ''seq'') \<and> is_object event) ''history event identity is invalid'',
         check_value (int_between 1 2 (get_or payload ''schema_version'' (JInt 1)) \<and>
             counter_ok (get_or payload ''session_generation'' (JInt 0))) ''history event version is invalid'',
         check_timestamp (get_or payload ''timestamp'' (get_or payload ''created_at'' (JReal 0))) ''history event timestamp is invalid'',
         check_value (session_id = JNull \<or> nonempty_text session_id \<and> (case expected of None \<Rightarrow> True | Some e \<Rightarrow> session_id = JStr e))
           ''history event session identity is invalid'',
         check_value (list_all (\<lambda>k. opt_ok short_text (jget payload k))
             [''agent_id'', ''parent_agent_id'', ''job_id'', ''turn_id'', ''api_round_id'', ''role'']) ''history event optional text is invalid'',
         check_value (list_all (\<lambda>k. list_of nonempty_text (get_or payload k (JList []))) [''artifact_refs'', ''supersedes_event_ids''])
           ''history event references are invalid'',
         check_event_body py_str (case kind of JStr s \<Rightarrow> s | _ \<Rightarrow> []) payload event])"

end
