(* ===== verification/Session_Repair.thy ===== *)
theory Session_Repair
  imports Session_Validation
begin

text \<open>
  The validation and repair of legacy sessions (\<^verbatim>\<open>_validate_legacy_session_payload\<close> of
  \<^verbatim>\<open>infrastructure/persistence/session_validation.py\<close>): the required parts fail the load, while a bad replay, request record,
  checkpoint, token total or message count is dropped and recorded as a restore issue. The lemmas show that the
  collector loses no occurrence within its bound and that its facts survive storage, that a repaired session is
  accepted as it is, and that what the program writes passes the checks.
\<close>

section \<open>Legacy sessions\<close>

text \<open>The pairing of tool calls and results, on messages that passed \<^verbatim>\<open>validate_provider_message\<close>. The responses
  are kept in order with their stripped identifiers; the first one with the identifier is taken.\<close>

definition text_at :: "json \<Rightarrow> string \<Rightarrow> string" where
  "text_at v k = (case jget v k of JStr s \<Rightarrow> s | _ \<Rightarrow> [])"

definition tool_responses :: "json list \<Rightarrow> (string \<times> json) list" where
  "tool_responses items =
     filter (\<lambda>(i, m). i \<noteq> []) (map (\<lambda>m. (strip (text_at m ''tool_call_id''), m)) (filter (\<lambda>m. jget m ''role'' = JStr ''tool'') items))"

fun take_response :: "string \<Rightarrow> (string \<times> json) list \<Rightarrow> (json \<times> (string \<times> json) list) option" where
  "take_response i [] = None"
| "take_response i ((j, m) # rs) =
     (if j = i then Some (m, rs) else map_option (\<lambda>(m', rs'). (m', (j, m) # rs')) (take_response i rs))"

definition no_output_text :: "json \<Rightarrow> bool" where
  "no_output_text v = (case v of JNull \<Rightarrow> True | JStr s \<Rightarrow> strip s = [] | _ \<Rightarrow> False)"

definition missing_output :: "json \<Rightarrow> json" where
  "missing_output call =
     (let name = text_at (jget call ''function'') ''name''
      in JStr (''Tool '' @ [CHR 0x27] @ (if name = [] then ''unknown_tool'' else name) @ [CHR 0x27] @ '' output missing.''))"

fun answer_calls :: "json list \<Rightarrow> (string \<times> json) list \<Rightarrow> json list \<times> (string \<times> json) list \<times> nat" where
  "answer_calls [] rs = ([], rs, 0)"
| "answer_calls (call # calls) rs =
     (let i = strip (text_at call ''id'')
      in if i = [] then answer_calls calls rs
         else case take_response i rs of
           Some (m, rs') \<Rightarrow>
             (let (out, rest, n) = answer_calls calls rs';
                  m' = (if no_output_text (jget m ''content'') then set_field m ''content'' (missing_output call) else m)
              in (m' # out, rest, n))
         | None \<Rightarrow>
             (let (out, rest, n) = answer_calls calls rs
              in (JObj [(''role'', JStr ''tool''), (''tool_call_id'', JStr i), (''content'', missing_output call)] # out, rest, Suc n)))"

fun repair_items :: "json list \<Rightarrow> (string \<times> json) list \<Rightarrow> json list \<times> nat" where
  "repair_items [] rs = ([], 0)"
| "repair_items (m # ms) rs =
     (if jget m ''role'' = JStr ''tool'' then repair_items ms rs
      else
        let (answers, rest, n) = (if jget m ''role'' = JStr ''assistant'' then answer_calls (list_items (jget m ''tool_calls'')) rs else ([], rs, 0));
            (out, k) = repair_items ms rest
        in (m # answers @ out, n + k))"

definition validate_protocol :: "replay_envelope \<Rightarrow> bool" where
  "validate_protocol e =
     (let (repaired, synthesized) = repair_items (rp_items e) (tool_responses (rp_items e))
      in synthesized = 0 \<and> map canonicalize repaired = map canonicalize (rp_items e))"

record session_env =
  se_dumps :: "json \<Rightarrow> string"
  se_str :: "json \<Rightarrow> string"
  se_digest :: "json \<Rightarrow> string"
  se_float :: "string \<Rightarrow> (string, real) result"

datatype legacy_error = Legacy_Failed restore_error | Legacy_Escaped check_error

fun error_name :: "check_error \<Rightarrow> string" where
  "error_name (Check_Value _) = ''ValueError''"
| "error_name Check_Type = ''TypeError''"
| "error_name Check_Overflow = ''OverflowError''"

definition legacy_fail :: "string \<Rightarrow> (legacy_error, 'a) result" where
  "legacy_fail error_type = Inl (Legacy_Failed (restore_error_of ''legacy_session_validate'' error_type ''legacy_session''))"

definition legacy_check :: "bool \<Rightarrow> (legacy_error, unit) result" where
  "legacy_check b = (if b then Inr () else legacy_fail ''LegacySessionPayloadValidationError'')"

definition history_completeness_values :: "string list" where
  "history_completeness_values = [''complete'', ''degraded'', ''legacy_snapshot_only'', ''legacy_compacted_or_unknown'']"

text \<open>The first handler catches \<^verbatim>\<open>TypeError\<close> and \<^verbatim>\<open>ValueError\<close>, the second only \<^verbatim>\<open>ValueError\<close>.\<close>

definition guard_both :: "string \<Rightarrow> (check_error, unit) result \<Rightarrow> (legacy_error, unit) result" where
  "guard_both error_type r = (case r of
     Inr _ \<Rightarrow> Inr () | Inl Check_Overflow \<Rightarrow> Inl (Legacy_Escaped Check_Overflow) | Inl _ \<Rightarrow> legacy_fail error_type)"

definition guard_value :: "string \<Rightarrow> (check_error, unit) result \<Rightarrow> (legacy_error, unit) result" where
  "guard_value error_type r = (case r of
     Inr _ \<Rightarrow> Inr () | Inl (Check_Value _) \<Rightarrow> legacy_fail error_type | Inl e \<Rightarrow> Inl (Legacy_Escaped e))"

fun check_events :: "(json \<Rightarrow> string) \<Rightarrow> string \<Rightarrow> json list \<Rightarrow> int \<Rightarrow> json list \<Rightarrow> (check_error, unit) result" where
  "check_events py_str session_id seen previous [] = Inr ()"
| "check_events py_str session_id seen previous (item # items) =
     bind_result (validate_history_event_payload py_str item (Some session_id)) (\<lambda>_.
       let seq = (case jget item ''seq'' of JInt n \<Rightarrow> n | _ \<Rightarrow> 0)
       in if jget item ''event_id'' \<in> set seen \<or> seq \<le> previous then Inl (Check_Value ''legacy history ordering is invalid'')
          else check_events py_str session_id (jget item ''event_id'' # seen) seq items)"

definition legacy_required :: "session_env \<Rightarrow> json \<Rightarrow> (legacy_error, unit) result" where
  "legacy_required env payload =
     (let messages = get_or payload ''messages'' (JList []); records = get_or payload ''history_events'' (JList [])
      in first_error
        [legacy_check (texts_at payload [''id'', ''model'', ''saved_at'']),
         legacy_check (nonempty_text (get_or payload ''fingerprint'' (JStr ''local''))),
         legacy_check (opt_ok (bounded_safe_text 1024) (jget payload ''active_mode'')),
         legacy_check (opt_ok (text_in history_completeness_values) (jget payload ''history_completeness'')),
         legacy_check (list_of is_object messages),
         guard_both ''SessionMessageValidationError'' (check_messages (list_items messages)),
         legacy_check (list_of is_object records),
         (if has_key payload ''runtime_state''
          then guard_value ''SessionRuntimeStateValidationError''
            (validate_runtime_state_payload (se_dumps env) (se_str env) (jget payload ''runtime_state''))
          else Inr ()),
         guard_both ''LegacySessionPayloadValidationError'' (check_events (se_str env) (text_at payload ''id'') [] 0 (list_items records))])"

definition legacy_replay_check :: "session_env \<Rightarrow> string \<Rightarrow> json \<Rightarrow> (check_error, unit) result" where
  "legacy_replay_check env session_id replay =
     bind_result (lift_raised (validate_replay_payload replay (Some session_id))) (\<lambda>_.
     bind_result (lift_raised (replay_from_dict (se_str env) replay)) (\<lambda>e.
       check_value (validate_replay (se_digest env) e \<and> validate_protocol e) ''legacy replay integrity is invalid''))"

definition request_keys :: "string list" where
  "request_keys =
     [''schema_version'', ''request_id'', ''replay_envelope_hash'', ''execution_overlay_revision'', ''execution_overlay_hash'',
      ''execution_overlay_tokens'', ''canonical_request_hash'', ''plan_revision'']"

text \<open>\<^verbatim>\<open>RequestEnvelope(**raw_request)\<close> raises for an unknown key; the required ones were checked.\<close>

definition legacy_request_check :: "json \<Rightarrow> (check_error, unit) result" where
  "legacy_request_check raw = first_error
     [check_object raw,
      check_value (is_text (jget raw ''request_id'')) ''legacy request identity is invalid'',
      validate_request_record_payload raw (text_at raw ''request_id''),
      (if case raw of JObj fs \<Rightarrow> list_all (\<lambda>f. fst f \<in> set request_keys) fs | _ \<Rightarrow> False then Inr () else Inl Check_Type)]"

definition legacy_checkpoint_check :: "session_env \<Rightarrow> json \<Rightarrow> (check_error, unit) result" where
  "legacy_checkpoint_check env raw = first_error
     [check_object raw,
      check_value (is_text (jget raw ''id'')) ''legacy checkpoint identity is invalid'',
      validate_checkpoint_payload raw (text_at raw ''id''),
      bind_result (lift_raised (checkpoint_from_dict (se_str env) (se_float env) raw)) (\<lambda>_. Inr ())]"

fun sift :: "(json \<Rightarrow> (check_error, unit) result) \<Rightarrow> string \<Rightarrow> string \<Rightarrow> json list \<Rightarrow> issue_collector \<Rightarrow> json list \<times> issue_collector" where
  "sift check phase ref [] ic = ([], ic)"
| "sift check phase ref (v # vs) ic =
     (case check v of
        Inl e \<Rightarrow> sift check phase ref vs (record_issue ic phase (safe_error_type (error_name e)) ref)
      | Inr _ \<Rightarrow> (let (kept, ic') = sift check phase ref vs ic in (v # kept, ic')))"

definition repair_replay :: "session_env \<Rightarrow> json \<times> issue_collector \<Rightarrow> (json \<times> issue_collector) \<times> bool" where
  "repair_replay env s =
     (let (payload, ic) = s; replay = jget payload ''replay_envelope''
      in if replay = JNull then (s, False)
         else case legacy_replay_check env (text_at payload ''id'') replay of
           Inr _ \<Rightarrow> (s, False)
         | Inl e \<Rightarrow>
             ((set_field payload ''replay_envelope'' JNull,
               record_issue ic ''legacy_replay_validate'' (safe_error_type (error_name e)) ''replay''), True))"

definition repair_requests :: "bool \<Rightarrow> json \<times> issue_collector \<Rightarrow> json \<times> issue_collector" where
  "repair_requests replay_invalid s =
     (let (payload, ic) = s; raw = get_or payload ''request_envelopes'' (JList []);
          (kept, ic') =
            (if replay_invalid \<and> truthy raw
             then ([], record_issue ic ''legacy_request_validate'' ''ReplayDependencyValidationError'' ''request_record'')
             else if \<not> is_list raw
             then ([], record_issue ic ''legacy_request_validate'' ''RequestRecordValidationError'' ''request_record'')
             else sift legacy_request_check ''legacy_request_validate'' ''request_record'' (list_items raw) ic)
      in (set_field payload ''request_envelopes'' (JList kept), ic'))"

definition repair_checkpoints :: "session_env \<Rightarrow> json \<times> issue_collector \<Rightarrow> json \<times> issue_collector" where
  "repair_checkpoints env s =
     (let (payload, ic) = s; raw = get_or payload ''checkpoints'' (JList []);
          (kept, ic') =
            (if \<not> is_list raw then ([], record_issue ic ''legacy_checkpoint_validate'' ''CheckpointValidationError'' ''checkpoint'')
             else sift (legacy_checkpoint_check env) ''legacy_checkpoint_validate'' ''checkpoint'' (list_items raw) ic)
      in (set_field payload ''checkpoints'' (JList kept), ic'))"

definition repair_total :: "string \<Rightarrow> json \<times> issue_collector \<Rightarrow> json \<times> issue_collector" where
  "repair_total k s =
     (let (payload, ic) = s
      in if is_valid_token_count (get_or payload k (JInt 0)) then s
         else (set_field payload k (JInt 0), record_issue ic ''token_counts_validate'' ''TokenUsageCounterValidationError'' k))"

definition pop_key :: "string \<Rightarrow> json \<Rightarrow> json" where
  "pop_key k v = (case v of JObj fs \<Rightarrow> JObj (dict_pop k fs) | _ \<Rightarrow> v)"

fun repair_messages :: "json list \<Rightarrow> issue_collector \<Rightarrow> json list \<times> issue_collector" where
  "repair_messages [] ic = ([], ic)"
| "repair_messages (m # ms) ic =
     (if \<not> has_key m token_count_key \<or> is_valid_token_count (jget m token_count_key)
      then let (out, ic') = repair_messages ms ic in (m # out, ic')
      else let (out, ic') = repair_messages ms
             (record_issue ic ''token_counts_validate'' ''MessageTokenMetadataValidationError'' ''message_token_metadata'')
           in (pop_key token_count_key m # out, ic'))"

definition repair_session_messages :: "json \<times> issue_collector \<Rightarrow> json \<times> issue_collector" where
  "repair_session_messages s =
     (let (payload, ic) = s; (out, ic') = repair_messages (list_items (get_or payload ''messages'' (JList []))) ic
      in (if has_key payload ''messages'' then set_field payload ''messages'' (JList out) else payload, ic'))"

text \<open>The repairs of a payload whose required parts are valid, and the session with its restore issues.\<close>

definition repair_legacy :: "session_env \<Rightarrow> json \<Rightarrow> json" where
  "repair_legacy env payload =
     (let (s, invalid) = repair_replay env (payload, collect_persisted_restore_issues (get_or payload ''restore_issues'' (JList [])));
          (repaired, ic) = repair_session_messages (repair_total ''total_completion_tokens'' (repair_total ''total_prompt_tokens''
            (repair_checkpoints env (repair_requests invalid s))))
      in set_field repaired ''restore_issues'' (JList (map issue_to_dict (issue_facts ic))))"

definition validate_legacy_session_payload :: "session_env \<Rightarrow> json \<Rightarrow> (legacy_error, json) result" where
  "validate_legacy_session_payload env payload = bind_result (legacy_required env payload) (\<lambda>_. Inr (repair_legacy env payload))"

section \<open>The collector\<close>

definition collector_inv :: "issue_collector \<Rightarrow> bool" where
  "collector_inv ic \<longleftrightarrow>
     length (ic_issues ic) \<le> max_restore_issues \<and> 0 \<le> ic_omitted ic \<and> distinct (map issue_key (ic_issues ic)) \<and>
     (\<forall>i\<in>set (ic_issues ic). restore_issue_ok i \<and> ri_count i \<noteq> 1 \<and> ri_error_type i \<noteq> ''AdditionalIssuesOmitted'')"

definition issue_total :: "restore_issue list \<Rightarrow> int" where
  "issue_total is = sum_list (map occurrences is)"

definition collector_total :: "issue_collector \<Rightarrow> int" where
  "collector_total ic = ic_omitted ic + issue_total (ic_issues ic)"

lemma occurrences_positive [simp]: "1 \<le> occurrences i" "0 < occurrences i" "0 \<le> occurrences i"
  by (auto simp: occurrences_def)

lemma bump_None: "bump_issue i cs = None \<longleftrightarrow> issue_key i \<notin> issue_key ` set cs"
  by (induction cs) auto

lemma bump_Some:
  assumes "bump_issue i cs = Some cs'"
  shows "map issue_key cs' = map issue_key cs" "length cs' = length cs"
    "issue_total cs' = issue_total cs + occurrences i"
  using assms
proof (induction cs arbitrary: cs')
  case (Cons c cs)
  {
    case 1
    then show ?case using Cons.IH(1) by (auto simp: issue_key_def split: if_splits)
  next
    case 2
    then show ?case using Cons.IH(2) by (auto split: if_splits)
  next
    case 3
    have "occurrences (c\<lparr>ri_count := occurrences c + occurrences i\<rparr>) = occurrences c + occurrences i"
      by (simp add: occurrences_def)
    then show ?case using 3 Cons.IH(3) by (auto simp: issue_total_def split: if_splits)
  }
qed simp_all

lemma bump_all:
  assumes "bump_issue i cs = Some cs'" "list_all P cs" "\<And>c. P c \<Longrightarrow> P (c\<lparr>ri_count := occurrences c + occurrences i\<rparr>)"
  shows "list_all P cs'"
  using assms(1,2) by (induction cs arbitrary: cs') (auto simp: assms(3) split: if_splits)

lemma collector_empty [simp]: "collector_inv empty_collector" "collector_total empty_collector = 0"
  by (simp_all add: collector_inv_def empty_collector_def collector_total_def issue_total_def)

lemma bumped_ok:
  assumes "restore_issue_ok c \<and> ri_count c \<noteq> 1 \<and> ri_error_type c \<noteq> e"
  shows "restore_issue_ok (c\<lparr>ri_count := occurrences c + occurrences i\<rparr>) \<and>
     ri_count (c\<lparr>ri_count := occurrences c + occurrences i\<rparr>) \<noteq> 1 \<and> ri_error_type (c\<lparr>ri_count := occurrences c + occurrences i\<rparr>) \<noteq> e"
proof -
  have "2 \<le> occurrences c + occurrences i" using occurrences_positive(1) [of c] occurrences_positive(1) [of i] by linarith
  with assms show ?thesis by (simp add: restore_issue_ok_def)
qed

lemma collector_add:
  assumes "collector_inv ic" "restore_issue_ok i"
  shows "collector_inv (add_issue ic i)" "collector_total (add_issue ic i) = collector_total ic + occurrences i"
proof -
  have "collector_inv (add_issue ic i) \<and> collector_total (add_issue ic i) = collector_total ic + occurrences i"
  proof (cases "bump_issue i (ic_issues ic)")
    case None
    then have k: "issue_key i \<notin> issue_key ` set (ic_issues ic)" by (simp add: bump_None)
    have "occurrences (i\<lparr>ri_count := (if 1 < occurrences i then occurrences i else 0)\<rparr>) = occurrences i"
      using occurrences_positive(1) [of i] by (auto simp: occurrences_def)
    then show ?thesis
      using assms None k occurrences_positive(3) [of i]
      by (auto simp: add_issue_def collector_inv_def collector_total_def issue_total_def restore_issue_ok_def issue_key_def)
  next
    case (Some cs)
    note b = bump_Some [OF Some]
    have "list_all (\<lambda>c. restore_issue_ok c \<and> ri_count c \<noteq> 1 \<and> ri_error_type c \<noteq> ''AdditionalIssuesOmitted'') cs"
      by (rule bump_all [OF Some]) (use assms(1) bumped_ok in \<open>simp_all add: collector_inv_def list_all_iff\<close>)
    then show ?thesis
      using assms Some b(1-3) by (simp add: add_issue_def collector_inv_def collector_total_def list_all_iff)
  qed
  then show "collector_inv (add_issue ic i)" "collector_total (add_issue ic i) = collector_total ic + occurrences i" by auto
qed

lemma safe_fact [simp]: "is_fact_text d \<Longrightarrow> is_fact_text (safe_restore_fact s d)"
  by (simp add: safe_restore_fact_def)

lemma default_facts [simp]: "is_fact_text ''restore''" "is_fact_text ''Exception''" "is_fact_text ''session_artifact''"
  "is_fact_text ''restore_observability''" "is_fact_text ''AdditionalIssuesOmitted''" "is_fact_text ''session_artifacts''"
  by code_simp+

lemma collector_record: "collector_inv ic \<Longrightarrow> collector_inv (record_issue ic phase error_type ref)"
  unfolding record_issue_def by (rule collector_add(1)) (simp_all add: restore_issue_ok_def)

lemma collector_fold:
  assumes "list_all restore_issue_ok is" "collector_inv ic"
  shows "collector_inv (foldl add_issue ic is) \<and> collector_total (foldl add_issue ic is) = collector_total ic + issue_total is"
  using assms
  by (induction "is" arbitrary: ic) (simp_all add: collector_add issue_total_def)

lemma facts_total:
  assumes "collector_inv ic"
  shows "issue_total (issue_facts ic) = collector_total ic"
proof (cases "ic_omitted ic = 0")
  case False
  let ?v = "take (max_restore_issues - 1) (ic_issues ic)" and ?d = "drop (length (take (max_restore_issues - 1) (ic_issues ic))) (ic_issues ic)"
  have d: "?d = drop (max_restore_issues - 1) (ic_issues ic)" by (simp add: min_def)
  have s: "issue_total ?v + issue_total ?d = issue_total (ic_issues ic)"
    unfolding d issue_total_def by (metis append_take_drop_id map_append sum_list_append)
  have "0 \<le> issue_total ?d" unfolding issue_total_def by (rule sum_list_nonneg) auto
  moreover have "1 \<le> ic_omitted ic" using False assms by (simp add: collector_inv_def)
  ultimately have "occurrences (omitted_issue (ic_omitted ic + issue_total ?d)) = ic_omitted ic + issue_total ?d"
    by (simp add: occurrences_def omitted_issue_def)
  then show ?thesis using False s by (simp add: issue_facts_def collector_total_def Let_def issue_total_def)
qed (simp add: issue_facts_def collector_total_def)

lemma facts_ok:
  assumes "collector_inv ic"
  shows "length (issue_facts ic) \<le> max_restore_issues" "\<forall>i\<in>set (issue_facts ic). restore_issue_ok i"
proof -
  have n: "0 \<le> sum_list (map occurrences xs)" for xs by (rule sum_list_nonneg) auto
  show "length (issue_facts ic) \<le> max_restore_issues"
    using assms by (auto simp: issue_facts_def collector_inv_def max_restore_issues_def Let_def)
  show "\<forall>i\<in>set (issue_facts ic). restore_issue_ok i"
    using assms n by (auto simp: issue_facts_def collector_inv_def Let_def omitted_issue_def restore_issue_ok_def dest: in_set_takeD)
qed

text \<open>Issues with new keys are appended as they are.\<close>

lemma refold:
  assumes "distinct (map issue_key (cs @ is))" "length (cs @ is) \<le> max_restore_issues"
    "\<forall>i\<in>set is. ri_count i \<noteq> 1 \<and> 0 \<le> ri_count i \<and> ri_error_type i \<noteq> ''AdditionalIssuesOmitted''"
  shows "foldl add_issue \<lparr>ic_issues = cs, ic_omitted = 0\<rparr> is = \<lparr>ic_issues = cs @ is, ic_omitted = 0\<rparr>"
  using assms
proof (induction "is" arbitrary: cs)
  case (Cons i "is")
  have b: "bump_issue i cs = None" using Cons.prems(1) by (auto simp: bump_None)
  have "i\<lparr>ri_count := (if 1 < occurrences i then occurrences i else 0)\<rparr> = i"
    using Cons.prems(3) by (cases i) (auto simp: occurrences_def)
  then have "add_issue \<lparr>ic_issues = cs, ic_omitted = 0\<rparr> i = \<lparr>ic_issues = cs @ [i], ic_omitted = 0\<rparr>"
    using b Cons.prems by (simp add: add_issue_def)
  with Cons.IH [of "cs @ [i]"] Cons.prems show ?case by simp
qed simp

lemma persisted_stored:
  assumes "\<forall>i\<in>set is. restore_issue_ok i"
  shows "collect_persisted_restore_issues (JList (map issue_to_dict is)) = foldl add_issue empty_collector is"
proof -
  have "foldl (\<lambda>ic item. case issue_from_dict item of Inr i \<Rightarrow> add_issue ic i | Inl _ \<Rightarrow> record_damaged_issues ic) ic (map issue_to_dict is)
      = foldl add_issue ic is" for ic
    using assms by (induction "is" arbitrary: ic) (simp_all add: issue_stored)
  then show ?thesis by (simp add: collect_persisted_restore_issues_def)
qed

lemma facts_refold:
  assumes "collector_inv ic"
  shows "issue_facts (foldl add_issue empty_collector (issue_facts ic)) = issue_facts ic"
proof (cases "ic_omitted ic = 0")
  case True
  then show ?thesis
    using refold [of "[]" "ic_issues ic"] assms
    by (simp add: issue_facts_def collector_inv_def restore_issue_ok_def empty_collector_def)
next
  case False
  define v where "v = take (max_restore_issues - 1) (ic_issues ic)"
  define n where "n = ic_omitted ic + sum_list (map occurrences (drop (length v) (ic_issues ic)))"
  have f: "issue_facts ic = v @ [omitted_issue n]" using False by (simp add: issue_facts_def v_def n_def Let_def)
  have "0 \<le> sum_list (map occurrences (drop (length v) (ic_issues ic)))" by (rule sum_list_nonneg) auto
  then have n: "1 \<le> n" using False assms by (simp add: n_def collector_inv_def)
  have lv: "length v \<le> max_restore_issues - 1" by (simp add: v_def)
  have "distinct (map issue_key v)" using assms by (simp add: v_def collector_inv_def take_map [symmetric] distinct_take)
  moreover have "\<forall>i\<in>set v. ri_count i \<noteq> 1 \<and> 0 \<le> ri_count i \<and> ri_error_type i \<noteq> ''AdditionalIssuesOmitted''"
    using assms by (auto simp: v_def collector_inv_def restore_issue_ok_def dest: in_set_takeD)
  ultimately have "foldl add_issue empty_collector v = \<lparr>ic_issues = v, ic_omitted = 0\<rparr>"
    using refold [of "[]" v] lv by (simp add: empty_collector_def)
  then have "foldl add_issue empty_collector (issue_facts ic) = \<lparr>ic_issues = v, ic_omitted = n\<rparr>"
    using n by (simp add: f add_issue_def omitted_issue_def occurrences_def)
  then show ?thesis using lv n f by (simp add: issue_facts_def Let_def)
qed

section \<open>Agreement of objects\<close>

definition agree :: "string set \<Rightarrow> json \<Rightarrow> json \<Rightarrow> bool" where
  "agree K v w \<longleftrightarrow> is_object v \<and> is_object w \<and> (\<forall>k. k \<notin> K \<longrightarrow> jget w k = jget v k \<and> has_key w k = has_key v k)"

lemma has_key_set_field: "is_object v \<Longrightarrow> has_key (set_field v k x) k' \<longleftrightarrow> k' = k \<or> has_key v k'"
  by (cases v) (auto simp: is_object_def set_field_def has_key_def keys_dict_set split: if_splits)

lemma dict_set_same: "(k, x) \<in> set d \<Longrightarrow> dict_set k (case map_of d k of None \<Rightarrow> JNull | Some v \<Rightarrow> v) d = d"
  by (induction d) auto

lemma set_field_same: "is_object v \<Longrightarrow> has_key v k \<Longrightarrow> set_field v k (jget v k) = v"
  by (cases v) (auto simp: is_object_def has_key_def set_field_def dict_set_same)

lemma agree_refl: "is_object v \<Longrightarrow> agree K v v"
  by (simp add: agree_def)

lemma agree_set: "is_object v \<Longrightarrow> k \<in> K \<Longrightarrow> agree K v (set_field v k x)"
  by (auto simp: agree_def jget_set_field has_key_set_field)

lemma agree_trans: "agree K u v \<Longrightarrow> agree L v w \<Longrightarrow> agree (K \<union> L) u w"
  by (auto simp: agree_def)

lemma agree_get:
  assumes "agree K v w" "k \<notin> K"
  shows "jget w k = jget v k" "has_key w k = has_key v k" "get_or w k d = get_or v k d" "text_at w k = text_at v k"
  using assms by (auto simp: agree_def get_or_def text_at_def)

lemma agree_objects: "agree K v w \<Longrightarrow> is_object v \<and> is_object w"
  by (simp add: agree_def)

section \<open>The stages of the repair\<close>

definition passes :: "('e, unit) result \<Rightarrow> bool" where
  "passes r = (case r of Inr _ \<Rightarrow> True | Inl _ \<Rightarrow> False)"

lemma passes_iff: "passes r \<longleftrightarrow> r = Inr ()"
  by (cases r) (simp_all add: passes_def)

lemma sift_kept: "fst (sift check phase ref vs ic) = filter (\<lambda>v. passes (check v)) vs"
  by (induction vs arbitrary: ic) (auto simp: passes_def case_prod_unfold Let_def split: sum.splits)

lemma sift_collector: "collector_inv ic \<Longrightarrow> collector_inv (snd (sift check phase ref vs ic))"
  by (induction vs arbitrary: ic) (auto simp: collector_record case_prod_unfold Let_def split: sum.splits)

lemma sift_clean: "list_all (\<lambda>v. passes (check v)) vs \<Longrightarrow> sift check phase ref vs ic = (vs, ic)"
  by (induction vs) (auto simp: passes_iff)

text \<open>What a repaired payload satisfies.\<close>

definition replay_clean :: "session_env \<Rightarrow> json \<Rightarrow> bool" where
  "replay_clean env p \<longleftrightarrow> jget p ''replay_envelope'' = JNull \<or>
     passes (legacy_replay_check env (text_at p ''id'') (jget p ''replay_envelope''))"

definition records_clean :: "(json \<Rightarrow> (check_error, unit) result) \<Rightarrow> string \<Rightarrow> json \<Rightarrow> bool" where
  "records_clean check k p \<longleftrightarrow> has_key p k \<and> list_of (\<lambda>v. passes (check v)) (jget p k)"

definition total_clean :: "string \<Rightarrow> json \<Rightarrow> bool" where
  "total_clean k p \<longleftrightarrow> is_valid_token_count (get_or p k (JInt 0))"

definition token_clean :: "json \<Rightarrow> bool" where
  "token_clean m \<longleftrightarrow> \<not> has_key m token_count_key \<or> is_valid_token_count (jget m token_count_key)"

definition messages_clean :: "json \<Rightarrow> bool" where
  "messages_clean p \<longleftrightarrow> list_all token_clean (list_items (get_or p ''messages'' (JList [])))"

definition repair_clean :: "session_env \<Rightarrow> json \<Rightarrow> bool" where
  "repair_clean env p \<longleftrightarrow>
     is_object p \<and> replay_clean env p \<and> records_clean legacy_request_check ''request_envelopes'' p \<and>
     records_clean (legacy_checkpoint_check env) ''checkpoints'' p \<and> total_clean ''total_prompt_tokens'' p \<and>
     total_clean ''total_completion_tokens'' p \<and> messages_clean p"

lemma replay_stage:
  assumes "is_object p" "collector_inv ic" "repair_replay env (p, ic) = ((p', ic'), bad)"
  shows "agree {''replay_envelope''} p p'" "collector_inv ic'" "replay_clean env p'"
  using assms
  by (auto simp: repair_replay_def Let_def replay_clean_def agree_refl agree_set jget_set_field collector_record passes_def
      split: if_splits sum.splits)

lemma requests_stage:
  assumes "is_object p" "collector_inv ic" "repair_requests bad (p, ic) = (p', ic')"
  shows "agree {''request_envelopes''} p p'" "collector_inv ic'" "records_clean legacy_request_check ''request_envelopes'' p'"
proof -
  let ?raw = "get_or p ''request_envelopes'' (JList [])"
  obtain kept where p': "p' = set_field p ''request_envelopes'' (JList kept)"
    and kept: "list_all (\<lambda>v. passes (legacy_request_check v)) kept" and ic: "collector_inv ic'"
    using assms(2,3) sift_kept [of legacy_request_check "''legacy_request_validate''" "''request_record''" "list_items ?raw" ic]
      sift_collector [OF assms(2), of legacy_request_check "''legacy_request_validate''" "''request_record''" "list_items ?raw"]
    by (auto simp: repair_requests_def Let_def collector_record list_all_iff split: if_splits prod.splits)
  show "agree {''request_envelopes''} p p'" using assms(1) p' by (simp add: agree_set)
  show "collector_inv ic'" by fact
  show "records_clean legacy_request_check ''request_envelopes'' p'"
    using assms(1) kept by (simp add: p' records_clean_def list_of_def is_list_def list_items_def jget_set_field has_key_set_field)
qed

lemma checkpoints_stage:
  assumes "is_object p" "collector_inv ic" "repair_checkpoints env (p, ic) = (p', ic')"
  shows "agree {''checkpoints''} p p'" "collector_inv ic'" "records_clean (legacy_checkpoint_check env) ''checkpoints'' p'"
proof -
  let ?raw = "get_or p ''checkpoints'' (JList [])"
  obtain kept where p': "p' = set_field p ''checkpoints'' (JList kept)"
    and kept: "list_all (\<lambda>v. passes (legacy_checkpoint_check env v)) kept" and ic: "collector_inv ic'"
    using assms(2,3) sift_kept [of "legacy_checkpoint_check env" "''legacy_checkpoint_validate''" "''checkpoint''" "list_items ?raw" ic]
      sift_collector [OF assms(2), of "legacy_checkpoint_check env" "''legacy_checkpoint_validate''" "''checkpoint''" "list_items ?raw"]
    by (auto simp: repair_checkpoints_def Let_def collector_record list_all_iff split: if_splits prod.splits)
  show "agree {''checkpoints''} p p'" using assms(1) p' by (simp add: agree_set)
  show "collector_inv ic'" by fact
  show "records_clean (legacy_checkpoint_check env) ''checkpoints'' p'"
    using assms(1) kept by (simp add: p' records_clean_def list_of_def is_list_def list_items_def jget_set_field has_key_set_field)
qed

lemma total_stage:
  assumes "is_object p" "collector_inv ic" "repair_total k (p, ic) = (p', ic')"
  shows "agree {k} p p'" "collector_inv ic'" "total_clean k p'"
  using assms
  by (auto simp: repair_total_def total_clean_def get_or_def agree_refl agree_set jget_set_field has_key_set_field collector_record
      is_valid_token_count_def split: if_splits)

lemma has_key_pop: "has_key (pop_key k v) k' \<longleftrightarrow> k' \<noteq> k \<and> has_key v k'"
  by (cases v) (auto simp: pop_key_def has_key_def dict_pop_def)

lemma jget_pop: "k' \<noteq> k \<Longrightarrow> jget (pop_key k v) k' = jget v k'"
proof (cases v)
  case (JObj fs)
  then show "k' \<noteq> k \<Longrightarrow> ?thesis" by (induction fs arbitrary: v) (auto simp: pop_key_def dict_pop_def split: if_splits)
qed (simp_all add: pop_key_def)

lemma repair_messages_clean: "list_all token_clean (fst (repair_messages ms ic))"
  by (induction ms arbitrary: ic) (auto simp: token_clean_def has_key_pop case_prod_unfold Let_def)

lemma repair_messages_collector: "collector_inv ic \<Longrightarrow> collector_inv (snd (repair_messages ms ic))"
  by (induction ms arbitrary: ic) (auto simp: collector_record case_prod_unfold Let_def)

lemma repair_messages_same: "list_all token_clean ms \<Longrightarrow> repair_messages ms ic = (ms, ic)"
  by (induction ms) (auto simp: token_clean_def)

lemma repair_messages_elem: "m' \<in> set (fst (repair_messages ms ic)) \<Longrightarrow> \<exists>m\<in>set ms. m' = m \<or> m' = pop_key token_count_key m"
  by (induction ms arbitrary: ic) (auto simp: case_prod_unfold Let_def split: if_splits)

lemma messages_stage:
  assumes "is_object p" "collector_inv ic" "repair_session_messages (p, ic) = (p', ic')"
  shows "agree {''messages''} p p'" "collector_inv ic'" "messages_clean p'"
    "get_or p' ''messages'' (JList []) = (if has_key p ''messages'' then JList (fst (repair_messages (list_items (jget p ''messages'')) ic)) else JList [])"
proof -
  note r = repair_messages_clean [of "list_items (jget p ''messages'')" ic]
  have p': "p' = (if has_key p ''messages'' then set_field p ''messages'' (JList (fst (repair_messages (list_items (jget p ''messages'')) ic))) else p)"
    and ic': "ic' = snd (repair_messages (list_items (get_or p ''messages'' (JList []))) ic)"
    using assms(3) by (auto simp: repair_session_messages_def case_prod_unfold Let_def get_or_def split: if_splits)
  show "agree {''messages''} p p'" using assms(1) by (simp add: p' agree_refl agree_set)
  show "collector_inv ic'" using assms(2) by (simp add: ic' repair_messages_collector)
  show g: "get_or p' ''messages'' (JList []) = (if has_key p ''messages'' then JList (fst (repair_messages (list_items (jget p ''messages'')) ic)) else JList [])"
    using assms(1) by (simp add: p' get_or_def jget_set_field has_key_set_field)
  show "messages_clean p'" unfolding messages_clean_def g using r by (simp add: list_items_def)
qed

section \<open>A repaired session stays as it is\<close>

lemma clean_moves:
  assumes "agree K p p'"
  shows "''replay_envelope'' \<notin> K \<Longrightarrow> ''id'' \<notin> K \<Longrightarrow> replay_clean env p \<Longrightarrow> replay_clean env p'"
    "k \<notin> K \<Longrightarrow> records_clean check k p \<Longrightarrow> records_clean check k p'"
    "k \<notin> K \<Longrightarrow> total_clean k p \<Longrightarrow> total_clean k p'"
    "''messages'' \<notin> K \<Longrightarrow> messages_clean p \<Longrightarrow> messages_clean p'"
  using agree_get [OF assms] by (auto simp: replay_clean_def records_clean_def total_clean_def messages_clean_def)

lemma get_restore_issues:
  "is_object p \<Longrightarrow> get_or (set_field p k x) k d = x"
  by (simp add: get_or_def jget_set_field has_key_set_field)

lemma collect_inv: "collector_inv (collect_persisted_restore_issues raw)"
proof -
  have damaged: "collector_inv ic \<Longrightarrow> collector_inv (record_damaged_issues ic)" for ic
    by (simp add: record_damaged_issues_def collector_record)
  have ok: "issue_from_dict v = Inr i \<Longrightarrow> restore_issue_ok i" for v i
    by (auto simp: issue_from_dict_def restore_fact_def restore_issue_ok_def split: if_splits json.splits)
  have "collector_inv ic \<Longrightarrow> collector_inv (foldl (\<lambda>ic item. case issue_from_dict item of Inr i \<Rightarrow> add_issue ic i
      | Inl _ \<Rightarrow> record_damaged_issues ic) ic items)" for items ic
    by (induction items arbitrary: ic) (auto simp: damaged collector_add(1) ok split: sum.splits)
  then show ?thesis by (auto simp: collect_persisted_restore_issues_def damaged split: json.splits)
qed

text \<open>The repair keeps every other key, and its result is clean.\<close>

definition repaired_keys :: "string set" where
  "repaired_keys = {''replay_envelope'', ''request_envelopes'', ''checkpoints'', ''total_prompt_tokens'',
     ''total_completion_tokens'', ''messages'', ''restore_issues''}"

lemma repair_legacy_result:
  assumes "is_object p"
  shows "\<exists>ic ic'. repair_clean env (repair_legacy env p) \<and> agree repaired_keys p (repair_legacy env p) \<and> collector_inv ic \<and>
     has_key (repair_legacy env p) ''restore_issues'' \<and>
     jget (repair_legacy env p) ''restore_issues'' = JList (map issue_to_dict (issue_facts ic)) \<and>
     get_or (repair_legacy env p) ''messages'' (JList []) =
       (if has_key p ''messages'' then JList (fst (repair_messages (list_items (jget p ''messages'')) ic')) else JList [])"
proof -
  define c0 where "c0 = collect_persisted_restore_issues (get_or p ''restore_issues'' (JList []))"
  obtain p1 c1 bad where s1: "repair_replay env (p, c0) = ((p1, c1), bad)" by (metis prod.collapse)
  obtain p2 c2 where s2: "repair_requests bad (p1, c1) = (p2, c2)" by (metis prod.collapse)
  obtain p3 c3 where s3: "repair_checkpoints env (p2, c2) = (p3, c3)" by (metis prod.collapse)
  obtain p4 c4 where s4: "repair_total ''total_prompt_tokens'' (p3, c3) = (p4, c4)" by (metis prod.collapse)
  obtain p5 c5 where s5: "repair_total ''total_completion_tokens'' (p4, c4) = (p5, c5)" by (metis prod.collapse)
  obtain p6 c6 where s6: "repair_session_messages (p5, c5) = (p6, c6)" by (metis prod.collapse)
  have final: "repair_legacy env p = set_field p6 ''restore_issues'' (JList (map issue_to_dict (issue_facts c6)))"
    by (simp add: repair_legacy_def c0_def [symmetric] s1 s2 s3 s4 s5 s6)
  note r1 = replay_stage [OF assms collect_inv [of "get_or p ''restore_issues'' (JList [])", folded c0_def] s1]
  have o1: "is_object p1" using r1(1) agree_objects by blast
  note r2 = requests_stage [OF o1 r1(2) s2]
  have o2: "is_object p2" using r2(1) agree_objects by blast
  note r3 = checkpoints_stage [OF o2 r2(2) s3]
  have o3: "is_object p3" using r3(1) agree_objects by blast
  note r4 = total_stage [OF o3 r3(2) s4]
  have o4: "is_object p4" using r4(1) agree_objects by blast
  note r5 = total_stage [OF o4 r4(2) s5]
  have o5: "is_object p5" using r5(1) agree_objects by blast
  note r6 = messages_stage [OF o5 r5(2) s6]
  have o6: "is_object p6" using r6(1) agree_objects by blast
  have a7: "agree {''restore_issues''} p6 (repair_legacy env p)" unfolding final using o6 by (simp add: agree_set)
  note a67 = agree_trans [OF r6(1) a7]
  note a57 = agree_trans [OF r5(1) a67]
  note a47 = agree_trans [OF r4(1) a57]
  note a37 = agree_trans [OF r3(1) a47]
  note a27 = agree_trans [OF r2(1) a37]
  note a17 = agree_trans [OF r1(1) a27]
  note a05 = agree_trans [OF r1(1) agree_trans [OF r2(1) agree_trans [OF r3(1) agree_trans [OF r4(1) r5(1)]]]]
  have clean: "repair_clean env (repair_legacy env p)"
    unfolding repair_clean_def
    using agree_objects [OF a7] clean_moves(1) [OF a27 _ _ r1(3)] clean_moves(2) [OF a37 _ r2(3)] clean_moves(2) [OF a47 _ r3(3)]
      clean_moves(3) [OF a57 _ r4(3)] clean_moves(3) [OF a67 _ r5(3)] clean_moves(4) [OF a7 _ r6(3)]
    by simp
  have "agree repaired_keys p (repair_legacy env p)"
    using a17 by (simp add: repaired_keys_def insert_commute)
  moreover have "get_or (repair_legacy env p) ''messages'' (JList []) =
      (if has_key p ''messages'' then JList (fst (repair_messages (list_items (jget p ''messages'')) c5)) else JList [])"
    using r6(4) agree_get(3) [OF a7, of "''messages''"] agree_get(1,2) [OF a05, of "''messages''"] by simp
  moreover have "has_key (repair_legacy env p) ''restore_issues''"
    "jget (repair_legacy env p) ''restore_issues'' = JList (map issue_to_dict (issue_facts c6))"
    using o6 by (simp_all add: final jget_set_field has_key_set_field)
  ultimately show ?thesis using clean r6(2) by blast
qed

lemma clean_replay: "replay_clean env p \<Longrightarrow> repair_replay env (p, ic) = ((p, ic), False)"
  by (auto simp: replay_clean_def repair_replay_def Let_def passes_iff)

lemma clean_requests:
  assumes "is_object p" "records_clean legacy_request_check ''request_envelopes'' p"
  shows "repair_requests False (p, ic) = (p, ic)"
proof -
  obtain vs where vs: "jget p ''request_envelopes'' = JList vs" "list_all (\<lambda>v. passes (legacy_request_check v)) vs"
    using assms(2) by (auto simp: records_clean_def list_of_def is_list_def list_items_def split: json.splits)
  then show ?thesis
    using assms set_field_same [of p "''request_envelopes''"]
    by (simp add: repair_requests_def records_clean_def get_or_def is_list_def list_items_def sift_clean)
qed

lemma clean_checkpoints:
  assumes "is_object p" "records_clean (legacy_checkpoint_check env) ''checkpoints'' p"
  shows "repair_checkpoints env (p, ic) = (p, ic)"
proof -
  obtain vs where vs: "jget p ''checkpoints'' = JList vs" "list_all (\<lambda>v. passes (legacy_checkpoint_check env v)) vs"
    using assms(2) by (auto simp: records_clean_def list_of_def is_list_def list_items_def split: json.splits)
  then show ?thesis
    using assms set_field_same [of p "''checkpoints''"]
    by (simp add: repair_checkpoints_def records_clean_def get_or_def is_list_def list_items_def sift_clean)
qed

lemma clean_messages:
  assumes "is_object p" "messages_clean p" "has_key p ''messages'' \<Longrightarrow> is_list (jget p ''messages'')"
  shows "repair_session_messages (p, ic) = (p, ic)"
  using assms set_field_same [of p "''messages''"]
  by (auto simp: repair_session_messages_def messages_clean_def repair_messages_same get_or_def is_list_def list_items_def split: if_splits json.splits)

lemma repair_clean_same:
  assumes "repair_clean env p" "has_key p ''messages'' \<Longrightarrow> is_list (jget p ''messages'')" "collector_inv ic"
    "has_key p ''restore_issues''" "jget p ''restore_issues'' = JList (map issue_to_dict (issue_facts ic))"
  shows "repair_legacy env p = p"
proof -
  have o: "is_object p" using assms(1) by (simp add: repair_clean_def)
  have f: "issue_facts (collect_persisted_restore_issues (JList (map issue_to_dict (issue_facts ic)))) = issue_facts ic"
    by (simp add: persisted_stored [OF facts_ok(2) [OF assms(3)]] facts_refold [OF assms(3)])
  have t: "repair_total ''total_prompt_tokens'' (p, c) = (p, c)" "repair_total ''total_completion_tokens'' (p, c) = (p, c)" for c
    using assms(1) by (simp_all add: repair_total_def repair_clean_def total_clean_def)
  have s: "set_field p ''restore_issues'' (JList (map issue_to_dict (issue_facts ic))) = p"
    using set_field_same [OF o assms(4)] assms(5) by simp
  show ?thesis
    using assms(1) by (simp add: repair_legacy_def repair_clean_def clean_replay clean_requests [OF o] clean_checkpoints [OF o] t
        clean_messages [OF o _ assms(2)] get_or_def assms(4,5) f s)
qed

lemma json_fields_filter:
  "validate_json_fields depth fs = Inr () \<Longrightarrow> validate_json_fields depth (filter P fs) = Inr ()"
proof (induction fs)
  case (Cons f fs)
  then show ?case by (cases f) auto
qed simp

lemma validate_popped:
  assumes "validate_provider_message m = Inr ()"
  shows "validate_provider_message (pop_key token_count_key m) = Inr ()"
proof -
  obtain fs where m: "m = JObj fs"
    using assms by (cases m) (auto simp: validate_provider_message_def ensure_def is_object_def)
  have v: "validate_json_value 0 m = Inr () \<Longrightarrow> validate_json_value 0 (pop_key token_count_key m) = Inr ()"
    by (simp add: m pop_key_def dict_pop_def json_fields_filter)
  have o: "is_object (pop_key token_count_key m) = is_object m" by (simp add: m pop_key_def is_object_def)
  have g: "jget (pop_key token_count_key m) k = jget m k" if "k \<in> {''role'', ''content'', ''tool_call_id'', ''name'', ''tool_calls''}" for k
    using that by (intro jget_pop) (auto simp: token_count_key_def)
  have h: "has_key (pop_key token_count_key m) ''content'' = has_key m ''content''"
    by (simp add: has_key_pop token_count_key_def)
  show ?thesis using assms v by (auto simp: validate_provider_message_def o g h Let_def split: if_splits)
qed

lemma popped_object: "is_object m \<Longrightarrow> is_object (pop_key k m)"
  by (cases m) (simp_all add: is_object_def pop_key_def)

lemma first_error_Inr: "first_error rs = Inr () \<longleftrightarrow> (\<forall>r\<in>set rs. r = Inr ())"
  by (induction rs) auto

lemma lift_raised_Inr: "lift_raised r = Inr x \<longleftrightarrow> r = Inr x"
  by (cases r) (simp_all add: lift_raised_def)

lemma check_messages_Inr: "check_messages ms = Inr () \<longleftrightarrow> (\<forall>m\<in>set ms. validate_provider_message m = Inr ())"
  by (simp add: check_messages_def first_error_Inr lift_raised_Inr)

lemma guard_Inr [simp]: "guard_both e r = Inr () \<longleftrightarrow> r = Inr ()" "guard_value e r = Inr () \<longleftrightarrow> r = Inr ()" "legacy_check b = Inr () \<longleftrightarrow> b"
  by (auto simp: guard_both_def guard_value_def legacy_check_def legacy_fail_def split: sum.splits check_error.splits)

lemma repaired_messages_valid:
  assumes "list_of is_object (JList ms)" "check_messages ms = Inr ()"
  shows "list_of is_object (JList (fst (repair_messages ms ic)))" "check_messages (fst (repair_messages ms ic)) = Inr ()"
  using assms repair_messages_elem [of _ ms ic] validate_popped popped_object
  by (fastforce simp: list_of_def is_list_def list_items_def list_all_iff check_messages_Inr)+

lemma required_kept:
  assumes "legacy_required env p = Inr ()" "agree repaired_keys p p'"
    "get_or p' ''messages'' (JList []) = (if has_key p ''messages'' then JList (fst (repair_messages (list_items (jget p ''messages'')) ic)) else JList [])"
  shows "legacy_required env p' = Inr ()"
proof -
  have r: "list_of is_object (get_or p ''messages'' (JList []))" "check_messages (list_items (get_or p ''messages'' (JList []))) = Inr ()"
    using assms(1) by (auto simp: legacy_required_def Let_def)
  then have m: "list_of is_object (get_or p' ''messages'' (JList []))" "check_messages (list_items (get_or p' ''messages'' (JList []))) = Inr ()"
    unfolding assms(3) using repaired_messages_valid [of "list_items (jget p ''messages'')" ic]
    by (cases "has_key p ''messages''"; simp add: get_or_def list_of_def is_list_def list_items_def split: json.splits)+
  have k: "jget p' k = jget p k" "has_key p' k = has_key p k" "get_or p' k d = get_or p k d" "text_at p' k = text_at p k"
    if "k \<notin> repaired_keys" for k d
    using agree_get [OF assms(2) that] by auto
  have n: "k \<notin> repaired_keys" if "k \<in> {''id'', ''model'', ''saved_at'', ''fingerprint'', ''active_mode'', ''history_completeness'',
      ''history_events'', ''runtime_state''}" for k
    using that by (auto simp: repaired_keys_def)
  show ?thesis using assms(1) m by (auto simp: legacy_required_def Let_def k n texts_at_def split: if_splits)
qed

lemma legacy_object: "legacy_required env p = Inr () \<Longrightarrow> is_object p"
  by (cases p) (auto simp: legacy_required_def Let_def texts_at_def nonempty_text_def is_object_def)

section \<open>Records the program writes\<close>

lemma contains_text_first: "contains_text (c # t) s \<Longrightarrow> c \<in> set s"
  by (induction s) (auto simp: starts_with_def)

text \<open>The identifiers of records: a tag and the first digits of a hexadecimal name.\<close>

lemma hex_name_safe:
  assumes "list_all is_lower_digit hex"
  shows "is_safe_artifact_id (JStr (''cc_'' @ take 12 hex))" "is_safe_artifact_id (JStr (''rq_'' @ take 12 hex))"
proof -
  have t: "list_all is_lower_digit (take 12 hex)" using assms by (auto simp: list_all_iff dest: in_set_takeD)
  have c: "list_all artifact_char (take 12 hex)"
    using t unfolding list_all_iff by (auto simp: artifact_char_def is_alnum_def)
  have "CHR ''.'' \<notin> set (take 12 hex)"
  proof
    assume "CHR ''.'' \<in> set (take 12 hex)"
    then have "is_lower_digit (CHR ''.'')" using t by (auto simp: list_all_iff)
    moreover have "\<not> is_lower_digit (CHR ''.'')" by code_simp
    ultimately show False by simp
  qed
  then have d: "\<not> contains_text ''..'' (x # y # CHR ''_'' # take 12 hex)" if "x \<noteq> CHR ''.''" "y \<noteq> CHR ''.''" for x y
    using that contains_text_first [of "CHR ''.''" "''.''" "x # y # CHR ''_'' # take 12 hex"] by auto
  have a: "is_alnum (CHR ''c'')" "is_alnum (CHR ''r'')" "artifact_char (CHR ''c'')" "artifact_char (CHR ''q'')" "artifact_char (CHR ''_'')" by code_simp+
  show "is_safe_artifact_id (JStr (''cc_'' @ take 12 hex))" "is_safe_artifact_id (JStr (''rq_'' @ take 12 hex))"
    using a c d [of "CHR ''c''" "CHR ''c''"] d [of "CHR ''r''" "CHR ''q''"] by (simp_all add: is_safe_artifact_id_def del: contains_text.simps)
qed

definition in_range :: "int \<Rightarrow> bool" where
  "in_range n \<longleftrightarrow> 0 \<le> n \<and> n \<le> max_replay_counter"

lemma counter_in_range [simp]: "counter_ok (JInt n) \<longleftrightarrow> in_range n"
  by (simp add: counter_ok_def in_range_def)

lemma opt_counter [simp]: "opt_ok counter_ok (json_opt_int n) \<longleftrightarrow> (case n of None \<Rightarrow> True | Some k \<Rightarrow> in_range k)"
  by (cases n) (simp_all add: opt_ok_def)

section \<open>Properties\<close>

text \<open>C19: The repair of a legacy session is final: the payload it leaves passes the same validation unchanged, every request
  and checkpoint in it is acceptable, and it carries at most eight restore issues.\<close>

theorem legacy_repair_is_final:
  assumes "validate_legacy_session_payload env payload = Inr repaired"
  shows "validate_legacy_session_payload env repaired = Inr repaired \<and>
    list_of (\<lambda>v. legacy_request_check v = Inr ()) (jget repaired ''request_envelopes'') \<and>
    list_of (\<lambda>v. legacy_checkpoint_check env v = Inr ()) (jget repaired ''checkpoints'') \<and>
    length (list_items (jget repaired ''restore_issues'')) \<le> max_restore_issues"
proof -
  have r: "legacy_required env payload = Inr ()" and e: "repaired = repair_legacy env payload"
    using assms by (auto simp: validate_legacy_session_payload_def)
  obtain ic ic' where x: "repair_clean env repaired" "agree repaired_keys payload repaired" "collector_inv ic"
     "has_key repaired ''restore_issues''" "jget repaired ''restore_issues'' = JList (map issue_to_dict (issue_facts ic))"
     "get_or repaired ''messages'' (JList []) =
       (if has_key payload ''messages'' then JList (fst (repair_messages (list_items (jget payload ''messages'')) ic')) else JList [])"
    using repair_legacy_result [OF legacy_object [OF r], of env, folded e] by blast
  have q: "legacy_required env repaired = Inr ()" by (rule required_kept [OF r x(2,6)])
  then have l: "list_of is_object (get_or repaired ''messages'' (JList []))" by (auto simp: legacy_required_def Let_def)
  have "repair_legacy env repaired = repaired"
    by (rule repair_clean_same [OF x(1) _ x(3-5)]) (use l in \<open>simp add: list_of_def get_or_def\<close>)
  then show ?thesis
    using q x(1,5) facts_ok(1) [OF x(3)]
    by (simp add: validate_legacy_session_payload_def repair_clean_def records_clean_def passes_iff list_items_def)
qed

definition damaged_session :: json where
  "damaged_session = JObj
     [(''id'', JStr ''s1''), (''model'', JStr ''m''), (''saved_at'', JStr ''2024-01-01''),
      (''messages'', JList [JObj [(''role'', JStr ''user''), (''content'', JStr ''hi''), (token_count_key, JInt (- 1))]]),
      (''replay_envelope'', JObj []), (''request_envelopes'', JList [JInt 1]),
      (''checkpoints'', JList [JObj [(''id'', JStr ''cc_1'')]]), (''total_prompt_tokens'', JBool True)]"

definition plain_session_env :: session_env where
  "plain_session_env = \<lparr>se_dumps = (\<lambda>_. []), se_str = (\<lambda>_. []), se_digest = (\<lambda>_. []), se_float = (\<lambda>_. Inl [])\<rparr>"

definition repaired_session :: json where
  "repaired_session = JObj
     [(''id'', JStr ''s1''), (''model'', JStr ''m''), (''saved_at'', JStr ''2024-01-01''),
      (''messages'', JList [JObj [(''role'', JStr ''user''), (''content'', JStr ''hi'')]]),
      (''replay_envelope'', JNull), (''request_envelopes'', JList []), (''checkpoints'', JList []), (''total_prompt_tokens'', JInt 0),
      (''restore_issues'', JList (map (\<lambda>(phase, error, ref). JObj [(''phase'', JStr phase), (''error_type'', JStr error), (''ref'', JStr ref)])
        [(''legacy_replay_validate'', ''ValueError'', ''replay''),
         (''legacy_request_validate'', ''ReplayDependencyValidationError'', ''request_record''),
         (''legacy_checkpoint_validate'', ''ValueError'', ''checkpoint''),
         (''token_counts_validate'', ''TokenUsageCounterValidationError'', ''total_prompt_tokens''),
         (''token_counts_validate'', ''MessageTokenMetadataValidationError'', ''message_token_metadata'')]))]"

lemma damaged_session_repaired: "validate_legacy_session_payload plain_session_env damaged_session = Inr repaired_session"
  by code_simp

theorem legacy_repair_is_final_witness: "validate_legacy_session_payload plain_session_env repaired_session = Inr repaired_session"
  using legacy_repair_is_final [OF damaged_session_repaired] by simp

text \<open>C20: Issues added to an empty collector give at most eight facts; the occurrences of the facts sum up to the
  occurrences added, and facts that are stored and collected again are the same facts.\<close>

theorem restore_issues_lose_nothing:
  assumes "list_all restore_issue_ok is"
  shows "let facts = issue_facts (foldl add_issue empty_collector is)
    in length facts \<le> 8 \<and> sum_list (map occurrences facts) = sum_list (map occurrences is) \<and>
       issue_facts (collect_persisted_restore_issues (JList (map issue_to_dict facts))) = facts"
proof -
  have c: "collector_inv (foldl add_issue empty_collector is)" "collector_total (foldl add_issue empty_collector is) = issue_total is"
    using collector_fold [OF assms, of empty_collector] by simp_all
  show ?thesis
    using facts_total [OF c(1)] facts_ok(1) [OF c(1)] c(2)
    by (simp add: Let_def persisted_stored [OF facts_ok(2) [OF c(1)]] facts_refold [OF c(1)] issue_total_def max_restore_issues_def)
qed

definition nine_issues :: "restore_issue list" where
  "nine_issues = map (\<lambda>c. \<lparr>ri_phase = ''restore'', ri_error_type = ''ValueError'', ri_ref = [c], ri_count = 0\<rparr>) ''aabcdefghij''"

theorem restore_issues_lose_nothing_witness:
  "let facts = issue_facts (foldl add_issue empty_collector nine_issues)
   in length facts = 8 \<and> last facts = omitted_issue 3 \<and> sum_list (map occurrences facts) = 11 \<and>
      issue_facts (collect_persisted_restore_issues (JList (map issue_to_dict facts))) = facts"
proof -
  have ok: "list_all restore_issue_ok nine_issues" by code_simp
  have "length (issue_facts (foldl add_issue empty_collector nine_issues)) = 8"
    "last (issue_facts (foldl add_issue empty_collector nine_issues)) = omitted_issue 3"
    "sum_list (map occurrences nine_issues) = 11"
    by code_simp+
  with restore_issues_lose_nothing [OF ok] show ?thesis by (simp add: Let_def)
qed

text \<open>What the request path writes passes the checks on loading: a request record made by \<^verbatim>\<open>RequestEnvelope.create\<close>, with
  digests of 64 hexadecimal digits and counters in range, is accepted.\<close>

theorem request_records_load:
  assumes "\<And>v. hex_hash (JStr (digest v))" "hex_hash (JStr (rp_canonical_payload_hash replay))" "list_all is_lower_digit hex"
    "in_range revision" "in_range tokens" "plan_revision \<le> max_replay_counter"
  shows "legacy_request_check (request_to_dict
    (create_request digest (''rq_'' @ take 12 hex) replay overlay revision tokens plan_revision payload)) = Inr ()"
proof -
  have "in_range (max 0 plan_revision)" using assms(6) by (auto simp: in_range_def max_replay_counter_def)
  then show ?thesis
    using assms hex_name_safe(2) [OF assms(3)]
    by (simp add: legacy_request_check_def validate_request_record_payload_def request_to_dict_def create_request_def check_object_def
        check_value_def is_object_def is_text_def text_at_def get_or_def has_key_def content_hash_def request_keys_def)
qed

text \<open>What the context manager writes passes the checks on loading: a checkpoint made from valid messages with counters in
  range is accepted, and its stored form reads back as the same checkpoint.\<close>

theorem checkpoints_load:
  assumes "list_all is_lower_digit hex" "trigger \<noteq> []" "[] \<notin> set strategy" "0 \<le> now"
    "list_all (\<lambda>m. validate_provider_message (stored_message m) = Inr ()) history"
    "list_all in_range [version, tokens_before, tokens_after, preserved, epoch]"
    "list_all (\<lambda>n. case n of None \<Rightarrow> True | Some k \<Rightarrow> in_range k) [actual, cached, invalidated, reclaimed]"
  shows "let c = create_checkpoint hex trigger strategy version history tokens_before tokens_after preserved now epoch
      actual cached invalidated reclaimed
    in legacy_checkpoint_check env (checkpoint_to_dict c) = Inr () \<and>
       checkpoint_from_dict (se_str env) (se_float env) (checkpoint_to_dict c) = Inr c"
proof -
  define c where "c = create_checkpoint hex trigger strategy version history tokens_before tokens_after preserved now epoch
      actual cached invalidated reclaimed"
  have r: "checkpoint_from_dict (se_str env) (se_float env) (checkpoint_to_dict c) = Inr c"
    by (rule checkpoint_stored) (simp add: c_def create_checkpoint_def list_all_iff stored_message_def is_object_def)
  have m: "check_messages (map stored_message history) = Inr ()"
    using assms(5) by (auto simp: check_messages_Inr list_all_iff)
  have o: "list_all is_object (map stored_message history)" by (simp add: list_all_iff stored_message_def is_object_def)
  have s: "list_all nonempty_text (map JStr strategy)" using assms(3) by (auto simp: list_all_iff nonempty_text_def)
  have v: "validate_checkpoint_payload (checkpoint_to_dict c) (''cc_'' @ take 12 hex) = Inr ()"
    using assms m o s hex_name_safe(1) [OF assms(1)]
    by (simp add: validate_checkpoint_payload_def checkpoint_to_dict_def c_def create_checkpoint_def check_value_def check_timestamp_def
        nonempty_text_def is_list_def list_items_def checkpoint_counters_def checkpoint_optional_counters_def get_or_def has_key_def Let_def)
  then show ?thesis
    unfolding Let_def c_def [symmetric]
    using r by (simp add: legacy_checkpoint_check_def check_object_def check_value_def is_object_def is_text_def text_at_def
        lift_raised_def checkpoint_to_dict_def c_def create_checkpoint_def)
qed

definition empty_replay :: replay_envelope where
  "empty_replay = \<lparr>rp_schema_version = 3, rp_session_id = JStr ''s1'', rp_view_id = ''v'', rp_cache_epoch = 0, rp_history_version = 0,
     rp_model_profile = ''m'', rp_provider_family = ''f'', rp_request_mode = ''r'', rp_request_settings = JObj [], rp_instructions = [],
     rp_tools = [], rp_items = [], rp_item_provenance = [], rp_stable_prefix_hash = replicate 64 (CHR ''a''),
     rp_canonical_payload_hash = replicate 64 (CHR ''a'')\<rparr>"

theorem request_records_load_witness:
  "legacy_request_check (request_to_dict
     (create_request (\<lambda>_. replicate 64 (CHR ''a'')) ''rq_ab'' empty_replay (JObj []) 1 2 3 None)) = Inr ()"
  using request_records_load [of "\<lambda>_. replicate 64 (CHR ''a'')" empty_replay "''ab''" 1 2 3 "JObj []" None]
  by (simp add: hex_hash_def list_all_iff empty_replay_def is_lower_digit_def in_range_def max_replay_counter_def)

theorem checkpoints_load_witness:
  "legacy_checkpoint_check plain_session_env (checkpoint_to_dict
     (create_checkpoint ''ab'' ''auto'' [''summary''] 1 [ex_user] 10 5 1 0 0 None (Some 3) None None)) = Inr ()"
proof -
  have "validate_provider_message (stored_message ex_user) = Inr ()" by code_simp
  then show ?thesis
    using checkpoints_load [of "''ab''" "''auto''" "[''summary'']" 0 "[ex_user]" 1 10 5 1 0 None "Some 3" None None plain_session_env]
    by (simp add: is_lower_digit_def in_range_def max_replay_counter_def Let_def)
qed

end
