(* ===== verification/Spec2Isabelle.thy ===== *)
theory Spec2Isabelle
  imports Approval_Rules Approval_Coordinator Goal Plan Output_Journal Remote_Relay Extensions File_Tools
    Process_Manager Tool_Validation Sanitizer Replay Rpc_Transport Rpc_Peer
    Reducer Session_Repair
begin

text \<open>
  \<^bold>\<open>A verification of the ReuleauxCoder agent runtime.\<close>

  ReuleauxCoder is a terminal coding agent. A front end (terminal UI, RPC, editor) drives an
  agent loop; the loop sends a message history to a language model, runs the tools the model
  asks for, and records everything in an append-only history. Between the model's request
  and the tool stand the hook registry and the approval policy; beside the loop stand the
  goal, plan and output journals that share the history, the sanitizer and the replay envelopes
  that prepare it for a provider and for restoring a session, the context manager that keeps it
  within the model's window, the names, snapshots and repair of stored sessions, the workspace and the tools that
  change its files, the validation of what a tool returned, the image inputs, the process
  sessions and the buffers that hold their output, the extension manager that builds the
  runtime's parts, the RPC connection to the front end, and the relay that runs tools on
  remote peers. This development models these parts of \<^verbatim>\<open>src/reuleauxcoder\<close>, each in
  its own theory, function by function.

  \<^bold>\<open>Theories and what they model.\<close>

  \<^item> \<open>Prelude\<close>: Python strings, dictionaries, sorting, JSON values, exceptions; the locales
    \<open>dict_ops\<close>, \<open>machine\<close>, \<open>monotone_machine\<close> and \<open>fresh_machine\<close> that the components
    interpret.
  \<^item> \<open>Hook_Types\<close>: \<^verbatim>\<open>domain/hooks/types.py\<close> and \<^verbatim>\<open>domain/llm/models.py\<close>: hook points and kinds,
    guard decisions, tool calls, deferred dispatch callbacks.
  \<^item> \<open>Approval_Engine\<close>: \<^verbatim>\<open>domain/approval_engine.py\<close> and the guard hook of
    \<^verbatim>\<open>extensions/hooks/builtin/tool_policy.py\<close>: rules, specificity, evaluation over subjects,
    and the guard's decision. The verdict is the strictest one, from the most specific rule
    of each subject.
  \<^item> \<open>Approval_Types\<close>: requests, decisions, session grants and the shared provider of
    \<^verbatim>\<open>domain/approval.py\<close>. A grant covers a request exactly when the policy with the grant's rule
    would allow it; a forced review reaches a human whatever the judges say.
  \<^item> \<open>Approval_Rules\<close>: \<^verbatim>\<open>app/runtime/approval.py\<close> and \<^verbatim>\<open>extensions/command/builtin/approval.py\<close>:
    selectors, merging of configurations, session rules and the commands that edit them.
  \<^item> \<open>Approval_Coordinator\<close>: the concurrent review queue of \<^verbatim>\<open>domain/approval.py\<close> and the handler of
    \<^verbatim>\<open>app/runtime/approval_interaction.py\<close>, as an inductive step relation in which each lock region
    of a call is one step, calls interleave freely, and a call asleep in the condition has a step only
    after a notification. At most one unresolved review is in front of the user, in registration order,
    no call is stuck and no wake-up lost, and every approval has a source; two findings about
    cancellation are proved.
  \<^item> \<open>Messages\<close>: \<^verbatim>\<open>domain/llm/context_messages.py\<close>, \<^verbatim>\<open>domain/llm/tool_history.py\<close> and
    \<^verbatim>\<open>domain/context/rounds.py\<close>: synthetic messages, role normalisation, the repair that gives
    every tool call exactly one adjacent answer, and cutting the history into rounds.
  \<^item> \<open>History_Ledger\<close>: \<^verbatim>\<open>domain/history.py\<close>: the append-only event ledger and its JSONL sink; the
    locale \<open>event_log\<close> is what its clients rely on.
  \<^item> \<open>Goal\<close>, \<open>Plan\<close>, \<open>Output_Journal\<close>: \<^verbatim>\<open>domain/goal.py\<close>, \<^verbatim>\<open>domain/plan.py\<close>,
    \<^verbatim>\<open>domain/output_journal.py\<close>: three clients of the ledger, with their budget, idempotency and
    checkpoint rules, each shown to be recoverable from the history alone. The goal's budget holds in
    every state its own operations reach; restoring takes a stored goal unchecked, which is a finding.
  \<^item> \<open>Hook_Registry\<close>: \<^verbatim>\<open>domain/hooks/registry.py\<close>: registration, the per-kind cache, guard,
    transform and observer stages, diagnostics.
  \<^item> \<open>Extensions\<close>: \<^verbatim>\<open>domain/extensions\<close>: manifests, topological ordering, scopes and disposal,
    lifecycle transitions, the hook adapter.
  \<^item> \<open>Text_Buffer\<close>: \<^verbatim>\<open>infrastructure/process/buffer.py\<close> and \<^verbatim>\<open>domain/process_output.py\<close>: bounded
    retention of process output by UTF-8 bytes and its safe display.
  \<^item> \<open>Workspace_Text\<close>, \<open>Workspace\<close>: \<^verbatim>\<open>infrastructure/workspace/text.py\<close>, \<^verbatim>\<open>domain/workspace.py\<close> and
    \<^verbatim>\<open>infrastructure/workspace/local.py\<close>: UTF-8, line splitting and the bounded pager; path
    confinement, snapshots, verified writes with receipts and exact edits with retries, over a
    file system that other programs may change between any two steps. The pager returns a
    slice of the lines; a receipt tells the truth; a write changes its target and missing directories
    only, except that a failed write whose cleanup fails leaves its temporary file beside the target;
    an edit replaces one occurrence. The locale \<open>workspace_port\<close> is what the tools rely on.
  \<^item> \<open>Images\<close>: \<^verbatim>\<open>domain/images.py\<close>: image references, marked chat inputs, the request view and its
    recovery levels.
  \<^item> \<open>Tool_Outcome\<close>, \<open>File_Tools\<close>: \<^verbatim>\<open>domain/agent/tool_outcome.py\<close>, \<^verbatim>\<open>domain/diff.py\<close> and the
    patch, edit and write tools of \<^verbatim>\<open>extensions/tools/builtin\<close>: outcomes and their projections, the
    patch language (the parser accepts exactly the texts of the documented form, with their meaning), hunk matching as the implementation of a
    relational meaning, and the sequence of writes, which changes exactly the files it
    reports. The locale \<open>patch_port\<close> extends \<open>workspace_port\<close>. Five findings are proved.
  \<^item> \<open>Tool_Metadata\<close>, \<open>Tool_Validation\<close>: \<^verbatim>\<open>domain/agent/tool_outcome_validation.py\<close>: the bounded copy of
    metadata, which succeeds exactly within the limits; the collector of secondary failures,
    whose report does not depend on their order; what a hook may change of an outcome, and the
    facts of a failure that tell whether a retry is safe.
  \<^item> \<open>Sanitizer\<close>: \<^verbatim>\<open>services/llm/sanitizer.py\<close>: the last repair of a history before it is sent, over
    \<open>Messages\<close>. What it sends meets the provider's contract, and sending it again changes nothing.
  \<^item> \<open>Replay\<close>: \<^verbatim>\<open>domain/context/replay.py\<close>: canonical values, checks of stored requests, envelopes and
    their hashes, the provenance of messages. A stored envelope is read back and validates; the
    incremental provenance index answers as a new one. A finding is proved.
  \<^item> \<open>Secret_Filter\<close>, \<open>Process_Manager\<close>: \<^verbatim>\<open>domain/process.py\<close> and \<^verbatim>\<open>domain/process_manager.py\<close>: the
    filter that hides secret input however the output is cut into chunks, and the owner of
    process sessions as interleaving regions of its lock: the limit on sessions, the bound on
    input, the single report of completion, and access by owners only. Hidden input stays hidden up to and
    including the poll that reports the exit; that later polls can show it is a finding.
  \<^item> \<open>Rpc_Transport\<close>, \<open>Rpc_Peer\<close>: \<^verbatim>\<open>infrastructure/rpc/transport.py\<close> and \<^verbatim>\<open>infrastructure/rpc/peer.py\<close>, the
    connection between front end and runtime: line frames that arrive whole or not at all; requests,
    reader, workers, notifier and close as interleaving steps, a send being entered and left in two steps
    under its lock. A request gets the first answer to its own number, closing releases every request
    that no write in progress holds up and silences the connection, every request is answered once,
    notifications keep their order. Three findings are proved.
  \<^item> \<open>Transcript\<close>, \<open>Reducer\<close>: \<^verbatim>\<open>presentation/models.py\<close> and \<^verbatim>\<open>presentation/reducer.py\<close>: the bounded transcript
    with its index and cache, and the reduction of every runtime event to its cells. Index, counts and
    cache agree with the cells, also between the reads that fill the cache, limits hold, a completed message never changes, a repeated event does
    nothing. Two findings are proved.
  \<^item> \<open>Context_Tokens\<close>, \<open>Context_Manager\<close>: \<^verbatim>\<open>domain/context/{usage,checkpoint,budget,manager}.py\<close>: estimates of a
    message's size and their cache, observed usage and the calibration of each provider profile,
    thresholds, and the snip, summary and collapse strategies, automatic or forced. A rewrite
    commits once, with a checkpoint of the new history, or changes nothing; what was said is
    dropped from the front only, apart from what a provider's own compactor replaced; predictions follow the observed usage.
  \<^item> \<open>Context_Summary\<close>: \<^verbatim>\<open>domain/context/summary.py\<close>: the deterministic summary document, the document a
    model proposes, its validation, repair attempt and merge. Whatever the model answers, the result meets
    the schema, keeps every deterministic fact and every list item the merge adds.
  \<^item> \<open>Session_Models\<close>, \<open>Session_Validation\<close>, \<open>Session_Repair\<close>:
    \<^verbatim>\<open>infrastructure/persistence/session_paths.py\<close>, \<^verbatim>\<open>domain/session/models.py\<close> and
    \<^verbatim>\<open>infrastructure/persistence/session_validation.py\<close>: paths that do not collide, save through the old plain
    names where case is ignored (a finding), the runtime
    state of a session and its bounded previews, the checks of stored records, and the repair of a
    session written by an earlier version, which is final and counts every issue it found.
  \<^item> \<open>Remote_Relay\<close>: \<^verbatim>\<open>extensions/remote_exec/{auth,peer_registry,server}.py\<close>: tokens, peers,
    correlation of requests and answers, disconnection, pruning. Registrations on the threads of the HTTP
    server are cut between the check of a bootstrap token and its mark: a spent token admits only
    registrations that overlapped, and that it can admit two is a finding.

  \<^bold>\<open>Conventions.\<close> A class is a record, a method a function on it, a raised exception the left
  side of a sum. Time, fresh identifiers, secrets and the outcome of writes are arguments, so
  every theorem holds for all of them; freshness is a hypothesis where it matters. Code the
  modules only call (hooks, factories, sinks, transports, serialisers) is a function argument
  that may also raise. Operations of a component form a step function, and invariants are
  proved for all runs through the locales. Sections guarded by a lock are atomic steps;
  where several threads meet (the coordinator, the process manager, the RPC peer, the relay's
  event loop) the steps interleave.

  \<^bold>\<open>Termination.\<close> No definition uses fuel. Loops are structural recursions, or functions with a
  measure: the binary searches of the buffer and of a session's previews (the length of the interval), the ordering loop
  (ready extensions plus remaining edges), the patch parser (remaining lines) and the UTF-8
  and line scanners (remaining text). The edit's retry loop has the three attempts of the code.

  \<^bold>\<open>Limits of the model.\<close> Strings are lists of characters below 256, except in \<open>Text_Buffer\<close> and the
  workspace theories, where they are lists of code points. Path resolution, the hash function and
  the unified diff are function arguments.
  Times are exact reals. Python's process-level exceptions (interrupts raised inside hooks)
  are modelled only in the coordinator. Error messages that interpolate numbers are shortened.
  Each theory's own header lists what it leaves out.

  \<^bold>\<open>Not modelled\<close>: the agent loop with its request projection and tool execution, which compose the
  parts above with provider streams and threads; listing, globbing and searching of the workspace
  and the files of the session store, which are directory and database access around the modelled
  text, name and validation functions; the language model providers and the MCP and LSP clients,
  which adapt third-party protocols; sub-agents; the HTTP transport and Go peer of remote execution;
  and the renderers of the user interfaces.
\<close>

section \<open>Controllers that share a history\<close>

text \<open>
  An agent's goal and plan controllers write to the same ledger. Here they run together: an
  operation of one appends to the ledger the other reads, and other components append events
  of their own kinds.
\<close>

record session_control =
  ss_goal :: goal_controller
  ss_plan :: plan_controller

datatype session_op =
    On_Goal goal_op
  | On_Plan plan_op
  | On_Ledger "bool \<times> attribution \<times> stamp" string json

definition set_ledger :: "ledger \<Rightarrow> session_control \<Rightarrow> session_control" where
  "set_ledger l s = s\<lparr>ss_goal := (ss_goal s)\<lparr>gc_ledger := l\<rparr>, ss_plan := (ss_plan s)\<lparr>pc_ledger := l\<rparr>\<rparr>"

fun session_step ::
    "(json \<Rightarrow> string) \<Rightarrow> session_control \<Rightarrow> session_op \<Rightarrow> (unit, session_control) result" where
  "session_step py_str s (On_Goal x) =
     (case goal_step (ss_goal s) x of
        Inl _ \<Rightarrow> Inl ()
      | Inr gc \<Rightarrow> Inr (set_ledger (gc_ledger gc) (s\<lparr>ss_goal := gc\<rparr>)))"
| "session_step py_str s (On_Plan x) =
     (case plan_step py_str (ss_plan s) x of
        Inl _ \<Rightarrow> Inl ()
      | Inr pc \<Rightarrow> Inr (set_ledger (pc_ledger pc) (s\<lparr>ss_plan := pc\<rparr>)))"
| "session_step py_str s (On_Ledger x kind payload) =
     Inr (set_ledger (ledger_record x (gc_ledger (ss_goal s)) kind payload) s)"

text \<open>The conditions of recovery: writes succeed, call ids are not empty, explanations do not end in a space after they were
  cut, nobody else writes the controllers' events, and the runtime is neither reset nor restored on the way.\<close>

fun session_quiet :: "session_op \<Rightarrow> bool" where
  "session_quiet (On_Goal x) \<longleftrightarrow> quiet_op x \<and> op_env x \<noteq> None"
| "session_quiet (On_Plan x) \<longleftrightarrow> plan_quiet x \<and> (\<forall>y kind payload. x \<noteq> Plan_Foreign y kind payload)"
| "session_quiet (On_Ledger x kind payload) \<longleftrightarrow>
     kind \<notin> {''goal_changed'', ''runtime_reset'', ''plan_updated'', ''progress_reported''}"

definition session_inv :: "(json \<Rightarrow> string) \<Rightarrow> session_control \<Rightarrow> bool" where
  "session_inv py_str s \<longleftrightarrow> goal_inv (ss_goal s) \<and> synced (ss_goal s) \<and> mirrors py_str (ss_plan s) \<and>
     gc_ledger (ss_goal s) = pc_ledger (ss_plan s)"

text \<open>A goal operation adds at most one event, a goal event; a plan operation at most one plan event.\<close>

lemma goal_step_ledger:
  assumes "goal_inv gc" "quiet_op x" "goal_step gc x = Inr gc'" "op_env x \<noteq> None"
  obtains "gc_ledger gc' = gc_ledger gc"
  | e where "lg_events (gc_ledger gc') = lg_events (gc_ledger gc) @ [e]" "he_kind e = ''goal_changed''"
      "lg_generation (gc_ledger gc') = lg_generation (gc_ledger gc)"
  using assms(1) quiet_not_restore [OF assms(2)] assms(3)
proof (cases rule: goal_step_shape)
  case 1
  with that(1) show ?thesis by simp
next
  case (2 env g)
  obtain gc1 failure where c: "commit_goal env gc g = (gc1, failure)" by fastforce
  have "lg_generation (gc_ledger gc1) = lg_generation (gc_ledger gc)"
    using c by (auto simp: commit_goal_def split: prod.splits sum.splits dest: append_event_frame(3))
  with 2 c commit_goal_cases(3) [OF c] that(2) show ?thesis by (simp add: make_event_def)
next
  case (3 y kind payload)
  with assms(4) show ?thesis by simp
qed

lemma plan_step_ledger:
  assumes "plan_step py_str pc x = Inr pc'" "\<forall>y kind payload. x \<noteq> Plan_Foreign y kind payload"
  obtains "pc_ledger pc' = pc_ledger pc"
  | e where "lg_events (pc_ledger pc') = lg_events (pc_ledger pc) @ [e]"
      "he_kind e \<in> {''plan_updated'', ''progress_reported''}"
proof (cases x)
  case (Plan_Update env raws ex i g)
  then show ?thesis
    using assms(1) that
    by (auto simp: update_plan_def Let_def persist_or_require_recovery_def make_event_def
        split: sum.splits option.splits if_splits prod.splits dest!: append_event_frame(1))
next
  case (Plan_Report env ph su nx i g)
  then show ?thesis
    using assms(1) that
    by (auto simp: report_progress_def Let_def persist_or_require_recovery_def make_event_def
        split: sum.splits option.splits if_splits prod.splits dest!: append_event_frame(1))
next
  case (Plan_Foreign y kind payload)
  with assms(2) show ?thesis by blast
qed

lemma synced_foreign:
  assumes "synced gc" "lg_events l = lg_events (gc_ledger gc) @ [e]"
    "he_kind e \<notin> {''goal_changed'', ''runtime_reset''}"
  shows "synced (gc\<lparr>gc_ledger := l\<rparr>)"
  using assms by (simp add: synced_def)

lemma set_ledger_fields [simp]:
  "ss_goal (set_ledger l s) = (ss_goal s)\<lparr>gc_ledger := l\<rparr>" "ss_plan (set_ledger l s) = (ss_plan s)\<lparr>pc_ledger := l\<rparr>"
  by (simp_all add: set_ledger_def)

lemma goal_inv_ledger [simp]: "goal_inv (gc\<lparr>gc_ledger := l\<rparr>) = goal_inv gc"
  by (simp add: goal_inv_def)

lemma session_goal_step:
  assumes inv: "session_inv py_str s" and q: "quiet_op x" "op_env x \<noteq> None"
    and step: "goal_step (ss_goal s) x = Inr gc"
  shows "session_inv py_str (set_ledger (gc_ledger gc) (s\<lparr>ss_goal := gc\<rparr>))"
proof -
  have i: "goal_inv (ss_goal s)" "synced (ss_goal s)" "mirrors py_str (ss_plan s)"
    and l: "pc_ledger (ss_plan s) = gc_ledger (ss_goal s)"
    using inv by (simp_all add: session_inv_def)
  have "mirrors py_str ((ss_plan s)\<lparr>pc_ledger := gc_ledger gc\<rparr>)"
    using i(1) q(1) step q(2)
  proof (cases rule: goal_step_ledger)
    case 1
    with i(3) l show ?thesis by (metis plan_controller.surjective plan_controller.update_convs(3))
  next
    case (2 e)
    with l show ?thesis by (intro mirrors_foreign [OF i(3), of "''goal_changed''"]) simp_all
  qed
  with goal_step_inv [OF i(1) quiet_not_restore [OF q(1)] step] goal_step_synced [OF i(1,2) q(1) step] show ?thesis
    by (simp add: session_inv_def)
qed

lemma session_plan_step:
  assumes inv: "session_inv py_str s" and q: "plan_quiet x" "\<forall>y kind payload. x \<noteq> Plan_Foreign y kind payload"
    and step: "plan_step py_str (ss_plan s) x = Inr pc"
  shows "session_inv py_str (set_ledger (pc_ledger pc) (s\<lparr>ss_plan := pc\<rparr>))"
proof -
  have i: "goal_inv (ss_goal s)" "synced (ss_goal s)" "mirrors py_str (ss_plan s)"
    and l: "pc_ledger (ss_plan s) = gc_ledger (ss_goal s)"
    using inv by (simp_all add: session_inv_def)
  have "synced ((ss_goal s)\<lparr>gc_ledger := pc_ledger pc\<rparr>)"
    using step q(2)
  proof (cases rule: plan_step_ledger)
    case 1
    with i(2) l show ?thesis by (simp add: synced_def)
  next
    case (2 e)
    with l show ?thesis by (intro synced_foreign [OF i(2), of _ e]) auto
  qed
  with i plan_step_mirrors [OF i(3) q(1) step] show ?thesis
    by (simp add: session_inv_def)
qed

lemma session_ledger_step:
  assumes inv: "session_inv py_str s" and q: "session_quiet (On_Ledger x kind payload)"
  shows "session_inv py_str (set_ledger (ledger_record x (gc_ledger (ss_goal s)) kind payload) s)"
proof -
  have i: "goal_inv (ss_goal s)" "synced (ss_goal s)" "mirrors py_str (ss_plan s)"
    and l: "pc_ledger (ss_plan s) = gc_ledger (ss_goal s)"
    using inv by (simp_all add: session_inv_def)
  obtain ok who st where x: "x = (ok, who, st)" by (cases x)
  let ?l = "ledger_record x (gc_ledger (ss_goal s)) kind payload"
  let ?e = "make_event (gc_ledger (ss_goal s)) kind payload who st"
  have e: "lg_events ?l = lg_events (gc_ledger (ss_goal s)) @ [?e]" "he_kind ?e = kind"
    "lg_generation ?l = lg_generation (gc_ledger (ss_goal s))"
    by (simp_all add: x ledger_record_def append_event_fst(1,3) make_event_def)
  have "mirrors py_str ((ss_plan s)\<lparr>pc_ledger := ?l\<rparr>)"
    by (rule mirrors_foreign [OF i(3) _ _ e(2)]) (use q e l in simp_all)
  moreover have "synced ((ss_goal s)\<lparr>gc_ledger := ?l\<rparr>)"
    by (rule synced_foreign [OF i(2) e(1)]) (use q e(2) in simp)
  ultimately show ?thesis using i(1) by (simp add: session_inv_def)
qed

lemma session_run_inv:
  "session_inv py_str s \<Longrightarrow> list_all session_quiet ops \<Longrightarrow>
   session_inv py_str (run_ops (session_step py_str) s ops)"
proof (induction ops arbitrary: s)
  case (Cons x ops)
  have "session_inv py_str (case session_step py_str s x of Inl _ \<Rightarrow> s | Inr s' \<Rightarrow> s')"
  proof (cases x)
    case (On_Goal y)
    with Cons.prems session_goal_step show ?thesis by (auto split: sum.splits)
  next
    case (On_Plan y)
    with Cons.prems session_plan_step show ?thesis by (auto split: sum.splits)
  next
    case (On_Ledger y kind payload)
    with Cons.prems session_ledger_step show ?thesis by auto
  qed
  with Cons show ?case by simp
qed simp

section \<open>Properties\<close>

definition fresh_session :: "string \<Rightarrow> int \<Rightarrow> ledger \<Rightarrow> session_control" where
  "fresh_session agent_id generation l =
     \<lparr>ss_goal = fresh_goal_controller l 0, ss_plan = fresh_plan_controller agent_id generation l\<rparr>"

definition ex_session_ops :: "session_op list" where
  "ex_session_ops = [On_Goal (Create_Goal (ex_env ''g'') ''port the parser'' (Some 100)),
     On_Plan (Plan_Report (ex_plan_env ''p'') ''implementing'' ''half done'' None ''call1'' 0),
     On_Ledger (True, no_attribution, ex_stamp ''n'') ''note'' JNull,
     On_Goal (Record_Usage (ex_env ''u'') ''g'' ex_usage)]"

lemma fresh_session_inv:
  assumes "\<forall>e\<in>set (lg_events l). he_kind e \<notin> {''goal_changed'', ''runtime_reset'', ''plan_updated'', ''progress_reported''}"
    and "lg_generation l = generation"
  shows "session_inv py_str (fresh_session agent_id generation l)"
proof -
  have "synced (fresh_goal_controller l 0) \<and> mirrors py_str (fresh_plan_controller agent_id generation l)"
    if "lg_events l = es" "\<forall>e\<in>set es. he_kind e \<notin> {''goal_changed'', ''runtime_reset'', ''plan_updated'', ''progress_reported''}"
      "lg_generation l = generation" for es l
    using that
  proof (induction es arbitrary: l rule: rev_induct)
    case Nil
    then show ?case
      by (simp add: fresh_goal_controller_def fresh_plan_controller_def synced_def mirrors_def restore_plan_state_def
          restore_progress_state_def initial_plan_def initial_progress_def)
  next
    case (snoc e es)
    have IH: "synced (fresh_goal_controller (l\<lparr>lg_events := es\<rparr>) 0)"
      "mirrors py_str (fresh_plan_controller agent_id generation (l\<lparr>lg_events := es\<rparr>))"
      using snoc.IH [of "l\<lparr>lg_events := es\<rparr>"] snoc.prems by simp_all
    have "synced (fresh_goal_controller l 0)"
      using synced_foreign [OF IH(1), of l e] snoc.prems by (simp add: fresh_goal_controller_def)
    moreover have "mirrors py_str (fresh_plan_controller agent_id generation l)"
      using mirrors_foreign [OF IH(2), where l = l and e = e and kind = "he_kind e"] snoc.prems by (simp add: fresh_plan_controller_def)
    ultimately show ?case by blast
  qed
  from this [OF refl assms] show ?thesis
    by (simp add: session_inv_def fresh_session_def goal_inv_def fresh_goal_controller_def fresh_plan_controller_def)
qed

text \<open>C26: The goal and plan controllers of an agent share one history without disturbing each other. They start on a
  history with events of other components only. Then, after any interleaving of goal operations, plan updates, progress reports and
  events of other components, restoring the goal from the history alone gives the current goal, and
  recovering the plan controller gives the current plan, progress and idempotency table. This is under the conditions
  of a quiet session: every history write succeeds, tool call ids are not empty, no explanation ends in a space
  after it was cut to 500 characters, and no other component writes events of the controllers or resets the
  runtime. The conditions on writes and on explanations are needed (failed_write_is_recovered below and
  retry_refused_after_recovery in Plan show what happens without them).\<close>

theorem controllers_share_history:
  assumes "list_all session_quiet ops"
    and "\<forall>e\<in>set (lg_events l). he_kind e \<notin> {''goal_changed'', ''runtime_reset'', ''plan_updated'', ''progress_reported''}"
    and "lg_generation l = generation"
    and "s = run_ops (session_step py_str) (fresh_session agent_id generation l) ops"
  shows "restore_goal clk (ss_goal s) None (lg_events (gc_ledger (ss_goal s))) =
      Some ((ss_goal s)\<lparr>gc_clock := clk\<rparr>) \<and>
    (\<exists>found. recover_from_ledger py_str (ss_plan s) = Inr (ss_plan s, found)) \<and>
    gc_ledger (ss_goal s) = pc_ledger (ss_plan s)"
proof -
  from session_run_inv [OF fresh_session_inv [OF assms(2,3)] assms(1)] have "session_inv py_str s" using assms(4) by simp
  then have "synced (ss_goal s)" "mirrors py_str (ss_plan s)" "gc_ledger (ss_goal s) = pc_ledger (ss_plan s)"
    by (simp_all add: session_inv_def)
  moreover from this(1) have "restore_goal clk (ss_goal s) None (lg_events (gc_ledger (ss_goal s))) =
      Some ((ss_goal s)\<lparr>gc_clock := clk\<rparr>)"
    by (simp add: synced_def restore_goal_def)
  ultimately show ?thesis using mirrors_recover by blast
qed

theorem controllers_share_history_witness:
  "let s = run_ops (session_step (\<lambda>_. [])) (fresh_session ''main'' 0 ex_ledger) ex_session_ops
   in restore_goal 7 (ss_goal s) None (lg_events (gc_ledger (ss_goal s))) = Some ((ss_goal s)\<lparr>gc_clock := 7\<rparr>) \<and>
      (\<exists>found. recover_from_ledger (\<lambda>_. []) (ss_plan s) = Inr (ss_plan s, found))"
proof -
  have "list_all session_quiet ex_session_ops" by (simp add: ex_session_ops_def ex_env_def ex_plan_env_def)
  moreover have "\<forall>e\<in>set (lg_events ex_ledger). he_kind e \<notin> {''goal_changed'', ''runtime_reset'', ''plan_updated'', ''progress_reported''}"
    "lg_generation ex_ledger = 0" by (simp_all add: ex_ledger_def)
  ultimately show ?thesis
    unfolding Let_def
    using controllers_share_history [of ex_session_ops ex_ledger 0 _ "\<lambda>_. []" "''main''" 7] by blast
qed

text \<open>When the write of a goal event fails, the operation raises and keeps the old goal, but the event stays in the history
  in memory: restoring from it gives the goal that was refused.\<close>

theorem failed_write_is_recovered:
  "let gc = fst (create_goal (ex_env ''g''\<lparr>ge_write_ok := False\<rparr>) 
       (fresh_goal_controller (ex_ledger\<lparr>lg_sink_path := Some ''history.jsonl''\<rparr>) 0) ''port the parser'' None)
   in gc_goal gc = None \<and>
      map_option (map_option go_objective) (restored_goal None (rev (lg_events (gc_ledger gc)))) = Some (Some ''port the parser'')"
  by code_simp

end
